(* ===== verification/Prelude.thy ===== *)
theory Prelude
  imports Main "HOL-Library.Word"
begin

text \<open>
  Shared vocabulary of the development: the C integer types of the program as machine words,
  byte memories with block reads and writes, and the small lemmas about words and lists that
  the component theories rewrite with.
\<close>

unbundle bit_operations_syntax

section \<open>C integer types\<close>

type_synonym u8 = "8 word"
type_synonym u16 = "16 word"
type_synonym u32 = "32 word"
type_synonym u64 = "64 word"

named_theorems word_nat \<open>facts that move a C expression from words to natural numbers\<close>

lemma unat_of_nat_small [word_nat]:
  "n < 2 ^ LENGTH('a::len) \<Longrightarrow> unat (of_nat n :: 'a word) = n"
  by (simp add: unat_of_nat take_bit_nat_eq_self)

lemma unat_add_small [word_nat]:
  fixes a b :: "'a::len word"
  shows "unat a + unat b < 2 ^ LENGTH('a) \<Longrightarrow> unat (a + b) = unat a + unat b"
  by (simp add: unat_word_ariths)

lemma unat_sub_small [word_nat]:
  fixes a b :: "'a::len word"
  shows "b \<le> a \<Longrightarrow> unat (a - b) = unat a - unat b"
  by (rule unat_sub)

lemma unat_ucast_up [word_nat]:
  fixes a :: "'a::len word"
  shows "LENGTH('a) \<le> LENGTH('b::len) \<Longrightarrow> unat (ucast a :: 'b word) = unat a"
  by (simp add: unsigned_ucast_eq take_bit_nat_eq_self
      order_less_le_trans [OF unsigned_less [of a, where 'a = nat] power_increasing])

lemma unat_ucast_small [word_nat]:
  fixes a :: "'a::len word"
  shows "unat a < 2 ^ LENGTH('b::len) \<Longrightarrow> unat (ucast a :: 'b word) = unat a"
  by (simp add: unsigned_ucast_eq take_bit_nat_eq_self)

lemma unat_u8_less [simp]: "unat (x :: u8) < 256"
  using unsigned_less [of x] by simp

lemma unat_u16_less [simp]: "unat (x :: u16) < 65536"
  using unsigned_less [of x] by simp

lemma unat_u32_less [simp]: "unat (x :: u32) < 4294967296"
  using unsigned_less [of x] by simp

section \<open>Assembling words from bytes\<close>

lemma or_push_nat: "a < 2 ^ n \<Longrightarrow> push_bit n b OR a = b * 2 ^ n + (a :: nat)"
proof -
  assume "a < 2 ^ n"
  then have a: "a = take_bit n a" by (simp add: take_bit_nat_eq_self)
  have "push_bit n b AND a = 0"
    by (subst a) (auto simp: bit_eq_iff bit_simps)
  then have "push_bit n b OR a = push_bit n b + a" by (rule disjunctive_add_eq_or [symmetric])
  then show ?thesis by (simp add: push_bit_nat_def)
qed

lemma unat_push_bit_small:
  "unat w * 2 ^ n < 2 ^ LENGTH('a) \<Longrightarrow> unat (push_bit n (w :: 'a::len word)) = unat w * 2 ^ n"
  by (simp add: unsigned_push_bit_eq take_bit_nat_eq_self push_bit_nat_def)

lemma unat_or_push:
  assumes "unat b < 2 ^ n" and "unat a * 2 ^ n < 2 ^ LENGTH('a)"
  shows "unat (push_bit n a OR (b :: 'a::len word)) = unat a * 2 ^ n + unat b"
  using or_push_nat [OF assms(1), of "unat a"] assms(2)
  by (simp add: unsigned_or_eq unat_push_bit_small push_bit_nat_def)

lemma unat_drop_bit: "unat (drop_bit n (w :: 'a::len word)) = unat w div 2 ^ n"
  by (simp add: unsigned_drop_bit_eq drop_bit_nat_def take_bit_nat_eq_self unsigned_less)

lemma unat_u8_below: "256 \<le> n \<Longrightarrow> unat (x :: u8) < n"
  by (rule less_le_trans [OF unat_u8_less])

section \<open>Byte memories\<close>

text \<open>
  A memory maps an offset to a byte. \<open>mem_write a d m\<close> stores the block \<open>d\<close> at offset \<open>a\<close>;
  \<open>mem_read a n m\<close> is the block of \<open>n\<close> bytes at \<open>a\<close>.
\<close>

type_synonym 'a memory = "nat \<Rightarrow> 'a"

definition mem_write :: "nat \<Rightarrow> 'a list \<Rightarrow> 'a memory \<Rightarrow> 'a memory" where
  "mem_write a d m = (\<lambda>i. if a \<le> i \<and> i < a + length d then d ! (i - a) else m i)"

definition mem_read :: "nat \<Rightarrow> nat \<Rightarrow> 'a memory \<Rightarrow> 'a list" where
  "mem_read a n m = map m [a..<a + n]"

named_theorems mem_simps \<open>rewriting of block reads and writes\<close>

lemma mem_write_Nil [simp, mem_simps]: "mem_write a [] m = m"
  by (rule ext) (auto simp: mem_write_def)

lemma length_mem_read [simp]: "length (mem_read a n m) = n"
  by (simp add: mem_read_def)

lemma nth_mem_read [simp]: "i < n \<Longrightarrow> mem_read a n m ! i = m (a + i)"
  by (simp add: mem_read_def)

lemma mem_read_map: "mem_read a n m = map (\<lambda>i. m (a + i)) [0..<n]"
  by (rule nth_equalityI) simp_all

lemma mem_write_outside [mem_simps]:
  "i < a \<or> a + length d \<le> i \<Longrightarrow> mem_write a d m i = m i"
  by (auto simp: mem_write_def)

lemma mem_write_inside [mem_simps]:
  "i < length d \<Longrightarrow> mem_write a d m (a + i) = d ! i"
  by (simp add: mem_write_def)

lemma mem_read_write_same [mem_simps]: "mem_read a (length d) (mem_write a d m) = d"
  by (rule nth_equalityI) (auto simp: mem_write_def)

lemma mem_read_write_disjoint [mem_simps]:
  "a + n \<le> b \<or> b + length d \<le> a \<Longrightarrow> mem_read a n (mem_write b d m) = mem_read a n m"
  by (rule nth_equalityI) (auto simp: mem_write_def)

lemma mem_write_append:
  "b = a + length d1 \<Longrightarrow> mem_write b d2 (mem_write a d1 m) = mem_write a (d1 @ d2) m"
  by (rule ext) (auto simp: mem_write_def nth_append)

lemma mem_write_write [mem_simps]:
  "length d1 = length d2 \<Longrightarrow> mem_write a d2 (mem_write a d1 m) = mem_write a d2 m"
  by (rule ext) (auto simp: mem_write_def)

lemma mem_write_read_back [mem_simps]: "mem_write a (mem_read a n m) m = m"
  by (rule ext) (auto simp: mem_write_def)

section \<open>Lists\<close>

lemma take_drop_split: "n \<le> m \<Longrightarrow> take n (drop k xs) @ take (m - n) (drop (k + n) xs) = take m (drop k xs)"
  by (metis add.commute drop_drop le_add_diff_inverse take_add)

text \<open>An update that keeps a field keeps it at every index.\<close>

lemma nth_list_update_same_field:
  assumes "f y = f (xs ! i)"
  shows "f (xs[i := y] ! j) = f (xs ! j)"
proof (cases "i = j \<and> j < length xs")
  case True
  then show ?thesis using assms by auto
next
  case False
  then show ?thesis by (cases "i = j") (auto simp: list_update_beyond)
qed

end
