(* ===== verification/I2C_Bus.thy ===== *)
theory I2C_Bus
  imports Prelude
begin

text \<open>
  The I2C layer shared by the drivers: the SDK's transfer descriptor
  (\<^verbatim>\<open>drivers/fsl_lpi2c.h\<close>), the one-time bus initialisation and the bus scan of
  \<^verbatim>\<open>drivers/My_I2C_driver.c\<close>. The peripheral, the wire and the devices on it are the
  environment: a blocking transfer is a function of the descriptor and of the state \<open>'w\<close> of
  the world beyond the pins, and gives the status, the data buffer after the call and the new
  world.
\<close>

section \<open>Status codes and the transfer descriptor\<close>

type_synonym status_t = "32 word"

definition kStatus_Success :: status_t where "kStatus_Success = 0"
definition kStatus_Fail :: status_t where "kStatus_Fail = 1"

lemma kStatus_neq [simp]: "kStatus_Success \<noteq> kStatus_Fail" "kStatus_Fail \<noteq> kStatus_Success"
  by (simp_all add: kStatus_Success_def kStatus_Fail_def)

datatype lpi2c_direction_t = kLPI2C_Write | kLPI2C_Read

definition kLPI2C_TransferDefaultFlag :: u32 where "kLPI2C_TransferDefaultFlag = 0"

record lpi2c_master_transfer_t =
  flags :: u32
  slaveAddress :: u16
  direction :: lpi2c_direction_t
  subaddress :: u32
  subaddressSize :: u32
  xdata :: "u8 list"
  dataSize :: u32

type_synonym 'w i2c_transfer = "lpi2c_master_transfer_t \<Rightarrow> 'w \<Rightarrow> status_t \<times> u8 list \<times> 'w"

text \<open>
  A device wrapper that remembers every transfer a driver issues, oldest first: it is used to
  state what a driver puts on the bus, whatever the device answers.
\<close>

definition traced :: "'w i2c_transfer \<Rightarrow> ('w \<times> lpi2c_master_transfer_t list) i2c_transfer" where
  "traced xfer t s = (case xfer t (fst s) of (st, buf, w) \<Rightarrow> (st, buf, (w, snd s @ [t])))"

section \<open>One-time bus initialisation\<close>

definition LPI2C_BAUDRATE :: u32 where "LPI2C_BAUDRATE = 100000"

datatype i2c_init_event = LPI2C2_InitPins | LPI2C_MasterInit u32 u32

record i2c_driver =
  isI2cInitialized :: bool
  i2c_init_events :: "i2c_init_event list"

definition i2c_driver_boot :: i2c_driver where
  "i2c_driver_boot = \<lparr>isI2cInitialized = False, i2c_init_events = []\<rparr>"

text \<open>\<open>clk\<close> is the value \<^verbatim>\<open>CLOCK_GetLPFlexCommClkFreq(2u)\<close> returns.\<close>

definition I2C_Bus_Init :: "u32 \<Rightarrow> i2c_driver \<Rightarrow> i2c_driver" where
  "I2C_Bus_Init clk d =
     (if isI2cInitialized d then d
      else d\<lparr>isI2cInitialized := True,
             i2c_init_events := i2c_init_events d @ [LPI2C2_InitPins, LPI2C_MasterInit LPI2C_BAUDRATE clk]\<rparr>)"

lemma I2C_Bus_Init_idem: "I2C_Bus_Init clk' (I2C_Bus_Init clk d) = I2C_Bus_Init clk d"
  by (simp add: I2C_Bus_Init_def)

lemma I2C_Bus_Init_done [simp]: "isI2cInitialized (I2C_Bus_Init clk d)"
  by (simp add: I2C_Bus_Init_def)

lemma fold_I2C_Bus_Init: "isI2cInitialized d \<Longrightarrow> fold I2C_Bus_Init clks d = d"
  by (induction clks arbitrary: d) (simp_all add: I2C_Bus_Init_def)

section \<open>Bus scan\<close>

definition scan_request :: "u8 \<Rightarrow> lpi2c_master_transfer_t" where
  "scan_request addr = \<lparr>flags = kLPI2C_TransferDefaultFlag, slaveAddress = ucast addr,
     direction = kLPI2C_Write, subaddress = 0, subaddressSize = 0, xdata = [], dataSize = 0\<rparr>"

text \<open>
  The loop of \<^verbatim>\<open>I2C_ScanBus\<close> over the 7-bit addresses: the devices found, in order, the
  8-bit count \<^verbatim>\<open>foundCount\<close> and the world afterwards. The loop variable is a byte and the
  last address is below 255, so the increment cannot wrap.
\<close>

fun scan_loop :: "'w i2c_transfer \<Rightarrow> u8 list \<Rightarrow> u8 \<Rightarrow> 'w \<Rightarrow> u8 list \<times> u8 \<times> 'w" where
  "scan_loop xfer [] foundCount w = ([], foundCount, w)"
| "scan_loop xfer (addr # addrs) foundCount w =
     (case xfer (scan_request addr) w of (status, _, w') \<Rightarrow>
        (if status = kStatus_Success
         then (case scan_loop xfer addrs (foundCount + 1) w' of (fs, c, w'') \<Rightarrow> (addr # fs, c, w''))
         else scan_loop xfer addrs foundCount w'))"

definition scan_addresses :: "u8 list" where
  "scan_addresses = map of_nat [0x03..<0x78]"

definition I2C_ScanBus :: "'w i2c_transfer \<Rightarrow> 'w \<Rightarrow> u8 list \<times> u8 \<times> 'w" where
  "I2C_ScanBus xfer w = scan_loop xfer scan_addresses 0 w"

lemma scan_loop_count:
  "scan_loop xfer addrs c w = (fs, n, w') \<Longrightarrow> n = c + of_nat (length fs) \<and> length fs \<le> length addrs"
proof (induction addrs arbitrary: c w fs n w')
  case Nil
  then show ?case by simp
next
  case (Cons a addrs)
  then show ?case
    by (fastforce split: prod.splits if_splits)
qed

lemma scan_loop_stateless:
  assumes "\<And>a w. \<exists>buf. xfer (scan_request a) w = (status_of a, buf, w)"
  shows "fst (scan_loop xfer addrs c w) = filter (\<lambda>a. status_of a = kStatus_Success) addrs"
proof (induction addrs arbitrary: c)
  case Nil
  then show ?case by simp
next
  case (Cons a addrs)
  obtain buf where "xfer (scan_request a) w = (status_of a, buf, w)"
    using assms by blast
  with Cons.IH [of c] Cons.IH [of "c + 1"] show ?case
    by (auto split: prod.splits)
qed

end
