(* ===== verification/Eeprom.thy ===== *)
theory Eeprom
  imports I2C_Bus
begin

text \<open>
  The AT24C32 driver of \<^verbatim>\<open>drivers/My_I2C_eeprom.c\<close>: single-page writes, the write loop that
  splits a block at the 32-byte pages, sequential reads, and the probe that \<^verbatim>\<open>EEPROM_Init\<close>
  performs. The chip itself is the environment: what the driver relies on is the locale
  \<open>at24c32\<close> (a page write inside one page stores the block, a read returns it, the chip is
  ready again after 5 ms), and a simulated chip with page roll-over and a write cycle
  satisfies it.
\<close>

section \<open>Driver\<close>

datatype eeprom_status_t = kEeprom_Ok | kEeprom_I2cError | kEeprom_InvalidAddress | kEeprom_LengthOverflow

definition EEPROM_I2C_ADDR :: u16 where "EEPROM_I2C_ADDR = 0x50"
definition EEPROM_TOTAL_BYTES :: nat where "EEPROM_TOTAL_BYTES = 4096"
definition EEPROM_PAGE_SIZE :: u16 where "EEPROM_PAGE_SIZE = 32"

definition eeprom_subaddress :: "u16 \<Rightarrow> u32" where
  "eeprom_subaddress address =
     (let hi = (ucast ((drop_bit 8 address) AND 0xFF) :: u8);
          lo = (ucast (address AND 0xFF) :: u8)
      in (push_bit 8 (ucast hi)) OR ucast lo)"

definition eeprom_write_request :: "u16 \<Rightarrow> u8 list \<Rightarrow> u8 \<Rightarrow> lpi2c_master_transfer_t" where
  "eeprom_write_request address d len = \<lparr>flags = kLPI2C_TransferDefaultFlag,
     slaveAddress = EEPROM_I2C_ADDR, direction = kLPI2C_Write,
     subaddress = eeprom_subaddress address, subaddressSize = 2,
     xdata = d, dataSize = ucast len\<rparr>"

definition eeprom_read_request :: "u16 \<Rightarrow> u8 list \<Rightarrow> u16 \<Rightarrow> lpi2c_master_transfer_t" where
  "eeprom_read_request address buf len = \<lparr>flags = kLPI2C_TransferDefaultFlag,
     slaveAddress = EEPROM_I2C_ADDR, direction = kLPI2C_Read,
     subaddress = eeprom_subaddress address, subaddressSize = 2,
     xdata = buf, dataSize = ucast len\<rparr>"

definition EEPROM_Write_Raw_Page ::
    "'w i2c_transfer \<Rightarrow> u16 \<Rightarrow> u8 list \<Rightarrow> u8 \<Rightarrow> 'w \<Rightarrow> status_t \<times> 'w" where
  "EEPROM_Write_Raw_Page xfer address d len w =
     (case xfer (eeprom_write_request address d len) w of (st, _, w') \<Rightarrow> (st, w'))"

text \<open>The size of the next burst: what is left, clamped to the end of the page.\<close>

definition eeprom_chunk :: "u16 \<Rightarrow> u16 \<Rightarrow> u8" where
  "eeprom_chunk current_addr remaining_bytes =
     (let page_offset = (ucast (current_addr mod EEPROM_PAGE_SIZE) :: u8);
          max_page_writable = (ucast EEPROM_PAGE_SIZE - page_offset :: u8)
      in if unat remaining_bytes < unat max_page_writable
         then ucast remaining_bytes else max_page_writable)"

lemma unat_eeprom_chunk:
  "unat (eeprom_chunk a r) = min (unat r) (32 - unat a mod 32)"
proof -
  have offset: "unat (ucast (a mod 32) :: u8) = unat a mod 32"
    by (simp add: unsigned_ucast_eq unat_mod take_bit_nat_eq_self)
  have "unat a mod 32 < 32" by simp
  then have "(ucast (a mod 32) :: u8) \<le> 32"
    by (simp add: word_le_nat_alt offset)
  then have page: "unat (32 - ucast (a mod 32) :: u8) = 32 - unat a mod 32"
    by (simp add: unat_sub offset)
  show ?thesis
  proof (cases "unat r < 32 - unat a mod 32")
    case True
    then have "unat r < 256" by simp
    then have "unat (ucast r :: u8) = unat r"
      by (simp add: unsigned_ucast_eq take_bit_nat_eq_self)
    with True show ?thesis
      by (simp add: eeprom_chunk_def EEPROM_PAGE_SIZE_def Let_def page)
  next
    case False
    then show ?thesis
      by (simp add: eeprom_chunk_def EEPROM_PAGE_SIZE_def Let_def page)
  qed
qed

lemma eeprom_chunk_pos: "0 < unat r \<Longrightarrow> 0 < unat (eeprom_chunk a r)"
  by (simp add: unat_eeprom_chunk)

lemma eeprom_chunk_le: "unat (eeprom_chunk a r) \<le> unat r"
  by (simp add: unat_eeprom_chunk)

lemma unat_ucast_chunk [simp]:
  "unat (ucast (eeprom_chunk a r) :: u16) = unat (eeprom_chunk a r)"
  by (rule unat_ucast_up) simp

text \<open>The loop variable after one burst: no wrap-around, because the burst fits in what is left.\<close>

lemma unat_bytes_written:
  assumes "bw < (len :: u16)"
  shows "unat (bw + ucast (eeprom_chunk a (len - bw))) = unat bw + unat (eeprom_chunk a (len - bw))"
proof (rule trans [OF unat_add_small])
  have "unat (len - bw) = unat len - unat bw"
    using assms by (simp add: unat_sub less_imp_le)
  moreover have "unat bw < unat len"
    using assms by (simp add: word_less_nat_alt)
  ultimately have "unat bw + unat (eeprom_chunk a (len - bw)) \<le> unat len"
    using eeprom_chunk_le [of a "len - bw"] by simp
  then show "unat bw + unat (ucast (eeprom_chunk a (len - bw)) :: u16) < 2 ^ LENGTH(16)"
    using unat_u16_less [of len] by (simp del: unat_u16_less)
qed simp

function eeprom_write_loop ::
    "'w i2c_transfer \<Rightarrow> (u32 \<Rightarrow> 'w \<Rightarrow> 'w) \<Rightarrow> u16 \<Rightarrow> u8 list \<Rightarrow> u16 \<Rightarrow> u16 \<Rightarrow> 'w \<Rightarrow> eeprom_status_t \<times> 'w" where
  "eeprom_write_loop xfer delay_us address d len bytes_written w =
     (if bytes_written < len then
        let current_addr = address + bytes_written;
            remaining_bytes = len - bytes_written;
            chunk_size = eeprom_chunk current_addr remaining_bytes
        in (case EEPROM_Write_Raw_Page xfer current_addr (drop (unat bytes_written) d) chunk_size w of
              (st, w') \<Rightarrow>
                if st \<noteq> kStatus_Success then (kEeprom_I2cError, w')
                else eeprom_write_loop xfer delay_us address d len
                       (bytes_written + ucast chunk_size) (delay_us 5000 w'))
      else (kEeprom_Ok, w))"
  by pat_completeness auto
termination
proof (relation "measure (\<lambda>(xfer, delay_us, address, d, len, bw, w). unat len - unat bw)", goal_cases)
  case 1
  show ?case by simp
next
  case prems: (2 xfer delay_us address d len bw w)
  then have "0 < unat (len - bw)" and "unat bw < unat len"
    by (simp_all add: unat_sub less_imp_le word_less_nat_alt)
  with eeprom_chunk_pos [of "len - bw" "address + bw"] prems show ?case
    by (simp add: unat_bytes_written)
qed

declare eeprom_write_loop.simps [simp del]

definition EEPROM_Write_Bytes ::
    "'w i2c_transfer \<Rightarrow> (u32 \<Rightarrow> 'w \<Rightarrow> 'w) \<Rightarrow> u16 \<Rightarrow> u8 list \<Rightarrow> u16 \<Rightarrow> 'w \<Rightarrow> eeprom_status_t \<times> 'w" where
  "EEPROM_Write_Bytes xfer delay_us address d len w =
     (if unat address + unat len > EEPROM_TOTAL_BYTES then (kEeprom_LengthOverflow, w)
      else eeprom_write_loop xfer delay_us address d len 0 w)"

definition EEPROM_Read_Bytes ::
    "'w i2c_transfer \<Rightarrow> u16 \<Rightarrow> u8 list \<Rightarrow> u16 \<Rightarrow> 'w \<Rightarrow> eeprom_status_t \<times> u8 list \<times> 'w" where
  "EEPROM_Read_Bytes xfer address buf len w =
     (if unat address + unat len > EEPROM_TOTAL_BYTES then (kEeprom_LengthOverflow, buf, w)
      else (case xfer (eeprom_read_request address buf len) w of (st, buf', w') \<Rightarrow>
              (if st \<noteq> kStatus_Success then (kEeprom_I2cError, buf', w') else (kEeprom_Ok, buf', w'))))"

definition eeprom_test_byte :: "u8 \<Rightarrow> u8" where
  "eeprom_test_byte original_byte = (if original_byte = 0xAA then 0x55 else 0xAA)"

text \<open>
  The probe works on three one-byte buffers; \<open>hd\<close> reads the byte of a buffer that the transfer
  has filled. The state of the shared bus driver is the first component of the state.
\<close>

definition EEPROM_Init ::
    "'w i2c_transfer \<Rightarrow> (u32 \<Rightarrow> 'w \<Rightarrow> 'w) \<Rightarrow> u32 \<Rightarrow> i2c_driver \<times> 'w \<Rightarrow> eeprom_status_t \<times> i2c_driver \<times> 'w" where
  "EEPROM_Init xfer delay_us clk s =
     (let d = I2C_Bus_Init clk (fst s); test_address = 0 in
      case EEPROM_Read_Bytes xfer test_address [0] 1 (snd s) of (s1, original, w1) \<Rightarrow>
      if s1 \<noteq> kEeprom_Ok then (kEeprom_I2cError, d, w1) else
      (let test_byte = eeprom_test_byte (hd original) in
      case EEPROM_Write_Bytes xfer delay_us test_address [test_byte] 1 w1 of (s2, w2) \<Rightarrow>
      if s2 \<noteq> kEeprom_Ok then (kEeprom_I2cError, d, w2) else
      (case EEPROM_Read_Bytes xfer test_address [0] 1 w2 of (s3, verify, w3) \<Rightarrow>
      if s3 \<noteq> kEeprom_Ok then (kEeprom_I2cError, d, w3) else
      if hd verify \<noteq> test_byte then (kEeprom_I2cError, d, w3) else
      (case EEPROM_Write_Bytes xfer delay_us test_address [hd original] 1 w3 of (s4, w4) \<Rightarrow>
      if s4 \<noteq> kEeprom_Ok then (kEeprom_I2cError, d, w4) else (kEeprom_Ok, d, w4)))))"

section \<open>The chip, as the driver relies on it\<close>

text \<open>
  \<open>chip w\<close> is the content of the memory array and \<open>ready w\<close> says that no write cycle is in
  progress. The laws are the data sheet's: a burst that stays inside one page is stored as it
  was sent, a sequential read returns the array, a write cycle is over after 5 ms, and a
  transfer, acknowledged or not, changes nothing outside the bytes it addresses.
\<close>

definition burst_in_page :: "u16 \<Rightarrow> u8 \<Rightarrow> bool" where
  "burst_in_page a n \<longleftrightarrow> 0 < unat n \<and> unat a mod 32 + unat n \<le> 32 \<and> unat a + unat n \<le> EEPROM_TOTAL_BYTES"

locale at24c32 =
  fixes xfer :: "'w i2c_transfer"
    and delay_us :: "u32 \<Rightarrow> 'w \<Rightarrow> 'w"
    and chip :: "'w \<Rightarrow> u8 memory"
    and ready :: "'w \<Rightarrow> bool"
  assumes page_write: "ready w \<Longrightarrow> burst_in_page a n \<Longrightarrow> unat n \<le> length d \<Longrightarrow>
      xfer (eeprom_write_request a d n) w = (kStatus_Success, buf, w') \<Longrightarrow>
      chip w' = mem_write (unat a) (take (unat n) d) (chip w)"
    and write_frame: "burst_in_page a n \<Longrightarrow> i < unat a \<or> unat a + unat n \<le> i \<Longrightarrow>
      xfer (eeprom_write_request a d n) w = (st, buf, w') \<Longrightarrow> chip w' i = chip w i"
    and sequential_read: "ready w \<Longrightarrow> unat a + unat len \<le> EEPROM_TOTAL_BYTES \<Longrightarrow>
      xfer (eeprom_read_request a b len) w = (kStatus_Success, buf, w') \<Longrightarrow>
      buf = mem_read (unat a) (unat len) (chip w) \<and> ready w'"
    and read_frame: "xfer (eeprom_read_request a b len) w = (st, buf, w') \<Longrightarrow> chip w' = chip w"
    and settles: "5000 \<le> us \<Longrightarrow> ready (delay_us us w)"
    and delay_frame [simp]: "chip (delay_us us w) = chip w"

locale at24c32_acking = at24c32 +
  assumes write_ack: "ready w \<Longrightarrow> fst (xfer (eeprom_write_request a d n) w) = kStatus_Success"
    and read_ack: "ready w \<Longrightarrow> fst (xfer (eeprom_read_request a b len) w) = kStatus_Success"

lemma burst_in_page_chunk:
  assumes "bw < len" and "unat address + unat (len :: u16) \<le> EEPROM_TOTAL_BYTES"
  shows "burst_in_page (address + bw) (eeprom_chunk (address + bw) (len - bw))"
proof -
  from assms(1) have "unat bw < unat len"
    by (simp add: word_less_nat_alt)
  moreover from this assms(2) have "unat (address + bw) = unat address + unat bw"
    by (intro unat_add_small) (simp add: EEPROM_TOTAL_BYTES_def)
  moreover have "unat (len - bw) = unat len - unat bw"
    using assms(1) by (simp add: unat_sub less_imp_le)
  moreover have "(unat address + unat bw) mod 32 < 32"
    by simp
  ultimately show ?thesis
    using assms(2) by (auto simp: burst_in_page_def unat_eeprom_chunk min_def)
qed

lemma eeprom_write_loop_step:
  assumes "bw < len"
    and "xfer (eeprom_write_request (address + bw) (drop (unat bw) d)
           (eeprom_chunk (address + bw) (len - bw))) w = (st, buf, w1)"
  shows "eeprom_write_loop xfer delay_us address d len bw w =
           (if st \<noteq> kStatus_Success then (kEeprom_I2cError, w1)
            else eeprom_write_loop xfer delay_us address d len
                   (bw + ucast (eeprom_chunk (address + bw) (len - bw))) (delay_us 5000 w1))"
  using assms
  by (subst eeprom_write_loop.simps) (simp add: EEPROM_Write_Raw_Page_def Let_def)

lemma eeprom_write_loop_done:
  "\<not> bw < len \<Longrightarrow> eeprom_write_loop xfer delay_us address d len bw w = (kEeprom_Ok, w)"
  by (subst eeprom_write_loop.simps) simp

context at24c32
begin

text \<open>What a burst followed by its 5 ms pause does to the array.\<close>

lemma burst_stores:
  assumes "ready w" and "bw < len" and "unat address + unat len \<le> EEPROM_TOTAL_BYTES"
    and "length d = unat len"
    and "xfer (eeprom_write_request (address + bw) (drop (unat bw) d)
           (eeprom_chunk (address + bw) (len - bw))) w = (kStatus_Success, buf, w1)"
  shows "chip (delay_us 5000 w1) = mem_write (unat address + unat bw)
           (take (unat (eeprom_chunk (address + bw) (len - bw))) (drop (unat bw) d)) (chip w)"
proof -
  have "unat bw < unat len" and "unat (len - bw) = unat len - unat bw"
    using assms(2) by (simp_all add: word_less_nat_alt unat_sub less_imp_le)
  moreover from this assms(3) have "unat (address + bw) = unat address + unat bw"
    by (intro unat_add_small) (simp add: EEPROM_TOTAL_BYTES_def)
  moreover from calculation have "unat (eeprom_chunk (address + bw) (len - bw)) \<le> length (drop (unat bw) d)"
    using eeprom_chunk_le [of "address + bw" "len - bw"] assms(4) by (simp only: length_drop)
  ultimately show ?thesis
    using page_write [OF assms(1) burst_in_page_chunk [OF assms(2,3)] _ assms(5)] by simp
qed

lemma write_loop_stores:
  assumes "ready w" and "bw \<le> len" and "unat address + unat len \<le> EEPROM_TOTAL_BYTES"
    and "length d = unat len"
    and "eeprom_write_loop xfer delay_us address d len bw w = (kEeprom_Ok, w')"
  shows "chip w' = mem_write (unat address + unat bw) (drop (unat bw) d) (chip w) \<and> ready w'"
  using assms(1,2,5)
proof (induction "unat len - unat bw" arbitrary: bw w rule: less_induct)
  case less
  show ?case
  proof (cases "bw < len")
    case False
    with less.prems(2) have "bw = len" by simp
    with False less.prems assms(4) show ?thesis
      by (simp add: eeprom_write_loop_done)
  next
    case True
    define c where "c = eeprom_chunk (address + bw) (len - bw)"
    obtain st buf w1 where step: "xfer (eeprom_write_request (address + bw) (drop (unat bw) d) c) w = (st, buf, w1)"
      by (cases "xfer (eeprom_write_request (address + bw) (drop (unat bw) d) c) w")
    have next_bw: "unat (bw + ucast c) = unat bw + unat c"
      unfolding c_def by (rule unat_bytes_written [OF True])
    have "unat bw < unat len" and rem: "unat (len - bw) = unat len - unat bw"
      using True by (simp_all add: word_less_nat_alt unat_sub less_imp_le)
    moreover have c_bounds: "0 < unat c" "unat c \<le> unat (len - bw)"
      unfolding c_def using \<open>unat bw < unat len\<close> rem by (intro eeprom_chunk_pos eeprom_chunk_le; simp)+
    ultimately have le: "bw + ucast c \<le> len" and smaller: "unat len - unat (bw + ucast c) < unat len - unat bw"
      by (simp_all add: word_le_nat_alt next_bw)
    from less.prems(3) eeprom_write_loop_step [where xfer = xfer and address = address and bw = bw, OF True step [unfolded c_def], of delay_us]
    have ok: "st = kStatus_Success"
      and rest: "eeprom_write_loop xfer delay_us address d len (bw + ucast c) (delay_us 5000 w1) = (kEeprom_Ok, w')"
      by (simp_all add: c_def split: if_splits)
    from less.hyps [OF smaller settles le rest]
    have "chip w' = mem_write (unat address + (unat bw + unat c)) (drop (unat bw + unat c) d)
            (chip (delay_us 5000 w1))" and "ready w'"
      by (simp_all add: next_bw)
    moreover have "chip (delay_us 5000 w1) =
        mem_write (unat address + unat bw) (take (unat c) (drop (unat bw) d)) (chip w)"
      using burst_stores [OF less.prems(1) True assms(3,4) step [unfolded c_def ok]] by (simp add: c_def)
    ultimately show ?thesis
      using c_bounds(2) rem assms(4)
      by (simp add: mem_write_append add.assoc flip: drop_drop)
        (metis append_take_drop_id drop_drop add.commute)
  qed
qed

text \<open>Whatever the bus answers, a block write changes nothing outside its block.\<close>

lemma write_loop_frame:
  assumes "bw \<le> len" and "unat address + unat len \<le> EEPROM_TOTAL_BYTES"
    and "i < unat address \<or> unat address + unat len \<le> i"
    and "eeprom_write_loop xfer delay_us address d len bw w = (st, w')"
  shows "chip w' i = chip w i"
  using assms(1,4)
proof (induction "unat len - unat bw" arbitrary: bw w rule: less_induct)
  case less
  show ?case
  proof (cases "bw < len")
    case False
    with less.prems show ?thesis
      by (simp add: eeprom_write_loop_done)
  next
    case True
    define c where "c = eeprom_chunk (address + bw) (len - bw)"
    obtain s1 buf w1 where step: "xfer (eeprom_write_request (address + bw) (drop (unat bw) d) c) w = (s1, buf, w1)"
      by (cases "xfer (eeprom_write_request (address + bw) (drop (unat bw) d) c) w")
    have next_bw: "unat (bw + ucast c) = unat bw + unat c"
      unfolding c_def by (rule unat_bytes_written [OF True])
    have lt: "unat bw < unat len" and rem: "unat (len - bw) = unat len - unat bw"
      using True by (simp_all add: word_less_nat_alt unat_sub less_imp_le)
    have c_bounds: "0 < unat c" "unat c \<le> unat len - unat bw"
      unfolding c_def using lt rem eeprom_chunk_pos [of "len - bw"] eeprom_chunk_le [of _ "len - bw"]
      by simp_all
    have addr: "unat (address + bw) = unat address + unat bw"
      using lt assms(2) by (intro unat_add_small) (simp add: EEPROM_TOTAL_BYTES_def)
    from burst_in_page_chunk [OF True assms(2)] have in_page: "burst_in_page (address + bw) c"
      by (simp add: c_def)
    have one: "chip w1 i = chip w i"
      by (rule write_frame [OF in_page _ step]) (use assms(3) addr c_bounds lt in auto)
    show ?thesis
    proof (cases "s1 = kStatus_Success")
      case False
      with less.prems(2) one eeprom_write_loop_step [where xfer = xfer and address = address and bw = bw, OF True step [unfolded c_def], of delay_us]
      show ?thesis by simp
    next
      case True
      with less.prems(2) eeprom_write_loop_step [where xfer = xfer and address = address and bw = bw, OF \<open>bw < len\<close> step [unfolded c_def], of delay_us]
      have "eeprom_write_loop xfer delay_us address d len (bw + ucast c) (delay_us 5000 w1) = (st, w')"
        by (simp add: c_def)
      moreover have "bw + ucast c \<le> len" and "unat len - unat (bw + ucast c) < unat len - unat bw"
        using c_bounds lt by (simp_all add: word_le_nat_alt next_bw)
      ultimately show ?thesis
        using less.hyps [of "bw + ucast c" "delay_us 5000 w1"] one by simp
    qed
  qed
qed

lemma write_bytes_frame:
  assumes "EEPROM_Write_Bytes xfer delay_us address d len w = (st, w')"
    and "i < unat address \<or> unat address + unat len \<le> i"
  shows "chip w' i = chip w i"
  using assms write_loop_frame [of 0 len address i d w st w']
  by (auto simp: EEPROM_Write_Bytes_def split: if_splits)

lemma write_bytes_stores:
  assumes "ready w" and "length d = unat len"
    and "EEPROM_Write_Bytes xfer delay_us address d len w = (kEeprom_Ok, w')"
  shows "chip w' = mem_write (unat address) d (chip w) \<and> ready w'"
  using assms write_loop_stores [of w 0 len address d w']
  by (auto simp: EEPROM_Write_Bytes_def split: if_splits)

lemma read_bytes_reads:
  assumes "ready w" and "EEPROM_Read_Bytes xfer address b len w = (kEeprom_Ok, buf, w')"
  shows "buf = mem_read (unat address) (unat len) (chip w) \<and> chip w' = chip w \<and> ready w'"
proof -
  from assms(2) have le: "unat address + unat len \<le> EEPROM_TOTAL_BYTES"
    and ok: "xfer (eeprom_read_request address b len) w = (kStatus_Success, buf, w')"
    by (auto simp: EEPROM_Read_Bytes_def split: if_splits prod.splits)
  from sequential_read [OF assms(1) le ok] read_frame [OF ok] show ?thesis
    by simp
qed

lemma read_bytes_frame:
  "EEPROM_Read_Bytes xfer address b len w = (st, buf, w') \<Longrightarrow> chip w' = chip w"
  by (auto simp: EEPROM_Read_Bytes_def split: if_splits prod.splits intro: read_frame)

text \<open>
  The probe of \<^verbatim>\<open>EEPROM_Init\<close> overwrites cell 0 and puts the byte back: a probe that succeeds
  leaves the array as it was, and one that fails can have changed cell 0 only.
\<close>

lemma init_frame:
  assumes "EEPROM_Init xfer delay_us clk (d, w) = (st, d', w')" and "0 < i"
  shows "chip w' i = chip w i"
proof -
  have keep: "chip v' i = chip v i" if "EEPROM_Write_Bytes xfer delay_us 0 [x] 1 v = (s, v')" for x v s v'
    by (rule write_bytes_frame [OF that]) (use assms(2) in simp)
  show ?thesis
    using assms(1)
    by (auto simp: EEPROM_Init_def Let_def read_bytes_frame keep split: prod.splits if_splits
        dest!: read_bytes_frame keep)
qed

lemma init_restores:
  assumes "ready w" and "EEPROM_Init xfer delay_us clk (d, w) = (kEeprom_Ok, d', w')"
  shows "chip w' = chip w \<and> ready w'"
proof -
  from assms(2) obtain orig w1 w2 verify w3 where
    r1: "EEPROM_Read_Bytes xfer 0 [0] 1 w = (kEeprom_Ok, orig, w1)" and
    w2: "EEPROM_Write_Bytes xfer delay_us 0 [eeprom_test_byte (hd orig)] 1 w1 = (kEeprom_Ok, w2)" and
    r3: "EEPROM_Read_Bytes xfer 0 [0] 1 w2 = (kEeprom_Ok, verify, w3)" and
    w4: "EEPROM_Write_Bytes xfer delay_us 0 [hd orig] 1 w3 = (kEeprom_Ok, w')"
    by (auto simp: EEPROM_Init_def Let_def split: prod.splits if_splits)
  from read_bytes_reads [OF assms(1) r1]
  have c1: "orig = mem_read 0 1 (chip w)" "chip w1 = chip w" "ready w1" by simp_all
  from write_bytes_stores [OF c1(3) _ w2]
  have c2: "chip w2 = mem_write 0 [eeprom_test_byte (hd orig)] (chip w)" "ready w2"
    by (simp_all add: c1)
  from read_bytes_reads [OF c2(2) r3] have c3: "chip w3 = chip w2" "ready w3" by simp_all
  from write_bytes_stores [OF c3(2) _ w4] have "chip w' = mem_write 0 [hd orig] (chip w3)" "ready w'"
    by simp_all
  moreover have "[hd orig] = mem_read 0 1 (chip w)"
    by (simp add: c1(1) mem_read_def)
  ultimately show ?thesis
    by (simp add: c3 c2 mem_write_write mem_write_read_back)
qed

end

section \<open>A chip that acknowledges when it is ready\<close>

context at24c32_acking
begin

lemma write_loop_completes:
  assumes "ready w"
  shows "fst (eeprom_write_loop xfer delay_us address d len bw w) = kEeprom_Ok"
  using assms
proof (induction "unat len - unat bw" arbitrary: bw w rule: less_induct)
  case less
  show ?case
  proof (cases "bw < len")
    case False
    then show ?thesis by (simp add: eeprom_write_loop_done)
  next
    case True
    define c where "c = eeprom_chunk (address + bw) (len - bw)"
    obtain s1 buf w1 where step: "xfer (eeprom_write_request (address + bw) (drop (unat bw) d) c) w = (s1, buf, w1)"
      by (cases "xfer (eeprom_write_request (address + bw) (drop (unat bw) d) c) w")
    moreover from this write_ack [OF less.prems, of "address + bw" "drop (unat bw) d" c]
    have "s1 = kStatus_Success" by simp
    moreover have "unat len - unat (bw + ucast c) < unat len - unat bw"
    proof -
      have "unat bw < unat len" and "unat (len - bw) = unat len - unat bw"
        using True by (simp_all add: word_less_nat_alt unat_sub less_imp_le)
      with eeprom_chunk_pos [of "len - bw" "address + bw"] show ?thesis
        by (simp add: c_def unat_bytes_written [OF True])
    qed
    ultimately show ?thesis
      using less.hyps [of "bw + ucast c" "delay_us 5000 w1"] settles [of 5000 w1]
        eeprom_write_loop_step [where xfer = xfer and address = address and bw = bw,
          OF True step [unfolded c_def], of delay_us]
      by (simp add: c_def)
  qed
qed

lemma write_bytes_completes:
  assumes "ready w" and "unat address + unat len \<le> EEPROM_TOTAL_BYTES"
  shows "fst (EEPROM_Write_Bytes xfer delay_us address d len w) = kEeprom_Ok"
  using assms by (simp add: EEPROM_Write_Bytes_def write_loop_completes)

lemma read_bytes_completes:
  assumes "ready w" and "unat address + unat len \<le> EEPROM_TOTAL_BYTES"
  shows "fst (EEPROM_Read_Bytes xfer address b len w) = kEeprom_Ok"
  using assms read_ack [OF assms(1), of address b len]
  by (auto simp: EEPROM_Read_Bytes_def split: prod.splits)

end

section \<open>A simulated chip\<close>

text \<open>
  A chip with the data sheet's behaviour in the cases the driver must avoid as well: the address
  counter of a write rolls over inside the page, a transfer during a write cycle is not
  acknowledged, and a write cycle ends after 5 ms.
\<close>

record sim_chip =
  sim_array :: "u8 memory"
  sim_busy :: bool

definition sim_store :: "nat \<Rightarrow> u8 list \<Rightarrow> u8 memory \<Rightarrow> u8 memory" where
  "sim_store a d m = fold (\<lambda>i m. m(32 * (a div 32) + (a mod 32 + i) mod 32 := d ! i)) [0..<length d] m"

definition sim_xfer :: "sim_chip i2c_transfer" where
  "sim_xfer t s =
     (let a = unat (subaddress t) mod 4096; n = unat (dataSize t) in
      if slaveAddress t \<noteq> EEPROM_I2C_ADDR \<or> subaddressSize t \<noteq> 2 \<or> sim_busy s
      then (kStatus_Fail, xdata t, s)
      else case direction t of
        kLPI2C_Write \<Rightarrow> (kStatus_Success, xdata t,
           s\<lparr>sim_array := sim_store a (take n (xdata t)) (sim_array s), sim_busy := True\<rparr>)
      | kLPI2C_Read \<Rightarrow> (kStatus_Success, map (\<lambda>i. sim_array s ((a + i) mod 4096)) [0..<n], s))"

definition sim_delay :: "u32 \<Rightarrow> sim_chip \<Rightarrow> sim_chip" where
  "sim_delay us s = (if 5000 \<le> us then s\<lparr>sim_busy := False\<rparr> else s)"

lemma sim_store_in_page_aux:
  "k \<le> length d \<Longrightarrow> a mod 32 + length d \<le> 32 \<Longrightarrow>
   fold (\<lambda>i m. m(32 * (a div 32) + (a mod 32 + i) mod 32 := d ! i)) [0..<k] m = mem_write a (take k d) m"
proof (induction k)
  case 0
  then show ?case by simp
next
  case (Suc k)
  then have "32 * (a div 32) + (a mod 32 + k) mod 32 = a + k"
    by simp
  with Suc show ?case
    by (auto simp: mem_write_def fun_eq_iff nth_append take_Suc_conv_app_nth min_def less_Suc_eq)
qed

lemma sim_store_in_page: "a mod 32 + length d \<le> 32 \<Longrightarrow> sim_store a d m = mem_write a d m"
  using sim_store_in_page_aux [of "length d" d a m] by (simp add: sim_store_def)

lemma eeprom_subaddress_eq: "eeprom_subaddress a = ucast a"
proof (rule bit_word_eqI)
  fix n
  have ff: "(0xFF :: u16) = mask 8"
    by (simp add: mask_eq_exp_minus_1)
  assume "n < LENGTH(32)"
  then show "bit (eeprom_subaddress a) n = bit (ucast a :: u32) n"
    unfolding eeprom_subaddress_def Let_def ff
    by (auto simp only: bit_or_iff bit_push_bit_iff bit_ucast_iff bit_and_iff bit_drop_bit_eq
        bit_mask_iff possible_bit_word o_def dest: bit_imp_le_length) (auto dest: bit_imp_le_length)
qed

lemma unat_eeprom_subaddress [simp]: "unat (eeprom_subaddress a) = unat a"
  by (simp add: eeprom_subaddress_eq unat_ucast_up)

interpretation sim: at24c32_acking sim_xfer sim_delay sim_array "\<lambda>s. \<not> sim_busy s"
proof unfold_locales
  show "sim_array w' = mem_write (unat a) (take (unat n) d) (sim_array w)"
    if "\<not> sim_busy w" "burst_in_page a n" "unat n \<le> length d"
      "sim_xfer (eeprom_write_request a d n) w = (kStatus_Success, buf, w')" for w a n d buf w'
    using that
    by (auto simp: sim_xfer_def eeprom_write_request_def burst_in_page_def EEPROM_TOTAL_BYTES_def
        unat_ucast_up Let_def sim_store_in_page)
qed (auto simp: sim_xfer_def sim_delay_def eeprom_write_request_def eeprom_read_request_def
    burst_in_page_def EEPROM_TOTAL_BYTES_def unat_ucast_up Let_def sim_store_in_page mem_write_def
    mem_read_map split: if_splits)

section \<open>What the driver puts on the bus\<close>

definition page_burst :: "lpi2c_master_transfer_t \<Rightarrow> bool" where
  "page_burst t \<longleftrightarrow> slaveAddress t = EEPROM_I2C_ADDR \<and> direction t = kLPI2C_Write \<and>
     0 < unat (dataSize t) \<and> unat (dataSize t) \<le> length (xdata t) \<and>
     unat (subaddress t) mod 32 + unat (dataSize t) \<le> 32 \<and>
     unat (subaddress t) + unat (dataSize t) \<le> EEPROM_TOTAL_BYTES"

definition on_log :: "(u32 \<Rightarrow> 'w \<Rightarrow> 'w) \<Rightarrow> u32 \<Rightarrow> 'w \<times> 'l \<Rightarrow> 'w \<times> 'l" where
  "on_log delay_us us s = (delay_us us (fst s), snd s)"

lemma page_burst_request:
  "burst_in_page a n \<Longrightarrow> unat n \<le> length d \<Longrightarrow> page_burst (eeprom_write_request a d n)"
  by (simp add: page_burst_def burst_in_page_def eeprom_write_request_def unat_ucast_up)

lemma write_loop_bursts:
  assumes "bw \<le> len" and "unat address + unat len \<le> EEPROM_TOTAL_BYTES" and "length d = unat len"
    and "\<forall>t \<in> set (snd s). page_burst t"
    and "eeprom_write_loop (traced xfer) (on_log delay_us) address d len bw s = (st, s')"
  shows "\<forall>t \<in> set (snd s'). page_burst t"
  using assms(1,4,5)
proof (induction "unat len - unat bw" arbitrary: bw s rule: less_induct)
  case less
  show ?case
  proof (cases "bw < len")
    case False
    with less.prems show ?thesis by (auto simp: eeprom_write_loop_done)
  next
    case True
    define c where "c = eeprom_chunk (address + bw) (len - bw)"
    let ?t = "eeprom_write_request (address + bw) (drop (unat bw) d) c"
    obtain s1 buf w1 where one: "xfer ?t (fst s) = (s1, buf, w1)"
      by (cases "xfer ?t (fst s)")
    then have step: "traced xfer ?t s = (s1, buf, (w1, snd s @ [?t]))"
      by (simp add: traced_def)
    have lt: "unat bw < unat len" and rem: "unat (len - bw) = unat len - unat bw"
      using True by (simp_all add: word_less_nat_alt unat_sub less_imp_le)
    have c_bounds: "0 < unat c" "unat c \<le> unat len - unat bw"
      unfolding c_def using lt rem eeprom_chunk_pos [of "len - bw"] eeprom_chunk_le [of _ "len - bw"]
      by simp_all
    have burst: "page_burst ?t"
      using burst_in_page_chunk [OF True assms(2)] c_bounds(2) assms(3)
      by (intro page_burst_request) (simp_all add: c_def)
    have next_bw: "unat (bw + ucast c) = unat bw + unat c"
      unfolding c_def by (rule unat_bytes_written [OF True])
    note unfold = eeprom_write_loop_step [where xfer = "traced xfer" and address = address and bw = bw,
        OF True step [unfolded c_def], of "on_log delay_us"]
    show ?thesis
    proof (cases "s1 = kStatus_Success")
      case False
      with unfold less.prems(2,3) burst show ?thesis by (auto simp: c_def)
    next
      case ok: True
      with unfold less.prems(3)
      have "eeprom_write_loop (traced xfer) (on_log delay_us) address d len (bw + ucast c)
              (delay_us 5000 w1, snd s @ [?t]) = (st, s')"
        by (simp add: c_def on_log_def)
      moreover have "bw + ucast c \<le> len" and "unat len - unat (bw + ucast c) < unat len - unat bw"
        using c_bounds lt by (simp_all add: word_le_nat_alt next_bw)
      ultimately show ?thesis
        using less.hyps [of "bw + ucast c" "(delay_us 5000 w1, snd s @ [?t])"] less.prems(2) burst
        by auto
    qed
  qed
qed

section \<open>Properties\<close>

text \<open>
  C6: Storing a block and reading it back returns the block. On a chip that obeys the data sheet
  (stated as \<open>at24c32_acking\<close>) and has no write cycle in progress, \<^verbatim>\<open>EEPROM_Write_Bytes\<close> of any
  block that fits in the 4096 bytes ends with \<^verbatim>\<open>kEeprom_Ok\<close>, however many pages it crosses; the
  array then holds exactly that block at that address and is unchanged elsewhere; and
  \<^verbatim>\<open>EEPROM_Read_Bytes\<close> of the same range ends with \<^verbatim>\<open>kEeprom_Ok\<close> and the block.
\<close>

theorem eeprom_write_read_roundtrip:
  assumes chip: "at24c32_acking xfer delay_us chip ready"
    and "ready w" and "unat address + unat len \<le> EEPROM_TOTAL_BYTES" and "length d = unat len"
    and "EEPROM_Write_Bytes xfer delay_us address d len w = (st, w')"
    and "EEPROM_Read_Bytes xfer address b len w' = (st', buf, w'')"
  shows "st = kEeprom_Ok \<and> chip w' = mem_write (unat address) d (chip w) \<and>
         st' = kEeprom_Ok \<and> buf = d \<and> chip w'' = chip w'"
proof -
  note base = at24c32_acking.axioms(1) [OF chip]
  have ok: "st = kEeprom_Ok"
    using at24c32_acking.write_bytes_completes [OF chip assms(2,3)] assms(5) by (metis fst_conv)
  note stored = at24c32.write_bytes_stores [OF base assms(2,4) assms(5) [unfolded ok]]
  have ok': "st' = kEeprom_Ok"
    using at24c32_acking.read_bytes_completes [OF chip _ assms(3)] stored assms(6) by (metis fst_conv)
  note read = at24c32.read_bytes_reads [OF base _ assms(6) [unfolded ok']]
  show ?thesis
    using ok ok' stored read assms(4) mem_read_write_same [of "unat address" d "chip w"] by simp
qed

theorem eeprom_write_read_roundtrip_witness:
  "\<exists>w' w''. EEPROM_Write_Bytes sim_xfer sim_delay 20 (map of_nat [0..<70]) 70
       \<lparr>sim_array = (\<lambda>_. 0xFF), sim_busy = False\<rparr> = (kEeprom_Ok, w') \<and>
     EEPROM_Read_Bytes sim_xfer 20 [] 70 w' = (kEeprom_Ok, map of_nat [0..<70], w'')"
proof -
  let ?w = "\<lparr>sim_array = (\<lambda>_. 0xFF), sim_busy = False\<rparr>"
  let ?d = "map of_nat [0..<70] :: u8 list"
  obtain st w' where w: "EEPROM_Write_Bytes sim_xfer sim_delay 20 ?d 70 ?w = (st, w')"
    by (cases "EEPROM_Write_Bytes sim_xfer sim_delay 20 ?d 70 ?w")
  obtain st' buf w'' where r: "EEPROM_Read_Bytes sim_xfer 20 [] 70 w' = (st', buf, w'')"
    by (cases "EEPROM_Read_Bytes sim_xfer 20 [] 70 w'")
  from eeprom_write_read_roundtrip [OF sim.at24c32_acking_axioms _ _ _ w r]
  show ?thesis
    using w r by (simp add: EEPROM_TOTAL_BYTES_def)
qed

text \<open>
  The driver never lets a write burst cross a page. Whatever the chip answers, every transfer
  that \<^verbatim>\<open>EEPROM_Write_Bytes\<close> issues for a block is a write to the EEPROM's address of between 1
  and 32 bytes that starts and ends inside one 32-byte page and inside the array, and sends only
  bytes of the caller's buffer.
\<close>

theorem eeprom_bursts_stay_in_page:
  assumes "length d = unat len"
    and "EEPROM_Write_Bytes (traced xfer) (on_log delay_us) address d len (w, []) = (st, (w', sent))"
  shows "\<forall>t \<in> set sent. page_burst t"
  using assms write_loop_bursts [of 0 len address d "(w, [])" xfer delay_us st "(w', sent)"]
  by (auto simp: EEPROM_Write_Bytes_def split: if_splits)

theorem eeprom_bursts_stay_in_page_witness:
  "\<exists>st w' sent. EEPROM_Write_Bytes (traced sim_xfer) (on_log sim_delay) 30 [1, 2, 3, 4] 4
       (\<lparr>sim_array = (\<lambda>_. 0xFF), sim_busy = False\<rparr>, []) = (st, (w', sent)) \<and> (\<forall>t \<in> set sent. page_burst t)"
proof -
  obtain st w' sent where r: "EEPROM_Write_Bytes (traced sim_xfer) (on_log sim_delay) 30 [1, 2, 3, 4] 4
       (\<lparr>sim_array = (\<lambda>_. 0xFF), sim_busy = False\<rparr>, []) = (st, (w', sent))"
    by (metis prod.collapse)
  from eeprom_bursts_stay_in_page [OF _ r] r show ?thesis by auto
qed

text \<open>
  The probe at boot does not damage the log. When \<^verbatim>\<open>EEPROM_Init\<close> succeeds on a ready chip, the
  array is as it was, although cell 0 was overwritten and put back; whatever it returns, no cell
  but 0 can have changed.
\<close>

theorem eeprom_init_keeps_array:
  assumes chip: "at24c32 xfer delay_us chip ready" and "ready w"
    and init: "EEPROM_Init xfer delay_us clk (d, w) = (st, d', w')"
  shows "(st = kEeprom_Ok \<longrightarrow> chip w' = chip w) \<and> (\<forall>i > 0. chip w' i = chip w i)"
  using at24c32.init_frame [OF chip init] at24c32.init_restores [OF chip assms(2)] init by blast

theorem eeprom_init_keeps_array_witness:
  "sim_array (snd (snd (EEPROM_Init sim_xfer sim_delay 12000000
      (i2c_driver_boot, \<lparr>sim_array = of_nat, sim_busy = False\<rparr>)))) 7 = 7"
proof -
  let ?w = "\<lparr>sim_array = of_nat, sim_busy = False\<rparr>"
  obtain st d' w' where r: "EEPROM_Init sim_xfer sim_delay 12000000 (i2c_driver_boot, ?w) = (st, d', w')"
    by (cases "EEPROM_Init sim_xfer sim_delay 12000000 (i2c_driver_boot, ?w)")
  from eeprom_init_keeps_array [OF sim.at24c32_axioms _ r] have "\<forall>i > 0. sim_array w' i = sim_array ?w i"
    by simp
  with r show ?thesis by simp
qed

end
