(* ===== verification/C_String.thy ===== *)
theory C_String
  imports Prelude
begin

text \<open>
  The part of the C library that the program uses on character arrays: the string a buffer
  holds, \<open>strncpy\<close>, \<open>strcmp\<close>, \<open>strncmp\<close>, \<open>strstr\<close>, the conversions \<open>%d\<close>, \<open>%02d\<close> and \<open>%Ns\<close>, and
  the truncation of \<open>snprintf\<close>. A buffer is the list of its characters; the string in it ends
  before the first NUL. A string argument is the list of its characters without the NUL.
\<close>

section \<open>Strings in buffers\<close>

definition NUL :: char where "NUL = CHR 0x00"
definition CR :: char where "CR = CHR 0x0D"
definition LF :: char where "LF = CHR 0x0A"
definition QUOTE :: char where "QUOTE = CHR 0x22"

definition c_str :: "char list \<Rightarrow> string" where
  "c_str buf = takeWhile (\<lambda>c. c \<noteq> NUL) buf"

lemma c_str_append_NUL: "NUL \<notin> set s \<Longrightarrow> c_str (s @ NUL # rest) = s"
  by (induction s) (auto simp: c_str_def)

lemma c_str_no_NUL [simp]: "NUL \<notin> set (c_str buf)"
  by (auto simp: c_str_def dest: set_takeWhileD)

lemma length_c_str: "NUL \<in> set buf \<Longrightarrow> length (c_str buf) < length buf"
  unfolding c_str_def by (induction buf) auto

text \<open>\<open>strncpy dst src n\<close>: exactly \<open>n\<close> characters are written, padded with NUL.\<close>

definition strncpy :: "char list \<Rightarrow> string \<Rightarrow> nat \<Rightarrow> char list" where
  "strncpy dst src n = take n (src @ replicate n NUL) @ drop n dst"

lemma length_strncpy [simp]: "n \<le> length dst \<Longrightarrow> length (strncpy dst src n) = length dst"
  by (simp add: strncpy_def)

text \<open>The idiom \<open>strncpy(b, s, sizeof b - 1); b[sizeof b - 1] = 0\<close> keeps the longest prefix that fits.\<close>

lemma c_str_strncpy:
  assumes "NUL \<notin> set src" and "n < length dst"
  shows "c_str ((strncpy dst src n)[n := NUL]) = take n src"
proof -
  define pad where "pad = replicate (n - length src) NUL"
  have drop: "drop n dst = dst ! n # drop (Suc n) dst"
    using assms(2) by (rule Cons_nth_drop_Suc [symmetric])
  have head: "take n (src @ replicate n NUL) = take n src @ pad"
    by (simp add: pad_def)
  have "length (take n src @ pad) = n"
    by (simp add: pad_def)
  then have "((take n src @ pad) @ dst ! n # drop (Suc n) dst)[n := NUL] = take n src @ pad @ NUL # drop (Suc n) dst"
    by (metis append.assoc list_update_length)
  then have "(strncpy dst src n)[n := NUL] = take n src @ (pad @ NUL # drop (Suc n) dst)"
    unfolding strncpy_def head drop by simp
  moreover have "NUL \<notin> set (take n src)"
    using assms(1) by (meson in_set_takeD)
  moreover obtain rest where "pad @ NUL # drop (Suc n) dst = NUL # rest"
    by (cases "n - length src") (auto simp: pad_def)
  ultimately show ?thesis
    by (simp add: c_str_append_NUL)
qed

section \<open>Comparison and search\<close>

text \<open>
  \<open>strcmp(a, b) == 0\<close> is equality; \<open>strncmp(a, b, n) == 0\<close> compares up to the first NUL or \<open>n\<close>
  characters, which on strings is equality of the first \<open>n\<close> characters.
\<close>

definition strcmp_eq :: "string \<Rightarrow> string \<Rightarrow> bool" where
  "strcmp_eq a b \<longleftrightarrow> a = b"

definition strncmp_eq :: "string \<Rightarrow> string \<Rightarrow> nat \<Rightarrow> bool" where
  "strncmp_eq a b n \<longleftrightarrow> take n a = take n b"

lemma strncmp_eq_prefix:
  "n = length b \<Longrightarrow> strncmp_eq a b n \<longleftrightarrow> (\<exists>r. a = b @ r)"
  by (auto simp: strncmp_eq_def) (metis append_take_drop_id)

text \<open>\<open>strstr(h, n) != NULL\<close>.\<close>

fun is_prefix :: "string \<Rightarrow> string \<Rightarrow> bool" where
  "is_prefix [] _ = True"
| "is_prefix (_ # _) [] = False"
| "is_prefix (x # xs) (y # ys) = (x = y \<and> is_prefix xs ys)"

fun strstr :: "string \<Rightarrow> string \<Rightarrow> bool" where
  "strstr [] n = (n = [])"
| "strstr (c # h) n = (is_prefix n (c # h) \<or> strstr h n)"

lemma is_prefix_iff: "is_prefix n h \<longleftrightarrow> (\<exists>r. h = n @ r)"
  by (induction n h rule: is_prefix.induct) auto

lemma strstr_iff: "strstr h n \<longleftrightarrow> (\<exists>l r. h = l @ n @ r)"
proof (induction h)
  case Nil
  then show ?case by auto
next
  case (Cons c h)
  show ?case
  proof
    assume "strstr (c # h) n"
    then show "\<exists>l r. c # h = l @ n @ r"
      using Cons.IH by (auto simp: is_prefix_iff) (metis append_Cons append_Nil)+
  next
    assume "\<exists>l r. c # h = l @ n @ r"
    then obtain l r where "c # h = l @ n @ r" by blast
    then have "is_prefix n (c # h) \<or> (\<exists>l r. h = l @ n @ r)"
      unfolding is_prefix_iff by (cases l) auto
    then show "strstr (c # h) n"
      using Cons.IH by simp
  qed
qed

lemma strstr_extend: "strstr h (p @ n) \<Longrightarrow> strstr h n"
  by (auto simp: strstr_iff) (metis append.assoc)

section \<open>Formatting\<close>

fun nat_digits :: "nat \<Rightarrow> nat list" where
  "nat_digits n = (if n < 10 then [n] else nat_digits (n div 10) @ [n mod 10])"

declare nat_digits.simps [simp del]

definition digit_char :: "nat \<Rightarrow> char" where
  "digit_char d = char_of (48 + d)"

definition fmt_nat :: "nat \<Rightarrow> string" where
  "fmt_nat n = map digit_char (nat_digits n)"

text \<open>\<open>%d\<close> and \<open>%02d\<close>.\<close>

definition fmt_d :: "int \<Rightarrow> string" where
  "fmt_d i = (if i < 0 then CHR ''-'' # fmt_nat (nat (- i)) else fmt_nat (nat i))"

definition fmt_02d :: "int \<Rightarrow> string" where
  "fmt_02d i = (if 0 \<le> i \<and> i < 10 then CHR ''0'' # fmt_d i else fmt_d i)"

text \<open>
  \<open>snprintf(buf, size, ...)\<close> with the formatted text \<open>s\<close>: the buffer receives as much of it as
  fits before the NUL, and the call returns the length of the whole text.
\<close>

definition snprintf :: "char list \<Rightarrow> nat \<Rightarrow> string \<Rightarrow> char list \<times> nat" where
  "snprintf buf cap s =
     (if cap = 0 then buf
      else take (cap - 1) s @ NUL # drop (Suc (min (cap - 1) (length s))) buf, length s)"

lemma snprintf_fits:
  "NUL \<notin> set s \<Longrightarrow> length s < cap \<Longrightarrow> c_str (fst (snprintf buf cap s)) = s \<and> snd (snprintf buf cap s) = length s"
  by (simp add: snprintf_def c_str_append_NUL)

lemma snprintf_truncates:
  "NUL \<notin> set s \<Longrightarrow> 0 < cap \<Longrightarrow> c_str (fst (snprintf buf cap s)) = take (cap - 1) s"
proof -
  assume a: "NUL \<notin> set s" "0 < cap"
  from a(1) have "NUL \<notin> set (take (cap - 1) s)"
    by (meson in_set_takeD)
  with a(2) show ?thesis
    by (simp add: snprintf_def c_str_append_NUL)
qed

text \<open>The number of decimal digits, and the characters a number prints as.\<close>

lemma length_nat_digits: "n < 10 ^ k \<Longrightarrow> 0 < k \<Longrightarrow> length (nat_digits n) \<le> k"
proof (induction k arbitrary: n)
  case 0
  then show ?case by simp
next
  case (Suc k)
  show ?case
  proof (cases "n < 10")
    case True
    then show ?thesis by (subst nat_digits.simps) simp
  next
    case False
    then have "0 < k" using Suc.prems by (cases k) auto
    moreover have "n div 10 < 10 ^ k"
      using Suc.prems(1) by (simp add: less_mult_imp_div_less)
    ultimately have "length (nat_digits (n div 10)) \<le> k"
      using Suc.IH by blast
    with False show ?thesis by (subst nat_digits.simps) simp
  qed
qed

lemma nat_digits_nonempty [simp]: "nat_digits n \<noteq> []"
  by (subst nat_digits.simps) simp

lemma nat_digits_less: "d \<in> set (nat_digits n) \<Longrightarrow> d < 10"
proof (induction n rule: nat_digits.induct)
  case (1 n)
  then show ?case
    by (cases "n < 10") (auto simp: nat_digits.simps [of n])
qed

lemma digit_char_neq_NUL: "d < 10 \<Longrightarrow> digit_char d \<noteq> NUL"
proof -
  assume "d < 10"
  then have "(of_char (digit_char d) :: nat) = 48 + d"
    by (simp add: digit_char_def)
  then show ?thesis
    by (auto simp: NUL_def)
qed

lemma fmt_nat_no_NUL [simp]: "NUL \<notin> set (fmt_nat n)"
proof
  assume "NUL \<in> set (fmt_nat n)"
  then obtain d where "d \<in> set (nat_digits n)" and "digit_char d = NUL"
    by (auto simp: fmt_nat_def)
  then show False
    using digit_char_neq_NUL nat_digits_less by blast
qed

lemma NUL_neq_printable [simp]: "NUL \<noteq> CHR ''-''" "NUL \<noteq> CHR ''0''"
  by (simp_all add: NUL_def)

lemma fmt_d_no_NUL [simp]: "NUL \<notin> set (fmt_d i)"
  by (simp add: fmt_d_def)

lemma fmt_02d_no_NUL [simp]: "NUL \<notin> set (fmt_02d i)"
  by (simp add: fmt_02d_def)

section \<open>Scanning\<close>

text \<open>
  The conversions of \<open>sscanf\<close> that the program uses: \<open>%Ns\<close> skips white space and takes at most N
  characters up to the next white space, \<open>%d\<close> skips white space and reads an optional sign and
  digits. A conversion that fails is \<open>None\<close>; otherwise the rest of the input is returned too.
\<close>

definition is_space :: "char \<Rightarrow> bool" where
  "is_space c \<longleftrightarrow> c = CHR '' '' \<or> (9 \<le> (of_char c :: nat) \<and> (of_char c :: nat) \<le> 13)"

definition is_digit :: "char \<Rightarrow> bool" where
  "is_digit c \<longleftrightarrow> 48 \<le> (of_char c :: nat) \<and> (of_char c :: nat) \<le> 57"

definition skip_space :: "string \<Rightarrow> string" where
  "skip_space s = dropWhile is_space s"

definition scan_s :: "nat \<Rightarrow> string \<Rightarrow> (string \<times> string) option" where
  "scan_s w s =
     (let s = skip_space s; t = takeWhile (\<lambda>c. \<not> is_space c) (take w s)
      in if t = [] then None else Some (t, drop (length t) s))"

definition digits_val :: "string \<Rightarrow> nat" where
  "digits_val ds = foldl (\<lambda>n c. 10 * n + (of_char c - 48)) 0 ds"

definition scan_digits :: "string \<Rightarrow> (nat \<times> string) option" where
  "scan_digits s =
     (let ds = takeWhile is_digit s
      in if ds = [] then None else Some (digits_val ds, drop (length ds) s))"

definition scan_d :: "string \<Rightarrow> (int \<times> string) option" where
  "scan_d s =
     (case skip_space s of
        [] \<Rightarrow> None
      | c # r \<Rightarrow>
          if c = CHR ''-'' then map_option (\<lambda>(n, r). (- int n, r)) (scan_digits r)
          else if c = CHR ''+'' then map_option (\<lambda>(n, r). (int n, r)) (scan_digits r)
          else map_option (\<lambda>(n, r). (int n, r)) (scan_digits (c # r)))"

definition scan_char :: "char \<Rightarrow> string \<Rightarrow> string option" where
  "scan_char c s = (case s of [] \<Rightarrow> None | d # r \<Rightarrow> if d = c then Some r else None)"

lemma digit_char_facts:
  assumes "d < 10"
  shows "is_digit (digit_char d)" "of_char (digit_char d) - 48 = d" "\<not> is_space (digit_char d)"
    "digit_char d \<noteq> CHR ''-''" "digit_char d \<noteq> CHR ''+''" "digit_char d \<noteq> CHR '':''"
    "digit_char d \<noteq> QUOTE" "digit_char d \<noteq> CR"
proof -
  have v: "(of_char (digit_char d) :: nat) = 48 + d"
    using assms by (simp add: digit_char_def)
  then show "is_digit (digit_char d)" "of_char (digit_char d) - 48 = d"
    using assms by (simp_all add: is_digit_def)
  have ne: "digit_char d \<noteq> c" if "(of_char c :: nat) < 48 \<or> 57 < (of_char c :: nat)" for c
    using that v assms by auto
  from v show "\<not> is_space (digit_char d)" by (auto simp: is_space_def intro: ne)
  show "digit_char d \<noteq> CHR ''-''" "digit_char d \<noteq> CHR ''+''" "digit_char d \<noteq> CHR '':''"
    "digit_char d \<noteq> QUOTE" "digit_char d \<noteq> CR"
    by (rule ne; simp add: QUOTE_def CR_def)+
qed

lemma foldl_digits: "foldl (\<lambda>n c. 10 * n + (of_char c - 48)) 0 (map digit_char (nat_digits n)) = n"
proof (induction n rule: nat_digits.induct)
  case (1 n)
  then show ?case
    by (cases "n < 10") (simp_all add: nat_digits.simps [of n] digit_char_facts(2))
qed

lemma digits_val_fmt_nat [simp]: "digits_val (fmt_nat n) = n"
  by (simp add: digits_val_def fmt_nat_def foldl_digits)

lemma fmt_nat_digits: "c \<in> set (fmt_nat n) \<Longrightarrow> is_digit c"
  using nat_digits_less digit_char_facts(1) by (auto simp: fmt_nat_def)

lemma fmt_nat_nonempty [simp]: "fmt_nat n \<noteq> []"
  by (simp add: fmt_nat_def)

lemma takeWhile_append_stop:
  "(\<And>c. c \<in> set xs \<Longrightarrow> P c) \<Longrightarrow> ys = [] \<or> \<not> P (hd ys) \<Longrightarrow> takeWhile P (xs @ ys) = xs"
  by (cases ys) (auto simp: takeWhile_append2)

lemma scan_digits_fmt_nat:
  "s = [] \<or> \<not> is_digit (hd s) \<Longrightarrow> scan_digits (fmt_nat n @ s) = Some (n, s)"
  using takeWhile_append_stop [of "fmt_nat n" is_digit s] fmt_nat_digits
  by (auto simp: scan_digits_def Let_def)

lemma not_digit_facts: "\<not> is_digit CHR ''-''" "\<not> is_digit CHR ''+''" "\<not> is_digit CHR '' ''" "\<not> is_digit CHR '':''"
  by (simp_all add: is_digit_def)

lemma is_digit_not_space: "is_digit c \<Longrightarrow> \<not> is_space c"
  by (auto simp: is_digit_def is_space_def)

text \<open>Reading back a number, possibly after blanks and leading zeros.\<close>

lemma scan_d_digits:
  assumes "ds \<noteq> []" and "\<And>c. c \<in> set ds \<Longrightarrow> is_digit c"
    and "rest = [] \<or> \<not> is_digit (hd rest)" and "set blanks \<subseteq> {CHR '' ''}"
  shows "scan_d (blanks @ ds @ rest) = Some (int (digits_val ds), rest)"
proof -
  obtain d ds' where ds: "ds = d # ds'" using assms(1) by (cases ds) auto
  with assms(2) have d: "is_digit d" "\<not> is_space d" by (auto dest: is_digit_not_space)
  have "skip_space (blanks @ ds @ rest) = ds @ rest"
    unfolding skip_space_def using assms(4) d(2)
    by (subst dropWhile_append2) (auto simp: ds is_space_def)
  moreover have "scan_digits (ds @ rest) = Some (digits_val ds, rest)"
    using takeWhile_append_stop [of ds is_digit rest] assms(1-3) by (auto simp: scan_digits_def Let_def)
  moreover have "d \<noteq> CHR ''-''" "d \<noteq> CHR ''+''" using d(1) not_digit_facts by auto
  ultimately show ?thesis by (simp add: scan_d_def ds)
qed

lemma scan_s_word:
  assumes "length t \<le> n" and "t \<noteq> []" and "\<forall>c \<in> set t. \<not> is_space c"
    and "length t = n \<or> rest = [] \<or> is_space (hd rest)"
  shows "scan_s n (t @ rest) = Some (t, rest)"
proof -
  have "skip_space (t @ rest) = t @ rest"
    using assms(2,3) by (cases t) (auto simp: skip_space_def)
  moreover have "takeWhile (\<lambda>c. \<not> is_space c) (take n (t @ rest)) = t"
  proof -
    have "take n (t @ rest) = t @ take (n - length t) rest" using assms(1) by simp
    moreover have "take (n - length t) rest = [] \<or> is_space (hd (take (n - length t) rest))"
      using assms(1,4) by (cases rest) (auto simp: take_Cons')
    ultimately show ?thesis using assms(3) takeWhile_append_stop [of t "\<lambda>c. \<not> is_space c"] by auto
  qed
  ultimately show ?thesis using assms(2) by (simp add: scan_s_def)
qed

end
