(* ===== verification/Watchdog.thy ===== *)
theory Watchdog
  imports Prelude
begin

text \<open>
  The windowed watchdog driver (\<^verbatim>\<open>drivers/fsl_wwdt.c\<close>, \<^verbatim>\<open>fsl_wwdt.h\<close>) as the health monitor
  uses it. The peripheral's registers are hardware: an operation is the sequence of accesses
  it makes, with the values of the registers it reads as arguments.
\<close>

record wwdt_config_t =
  enableWwdt :: bool
  enableWatchdogReset :: bool
  enableWatchdogProtect :: bool
  enableLockOscillator :: bool
  windowValue :: u32
  timeoutValue :: u32
  warningValue :: u32
  clockFreq_Hz :: u32

datatype wwdt_access =
    Write_MOD u32 | Write_TC u32 | Write_WINDOW u32 | Write_WARNINT u32 | Write_FEED u32
  | Wait_TV | Delay_us u32

definition WWDT_MOD_WDTOF_MASK :: u32 where "WWDT_MOD_WDTOF_MASK = 0x4"
definition WWDT_MOD_WDINT_MASK :: u32 where "WWDT_MOD_WDINT_MASK = 0x8"
definition WWDT_MOD_WDPROTECT_MASK :: u32 where "WWDT_MOD_WDPROTECT_MASK = 0x10"

lemmas wwdt_masks = WWDT_MOD_WDTOF_MASK_def WWDT_MOD_WDINT_MASK_def WWDT_MOD_WDPROTECT_MASK_def

definition WWDT_GetDefaultConfig :: wwdt_config_t where
  "WWDT_GetDefaultConfig = \<lparr>enableWwdt = True, enableWatchdogReset = False,
     enableWatchdogProtect = False, enableLockOscillator = False,
     windowValue = 0xFFFFFF, timeoutValue = 0xFFFFFF, warningValue = 0, clockFreq_Hz = 0\<rparr>"

text \<open>
  \<open>mod0\<close> is the \<^verbatim>\<open>MOD\<close> register before the call, \<open>mod1\<close> the one read back after the counter
  has started. \<^verbatim>\<open>FSL_FEATURE_WWDT_HAS_NO_OSCILLATOR_LOCK\<close> is 0 on this part.
\<close>

definition WWDT_Init :: "wwdt_config_t \<Rightarrow> u32 \<Rightarrow> u32 \<Rightarrow> wwdt_access list" where
  "WWDT_Init c mod0 mod1 =
     (let v = (if enableWwdt c then 0x1 else 0) OR (if enableWatchdogReset c then 0x2 else 0)
                OR (if enableLockOscillator c then 0x20 else 0);
          v = (if mod0 AND WWDT_MOD_WDINT_MASK \<noteq> 0 then v OR WWDT_MOD_WDINT_MASK else v)
      in [Write_TC (timeoutValue c AND 0xFFFFFF), Write_MOD v,
          Write_WINDOW (windowValue c AND 0xFFFFFF), Write_WARNINT (warningValue c AND 0x3FF),
          Write_FEED 0xAA, Write_FEED 0x55] @
         (if enableWwdt c then [Wait_TV] else []) @
         (if enableWatchdogProtect c \<and> mod1 AND WWDT_MOD_WDPROTECT_MASK = 0
          then [Delay_us (3000000 div clockFreq_Hz c + 1), Write_MOD (mod1 OR WWDT_MOD_WDPROTECT_MASK)]
          else []))"

definition WWDT_Refresh :: "wwdt_access list" where
  "WWDT_Refresh = [Write_FEED 0xAA, Write_FEED 0x55]"

definition WWDT_GetStatusFlags :: "u32 \<Rightarrow> u32" where
  "WWDT_GetStatusFlags mod0 = mod0 AND (WWDT_MOD_WDTOF_MASK OR WWDT_MOD_WDINT_MASK)"

text \<open>The value \<^verbatim>\<open>WWDT_ClearStatusFlags\<close> writes to \<^verbatim>\<open>MOD\<close>.\<close>

definition WWDT_ClearStatusFlags :: "u32 \<Rightarrow> u32 \<Rightarrow> u32" where
  "WWDT_ClearStatusFlags mod0 fmask =
     (let reg = mod0 AND NOT WWDT_MOD_WDINT_MASK;
          reg = (if fmask AND WWDT_MOD_WDTOF_MASK \<noteq> 0 then reg AND NOT WWDT_MOD_WDTOF_MASK else reg)
      in if fmask AND WWDT_MOD_WDINT_MASK \<noteq> 0 then reg OR WWDT_MOD_WDINT_MASK else reg)"

text \<open>\<^verbatim>\<open>WDTOF\<close> is bit 2, cleared by writing 0; \<^verbatim>\<open>WDINT\<close> is bit 3, cleared by writing 1.\<close>

lemma bit_WDTOF [simp]: "bit WWDT_MOD_WDTOF_MASK n \<longleftrightarrow> n = 2"
  using bit_push_bit_iff [of 2 "1 :: u32" n] by (auto simp: wwdt_masks bit_1_iff push_bit_eq_mult)

lemma bit_WDINT [simp]: "bit WWDT_MOD_WDINT_MASK n \<longleftrightarrow> n = 3"
  using bit_push_bit_iff [of 3 "1 :: u32" n] by (auto simp: wwdt_masks bit_1_iff push_bit_eq_mult)

lemma and_single_bit: "(\<And>n. bit (m :: u32) n \<longleftrightarrow> n = k) \<Longrightarrow> (x AND m \<noteq> 0) = bit x k"
proof -
  assume m: "\<And>n. bit m n \<longleftrightarrow> n = k"
  have "x AND m = 0 \<longleftrightarrow> (\<forall>n. \<not> bit (x AND m) n)"
    by (metis bit_0_eq bit_eqI bot_apply bot_bool_def)
  then show ?thesis
    by (simp add: bit_and_iff m)
qed

lemma clear_flags_bits:
  assumes "n < 32"
  shows "bit (WWDT_ClearStatusFlags mod0 fmask) n =
    (if n = 3 then bit fmask 3 else if n = 2 then bit mod0 2 \<and> \<not> bit fmask 2 else bit mod0 n)"
  using assms by (auto simp: WWDT_ClearStatusFlags_def Let_def and_single_bit bit_and_iff bit_or_iff bit_not_iff)

end
