(* ===== verification/HealthMonitor.thy ===== *)
theory HealthMonitor
  imports C_String Watchdog
begin

text \<open>
  The health monitor of \<^verbatim>\<open>services/HealthMonitor_service/HealthMonitor_service.c\<close>: the table of
  registered services, the check-in flag, the 10 ms loop that ages the services and refreshes
  the watchdog, and the watchdog configuration. A \<^verbatim>\<open>TaskHandle_t *\<close> is the number of a handle
  variable of the program; what the variables hold is an argument of the loop.
\<close>

section \<open>State\<close>

definition MAX_SERVICE_COUNT :: nat where "MAX_SERVICE_COUNT = 10"

record HealthMonitor_Reg =
  taskname :: "char list"
  task_id :: u8
  timeout_value :: u32
  restflag :: bool
  taskHandle :: "nat option"

record hms =
  serviceCount :: u8
  HeltMonit_timercount :: "u8 list"
  HeltMonit_Reg :: "HealthMonitor_Reg list"

definition blank_reg :: HealthMonitor_Reg where
  "blank_reg = \<lparr>taskname = replicate 20 NUL, task_id = 0, timeout_value = 0, restflag = False,
     taskHandle = None\<rparr>"

text \<open>The zero-initialised globals.\<close>

definition hms_boot :: hms where
  "hms_boot = \<lparr>serviceCount = 0, HeltMonit_timercount = replicate 10 0,
     HeltMonit_Reg = replicate 10 blank_reg\<rparr>"

section \<open>Registration and check-in\<close>

text \<open>\<^verbatim>\<open>Registor_service\<close> does not return (\<^verbatim>\<open>while (1);\<close>) when the table is full: \<open>None\<close>.\<close>

definition Registor_service :: "string \<Rightarrow> u32 \<Rightarrow> bool \<Rightarrow> nat option \<Rightarrow> hms \<Rightarrow> (u8 \<times> hms) option" where
  "Registor_service name timeout flag handle s =
     (if unat (serviceCount s) \<ge> MAX_SERVICE_COUNT then None
      else let i = unat (serviceCount s);
               r = HeltMonit_Reg s ! i;
               r = r\<lparr>task_id := serviceCount s,
                     taskname := (strncpy (taskname r) name (length (taskname r) - 1))
                                   [length (taskname r) - 1 := NUL],
                     timeout_value := timeout, restflag := flag, taskHandle := handle\<rparr>
           in Some (serviceCount s,
                s\<lparr>HeltMonit_Reg := (HeltMonit_Reg s)[i := r], serviceCount := serviceCount s + 1\<rparr>))"

definition Reset_HeltMonit_service :: "u8 \<Rightarrow> hms \<Rightarrow> hms" where
  "Reset_HeltMonit_service tid s =
     (if tid < serviceCount s
      then s\<lparr>HeltMonit_Reg := (HeltMonit_Reg s)[unat tid := (HeltMonit_Reg s ! unat tid)\<lparr>restflag := True\<rparr>]\<rparr>
      else s)"

section \<open>The monitor loop\<close>

text \<open>The tasks notified in one pass: those whose handle variable has been filled in.\<close>

definition hms_notified :: "(nat \<Rightarrow> nat option) \<Rightarrow> hms \<Rightarrow> nat list" where
  "hms_notified handles s =
     List.map_filter (\<lambda>r. case taskHandle r of None \<Rightarrow> None | Some p \<Rightarrow> handles p)
       (take (unat (serviceCount s)) (HeltMonit_Reg s))"

text \<open>The body of the second loop for service \<open>i\<close>: the new table and whether \<open>i\<close> is healthy.\<close>

definition hms_check :: "nat \<Rightarrow> hms \<Rightarrow> hms \<times> bool" where
  "hms_check i s =
     (let s' = (if restflag (HeltMonit_Reg s ! i)
                then s\<lparr>HeltMonit_Reg := (HeltMonit_Reg s)[i := (HeltMonit_Reg s ! i)\<lparr>restflag := False\<rparr>],
                       HeltMonit_timercount := (HeltMonit_timercount s)[i := 0]\<rparr>
                else s\<lparr>HeltMonit_timercount := (HeltMonit_timercount s)[i := HeltMonit_timercount s ! i + 10]\<rparr>)
      in (s', \<not> (ucast (HeltMonit_timercount s' ! i) \<ge> timeout_value (HeltMonit_Reg s' ! i))))"

fun hms_check_all :: "nat list \<Rightarrow> hms \<Rightarrow> bool \<Rightarrow> hms \<times> bool" where
  "hms_check_all [] s healthy = (s, healthy)"
| "hms_check_all (i # is) s healthy =
     (case hms_check i s of (s', ok) \<Rightarrow> hms_check_all is s' (healthy \<and> ok))"

text \<open>One pass of the loop: the new state, the tasks notified, and the watchdog accesses made.\<close>

definition hms_iteration :: "(nat \<Rightarrow> nat option) \<Rightarrow> hms \<Rightarrow> hms \<times> nat list \<times> wwdt_access list" where
  "hms_iteration handles s =
     (case hms_check_all [0..<unat (serviceCount s)] s True of (s', systemHealthy) \<Rightarrow>
        (s', hms_notified handles s, if systemHealthy then WWDT_Refresh else []))"

text \<open>At task start the counters are cleared.\<close>

definition hms_task_start :: "hms \<Rightarrow> hms" where
  "hms_task_start s = s\<lparr>HeltMonit_timercount := replicate 10 0\<rparr>"

text \<open>
  A run of the monitor: before each pass, some services check in (any tasks, in any order). The
  result is the final state and, for each pass, whether it refreshed the watchdog.
\<close>

definition hms_pass :: "u8 list \<Rightarrow> hms \<Rightarrow> hms \<times> bool" where
  "hms_pass checkins s =
     (case hms_iteration (\<lambda>_. None) (fold Reset_HeltMonit_service checkins s) of
        (s', _, acc) \<Rightarrow> (s', acc = WWDT_Refresh))"

fun hms_run :: "u8 list list \<Rightarrow> hms \<Rightarrow> hms \<times> bool list" where
  "hms_run [] s = (s, [])"
| "hms_run (c # cs) s =
     (case hms_pass c s of (s', b) \<Rightarrow> case hms_run cs s' of (s'', bs) \<Rightarrow> (s'', b # bs))"

section \<open>Watchdog configuration and interrupt handler\<close>

definition hms_wwdt_config :: "u32 \<Rightarrow> wwdt_config_t" where
  "hms_wwdt_config freq =
     (let wdtFreq = freq div 4; ticksPerMs = wdtFreq div 1000
      in WWDT_GetDefaultConfig\<lparr>timeoutValue := ticksPerMs * 100, warningValue := 512,
           windowValue := 0xFFFFFF, enableWatchdogReset := True, clockFreq_Hz := freq\<rparr>)"

text \<open>The values written to \<^verbatim>\<open>MOD\<close> by the handler; each call reads the register again (\<open>rd\<close>).\<close>

definition HealthMonitor_Handler :: "u32 \<Rightarrow> (nat \<Rightarrow> u32) \<Rightarrow> wwdt_access list" where
  "HealthMonitor_Handler mod0 rd =
     (let st = WWDT_GetStatusFlags mod0 in
      (if st AND WWDT_MOD_WDTOF_MASK \<noteq> 0
       then [Write_MOD (WWDT_ClearStatusFlags (rd 0) WWDT_MOD_WDTOF_MASK)] else []) @
      (if st AND WWDT_MOD_WDINT_MASK \<noteq> 0
       then [Write_MOD (WWDT_ClearStatusFlags (rd 1) WWDT_MOD_WDINT_MASK)] else []))"

section \<open>Well-formed tables\<close>

definition hms_wf :: "hms \<Rightarrow> bool" where
  "hms_wf s \<longleftrightarrow> length (HeltMonit_timercount s) = 10 \<and> length (HeltMonit_Reg s) = 10 \<and>
     unat (serviceCount s) \<le> 10"

lemma hms_wf_boot [simp]: "hms_wf hms_boot"
  by (simp add: hms_wf_def hms_boot_def)

lemma hms_wf_task_start [simp]: "hms_wf s \<Longrightarrow> hms_wf (hms_task_start s)"
  by (simp add: hms_wf_def hms_task_start_def)

lemma Registor_service_wf:
  "Registor_service name t f h s = Some (i, s') \<Longrightarrow> hms_wf s \<Longrightarrow> hms_wf s'"
  by (auto simp: Registor_service_def hms_wf_def MAX_SERVICE_COUNT_def Let_def unat_word_ariths split: if_splits)

lemma Registor_service_count:
  "Registor_service name t f h s = Some (i, s') \<Longrightarrow>
   i = serviceCount s \<and> unat (serviceCount s') = Suc (unat (serviceCount s)) \<and> unat (serviceCount s) < 10"
  by (auto simp: Registor_service_def MAX_SERVICE_COUNT_def Let_def unat_word_ariths split: if_splits)

lemma Reset_wf [simp]: "hms_wf (Reset_HeltMonit_service i s) = hms_wf s"
  by (simp add: Reset_HeltMonit_service_def hms_wf_def)

lemma Reset_count [simp]: "serviceCount (Reset_HeltMonit_service i s) = serviceCount s"
  by (simp add: Reset_HeltMonit_service_def)

lemma Reset_timercount [simp]: "HeltMonit_timercount (Reset_HeltMonit_service i s) = HeltMonit_timercount s"
  by (simp add: Reset_HeltMonit_service_def)

lemma Reset_timeout [simp]:
  "timeout_value (HeltMonit_Reg (Reset_HeltMonit_service i s) ! j) = timeout_value (HeltMonit_Reg s ! j)"
  by (simp add: Reset_HeltMonit_service_def nth_list_update_same_field)

lemma Reset_restflag:
  assumes "hms_wf s" and "j < unat (serviceCount s)"
  shows "restflag (HeltMonit_Reg (Reset_HeltMonit_service i s) ! j) \<longleftrightarrow>
     unat i = j \<or> restflag (HeltMonit_Reg s ! j)"
  using assms by (auto simp: Reset_HeltMonit_service_def hms_wf_def nth_list_update word_less_nat_alt)

lemma fold_Reset:
  "hms_wf (fold Reset_HeltMonit_service is s) = hms_wf s"
  "serviceCount (fold Reset_HeltMonit_service is s) = serviceCount s"
  "HeltMonit_timercount (fold Reset_HeltMonit_service is s) = HeltMonit_timercount s"
  "timeout_value (HeltMonit_Reg (fold Reset_HeltMonit_service is s) ! j) = timeout_value (HeltMonit_Reg s ! j)"
  by (induction "is" arbitrary: s) simp_all

lemma fold_Reset_restflag:
  assumes "hms_wf s" and "j < unat (serviceCount s)"
  shows "restflag (HeltMonit_Reg (fold Reset_HeltMonit_service is s) ! j) \<longleftrightarrow>
     j \<in> unat ` set is \<or> restflag (HeltMonit_Reg s ! j)"
  using assms by (induction "is" arbitrary: s) (auto simp: Reset_restflag)

section \<open>One pass, service by service\<close>

text \<open>The age of service \<open>i\<close> after the pass: the byte counter of the code.\<close>

definition aged :: "hms \<Rightarrow> nat \<Rightarrow> u8" where
  "aged s i = (if restflag (HeltMonit_Reg s ! i) then 0 else HeltMonit_timercount s ! i + 10)"

definition expired :: "hms \<Rightarrow> nat \<Rightarrow> bool" where
  "expired s i \<longleftrightarrow> unat (timeout_value (HeltMonit_Reg s ! i)) \<le> unat (aged s i)"

lemma hms_check_all_append:
  "hms_check_all (xs @ ys) s h = (case hms_check_all xs s h of (s', h') \<Rightarrow> hms_check_all ys s' h')"
  by (induction xs arbitrary: s h) (auto split: prod.splits)

lemma hms_check_one:
  assumes "hms_wf s" and "i < 10"
  shows "hms_check i s =
    (s\<lparr>HeltMonit_Reg := (HeltMonit_Reg s)[i := (HeltMonit_Reg s ! i)\<lparr>restflag := False\<rparr>],
       HeltMonit_timercount := (HeltMonit_timercount s)[i := aged s i]\<rparr>, \<not> expired s i)"
proof -
  have "(HeltMonit_Reg s)[i := (HeltMonit_Reg s ! i)\<lparr>restflag := False\<rparr>] = HeltMonit_Reg s"
    if "\<not> restflag (HeltMonit_Reg s ! i)"
    using that by (metis (full_types) HealthMonitor_Reg.surjective HealthMonitor_Reg.update_convs(4) list_update_id)
  then show ?thesis
    using assms
    by (auto simp: hms_check_def aged_def expired_def hms_wf_def Let_def word_le_nat_alt unat_ucast_up)
qed

lemma hms_check_all_upt:
  assumes "hms_wf s" and "n \<le> 10" and "hms_check_all [0..<n] s True = (s', h)"
  shows "hms_wf s' \<and> serviceCount s' = serviceCount s \<and>
    (\<forall>i. timeout_value (HeltMonit_Reg s' ! i) = timeout_value (HeltMonit_Reg s ! i)) \<and>
    (\<forall>i < 10. HeltMonit_timercount s' ! i = (if i < n then aged s i else HeltMonit_timercount s ! i)) \<and>
    (\<forall>i < 10. restflag (HeltMonit_Reg s' ! i) \<longleftrightarrow> n \<le> i \<and> restflag (HeltMonit_Reg s ! i)) \<and>
    (h \<longleftrightarrow> (\<forall>i < n. \<not> expired s i))"
  using assms(2,3)
proof (induction n arbitrary: s' h)
  case 0
  with assms(1) show ?case by simp
next
  case (Suc n)
  obtain s1 h1 where one: "hms_check_all [0..<n] s True = (s1, h1)"
    by (cases "hms_check_all [0..<n] s True")
  note IH = Suc.IH [OF _ one]
  from IH Suc.prems(1) have wf: "hms_wf s1" and n: "n < 10" by simp_all
  have "aged s1 n = aged s n" and "expired s1 n = expired s n"
    using IH Suc.prems(1) by (simp_all add: aged_def expired_def)
  with Suc.prems(2) one hms_check_one [OF wf n]
  have s': "s' = s1\<lparr>HeltMonit_Reg := (HeltMonit_Reg s1)[n := (HeltMonit_Reg s1 ! n)\<lparr>restflag := False\<rparr>],
       HeltMonit_timercount := (HeltMonit_timercount s1)[n := aged s n]\<rparr>" and h: "h = (h1 \<and> \<not> expired s n)"
    by (simp_all add: hms_check_all_append)
  have len: "length (HeltMonit_Reg s1) = 10" "length (HeltMonit_timercount s1) = 10"
    using wf by (simp_all add: hms_wf_def)
  show ?case
    using IH Suc.prems(1) wf n len unfolding s' h
    by (auto simp: hms_wf_def nth_list_update less_Suc_eq not_less_eq_eq)
qed

lemma hms_pass_effect:
  assumes "hms_wf s" and "hms_pass cs s = (s', b)"
  shows "hms_wf s' \<and> serviceCount s' = serviceCount s \<and>
    (\<forall>i. timeout_value (HeltMonit_Reg s' ! i) = timeout_value (HeltMonit_Reg s ! i)) \<and>
    (\<forall>i < unat (serviceCount s). HeltMonit_timercount s' ! i =
       (if i \<in> unat ` set cs \<or> restflag (HeltMonit_Reg s ! i) then 0 else HeltMonit_timercount s ! i + 10)) \<and>
    (\<forall>i < unat (serviceCount s). \<not> restflag (HeltMonit_Reg s' ! i)) \<and>
    (b \<longleftrightarrow> (\<forall>i < unat (serviceCount s).
       unat (HeltMonit_timercount s' ! i) < unat (timeout_value (HeltMonit_Reg s ! i))))"
proof -
  let ?r = "fold Reset_HeltMonit_service cs s"
  let ?n = "unat (serviceCount s)"
  have r: "hms_wf ?r" "serviceCount ?r = serviceCount s"
    using assms(1) by (simp_all add: fold_Reset)
  have n: "?n \<le> 10"
    using assms(1) by (simp add: hms_wf_def)
  obtain h where all: "hms_check_all [0..<?n] ?r True = (s', h)" and b: "b = h"
    using assms(2) r(2)
    by (auto simp: hms_pass_def hms_iteration_def WWDT_Refresh_def split: prod.splits if_splits)
  note E = hms_check_all_upt [OF r(1) n all]
  show ?thesis
    using E n assms(1) unfolding b
    by (auto simp: fold_Reset fold_Reset_restflag aged_def expired_def not_le)
qed

lemmas hms_pass_facts = hms_pass_effect [THEN conjunct1]
  hms_pass_effect [THEN conjunct2, THEN conjunct1]
  hms_pass_effect [THEN conjunct2, THEN conjunct2, THEN conjunct1, rule_format]

lemma hms_run_length: "length (snd (hms_run cs s)) = length cs"
proof (induction cs arbitrary: s)
  case (Cons c cs)
  show ?case
    using Cons.IH [of "fst (hms_pass c s)"] by (simp add: split_beta)
qed simp

lemma hms_run_append:
  "hms_run (xs @ ys) s = (case hms_run xs s of (s', bs) \<Rightarrow> case hms_run ys s' of (s'', bs') \<Rightarrow> (s'', bs @ bs'))"
  by (induction xs arbitrary: s) (auto split: prod.splits)

lemma hms_run_keeps:
  "hms_wf s \<Longrightarrow> hms_run cs s = (s', bs) \<Longrightarrow>
   hms_wf s' \<and> serviceCount s' = serviceCount s \<and>
   (\<forall>i. timeout_value (HeltMonit_Reg s' ! i) = timeout_value (HeltMonit_Reg s ! i))"
proof (induction cs arbitrary: s bs)
  case Nil
  then show ?case by simp
next
  case (Cons c cs)
  obtain s1 b where one: "hms_pass c s = (s1, b)" by (cases "hms_pass c s")
  obtain bs' where rest: "hms_run cs s1 = (s', bs')"
    using Cons.prems(2) one by (auto split: prod.splits)
  show ?case
    using Cons.IH [OF _ rest] hms_pass_effect [OF Cons.prems(1) one] by simp
qed

section \<open>How long the watchdog can go without a refresh\<close>

text \<open>
  The age of a service is a byte that grows by 10 ms per pass, so it wraps after 250 ms: a
  limit of 256 ms or more is never reached, and one of 200 ms is exceeded for at most six
  passes in a row.
\<close>

definition at_most_one_short_limit :: "hms \<Rightarrow> nat \<Rightarrow> bool" where
  "at_most_one_short_limit s k \<longleftrightarrow> (\<forall>i < unat (serviceCount s).
     256 \<le> unat (timeout_value (HeltMonit_Reg s ! i)) \<or>
     i = k \<and> 200 \<le> unat (timeout_value (HeltMonit_Reg s ! i)))"

lemma unhealthy_pass:
  assumes "hms_wf s" and "at_most_one_short_limit s k" and "hms_pass c s = (s', False)"
  shows "200 \<le> unat (HeltMonit_timercount s' ! k)"
    and "HeltMonit_timercount s' ! k = HeltMonit_timercount s ! k + 10"
proof -
  note E = hms_pass_effect [OF assms(1,3)]
  then obtain i where i: "i < unat (serviceCount s)"
    "unat (timeout_value (HeltMonit_Reg s ! i)) \<le> unat (HeltMonit_timercount s' ! i)"
    by (auto simp: not_less)
  have "unat (HeltMonit_timercount s' ! i) < 256" by simp
  with i(2) have "\<not> 256 \<le> unat (timeout_value (HeltMonit_Reg s ! i))" by linarith
  with i(1) assms(2) have k: "i = k" "200 \<le> unat (timeout_value (HeltMonit_Reg s ! i))"
    by (auto simp: at_most_one_short_limit_def)
  with i have ge: "200 \<le> unat (HeltMonit_timercount s' ! k)" by simp
  then have "HeltMonit_timercount s' ! k \<noteq> 0" by (auto simp: unat_eq_0)
  moreover from E i(1) k(1) have "HeltMonit_timercount s' ! k =
      (if k \<in> unat ` set c \<or> restflag (HeltMonit_Reg s ! k) then 0 else HeltMonit_timercount s ! k + 10)"
    by blast
  ultimately show "HeltMonit_timercount s' ! k = HeltMonit_timercount s ! k + 10"
    by (metis (full_types))
  show "200 \<le> unat (HeltMonit_timercount s' ! k)" by (rule ge)
qed

lemma at_most_one_short_limit_pass:
  "hms_wf s \<Longrightarrow> hms_pass c s = (s', b) \<Longrightarrow> at_most_one_short_limit s' k = at_most_one_short_limit s k"
  using hms_pass_effect by (simp add: at_most_one_short_limit_def)

lemma byte_age_no_wrap:
  assumes "200 \<le> (x + 10) mod 256" and "x < (256 :: nat)"
  shows "x + 10 < 256"
proof (rule ccontr)
  assume "\<not> x + 10 < 256"
  then have "(x + 10) mod 256 = (x + 10 - 256) mod 256" and "x + 10 - 256 < 10"
    using assms(2) by (simp_all add: le_mod_geq)
  with assms(1) show False by simp
qed

lemma unhealthy_stretch:
  "hms_wf s \<Longrightarrow> at_most_one_short_limit s k \<Longrightarrow> 200 \<le> unat (HeltMonit_timercount s ! k) \<Longrightarrow>
   True \<notin> set (snd (hms_run cs s)) \<Longrightarrow> unat (HeltMonit_timercount s ! k) + 10 * length cs < 256"
proof (induction cs arbitrary: s)
  case Nil
  then show ?case by simp
next
  case (Cons c cs)
  obtain s1 b where one: "hms_pass c s = (s1, b)" by (cases "hms_pass c s")
  with Cons.prems(4) have pass: "hms_pass c s = (s1, False)" and rest: "True \<notin> set (snd (hms_run cs s1))"
    by (auto split: prod.splits)
  note ge = unhealthy_pass(1) [OF Cons.prems(1,2) pass]
    and eq = unhealthy_pass(2) [OF Cons.prems(1,2) pass]
  have next_age: "unat (HeltMonit_timercount s1 ! k) = (unat (HeltMonit_timercount s ! k) + 10) mod 256"
    by (simp add: eq unat_word_ariths)
  have small: "unat (HeltMonit_timercount s ! k) + 10 < 256"
    by (rule byte_age_no_wrap [OF _ unat_u8_less]) (use next_age ge in simp)
  have "unat (HeltMonit_timercount s1 ! k) = unat (HeltMonit_timercount s ! k) + 10"
    using next_age by (simp only: mod_less [OF small])
  moreover have lim: "at_most_one_short_limit s1 k"
    unfolding at_most_one_short_limit_pass [OF Cons.prems(1) pass] by (rule Cons.prems(2))
  moreover have "unat (HeltMonit_timercount s1 ! k) + 10 * length cs < 256"
    by (rule Cons.IH [OF hms_pass_facts(1) [OF Cons.prems(1) pass] lim ge rest])
  ultimately show ?case by simp
qed

lemma seven_passes_refresh:
  assumes "hms_wf s" and "at_most_one_short_limit s k" and "length cs = 7"
  shows "True \<in> set (snd (hms_run cs s))"
proof (rule ccontr)
  assume none: "True \<notin> set (snd (hms_run cs s))"
  obtain c ds where cs: "cs = c # ds" and ds: "length ds = 6"
    using assms(3) by (cases cs) auto
  obtain s1 b where "hms_pass c s = (s1, b)" by (cases "hms_pass c s")
  with none cs have pass: "hms_pass c s = (s1, False)" and rest: "True \<notin> set (snd (hms_run ds s1))"
    by (auto split: prod.splits)
  note ge = unhealthy_pass(1) [OF assms(1,2) pass]
  have "at_most_one_short_limit s1 k"
    using at_most_one_short_limit_pass [OF assms(1) pass] assms(2) by blast
  from unhealthy_stretch [OF hms_pass_facts(1) [OF assms(1) pass] this ge rest] ds ge
  show False by linarith
qed

section \<open>Silent and lively services\<close>

lemma silent_age:
  assumes "hms_wf s" and "i < unat (serviceCount s)" and "\<not> restflag (HeltMonit_Reg s ! i)"
    and "\<forall>c \<in> set cs. i \<notin> unat ` set c"
    and "unat (HeltMonit_timercount s ! i) + 10 * length cs < 256"
    and "hms_run cs s = (s', bs)"
  shows "unat (HeltMonit_timercount s' ! i) = unat (HeltMonit_timercount s ! i) + 10 * length cs \<and>
    \<not> restflag (HeltMonit_Reg s' ! i)"
  using assms
proof (induction cs arbitrary: s bs)
  case Nil
  then show ?case by simp
next
  case (Cons c cs)
  obtain s1 b where one: "hms_pass c s = (s1, b)" by (cases "hms_pass c s")
  obtain bs' where rest: "hms_run cs s1 = (s', bs')"
    using Cons.prems(6) one by (auto split: prod.splits)
  note E = hms_pass_effect [OF Cons.prems(1) one]
  have c1: "HeltMonit_timercount s1 ! i = HeltMonit_timercount s ! i + 10" "\<not> restflag (HeltMonit_Reg s1 ! i)"
    using E Cons.prems(2-4) by auto
  have "unat (HeltMonit_timercount s1 ! i) = unat (HeltMonit_timercount s ! i) + 10"
    unfolding c1(1) by (rule trans [OF unat_add_small]) (use Cons.prems(5) in simp_all)
  with Cons.IH [OF _ _ c1(2) _ _ rest] E Cons.prems show ?case by simp
qed

lemma hms_run_last:
  "hms_run (cs @ [c]) s = (s', bs) \<Longrightarrow>
   \<exists>s1 bs' b. hms_run cs s = (s1, bs') \<and> hms_pass c s1 = (s', b) \<and> bs = bs' @ [b]"
  by (auto simp: hms_run_append split: prod.splits)

section \<open>Properties\<close>

text \<open>
  Registration fills the table in order and stops at ten. \<^verbatim>\<open>Registor_service\<close> gives the next free
  number, which then has the caller's limit, flag and handle and at most 19 characters of the
  name; no other entry changes; it fails to return exactly when ten services are registered.
\<close>

theorem registration_fills_table:
  assumes "hms_wf s" and "NUL \<notin> set name" and "length (taskname (HeltMonit_Reg s ! unat (serviceCount s))) = 20"
  shows "(Registor_service name t f h s = None \<longleftrightarrow> unat (serviceCount s) = 10) \<and>
    (\<forall>i s'. Registor_service name t f h s = Some (i, s') \<longrightarrow>
       unat i = unat (serviceCount s) \<and> unat (serviceCount s') = Suc (unat i) \<and>
       task_id (HeltMonit_Reg s' ! unat i) = i \<and> timeout_value (HeltMonit_Reg s' ! unat i) = t \<and>
       restflag (HeltMonit_Reg s' ! unat i) = f \<and> taskHandle (HeltMonit_Reg s' ! unat i) = h \<and>
       c_str (taskname (HeltMonit_Reg s' ! unat i)) = take 19 name \<and>
       (\<forall>j. j \<noteq> unat i \<longrightarrow> HeltMonit_Reg s' ! j = HeltMonit_Reg s ! j))"
proof -
  have "c_str ((strncpy (taskname (HeltMonit_Reg s ! unat (serviceCount s))) name 19)[19 := NUL]) = take 19 name"
    using assms(2,3) by (intro c_str_strncpy) simp_all
  with assms show ?thesis
    by (auto simp: Registor_service_def hms_wf_def MAX_SERVICE_COUNT_def Let_def unat_word_ariths)
qed

theorem registration_fills_table_witness:
  "\<exists>s'. Registor_service ''Analog_TASK'' 300 True (Some 0) hms_boot = Some (0, s') \<and>
     c_str (taskname (HeltMonit_Reg s' ! 0)) = ''Analog_TASK''"
proof -
  have "NUL \<notin> set ''Analog_TASK''" by (simp add: NUL_def)
  from registration_fills_table [OF hms_wf_boot this, of 300 True "Some 0"]
  show ?thesis
    by (auto simp: hms_boot_def blank_reg_def unat_eq_0)
qed

text \<open>
  A frozen service with a limit the monitor can count to is noticed in time. From a cleared
  counter, a service that stops checking in and whose limit is at most 250 ms makes the monitor
  withhold the watchdog refresh in the first pass in which 10 ms per pass reach its limit.
\<close>

theorem frozen_service_withholds_refresh:
  assumes "hms_wf s" and "i < unat (serviceCount s)"
    and "\<not> restflag (HeltMonit_Reg s ! i)" and "HeltMonit_timercount s ! i = 0"
    and "0 < unat (timeout_value (HeltMonit_Reg s ! i))" and "unat (timeout_value (HeltMonit_Reg s ! i)) \<le> 250"
    and "\<forall>c \<in> set cs. i \<notin> unat ` set c"
    and "length cs = (unat (timeout_value (HeltMonit_Reg s ! i)) + 9) div 10"
  shows "last (snd (hms_run cs s)) = False"
proof -
  let ?t = "unat (timeout_value (HeltMonit_Reg s ! i))"
  obtain s' bs where run: "hms_run cs s = (s', bs)" by (cases "hms_run cs s")
  have "cs \<noteq> []" using assms(5,8) by auto
  then obtain ds c where cs: "cs = ds @ [c]" by (metis append_butlast_last_id)
  with run obtain s1 bs' b where r1: "hms_run ds s = (s1, bs')" and p: "hms_pass c s1 = (s', b)"
    and bs: "bs = bs' @ [b]" using hms_run_last by blast
  have "length cs \<le> 25"
    using assms(6,8) div_le_mono [of "?t + 9" 259 10] by simp
  moreover have "?t \<le> 10 * ((?t + 9) div 10)"
    using div_mult_mod_eq [of "?t + 9" 10] mod_less_divisor [of 10 "?t + 9"] by linarith
  ultimately have age: "10 * length cs < 256" "?t \<le> 10 * length cs"
    using assms(8) by simp_all
  have "unat (HeltMonit_timercount s' ! i) = 10 * length cs"
    using silent_age [OF assms(1-3,7) _ run] assms(4) age(1) by simp
  moreover from hms_run_keeps [OF assms(1) r1]
  have "hms_wf s1" "serviceCount s1 = serviceCount s"
    "timeout_value (HeltMonit_Reg s1 ! i) = timeout_value (HeltMonit_Reg s ! i)" by simp_all
  ultimately have "\<not> b"
    using hms_pass_effect [of s1 c s' b] p age(2) assms(2) by (auto simp: not_less)
  then show ?thesis
    by (simp add: run bs)
qed

definition one_service :: "u32 \<Rightarrow> hms" where
  "one_service t = hms_boot\<lparr>serviceCount := 1,
     HeltMonit_Reg := (HeltMonit_Reg hms_boot)[0 := blank_reg\<lparr>timeout_value := t\<rparr>]\<rparr>"

theorem frozen_service_withholds_refresh_witness:
  "last (snd (hms_run (replicate 20 []) (one_service 200))) = False"
  by (rule frozen_service_withholds_refresh [where i = 0])
    (simp_all add: one_service_def hms_boot_def blank_reg_def hms_wf_def)

text \<open>
  A limit of 256 ms or more is never enforced. If every registered limit is at least 256 ms,
  the monitor refreshes the watchdog in every pass, whichever services are frozen and for
  however long: the byte that counts the missed time wraps before it reaches the limit.
\<close>

theorem long_limits_never_expire:
  assumes "hms_wf s" and "\<forall>i < unat (serviceCount s). 256 \<le> unat (timeout_value (HeltMonit_Reg s ! i))"
  shows "snd (hms_run cs s) = replicate (length cs) True"
  using assms
proof (induction cs arbitrary: s)
  case Nil
  then show ?case by simp
next
  case (Cons c cs)
  obtain s1 b where one: "hms_pass c s = (s1, b)" by (cases "hms_pass c s")
  note E = hms_pass_effect [OF Cons.prems(1) one]
  have "b"
  proof -
    have "unat (HeltMonit_timercount s1 ! i) < unat (timeout_value (HeltMonit_Reg s ! i))"
      if "i < unat (serviceCount s)" for i
      using Cons.prems(2) that by (intro less_le_trans [OF unat_u8_less]) simp
    with E show ?thesis by simp
  qed
  moreover have "snd (hms_run cs s1) = replicate (length cs) True"
    using Cons.IH [of s1] E Cons.prems(2) by simp
  ultimately show ?case
    using one by (simp add: split_beta)
qed

theorem long_limits_never_expire_witness:
  "snd (hms_run (replicate 500 []) (one_service 300)) = replicate 500 True"
  using long_limits_never_expire [of "one_service 300" "replicate 500 []"]
  by (simp add: one_service_def hms_boot_def blank_reg_def hms_wf_def)

end
