(* ===== verification/Indicators.thy ===== *)
theory Indicators
  imports HealthMonitor
begin

text \<open>
  The LED driver \<^verbatim>\<open>drivers/My_Indectors_driver.c\<close> and the blink engine
  \<^verbatim>\<open>services/Indectors_service/Indectors_service.c\<close>: per-LED interval, counter and level, the
  10 ms tick, and the default assignment made at start-up. The output latches of the GPIO ports
  are a function from port and pin to the level last driven.
\<close>

section \<open>LED driver\<close>

definition LED_DRIVER_NUM_LEDS :: nat where "LED_DRIVER_NUM_LEDS = 3"

type_synonym gpio_latch = "nat \<times> u8 \<Rightarrow> u32"

definition led_pins :: "(nat \<times> u8) list" where "led_pins = [(0, 10), (0, 27), (1, 2)]"

definition led_driver_init :: "gpio_latch \<Rightarrow> gpio_latch" where
  "led_driver_init g = fold (\<lambda>i g. g(led_pins ! i := 0)) [0..<LED_DRIVER_NUM_LEDS] g"

definition led_driver_write :: "u8 \<Rightarrow> bool \<Rightarrow> gpio_latch \<Rightarrow> gpio_latch" where
  "led_driver_write index on g =
     (if unat index \<ge> LED_DRIVER_NUM_LEDS then g
      else g(led_pins ! unat index := (if on then 1 else 0)))"

section \<open>Blink engine\<close>

record led_state_t =
  interval_ticks :: u32
  counter :: u32
  level :: bool

record led_service =
  led :: "led_state_t list"
  gpio :: gpio_latch

definition PERIOD_INDICATOR_TASK_MS :: u32 where "PERIOD_INDICATOR_TASK_MS = 10"

definition led_service_init :: "led_service \<Rightarrow> led_service" where
  "led_service_init s =
     s\<lparr>led := fold (\<lambda>i l. l[i := (l ! i)\<lparr>interval_ticks := 0, counter := 0, level := False\<rparr>])
                [0..<LED_DRIVER_NUM_LEDS] (led s)\<rparr>"

definition led_service_set_blink :: "u8 \<Rightarrow> u32 \<Rightarrow> led_service \<Rightarrow> led_service" where
  "led_service_set_blink index interval_ms s =
     (if unat index \<ge> LED_DRIVER_NUM_LEDS then s
      else s\<lparr>led := (led s)[unat index := (led s ! unat index)
               \<lparr>interval_ticks := interval_ms div PERIOD_INDICATOR_TASK_MS, counter := 0\<rparr>]\<rparr>)"

definition led_service_set_solid :: "u8 \<Rightarrow> bool \<Rightarrow> led_service \<Rightarrow> led_service" where
  "led_service_set_solid index on s =
     (if unat index \<ge> LED_DRIVER_NUM_LEDS then s
      else s\<lparr>led := (led s)[unat index := (led s ! unat index)\<lparr>interval_ticks := 0, level := on\<rparr>],
             gpio := led_driver_write index on (gpio s)\<rparr>)"

text \<open>The body of the loop of \<^verbatim>\<open>led_service_task_10ms\<close> for one LED.\<close>

definition led_tick :: "u8 \<Rightarrow> led_service \<Rightarrow> led_service" where
  "led_tick i s =
     (let l = led s ! unat i in
      if interval_ticks l = 0 then s
      else let l = l\<lparr>counter := counter l + 1\<rparr> in
        if counter l \<ge> interval_ticks l
        then s\<lparr>led := (led s)[unat i := l\<lparr>counter := 0, level := \<not> level l\<rparr>],
               gpio := led_driver_write i (\<not> level l) (gpio s)\<rparr>
        else s\<lparr>led := (led s)[unat i := l]\<rparr>)"

definition led_service_task_10ms :: "led_service \<Rightarrow> led_service" where
  "led_service_task_10ms s = fold led_tick (map of_nat [0..<LED_DRIVER_NUM_LEDS]) s"

definition LED_SYSTEM :: u8 where "LED_SYSTEM = 0"
definition LED_1 :: u8 where "LED_1 = 1"
definition LED_2 :: u8 where "LED_2 = 2"
definition LED_3 :: u8 where "LED_3 = 3"

text \<open>
  \<^verbatim>\<open>Init_Indicator_Task\<close>: the default assignment, then the registration with the monitor (handle
  variable \<open>h\<close>); the result is the identifier under which the task checks in.
\<close>

definition HMS_TIMEOUT_INDICATOR_MS :: u32 where "HMS_TIMEOUT_INDICATOR_MS = 200"

definition led_default_blinks :: "led_service \<Rightarrow> led_service" where
  "led_default_blinks = led_service_set_blink LED_3 5000 \<circ> led_service_set_blink LED_2 2000 \<circ>
     led_service_set_blink LED_1 500"

definition Init_Indicator_Task ::
    "nat \<Rightarrow> led_service \<times> hms \<Rightarrow> (u8 \<times> led_service \<times> hms) option" where
  "Init_Indicator_Task h = (\<lambda>(s, m).
     let s = led_default_blinks (led_service_init s) in
     map_option (\<lambda>(tid, m'). (tid, s, m'))
       (Registor_service ''Indicator_Task'' HMS_TIMEOUT_INDICATOR_MS True (Some h) m))"

text \<open>One pass of the task: check in when the monitor has notified it, then tick.\<close>

definition Indicator_Task_pass :: "u8 \<Rightarrow> bool \<Rightarrow> led_service \<times> hms \<Rightarrow> led_service \<times> hms" where
  "Indicator_Task_pass tid notified = (\<lambda>(s, m).
     (led_service_task_10ms s, if notified then Reset_HeltMonit_service tid m else m))"

section \<open>Well-formed state\<close>

text \<open>Three LEDs; a blinking LED has not reached its interval; the pins show the levels.\<close>

definition led_wf :: "led_service \<Rightarrow> bool" where
  "led_wf s \<longleftrightarrow> length (led s) = 3 \<and>
     (\<forall>i < 3. interval_ticks (led s ! i) \<noteq> 0 \<longrightarrow> counter (led s ! i) < interval_ticks (led s ! i))"

definition pin_shows_level :: "nat \<Rightarrow> led_service \<Rightarrow> bool" where
  "pin_shows_level i s \<longleftrightarrow> gpio s (led_pins ! i) = (if level (led s ! i) then 1 else 0)"

lemma led_pins_distinct:
  "i < 3 \<Longrightarrow> j < 3 \<Longrightarrow> led_pins ! i = led_pins ! j \<longleftrightarrow> i = j"
  by (auto simp: led_pins_def nth_Cons less_Suc_eq numeral_3_eq_3 split: nat.splits)

lemma counter_step:
  assumes "c < (k :: u32)" and "\<not> k \<le> c + 1" shows "unat (c + 1) = Suc (unat c)"
proof -
  have "unat c < unat k" using assms(1) by (simp add: word_less_nat_alt)
  then have "unat c + 1 < 2 ^ 32"
    using unat_u32_less [of k] by (simp del: unat_u32_less)
  then show ?thesis by (subst unat_add_small) simp_all
qed

lemma counter_wraps_at:
  assumes "c < (k :: u32)" shows "k \<le> c + 1 \<longleftrightarrow> Suc (unat c) = unat k"
proof -
  have "unat c < unat k" using assms by (simp add: word_less_nat_alt)
  then have "unat c + unat (1 :: u32) < 2 ^ LENGTH(32)"
    using unat_u32_less [of k] by (simp del: unat_u32_less)
  from unat_add_small [OF this] \<open>unat c < unat k\<close> show ?thesis
    by (simp add: word_le_nat_alt) linarith
qed

text \<open>One LED after its own tick; the other LEDs and their pins are left alone.\<close>

definition ticked :: "led_state_t \<Rightarrow> led_state_t" where
  "ticked l = (if interval_ticks l = 0 then l
     else if interval_ticks l \<le> counter l + 1 then l\<lparr>counter := 0, level := \<not> level l\<rparr>
     else l\<lparr>counter := counter l + 1\<rparr>)"

lemma led_tick_led:
  "led (led_tick i s) = (led s)[unat i := ticked (led s ! unat i)]"
  by (auto simp: led_tick_def ticked_def Let_def)

lemma led_tick_pins:
  assumes "length (led s) = 3" and "unat i < 3" and "j < 3" and "pin_shows_level j s"
  shows "pin_shows_level j (led_tick i s)"
  using assms led_pins_distinct [of "unat i" j]
  by (cases "unat i = j")
     (auto simp: pin_shows_level_def led_tick_def Let_def led_driver_write_def LED_DRIVER_NUM_LEDS_def)

lemma task_10ms_unfold:
  "led_service_task_10ms s = led_tick 2 (led_tick 1 (led_tick 0 s))"
  by (simp add: led_service_task_10ms_def LED_DRIVER_NUM_LEDS_def upt_rec)

lemma task_10ms_pins:
  assumes "length (led s) = 3" and "j < 3" and "pin_shows_level j s"
  shows "pin_shows_level j (led_service_task_10ms s)"
  using assms by (simp add: task_10ms_unfold led_tick_pins led_tick_led)

lemma led_after_task_10ms:
  assumes "length (led s) = 3"
  shows "led (led_service_task_10ms s) = map ticked (led s)"
  using assms
  by (auto simp: task_10ms_unfold led_tick_led length_Suc_conv numeral_3_eq_3)

lemma ticked_bounds:
  assumes "interval_ticks l \<noteq> 0 \<longrightarrow> counter l < interval_ticks l"
  shows "interval_ticks (ticked l) = interval_ticks l"
    and "interval_ticks (ticked l) \<noteq> 0 \<longrightarrow> counter (ticked l) < interval_ticks (ticked l)"
  using assms by (auto simp: ticked_def word_gt_0 not_le)

lemma ticked_bounded:
  assumes "interval_ticks l \<noteq> 0 \<longrightarrow> counter l < interval_ticks l" and "interval_ticks l \<noteq> 0"
  shows "counter (ticked l) < interval_ticks l"
  using ticked_bounds [OF assms(1)] assms(2) by simp

lemma led_wf_ops:
  "led_wf s \<Longrightarrow> led_wf (led_service_task_10ms s)"
  "led_wf s \<Longrightarrow> led_wf (led_service_set_blink i ms s)"
  "led_wf s \<Longrightarrow> led_wf (led_service_set_solid i b s)"
  by (auto simp: led_wf_def led_after_task_10ms ticked_bounds(1) ticked_bounded led_service_set_blink_def
      led_service_set_solid_def LED_DRIVER_NUM_LEDS_def nth_list_update word_gt_0)

lemma led_wf_init:
  "length (led s) = 3 \<Longrightarrow> led_wf (led_service_init s)"
  by (auto simp: led_wf_def led_service_init_def LED_DRIVER_NUM_LEDS_def upt_rec nth_list_update)

section \<open>Wave form\<close>

lemma ticked_wave:
  assumes "counter l < interval_ticks l"
  shows "unat (counter (ticked l)) = Suc (unat (counter l)) mod unat (interval_ticks l) \<and>
    level (ticked l) = (level l \<noteq> (Suc (unat (counter l)) = unat (interval_ticks l)))"
proof -
  have "unat (counter l) < unat (interval_ticks l)" using assms by (simp add: word_less_nat_alt)
  then show ?thesis
    using counter_wraps_at [OF assms] counter_step [OF assms] assms
    by (auto simp: ticked_def)
qed

lemma wave_step:
  "Suc (n mod k) = k \<Longrightarrow> odd (Suc n div k) = even (n div (k :: nat))"
  "Suc (n mod k) \<noteq> k \<Longrightarrow> Suc n div k = n div k"
  using div_Suc [of n k] mod_Suc [of n k] by (auto split: if_splits)

lemma led_ticks:
  assumes "led_wf s" and "i < 3" and "interval_ticks (led s ! i) \<noteq> 0"
    and "counter (led s ! i) = 0"
  shows "led_wf ((led_service_task_10ms ^^ n) s) \<and>
    interval_ticks (led ((led_service_task_10ms ^^ n) s) ! i) = interval_ticks (led s ! i) \<and>
    unat (counter (led ((led_service_task_10ms ^^ n) s) ! i)) = n mod unat (interval_ticks (led s ! i)) \<and>
    level (led ((led_service_task_10ms ^^ n) s) ! i) =
      (level (led s ! i) \<noteq> odd (n div unat (interval_ticks (led s ! i))))"
proof (induction n)
  case 0
  with assms show ?case by simp
next
  case (Suc n)
  define t where "t = (led_service_task_10ms ^^ n) s"
  have wf: "led_wf t" and iv: "interval_ticks (led t ! i) = interval_ticks (led s ! i)"
    and cnt: "unat (counter (led t ! i)) = n mod unat (interval_ticks (led s ! i))"
    and lev: "level (led t ! i) = (level (led s ! i) \<noteq> odd (n div unat (interval_ticks (led s ! i))))"
    using Suc by (simp_all add: t_def)
  have lt: "counter (led t ! i) < interval_ticks (led t ! i)"
    using wf assms(2,3) iv unfolding led_wf_def by metis
  have next_led: "led (led_service_task_10ms t) ! i = ticked (led t ! i)"
    using wf assms(2) by (simp add: led_after_task_10ms led_wf_def)
  show ?case
    using ticked_wave [OF lt] ticked_bounds(1) [of "led t ! i"] lt led_wf_ops(1) [OF wf]
      wave_step [of n "unat (interval_ticks (led s ! i))"]
    by (auto simp: next_led iv cnt lev mod_Suc simp flip: t_def)
qed

text \<open>A LED without an interval keeps its level and its pin.\<close>

lemma solid_ticks:
  assumes "led_wf s" and "i < 3" and "interval_ticks (led s ! i) = 0" and "pin_shows_level i s"
  shows "led_wf ((led_service_task_10ms ^^ n) s) \<and> led ((led_service_task_10ms ^^ n) s) ! i = led s ! i \<and>
    pin_shows_level i ((led_service_task_10ms ^^ n) s)"
proof (induction n)
  case 0
  with assms show ?case by simp
next
  case (Suc n)
  define t where "t = (led_service_task_10ms ^^ n) s"
  have wf: "led_wf t" and same: "led t ! i = led s ! i" and pin: "pin_shows_level i t"
    using Suc by (simp_all add: t_def)
  have len: "length (led t) = 3" using wf by (simp add: led_wf_def)
  with assms(2,3) pin same show ?case
    by (simp add: led_after_task_10ms ticked_def led_wf_ops(1) [OF wf] task_10ms_pins flip: t_def)
qed

section \<open>Properties\<close>

text \<open>
  A blinking LED follows a square wave. After \<^verbatim>\<open>led_service_set_blink (i, ms)\<close> with \<open>ms\<close> at
  least 10, and \<open>n\<close> ticks of 10 ms, the level has been inverted once for every \<open>ms div 10\<close> ticks,
  whatever the other LEDs do, and the pin shows the level once it did at the start.
\<close>

theorem blink_is_square_wave:
  assumes "led_wf s" and "unat i < 3" and "10 \<le> unat ms" and "pin_shows_level (unat i) s"
  shows "level (led ((led_service_task_10ms ^^ n) (led_service_set_blink i ms s)) ! unat i) =
      (level (led s ! unat i) \<noteq> odd (n div (unat ms div 10))) \<and>
    pin_shows_level (unat i) ((led_service_task_10ms ^^ n) (led_service_set_blink i ms s))"
proof -
  define b where "b = led_service_set_blink i ms s"
  have len: "length (led s) = 3" using assms(1) by (simp add: led_wf_def)
  have wf: "led_wf b" unfolding b_def by (rule led_wf_ops(2) [OF assms(1)])
  have k: "unat (interval_ticks (led b ! unat i)) = unat ms div 10" and c: "counter (led b ! unat i) = 0"
    and l: "level (led b ! unat i) = level (led s ! unat i)" and p: "pin_shows_level (unat i) b"
    using assms(2,4) len
    by (simp_all add: b_def led_service_set_blink_def LED_DRIVER_NUM_LEDS_def
        PERIOD_INDICATOR_TASK_MS_def pin_shows_level_def unat_div)
  have "0 < unat ms div 10" using assms(3) by simp
  then have nz: "interval_ticks (led b ! unat i) \<noteq> 0" using k by auto
  note T = led_ticks [OF wf assms(2) nz c]
  have "pin_shows_level (unat i) ((led_service_task_10ms ^^ n) b)"
  proof (induction n)
    case (Suc n)
    have "length (led ((led_service_task_10ms ^^ n) b)) = 3"
      using T [of n] by (simp add: led_wf_def)
    with Suc assms(2) show ?case
      by (simp add: task_10ms_pins)
  qed (simp add: p)
  with T [of n] k l show ?thesis by (simp add: b_def)
qed

definition leds_off :: led_service where
  "leds_off = \<lparr>led = replicate 3 \<lparr>interval_ticks = 0, counter = 0, level = False\<rparr>,
     gpio = (\<lambda>_. 0)\<rparr>"

lemma led_wf_leds_off: "led_wf leds_off"
  by (simp add: led_wf_def leds_off_def)

theorem blink_is_square_wave_witness:
  "level (led ((led_service_task_10ms ^^ 75) (led_service_set_blink LED_1 500 leds_off)) ! 1)"
proof -
  have "pin_shows_level 1 leds_off" by (simp add: pin_shows_level_def leds_off_def)
  with blink_is_square_wave [OF led_wf_leds_off, of LED_1 500 75] show ?thesis
    by (simp add: LED_1_def leds_off_def)
qed

text \<open>
  A solid LED stays as it was set. After \<^verbatim>\<open>led_service_set_solid (i, on)\<close> no number of ticks
  changes its level or its pin.
\<close>

theorem solid_led_is_stable:
  assumes "led_wf s" and "unat i < 3"
  shows "level (led ((led_service_task_10ms ^^ n) (led_service_set_solid i on s)) ! unat i) = on \<and>
    gpio ((led_service_task_10ms ^^ n) (led_service_set_solid i on s)) (led_pins ! unat i) = (if on then 1 else 0)"
proof -
  have "length (led s) = 3" using assms(1) by (simp add: led_wf_def)
  with assms(2) have solid: "interval_ticks (led (led_service_set_solid i on s) ! unat i) = 0"
    "level (led (led_service_set_solid i on s) ! unat i) = on" "pin_shows_level (unat i) (led_service_set_solid i on s)"
    by (simp_all add: led_service_set_solid_def LED_DRIVER_NUM_LEDS_def pin_shows_level_def led_driver_write_def)
  from solid_ticks [OF led_wf_ops(3) [OF assms(1)] assms(2) solid(1,3)] solid(2) show ?thesis
    by (auto simp: pin_shows_level_def)
qed

theorem solid_led_is_stable_witness:
  "gpio ((led_service_task_10ms ^^ 1000) (led_service_set_solid LED_1 True leds_off)) (0, 27) = 1"
  using solid_led_is_stable [OF led_wf_leds_off, of LED_1 1000 True]
  by (simp add: LED_1_def led_pins_def)

text \<open>
  The start-up assignment makes exactly \<open>LED_1\<close> and \<open>LED_2\<close> blink, at 500 ms and 2000 ms. The
  request for \<open>LED_3\<close> is outside the driver's three LEDs and is dropped; the task is registered
  with a limit of 200 ms.
\<close>

theorem indicator_startup:
  assumes "length (led s) = 3" and "unat (serviceCount m) < 10"
  shows "\<exists>m'. Init_Indicator_Task h (s, m) = Some (serviceCount m, led_default_blinks (led_service_init s), m') \<and>
    Registor_service ''Indicator_Task'' 200 True (Some h) m = Some (serviceCount m, m') \<and>
    map interval_ticks (led (led_default_blinks (led_service_init s))) = [0, 50, 200] \<and>
    led_service_set_blink LED_3 5000 s = s"
proof -
  obtain a b c where "led s = [a, b, c]"
    using assms(1) by (auto simp: length_Suc_conv numeral_3_eq_3)
  then show ?thesis using assms(2)
    by (simp add: Init_Indicator_Task_def led_default_blinks_def led_service_init_def
        led_service_set_blink_def LED_DRIVER_NUM_LEDS_def PERIOD_INDICATOR_TASK_MS_def upt_rec
        LED_1_def LED_2_def LED_3_def HMS_TIMEOUT_INDICATOR_MS_def Registor_service_def
        MAX_SERVICE_COUNT_def Let_def)
qed

theorem indicator_startup_witness:
  "map interval_ticks (led (led_default_blinks (led_service_init leds_off))) = [0, 50, 200]"
proof -
  have "length (led leds_off) = 3" by (simp add: leds_off_def)
  from indicator_startup [OF this, of hms_boot 3] show ?thesis by (auto simp: hms_boot_def)
qed

end
