(* ===== verification/DataLogger.thy ===== *)
theory DataLogger
  imports Eeprom HealthMonitor
begin

text \<open>
  The data logger \<^verbatim>\<open>services/Data_Logger_service/Data_Logger_service.c\<close>: the packed record, the
  two ring partitions of the EEPROM (120 records every 30 s, 72 records every 10 min) and the
  50 ms task that fills them. The task stores through the block write of the EEPROM driver, an
  argument \<open>wr\<close> here; the locale \<open>log_store\<close> states what the logger relies on, and the driver
  on a data-sheet chip provides it.
\<close>

section \<open>The record and its layout\<close>

record log_record_t =
  timestamp :: u32
  temperature :: u16
  pressure :: u32
  digital_in :: u8
  checksum :: u8

definition LOG_RECORD_SIZE :: u16 where "LOG_RECORD_SIZE = 12"

definition u16_bytes :: "u16 \<Rightarrow> u8 list" where
  "u16_bytes x = [ucast x, ucast (drop_bit 8 x)]"

definition u32_bytes :: "u32 \<Rightarrow> u8 list" where
  "u32_bytes x = [ucast x, ucast (drop_bit 8 x), ucast (drop_bit 16 x), ucast (drop_bit 24 x)]"

text \<open>
  The bytes that the cast \<^verbatim>\<open>(uint8_t*)record\<close> reads: fields in order, no padding, little endian. A
  negative temperature is its two's complement.
\<close>

definition log_bytes :: "log_record_t \<Rightarrow> u8 list" where
  "log_bytes r = u32_bytes (timestamp r) @ u16_bytes (temperature r) @ u32_bytes (pressure r) @
     [digital_in r, checksum r]"

definition bytes_u16 :: "u8 list \<Rightarrow> u16" where
  "bytes_u16 b = (ucast (b ! 0) OR push_bit 8 (ucast (b ! 1)))"

definition bytes_u32 :: "u8 list \<Rightarrow> u32" where
  "bytes_u32 b = (ucast (b ! 0) OR push_bit 8 (ucast (b ! 1)) OR push_bit 16 (ucast (b ! 2)) OR
     push_bit 24 (ucast (b ! 3)))"

definition log_record_of :: "u8 list \<Rightarrow> log_record_t" where
  "log_record_of b = \<lparr>timestamp = bytes_u32 (take 4 b), temperature = bytes_u16 (take 2 (drop 4 b)),
     pressure = bytes_u32 (take 4 (drop 6 b)), digital_in = b ! 10, checksum = b ! 11\<rparr>"

lemma length_log_bytes [simp]: "length (log_bytes r) = 12"
  by (simp add: log_bytes_def u32_bytes_def u16_bytes_def)

lemma bytes_u16_inverse: "bytes_u16 (u16_bytes x) = x"
  by (rule bit_word_eqI)
     (auto simp: bytes_u16_def u16_bytes_def bit_simps)

lemma bytes_u32_inverse: "bytes_u32 (u32_bytes x) = x"
proof (rule bit_word_eqI)
  fix n assume "n < LENGTH(32)"
  then consider "n < 8" | "8 \<le> n" "n < 16" | "16 \<le> n" "n < 24" | "24 \<le> n" "n < 32"
    by (fastforce)
  then show "bit (bytes_u32 (u32_bytes x)) n = bit x n"
    by cases (auto simp: bytes_u32_def u32_bytes_def bit_simps)
qed

lemma log_record_of_log_bytes: "log_record_of (log_bytes r) = r"
proof -
  have "log_bytes r = u32_bytes (timestamp r) @ u16_bytes (temperature r) @ u32_bytes (pressure r) @
    [digital_in r, checksum r]" by (simp add: log_bytes_def)
  moreover have "length (u32_bytes x) = 4" "length (u16_bytes y) = 2" for x y
    by (simp_all add: u32_bytes_def u16_bytes_def)
  ultimately show ?thesis
    by (simp add: log_record_of_def bytes_u32_inverse bytes_u16_inverse nth_append)
qed

section \<open>State and operations\<close>

definition HIGH_RES_MAX_RECORDS :: u16 where "HIGH_RES_MAX_RECORDS = 120"
definition LONG_TERM_MAX_RECORDS :: u16 where "LONG_TERM_MAX_RECORDS = 72"
definition EEPROM_HIGH_RES_START :: u16 where "EEPROM_HIGH_RES_START = 0"
definition EEPROM_LONG_TERM_START :: u16 where
  "EEPROM_LONG_TERM_START = HIGH_RES_MAX_RECORDS * LOG_RECORD_SIZE"
definition PERIOD_DATA_LOGGER_TASK_MS :: u32 where "PERIOD_DATA_LOGGER_TASK_MS = 50"

record data_logger =
  highResIndex :: u16
  longTermIndex :: u16
  highResTimerMs :: u32
  longTermTimerMs :: u32

text \<open>The static indices, and the local timers with which the task starts.\<close>

definition data_logger_start :: data_logger where
  "data_logger_start = \<lparr>highResIndex = 0, longTermIndex = 0, highResTimerMs = 0, longTermTimerMs = 0\<rparr>"

type_synonym 'w block_write = "u16 \<Rightarrow> u8 list \<Rightarrow> u16 \<Rightarrow> 'w \<Rightarrow> eeprom_status_t \<times> 'w"

definition EEPROM_Write_Record :: "'w block_write \<Rightarrow> u16 \<Rightarrow> log_record_t \<Rightarrow> 'w \<Rightarrow> status_t \<times> 'w" where
  "EEPROM_Write_Record wr address r w =
     (case wr address (log_bytes r) LOG_RECORD_SIZE w of (st, w') \<Rightarrow>
        (if st = kEeprom_Ok then kStatus_Success else kStatus_Fail, w'))"

text \<open>
  One partition: write the snapshot at the index, and only on success advance the index with
  wrap-around and rest 5 ms. \<open>task_delay\<close> is \<^verbatim>\<open>vTaskDelay\<close>.
\<close>

definition logger_store ::
    "'w block_write \<Rightarrow> (u32 \<Rightarrow> 'w \<Rightarrow> 'w) \<Rightarrow> u16 \<Rightarrow> u16 \<Rightarrow> log_record_t \<Rightarrow> u16 \<Rightarrow> 'w \<Rightarrow> u16 \<times> 'w" where
  "logger_store wr task_delay start max_records r index w =
     (let targetAddr = start + index * LOG_RECORD_SIZE in
      case EEPROM_Write_Record wr targetAddr r w of (st, w') \<Rightarrow>
        if st = kStatus_Success
        then (if index + 1 \<ge> max_records then 0 else index + 1, task_delay 5 w')
        else (index, w'))"

text \<open>
  One pass of the task after its check-in: the timers advance, then each partition is served when
  its timer is due. The volatile \<^verbatim>\<open>g_CurrentSensorMetrics\<close> is copied once for each partition, so
  a pass takes the two values read.
\<close>

definition logger_tick :: "data_logger \<Rightarrow> data_logger" where
  "logger_tick s = s\<lparr>highResTimerMs := highResTimerMs s + PERIOD_DATA_LOGGER_TASK_MS,
     longTermTimerMs := longTermTimerMs s + PERIOD_DATA_LOGGER_TASK_MS\<rparr>"

definition logger_high_res ::
    "'w block_write \<Rightarrow> (u32 \<Rightarrow> 'w \<Rightarrow> 'w) \<Rightarrow> log_record_t \<Rightarrow> data_logger \<times> 'w \<Rightarrow> data_logger \<times> 'w" where
  "logger_high_res wr task_delay metrics = (\<lambda>(s, w).
     if highResTimerMs s \<ge> 30000 then
       (case logger_store wr task_delay EEPROM_HIGH_RES_START HIGH_RES_MAX_RECORDS
               metrics (highResIndex s) w of
          (i, w') \<Rightarrow> (s\<lparr>highResTimerMs := 0, highResIndex := i\<rparr>, w'))
     else (s, w))"

definition logger_long_term ::
    "'w block_write \<Rightarrow> (u32 \<Rightarrow> 'w \<Rightarrow> 'w) \<Rightarrow> log_record_t \<Rightarrow> data_logger \<times> 'w \<Rightarrow> data_logger \<times> 'w" where
  "logger_long_term wr task_delay metrics = (\<lambda>(s, w).
     if longTermTimerMs s \<ge> 600000 then
       (case logger_store wr task_delay EEPROM_LONG_TERM_START LONG_TERM_MAX_RECORDS
               metrics (longTermIndex s) w of
          (i, w') \<Rightarrow> (s\<lparr>longTermTimerMs := 0, longTermIndex := i\<rparr>, w'))
     else (s, w))"

definition Data_Logger_pass ::
    "'w block_write \<Rightarrow> (u32 \<Rightarrow> 'w \<Rightarrow> 'w) \<Rightarrow> log_record_t \<times> log_record_t \<Rightarrow>
     data_logger \<times> 'w \<Rightarrow> data_logger \<times> 'w" where
  "Data_Logger_pass wr task_delay metrics = (\<lambda>(s, w).
     logger_long_term wr task_delay (snd metrics)
       (logger_high_res wr task_delay (fst metrics) (logger_tick s, w)))"

text \<open>The whole loop body, with the check-in, and a run of the task without it.\<close>

definition Data_Logger_Task_pass ::
    "'w block_write \<Rightarrow> (u32 \<Rightarrow> 'w \<Rightarrow> 'w) \<Rightarrow> u8 \<Rightarrow> bool \<Rightarrow> log_record_t \<times> log_record_t \<Rightarrow>
     data_logger \<times> 'w \<times> hms \<Rightarrow> data_logger \<times> 'w \<times> hms" where
  "Data_Logger_Task_pass wr task_delay tid notified metrics = (\<lambda>(s, w, m).
     case Data_Logger_pass wr task_delay metrics (s, w) of (s', w') \<Rightarrow>
       (s', w', if notified then Reset_HeltMonit_service tid m else m))"

definition logger_run ::
    "'w block_write \<Rightarrow> (u32 \<Rightarrow> 'w \<Rightarrow> 'w) \<Rightarrow> (log_record_t \<times> log_record_t) list \<Rightarrow>
     data_logger \<times> 'w \<Rightarrow> data_logger \<times> 'w" where
  "logger_run wr task_delay gs sw = fold (Data_Logger_pass wr task_delay) gs sw"

text \<open>
  \<^verbatim>\<open>Init_Data_Logger_service\<close>: the probe, whose result is not looked at, and the registration.
\<close>

definition HMS_TIMEOUT_DATA_LOGGER_MS :: u32 where "HMS_TIMEOUT_DATA_LOGGER_MS = 600"

definition Init_Data_Logger_service ::
    "'w i2c_transfer \<Rightarrow> (u32 \<Rightarrow> 'w \<Rightarrow> 'w) \<Rightarrow> u32 \<Rightarrow> nat \<Rightarrow> i2c_driver \<times> 'w \<times> hms \<Rightarrow>
     (u8 \<times> i2c_driver \<times> 'w \<times> hms) option" where
  "Init_Data_Logger_service xfer delay_us clk h = (\<lambda>(d, w, m).
     case EEPROM_Init xfer delay_us clk (d, w) of (_, d', w') \<Rightarrow>
       map_option (\<lambda>(tid, m'). (tid, d', w', m'))
         (Registor_service ''Data_Logger'' HMS_TIMEOUT_DATA_LOGGER_MS True (Some h) m))"

section \<open>What the logger relies on\<close>

locale log_store =
  fixes wr :: "'w block_write"
    and task_delay :: "u32 \<Rightarrow> 'w \<Rightarrow> 'w"
    and mem :: "'w \<Rightarrow> u8 memory"
    and usable :: "'w \<Rightarrow> bool"
  assumes write_stores: "usable w \<Longrightarrow> length d = unat n \<Longrightarrow> wr a d n w = (kEeprom_Ok, w') \<Longrightarrow>
      mem w' = mem_write (unat a) d (mem w) \<and> usable w'"
    and write_frame: "i < unat a \<or> unat a + unat n \<le> i \<Longrightarrow> wr a d n w = (st, w') \<Longrightarrow> mem w' i = mem w i"
    and delay_frame: "mem (task_delay t w) = mem w"
    and delay_usable: "usable w \<Longrightarrow> usable (task_delay t w)"

locale reliable_log_store = log_store +
  assumes write_accepts: "usable w \<Longrightarrow> unat a + unat n \<le> EEPROM_TOTAL_BYTES \<Longrightarrow>
      length d = unat n \<Longrightarrow> fst (wr a d n w) = kEeprom_Ok"

text \<open>A task delay as the chip sees it: time passes, nothing is written.\<close>

locale at24c32_tasks = at24c32 +
  fixes task_delay :: "u32 \<Rightarrow> 'a \<Rightarrow> 'a"
  assumes task_delay_chip: "chip (task_delay t w) = chip w"
    and task_delay_ready: "ready w \<Longrightarrow> ready (task_delay t w)"

locale at24c32_tasks_acking = at24c32_tasks + at24c32_acking

sublocale at24c32_tasks \<subseteq> log: log_store "EEPROM_Write_Bytes xfer delay_us" task_delay chip ready
  by unfold_locales
     (use write_bytes_stores write_bytes_frame task_delay_chip task_delay_ready in blast)+

sublocale at24c32_tasks_acking \<subseteq> rlog: reliable_log_store "EEPROM_Write_Bytes xfer delay_us" task_delay chip ready
  by unfold_locales (rule write_bytes_completes)

section \<open>Rings in a byte memory\<close>

text \<open>
  \<open>ring_holds start cap k f m\<close>: after \<open>k\<close> stores the ring of \<open>cap\<close> slots at \<open>start\<close> holds the last
  \<open>cap\<close> records \<open>f\<close>, each in the slot given by its number.
\<close>

definition ring_holds :: "nat \<Rightarrow> nat \<Rightarrow> nat \<Rightarrow> (nat \<Rightarrow> log_record_t) \<Rightarrow> u8 memory \<Rightarrow> bool" where
  "ring_holds start cap k f m \<longleftrightarrow>
     (\<forall>j < k. k \<le> j + cap \<longrightarrow> mem_read (start + 12 * (j mod cap)) 12 m = log_bytes (f j))"

lemma ring_holds_0: "ring_holds start cap 0 f m"
  by (simp add: ring_holds_def)

lemma mod_ring_distinct:
  assumes "j < k" and "k < j + cap" shows "j mod cap \<noteq> k mod (cap :: nat)"
proof
  assume "j mod cap = k mod cap"
  then have "cap dvd k - j" using assms(1) by (metis mod_eq_dvd_iff_nat less_imp_le)
  with assms show False by (auto dest: dvd_imp_le)
qed

lemma slots_disjoint: "i \<noteq> (j :: nat) \<Longrightarrow> s + 12 * i + 12 \<le> s + 12 * j \<or> s + 12 * j + 12 \<le> s + 12 * i"
  by linarith

lemma ring_push:
  assumes "ring_holds start cap k f m" and "0 < cap"
  shows "ring_holds start cap (Suc k) f (mem_write (start + 12 * (k mod cap)) (log_bytes (f k)) m)"
  unfolding ring_holds_def
proof (intro allI impI)
  fix j assume j: "j < Suc k" "Suc k \<le> j + cap"
  show "mem_read (start + 12 * (j mod cap)) 12
      (mem_write (start + 12 * (k mod cap)) (log_bytes (f k)) m) = log_bytes (f j)"
  proof (cases "j = k")
    case True
    then show ?thesis
      using mem_read_write_same [of "start + 12 * (k mod cap)" "log_bytes (f k)" m] by simp
  next
    case False
    with j have "j < k" "k < j + cap" by simp_all
    with slots_disjoint [OF mod_ring_distinct, of j k cap start] assms(1) show ?thesis
      by (subst mem_read_write_disjoint) (simp_all add: ring_holds_def)
  qed
qed

lemma ring_outside:
  assumes "ring_holds start cap k f m"
    and "\<And>i. start \<le> i \<Longrightarrow> i < start + 12 * cap \<Longrightarrow> m' i = m i" and "0 < cap"
  shows "ring_holds start cap k f m'"
proof -
  have "mem_read (start + 12 * (j mod cap)) 12 m' = mem_read (start + 12 * (j mod cap)) 12 m" for j
  proof (rule nth_equalityI)
    have "j mod cap < cap" using assms(3) by simp
    then have top: "12 * (j mod cap) + 12 \<le> 12 * cap" by linarith
    show "mem_read (start + 12 * (j mod cap)) 12 m' ! i = mem_read (start + 12 * (j mod cap)) 12 m ! i"
      if "i < length (mem_read (start + 12 * (j mod cap)) 12 m')" for i
      using that top by (simp add: assms(2))
  qed simp
  with assms(1) show ?thesis by (simp add: ring_holds_def)
qed

lemma ring_holds_cong:
  "ring_holds start cap k f m \<Longrightarrow> (\<And>j. j < k \<Longrightarrow> f j = g j) \<Longrightarrow> ring_holds start cap k g m"
  by (simp add: ring_holds_def)

section \<open>One partition\<close>

text \<open>The two rings as the code lays them out: disjoint, and inside the array.\<close>

definition ring_ok :: "u16 \<Rightarrow> u16 \<Rightarrow> bool" where
  "ring_ok start cap \<longleftrightarrow> 0 < unat cap \<and> unat start + 12 * unat cap \<le> EEPROM_TOTAL_BYTES"

lemma ring_ok_partitions:
  "ring_ok EEPROM_HIGH_RES_START HIGH_RES_MAX_RECORDS"
  "ring_ok EEPROM_LONG_TERM_START LONG_TERM_MAX_RECORDS"
  by (simp_all add: ring_ok_def EEPROM_HIGH_RES_START_def HIGH_RES_MAX_RECORDS_def
      EEPROM_LONG_TERM_START_def LONG_TERM_MAX_RECORDS_def LOG_RECORD_SIZE_def EEPROM_TOTAL_BYTES_def)

lemma slot_address:
  assumes "ring_ok start cap" and "i < cap"
  shows "unat (start + i * LOG_RECORD_SIZE) = unat start + 12 * unat i"
proof -
  have i: "unat i < unat cap" using assms(2) by (simp add: word_less_nat_alt)
  then have "unat i * 12 < 65536" and sum: "unat start + unat i * 12 < 65536"
    using assms(1) by (simp_all add: ring_ok_def EEPROM_TOTAL_BYTES_def)
  then have "unat (i * 12) = unat i * 12"
    by (subst unat_mult_lem [THEN iffD1]) simp_all
  with sum show ?thesis
    by (simp add: LOG_RECORD_SIZE_def unat_add_small)
qed

lemma next_index:
  assumes "i < (cap :: u16)"
  shows "unat (if i + 1 \<ge> cap then 0 else i + 1) = Suc (unat i) mod unat cap"
    and "(if i + 1 \<ge> cap then 0 else i + 1) < cap"
proof -
  have i: "unat i < unat cap" using assms by (simp add: word_less_nat_alt)
  moreover have "unat cap < 65536" using unat_u16_less [of cap] by (simp del: unat_u16_less)
  ultimately have "unat i + 1 < 65536" by linarith
  then have "unat (i + 1) = Suc (unat i)" by (subst unat_add_small) simp_all
  with i show "unat (if i + 1 \<ge> cap then 0 else i + 1) = Suc (unat i) mod unat cap"
    by (auto simp: word_le_nat_alt mod_Suc)
  show "(if i + 1 \<ge> cap then 0 else i + 1) < cap"
    using assms by (auto simp: not_le word_gt_0)
qed

context log_store
begin

lemma record_frame:
  "EEPROM_Write_Record wr a r w = (st, w') \<Longrightarrow> i < unat a \<or> unat a + 12 \<le> i \<Longrightarrow> mem w' i = mem w i"
  by (auto simp: EEPROM_Write_Record_def LOG_RECORD_SIZE_def split: prod.splits
      intro!: write_frame [where n = 12])

lemma record_stored:
  "EEPROM_Write_Record wr a r w = (kStatus_Success, w') \<Longrightarrow> usable w \<Longrightarrow>
   mem w' = mem_write (unat a) (log_bytes r) (mem w) \<and> usable w'"
  using write_stores [of w "log_bytes r" LOG_RECORD_SIZE a]
  by (auto simp: EEPROM_Write_Record_def LOG_RECORD_SIZE_def kStatus_Success_def kStatus_Fail_def
      split: prod.splits if_splits)

text \<open>Whatever the bus answers, a store stays in its slot and the index in its ring.\<close>

lemma store_frame:
  assumes "ring_ok start cap" and "i < cap"
    and "logger_store wr task_delay start cap r i w = (i', w')"
  shows "i' < cap \<and> (\<forall>x. x < unat start \<or> unat start + 12 * unat cap \<le> x \<longrightarrow> mem w' x = mem w x)"
proof -
  obtain st w1 where rec: "EEPROM_Write_Record wr (start + i * LOG_RECORD_SIZE) r w = (st, w1)"
    by (cases "EEPROM_Write_Record wr (start + i * LOG_RECORD_SIZE) r w")
  have "12 * unat i + 12 \<le> 12 * unat cap" using assms(2) by (simp add: word_less_nat_alt)
  then have "mem w1 x = mem w x" if "x < unat start \<or> unat start + 12 * unat cap \<le> x" for x
    using that record_frame [OF rec, of x] slot_address [OF assms(1,2)] by auto
  with assms(3) rec next_index(2) [OF assms(2)] assms(2) show ?thesis
    by (auto simp: logger_store_def Let_def delay_frame split: if_splits)
qed

end

context reliable_log_store
begin

lemma store_pushes:
  assumes "ring_ok start cap" and "i < cap" and "usable w" and "unat i = k mod unat cap"
    and "ring_holds (unat start) (unat cap) k f (mem w)"
    and "logger_store wr task_delay start cap (f k) i w = (i', w')"
  shows "unat i' = Suc k mod unat cap \<and> i' < cap \<and> usable w' \<and>
    ring_holds (unat start) (unat cap) (Suc k) f (mem w')"
proof -
  let ?a = "start + i * LOG_RECORD_SIZE"
  have "12 * unat i + 12 \<le> 12 * unat cap" using assms(2) by (simp add: word_less_nat_alt)
  then have fits: "unat ?a + unat LOG_RECORD_SIZE \<le> EEPROM_TOTAL_BYTES"
    using slot_address [OF assms(1,2)] assms(1) by (simp add: ring_ok_def LOG_RECORD_SIZE_def)
  obtain w1 where rec: "EEPROM_Write_Record wr ?a (f k) w = (kStatus_Success, w1)"
    using write_accepts [OF assms(3) fits, of "log_bytes (f k)"]
    by (cases "wr ?a (log_bytes (f k)) LOG_RECORD_SIZE w")
      (auto simp: EEPROM_Write_Record_def LOG_RECORD_SIZE_def)
  note st = record_stored [OF rec assms(3)]
  have "i' = (if i + 1 \<ge> cap then 0 else i + 1)" and w': "w' = task_delay 5 w1"
    using assms(6) rec by (simp_all add: logger_store_def Let_def)
  then have "unat i' = Suc k mod unat cap" "i' < cap"
    using next_index [OF assms(2)] assms(4) by (simp_all add: mod_Suc_eq)
  moreover have "ring_holds (unat start) (unat cap) (Suc k) f (mem w')"
    using ring_push [OF assms(5)] st assms(1,4)
    by (simp add: w' delay_frame slot_address [OF assms(1,2)] ring_ok_def)
  ultimately show ?thesis using st delay_usable by (simp add: w')
qed

end

section \<open>The task\<close>

text \<open>Between passes the timers are below their limits and the indices inside their rings.\<close>

definition data_logger_ok :: "data_logger \<Rightarrow> bool" where
  "data_logger_ok s \<longleftrightarrow> highResIndex s < HIGH_RES_MAX_RECORDS \<and> longTermIndex s < LONG_TERM_MAX_RECORDS \<and>
     highResTimerMs s < 30000 \<and> longTermTimerMs s < 600000"

text \<open>After \<open>n\<close> passes on a chip that acknowledges every transfer.\<close>

definition logger_inv ::
    "nat \<Rightarrow> (nat \<Rightarrow> log_record_t) \<Rightarrow> (nat \<Rightarrow> log_record_t) \<Rightarrow> data_logger \<Rightarrow> u8 memory \<Rightarrow> bool" where
  "logger_inv n f1 f2 s m \<longleftrightarrow>
     unat (highResTimerMs s) = 50 * (n mod 600) \<and> unat (longTermTimerMs s) = 50 * (n mod 12000) \<and>
     highResIndex s < HIGH_RES_MAX_RECORDS \<and> unat (highResIndex s) = n div 600 mod 120 \<and>
     longTermIndex s < LONG_TERM_MAX_RECORDS \<and> unat (longTermIndex s) = n div 12000 mod 72 \<and>
     ring_holds 0 120 (n div 600) f1 m \<and> ring_holds 1440 72 (n div 12000) f2 m"

lemma timer_tick:
  assumes "unat (t :: u32) = 50 * (n mod k)" and "0 < k" and "k \<le> 12000"
  shows "unat (t + 50) = 50 * (n mod k) + 50" and "t + 50 \<ge> of_nat (50 * k) \<longleftrightarrow> Suc n mod k = 0"
proof -
  have lt: "n mod k < k" using assms(2) by simp
  show sum: "unat (t + 50) = 50 * (n mod k) + 50"
    using assms lt by (subst unat_add_small) simp_all
  have "unat (of_nat (50 * k) :: u32) = 50 * k"
    using assms(3) by (intro unat_of_nat_small) simp
  then have "t + 50 \<ge> of_nat (50 * k) \<longleftrightarrow> 50 * k \<le> 50 * (n mod k) + 50"
    by (simp add: word_le_nat_alt sum)
  with lt show "t + 50 \<ge> of_nat (50 * k) \<longleftrightarrow> Suc n mod k = 0"
    by (auto simp: mod_Suc)
qed

lemmas partition_consts = EEPROM_HIGH_RES_START_def HIGH_RES_MAX_RECORDS_def
  EEPROM_LONG_TERM_START_def LONG_TERM_MAX_RECORDS_def LOG_RECORD_SIZE_def

context log_store
begin

lemma high_res_frame:
  assumes "highResIndex s < HIGH_RES_MAX_RECORDS"
    and "logger_high_res wr task_delay r (s, w) = (s', w')"
  shows "highResIndex s' < HIGH_RES_MAX_RECORDS \<and> highResTimerMs s' < 30000 \<and>
    longTermIndex s' = longTermIndex s \<and> longTermTimerMs s' = longTermTimerMs s \<and>
    (\<forall>x. 1440 \<le> x \<or> highResTimerMs s < 30000 \<longrightarrow> mem w' x = mem w x)"
proof (cases "highResTimerMs s \<ge> 30000")
  case True
  obtain i w1 where st: "logger_store wr task_delay EEPROM_HIGH_RES_START HIGH_RES_MAX_RECORDS r (highResIndex s) w = (i, w1)"
    by (metis prod.collapse)
  from store_frame [OF ring_ok_partitions(1) assms(1) st] True st assms(2) show ?thesis
    by (auto simp: logger_high_res_def partition_consts)
next
  case False
  with assms show ?thesis by (auto simp: logger_high_res_def)
qed

lemma long_term_frame:
  assumes "longTermIndex s < LONG_TERM_MAX_RECORDS"
    and "logger_long_term wr task_delay r (s, w) = (s', w')"
  shows "longTermIndex s' < LONG_TERM_MAX_RECORDS \<and> longTermTimerMs s' < 600000 \<and>
    highResIndex s' = highResIndex s \<and> highResTimerMs s' = highResTimerMs s \<and>
    (\<forall>x. x < 1440 \<or> 2304 \<le> x \<or> longTermTimerMs s < 600000 \<longrightarrow> mem w' x = mem w x)"
proof (cases "longTermTimerMs s \<ge> 600000")
  case True
  obtain i w1 where st: "logger_store wr task_delay EEPROM_LONG_TERM_START LONG_TERM_MAX_RECORDS r (longTermIndex s) w = (i, w1)"
    by (metis prod.collapse)
  from store_frame [OF ring_ok_partitions(2) assms(1) st] True st assms(2) show ?thesis
    by (auto simp: logger_long_term_def partition_consts)
next
  case False
  with assms show ?thesis by (auto simp: logger_long_term_def)
qed

lemma pass_frame:
  assumes "data_logger_ok s" and "Data_Logger_pass wr task_delay g (s, w) = (s', w')"
  shows "data_logger_ok s' \<and> (\<forall>x. 2304 \<le> x \<longrightarrow> mem w' x = mem w x) \<and>
    (highResTimerMs s + 50 < 30000 \<longrightarrow> (\<forall>x < 1440. mem w' x = mem w x)) \<and>
    (longTermTimerMs s + 50 < 600000 \<longrightarrow> (\<forall>x \<ge> 1440. mem w' x = mem w x))"
proof -
  obtain s1 w1 where hi: "logger_high_res wr task_delay (fst g) (logger_tick s, w) = (s1, w1)"
    by (cases "logger_high_res wr task_delay (fst g) (logger_tick s, w)")
  with assms(2) have lo: "logger_long_term wr task_delay (snd g) (s1, w1) = (s', w')"
    by (simp add: Data_Logger_pass_def)
  have i: "highResIndex (logger_tick s) < HIGH_RES_MAX_RECORDS" "longTermIndex (logger_tick s) < LONG_TERM_MAX_RECORDS"
    using assms(1) by (simp_all add: data_logger_ok_def logger_tick_def)
  from high_res_frame [OF i(1) hi] i(2) long_term_frame [of s1, OF _ lo] show ?thesis
    by (auto simp: data_logger_ok_def logger_tick_def PERIOD_DATA_LOGGER_TASK_MS_def)
qed

end

context reliable_log_store
begin

lemma high_res_step:
  assumes "usable w" and "highResIndex s < HIGH_RES_MAX_RECORDS" and "unat (highResIndex s) = k mod 120"
    and "ring_holds 0 120 k f (mem w)" and "highResTimerMs s \<ge> 30000 \<Longrightarrow> r = f k"
    and "logger_high_res wr task_delay r (s, w) = (s', w')"
  shows "usable w' \<and> longTermIndex s' = longTermIndex s \<and> longTermTimerMs s' = longTermTimerMs s \<and>
    highResIndex s' < HIGH_RES_MAX_RECORDS \<and>
    (if highResTimerMs s \<ge> 30000
     then highResTimerMs s' = 0 \<and> unat (highResIndex s') = Suc k mod 120 \<and> ring_holds 0 120 (Suc k) f (mem w')
     else highResTimerMs s' = highResTimerMs s \<and> highResIndex s' = highResIndex s \<and> ring_holds 0 120 k f (mem w'))"
proof (cases "highResTimerMs s \<ge> 30000")
  case True
  obtain i w1 where st: "logger_store wr task_delay EEPROM_HIGH_RES_START HIGH_RES_MAX_RECORDS (f k) (highResIndex s) w = (i, w1)"
    by (metis prod.collapse)
  from store_pushes [where k = k and f = f, OF ring_ok_partitions(1) assms(2,1) _ _ st] True st assms show ?thesis
    by (auto simp: logger_high_res_def partition_consts)
next
  case False
  with assms show ?thesis by (auto simp: logger_high_res_def)
qed

lemma long_term_step:
  assumes "usable w" and "longTermIndex s < LONG_TERM_MAX_RECORDS" and "unat (longTermIndex s) = k mod 72"
    and "ring_holds 1440 72 k f (mem w)" and "longTermTimerMs s \<ge> 600000 \<Longrightarrow> r = f k"
    and "logger_long_term wr task_delay r (s, w) = (s', w')"
  shows "usable w' \<and> highResIndex s' = highResIndex s \<and> highResTimerMs s' = highResTimerMs s \<and>
    longTermIndex s' < LONG_TERM_MAX_RECORDS \<and>
    (if longTermTimerMs s \<ge> 600000
     then longTermTimerMs s' = 0 \<and> unat (longTermIndex s') = Suc k mod 72 \<and> ring_holds 1440 72 (Suc k) f (mem w')
     else longTermTimerMs s' = longTermTimerMs s \<and> longTermIndex s' = longTermIndex s \<and> ring_holds 1440 72 k f (mem w'))"
proof (cases "longTermTimerMs s \<ge> 600000")
  case True
  obtain i w1 where st: "logger_store wr task_delay EEPROM_LONG_TERM_START LONG_TERM_MAX_RECORDS (f k) (longTermIndex s) w = (i, w1)"
    by (metis prod.collapse)
  from store_pushes [where k = k and f = f, OF ring_ok_partitions(2) assms(2,1) _ _ st] True st assms show ?thesis
    by (auto simp: logger_long_term_def partition_consts)
next
  case False
  with assms show ?thesis by (auto simp: logger_long_term_def)
qed

lemma logger_inv_step:
  assumes "usable w" and "logger_inv n f1 f2 s (mem w)"
    and "Suc n mod 600 = 0 \<Longrightarrow> fst g = f1 (n div 600)"
    and "Suc n mod 12000 = 0 \<Longrightarrow> snd g = f2 (n div 12000)"
    and "Data_Logger_pass wr task_delay g (s, w) = (s', w')"
  shows "usable w' \<and> logger_inv (Suc n) f1 f2 s' (mem w')"
proof -
  let ?s = "logger_tick s"
  obtain s1 w1 where hi: "logger_high_res wr task_delay (fst g) (?s, w) = (s1, w1)"
    by (cases "logger_high_res wr task_delay (fst g) (?s, w)")
  with assms(5) have lo: "logger_long_term wr task_delay (snd g) (s1, w1) = (s', w')"
    by (simp add: Data_Logger_pass_def)
  have inv: "unat (highResTimerMs s) = 50 * (n mod 600)" "unat (longTermTimerMs s) = 50 * (n mod 12000)"
    "highResIndex ?s < HIGH_RES_MAX_RECORDS" "unat (highResIndex ?s) = n div 600 mod 120"
    "longTermIndex ?s < LONG_TERM_MAX_RECORDS" "unat (longTermIndex ?s) = n div 12000 mod 72"
    "ring_holds 0 120 (n div 600) f1 (mem w)" "ring_holds 1440 72 (n div 12000) f2 (mem w)"
    using assms(2) by (simp_all add: logger_inv_def logger_tick_def)
  have t1: "unat (highResTimerMs ?s) = 50 * (n mod 600) + 50" "30000 \<le> highResTimerMs ?s \<longleftrightarrow> Suc n mod 600 = 0"
    using timer_tick [OF inv(1)] by (simp_all add: logger_tick_def PERIOD_DATA_LOGGER_TASK_MS_def)
  have t2: "unat (longTermTimerMs ?s) = 50 * (n mod 12000) + 50" "600000 \<le> longTermTimerMs ?s \<longleftrightarrow> Suc n mod 12000 = 0"
    using timer_tick [OF inv(2)] by (simp_all add: logger_tick_def PERIOD_DATA_LOGGER_TASK_MS_def)
  note H = high_res_step [OF assms(1) inv(3,4,7) assms(3) [OF t1(2) [THEN iffD1]] hi]
  have l1: "longTermIndex s1 = longTermIndex ?s" "longTermTimerMs s1 = longTermTimerMs ?s"
    using H by simp_all
  have ring2: "ring_holds 1440 72 (n div 12000) f2 (mem w1)"
    using high_res_frame [OF inv(3) hi] by (intro ring_outside [OF inv(8)]) simp_all
  have u1: "usable w1" using H by blast
  note L = long_term_step [OF u1 _ _ ring2 _ lo, unfolded l1, OF inv(5,6) assms(4) [OF t2(2) [THEN iffD1]]]
  have h2: "highResIndex s' = highResIndex s1" "highResTimerMs s' = highResTimerMs s1"
    using L by simp_all
  have ring1: "ring_holds 0 120 k f1 (mem w1) \<Longrightarrow> ring_holds 0 120 k f1 (mem w')" for k
    using long_term_frame [of s1, OF _ lo] inv(5) l1(1) by (elim ring_outside) simp_all
  have "unat (highResTimerMs s') = 50 * (Suc n mod 600) \<and> highResIndex s' < HIGH_RES_MAX_RECORDS \<and>
    unat (highResIndex s') = Suc n div 600 mod 120 \<and> ring_holds 0 120 (Suc n div 600) f1 (mem w')"
  proof (cases "Suc n mod 600 = 0")
    case True
    with H t1(2) ring1 show ?thesis by (simp add: h2 div_Suc)
  next
    case False
    with H t1 ring1 inv(4) show ?thesis by (simp add: h2 div_Suc mod_Suc split: if_splits)
  qed
  moreover have "unat (longTermTimerMs s') = 50 * (Suc n mod 12000) \<and> longTermIndex s' < LONG_TERM_MAX_RECORDS \<and>
    unat (longTermIndex s') = Suc n div 12000 mod 72 \<and> ring_holds 1440 72 (Suc n div 12000) f2 (mem w')"
  proof (cases "Suc n mod 12000 = 0")
    case True
    with L t2(2) show ?thesis by (simp add: div_Suc)
  next
    case False
    with L t2 inv(6) show ?thesis by (simp add: l1 div_Suc mod_Suc split: if_splits)
  qed
  ultimately show ?thesis using L by (simp add: logger_inv_def)
qed

lemma run_inv:
  assumes "usable w" and "n \<le> length gs"
    and "logger_run wr task_delay (take n gs) (data_logger_start, w) = (s', w')"
  shows "usable w' \<and> logger_inv n (\<lambda>j. fst (gs ! (600 * j + 599))) (\<lambda>j. snd (gs ! (12000 * j + 11999))) s' (mem w')"
  using assms(2,3)
proof (induction n arbitrary: s' w')
  case 0
  with assms(1) show ?case
    by (auto simp: logger_run_def logger_inv_def data_logger_start_def ring_holds_0 partition_consts)
next
  case (Suc n)
  obtain s1 w1 where run: "logger_run wr task_delay (take n gs) (data_logger_start, w) = (s1, w1)"
    by (cases "logger_run wr task_delay (take n gs) (data_logger_start, w)")
  with Suc.prems have pass: "Data_Logger_pass wr task_delay (gs ! n) (s1, w1) = (s', w')"
    by (simp add: logger_run_def take_Suc_conv_app_nth)
  have slot: "k * (n div k) + (k - 1) = n" if "0 < k" "Suc n mod k = 0" for k
  proof -
    have "Suc (n mod k) = k" using that by (simp add: mod_Suc split: if_splits)
    with mult_div_mod_eq [of k n] show ?thesis by linarith
  qed
  from Suc.IH [OF _ run] Suc.prems(1) slot [of 600] slot [of 12000] show ?case
    by (intro logger_inv_step [OF _ _ _ _ pass]) simp_all
qed

end

lemma logger_run_ok:
  assumes "log_store wr task_delay mem usable" and "data_logger_ok s"
    and "logger_run wr task_delay gs (s, w) = (s', w')"
  shows "data_logger_ok s' \<and> (\<forall>x. 2304 \<le> x \<longrightarrow> mem w' x = mem w x)"
  using assms(2,3)
proof (induction gs arbitrary: s w)
  case Nil
  then show ?case by (simp add: logger_run_def)
next
  case (Cons g gs)
  obtain s1 w1 where p: "Data_Logger_pass wr task_delay g (s, w) = (s1, w1)"
    by (cases "Data_Logger_pass wr task_delay g (s, w)")
  with Cons.prems(2) have "logger_run wr task_delay gs (s1, w1) = (s', w')"
    by (simp add: logger_run_def)
  with Cons.IH [of s1 w1] log_store.pass_frame [OF assms(1) Cons.prems(1) p] show ?case by simp
qed

context at24c32_tasks
begin

lemma stores: "log_store (EEPROM_Write_Bytes xfer delay_us) task_delay chip ready"
  by (rule log.log_store_axioms)

end

context at24c32_tasks_acking
begin

lemma logged_run:
  assumes "ready w"
    and "logger_run (EEPROM_Write_Bytes xfer delay_us) task_delay gs (data_logger_start, w) = (s', w')"
  shows "logger_inv (length gs) (\<lambda>j. fst (gs ! (600 * j + 599))) (\<lambda>j. snd (gs ! (12000 * j + 11999))) s' (chip w')"
  using rlog.run_inv [of w "length gs" gs s' w'] assms by simp

end

definition sim_task_delay :: "u32 \<Rightarrow> sim_chip \<Rightarrow> sim_chip" where
  "sim_task_delay ticks s = s\<lparr>sim_busy := False\<rparr>"

interpretation sim_tasks: at24c32_tasks_acking sim_xfer sim_delay sim_array "\<lambda>s. \<not> sim_busy s" sim_task_delay
  by unfold_locales (auto simp: sim_task_delay_def)

section \<open>Properties\<close>

text \<open>
  A logged record can be read back from its bytes: the packed little-endian layout has 12
  bytes and determines the record.
\<close>

theorem log_record_roundtrip:
  "length (log_bytes r) = unat LOG_RECORD_SIZE \<and> log_record_of (log_bytes r) = r"
  by (simp add: LOG_RECORD_SIZE_def log_record_of_log_bytes)

text \<open>
  C2: The log keeps the last hour and the last twelve hours. On a chip that obeys the data sheet
  and acknowledges every transfer, after any number of passes from the start of the task the
  short ring holds, for each of the last 120 records written (one in 600 passes of 50 ms), the
  snapshot of its pass in slot number modulo 120, and the long ring the last 72 (one in 12000).
\<close>

theorem log_retains_recent_records:
  assumes chip: "at24c32_tasks_acking xfer delay_us chip ready task_delay" and "ready w"
    and run: "logger_run (EEPROM_Write_Bytes xfer delay_us) task_delay gs (data_logger_start, w) = (s', w')"
  shows "(\<forall>j < length gs div 600. length gs div 600 \<le> j + 120 \<longrightarrow>
        log_record_of (mem_read (12 * (j mod 120)) 12 (chip w')) = fst (gs ! (600 * j + 599))) \<and>
    (\<forall>j < length gs div 12000. length gs div 12000 \<le> j + 72 \<longrightarrow>
        log_record_of (mem_read (1440 + 12 * (j mod 72)) 12 (chip w')) = snd (gs ! (12000 * j + 11999)))"
proof -
  have "logger_inv (length gs) (\<lambda>j. fst (gs ! (600 * j + 599))) (\<lambda>j. snd (gs ! (12000 * j + 11999))) s' (chip w')"
    using at24c32_tasks_acking.logged_run [OF chip \<open>ready w\<close> run] .
  then show ?thesis
    by (simp add: logger_inv_def ring_holds_def log_record_of_log_bytes)
qed

theorem log_retains_recent_records_witness:
  "log_record_of (mem_read 12 12 (sim_array (snd (logger_run (EEPROM_Write_Bytes sim_xfer sim_delay) sim_task_delay
       (map (\<lambda>i. (\<lparr>timestamp = of_nat i, temperature = 2500, pressure = 10132, digital_in = 0, checksum = 0\<rparr>,
                  \<lparr>timestamp = of_nat i, temperature = 2500, pressure = 10132, digital_in = 0, checksum = 0\<rparr>))
          [0..<1200])
       (data_logger_start, \<lparr>sim_array = (\<lambda>_. 0xFF), sim_busy = False\<rparr>)))))
   = \<lparr>timestamp = 1199, temperature = 2500, pressure = 10132, digital_in = 0, checksum = 0\<rparr>"
proof -
  let ?r = "\<lambda>i. \<lparr>timestamp = of_nat i, temperature = 2500, pressure = 10132, digital_in = 0, checksum = 0\<rparr>"
  let ?gs = "map (\<lambda>i. (?r i, ?r i)) [0..<1200]"
  let ?run = "logger_run (EEPROM_Write_Bytes sim_xfer sim_delay) sim_task_delay ?gs
      (data_logger_start, \<lparr>sim_array = (\<lambda>_. 0xFF), sim_busy = False\<rparr>)"
  obtain s' w' where run: "?run = (s', w')"
    by (rule prod.exhaust)
  have len: "length ?gs = 1200" by (simp del: upt_rec_numeral)
  have last: "?gs ! 1199 = (?r 1199, ?r 1199)" by (simp del: upt_rec_numeral)
  from log_retains_recent_records [OF sim_tasks.at24c32_tasks_acking_axioms _ run, unfolded len] 
  have "log_record_of (mem_read 12 12 (sim_array w')) = fst (?gs ! 1199)"
    by (simp del: upt_rec_numeral) (drule spec [of _ 1], simp del: upt_rec_numeral)
  then have "log_record_of (mem_read 12 12 (sim_array w')) = ?r 1199"
    unfolding last by (simp only: fst_conv)
  then show ?thesis unfolding run snd_conv by simp
qed

text \<open>
  C36: Bus errors cannot corrupt foreign data. Whatever the bus answers to each transfer, a run of
  the logger never writes at or beyond byte 2304, keeps both indices inside their rings, and in
  each pass touches the short ring only when 30 s have passed and the long ring only when 10 min
  have passed.
\<close>

theorem logger_stays_in_partitions:
  assumes chip: "at24c32_tasks xfer delay_us chip ready task_delay" and "data_logger_ok s"
    and run: "logger_run (EEPROM_Write_Bytes xfer delay_us) task_delay gs (s, w) = (s1, w1)"
    and pass: "Data_Logger_pass (EEPROM_Write_Bytes xfer delay_us) task_delay g (s1, w1) = (s2, w2)"
  shows "data_logger_ok s2 \<and> (\<forall>x \<ge> 2304. chip w2 x = chip w x) \<and>
    (highResTimerMs s1 + 50 < 30000 \<longrightarrow> (\<forall>x < 1440. chip w2 x = chip w1 x)) \<and>
    (longTermTimerMs s1 + 50 < 600000 \<longrightarrow> (\<forall>x \<ge> 1440. chip w2 x = chip w1 x))"
proof -
  note store = at24c32_tasks.stores [OF chip]
  from logger_run_ok [OF store assms(2) run] log_store.pass_frame [OF store _ pass] show ?thesis
    by simp
qed

definition sample_record :: log_record_t where
  "sample_record = \<lparr>timestamp = 7, temperature = 2500, pressure = 10132, digital_in = 0, checksum = 0\<rparr>"

theorem logger_stays_in_partitions_witness:
  "sim_array (snd (Data_Logger_pass (EEPROM_Write_Bytes sim_xfer sim_delay) sim_task_delay (sample_record, sample_record)
     (data_logger_start\<lparr>highResTimerMs := 29950\<rparr>, \<lparr>sim_array = of_nat, sim_busy = True\<rparr>))) 2304 = 0"
proof -
  let ?w = "\<lparr>sim_array = of_nat, sim_busy = True\<rparr>"
  let ?s = "data_logger_start\<lparr>highResTimerMs := 29950\<rparr>"
  obtain s' w' where p: "Data_Logger_pass (EEPROM_Write_Bytes sim_xfer sim_delay) sim_task_delay (sample_record, sample_record) (?s, ?w) = (s', w')"
    by (metis prod.collapse)
  have ok: "data_logger_ok ?s" by (simp add: data_logger_ok_def data_logger_start_def partition_consts)
  have "logger_run (EEPROM_Write_Bytes sim_xfer sim_delay) sim_task_delay [] (?s, ?w) = (?s, ?w)"
    by (simp add: logger_run_def)
  from logger_stays_in_partitions [OF sim_tasks.at24c32_tasks_axioms ok this p] p show ?thesis
    by simp
qed

end
