(* ===== verification/Ds3231.thy ===== *)
theory Ds3231
  imports Complex_Main I2C_Bus C_String
begin

text \<open>
  The DS3231 clock driver \<^verbatim>\<open>drivers/My_I2C_DS3231.c\<close>: BCD conversion, reading and setting the
  time, the chip's thermometer, and setting the clock from the compilation date at boot. The
  chip is the environment: the locale \<open>ds3231\<close> says that its seven time registers keep what is
  written and return it.
\<close>

section \<open>Driver\<close>

definition DS3231_ADDR :: u16 where "DS3231_ADDR = 0x68"

definition monthNames :: "string list" where
  "monthNames = [''Jan'', ''Feb'', ''Mar'', ''Apr'', ''May'', ''Jun'',
                 ''Jul'', ''Aug'', ''Sep'', ''Oct'', ''Nov'', ''Dec'']"

record rtc_time_t =
  sec :: u8
  min :: u8
  hour :: u8
  day :: u8
  date :: u8
  month :: u8
  year :: u8

text \<open>The arithmetic is on \<^verbatim>\<open>int\<close>, the result is cut to a byte.\<close>

definition bcd2dec :: "u8 \<Rightarrow> u8" where
  "bcd2dec val = of_nat (unat (drop_bit 4 val) * 10 + unat (val AND 0x0F))"

definition dec2bcd :: "u8 \<Rightarrow> u8" where
  "dec2bcd val = push_bit 4 (val div 10) OR (val mod 10)"

definition ds3231_read_request :: "u32 \<Rightarrow> u8 list \<Rightarrow> u32 \<Rightarrow> lpi2c_master_transfer_t" where
  "ds3231_read_request reg raw n = \<lparr>flags = kLPI2C_TransferDefaultFlag, slaveAddress = DS3231_ADDR,
     direction = kLPI2C_Read, subaddress = reg, subaddressSize = 1, xdata = raw, dataSize = n\<rparr>"

definition ds3231_write_request :: "u8 list \<Rightarrow> lpi2c_master_transfer_t" where
  "ds3231_write_request buf = \<lparr>flags = kLPI2C_TransferDefaultFlag, slaveAddress = DS3231_ADDR,
     direction = kLPI2C_Write, subaddress = 0, subaddressSize = 1, xdata = buf, dataSize = 7\<rparr>"

text \<open>\<open>raw\<close> is the uninitialised local buffer; on an error the caller's time is left alone.\<close>

definition rtc_decode :: "u8 list \<Rightarrow> rtc_time_t" where
  "rtc_decode raw = \<lparr>sec = bcd2dec (raw ! 0 AND 0x7F), min = bcd2dec (raw ! 1 AND 0x7F),
     hour = bcd2dec (raw ! 2 AND 0x3F), day = raw ! 3 AND 0x07, date = bcd2dec (raw ! 4 AND 0x3F),
     month = bcd2dec (raw ! 5 AND 0x1F), year = bcd2dec (raw ! 6)\<rparr>"

definition DS3231_ReadTime ::
    "'w i2c_transfer \<Rightarrow> u8 list \<Rightarrow> rtc_time_t \<Rightarrow> 'w \<Rightarrow> status_t \<times> rtc_time_t \<times> 'w" where
  "DS3231_ReadTime xfer raw t w =
     (case xfer (ds3231_read_request 0 raw 7) w of (status, raw', w') \<Rightarrow>
        if status \<noteq> kStatus_Success then (status, t, w') else (kStatus_Success, rtc_decode raw', w'))"

definition rtc_encode :: "rtc_time_t \<Rightarrow> u8 list" where
  "rtc_encode t = [dec2bcd (sec t), dec2bcd (min t), dec2bcd (hour t), day t, dec2bcd (date t),
     dec2bcd (month t), dec2bcd (year t)]"

definition DS3231_SetTime :: "'w i2c_transfer \<Rightarrow> rtc_time_t \<Rightarrow> 'w \<Rightarrow> status_t \<times> 'w" where
  "DS3231_SetTime xfer t w =
     (case xfer (ds3231_write_request (rtc_encode t)) w of (status, _, w') \<Rightarrow> (status, w'))"

text \<open>
  The thermometer: a signed whole part and quarters of a degree. All these values are exact in
  single precision, so the result is the rational number.
\<close>

definition DS3231_ReadTemp :: "'w i2c_transfer \<Rightarrow> u8 list \<Rightarrow> rat \<Rightarrow> 'w \<Rightarrow> status_t \<times> rat \<times> 'w" where
  "DS3231_ReadTemp xfer raw tempC w =
     (case xfer (ds3231_read_request 0x11 raw 2) w of (status, raw', w') \<Rightarrow>
        if status \<noteq> kStatus_Success then (status, tempC, w')
        else (kStatus_Success, of_int (sint (raw' ! 0)) + of_nat (unat (drop_bit 6 (raw' ! 1))) / 4, w'))"

fun month_from :: "nat \<Rightarrow> string \<Rightarrow> string list \<Rightarrow> u8" where
  "month_from i mmm [] = 1"
| "month_from i mmm (m # ms) = (if strncmp_eq mmm m 3 then of_nat i + 1 else month_from (Suc i) mmm ms)"

definition GetMonthFromStr :: "string \<Rightarrow> u8" where
  "GetMonthFromStr mmm = month_from 0 mmm monthNames"

text \<open>
  \<^verbatim>\<open>sscanf(__DATE__, "%3s %d %d")\<close> and \<^verbatim>\<open>sscanf(__TIME__, "%d:%d:%d")\<close>. The code does not look at the
  number of conversions; a conversion that fails would leave a variable uninitialised, and is
  \<open>None\<close> here.
\<close>

definition scan_date :: "string \<Rightarrow> (string \<times> int \<times> int) option" where
  "scan_date s =
     Option.bind (scan_s 3 s) (\<lambda>(mon, s).
     Option.bind (scan_d s) (\<lambda>(d, s).
     Option.bind (scan_d s) (\<lambda>(y, s). Some (mon, d, y))))"

definition scan_time :: "string \<Rightarrow> (int \<times> int \<times> int) option" where
  "scan_time s =
     Option.bind (scan_d s) (\<lambda>(h, s).
     Option.bind (scan_char CHR '':'' s) (\<lambda>s.
     Option.bind (scan_d s) (\<lambda>(m, s).
     Option.bind (scan_char CHR '':'' s) (\<lambda>s.
     Option.bind (scan_d s) (\<lambda>(sc, s). Some (h, m, sc))))))"

definition compile_time :: "string \<Rightarrow> string \<Rightarrow> rtc_time_t option" where
  "compile_time DATE TIME =
     (case (scan_date DATE, scan_time TIME) of
        (Some (monStr, d, y), Some (h, m, s)) \<Rightarrow>
          Some \<lparr>sec = of_int s, min = of_int m, hour = of_int h, day = 1, date = of_int d,
                month = GetMonthFromStr monStr, year = of_int (y - 2000)\<rparr>
      | _ \<Rightarrow> None)"

definition RTC_SetFromCompileTime ::
    "'w i2c_transfer \<Rightarrow> u32 \<Rightarrow> string \<Rightarrow> string \<Rightarrow> i2c_driver \<times> 'w \<Rightarrow> (status_t \<times> i2c_driver \<times> 'w) option" where
  "RTC_SetFromCompileTime xfer clk DATE TIME = (\<lambda>(b, w).
     let b = I2C_Bus_Init clk b in
     case compile_time DATE TIME of
       None \<Rightarrow> None
     | Some t \<Rightarrow> (case DS3231_SetTime xfer t w of (status, w') \<Rightarrow> Some (status, b, w')))"

section \<open>BCD\<close>

lemma bcd_roundtrip_nat:
  "\<forall>n \<in> set [0..<100]. bcd2dec (dec2bcd (of_nat n)) = of_nat n"
  by code_simp

lemma bcd_masks_nat:
  "\<forall>n \<in> set [0..<80]. dec2bcd (of_nat n) AND 0x7F = dec2bcd (of_nat n)"
  "\<forall>n \<in> set [0..<40]. dec2bcd (of_nat n) AND 0x3F = dec2bcd (of_nat n)"
  "\<forall>n \<in> set [0..<20]. dec2bcd (of_nat n) AND 0x1F = dec2bcd (of_nat n)"
  by code_simp+

lemma bcd_roundtrip: "unat v < 100 \<Longrightarrow> bcd2dec (dec2bcd v) = v"
  using bspec [OF bcd_roundtrip_nat, of "unat v"] by simp

lemma bcd_masks:
  "unat v < 80 \<Longrightarrow> dec2bcd v AND 0x7F = dec2bcd v"
  "unat v < 40 \<Longrightarrow> dec2bcd v AND 0x3F = dec2bcd v"
  "unat v < 20 \<Longrightarrow> dec2bcd v AND 0x1F = dec2bcd v"
  using bspec [OF bcd_masks_nat(1), of "unat v"] bspec [OF bcd_masks_nat(2), of "unat v"]
    bspec [OF bcd_masks_nat(3), of "unat v"] by simp_all

section \<open>The chip\<close>

text \<open>The bits that the seven time registers implement; the others read as zero.\<close>

definition rtc_bits :: "u8 list" where "rtc_bits = [0x7F, 0x7F, 0x7F, 0x07, 0x3F, 0x9F, 0xFF]"

definition rtc_image :: "u8 list \<Rightarrow> bool" where
  "rtc_image b \<longleftrightarrow> length b = 7 \<and> map2 (AND) b rtc_bits = b"

locale ds3231 =
  fixes xfer :: "'w i2c_transfer"
    and regs :: "'w \<Rightarrow> u8 list"
  assumes set_regs: "rtc_image b \<Longrightarrow> xfer (ds3231_write_request b) w = (kStatus_Success, buf, w') \<Longrightarrow> regs w' = b"
    and get_regs: "xfer (ds3231_read_request 0 raw 7) w = (kStatus_Success, buf, w') \<Longrightarrow>
      buf = regs w \<and> regs w' = regs w"

definition valid_time :: "rtc_time_t \<Rightarrow> bool" where
  "valid_time t \<longleftrightarrow> unat (sec t) < 60 \<and> unat (min t) < 60 \<and> unat (hour t) < 24 \<and> unat (day t) < 8 \<and>
     unat (date t) < 32 \<and> unat (month t) < 13 \<and> unat (year t) < 100"

lemma day_mask: "unat (d :: u8) < 8 \<Longrightarrow> d AND 7 = d"
proof -
  have "\<forall>n \<in> set [0..<8]. (of_nat n :: u8) AND 7 = of_nat n" by code_simp
  from bspec [OF this, of "unat d"] show "unat d < 8 \<Longrightarrow> d AND 7 = d" by simp
qed

lemma month_bits: "unat m < 13 \<Longrightarrow> dec2bcd m AND 0x9F = dec2bcd m"
proof -
  have "\<forall>n \<in> set [0..<13]. dec2bcd (of_nat n) AND 0x9F = dec2bcd (of_nat n)" by code_simp
  from bspec [OF this, of "unat m"] show "unat m < 13 \<Longrightarrow> dec2bcd m AND 0x9F = dec2bcd m" by simp
qed

lemma byte_bits: "(x :: u8) AND 0xFF = x"
proof -
  have "(0xFF :: u8) = - 1" by simp
  then show ?thesis by (simp only: and.right_neutral)
qed

lemma encode_image: "valid_time t \<Longrightarrow> rtc_image (rtc_encode t)"
  by (simp add: valid_time_def rtc_image_def rtc_encode_def rtc_bits_def bcd_masks day_mask month_bits byte_bits)

lemma decode_encode: "valid_time t \<Longrightarrow> rtc_decode (rtc_encode t) = t"
  by (simp add: valid_time_def rtc_decode_def rtc_encode_def bcd_masks day_mask bcd_roundtrip)

context ds3231
begin

lemma set_time: "valid_time t \<Longrightarrow> DS3231_SetTime xfer t w = (kStatus_Success, w') \<Longrightarrow> regs w' = rtc_encode t"
  by (auto simp: DS3231_SetTime_def split: prod.splits intro: set_regs [OF encode_image])

lemma read_time:
  "DS3231_ReadTime xfer raw t0 w = (kStatus_Success, t, w') \<Longrightarrow> t = rtc_decode (regs w) \<and> regs w' = regs w"
  by (auto simp: DS3231_ReadTime_def split: prod.splits if_splits dest: get_regs)

lemma set_then_read:
  "valid_time t \<Longrightarrow> DS3231_SetTime xfer t w = (kStatus_Success, w') \<Longrightarrow>
   DS3231_ReadTime xfer raw t0 w' = (kStatus_Success, t', w'') \<Longrightarrow> t' = t"
  using set_time [of t w w'] read_time [of raw t0 w' t' w''] decode_encode [of t] by simp

end

text \<open>A simulated chip: the registers, and no acknowledge for other devices or registers.\<close>

definition sim_rtc :: "u8 list i2c_transfer" where
  "sim_rtc t s =
     (if slaveAddress t \<noteq> DS3231_ADDR \<or> subaddressSize t \<noteq> 1 \<or> subaddress t \<noteq> 0 \<or> dataSize t \<noteq> 7
      then (kStatus_Fail, xdata t, s)
      else case direction t of
        kLPI2C_Write \<Rightarrow> (kStatus_Success, xdata t, map2 (AND) (xdata t) rtc_bits)
      | kLPI2C_Read \<Rightarrow> (kStatus_Success, s, s))"

interpretation sim_rtc: ds3231 sim_rtc "\<lambda>s. s"
  by unfold_locales (auto simp: sim_rtc_def ds3231_write_request_def ds3231_read_request_def rtc_image_def)

section \<open>The compilation date\<close>

text \<open>The text that the compiler puts for \<^verbatim>\<open>__DATE__\<close> (the day padded with a blank) and \<^verbatim>\<open>__TIME__\<close>.\<close>

definition date_text :: "nat \<Rightarrow> nat \<Rightarrow> nat \<Rightarrow> string" where
  "date_text d m y = monthNames ! (m - 1) @ '' '' @ ((if d < 10 then '' '' else []) @ fmt_nat d) @ '' '' @ fmt_nat y"

definition two_digits :: "nat \<Rightarrow> string" where
  "two_digits n = (if n < 10 then ''0'' else []) @ fmt_nat n"

definition time_text :: "nat \<Rightarrow> nat \<Rightarrow> nat \<Rightarrow> string" where
  "time_text h m s = two_digits h @ '':'' @ two_digits m @ '':'' @ two_digits s"

lemma two_digits_val: "digits_val (two_digits n) = n"
  using digits_val_fmt_nat [of n] by (simp add: two_digits_def digits_val_def)

lemma two_digits_digits: "c \<in> set (two_digits n) \<Longrightarrow> is_digit c"
  using fmt_nat_digits by (auto simp: two_digits_def is_digit_def split: if_splits)

lemma two_digits_nonempty [simp]: "two_digits n \<noteq> []"
  by (simp add: two_digits_def)

lemma scan_two_digits:
  "rest = [] \<or> \<not> is_digit (hd rest) \<Longrightarrow> scan_d (two_digits n @ rest) = Some (int n, rest)"
  using scan_d_digits [of "two_digits n" rest "[]"] two_digits_digits
  by (auto simp: two_digits_val)

lemma scan_time_text: "scan_time (time_text h m s) = Some (int h, int m, int s)"
  using scan_two_digits [of "[]" s]
  by (simp add: scan_time_def time_text_def scan_two_digits scan_char_def not_digit_facts)

lemma month_names:
  "\<forall>m \<in> set [1..<13]. length (monthNames ! (m - 1)) = 3 \<and>
     (\<forall>c \<in> set (monthNames ! (m - 1)). \<not> is_space c) \<and> GetMonthFromStr (monthNames ! (m - 1)) = of_nat m"
  by code_simp

lemma scan_month:
  assumes "m \<in> set [1..<13]"
  shows "scan_s 3 (monthNames ! (m - 1) @ '' '' @ rest) = Some (monthNames ! (m - 1), '' '' @ rest) \<and>
    GetMonthFromStr (monthNames ! (m - 1)) = of_nat m"
proof -
  note M = bspec [OF month_names assms]
  then have "monthNames ! (m - 1) \<noteq> []" by (metis list.size(3) zero_neq_numeral)
  with M have "scan_s 3 (monthNames ! (m - 1) @ '' '' @ rest) = Some (monthNames ! (m - 1), '' '' @ rest)"
    by (intro scan_s_word) simp_all
  with M show ?thesis by blast
qed

lemma scan_date_text:
  assumes "m \<in> set [1..<13]"
  shows "scan_date (date_text d m y) = Some (monthNames ! (m - 1), int d, int y)"
proof -
  have y: "scan_d ('' '' @ fmt_nat y) = Some (int y, [])"
    using scan_d_digits [of "fmt_nat y" "[]" "'' ''"] fmt_nat_digits by simp
  have d: "scan_d ('' '' @ ((if d < 10 then '' '' else []) @ fmt_nat d) @ '' '' @ fmt_nat y) = Some (int d, '' '' @ fmt_nat y)"
    using scan_d_digits [of "fmt_nat d" "'' '' @ fmt_nat y" "'' ''"] fmt_nat_digits
      scan_d_digits [of "fmt_nat d" "'' '' @ fmt_nat y" "''  ''"]
    by (simp add: not_digit_facts)
  show ?thesis
    using scan_month [OF assms] d y by (simp add: scan_date_def date_text_def)
qed

lemma compile_time_text:
  assumes "m \<in> set [1..<13]"
  shows "compile_time (date_text d m y) (time_text h mi s) =
    Some \<lparr>sec = of_nat s, min = of_nat mi, hour = of_nat h, day = 1, date = of_nat d, month = of_nat m,
          year = of_int (int y - 2000)\<rparr>"
  using scan_month [OF assms] by (simp add: compile_time_def scan_date_text [OF assms] scan_time_text)

section \<open>Properties\<close>

text \<open>
  C37: The clock returns the time it was set to. For a time whose fields are in range, a
  successful \<^verbatim>\<open>DS3231_SetTime\<close> followed by a successful \<^verbatim>\<open>DS3231_ReadTime\<close>, with no tick between,
  returns exactly that time, on a chip whose registers keep the bits they implement.
\<close>

theorem rtc_set_read_roundtrip:
  assumes "ds3231 xfer regs" and "valid_time t"
    and "DS3231_SetTime xfer t w = (kStatus_Success, w')"
    and "DS3231_ReadTime xfer raw t0 w' = (kStatus_Success, t', w'')"
  shows "t' = t"
  by (rule ds3231.set_then_read [OF assms])

definition noon :: rtc_time_t where
  "noon = \<lparr>sec = 0, min = 30, hour = 12, day = 7, date = 29, month = 8, year = 26\<rparr>"

theorem rtc_set_read_roundtrip_witness:
  "fst (snd (DS3231_ReadTime sim_rtc [] (noon\<lparr>sec := 59\<rparr>) (snd (DS3231_SetTime sim_rtc noon (replicate 7 0))))) = noon"
proof -
  have v: "valid_time noon" by (simp add: valid_time_def noon_def)
  obtain w' where s: "DS3231_SetTime sim_rtc noon (replicate 7 0) = (kStatus_Success, w')"
    by (simp add: DS3231_SetTime_def sim_rtc_def ds3231_write_request_def)
  obtain t' w'' where r: "DS3231_ReadTime sim_rtc [] (noon\<lparr>sec := 59\<rparr>) w' = (kStatus_Success, t', w'')"
    by (simp add: DS3231_ReadTime_def sim_rtc_def ds3231_read_request_def)
  from rtc_set_read_roundtrip [OF sim_rtc.ds3231_axioms v s r] s r show ?thesis by simp
qed

text \<open>
  Boot sets the clock to the compilation time. For every date of the years 2000 to 2099 and
  time of day, written as the compiler writes them, \<^verbatim>\<open>RTC_SetFromCompileTime\<close> parses both texts,
  and when the transfer succeeds the chip reads back exactly that date and time, with weekday 1.
  It does so at every boot, whatever time the battery-backed clock had kept.
\<close>

theorem rtc_boot_sets_compile_time:
  assumes chip: "ds3231 xfer regs"
    and "1 \<le> m" "m \<le> 12" "1 \<le> d" "d \<le> 31" "2000 \<le> y" "y < 2100" "h < 24" "mi < 60" "s < 60"
  shows "\<exists>st b' w'. RTC_SetFromCompileTime xfer clk (date_text d m y) (time_text h mi s) (b, w) = Some (st, b', w') \<and>
    (st = kStatus_Success \<longrightarrow> rtc_decode (regs w') =
       \<lparr>sec = of_nat s, min = of_nat mi, hour = of_nat h, day = 1, date = of_nat d, month = of_nat m,
        year = of_nat (y - 2000)\<rparr>)"
proof -
  obtain k where k: "y = 2000 + k" using assms(6) le_Suc_ex by blast
  let ?t = "\<lparr>sec = of_nat s, min = of_nat mi, hour = of_nat h, day = 1, date = of_nat d, month = of_nat m,
        year = of_nat k\<rparr> :: rtc_time_t"
  have "int y - 2000 = int k" by (simp add: k)
  then have ct: "compile_time (date_text d m y) (time_text h mi s) = Some ?t"
    using compile_time_text [of m d y h mi s] assms(2,3) by (simp only: of_int_of_nat_eq) simp
  have valid: "valid_time ?t"
    using assms by (simp add: valid_time_def unat_of_nat_small k)
  obtain st w' where set: "DS3231_SetTime xfer ?t w = (st, w')"
    by (cases "DS3231_SetTime xfer ?t w")
  have "rtc_decode (regs w') = ?t" if "st = kStatus_Success"
    using ds3231.set_time [OF chip valid] set that decode_encode [OF valid] by simp
  with ct set show ?thesis by (simp add: RTC_SetFromCompileTime_def k)
qed

theorem rtc_boot_sets_compile_time_witness:
  "\<exists>st b' w'. RTC_SetFromCompileTime sim_rtc 12000000 ''Sep  5 2026'' ''07:08:09'' (i2c_driver_boot, replicate 7 0)
       = Some (st, b', w') \<and> (st = kStatus_Success \<longrightarrow> date (rtc_decode w') = 5)"
proof -
  have "date_text 5 9 2026 = ''Sep  5 2026''" "time_text 7 8 9 = ''07:08:09''"
    by code_simp+
  with rtc_boot_sets_compile_time [OF sim_rtc.ds3231_axioms, of 9 5 2026 7 8 9 12000000 i2c_driver_boot "replicate 7 0"]
  show ?thesis by fastforce
qed

end
