(* ===== verification/Float32.thy ===== *)
theory Float32
  imports Complex_Main "HOL-Library.Log_Nat" Prelude
begin

text \<open>
  Single-precision arithmetic, as far as the sensor code uses it. A finite float is the rational
  number it denotes; an arithmetic operation is the exact one followed by a rounding \<open>fl\<close>, which
  is an argument of the definitions that compute with floats, because a compiler may fuse a
  multiplication and an addition and so skip a rounding. What the proofs use of it is the locale
  \<open>rounding\<close>; the round-to-nearest-even of binary32 provides it. Overflow to infinity and the
  sign of zero are not modelled.
\<close>

section \<open>Round to nearest, ties to even\<close>

definition round_half_even :: "rat \<Rightarrow> int" where
  "round_half_even r =
     (let f = \<lfloor>r\<rfloor>; d = r - of_int f
      in if d < 1/2 then f else if d > 1/2 then f + 1 else if even f then f else f + 1)"

definition pow2 :: "int \<Rightarrow> rat" where
  "pow2 i = (if 0 \<le> i then 2 ^ nat i else 1 / 2 ^ nat (- i))"

text \<open>The exponent \<open>e\<close> with \<open>2^e \<le> \<bar>x\<bar> < 2^(e+1)\<close>, for \<open>x\<close> not zero.\<close>

definition exponent :: "rat \<Rightarrow> int" where
  "exponent x =
     (case quotient_of x of (n, d) \<Rightarrow>
        let e = bitlen \<bar>n\<bar> - bitlen d in if pow2 e \<le> \<bar>x\<bar> then e else e - 1)"

definition fl32 :: "rat \<Rightarrow> rat" where
  "fl32 x =
     (if x = 0 then 0
      else let q = max (exponent x - 23) (- 149)
           in of_int (round_half_even (x / pow2 q)) * pow2 q)"

section \<open>What the sensor code relies on\<close>

locale rounding =
  fixes fl :: "rat \<Rightarrow> rat"
  assumes fl_bound: "\<bar>x\<bar> \<le> 2 ^ k \<Longrightarrow> \<bar>fl x\<bar> \<le> 2 ^ k"

lemma round_half_even_cases: "round_half_even r = \<lfloor>r\<rfloor> \<or> (round_half_even r = \<lfloor>r\<rfloor> + 1 \<and> of_int \<lfloor>r\<rfloor> < r)"
  by (auto simp: round_half_even_def Let_def not_less)

lemma round_half_even_bound:
  assumes "\<bar>r\<bar> \<le> of_int n" shows "\<bar>round_half_even r\<bar> \<le> n"
proof -
  have "\<lfloor>r\<rfloor> \<le> n" "- n \<le> \<lfloor>r\<rfloor>"
    using assms by (auto simp: floor_le_iff le_floor_iff abs_le_iff)
  moreover have "\<lfloor>r\<rfloor> < n" if "of_int \<lfloor>r\<rfloor> < r"
  proof -
    have "(of_int \<lfloor>r\<rfloor> :: rat) < of_int n" using that assms by (simp add: abs_le_iff)
    then show ?thesis by simp
  qed
  ultimately show ?thesis using round_half_even_cases [of r] by auto
qed

lemma pow2_pos [simp]: "0 < pow2 i"
  by (simp add: pow2_def)

lemma pow2_nat: "pow2 (int k) = 2 ^ k"
  by (simp add: pow2_def)

lemma pow2_powi: "pow2 i = 2 powi i"
  by (auto simp: pow2_def power_int_def inverse_eq_divide power_one_over)

lemma pow2_add: "pow2 (i + j) = pow2 i * pow2 j"
  by (simp add: pow2_powi power_int_add)

lemma exponent_le:
  assumes "x \<noteq> 0" and "\<bar>x\<bar> \<le> 2 ^ k" shows "exponent x \<le> int k"
proof -
  obtain n d where q: "quotient_of x = (n, d)" by fastforce
  then have d: "0 < d" and x: "x = of_int n / of_int d"
    by (simp_all add: quotient_of_denom_pos quotient_of_div)
  define e where "e = bitlen \<bar>n\<bar> - bitlen d"
  have n: "0 < \<bar>n\<bar>" using assms(1) x by auto
  have "pow2 (e - 1) < \<bar>x\<bar>"
  proof -
    have "2 ^ nat (bitlen \<bar>n\<bar> - 1) \<le> \<bar>n\<bar>" "d < 2 ^ nat (bitlen d)"
      using bitlen_bounds [OF n] bitlen_bounds [OF d] by simp_all
    then have "(2 :: rat) ^ nat (bitlen \<bar>n\<bar> - 1) \<le> of_int \<bar>n\<bar>" "(of_int d :: rat) < 2 ^ nat (bitlen d)"
      by (metis of_int_le_iff of_int_power of_int_numeral) (metis \<open>d < 2 ^ nat (bitlen d)\<close> of_int_less_iff of_int_power of_int_numeral)
    moreover have "1 \<le> bitlen \<bar>n\<bar>" "1 \<le> bitlen d" using n d by (simp_all add: bitlen_def floorlog_def)
    ultimately have le: "pow2 (bitlen \<bar>n\<bar> - 1) \<le> of_int \<bar>n\<bar>" and lt: "of_int d < pow2 (bitlen d)"
      by (simp_all add: pow2_def)
    have "pow2 (e - 1) * pow2 (bitlen d) = pow2 (bitlen \<bar>n\<bar> - 1)"
      by (simp add: e_def flip: pow2_add)
    with le have "pow2 (e - 1) * pow2 (bitlen d) \<le> of_int \<bar>n\<bar>" by simp
    moreover have "pow2 (e - 1) * of_int d < pow2 (e - 1) * pow2 (bitlen d)"
      using lt by (simp only: mult_less_cancel_left_pos [OF pow2_pos])
    ultimately have "pow2 (e - 1) * of_int d < of_int \<bar>n\<bar>" by linarith
    with d show ?thesis by (simp add: x pos_less_divide_eq)
  qed
  moreover have "pow2 (exponent x) \<le> \<bar>x\<bar>"
    using calculation by (auto simp: exponent_def q Let_def simp flip: e_def)
  ultimately have "pow2 (exponent x) \<le> pow2 (int k)"
    using assms(2) by (simp add: pow2_nat)
  then show ?thesis
    using power_int_strict_increasing [of "int k" "exponent x" "2 :: rat"] by (force simp: pow2_powi)
qed

lemma fl32_bound:
  assumes "\<bar>x\<bar> \<le> 2 ^ k" shows "\<bar>fl32 x\<bar> \<le> 2 ^ k"
proof (cases "x = 0")
  case False
  define q where "q = max (exponent x - 23) (- 149)"
  have "q \<le> int k" using exponent_le [OF False assms] by (simp add: q_def)
  then obtain j where j: "int k = int j + q" by (metis diff_add_cancel diff_ge_0_iff_ge nat_0_le)
  have k: "(2 :: rat) ^ k = 2 ^ j * pow2 q"
    using pow2_add [of "int j" q] by (simp add: pow2_nat flip: j)
  then have "\<bar>x / pow2 q\<bar> \<le> of_int (2 ^ j)"
    using assms by (simp add: abs_divide pos_divide_le_eq abs_of_pos [OF pow2_pos])
  then have "\<bar>round_half_even (x / pow2 q)\<bar> \<le> 2 ^ j" by (rule round_half_even_bound)
  then have "of_int \<bar>round_half_even (x / pow2 q)\<bar> \<le> (2 ^ j :: rat)"
    by (metis of_int_le_iff of_int_power of_int_numeral)
  then have "\<bar>fl32 x\<bar> \<le> 2 ^ j * pow2 q"
    using False by (simp add: fl32_def abs_mult abs_of_pos [OF pow2_pos] flip: q_def)
  with k show ?thesis by simp
qed (simp add: fl32_def)

interpretation fl32: rounding fl32
  by unfold_locales (rule fl32_bound)

interpretation exact: rounding "\<lambda>x. x"
  by unfold_locales

text \<open>Conversion to an integer truncates toward zero.\<close>

definition trunc_rat :: "rat \<Rightarrow> int" where
  "trunc_rat x = (if 0 \<le> x then \<lfloor>x\<rfloor> else - \<lfloor>- x\<rfloor>)"

lemma trunc_rat_bound: "\<bar>x\<bar> \<le> of_int n \<Longrightarrow> \<bar>trunc_rat x\<bar> \<le> n"
proof -
  assume a: "\<bar>x\<bar> \<le> of_int n"
  have "\<lfloor>y\<rfloor> \<le> n" if "y \<le> of_int n" for y :: rat
    using that by (simp add: floor_le_iff)
  with a show ?thesis
    by (cases "0 \<le> x") (simp_all add: trunc_rat_def abs_of_nonneg)
qed

text \<open>The rounded operations.\<close>

definition fadd :: "(rat \<Rightarrow> rat) \<Rightarrow> rat \<Rightarrow> rat \<Rightarrow> rat" where "fadd fl a b = fl (a + b)"
definition fsub :: "(rat \<Rightarrow> rat) \<Rightarrow> rat \<Rightarrow> rat \<Rightarrow> rat" where "fsub fl a b = fl (a - b)"
definition fmul :: "(rat \<Rightarrow> rat) \<Rightarrow> rat \<Rightarrow> rat \<Rightarrow> rat" where "fmul fl a b = fl (a * b)"
definition fdiv :: "(rat \<Rightarrow> rat) \<Rightarrow> rat \<Rightarrow> rat \<Rightarrow> rat" where "fdiv fl a b = fl (a / b)"

text \<open>\<open>below k x\<close>: \<open>x\<close> is at most \<open>2^k\<close> in absolute value.\<close>

definition below :: "nat \<Rightarrow> rat \<Rightarrow> bool" where "below k x \<longleftrightarrow> \<bar>x\<bar> \<le> 2 ^ k"

context rounding
begin

lemma below_fl: "below k x \<Longrightarrow> below k (fl x)"
  by (simp add: below_def fl_bound)

lemma below_add: "below k a \<Longrightarrow> below k b \<Longrightarrow> below (Suc k) (fadd fl a b)"
  unfolding fadd_def by (rule below_fl) (simp add: below_def)

lemma below_sub: "below k a \<Longrightarrow> below k b \<Longrightarrow> below (Suc k) (fsub fl a b)"
  unfolding fsub_def by (rule below_fl) (simp add: below_def)

lemma below_mul: "below j a \<Longrightarrow> below k b \<Longrightarrow> below (j + k) (fmul fl a b)"
  unfolding fmul_def
  by (rule below_fl) (simp add: below_def abs_mult power_add mult_mono)

lemma below_div: "below (j + k) a \<Longrightarrow> below j (fdiv fl a (2 ^ k))"
  unfolding fdiv_def
  by (rule below_fl) (simp add: below_def abs_divide power_add pos_divide_le_eq)

end

end
