(* ===== verification/Bmp280.thy ===== *)
theory Bmp280
  imports Float32 I2C_Bus
begin

text \<open>
  The BMP280/BME280 driver \<^verbatim>\<open>drivers/My_I2C_bmp280.c\<close>: register access, probing and calibration,
  the floating-point compensation formulas, and the two read functions. Integers of the handle
  are words of their C width; a float is the rational it denotes (theory \<open>Float32\<close>).
\<close>

section \<open>Registers and handle\<close>

definition BMP280_I2C_ADDR :: u16 where "BMP280_I2C_ADDR = 0x76"
definition BMP280_CHIP_ID :: u8 where "BMP280_CHIP_ID = 0x58"
definition BME280_CHIP_ID :: u8 where "BME280_CHIP_ID = 0x60"
definition BMP280_REG_CHIP_ID :: u8 where "BMP280_REG_CHIP_ID = 0xD0"
definition BMP280_REG_RESET :: u8 where "BMP280_REG_RESET = 0xE0"
definition BMP280_REG_CTRL_HUM :: u8 where "BMP280_REG_CTRL_HUM = 0xF2"
definition BMP280_REG_CTRL_MEAS :: u8 where "BMP280_REG_CTRL_MEAS = 0xF4"
definition BMP280_REG_PRESS_MSB :: u8 where "BMP280_REG_PRESS_MSB = 0xF7"
definition BMP280_REG_CALIB00 :: u8 where "BMP280_REG_CALIB00 = 0x88"

datatype bmp280_status_t = kBmp280_Ok | kBmp280_I2cError | kBmp280_UnknownChipId

record bmp280_handle_t =
  dig_T1 :: u16  dig_T2 :: u16  dig_T3 :: u16
  dig_P1 :: u16  dig_P2 :: u16  dig_P3 :: u16  dig_P4 :: u16  dig_P5 :: u16
  dig_P6 :: u16  dig_P7 :: u16  dig_P8 :: u16  dig_P9 :: u16
  dig_H1 :: u8   dig_H2 :: u16  dig_H3 :: u8   dig_H4 :: u16  dig_H5 :: u16  dig_H6 :: u8
  t_fine :: u32
  isBME280 :: bool

definition bmp280_write_request :: "u8 \<Rightarrow> u8 \<Rightarrow> lpi2c_master_transfer_t" where
  "bmp280_write_request reg val = \<lparr>flags = kLPI2C_TransferDefaultFlag, slaveAddress = BMP280_I2C_ADDR,
     direction = kLPI2C_Write, subaddress = ucast reg, subaddressSize = 1, xdata = [val], dataSize = 1\<rparr>"

definition bmp280_read_request :: "u8 \<Rightarrow> u8 list \<Rightarrow> u32 \<Rightarrow> lpi2c_master_transfer_t" where
  "bmp280_read_request reg buf len = \<lparr>flags = kLPI2C_TransferDefaultFlag, slaveAddress = BMP280_I2C_ADDR,
     direction = kLPI2C_Read, subaddress = ucast reg, subaddressSize = 1, xdata = buf, dataSize = len\<rparr>"

definition BMP280_WriteReg :: "'w i2c_transfer \<Rightarrow> u8 \<Rightarrow> u8 \<Rightarrow> 'w \<Rightarrow> status_t \<times> 'w" where
  "BMP280_WriteReg xfer reg val w =
     (case xfer (bmp280_write_request reg val) w of (st, _, w') \<Rightarrow> (st, w'))"

definition BMP280_ReadRegs :: "'w i2c_transfer \<Rightarrow> u8 \<Rightarrow> u8 list \<Rightarrow> u32 \<Rightarrow> 'w \<Rightarrow> status_t \<times> u8 list \<times> 'w" where
  "BMP280_ReadRegs xfer reg buf len w = xfer (bmp280_read_request reg buf len) w"

section \<open>Probe and calibration\<close>

text \<open>\<^verbatim>\<open>calib[i] | (calib[i+1] << 8)\<close>, cut to 16 bits.\<close>

definition le16 :: "u8 list \<Rightarrow> nat \<Rightarrow> u16" where
  "le16 c i = ucast (c ! i) OR push_bit 8 (ucast (c ! (i + 1)))"

definition bmp280_trim :: "u8 list \<Rightarrow> bmp280_handle_t \<Rightarrow> bmp280_handle_t" where
  "bmp280_trim c h = h\<lparr>dig_T1 := le16 c 0, dig_T2 := le16 c 2, dig_T3 := le16 c 4,
     dig_P1 := le16 c 6, dig_P2 := le16 c 8, dig_P3 := le16 c 10, dig_P4 := le16 c 12,
     dig_P5 := le16 c 14, dig_P6 := le16 c 16, dig_P7 := le16 c 18, dig_P8 := le16 c 20,
     dig_P9 := le16 c 22\<rparr>"

definition bme280_trim :: "u8 list \<Rightarrow> bmp280_handle_t \<Rightarrow> bmp280_handle_t" where
  "bme280_trim c h = h\<lparr>dig_H2 := le16 c 0, dig_H3 := c ! 2,
     dig_H4 := push_bit 4 (ucast (c ! 3)) OR ucast (c ! 4 AND 0x0F),
     dig_H5 := push_bit 4 (ucast (c ! 5)) OR ucast (drop_bit 4 (c ! 4)),
     dig_H6 := c ! 6\<rparr>"

text \<open>The humidity part of the probe, for a BME280 only.\<close>

definition bme280_init :: "'w i2c_transfer \<Rightarrow> bmp280_handle_t \<Rightarrow> 'w \<Rightarrow> bmp280_status_t \<times> bmp280_handle_t \<times> 'w" where
  "bme280_init xfer h w =
     (case BMP280_ReadRegs xfer 0xA1 [0] 1 w of (s1, b1, w) \<Rightarrow>
      if s1 \<noteq> kStatus_Success then (kBmp280_I2cError, h, w) else
      let h = h\<lparr>dig_H1 := b1 ! 0\<rparr> in
      case BMP280_ReadRegs xfer 0xE1 (replicate 7 0) 7 w of (s2, calibH, w) \<Rightarrow>
      if s2 \<noteq> kStatus_Success then (kBmp280_I2cError, h, w) else
      let h = bme280_trim calibH h in
      case BMP280_WriteReg xfer BMP280_REG_CTRL_HUM 0x01 w of (_, w) \<Rightarrow> (kBmp280_Ok, h, w))"

definition BMP280_Init ::
    "'w i2c_transfer \<Rightarrow> (u32 \<Rightarrow> 'w \<Rightarrow> 'w) \<Rightarrow> u32 \<Rightarrow> bmp280_handle_t \<Rightarrow> i2c_driver \<times> 'w \<Rightarrow>
     bmp280_status_t \<times> bmp280_handle_t \<times> i2c_driver \<times> 'w" where
  "BMP280_Init xfer delay_us clk h = (\<lambda>(b, w).
     let b = I2C_Bus_Init clk b in
     case BMP280_ReadRegs xfer BMP280_REG_CHIP_ID [0] 1 w of (s1, chipId, w) \<Rightarrow>
     if s1 \<noteq> kStatus_Success then (kBmp280_I2cError, h, b, w) else
     if chipId ! 0 \<noteq> BMP280_CHIP_ID \<and> chipId ! 0 \<noteq> BME280_CHIP_ID then (kBmp280_UnknownChipId, h, b, w) else
     let h = h\<lparr>isBME280 := (chipId ! 0 \<noteq> BMP280_CHIP_ID)\<rparr> in
     case BMP280_WriteReg xfer BMP280_REG_RESET 0xB6 w of (_, w) \<Rightarrow>
     let w = delay_us 3000 w in
     case BMP280_ReadRegs xfer BMP280_REG_CALIB00 (replicate 26 0) 26 w of (s2, calib, w) \<Rightarrow>
     if s2 \<noteq> kStatus_Success then (kBmp280_I2cError, h, b, w) else
     let h = bmp280_trim calib h in
     case (if isBME280 h then bme280_init xfer h w else (kBmp280_Ok, h, w)) of (s3, h, w) \<Rightarrow>
     if s3 \<noteq> kBmp280_Ok then (s3, h, b, w) else
     case BMP280_WriteReg xfer BMP280_REG_CTRL_MEAS 0x25 w of (_, w) \<Rightarrow> (kBmp280_Ok, h, b, w))"

section \<open>Compensation\<close>

definition u16f :: "u16 \<Rightarrow> rat" where "u16f x = of_nat (unat x)"
definition s16f :: "u16 \<Rightarrow> rat" where "s16f x = of_int (sint x)"
definition s32f :: "(rat \<Rightarrow> rat) \<Rightarrow> u32 \<Rightarrow> rat" where "s32f fl x = fl (of_int (sint x))"

definition BMP280_CompensateTemp ::
    "(rat \<Rightarrow> rat) \<Rightarrow> bmp280_handle_t \<Rightarrow> u32 \<Rightarrow> bmp280_handle_t \<times> rat" where
  "BMP280_CompensateTemp fl h adc_T =
     (let adc = s32f fl adc_T;
          var1 = fmul fl (fsub fl (fdiv fl adc 16384) (fdiv fl (u16f (dig_T1 h)) 1024)) (s16f (dig_T2 h));
          var2 = fmul fl (fmul fl (fsub fl (fdiv fl adc 131072) (fdiv fl (u16f (dig_T1 h)) 8192))
                                  (fsub fl (fdiv fl adc 131072) (fdiv fl (u16f (dig_T1 h)) 8192)))
                         (s16f (dig_T3 h));
          h = h\<lparr>t_fine := of_int (trunc_rat (fadd fl var1 var2))\<rparr>
      in (h, fdiv fl (fadd fl var1 var2) 5120))"

definition BMP280_CompensatePressure :: "(rat \<Rightarrow> rat) \<Rightarrow> bmp280_handle_t \<Rightarrow> u32 \<Rightarrow> rat" where
  "BMP280_CompensatePressure fl h adc_P =
     (let var1 = fsub fl (fdiv fl (s32f fl (t_fine h)) 2) 64000;
          var2 = fdiv fl (fmul fl (fmul fl var1 var1) (s16f (dig_P6 h))) 32768;
          var2 = fadd fl var2 (fmul fl (fmul fl var1 (s16f (dig_P5 h))) 2);
          var2 = fadd fl (fdiv fl var2 4) (fmul fl (s16f (dig_P4 h)) 65536);
          var1 = fdiv fl (fadd fl (fdiv fl (fmul fl (fmul fl (s16f (dig_P3 h)) var1) var1) 524288)
                                  (fmul fl (s16f (dig_P2 h)) var1)) 524288;
          var1 = fmul fl (fadd fl 1 (fdiv fl var1 32768)) (u16f (dig_P1 h))
      in if var1 = 0 then 0
         else let p = fsub fl 1048576 (s32f fl adc_P);
                  p = fdiv fl (fmul fl (fsub fl p (fdiv fl var2 4096)) 6250) var1;
                  var1 = fdiv fl (fmul fl (fmul fl (s16f (dig_P9 h)) p) p) 2147483648;
                  var2 = fdiv fl (fmul fl p (s16f (dig_P8 h))) 32768;
                  p = fadd fl p (fdiv fl (fadd fl (fadd fl var1 var2) (s16f (dig_P7 h))) 16)
              in fdiv fl p 100)"

definition BMP280_CompensateHumidity :: "(rat \<Rightarrow> rat) \<Rightarrow> bmp280_handle_t \<Rightarrow> u32 \<Rightarrow> rat" where
  "BMP280_CompensateHumidity fl h adc_H =
     (let var_H = fsub fl (s32f fl (t_fine h)) 76800;
          var_H = fmul fl
            (fsub fl (s32f fl adc_H)
               (fadd fl (fmul fl (s16f (dig_H4 h)) 64) (fmul fl (fdiv fl (s16f (dig_H5 h)) 16384) var_H)))
            (fmul fl (fdiv fl (s16f (dig_H2 h)) 65536)
               (fadd fl 1 (fmul fl (fmul fl (fdiv fl (of_int (sint (dig_H6 h))) 67108864) var_H)
                  (fadd fl 1 (fmul fl (fdiv fl (of_nat (unat (dig_H3 h))) 67108864) var_H)))));
          var_H = fmul fl var_H (fsub fl 1 (fdiv fl (fmul fl (of_nat (unat (dig_H1 h))) var_H) 524288));
          var_H = (if var_H > 100 then 100 else var_H)
      in if var_H < 0 then 0 else var_H)"

section \<open>Reading\<close>

definition adc20 :: "u8 \<Rightarrow> u8 \<Rightarrow> u8 \<Rightarrow> u32" where
  "adc20 msb lsb xlsb = push_bit 12 (ucast msb) OR push_bit 4 (ucast lsb) OR ucast (drop_bit 4 xlsb)"

text \<open>
  \<open>wait\<close> is the busy loop that gives the conversion time. The results are written through
  pointers: \<open>tp\<close> is their content before the call.
\<close>

definition BMP280_ReadTempPressure ::
    "(rat \<Rightarrow> rat) \<Rightarrow> 'w i2c_transfer \<Rightarrow> ('w \<Rightarrow> 'w) \<Rightarrow> bmp280_handle_t \<Rightarrow> rat \<times> rat \<Rightarrow> 'w \<Rightarrow>
     bmp280_status_t \<times> bmp280_handle_t \<times> (rat \<times> rat) \<times> 'w" where
  "BMP280_ReadTempPressure fl xfer wait h tp w =
     (case BMP280_WriteReg xfer BMP280_REG_CTRL_MEAS 0x25 w of (_, w) \<Rightarrow>
      case BMP280_ReadRegs xfer BMP280_REG_PRESS_MSB (replicate 6 0) 6 (wait w) of (st, raw, w) \<Rightarrow>
      if st \<noteq> kStatus_Success then (kBmp280_I2cError, h, tp, w) else
      let adc_P = adc20 (raw ! 0) (raw ! 1) (raw ! 2);
          adc_T = adc20 (raw ! 3) (raw ! 4) (raw ! 5);
          (h', temperatureC) = BMP280_CompensateTemp fl h adc_T
      in (kBmp280_Ok, h', (temperatureC, BMP280_CompensatePressure fl h' adc_P), w))"

definition BMP280_ReadHumidity ::
    "(rat \<Rightarrow> rat) \<Rightarrow> 'w i2c_transfer \<Rightarrow> bmp280_handle_t \<Rightarrow> rat \<Rightarrow> 'w \<Rightarrow> bmp280_status_t \<times> rat \<times> 'w" where
  "BMP280_ReadHumidity fl xfer h hum w =
     (if \<not> isBME280 h then (kBmp280_UnknownChipId, hum, w)
      else case BMP280_ReadRegs xfer 0xFD [0, 0] 2 w of (st, raw, w) \<Rightarrow>
        if st \<noteq> kStatus_Success then (kBmp280_I2cError, hum, w)
        else (kBmp280_Ok,
              BMP280_CompensateHumidity fl h (push_bit 8 (ucast (raw ! 0)) OR ucast (raw ! 1)), w))"

section \<open>Assembled readings\<close>

lemma unat_adc20: "unat (adc20 a b c) = 4096 * unat a + 16 * unat b + unat c div 16"
proof -
  have x: "unat (push_bit 4 (ucast b) OR ucast (drop_bit 4 c) :: u32) = unat b * 16 + unat c div 16"
    using less_mult_imp_div_less [of "unat c" 16 16]
    by (subst unat_or_push) (simp_all add: unat_ucast_up unat_drop_bit unat_u8_below)
  have "unat b * 16 + unat c div 16 < 4096"
    using unat_u8_less [of b] unat_u8_less [of c] by (simp del: unat_u8_less)
  with x show ?thesis
    unfolding adc20_def or.assoc
    by (subst unat_or_push) (simp_all add: unat_ucast_up unat_u8_below)
qed

lemma adc20_bound: "unat (adc20 a b c) < 2 ^ 20"
  using unat_u8_less [of a] unat_u8_less [of b] unat_u8_less [of c]
  by (simp add: unat_adc20 del: unat_u8_less)

lemma unat_le16: "unat (le16 c i) = unat (c ! i) + 256 * unat (c ! (i + 1))"
  unfolding le16_def or.commute [of "ucast (c ! i)"]
  by (subst unat_or_push) (simp_all add: unat_ucast_up unat_u8_below)

lemma sint_of_small_unat: "unat (w :: u32) < 2 ^ 31 \<Longrightarrow> sint w = int (unat w)"
proof -
  have "n < 2 ^ 31 \<Longrightarrow> signed_take_bit 31 (int n) = int n" for n
    by (simp add: signed_take_bit_int_eq_self)
  from this [of "unat w"] show "unat w < 2 ^ 31 \<Longrightarrow> sint w = int (unat w)"
    unfolding sint_uint uint_nat by simp
qed

lemma below_u16f: "below 16 (u16f x)"
proof -
  have "(of_nat (unat x) :: rat) < of_nat 65536"
    by (subst of_nat_less_iff) simp
  then show ?thesis unfolding below_def u16f_def abs_of_nat by simp
qed

lemma below_s16f: "below 15 (s16f x)"
proof -
  have "- 32768 \<le> sint x" "sint x < 32768"
    using sint_ge [of x] sint_lt [of x] by simp_all
  then have "(- 32768 :: rat) \<le> of_int (sint x)" "of_int (sint x) \<le> (32768 :: rat)"
    by (metis of_int_le_iff of_int_minus of_int_numeral) (metis \<open>sint x < 32768\<close> less_imp_le of_int_le_iff of_int_numeral)
  then show ?thesis by (simp add: below_def s16f_def abs_le_iff)
qed

context rounding
begin

lemma below_adc: "unat a < 2 ^ 20 \<Longrightarrow> below 20 (s32f fl a)"
proof -
  assume a: "unat a < 2 ^ 20"
  then have "sint a = int (unat a)" by (intro sint_of_small_unat) simp
  moreover have "(of_nat (unat a) :: rat) < of_nat (2 ^ 20)" using a by (subst of_nat_less_iff)
  ultimately have "below 20 (of_int (sint a))"
    unfolding below_def by (simp only: of_int_of_nat_eq abs_of_nat) simp
  then show ?thesis unfolding s32f_def by (rule below_fl)
qed

text \<open>The bound on \<open>t_fine\<close>: the conversion to a 32-bit integer is always defined.\<close>

lemma temp_bounds:
  assumes "unat adc_T < 2 ^ 20" and "BMP280_CompensateTemp fl h adc_T = (h', T)"
  shows "\<bar>sint (t_fine h')\<bar> \<le> 2 ^ 24 \<and> below 12 T \<and> h' = h\<lparr>t_fine := t_fine h'\<rparr>"
proof -
  define var1 where "var1 = fmul fl (fsub fl (fdiv fl (s32f fl adc_T) 16384) (fdiv fl (u16f (dig_T1 h)) 1024)) (s16f (dig_T2 h))"
  define d where "d = fsub fl (fdiv fl (s32f fl adc_T) 131072) (fdiv fl (u16f (dig_T1 h)) 8192)"
  define var2 where "var2 = fmul fl (fmul fl d d) (s16f (dig_T3 h))"
  have adc: "below (6 + 14) (s32f fl adc_T)" "below (3 + 17) (s32f fl adc_T)"
    using below_adc [OF assms(1)] by simp_all
  have T1: "below (6 + 10) (u16f (dig_T1 h))" "below (3 + 13) (u16f (dig_T1 h))"
    using below_u16f [of "dig_T1 h"] by simp_all
  have v1: "below 22 var1"
    using below_mul [OF below_sub [OF below_div [OF adc(1)] below_div [OF T1(1)]] below_s16f [of "dig_T2 h"]]
    by (simp add: var1_def)
  have d: "below 4 d"
    using below_sub [OF below_div [OF adc(2)] below_div [OF T1(2)]] by (simp add: d_def)
  have v2: "below 23 var2"
    using below_mul [OF below_mul [OF d d] below_s16f [of "dig_T3 h"]] by (simp add: var2_def)
  have "below 23 var1" using v1 by (simp add: below_def)
  from below_add [OF this v2] have s: "below 24 (fadd fl var1 var2)" by simp
  have h': "h' = h\<lparr>t_fine := of_int (trunc_rat (fadd fl var1 var2))\<rparr>" and T: "T = fdiv fl (fadd fl var1 var2) 5120"
    using assms(2) by (simp_all add: BMP280_CompensateTemp_def Let_def var1_def var2_def d_def)
  have tr: "\<bar>trunc_rat (fadd fl var1 var2)\<bar> \<le> 2 ^ 24"
    using s by (intro trunc_rat_bound) (simp add: below_def)
  then have "sint (of_int (trunc_rat (fadd fl var1 var2)) :: u32) = trunc_rat (fadd fl var1 var2)"
    by (simp add: signed_of_int signed_take_bit_int_eq_self abs_le_iff)
  moreover have "below 12 T"
    unfolding T fdiv_def using s by (intro below_fl) (simp add: below_def abs_divide pos_divide_le_eq)
  ultimately show ?thesis using tr by (simp add: h')
qed

end

section \<open>The sensor\<close>

text \<open>
  What the driver relies on: a read returns the registers from the given one on, and neither a
  read nor a write to a control register changes the identification or the calibration data.
\<close>

definition trim_reg :: "nat \<Rightarrow> bool" where
  "trim_reg i \<longleftrightarrow> i = 0xD0 \<or> (0x88 \<le> i \<and> i \<le> 0xA1) \<or> (0xE1 \<le> i \<and> i \<le> 0xE7)"

locale bmp280_chip =
  fixes xfer :: "'w i2c_transfer"
    and delay_us :: "u32 \<Rightarrow> 'w \<Rightarrow> 'w"
    and regs :: "'w \<Rightarrow> u8 memory"
  assumes read_regs: "xfer (bmp280_read_request r buf n) w = (kStatus_Success, d, w') \<Longrightarrow>
      d = mem_read (unat r) (unat n) (regs w)"
    and read_keeps: "xfer (bmp280_read_request r buf n) w = (st, d, w') \<Longrightarrow> trim_reg i \<Longrightarrow> regs w' i = regs w i"
    and write_keeps: "xfer (bmp280_write_request r v) w = (st, d, w') \<Longrightarrow> r \<in> {0xE0, 0xF2, 0xF4} \<Longrightarrow>
      trim_reg i \<Longrightarrow> regs w' i = regs w i"
    and delay_keeps: "trim_reg i \<Longrightarrow> regs (delay_us t w) i = regs w i"

text \<open>The handle that the calibration data of the chip determine.\<close>

definition calibrated :: "u8 memory \<Rightarrow> bmp280_handle_t \<Rightarrow> bmp280_handle_t" where
  "calibrated m h =
     (let h = bmp280_trim (mem_read 0x88 26 m) (h\<lparr>isBME280 := (m 0xD0 = BME280_CHIP_ID)\<rparr>)
      in if isBME280 h then bme280_trim (mem_read 0xE1 7 m) (h\<lparr>dig_H1 := m 0xA1\<rparr>) else h)"

lemma mem_read_cong: "(\<And>i. a \<le> i \<Longrightarrow> i < a + n \<Longrightarrow> m i = m' i) \<Longrightarrow> mem_read a n m = mem_read a n m'"
  by (simp add: mem_read_def)

context bmp280_chip
begin

lemmas keeps = read_keeps write_keeps delay_keeps

lemma bme280_init_ok:
  assumes "bme280_init xfer h w = (kBmp280_Ok, h', w')"
  shows "h' = bme280_trim (mem_read 0xE1 7 (regs w)) (h\<lparr>dig_H1 := regs w 0xA1\<rparr>) \<and>
    (\<forall>i. trim_reg i \<longrightarrow> regs w' i = regs w i)"
proof -
  from assms obtain b1 w1 c w2 s3 d3
    where r1: "xfer (bmp280_read_request 0xA1 [0] 1) w = (kStatus_Success, b1, w1)"
    and r2: "xfer (bmp280_read_request 0xE1 (replicate 7 0) 7) w1 = (kStatus_Success, c, w2)"
    and w3: "xfer (bmp280_write_request BMP280_REG_CTRL_HUM 1) w2 = (s3, d3, w')"
    and h': "h' = bme280_trim c (h\<lparr>dig_H1 := b1 ! 0\<rparr>)"
    by (auto simp: bme280_init_def BMP280_ReadRegs_def BMP280_WriteReg_def Let_def split: prod.splits if_splits)
  have k1: "trim_reg i \<Longrightarrow> regs w1 i = regs w i" for i by (rule read_keeps [OF r1])
  have k3: "trim_reg i \<Longrightarrow> regs w' i = regs w i" for i
    using k1 [of i] read_keeps [OF r2, of i] write_keeps [OF w3, of i] by (simp add: BMP280_REG_CTRL_HUM_def)
  have "mem_read 0xE1 7 (regs w1) = mem_read 0xE1 7 (regs w)"
    by (rule mem_read_cong) (auto intro: k1 simp: trim_reg_def)
  with read_regs [OF r1] read_regs [OF r2] h' k3 show ?thesis by (simp add: mem_read_def)
qed

lemma init_ok:
  assumes "BMP280_Init xfer delay_us clk h (b, w) = (kBmp280_Ok, h', b', w')"
  shows "regs w 0xD0 \<in> {BMP280_CHIP_ID, BME280_CHIP_ID} \<and> h' = calibrated (regs w) h"
proof -
  from assms obtain c1 w1 s2 d2 w2 c w3 h4 w4
    where r1: "xfer (bmp280_read_request BMP280_REG_CHIP_ID [0] 1) w = (kStatus_Success, c1, w1)"
    and id: "c1 ! 0 = BMP280_CHIP_ID \<or> c1 ! 0 = BME280_CHIP_ID"
    and w2: "xfer (bmp280_write_request BMP280_REG_RESET 0xB6) w1 = (s2, d2, w2)"
    and r3: "xfer (bmp280_read_request BMP280_REG_CALIB00 (replicate 26 0) 26) (delay_us 3000 w2) = (kStatus_Success, c, w3)"
    and h4: "(if c1 ! 0 \<noteq> BMP280_CHIP_ID
              then bme280_init xfer (bmp280_trim c (h\<lparr>isBME280 := True\<rparr>)) w3
              else (kBmp280_Ok, bmp280_trim c (h\<lparr>isBME280 := False\<rparr>), w3)) = (kBmp280_Ok, h4, w4)" and h': "h' = h4"
    by (auto simp: BMP280_Init_def BMP280_ReadRegs_def BMP280_WriteReg_def Let_def bmp280_trim_def
        split: prod.splits if_splits)
  have "c1 ! 0 = regs w 0xD0" using read_regs [OF r1] by (simp add: BMP280_REG_CHIP_ID_def)
  have k3: "trim_reg i \<Longrightarrow> regs (delay_us 3000 w2) i = regs w i" "trim_reg i \<Longrightarrow> regs w3 i = regs w i" for i
    using read_keeps [OF r1, of i] write_keeps [OF w2, of i] delay_keeps [of i 3000 w2] read_keeps [OF r3, of i]
    by (simp_all add: BMP280_REG_RESET_def)
  have "mem_read 0x88 26 (regs (delay_us 3000 w2)) = mem_read 0x88 26 (regs w)"
    by (rule mem_read_cong) (auto intro!: k3 simp: trim_reg_def)
  then have c: "c = mem_read 0x88 26 (regs w)"
    using read_regs [OF r3] by (simp add: BMP280_REG_CALIB00_def)
  have e: "mem_read 0xE1 7 (regs w3) = mem_read 0xE1 7 (regs w)" "regs w3 0xA1 = regs w 0xA1"
    by (rule mem_read_cong; auto intro!: k3 simp: trim_reg_def) (rule k3; simp add: trim_reg_def)
  have neq: "BME280_CHIP_ID \<noteq> BMP280_CHIP_ID" by (simp add: BME280_CHIP_ID_def BMP280_CHIP_ID_def)
  show ?thesis
    using h4 id bme280_init_ok [of "bmp280_trim c (h\<lparr>isBME280 := True\<rparr>)" w3 h4 w4] neq
    by (auto simp: h' calibrated_def c e \<open>c1 ! 0 = regs w 0xD0\<close> bmp280_trim_def Let_def split: if_splits)
qed

end

text \<open>A simulated chip: a register file.\<close>

definition sim_bmp :: "u8 memory i2c_transfer" where
  "sim_bmp t s =
     (if slaveAddress t \<noteq> BMP280_I2C_ADDR \<or> subaddressSize t \<noteq> 1 then (kStatus_Fail, xdata t, s)
      else case direction t of
        kLPI2C_Write \<Rightarrow> (kStatus_Success, xdata t, mem_write (unat (subaddress t)) (xdata t) s)
      | kLPI2C_Read \<Rightarrow> (kStatus_Success, mem_read (unat (subaddress t)) (unat (dataSize t)) s, s))"

interpretation sim_bmp: bmp280_chip sim_bmp "\<lambda>_ s. s" "\<lambda>s. s"
  by unfold_locales
     (auto simp: sim_bmp_def bmp280_read_request_def bmp280_write_request_def unat_ucast_up
       mem_write_def trim_reg_def)

lemma unat_trim12: "unat (push_bit 4 (ucast (a :: u8)) OR ucast (b AND 0x0F :: u8) :: u16) = 16 * unat a + unat b mod 16"
proof -
  have "b AND 0x0F = take_bit 4 b" by (simp add: take_bit_eq_mask mask_eq_exp_minus_1)
  then have "unat (b AND 0x0F) = unat b mod 16"
    by (simp add: unsigned_take_bit_eq take_bit_nat_def)
  then show ?thesis
    by (subst unat_or_push) (simp_all add: unat_ucast_up unat_u8_below)
qed

lemma sint_nonneg_u16: "unat (x :: u16) < 2 ^ 15 \<Longrightarrow> sint x = int (unat x)"
proof -
  have "n < 2 ^ 15 \<Longrightarrow> signed_take_bit 15 (int n) = int n" for n
    by (simp add: signed_take_bit_int_eq_self)
  from this [of "unat x"] show "unat x < 2 ^ 15 \<Longrightarrow> sint x = int (unat x)"
    unfolding sint_uint uint_nat by simp
qed

lemma sint_dig_H4: "sint (dig_H4 (bme280_trim c h)) = 16 * int (unat (c ! 3)) + int (unat (c ! 4) mod 16)"
proof -
  have "unat (dig_H4 (bme280_trim c h)) = 16 * unat (c ! 3) + unat (c ! 4) mod 16"
    by (simp add: bme280_trim_def unat_trim12)
  moreover have "16 * unat (c ! 3) + unat (c ! 4) mod 16 < 2 ^ 15"
    using unat_u8_less [of "c ! 3"] mod_less_divisor [of 16 "unat (c ! 4)"] by (simp del: unat_u8_less)
  ultimately show ?thesis by (simp add: sint_nonneg_u16)
qed

section \<open>Properties\<close>

text \<open>
  Probing loads the chip's own calibration. When \<^verbatim>\<open>BMP280_Init\<close> succeeds, the chip answered
  one of the two known identifications, and every trim value of the handle is the little-endian
  pair of bytes at its register (humidity trims for a BME280 only). The trim \<open>dig_H4\<close>, a signed
  12-bit number in the data sheet, is assembled without its sign: it is never negative.
\<close>

theorem bmp280_init_loads_calibration:
  assumes "bmp280_chip xfer delay_us regs"
    and "BMP280_Init xfer delay_us clk h (b, w) = (kBmp280_Ok, h', b', w')"
  shows "(regs w 0xD0 = 0x58 \<or> regs w 0xD0 = 0x60) \<and> isBME280 h' = (regs w 0xD0 = 0x60) \<and>
    map unat [dig_T1 h', dig_T2 h', dig_T3 h', dig_P1 h', dig_P2 h', dig_P3 h', dig_P4 h', dig_P5 h',
              dig_P6 h', dig_P7 h', dig_P8 h', dig_P9 h'] =
      map (\<lambda>i. unat (regs w (0x88 + 2 * i)) + 256 * unat (regs w (0x89 + 2 * i))) [0..<12] \<and>
    (isBME280 h' \<longrightarrow> dig_H1 h' = regs w 0xA1 \<and> 0 \<le> sint (dig_H4 h') \<and>
       sint (dig_H4 h') = 16 * int (unat (regs w 0xE4)) + int (unat (regs w 0xE5) mod 16))"
proof -
  note I = bmp280_chip.init_ok [OF assms]
  have r: "mem_read a n m ! i = m (a + i)" if "i < n" for a n i and m :: "u8 memory"
    using that by simp
  have H4: "sint (dig_H4 (bme280_trim (mem_read 0xE1 7 m) g)) = 16 * int (unat (m 0xE4)) + int (unat (m 0xE5) mod 16)" for m g
    unfolding sint_dig_H4 by simp
  show ?thesis
    using I H4
    by (auto simp: calibrated_def Let_def bmp280_trim_def bme280_trim_def unat_le16 BMP280_CHIP_ID_def
        BME280_CHIP_ID_def upt_rec)
qed

definition sim_bmp_regs :: "u8 memory" where
  "sim_bmp_regs = (\<lambda>i. of_nat i)(0xD0 := 0x60)"

definition handle0 :: bmp280_handle_t where
  "handle0 = \<lparr>dig_T1 = 0, dig_T2 = 0, dig_T3 = 0, dig_P1 = 0, dig_P2 = 0, dig_P3 = 0, dig_P4 = 0, dig_P5 = 0,
     dig_P6 = 0, dig_P7 = 0, dig_P8 = 0, dig_P9 = 0, dig_H1 = 0, dig_H2 = 0, dig_H3 = 0, dig_H4 = 0,
     dig_H5 = 0, dig_H6 = 0, t_fine = 0, isBME280 = False\<rparr>"

theorem bmp280_init_loads_calibration_witness:
  "\<exists>h' b' w'. BMP280_Init sim_bmp (\<lambda>_ s. s) 12000000 handle0 (i2c_driver_boot, sim_bmp_regs) = (kBmp280_Ok, h', b', w') \<and>
     sint (dig_H4 h') = 16 * 228 + 5"
proof -
  have "\<exists>h' b' w'. BMP280_Init sim_bmp (\<lambda>_ s. s) 12000000 handle0 (i2c_driver_boot, sim_bmp_regs) = (kBmp280_Ok, h', b', w')"
    by (simp add: BMP280_Init_def BMP280_ReadRegs_def BMP280_WriteReg_def bme280_init_def sim_bmp_def
        bmp280_read_request_def bmp280_write_request_def mem_read_def sim_bmp_regs_def Let_def
        BMP280_REG_CHIP_ID_def BMP280_CHIP_ID_def BME280_CHIP_ID_def bmp280_trim_def split: prod.splits)
  then obtain h' b' w' where r: "BMP280_Init sim_bmp (\<lambda>_ s. s) 12000000 handle0 (i2c_driver_boot, sim_bmp_regs) = (kBmp280_Ok, h', b', w')"
    by blast
  from bmp280_init_loads_calibration [OF sim_bmp.bmp280_chip_axioms r] r show ?thesis
    by (auto simp: sim_bmp_regs_def)
qed

text \<open>
  C38: A reading is all or nothing, and its integer conversion is defined. The driver starts a conversion (whether that
  write is acknowledged is not looked at), waits, and reads six bytes from register \<open>0xF7\<close> on. Exactly when this transfer
  fails the call reports the bus error, and the handle and both results are as they were; otherwise
  the temperature and the pressure are the compensations of the two 20-bit numbers in the six bytes, the pressure in
  the first three, the temperature in the last three, high byte first; \<open>t_fine\<close> stays within 2^24 (so the conversion from
  float to \<^verbatim>\<open>int32_t\<close> is never out of range), the pressure is compensated with this temperature's \<open>t_fine\<close>, and the
  temperature is within 4096 degrees.
\<close>

theorem bmp280_read_all_or_nothing:
  assumes "rounding fl"
    and "xfer (bmp280_write_request 0xF4 0x25) w = (s1, d1, w1)"
    and "xfer (bmp280_read_request 0xF7 (replicate 6 0) 6) (wait w1) = (s2, raw, w2)"
    and "BMP280_ReadTempPressure fl xfer wait h tp w = (st, h', (T, p), w')"
  shows "w' = w2 \<and>
    (s2 \<noteq> kStatus_Success \<longrightarrow> st = kBmp280_I2cError \<and> h' = h \<and> (T, p) = tp) \<and>
    (s2 = kStatus_Success \<longrightarrow> st = kBmp280_Ok \<and>
      (\<exists>adc_P adc_T.
         unat adc_P = 4096 * unat (raw ! 0) + 16 * unat (raw ! 1) + unat (raw ! 2) div 16 \<and>
         unat adc_T = 4096 * unat (raw ! 3) + 16 * unat (raw ! 4) + unat (raw ! 5) div 16 \<and>
         BMP280_CompensateTemp fl h adc_T = (h', T) \<and> p = BMP280_CompensatePressure fl h' adc_P) \<and>
      \<bar>sint (t_fine h')\<bar> \<le> 2 ^ 24 \<and> \<bar>T\<bar> \<le> 4096)"
proof -
  note call = assms(4) [unfolded BMP280_ReadTempPressure_def BMP280_WriteReg_def BMP280_ReadRegs_def
      BMP280_REG_CTRL_MEAS_def BMP280_REG_PRESS_MSB_def assms(2)]
  show ?thesis
  proof (cases "s2 = kStatus_Success")
    case False
    with call assms(3) show ?thesis by simp
  next
    case True
    let ?T = "adc20 (raw ! 3) (raw ! 4) (raw ! 5)" and ?P = "adc20 (raw ! 0) (raw ! 1) (raw ! 2)"
    obtain g t where c: "BMP280_CompensateTemp fl h ?T = (g, t)"
      by (cases "BMP280_CompensateTemp fl h ?T")
    have r: "st = kBmp280_Ok" "h' = g" "T = t" "p = BMP280_CompensatePressure fl g ?P" "w' = w2"
      using call assms(3) True c by (auto simp: Let_def)
    have "\<bar>sint (t_fine h')\<bar> \<le> 2 ^ 24 \<and> \<bar>T\<bar> \<le> 4096"
      using rounding.temp_bounds [OF assms(1) adc20_bound c] r(2,3) by (simp add: below_def)
    then show ?thesis
      using True r c unat_adc20 [of "raw ! 0" "raw ! 1" "raw ! 2"] unat_adc20 [of "raw ! 3" "raw ! 4" "raw ! 5"] by blast
  qed
qed

theorem bmp280_read_all_or_nothing_witness:
  "\<bar>fst (fst (snd (snd (BMP280_ReadTempPressure fl32 sim_bmp (\<lambda>s. s) handle0 (0, 0) sim_bmp_regs))))\<bar> \<le> 4096 \<and>
   fst (BMP280_ReadTempPressure fl32 sim_bmp (\<lambda>s. s) handle0 (0, 0) sim_bmp_regs) = kBmp280_Ok"
proof -
  obtain st h' T p w' where r: "BMP280_ReadTempPressure fl32 sim_bmp (\<lambda>s. s) handle0 (0, 0) sim_bmp_regs = (st, h', (T, p), w')"
    by (metis prod.collapse)
  obtain d1 w1 where s1: "sim_bmp (bmp280_write_request 0xF4 0x25) sim_bmp_regs = (kStatus_Success, d1, w1)"
    by (simp add: sim_bmp_def bmp280_write_request_def)
  obtain raw w2 where s2: "sim_bmp (bmp280_read_request 0xF7 (replicate 6 0) 6) w1 = (kStatus_Success, raw, w2)"
    by (simp add: sim_bmp_def bmp280_read_request_def)
  from bmp280_read_all_or_nothing [where wait = "\<lambda>s. s", OF fl32.rounding_axioms s1 s2 r] r show ?thesis by auto
qed

text \<open>
  A humidity reading is a percentage. Whatever the trims and the rounding, a successful
  \<^verbatim>\<open>BMP280_ReadHumidity\<close> gives a value between 0 and 100; without a humidity sensor or with a bus
  error the result is left alone.
\<close>

theorem humidity_is_percentage:
  assumes "BMP280_ReadHumidity fl xfer h hum w = (st, hum', w')"
  shows "(st = kBmp280_Ok \<and> isBME280 h \<and> 0 \<le> hum' \<and> hum' \<le> 100) \<or>
    (st = kBmp280_UnknownChipId \<and> \<not> isBME280 h \<and> hum' = hum \<and> w' = w) \<or>
    (st = kBmp280_I2cError \<and> isBME280 h \<and> hum' = hum)"
proof -
  have range: "0 \<le> BMP280_CompensateHumidity fl h a \<and> BMP280_CompensateHumidity fl h a \<le> 100" for a
    by (simp add: BMP280_CompensateHumidity_def Let_def)
  show ?thesis
    using assms range by (auto simp: BMP280_ReadHumidity_def split: if_splits prod.splits)
qed

theorem humidity_is_percentage_witness:
  "fst (BMP280_ReadHumidity fl32 sim_bmp handle0 50 sim_bmp_regs) = kBmp280_UnknownChipId \<and>
   fst (snd (BMP280_ReadHumidity fl32 sim_bmp handle0 50 sim_bmp_regs)) = 50"
proof -
  obtain st hum' w' where r: "BMP280_ReadHumidity fl32 sim_bmp handle0 50 sim_bmp_regs = (st, hum', w')"
    by (cases "BMP280_ReadHumidity fl32 sim_bmp handle0 50 sim_bmp_regs")
  from humidity_is_percentage [OF r] r show ?thesis by (auto simp: handle0_def)
qed

end
