(* ===== verification/WebService.thy ===== *)
theory WebService
  imports C_String Float32 HealthMonitor Ds3231
begin

text \<open>
  The HTTP service \<^verbatim>\<open>services/Web_service/Web_service.c\<close>: the sensor snapshot, the JSON response, the
  control command, the static files and the request handler. A response is the list of
  characters passed to \<^verbatim>\<open>send\<close>. Whether a mutex is obtained in time, what \<^verbatim>\<open>accept\<close> and \<^verbatim>\<open>recv\<close>
  return, and the generated table of static files are arguments.
\<close>

section \<open>State\<close>

record WebSensorData_t =
  temp :: rat
  pressure :: rat
  ts_buf :: "char list"

record web_service =
  g_sensor_data :: WebSensorData_t
  g_web_control_active :: u8

definition crlf :: string where "crlf = [CR, LF]"
definition quoted :: "string \<Rightarrow> string" where "quoted s = [QUOTE] @ s @ [QUOTE]"

section \<open>Sensor snapshot\<close>

definition u8_int :: "u8 \<Rightarrow> int" where "u8_int x = int (unat x)"

definition timestamp_text :: "rtc_time_t \<Rightarrow> string" where
  "timestamp_text t = ''20'' @ fmt_02d (u8_int (year t)) @ ''-'' @ fmt_02d (u8_int (month t)) @ ''-'' @
     fmt_02d (u8_int (date t)) @ '' '' @ fmt_02d (u8_int (hour t)) @ '':'' @ fmt_02d (u8_int (min t)) @ '':'' @
     fmt_02d (u8_int (sec t))"

definition WebService_UpdateSensorData ::
    "bool \<Rightarrow> rtc_time_t \<Rightarrow> rat \<Rightarrow> rat \<Rightarrow> web_service \<Rightarrow> web_service" where
  "WebService_UpdateSensorData taken t temp_val press_val s =
     (if \<not> taken then s
      else s\<lparr>g_sensor_data := \<lparr>temp = temp_val, pressure = press_val,
               ts_buf = fst (snprintf (ts_buf (g_sensor_data s)) 24 (timestamp_text t))\<rparr>\<rparr>)"

definition zero_sensor_data :: WebSensorData_t where
  "zero_sensor_data = \<lparr>temp = 0, pressure = 0, ts_buf = replicate 24 NUL\<rparr>"

text \<open>The zero-initialised globals.\<close>

definition web_boot :: web_service where
  "web_boot = \<lparr>g_sensor_data = zero_sensor_data, g_web_control_active = 0\<rparr>"

section \<open>JSON response\<close>

text \<open>\<^verbatim>\<open>(int)x\<close>; its conversion back to float is exact, because the whole part of a float is a float.\<close>

definition float_whole :: "rat \<Rightarrow> int" where "float_whole x = trunc_rat x"

definition float_frac :: "(rat \<Rightarrow> rat) \<Rightarrow> rat \<Rightarrow> int" where
  "float_frac fl x =
     (let f = trunc_rat (fmul fl (fsub fl x (of_int (float_whole x))) 10) in if f < 0 then - f else f)"

definition json_text :: "(rat \<Rightarrow> rat) \<Rightarrow> WebSensorData_t \<Rightarrow> string" where
  "json_text fl snap =
     ''{'' @ quoted ''temp'' @ '':'' @ fmt_d (float_whole (temp snap)) @ ''.'' @ fmt_d (float_frac fl (temp snap)) @
     '','' @ quoted ''pressure'' @ '':'' @ fmt_d (float_whole (pressure snap)) @ ''.'' @
     fmt_d (float_frac fl (pressure snap)) @
     '','' @ quoted ''timestamp'' @ '':'' @ quoted (c_str (ts_buf snap)) @ ''}''"

definition HTTP_TX_BUF_SIZE :: nat where "HTTP_TX_BUF_SIZE = 384"
definition HTTP_RX_BUF_SIZE :: nat where "HTTP_RX_BUF_SIZE = 640"

definition json_header :: "int \<Rightarrow> string" where
  "json_header n = ''HTTP/1.1 200 OK'' @ crlf @ ''Content-Type: application/json'' @ crlf @
     ''Content-Length: '' @ fmt_d n @ crlf @ ''Access-Control-Allow-Origin: *'' @ crlf @
     ''Connection: close'' @ crlf @ crlf"

text \<open>
  The two \<^verbatim>\<open>snprintf\<close> calls, on the uninitialised locals \<open>body_buf\<close> and \<open>tx_buf\<close>; \<^verbatim>\<open>send\<close> takes the
  formatted length, not the space used. A mutex that is not obtained in time gives the zeroed
  snapshot.
\<close>

definition send_sensor_json ::
    "(rat \<Rightarrow> rat) \<Rightarrow> char list \<Rightarrow> char list \<Rightarrow> bool \<Rightarrow> web_service \<Rightarrow> char list \<times> nat" where
  "send_sensor_json fl body_buf tx_buf taken s =
     (let snap = (if taken then g_sensor_data s else zero_sensor_data);
          (body, body_len) = snprintf body_buf 128 (json_text fl snap)
      in snprintf tx_buf HTTP_TX_BUF_SIZE (json_header (int body_len) @ c_str body))"

section \<open>Control command\<close>

definition control_ok :: string where
  "control_ok = ''HTTP/1.1 200 OK'' @ crlf @ ''Content-Type: application/json'' @ crlf @
     ''Content-Length: 15'' @ crlf @ ''Access-Control-Allow-Origin: *'' @ crlf @
     ''Connection: close'' @ crlf @ crlf @ ''{'' @ quoted ''status'' @ '':'' @ quoted ''ok'' @ ''}''"

definition handle_control_post :: "string \<Rightarrow> web_service \<Rightarrow> string \<times> web_service" where
  "handle_control_post rx s =
     (control_ok,
      if strstr rx (quoted ''on'') \<or> strstr rx ('':'' @ quoted ''on'') then s\<lparr>g_web_control_active := 1\<rparr>
      else if strstr rx (quoted ''off'') \<or> strstr rx ('':'' @ quoted ''off'') then s\<lparr>g_web_control_active := 0\<rparr>
      else s)"

section \<open>Static files and errors\<close>

type_synonym fs_table = "(string \<times> string) list"

fun handle_static_file_serve :: "fs_table \<Rightarrow> string \<Rightarrow> string option" where
  "handle_static_file_serve [] p = None"
| "handle_static_file_serve ((name, content) # fs) p =
     (if strcmp_eq p name then Some content else handle_static_file_serve fs p)"

definition resp_404 :: string where
  "resp_404 = ''HTTP/1.1 404 Not Found'' @ crlf @ ''Content-Type: text/plain'' @ crlf @
     ''Content-Length: 9'' @ crlf @ ''Access-Control-Allow-Origin: *'' @ crlf @
     ''Connection: close'' @ crlf @ crlf @ ''Not Found''"

definition resp_405 :: string where
  "resp_405 = ''HTTP/1.1 405 Method Not Allowed'' @ crlf @ ''Access-Control-Allow-Origin: *'' @ crlf @
     ''Content-Length: 0'' @ crlf @ ''Connection: close'' @ crlf @ crlf"

definition resp_preflight :: string where
  "resp_preflight = ''HTTP/1.1 204 No Content'' @ crlf @ ''Access-Control-Allow-Origin: *'' @ crlf @
     ''Access-Control-Allow-Methods: POST, OPTIONS'' @ crlf @ ''Access-Control-Allow-Headers: Content-Type'' @ crlf @
     ''Content-Length: 0'' @ crlf @ ''Connection: close'' @ crlf @ crlf"

section \<open>Request handler\<close>

text \<open>\<^verbatim>\<open>sscanf(rx_buf, "%7s %63s", method, path)\<close>: both tokens, or \<open>None\<close>.\<close>

definition parse_request :: "string \<Rightarrow> (string \<times> string) option" where
  "parse_request rx =
     Option.bind (scan_s 7 rx) (\<lambda>(method, r). Option.bind (scan_s 63 r) (\<lambda>(path, r). Some (method, path)))"

definition target_path :: "string \<Rightarrow> string" where
  "target_path path =
     (let p = c_str ((strncpy (replicate 64 NUL) path 63)[63 := NUL])
      in if strcmp_eq p ''/'' then ''/index.html'' else p)"

text \<open>What is sent for a received request: the characters, and the new state.\<close>

definition http_route ::
    "(rat \<Rightarrow> rat) \<Rightarrow> fs_table \<Rightarrow> char list \<Rightarrow> char list \<Rightarrow> bool \<Rightarrow> string \<Rightarrow> web_service \<Rightarrow>
     string \<times> web_service" where
  "http_route fl fs body_buf tx_buf taken rx s =
     (case parse_request rx of
        None \<Rightarrow> (resp_404, s)
      | Some (method, path) \<Rightarrow>
          if strncmp_eq path ''/api/sensor'' 11 then
            (if strncmp_eq method ''GET'' 3
             then (case send_sensor_json fl body_buf tx_buf taken s of (buf, n) \<Rightarrow> (take n buf, s))
             else (resp_405, s))
          else if strncmp_eq path ''/api/control'' 12 then
            (if strncmp_eq method ''POST'' 4 then handle_control_post rx s
             else if strncmp_eq method ''OPTIONS'' 7 then (resp_preflight, s)
             else (resp_405, s))
          else (case handle_static_file_serve fs (target_path path) of
                  Some content \<Rightarrow> (content, s)
                | None \<Rightarrow> (resp_404, s)))"

text \<open>
  One pass of the task: \<open>Accept_Error\<close> is a time-out or an error of \<^verbatim>\<open>accept\<close>; \<open>Accepted r\<close> gives
  the received characters, at most 639, or \<open>None\<close> when \<^verbatim>\<open>recv\<close> does not return a positive count.
  The result is the response, if any, and whether a connection was closed.
\<close>

datatype accept_result = Accept_Error | Accepted "char list option"

definition http_handler_pass ::
    "(rat \<Rightarrow> rat) \<Rightarrow> fs_table \<Rightarrow> char list \<Rightarrow> char list \<Rightarrow> u8 \<Rightarrow> bool \<Rightarrow> bool \<Rightarrow> accept_result \<Rightarrow>
     web_service \<times> hms \<Rightarrow> string option \<times> bool \<times> web_service \<times> hms" where
  "http_handler_pass fl fs body_buf tx_buf tid notified taken acc = (\<lambda>(s, m).
     let m = (if notified then Reset_HeltMonit_service tid m else m) in
     case acc of
       Accept_Error \<Rightarrow> (None, False, s, m)
     | Accepted None \<Rightarrow> (None, True, s, m)
     | Accepted (Some rx) \<Rightarrow>
         (case http_route fl fs body_buf tx_buf taken (c_str (rx @ [NUL])) s of
            (resp, s') \<Rightarrow> (Some resp, True, s', m)))"

text \<open>
  \<^verbatim>\<open>WebService_Init\<close>: the default snapshot, the first update (the new mutex is free), the
  registration. The arguments are the two default values as floats.
\<close>

definition HMS_TIMEOUT_COMM_MS :: u32 where "HMS_TIMEOUT_COMM_MS = 1000"

definition WebService_Init ::
    "(rat \<Rightarrow> rat) \<Rightarrow> rtc_time_t \<Rightarrow> nat \<Rightarrow> web_service \<times> hms \<Rightarrow> (u8 \<times> web_service \<times> hms) option" where
  "WebService_Init fl t h = (\<lambda>(s, m).
     let s = s\<lparr>g_sensor_data := zero_sensor_data
               \<lparr>ts_buf := fst (snprintf (replicate 24 NUL) 24 ''1970-01-01 00:00:00'')\<rparr>\<rparr>;
         s = WebService_UpdateSensorData True t (fl (9999 / 100)) (fl 999) s
     in map_option (\<lambda>(tid, m'). (tid, s, m'))
          (Registor_service ''http_handler'' HMS_TIMEOUT_COMM_MS True (Some h) m))"

section \<open>Lengths\<close>

lemma length_fmt_nat: "n < 10 ^ k \<Longrightarrow> 0 < k \<Longrightarrow> length (fmt_nat n) \<le> k"
  by (simp add: fmt_nat_def length_nat_digits)

lemma length_fmt_d: "\<bar>i\<bar> < 10 ^ k \<Longrightarrow> 0 < k \<Longrightarrow> length (fmt_d i) \<le> Suc k"
proof -
  assume a: "\<bar>i\<bar> < 10 ^ k" "0 < k"
  then have "nat \<bar>i\<bar> < 10 ^ k" by (simp add: nat_less_iff)
  from length_fmt_nat [OF this a(2)] show ?thesis
    by (auto simp: fmt_d_def abs_if split: if_splits)
qed

lemma trunc_rat_error: "\<bar>x - of_int (trunc_rat x)\<bar> \<le> 1"
proof (cases "0 \<le> x")
  case True
  then show ?thesis
    using floor_correct [of x] by (simp add: trunc_rat_def abs_le_iff)
next
  case False
  then show ?thesis
    using floor_correct [of "- x"] by (simp add: trunc_rat_def abs_le_iff) linarith
qed

context rounding
begin

lemma float_frac_bound: "0 \<le> float_frac fl x \<and> float_frac fl x \<le> 16"
proof -
  define d where "d = fsub fl x (of_int (float_whole x))"
  have "below 0 d"
    unfolding d_def fsub_def float_whole_def by (rule below_fl) (use trunc_rat_error [of x] in \<open>simp add: below_def\<close>)
  then have "below 4 (fmul fl d 10)"
    unfolding fmul_def by (intro below_fl) (simp add: below_def abs_mult)
  then have "\<bar>trunc_rat (fmul fl d 10)\<bar> \<le> 16"
    by (intro trunc_rat_bound) (simp add: below_def)
  then show ?thesis by (auto simp: float_frac_def Let_def simp flip: d_def)
qed

lemma json_length:
  assumes "\<bar>float_whole (temp snap)\<bar> < 2 ^ 31" and "\<bar>float_whole (pressure snap)\<bar> < 2 ^ 31"
    and "length (c_str (ts_buf snap)) \<le> 23"
  shows "length (json_text fl snap) \<le> 89"
proof -
  have f: "length (fmt_d (float_frac fl x)) \<le> 3" for x
    using float_frac_bound [of x] length_fmt_d [of "float_frac fl x" 2] by simp
  have w: "length (fmt_d i) \<le> 11" if "\<bar>i\<bar> < 2 ^ 31" for i
    using that length_fmt_d [of i 10] by simp
  have "length (json_text fl snap) = 38 + length (fmt_d (float_whole (temp snap))) +
      length (fmt_d (float_frac fl (temp snap))) + length (fmt_d (float_whole (pressure snap))) +
      length (fmt_d (float_frac fl (pressure snap))) + length (c_str (ts_buf snap))"
    by (simp add: json_text_def quoted_def)
  with f [of "temp snap"] f [of "pressure snap"] w [OF assms(1)] w [OF assms(2)] assms(3) show ?thesis
    by linarith
qed

end

text \<open>The timestamp always fits: 25 characters at most, cut to 23, and 19 for two-digit fields.\<close>

lemma length_fmt_02d_nat:
  "length (fmt_02d (int n)) = (if n < 10 then 2 else length (fmt_nat n))"
  by (auto simp: fmt_02d_def fmt_d_def fmt_nat_def nat_digits.simps [of n])

lemma length_fmt_02d: "length (fmt_02d (u8_int x)) \<le> 3" "unat x < 100 \<Longrightarrow> length (fmt_02d (u8_int x)) = 2"
proof -
  have "length (fmt_nat (unat x)) \<le> 3"
    using length_fmt_nat [of "unat x" 3] unat_u8_less [of x] by (simp del: unat_u8_less)
  then show "length (fmt_02d (u8_int x)) \<le> 3"
    unfolding u8_int_def length_fmt_02d_nat by simp
  have "length (fmt_nat n) = 2" if "10 \<le> n" "n < 100" for n
    using that by (simp add: fmt_nat_def nat_digits.simps [of n] nat_digits.simps [of "n div 10"])
  then show "unat x < 100 \<Longrightarrow> length (fmt_02d (u8_int x)) = 2"
    unfolding u8_int_def length_fmt_02d_nat by simp
qed

lemma timestamp_no_NUL: "NUL \<notin> set (timestamp_text t)"
  by (simp add: timestamp_text_def NUL_def [symmetric]) (simp add: NUL_def)

lemma timestamp_valid_length:
  "valid_time t \<Longrightarrow> length (timestamp_text t) = 19"
  by (simp add: timestamp_text_def valid_time_def length_fmt_02d(2))

definition sensor_ok :: "WebSensorData_t \<Rightarrow> bool" where
  "sensor_ok d \<longleftrightarrow> length (ts_buf d) = 24 \<and> length (c_str (ts_buf d)) \<le> 23 \<and>
     \<bar>float_whole (temp d)\<bar> < 2 ^ 31 \<and> \<bar>float_whole (pressure d)\<bar> < 2 ^ 31"

lemma snprintf_length:
  "length buf = cap \<Longrightarrow> 0 < cap \<Longrightarrow> length (fst (snprintf buf cap s)) = cap"
  by (auto simp: snprintf_def min_def)

lemma update_timestamp:
  assumes "length (ts_buf (g_sensor_data s)) = 24"
  shows "c_str (ts_buf (g_sensor_data (WebService_UpdateSensorData True t a b s))) = take 23 (timestamp_text t)"
    and "length (ts_buf (g_sensor_data (WebService_UpdateSensorData True t a b s))) = 24"
  using assms snprintf_truncates [OF timestamp_no_NUL, of 24 "ts_buf (g_sensor_data s)" t]
  by (simp_all add: WebService_UpdateSensorData_def snprintf_length)

lemma sensor_ok_update:
  assumes "sensor_ok (g_sensor_data s)" and "\<bar>float_whole a\<bar> < 2 ^ 31" and "\<bar>float_whole b\<bar> < 2 ^ 31"
  shows "sensor_ok (g_sensor_data (WebService_UpdateSensorData taken t a b s))"
proof (cases taken)
  case True
  from assms update_timestamp [of s t a b] show ?thesis
    by (simp add: sensor_ok_def) (simp add: True WebService_UpdateSensorData_def)
next
  case False
  with assms show ?thesis by (simp add: WebService_UpdateSensorData_def)
qed

lemma sensor_ok_zero: "sensor_ok zero_sensor_data"
  by (simp add: sensor_ok_def zero_sensor_data_def float_whole_def trunc_rat_def c_str_def)

section \<open>What a response carries\<close>

lemma no_NUL_json:
  "NUL \<notin> set (json_text fl snap)"
  by (simp add: json_text_def quoted_def QUOTE_def) (simp add: NUL_def)

lemma no_NUL_header: "NUL \<notin> set (json_header n)"
  by (simp add: json_header_def crlf_def CR_def LF_def) (simp add: NUL_def)

lemma length_json_header: "n < 1000 \<Longrightarrow> length (json_header (int n)) \<le> 126"
  using length_fmt_nat [of n 3] by (simp add: json_header_def crlf_def fmt_d_def)

context rounding
begin

text \<open>The response fits in both buffers, so what is sent is the header and the whole body.\<close>

lemma sensor_response:
  assumes "sensor_ok (g_sensor_data s)" and "length body_buf = 128" and "length tx_buf = HTTP_TX_BUF_SIZE"
    and "send_sensor_json fl body_buf tx_buf taken s = (buf, n)"
  defines "snap \<equiv> (if taken then g_sensor_data s else zero_sensor_data)"
  shows "take n buf = json_header (int (length (json_text fl snap))) @ json_text fl snap \<and>
    n \<le> 215 \<and> length buf = HTTP_TX_BUF_SIZE"
proof -
  have ok: "sensor_ok snap" using assms(1) sensor_ok_zero by (simp add: snap_def)
  then have len: "length (json_text fl snap) \<le> 89"
    by (intro json_length) (simp_all add: sensor_ok_def)
  let ?h = "json_header (int (length (json_text fl snap)))"
  have hl: "length ?h \<le> 126" using len by (intro length_json_header) simp
  obtain body bl where b: "snprintf body_buf 128 (json_text fl snap) = (body, bl)"
    by (cases "snprintf body_buf 128 (json_text fl snap)")
  have body: "c_str body = json_text fl snap" "bl = length (json_text fl snap)"
    using snprintf_fits [OF no_NUL_json, of fl snap 128 body_buf] len b by simp_all
  then have tx: "snprintf tx_buf HTTP_TX_BUF_SIZE (?h @ json_text fl snap) = (buf, n)"
    using assms(4) b by (simp add: send_sensor_json_def Let_def snap_def [symmetric])
  have n: "n = length ?h + length (json_text fl snap)"
    using tx by (simp add: snprintf_def HTTP_TX_BUF_SIZE_def)
  moreover from this hl len have "n < 384" by simp
  ultimately have "take n buf = ?h @ json_text fl snap"
    using tx by (auto simp: snprintf_def HTTP_TX_BUF_SIZE_def)
  moreover have "length buf = HTTP_TX_BUF_SIZE"
    using tx snprintf_length [OF assms(3)] by (metis HTTP_TX_BUF_SIZE_def fst_conv zero_less_numeral)
  ultimately show ?thesis using n hl len by simp
qed

end

section \<open>Parsing\<close>

definition token :: "string \<Rightarrow> bool" where
  "token t \<longleftrightarrow> t \<noteq> [] \<and> (\<forall>c \<in> set t. \<not> is_space c \<and> c \<noteq> NUL)"

lemma space_is_space [simp]: "is_space CHR '' ''"
  by (simp add: is_space_def)

lemma scan_s_skip: "scan_s n (CHR '' '' # s) = scan_s n s"
  by (simp add: scan_s_def skip_space_def)

lemma parse_tokens:
  assumes "token m" "length m \<le> 7" and "token p" "length p \<le> 63"
  shows "parse_request (m @ '' '' @ p @ '' '' @ rest) = Some (m, p)"
proof -
  have "scan_s 7 (m @ '' '' @ p @ '' '' @ rest) = Some (m, '' '' @ p @ '' '' @ rest)"
    using assms(1,2) by (intro scan_s_word) (auto simp: token_def)
  moreover have "scan_s 63 (p @ '' '' @ rest) = Some (p, '' '' @ rest)"
    using assms(3,4) by (intro scan_s_word) (auto simp: token_def)
  ultimately show ?thesis by (simp add: parse_request_def scan_s_skip)
qed

lemma target_path_short: "token p \<Longrightarrow> length p \<le> 63 \<Longrightarrow> target_path p = (if p = ''/'' then ''/index.html'' else p)"
  using c_str_strncpy [of p 63 "replicate 64 NUL"]
  by (auto simp: target_path_def strcmp_eq_def token_def)

lemma static_lookup: "handle_static_file_serve fs p = map_of fs p"
  by (induction fs p rule: handle_static_file_serve.induct) (auto simp: strcmp_eq_def)

lemma strncmp_prefix: "length b = n \<Longrightarrow> strncmp_eq a b n = is_prefix b a"
  by (auto simp: strncmp_eq_prefix is_prefix_iff)

lemma strncmp_literals:
  "strncmp_eq a ''/api/sensor'' 11 = is_prefix ''/api/sensor'' a"
  "strncmp_eq a ''/api/control'' 12 = is_prefix ''/api/control'' a"
  "strncmp_eq a ''GET'' 3 = is_prefix ''GET'' a"
  "strncmp_eq a ''POST'' 4 = is_prefix ''POST'' a"
  "strncmp_eq a ''OPTIONS'' 7 = is_prefix ''OPTIONS'' a"
  by (rule strncmp_prefix; simp)+

text \<open>The longer of the two patterns that are searched for contains the shorter one.\<close>

lemma control_flag:
  "g_web_control_active (snd (handle_control_post rx s)) =
     (if strstr rx (quoted ''on'') then 1 else if strstr rx (quoted ''off'') then 0 else g_web_control_active s)"
  using strstr_extend [of rx "'':''" "quoted ''on''"] strstr_extend [of rx "'':''" "quoted ''off''"]
  by (auto simp: handle_control_post_def)

lemma control_keeps_data: "g_sensor_data (snd (handle_control_post rx s)) = g_sensor_data s"
  by (auto simp: handle_control_post_def)

text \<open>A sample command.\<close>

definition post_on :: string where
  "post_on = ''POST /api/control HTTP/1.1'' @ crlf @ crlf @ ''{'' @ quoted ''command'' @ '':'' @ quoted ''on'' @ ''}''"

lemma post_on_facts:
  "c_str (post_on @ [NUL]) = post_on"
  "parse_request post_on = Some (''POST'', ''/api/control'')"
  "strstr post_on (quoted ''on'')"
proof -
  show "c_str (post_on @ [NUL]) = post_on"
    by (rule c_str_append_NUL) (simp add: post_on_def crlf_def quoted_def NUL_def CR_def LF_def QUOTE_def)
  have t: "token ''POST''" "token ''/api/control''" by (simp_all add: token_def is_space_def NUL_def)
  show "parse_request post_on = Some (''POST'', ''/api/control'')"
    using parse_tokens [OF t(1) _ t(2), of "''HTTP/1.1'' @ crlf @ crlf @ ''{'' @ quoted ''command'' @ '':'' @ quoted ''on'' @ ''}''"]
    by (simp add: post_on_def)
  show "strstr post_on (quoted ''on'')"
    unfolding strstr_iff post_on_def
    by (rule exI [of _ "''POST /api/control HTTP/1.1'' @ crlf @ crlf @ ''{'' @ quoted ''command'' @ '':''"]) simp
qed

section \<open>Properties\<close>

text \<open>
  The snapshot is always servable. An update of the sensor data that gets the mutex stores
  the two values and the text of the clock, exactly for two-digit fields and cut to 23
  characters otherwise; one that does not get it changes nothing. Either way the timestamp
  buffer keeps its 24 bytes and its terminator.
\<close>

theorem snapshot_update:
  assumes "sensor_ok (g_sensor_data s)" and "\<bar>float_whole a\<bar> < 2 ^ 31" and "\<bar>float_whole b\<bar> < 2 ^ 31"
    and "s' = WebService_UpdateSensorData taken t a b s"
  shows "sensor_ok (g_sensor_data s') \<and> g_web_control_active s' = g_web_control_active s \<and>
    (\<not> taken \<longrightarrow> s' = s) \<and>
    (taken \<longrightarrow> temp (g_sensor_data s') = a \<and> pressure (g_sensor_data s') = b \<and>
       c_str (ts_buf (g_sensor_data s')) = take 23 (timestamp_text t) \<and>
       (valid_time t \<longrightarrow> c_str (ts_buf (g_sensor_data s')) = timestamp_text t))"
proof -
  have l: "length (ts_buf (g_sensor_data s)) = 24" using assms(1) by (simp add: sensor_ok_def)
  have "valid_time t \<Longrightarrow> take 23 (timestamp_text t) = timestamp_text t"
    using timestamp_valid_length [of t] by simp
  with update_timestamp [OF l, of t a b] sensor_ok_update [OF assms(1-3), of taken t] show ?thesis
    unfolding assms(4) by (cases taken) (auto simp: WebService_UpdateSensorData_def)
qed

theorem snapshot_update_witness:
  "c_str (ts_buf (g_sensor_data (WebService_UpdateSensorData True noon 21 1013 web_boot))) = timestamp_text noon"
proof -
  have "valid_time noon" by (simp add: valid_time_def noon_def)
  moreover have "sensor_ok (g_sensor_data web_boot)" by (simp add: web_boot_def sensor_ok_zero)
  moreover have "\<bar>float_whole 21\<bar> < 2 ^ 31" "\<bar>float_whole 1013\<bar> < 2 ^ 31"
    by (simp_all add: float_whole_def trunc_rat_def)
  ultimately show ?thesis using snapshot_update [OF _ _ _ refl, of web_boot 21 1013 True noon] by blast
qed

text \<open>
  C39: A sensor request is answered with the complete document. For every snapshot whose values
  fit an \<^verbatim>\<open>int\<close>, whatever the rounding and whatever the stack buffers held, the response to
  \<^verbatim>\<open>GET /api/sensor\<close> is a 200 header whose Content-Length is the length of the body, followed by
  the whole JSON body; it is at most 215 characters, so \<^verbatim>\<open>send\<close> stays inside the 384-byte buffer.
\<close>

theorem sensor_request_complete:
  assumes "rounding fl" and "sensor_ok (g_sensor_data s)" and "length body_buf = 128" and "length tx_buf = HTTP_TX_BUF_SIZE"
    and "parse_request rx = Some (''GET'', ''/api/sensor'')"
    and json: "json = json_text fl (if taken then g_sensor_data s else zero_sensor_data)"
  shows "http_route fl fs body_buf tx_buf taken rx s = (json_header (int (length json)) @ json, s) \<and>
    length (json_header (int (length json)) @ json) \<le> 215 \<and>
    snd (send_sensor_json fl body_buf tx_buf taken s) \<le> HTTP_TX_BUF_SIZE"
proof -
  obtain buf n where send: "send_sensor_json fl body_buf tx_buf taken s = (buf, n)"
    by (cases "send_sensor_json fl body_buf tx_buf taken s")
  note R = rounding.sensor_response [OF assms(1-4) send]
  have "http_route fl fs body_buf tx_buf taken rx s = (take n buf, s)"
    using assms(5) send by (simp add: http_route_def strncmp_eq_def)
  moreover have "length (take n buf) \<le> 215"
    unfolding length_take using R by (intro min.coboundedI2) blast
  ultimately show ?thesis using R send by (simp add: json HTTP_TX_BUF_SIZE_def)
qed

theorem sensor_request_complete_witness:
  "fst (http_route fl32 [] (replicate 128 NUL) (replicate 384 NUL) False ''GET /api/sensor HTTP/1.1'' web_boot) =
     json_header (int (length (json_text fl32 zero_sensor_data))) @ json_text fl32 zero_sensor_data"
proof -
  have "token ''GET''" "token ''/api/sensor''"
    by (simp_all add: token_def is_space_def NUL_def)
  from parse_tokens [OF this(1) _ this(2), of "''HTTP/1.1''"]
  have p: "parse_request ''GET /api/sensor HTTP/1.1'' = Some (''GET'', ''/api/sensor'')" by simp
  have ok: "sensor_ok (g_sensor_data web_boot)" by (simp add: web_boot_def sensor_ok_zero)
  from sensor_request_complete [OF fl32.rounding_axioms ok _ _ p, where body_buf = "replicate 128 NUL"
      and tx_buf = "replicate 384 NUL" and taken = False and fs = "[]"]
  show ?thesis by (simp add: HTTP_TX_BUF_SIZE_def)
qed

text \<open>
  Requests are dispatched by method and path. For a request line of a method of at most 7
  and a path of at most 63 characters: a path that starts with \<^verbatim>\<open>/api/sensor\<close> gives the sensor
  document for a method starting with GET and 405 otherwise; one that starts with
  \<^verbatim>\<open>/api/control\<close> gives the command, the CORS preflight or 405; any other path gives the first
  static file of that name (the index for \<^verbatim>\<open>/\<close>) or 404.
\<close>

theorem http_dispatch:
  assumes "token m" "length m \<le> 7" and "token p" "length p \<le> 63" and "rx = m @ '' '' @ p @ '' '' @ rest"
  shows "http_route fl fs body_buf tx_buf taken rx s =
    (if is_prefix ''/api/sensor'' p
     then if is_prefix ''GET'' m
          then (case send_sensor_json fl body_buf tx_buf taken s of (buf, n) \<Rightarrow> (take n buf, s)) else (resp_405, s)
     else if is_prefix ''/api/control'' p
     then if is_prefix ''POST'' m then handle_control_post rx s
          else if m = ''OPTIONS'' then (resp_preflight, s) else (resp_405, s)
     else (case map_of fs (if p = ''/'' then ''/index.html'' else p) of Some f \<Rightarrow> (f, s) | None \<Rightarrow> (resp_404, s)))"
proof -
  have "is_prefix ''OPTIONS'' m \<longleftrightarrow> m = ''OPTIONS''"
    using assms(2) by (auto simp: is_prefix_iff)
  with parse_tokens [OF assms(1-4), of rest] show ?thesis
    by (simp add: http_route_def strncmp_literals assms(5) target_path_short [OF assms(3,4)] static_lookup)
qed

theorem http_dispatch_witness:
  "http_route fl32 [(''/index.html'', ''page'')] [] [] True ''GET / HTTP/1.1'' web_boot = (''page'', web_boot)"
proof -
  have "token ''GET''" "token ''/''" by (simp_all add: token_def is_space_def NUL_def)
  from http_dispatch [OF this(1) _ this(2), of "''GET / HTTP/1.1''" "''HTTP/1.1''" fl32 "[(''/index.html'', ''page'')]" "[]" "[]" True web_boot]
  show ?thesis by simp
qed

text \<open>
  Only the control command changes the control flag, and no request changes the sensor data.
  A POST to \<^verbatim>\<open>/api/control\<close> sets the flag when \<^verbatim>\<open>"on"\<close> occurs anywhere in the request, clears it
  when only \<^verbatim>\<open>"off"\<close> occurs, and leaves it otherwise; every other pass of the task leaves it.
\<close>

theorem control_flag_changes:
  assumes "http_handler_pass fl fs body_buf tx_buf tid notified taken acc (s, m) = (resp, conn_closed, s', m')"
  shows "g_sensor_data s' = g_sensor_data s \<and>
    (g_web_control_active s' =
      (case acc of
         Accepted (Some rx) \<Rightarrow>
           (case parse_request (c_str (rx @ [NUL])) of
              Some (method, path) \<Rightarrow>
                if is_prefix ''/api/control'' path \<and> is_prefix ''POST'' method
                then if strstr (c_str (rx @ [NUL])) (quoted ''on'') then 1
                     else if strstr (c_str (rx @ [NUL])) (quoted ''off'') then 0 else g_web_control_active s
                else g_web_control_active s
            | None \<Rightarrow> g_web_control_active s)
       | _ \<Rightarrow> g_web_control_active s))"
proof -
  have disjoint: "\<not> (is_prefix ''/api/sensor'' p \<and> is_prefix ''/api/control'' p)" for p
    by (auto simp: is_prefix_iff)
  show ?thesis
  proof (cases "\<exists>rx mth pth. acc = Accepted (Some rx) \<and> parse_request (c_str (rx @ [NUL])) = Some (mth, pth)")
    case True
    then obtain rx mth pth where acc: "acc = Accepted (Some rx)"
      and p: "parse_request (c_str (rx @ [NUL])) = Some (mth, pth)" by blast
    have s': "s' = snd (http_route fl fs body_buf tx_buf taken (c_str (rx @ [NUL])) s)"
      using assms by (auto simp: http_handler_pass_def acc split: prod.splits)
    have "s' = (if is_prefix ''/api/control'' pth \<and> is_prefix ''POST'' mth
        then snd (handle_control_post (c_str (rx @ [NUL])) s) else s)"
      using disjoint [of pth]
      by (simp add: s' http_route_def p strncmp_literals split: prod.splits option.splits)
    then show ?thesis
      using control_flag control_keeps_data by (simp add: acc p)
  next
    case False
    have "snd (http_route fl fs body_buf tx_buf taken rx s) = s" if "parse_request rx = None" for rx
      by (simp add: http_route_def that)
    with False assms have "s' = s"
      by (fastforce simp: http_handler_pass_def Let_def split: accept_result.splits option.splits prod.splits)
    with False show ?thesis
      by (auto split: accept_result.splits option.splits)
  qed
qed

theorem control_flag_changes_witness:
  "g_web_control_active (fst (snd (snd (http_handler_pass fl32 [] [] [] 5 True True (Accepted (Some post_on)) (web_boot, hms_boot))))) = 1"
proof -
  obtain resp conn_closed s' m' where r: "http_handler_pass fl32 [] [] [] 5 True True (Accepted (Some post_on)) (web_boot, hms_boot) = (resp, conn_closed, s', m')"
    by (metis prod.collapse)
  from control_flag_changes [OF r] post_on_facts r show ?thesis by simp
qed

section \<open>How a reading is written\<close>

text \<open>
  A number cut to tenths and its text with one decimal. The code writes the whole part and the first
  decimal apart, and takes the sign from the whole part: with exact arithmetic this is the text of the number cut to
  tenths, except that a number strictly between -1 and 0 appears without its sign.
\<close>

definition tenths :: "rat \<Rightarrow> int" where "tenths x = trunc_rat (10 * x)"

definition decimal_text :: "int \<Rightarrow> string" where
  "decimal_text n = (if n < 0 then ''-'' else []) @ fmt_d (\<bar>n\<bar> div 10) @ ''.'' @ fmt_d (\<bar>n\<bar> mod 10)"

definition sign_kept :: "rat \<Rightarrow> bool" where "sign_kept x \<longleftrightarrow> x \<le> - 1 \<or> 0 \<le> x"

lemma floor_tenths:
  fixes y :: rat
  shows "\<lfloor>10 * y\<rfloor> div 10 = \<lfloor>y\<rfloor>" and "\<lfloor>10 * y\<rfloor> mod 10 = \<lfloor>10 * (y - of_int \<lfloor>y\<rfloor>)\<rfloor>"
proof -
  define d where "d = y - of_int \<lfloor>y\<rfloor>"
  have d: "0 \<le> d" "d < 1" unfolding d_def by linarith+
  have "10 * y = of_int (10 * \<lfloor>y\<rfloor>) + 10 * d" by (simp add: d_def)
  then have f: "\<lfloor>10 * y\<rfloor> = 10 * \<lfloor>y\<rfloor> + \<lfloor>10 * d\<rfloor>" by (simp only: floor_add_int [symmetric] add.commute)
  have r: "0 \<le> \<lfloor>10 * d\<rfloor>" "\<lfloor>10 * d\<rfloor> < 10" using d by (simp_all add: floor_less_iff)
  then show "\<lfloor>10 * y\<rfloor> div 10 = \<lfloor>y\<rfloor>" and "\<lfloor>10 * y\<rfloor> mod 10 = \<lfloor>10 * (y - of_int \<lfloor>y\<rfloor>)\<rfloor>"
    by (simp_all add: f d_def [symmetric])
qed

lemma trunc_rat_minus: "trunc_rat (- y) = - trunc_rat y"
  by (auto simp: trunc_rat_def)

lemma float_frac_minus: "float_frac (\<lambda>r. r) (- x) = float_frac (\<lambda>r. r) x"
proof -
  have a: "float_frac (\<lambda>r. r) z = \<bar>trunc_rat ((z - of_int (trunc_rat z)) * 10)\<bar>" for z
    unfolding float_frac_def float_whole_def fmul_def fsub_def Let_def abs_if by (rule refl)
  have "(- x - of_int (trunc_rat (- x))) * 10 = - ((x - of_int (trunc_rat x)) * 10)"
    unfolding trunc_rat_minus by simp
  then show ?thesis unfolding a by (simp only: trunc_rat_minus abs_minus_cancel)
qed

lemma nonneg_number_text:
  assumes "0 \<le> y"
  shows "fmt_d (float_whole y) @ ''.'' @ fmt_d (float_frac (\<lambda>r. r) y) = decimal_text (tenths y)"
proof -
  have t: "tenths y = \<lfloor>10 * y\<rfloor>" "float_whole y = \<lfloor>y\<rfloor>" using assms by (simp_all add: tenths_def float_whole_def trunc_rat_def)
  have "0 \<le> (y - of_int \<lfloor>y\<rfloor>) * 10" by simp
  then have "trunc_rat ((y - of_int \<lfloor>y\<rfloor>) * 10) = \<lfloor>10 * (y - of_int \<lfloor>y\<rfloor>)\<rfloor>" "0 \<le> trunc_rat ((y - of_int \<lfloor>y\<rfloor>) * 10)"
    unfolding trunc_rat_def by (simp_all only: if_True zero_le_floor mult.commute)
  then have "float_frac (\<lambda>r. r) y = \<lfloor>10 * (y - of_int \<lfloor>y\<rfloor>)\<rfloor>"
    unfolding float_frac_def t(2) fmul_def fsub_def Let_def by (simp only: not_less [symmetric] if_False)
  moreover have "0 \<le> \<lfloor>10 * y\<rfloor>" using assms by simp
  ultimately show ?thesis by (simp add: decimal_text_def t floor_tenths)
qed

lemma number_text:
  "fmt_d (float_whole x) @ ''.'' @ fmt_d (float_frac (\<lambda>r. r) x) = decimal_text (tenths (if sign_kept x then x else - x))"
proof (cases "0 \<le> x")
  case True
  then show ?thesis using nonneg_number_text by (simp add: sign_kept_def)
next
  case False
  define y where "y = - x"
  then have y: "x = - y" "0 \<le> y" "y \<noteq> 0" using False by simp_all
  have fr: "float_frac (\<lambda>r. r) x = float_frac (\<lambda>r. r) y" unfolding y(1) by (rule float_frac_minus)
  have wh: "float_whole x = - float_whole y" unfolding y(1) float_whole_def by (rule trunc_rat_minus)
  have w: "float_whole y = \<lfloor>y\<rfloor>" using y(2) by (simp add: float_whole_def trunc_rat_def)
  show ?thesis
  proof (cases "y < 1")
    case True
    then have "float_whole y = 0" using y(2) unfolding w by (simp add: floor_eq_iff)
    moreover have "\<not> sign_kept x" using True y by (simp add: sign_kept_def)
    ultimately show ?thesis using nonneg_number_text [OF y(2)] fr wh by (simp add: y_def)
  next
    case False
    then have one: "1 \<le> float_whole y" "sign_kept x" unfolding w using y(1) by (simp_all add: sign_kept_def le_floor_iff)
    have t: "tenths x = - tenths y" unfolding y(1) tenths_def by (simp only: mult_minus_right trunc_rat_minus)
    have "1 \<le> tenths y" using False y(2) by (simp add: tenths_def trunc_rat_def le_floor_iff)
    then have "decimal_text (tenths x) = ''-'' @ decimal_text (tenths y)" unfolding t by (simp add: decimal_text_def)
    moreover have "fmt_d (float_whole x) = ''-'' @ fmt_d (float_whole y)" unfolding wh using one(1) by (simp add: fmt_d_def)
    ultimately show ?thesis using nonneg_number_text [OF y(2)] fr one(2) by simp
  qed
qed

text \<open>
  The sign of a small negative temperature is lost. With exact arithmetic, every temperature
  strictly between -1 and 0 is served as the same text as its absolute value.
\<close>

theorem negative_fraction_served_positive:
  assumes "- 1 < x" and "x < 0"
  shows "json_text (\<lambda>r. r) (d\<lparr>temp := x\<rparr>) = json_text (\<lambda>r. r) (d\<lparr>temp := - x\<rparr>)"
proof -
  have "\<lfloor>- x\<rfloor> = 0" using assms by (simp add: floor_eq_iff)
  then have w: "float_whole x = 0" "float_whole (- x) = 0"
    using assms by (simp_all add: float_whole_def trunc_rat_def)
  then show ?thesis by (simp add: json_text_def float_frac_minus)
qed

theorem negative_fraction_served_positive_witness:
  "json_text (\<lambda>r. r) (zero_sensor_data\<lparr>temp := - 1/2\<rparr>) = json_text (\<lambda>r. r) (zero_sensor_data\<lparr>temp := 1/2\<rparr>)"
  using negative_fraction_served_positive [of "- 1/2" zero_sensor_data] by simp

end
