(* ===== verification/EthService.thy ===== *)
theory EthService
  imports HealthMonitor
begin

text \<open>
  The TCP echo server \<^verbatim>\<open>services/ethrnet_service/ethrnet_service.c\<close>: bringing up the link, opening the
  listening socket, and the accept and echo loops. What the socket calls return is given as a
  sequence of events; the task's effects are what it sends, which connections it closes and its
  check-ins.
\<close>

section \<open>Bringing up the link\<close>

text \<open>
  The loop of \<^verbatim>\<open>stack_init\<close>: one check-in for each poll of the link that is not yet up. The
  argument lists the results of \<^verbatim>\<open>ethernetif_wait_linkup\<close>; \<open>None\<close> means the list ended before
  the link was up.
\<close>

fun stack_init_wait :: "u8 \<Rightarrow> bool list \<Rightarrow> hms \<Rightarrow> (bool list \<times> hms) option" where
  "stack_init_wait tid [] m = None"
| "stack_init_wait tid (up # polls) m =
     (if up then Some (polls, m) else stack_init_wait tid polls (Reset_HeltMonit_service tid m))"

text \<open>Creating the listening socket: the calls made, given whether each of them succeeds.\<close>

datatype socket_call = Sock_Socket | Sock_Timeout | Sock_Bind nat | Sock_Listen nat | Sock_Close | Task_Delete

definition TCP_SERVER_PORT :: nat where "TCP_SERVER_PORT = 5000"
definition TCP_RX_BUFFER_SIZE :: nat where "TCP_RX_BUFFER_SIZE = 256"

definition tcp_server_open :: "bool \<Rightarrow> bool \<Rightarrow> bool \<Rightarrow> socket_call list \<times> bool" where
  "tcp_server_open socket_ok bind_ok listen_ok =
     (if \<not> socket_ok then ([Sock_Socket, Task_Delete], False)
      else if \<not> bind_ok
      then ([Sock_Socket, Sock_Timeout, Sock_Bind TCP_SERVER_PORT, Sock_Close, Task_Delete], False)
      else if \<not> listen_ok
      then ([Sock_Socket, Sock_Timeout, Sock_Bind TCP_SERVER_PORT, Sock_Listen 1, Sock_Close, Task_Delete], False)
      else ([Sock_Socket, Sock_Timeout, Sock_Bind TCP_SERVER_PORT, Sock_Listen 1], True))"

section \<open>The echo loop\<close>

datatype recv_result = Recv_Data "char list" | Recv_Closed | Recv_Timeout | Recv_Error

datatype tcp_event = Echo "char list" | Conn_Closed

text \<open>
  The inner loop, on the events of one connection: whether the monitor has notified the task, and
  what \<^verbatim>\<open>recv\<close> returns. The result is what was sent, and the events left when the connection was
  closed, if it was.
\<close>

fun tcp_session :: "u8 \<Rightarrow> (bool \<times> recv_result) list \<Rightarrow> hms \<Rightarrow> tcp_event list \<times> (bool \<times> recv_result) list \<times> hms" where
  "tcp_session tid [] m = ([], [], m)"
| "tcp_session tid ((notified, r) # es) m =
     (let m = (if notified then Reset_HeltMonit_service tid m else m) in
      case r of
        Recv_Data d \<Rightarrow> (case tcp_session tid es m of (out, rest, m') \<Rightarrow> (Echo d # out, rest, m'))
      | Recv_Timeout \<Rightarrow> tcp_session tid es m
      | Recv_Closed \<Rightarrow> ([Conn_Closed], es, m)
      | Recv_Error \<Rightarrow> ([Conn_Closed], es, m))"

text \<open>One pass of the outer loop: \<open>None\<close> is an \<^verbatim>\<open>accept\<close> that timed out or failed.\<close>

definition tcp_server_pass :: "u8 \<Rightarrow> bool \<Rightarrow> (bool \<times> recv_result) list option \<Rightarrow> hms \<Rightarrow> tcp_event list \<times> hms" where
  "tcp_server_pass tid notified acc m =
     (let m = (if notified then Reset_HeltMonit_service tid m else m) in
      case acc of None \<Rightarrow> ([], m)
      | Some es \<Rightarrow> (case tcp_session tid es m of (out, _, m') \<Rightarrow> (out, m')))"

definition Init_ETH_service :: "nat \<Rightarrow> hms \<Rightarrow> (u8 \<times> hms) option" where
  "Init_ETH_service h m = Registor_service ''tcp_server'' 1000 True (Some h) m"

section \<open>Properties\<close>

definition ends_session :: "recv_result \<Rightarrow> bool" where
  "ends_session r \<longleftrightarrow> r = Recv_Closed \<or> r = Recv_Error"

definition received :: "(bool \<times> recv_result) list \<Rightarrow> char list list" where
  "received es = List.map_filter (\<lambda>e. case snd e of Recv_Data d \<Rightarrow> Some d | _ \<Rightarrow> None)
     (takeWhile (\<lambda>e. \<not> ends_session (snd e)) es)"

definition ended :: "(bool \<times> recv_result) list \<Rightarrow> bool" where
  "ended es \<longleftrightarrow> (\<exists>e \<in> set es. ends_session (snd e))"

lemma received_Cons:
  "received [] = []"
  "received ((n, r) # es) = (case r of Recv_Data d \<Rightarrow> d # received es | Recv_Timeout \<Rightarrow> received es | _ \<Rightarrow> [])"
  by (simp_all add: received_def ends_session_def List.map_filter_simps split: recv_result.splits)

lemma ended_Cons: "\<not> ended []" "ended ((n, r) # es) = (ends_session r \<or> ended es)"
  by (simp_all add: ended_def)

lemma session_echo:
  "tcp_session tid es m = (out, rest, m') \<Longrightarrow>
   out = map Echo (received es) @ (if ended es then [Conn_Closed] else [])"
proof (induction tid es m arbitrary: out rest m' rule: tcp_session.induct)
  case (2 tid notified r es m)
  then show ?case
    by (cases r) (auto simp: received_Cons ended_Cons ends_session_def Let_def split: prod.splits)
qed (simp add: received_Cons ended_Cons)

lemma session_checkins:
  "tcp_session tid es m = (out, rest, m') \<Longrightarrow>
   m' = fold (\<lambda>e m. if fst e then Reset_HeltMonit_service tid m else m)
          (take (length es - length rest) es) m \<and> length rest \<le> length es"
proof (induction tid es m arbitrary: out rest m' rule: tcp_session.induct)
  case (2 tid notified r es m)
  let ?m = "if notified then Reset_HeltMonit_service tid m else m"
  show ?case
  proof (cases "ends_session r")
    case True
    with 2(3) show ?thesis by (cases r) (auto simp: ends_session_def Let_def)
  next
    case False
    with 2(3) obtain out' where "tcp_session tid es ?m = (out', rest, m')"
      by (cases r) (auto simp: ends_session_def Let_def split: prod.splits)
    moreover have "tcp_session tid es ?m = (o', r', n') \<Longrightarrow>
      n' = fold (\<lambda>e m. if fst e then Reset_HeltMonit_service tid m else m) (take (length es - length r') es) ?m \<and>
      length r' \<le> length es" for o' r' n'
      using False 2(1,2) by (cases r) (auto simp: ends_session_def)
    ultimately show ?thesis by (auto simp: Suc_diff_le)
  qed
qed simp

text \<open>
  The echo server returns what it receives. For every sequence of socket results, the task
  sends back exactly the blocks received before the connection ends, each once and in order,
  closes the connection once if it ends, and checks in for every notification it saw.
\<close>

theorem tcp_server_echoes:
  assumes "tcp_session tid es m = (out, rest, m')"
  shows "out = map Echo (received es) @ (if ended es then [Conn_Closed] else []) \<and>
    m' = fold (\<lambda>e m. if fst e then Reset_HeltMonit_service tid m else m)
           (take (length es - length rest) es) m"
  using session_echo [OF assms] session_checkins [OF assms] by simp

theorem tcp_server_echoes_witness:
  "fst (tcp_session 2 [(True, Recv_Data ''ab''), (False, Recv_Timeout), (False, Recv_Data ''c''), (True, Recv_Closed)] hms_boot)
     = [Echo ''ab'', Echo ''c'', Conn_Closed]"
proof -
  let ?es = "[(True, Recv_Data ''ab''), (False, Recv_Timeout), (False, Recv_Data ''c''), (True, Recv_Closed)]"
  obtain out rest m' where r: "tcp_session 2 ?es hms_boot = (out, rest, m')" by (cases "tcp_session 2 ?es hms_boot")
  have "out = [Echo ''ab'', Echo ''c'', Conn_Closed]"
    using conjunct1 [OF tcp_server_echoes [OF r]] by (simp add: received_Cons ended_Cons ends_session_def)
  then show ?thesis unfolding r by simp
qed

end
