(* ===== verification/Application.thy ===== *)
theory Application
  imports Bmp280 DataLogger EthService Indicators WebService
begin

text \<open>
  The tasks that tie the services together: the sensor task of
  \<^verbatim>\<open>services/Analog_service/Analog_service.c\<close>, the application task of \<^verbatim>\<open>app/MainApp/MainApp.c\<close>, and
  the start-up sequence of \<^verbatim>\<open>main\<close>.
\<close>

section \<open>Sensor task\<close>

text \<open>The globals of the service: the sensor handle, the two readings and the time.\<close>

record analog =
  a_sensor :: bmp280_handle_t
  a_temp :: rat
  a_pressure :: rat
  a_time :: rtc_time_t

definition HMS_TIMEOUT_ANALOG_RTC_MS :: u32 where "HMS_TIMEOUT_ANALOG_RTC_MS = 300"

text \<open>
  One pass: check in, read the sensor, read the clock. The results of the two reads are not
  looked at; a failed read leaves the old values. \<open>raw\<close> is the local buffer of the clock driver.
\<close>

definition Analog_TASK_pass ::
    "(rat \<Rightarrow> rat) \<Rightarrow> 'w i2c_transfer \<Rightarrow> ('w \<Rightarrow> 'w) \<Rightarrow> u8 list \<Rightarrow> u8 \<Rightarrow> bool \<Rightarrow>
     analog \<times> 'w \<times> hms \<Rightarrow> analog \<times> 'w \<times> hms" where
  "Analog_TASK_pass fl xfer wait raw tid notified = (\<lambda>(a, w, m).
     let m = (if notified then Reset_HeltMonit_service tid m else m) in
     case BMP280_ReadTempPressure fl xfer wait (a_sensor a) (a_temp a, a_pressure a) w of (_, h, (T, p), w) \<Rightarrow>
     case DS3231_ReadTime xfer raw (a_time a) w of (_, t, w) \<Rightarrow>
       (a\<lparr>a_sensor := h, a_temp := T, a_pressure := p, a_time := t\<rparr>, w, m))"

definition Init_Analog_service ::
    "'w i2c_transfer \<Rightarrow> (u32 \<Rightarrow> 'w \<Rightarrow> 'w) \<Rightarrow> u32 \<Rightarrow> string \<Rightarrow> string \<Rightarrow> nat \<Rightarrow>
     analog \<times> i2c_driver \<times> 'w \<times> hms \<Rightarrow> (u8 \<times> analog \<times> i2c_driver \<times> 'w \<times> hms) option" where
  "Init_Analog_service xfer delay_us clk DATE TIME h = (\<lambda>(a, b, w, m).
     case BMP280_Init xfer delay_us clk (a_sensor a) (b, w) of (_, s, b, w) \<Rightarrow>
     case RTC_SetFromCompileTime xfer clk DATE TIME (b, w) of
       None \<Rightarrow> None
     | Some (_, b, w) \<Rightarrow>
         map_option (\<lambda>(tid, m'). (tid, a\<lparr>a_sensor := s\<rparr>, b, w, m'))
           (Registor_service ''Analog_TASK'' HMS_TIMEOUT_ANALOG_RTC_MS True (Some h) m))"

section \<open>Application task\<close>

text \<open>
  One pass: check in, publish the readings, drive LED 1 from the control flag. The flag is read
  twice by the code; the task that writes it has a lower priority, so both reads agree.
\<close>

definition MainApp_TASK_pass ::
    "u8 \<Rightarrow> bool \<Rightarrow> bool \<Rightarrow> analog \<Rightarrow> web_service \<times> led_service \<times> hms \<Rightarrow> web_service \<times> led_service \<times> hms" where
  "MainApp_TASK_pass tid notified taken a = (\<lambda>(s, l, m).
     let m = (if notified then Reset_HeltMonit_service tid m else m);
         s = WebService_UpdateSensorData taken (a_time a) (a_temp a) (a_pressure a) s;
         l = (if g_web_control_active s = 1 then led_service_set_solid LED_1 True l else l);
         l = (if g_web_control_active s = 0 then led_service_set_solid LED_1 False l else l)
     in (s, l, m))"

definition Init_MainApp_TASK :: "nat \<Rightarrow> hms \<Rightarrow> (u8 \<times> hms) option" where
  "Init_MainApp_TASK h m = Registor_service ''MainApp_TASK'' 300 True (Some h) m"

section \<open>Start-up\<close>

record 'w system =
  sys_analog :: analog
  sys_i2c :: i2c_driver
  sys_world :: 'w
  sys_hms :: hms
  sys_leds :: led_service
  sys_web :: web_service

text \<open>
  \<^verbatim>\<open>main\<close> from the sensor service to the web service, with the handle variables numbered in the
  order of the registrations. The result is the state when the scheduler starts and the six
  identifiers; \<open>None\<close> when a registration or a scan of the compilation date fails.
\<close>

definition main_init ::
    "(rat \<Rightarrow> rat) \<Rightarrow> 'w i2c_transfer \<Rightarrow> (u32 \<Rightarrow> 'w \<Rightarrow> 'w) \<Rightarrow> u32 \<Rightarrow> string \<Rightarrow> string \<Rightarrow> 'w system \<Rightarrow>
     (u8 list \<times> 'w system) option" where
  "main_init fl xfer delay_us clk DATE TIME s =
     Option.bind (Init_Analog_service xfer delay_us clk DATE TIME 0 (sys_analog s, sys_i2c s, sys_world s, sys_hms s))
       (\<lambda>(i0, a, b, w, m).
     Option.bind (Init_Data_Logger_service xfer delay_us clk 1 (b, w, m)) (\<lambda>(i1, b, w, m).
     Option.bind (Init_ETH_service 2 m) (\<lambda>(i2, m).
     Option.bind (Init_Indicator_Task 3 (sys_leds s, m)) (\<lambda>(i3, l, m).
     Option.bind (Init_MainApp_TASK 4 m) (\<lambda>(i4, m).
     Option.bind (WebService_Init fl (a_time a) 5 (sys_web s, m)) (\<lambda>(i5, v, m).
       Some ([i0, i1, i2, i3, i4, i5],
             \<lparr>sys_analog = a, sys_i2c = b, sys_world = w, sys_hms = m, sys_leds = l, sys_web = v\<rparr>)))))))"

section \<open>The table of services\<close>

definition services :: "hms \<Rightarrow> (u32 \<times> bool \<times> nat option) list" where
  "services m = map (\<lambda>r. (timeout_value r, restflag r, taskHandle r)) (take (unat (serviceCount m)) (HeltMonit_Reg m))"

lemma register_services:
  assumes "Registor_service name t f h m = Some (i, m')" and "hms_wf m"
  shows "services m' = services m @ [(t, f, h)] \<and> hms_wf m' \<and> i = serviceCount m \<and>
    unat (serviceCount m') = Suc (unat (serviceCount m))"
proof -
  note count = Registor_service_count [OF assms(1)]
  then have "take (unat (serviceCount m')) (HeltMonit_Reg m') =
      take (unat (serviceCount m)) (HeltMonit_Reg m) @ [HeltMonit_Reg m' ! unat (serviceCount m)]"
    using assms
    by (auto simp: Registor_service_def Let_def hms_wf_def take_Suc_conv_app_nth split: if_splits)
  moreover have "timeout_value (HeltMonit_Reg m' ! unat (serviceCount m)) = t \<and>
      restflag (HeltMonit_Reg m' ! unat (serviceCount m)) = f \<and> taskHandle (HeltMonit_Reg m' ! unat (serviceCount m)) = h"
    using assms count by (auto simp: Registor_service_def Let_def hms_wf_def split: if_splits)
  ultimately show ?thesis
    using count Registor_service_wf [OF assms] by (simp add: services_def)
qed

lemma register_succeeds:
  "unat (serviceCount m) < 10 \<Longrightarrow> \<exists>i m'. Registor_service name t f h m = Some (i, m')"
  by (simp add: Registor_service_def MAX_SERVICE_COUNT_def Let_def)

definition main_services :: "(u32 \<times> bool \<times> nat option) list" where
  "main_services = [(300, True, Some 0), (600, True, Some 1), (1000, True, Some 2), (200, True, Some 3),
     (300, True, Some 4), (1000, True, Some 5)]"

text \<open>Every initialisation registers its task and touches the table in no other way.\<close>

lemma init_registers:
  "Init_Analog_service xfer delay_us clk DATE TIME h (a, b, w, m) = Some (tid, a', b', w', m') \<Longrightarrow>
    Registor_service ''Analog_TASK'' 300 True (Some h) m = Some (tid, m')"
  "Init_Data_Logger_service xfer delay_us clk h (b, w, m) = Some (tid, b', w', m') \<Longrightarrow>
    Registor_service ''Data_Logger'' 600 True (Some h) m = Some (tid, m')"
  "Init_Indicator_Task h (l, m) = Some (tid, l', m') \<Longrightarrow>
    Registor_service ''Indicator_Task'' 200 True (Some h) m = Some (tid, m')"
  "WebService_Init fl t h (v, m) = Some (tid, v', m') \<Longrightarrow>
    Registor_service ''http_handler'' 1000 True (Some h) m = Some (tid, m')"
  by (auto simp: Init_Analog_service_def Init_Data_Logger_service_def Init_Indicator_Task_def WebService_Init_def
      Let_def HMS_TIMEOUT_ANALOG_RTC_MS_def HMS_TIMEOUT_DATA_LOGGER_MS_def HMS_TIMEOUT_INDICATOR_MS_def
      HMS_TIMEOUT_COMM_MS_def split: prod.splits option.splits)

lemma main_init_services:
  assumes "main_init fl xfer delay_us clk DATE TIME s = Some (ids, s')" and "sys_hms s = hms_boot"
  shows "services (sys_hms s') = main_services \<and> hms_wf (sys_hms s') \<and> map unat ids = [0, 1, 2, 3, 4, 5] \<and>
    unat (serviceCount (sys_hms s')) = 6"
proof -
  obtain i0 i1 i2 i3 i4 i5 m0 m1 m2 m3 m4 m5 where
    ids: "ids = [i0, i1, i2, i3, i4, i5]" and s': "sys_hms s' = m5"
    and r0: "Registor_service ''Analog_TASK'' 300 True (Some 0) hms_boot = Some (i0, m0)"
    and r1: "Registor_service ''Data_Logger'' 600 True (Some 1) m0 = Some (i1, m1)"
    and r2: "Registor_service ''tcp_server'' 1000 True (Some 2) m1 = Some (i2, m2)"
    and r3: "Registor_service ''Indicator_Task'' 200 True (Some 3) m2 = Some (i3, m3)"
    and r4: "Registor_service ''MainApp_TASK'' 300 True (Some 4) m3 = Some (i4, m4)"
    and r5: "Registor_service ''http_handler'' 1000 True (Some 5) m4 = Some (i5, m5)"
    using assms
    by (auto simp: main_init_def Init_ETH_service_def Init_MainApp_TASK_def bind_eq_Some_conv
        dest!: init_registers)
  note R0 = register_services [OF r0 hms_wf_boot]
  note R1 = register_services [OF r1 R0 [THEN conjunct2, THEN conjunct1]]
  note R2 = register_services [OF r2 R1 [THEN conjunct2, THEN conjunct1]]
  note R3 = register_services [OF r3 R2 [THEN conjunct2, THEN conjunct1]]
  note R4 = register_services [OF r4 R3 [THEN conjunct2, THEN conjunct1]]
  note R5 = register_services [OF r5 R4 [THEN conjunct2, THEN conjunct1]]
  have "services hms_boot = []" "unat (serviceCount hms_boot) = 0"
    by (simp_all add: services_def hms_boot_def)
  with R0 R1 R2 R3 R4 R5 show ?thesis by (simp add: ids s' main_services_def)
qed

lemma register_some:
  "hms_wf m \<Longrightarrow> unat (serviceCount m) < 10 \<Longrightarrow>
   \<exists>i m'. Registor_service name t f h m = Some (i, m') \<and> hms_wf m' \<and> unat (serviceCount m') = Suc (unat (serviceCount m))"
  using register_succeeds register_services by (metis (no_types, lifting))

lemma main_init_succeeds:
  assumes "compile_time DATE TIME = Some t" and "sys_hms s = hms_boot"
  shows "\<exists>ids s'. main_init fl xfer delay_us clk DATE TIME s = Some (ids, s')"
proof -
  have c: "hms_wf hms_boot" "unat (serviceCount hms_boot) = 0" by (simp_all add: hms_boot_def hms_wf_def)
  obtain st hh b w where i: "BMP280_Init xfer delay_us clk (a_sensor (sys_analog s)) (sys_i2c s, sys_world s) = (st, hh, b, w)"
    by (cases "BMP280_Init xfer delay_us clk (a_sensor (sys_analog s)) (sys_i2c s, sys_world s)")
  obtain st' b' w' where r: "RTC_SetFromCompileTime xfer clk DATE TIME (b, w) = Some (st', b', w')"
    using assms(1) by (cases "DS3231_SetTime xfer t w") (simp add: RTC_SetFromCompileTime_def)
  obtain st'' b'' w'' where e: "EEPROM_Init xfer delay_us clk (b', w') = (st'', b'', w'')"
    by (cases "EEPROM_Init xfer delay_us clk (b', w')")
  obtain i0 m0 where "Registor_service ''Analog_TASK'' 300 True (Some 0) hms_boot = Some (i0, m0)" "hms_wf m0" "unat (serviceCount m0) = 1"
    using register_some [OF c(1)] c(2) by fastforce
  moreover obtain i1 m1 where "Registor_service ''Data_Logger'' 600 True (Some 1) m0 = Some (i1, m1)" "hms_wf m1" "unat (serviceCount m1) = 2"
    using register_some [of m0] calculation by fastforce
  moreover obtain i2 m2 where "Registor_service ''tcp_server'' 1000 True (Some 2) m1 = Some (i2, m2)" "hms_wf m2" "unat (serviceCount m2) = 3"
    using register_some [of m1] calculation by fastforce
  moreover obtain i3 m3 where "Registor_service ''Indicator_Task'' 200 True (Some 3) m2 = Some (i3, m3)" "hms_wf m3" "unat (serviceCount m3) = 4"
    using register_some [of m2] calculation by fastforce
  moreover obtain i4 m4 where "Registor_service ''MainApp_TASK'' 300 True (Some 4) m3 = Some (i4, m4)" "hms_wf m4" "unat (serviceCount m4) = 5"
    using register_some [of m3] calculation by fastforce
  moreover obtain i5 m5 where "Registor_service ''http_handler'' 1000 True (Some 5) m4 = Some (i5, m5)"
    using register_some [of m4] calculation by fastforce
  ultimately show ?thesis
    using i r e assms(2)
    by (simp add: main_init_def Init_Analog_service_def Init_Data_Logger_service_def Init_ETH_service_def
        Init_Indicator_Task_def Init_MainApp_TASK_def WebService_Init_def Let_def
        HMS_TIMEOUT_ANALOG_RTC_MS_def HMS_TIMEOUT_DATA_LOGGER_MS_def HMS_TIMEOUT_INDICATOR_MS_def
        HMS_TIMEOUT_COMM_MS_def)
qed

text \<open>The table of \<^verbatim>\<open>main\<close> has a single limit that the monitor's byte can reach.\<close>

lemma main_services_limits:
  assumes "services m = main_services" and "hms_wf m" and "unat (serviceCount m) = 6"
  shows "at_most_one_short_limit m 3"
proof -
  have "256 \<le> unat (timeout_value (HeltMonit_Reg m ! i)) \<or> i = 3 \<and> 200 \<le> unat (timeout_value (HeltMonit_Reg m ! i))"
    if "i < 6" for i
  proof -
    have "map (\<lambda>r. (timeout_value r, restflag r, taskHandle r)) (take 6 (HeltMonit_Reg m)) ! i = main_services ! i"
      using assms(1,3) by (simp add: services_def)
    moreover have "i < length (take 6 (HeltMonit_Reg m))" using that assms(2) by (simp add: hms_wf_def)
    ultimately have "timeout_value (HeltMonit_Reg m ! i) = fst (main_services ! i)"
      using that by (metis (no_types, lifting) fst_conv nth_map nth_take)
    moreover have "i \<in> {0, 1, 2, 3, 4, 5}" using that by auto
    ultimately show ?thesis by (auto simp: main_services_def)
  qed
  with assms(3) show ?thesis by (simp add: at_most_one_short_limit_def)
qed

lemma set_solid_led1:
  assumes "led_wf l"
  shows "led_wf (led_service_set_solid LED_1 on l) \<and> level (led (led_service_set_solid LED_1 on l) ! 1) = on \<and>
    interval_ticks (led (led_service_set_solid LED_1 on l) ! 1) = 0 \<and>
    gpio (led_service_set_solid LED_1 on l) (0, 27) = (if on then 1 else 0)"
  using assms led_wf_ops(3) [OF assms, of LED_1 on]
  by (simp add: led_service_set_solid_def LED_1_def LED_DRIVER_NUM_LEDS_def led_driver_write_def led_pins_def led_wf_def)

end
