(* ===== verification/RtosList.thy ===== *)
theory RtosList
  imports Prelude
begin

text \<open>
  The doubly linked lists of the FreeRTOS kernel, \<^verbatim>\<open>freertos-kernel-upstream/list.c\<close>. Items live in a
  heap that maps addresses to list items; a list is its record and the address of its end
  marker, which is an item of the heap too. \<open>list_rep\<close> relates the pointers to the list of the
  items' addresses; the lemmas say what each operation does to that list, and the locale
  \<open>kernel_list\<close> is the interface the scheduler model builds on.
\<close>

section \<open>Heap\<close>

record list_item =
  xItemValue :: u32
  pxNext :: nat
  pxPrevious :: nat
  pvOwner :: nat
  pxContainer :: "nat option"

record list_t =
  uxNumberOfItems :: u32
  pxIndex :: nat
  xListEnd :: nat

record list_heap =
  items :: "nat \<Rightarrow> list_item"
  lists :: "nat \<Rightarrow> list_t"

definition portMAX_DELAY :: u32 where "portMAX_DELAY = 0xFFFFFFFF"

lemma le_portMAX_DELAY: "v \<le> portMAX_DELAY"
  using unat_u32_less [of v] by (simp add: portMAX_DELAY_def word_le_nat_alt del: unat_u32_less)

definition set_item :: "nat \<Rightarrow> (list_item \<Rightarrow> list_item) \<Rightarrow> list_heap \<Rightarrow> list_heap" where
  "set_item a f s = s\<lparr>items := (items s)(a := f (items s a))\<rparr>"

definition set_list :: "nat \<Rightarrow> (list_t \<Rightarrow> list_t) \<Rightarrow> list_heap \<Rightarrow> list_heap" where
  "set_list l f s = s\<lparr>lists := (lists s)(l := f (lists s l))\<rparr>"

section \<open>Operations\<close>

text \<open>\<open>e\<close> is the address of the embedded end marker, \<^verbatim>\<open>&(pxList->xListEnd)\<close>.\<close>

definition vListInitialise :: "nat \<Rightarrow> list_heap \<Rightarrow> list_heap" where
  "vListInitialise l s =
     (let e = xListEnd (lists s l) in
      set_list l (\<lambda>L. L\<lparr>uxNumberOfItems := 0\<rparr>)
        (set_item e (\<lambda>i. i\<lparr>xItemValue := portMAX_DELAY, pxNext := e, pxPrevious := e\<rparr>)
          (set_list l (\<lambda>L. L\<lparr>pxIndex := e\<rparr>) s)))"

definition vListInitialiseItem :: "nat \<Rightarrow> list_heap \<Rightarrow> list_heap" where
  "vListInitialiseItem n s = set_item n (\<lambda>i. i\<lparr>pxContainer := None\<rparr>) s"

definition vListInsertEnd :: "nat \<Rightarrow> nat \<Rightarrow> list_heap \<Rightarrow> list_heap" where
  "vListInsertEnd l n s =
     (let index = pxIndex (lists s l);
          s = set_item n (\<lambda>i. i\<lparr>pxNext := index\<rparr>) s;
          s = set_item n (\<lambda>i. i\<lparr>pxPrevious := pxPrevious (items s index)\<rparr>) s;
          s = set_item (pxPrevious (items s index)) (\<lambda>i. i\<lparr>pxNext := n\<rparr>) s;
          s = set_item index (\<lambda>i. i\<lparr>pxPrevious := n\<rparr>) s;
          s = set_item n (\<lambda>i. i\<lparr>pxContainer := Some l\<rparr>) s
      in set_list l (\<lambda>L. L\<lparr>uxNumberOfItems := uxNumberOfItems L + 1\<rparr>) s)"

text \<open>The loop that looks for the insertion point; \<open>None\<close> is a loop that does not end.\<close>

partial_function (option) insert_position :: "(nat \<Rightarrow> list_item) \<Rightarrow> u32 \<Rightarrow> nat \<Rightarrow> nat option" where
  "insert_position h v p =
     (if xItemValue (h (pxNext (h p))) \<le> v then insert_position h v (pxNext (h p)) else Some p)"

definition vListInsert :: "nat \<Rightarrow> nat \<Rightarrow> list_heap \<Rightarrow> list_heap option" where
  "vListInsert l n s =
     map_option (\<lambda>iterator.
        let s = set_item n (\<lambda>i. i\<lparr>pxNext := pxNext (items s iterator)\<rparr>) s;
            s = set_item (pxNext (items s n)) (\<lambda>i. i\<lparr>pxPrevious := n\<rparr>) s;
            s = set_item n (\<lambda>i. i\<lparr>pxPrevious := iterator\<rparr>) s;
            s = set_item iterator (\<lambda>i. i\<lparr>pxNext := n\<rparr>) s;
            s = set_item n (\<lambda>i. i\<lparr>pxContainer := Some l\<rparr>) s
        in set_list l (\<lambda>L. L\<lparr>uxNumberOfItems := uxNumberOfItems L + 1\<rparr>) s)
      (let v = xItemValue (items s n)
       in if v = portMAX_DELAY then Some (pxPrevious (items s (xListEnd (lists s l))))
          else insert_position (items s) v (xListEnd (lists s l)))"

text \<open>The item must be on a list: \<open>None\<close> is the null dereference of the container.\<close>

definition uxListRemove :: "nat \<Rightarrow> list_heap \<Rightarrow> (u32 \<times> list_heap) option" where
  "uxListRemove x s =
     (case pxContainer (items s x) of
        None \<Rightarrow> None
      | Some l \<Rightarrow>
          let s = set_item (pxNext (items s x)) (\<lambda>i. i\<lparr>pxPrevious := pxPrevious (items s x)\<rparr>) s;
              s = set_item (pxPrevious (items s x)) (\<lambda>i. i\<lparr>pxNext := pxNext (items s x)\<rparr>) s;
              s = (if pxIndex (lists s l) = x then set_list l (\<lambda>L. L\<lparr>pxIndex := pxPrevious (items s x)\<rparr>) s else s);
              s = set_item x (\<lambda>i. i\<lparr>pxContainer := None\<rparr>) s;
              s = set_list l (\<lambda>L. L\<lparr>uxNumberOfItems := uxNumberOfItems L - 1\<rparr>) s
          in Some (uxNumberOfItems (lists s l), s))"

section \<open>Chains\<close>

fun linked :: "(nat \<Rightarrow> list_item) \<Rightarrow> nat list \<Rightarrow> bool" where
  "linked h (a # b # r) = (pxNext (h a) = b \<and> pxPrevious (h b) = a \<and> linked h (b # r))"
| "linked h _ = True"

lemma linked_append: "linked h (us @ x # vs) \<longleftrightarrow> linked h (us @ [x]) \<and> linked h (x # vs)"
  by (induction us) (auto, (case_tac us; auto)+)

lemma linked_cong:
  "\<forall>x \<in> set (butlast r). pxNext (h' x) = pxNext (h x) \<Longrightarrow>
   \<forall>y \<in> set (tl r). pxPrevious (h' y) = pxPrevious (h y) \<Longrightarrow> linked h r \<Longrightarrow> linked h' r"
  by (induction h r rule: linked.induct) (auto split: if_splits)

text \<open>
  The pointers of list \<open>l\<close> form the ring of the end marker and the items \<open>xs\<close> in order; the
  items know their list, the count is their number, and the index points into the ring.
\<close>

definition list_rep :: "list_heap \<Rightarrow> nat \<Rightarrow> nat list \<Rightarrow> bool" where
  "list_rep s l xs \<longleftrightarrow>
     (let e = xListEnd (lists s l) in
      distinct (e # xs) \<and> linked (items s) (e # xs @ [e]) \<and>
      uxNumberOfItems (lists s l) = of_nat (length xs) \<and>
      pxIndex (lists s l) \<in> set (e # xs) \<and> xItemValue (items s e) = portMAX_DELAY \<and>
      (\<forall>x \<in> set xs. pxContainer (items s x) = Some l))"

lemma list_rep_empty: "list_rep (vListInitialise l s) l []"
  by (simp add: list_rep_def vListInitialise_def set_item_def set_list_def Let_def)

text \<open>Lists that share no item with what changed are as before.\<close>

lemma list_rep_frame:
  assumes "list_rep s l xs" and "lists s' l = lists s l"
    and "\<And>a. a = xListEnd (lists s l) \<or> a \<in> set xs \<Longrightarrow> items s' a = items s a"
  shows "list_rep s' l xs"
proof -
  have "linked (items s') (xListEnd (lists s l) # xs @ [xListEnd (lists s l)])"
    by (rule linked_cong [where h = "items s"])
      (use assms in \<open>auto simp: list_rep_def Let_def split: if_splits\<close>)
  with assms show ?thesis by (auto simp: list_rep_def Let_def)
qed

text \<open>Splicing a fresh item between the neighbours \<open>a\<close> and \<open>b\<close>.\<close>

definition spliced :: "(nat \<Rightarrow> list_item) \<Rightarrow> (nat \<Rightarrow> list_item) \<Rightarrow> nat \<Rightarrow> nat \<Rightarrow> nat \<Rightarrow> bool" where
  "spliced h h' a n b \<longleftrightarrow>
     (\<forall>x. pxNext (h' x) = (if x = a then n else if x = n then b else pxNext (h x))) \<and>
     (\<forall>x. pxPrevious (h' x) = (if x = b then n else if x = n then a else pxPrevious (h x)))"

lemma splice_linked:
  assumes "distinct (e # ps @ qs)" and "n \<notin> set (e # ps @ qs)" and "linked h (e # ps @ qs @ [e])"
    and "spliced h h' (last (e # ps)) n (hd (qs @ [e]))"
  shows "linked h' (e # ps @ n # qs @ [e])"
proof -
  obtain us a where us: "e # ps = us @ [a]" by (metis append_butlast_last_id list.distinct(1))
  obtain b vs where vs: "qs @ [e] = b # vs" by (cases "qs @ [e]") auto
  have ring: "e # ps @ qs @ [e] = us @ a # b # vs" "e # ps @ n # qs @ [e] = us @ a # n # b # vs"
    using us vs by (metis append.assoc append_Cons append_Nil)+
  have a: "last (e # ps) = a" and b: "hd (qs @ [e]) = b" using us vs by simp_all
  have parts: "linked h (us @ [a])" "linked h (b # vs)"
    using assms(3) linked_append [of h us a "b # vs"] unfolding ring by (cases vs; auto)+
  have next': "pxNext (h' x) = (if x = a then n else if x = n then b else pxNext (h x))"
    and prev': "pxPrevious (h' x) = (if x = b then n else if x = n then a else pxPrevious (h x))" for x
    using assms(4) unfolding spliced_def a b by blast+
  have "distinct (e # ps)" using assms(1) by auto
  then have "distinct (us @ [a])" "set us \<subseteq> set (e # ps)" "a \<in> set (e # ps)"
    unfolding us by auto
  then have us_ne: "\<forall>x \<in> set us. x \<noteq> a \<and> x \<noteq> n" and "a \<noteq> n"
    using assms(2) by auto
  have "b \<in> set (qs @ [e])" "set vs \<subseteq> set (qs @ [e])" unfolding vs by auto
  then have ps_ne: "\<forall>y \<in> set ps. y \<noteq> b \<and> y \<noteq> n" and "b \<noteq> n"
    using assms(1,2) by auto
  have tl_us: "set (tl (us @ [a])) = set ps" using us by (metis list.sel(3))
  have "linked h' (us @ [a])"
    by (rule linked_cong [OF _ _ parts(1)]) (use us_ne ps_ne tl_us in \<open>simp_all add: next' prev'\<close>)
  moreover have "linked h' (b # vs)"
  proof (rule linked_cong [OF _ _ parts(2)])
    have "set (butlast (b # vs)) = set qs" using vs by (metis butlast_snoc)
    moreover have "\<forall>x \<in> set qs. x \<noteq> a \<and> x \<noteq> n"
      using assms(1,2) \<open>a \<in> set (e # ps)\<close> by auto
    ultimately show "\<forall>x \<in> set (butlast (b # vs)). pxNext (h' x) = pxNext (h x)"
      by (simp add: next')
    have "\<forall>y \<in> set vs. y \<noteq> b \<and> y \<noteq> n"
      using assms(1,2) vs by (cases qs) auto
    then show "\<forall>y \<in> set (tl (b # vs)). pxPrevious (h' y) = pxPrevious (h y)"
      by (simp add: prev')
  qed
  moreover have "linked h' [a, n, b]"
    using \<open>a \<noteq> n\<close> \<open>b \<noteq> n\<close> by (simp add: next' prev')
  ultimately show ?thesis
    unfolding ring(2) using linked_append [of h' us a "n # b # vs"] by simp
qed

lemma ring_neighbours:
  assumes "linked h (e # ps @ qs @ [e])"
  shows "pxNext (h (last (e # ps))) = hd (qs @ [e])" and "pxPrevious (h (hd (qs @ [e]))) = last (e # ps)"
proof -
  obtain us a where us: "e # ps = us @ [a]" by (metis append_butlast_last_id list.distinct(1))
  obtain b vs where vs: "qs @ [e] = b # vs" by (cases "qs @ [e]") auto
  have "e # ps @ qs @ [e] = us @ a # b # vs"
    using us vs by (metis append.assoc append_Cons append_Nil)
  then have "linked h (a # b # vs)" using assms linked_append [of h us a "b # vs"] by simp
  moreover have "last (e # ps) = a" "hd (qs @ [e]) = b" using us vs by simp_all
  ultimately show "pxNext (h (last (e # ps))) = hd (qs @ [e])" "pxPrevious (h (hd (qs @ [e]))) = last (e # ps)"
    by simp_all
qed

lemma insert_position_walk:
  "linked h (p # ps @ b # rest) \<Longrightarrow> \<forall>x \<in> set ps. xItemValue (h x) \<le> v \<Longrightarrow> \<not> xItemValue (h b) \<le> v \<Longrightarrow>
   insert_position h v p = Some (last (p # ps))"
proof (induction ps arbitrary: p)
  case Nil
  then show ?case by (subst insert_position.simps) simp
next
  case (Cons q ps)
  then show ?case by (subst insert_position.simps) simp
qed

text \<open>What the two insertions leave in the heap, once the neighbours are known.\<close>

definition insert_between :: "nat \<Rightarrow> nat \<Rightarrow> nat \<Rightarrow> nat \<Rightarrow> list_heap \<Rightarrow> list_heap \<Rightarrow> bool" where
  "insert_between l a n b s s' \<longleftrightarrow>
     spliced (items s) (items s') a n b \<and>
     (\<forall>x. xItemValue (items s' x) = xItemValue (items s x) \<and> pvOwner (items s' x) = pvOwner (items s x) \<and>
          pxContainer (items s' x) = (if x = n then Some l else pxContainer (items s x))) \<and>
     lists s' = (lists s)(l := (lists s l)\<lparr>uxNumberOfItems := uxNumberOfItems (lists s l) + 1\<rparr>)"

lemma insert_between_rep:
  assumes "list_rep s l (ps @ qs)" and "n \<notin> set (xListEnd (lists s l) # ps @ qs)"
    and "insert_between l (last (xListEnd (lists s l) # ps)) n (hd (qs @ [xListEnd (lists s l)])) s s'"
  shows "list_rep s' l (ps @ n # qs)"
proof -
  define e where "e = xListEnd (lists s l)"
  have rep: "distinct (e # ps @ qs)" "linked (items s) (e # ps @ qs @ [e])"
    "uxNumberOfItems (lists s l) = of_nat (length (ps @ qs))" "pxIndex (lists s l) \<in> set (e # ps @ qs)"
    "xItemValue (items s e) = portMAX_DELAY" "\<forall>x \<in> set (ps @ qs). pxContainer (items s x) = Some l"
    using assms(1) by (simp_all add: list_rep_def Let_def e_def)
  have sp: "spliced (items s) (items s') (last (e # ps)) n (hd (qs @ [e]))"
    using assms(3) unfolding insert_between_def e_def by blast
  have n: "n \<notin> set (e # ps @ qs)" using assms(2) by (simp add: e_def)
  have "linked (items s') (e # ps @ n # qs @ [e])"
    by (rule splice_linked [OF rep(1) n rep(2) sp])
  with rep n assms(3) show ?thesis
    by (auto simp: list_rep_def Let_def insert_between_def e_def)
qed

lemma insert_between_frame:
  assumes "list_rep s l (ps @ qs)" and "list_rep s k ys" and "k \<noteq> l"
    and "set (xListEnd (lists s k) # ys) \<inter> set (n # xListEnd (lists s l) # ps @ qs) = {}"
    and "insert_between l (last (xListEnd (lists s l) # ps)) n (hd (qs @ [xListEnd (lists s l)])) s s'"
  shows "list_rep s' k ys"
proof (rule list_rep_frame [OF assms(2)])
  show "lists s' k = lists s k" using assms(3,5) by (simp add: insert_between_def)
  define e where "e = xListEnd (lists s l)"
  have "last (e # ps) \<in> set (e # ps)" "hd (qs @ [e]) \<in> set (qs @ [e])"
    by (rule last_in_set, simp) (rule hd_in_set, simp)
  then show "items s' x = items s x" if "x = xListEnd (lists s k) \<or> x \<in> set ys" for x
    using that assms(4,5)
    by (intro list_item.equality) (auto simp: insert_between_def spliced_def simp flip: e_def)
qed

lemma vListInsertEnd_between:
  assumes "n \<noteq> pxIndex (lists s l)" and "n \<noteq> pxPrevious (items s (pxIndex (lists s l)))"
  shows "insert_between l (pxPrevious (items s (pxIndex (lists s l)))) n (pxIndex (lists s l)) s (vListInsertEnd l n s)"
  using assms
  by (auto simp: insert_between_def spliced_def vListInsertEnd_def set_item_def set_list_def Let_def)

lemma vListInsert_between:
  assumes "n \<noteq> a" and "n \<noteq> pxNext (items s a)"
    and "(if xItemValue (items s n) = portMAX_DELAY then Some (pxPrevious (items s (xListEnd (lists s l))))
          else insert_position (items s) (xItemValue (items s n)) (xListEnd (lists s l))) = Some a"
  shows "\<exists>s'. vListInsert l n s = Some s' \<and> insert_between l a n (pxNext (items s a)) s s'"
  using assms
  by (auto simp: insert_between_def spliced_def vListInsert_def set_item_def set_list_def Let_def)

text \<open>Taking an item out: its neighbours are joined.\<close>

lemma unsplice_linked:
  assumes "distinct (e # ps @ x # qs)" and "linked h (e # ps @ x # qs @ [e])"
    and next': "\<And>y. pxNext (h' y) = (if y = last (e # ps) then hd (qs @ [e]) else pxNext (h y))"
    and prev': "\<And>y. pxPrevious (h' y) = (if y = hd (qs @ [e]) then last (e # ps) else pxPrevious (h y))"
  shows "linked h' (e # ps @ qs @ [e])"
proof -
  obtain us a where us: "e # ps = us @ [a]" by (metis append_butlast_last_id list.distinct(1))
  obtain b vs where vs: "qs @ [e] = b # vs" by (cases "qs @ [e]") auto
  have ring: "e # ps @ qs @ [e] = us @ a # b # vs" "e # ps @ x # qs @ [e] = us @ a # x # b # vs"
    using us vs by (metis append.assoc append_Cons append_Nil)+
  have a: "last (e # ps) = a" and b: "hd (qs @ [e]) = b" using us vs by simp_all
  have nx: "pxNext (h' y) = (if y = a then b else pxNext (h y))"
    and pv: "pxPrevious (h' y) = (if y = b then a else pxPrevious (h y))" for y
    using next' [of y] prev' [of y] unfolding a b by blast+
  have parts: "linked h (us @ [a])" "linked h (b # vs)"
    using assms(2) linked_append [of h us a "x # b # vs"] unfolding ring by simp_all
  have "distinct (e # ps)" using assms(1) by auto
  then have us_ne: "\<forall>y \<in> set us. y \<noteq> a" and a_in: "a \<in> set (e # ps)"
    unfolding us by auto
  have "b \<in> set (qs @ [e])" unfolding vs by simp
  then have ps_ne: "\<forall>y \<in> set ps. y \<noteq> b" using assms(1) by auto
  have tl_us: "set (tl (us @ [a])) = set ps" using us by (metis list.sel(3))
  have "linked h' (us @ [a])"
    by (rule linked_cong [OF _ _ parts(1)]) (use us_ne ps_ne tl_us in \<open>simp_all add: nx pv\<close>)
  moreover have "linked h' (b # vs)"
  proof (rule linked_cong [OF _ _ parts(2)])
    have "set (butlast (b # vs)) = set qs" using vs by (metis butlast_snoc)
    moreover have "\<forall>y \<in> set qs. y \<noteq> a" using assms(1) a_in by auto
    ultimately show "\<forall>y \<in> set (butlast (b # vs)). pxNext (h' y) = pxNext (h y)"
      by (simp add: nx)
    have "\<forall>y \<in> set vs. y \<noteq> b" using assms(1) vs by (cases qs) auto
    then show "\<forall>y \<in> set (tl (b # vs)). pxPrevious (h' y) = pxPrevious (h y)"
      by (simp add: pv)
  qed
  moreover have "linked h' [a, b]" by (simp add: nx pv)
  ultimately show ?thesis
    unfolding ring(1) using linked_append [of h' us a "b # vs"] by simp
qed

lemma uxListRemove_rep:
  assumes "list_rep s l (ps @ x # qs)"
  shows "\<exists>s'. uxListRemove x s = Some (of_nat (length (ps @ qs)), s') \<and> list_rep s' l (ps @ qs) \<and>
    pxContainer (items s' x) = None \<and> lists s' = (lists s)(l := lists s' l) \<and>
    (\<forall>y. y \<notin> set (xListEnd (lists s l) # ps @ x # qs) \<longrightarrow> items s' y = items s y) \<and>
    (\<forall>y. xItemValue (items s' y) = xItemValue (items s y)) \<and> xListEnd (lists s' l) = xListEnd (lists s l)"
proof -
  define e where "e = xListEnd (lists s l)"
  define a where "a = last (e # ps)"
  define b where "b = hd (qs @ [e])"
  have rep: "distinct (e # ps @ x # qs)" "linked (items s) (e # ps @ (x # qs) @ [e])"
    "uxNumberOfItems (lists s l) = of_nat (length (ps @ x # qs))" "pxIndex (lists s l) \<in> set (e # ps @ x # qs)"
    "xItemValue (items s e) = portMAX_DELAY" "\<forall>y \<in> set (ps @ x # qs). pxContainer (items s y) = Some l"
    using assms by (simp_all add: list_rep_def Let_def e_def)
  have nx: "pxPrevious (items s x) = a"
    using ring_neighbours(2) [OF rep(2)] by (simp add: a_def)
  have "linked (items s) (e # (ps @ [x]) @ qs @ [e])" using rep(2) by simp
  from ring_neighbours(1) [OF this] have xn: "pxNext (items s x) = b" by (simp add: b_def)
  have "a \<in> set (e # ps)" "b \<in> set (qs @ [e])"
    unfolding a_def b_def by (rule last_in_set, simp) (rule hd_in_set, simp)
  then have ne: "x \<noteq> a" "x \<noteq> b" "a \<in> set (e # ps @ qs)" "b \<in> set (e # ps @ qs)"
    using rep(1) by auto
  obtain r s' where run: "uxListRemove x s = Some (r, s')"
    using rep(6) by (simp add: uxListRemove_def Let_def)
  have cont: "pxContainer (items s x) = Some l" using rep(6) by simp
  have next': "pxNext (items s' y) = (if y = a then b else pxNext (items s y))"
    and prev': "pxPrevious (items s' y) = (if y = b then a else pxPrevious (items s y))"
    and val': "xItemValue (items s' y) = xItemValue (items s y)"
    and cont': "pxContainer (items s' y) = (if y = x then None else pxContainer (items s y))"
    and own': "pvOwner (items s' y) = pvOwner (items s y)"
    and lst': "lists s' = (lists s)(l := \<lparr>uxNumberOfItems = uxNumberOfItems (lists s l) - 1,
        pxIndex = (if pxIndex (lists s l) = x then a else pxIndex (lists s l)), xListEnd = e\<rparr>)"
    and r: "r = uxNumberOfItems (lists s l) - 1" for y
    using run ne(1,2) cont nx xn
    by (auto simp: uxListRemove_def Let_def set_item_def set_list_def e_def intro!: ext list_t.equality split: if_splits)
  have "linked (items s') (e # ps @ qs @ [e])"
    using rep(2) next' prev' unfolding a_def b_def
    by (intro unsplice_linked [OF rep(1), of "items s"]) simp_all
  then have rep': "list_rep s' l (ps @ qs)"
    using rep ne by (auto simp: list_rep_def Let_def lst' val' cont')
  have same: "items s' y = items s y" if "y \<notin> set (e # ps @ x # qs)" for y
  proof -
    have "y \<noteq> a" "y \<noteq> b" "y \<noteq> x" using that ne by auto
    then show ?thesis by (intro list_item.equality) (simp_all add: next' prev' val' cont' own')
  qed
  have "r = of_nat (length (ps @ qs))" using rep(3) by (simp add: r)
  with run rep' same val' cont' lst' show ?thesis by (simp add: e_def)
qed

section \<open>What an insertion does to the list\<close>

definition insert_stable :: "(nat \<Rightarrow> u32) \<Rightarrow> nat \<Rightarrow> nat list \<Rightarrow> nat list" where
  "insert_stable val n xs = takeWhile (\<lambda>x. val x \<le> val n) xs @ n # dropWhile (\<lambda>x. val x \<le> val n) xs"

lemma insert_stable_sorted: "sorted (map val xs) \<Longrightarrow> sorted (map val (insert_stable val n xs))"
proof -
  assume s: "sorted (map val xs)"
  define ps where "ps = takeWhile (\<lambda>x. val x \<le> val n) xs"
  define qs where "qs = dropWhile (\<lambda>x. val x \<le> val n) xs"
  have xs: "xs = ps @ qs" by (simp add: ps_def qs_def)
  have ps: "\<forall>x \<in> set ps. val x \<le> val n" unfolding ps_def by (auto dest: set_takeWhileD)
  have "qs \<noteq> [] \<Longrightarrow> val n < val (hd qs)"
    unfolding qs_def using hd_dropWhile [of "\<lambda>x. val x \<le> val n" xs] by (simp add: not_le)
  moreover have "sorted (map val qs)" using s by (simp add: xs sorted_append)
  ultimately have "\<forall>x \<in> set qs. val n \<le> val x"
    by (cases qs) (auto simp: less_imp_le dest: order_less_le_trans)
  with ps s show ?thesis
    unfolding insert_stable_def ps_def [symmetric] qs_def [symmetric]
    by (fastforce simp: xs sorted_append)
qed

lemma vListInsert_rep:
  assumes "list_rep s l xs" and "n \<notin> set (xListEnd (lists s l) # xs)"
  defines "ys \<equiv> insert_stable (\<lambda>x. xItemValue (items s x)) n xs"
  shows "\<exists>s'. vListInsert l n s = Some s' \<and> list_rep s' l ys \<and>
    (\<forall>x. xItemValue (items s' x) = xItemValue (items s x)) \<and> xListEnd (lists s' l) = xListEnd (lists s l) \<and>
    (\<forall>k zs. k \<noteq> l \<longrightarrow> list_rep s k zs \<longrightarrow>
       set (xListEnd (lists s k) # zs) \<inter> set (n # xListEnd (lists s l) # xs) = {} \<longrightarrow> list_rep s' k zs)"
proof -
  define e where "e = xListEnd (lists s l)"
  define v where "v = xItemValue (items s n)"
  define ps where "ps = takeWhile (\<lambda>x. xItemValue (items s x) \<le> v) xs"
  define qs where "qs = dropWhile (\<lambda>x. xItemValue (items s x) \<le> v) xs"
  have xs: "xs = ps @ qs" by (simp add: ps_def qs_def)
  have ys: "ys = ps @ n # qs" by (simp add: ys_def insert_stable_def ps_def qs_def v_def)
  have rep: "linked (items s) (e # ps @ qs @ [e])" "xItemValue (items s e) = portMAX_DELAY"
    using assms(1) by (simp_all add: list_rep_def Let_def e_def xs)
  note N = ring_neighbours [OF rep(1)]
  have iterator: "(if v = portMAX_DELAY then Some (pxPrevious (items s e)) else insert_position (items s) v e)
      = Some (last (e # ps))"
  proof (cases "v = portMAX_DELAY")
    case True
    then have "qs = []" by (simp add: qs_def dropWhile_eq_Nil_conv le_portMAX_DELAY)
    with True N(2) show ?thesis by simp
  next
    case False
    obtain b rest where b: "qs @ [e] = b # rest" by (cases "qs @ [e]") auto
    have "v < portMAX_DELAY"
      using False le_portMAX_DELAY [of v] by (simp add: less_le)
    then have "\<not> xItemValue (items s b) \<le> v"
      using b rep(2) hd_dropWhile [of "\<lambda>x. xItemValue (items s x) \<le> v" xs]
      by (cases qs) (auto simp flip: qs_def)
    moreover have "\<forall>x \<in> set ps. xItemValue (items s x) \<le> v"
      unfolding ps_def by (auto dest: set_takeWhileD)
    moreover have "linked (items s) (e # ps @ b # rest)" using rep(1) b by simp
    ultimately have "insert_position (items s) v e = Some (last (e # ps))"
      by (intro insert_position_walk)
    with False show ?thesis by simp
  qed
  have "last (e # ps) \<in> set (e # ps)" "hd (qs @ [e]) \<in> set (qs @ [e])"
    by (rule last_in_set, simp) (rule hd_in_set, simp)
  then have ne: "n \<noteq> last (e # ps)" "n \<noteq> pxNext (items s (last (e # ps)))"
    using assms(2) N(1) by (auto simp: xs simp flip: e_def)
  from vListInsert_between [OF ne [unfolded e_def] iterator [unfolded v_def e_def]] N(1)
  obtain s' where run: "vListInsert l n s = Some s'" and bt: "insert_between l (last (e # ps)) n (hd (qs @ [e])) s s'"
    by (auto simp: e_def)
  have "list_rep s' l ys"
    unfolding ys by (rule insert_between_rep) (use assms(1,2) bt in \<open>simp_all add: xs e_def\<close>)
  moreover have "list_rep s' k zs" if "k \<noteq> l" "list_rep s k zs"
    "set (xListEnd (lists s k) # zs) \<inter> set (n # xListEnd (lists s l) # xs) = {}" for k zs
    by (rule insert_between_frame [OF _ that(2,1)]) (use assms(1) that(3) bt in \<open>simp_all add: xs e_def\<close>)
  moreover have "xItemValue (items s' x) = xItemValue (items s x)" "xListEnd (lists s' l) = xListEnd (lists s l)" for x
    using bt by (simp_all add: insert_between_def)
  ultimately show ?thesis using run by blast
qed

lemma vListInsertEnd_rep:
  assumes "list_rep s l (ps @ qs)" and "n \<notin> set (xListEnd (lists s l) # ps @ qs)"
    and "pxIndex (lists s l) = hd (qs @ [xListEnd (lists s l)])"
  shows "list_rep (vListInsertEnd l n s) l (ps @ n # qs)"
proof -
  define e where "e = xListEnd (lists s l)"
  have "linked (items s) (e # ps @ qs @ [e])"
    using assms(1) by (simp add: list_rep_def Let_def e_def)
  note N = ring_neighbours(2) [OF this]
  have "last (e # ps) \<in> set (e # ps)" "hd (qs @ [e]) \<in> set (qs @ [e])"
    by (rule last_in_set, simp) (rule hd_in_set, simp)
  then have "n \<noteq> pxIndex (lists s l)" "n \<noteq> pxPrevious (items s (pxIndex (lists s l)))"
    using assms(2,3) N by (auto simp flip: e_def)
  from vListInsertEnd_between [OF this] N assms(3)
  have "insert_between l (last (e # ps)) n (hd (qs @ [e])) s (vListInsertEnd l n s)"
    by (simp add: e_def)
  then show ?thesis
    by (intro insert_between_rep) (use assms(1,2) in \<open>simp_all add: e_def\<close>)
qed

section \<open>The ordered list as an interface\<close>

text \<open>
  What the tick and the delay code of the kernel use of a list of delayed tasks: insertion by
  wake time, removal, and that the first item is the next to wake.
\<close>

locale kernel_list =
  fixes contents :: "'s \<Rightarrow> nat list \<Rightarrow> bool"
    and key :: "'s \<Rightarrow> nat \<Rightarrow> u32"
    and add_item :: "nat \<Rightarrow> 's \<Rightarrow> 's option"
    and del_item :: "nat \<Rightarrow> 's \<Rightarrow> 's option"
    and marker :: nat
  assumes add_law: "contents s xs \<Longrightarrow> n \<notin> set (marker # xs) \<Longrightarrow>
      \<exists>s'. add_item n s = Some s' \<and> contents s' (insert_stable (key s) n xs) \<and> key s' = key s"
    and del_law: "contents s (ps @ x # qs) \<Longrightarrow>
      \<exists>s'. del_item x s = Some s' \<and> contents s' (ps @ qs) \<and> key s' = key s"

datatype list_op = Add_Item nat | Del_Item nat

fun run_list_ops :: "(nat \<Rightarrow> 's \<Rightarrow> 's option) \<Rightarrow> (nat \<Rightarrow> 's \<Rightarrow> 's option) \<Rightarrow> list_op list \<Rightarrow> 's \<Rightarrow> 's option" where
  "run_list_ops a d [] s = Some s"
| "run_list_ops a d (Add_Item n # ops) s = Option.bind (a n s) (run_list_ops a d ops)"
| "run_list_ops a d (Del_Item x # ops) s = Option.bind (d x s) (run_list_ops a d ops)"

text \<open>The items present after a sequence of operations that never adds one twice or removes an absent one.\<close>

fun items_after :: "nat \<Rightarrow> list_op list \<Rightarrow> nat set \<Rightarrow> nat set option" where
  "items_after e [] A = Some A"
| "items_after e (Add_Item n # ops) A = (if n = e \<or> n \<in> A then None else items_after e ops (insert n A))"
| "items_after e (Del_Item x # ops) A = (if x \<notin> A then None else items_after e ops (A - {x}))"

lemma set_insert_stable [simp]: "set (insert_stable val n xs) = insert n (set xs)"
  unfolding insert_stable_def by (metis list.simps(15) set_append takeWhile_dropWhile_id Un_insert_right)

lemma distinct_insert_stable: "distinct xs \<Longrightarrow> n \<notin> set xs \<Longrightarrow> distinct (insert_stable val n xs)"
proof -
  have "distinct (ps @ qs) \<Longrightarrow> n \<notin> set (ps @ qs) \<Longrightarrow> distinct (ps @ n # qs)" for ps qs by auto
  from this [of "takeWhile (\<lambda>x. val x \<le> val n) xs" "dropWhile (\<lambda>x. val x \<le> val n) xs"]
  show "distinct xs \<Longrightarrow> n \<notin> set xs \<Longrightarrow> distinct (insert_stable val n xs)"
    by (simp add: insert_stable_def)
qed

context kernel_list
begin

lemma ops_keep_sorted:
  assumes "contents s xs" and "distinct xs" and "sorted (map (key s) xs)"
    and "items_after marker ops (set xs) = Some A"
  shows "\<exists>s' ys. run_list_ops add_item del_item ops s = Some s' \<and> contents s' ys \<and> distinct ys \<and> set ys = A \<and>
    key s' = key s \<and> sorted (map (key s) ys)"
  using assms
proof (induction ops arbitrary: s xs)
  case Nil
  then show ?case by auto
next
  case (Cons op ops)
  show ?case
  proof (cases op)
    case (Add_Item n)
    with Cons.prems(4) have n: "n \<notin> set (marker # xs)" and rest: "items_after marker ops (insert n (set xs)) = Some A"
      by (auto split: if_splits)
    obtain s1 where s1: "add_item n s = Some s1" "contents s1 (insert_stable (key s) n xs)" "key s1 = key s"
      using add_law [OF Cons.prems(1) n] by blast
    with Cons.IH [OF s1(2)] Cons.prems(2,3) n rest Add_Item show ?thesis
      by (simp add: insert_stable_sorted distinct_insert_stable)
  next
    case (Del_Item x)
    with Cons.prems(4) have "x \<in> set xs" and rest: "items_after marker ops (set xs - {x}) = Some A"
      by (auto split: if_splits)
    then obtain ps qs where xs: "xs = ps @ x # qs" by (auto dest: split_list)
    obtain s1 where s1: "del_item x s = Some s1" "contents s1 (ps @ qs)" "key s1 = key s"
      using del_law [of s ps x qs] Cons.prems(1) xs by blast
    have "set xs - {x} = set (ps @ qs)" using Cons.prems(2) xs by auto
    with Cons.IH [OF s1(2)] Cons.prems(2,3) rest Del_Item s1 xs show ?thesis
      by (simp add: sorted_append)
  qed
qed

end

interpretation kl: kernel_list
  "\<lambda>s xs. list_rep s l xs \<and> xListEnd (lists s l) = e" "\<lambda>s x. xItemValue (items s x)" "vListInsert l"
  "\<lambda>x s. map_option snd (uxListRemove x s)" e for l e
proof unfold_locales
  show "\<exists>s'. vListInsert l n s = Some s' \<and>
      (list_rep s' l (insert_stable (\<lambda>x. xItemValue (items s x)) n xs) \<and> xListEnd (lists s' l) = e) \<and>
      (\<lambda>x. xItemValue (items s' x)) = (\<lambda>x. xItemValue (items s x))"
    if "list_rep s l xs \<and> xListEnd (lists s l) = e" "n \<notin> set (e # xs)" for s xs n
    using vListInsert_rep [of s l xs n] that by auto
  show "\<exists>s'. map_option snd (uxListRemove x s) = Some s' \<and>
      (list_rep s' l (ps @ qs) \<and> xListEnd (lists s' l) = e) \<and>
      (\<lambda>x. xItemValue (items s' x)) = (\<lambda>x. xItemValue (items s x))"
    if "list_rep s l (ps @ x # qs) \<and> xListEnd (lists s l) = e" for s ps x qs
    using uxListRemove_rep [of s l ps x qs] that by auto
qed

section \<open>Properties\<close>

text \<open>
  Ordered insertion is stable and local. On a well-formed list \<^verbatim>\<open>vListInsert\<close> ends, and puts the
  new item behind every item whose value is not greater and before the rest; a sorted list stays
  sorted, the pointers of the ring stay consistent, and lists that share no item are untouched.
\<close>

theorem vListInsert_stable:
  assumes "list_rep s l xs" and "n \<notin> set (xListEnd (lists s l) # xs)"
  shows "\<exists>s' ps qs. vListInsert l n s = Some s' \<and> xs = ps @ qs \<and> list_rep s' l (ps @ n # qs) \<and>
    (\<forall>x \<in> set ps. xItemValue (items s x) \<le> xItemValue (items s n)) \<and>
    (qs \<noteq> [] \<longrightarrow> xItemValue (items s n) < xItemValue (items s (hd qs))) \<and>
    (sorted (map (\<lambda>x. xItemValue (items s x)) xs) \<longrightarrow> sorted (map (\<lambda>x. xItemValue (items s' x)) (ps @ n # qs))) \<and>
    (\<forall>k zs. k \<noteq> l \<longrightarrow> list_rep s k zs \<longrightarrow>
       set (xListEnd (lists s k) # zs) \<inter> set (n # xListEnd (lists s l) # xs) = {} \<longrightarrow> list_rep s' k zs)"
proof -
  let ?val = "\<lambda>x. xItemValue (items s x)"
  let ?ps = "takeWhile (\<lambda>x. ?val x \<le> ?val n) xs" and ?qs = "dropWhile (\<lambda>x. ?val x \<le> ?val n) xs"
  obtain s' where s': "vListInsert l n s = Some s'" "list_rep s' l (?ps @ n # ?qs)"
    "\<forall>x. xItemValue (items s' x) = ?val x"
    "\<forall>k zs. k \<noteq> l \<longrightarrow> list_rep s k zs \<longrightarrow>
       set (xListEnd (lists s k) # zs) \<inter> set (n # xListEnd (lists s l) # xs) = {} \<longrightarrow> list_rep s' k zs"
    using vListInsert_rep [OF assms] unfolding insert_stable_def by blast
  have "\<forall>x \<in> set ?ps. ?val x \<le> ?val n" by (auto dest: set_takeWhileD)
  moreover have "?qs \<noteq> [] \<longrightarrow> ?val n < ?val (hd ?qs)"
    using hd_dropWhile [of "\<lambda>x. ?val x \<le> ?val n" xs] by (auto simp: not_le)
  moreover have "sorted (map ?val xs) \<longrightarrow> sorted (map (\<lambda>x. xItemValue (items s' x)) (?ps @ n # ?qs))"
    using insert_stable_sorted [of ?val xs n] s'(3) by (simp add: insert_stable_def)
  ultimately show ?thesis
    using s'(1,2,4) takeWhile_dropWhile_id [of "\<lambda>x. ?val x \<le> ?val n" xs, symmetric] by blast
qed

text \<open>An empty list \<open>0\<close> with its end marker at address 100, and items valued by their address.\<close>

definition sample_heap :: list_heap where
  "sample_heap = vListInitialise 0 \<lparr>items = (\<lambda>a. \<lparr>xItemValue = of_nat a, pxNext = 0, pxPrevious = 0, pvOwner = a,
      pxContainer = None\<rparr>), lists = (\<lambda>_. \<lparr>uxNumberOfItems = 0, pxIndex = 0, xListEnd = 100\<rparr>)\<rparr>"

lemma sample_heap_end: "xListEnd (lists sample_heap 0) = 100"
  by (simp add: sample_heap_def vListInitialise_def set_item_def set_list_def Let_def)

theorem vListInsert_stable_witness: "\<exists>s'. vListInsert 0 7 sample_heap = Some s' \<and> list_rep s' 0 [7]"
proof -
  have "list_rep sample_heap 0 []" unfolding sample_heap_def by (rule list_rep_empty)
  from vListInsert_stable [OF this, of 7] show ?thesis by (auto simp: sample_heap_end)
qed

text \<open>
  Removal takes out exactly the item. \<^verbatim>\<open>uxListRemove\<close> of an item of a well-formed list returns
  the number of items left, detaches the item, joins its neighbours and keeps the order and the
  index of the others; items outside the list are untouched.
\<close>

theorem uxListRemove_exact:
  assumes "list_rep s l (ps @ x # qs)"
  shows "\<exists>s'. uxListRemove x s = Some (of_nat (length (ps @ qs)), s') \<and> list_rep s' l (ps @ qs) \<and>
    pxContainer (items s' x) = None \<and>
    (\<forall>y. y \<notin> set (xListEnd (lists s l) # ps @ x # qs) \<longrightarrow> items s' y = items s y) \<and>
    (\<forall>k. k \<noteq> l \<longrightarrow> lists s' k = lists s k)"
proof -
  obtain s' where s': "uxListRemove x s = Some (of_nat (length (ps @ qs)), s')" "list_rep s' l (ps @ qs)"
    "pxContainer (items s' x) = None" "lists s' = (lists s)(l := lists s' l)"
    "\<forall>y. y \<notin> set (xListEnd (lists s l) # ps @ x # qs) \<longrightarrow> items s' y = items s y"
    using uxListRemove_rep [OF assms] by blast
  have "lists s' k = lists s k" if "k \<noteq> l" for k
    using that fun_cong [OF s'(4), of k] by simp
  with s' show ?thesis by blast
qed

theorem uxListRemove_exact_witness:
  "\<exists>s s'. uxListRemove 7 s = Some (1, s') \<and> list_rep s' 0 [3]"
proof -
  have e: "list_rep sample_heap 0 []" unfolding sample_heap_def by (rule list_rep_empty)
  obtain s2 where "run_list_ops (vListInsert 0) (\<lambda>x s. map_option snd (uxListRemove x s)) [Add_Item 7, Add_Item 3] sample_heap = Some s2"
    and "list_rep s2 0 [3, 7]"
  proof -
    obtain s1 where s1: "vListInsert 0 7 sample_heap = Some s1" "list_rep s1 0 [7]"
      "\<forall>x. xItemValue (items s1 x) = xItemValue (items sample_heap x)" "xListEnd (lists s1 0) = 100"
      using vListInsert_rep [OF e, of 7] sample_heap_end by (auto simp: insert_stable_def)
    have v: "xItemValue (items sample_heap 7) = 7" "xItemValue (items sample_heap 3) = 3"
      by (simp_all add: sample_heap_def vListInitialise_def set_item_def set_list_def Let_def)
    obtain s2 where "vListInsert 0 3 s1 = Some s2" "list_rep s2 0 [3, 7]"
      using vListInsert_rep [OF s1(2), of 3] s1(3,4) v by (auto simp: insert_stable_def)
    with s1 that show ?thesis by simp
  qed
  with uxListRemove_exact [of s2 0 "[3]" 7 "[]"] show ?thesis by auto
qed

text \<open>
  A list of delayed tasks is always ordered by wake time. Any sequence of ordered insertions
  of new items and removals of present ones, from the empty list, succeeds, and leaves a list of
  exactly the items that should be in it, sorted by value.
\<close>

theorem delayed_list_ordered:
  assumes "items_after (xListEnd (lists s l)) ops {} = Some A" and "list_rep s l []"
  shows "\<exists>s' xs. run_list_ops (vListInsert l) (\<lambda>x s. map_option snd (uxListRemove x s)) ops s = Some s' \<and>
    list_rep s' l xs \<and> set xs = A \<and> distinct xs \<and> sorted (map (\<lambda>x. xItemValue (items s' x)) xs)"
proof -
  obtain s' xs where r: "run_list_ops (vListInsert l) (\<lambda>x s. map_option snd (uxListRemove x s)) ops s = Some s'"
    "list_rep s' l xs" "distinct xs" "set xs = A" "(\<lambda>x. xItemValue (items s' x)) = (\<lambda>x. xItemValue (items s x))"
    "sorted (map (\<lambda>x. xItemValue (items s x)) xs)"
    using kl.ops_keep_sorted [of s l "[]" "xListEnd (lists s l)" ops A] assms by auto
  then show ?thesis by metis
qed

theorem delayed_list_ordered_witness:
  "\<exists>s' xs. run_list_ops (vListInsert 0) (\<lambda>x s. map_option snd (uxListRemove x s))
       [Add_Item 7, Add_Item 3, Add_Item 9, Del_Item 7] sample_heap = Some s' \<and> set xs = {3, 9} \<and>
     sorted (map (\<lambda>x. xItemValue (items s' x)) xs)"
proof -
  have e: "list_rep sample_heap 0 []" unfolding sample_heap_def by (rule list_rep_empty)
  have "items_after (xListEnd (lists sample_heap 0)) [Add_Item 7, Add_Item 3, Add_Item 9, Del_Item 7] {} = Some {3, 9}"
    by (auto simp: sample_heap_end)
  from delayed_list_ordered [OF this e] show ?thesis by blast
qed

end
