(* ===== verification/Heap4.thy ===== *)
theory Heap4
  imports Prelude
begin

text \<open>
  The memory allocator of the FreeRTOS kernel, \<^verbatim>\<open>portable/MemMang/heap_4.c\<close>: first fit over an
  address-ordered list of free blocks, with splitting on allocation and merging with both
  neighbours on release. The state is the block headers by address and the statics of the file;
  a header's size and its allocated bit are two fields. The contract is stated on the tiling of
  the heap into allocated and free blocks.
\<close>

section \<open>State\<close>

record block_link =
  pxNextFreeBlock :: nat
  xBlockSize :: nat
  allocated :: bool

text \<open>\<open>pxEnd = 0\<close> is the null pointer: the heap is not initialised.\<close>

record heap4 =
  blk :: "nat \<Rightarrow> block_link"
  pxEnd :: nat
  xFreeBytesRemaining :: nat
  xMinimumEverFreeBytesRemaining :: nat
  xNumberOfSuccessfulAllocations :: u32
  xNumberOfSuccessfulFrees :: u32

definition xHeapStructSize :: nat where "xHeapStructSize = 8"
definition portBYTE_ALIGNMENT :: nat where "portBYTE_ALIGNMENT = 8"
definition heapMINIMUM_BLOCK_SIZE :: nat where "heapMINIMUM_BLOCK_SIZE = 16"

text \<open>The address of the static list head \<^verbatim>\<open>xStart\<close>, which lies outside the heap array.\<close>

definition xStart :: nat where "xStart = 4"

definition set_blk :: "nat \<Rightarrow> (block_link \<Rightarrow> block_link) \<Rightarrow> heap4 \<Rightarrow> heap4" where
  "set_blk a f s = s\<lparr>blk := (blk s)(a := f (blk s a))\<rparr>"

section \<open>Initialisation\<close>

definition align_down :: "nat \<Rightarrow> nat" where "align_down a = a - a mod portBYTE_ALIGNMENT"

definition heap_start :: "nat \<Rightarrow> nat" where
  "heap_start ucHeap = (if ucHeap mod portBYTE_ALIGNMENT \<noteq> 0 then align_down (ucHeap + (portBYTE_ALIGNMENT - 1)) else ucHeap)"

definition heap_end :: "nat \<Rightarrow> nat \<Rightarrow> nat" where
  "heap_end ucHeap heap_size =
     align_down (heap_start ucHeap + (heap_size - (heap_start ucHeap - ucHeap)) - xHeapStructSize)"

definition prvHeapInit :: "nat \<Rightarrow> nat \<Rightarrow> heap4 \<Rightarrow> heap4" where
  "prvHeapInit ucHeap heap_size s =
     (let a = heap_start ucHeap; e = heap_end ucHeap heap_size;
          s = set_blk xStart (\<lambda>_. \<lparr>pxNextFreeBlock = a, xBlockSize = 0, allocated = False\<rparr>) s;
          s = s\<lparr>pxEnd := e\<rparr>;
          s = set_blk e (\<lambda>_. \<lparr>pxNextFreeBlock = 0, xBlockSize = 0, allocated = False\<rparr>) s;
          s = set_blk a (\<lambda>_. \<lparr>pxNextFreeBlock = e, xBlockSize = e - a, allocated = False\<rparr>) s
      in s\<lparr>xMinimumEverFreeBytesRemaining := e - a, xFreeBytesRemaining := e - a\<rparr>)"

section \<open>Allocation\<close>

text \<open>The wanted size with the header and the alignment, at the width of \<^verbatim>\<open>size_t\<close>; 0 on overflow.\<close>

definition heapADD_WILL_OVERFLOW :: "u32 \<Rightarrow> u32 \<Rightarrow> bool" where
  "heapADD_WILL_OVERFLOW a b \<longleftrightarrow> a > 0xFFFFFFFF - b"

definition adjust_size :: "u32 \<Rightarrow> u32" where
  "adjust_size wanted =
     (if wanted > 0 then
        if \<not> heapADD_WILL_OVERFLOW wanted 8 then
          let wanted = wanted + 8 in
          if wanted AND 7 \<noteq> 0 then
            let additional = 8 - (wanted AND 7) in
            if \<not> heapADD_WILL_OVERFLOW wanted additional then wanted + additional else 0
          else wanted
        else 0
      else wanted)"

definition heapBLOCK_SIZE_IS_VALID :: "u32 \<Rightarrow> bool" where
  "heapBLOCK_SIZE_IS_VALID x \<longleftrightarrow> x AND 0x80000000 = 0"

text \<open>A failed \<^verbatim>\<open>configASSERT\<close> disables interrupts and loops for ever: the result is \<open>None\<close>.\<close>

definition heapVALIDATE_BLOCK_POINTER :: "nat \<Rightarrow> nat \<Rightarrow> nat \<Rightarrow> bool" where
  "heapVALIDATE_BLOCK_POINTER ucHeap heap_size p \<longleftrightarrow> p \<ge> ucHeap \<and> p \<le> ucHeap + (heap_size - 1)"

partial_function (option) find_free :: "(nat \<Rightarrow> bool) \<Rightarrow> (nat \<Rightarrow> block_link) \<Rightarrow> nat \<Rightarrow> nat \<Rightarrow> nat \<Rightarrow> (nat \<times> nat) option" where
  "find_free valid m w previous p =
     (if valid p then
        if xBlockSize (m p) < w \<and> pxNextFreeBlock (m p) \<noteq> 0 then find_free valid m w p (pxNextFreeBlock (m p))
        else Some (previous, p)
      else None)"

text \<open>Cutting the free block \<open>p\<close> behind \<open>previous\<close> after \<open>w\<close> bytes and linking the rest in.\<close>

definition split_block :: "nat \<Rightarrow> nat \<Rightarrow> nat \<Rightarrow> heap4 \<Rightarrow> heap4" where
  "split_block w previous p s =
     (let new = p + w;
          s = set_blk new (\<lambda>b. b\<lparr>xBlockSize := xBlockSize (blk s p) - w, allocated := False\<rparr>) s;
          s = set_blk p (\<lambda>b. b\<lparr>xBlockSize := w\<rparr>) s;
          s = set_blk new (\<lambda>b. b\<lparr>pxNextFreeBlock := pxNextFreeBlock (blk s previous)\<rparr>) s
      in set_blk previous (\<lambda>b. b\<lparr>pxNextFreeBlock := new\<rparr>) s)"

definition account_block :: "nat \<Rightarrow> heap4 \<Rightarrow> heap4" where
  "account_block p s =
     (let s = s\<lparr>xFreeBytesRemaining := xFreeBytesRemaining s - xBlockSize (blk s p)\<rparr>
      in if xFreeBytesRemaining s < xMinimumEverFreeBytesRemaining s
         then s\<lparr>xMinimumEverFreeBytesRemaining := xFreeBytesRemaining s\<rparr> else s)"

text \<open>Taking \<open>w\<close> bytes from the free block \<open>p\<close> behind \<open>previous\<close>.\<close>

definition take_block :: "nat \<Rightarrow> nat \<Rightarrow> nat \<Rightarrow> heap4 \<Rightarrow> nat \<times> heap4" where
  "take_block w previous p s =
     (let pv = pxNextFreeBlock (blk s previous) + xHeapStructSize;
          s = set_blk previous (\<lambda>b. b\<lparr>pxNextFreeBlock := pxNextFreeBlock (blk s p)\<rparr>) s;
          s = (if xBlockSize (blk s p) - w > heapMINIMUM_BLOCK_SIZE then split_block w previous p s else s);
          s = account_block p s;
          s = set_blk p (\<lambda>b. b\<lparr>allocated := True, pxNextFreeBlock := 0\<rparr>) s
      in (pv, s\<lparr>xNumberOfSuccessfulAllocations := xNumberOfSuccessfulAllocations s + 1\<rparr>))"

text \<open>The assertions on the way: the returned pointer, the size of the block, the alignment of the rest.\<close>

definition malloc_asserts :: "nat \<Rightarrow> nat \<Rightarrow> nat \<Rightarrow> nat \<Rightarrow> nat \<Rightarrow> heap4 \<Rightarrow> bool" where
  "malloc_asserts ucHeap heap_size w previous p s \<longleftrightarrow>
     (let pv = pxNextFreeBlock (blk s previous) + xHeapStructSize in
       heapVALIDATE_BLOCK_POINTER ucHeap heap_size pv \<and> \<not> xBlockSize (blk s p) < w \<and>
       (xBlockSize (blk s p) - w > heapMINIMUM_BLOCK_SIZE \<longrightarrow> (p + w) mod portBYTE_ALIGNMENT = 0) \<and>
       pv mod portBYTE_ALIGNMENT = 0)"

text \<open>The result is the pointer (0 for \<^verbatim>\<open>NULL\<close>) and the new state; \<open>None\<close> is a walk that does not end
  or a failed assertion.\<close>

definition pvPortMalloc :: "nat \<Rightarrow> nat \<Rightarrow> u32 \<Rightarrow> heap4 \<Rightarrow> (nat \<times> heap4) option" where
  "pvPortMalloc ucHeap heap_size xWantedSize s =
     (let wanted = adjust_size xWantedSize;
          s = (if pxEnd s = 0 then prvHeapInit ucHeap heap_size s else s)
      in if heapBLOCK_SIZE_IS_VALID wanted \<and> wanted > 0 \<and> unat wanted \<le> xFreeBytesRemaining s then
           Option.bind (find_free (heapVALIDATE_BLOCK_POINTER ucHeap heap_size) (blk s) (unat wanted) xStart (pxNextFreeBlock (blk s xStart)))
             (\<lambda>(previous, p). if p \<noteq> pxEnd s then
                  if malloc_asserts ucHeap heap_size (unat wanted) previous p s then Some (take_block (unat wanted) previous p s) else None
                else Some (0, s))
         else Some (0, s))"

definition heapMULTIPLY_WILL_OVERFLOW :: "u32 \<Rightarrow> u32 \<Rightarrow> bool" where
  "heapMULTIPLY_WILL_OVERFLOW a b \<longleftrightarrow> a > 0 \<and> b > 0xFFFFFFFF div a"

text \<open>The second component is the number of bytes that \<^verbatim>\<open>memset\<close> clears at the pointer.\<close>

definition pvPortCalloc :: "nat \<Rightarrow> nat \<Rightarrow> u32 \<Rightarrow> u32 \<Rightarrow> heap4 \<Rightarrow> (nat \<times> nat \<times> heap4) option" where
  "pvPortCalloc ucHeap heap_size xNum xSize s =
     (if \<not> heapMULTIPLY_WILL_OVERFLOW xNum xSize
      then map_option (\<lambda>(pv, s). if pv \<noteq> 0 then (pv, unat (xNum * xSize), s) else (pv, 0, s))
             (pvPortMalloc ucHeap heap_size (xNum * xSize) s)
      else Some (0, 0, s))"

section \<open>Release\<close>

partial_function (option) find_before :: "(nat \<Rightarrow> block_link) \<Rightarrow> nat \<Rightarrow> nat \<Rightarrow> nat option" where
  "find_before m b it =
     (if pxNextFreeBlock (m it) < b then find_before m b (pxNextFreeBlock (m it)) else Some it)"

definition merge_block :: "nat \<Rightarrow> nat \<Rightarrow> heap4 \<Rightarrow> heap4" where
  "merge_block it b s =
     (let (s, b) = (if it + xBlockSize (blk s it) = b
                    then (set_blk it (\<lambda>x. x\<lparr>xBlockSize := xBlockSize x + xBlockSize (blk s b)\<rparr>) s, it)
                    else (s, b));
          nx = pxNextFreeBlock (blk s it);
          s = (if b + xBlockSize (blk s b) = nx then
                 if nx \<noteq> pxEnd s
                 then set_blk b (\<lambda>x. x\<lparr>xBlockSize := xBlockSize x + xBlockSize (blk s nx),
                                        pxNextFreeBlock := pxNextFreeBlock (blk s nx)\<rparr>) s
                 else set_blk b (\<lambda>x. x\<lparr>pxNextFreeBlock := pxEnd s\<rparr>) s
               else set_blk b (\<lambda>x. x\<lparr>pxNextFreeBlock := nx\<rparr>) s)
      in if it \<noteq> b then set_blk it (\<lambda>x. x\<lparr>pxNextFreeBlock := b\<rparr>) s else s)"

definition prvInsertBlockIntoFreeList :: "nat \<Rightarrow> nat \<Rightarrow> nat \<Rightarrow> heap4 \<Rightarrow> heap4 option" where
  "prvInsertBlockIntoFreeList ucHeap heap_size b s =
     Option.bind (find_before (blk s) b xStart)
       (\<lambda>it. if it \<noteq> xStart \<and> \<not> heapVALIDATE_BLOCK_POINTER ucHeap heap_size it then None else Some (merge_block it b s))"

definition vPortFree :: "nat \<Rightarrow> nat \<Rightarrow> nat \<Rightarrow> heap4 \<Rightarrow> heap4 option" where
  "vPortFree ucHeap heap_size pv s =
     (if pv = 0 then Some s
      else let b = pv - xHeapStructSize in
        if heapVALIDATE_BLOCK_POINTER ucHeap heap_size b \<and> allocated (blk s b) \<and> pxNextFreeBlock (blk s b) = 0 then
          let s = set_blk b (\<lambda>x. x\<lparr>allocated := False\<rparr>) s;
              s = s\<lparr>xFreeBytesRemaining := xFreeBytesRemaining s + xBlockSize (blk s b)\<rparr>
          in map_option (\<lambda>s. s\<lparr>xNumberOfSuccessfulFrees := xNumberOfSuccessfulFrees s + 1\<rparr>)
               (prvInsertBlockIntoFreeList ucHeap heap_size b s)
        else None)"

section \<open>Statistics\<close>

definition xPortGetFreeHeapSize :: "heap4 \<Rightarrow> nat" where "xPortGetFreeHeapSize s = xFreeBytesRemaining s"

definition xPortGetMinimumEverFreeHeapSize :: "heap4 \<Rightarrow> nat" where
  "xPortGetMinimumEverFreeHeapSize s = xMinimumEverFreeBytesRemaining s"

definition xPortResetHeapMinimumEverFreeHeapSize :: "heap4 \<Rightarrow> heap4" where
  "xPortResetHeapMinimumEverFreeHeapSize s = s\<lparr>xMinimumEverFreeBytesRemaining := xFreeBytesRemaining s\<rparr>"

definition vPortHeapResetState :: "heap4 \<Rightarrow> heap4" where
  "vPortHeapResetState s = s\<lparr>pxEnd := 0, xFreeBytesRemaining := 0, xMinimumEverFreeBytesRemaining := 0,
     xNumberOfSuccessfulAllocations := 0, xNumberOfSuccessfulFrees := 0\<rparr>"

record heap_stats =
  xAvailableHeapSpaceInBytes :: nat
  xSizeOfLargestFreeBlockInBytes :: nat
  xSizeOfSmallestFreeBlockInBytes :: nat
  xNumberOfFreeBlocks :: nat
  xMinimumEverFreeBytesRemaining_stat :: nat
  xNumberOfSuccessfulAllocations_stat :: u32
  xNumberOfSuccessfulFrees_stat :: u32

definition stats_step :: "(nat \<Rightarrow> block_link) \<Rightarrow> nat \<Rightarrow> nat \<times> nat \<times> nat \<Rightarrow> nat \<times> nat \<times> nat" where
  "stats_step m p = (\<lambda>(xBlocks, xMaxSize, xMinSize).
     (xBlocks + 1, if xBlockSize (m p) > xMaxSize then xBlockSize (m p) else xMaxSize,
      if xBlockSize (m p) < xMinSize then xBlockSize (m p) else xMinSize))"

partial_function (option) stats_walk :: "(nat \<Rightarrow> block_link) \<Rightarrow> nat \<Rightarrow> nat \<Rightarrow> nat \<times> nat \<times> nat \<Rightarrow> (nat \<times> nat \<times> nat) option" where
  "stats_walk m e p acc = (if p \<noteq> e then stats_walk m e (pxNextFreeBlock (m p)) (stats_step m p acc) else Some acc)"

text \<open>The initial smallest size is \<^verbatim>\<open>portMAX_DELAY\<close>.\<close>

definition vPortGetHeapStats :: "heap4 \<Rightarrow> heap_stats option" where
  "vPortGetHeapStats s =
     (let p = pxNextFreeBlock (blk s xStart)
      in map_option (\<lambda>(xBlocks, xMaxSize, xMinSize).
           \<lparr>xAvailableHeapSpaceInBytes = xFreeBytesRemaining s, xSizeOfLargestFreeBlockInBytes = xMaxSize,
            xSizeOfSmallestFreeBlockInBytes = xMinSize, xNumberOfFreeBlocks = xBlocks,
            xMinimumEverFreeBytesRemaining_stat = xMinimumEverFreeBytesRemaining s,
            xNumberOfSuccessfulAllocations_stat = xNumberOfSuccessfulAllocations s,
            xNumberOfSuccessfulFrees_stat = xNumberOfSuccessfulFrees s\<rparr>)
         (if p \<noteq> 0 then stats_walk (blk s) (pxEnd s) p (0, 0, 0xFFFFFFFF) else Some (0, 0, 0xFFFFFFFF)))"

section \<open>Tilings\<close>

type_synonym tile = "nat \<times> nat \<times> bool"

fun tiled :: "nat \<Rightarrow> tile list \<Rightarrow> nat \<Rightarrow> bool" where
  "tiled a [] e = (a = e)"
| "tiled a ((b, n, al) # ts) e = (b = a \<and> 0 < n \<and> n mod 8 = 0 \<and> tiled (a + n) ts e)"

definition frees :: "tile list \<Rightarrow> nat list" where
  "frees ts = map fst (filter (\<lambda>(b, n, al). \<not> al) ts)"

definition free_bytes :: "tile list \<Rightarrow> nat" where
  "free_bytes ts = sum_list (map (\<lambda>(b, n, al). if al then 0 else n) ts)"

text \<open>No two free blocks are adjacent.\<close>

fun coalesced :: "tile list \<Rightarrow> bool" where
  "coalesced (t # u # ts) = ((snd (snd t) \<or> snd (snd u)) \<and> coalesced (u # ts))"
| "coalesced _ = True"

definition headers :: "(nat \<Rightarrow> block_link) \<Rightarrow> tile list \<Rightarrow> bool" where
  "headers m ts \<longleftrightarrow> (\<forall>(b, n, al) \<in> set ts. xBlockSize (m b) = n \<and> allocated (m b) = al \<and>
     (al \<longrightarrow> pxNextFreeBlock (m b) = 0))"

fun chain :: "(nat \<Rightarrow> block_link) \<Rightarrow> nat \<Rightarrow> nat list \<Rightarrow> nat \<Rightarrow> bool" where
  "chain m p [] e = (pxNextFreeBlock (m p) = e)"
| "chain m p (a # as) e = (pxNextFreeBlock (m p) = a \<and> chain m a as e)"

definition heap_ok :: "nat \<Rightarrow> heap4 \<Rightarrow> tile list \<Rightarrow> bool" where
  "heap_ok base s ts \<longleftrightarrow>
     xStart < base \<and> base mod 8 = 0 \<and> tiled base ts (pxEnd s) \<and> coalesced ts \<and> headers (blk s) ts \<and>
     chain (blk s) xStart (frees ts) (pxEnd s) \<and> xBlockSize (blk s xStart) = 0 \<and>
     xBlockSize (blk s (pxEnd s)) = 0 \<and> pxNextFreeBlock (blk s (pxEnd s)) = 0 \<and>
     xFreeBytesRemaining s = free_bytes ts"

lemma tiled_append: "tiled a (us @ vs) e \<longleftrightarrow> (\<exists>c. tiled a us c \<and> tiled c vs e)"
  by (induction us arbitrary: a) auto

lemma tiled_le: "tiled a ts e \<Longrightarrow> a \<le> e"
  by (induction a ts e rule: tiled.induct) auto

lemma tiled_bounds: "tiled a ts e \<Longrightarrow> (b, n, al) \<in> set ts \<Longrightarrow> a \<le> b \<and> b + n \<le> e \<and> 0 < n"
  by (induction a ts e rule: tiled.induct) (auto dest: tiled_le)

lemma tiled_mod: "tiled a ts e \<Longrightarrow> a mod 8 = 0 \<Longrightarrow> (b, n, al) \<in> set ts \<Longrightarrow> b mod 8 = 0 \<and> n mod 8 = 0"
proof (induction a ts e rule: tiled.induct)
  case (2 a b' n' al' ts e)
  then have "(a + n') mod 8 = 0" by (auto simp: mod_add_eq [symmetric])
  with 2 show ?case by auto
qed simp

lemma frees_append [simp]: "frees (us @ vs) = frees us @ frees vs"
  by (simp add: frees_def)

lemma frees_Cons [simp]: "frees ((b, n, al) # ts) = (if al then frees ts else b # frees ts)" "frees [] = []"
  by (simp_all add: frees_def)

lemma free_bytes_simps [simp]:
  "free_bytes [] = 0" "free_bytes ((b, n, al) # ts) = (if al then 0 else n) + free_bytes ts"
  "free_bytes (us @ vs) = free_bytes us + free_bytes vs"
  by (simp_all add: free_bytes_def)

lemma frees_in: "b \<in> set (frees ts) \<longleftrightarrow> (\<exists>n. (b, n, False) \<in> set ts)"
  by (force simp: frees_def)

lemma frees_bounds: "tiled a ts e \<Longrightarrow> b \<in> set (frees ts) \<Longrightarrow> a \<le> b \<and> b < e"
  using tiled_bounds by (fastforce simp: frees_in)

lemma frees_distinct: "tiled a ts e \<Longrightarrow> distinct (frees ts)"
proof (induction a ts e rule: tiled.induct)
  case (2 a b n al ts e)
  then show ?case using frees_bounds [of "a + n" ts e] by fastforce
qed simp

lemma headers_append [simp]: "headers m (us @ vs) \<longleftrightarrow> headers m us \<and> headers m vs"
  unfolding headers_def set_append ball_Un by simp

lemma headers_Cons [simp]:
  "headers m ((b, n, al) # ts) \<longleftrightarrow> xBlockSize (m b) = n \<and> allocated (m b) = al \<and> (al \<longrightarrow> pxNextFreeBlock (m b) = 0) \<and> headers m ts"
  "headers m []"
  by (auto simp: headers_def)

lemma coalesced_append:
  "coalesced (us @ vs) \<longleftrightarrow> coalesced us \<and> coalesced vs \<and> (us = [] \<or> vs = [] \<or> snd (snd (last us)) \<or> snd (snd (hd vs)))"
proof (induction us)
  case (Cons t us)
  then show ?case by (cases us; cases vs) auto
qed simp

lemma coalesced_Cons: "coalesced (t # vs) \<longleftrightarrow> coalesced vs \<and> (vs = [] \<or> snd (snd t) \<or> snd (snd (hd vs)))"
  by (cases vs) auto

lemma chain_append: "chain m p (as @ b # bs) e \<longleftrightarrow> chain m p as b \<and> chain m b bs e"
  by (induction as arbitrary: p) auto

text \<open>Changing where a chain ends, and keeping a chain whose links are untouched.\<close>

lemma chain_retarget:
  "chain m p as b \<Longrightarrow> distinct (p # as) \<Longrightarrow> pxNextFreeBlock (m' (last (p # as))) = c \<Longrightarrow>
   (\<And>x. x \<in> set (butlast (p # as)) \<Longrightarrow> pxNextFreeBlock (m' x) = pxNextFreeBlock (m x)) \<Longrightarrow> chain m' p as c"
proof (induction as arbitrary: p)
  case (Cons a as)
  then show ?case by (auto split: if_splits)
qed simp

lemma chain_keep:
  "chain m p as e \<Longrightarrow> (\<And>x. x \<in> set (p # as) \<Longrightarrow> pxNextFreeBlock (m' x) = pxNextFreeBlock (m x)) \<Longrightarrow> chain m' p as e"
  by (induction as arbitrary: p) auto

lemma chain_hd: "chain m p as e \<Longrightarrow> pxNextFreeBlock (m p) = hd (as @ [e])"
  by (cases as) auto

lemma chain_restart:
  "chain m p as e \<Longrightarrow> pxNextFreeBlock (m' q) = pxNextFreeBlock (m p) \<Longrightarrow>
   (\<And>x. x \<in> set as \<Longrightarrow> pxNextFreeBlock (m' x) = pxNextFreeBlock (m x)) \<Longrightarrow> chain m' q as e"
  by (cases as) (auto intro: chain_keep)

lemma chain_join:
  "chain m p as (hd (bs @ [e])) \<Longrightarrow> chain m (last (p # as)) bs e \<Longrightarrow> chain m p (as @ bs) e"
proof (induction as arbitrary: p)
  case Nil
  then show ?case by simp
next
  case (Cons a as)
  then show ?case by (auto split: if_splits)
qed

lemma chain_split:
  "chain m p (as @ bs) e \<Longrightarrow> chain m p as (hd (bs @ [e])) \<and> chain m (last (p # as)) bs e"
proof (induction as arbitrary: p)
  case Nil
  then show ?case by (simp add: chain_hd)
next
  case (Cons a as)
  then show ?case by simp
qed

section \<open>The two walks\<close>

lemma find_free_walk:
  "chain m p as b \<Longrightarrow> \<forall>x \<in> set as. valid x \<and> xBlockSize (m x) < w \<and> pxNextFreeBlock (m x) \<noteq> 0 \<Longrightarrow> valid b \<Longrightarrow>
   w \<le> xBlockSize (m b) \<or> pxNextFreeBlock (m b) = 0 \<Longrightarrow>
   find_free valid m w p (pxNextFreeBlock (m p)) = Some (last (p # as), b)"
proof (induction as arbitrary: p)
  case Nil
  then show ?case by (subst find_free.simps) auto
next
  case (Cons a as)
  then show ?case by (subst find_free.simps) auto
qed

lemma find_before_walk:
  "chain m p as c \<Longrightarrow> \<forall>x \<in> set as. x < b \<Longrightarrow> \<not> c < b \<Longrightarrow> find_before m b p = Some (last (p # as))"
proof (induction as arbitrary: p)
  case Nil
  then show ?case by (subst find_before.simps) simp
next
  case (Cons a as)
  then show ?case by (subst find_before.simps) simp
qed

section \<open>Allocation on the tiling\<close>

lemma heap_split:
  assumes "heap_ok base s (us @ (b, n, al) # vs)"
  shows "tiled base us b" "tiled (b + n) vs (pxEnd s)" "0 < n" "n mod 8 = 0" "b mod 8 = 0" "xStart < b" "b + n \<le> pxEnd s"
    "\<forall>x \<in> set (frees us). xStart < x \<and> x < b" "\<forall>x \<in> set (frees vs). b + n \<le> x \<and> x < pxEnd s"
    "distinct (xStart # frees us)" "distinct (frees vs)" "last (xStart # frees us) < b"
    "chain (blk s) xStart (frees us @ (if al then [] else [b]) @ frees vs) (pxEnd s)"
    "headers (blk s) us" "headers (blk s) vs" "xBlockSize (blk s b) = n" "allocated (blk s b) = al"
    "al \<Longrightarrow> pxNextFreeBlock (blk s b) = 0"
proof -
  from assms have ok: "xStart < base" "base mod 8 = 0" "tiled base (us @ (b, n, al) # vs) (pxEnd s)"
    "headers (blk s) (us @ (b, n, al) # vs)" "chain (blk s) xStart (frees (us @ (b, n, al) # vs)) (pxEnd s)"
    by (simp_all add: heap_ok_def)
  from ok(3) show us: "tiled base us b" and vs: "tiled (b + n) vs (pxEnd s)" and "0 < n" "n mod 8 = 0"
    by (auto simp: tiled_append)
  show "b mod 8 = 0" using tiled_mod [OF ok(3,2), of b n al] by simp
  show b: "xStart < b" using ok(1) tiled_le [OF us] by simp
  show "b + n \<le> pxEnd s" by (rule tiled_le [OF vs])
  show fu: "\<forall>x \<in> set (frees us). xStart < x \<and> x < b" using frees_bounds [OF us] ok(1) by fastforce
  show "\<forall>x \<in> set (frees vs). b + n \<le> x \<and> x < pxEnd s" using frees_bounds [OF vs] by blast
  show "distinct (xStart # frees us)" using frees_distinct [OF us] fu by auto
  show "distinct (frees vs)" by (rule frees_distinct [OF vs])
  show "last (xStart # frees us) < b"
    using fu b last_in_set [of "frees us"] by (cases "frees us = []") auto
  show "chain (blk s) xStart (frees us @ (if al then [] else [b]) @ frees vs) (pxEnd s)"
    using ok(5) by (simp split: if_splits)
  show "headers (blk s) us" "headers (blk s) vs" "xBlockSize (blk s b) = n" "allocated (blk s b) = al"
    "al \<Longrightarrow> pxNextFreeBlock (blk s b) = 0"
    using ok(4) by simp_all
qed

lemma headersD:
  "headers m ts \<Longrightarrow> (b, n, al) \<in> set ts \<Longrightarrow>
   xBlockSize (m b) = n \<and> allocated (m b) = al \<and> (al \<longrightarrow> pxNextFreeBlock (m b) = 0)"
  unfolding headers_def by blast

lemma headers_keep:
  "headers m ts \<Longrightarrow>
   (\<And>b n al. (b, n, al) \<in> set ts \<Longrightarrow> xBlockSize (m' b) = xBlockSize (m b) \<and> allocated (m' b) = allocated (m b) \<and>
      (al \<longrightarrow> pxNextFreeBlock (m' b) = pxNextFreeBlock (m b))) \<Longrightarrow> headers m' ts"
proof -
  assume h: "headers m ts"
    and k: "\<And>b n al. (b, n, al) \<in> set ts \<Longrightarrow> xBlockSize (m' b) = xBlockSize (m b) \<and> allocated (m' b) = allocated (m b) \<and>
      (al \<longrightarrow> pxNextFreeBlock (m' b) = pxNextFreeBlock (m b))"
  have "xBlockSize (m' b) = n \<and> allocated (m' b) = al \<and> (al \<longrightarrow> pxNextFreeBlock (m' b) = 0)" if i: "(b, n, al) \<in> set ts" for b n al
  proof -
    from headersD [OF h i] k [OF i] show ?thesis by simp
  qed
  then show ?thesis unfolding headers_def by blast
qed

lemma last_free_not_allocated:
  "headers m us \<Longrightarrow> (c, k, True) \<in> set us \<Longrightarrow> xStart < c \<Longrightarrow> c \<noteq> last (xStart # frees us)"
proof
  assume h: "headers m us" "(c, k, True) \<in> set us" "xStart < c" and c: "c = last (xStart # frees us)"
  then have "frees us \<noteq> []" by auto
  with c last_in_set [of "frees us"] have "c \<in> set (frees us)" by simp
  then obtain k' where "(c, k', False) \<in> set us" by (auto simp: frees_in)
  from headersD [OF h(1) this] headersD [OF h(1,2)] show False by simp
qed

lemma set_blk_sel [simp]:
  "blk (set_blk a f s) x = (if x = a then f (blk s a) else blk s x)" "pxEnd (set_blk a f s) = pxEnd s"
  "xFreeBytesRemaining (set_blk a f s) = xFreeBytesRemaining s"
  "xMinimumEverFreeBytesRemaining (set_blk a f s) = xMinimumEverFreeBytesRemaining s"
  "xNumberOfSuccessfulAllocations (set_blk a f s) = xNumberOfSuccessfulAllocations s"
  "xNumberOfSuccessfulFrees (set_blk a f s) = xNumberOfSuccessfulFrees s"
  by (simp_all add: set_blk_def)

lemma account_block_sel [simp]:
  "blk (account_block p s) = blk s" "pxEnd (account_block p s) = pxEnd s"
  "xFreeBytesRemaining (account_block p s) = xFreeBytesRemaining s - xBlockSize (blk s p)"
  "xNumberOfSuccessfulAllocations (account_block p s) = xNumberOfSuccessfulAllocations s"
  "xNumberOfSuccessfulFrees (account_block p s) = xNumberOfSuccessfulFrees s"
  by (simp_all add: account_block_def Let_def)

lemma split_block_sel:
  assumes "previous < p" "0 < w"
  shows "blk (split_block w previous p s) x =
      (if x = previous then (blk s x)\<lparr>pxNextFreeBlock := p + w\<rparr>
       else if x = p then (blk s x)\<lparr>xBlockSize := w\<rparr>
       else if x = p + w then \<lparr>pxNextFreeBlock = pxNextFreeBlock (blk s previous), xBlockSize = xBlockSize (blk s p) - w, allocated = False\<rparr>
       else blk s x)"
    "pxEnd (split_block w previous p s) = pxEnd s"
    "xFreeBytesRemaining (split_block w previous p s) = xFreeBytesRemaining s"
    "xNumberOfSuccessfulAllocations (split_block w previous p s) = xNumberOfSuccessfulAllocations s"
  using assms by (simp_all add: split_block_def Let_def)

lemma take_block_fields:
  assumes "take_block w previous b s = (pv, s')" and "previous < b" and "0 < w"
    and "pxNextFreeBlock (blk s previous) = b"
  defines "split \<equiv> xBlockSize (blk s b) - w > heapMINIMUM_BLOCK_SIZE"
  shows "pv = b + 8"
    and "pxNextFreeBlock (blk s' x) = (if x = b then 0 else if x = previous then (if split then b + w else pxNextFreeBlock (blk s b))
           else if split \<and> x = b + w then pxNextFreeBlock (blk s b) else pxNextFreeBlock (blk s x))"
    and "xBlockSize (blk s' x) = (if split \<and> x = b then w else if split \<and> x = b + w then xBlockSize (blk s b) - w
           else xBlockSize (blk s x))"
    and "allocated (blk s' x) = (if x = b then True else if split \<and> x = b + w then False else allocated (blk s x))"
    and "pxEnd s' = pxEnd s"
    and "xFreeBytesRemaining s' = xFreeBytesRemaining s - (if split then w else xBlockSize (blk s b))"
    and "xNumberOfSuccessfulAllocations s' = xNumberOfSuccessfulAllocations s + 1"
proof -
  define s1 where "s1 = set_blk previous (\<lambda>x. x\<lparr>pxNextFreeBlock := pxNextFreeBlock (blk s b)\<rparr>) s"
  define s2 where "s2 = (if xBlockSize (blk s1 b) - w > heapMINIMUM_BLOCK_SIZE then split_block w previous b s1 else s1)"
  have ne: "b \<noteq> previous" "b + w \<noteq> b" "b + w \<noteq> previous" using assms(2,3) by simp_all
  have e: "pv = b + 8" "s' = (let s = set_blk b (\<lambda>b. b\<lparr>allocated := True, pxNextFreeBlock := 0\<rparr>) (account_block b s2)
     in s\<lparr>xNumberOfSuccessfulAllocations := xNumberOfSuccessfulAllocations s + 1\<rparr>)"
    using assms(1) by (simp_all add: take_block_def Let_def s1_def [symmetric] s2_def [symmetric] assms(4) xHeapStructSize_def)
  have split: "split \<longleftrightarrow> xBlockSize (blk s1 b) - w > heapMINIMUM_BLOCK_SIZE" using ne by (simp add: split_def s1_def)
  have s2: "blk s2 x = (if split then blk (split_block w previous b s1) x else blk s1 x)" "pxEnd s2 = pxEnd s"
    "xFreeBytesRemaining s2 = xFreeBytesRemaining s" "xNumberOfSuccessfulAllocations s2 = xNumberOfSuccessfulAllocations s" for x
    using assms(2,3) by (simp_all add: s2_def split split_block_sel) (simp_all add: s1_def)
  note simps = e Let_def s2 split_block_sel [OF assms(2,3)]
  show "pv = b + 8" by (rule e)
  show "pxNextFreeBlock (blk s' x) = (if x = b then 0 else if x = previous then (if split then b + w else pxNextFreeBlock (blk s b))
           else if split \<and> x = b + w then pxNextFreeBlock (blk s b) else pxNextFreeBlock (blk s x))"
    using ne by (simp add: simps s1_def)
  show "xBlockSize (blk s' x) = (if split \<and> x = b then w else if split \<and> x = b + w then xBlockSize (blk s b) - w
           else xBlockSize (blk s x))"
    using ne by (simp add: simps s1_def)
  show "allocated (blk s' x) = (if x = b then True else if split \<and> x = b + w then False else allocated (blk s x))"
    using ne by (simp add: simps s1_def)
  show "pxEnd s' = pxEnd s" by (simp add: simps)
  show "xFreeBytesRemaining s' = xFreeBytesRemaining s - (if split then w else xBlockSize (blk s b))"
    using ne by (simp add: simps s1_def)
  show "xNumberOfSuccessfulAllocations s' = xNumberOfSuccessfulAllocations s + 1" by (simp add: simps)
qed

definition carved :: "nat \<Rightarrow> nat \<Rightarrow> nat \<Rightarrow> tile list" where
  "carved b n w = (if n - w > heapMINIMUM_BLOCK_SIZE then [(b, w, True), (b + w, n - w, False)] else [(b, n, True)])"

lemma take_block_ok:
  assumes "heap_ok base s (us @ (b, n, False) # vs)" and "0 < w" "w mod 8 = 0" "w \<le> n"
    and "take_block w (last (xStart # frees us)) b s = (pv, s')"
  shows "heap_ok base s' (us @ carved b n w @ vs) \<and> pv = b + 8 \<and> pxEnd s' = pxEnd s"
proof -
  note S = heap_split [OF assms(1)]
  let ?prev = "last (xStart # frees us)"
  have chains: "chain (blk s) xStart (frees us) b" "chain (blk s) b (frees vs) (pxEnd s)"
    using S(13) by (simp_all add: chain_append del: chain.simps(2))
  have "pxNextFreeBlock (blk s ?prev) = b"
    using chains(1)
  proof (cases "frees us = []")
    case False
    then obtain as a where "frees us = as @ [a]" by (metis append_butlast_last_id)
    with chains(1) show ?thesis by (simp add: chain_append)
  qed simp
  note F = take_block_fields [OF assms(5) S(12) assms(2) this, unfolded S(16)]
  have w: "b < b + w" "b + w \<le> b + n" using assms(2,4) by simp_all
  have ge: "c < b" if "(c, k, al) \<in> set us" for c k al
    using tiled_bounds [OF S(1) that] by linarith
  have ge_vs: "b + n \<le> c \<and> c < pxEnd s" if "(c, k, al) \<in> set vs" for c k al
    using tiled_bounds [OF S(2) that] by linarith
  have base: "base \<le> c" "xStart < c" if "(c, k, al) \<in> set us" for c k al
    using tiled_bounds [OF S(1) that] assms(1) by (simp_all add: heap_ok_def)
  have vs_lt: "b + w < c" if "(c, k, al) \<in> set vs" "n - w > heapMINIMUM_BLOCK_SIZE" for c k al
    using ge_vs [OF that(1)] that(2) by linarith
  have us': "headers (blk s') us"
  proof (rule headers_keep [OF S(14)])
    fix c k al assume c: "(c, k, al) \<in> set us"
    have "al \<Longrightarrow> c \<noteq> ?prev" using last_free_not_allocated [OF S(14), of c k] c base(2) [OF c] by auto
    then show "xBlockSize (blk s' c) = xBlockSize (blk s c) \<and> allocated (blk s' c) = allocated (blk s c) \<and>
        (al \<longrightarrow> pxNextFreeBlock (blk s' c) = pxNextFreeBlock (blk s c))"
      using ge [OF c] w by (simp add: F)
  qed
  have vs': "headers (blk s') vs"
    by (rule headers_keep [OF S(15)]) (use ge_vs vs_lt S(3,12) in \<open>fastforce simp: F\<close>)
  have ends: "xBlockSize (blk s' xStart) = 0" "xBlockSize (blk s' (pxEnd s)) = 0" "pxNextFreeBlock (blk s' (pxEnd s)) = 0"
  proof -
    have "xStart \<noteq> b" "xStart \<noteq> b + w" "pxEnd s \<noteq> b" "pxEnd s \<noteq> ?prev"
      using S(6,7,12) w S(3) by linarith+
    moreover have "\<not> (heapMINIMUM_BLOCK_SIZE < n - w \<and> pxEnd s = b + w)"
      using S(7) by auto
    moreover have "xBlockSize (blk s xStart) = 0" "xBlockSize (blk s (pxEnd s)) = 0" "pxNextFreeBlock (blk s (pxEnd s)) = 0"
      using assms(1) by (simp_all add: heap_ok_def)
    ultimately show "xBlockSize (blk s' xStart) = 0" "xBlockSize (blk s' (pxEnd s)) = 0" "pxNextFreeBlock (blk s' (pxEnd s)) = 0"
      unfolding F by (simp_all only: refl if_False if_cancel simp_thms split: if_split)
  qed
  have hd_vs: "pxNextFreeBlock (blk s b) = hd (frees vs @ [pxEnd s])" by (rule chain_hd [OF chains(2)])
  have but: "x \<noteq> ?prev \<and> x < b" if "x \<in> set (butlast (xStart # frees us))" for x
  proof -
    have "x \<noteq> ?prev" using that S(10) by (metis append_butlast_last_id distinct_butlast list.distinct(1) not_distinct_conv_prefix)
    moreover have "x < b" using in_set_butlastD [OF that] S(6,8) by auto
    ultimately show ?thesis by simp
  qed
  have but': "pxNextFreeBlock (blk s' x) = pxNextFreeBlock (blk s x)" if "x \<in> set (butlast (xStart # frees us))" for x
  proof -
    from but [OF that] w have "x \<noteq> b" "x \<noteq> ?prev" "x \<noteq> b + w" by simp_all
    then show ?thesis by (simp only: F if_False simp_thms)
  qed
  have prev: "pxNextFreeBlock (blk s' ?prev) = (if heapMINIMUM_BLOCK_SIZE < n - w then b + w else pxNextFreeBlock (blk s b))"
  proof -
    from S(12) have "?prev \<noteq> b" by simp
    then show ?thesis by (simp only: F if_False if_True simp_thms)
  qed
  have free: "xFreeBytesRemaining s = free_bytes us + (n + free_bytes vs)"
    using assms(1) by (simp add: heap_ok_def)
  have ok: "xStart < base" "base mod 8 = 0" "coalesced (us @ (b, n, False) # vs)"
    using assms(1) by (simp_all add: heap_ok_def)
  have keep_vs: "chain (blk s') q (frees vs) (pxEnd s)" if "pxNextFreeBlock (blk s' q) = pxNextFreeBlock (blk s b)" for q
  proof (rule chain_restart [of "blk s" b "frees vs" "pxEnd s" "blk s'" q, OF chains(2) that])
    fix x assume "x \<in> set (frees vs)"
    then obtain k where "(x, k, False) \<in> set vs" by (auto simp: frees_in)
    with ge_vs vs_lt S(12,3) show "pxNextFreeBlock (blk s' x) = pxNextFreeBlock (blk s x)"
      by (fastforce simp: F)
  qed
  show ?thesis
  proof (cases "n - w > heapMINIMUM_BLOCK_SIZE")
    case True
    have "chain (blk s') xStart (frees us) (b + w)"
      by (rule chain_retarget [OF chains(1) S(10)]) (use but' prev True in simp_all)
    moreover have "chain (blk s') (b + w) (frees vs) (pxEnd s)"
      by (rule keep_vs) (use True w S(12) in \<open>simp add: F\<close>)
    moreover have "(n - w) mod 8 = 0" using S(4) assms(3,4) by (metis mod_0_imp_dvd dvd_diff_nat mod_eq_0_iff_dvd)
    moreover have "coalesced (us @ carved b n w @ vs)"
      using ok(3) True by (auto simp: coalesced_append coalesced_Cons carved_def)
    moreover have "tiled base (us @ carved b n w @ vs) (pxEnd s)"
      using S(1,2) \<open>(n - w) mod 8 = 0\<close> True assms(2,3) w by (auto simp: tiled_append carved_def)
    moreover have "headers (blk s') (carved b n w)" using True S(12,16) assms(2) by (simp add: carved_def F)
    moreover have "xFreeBytesRemaining s' = free_bytes (us @ carved b n w @ vs)"
      using True free w by (simp add: carved_def F)
    ultimately show ?thesis
      using True ok(1,2) us' vs' ends F(1,5) by (simp add: heap_ok_def carved_def chain_append)
  next
    case False
    have "chain (blk s') xStart (frees us) (hd (frees vs @ [pxEnd s]))"
      by (rule chain_retarget [OF chains(1) S(10)]) (use but' prev False hd_vs in simp_all)
    moreover have "chain (blk s') (last (xStart # frees us)) (frees vs) (pxEnd s)"
      by (rule keep_vs) (use False prev in simp)
    ultimately have "chain (blk s') xStart (frees us @ frees vs) (pxEnd s)" by (rule chain_join)
    moreover have "coalesced (us @ carved b n w @ vs)"
      using ok(3) False by (auto simp: coalesced_append coalesced_Cons carved_def)
    moreover have "tiled base (us @ carved b n w @ vs) (pxEnd s)"
      using S(1,2,3,4) False by (auto simp: tiled_append carved_def)
    moreover have "headers (blk s') (carved b n w)" using False S(12,16) by (simp add: carved_def F)
    moreover have "xFreeBytesRemaining s' = free_bytes (us @ carved b n w @ vs)"
      using False free S(16) by (simp add: carved_def F)
    ultimately show ?thesis
      using False ok(1,2) us' vs' ends F(1,5) by (simp add: heap_ok_def carved_def)
  qed
qed

text \<open>The allocation on tilings: the first free block that is large enough.\<close>

fun first_fit :: "nat \<Rightarrow> tile list \<Rightarrow> (nat \<times> tile list) option" where
  "first_fit w [] = None"
| "first_fit w ((b, n, al) # ts) =
     (if \<not> al \<and> w \<le> n then Some (b, carved b n w @ ts)
      else map_option (\<lambda>(p, us). (p, (b, n, al) # us)) (first_fit w ts))"

lemma first_fit_Some:
  "first_fit w ts = Some (b, ts') \<Longrightarrow>
   \<exists>us n vs. ts = us @ (b, n, False) # vs \<and> ts' = us @ carved b n w @ vs \<and> w \<le> n \<and> (\<forall>(c, k, al) \<in> set us. al \<or> k < w)"
proof (induction ts arbitrary: ts')
  case (Cons t ts)
  obtain c k al where t: "t = (c, k, al)" by (cases t)
  show ?case
  proof (cases "\<not> al \<and> w \<le> k")
    case True
    with Cons.prems t have "t # ts = [] @ (b, k, False) # ts \<and> ts' = [] @ carved b k w @ ts \<and> w \<le> k" by auto
    then show ?thesis by (metis empty_iff list.set(1))
  next
    case False
    with Cons.prems t obtain ts'' where ts': "first_fit w ts = Some (b, ts'')" "ts' = t # ts''" by auto
    from Cons.IH [OF ts'(1)] obtain us n vs where
      *: "ts = us @ (b, n, False) # vs" "ts'' = us @ carved b n w @ vs" "w \<le> n" "\<forall>(c, k, al) \<in> set us. al \<or> k < w"
      by blast
    have "t # ts = (t # us) @ (b, n, False) # vs" "ts' = (t # us) @ carved b n w @ vs" "\<forall>(c, k, al) \<in> set (t # us). al \<or> k < w"
      using * ts' t False by auto
    with *(3) show ?thesis by blast
  qed
qed simp

lemma first_fit_None: "first_fit w ts = None \<longleftrightarrow> (\<forall>(c, k, al) \<in> set ts. al \<or> k < w)"
proof (induction ts)
  case (Cons t ts)
  then show ?case by (cases t) (auto split: if_splits)
qed simp

lemma free_bytes_ge: "(b, n, False) \<in> set ts \<Longrightarrow> n \<le> free_bytes ts"
  by (induction ts) auto

lemma chain_next_nonzero:
  "chain m p as e \<Longrightarrow> \<forall>x \<in> set as. 0 < x \<Longrightarrow> 0 < e \<Longrightarrow> x \<in> set (p # as) \<Longrightarrow> pxNextFreeBlock (m x) \<noteq> 0"
  by (induction as arbitrary: p) auto

lemma heap_okD:
  assumes "heap_ok base s ts"
  shows "pxEnd s \<noteq> 0" "chain (blk s) xStart (frees ts) (pxEnd s)" "headers (blk s) ts" "tiled base ts (pxEnd s)"
    "xStart < base" "xFreeBytesRemaining s = free_bytes ts" "pxNextFreeBlock (blk s (pxEnd s)) = 0"
    "\<And>x. x \<in> set (frees ts) \<Longrightarrow> xStart < x \<and> x < pxEnd s \<and> pxNextFreeBlock (blk s x) \<noteq> 0"
proof -
  show ok: "chain (blk s) xStart (frees ts) (pxEnd s)" "headers (blk s) ts" "tiled base ts (pxEnd s)"
    "xStart < base" "xFreeBytesRemaining s = free_bytes ts" "pxNextFreeBlock (blk s (pxEnd s)) = 0"
    using assms by (simp_all add: heap_ok_def)
  show e: "pxEnd s \<noteq> 0" using tiled_le [OF ok(3)] ok(4) by simp
  fix x assume x: "x \<in> set (frees ts)"
  have "\<forall>x \<in> set (frees ts). xStart < x" using frees_bounds [OF ok(3)] ok(4) by fastforce
  then show "xStart < x \<and> x < pxEnd s \<and> pxNextFreeBlock (blk s x) \<noteq> 0"
    using x frees_bounds [OF ok(3) x] chain_next_nonzero [OF ok(1), of x] e by fastforce
qed

text \<open>The bounds that the pointer checks ask for.\<close>

definition inside :: "nat \<Rightarrow> nat \<Rightarrow> nat \<Rightarrow> heap4 \<Rightarrow> bool" where
  "inside ucHeap heap_size base s \<longleftrightarrow> ucHeap \<le> base \<and> pxEnd s < ucHeap + heap_size"

lemma inside_valid:
  "inside ucHeap heap_size base s \<Longrightarrow> base \<le> p \<Longrightarrow> p \<le> pxEnd s \<Longrightarrow> heapVALIDATE_BLOCK_POINTER ucHeap heap_size p"
  by (auto simp: inside_def heapVALIDATE_BLOCK_POINTER_def)

lemma frees_valid:
  assumes "inside ucHeap heap_size base s" and "heap_ok base s ts" and "x \<in> set (frees ts)"
  shows "heapVALIDATE_BLOCK_POINTER ucHeap heap_size x"
  using inside_valid [OF assms(1)] frees_bounds [OF heap_okD(4) [OF assms(2)] assms(3)] by simp

lemma find_free_fits:
  assumes "inside ucHeap heap_size base s" and "heap_ok base s (us @ (b, n, False) # vs)" and "w \<le> n" and "\<forall>(c, k, al) \<in> set us. al \<or> k < w"
  shows "find_free (heapVALIDATE_BLOCK_POINTER ucHeap heap_size) (blk s) w xStart (pxNextFreeBlock (blk s xStart)) = Some (last (xStart # frees us), b)"
proof (rule find_free_walk)
  have S: "chain (blk s) xStart (frees us @ b # frees vs) (pxEnd s)" "headers (blk s) us" "xBlockSize (blk s b) = n"
    using assms(2) by (simp_all add: heap_ok_def)
  show "chain (blk s) xStart (frees us) b" using S(1) by (simp only: chain_append)
  show "\<forall>x \<in> set (frees us). heapVALIDATE_BLOCK_POINTER ucHeap heap_size x \<and> xBlockSize (blk s x) < w \<and> pxNextFreeBlock (blk s x) \<noteq> 0"
  proof
    fix x assume x: "x \<in> set (frees us)"
    then obtain k where k: "(x, k, False) \<in> set us" by (auto simp: frees_in)
    with headersD [OF S(2) k] assms(4) have "xBlockSize (blk s x) < w" by auto
    with heap_okD(8) [OF assms(2), of x] x frees_valid [OF assms(1,2), of x]
    show "heapVALIDATE_BLOCK_POINTER ucHeap heap_size x \<and> xBlockSize (blk s x) < w \<and> pxNextFreeBlock (blk s x) \<noteq> 0" by simp
  qed
  show "heapVALIDATE_BLOCK_POINTER ucHeap heap_size b" by (rule frees_valid [OF assms(1,2)]) simp
  show "w \<le> xBlockSize (blk s b) \<or> pxNextFreeBlock (blk s b) = 0" using S(3) assms(3) by simp
qed

lemma find_free_none:
  assumes "inside ucHeap heap_size base s" and "heap_ok base s ts" and "\<forall>(c, k, al) \<in> set ts. al \<or> k < w"
  shows "find_free (heapVALIDATE_BLOCK_POINTER ucHeap heap_size) (blk s) w xStart (pxNextFreeBlock (blk s xStart)) = Some (last (xStart # frees ts), pxEnd s)"
proof (rule find_free_walk [OF heap_okD(2) [OF assms(2)]])
  show "\<forall>x \<in> set (frees ts). heapVALIDATE_BLOCK_POINTER ucHeap heap_size x \<and> xBlockSize (blk s x) < w \<and> pxNextFreeBlock (blk s x) \<noteq> 0"
  proof
    fix x assume x: "x \<in> set (frees ts)"
    then obtain k where k: "(x, k, False) \<in> set ts" by (auto simp: frees_in)
    with headersD [OF heap_okD(3) [OF assms(2)] k] assms(3) have "xBlockSize (blk s x) < w" by auto
    with heap_okD(8) [OF assms(2) x] frees_valid [OF assms(1,2) x]
    show "heapVALIDATE_BLOCK_POINTER ucHeap heap_size x \<and> xBlockSize (blk s x) < w \<and> pxNextFreeBlock (blk s x) \<noteq> 0" by simp
  qed
  show "heapVALIDATE_BLOCK_POINTER ucHeap heap_size (pxEnd s)"
    by (rule inside_valid [OF assms(1) tiled_le [OF heap_okD(4) [OF assms(2)]]]) simp
  show "w \<le> xBlockSize (blk s (pxEnd s)) \<or> pxNextFreeBlock (blk s (pxEnd s)) = 0" using heap_okD(7) [OF assms(2)] by simp
qed

text \<open>The size adjustment adds the header and rounds up to the alignment, or yields 0.\<close>

lemma and_7: "unat (x AND (7 :: u32)) = unat x mod 8"
proof -
  have "x AND 7 = take_bit 3 x" by (simp add: take_bit_eq_mask mask_eq_exp_minus_1)
  then show ?thesis by (simp add: unsigned_take_bit_eq take_bit_nat_def)
qed

lemma overflow_iff: "heapADD_WILL_OVERFLOW a b \<longleftrightarrow> 2 ^ 32 \<le> unat a + unat b"
proof -
  have "unat b \<le> 4294967295" using unat_u32_less [of b] by linarith
  then have "b \<le> 0xFFFFFFFF" by (simp add: word_le_nat_alt)
  then have "unat (0xFFFFFFFF - b) = 0xFFFFFFFF - unat b" by (simp add: unat_sub)
  moreover have "4294967295 - unat b < unat a \<longleftrightarrow> 4294967296 \<le> unat a + unat b" using \<open>unat b \<le> 4294967295\<close> by (simp only: less_diff_conv2) linarith
  ultimately show ?thesis by (simp add: heapADD_WILL_OVERFLOW_def word_less_nat_alt)
qed

lemma round_up_8: "n mod 8 \<noteq> 0 \<Longrightarrow> n + (8 - n mod 8) = (n + 7) div 8 * (8 :: nat)" "n mod 8 = 0 \<Longrightarrow> n = (n + 7) div 8 * (8 :: nat)"
proof -
  define q where "q = n div 8"
  define r where "r = n mod 8"
  have n: "n = 8 * q + r" "r < 8" by (simp_all add: q_def r_def)
  show "n + (8 - n mod 8) = (n + 7) div 8 * 8" if "n mod 8 \<noteq> 0"
  proof -
    have "n + 7 = (r - 1) + 8 * (q + 1)" "r - 1 < 8" using that n by (simp_all add: r_def [symmetric])
    then have "(n + 7) div 8 = q + 1" by (simp only: div_mult_self2)
    then show ?thesis using n by (simp add: r_def [symmetric])
  qed
  show "n = (n + 7) div 8 * 8" if "n mod 8 = 0"
  proof -
    have "n + 7 = 7 + 8 * q" using that n by (simp add: r_def [symmetric])
    then have "(n + 7) div 8 = q" by simp
    then show ?thesis using that n by (simp add: r_def [symmetric])
  qed
qed

lemma adjust_size_exact:
  "unat (adjust_size w) = (if 0 < unat w \<and> (unat w + 15) div 8 * 8 < 2 ^ 32 then (unat w + 15) div 8 * 8 else 0)"
proof (cases "unat w < 2 ^ 32 - 8")
  case True
  define n where "n = unat w + 8"
  have ov: "\<not> heapADD_WILL_OVERFLOW w 8" using True by (simp add: overflow_iff)
  have w8: "unat (w + 8) = n" using True by (simp add: unat_word_ariths n_def)
  have r: "unat ((w + 8) AND 7) = n mod 8" by (simp only: and_7 w8)
  have s: "unat (8 - ((w + 8) AND 7)) = 8 - n mod 8" using r by (simp add: unat_sub word_le_nat_alt)
  have z: "(w + 8) AND 7 = 0 \<longleftrightarrow> n mod 8 = 0" using r by (metis unat_0 unat_eq_0)
  have ov2: "heapADD_WILL_OVERFLOW (w + 8) (8 - ((w + 8) AND 7)) \<longleftrightarrow> 2 ^ 32 \<le> n + (8 - n mod 8)"
    by (simp only: overflow_iff s w8)
  have n: "n < 2 ^ 32" "(unat w + 15) div 8 * 8 = (n + 7) div 8 * 8" using True by (simp_all add: n_def)
  consider "w = 0" | "w \<noteq> 0" "n mod 8 = 0" | "w \<noteq> 0" "n mod 8 \<noteq> 0" by blast
  then show ?thesis
  proof cases
    case 1
    then show ?thesis by (simp add: adjust_size_def)
  next
    case 2
    then show ?thesis
      using ov z w8 n round_up_8(2) [of n] by (simp add: adjust_size_def word_greater_zero_iff unat_gt_0)
  next
    case 3
    show ?thesis
    proof (cases "2 ^ 32 \<le> n + (8 - n mod 8)")
      case True
      then have "adjust_size w = 0"
        using 3 ov ov2 z by (simp only: adjust_size_def Let_def simp_thms if_True if_False word_greater_zero_iff)
      then show ?thesis using True n(2) round_up_8(1) [OF 3(2)] by simp
    next
      case False
      then have "adjust_size w = w + 8 + (8 - ((w + 8) AND 7))"
        using 3 ov ov2 z by (simp only: adjust_size_def Let_def simp_thms if_True if_False word_greater_zero_iff)
      moreover have "unat (w + 8 + (8 - ((w + 8) AND 7))) = n + (8 - n mod 8)"
        using False w8 s by (subst unat_add_small) simp_all
      ultimately show ?thesis using False n(2) round_up_8(1) [OF 3(2)] 3(1) by (simp add: unat_gt_0)
    qed
  qed
next
  case False
  then have "heapADD_WILL_OVERFLOW w 8" by (simp add: overflow_iff)
  with False show ?thesis by (auto simp: adjust_size_def word_greater_zero_iff)
qed

lemma valid_size: "heapBLOCK_SIZE_IS_VALID x \<longleftrightarrow> unat x < 2 ^ 31"
proof -
  define m where "m = (push_bit 31 1 :: u32)"
  have m: "bit m k \<longleftrightarrow> k = 31" for k unfolding m_def bit_push_bit_iff by (auto simp: bit_1_iff)
  have "x AND m = (if bit x 31 then m else 0)" by (rule bit_eqI) (auto simp: bit_and_iff m)
  moreover have "m \<noteq> 0" using m [of 31] by auto
  ultimately have "x AND m = 0 \<longleftrightarrow> \<not> bit x 31" by simp
  then have "heapBLOCK_SIZE_IS_VALID x \<longleftrightarrow> \<not> bit x 31" by (simp add: heapBLOCK_SIZE_IS_VALID_def m_def)
  also have "bit x 31 \<longleftrightarrow> bit (unat x) 31" by (simp add: bit_unsigned_iff)
  also have "\<dots> \<longleftrightarrow> odd (unat x div 2 ^ 31)" by (simp add: bit_iff_odd)
  also have "\<not> \<dots> \<longleftrightarrow> unat x < 2 ^ 31"
  proof -
    have "unat x div 2 ^ 31 < 2" using unat_u32_less [of x] by (simp add: div_less_iff_less_mult)
    then have "odd (unat x div 2 ^ 31) \<longleftrightarrow> unat x div 2 ^ 31 \<noteq> 0" by (auto simp: less_2_cases_iff)
    then show ?thesis by (simp add: div_eq_0_iff)
  qed
  finally show ?thesis .
qed

text \<open>The block sizes the code may hand out for a request; \<open>None\<close> when the request cannot be met at all.\<close>

definition block_for :: "u32 \<Rightarrow> nat option" where
  "block_for want = (let n = (unat want + 15) div 8 * 8 in if want \<noteq> 0 \<and> n < 2 ^ 31 then Some n else None)"

lemma malloc_asserts_hold:
  assumes "inside ucHeap heap_size base s" and "heap_ok base s (us @ (b, n, False) # vs)" and "w mod 8 = 0" "w \<le> n" "0 < w"
  shows "malloc_asserts ucHeap heap_size w (last (xStart # frees us)) b s"
proof -
  note S = heap_split [OF assms(2)]
  have "chain (blk s) (last (xStart # frees us)) (b # frees vs) (pxEnd s)"
    using chain_split [of "blk s" xStart "frees us" "b # frees vs" "pxEnd s"] S(13) by simp
  then have nx: "pxNextFreeBlock (blk s (last (xStart # frees us))) = b" by simp
  have "8 \<le> n" using S(3,4) by (simp add: dvd_imp_le mod_0_imp_dvd)
  then have "heapVALIDATE_BLOCK_POINTER ucHeap heap_size (b + 8)"
    using tiled_le [OF S(1)] S(7) by (intro inside_valid [OF assms(1)]) simp_all
  moreover have "(b + w) mod 8 = 0" "(b + 8) mod 8 = 0" using S(5) assms(3) by (simp_all add: mod_add_eq [symmetric])
  ultimately show ?thesis
    using assms(4) S(16) by (simp add: malloc_asserts_def nx Let_def xHeapStructSize_def portBYTE_ALIGNMENT_def del: last.simps)
qed

lemma malloc_refines:
  assumes "heap_ok base s ts" and "inside ucHeap heap_size base s"
  shows "case (case block_for want of None \<Rightarrow> None | Some w \<Rightarrow> first_fit w ts) of
      None \<Rightarrow> pvPortMalloc ucHeap heap_size want s = Some (0, s)
    | Some (b, ts') \<Rightarrow> \<exists>s'. pvPortMalloc ucHeap heap_size want s = Some (b + 8, s') \<and> heap_ok base s' ts' \<and> pxEnd s' = pxEnd s"
proof -
  define w where "w = unat (adjust_size want)"
  note H = heap_okD [OF assms(1)]
  have valid: "heapBLOCK_SIZE_IS_VALID (adjust_size want) \<and> adjust_size want > 0 \<longleftrightarrow> block_for want = Some w"
    "block_for want = None \<longleftrightarrow> \<not> (heapBLOCK_SIZE_IS_VALID (adjust_size want) \<and> adjust_size want > 0)"
    using adjust_size_exact [of want] by (auto simp: valid_size block_for_def w_def Let_def word_greater_zero_iff unat_eq_0 unat_gt_0 split: if_splits)
  show ?thesis
  proof (cases "block_for want")
    case None
    with valid(2) show ?thesis by (auto simp: pvPortMalloc_def H(1))
  next
    case (Some w')
    with valid have w: "block_for want = Some w" by auto
    then have mod: "w mod 8 = 0" "0 < w" by (auto simp: block_for_def Let_def unat_gt_0 div_greater_zero_iff split: if_splits)
    have v: "heapBLOCK_SIZE_IS_VALID (adjust_size want)" "adjust_size want > 0" using w valid(1) by blast+
    show ?thesis
    proof (cases "first_fit w ts")
      case None
      with find_free_none [OF assms(2,1), of w] have "find_free (heapVALIDATE_BLOCK_POINTER ucHeap heap_size) (blk s) w xStart (pxNextFreeBlock (blk s xStart)) = Some (last (xStart # frees ts), pxEnd s)"
        by (simp add: first_fit_None)
      then have "pvPortMalloc ucHeap heap_size want s = Some (0, s)" using v by (simp add: pvPortMalloc_def H(1) w_def Let_def)
      with None w show ?thesis by simp
    next
      case (Some bt)
      obtain b ts' where bt: "bt = (b, ts')" by (cases bt)
      with first_fit_Some [of w ts b ts'] Some obtain us n vs where
        *: "ts = us @ (b, n, False) # vs" "ts' = us @ carved b n w @ vs" "w \<le> n" "\<forall>(c, k, al) \<in> set us. al \<or> k < w"
        by auto
      have ok: "heap_ok base s (us @ (b, n, False) # vs)" using assms(1) *(1) by simp
      note find = find_free_fits [OF assms(2) ok *(3,4)]
      obtain pv s' where take: "take_block w (last (xStart # frees us)) b s = (pv, s')" by (cases "take_block w (last (xStart # frees us)) b s")
      note taken = take_block_ok [OF ok mod(2,1) *(3) take]
      have "w \<le> xFreeBytesRemaining s" "b \<noteq> pxEnd s"
        using *(1,3) free_bytes_ge [of b n ts] H(6) H(8) [of b] by (auto simp: frees_in)
      moreover have "malloc_asserts ucHeap heap_size w (last (xStart # frees us)) b s"
        by (rule malloc_asserts_hold [OF assms(2) ok mod(1) *(3) mod(2)])
      ultimately have "pvPortMalloc ucHeap heap_size want s = Some (b + 8, s')"
        using find take taken v by (simp add: pvPortMalloc_def H(1) w_def Let_def)
      with taken *(2) show ?thesis by (simp add: w Some bt)
    qed
  qed
qed

section \<open>Release on the tiling\<close>

lemma merge_block_fields:
  assumes "it < b" and "b < pxNextFreeBlock (blk s it)" and "0 < xBlockSize (blk s b)"
  defines "nx \<equiv> pxNextFreeBlock (blk s it)"
  defines "L \<equiv> it + xBlockSize (blk s it) = b"
  defines "c \<equiv> if L then it else b"
  defines "k \<equiv> if L then xBlockSize (blk s it) + xBlockSize (blk s b) else xBlockSize (blk s b)"
  defines "R \<equiv> c + k = nx \<and> nx \<noteq> pxEnd s"
  shows "pxNextFreeBlock (blk (merge_block it b s) x) =
      (if x = c then (if R then pxNextFreeBlock (blk s nx) else nx) else if x = it then c else pxNextFreeBlock (blk s x))"
    and "xBlockSize (blk (merge_block it b s) x) = (if x = c then (if R then k + xBlockSize (blk s nx) else k) else xBlockSize (blk s x))"
    and "allocated (blk (merge_block it b s) x) = allocated (blk s x)"
    and "pxEnd (merge_block it b s) = pxEnd s"
    and "xFreeBytesRemaining (merge_block it b s) = xFreeBytesRemaining s"
    and "xNumberOfSuccessfulFrees (merge_block it b s) = xNumberOfSuccessfulFrees s"
proof -
  define s1 where "s1 = (if L then set_blk it (\<lambda>x. x\<lparr>xBlockSize := xBlockSize x + xBlockSize (blk s b)\<rparr>) s else s)"
  have ne: "it \<noteq> b" "nx \<noteq> it" "nx \<noteq> b" using assms(1,2) by (simp_all add: nx_def)
  have one: "(if it + xBlockSize (blk s it) = b then (set_blk it (\<lambda>x. x\<lparr>xBlockSize := xBlockSize x + xBlockSize (blk s b)\<rparr>) s, it) else (s, b)) = (s1, c)"
    by (simp add: s1_def c_def L_def)
  have s1: "blk s1 x = (if L \<and> x = it then (blk s it)\<lparr>xBlockSize := k\<rparr> else blk s x)" "pxEnd s1 = pxEnd s"
    "xFreeBytesRemaining s1 = xFreeBytesRemaining s" "xNumberOfSuccessfulFrees s1 = xNumberOfSuccessfulFrees s" for x
    by (auto simp: s1_def k_def)
  have nx: "pxNextFreeBlock (blk s1 it) = nx" "pxNextFreeBlock (blk s1 nx) = pxNextFreeBlock (blk s nx)"
    "xBlockSize (blk s1 nx) = xBlockSize (blk s nx)" "xBlockSize (blk s1 c) = k"
    using ne by (auto simp: s1 nx_def c_def k_def)
  define s2 where "s2 = set_blk c (\<lambda>x. x\<lparr>xBlockSize := (if R then k + xBlockSize (blk s nx) else k),
    pxNextFreeBlock := (if R then pxNextFreeBlock (blk s nx) else nx)\<rparr>) s1"
  have two: "(if c + xBlockSize (blk s1 c) = nx then
                 if nx \<noteq> pxEnd s1
                 then set_blk c (\<lambda>x. x\<lparr>xBlockSize := xBlockSize x + xBlockSize (blk s1 nx),
                                        pxNextFreeBlock := pxNextFreeBlock (blk s1 nx)\<rparr>) s1
                 else set_blk c (\<lambda>x. x\<lparr>pxNextFreeBlock := pxEnd s1\<rparr>) s1
               else set_blk c (\<lambda>x. x\<lparr>pxNextFreeBlock := nx\<rparr>) s1) = s2"
  proof -
    have upd: "(blk s1 c)\<lparr>xBlockSize := k, pxNextFreeBlock := v\<rparr> = (blk s1 c)\<lparr>pxNextFreeBlock := v\<rparr>" for v
      using nx(4) by (cases "blk s1 c") simp
    show ?thesis unfolding nx s1(2) s2_def R_def by (simp add: set_blk_def nx upd)
  qed
  have m: "merge_block it b s = (if it \<noteq> c then set_blk it (\<lambda>x. x\<lparr>pxNextFreeBlock := c\<rparr>) s2 else s2)"
    unfolding merge_block_def one Let_def prod.case nx(1) two ..
  show "pxNextFreeBlock (blk (merge_block it b s) x) =
      (if x = c then (if R then pxNextFreeBlock (blk s nx) else nx) else if x = it then c else pxNextFreeBlock (blk s x))"
    using ne by (simp add: m s2_def s1)
  show "xBlockSize (blk (merge_block it b s) x) = (if x = c then (if R then k + xBlockSize (blk s nx) else k) else xBlockSize (blk s x))"
    using ne by (auto simp: m s2_def s1 c_def)
  show "allocated (blk (merge_block it b s) x) = allocated (blk s x)" by (simp add: m s2_def s1)
  show "pxEnd (merge_block it b s) = pxEnd s" by (simp add: m s2_def s1)
  show "xFreeBytesRemaining (merge_block it b s) = xFreeBytesRemaining s" by (simp add: m s2_def s1)
  show "xNumberOfSuccessfulFrees (merge_block it b s) = xNumberOfSuccessfulFrees s" by (simp add: m s2_def s1)
qed

text \<open>The release on tilings: the block becomes free and absorbs a free neighbour on either side.\<close>

definition absorb_left :: "tile list \<Rightarrow> nat \<Rightarrow> nat \<Rightarrow> tile list \<times> nat \<times> nat" where
  "absorb_left us b n =
     (if us \<noteq> [] \<and> \<not> snd (snd (last us)) then (butlast us, fst (last us), fst (snd (last us)) + n) else (us, b, n))"

definition absorb_right :: "nat \<Rightarrow> tile list \<Rightarrow> nat \<times> tile list" where
  "absorb_right n vs = (case vs of (d, m, False) # vs' \<Rightarrow> (n + m, vs') | _ \<Rightarrow> (n, vs))"

definition released :: "tile list \<Rightarrow> nat \<Rightarrow> nat \<Rightarrow> tile list \<Rightarrow> tile list" where
  "released us b n vs =
     (let (us, b, n) = absorb_left us b n; (n, vs) = absorb_right n vs in us @ (b, n, False) # vs)"

lemma coalesced_gap:
  "coalesced (us @ (b, n, True) # vs) \<Longrightarrow> coalesced us \<and> coalesced vs"
  by (simp add: coalesced_append coalesced_Cons)

lemma last_free_left:
  assumes "tiled base us b" and "xStart < base" and "headers m us" and "xBlockSize (m xStart) = 0" and "coalesced us"
  shows "last (xStart # frees us) + xBlockSize (m (last (xStart # frees us))) = b \<longleftrightarrow> us \<noteq> [] \<and> \<not> snd (snd (last us))"
proof (cases us rule: rev_cases)
  case Nil
  then show ?thesis using assms by simp
next
  case (snoc ws t)
  obtain c k al where t: "t = (c, k, al)" by (cases t)
  have tl: "tiled base ws c" "c + k = b" "0 < k" using assms(1) snoc t by (auto simp: tiled_append)
  show ?thesis
  proof (cases al)
    case False
    then show ?thesis using assms(3) snoc t tl by simp
  next
    case True
    have "last (xStart # frees ws) + xBlockSize (m (last (xStart # frees ws))) \<le> c"
    proof (cases "frees ws = []")
      case True
      then show ?thesis using assms(2,4) tiled_le [OF tl(1)] by simp
    next
      case False
      then have "last (frees ws) \<in> set (frees ws)" by simp
      then obtain k' where k': "(last (frees ws), k', False) \<in> set ws" by (auto simp: frees_in)
      then have "xBlockSize (m (last (frees ws))) = k'" using headersD [of m us _ k' False] assms(3) snoc by auto
      then show ?thesis using tiled_bounds [OF tl(1) k'] False by simp
    qed
    then show ?thesis using True snoc t tl by simp
  qed
qed

lemma next_free_right:
  assumes "tiled a vs e"
  shows "a = hd (frees vs @ [e]) \<and> hd (frees vs @ [e]) \<noteq> e \<longleftrightarrow> vs \<noteq> [] \<and> \<not> snd (snd (hd vs))"
    and "a \<le> hd (frees vs @ [e])"
proof -
  show le: "a \<le> hd (frees vs @ [e])"
    using frees_bounds [OF assms] tiled_le [OF assms] by (cases "frees vs") auto
  show "a = hd (frees vs @ [e]) \<and> hd (frees vs @ [e]) \<noteq> e \<longleftrightarrow> vs \<noteq> [] \<and> \<not> snd (snd (hd vs))"
  proof (cases vs)
    case (Cons v ws)
    obtain d m al where v: "v = (d, m, al)" by (cases v)
    have tl: "d = a" "0 < m" "tiled (a + m) ws e" using assms Cons v by auto
    have "a + m \<le> hd (frees ws @ [e])"
      using frees_bounds [OF tl(3)] tiled_le [OF tl(3)] by (cases "frees ws") auto
    then show ?thesis using Cons v tl tiled_le [OF tl(3)] by auto
  qed simp
qed

lemma absorb_left_ok:
  assumes "tiled base us b" and "coalesced us" and "headers m us" and "xStart < base" and "0 < n" "n mod 8 = 0"
    and "absorb_left us b n = (us', c, k)"
  defines "left \<equiv> us \<noteq> [] \<and> \<not> snd (snd (last us))"
  shows "tiled base us' c" "c + k = b + n" "0 < k" "k mod 8 = 0" "coalesced us'" "us' = [] \<or> snd (snd (last us'))" "headers m us'"
    "frees us = frees us' @ (if left then [c] else [])" "left \<Longrightarrow> c = last (xStart # frees us) \<and> k = xBlockSize (m c) + n"
    "\<not> left \<Longrightarrow> us' = us \<and> c = b \<and> k = n" "free_bytes us' + k = free_bytes us + n"
proof -
  have "tiled base us' c \<and> c + k = b + n \<and> 0 < k \<and> k mod 8 = 0 \<and> coalesced us' \<and> (us' = [] \<or> snd (snd (last us'))) \<and>
    headers m us' \<and> frees us = frees us' @ (if left then [c] else []) \<and> (left \<longrightarrow> c = last (xStart # frees us) \<and> k = xBlockSize (m c) + n) \<and>
    (\<not> left \<longrightarrow> us' = us \<and> c = b \<and> k = n) \<and> free_bytes us' + k = free_bytes us + n"
  proof (cases left)
    case True
    then obtain ws c' k' where us: "us = ws @ [(c', k', False)]"
      unfolding left_def by (cases us rule: rev_cases) auto
    with assms(7) have eq: "us' = ws" "c = c'" "k = k' + n" by (simp_all add: absorb_left_def)
    have "tiled base ws c'" "0 < k'" "c' + k' = b" "k' mod 8 = 0" using assms(1) us by (auto simp: tiled_append)
    moreover have "coalesced ws" "ws = [] \<or> snd (snd (last ws))" using assms(2) us by (auto simp: coalesced_append)
    moreover have "headers m ws" "xBlockSize (m c') = k'" using assms(3) us by simp_all
    moreover have "(k' + n) mod 8 = 0" using \<open>k' mod 8 = 0\<close> assms(6) by (simp add: mod_add_eq [symmetric])
    ultimately show ?thesis using True eq us by simp
  next
    case False
    then have eq: "us' = us" "c = b" "k = n" using assms(7) by (auto simp: absorb_left_def left_def)
    show ?thesis using False eq assms(1-6) unfolding left_def by auto
  qed
  then show "tiled base us' c" "c + k = b + n" "0 < k" "k mod 8 = 0" "coalesced us'" "us' = [] \<or> snd (snd (last us'))" "headers m us'"
    "frees us = frees us' @ (if left then [c] else [])" "left \<Longrightarrow> c = last (xStart # frees us) \<and> k = xBlockSize (m c) + n"
    "\<not> left \<Longrightarrow> us' = us \<and> c = b \<and> k = n" "free_bytes us' + k = free_bytes us + n"
    by blast+
qed

lemma absorb_right_ok:
  assumes "tiled a vs e" and "coalesced vs" and "headers m vs" and "0 < n" "n mod 8 = 0" and "a = c + n"
    and "absorb_right n vs = (k, vs')"
  defines "right \<equiv> vs \<noteq> [] \<and> \<not> snd (snd (hd vs))"
  shows "tiled (c + k) vs' e" "0 < k" "k mod 8 = 0" "coalesced vs'" "vs' = [] \<or> snd (snd (hd vs'))" "headers m vs'"
    "frees vs = (if right then [a] else []) @ frees vs'" "k = (if right then n + xBlockSize (m a) else n)"
    "free_bytes vs' + k = free_bytes vs + n"
proof -
  have "tiled (c + k) vs' e \<and> 0 < k \<and> k mod 8 = 0 \<and> coalesced vs' \<and> (vs' = [] \<or> snd (snd (hd vs'))) \<and> headers m vs' \<and>
    frees vs = (if right then [a] else []) @ frees vs' \<and> k = (if right then n + xBlockSize (m a) else n) \<and>
    free_bytes vs' + k = free_bytes vs + n"
  proof (cases right)
    case True
    then obtain d j ws where vs: "vs = (d, j, False) # ws" unfolding right_def by (cases vs) auto
    with assms(7) have eq: "vs' = ws" "k = n + j" by (simp_all add: absorb_right_def)
    have "d = a" "0 < j" "j mod 8 = 0" "tiled (a + j) ws e" using assms(1) vs by auto
    moreover have "(n + j) mod 8 = 0" using \<open>j mod 8 = 0\<close> assms(5) by (simp add: mod_add_eq [symmetric])
    ultimately show ?thesis using True eq vs assms(2,3,6) by (simp add: coalesced_Cons add.assoc)
  next
    case False
    then have eq: "vs' = vs" "k = n" using assms(7) unfolding right_def
      by (auto simp: absorb_right_def split: list.splits prod.splits bool.splits)
    show ?thesis using False eq assms(1-6) unfolding right_def by auto
  qed
  then show "tiled (c + k) vs' e" "0 < k" "k mod 8 = 0" "coalesced vs'" "vs' = [] \<or> snd (snd (hd vs'))" "headers m vs'"
    "frees vs = (if right then [a] else []) @ frees vs'" "k = (if right then n + xBlockSize (m a) else n)"
    "free_bytes vs' + k = free_bytes vs + n"
    by blast+
qed

lemma headers_only:
  "headers m ts \<Longrightarrow> (\<And>b n al. (b, n, al) \<in> set ts \<Longrightarrow> xBlockSize (m' b) = xBlockSize (m b) \<and> allocated (m' b) = allocated (m b)) \<Longrightarrow>
   (\<And>b n. (b, n, True) \<in> set ts \<Longrightarrow> pxNextFreeBlock (m' b) = pxNextFreeBlock (m b)) \<Longrightarrow> headers m' ts"
  by (rule headers_keep) auto

lemma release_ok:
  assumes "heap_ok base s (us @ (b, n, True) # vs)"
  defines "s1 \<equiv> (set_blk b (\<lambda>x. x\<lparr>allocated := False\<rparr>) s)\<lparr>xFreeBytesRemaining := xFreeBytesRemaining s + n\<rparr>"
  defines "it \<equiv> last (xStart # frees us)"
  shows "find_before (blk s1) b xStart = Some it \<and> heap_ok base (merge_block it b s1) (released us b n vs) \<and>
    pxEnd (merge_block it b s1) = pxEnd s"
proof -
  note S = heap_split [OF assms(1)]
  let ?nx = "hd (frees vs @ [pxEnd s])" and ?e = "pxEnd s"
  have co: "coalesced us" "coalesced vs" "xStart < base" "base mod 8 = 0" "xBlockSize (blk s xStart) = 0"
    "xBlockSize (blk s ?e) = 0" "pxNextFreeBlock (blk s ?e) = 0" "xFreeBytesRemaining s = free_bytes us + free_bytes vs"
    using assms(1) coalesced_gap [of us b n vs] by (simp_all add: heap_ok_def)
  have ch: "chain (blk s) xStart (frees us) ?nx" "chain (blk s) it (frees vs) ?e"
    using chain_split [of "blk s" xStart "frees us" "frees vs" ?e] S(13) by (simp_all add: it_def)
  have m1: "pxNextFreeBlock (blk s1 x) = pxNextFreeBlock (blk s x)" "xBlockSize (blk s1 x) = xBlockSize (blk s x)"
    "allocated (blk s1 x) = (x \<noteq> b \<and> allocated (blk s x))" "pxEnd s1 = ?e"
    "xFreeBytesRemaining s1 = xFreeBytesRemaining s + n" for x by (simp_all add: s1_def)
  have it: "it < b" "pxNextFreeBlock (blk s it) = ?nx" using S(12) chain_hd [OF ch(2)] by (simp_all add: it_def)
  have nx: "b + n \<le> ?nx" by (rule next_free_right(2) [OF S(2)])
  have find: "find_before (blk s1) b xStart = Some it"
    unfolding it_def
  proof (rule find_before_walk)
    show "chain (blk s1) xStart (frees us) ?nx" by (rule chain_keep [OF ch(1)]) (simp add: m1)
    show "\<forall>x \<in> set (frees us). x < b" using S(8) by blast
    show "\<not> ?nx < b" using nx by simp
  qed
  obtain us' c k where AL: "absorb_left us b n = (us', c, k)" by (cases "absorb_left us b n")
  obtain k2 vs' where AR: "absorb_right k vs = (k2, vs')" by (cases "absorb_right k vs")
  define L where "L \<longleftrightarrow> us \<noteq> [] \<and> \<not> snd (snd (last us))"
  define R where "R \<longleftrightarrow> vs \<noteq> [] \<and> \<not> snd (snd (hd vs))"
  note A = absorb_left_ok [OF S(1) co(1) S(14) co(3) S(3,4) AL, folded L_def]
  note B = absorb_right_ok [OF S(2) co(2) S(15) A(3,4) A(2) [symmetric] AR, folded R_def]
  have LL: "it + xBlockSize (blk s it) = b \<longleftrightarrow> L"
    unfolding it_def L_def by (rule last_free_left [OF S(1) co(3) S(14) co(5,1)])
  have c: "c = (if L then it else b)" "k = (if L then xBlockSize (blk s it) + xBlockSize (blk s b) else xBlockSize (blk s b))"
    using A(9,10) S(16) by (auto simp: it_def)
  have RR: "c + k = ?nx \<and> ?nx \<noteq> ?e \<longleftrightarrow> R" unfolding A(2) R_def by (rule next_free_right(1) [OF S(2)])
  have nx_eq: "R \<Longrightarrow> ?nx = b + n" using RR A(2) by simp
  note F = merge_block_fields [of it b s1, unfolded m1 it(2) LL S(16), OF it(1) _ S(3), folded c(1), folded c(2) [unfolded S(16)], unfolded RR]
  have nb: "b < ?nx" using nx S(3) by simp
  define s' where "s' = merge_block it b s1"
  have next': "pxNextFreeBlock (blk s' x) = (if x = c then (if R then pxNextFreeBlock (blk s ?nx) else ?nx) else if x = it then c else pxNextFreeBlock (blk s x))" for x
    unfolding s'_def by (rule F(1) [OF nb])
  have size': "xBlockSize (blk s' x) = (if x = c then k2 else xBlockSize (blk s x))" for x
    unfolding s'_def F(2) [OF nb] B(8) using nx_eq by simp
  have alloc': "allocated (blk s' x) \<longleftrightarrow> x \<noteq> b \<and> allocated (blk s x)" for x
    unfolding s'_def by (rule F(3) [OF nb])
  have end': "pxEnd s' = ?e" "xFreeBytesRemaining s' = xFreeBytesRemaining s + n"
    unfolding s'_def by (rule F(4) [OF nb], rule F(5) [OF nb])
  have cb: "c \<le> b" "base \<le> c" "b < c + k" using A(2) S(3) tiled_le [OF A(1)] c(1) it(1) by auto
  have lt: "x < c \<and> base \<le> x" if "(x, j, al) \<in> set us'" for x j al using tiled_bounds [OF A(1) that] by linarith
  have gt: "c + k2 \<le> x \<and> x < ?e" if "(x, j, al) \<in> set vs'" for x j al using tiled_bounds [OF B(1) that] by linarith
  have k2: "k \<le> k2" "c + k2 \<le> ?e" using B(8) tiled_le [OF B(1)] by auto
  have hu: "headers (blk s') us'"
  proof (rule headers_only [OF A(7)])
    fix x j al assume "(x, j, al) \<in> set us'"
    from lt [OF this] cb show "xBlockSize (blk s' x) = xBlockSize (blk s x) \<and> allocated (blk s' x) = allocated (blk s x)"
      by (simp add: size' alloc')
  next
    fix x j assume x: "(x, j, True) \<in> set us'"
    have "x \<noteq> it"
    proof (cases L)
      case True
      then show ?thesis using c(1) lt [OF x] by simp
    next
      case False
      then have "us' = us" using A(10) by blast
      then show ?thesis using last_free_not_allocated [OF S(14), of x j] x lt [OF x] co(3) by (simp add: it_def)
    qed
    with lt [OF x] show "pxNextFreeBlock (blk s' x) = pxNextFreeBlock (blk s x)" by (simp add: next')
  qed
  have hv: "headers (blk s') vs'"
  proof (rule headers_only [OF B(6)])
    fix x j al assume "(x, j, al) \<in> set vs'"
    from gt [OF this] cb k2 B(2) show "xBlockSize (blk s' x) = xBlockSize (blk s x) \<and> allocated (blk s' x) = allocated (blk s x)"
      by (simp add: size' alloc')
  next
    fix x j assume "(x, j, True) \<in> set vs'"
    from gt [OF this] cb k2 B(2) it(1) show "pxNextFreeBlock (blk s' x) = pxNextFreeBlock (blk s x)" by (simp add: next')
  qed
  have chu: "chain (blk s') xStart (frees us') c"
  proof (cases L)
    case True
    then have "chain (blk s) xStart (frees us') c" using ch(1) A(8) by (simp add: chain_append)
    moreover have "x \<noteq> c" if "x \<in> set (xStart # frees us')" for x
      using that lt cb(2) co(3) by (auto simp: frees_in)
    ultimately show ?thesis using True c(1) by (auto intro!: chain_keep [of "blk s"] simp: next')
  next
    case False
    then have us: "us' = us" "c = b" using A(10) by blast+
    have "x \<noteq> it \<and> x < b" if "x \<in> set (butlast (xStart # frees us))" for x
    proof -
      have "x \<noteq> it" using that S(10) unfolding it_def
        by (metis append_butlast_last_id distinct_butlast list.distinct(1) not_distinct_conv_prefix)
      moreover have "x < b" using in_set_butlastD [OF that] S(6,8) by auto
      ultimately show ?thesis by simp
    qed
    then have keep: "pxNextFreeBlock (blk s' x) = pxNextFreeBlock (blk s x)" if "x \<in> set (butlast (xStart # frees us))" for x
      using that us by (fastforce simp: next')
    have "pxNextFreeBlock (blk s' (last (xStart # frees us))) = b"
      using it(1) us by (simp add: next' it_def [symmetric] del: last.simps)
    from chain_retarget [OF ch(1) S(10) this keep] us show ?thesis by simp
  qed
  have chv: "chain (blk s') c (frees vs') ?e"
  proof -
    have "chain (blk s) (if R then ?nx else it) (frees vs') ?e"
      using ch(2) B(7) nx_eq by auto
    moreover have "pxNextFreeBlock (blk s' c) = pxNextFreeBlock (blk s (if R then ?nx else it))"
      using it(2) by (simp add: next')
    moreover have "pxNextFreeBlock (blk s' x) = pxNextFreeBlock (blk s x)" if "x \<in> set (frees vs')" for x
      using that gt cb k2 B(2) it(1) by (fastforce simp: frees_in next')
    ultimately show ?thesis by (rule chain_restart)
  qed
  have last_free_alloc: "c \<noteq> b \<Longrightarrow> \<not> allocated (blk s c)"
  proof -
    assume "c \<noteq> b"
    then have L using c(1) by (auto split: if_splits)
    then have "frees us = frees us' @ [c]" using A(8) by simp
    then have "c \<in> set (frees us)" by simp
    then obtain j where "(c, j, False) \<in> set us" by (auto simp: frees_in)
    from headersD [OF S(14) this] show ?thesis by simp
  qed
  have "released us b n vs = us' @ (c, k2, False) # vs'" by (simp add: released_def AL AR)
  moreover have "heap_ok base s' (us' @ (c, k2, False) # vs')"
  proof -
    have "tiled base (us' @ (c, k2, False) # vs') ?e" using A(1) B(1,2,3) by (auto simp: tiled_append)
    moreover have "coalesced (us' @ (c, k2, False) # vs')" using A(5,6) B(4,5) by (simp add: coalesced_append coalesced_Cons)
    moreover have "headers (blk s') (us' @ (c, k2, False) # vs')"
      using hu hv alloc' [of c] size' [of c] last_free_alloc by auto
    moreover have "chain (blk s') xStart (frees (us' @ (c, k2, False) # vs')) ?e" using chu chv by (simp add: chain_append)
    moreover have "xBlockSize (blk s' xStart) = 0" "xBlockSize (blk s' ?e) = 0" "pxNextFreeBlock (blk s' ?e) = 0"
      using cb co k2 B(2) it(1) S(7) by (auto simp: size' next')
    moreover have "xFreeBytesRemaining s' = free_bytes (us' @ (c, k2, False) # vs')"
      using A(11) B(9) co(8) end'(2) by simp
    ultimately show ?thesis using co(3,4) end'(1) by (simp add: heap_ok_def)
  qed
  ultimately show ?thesis using find end' unfolding s'_def by simp
qed

lemma heap_ok_frees: "heap_ok base (s\<lparr>xNumberOfSuccessfulFrees := v\<rparr>) ts \<longleftrightarrow> heap_ok base s ts"
  by (simp add: heap_ok_def)

lemma free_refines:
  assumes "heap_ok base s (us @ (b, n, True) # vs)" and "inside ucHeap heap_size base s"
  shows "\<exists>s'. vPortFree ucHeap heap_size (b + 8) s = Some s' \<and> heap_ok base s' (released us b n vs) \<and> pxEnd s' = pxEnd s"
proof -
  let ?s1 = "(set_blk b (\<lambda>x. x\<lparr>allocated := False\<rparr>) s)\<lparr>xFreeBytesRemaining := xFreeBytesRemaining s + n\<rparr>"
  let ?s2 = "merge_block (last (xStart # frees us)) b ?s1"
  note S = heap_split [OF assms(1)] and R = release_ok [OF assms(1)]
  have valid: "heapVALIDATE_BLOCK_POINTER ucHeap heap_size b"
    using inside_valid [OF assms(2) tiled_le [OF S(1)]] S(3,7) by simp
  have prev: "last (xStart # frees us) = xStart \<or> heapVALIDATE_BLOCK_POINTER ucHeap heap_size (last (xStart # frees us))"
    using frees_valid [OF assms(2,1), of "last (frees us)"] by simp
  have "vPortFree ucHeap heap_size (b + 8) s = Some (?s2\<lparr>xNumberOfSuccessfulFrees := xNumberOfSuccessfulFrees ?s2 + 1\<rparr>)"
    using S(16,17,18) R valid prev
    by (simp add: vPortFree_def xHeapStructSize_def prvInsertBlockIntoFreeList_def Let_def del: last.simps)
  moreover have "heap_ok base (?s2\<lparr>xNumberOfSuccessfulFrees := xNumberOfSuccessfulFrees ?s2 + 1\<rparr>) (released us b n vs)"
    "pxEnd ?s2 = pxEnd s"
    using R unfolding heap_ok_frees by blast+
  ultimately show ?thesis by simp
qed

section \<open>Initialisation and runs\<close>

lemma align_down_mod: "align_down a mod 8 = 0"
  by (simp add: align_down_def portBYTE_ALIGNMENT_def minus_mod_eq_mult_div)

lemma heap_start_bounds: "ucHeap \<le> heap_start ucHeap \<and> heap_start ucHeap < ucHeap + 8 \<and> heap_start ucHeap mod 8 = 0"
proof (cases "ucHeap mod 8 = 0")
  case False
  have "(ucHeap + 7) mod 8 \<le> 7" by (simp add: less_Suc_eq_le [symmetric])
  then have "ucHeap \<le> align_down (ucHeap + 7)" by (simp add: align_down_def portBYTE_ALIGNMENT_def)
  moreover have "align_down (ucHeap + 7) < ucHeap + 8" by (simp add: align_down_def portBYTE_ALIGNMENT_def)
  ultimately show ?thesis using False align_down_mod [of "ucHeap + 7"]
    by (simp add: heap_start_def portBYTE_ALIGNMENT_def)
qed (simp add: heap_start_def portBYTE_ALIGNMENT_def)

lemma heap_end_bounds:
  assumes "32 \<le> heap_size"
  shows "heap_start ucHeap < heap_end ucHeap heap_size" "heap_end ucHeap heap_size + 8 \<le> ucHeap + heap_size"
    "(heap_end ucHeap heap_size - heap_start ucHeap) mod 8 = 0" "ucHeap + heap_size < heap_end ucHeap heap_size + 16"
proof -
  define x where "x = heap_start ucHeap + (heap_size - (heap_start ucHeap - ucHeap)) - 8"
  have x: "x = ucHeap + heap_size - 8" using heap_start_bounds [of ucHeap] assms by (simp add: x_def)
  have e: "heap_end ucHeap heap_size = x - x mod 8"
    by (simp add: heap_end_def x_def align_down_def xHeapStructSize_def portBYTE_ALIGNMENT_def)
  define r where "r = x mod 8"
  have r: "r < 8" "heap_end ucHeap heap_size = x - r" using e by (simp_all add: r_def)
  have a: "ucHeap \<le> heap_start ucHeap" "heap_start ucHeap < ucHeap + 8" using heap_start_bounds [of ucHeap] by simp_all
  show lt: "heap_start ucHeap < heap_end ucHeap heap_size" "heap_end ucHeap heap_size + 8 \<le> ucHeap + heap_size"
    "ucHeap + heap_size < heap_end ucHeap heap_size + 16"
  proof -
    obtain h where h: "heap_size = h + 32" using assms by (metis add.commute le_Suc_ex)
    have "x = ucHeap + h + 24" using x h by simp
    then have e': "heap_end ucHeap heap_size + r = ucHeap + h + 24" using r by simp
    show "heap_start ucHeap < heap_end ucHeap heap_size" using e' r(1) a(2) by linarith
    show "heap_end ucHeap heap_size + 8 \<le> ucHeap + heap_size" using e' h by linarith
    show "ucHeap + heap_size < heap_end ucHeap heap_size + 16" using e' h r(1) by linarith
  qed
  have "8 dvd heap_end ucHeap heap_size" by (simp add: e dvd_minus_mod)
  moreover have "8 dvd heap_start ucHeap" using heap_start_bounds [of ucHeap] by (blast intro: mod_0_imp_dvd)
  ultimately have "8 dvd heap_end ucHeap heap_size - heap_start ucHeap" by (rule dvd_diff_nat)
  then show "(heap_end ucHeap heap_size - heap_start ucHeap) mod 8 = 0" by (rule dvd_imp_mod_0)
qed

lemma heap_init_ok:
  assumes "32 \<le> heap_size" and "xStart < ucHeap"
  shows "heap_ok (heap_start ucHeap) (prvHeapInit ucHeap heap_size s)
    [(heap_start ucHeap, heap_end ucHeap heap_size - heap_start ucHeap, False)]"
proof -
  note E = heap_end_bounds [OF assms(1), of ucHeap] and A = heap_start_bounds [of ucHeap]
  have "xStart < heap_start ucHeap" using assms(2) A by linarith
  with E A show ?thesis by (simp add: heap_ok_def prvHeapInit_def Let_def)
qed

lemma inside_heap:
  assumes "32 \<le> heap_size" and "pxEnd s = heap_end ucHeap heap_size"
  shows "inside ucHeap heap_size (heap_start ucHeap) s"
  using heap_end_bounds(2) [OF assms(1), of ucHeap] heap_start_bounds [of ucHeap] by (simp add: inside_def assms(2))

lemma init_end: "pxEnd (prvHeapInit ucHeap heap_size s) = heap_end ucHeap heap_size"
  by (simp add: prvHeapInit_def Let_def)

lemma malloc_first:
  assumes "pxEnd s = 0" and "32 \<le> heap_size" and "xStart < ucHeap"
  shows "pvPortMalloc ucHeap heap_size want s = pvPortMalloc ucHeap heap_size want (prvHeapInit ucHeap heap_size s)"
proof -
  have "(pxEnd (prvHeapInit ucHeap heap_size s) = 0) = False" using heap_okD(1) [OF heap_init_ok [OF assms(2,3)]] by blast
  then show ?thesis using assms(1) unfolding pvPortMalloc_def by (simp only: if_True if_False simp_thms)
qed

text \<open>Runs of the allocator: any order of allocations and of releases of live pointers, with the live
  regions (pointer and requested size).\<close>

inductive heap_run :: "nat \<Rightarrow> nat \<Rightarrow> heap4 \<Rightarrow> (nat \<times> nat) set \<Rightarrow> bool" for ucHeap heap_size where
  boot: "pxEnd s = 0 \<Longrightarrow> heap_run ucHeap heap_size s {}"
| malloc: "heap_run ucHeap heap_size s live \<Longrightarrow> pvPortMalloc ucHeap heap_size want s = Some (p, s') \<Longrightarrow>
    heap_run ucHeap heap_size s' (if p = 0 then live else insert (p, unat want) live)"
| release: "heap_run ucHeap heap_size s live \<Longrightarrow> (p, n) \<in> live \<Longrightarrow> vPortFree ucHeap heap_size p s = Some s' \<Longrightarrow>
    heap_run ucHeap heap_size s' (live - {(p, n)})"

text \<open>The live regions are distinct allocated blocks of the tiling.\<close>

definition live_ok :: "tile list \<Rightarrow> (nat \<times> nat) set \<Rightarrow> bool" where
  "live_ok ts live \<longleftrightarrow> (\<forall>(p, n) \<in> live. \<exists>b k. p = b + 8 \<and> n + 8 \<le> k \<and> (b, k, True) \<in> set ts) \<and>
     (\<forall>p n m. (p, n) \<in> live \<longrightarrow> (p, m) \<in> live \<longrightarrow> n = m)"

lemma live_okD: "live_ok ts live \<Longrightarrow> (p, n) \<in> live \<Longrightarrow> \<exists>b k. p = b + 8 \<and> n + 8 \<le> k \<and> (b, k, True) \<in> set ts"
  unfolding live_ok_def by blast

lemma live_ok_keep:
  "live_ok ts live \<Longrightarrow> live' \<subseteq> live \<Longrightarrow>
   (\<And>b k n. (b + 8, n) \<in> live' \<Longrightarrow> (b, k, True) \<in> set ts \<Longrightarrow> (b, k, True) \<in> set ts') \<Longrightarrow> live_ok ts' live'"
proof -
  assume ok: "live_ok ts live" "live' \<subseteq> live" and k: "\<And>b k n. (b + 8, n) \<in> live' \<Longrightarrow> (b, k, True) \<in> set ts \<Longrightarrow> (b, k, True) \<in> set ts'"
  have "\<exists>b k. p = b + 8 \<and> n + 8 \<le> k \<and> (b, k, True) \<in> set ts'" if "(p, n) \<in> live'" for p n
  proof -
    have "(p, n) \<in> live" using that ok(2) by blast
    from live_okD [OF ok(1) this] obtain b j where b: "p = b + 8" "n + 8 \<le> j" "(b, j, True) \<in> set ts" by blast
    with k that have "(b, j, True) \<in> set ts'" by blast
    with b show ?thesis by blast
  qed
  moreover have "n = m" if "(p, n) \<in> live'" "(p, m) \<in> live'" for p n m
  proof -
    have "(p, n) \<in> live" "(p, m) \<in> live" using that ok(2) by blast+
    with ok(1) show ?thesis unfolding live_ok_def by metis
  qed
  ultimately show ?thesis unfolding live_ok_def by blast
qed

lemma live_ok_insert:
  "live_ok ts live \<Longrightarrow> (b, k, True) \<in> set ts \<Longrightarrow> n + 8 \<le> k \<Longrightarrow> (\<And>m. (b + 8, m) \<notin> live) \<Longrightarrow> live_ok ts (insert (b + 8, n) live)"
  unfolding live_ok_def by (intro conjI) auto

lemma tiled_apart:
  "tiled a ts e \<Longrightarrow> (b, n, al) \<in> set ts \<Longrightarrow> (c, m, al') \<in> set ts \<Longrightarrow> (b = c \<and> n = m \<and> al = al') \<or> b + n \<le> c \<or> c + m \<le> b"
proof (induction a ts e rule: tiled.induct)
  case (2 a d k al'' ts e)
  then have ts: "tiled (a + k) ts e" "d = a" by auto
  consider "(b, n, al) = (d, k, al'')" "(c, m, al') = (d, k, al'')" | "(b, n, al) = (d, k, al'')" "(c, m, al') \<in> set ts"
    | "(b, n, al) \<in> set ts" "(c, m, al') = (d, k, al'')" | "(b, n, al) \<in> set ts" "(c, m, al') \<in> set ts"
    using "2.prems" by auto
  then show ?case
  proof cases
    case 2
    then show ?thesis using tiled_bounds [OF ts(1) 2(2)] ts(2) by simp
  next
    case 3
    then show ?thesis using tiled_bounds [OF ts(1) 3(1)] ts(2) by simp
  qed (use "2.IH" ts in auto)
qed simp

lemma live_ok_carved:
  assumes "live_ok (us @ (b, n, False) # vs) live" and "tiled base (us @ (b, n, False) # vs) e" and "want + 8 \<le> w" "w \<le> n"
  shows "live_ok (us @ carved b n w @ vs) (insert (b + 8, want) live)"
proof -
  have fresh: "(b + 8, m) \<notin> live" for m
  proof
    assume "(b + 8, m) \<in> live"
    from live_okD [OF assms(1) this] obtain k where k: "(b, k, True) \<in> set (us @ (b, n, False) # vs)" by auto
    have "0 < n" "0 < k" using tiled_bounds [OF assms(2), of b n False] tiled_bounds [OF assms(2) k] by simp_all
    then show False using tiled_apart [OF assms(2) k, of b n False] by simp
  qed
  have "\<exists>k. w \<le> k \<and> (b, k, True) \<in> set (us @ carved b n w @ vs)" using assms(4) by (auto simp: carved_def)
  then obtain k where k: "w \<le> k" "(b, k, True) \<in> set (us @ carved b n w @ vs)" by blast
  have "live_ok (us @ carved b n w @ vs) live" by (rule live_ok_keep [OF assms(1)]) auto
  then show ?thesis by (rule live_ok_insert [OF _ k(2)]) (use k(1) assms(3) fresh in auto)
qed

lemma released_keeps: "(c, k, True) \<in> set us \<union> set vs \<Longrightarrow> (c, k, True) \<in> set (released us b n vs)"
proof -
  assume ck: "(c, k, True) \<in> set us \<union> set vs"
  obtain us' b' n' where L: "absorb_left us b n = (us', b', n')" by (cases "absorb_left us b n")
  obtain n'' vs' where R: "absorb_right n' vs = (n'', vs')" by (cases "absorb_right n' vs")
  have "(c, k, True) \<in> set us'" if "(c, k, True) \<in> set us"
    using that L by (cases us rule: rev_cases) (auto simp: absorb_left_def split: if_splits)
  moreover have "(c, k, True) \<in> set vs'" if "(c, k, True) \<in> set vs"
    using that R by (auto simp: absorb_right_def split: list.splits prod.splits bool.splits)
  ultimately show ?thesis using ck by (auto simp: released_def L R)
qed

lemma run_invariant:
  assumes "heap_run ucHeap heap_size s live" and "32 \<le> heap_size" and "xStart < ucHeap"
  shows "(pxEnd s = 0 \<and> live = {}) \<or>
    (\<exists>ts. heap_ok (heap_start ucHeap) s ts \<and> pxEnd s = heap_end ucHeap heap_size \<and> live_ok ts live)"
  using assms(1)
proof (induction rule: heap_run.induct)
  case (malloc s live want p s')
  have "\<exists>s0 ts. pvPortMalloc ucHeap heap_size want s0 = Some (p, s') \<and> heap_ok (heap_start ucHeap) s0 ts \<and>
      pxEnd s0 = heap_end ucHeap heap_size \<and> live_ok ts live"
    using malloc.IH
  proof
    assume b: "pxEnd s = 0 \<and> live = {}"
    show ?thesis
      using init_end [of ucHeap heap_size s] malloc.hyps(2) malloc_first [of s, OF _ assms(2,3)] heap_init_ok [OF assms(2,3)] b
      by (metis empty_iff live_ok_def)
  qed (use malloc.hyps(2) in blast)
  then obtain s0 ts where s0: "pvPortMalloc ucHeap heap_size want s0 = Some (p, s')" "heap_ok (heap_start ucHeap) s0 ts"
      "pxEnd s0 = heap_end ucHeap heap_size" "live_ok ts live" by blast
  show ?case
  proof (cases "case block_for want of None \<Rightarrow> None | Some w \<Rightarrow> first_fit w ts")
    case None
    with malloc_refines [OF s0(2) inside_heap [OF assms(2) s0(3)], where want = want] s0 show ?thesis by auto
  next
    case (Some bt)
    then obtain w b ts' where w: "block_for want = Some w" "first_fit w ts = Some (b, ts')" "bt = (b, ts')"
      by (cases bt) (auto split: option.splits)
    with malloc_refines [OF s0(2) inside_heap [OF assms(2) s0(3)], where want = want] s0 have
      r: "p = b + 8" "heap_ok (heap_start ucHeap) s' ts'" "pxEnd s' = heap_end ucHeap heap_size" by auto
    from first_fit_Some [OF w(2)] obtain us n vs where t: "ts = us @ (b, n, False) # vs" "ts' = us @ carved b n w @ vs" "w \<le> n" by blast
    have "unat want + 8 \<le> w" using w(1) by (auto simp: block_for_def Let_def split: if_splits)
    from live_ok_carved [OF s0(4) [unfolded t(1)] heap_okD(4) [OF s0(2), unfolded t(1)] this t(3)]
    have "live_ok ts' (insert (p, unat want) live)" unfolding r(1) t(2) .
    with r show ?thesis by auto
  qed
next
  case (release s live p n s')
  then obtain ts where ts: "heap_ok (heap_start ucHeap) s ts" "pxEnd s = heap_end ucHeap heap_size" "live_ok ts live" by auto
  from live_okD [OF ts(3) release.hyps(2)] obtain b k where b: "p = b + 8" "(b, k, True) \<in> set ts" by blast
  from split_list [OF b(2)] obtain us vs where us: "ts = us @ (b, k, True) # vs" by blast
  from free_refines [OF ts(1) [unfolded us] inside_heap [OF assms(2) ts(2)]] release.hyps(3) b(1) ts(2) have
    r: "heap_ok (heap_start ucHeap) s' (released us b k vs)" "pxEnd s' = heap_end ucHeap heap_size" by auto
  have "live_ok (released us b k vs) (live - {(p, n)})"
  proof (rule live_ok_keep [OF ts(3)])
    fix c j m assume c: "(c + 8, m) \<in> live - {(p, n)}" "(c, j, True) \<in> set ts"
    have "c \<noteq> b"
    proof
      assume "c = b"
      with c(1) b(1) release.hyps(2) ts(3) show False unfolding live_ok_def by auto
    qed
    with c(2) us show "(c, j, True) \<in> set (released us b k vs)" by (intro released_keeps) auto
  qed auto
  with r show ?case by blast
qed simp

section \<open>Statistics on the tiling\<close>

lemma stats_walk_chain:
  "chain m p as e \<Longrightarrow> e \<notin> set as \<Longrightarrow> stats_walk m e (pxNextFreeBlock (m p)) acc = Some (fold (stats_step m) as acc)"
proof (induction as arbitrary: p acc)
  case Nil
  then show ?case by (subst stats_walk.simps) simp
next
  case (Cons a as)
  then show ?case by (subst stats_walk.simps) auto
qed

lemma stats_fold:
  "fold (stats_step m) as (k, mx, mn) =
     (k + length as, fold max (map (\<lambda>p. xBlockSize (m p)) as) mx, fold min (map (\<lambda>p. xBlockSize (m p)) as) mn)"
proof (induction as arbitrary: k mx mn)
  case (Cons a as)
  have "stats_step m a (k, mx, mn) = (k + 1, max (xBlockSize (m a)) mx, min (xBlockSize (m a)) mn)"
    by (simp add: stats_step_def max_def min_def)
  then show ?case using Cons by simp
qed simp

definition free_sizes :: "tile list \<Rightarrow> nat list" where
  "free_sizes ts = map (\<lambda>(b, n, al). n) (filter (\<lambda>(b, n, al). \<not> al) ts)"

lemma sizes_of_frees: "headers m ts \<Longrightarrow> map (\<lambda>p. xBlockSize (m p)) (frees ts) = free_sizes ts"
proof (induction ts)
  case (Cons t ts)
  then show ?case by (cases t) (auto simp: free_sizes_def)
qed (simp add: free_sizes_def)

lemma heap_stats_exact:
  assumes "heap_ok base s ts"
  shows "vPortGetHeapStats s = Some \<lparr>xAvailableHeapSpaceInBytes = sum_list (free_sizes ts),
      xSizeOfLargestFreeBlockInBytes = fold max (free_sizes ts) 0, xSizeOfSmallestFreeBlockInBytes = fold min (free_sizes ts) 0xFFFFFFFF,
      xNumberOfFreeBlocks = length (free_sizes ts), xMinimumEverFreeBytesRemaining_stat = xMinimumEverFreeBytesRemaining s,
      xNumberOfSuccessfulAllocations_stat = xNumberOfSuccessfulAllocations s, xNumberOfSuccessfulFrees_stat = xNumberOfSuccessfulFrees s\<rparr>"
proof -
  note H = heap_okD [OF assms]
  have "pxNextFreeBlock (blk s xStart) \<noteq> 0" "pxEnd s \<notin> set (frees ts)"
    using H(1,8) chain_hd [OF H(2)] by (cases "frees ts"; fastforce)+
  moreover have "free_bytes us = sum_list (free_sizes us)" for us by (induction us) (auto simp: free_sizes_def)
  moreover have "length (frees ts) = length (free_sizes ts)" by (simp add: frees_def free_sizes_def)
  ultimately show ?thesis
    using stats_walk_chain [OF H(2)] sizes_of_frees [OF H(3)] H(6)
    by (simp add: vPortGetHeapStats_def Let_def stats_fold)
qed

section \<open>Properties\<close>

text \<open>
  C8: \<^verbatim>\<open>pvPortMalloc\<close> refines first fit on the tiling of the heap: a request that no free block can hold
  (or whose adjusted size is zero or too big) yields \<^verbatim>\<open>NULL\<close> and changes nothing; any other request gets the
  first free block that is large enough, split when more than a minimum block remains, and the pointer
  past its header. The walk over the free list always ends.
\<close>

theorem pvPortMalloc_first_fit:
  assumes "heap_ok base s ts" and "inside ucHeap heap_size base s"
  shows "case (case block_for want of None \<Rightarrow> None | Some w \<Rightarrow> first_fit w ts) of
      None \<Rightarrow> pvPortMalloc ucHeap heap_size want s = Some (0, s)
    | Some (b, ts') \<Rightarrow> \<exists>s'. pvPortMalloc ucHeap heap_size want s = Some (b + 8, s') \<and> heap_ok base s' ts' \<and> pxEnd s' = pxEnd s"
  by (rule malloc_refines [OF assms])

definition heap4_boot :: heap4 where
  "heap4_boot = \<lparr>blk = (\<lambda>_. \<lparr>pxNextFreeBlock = 0, xBlockSize = 0, allocated = False\<rparr>), pxEnd = 0, xFreeBytesRemaining = 0,
     xMinimumEverFreeBytesRemaining = 0, xNumberOfSuccessfulAllocations = 0, xNumberOfSuccessfulFrees = 0\<rparr>"

lemma small_heap: "heap_ok 1000 (prvHeapInit 1000 64 heap4_boot) [(1000, 56, False)]"
  using heap_init_ok [of 64 1000 heap4_boot]
  by (simp add: heap_start_def heap_end_def align_down_def portBYTE_ALIGNMENT_def xHeapStructSize_def xStart_def)

lemma small_inside: "inside 1000 64 1000 (prvHeapInit 1000 64 heap4_boot)"
  by (simp add: inside_def init_end heap_start_def heap_end_def align_down_def portBYTE_ALIGNMENT_def xHeapStructSize_def)

theorem pvPortMalloc_first_fit_witness:
  "\<exists>s'. pvPortMalloc 1000 64 10 (prvHeapInit 1000 64 heap4_boot) = Some (1008, s') \<and>
     heap_ok 1000 s' [(1000, 24, True), (1024, 32, False)]"
  using pvPortMalloc_first_fit [OF small_heap small_inside, where want = 10]
  by (auto simp: block_for_def carved_def heapMINIMUM_BLOCK_SIZE_def)

text \<open>
  \<^verbatim>\<open>vPortFree\<close> of the pointer to an allocated block marks exactly that block free and merges it with the
  free blocks on either side, so no two free blocks are ever adjacent; the free list stays the list of the
  free blocks in address order, and the search for the insertion point ends.
\<close>

theorem vPortFree_coalesces:
  assumes "heap_ok base s (us @ (b, n, True) # vs)" and "inside ucHeap heap_size base s"
  shows "\<exists>s'. vPortFree ucHeap heap_size (b + 8) s = Some s' \<and> heap_ok base s' (released us b n vs) \<and> pxEnd s' = pxEnd s"
  by (rule free_refines [OF assms])

theorem vPortFree_coalesces_witness:
  "\<exists>s s'. heap_ok 1000 s [(1000, 24, True), (1024, 32, False)] \<and> vPortFree 1000 64 1008 s = Some s' \<and> heap_ok 1000 s' [(1000, 56, False)]"
proof -
  from malloc_refines [OF small_heap small_inside, where want = 10]
  obtain s where s: "heap_ok 1000 s ([] @ (1000, 24, True) # [(1024, 32, False)])" and "inside 1000 64 1000 s"
    using small_inside unfolding inside_def
    by (auto simp: block_for_def carved_def heapMINIMUM_BLOCK_SIZE_def)
  from vPortFree_coalesces [OF this] s show ?thesis by (auto simp: released_def absorb_left_def absorb_right_def)
qed

text \<open>
  C11: Whatever allocations and releases have run since boot, the live regions are 8-byte aligned, lie inside the
  heap array, and are pairwise disjoint, the block header of each lying between them.
\<close>

theorem heap_live_disjoint:
  assumes "heap_run ucHeap heap_size s live" and "32 \<le> heap_size" and "xStart < ucHeap"
  shows "(\<forall>(p, n) \<in> live. p mod 8 = 0 \<and> ucHeap + 8 \<le> p \<and> p + n \<le> ucHeap + heap_size) \<and>
    (\<forall>(p, n) \<in> live. \<forall>(q, m) \<in> live. p \<noteq> q \<longrightarrow> p + n + 8 \<le> q \<or> q + m + 8 \<le> p)"
  using run_invariant [OF assms]
proof
  assume "\<exists>ts. heap_ok (heap_start ucHeap) s ts \<and> pxEnd s = heap_end ucHeap heap_size \<and> live_ok ts live"
  then obtain ts where ok: "heap_ok (heap_start ucHeap) s ts" "pxEnd s = heap_end ucHeap heap_size" "live_ok ts live" by blast
  note T = heap_okD(4) [OF ok(1), unfolded ok(2)]
  have "p mod 8 = 0 \<and> ucHeap + 8 \<le> p \<and> p + n \<le> ucHeap + heap_size" if "(p, n) \<in> live" for p n
  proof -
    from live_okD [OF ok(3) that] obtain b k where b: "p = b + 8" "n + 8 \<le> k" "(b, k, True) \<in> set ts" by blast
    have "b mod 8 = 0" using tiled_mod [OF T _ b(3)] heap_start_bounds [of ucHeap] by simp
    moreover have "ucHeap \<le> b" "b + k \<le> heap_end ucHeap heap_size" using tiled_bounds [OF T b(3)] heap_start_bounds [of ucHeap] by simp_all
    ultimately show ?thesis using b heap_end_bounds(2) [OF assms(2), of ucHeap] by simp
  qed
  moreover have "p + n + 8 \<le> q \<or> q + m + 8 \<le> p" if "(p, n) \<in> live" "(q, m) \<in> live" "p \<noteq> q" for p n q m
  proof -
    from live_okD [OF ok(3) that(1)] obtain b k where b: "p = b + 8" "n + 8 \<le> k" "(b, k, True) \<in> set ts" by blast
    from live_okD [OF ok(3) that(2)] obtain c j where c: "q = c + 8" "m + 8 \<le> j" "(c, j, True) \<in> set ts" by blast
    from tiled_apart [OF T b(3) c(3)] that(3) b c show ?thesis by auto
  qed
  ultimately show ?thesis by blast
qed simp

lemma small_run: "\<exists>s. heap_run 1000 64 s {(1008, 10)}"
proof -
  from malloc_refines [OF small_heap small_inside, where want = 10]
  obtain s where "pvPortMalloc 1000 64 10 (prvHeapInit 1000 64 heap4_boot) = Some (1008, s)"
    by (auto simp: block_for_def carved_def heapMINIMUM_BLOCK_SIZE_def)
  then have "pvPortMalloc 1000 64 10 heap4_boot = Some (1008, s)"
    using malloc_first [of heap4_boot 64 1000, where want = 10] by (simp add: heap4_boot_def xStart_def)
  from heap_run.malloc [OF heap_run.boot [of heap4_boot] this] show ?thesis by (auto simp: heap4_boot_def)
qed

theorem heap_live_disjoint_witness:
  "\<exists>s. heap_run 1000 64 s {(1008, 10)} \<and> (\<forall>(p, n) \<in> {(1008, 10)}. p mod 8 = 0 \<and> 1000 + 8 \<le> p \<and> p + n \<le> 1000 + (64 :: nat))"
proof -
  from small_run obtain s where s: "heap_run 1000 64 s {(1008, 10)}" by blast
  from heap_live_disjoint [OF this] s show ?thesis by (auto simp: xStart_def)
qed

text \<open>
  C40: The allocator never hangs: after any run, \<^verbatim>\<open>pvPortMalloc\<close> of any size returns, and so does \<^verbatim>\<open>vPortFree\<close>
  of any live pointer.
\<close>

theorem heap_calls_return:
  assumes "heap_run ucHeap heap_size s live" and "32 \<le> heap_size" and "xStart < ucHeap"
  shows "(\<exists>p s'. pvPortMalloc ucHeap heap_size want s = Some (p, s')) \<and> (\<forall>(p, n) \<in> live. \<exists>s'. vPortFree ucHeap heap_size p s = Some s')"
proof -
  have ret: "\<exists>p s'. pvPortMalloc ucHeap heap_size want s = Some (p, s')"
    if "heap_ok (heap_start ucHeap) s ts" "pxEnd s = heap_end ucHeap heap_size" for s ts
    using malloc_refines [OF that(1) inside_heap [OF assms(2) that(2)], where want = want] by (auto split: option.splits)
  from run_invariant [OF assms] show ?thesis
  proof
    assume "pxEnd s = 0 \<and> live = {}"
    then show ?thesis using malloc_first [OF _ assms(2,3)] ret [OF heap_init_ok [OF assms(2,3)] init_end] by simp
  next
    assume "\<exists>ts. heap_ok (heap_start ucHeap) s ts \<and> pxEnd s = heap_end ucHeap heap_size \<and> live_ok ts live"
    then obtain ts where ok: "heap_ok (heap_start ucHeap) s ts" "live_ok ts live" "pxEnd s = heap_end ucHeap heap_size" by blast
    have "\<exists>s'. vPortFree ucHeap heap_size p s = Some s'" if "(p, n) \<in> live" for p n
    proof -
      from live_okD [OF ok(2) that] obtain b k where b: "p = b + 8" "(b, k, True) \<in> set ts" by blast
      from split_list [OF b(2)] obtain us vs where "ts = us @ (b, k, True) # vs" by blast
      with free_refines [of "heap_start ucHeap" s us b k vs] ok(1) b(1) inside_heap [OF assms(2) ok(3)] show ?thesis by blast
    qed
    with ret [OF ok(1,3)] show ?thesis by blast
  qed
qed

theorem heap_calls_return_witness:
  "\<exists>s. heap_run 1000 64 s {(1008, 10)} \<and> (\<exists>p s'. pvPortMalloc 1000 64 5 s = Some (p, s')) \<and> (\<exists>s'. vPortFree 1000 64 1008 s = Some s')"
proof -
  from small_run obtain s where s: "heap_run 1000 64 s {(1008, 10)}" by blast
  from heap_calls_return [OF this, where want = 5] s show ?thesis by (auto simp: xStart_def)
qed

text \<open>
  Releasing a pointer twice is detected: if the block in front of the pointer is a free block of the heap,
  \<^verbatim>\<open>vPortFree\<close> stops in its assertion and never touches the free list.
\<close>

theorem vPortFree_twice_stops:
  assumes "heap_ok base s ts" and "(b, n, False) \<in> set ts"
  shows "vPortFree ucHeap heap_size (b + 8) s = None"
  using headersD [OF heap_okD(3) [OF assms(1)] assms(2)]
  by (simp add: vPortFree_def xHeapStructSize_def Let_def)

theorem vPortFree_twice_stops_witness:
  "vPortFree 1000 64 1008 (prvHeapInit 1000 64 heap4_boot) = None"
  using vPortFree_twice_stops [OF small_heap, of 1000 56 1000 64] by simp

end
