(* ===== verification/RtosTasks.thy ===== *)
theory RtosTasks
  imports RtosList "HOL-Library.Monad_Syntax"
begin

text \<open>
  The scheduler of the FreeRTOS kernel, \<^verbatim>\<open>tasks.c\<close>, as this project configures it (one core, preemption
  without time slicing, no tickless idle, generic task selection): the tick, delays with tick
  overflow, time-outs, event lists, the suspended scheduler, the choice of the running task,
  task notifications and priority inheritance. Tasks are handles, \<open>0\<close> the null handle. The kernel's linked
  lists, verified in \<open>RtosList\<close>, appear here as the sequences of the tasks in them. A failed \<^verbatim>\<open>configASSERT\<close> and a loop
  that does not end are \<open>None\<close>.
\<close>

section \<open>State\<close>

text \<open>The lists that hold the state item and the event item of a task.\<close>

datatype state_place = In_Ready nat | In_Delayed bool | In_Suspended | In_No_List

datatype event_place = On_Event nat | On_Pending | On_No_List

datatype notify_state = taskNOT_WAITING_NOTIFICATION | taskWAITING_NOTIFICATION | taskNOTIFICATION_RECEIVED

record tcb =
  uxPriority :: nat
  uxBasePriority :: nat
  uxMutexesHeld :: nat
  xStateItemValue :: u32
  xEventItemValue :: u32
  xStatePlace :: state_place
  xEventPlace :: event_place
  ulNotifiedValue :: u32
  ucNotifyState :: notify_state

text \<open>
  A ready list is the sequence of its tasks and the index that moves round it, \<open>None\<close> at the end marker.
  \<open>pxDelayedTaskList\<close> says which of the two delayed lists is the current one.
\<close>

type_synonym ring = "nat list \<times> nat option"

record kernel =
  tcbs :: "nat \<Rightarrow> tcb"
  pxCurrentTCB :: nat
  pxReadyTasksLists :: "nat \<Rightarrow> ring"
  xDelayedTaskLists :: "bool \<Rightarrow> nat list"
  pxDelayedTaskList :: bool
  xPendingReadyList :: "nat list"
  xSuspendedTaskList :: "nat list"
  xEventLists :: "nat \<Rightarrow> nat list"
  xTickCount :: u32
  xPendedTicks :: u32
  xNumOfOverflows :: u32
  xNextTaskUnblockTime :: u32
  uxTopReadyPriority :: nat
  uxSchedulerSuspended :: nat
  xYieldPending :: bool
  uxCurrentNumberOfTasks :: nat

definition configMAX_PRIORITIES :: nat where "configMAX_PRIORITIES = 18"

section \<open>Lists of tasks\<close>

definition ring_end :: "nat \<Rightarrow> ring \<Rightarrow> ring" where
  "ring_end t = (\<lambda>(xs, index). (case index of None \<Rightarrow> xs @ [t]
     | Some j \<Rightarrow> takeWhile (\<lambda>x. x \<noteq> j) xs @ t # dropWhile (\<lambda>x. x \<noteq> j) xs, index))"

definition ring_remove :: "nat \<Rightarrow> ring \<Rightarrow> ring" where
  "ring_remove t = (\<lambda>(xs, index). (remove1 t xs,
     if index = Some t then (case rev (takeWhile (\<lambda>x. x \<noteq> t) xs) of [] \<Rightarrow> None | p # _ \<Rightarrow> Some p) else index))"

definition ring_next :: "ring \<Rightarrow> nat" where
  "ring_next = (\<lambda>(xs, index). case index of None \<Rightarrow> hd xs
     | Some j \<Rightarrow> (case tl (dropWhile (\<lambda>x. x \<noteq> j) xs) of [] \<Rightarrow> hd xs | y # _ \<Rightarrow> y))"

definition set_tcb :: "nat \<Rightarrow> (tcb \<Rightarrow> tcb) \<Rightarrow> kernel \<Rightarrow> kernel" where
  "set_tcb t f k = k\<lparr>tcbs := (tcbs k)(t := f (tcbs k t))\<rparr>"

definition current_delayed :: "kernel \<Rightarrow> nat list" where
  "current_delayed k = xDelayedTaskLists k (pxDelayedTaskList k)"

definition overflow_delayed :: "kernel \<Rightarrow> nat list" where
  "overflow_delayed k = xDelayedTaskLists k (\<not> pxDelayedTaskList k)"

text \<open>Taking the state item, or the event item, of a task out of its list.\<close>

definition remove_state_item :: "nat \<Rightarrow> kernel \<Rightarrow> kernel" where
  "remove_state_item t k =
     set_tcb t (\<lambda>x. x\<lparr>xStatePlace := In_No_List\<rparr>)
       (case xStatePlace (tcbs k t) of
          In_Ready p \<Rightarrow> k\<lparr>pxReadyTasksLists := (pxReadyTasksLists k)(p := ring_remove t (pxReadyTasksLists k p))\<rparr>
        | In_Delayed b \<Rightarrow> k\<lparr>xDelayedTaskLists := (xDelayedTaskLists k)(b := remove1 t (xDelayedTaskLists k b))\<rparr>
        | In_Suspended \<Rightarrow> k\<lparr>xSuspendedTaskList := remove1 t (xSuspendedTaskList k)\<rparr>
        | In_No_List \<Rightarrow> k)"

definition remove_event_item :: "nat \<Rightarrow> kernel \<Rightarrow> kernel" where
  "remove_event_item t k =
     set_tcb t (\<lambda>x. x\<lparr>xEventPlace := On_No_List\<rparr>)
       (case xEventPlace (tcbs k t) of
          On_Event e \<Rightarrow> k\<lparr>xEventLists := (xEventLists k)(e := remove1 t (xEventLists k e))\<rparr>
        | On_Pending \<Rightarrow> k\<lparr>xPendingReadyList := remove1 t (xPendingReadyList k)\<rparr>
        | On_No_List \<Rightarrow> k)"

definition taskRECORD_READY_PRIORITY :: "nat \<Rightarrow> kernel \<Rightarrow> kernel" where
  "taskRECORD_READY_PRIORITY p k = (if p > uxTopReadyPriority k then k\<lparr>uxTopReadyPriority := p\<rparr> else k)"

definition prvAddTaskToReadyList :: "nat \<Rightarrow> kernel \<Rightarrow> kernel" where
  "prvAddTaskToReadyList t k =
     (let p = uxPriority (tcbs k t);
          k = taskRECORD_READY_PRIORITY p k
      in set_tcb t (\<lambda>x. x\<lparr>xStatePlace := In_Ready p\<rparr>)
           (k\<lparr>pxReadyTasksLists := (pxReadyTasksLists k)(p := ring_end t (pxReadyTasksLists k p))\<rparr>))"

section \<open>The tick\<close>

definition prvResetNextTaskUnblockTime :: "kernel \<Rightarrow> kernel" where
  "prvResetNextTaskUnblockTime k =
     k\<lparr>xNextTaskUnblockTime := (case current_delayed k of [] \<Rightarrow> portMAX_DELAY | t # _ \<Rightarrow> xStateItemValue (tcbs k t))\<rparr>"

definition taskSWITCH_DELAYED_LISTS :: "kernel \<Rightarrow> kernel option" where
  "taskSWITCH_DELAYED_LISTS k =
     (if current_delayed k = []
      then Some (prvResetNextTaskUnblockTime
        (k\<lparr>pxDelayedTaskList := \<not> pxDelayedTaskList k, xNumOfOverflows := xNumOfOverflows k + 1\<rparr>))
      else None)"

text \<open>A task whose time has come leaves the delayed list and the event list and becomes ready.\<close>

definition wake_task :: "nat \<Rightarrow> kernel \<Rightarrow> kernel" where
  "wake_task t k =
     (let k = remove_state_item t k;
          k = (if xEventPlace (tcbs k t) \<noteq> On_No_List then remove_event_item t k else k)
      in prvAddTaskToReadyList t k)"

partial_function (option) unblock_expired :: "u32 \<Rightarrow> bool \<Rightarrow> kernel \<Rightarrow> (bool \<times> kernel) option" where
  "unblock_expired now switch k =
     (case current_delayed k of
        [] \<Rightarrow> Some (switch, k\<lparr>xNextTaskUnblockTime := portMAX_DELAY\<rparr>)
      | t # _ \<Rightarrow>
          if now < xStateItemValue (tcbs k t) then Some (switch, k\<lparr>xNextTaskUnblockTime := xStateItemValue (tcbs k t)\<rparr>)
          else let k = wake_task t k in
            unblock_expired now (switch \<or> uxPriority (tcbs k t) > uxPriority (tcbs k (pxCurrentTCB k))) k)"

definition xTaskIncrementTick :: "kernel \<Rightarrow> (bool \<times> kernel) option" where
  "xTaskIncrementTick k =
     (if uxSchedulerSuspended k = 0 then
        let now = xTickCount k + 1;
            k = k\<lparr>xTickCount := now\<rparr>
        in do {
          k \<leftarrow> (if now = 0 then taskSWITCH_DELAYED_LISTS k else Some k);
          (switch, k) \<leftarrow> (if now \<ge> xNextTaskUnblockTime k then unblock_expired now False k else Some (False, k));
          Some (switch \<or> xYieldPending k, k) }
      else Some (False, k\<lparr>xPendedTicks := xPendedTicks k + 1\<rparr>))"

section \<open>Suspending and resuming the scheduler\<close>

definition vTaskSuspendAll :: "kernel \<Rightarrow> kernel" where
  "vTaskSuspendAll k = k\<lparr>uxSchedulerSuspended := uxSchedulerSuspended k + 1\<rparr>"

partial_function (option) drain_pending :: "bool \<Rightarrow> kernel \<Rightarrow> (bool \<times> kernel) option" where
  "drain_pending moved k =
     (case xPendingReadyList k of
        [] \<Rightarrow> Some (moved, k)
      | t # _ \<Rightarrow>
          let k = remove_event_item t k;
              k = remove_state_item t k;
              k = prvAddTaskToReadyList t k;
              k = (if uxPriority (tcbs k t) > uxPriority (tcbs k (pxCurrentTCB k)) then k\<lparr>xYieldPending := True\<rparr> else k)
          in drain_pending True k)"

fun replay_ticks :: "nat \<Rightarrow> kernel \<Rightarrow> kernel option" where
  "replay_ticks 0 k = Some k"
| "replay_ticks (Suc n) k = do {
     (switch, k) \<leftarrow> xTaskIncrementTick k;
     replay_ticks n (if switch then k\<lparr>xYieldPending := True\<rparr> else k) }"

text \<open>
  The result is whether a yield was requested; the request itself is the call of \<^verbatim>\<open>vTaskSwitchContext\<close> that follows.
  At least one task exists once a task runs.
\<close>

definition xTaskResumeAll :: "kernel \<Rightarrow> (bool \<times> kernel) option" where
  "xTaskResumeAll k =
     (if uxSchedulerSuspended k = 0 then None
      else let k = k\<lparr>uxSchedulerSuspended := uxSchedulerSuspended k - 1\<rparr> in
        if uxSchedulerSuspended k = 0 then do {
          (moved, k) \<leftarrow> drain_pending False k;
          let k = (if moved then prvResetNextTaskUnblockTime k else k);
          let n = unat (xPendedTicks k);
          k \<leftarrow> replay_ticks n k;
          let k = (if n > 0 then k\<lparr>xPendedTicks := 0\<rparr> else k);
          Some (xYieldPending k, k) }
        else Some (False, k))"

section \<open>Delays and time-outs\<close>

definition insert_delayed :: "bool \<Rightarrow> nat \<Rightarrow> kernel \<Rightarrow> kernel" where
  "insert_delayed b t k =
     set_tcb t (\<lambda>x. x\<lparr>xStatePlace := In_Delayed b\<rparr>)
       (k\<lparr>xDelayedTaskLists := (xDelayedTaskLists k)
          (b := insert_stable (\<lambda>x. xStateItemValue (tcbs k x)) t (xDelayedTaskLists k b))\<rparr>)"

definition prvAddCurrentTaskToDelayedList :: "u32 \<Rightarrow> bool \<Rightarrow> kernel \<Rightarrow> kernel" where
  "prvAddCurrentTaskToDelayedList xTicksToWait xCanBlockIndefinitely k =
     (let t = pxCurrentTCB k;
          k = remove_state_item t k
      in if xTicksToWait = portMAX_DELAY \<and> xCanBlockIndefinitely then
           set_tcb t (\<lambda>x. x\<lparr>xStatePlace := In_Suspended\<rparr>) (k\<lparr>xSuspendedTaskList := xSuspendedTaskList k @ [t]\<rparr>)
         else
           let xTimeToWake = xTickCount k + xTicksToWait;
               k = set_tcb t (\<lambda>x. x\<lparr>xStateItemValue := xTimeToWake\<rparr>) k
           in if xTimeToWake < xTickCount k then insert_delayed (\<not> pxDelayedTaskList k) t k
              else let k = insert_delayed (pxDelayedTaskList k) t k in
                if xTimeToWake < xNextTaskUnblockTime k then k\<lparr>xNextTaskUnblockTime := xTimeToWake\<rparr> else k)"

section \<open>Choosing the running task\<close>

fun highest_ready :: "nat \<Rightarrow> (nat \<Rightarrow> ring) \<Rightarrow> nat option" where
  "highest_ready p ready =
     (if fst (ready p) = [] then (case p of 0 \<Rightarrow> None | Suc q \<Rightarrow> highest_ready q ready) else Some p)"

declare highest_ready.simps [simp del]

definition taskSELECT_HIGHEST_PRIORITY_TASK :: "kernel \<Rightarrow> kernel option" where
  "taskSELECT_HIGHEST_PRIORITY_TASK k = do {
     p \<leftarrow> highest_ready (uxTopReadyPriority k) (pxReadyTasksLists k);
     let t = ring_next (pxReadyTasksLists k p);
     Some (k\<lparr>pxCurrentTCB := t, pxReadyTasksLists := (pxReadyTasksLists k)(p := (fst (pxReadyTasksLists k p), Some t)),
             uxTopReadyPriority := p\<rparr>) }"

definition vTaskSwitchContext :: "kernel \<Rightarrow> kernel option" where
  "vTaskSwitchContext k =
     (if uxSchedulerSuspended k \<noteq> 0 then Some (k\<lparr>xYieldPending := True\<rparr>)
      else taskSELECT_HIGHEST_PRIORITY_TASK (k\<lparr>xYieldPending := False\<rparr>))"

text \<open>A yield of the running task, whether \<^verbatim>\<open>xTaskResumeAll\<close> requested it already or not, switches the context.\<close>

definition vTaskDelay :: "u32 \<Rightarrow> kernel \<Rightarrow> kernel option" where
  "vTaskDelay xTicksToDelay k = do {
     k \<leftarrow> (if xTicksToDelay > 0 then
            (let k = vTaskSuspendAll k
             in if uxSchedulerSuspended k = 1
                then map_option snd (xTaskResumeAll (prvAddCurrentTaskToDelayedList xTicksToDelay False k))
                else None)
          else Some k);
     vTaskSwitchContext k }"

definition delay_until_wait :: "u32 \<Rightarrow> u32 \<Rightarrow> u32 \<Rightarrow> bool" where
  "delay_until_wait previous increment now =
     (let xTimeToWake = previous + increment
      in if now < previous then xTimeToWake < previous \<and> xTimeToWake > now
         else xTimeToWake < previous \<or> xTimeToWake > now)"

text \<open>The result: whether the task was delayed, the updated wake time, the state.\<close>

definition xTaskDelayUntil :: "u32 \<Rightarrow> u32 \<Rightarrow> kernel \<Rightarrow> (bool \<times> u32 \<times> kernel) option" where
  "xTaskDelayUntil previous increment k =
     (if increment > 0 then
        let k = vTaskSuspendAll k; now = xTickCount k
        in if uxSchedulerSuspended k = 1 then
             let xTimeToWake = previous + increment;
                 xShouldDelay = delay_until_wait previous increment now;
                 k = (if xShouldDelay then prvAddCurrentTaskToDelayedList (xTimeToWake - now) False k else k)
             in do {
               (_, k) \<leftarrow> xTaskResumeAll k;
               k \<leftarrow> vTaskSwitchContext k;
               Some (xShouldDelay, xTimeToWake, k) }
           else None
      else None)"

record TimeOut_t =
  xOverflowCount :: u32
  xTimeOnEntering :: u32

definition vTaskInternalSetTimeOutState :: "kernel \<Rightarrow> TimeOut_t" where
  "vTaskInternalSetTimeOutState k = \<lparr>xOverflowCount = xNumOfOverflows k, xTimeOnEntering = xTickCount k\<rparr>"

text \<open>The result: expired or not, the time-out structure and the ticks left to wait.\<close>

definition xTaskCheckForTimeOut :: "kernel \<Rightarrow> TimeOut_t \<Rightarrow> u32 \<Rightarrow> bool \<times> TimeOut_t \<times> u32" where
  "xTaskCheckForTimeOut k pxTimeOut xTicksToWait =
     (let now = xTickCount k; xElapsedTime = now - xTimeOnEntering pxTimeOut
      in if xTicksToWait = portMAX_DELAY then (False, pxTimeOut, xTicksToWait)
         else if xNumOfOverflows k \<noteq> xOverflowCount pxTimeOut \<and> now \<ge> xTimeOnEntering pxTimeOut then (True, pxTimeOut, 0)
         else if xElapsedTime < xTicksToWait then (False, vTaskInternalSetTimeOutState k, xTicksToWait - xElapsedTime)
         else (True, pxTimeOut, 0))"

section \<open>The invariant of the scheduler\<close>

text \<open>The containers of the items agree with the lists, and a ready task is in the list of its priority.\<close>

definition places_ok :: "kernel \<Rightarrow> bool" where
  "places_ok k \<longleftrightarrow>
     (\<forall>t p. t \<in> set (fst (pxReadyTasksLists k p)) \<longleftrightarrow> xStatePlace (tcbs k t) = In_Ready p) \<and>
     (\<forall>t b. t \<in> set (xDelayedTaskLists k b) \<longleftrightarrow> xStatePlace (tcbs k t) = In_Delayed b) \<and>
     (\<forall>t. t \<in> set (xSuspendedTaskList k) \<longleftrightarrow> xStatePlace (tcbs k t) = In_Suspended) \<and>
     (\<forall>t p. xStatePlace (tcbs k t) = In_Ready p \<longrightarrow> uxPriority (tcbs k t) = p \<and> p \<le> uxTopReadyPriority k) \<and>
     (\<forall>p. distinct (fst (pxReadyTasksLists k p))) \<and> (\<forall>b. distinct (xDelayedTaskLists k b)) \<and> distinct (xSuspendedTaskList k)"

text \<open>
  The delayed lists are sorted by wake time. Wake times of the current list are in the future of the tick
  count, those of the overflow list come after the tick count wraps, and the next unblock time is not too late.
\<close>

definition times_ok :: "kernel \<Rightarrow> bool" where
  "times_ok k \<longleftrightarrow>
     (\<forall>b. sorted (map (\<lambda>t. xStateItemValue (tcbs k t)) (xDelayedTaskLists k b))) \<and>
     (\<forall>t \<in> set (current_delayed k). xTickCount k < xStateItemValue (tcbs k t)) \<and>
     (\<forall>t \<in> set (overflow_delayed k). xStateItemValue (tcbs k t) < xTickCount k) \<and>
     (\<forall>t \<in> set (current_delayed k). xNextTaskUnblockTime k \<le> xStateItemValue (tcbs k t))"

text \<open>The number of ticks a delayed task still has to wait.\<close>

definition ticks_left :: "kernel \<Rightarrow> nat \<Rightarrow> nat option" where
  "ticks_left k t =
     (case xStatePlace (tcbs k t) of
        In_Delayed b \<Rightarrow> Some (if b = pxDelayedTaskList k then unat (xStateItemValue (tcbs k t)) - unat (xTickCount k)
                             else 2 ^ 32 + unat (xStateItemValue (tcbs k t)) - unat (xTickCount k))
      | _ \<Rightarrow> None)"

subsection \<open>Waking a task\<close>

lemma set_tcb_sel [simp]:
  "tcbs (set_tcb t f k) x = (if x = t then f (tcbs k t) else tcbs k x)"
  "pxCurrentTCB (set_tcb t f k) = pxCurrentTCB k" "pxReadyTasksLists (set_tcb t f k) = pxReadyTasksLists k"
  "xDelayedTaskLists (set_tcb t f k) = xDelayedTaskLists k" "pxDelayedTaskList (set_tcb t f k) = pxDelayedTaskList k"
  "xPendingReadyList (set_tcb t f k) = xPendingReadyList k" "xSuspendedTaskList (set_tcb t f k) = xSuspendedTaskList k"
  "xEventLists (set_tcb t f k) = xEventLists k" "xTickCount (set_tcb t f k) = xTickCount k"
  "xPendedTicks (set_tcb t f k) = xPendedTicks k" "xNumOfOverflows (set_tcb t f k) = xNumOfOverflows k"
  "xNextTaskUnblockTime (set_tcb t f k) = xNextTaskUnblockTime k" "uxTopReadyPriority (set_tcb t f k) = uxTopReadyPriority k"
  "uxSchedulerSuspended (set_tcb t f k) = uxSchedulerSuspended k" "xYieldPending (set_tcb t f k) = xYieldPending k"
  by (simp_all add: set_tcb_def)

lemma fst_ring_remove [simp]: "fst (ring_remove t r) = remove1 t (fst r)"
  by (simp add: ring_remove_def split_def)

lemma set_ring_end [simp]: "set (fst (ring_end t r)) = insert t (set (fst r))"
proof -
  have "set (takeWhile P xs) \<union> set (dropWhile P xs) = set xs" for P and xs :: "nat list"
    by (metis set_append takeWhile_dropWhile_id)
  then show ?thesis by (auto simp: ring_end_def split_def split: option.splits)
qed

lemma distinct_ring_end: "distinct (fst r) \<Longrightarrow> t \<notin> set (fst r) \<Longrightarrow> distinct (fst (ring_end t r))"
proof -
  assume d: "distinct (fst r)" "t \<notin> set (fst r)"
  have "distinct (takeWhile P xs @ t # dropWhile P xs)" if "distinct xs" "t \<notin> set xs" for P and xs :: "nat list"
  proof -
    have "set (takeWhile P xs) \<inter> set (dropWhile P xs) = {}"
      using that(1) by (metis distinct_append takeWhile_dropWhile_id)
    then show ?thesis using that by (auto dest: set_takeWhileD set_dropWhileD)
  qed
  with d show ?thesis by (auto simp: ring_end_def split_def split: option.splits)
qed

lemma record_ready_sel [simp]:
  "tcbs (taskRECORD_READY_PRIORITY p k) = tcbs k" "pxCurrentTCB (taskRECORD_READY_PRIORITY p k) = pxCurrentTCB k"
  "pxReadyTasksLists (taskRECORD_READY_PRIORITY p k) = pxReadyTasksLists k"
  "xDelayedTaskLists (taskRECORD_READY_PRIORITY p k) = xDelayedTaskLists k"
  "pxDelayedTaskList (taskRECORD_READY_PRIORITY p k) = pxDelayedTaskList k"
  "xPendingReadyList (taskRECORD_READY_PRIORITY p k) = xPendingReadyList k"
  "xSuspendedTaskList (taskRECORD_READY_PRIORITY p k) = xSuspendedTaskList k"
  "xEventLists (taskRECORD_READY_PRIORITY p k) = xEventLists k" "xTickCount (taskRECORD_READY_PRIORITY p k) = xTickCount k"
  "xPendedTicks (taskRECORD_READY_PRIORITY p k) = xPendedTicks k" "xNumOfOverflows (taskRECORD_READY_PRIORITY p k) = xNumOfOverflows k"
  "xNextTaskUnblockTime (taskRECORD_READY_PRIORITY p k) = xNextTaskUnblockTime k"
  "uxTopReadyPriority (taskRECORD_READY_PRIORITY p k) = max p (uxTopReadyPriority k)"
  "uxSchedulerSuspended (taskRECORD_READY_PRIORITY p k) = uxSchedulerSuspended k"
  "xYieldPending (taskRECORD_READY_PRIORITY p k) = xYieldPending k"
  by (simp_all add: taskRECORD_READY_PRIORITY_def max_def)

lemma add_ready_sel [simp]:
  "tcbs (prvAddTaskToReadyList t k) x = (if x = t then (tcbs k t)\<lparr>xStatePlace := In_Ready (uxPriority (tcbs k t))\<rparr> else tcbs k x)"
  "pxCurrentTCB (prvAddTaskToReadyList t k) = pxCurrentTCB k"
  "pxReadyTasksLists (prvAddTaskToReadyList t k) p =
     (if p = uxPriority (tcbs k t) then ring_end t (pxReadyTasksLists k p) else pxReadyTasksLists k p)"
  "xDelayedTaskLists (prvAddTaskToReadyList t k) = xDelayedTaskLists k"
  "pxDelayedTaskList (prvAddTaskToReadyList t k) = pxDelayedTaskList k"
  "xPendingReadyList (prvAddTaskToReadyList t k) = xPendingReadyList k"
  "xSuspendedTaskList (prvAddTaskToReadyList t k) = xSuspendedTaskList k"
  "xEventLists (prvAddTaskToReadyList t k) = xEventLists k" "xTickCount (prvAddTaskToReadyList t k) = xTickCount k"
  "xPendedTicks (prvAddTaskToReadyList t k) = xPendedTicks k" "xNumOfOverflows (prvAddTaskToReadyList t k) = xNumOfOverflows k"
  "xNextTaskUnblockTime (prvAddTaskToReadyList t k) = xNextTaskUnblockTime k"
  "uxTopReadyPriority (prvAddTaskToReadyList t k) = max (uxPriority (tcbs k t)) (uxTopReadyPriority k)"
  "uxSchedulerSuspended (prvAddTaskToReadyList t k) = uxSchedulerSuspended k"
  "xYieldPending (prvAddTaskToReadyList t k) = xYieldPending k"
  by (simp_all add: prvAddTaskToReadyList_def Let_def)

lemma remove_state_sel [simp]:
  "tcbs (remove_state_item t k) x = (if x = t then (tcbs k t)\<lparr>xStatePlace := In_No_List\<rparr> else tcbs k x)"
  "pxCurrentTCB (remove_state_item t k) = pxCurrentTCB k"
  "pxReadyTasksLists (remove_state_item t k) p =
     (if xStatePlace (tcbs k t) = In_Ready p then ring_remove t (pxReadyTasksLists k p) else pxReadyTasksLists k p)"
  "xDelayedTaskLists (remove_state_item t k) b =
     (if xStatePlace (tcbs k t) = In_Delayed b then remove1 t (xDelayedTaskLists k b) else xDelayedTaskLists k b)"
  "xSuspendedTaskList (remove_state_item t k) =
     (if xStatePlace (tcbs k t) = In_Suspended then remove1 t (xSuspendedTaskList k) else xSuspendedTaskList k)"
  "pxDelayedTaskList (remove_state_item t k) = pxDelayedTaskList k"
  "xPendingReadyList (remove_state_item t k) = xPendingReadyList k"
  "xEventLists (remove_state_item t k) = xEventLists k" "xTickCount (remove_state_item t k) = xTickCount k"
  "xPendedTicks (remove_state_item t k) = xPendedTicks k" "xNumOfOverflows (remove_state_item t k) = xNumOfOverflows k"
  "xNextTaskUnblockTime (remove_state_item t k) = xNextTaskUnblockTime k"
  "uxTopReadyPriority (remove_state_item t k) = uxTopReadyPriority k"
  "uxSchedulerSuspended (remove_state_item t k) = uxSchedulerSuspended k"
  "xYieldPending (remove_state_item t k) = xYieldPending k"
  by (simp_all add: remove_state_item_def split: state_place.split)

lemma remove_event_sel [simp]:
  "tcbs (remove_event_item t k) x = (if x = t then (tcbs k t)\<lparr>xEventPlace := On_No_List\<rparr> else tcbs k x)"
  "pxCurrentTCB (remove_event_item t k) = pxCurrentTCB k"
  "pxReadyTasksLists (remove_event_item t k) = pxReadyTasksLists k"
  "xDelayedTaskLists (remove_event_item t k) = xDelayedTaskLists k"
  "xSuspendedTaskList (remove_event_item t k) = xSuspendedTaskList k"
  "pxDelayedTaskList (remove_event_item t k) = pxDelayedTaskList k"
  "xPendingReadyList (remove_event_item t k) =
     (if xEventPlace (tcbs k t) = On_Pending then remove1 t (xPendingReadyList k) else xPendingReadyList k)"
  "xEventLists (remove_event_item t k) e =
     (if xEventPlace (tcbs k t) = On_Event e then remove1 t (xEventLists k e) else xEventLists k e)"
  "xTickCount (remove_event_item t k) = xTickCount k"
  "xPendedTicks (remove_event_item t k) = xPendedTicks k" "xNumOfOverflows (remove_event_item t k) = xNumOfOverflows k"
  "xNextTaskUnblockTime (remove_event_item t k) = xNextTaskUnblockTime k"
  "uxTopReadyPriority (remove_event_item t k) = uxTopReadyPriority k"
  "uxSchedulerSuspended (remove_event_item t k) = uxSchedulerSuspended k"
  "xYieldPending (remove_event_item t k) = xYieldPending k"
  by (simp_all add: remove_event_item_def split: event_place.split)

lemma wake_sel [simp]:
  "tcbs (wake_task t k) x =
     (if x = t then (tcbs k t)\<lparr>xStatePlace := In_Ready (uxPriority (tcbs k t)), xEventPlace := On_No_List\<rparr> else tcbs k x)"
  "pxCurrentTCB (wake_task t k) = pxCurrentTCB k"
  "xTickCount (wake_task t k) = xTickCount k" "pxDelayedTaskList (wake_task t k) = pxDelayedTaskList k"
  "xDelayedTaskLists (wake_task t k) b =
     (if xStatePlace (tcbs k t) = In_Delayed b then remove1 t (xDelayedTaskLists k b) else xDelayedTaskLists k b)"
  "xPendedTicks (wake_task t k) = xPendedTicks k" "xNumOfOverflows (wake_task t k) = xNumOfOverflows k"
  "uxSchedulerSuspended (wake_task t k) = uxSchedulerSuspended k" "xYieldPending (wake_task t k) = xYieldPending k"
  "uxTopReadyPriority (wake_task t k) = max (uxPriority (tcbs k t)) (uxTopReadyPriority k)"
  by (simp_all add: wake_task_def Let_def)

subsection \<open>The containers stay consistent\<close>

lemma places_okD:
  assumes "places_ok k"
  shows "t \<in> set (fst (pxReadyTasksLists k p)) \<longleftrightarrow> xStatePlace (tcbs k t) = In_Ready p"
    "t \<in> set (xDelayedTaskLists k b) \<longleftrightarrow> xStatePlace (tcbs k t) = In_Delayed b"
    "t \<in> set (xSuspendedTaskList k) \<longleftrightarrow> xStatePlace (tcbs k t) = In_Suspended"
    "xStatePlace (tcbs k t) = In_Ready p \<Longrightarrow> uxPriority (tcbs k t) = p \<and> p \<le> uxTopReadyPriority k"
    "distinct (fst (pxReadyTasksLists k p))" "distinct (xDelayedTaskLists k b)" "distinct (xSuspendedTaskList k)"
  using assms unfolding places_ok_def by blast+

lemma places_okI:
  assumes "\<And>t p. t \<in> set (fst (pxReadyTasksLists k p)) \<longleftrightarrow> xStatePlace (tcbs k t) = In_Ready p"
    "\<And>t b. t \<in> set (xDelayedTaskLists k b) \<longleftrightarrow> xStatePlace (tcbs k t) = In_Delayed b"
    "\<And>t. t \<in> set (xSuspendedTaskList k) \<longleftrightarrow> xStatePlace (tcbs k t) = In_Suspended"
    "\<And>t p. xStatePlace (tcbs k t) = In_Ready p \<Longrightarrow> uxPriority (tcbs k t) = p \<and> p \<le> uxTopReadyPriority k"
    "\<And>p. distinct (fst (pxReadyTasksLists k p))" "\<And>b. distinct (xDelayedTaskLists k b)" "distinct (xSuspendedTaskList k)"
  shows "places_ok k"
  using assms unfolding places_ok_def by blast

lemma places_remove_state: "places_ok k \<Longrightarrow> places_ok (remove_state_item t k)"
  by (rule places_okI) (auto simp: places_okD split: if_splits dest: places_okD(4))

lemma places_remove_event: "places_ok k \<Longrightarrow> places_ok (remove_event_item t k)"
  by (rule places_okI) (auto simp: places_okD split: if_splits dest: places_okD(4))

lemma places_add_ready:
  "places_ok k \<Longrightarrow> xStatePlace (tcbs k t) = In_No_List \<Longrightarrow> places_ok (prvAddTaskToReadyList t k)"
  by (rule places_okI)
    (auto simp: places_okD max_def intro!: distinct_ring_end split: if_splits dest: places_okD(4))

lemma places_set_tcb:
  "places_ok k \<Longrightarrow> (\<And>x. xStatePlace (f x) = xStatePlace x) \<Longrightarrow> (\<And>x. uxPriority (f x) = uxPriority x) \<Longrightarrow> places_ok (set_tcb t f k)"
  by (rule places_okI) (auto simp: places_okD split: if_splits dest: places_okD(4))

lemma places_wake: "places_ok k \<Longrightarrow> places_ok (wake_task t k)"
  unfolding wake_task_def Let_def
  by (intro places_add_ready) (auto intro: places_remove_state places_remove_event)

lemma places_times:
  "places_ok k \<Longrightarrow> tcbs k' = tcbs k \<Longrightarrow> pxReadyTasksLists k' = pxReadyTasksLists k \<Longrightarrow>
   xDelayedTaskLists k' = xDelayedTaskLists k \<Longrightarrow> xSuspendedTaskList k' = xSuspendedTaskList k \<Longrightarrow>
   uxTopReadyPriority k' = uxTopReadyPriority k \<Longrightarrow> places_ok k'"
  by (simp add: places_ok_def)

subsection \<open>The loop of the tick\<close>

text \<open>
  The loop moves exactly the tasks of the current list whose time has come; \<open>now\<close> is not later than any
  wake time in the list.
\<close>

definition due :: "u32 \<Rightarrow> kernel \<Rightarrow> nat \<Rightarrow> bool" where
  "due now k t \<longleftrightarrow> t \<in> set (current_delayed k) \<and> xStateItemValue (tcbs k t) \<le> now"

lemma unblock_expired_ok:
  assumes "places_ok k" and "sorted (map (\<lambda>t. xStateItemValue (tcbs k t)) (current_delayed k))"
  shows "\<exists>sw k'. unblock_expired now switch k = Some (sw, k') \<and> places_ok k' \<and>
    (sw \<longleftrightarrow> switch \<or> (\<exists>t. due now k t \<and> uxPriority (tcbs k t) > uxPriority (tcbs k (pxCurrentTCB k)))) \<and>
    (\<forall>t. tcbs k' t = (if due now k t then (tcbs k t)\<lparr>xStatePlace := In_Ready (uxPriority (tcbs k t)), xEventPlace := On_No_List\<rparr> else tcbs k t)) \<and>
    current_delayed k' = dropWhile (\<lambda>t. xStateItemValue (tcbs k t) \<le> now) (current_delayed k) \<and>
    overflow_delayed k' = overflow_delayed k \<and> pxDelayedTaskList k' = pxDelayedTaskList k \<and>
    xTickCount k' = xTickCount k \<and> xNumOfOverflows k' = xNumOfOverflows k \<and> pxCurrentTCB k' = pxCurrentTCB k \<and>
    uxSchedulerSuspended k' = uxSchedulerSuspended k \<and> xYieldPending k' = xYieldPending k \<and> xPendedTicks k' = xPendedTicks k \<and>
    xNextTaskUnblockTime k' = (case current_delayed k' of [] \<Rightarrow> portMAX_DELAY | t # _ \<Rightarrow> xStateItemValue (tcbs k' t))"
  using assms
proof (induction "current_delayed k" arbitrary: k switch)
  case Nil
  then show ?case
    by (subst unblock_expired.simps) (simp add: current_delayed_def overflow_delayed_def due_def places_times)
next
  case (Cons t ts)
  note cd = Cons.hyps(2) [symmetric]
  have srt: "\<forall>x \<in> set ts. xStateItemValue (tcbs k t) \<le> xStateItemValue (tcbs k x)"
    using Cons.prems(2) cd by simp
  show ?case
  proof (cases "now < xStateItemValue (tcbs k t)")
    case True
    then have "\<not> due now k x" for x using srt cd by (auto simp: due_def not_le)
    moreover have "current_delayed (k\<lparr>xNextTaskUnblockTime := v\<rparr>) = current_delayed k"
      "overflow_delayed (k\<lparr>xNextTaskUnblockTime := v\<rparr>) = overflow_delayed k" for v
      by (simp_all add: current_delayed_def overflow_delayed_def)
    ultimately show ?thesis
      using True cd Cons.prems(1) by (subst unblock_expired.simps) (simp add: places_times)
  next
    case False
    let ?k = "wake_task t k"
    have pl: "xStatePlace (tcbs k t) = In_Delayed (pxDelayedTaskList k)"
      using places_okD(2) [OF Cons.prems(1), of t "pxDelayedTaskList k"] cd by (simp add: current_delayed_def)
    have dist: "t \<notin> set ts"
      using places_okD(6) [OF Cons.prems(1), of "pxDelayedTaskList k"] cd by (simp add: current_delayed_def)
    have cd': "current_delayed ?k = ts" "overflow_delayed ?k = overflow_delayed k"
      using pl cd by (simp_all add: current_delayed_def overflow_delayed_def)
    have vals: "xStateItemValue (tcbs ?k x) = xStateItemValue (tcbs k x)" for x by simp
    have srt': "sorted (map (\<lambda>x. xStateItemValue (tcbs ?k x)) (current_delayed ?k))"
      using Cons.prems(2) cd by (simp only: vals cd') simp
    have duek: "due now k x \<longleftrightarrow> x = t \<or> due now ?k x" for x
      using False cd cd'(1) dist by (auto simp: due_def)
    have nott: "\<not> due now ?k t" using cd'(1) dist by (simp add: due_def)
    have tcb': "tcbs ?k x = (if x = t then (tcbs k t)\<lparr>xStatePlace := In_Ready (uxPriority (tcbs k t)), xEventPlace := On_No_List\<rparr> else tcbs k x)" for x
      by simp
    have pr: "uxPriority (tcbs ?k x) = uxPriority (tcbs k x)" "pxCurrentTCB ?k = pxCurrentTCB k" for x by simp_all
    let ?sw = "switch \<or> uxPriority (tcbs ?k t) > uxPriority (tcbs ?k (pxCurrentTCB ?k))"
    obtain sw k' where IH: "unblock_expired now ?sw ?k = Some (sw, k')" "places_ok k'"
      "sw \<longleftrightarrow> ?sw \<or> (\<exists>x. due now ?k x \<and> uxPriority (tcbs ?k x) > uxPriority (tcbs ?k (pxCurrentTCB ?k)))"
      "\<forall>x. tcbs k' x = (if due now ?k x then (tcbs ?k x)\<lparr>xStatePlace := In_Ready (uxPriority (tcbs ?k x)), xEventPlace := On_No_List\<rparr> else tcbs ?k x)"
      "current_delayed k' = dropWhile (\<lambda>x. xStateItemValue (tcbs ?k x) \<le> now) ts"
      "overflow_delayed k' = overflow_delayed k" "pxDelayedTaskList k' = pxDelayedTaskList k"
      "xTickCount k' = xTickCount k" "xNumOfOverflows k' = xNumOfOverflows k" "pxCurrentTCB k' = pxCurrentTCB k"
      "uxSchedulerSuspended k' = uxSchedulerSuspended k" "xYieldPending k' = xYieldPending k" "xPendedTicks k' = xPendedTicks k"
      "xNextTaskUnblockTime k' = (case current_delayed k' of [] \<Rightarrow> portMAX_DELAY | t # _ \<Rightarrow> xStateItemValue (tcbs k' t))"
      using Cons.hyps(1) [OF cd'(1) [symmetric] places_wake [OF Cons.prems(1)] srt', of ?sw] unfolding cd' by (auto simp del: wake_sel(1))
    have step: "unblock_expired now switch k = Some (sw, k')"
      using IH(1) cd False by (subst unblock_expired.simps) (simp add: Let_def)
    have 1: "sw \<longleftrightarrow> switch \<or> (\<exists>x. due now k x \<and> uxPriority (tcbs k x) > uxPriority (tcbs k (pxCurrentTCB k)))"
      using IH(3) unfolding pr duek by blast
    have 2: "tcbs k' x = (if due now k x then (tcbs k x)\<lparr>xStatePlace := In_Ready (uxPriority (tcbs k x)), xEventPlace := On_No_List\<rparr> else tcbs k x)" for x
      using IH(4) nott by (cases "x = t") (simp_all add: tcb' duek)
    have 3: "current_delayed k' = dropWhile (\<lambda>x. xStateItemValue (tcbs k x) \<le> now) (current_delayed k)"
      using IH(5) cd False by (simp only: vals) simp
    show ?thesis using step 1 2 3 IH by (intro exI conjI) (assumption | simp)+
  qed
qed

text \<open>What waking the tasks that are due does to the task control blocks.\<close>

definition woken :: "(nat \<Rightarrow> bool) \<Rightarrow> (nat \<Rightarrow> tcb) \<Rightarrow> nat \<Rightarrow> tcb" where
  "woken W m t = (if W t then (m t)\<lparr>xStatePlace := In_Ready (uxPriority (m t)), xEventPlace := On_No_List\<rparr> else m t)"

lemma woken_sel [simp]:
  "xStateItemValue (woken W m t) = xStateItemValue (m t)" "uxPriority (woken W m t) = uxPriority (m t)"
  "xStatePlace (woken W m t) = (if W t then In_Ready (uxPriority (m t)) else xStatePlace (m t))"
  by (simp_all add: woken_def)

lemma sorted_dropWhile_gt:
  fixes now :: "'a::linorder"
  assumes "sorted (map v xs)" and "x \<in> set (dropWhile (\<lambda>t. v t \<le> now) xs)"
  shows "now < v x"
proof -
  obtain y ys where y: "dropWhile (\<lambda>t. v t \<le> now) xs = y # ys" using assms(2) by (cases "dropWhile (\<lambda>t. v t \<le> now) xs") auto
  have "\<not> v y \<le> now" using y hd_dropWhile [of "\<lambda>t. v t \<le> now" xs] by auto
  moreover have "sorted (map v (y # ys))" using assms(1) y by (metis map_append sorted_append takeWhile_dropWhile_id)
  ultimately show ?thesis using assms(2) y by auto
qed

lemma sorted_map_dropWhile: "sorted (map v xs) \<Longrightarrow> sorted (map v (dropWhile P xs))"
  by (metis map_append sorted_append takeWhile_dropWhile_id)

lemma tick_scan:
  assumes "places_ok k" and "xTickCount k = now"
    and "\<And>b. sorted (map (\<lambda>t. xStateItemValue (tcbs k t)) (xDelayedTaskLists k b))"
    and "\<forall>t \<in> set (current_delayed k). now \<le> xStateItemValue (tcbs k t)"
    and "\<forall>t \<in> set (overflow_delayed k). xStateItemValue (tcbs k t) < now"
    and "\<forall>t \<in> set (current_delayed k). xNextTaskUnblockTime k \<le> xStateItemValue (tcbs k t)"
  shows "\<exists>sw k'. (if now \<ge> xNextTaskUnblockTime k then unblock_expired now False k else Some (False, k)) = Some (sw, k') \<and>
    places_ok k' \<and> times_ok k' \<and> tcbs k' = woken (due now k) (tcbs k) \<and>
    (sw \<longleftrightarrow> (\<exists>t. due now k t \<and> uxPriority (tcbs k t) > uxPriority (tcbs k (pxCurrentTCB k)))) \<and>
    pxDelayedTaskList k' = pxDelayedTaskList k \<and> xTickCount k' = xTickCount k \<and> xNumOfOverflows k' = xNumOfOverflows k \<and>
    pxCurrentTCB k' = pxCurrentTCB k \<and> uxSchedulerSuspended k' = uxSchedulerSuspended k \<and>
    xYieldPending k' = xYieldPending k \<and> xPendedTicks k' = xPendedTicks k"
proof (cases "now \<ge> xNextTaskUnblockTime k")
  case False
  have none: "\<not> due now k t" for t
    using False assms(6) order_trans by (fastforce simp: due_def)
  have "now < xStateItemValue (tcbs k t)" if "t \<in> set (current_delayed k)" for t
    using False assms(6) that by (meson not_le order_less_le_trans)
  then have "times_ok k" using assms(2,3,5,6) by (auto simp: times_ok_def)
  moreover have "woken (due now k) (tcbs k) = tcbs k" using none by (auto simp: woken_def)
  ultimately show ?thesis using False assms(1) none by auto
next
  case True
  have srt: "sorted (map (\<lambda>t. xStateItemValue (tcbs k t)) (current_delayed k))"
    using assms(3) [of "pxDelayedTaskList k"] by (simp add: current_delayed_def)
  obtain sw k' where U: "unblock_expired now False k = Some (sw, k')" "places_ok k'"
    "sw \<longleftrightarrow> (\<exists>t. due now k t \<and> uxPriority (tcbs k t) > uxPriority (tcbs k (pxCurrentTCB k)))"
    "\<And>t. tcbs k' t = (if due now k t then (tcbs k t)\<lparr>xStatePlace := In_Ready (uxPriority (tcbs k t)), xEventPlace := On_No_List\<rparr> else tcbs k t)"
    "current_delayed k' = dropWhile (\<lambda>t. xStateItemValue (tcbs k t) \<le> now) (current_delayed k)"
    "overflow_delayed k' = overflow_delayed k" "pxDelayedTaskList k' = pxDelayedTaskList k"
    "xTickCount k' = xTickCount k" "xNumOfOverflows k' = xNumOfOverflows k" "pxCurrentTCB k' = pxCurrentTCB k"
    "uxSchedulerSuspended k' = uxSchedulerSuspended k" "xYieldPending k' = xYieldPending k" "xPendedTicks k' = xPendedTicks k"
    "xNextTaskUnblockTime k' = (case current_delayed k' of [] \<Rightarrow> portMAX_DELAY | t # _ \<Rightarrow> xStateItemValue (tcbs k' t))"
    using unblock_expired_ok [OF assms(1) srt, of now False] by auto
  have T: "tcbs k' = woken (due now k) (tcbs k)" using U(4) by (auto simp: woken_def)
  have vals: "xStateItemValue (tcbs k' t) = xStateItemValue (tcbs k t)" for t by (simp add: T)
  have cur: "xDelayedTaskLists k' (pxDelayedTaskList k) = dropWhile (\<lambda>t. xStateItemValue (tcbs k t) \<le> now) (current_delayed k)"
    using U(5,7) by (simp add: current_delayed_def)
  have ovf: "xDelayedTaskLists k' (\<not> pxDelayedTaskList k) = overflow_delayed k"
    using U(6,7) by (simp add: overflow_delayed_def)
  have sorted': "sorted (map (\<lambda>t. xStateItemValue (tcbs k' t)) (xDelayedTaskLists k' b))" for b
  proof (cases "b = pxDelayedTaskList k")
    case True
    then show ?thesis unfolding vals using cur sorted_map_dropWhile [OF srt] by simp
  next
    case False
    then have "b = (\<not> pxDelayedTaskList k)" by auto
    then show ?thesis unfolding vals using ovf assms(3) [of b] by (simp add: overflow_delayed_def)
  qed
  have gt: "now < xStateItemValue (tcbs k t)" if "t \<in> set (current_delayed k')" for t
    using sorted_dropWhile_gt [OF srt] that U(5) by simp
  have next': "xNextTaskUnblockTime k' \<le> xStateItemValue (tcbs k' t)" if "t \<in> set (current_delayed k')" for t
  proof (cases "current_delayed k'")
    case Nil
    then show ?thesis using that by simp
  next
    case (Cons y ys)
    have "sorted (map (\<lambda>t. xStateItemValue (tcbs k' t)) (y # ys))"
      using sorted' [of "pxDelayedTaskList k'"] Cons by (simp add: current_delayed_def)
    then show ?thesis using that U(14) Cons by auto
  qed
  have "times_ok k'" unfolding times_ok_def using sorted' gt next' assms(2,5) U(6,8) by (simp add: vals)
  then show ?thesis using True U T by simp
qed

lemma unat_tick: "t + 1 \<noteq> (0 :: u32) \<Longrightarrow> unat (t + 1) = unat t + 1"
  by (simp add: unat_plus_simple word_le_nat_alt) (metis add.commute unatSuc)

lemma max_tick: "t + 1 = (0 :: u32) \<Longrightarrow> unat t = 2 ^ 32 - 1"
proof -
  assume "t + 1 = 0"
  then have "(unat t + 1) mod 2 ^ 32 = 0" using unat_word_ariths(1) [of t 1] by simp
  then have "\<not> unat t + 1 < 2 ^ 32" by (metis mod_less add_is_0 one_neq_zero)
  moreover have "(2 :: nat) ^ 32 = 4294967296" by simp
  ultimately show ?thesis using unat_u32_less [of t] by linarith
qed

lemma tick_ok:
  assumes "places_ok k" and "times_ok k" and "uxSchedulerSuspended k = 0"
  shows "\<exists>sw k'. xTaskIncrementTick k = Some (sw, k') \<and> places_ok k' \<and> times_ok k' \<and>
    tcbs k' = woken (\<lambda>t. ticks_left k t = Some 1) (tcbs k) \<and>
    (\<forall>t n. ticks_left k t = Some (Suc (Suc n)) \<longrightarrow> ticks_left k' t = Some (Suc n)) \<and>
    (sw \<longleftrightarrow> xYieldPending k \<or> (\<exists>t. ticks_left k t = Some 1 \<and> uxPriority (tcbs k t) > uxPriority (tcbs k (pxCurrentTCB k)))) \<and>
    xTickCount k' = xTickCount k + 1 \<and> pxCurrentTCB k' = pxCurrentTCB k \<and> uxSchedulerSuspended k' = 0 \<and>
    xYieldPending k' = xYieldPending k \<and> xPendedTicks k' = xPendedTicks k \<and>
    xNumOfOverflows k' = (if xTickCount k + 1 = 0 then xNumOfOverflows k + 1 else xNumOfOverflows k)"
proof -
  let ?now = "xTickCount k + 1" and ?val = "\<lambda>t. xStateItemValue (tcbs k t)"
  define k0 where "k0 = k\<lparr>xTickCount := ?now\<rparr>"
  have T: "sorted (map ?val (xDelayedTaskLists k b))" for b using assms(2) by (simp add: times_ok_def)
  have cur: "t \<in> set (current_delayed k) \<Longrightarrow> xTickCount k < ?val t \<and> xNextTaskUnblockTime k \<le> ?val t"
    and ovf: "t \<in> set (overflow_delayed k) \<Longrightarrow> ?val t < xTickCount k" for t
    using assms(2) by (auto simp: times_ok_def)
  have mem: "t \<in> set (xDelayedTaskLists k b) \<longleftrightarrow> xStatePlace (tcbs k t) = In_Delayed b" for t b
    by (rule places_okD(2) [OF assms(1)])
  have "\<exists>k1. (if ?now = 0 then taskSWITCH_DELAYED_LISTS k0 else Some k0) = Some k1 \<and> places_ok k1 \<and> tcbs k1 = tcbs k \<and>
     xTickCount k1 = ?now \<and> xDelayedTaskLists k1 = xDelayedTaskLists k \<and> pxDelayedTaskList k1 = (if ?now = 0 then \<not> pxDelayedTaskList k else pxDelayedTaskList k) \<and>
     (\<forall>t \<in> set (current_delayed k1). ?now \<le> ?val t) \<and> (\<forall>t \<in> set (overflow_delayed k1). ?val t < ?now) \<and>
     (\<forall>t \<in> set (current_delayed k1). xNextTaskUnblockTime k1 \<le> ?val t) \<and> (\<forall>t. due ?now k1 t \<longleftrightarrow> ticks_left k t = Some 1) \<and>
     pxCurrentTCB k1 = pxCurrentTCB k \<and> uxSchedulerSuspended k1 = 0 \<and> xYieldPending k1 = xYieldPending k \<and> xPendedTicks k1 = xPendedTicks k \<and>
     xNumOfOverflows k1 = (if ?now = 0 then xNumOfOverflows k + 1 else xNumOfOverflows k)"
  proof (cases "?now = 0")
    case True
    note top = max_tick [OF True]
    have empty: "current_delayed k = []"
    proof (rule ccontr)
      assume "current_delayed k \<noteq> []"
      then have "xTickCount k < ?val (hd (current_delayed k))" using cur by simp
      then show False using top unat_u32_less [of "?val (hd (current_delayed k))"] by (simp add: word_less_nat_alt)
    qed
    let ?k1 = "prvResetNextTaskUnblockTime (k0\<lparr>pxDelayedTaskList := \<not> pxDelayedTaskList k0, xNumOfOverflows := xNumOfOverflows k0 + 1\<rparr>)"
    have c1: "current_delayed ?k1 = overflow_delayed k" "overflow_delayed ?k1 = []"
      using empty by (simp_all add: k0_def current_delayed_def overflow_delayed_def prvResetNextTaskUnblockTime_def)
    have f1: "tcbs ?k1 = tcbs k" "xDelayedTaskLists ?k1 = xDelayedTaskLists k" "pxDelayedTaskList ?k1 = (\<not> pxDelayedTaskList k)"
      "xTickCount ?k1 = ?now" "pxCurrentTCB ?k1 = pxCurrentTCB k" "uxSchedulerSuspended ?k1 = 0" "xYieldPending ?k1 = xYieldPending k"
      "xPendedTicks ?k1 = xPendedTicks k" "xNumOfOverflows ?k1 = xNumOfOverflows k + 1"
      "xNextTaskUnblockTime ?k1 = (case overflow_delayed k of [] \<Rightarrow> portMAX_DELAY | t # _ \<Rightarrow> ?val t)"
      using assms(3)
      by (simp_all add: k0_def prvResetNextTaskUnblockTime_def current_delayed_def overflow_delayed_def split: list.split)
    have "taskSWITCH_DELAYED_LISTS k0 = Some ?k1"
      using empty by (simp add: taskSWITCH_DELAYED_LISTS_def k0_def current_delayed_def)
    moreover have "places_ok ?k1"
      by (rule places_times [OF assms(1)]) (simp_all add: k0_def prvResetNextTaskUnblockTime_def)
    moreover have "due ?now ?k1 t \<longleftrightarrow> ticks_left k t = Some 1" for t
    proof (cases "xStatePlace (tcbs k t) = In_Delayed (\<not> pxDelayedTaskList k)")
      case d: True
      then have "t \<in> set (overflow_delayed k)" by (simp add: overflow_delayed_def mem)
      moreover have "ticks_left k t = Some (Suc (unat (?val t)))" using d top by (simp add: ticks_left_def)
      ultimately show ?thesis using True by (simp add: due_def c1 f1 unat_eq_0)
    next
      case ne: False
      have "t \<notin> set (current_delayed k)" using empty by simp
      then have "xStatePlace (tcbs k t) \<noteq> In_Delayed b" for b
        using ne by (cases "b = pxDelayedTaskList k") (auto simp: current_delayed_def mem)
      moreover then have "t \<notin> set (overflow_delayed k)" by (simp add: overflow_delayed_def mem)
      ultimately show ?thesis by (auto simp: due_def c1 ticks_left_def split: state_place.split)
    qed
    moreover have "xNextTaskUnblockTime ?k1 \<le> ?val t" if "t \<in> set (overflow_delayed k)" for t
      using T [of "\<not> pxDelayedTaskList k"] that f1(10) by (cases "overflow_delayed k") (auto simp: overflow_delayed_def)
    ultimately show ?thesis using True c1 f1 by (intro exI [of _ ?k1]) simp
  next
    case False
    have le: "xTickCount k < v \<longleftrightarrow> ?now \<le> v" for v
      using unat_tick [OF False] by (simp add: word_less_nat_alt word_le_nat_alt Suc_le_eq)
    have c0: "current_delayed k0 = current_delayed k" "overflow_delayed k0 = overflow_delayed k"
      by (simp_all add: k0_def current_delayed_def overflow_delayed_def)
    have "due ?now k0 t \<longleftrightarrow> ticks_left k t = Some 1" for t
    proof (cases "xStatePlace (tcbs k t) = In_Delayed (pxDelayedTaskList k)")
      case True
      then have i: "t \<in> set (current_delayed k)" by (simp add: current_delayed_def mem)
      have "?val t \<le> ?now \<longleftrightarrow> unat (?val t) - unat (xTickCount k) = 1"
        using cur [OF i] unat_tick [OF False] by (simp add: word_less_nat_alt word_le_nat_alt) arith
      with True i show ?thesis by (simp add: due_def c0 ticks_left_def) (simp add: k0_def)
    next
      case ne: False
      have "ticks_left k t \<noteq> Some 1"
        using ne False unat_u32_less [of "xTickCount k"] unat_tick [OF False] unat_u32_less [of ?now]
        by (auto simp: ticks_left_def split: state_place.splits)
      moreover have "t \<notin> set (current_delayed k)" using ne by (simp add: current_delayed_def mem)
      ultimately show ?thesis by (simp add: due_def c0)
    qed
    moreover have "places_ok k0" unfolding k0_def by (rule places_times [OF assms(1)]) simp_all
    moreover have "\<forall>t \<in> set (overflow_delayed k0). ?val t < ?now"
    proof
      fix t assume "t \<in> set (overflow_delayed k0)"
      then have "?val t < xTickCount k" using ovf c0 by simp
      also have "\<dots> < ?now" using le [of ?now] by simp
      finally show "?val t < ?now" .
    qed
    ultimately show ?thesis using False cur le c0 assms(3) by (auto simp: k0_def)
  qed
  then obtain k1 where k1: "(if ?now = 0 then taskSWITCH_DELAYED_LISTS k0 else Some k0) = Some k1" "places_ok k1" "tcbs k1 = tcbs k"
     "xTickCount k1 = ?now" "xDelayedTaskLists k1 = xDelayedTaskLists k"
     "pxDelayedTaskList k1 = (if ?now = 0 then \<not> pxDelayedTaskList k else pxDelayedTaskList k)"
     "\<forall>t \<in> set (current_delayed k1). ?now \<le> ?val t" "\<forall>t \<in> set (overflow_delayed k1). ?val t < ?now"
     "\<forall>t \<in> set (current_delayed k1). xNextTaskUnblockTime k1 \<le> ?val t" "\<And>t. due ?now k1 t \<longleftrightarrow> ticks_left k t = Some 1"
     "pxCurrentTCB k1 = pxCurrentTCB k" "uxSchedulerSuspended k1 = 0" "xYieldPending k1 = xYieldPending k" "xPendedTicks k1 = xPendedTicks k"
     "xNumOfOverflows k1 = (if ?now = 0 then xNumOfOverflows k + 1 else xNumOfOverflows k)"
    by blast
  obtain sw k' where s: "(if ?now \<ge> xNextTaskUnblockTime k1 then unblock_expired ?now False k1 else Some (False, k1)) = Some (sw, k')"
    "places_ok k'" "times_ok k'" "tcbs k' = woken (\<lambda>t. ticks_left k t = Some 1) (tcbs k)"
    "sw \<longleftrightarrow> (\<exists>t. ticks_left k t = Some 1 \<and> uxPriority (tcbs k t) > uxPriority (tcbs k (pxCurrentTCB k)))"
    "pxDelayedTaskList k' = pxDelayedTaskList k1" "xTickCount k' = ?now" "xNumOfOverflows k' = xNumOfOverflows k1"
    "pxCurrentTCB k' = pxCurrentTCB k" "uxSchedulerSuspended k' = 0" "xYieldPending k' = xYieldPending k" "xPendedTicks k' = xPendedTicks k"
  proof -
    have due: "due ?now k1 = (\<lambda>t. ticks_left k t = Some 1)" by (rule ext) (rule k1(10))
    from tick_scan [OF k1(2,4), unfolded k1(3) k1(5), OF T k1(7-9), unfolded due k1(4) k1(11-14)] that show ?thesis by blast
  qed
  have left: "ticks_left k' t = Some (Suc n)" if l: "ticks_left k t = Some (Suc (Suc n))" for t n
  proof -
    obtain b where b: "xStatePlace (tcbs k t) = In_Delayed b" using l by (auto simp: ticks_left_def split: state_place.splits)
    have b': "xStatePlace (tcbs k' t) = In_Delayed b" "xStateItemValue (tcbs k' t) = ?val t" using b l by (simp_all add: s(4))
    have i: "b = pxDelayedTaskList k \<Longrightarrow> xTickCount k < ?val t" using cur b mem [of t b] by (simp add: current_delayed_def)
    show ?thesis
    proof (cases "?now = 0")
      case True
      have "b \<noteq> pxDelayedTaskList k"
        using i max_tick [OF True] unat_u32_less [of "?val t"] by (auto simp: word_less_nat_alt)
      then show ?thesis using l b b' s(6,7) k1(6) True max_tick [OF True] by (simp add: ticks_left_def)
    next
      case False
      have "unat (xTickCount k) < 2 ^ 32 - 1" using unat_tick [OF False] unat_u32_less [of ?now] by simp
      then show ?thesis using l b b' s(6,7) k1(6) False unat_tick [OF False] by (auto simp: ticks_left_def split: if_splits)
    qed
  qed
  have "xTaskIncrementTick k = Some (sw \<or> xYieldPending k', k')"
    unfolding xTaskIncrementTick_def assms(3) Let_def k0_def [symmetric] k1(1)
    by (simp only: if_True simp_thms bind.bind_lunit s(1) prod.case)
  then show ?thesis using s left k1(15) by auto
qed

subsection \<open>Runs of ticks\<close>

fun run_ticks :: "nat \<Rightarrow> kernel \<Rightarrow> kernel option" where
  "run_ticks 0 k = Some k"
| "run_ticks (Suc n) k = Option.bind (xTaskIncrementTick k) (\<lambda>(_, k). run_ticks n k)"

text \<open>A delayed task stays delayed for exactly the ticks it has left, across any wrap of the tick count.\<close>

lemma run_ticks_ok:
  assumes "places_ok k" and "times_ok k" and "uxSchedulerSuspended k = 0" and "ticks_left k t = Some n" and "0 < n" and "m \<le> n"
  shows "\<exists>k'. run_ticks m k = Some k' \<and> places_ok k' \<and> times_ok k' \<and> uxSchedulerSuspended k' = 0 \<and>
    uxPriority (tcbs k' t) = uxPriority (tcbs k t) \<and>
    (if m = n then xStatePlace (tcbs k' t) = In_Ready (uxPriority (tcbs k t)) else ticks_left k' t = Some (n - m))"
  using assms
proof (induction m arbitrary: k n)
  case 0
  then show ?case by simp
next
  case (Suc m)
  obtain sw k1 where T: "xTaskIncrementTick k = Some (sw, k1)" "places_ok k1" "times_ok k1" "uxSchedulerSuspended k1 = 0"
    "tcbs k1 = woken (\<lambda>t. ticks_left k t = Some 1) (tcbs k)"
    "\<forall>t n. ticks_left k t = Some (Suc (Suc n)) \<longrightarrow> ticks_left k1 t = Some (Suc n)"
    using tick_ok [OF Suc.prems(1-3)] by blast
  show ?case
  proof (cases "n = 1")
    case True
    then show ?thesis using Suc.prems(4,6) T by simp
  next
    case False
    define r where "r = n - 2"
    have r: "n = Suc (Suc r)" using Suc.prems(5) False by (simp add: r_def)
    then have "ticks_left k1 t = Some (Suc r)" using T(6) Suc.prems(4) by blast
    moreover have "m \<le> Suc r" using Suc.prems(6) r by simp
    ultimately obtain k' where k': "run_ticks m k1 = Some k'" "places_ok k'" "times_ok k'" "uxSchedulerSuspended k' = 0"
      "uxPriority (tcbs k' t) = uxPriority (tcbs k1 t)"
      "if m = Suc r then xStatePlace (tcbs k' t) = In_Ready (uxPriority (tcbs k1 t)) else ticks_left k' t = Some (Suc r - m)"
      using Suc.IH [OF T(2,3,4), of "Suc r"] by blast
    have "run_ticks (Suc m) k = Some k'" using T(1) k'(1) by simp
    moreover have "uxPriority (tcbs k1 t) = uxPriority (tcbs k t)" by (simp add: T(5))
    ultimately show ?thesis using k' r by (simp del: run_ticks.simps)
  qed
qed

subsection \<open>Delaying the running task\<close>

lemma wake_time:
  fixes a b :: u32
  shows "a + b < a \<Longrightarrow> unat (a + b) + 2 ^ 32 = unat a + unat b" "\<not> a + b < a \<Longrightarrow> unat (a + b) = unat a + unat b"
proof -
  define s where "s = unat a + unat b"
  have s: "unat (a + b) = s mod 2 ^ 32" by (simp add: unat_word_ariths s_def)
  have "s < 4294967296 + 4294967296" unfolding s_def by (intro add_strict_mono unat_u32_less)
  then have b: "s < 2 ^ 32 + 2 ^ 32" "unat b < 2 ^ 32" by simp_all
  show "unat (a + b) + 2 ^ 32 = unat a + unat b" if "a + b < a"
  proof -
    have "\<not> s < 2 ^ 32"
    proof
      assume "s < 2 ^ 32"
      then have "unat (a + b) = s" using s by simp
      with that show False by (simp add: word_less_nat_alt s_def)
    qed
    then have "s mod 2 ^ 32 = s - 2 ^ 32" using b(1) by (simp add: le_mod_geq)
    then show ?thesis using s \<open>\<not> s < 2 ^ 32\<close> by (simp add: s_def)
  qed
  show "unat (a + b) = unat a + unat b" if "\<not> a + b < a"
  proof (cases "s < 2 ^ 32")
    case True
    then show ?thesis using s by (simp add: s_def)
  next
    case False
    then have "s mod 2 ^ 32 = s - 2 ^ 32" using b(1) by (simp add: le_mod_geq)
    then have "unat (a + b) = s - 4294967296" "\<not> s < 4294967296" using s False by simp_all
    then have "unat (a + b) < unat a" using unat_u32_less [of b] unfolding s_def by linarith
    with that show ?thesis by (simp add: word_less_nat_alt)
  qed
qed

lemma set_insert_delayed [simp]:
  "tcbs (insert_delayed b t k) x = (if x = t then (tcbs k t)\<lparr>xStatePlace := In_Delayed b\<rparr> else tcbs k x)"
  "xDelayedTaskLists (insert_delayed b t k) c =
     (if c = b then insert_stable (\<lambda>x. xStateItemValue (tcbs k x)) t (xDelayedTaskLists k b) else xDelayedTaskLists k c)"
  "pxDelayedTaskList (insert_delayed b t k) = pxDelayedTaskList k" "xTickCount (insert_delayed b t k) = xTickCount k"
  "pxReadyTasksLists (insert_delayed b t k) = pxReadyTasksLists k" "xSuspendedTaskList (insert_delayed b t k) = xSuspendedTaskList k"
  "uxTopReadyPriority (insert_delayed b t k) = uxTopReadyPriority k" "xNextTaskUnblockTime (insert_delayed b t k) = xNextTaskUnblockTime k"
  "pxCurrentTCB (insert_delayed b t k) = pxCurrentTCB k" "uxSchedulerSuspended (insert_delayed b t k) = uxSchedulerSuspended k"
  "xPendedTicks (insert_delayed b t k) = xPendedTicks k" "xPendingReadyList (insert_delayed b t k) = xPendingReadyList k"
  "xYieldPending (insert_delayed b t k) = xYieldPending k"
  by (simp_all add: insert_delayed_def)

lemma places_insert_delayed:
  assumes "places_ok k" and "xStatePlace (tcbs k t) = In_No_List"
  shows "places_ok (insert_delayed b t k)"
proof (rule places_okI)
  fix c
  have "t \<notin> set (xDelayedTaskLists k c)" using assms by (simp add: places_okD)
  then show "distinct (xDelayedTaskLists (insert_delayed b t k) c)"
    using places_okD(6) [OF assms(1)] by (auto intro!: distinct_insert_stable)
qed (use assms in \<open>auto simp: places_okD set_insert_stable split: if_splits dest: places_okD(4)\<close>)

lemma delay_current:
  assumes "places_ok k" and "times_ok k" and "t = pxCurrentTCB k" and "xStatePlace (tcbs k t) = In_Ready p"
    and "w > 0" and "k' = prvAddCurrentTaskToDelayedList w False k"
  shows "places_ok k' \<and> times_ok k' \<and> ticks_left k' t = Some (unat w) \<and>
    (\<forall>x. x \<noteq> t \<longrightarrow> tcbs k' x = tcbs k x) \<and> uxPriority (tcbs k' t) = uxPriority (tcbs k t) \<and>
    pxCurrentTCB k' = t \<and> xPendedTicks k' = xPendedTicks k \<and>
    xPendingReadyList k' = xPendingReadyList k \<and> uxSchedulerSuspended k' = uxSchedulerSuspended k \<and> xTickCount k' = xTickCount k"
proof -
  let ?wake = "xTickCount k + w"
  define k1 where "k1 = set_tcb t (\<lambda>x. x\<lparr>xStateItemValue := ?wake\<rparr>) (remove_state_item t k)"
  have pl1: "places_ok k1" unfolding k1_def by (intro places_set_tcb places_remove_state assms(1)) simp_all
  have k1: "tcbs k1 x = (if x = t then (tcbs k t)\<lparr>xStatePlace := In_No_List, xStateItemValue := ?wake\<rparr> else tcbs k x)"
    "xDelayedTaskLists k1 = xDelayedTaskLists k" "pxDelayedTaskList k1 = pxDelayedTaskList k" "xTickCount k1 = xTickCount k"
    "xNextTaskUnblockTime k1 = xNextTaskUnblockTime k" "pxCurrentTCB k1 = t" "xPendedTicks k1 = xPendedTicks k"
    "xPendingReadyList k1 = xPendingReadyList k" "uxSchedulerSuspended k1 = uxSchedulerSuspended k" for x
    using assms(3,4) by (auto simp: k1_def)
  let ?val = "\<lambda>x. xStateItemValue (tcbs k x)" and ?val1 = "\<lambda>x. xStateItemValue (tcbs k1 x)"
  have out: "t \<notin> set (xDelayedTaskLists k b)" for b using assms(1,4) by (simp add: places_okD)
  have val1: "map ?val1 (xDelayedTaskLists k b) = map ?val (xDelayedTaskLists k b)" for b
    using out by (auto simp: k1)
  have srt: "sorted (map ?val1 (insert_stable ?val1 t (xDelayedTaskLists k b)))" "sorted (map ?val1 (xDelayedTaskLists k b))" for b
    using assms(2) by (auto intro!: insert_stable_sorted simp only: val1 times_ok_def)
  have cur: "xTickCount k < ?val x" "xNextTaskUnblockTime k \<le> ?val x" if "x \<in> set (xDelayedTaskLists k (pxDelayedTaskList k))" for x
    using assms(2) that by (auto simp: times_ok_def current_delayed_def)
  have ovf: "?val x < xTickCount k" if "x \<in> set (xDelayedTaskLists k (\<not> pxDelayedTaskList k))" for x
    using assms(2) that by (auto simp: times_ok_def overflow_delayed_def)
  have k': "k' = (if ?wake < xTickCount k then insert_delayed (\<not> pxDelayedTaskList k) t k1
      else let k2 = insert_delayed (pxDelayedTaskList k) t k1
           in if ?wake < xNextTaskUnblockTime k then k2\<lparr>xNextTaskUnblockTime := ?wake\<rparr> else k2)"
    using assms(3,6) k1 by (simp add: prvAddCurrentTaskToDelayedList_def Let_def k1_def)
  have w: "0 < unat w" using assms(5) by (simp add: word_less_nat_alt)
  show ?thesis
  proof (cases "?wake < xTickCount k")
    case True
    note u = wake_time(1) [OF True]
    let ?b = "\<not> pxDelayedTaskList k"
    have e: "k' = insert_delayed ?b t k1" using k' True by simp
    have vals: "xStateItemValue (tcbs k' x) = ?val1 x" for x by (simp add: e)
    have "sorted (map (\<lambda>x. xStateItemValue (tcbs k' x)) (xDelayedTaskLists k' b))" for b
      unfolding vals using srt [of b] by (auto simp: e k1(2))
    moreover have "xTickCount k' < xStateItemValue (tcbs k' x) \<and> xNextTaskUnblockTime k' \<le> xStateItemValue (tcbs k' x)"
      if "x \<in> set (current_delayed k')" for x
    proof -
      have i: "x \<in> set (xDelayedTaskLists k (pxDelayedTaskList k))" using that by (simp add: e current_delayed_def k1)
      then have "x \<noteq> t" using out by auto
      then show ?thesis using cur [OF i] by (simp add: e k1)
    qed
    moreover have "xStateItemValue (tcbs k' x) < xTickCount k'" if "x \<in> set (overflow_delayed k')" for x
    proof -
      have "x = t \<or> x \<in> set (xDelayedTaskLists k ?b)" using that by (auto simp: e overflow_delayed_def k1)
      then show ?thesis using ovf [of x] True by (cases "x = t") (auto simp: e k1)
    qed
    ultimately have "times_ok k'" by (simp add: times_ok_def)
    moreover have "places_ok k'" unfolding e by (rule places_insert_delayed [OF pl1]) (simp add: k1)
    moreover have "ticks_left k' t = Some (unat w)" using u by (simp add: e ticks_left_def k1)
    ultimately show ?thesis by (simp add: e k1)
  next
    case False
    note u = wake_time(2) [OF False]
    let ?b = "pxDelayedTaskList k"
    define k2 where "k2 = insert_delayed ?b t k1"
    have e: "k' = (if ?wake < xNextTaskUnblockTime k then k2\<lparr>xNextTaskUnblockTime := ?wake\<rparr> else k2)"
      using k' False by (simp add: k2_def Let_def)
    have f: "tcbs k' = tcbs k2" "xDelayedTaskLists k' = xDelayedTaskLists k2" "pxDelayedTaskList k' = pxDelayedTaskList k2"
      "pxReadyTasksLists k' = pxReadyTasksLists k2" "xSuspendedTaskList k' = xSuspendedTaskList k2" "uxTopReadyPriority k' = uxTopReadyPriority k2"
      "xTickCount k' = xTickCount k2" "pxCurrentTCB k' = pxCurrentTCB k2" "xPendedTicks k' = xPendedTicks k2"
      "xPendingReadyList k' = xPendingReadyList k2" "uxSchedulerSuspended k' = uxSchedulerSuspended k2"
      "xNextTaskUnblockTime k' = min ?wake (xNextTaskUnblockTime k)"
      by (auto simp: e min_def k2_def k1 dest: order.strict_implies_order)
    have vals: "xStateItemValue (tcbs k' x) = ?val1 x" for x by (simp add: f k2_def)
    have "sorted (map (\<lambda>x. xStateItemValue (tcbs k' x)) (xDelayedTaskLists k' b))" for b
      unfolding vals using srt [of b] by (auto simp: f k2_def k1(2))
    moreover have "xTickCount k' < xStateItemValue (tcbs k' x) \<and> xNextTaskUnblockTime k' \<le> xStateItemValue (tcbs k' x)"
      if "x \<in> set (current_delayed k')" for x
    proof (cases "x = t")
      case True
      then show ?thesis using u w by (simp add: f k2_def k1 word_less_nat_alt)
    next
      case ne: False
      then have "x \<in> set (xDelayedTaskLists k ?b)" using that by (simp add: f k2_def current_delayed_def k1)
      from cur [OF this] ne show ?thesis by (simp add: f k2_def k1 min.coboundedI2)
    qed
    moreover have "xStateItemValue (tcbs k' x) < xTickCount k'" if "x \<in> set (overflow_delayed k')" for x
    proof -
      have i: "x \<in> set (xDelayedTaskLists k (\<not> ?b))" using that by (simp add: f k2_def overflow_delayed_def k1)
      then have "x \<noteq> t" using out by auto
      then show ?thesis using ovf [OF i] by (simp add: f k2_def k1)
    qed
    ultimately have "times_ok k'" by (simp add: times_ok_def)
    moreover have "places_ok k2" unfolding k2_def by (rule places_insert_delayed [OF pl1]) (simp add: k1)
    then have "places_ok k'" by (rule places_times) (simp_all add: f)
    moreover have "ticks_left k' t = Some (unat w)" using u by (simp add: f k2_def ticks_left_def k1)
    ultimately show ?thesis by (simp add: f k2_def k1)
  qed
qed

subsection \<open>Choosing the running task\<close>

lemma highest_ready_ok:
  "\<exists>q \<le> p. fst (ready q) \<noteq> [] \<Longrightarrow>
   \<exists>h \<le> p. highest_ready p ready = Some h \<and> fst (ready h) \<noteq> [] \<and> (\<forall>q. h < q \<longrightarrow> q \<le> p \<longrightarrow> fst (ready q) = [])"
proof (induction p)
  case 0
  then show ?case by (subst highest_ready.simps) auto
next
  case (Suc p)
  show ?case
  proof (cases "fst (ready (Suc p)) = []")
    case True
    then have "\<exists>q \<le> p. fst (ready q) \<noteq> []" using Suc.prems by (metis le_SucE)
    from Suc.IH [OF this] True show ?thesis by (subst highest_ready.simps) (auto simp: le_Suc_eq)
  next
    case False
    then show ?thesis by (subst highest_ready.simps) auto
  qed
qed

lemma ring_next_in: "fst r \<noteq> [] \<Longrightarrow> ring_next r \<in> set (fst r)"
proof -
  assume n: "fst r \<noteq> []"
  have "y \<in> set (fst r)" if "tl (dropWhile P (fst r)) = y # ys" for P y ys
    using that by (metis list.set_intros(1) list.set_sel(2) list.distinct(1) set_dropWhileD tl_Nil)
  with n show ?thesis by (auto simp: ring_next_def split_def split: option.split list.split)
qed

lemma switch_ok:
  assumes "places_ok k" and "uxSchedulerSuspended k = 0" and "xStatePlace (tcbs k i) = In_Ready q"
  shows "\<exists>k'. vTaskSwitchContext k = Some k' \<and> places_ok k' \<and>
    xStatePlace (tcbs k (pxCurrentTCB k')) = In_Ready (uxPriority (tcbs k (pxCurrentTCB k'))) \<and>
    (\<forall>t p. xStatePlace (tcbs k t) = In_Ready p \<longrightarrow> uxPriority (tcbs k t) \<le> uxPriority (tcbs k (pxCurrentTCB k'))) \<and>
    (\<exists>p. pxCurrentTCB k' = ring_next (pxReadyTasksLists k p) \<and> pxReadyTasksLists k' = (pxReadyTasksLists k)(p := (fst (pxReadyTasksLists k p), Some (pxCurrentTCB k')))) \<and>
    tcbs k' = tcbs k \<and> xDelayedTaskLists k' = xDelayedTaskLists k \<and> pxDelayedTaskList k' = pxDelayedTaskList k \<and>
    xTickCount k' = xTickCount k \<and> xNextTaskUnblockTime k' = xNextTaskUnblockTime k \<and>
    uxSchedulerSuspended k' = 0 \<and> xPendedTicks k' = xPendedTicks k \<and> xPendingReadyList k' = xPendingReadyList k \<and> \<not> xYieldPending k'"
proof -
  let ?r = "pxReadyTasksLists k"
  have in_ready: "t \<in> set (fst (?r p)) \<longleftrightarrow> xStatePlace (tcbs k t) = In_Ready p" for t p by (rule places_okD(1) [OF assms(1)])
  have "\<exists>p \<le> uxTopReadyPriority k. fst (?r p) \<noteq> []"
    using in_ready [of i q] assms(3) places_okD(4) [OF assms(1), of i q] by (metis empty_iff list.set(1))
  from highest_ready_ok [OF this] obtain h where h: "h \<le> uxTopReadyPriority k" "highest_ready (uxTopReadyPriority k) ?r = Some h"
    "fst (?r h) \<noteq> []" "\<And>p. h < p \<Longrightarrow> p \<le> uxTopReadyPriority k \<Longrightarrow> fst (?r p) = []" by blast
  have top: "p \<le> h" if "xStatePlace (tcbs k t) = In_Ready p" for t p
  proof (rule ccontr)
    assume "\<not> p \<le> h"
    then have "fst (?r p) = []" using h(4) places_okD(4) [OF assms(1) that] by simp
    then show False using in_ready [of t p] that by simp
  qed
  let ?t = "ring_next (?r h)"
  have t: "xStatePlace (tcbs k ?t) = In_Ready h" using ring_next_in [OF h(3)] in_ready by blast
  define k' where "k' = k\<lparr>xYieldPending := False, pxCurrentTCB := ?t, pxReadyTasksLists := ?r(h := (fst (?r h), Some ?t)), uxTopReadyPriority := h\<rparr>"
  have s: "vTaskSwitchContext k = Some k'"
    using assms(2) h(2) by (simp add: vTaskSwitchContext_def taskSELECT_HIGHEST_PRIORITY_TASK_def k'_def Let_def)
  have "places_ok k'"
    by (rule places_okI) (use assms(1) top in \<open>auto simp: k'_def places_okD split: if_splits dest: places_okD(4)\<close>)
  moreover have "uxPriority (tcbs k x) \<le> uxPriority (tcbs k ?t)" if "xStatePlace (tcbs k x) = In_Ready p" for x p
    using top [OF that] places_okD(4) [OF assms(1) that] places_okD(4) [OF assms(1) t] by simp
  moreover have "uxPriority (tcbs k ?t) = h" using places_okD(4) [OF assms(1) t] by simp
  ultimately show ?thesis using s t assms(2) by (intro exI [of _ k']) (auto simp: k'_def)
qed

lemma resume_quiet:
  assumes "uxSchedulerSuspended k = 1" and "xPendingReadyList k = []" and "xPendedTicks k = 0"
  shows "xTaskResumeAll k = Some (xYieldPending k, k\<lparr>uxSchedulerSuspended := 0\<rparr>)"
  using assms by (simp add: xTaskResumeAll_def Let_def drain_pending.simps)

lemma times_cong:
  "times_ok k \<Longrightarrow> tcbs k' = tcbs k \<Longrightarrow> xDelayedTaskLists k' = xDelayedTaskLists k \<Longrightarrow> pxDelayedTaskList k' = pxDelayedTaskList k \<Longrightarrow>
   xTickCount k' = xTickCount k \<Longrightarrow> xNextTaskUnblockTime k' = xNextTaskUnblockTime k \<Longrightarrow> times_ok k'"
  by (simp add: times_ok_def current_delayed_def overflow_delayed_def)

lemma ticks_left_cong:
  "tcbs k' t = tcbs k t \<Longrightarrow> pxDelayedTaskList k' = pxDelayedTaskList k \<Longrightarrow> xTickCount k' = xTickCount k \<Longrightarrow> ticks_left k' t = ticks_left k t"
  unfolding ticks_left_def by (cases "xStatePlace (tcbs k t)") auto

text \<open>
  The kernel between two interrupts: consistent lists and times, the scheduler not suspended, nothing pending, the running
  task ready and, behind it, at least one other ready task (the idle task never blocks).
\<close>

definition kernel_ok :: "kernel \<Rightarrow> bool" where
  "kernel_ok k \<longleftrightarrow> places_ok k \<and> times_ok k \<and> uxSchedulerSuspended k = 0 \<and> xPendedTicks k = 0 \<and> xPendingReadyList k = [] \<and>
     (\<exists>p. xStatePlace (tcbs k (pxCurrentTCB k)) = In_Ready p) \<and>
     (\<exists>i p. i \<noteq> pxCurrentTCB k \<and> xStatePlace (tcbs k i) = In_Ready p)"

lemma suspended_ok:
  assumes "kernel_ok k"
  shows "places_ok (vTaskSuspendAll k)" "times_ok (vTaskSuspendAll k)" "uxSchedulerSuspended (vTaskSuspendAll k) = 1"
    "xPendedTicks (vTaskSuspendAll k) = 0" "xPendingReadyList (vTaskSuspendAll k) = []"
    "tcbs (vTaskSuspendAll k) = tcbs k" "pxCurrentTCB (vTaskSuspendAll k) = pxCurrentTCB k"
    "xTickCount (vTaskSuspendAll k) = xTickCount k"
proof -
  have k: "places_ok k" "times_ok k" using assms by (simp_all add: kernel_ok_def)
  show "places_ok (vTaskSuspendAll k)" by (rule places_times [OF k(1)]) (simp_all add: vTaskSuspendAll_def)
  show "times_ok (vTaskSuspendAll k)" by (rule times_cong [OF k(2)]) (simp_all add: vTaskSuspendAll_def)
qed (use assms in \<open>simp_all add: kernel_ok_def vTaskSuspendAll_def\<close>)

lemma delay_and_switch:
  assumes "kernel_ok k" and "w > 0"
  shows "\<exists>y k2 k'. xTaskResumeAll (prvAddCurrentTaskToDelayedList w False (vTaskSuspendAll k)) = Some (y, k2) \<and>
    vTaskSwitchContext k2 = Some k' \<and>
    places_ok k' \<and> times_ok k' \<and> uxSchedulerSuspended k' = 0 \<and> ticks_left k' (pxCurrentTCB k) = Some (unat w) \<and>
    uxPriority (tcbs k' (pxCurrentTCB k)) = uxPriority (tcbs k (pxCurrentTCB k)) \<and> xTickCount k' = xTickCount k \<and>
    (\<forall>x. x \<noteq> pxCurrentTCB k \<longrightarrow> tcbs k' x = tcbs k x)"
proof -
  let ?t = "pxCurrentTCB k"
  define k1 where "k1 = prvAddCurrentTaskToDelayedList w False (vTaskSuspendAll k)"
  define k2 where "k2 = k1\<lparr>uxSchedulerSuspended := 0\<rparr>"
  note sus = suspended_ok [OF assms(1)]
  obtain p where p: "xStatePlace (tcbs k ?t) = In_Ready p" using assms(1) by (auto simp: kernel_ok_def)
  obtain i q where i: "i \<noteq> ?t" "xStatePlace (tcbs k i) = In_Ready q" using assms(1) by (auto simp: kernel_ok_def)
  have d: "places_ok k1" "times_ok k1" "ticks_left k1 ?t = Some (unat w)" "\<forall>x. x \<noteq> ?t \<longrightarrow> tcbs k1 x = tcbs k x"
    "uxPriority (tcbs k1 ?t) = uxPriority (tcbs k ?t)" "xPendedTicks k1 = 0"
    "xPendingReadyList k1 = []" "uxSchedulerSuspended k1 = 1" "xTickCount k1 = xTickCount k"
    using delay_current [OF sus(1,2) _ _ assms(2) k1_def, of ?t p] p sus by simp_all
  have r: "xTaskResumeAll k1 = Some (xYieldPending k1, k2)" using resume_quiet [OF d(8,7,6)] by (simp add: k2_def)
  have pl: "places_ok k2" by (rule places_times [OF d(1)]) (simp_all add: k2_def)
  have "xStatePlace (tcbs k2 i) = In_Ready q" using i d(4) by (simp add: k2_def)
  from switch_ok [OF pl _ this] obtain k' where k': "vTaskSwitchContext k2 = Some k'" "places_ok k'"
    "tcbs k' = tcbs k2" "xDelayedTaskLists k' = xDelayedTaskLists k2" "pxDelayedTaskList k' = pxDelayedTaskList k2"
    "xTickCount k' = xTickCount k2" "xNextTaskUnblockTime k' = xNextTaskUnblockTime k2" "uxSchedulerSuspended k' = 0"
    by (auto simp: k2_def)
  have "times_ok k'" by (rule times_cong [OF d(2)]) (simp_all add: k' k2_def)
  moreover have "ticks_left k' ?t = ticks_left k1 ?t" by (rule ticks_left_cong) (simp_all add: k' k2_def)
  ultimately show ?thesis
    using r k'(1,2,8) d(3,4,5,9) by (intro exI [of _ "xYieldPending k1"] exI [of _ k2] exI [of _ k']) (simp add: k1_def [symmetric] k'(3,6) k2_def)
qed

section \<open>Delays are exact\<close>

text \<open>A kernel of two tasks, \<open>1\<close> running and \<open>2\<close> the idle task, at the tick count given.\<close>

definition ready_task :: "nat \<Rightarrow> tcb" where
  "ready_task p = \<lparr>uxPriority = p, uxBasePriority = p, uxMutexesHeld = 0, xStateItemValue = 0,
     xEventItemValue = of_nat configMAX_PRIORITIES - of_nat p, xStatePlace = In_Ready p, xEventPlace = On_No_List,
     ulNotifiedValue = 0, ucNotifyState = taskNOT_WAITING_NOTIFICATION\<rparr>"

definition two_tasks :: "u32 \<Rightarrow> kernel" where
  "two_tasks now = \<lparr>tcbs = (\<lambda>t. if t = 1 then ready_task 3 else if t = 2 then ready_task 0 else (ready_task 0)\<lparr>xStatePlace := In_No_List\<rparr>),
     pxCurrentTCB = 1, pxReadyTasksLists = (\<lambda>p. if p = 3 then ([1], Some 1) else if p = 0 then ([2], None) else ([], None)),
     xDelayedTaskLists = (\<lambda>_. []), pxDelayedTaskList = True, xPendingReadyList = [], xSuspendedTaskList = [],
     xEventLists = (\<lambda>_. []), xTickCount = now, xPendedTicks = 0, xNumOfOverflows = 0, xNextTaskUnblockTime = portMAX_DELAY,
     uxTopReadyPriority = 3, uxSchedulerSuspended = 0, xYieldPending = False, uxCurrentNumberOfTasks = 2\<rparr>"

lemma two_tasks_ok: "kernel_ok (two_tasks now)"
proof -
  have "places_ok (two_tasks now)" by (rule places_okI) (auto simp: two_tasks_def ready_task_def)
  moreover have "times_ok (two_tasks now)" by (simp add: times_ok_def two_tasks_def current_delayed_def overflow_delayed_def)
  moreover have "xStatePlace (tcbs (two_tasks now) 1) = In_Ready 3" "xStatePlace (tcbs (two_tasks now) 2) = In_Ready 0"
    by (simp_all add: two_tasks_def ready_task_def)
  moreover have "pxCurrentTCB (two_tasks now) = 1" by (simp add: two_tasks_def)
  ultimately show ?thesis unfolding kernel_ok_def by (auto simp: two_tasks_def intro!: exI [of _ "2 :: nat"])
qed

text \<open>
  C4: \<^verbatim>\<open>vTaskDelay\<close> returns control to the scheduler, and the task that called it is ready again after exactly the
  number of ticks it asked for, neither earlier nor later, whether or not the 32-bit tick count wraps meanwhile.
\<close>

theorem task_delay_exact:
  assumes "kernel_ok k" and "0 < xTicksToDelay" and "m \<le> unat xTicksToDelay"
  shows "\<exists>k1 k2. vTaskDelay xTicksToDelay k = Some k1 \<and> run_ticks m k1 = Some k2 \<and>
    (xStatePlace (tcbs k2 (pxCurrentTCB k)) = In_Ready (uxPriority (tcbs k (pxCurrentTCB k))) \<longleftrightarrow> m = unat xTicksToDelay)"
proof -
  obtain y k0 k1 where d: "xTaskResumeAll (prvAddCurrentTaskToDelayedList xTicksToDelay False (vTaskSuspendAll k)) = Some (y, k0)"
    "vTaskSwitchContext k0 = Some k1" "places_ok k1" "times_ok k1" "uxSchedulerSuspended k1 = 0"
    "ticks_left k1 (pxCurrentTCB k) = Some (unat xTicksToDelay)"
    "uxPriority (tcbs k1 (pxCurrentTCB k)) = uxPriority (tcbs k (pxCurrentTCB k))"
    using delay_and_switch [OF assms(1,2)] by blast
  have "vTaskDelay xTicksToDelay k = Some k1"
    using assms(2) d(1,2) suspended_ok(3) [OF assms(1)] by (simp add: vTaskDelay_def)
  moreover have "0 < unat xTicksToDelay" using assms(2) by (simp add: word_less_nat_alt)
  from run_ticks_ok [OF d(3-6) this assms(3)] obtain k2 where "run_ticks m k1 = Some k2"
    "if m = unat xTicksToDelay then xStatePlace (tcbs k2 (pxCurrentTCB k)) = In_Ready (uxPriority (tcbs k1 (pxCurrentTCB k)))
     else ticks_left k2 (pxCurrentTCB k) = Some (unat xTicksToDelay - m)" by blast
  ultimately show ?thesis using d(7) by (auto simp: ticks_left_def split: if_splits)
qed

lemma task_delay_exact_witness:
  "\<exists>k1 k2. vTaskDelay 7 (two_tasks 0xFFFFFFFE) = Some k1 \<and> run_ticks 7 k1 = Some k2 \<and> xStatePlace (tcbs k2 1) = In_Ready 3"
proof -
  have "pxCurrentTCB (two_tasks 0xFFFFFFFE) = 1" "uxPriority (tcbs (two_tasks 0xFFFFFFFE) 1) = 3"
    by (simp_all add: two_tasks_def ready_task_def)
  then show ?thesis using task_delay_exact [OF two_tasks_ok, of 7 7 "0xFFFFFFFE"] by auto
qed

text \<open>The wrap cases of \<^verbatim>\<open>xTaskDelayUntil\<close> come to one comparison of true times.\<close>

lemma delay_until_wait_iff:
  assumes "P \<le> T" and "T < P + 2 ^ 32" and "0 < I" and "I < 2 ^ 32"
  shows "delay_until_wait (of_nat P) (of_nat I) (of_nat T) \<longleftrightarrow> T < P + I"
proof -
  define p d where "p = P mod 2 ^ 32" and "d = T - P"
  have d: "d < 2 ^ 32" "T = P + d" using assms(1,2) by (simp_all add: d_def)
  have p: "p < 2 ^ 32" by (simp add: p_def)
  have red: "(P + x) mod 2 ^ 32 = (if p + x < 2 ^ 32 then p + x else p + x - 2 ^ 32)" if "x < 2 ^ 32" for x
  proof -
    have "(P + x) mod 2 ^ 32 = (p + x) mod 2 ^ 32" by (simp add: p_def mod_add_left_eq)
    then show ?thesis using p that by (auto simp: le_mod_geq)
  qed
  have u: "unat (of_nat P :: u32) = p" "unat (of_nat T :: u32) = (P + d) mod 2 ^ 32"
    "unat (of_nat P + of_nat I :: u32) = (P + I) mod 2 ^ 32"
    by (simp_all add: unat_of_nat p_def d(2) flip: of_nat_add)
  note r = red [OF d(1)] red [OF assms(4)]
  show ?thesis
    unfolding delay_until_wait_def Let_def word_less_nat_alt u r
    using d p assms(3,4) by (auto split: if_splits)
qed

lemma delay_until_ok:
  assumes "kernel_ok k" and "xTickCount k = of_nat T" and "P \<le> T" and "T < P + 2 ^ 32" and "0 < I" and "I < 2 ^ 32"
  shows "\<exists>k1. xTaskDelayUntil (of_nat P) (of_nat I) k = Some (T < P + I, of_nat (P + I), k1) \<and>
    (T < P + I \<longrightarrow> ticks_left k1 (pxCurrentTCB k) = Some (P + I - T))"
proof -
  note sus = suspended_ok [OF assms(1)]
  have inc: "(of_nat I :: u32) > 0"
    using assms(5,6) by (simp add: word_less_nat_alt unat_of_nat)
  note w = delay_until_wait_iff [OF assms(3-6)]
  show ?thesis
  proof (cases "T < P + I")
    case True
    have diff: "of_nat P + of_nat I - of_nat T = (of_nat (P + I - T) :: u32)" using True by (simp add: of_nat_diff)
    have un: "unat (of_nat (P + I - T) :: u32) = P + I - T"
      unfolding unat_of_nat using True assms(3,6) by (simp add: take_bit_nat_eq_self_iff del: of_nat_diff)
    then have pos: "(of_nat (P + I - T) :: u32) > 0" using True by (simp add: word_less_nat_alt)
    obtain y k0 k1 where d: "xTaskResumeAll (prvAddCurrentTaskToDelayedList (of_nat (P + I - T)) False (vTaskSuspendAll k)) = Some (y, k0)"
      "vTaskSwitchContext k0 = Some k1" "ticks_left k1 (pxCurrentTCB k) = Some (P + I - T)"
      using delay_and_switch [OF assms(1) pos] un by auto
    show ?thesis
      unfolding xTaskDelayUntil_def Let_def sus(3,8) assms(2) w diff
      using True inc d by simp
  next
    case False
    obtain q where q: "xStatePlace (tcbs k (pxCurrentTCB k)) = In_Ready q" using assms(1) by (auto simp: kernel_ok_def)
    let ?k = "(vTaskSuspendAll k)\<lparr>uxSchedulerSuspended := 0\<rparr>"
    have "places_ok ?k" by (rule places_times [OF sus(1)]) simp_all
    from switch_ok [OF this, of "pxCurrentTCB k" q] obtain k' where "vTaskSwitchContext ?k = Some k'"
      using q sus(6) by auto
    then show ?thesis
      unfolding xTaskDelayUntil_def Let_def sus(3,8) assms(2) w
      using False inc resume_quiet [OF sus(3,5,4)] by simp
  qed
qed

text \<open>
  C15: \<^verbatim>\<open>xTaskDelayUntil\<close> is periodic without drift: counting time without wrap-around, with the previous wake
  time \<open>P\<close> at most one turn of the counter ago, the task is delayed iff \<open>P + I\<close> is still to come, then until
  exactly that tick, and the wake time stored for the next period is \<open>P + I\<close> whatever the delay of this call was.
\<close>

theorem delay_until_no_drift:
  assumes "kernel_ok k" and "xTickCount k = of_nat T" and "P \<le> T" and "T < P + 2 ^ 32" and "0 < I" and "I < 2 ^ 32"
  shows "\<exists>k1. xTaskDelayUntil (of_nat P) (of_nat I) k = Some (T < P + I, of_nat (P + I), k1) \<and>
    (T < P + I \<longrightarrow> ticks_left k1 (pxCurrentTCB k) = Some (P + I - T))"
  by (rule delay_until_ok [OF assms])

lemma delay_until_no_drift_witness:
  "\<exists>k1. xTaskDelayUntil (of_nat 4294967200) (of_nat 200) (two_tasks (of_nat 4294967290)) = Some (True, of_nat 4294967400, k1) \<and>
     ticks_left k1 1 = Some 110"
proof -
  have c: "pxCurrentTCB (two_tasks (of_nat 4294967290)) = 1" "xTickCount (two_tasks (of_nat 4294967290)) = of_nat 4294967290"
    by (simp_all add: two_tasks_def)
  show ?thesis
    using delay_until_no_drift [OF two_tasks_ok c(2), of 4294967200 200] unfolding c(1) by simp
qed

section \<open>Time-outs are exact\<close>

lemma wrapped_once:
  fixes E T :: nat
  assumes "E \<le> T" and "T < E + 2 ^ 32" and "T div 2 ^ 32 \<noteq> E div 2 ^ 32"
  shows "T mod 2 ^ 32 < E mod 2 ^ 32"
proof -
  define M :: nat where "M = 2 ^ 32"
  define q r a b where "q = E div M" and "r = E mod M" and "a = T div M" and "b = T mod M"
  have eq: "E = M * q + r" "T = M * a + b" "b < M" "r < M" by (simp_all add: q_def r_def a_def b_def M_def)
  have "q < a" using assms(1,3) div_le_mono [of E T M] by (simp add: q_def a_def M_def)
  then obtain c where "a = Suc (q + c)" using less_iff_Suc_add by blast
  then have "M + (b + M * c + M * q) < r + M * q + M" using assms(2) eq by (simp add: algebra_simps M_def)
  then have "b + M * c < r" by linarith
  then show ?thesis by (simp add: r_def b_def M_def)
qed

lemma one_turn:
  fixes E T :: nat
  assumes "E + 2 ^ 32 \<le> T" and "T div 2 ^ 32 \<le> E div 2 ^ 32 + 1"
  shows "T div 2 ^ 32 = E div 2 ^ 32 + 1" and "E mod 2 ^ 32 \<le> T mod 2 ^ 32"
proof -
  have "(E + 2 ^ 32) div 2 ^ 32 \<le> T div 2 ^ 32" by (rule div_le_mono [OF assms(1)])
  then show d: "T div 2 ^ 32 = E div 2 ^ 32 + 1" using assms(2) by simp
  show "E mod 2 ^ 32 \<le> T mod 2 ^ 32"
    using assms(1) d div_mult_mod_eq [of E "2 ^ 32"] div_mult_mod_eq [of T "2 ^ 32"] by (simp only: add_mult_distrib mult_1)
qed

lemma turn_differs:
  fixes e :: nat
  shows "(of_nat (e + 1) :: u32) \<noteq> of_nat e"
  by simp

text \<open>While at most \<^verbatim>\<open>2^32\<close> ticks have passed the elapsed time is the difference of the two counts;
  the overflow branch of \<^verbatim>\<open>xTaskCheckForTimeOut\<close> is not taken.\<close>

lemma timeout_within_turn:
  assumes "xTickCount k = of_nat T" and "xNumOfOverflows k = of_nat (T div 2 ^ 32)"
    and "E \<le> T" and "T < E + 2 ^ 32" and "n \<noteq> portMAX_DELAY"
    and "pxTimeOut = \<lparr>xOverflowCount = of_nat (E div 2 ^ 32), xTimeOnEntering = of_nat E\<rparr>"
    and "xTaskCheckForTimeOut k pxTimeOut n = (expired, pxTimeOut', n')"
  shows "(expired \<longleftrightarrow> E + unat n \<le> T) \<and> unat n' = unat n - (T - E) \<and>
    (expired \<or> pxTimeOut' = \<lparr>xOverflowCount = of_nat (T div 2 ^ 32), xTimeOnEntering = of_nat T\<rparr>)"
proof -
  define d where "d = T - E"
  have d: "T = E + d" "d < 2 ^ 32" using assms(3,4) by (simp_all add: d_def)
  have el: "of_nat T - of_nat E = (of_nat d :: u32)" "unat (of_nat d :: u32) = d" using d by (simp_all add: unat_of_nat)
  have first: "\<not> ((of_nat (T div 2 ^ 32) :: u32) \<noteq> of_nat (E div 2 ^ 32) \<and> (of_nat T :: u32) \<ge> of_nat E)"
  proof
    assume a: "(of_nat (T div 2 ^ 32) :: u32) \<noteq> of_nat (E div 2 ^ 32) \<and> (of_nat T :: u32) \<ge> of_nat E"
    then have "T mod 2 ^ 32 < E mod 2 ^ 32" by (intro wrapped_once [OF assms(3,4)]) auto
    with a show False by (simp add: word_le_nat_alt unat_of_nat)
  qed
  have lt: "of_nat d < n \<longleftrightarrow> d < unat n" by (simp only: word_less_nat_alt el)
  have sel: "xTimeOnEntering pxTimeOut = of_nat E" "xOverflowCount pxTimeOut = of_nat (E div 2 ^ 32)" by (simp_all add: assms(6))
  have "(expired, pxTimeOut', n') = (if of_nat d < n then (False, vTaskInternalSetTimeOutState k, n - of_nat d) else (True, pxTimeOut, 0))"
    unfolding assms(7) [symmetric] xTaskCheckForTimeOut_def Let_def assms(1,2) sel el(1) if_not_P [OF assms(5)] if_not_P [OF first]
    by (rule refl)
  then show ?thesis
    using assms(1,2) lt d el(2)
    by (auto simp: vTaskInternalSetTimeOutState_def unat_sub_if' word_le_nat_alt split: if_splits)
qed

text \<open>Once they have passed, with one wrap of the counter, that branch reports the wait expired: only the overflow
  count tells this case from one in which less than a turn has passed.\<close>

lemma timeout_after_turn:
  assumes "xTickCount k = of_nat T" and "xNumOfOverflows k = of_nat (T div 2 ^ 32)"
    and "E + 2 ^ 32 \<le> T" and "T div 2 ^ 32 \<le> E div 2 ^ 32 + 1" and "n \<noteq> portMAX_DELAY"
    and "pxTimeOut = \<lparr>xOverflowCount = of_nat (E div 2 ^ 32), xTimeOnEntering = of_nat E\<rparr>"
  shows "xTaskCheckForTimeOut k pxTimeOut n = (True, pxTimeOut, 0)"
proof -
  have "(of_nat (T div 2 ^ 32) :: u32) \<noteq> of_nat (E div 2 ^ 32)" unfolding one_turn(1) [OF assms(3,4)] by (rule turn_differs)
  moreover have "(of_nat E :: u32) \<le> of_nat T"
    using one_turn(2) [OF assms(3,4)] by (simp add: word_le_nat_alt unat_of_nat)
  ultimately show ?thesis using assms(1,2,5,6) by (simp add: xTaskCheckForTimeOut_def Let_def)
qed

lemma timeout_check_ok:
  assumes "xTickCount k = of_nat T" and "xNumOfOverflows k = of_nat (T div 2 ^ 32)"
    and "E \<le> T" and "T div 2 ^ 32 \<le> E div 2 ^ 32 + 1" and "n \<noteq> portMAX_DELAY"
    and "pxTimeOut = \<lparr>xOverflowCount = of_nat (E div 2 ^ 32), xTimeOnEntering = of_nat E\<rparr>"
    and "xTaskCheckForTimeOut k pxTimeOut n = (expired, pxTimeOut', n')"
  shows "(expired \<longleftrightarrow> E + unat n \<le> T) \<and> unat n' = unat n - (T - E) \<and>
    (expired \<or> pxTimeOut' = \<lparr>xOverflowCount = of_nat (T div 2 ^ 32), xTimeOnEntering = of_nat T\<rparr>)"
proof (cases "T < E + 2 ^ 32")
  case True
  show ?thesis by (rule timeout_within_turn [OF assms(1-3) True assms(5-7)])
next
  case False
  then have le: "E + 2 ^ 32 \<le> T" by simp
  have "unat n < 2 ^ 32" using unsigned_less [of n] by simp
  then have "unat n \<le> T - E" using le by linarith
  then show ?thesis using timeout_after_turn [OF assms(1,2) le assms(4-6)] assms(7) le by auto
qed

text \<open>The bound on the wraps is the limit of the two counters: after a second wrap a wait can be taken for a young one.\<close>

lemma second_wrap_hides_timeout:
  "let k = (two_tasks (of_nat (2 ^ 33)))\<lparr>xNumOfOverflows := of_nat (2 ^ 33 div 2 ^ 32)\<rparr> in
     \<not> fst (xTaskCheckForTimeOut k \<lparr>xOverflowCount = of_nat ((2 ^ 32 - 1) div 2 ^ 32), xTimeOnEntering = of_nat (2 ^ 32 - 1)\<rparr> 100)"
  by (simp add: xTaskCheckForTimeOut_def Let_def two_tasks_def portMAX_DELAY_def)

text \<open>
  C16: \<^verbatim>\<open>xTaskCheckForTimeOut\<close> is exact as long as the tick counter has wrapped at most once since the wait began
  (49.7 days at the least at 1 kHz): with the ticks counted without wrap-around, a wait of \<open>n\<close> ticks that began at
  \<open>E\<close> has expired at \<open>T\<close> iff \<open>n\<close> ticks have passed, otherwise the ticks left shrink by the time passed and the wait
  starts anew at \<open>T\<close>, so that the deadline stays where it was.  Both cases of the code count: less than \<open>2^32\<close> ticks
  passed, with or without a wrap, where the difference of the counts is the time passed, and more than that, where
  only the overflow count shows it.
\<close>

theorem timeout_exact:
  assumes "xTickCount k = of_nat T" and "xNumOfOverflows k = of_nat (T div 2 ^ 32)"
    and "E \<le> T" and "T div 2 ^ 32 \<le> E div 2 ^ 32 + 1" and "n \<noteq> portMAX_DELAY"
    and "pxTimeOut = \<lparr>xOverflowCount = of_nat (E div 2 ^ 32), xTimeOnEntering = of_nat E\<rparr>"
    and "xTaskCheckForTimeOut k pxTimeOut n = (expired, pxTimeOut', n')"
  shows "(expired \<longleftrightarrow> E + unat n \<le> T) \<and> unat n' = unat n - (T - E) \<and>
    (expired \<or> pxTimeOut' = \<lparr>xOverflowCount = of_nat (T div 2 ^ 32), xTimeOnEntering = of_nat T\<rparr>)"
  by (rule timeout_check_ok [OF assms])

lemma timeout_exact_witness:
  "xTaskCheckForTimeOut ((two_tasks (of_nat 4294967300))\<lparr>xNumOfOverflows := of_nat (4294967300 div 2 ^ 32)\<rparr>)
     \<lparr>xOverflowCount = of_nat (4294967290 div 2 ^ 32), xTimeOnEntering = of_nat 4294967290\<rparr> 25 =
     (False, \<lparr>xOverflowCount = 1, xTimeOnEntering = 4\<rparr>, 15) \<and>
   fst (xTaskCheckForTimeOut ((two_tasks (of_nat 4294967400))\<lparr>xNumOfOverflows := of_nat (4294967400 div 2 ^ 32)\<rparr>)
     \<lparr>xOverflowCount = of_nat (100 div 2 ^ 32), xTimeOnEntering = of_nat 100\<rparr> 25)"
proof (rule conjI)
  let ?k = "(two_tasks (of_nat 4294967300))\<lparr>xNumOfOverflows := of_nat (4294967300 div 2 ^ 32)\<rparr>"
  let ?t = "\<lparr>xOverflowCount = of_nat (4294967290 div 2 ^ 32), xTimeOnEntering = of_nat 4294967290\<rparr>"
  obtain e t n where r: "xTaskCheckForTimeOut ?k ?t 25 = (e, t, n)" by (cases "xTaskCheckForTimeOut ?k ?t 25") auto
  have "(e \<longleftrightarrow> 4294967290 + unat (25 :: u32) \<le> 4294967300) \<and> unat n = unat (25 :: u32) - (4294967300 - 4294967290) \<and>
    (e \<or> t = \<lparr>xOverflowCount = of_nat (4294967300 div 2 ^ 32), xTimeOnEntering = of_nat 4294967300\<rparr>)"
    by (rule timeout_exact [OF _ _ _ _ _ _ r]) (simp_all add: two_tasks_def portMAX_DELAY_def)
  moreover have "(4294967300 :: u32) = 4" by (simp add: word_unat_eq_iff)
  ultimately have "\<not> e" "unat n = unat (15 :: u32)" "t = \<lparr>xOverflowCount = 1, xTimeOnEntering = 4\<rparr>" by auto
  then show "xTaskCheckForTimeOut ?k ?t 25 = (False, \<lparr>xOverflowCount = 1, xTimeOnEntering = 4\<rparr>, 15)"
    using r by (simp add: word_unat_eq_iff)
next
  let ?k = "(two_tasks (of_nat 4294967400))\<lparr>xNumOfOverflows := of_nat (4294967400 div 2 ^ 32)\<rparr>"
  let ?t = "\<lparr>xOverflowCount = of_nat (100 div 2 ^ 32), xTimeOnEntering = of_nat 100\<rparr>"
  obtain e t n where r: "xTaskCheckForTimeOut ?k ?t 25 = (e, t, n)" by (cases "xTaskCheckForTimeOut ?k ?t 25") auto
  have "(e \<longleftrightarrow> 100 + unat (25 :: u32) \<le> 4294967400) \<and> unat n = unat (25 :: u32) - (4294967400 - 100) \<and>
    (e \<or> t = \<lparr>xOverflowCount = of_nat (4294967400 div 2 ^ 32), xTimeOnEntering = of_nat 4294967400\<rparr>)"
    by (rule timeout_exact [OF _ _ _ _ _ _ r]) (simp_all add: two_tasks_def portMAX_DELAY_def)
  then show "fst (xTaskCheckForTimeOut ?k ?t 25)" using r by auto
qed

end
