(* ===== verification/RtosNotify.thy ===== *)
theory RtosNotify
  imports RtosTasks
begin

text \<open>
  Direct-to-task notifications of \<^verbatim>\<open>tasks.c\<close>: one notification value and state for each task
  (\<^verbatim>\<open>configTASK_NOTIFICATION_ARRAY_ENTRIES\<close> is 1), sent from tasks and from interrupts, waited for by the running task.
  A waiting call suspends the scheduler round its first critical section. Interrupts that hit before that section and
  after it, before the task is put on a delayed list, are the parameters \<open>isr1\<close> and \<open>isr2\<close>; what runs while the
  task is blocked or preempted is the parameter \<open>others\<close>.
\<close>

section \<open>Sending\<close>

datatype eNotifyAction = eNoAction | eSetBits | eIncrement | eSetValueWithOverwrite | eSetValueWithoutOverwrite

definition notified_value :: "eNotifyAction \<Rightarrow> u32 \<Rightarrow> tcb \<Rightarrow> u32" where
  "notified_value eAction ulValue x =
     (case eAction of
        eSetBits \<Rightarrow> ulNotifiedValue x OR ulValue
      | eIncrement \<Rightarrow> ulNotifiedValue x + 1
      | eSetValueWithOverwrite \<Rightarrow> ulValue
      | eSetValueWithoutOverwrite \<Rightarrow> (if ucNotifyState x \<noteq> taskNOTIFICATION_RECEIVED then ulValue else ulNotifiedValue x)
      | eNoAction \<Rightarrow> ulNotifiedValue x)"

definition notified :: "eNotifyAction \<Rightarrow> u32 \<Rightarrow> tcb \<Rightarrow> tcb" where
  "notified eAction ulValue x = x\<lparr>ulNotifiedValue := notified_value eAction ulValue x, ucNotifyState := taskNOTIFICATION_RECEIVED\<rparr>"

text \<open>The result: \<^verbatim>\<open>pdPASS\<close> or not, the previous value, whether a yield is requested, the state.\<close>

definition xTaskGenericNotify :: "nat \<Rightarrow> u32 \<Rightarrow> eNotifyAction \<Rightarrow> kernel \<Rightarrow> (bool \<times> u32 \<times> bool \<times> kernel) option" where
  "xTaskGenericNotify t ulValue eAction k =
     (if t = 0 then None
      else let x = tcbs k t;
               ok = (eAction = eSetValueWithoutOverwrite \<longrightarrow> ucNotifyState x \<noteq> taskNOTIFICATION_RECEIVED);
               k = set_tcb t (notified eAction ulValue) k
        in if ucNotifyState x = taskWAITING_NOTIFICATION then
             let k = prvAddTaskToReadyList t (remove_state_item t k)
             in if xEventPlace (tcbs k t) \<noteq> On_No_List then None
                else Some (ok, ulNotifiedValue x, uxPriority (tcbs k t) > uxPriority (tcbs k (pxCurrentTCB k)), k)
           else Some (ok, ulNotifiedValue x, False, k))"

text \<open>What an interrupt does with a task that it has just notified: the task woken goes to the pending list if the scheduler is suspended.\<close>

definition wake_from_isr :: "nat \<Rightarrow> kernel \<Rightarrow> (bool \<times> kernel) option" where
  "wake_from_isr t k =
     (if xEventPlace (tcbs k t) \<noteq> On_No_List then None
      else let k = (if uxSchedulerSuspended k = 0 then prvAddTaskToReadyList t (remove_state_item t k)
                    else set_tcb t (\<lambda>x. x\<lparr>xEventPlace := On_Pending\<rparr>) (k\<lparr>xPendingReadyList := xPendingReadyList k @ [t]\<rparr>))
        in if uxPriority (tcbs k t) > uxPriority (tcbs k (pxCurrentTCB k)) then Some (True, k\<lparr>xYieldPending := True\<rparr>)
           else Some (False, k))"

text \<open>The result: \<^verbatim>\<open>pdPASS\<close> or not, the previous value, whether a task of higher priority was woken, the state.\<close>

definition xTaskGenericNotifyFromISR :: "nat \<Rightarrow> u32 \<Rightarrow> eNotifyAction \<Rightarrow> kernel \<Rightarrow> (bool \<times> u32 \<times> bool \<times> kernel) option" where
  "xTaskGenericNotifyFromISR t ulValue eAction k =
     (if t = 0 then None
      else let x = tcbs k t;
               ok = (eAction = eSetValueWithoutOverwrite \<longrightarrow> ucNotifyState x \<noteq> taskNOTIFICATION_RECEIVED);
               k = set_tcb t (notified eAction ulValue) k
        in if ucNotifyState x = taskWAITING_NOTIFICATION
           then do { (woken, k) \<leftarrow> wake_from_isr t k; Some (ok, ulNotifiedValue x, woken, k) }
           else Some (ok, ulNotifiedValue x, False, k))"

definition vTaskGenericNotifyGiveFromISR :: "nat \<Rightarrow> kernel \<Rightarrow> (bool \<times> kernel) option" where
  "vTaskGenericNotifyGiveFromISR t k =
     (if t = 0 then None
      else let state = ucNotifyState (tcbs k t);
               k = set_tcb t (\<lambda>x. x\<lparr>ucNotifyState := taskNOTIFICATION_RECEIVED, ulNotifiedValue := ulNotifiedValue x + 1\<rparr>) k
        in if state = taskWAITING_NOTIFICATION then wake_from_isr t k else Some (False, k))"

section \<open>Waiting\<close>

text \<open>
  The end of the block with the scheduler suspended. A task that has to block yields; otherwise it yields only if
  \<^verbatim>\<open>xTaskResumeAll\<close> says that a yield is due. The result says whether it gave way to other tasks.
\<close>

definition resume_and_yield :: "bool \<Rightarrow> kernel \<Rightarrow> (bool \<times> kernel) option" where
  "resume_and_yield xShouldBlock k = do {
     (xAlreadyYielded, k) \<leftarrow> xTaskResumeAll k;
     if xShouldBlock \<or> xAlreadyYielded then do { k \<leftarrow> vTaskSwitchContext k; Some (True, k) } else Some (False, k) }"

definition notify_wait_enter :: "u32 \<Rightarrow> u32 \<Rightarrow> (kernel \<Rightarrow> kernel) \<Rightarrow> (kernel \<Rightarrow> kernel) \<Rightarrow> kernel \<Rightarrow> (bool \<times> kernel) option" where
  "notify_wait_enter ulBitsToClearOnEntry xTicksToWait isr1 isr2 k =
     (let t = pxCurrentTCB k
      in if ucNotifyState (tcbs k t) \<noteq> taskNOTIFICATION_RECEIVED \<and> xTicksToWait > 0 then
           let k = isr1 (vTaskSuspendAll k);
               xShouldBlock = (ucNotifyState (tcbs k t) \<noteq> taskNOTIFICATION_RECEIVED);
               k = (if xShouldBlock then
                      prvAddCurrentTaskToDelayedList xTicksToWait True
                        (isr2 (set_tcb t (\<lambda>x. x\<lparr>ulNotifiedValue := ulNotifiedValue x AND NOT ulBitsToClearOnEntry,
                                                 ucNotifyState := taskWAITING_NOTIFICATION\<rparr>) k))
                    else k)
           in resume_and_yield xShouldBlock k
         else Some (False, k))"

definition notify_wait_exit :: "nat \<Rightarrow> u32 \<Rightarrow> kernel \<Rightarrow> bool \<times> u32 \<times> kernel" where
  "notify_wait_exit t ulBitsToClearOnExit k =
     (let x = tcbs k t; received = (ucNotifyState x = taskNOTIFICATION_RECEIVED);
          k = (if received then set_tcb t (\<lambda>x. x\<lparr>ulNotifiedValue := ulNotifiedValue x AND NOT ulBitsToClearOnExit\<rparr>) k else k)
      in (received, ulNotifiedValue x, set_tcb t (\<lambda>x. x\<lparr>ucNotifyState := taskNOT_WAITING_NOTIFICATION\<rparr>) k))"

text \<open>The result: whether a notification was received, the value reported, the state.\<close>

definition xTaskGenericNotifyWait ::
    "u32 \<Rightarrow> u32 \<Rightarrow> u32 \<Rightarrow> (kernel \<Rightarrow> kernel) \<Rightarrow> (kernel \<Rightarrow> kernel) \<Rightarrow> (kernel \<Rightarrow> kernel) \<Rightarrow> kernel \<Rightarrow> (bool \<times> u32 \<times> kernel) option" where
  "xTaskGenericNotifyWait ulBitsToClearOnEntry ulBitsToClearOnExit xTicksToWait isr1 isr2 others k = do {
     let t = pxCurrentTCB k;
     (yielded, k) \<leftarrow> notify_wait_enter ulBitsToClearOnEntry xTicksToWait isr1 isr2 k;
     Some (notify_wait_exit t ulBitsToClearOnExit (if yielded then others k else k)) }"

definition notify_take_enter :: "u32 \<Rightarrow> (kernel \<Rightarrow> kernel) \<Rightarrow> (kernel \<Rightarrow> kernel) \<Rightarrow> kernel \<Rightarrow> (bool \<times> kernel) option" where
  "notify_take_enter xTicksToWait isr1 isr2 k =
     (let t = pxCurrentTCB k
      in if ulNotifiedValue (tcbs k t) = 0 \<and> xTicksToWait > 0 then
           let k = isr1 (vTaskSuspendAll k);
               xShouldBlock = (ulNotifiedValue (tcbs k t) = 0);
               k = (if xShouldBlock then
                      prvAddCurrentTaskToDelayedList xTicksToWait True
                        (isr2 (set_tcb t (\<lambda>x. x\<lparr>ucNotifyState := taskWAITING_NOTIFICATION\<rparr>) k))
                    else k)
           in resume_and_yield xShouldBlock k
         else Some (False, k))"

definition ulTaskGenericNotifyTake ::
    "bool \<Rightarrow> u32 \<Rightarrow> (kernel \<Rightarrow> kernel) \<Rightarrow> (kernel \<Rightarrow> kernel) \<Rightarrow> (kernel \<Rightarrow> kernel) \<Rightarrow> kernel \<Rightarrow> (u32 \<times> kernel) option" where
  "ulTaskGenericNotifyTake xClearCountOnExit xTicksToWait isr1 isr2 others k = do {
     let t = pxCurrentTCB k;
     (yielded, k) \<leftarrow> notify_take_enter xTicksToWait isr1 isr2 k;
     let k = (if yielded then others k else k);
     let ulReturn = ulNotifiedValue (tcbs k t);
     Some (ulReturn, set_tcb t (\<lambda>x. x\<lparr>ulNotifiedValue := (if ulReturn \<noteq> 0 then if xClearCountOnExit then 0 else ulReturn - 1 else ulReturn),
                                       ucNotifyState := taskNOT_WAITING_NOTIFICATION\<rparr>) k) }"

section \<open>Clearing\<close>

definition prvGetTCBFromHandle :: "nat \<Rightarrow> kernel \<Rightarrow> nat" where
  "prvGetTCBFromHandle t k = (if t = 0 then pxCurrentTCB k else t)"

definition xTaskGenericNotifyStateClear :: "nat \<Rightarrow> kernel \<Rightarrow> bool \<times> kernel" where
  "xTaskGenericNotifyStateClear t k =
     (let t = prvGetTCBFromHandle t k
      in if ucNotifyState (tcbs k t) = taskNOTIFICATION_RECEIVED
         then (True, set_tcb t (\<lambda>x. x\<lparr>ucNotifyState := taskNOT_WAITING_NOTIFICATION\<rparr>) k) else (False, k))"

definition ulTaskGenericNotifyValueClear :: "nat \<Rightarrow> u32 \<Rightarrow> kernel \<Rightarrow> u32 \<times> kernel" where
  "ulTaskGenericNotifyValueClear t ulBitsToClear k =
     (let t = prvGetTCBFromHandle t k
      in (ulNotifiedValue (tcbs k t), set_tcb t (\<lambda>x. x\<lparr>ulNotifiedValue := ulNotifiedValue x AND NOT ulBitsToClear\<rparr>) k))"

section \<open>No notification is lost\<close>

lemma places_suspend:
  "places_ok k \<Longrightarrow> xStatePlace (tcbs k t) = In_No_List \<Longrightarrow>
   places_ok (set_tcb t (\<lambda>x. x\<lparr>xStatePlace := In_Suspended\<rparr>) (k\<lparr>xSuspendedTaskList := xSuspendedTaskList k @ [t]\<rparr>))"
  by (rule places_okI) (auto simp: places_okD split: if_splits dest: places_okD(4))

lemma places_delay: "places_ok k \<Longrightarrow> places_ok (prvAddCurrentTaskToDelayedList n c k)"
proof -
  assume p: "places_ok k"
  let ?t = "pxCurrentTCB k"
  let ?k = "remove_state_item ?t k"
  let ?k1 = "set_tcb ?t (\<lambda>x. x\<lparr>xStateItemValue := xTickCount k + n\<rparr>) ?k"
  have r: "places_ok ?k" by (rule places_remove_state [OF p])
  then have r1: "places_ok ?k1" by (rule places_set_tcb) simp_all
  have "places_ok (insert_delayed b ?t ?k1)" for b by (rule places_insert_delayed [OF r1]) simp
  moreover from this have "places_ok (insert_delayed b ?t ?k1\<lparr>xNextTaskUnblockTime := v\<rparr>)" for b v
    by (rule places_times) simp_all
  moreover have "places_ok (set_tcb ?t (\<lambda>x. x\<lparr>xStatePlace := In_Suspended\<rparr>) (?k\<lparr>xSuspendedTaskList := xSuspendedTaskList ?k @ [?t]\<rparr>))"
    by (rule places_suspend [OF r]) simp
  ultimately show ?thesis by (simp add: prvAddCurrentTaskToDelayedList_def Let_def)
qed

lemma delay_sel [simp]:
  "pxCurrentTCB (prvAddCurrentTaskToDelayedList n c k) = pxCurrentTCB k"
  "xPendingReadyList (prvAddCurrentTaskToDelayedList n c k) = xPendingReadyList k"
  "xPendedTicks (prvAddCurrentTaskToDelayedList n c k) = xPendedTicks k"
  "uxSchedulerSuspended (prvAddCurrentTaskToDelayedList n c k) = uxSchedulerSuspended k"
  "xYieldPending (prvAddCurrentTaskToDelayedList n c k) = xYieldPending k"
  "ucNotifyState (tcbs (prvAddCurrentTaskToDelayedList n c k) x) = ucNotifyState (tcbs k x)"
  "ulNotifiedValue (tcbs (prvAddCurrentTaskToDelayedList n c k) x) = ulNotifiedValue (tcbs k x)"
  "uxPriority (tcbs (prvAddCurrentTaskToDelayedList n c k) x) = uxPriority (tcbs k x)"
  "xEventPlace (tcbs (prvAddCurrentTaskToDelayedList n c k) x) = xEventPlace (tcbs k x)"
  "x \<noteq> pxCurrentTCB k \<Longrightarrow> tcbs (prvAddCurrentTaskToDelayedList n c k) x = tcbs k x"
  by (simp_all add: prvAddCurrentTaskToDelayedList_def Let_def)

lemma delay_events [simp]:
  "xEventLists (prvAddCurrentTaskToDelayedList n c k) = xEventLists k"
  "uxCurrentNumberOfTasks (prvAddCurrentTaskToDelayedList n c k) = uxCurrentNumberOfTasks k"
  "xEventItemValue (tcbs (prvAddCurrentTaskToDelayedList n c k) x) = xEventItemValue (tcbs k x)"
  by (simp_all add: prvAddCurrentTaskToDelayedList_def insert_delayed_def remove_state_item_def set_tcb_def Let_def split: state_place.split)

text \<open>Resuming the scheduler with one task pending makes that task ready.\<close>

lemma resume_one:
  assumes "places_ok k" and "uxSchedulerSuspended k = 1" and "xPendingReadyList k = [t]" and "xPendedTicks k = 0"
    and "xEventPlace (tcbs k t) = On_Pending"
  shows "\<exists>y k'. xTaskResumeAll k = Some (y, k') \<and> places_ok k' \<and> uxSchedulerSuspended k' = 0 \<and> pxCurrentTCB k' = pxCurrentTCB k \<and>
    tcbs k' = (tcbs k)(t := (tcbs k t)\<lparr>xEventPlace := On_No_List, xStatePlace := In_Ready (uxPriority (tcbs k t))\<rparr>)"
proof -
  let ?k0 = "k\<lparr>uxSchedulerSuspended := 0\<rparr>"
  let ?k1 = "prvAddTaskToReadyList t (remove_state_item t (remove_event_item t ?k0))"
  let ?k2 = "if uxPriority (tcbs ?k1 t) > uxPriority (tcbs ?k1 (pxCurrentTCB ?k1)) then ?k1\<lparr>xYieldPending := True\<rparr> else ?k1"
  have "places_ok ?k0" by (rule places_times [OF assms(1)]) simp_all
  then have "places_ok ?k1"
    by (intro places_add_ready places_remove_state places_remove_event) simp_all
  then have p2: "places_ok (prvResetNextTaskUnblockTime ?k2)"
    by (auto intro: places_times simp: prvResetNextTaskUnblockTime_def)
  have "drain_pending False ?k0 = Some (True, ?k2)"
    using assms(3,5) by (subst drain_pending.simps, simp add: Let_def) (simp add: drain_pending.simps)
  then have "xTaskResumeAll k = Some (xYieldPending ?k2, prvResetNextTaskUnblockTime ?k2)"
    unfolding xTaskResumeAll_def Let_def using assms(2,4) by (simp add: prvResetNextTaskUnblockTime_def)
  moreover have "tcbs (prvResetNextTaskUnblockTime ?k2) =
    (tcbs k)(t := (tcbs k t)\<lparr>xEventPlace := On_No_List, xStatePlace := In_Ready (uxPriority (tcbs k t))\<rparr>)"
    by (rule ext) (simp add: prvResetNextTaskUnblockTime_def)
  ultimately show ?thesis using p2 by (auto simp: prvResetNextTaskUnblockTime_def)
qed

text \<open>The block ends with a switch of context or not; a ready task makes sure that the switch is possible.\<close>

lemma yield_ok:
  assumes "xTaskResumeAll k = Some (y, k1)" and "places_ok k1" and "uxSchedulerSuspended k1 = 0" and "xStatePlace (tcbs k1 i) = In_Ready q"
  shows "\<exists>yielded k2. resume_and_yield b k = Some (yielded, k2) \<and> tcbs k2 = tcbs k1 \<and> places_ok k2"
proof (cases "b \<or> y")
  case True
  obtain k2 where "vTaskSwitchContext k1 = Some k2" "tcbs k2 = tcbs k1" "places_ok k2"
    using switch_ok [OF assms(2-4)] by blast
  then show ?thesis using True assms(1) by (auto simp: resume_and_yield_def)
next
  case False
  then show ?thesis using assms(1,2) by (auto simp: resume_and_yield_def)
qed

text \<open>An interrupt that notifies task \<open>t\<close>.\<close>

definition notify_interrupt :: "nat \<Rightarrow> u32 \<Rightarrow> eNotifyAction \<Rightarrow> kernel \<Rightarrow> kernel" where
  "notify_interrupt t ulValue eAction k =
     (case xTaskGenericNotifyFromISR t ulValue eAction k of None \<Rightarrow> k | Some (_, _, _, k) \<Rightarrow> k)"

lemma notify_in_first_window:
  assumes "kernel_ok k" and "t = pxCurrentTCB k" and "t \<noteq> 0" and "0 < xTicksToWait"
    and "ucNotifyState (tcbs k t) = taskNOT_WAITING_NOTIFICATION" and "xStatePlace (tcbs k t) = In_Ready p"
  shows "\<exists>yielded k'. notify_wait_enter bits xTicksToWait (notify_interrupt t ulValue eAction) isr2 k = Some (yielded, k') \<and>
    ucNotifyState (tcbs k' t) = taskNOTIFICATION_RECEIVED \<and> xStatePlace (tcbs k' t) = In_Ready p \<and>
    ulNotifiedValue (tcbs k' t) = notified_value eAction ulValue (tcbs k t)"
proof -
  note sus = suspended_ok [OF assms(1)]
  let ?k = "set_tcb t (notified eAction ulValue) (vTaskSuspendAll k)"
  have n: "notify_interrupt t ulValue eAction (vTaskSuspendAll k) = ?k"
    using assms(3,5) sus(6) by (simp add: notify_interrupt_def xTaskGenericNotifyFromISR_def Let_def)
  have "places_ok ?k" by (rule places_set_tcb [OF sus(1)]) (simp_all add: notified_def)
  then have p: "places_ok (?k\<lparr>uxSchedulerSuspended := 0\<rparr>)" by (rule places_times) simp_all
  have r: "xTaskResumeAll ?k = Some (xYieldPending ?k, ?k\<lparr>uxSchedulerSuspended := 0\<rparr>)"
    by (rule resume_quiet) (simp_all add: sus)
  have st: "ucNotifyState (tcbs ?k t) = taskNOTIFICATION_RECEIVED" "xStatePlace (tcbs ?k t) = In_Ready p"
    "ulNotifiedValue (tcbs ?k t) = notified_value eAction ulValue (tcbs k t)"
    using assms(6) by (simp_all add: sus notified_def)
  obtain yielded k2 where y: "resume_and_yield False ?k = Some (yielded, k2)" "tcbs k2 = tcbs ?k"
    using yield_ok [OF r p, of t p False] st(2) by auto
  have "notify_wait_enter bits xTicksToWait (notify_interrupt t ulValue eAction) isr2 k = resume_and_yield False ?k"
    using assms(4,5) st(1) unfolding notify_wait_enter_def assms(2) [symmetric] Let_def n by simp
  then show ?thesis using y st by simp
qed

lemma notify_in_second_window:
  assumes "kernel_ok k" and "t = pxCurrentTCB k" and "t \<noteq> 0" and "0 < xTicksToWait"
    and "ucNotifyState (tcbs k t) = taskNOT_WAITING_NOTIFICATION" and "xEventPlace (tcbs k t) = On_No_List"
    and "xStatePlace (tcbs k t) = In_Ready p"
  shows "\<exists>yielded k'. notify_wait_enter bits xTicksToWait id (notify_interrupt t ulValue eAction) k = Some (yielded, k') \<and>
    ucNotifyState (tcbs k' t) = taskNOTIFICATION_RECEIVED \<and> xStatePlace (tcbs k' t) = In_Ready p"
proof -
  note sus = suspended_ok [OF assms(1)]
  let ?w = "\<lambda>x. x\<lparr>ulNotifiedValue := ulNotifiedValue x AND NOT bits, ucNotifyState := taskWAITING_NOTIFICATION\<rparr>"
  let ?kw = "set_tcb t ?w (vTaskSuspendAll k)"
  let ?k = "notify_interrupt t ulValue eAction ?kw"
  let ?k1 = "set_tcb t (\<lambda>x. x\<lparr>xEventPlace := On_Pending\<rparr>) ((set_tcb t (notified eAction ulValue) ?kw)\<lparr>xPendingReadyList := [t]\<rparr>)"
  have st0: "ucNotifyState (tcbs ?kw t) = taskWAITING_NOTIFICATION" "xEventPlace (tcbs (set_tcb t (notified eAction ulValue) ?kw) t) = On_No_List"
    "uxSchedulerSuspended (set_tcb t (notified eAction ulValue) ?kw) = 1" "xPendingReadyList (set_tcb t (notified eAction ulValue) ?kw) = []"
    "pxCurrentTCB ?k1 = t"
    using assms(2,6) by (simp_all add: sus notified_def)
  have "wake_from_isr t (set_tcb t (notified eAction ulValue) ?kw) = Some (False, ?k1)"
    unfolding wake_from_isr_def Let_def st0(2,3,4) using st0(5) by simp
  then have n: "?k = ?k1"
    using assms(3) st0(1) by (simp add: notify_interrupt_def xTaskGenericNotifyFromISR_def Let_def)
  have "places_ok ?kw" by (rule places_set_tcb [OF sus(1)]) simp_all
  then have "places_ok (set_tcb t (notified eAction ulValue) ?kw)" by (rule places_set_tcb) (simp_all add: notified_def)
  then have "places_ok ((set_tcb t (notified eAction ulValue) ?kw)\<lparr>xPendingReadyList := [t]\<rparr>)" by (rule places_times) simp_all
  then have p: "places_ok ?k1" by (rule places_set_tcb) simp_all
  let ?k2 = "prvAddCurrentTaskToDelayedList xTicksToWait True ?k1"
  have pr: "uxPriority (tcbs k t) = p" using places_okD(4) [OF sus(1), of t p] assms(7) by (simp add: sus)
  obtain y k3 where r: "xTaskResumeAll ?k2 = Some (y, k3)" "places_ok k3" "uxSchedulerSuspended k3 = 0"
    "tcbs k3 t = (tcbs ?k2 t)\<lparr>xEventPlace := On_No_List, xStatePlace := In_Ready (uxPriority (tcbs ?k2 t))\<rparr>"
    using resume_one [where t = t, OF places_delay [where n = xTicksToWait and c = True, OF p]] by (auto simp: sus)
  have st: "ucNotifyState (tcbs k3 t) = taskNOTIFICATION_RECEIVED" "xStatePlace (tcbs k3 t) = In_Ready p"
    using r(4) pr by (simp_all add: sus notified_def)
  obtain yielded k4 where y: "resume_and_yield True ?k2 = Some (yielded, k4)" "tcbs k4 = tcbs k3"
    using yield_ok [where b = True, OF r(1-3) st(2)] by blast
  have "notify_wait_enter bits xTicksToWait id (notify_interrupt t ulValue eAction) k = resume_and_yield True ?k2"
    using assms(4,5) sus(6) unfolding notify_wait_enter_def assms(2) [symmetric] Let_def id_apply n by simp
  then show ?thesis using y st by simp
qed

text \<open>
  C13: No notification is lost in the windows of \<^verbatim>\<open>xTaskGenericNotifyWait\<close>: whether the interrupt that notifies
  the calling task hits before its state is set to waiting or after it, just before it is put on a delayed list, the
  task ends up ready with the notification received instead of blocked.
\<close>

theorem notify_not_lost:
  assumes "kernel_ok k" and "t = pxCurrentTCB k" and "t \<noteq> 0" and "0 < xTicksToWait"
    and "ucNotifyState (tcbs k t) = taskNOT_WAITING_NOTIFICATION" and "xEventPlace (tcbs k t) = On_No_List"
    and "(isr1, isr2) = (notify_interrupt t ulValue eAction, id) \<or> (isr1, isr2) = (id, notify_interrupt t ulValue eAction)"
  shows "\<exists>yielded k'. notify_wait_enter bits xTicksToWait isr1 isr2 k = Some (yielded, k') \<and>
    ucNotifyState (tcbs k' t) = taskNOTIFICATION_RECEIVED \<and> xStatePlace (tcbs k' t) = In_Ready (uxPriority (tcbs k t))"
proof -
  obtain p where p: "xStatePlace (tcbs k t) = In_Ready p" using assms(1,2) by (auto simp: kernel_ok_def)
  then have "p = uxPriority (tcbs k t)" using assms(1) places_okD(4) [of k t p] by (simp add: kernel_ok_def)
  then show ?thesis
    using assms(7) notify_in_first_window [OF assms(1-5) p, of bits ulValue eAction isr2]
      notify_in_second_window [OF assms(1-6) p, of bits ulValue eAction] by auto
qed

lemma notify_not_lost_witness:
  "\<exists>yielded k'. notify_wait_enter 0 portMAX_DELAY id (notify_interrupt 1 5 eSetBits) (two_tasks 10) = Some (yielded, k') \<and>
     ucNotifyState (tcbs k' 1) = taskNOTIFICATION_RECEIVED \<and> xStatePlace (tcbs k' 1) = In_Ready 3"
proof -
  have t: "pxCurrentTCB (two_tasks 10) = 1" "tcbs (two_tasks 10) 1 = ready_task 3" by (simp_all add: two_tasks_def)
  show ?thesis
    using notify_not_lost [OF two_tasks_ok t(1) [symmetric], of portMAX_DELAY id "notify_interrupt 1 5 eSetBits" 5 eSetBits 0]
    unfolding t(2) by (simp add: ready_task_def portMAX_DELAY_def)
qed

text \<open>
  A notification stays pending until it is taken, and is taken once: after \<^verbatim>\<open>xTaskGenericNotify\<close>, the next wait of
  the task returns at once, with the value the action made, and leaves the value without the bits to clear; a wait without
  a new notification then reports that there was none.
\<close>

theorem notify_pending_once:
  assumes "xTaskGenericNotify t ulValue eAction k = Some (ok, previous, yield, k1)" and "pxCurrentTCB k2 = t" and "tcbs k2 t = tcbs k1 t"
  shows "\<exists>k3. xTaskGenericNotifyWait onEntry onExit xTicksToWait isr1 isr2 others k2 = Some (True, notified_value eAction ulValue (tcbs k t), k3) \<and>
    ulNotifiedValue (tcbs k3 t) = notified_value eAction ulValue (tcbs k t) AND NOT onExit \<and> pxCurrentTCB k3 = t \<and>
    fst (the (xTaskGenericNotifyWait onEntry onExit 0 isr1 isr2 others k3)) = False"
proof -
  have "ucNotifyState (tcbs k1 t) = taskNOTIFICATION_RECEIVED \<and> ulNotifiedValue (tcbs k1 t) = notified_value eAction ulValue (tcbs k t)"
    using assms(1) by (auto simp: xTaskGenericNotify_def Let_def notified_def split: if_splits)
  then show ?thesis
    using assms(2,3) by (simp add: xTaskGenericNotifyWait_def notify_wait_enter_def notify_wait_exit_def Let_def)
qed

lemma notify_pending_once_witness:
  "\<exists>k3. xTaskGenericNotifyWait 0 0xFFFFFFFF 10 id id id (set_tcb 1 (notified eSetBits 6) (two_tasks 0)) = Some (True, 6, k3) \<and>
     ulNotifiedValue (tcbs k3 1) = 0 \<and> pxCurrentTCB k3 = 1 \<and> fst (the (xTaskGenericNotifyWait 0 0xFFFFFFFF 0 id id id k3)) = False"
proof -
  have t: "pxCurrentTCB (set_tcb 1 (notified eSetBits 6) (two_tasks 0)) = 1" "tcbs (two_tasks 0) 1 = ready_task 3" by (simp_all add: two_tasks_def)
  have "xTaskGenericNotify 1 6 eSetBits (two_tasks 0) = Some (True, 0, False, set_tcb 1 (notified eSetBits 6) (two_tasks 0))"
    unfolding xTaskGenericNotify_def t(2) Let_def by (simp add: ready_task_def)
  moreover have "notified_value eSetBits 6 (ready_task 3) = 6" by (simp add: notified_value_def ready_task_def)
  ultimately show ?thesis
    using notify_pending_once [OF _ t(1) refl, of 6 eSetBits "two_tasks 0" True 0 False 0 "0xFFFFFFFF" 10 id id id] unfolding t(2) by simp
qed

end
