(* ===== verification/RtosEvents.thy ===== *)
theory RtosEvents
  imports RtosNotify
begin

text \<open>
  The part of \<^verbatim>\<open>tasks.c\<close> that other kernel objects and the application use on tasks: waiting on event
  lists and waking from them, the inheritance of priorities through mutexes, suspending and resuming tasks,
  changing priorities and asking for the state of a task. An event list is named by a number; a request to yield
  is a result that the caller hands to the context switch.
\<close>

section \<open>Event lists\<close>

definition insert_event :: "nat \<Rightarrow> nat \<Rightarrow> kernel \<Rightarrow> kernel" where
  "insert_event e t k =
     set_tcb t (\<lambda>x. x\<lparr>xEventPlace := On_Event e\<rparr>)
       (k\<lparr>xEventLists := (xEventLists k)(e := insert_stable (\<lambda>x. xEventItemValue (tcbs k x)) t (xEventLists k e))\<rparr>)"

definition vTaskPlaceOnEventList :: "nat \<Rightarrow> u32 \<Rightarrow> kernel \<Rightarrow> kernel" where
  "vTaskPlaceOnEventList e xTicksToWait k =
     prvAddCurrentTaskToDelayedList xTicksToWait True (insert_event e (pxCurrentTCB k) k)"

text \<open>The result: whether the unblocked task has a higher priority than the running one. The list is not empty.\<close>

definition xTaskRemoveFromEventList :: "nat \<Rightarrow> kernel \<Rightarrow> (bool \<times> kernel) option" where
  "xTaskRemoveFromEventList e k =
     (case xEventLists k e of
        [] \<Rightarrow> None
      | t # _ \<Rightarrow>
          let k = remove_event_item t k;
              k = (if uxSchedulerSuspended k = 0 then prvAddTaskToReadyList t (remove_state_item t k)
                   else set_tcb t (\<lambda>x. x\<lparr>xEventPlace := On_Pending\<rparr>) (k\<lparr>xPendingReadyList := xPendingReadyList k @ [t]\<rparr>))
          in if uxPriority (tcbs k t) > uxPriority (tcbs k (pxCurrentTCB k)) then Some (True, k\<lparr>xYieldPending := True\<rparr>)
             else Some (False, k))"

definition vTaskMissedYield :: "kernel \<Rightarrow> kernel" where "vTaskMissedYield k = k\<lparr>xYieldPending := True\<rparr>"

text \<open>The event item of the task goes to the end of an unordered list, with a value that marks it as in use.\<close>

definition taskEVENT_LIST_ITEM_VALUE_IN_USE :: u32 where "taskEVENT_LIST_ITEM_VALUE_IN_USE = 0x80000000"

definition vTaskPlaceOnUnorderedEventList :: "nat \<Rightarrow> u32 \<Rightarrow> u32 \<Rightarrow> kernel \<Rightarrow> kernel option" where
  "vTaskPlaceOnUnorderedEventList e xValue xTicksToWait k =
     (if uxSchedulerSuspended k = 0 then None
      else let t = pxCurrentTCB k;
               k = set_tcb t (\<lambda>x. x\<lparr>xEventItemValue := xValue OR taskEVENT_LIST_ITEM_VALUE_IN_USE, xEventPlace := On_Event e\<rparr>)
                     (k\<lparr>xEventLists := (xEventLists k)(e := xEventLists k e @ [t])\<rparr>)
           in Some (prvAddCurrentTaskToDelayedList xTicksToWait True k))"

definition vTaskPlaceOnEventListRestricted :: "nat \<Rightarrow> u32 \<Rightarrow> bool \<Rightarrow> kernel \<Rightarrow> kernel" where
  "vTaskPlaceOnEventListRestricted e xTicksToWait xWaitIndefinitely k =
     (let t = pxCurrentTCB k;
          k = set_tcb t (\<lambda>x. x\<lparr>xEventPlace := On_Event e\<rparr>) (k\<lparr>xEventLists := (xEventLists k)(e := xEventLists k e @ [t])\<rparr>)
      in prvAddCurrentTaskToDelayedList (if xWaitIndefinitely then portMAX_DELAY else xTicksToWait) xWaitIndefinitely k)"

definition vTaskRemoveFromUnorderedEventList :: "nat \<Rightarrow> u32 \<Rightarrow> kernel \<Rightarrow> kernel option" where
  "vTaskRemoveFromUnorderedEventList t xValue k =
     (if uxSchedulerSuspended k = 0 then None
      else let k = set_tcb t (\<lambda>x. x\<lparr>xEventItemValue := xValue OR taskEVENT_LIST_ITEM_VALUE_IN_USE\<rparr>) k;
               k = prvAddTaskToReadyList t (remove_state_item t (remove_event_item t k))
           in Some (if uxPriority (tcbs k t) > uxPriority (tcbs k (pxCurrentTCB k)) then k\<lparr>xYieldPending := True\<rparr> else k))"

definition uxTaskResetEventItemValue :: "kernel \<Rightarrow> u32 \<times> kernel" where
  "uxTaskResetEventItemValue k =
     (let t = pxCurrentTCB k
      in (xEventItemValue (tcbs k t),
          set_tcb t (\<lambda>x. x\<lparr>xEventItemValue := of_nat configMAX_PRIORITIES - of_nat (uxPriority x)\<rparr>) k))"

section \<open>Priority inheritance\<close>

text \<open>The event item value holds the priority in reverse order unless it is in use for something else.\<close>

definition reset_event_value :: "nat \<Rightarrow> nat \<Rightarrow> kernel \<Rightarrow> kernel" where
  "reset_event_value t p k =
     (if xEventItemValue (tcbs k t) AND taskEVENT_LIST_ITEM_VALUE_IN_USE = 0
      then set_tcb t (\<lambda>x. x\<lparr>xEventItemValue := of_nat configMAX_PRIORITIES - of_nat p\<rparr>) k else k)"

definition xTaskPriorityInherit :: "nat \<Rightarrow> kernel \<Rightarrow> bool \<times> kernel" where
  "xTaskPriorityInherit h k =
     (if h = 0 then (False, k)
      else let cur = uxPriority (tcbs k (pxCurrentTCB k)) in
        if uxPriority (tcbs k h) < cur then
          let k = reset_event_value h cur k
          in if xStatePlace (tcbs k h) = In_Ready (uxPriority (tcbs k h)) then
               let k = remove_state_item h k;
                   k = set_tcb h (\<lambda>x. x\<lparr>uxPriority := cur\<rparr>) k
               in (True, prvAddTaskToReadyList h k)
             else (True, set_tcb h (\<lambda>x. x\<lparr>uxPriority := cur\<rparr>) k)
        else (uxBasePriority (tcbs k h) < cur, k))"

definition xTaskPriorityDisinherit :: "nat \<Rightarrow> kernel \<Rightarrow> (bool \<times> kernel) option" where
  "xTaskPriorityDisinherit h k =
     (if h = 0 then Some (False, k)
      else if h = pxCurrentTCB k \<and> uxMutexesHeld (tcbs k h) \<noteq> 0 then
        let k = set_tcb h (\<lambda>x. x\<lparr>uxMutexesHeld := uxMutexesHeld x - 1\<rparr>) k
        in if uxPriority (tcbs k h) \<noteq> uxBasePriority (tcbs k h) \<and> uxMutexesHeld (tcbs k h) = 0 then
             let k = remove_state_item h k;
                 k = set_tcb h (\<lambda>x. x\<lparr>uxPriority := uxBasePriority x\<rparr>) k;
                 k = set_tcb h (\<lambda>x. x\<lparr>xEventItemValue := of_nat configMAX_PRIORITIES - of_nat (uxPriority x)\<rparr>) k
             in Some (True, prvAddTaskToReadyList h k)
           else Some (False, k)
      else None)"

definition vTaskPriorityDisinheritAfterTimeout :: "nat \<Rightarrow> nat \<Rightarrow> kernel \<Rightarrow> kernel option" where
  "vTaskPriorityDisinheritAfterTimeout h uxHighestPriorityWaitingTask k =
     (if h = 0 then Some k
      else if uxMutexesHeld (tcbs k h) \<noteq> 0 then
        let base = uxBasePriority (tcbs k h);
            uxPriorityToUse = (if base < uxHighestPriorityWaitingTask then uxHighestPriorityWaitingTask else base);
            uxPriorityUsedOnEntry = uxPriority (tcbs k h)
        in if uxPriorityUsedOnEntry \<noteq> uxPriorityToUse \<and> uxMutexesHeld (tcbs k h) = 1 then
             if h \<noteq> pxCurrentTCB k then
               let k = set_tcb h (\<lambda>x. x\<lparr>uxPriority := uxPriorityToUse\<rparr>) k;
                   k = reset_event_value h uxPriorityToUse k
               in if xStatePlace (tcbs k h) = In_Ready uxPriorityUsedOnEntry
                  then Some (prvAddTaskToReadyList h (remove_state_item h k)) else Some k
             else None
           else Some k
      else None)"

definition pvTaskIncrementMutexHeldCount :: "kernel \<Rightarrow> nat \<times> kernel" where
  "pvTaskIncrementMutexHeldCount k =
     (let t = pxCurrentTCB k
      in (t, if t \<noteq> 0 then set_tcb t (\<lambda>x. x\<lparr>uxMutexesHeld := uxMutexesHeld x + 1\<rparr>) k else k))"

section \<open>Suspending and resuming tasks\<close>

text \<open>\<^verbatim>\<open>vTaskSuspend\<close> while the scheduler runs. The result says whether the running task has to yield.\<close>

definition vTaskSuspend :: "nat \<Rightarrow> kernel \<Rightarrow> (bool \<times> kernel) option" where
  "vTaskSuspend h k =
     (let t = prvGetTCBFromHandle h k;
          k = remove_state_item t k;
          k = (if xEventPlace (tcbs k t) \<noteq> On_No_List then remove_event_item t k else k);
          k = set_tcb t (\<lambda>x. x\<lparr>xStatePlace := In_Suspended\<rparr>) (k\<lparr>xSuspendedTaskList := xSuspendedTaskList k @ [t]\<rparr>);
          k = set_tcb t (\<lambda>x. if ucNotifyState x = taskWAITING_NOTIFICATION then x\<lparr>ucNotifyState := taskNOT_WAITING_NOTIFICATION\<rparr> else x) k;
          k = prvResetNextTaskUnblockTime k
      in if t = pxCurrentTCB k then if uxSchedulerSuspended k = 0 then Some (True, k) else None
         else Some (False, k))"

definition prvTaskIsTaskSuspended :: "nat \<Rightarrow> kernel \<Rightarrow> bool" where
  "prvTaskIsTaskSuspended t k =
     (if xStatePlace (tcbs k t) = In_Suspended then
        if xEventPlace (tcbs k t) \<noteq> On_Pending then
          if xEventPlace (tcbs k t) = On_No_List then ucNotifyState (tcbs k t) \<noteq> taskWAITING_NOTIFICATION else False
        else False
      else False)"

definition vTaskResume :: "nat \<Rightarrow> kernel \<Rightarrow> (bool \<times> kernel) option" where
  "vTaskResume t k =
     (if t = 0 then None
      else if t \<noteq> pxCurrentTCB k \<and> prvTaskIsTaskSuspended t k then
        let k = prvAddTaskToReadyList t (remove_state_item t k)
        in Some (uxPriority (tcbs k (pxCurrentTCB k)) < uxPriority (tcbs k t), k)
      else Some (False, k))"

definition xTaskResumeFromISR :: "nat \<Rightarrow> kernel \<Rightarrow> (bool \<times> kernel) option" where
  "xTaskResumeFromISR t k =
     (if t = 0 then None
      else if prvTaskIsTaskSuspended t k then
        if uxSchedulerSuspended k = 0 then
          let xYieldRequired = (uxPriority (tcbs k t) > uxPriority (tcbs k (pxCurrentTCB k)));
              k = (if xYieldRequired then k\<lparr>xYieldPending := True\<rparr> else k)
          in Some (xYieldRequired, prvAddTaskToReadyList t (remove_state_item t k))
        else Some (False, set_tcb t (\<lambda>x. x\<lparr>xEventPlace := On_Pending\<rparr>) (k\<lparr>xPendingReadyList := xPendingReadyList k @ [t]\<rparr>))
      else Some (False, k))"

section \<open>Priorities and states\<close>

definition uxTaskPriorityGet :: "nat \<Rightarrow> kernel \<Rightarrow> nat" where
  "uxTaskPriorityGet h k = uxPriority (tcbs k (prvGetTCBFromHandle h k))"

definition vTaskPrioritySet :: "nat \<Rightarrow> nat \<Rightarrow> kernel \<Rightarrow> (bool \<times> kernel) option" where
  "vTaskPrioritySet h uxNewPriority k =
     (if \<not> uxNewPriority < configMAX_PRIORITIES then None
      else let t = prvGetTCBFromHandle h k; x = tcbs k t in
        if uxBasePriority x \<noteq> uxNewPriority then
          let xYieldRequired =
                (if uxNewPriority > uxBasePriority x then t \<noteq> pxCurrentTCB k \<and> uxNewPriority > uxPriority (tcbs k (pxCurrentTCB k))
                 else t = pxCurrentTCB k);
              uxPriorityUsedOnEntry = uxPriority x;
              p = (if uxBasePriority x = uxPriority x \<or> uxNewPriority > uxPriority x then uxNewPriority else uxPriority x);
              ready = (xStatePlace x = In_Ready uxPriorityUsedOnEntry);
              k = set_tcb t (\<lambda>x. x\<lparr>uxPriority := p, uxBasePriority := uxNewPriority\<rparr>) k;
              k = reset_event_value t uxNewPriority k
          in Some (xYieldRequired, if ready then prvAddTaskToReadyList t (remove_state_item t k) else k)
        else Some (False, k))"

datatype eTaskState = eRunning | eReady | eBlocked | eSuspended | eDeleted

definition eTaskGetState :: "nat \<Rightarrow> kernel \<Rightarrow> eTaskState option" where
  "eTaskGetState t k =
     (if t = 0 then None
      else Some
        (if t = pxCurrentTCB k then eRunning
         else if xEventPlace (tcbs k t) = On_Pending then eReady
         else case xStatePlace (tcbs k t) of
           In_Delayed b \<Rightarrow> eBlocked
         | In_Suspended \<Rightarrow>
             if xEventPlace (tcbs k t) = On_No_List
             then if ucNotifyState (tcbs k t) = taskWAITING_NOTIFICATION then eBlocked else eSuspended
             else eBlocked
         | In_No_List \<Rightarrow> eDeleted
         | In_Ready p \<Rightarrow> eReady))"

definition xTaskCatchUpTicks :: "u32 \<Rightarrow> kernel \<Rightarrow> (bool \<times> kernel) option" where
  "xTaskCatchUpTicks xTicksToCatchUp k =
     (if uxSchedulerSuspended k \<noteq> 0 then None
      else let k = vTaskSuspendAll k in xTaskResumeAll (k\<lparr>xPendedTicks := xPendedTicks k + xTicksToCatchUp\<rparr>))"

text \<open>A new task while the scheduler runs. The result says whether it has a higher priority than the running task.\<close>

definition prvAddNewTaskToReadyList :: "nat \<Rightarrow> kernel \<Rightarrow> bool \<times> kernel" where
  "prvAddNewTaskToReadyList t k =
     (let k = prvAddTaskToReadyList t (k\<lparr>uxCurrentNumberOfTasks := uxCurrentNumberOfTasks k + 1\<rparr>)
      in (uxPriority (tcbs k (pxCurrentTCB k)) < uxPriority (tcbs k t), k))"

section \<open>The lists stay consistent\<close>

lemma remove_set_commute:
  "(\<And>x. xStatePlace (f x) = xStatePlace x) \<Longrightarrow> (\<And>x s. f (x\<lparr>xStatePlace := s\<rparr>) = (f x)\<lparr>xStatePlace := s\<rparr>) \<Longrightarrow>
   remove_state_item t (set_tcb t f k) = set_tcb t f (remove_state_item t k)"
  by (simp add: remove_state_item_def set_tcb_def split: state_place.split)

text \<open>A task that is on no ready list may get any priority.\<close>

lemma places_set_unready:
  "places_ok k \<Longrightarrow> (\<And>x. xStatePlace (f x) = xStatePlace x) \<Longrightarrow> (\<And>p. xStatePlace (tcbs k t) \<noteq> In_Ready p) \<Longrightarrow> places_ok (set_tcb t f k)"
  by (rule places_okI) (auto simp: places_okD split: if_splits dest: places_okD(4))

lemma reset_event_set:
  "reset_event_value t p k = set_tcb t (\<lambda>x. if xEventItemValue x AND taskEVENT_LIST_ITEM_VALUE_IN_USE = 0
     then x\<lparr>xEventItemValue := of_nat configMAX_PRIORITIES - of_nat p\<rparr> else x) k"
  by (simp add: reset_event_value_def set_tcb_def)

lemma places_reset_event: "places_ok k \<Longrightarrow> places_ok (reset_event_value t p k)"
  unfolding reset_event_set by (rule places_set_tcb) simp_all

lemma reset_event_sel [simp]:
  "xStatePlace (tcbs (reset_event_value t p k) x) = xStatePlace (tcbs k x)" "uxPriority (tcbs (reset_event_value t p k) x) = uxPriority (tcbs k x)"
  "uxBasePriority (tcbs (reset_event_value t p k) x) = uxBasePriority (tcbs k x)"
  "uxMutexesHeld (tcbs (reset_event_value t p k) x) = uxMutexesHeld (tcbs k x)"
  "pxCurrentTCB (reset_event_value t p k) = pxCurrentTCB k" "x \<noteq> t \<Longrightarrow> tcbs (reset_event_value t p k) x = tcbs k x"
  unfolding reset_event_set by simp_all

lemma places_reprioritise:
  assumes "places_ok k" and "\<And>x. xStatePlace (f x) = xStatePlace x"
  shows "places_ok (prvAddTaskToReadyList t (set_tcb t f (remove_state_item t k)))"
  using assms by (intro places_add_ready places_set_unready places_remove_state) simp_all

text \<open>
  A holder on its ready list is in the list of its priority, so the test of the code finds it iff it is ready.
\<close>

lemma ready_own: "places_ok k \<Longrightarrow> xStatePlace (tcbs k t) \<noteq> In_Ready (uxPriority (tcbs k t)) \<Longrightarrow> xStatePlace (tcbs k t) \<noteq> In_Ready p"
  by (auto dest: places_okD(4))

lemma inherit_ok:
  assumes "places_ok k" and "xTaskPriorityInherit h k = (inherited, k')"
  shows "places_ok k'" "h \<noteq> 0 \<Longrightarrow> uxPriority (tcbs k' h) = max (uxPriority (tcbs k h)) (uxPriority (tcbs k (pxCurrentTCB k)))"
    "uxBasePriority (tcbs k' x) = uxBasePriority (tcbs k x)" "uxMutexesHeld (tcbs k' x) = uxMutexesHeld (tcbs k x)"
    "(\<exists>p. xStatePlace (tcbs k' x) = In_Ready p) \<longleftrightarrow> (\<exists>p. xStatePlace (tcbs k x) = In_Ready p)" "x \<noteq> h \<Longrightarrow> tcbs k' x = tcbs k x"
    "pxCurrentTCB k' = pxCurrentTCB k"
    "h \<noteq> 0 \<Longrightarrow> inherited \<longleftrightarrow> uxPriority (tcbs k h) < uxPriority (tcbs k (pxCurrentTCB k)) \<or> uxBasePriority (tcbs k h) < uxPriority (tcbs k (pxCurrentTCB k))"
proof -
  let ?cur = "uxPriority (tcbs k (pxCurrentTCB k))"
  let ?ke = "reset_event_value h ?cur k"
  have e: "places_ok ?ke" by (rule places_reset_event [OF assms(1)])
  show "places_ok k'"
    using assms(2) e assms(1)
    by (auto simp: xTaskPriorityInherit_def Let_def intro!: places_reprioritise places_set_unready dest: ready_own split: if_splits)
qed (use assms(2) in \<open>auto simp: xTaskPriorityInherit_def Let_def max_def split: if_splits\<close>)

lemma disinherit_ok:
  assumes "places_ok k" and "h = pxCurrentTCB k" and "h \<noteq> 0" and "uxMutexesHeld (tcbs k h) \<noteq> 0" and "xStatePlace (tcbs k h) = In_Ready p"
  shows "\<exists>y k'. xTaskPriorityDisinherit h k = Some (y, k') \<and> places_ok k' \<and>
    uxPriority (tcbs k' h) = (if uxMutexesHeld (tcbs k h) = 1 then uxBasePriority (tcbs k h) else uxPriority (tcbs k h)) \<and>
    uxBasePriority (tcbs k' h) = uxBasePriority (tcbs k h) \<and> uxMutexesHeld (tcbs k' h) = uxMutexesHeld (tcbs k h) - 1 \<and>
    (y \<longleftrightarrow> uxPriority (tcbs k' h) \<noteq> uxPriority (tcbs k h)) \<and>
    xStatePlace (tcbs k' h) = In_Ready (uxPriority (tcbs k' h)) \<and> pxCurrentTCB k' = h \<and> (\<forall>x. x \<noteq> h \<longrightarrow> tcbs k' x = tcbs k x)"
proof -
  let ?k = "set_tcb h (\<lambda>x. x\<lparr>uxMutexesHeld := uxMutexesHeld x - 1\<rparr>) k"
  have p: "places_ok ?k" by (rule places_set_tcb [OF assms(1)]) simp_all
  have own: "xStatePlace (tcbs k h) = In_Ready (uxPriority (tcbs k h))" using places_okD(4) [OF assms(1,5)] assms(5) by simp
  show ?thesis
  proof (cases "uxPriority (tcbs k h) \<noteq> uxBasePriority (tcbs k h) \<and> uxMutexesHeld (tcbs k h) = 1")
    case True
    let ?m = "set_tcb h (\<lambda>x. x\<lparr>uxPriority := uxBasePriority x\<rparr>) (remove_state_item h ?k)"
    let ?n = "set_tcb h (\<lambda>x. x\<lparr>xEventItemValue := of_nat configMAX_PRIORITIES - of_nat (uxPriority x)\<rparr>) ?m"
    have "places_ok ?m" by (rule places_set_unready [OF places_remove_state [OF p]]) simp_all
    then have "places_ok ?n" by (rule places_set_tcb) simp_all
    then have "places_ok (prvAddTaskToReadyList h ?n)" by (rule places_add_ready) simp
    moreover have "xTaskPriorityDisinherit h k = Some (True, prvAddTaskToReadyList h ?n)"
      using True assms(2,3) by (simp add: xTaskPriorityDisinherit_def Let_def)
    ultimately show ?thesis using True assms(2) by auto
  next
    case False
    then have "xTaskPriorityDisinherit h k = Some (False, ?k)"
      using assms(2,3,4) by (auto simp: xTaskPriorityDisinherit_def Let_def)
    then show ?thesis using False p own assms(2,4) by auto
  qed
qed

text \<open>
  C14: Priority inheritance is bounded and undone: a task that blocks on a mutex raises the holder to at least its own
  priority, so that no task of a priority in between can keep the holder from running; when the holder gives back the
  only mutex it holds, its priority is its base priority again, it is ready at that priority, and the give asks for a yield iff
  the priority changed. The ready lists are consistent throughout.
\<close>

theorem priority_inheritance:
  assumes "places_ok k" and "h \<noteq> 0" and "xTaskPriorityInherit h k = (inherited, k1)"
    and "places_ok k2" and "pxCurrentTCB k2 = h" and "tcbs k2 h = (tcbs k1 h)\<lparr>xStatePlace := In_Ready p\<rparr>" and "uxMutexesHeld (tcbs k h) = 1"
  shows "places_ok k1 \<and> uxPriority (tcbs k (pxCurrentTCB k)) \<le> uxPriority (tcbs k1 h) \<and> uxPriority (tcbs k h) \<le> uxPriority (tcbs k1 h) \<and>
    (\<exists>y k3. xTaskPriorityDisinherit h k2 = Some (y, k3) \<and> places_ok k3 \<and> uxPriority (tcbs k3 h) = uxBasePriority (tcbs k h) \<and>
       xStatePlace (tcbs k3 h) = In_Ready (uxBasePriority (tcbs k h)) \<and> (y \<longleftrightarrow> uxPriority (tcbs k1 h) \<noteq> uxBasePriority (tcbs k h)))"
proof -
  note i = inherit_ok [OF assms(1,3)]
  have "uxMutexesHeld (tcbs k2 h) = 1" "xStatePlace (tcbs k2 h) = In_Ready p" "uxBasePriority (tcbs k2 h) = uxBasePriority (tcbs k h)"
    "uxPriority (tcbs k2 h) = uxPriority (tcbs k1 h)"
    using assms(6,7) i(3,4) by simp_all
  with disinherit_ok [OF assms(4) assms(5) [symmetric] assms(2)] i(1) i(2) [OF assms(2)] show ?thesis by auto
qed

lemma priority_inheritance_witness:
  "\<exists>k1 k2 k3. xTaskPriorityInherit 2 (set_tcb 2 (\<lambda>x. x\<lparr>uxMutexesHeld := 1\<rparr>) (two_tasks 0)) = (True, k1) \<and>
     uxPriority (tcbs k1 2) \<ge> 3 \<and> xTaskPriorityDisinherit 2 k2 = Some (True, k3) \<and> uxPriority (tcbs k3 2) = 0"
proof -
  let ?k = "set_tcb 2 (\<lambda>x. x\<lparr>uxMutexesHeld := 1\<rparr>) (two_tasks 0)"
  have p: "places_ok ?k" using two_tasks_ok [of 0] by (intro places_set_tcb) (simp_all add: kernel_ok_def)
  have c: "pxCurrentTCB ?k = 1" "uxPriority (tcbs ?k 1) = 3" "uxPriority (tcbs ?k 2) = 0" "uxBasePriority (tcbs ?k 2) = 0"
    "xStatePlace (tcbs ?k 2) = In_Ready 0" "uxMutexesHeld (tcbs ?k 2) = 1"
    by (simp_all add: two_tasks_def ready_task_def)
  obtain b k1 where i: "xTaskPriorityInherit 2 ?k = (b, k1)" by (cases "xTaskPriorityInherit 2 ?k")
  note ok = inherit_ok [OF p i]
  have b: "b" using ok(8) c by simp
  obtain q where q: "xStatePlace (tcbs k1 2) = In_Ready q" using ok(5) [of 2] c(5) by blast
  let ?k2 = "k1\<lparr>pxCurrentTCB := 2\<rparr>"
  have p2: "places_ok ?k2" by (rule places_times [OF ok(1)]) simp_all
  have t: "tcbs ?k2 2 = (tcbs k1 2)\<lparr>xStatePlace := In_Ready q\<rparr>" using q by simp
  have "(2 :: nat) \<noteq> 0" "pxCurrentTCB ?k2 = 2" by simp_all
  from priority_inheritance [OF p this(1) i p2 this(2) t c(6)] ok(2) c i b show ?thesis by auto
qed

text \<open>
  \<^verbatim>\<open>vTaskSwitchContext\<close> gives the processor to a task of the highest priority of all the ready tasks, the next one
  round the list of that priority, and clears the pending yield; the lists stay consistent.
\<close>

theorem switch_highest_priority:
  assumes "places_ok k" and "uxSchedulerSuspended k = 0" and "xStatePlace (tcbs k i) = In_Ready q"
  shows "\<exists>k'. vTaskSwitchContext k = Some k' \<and> places_ok k' \<and> \<not> xYieldPending k' \<and>
    xStatePlace (tcbs k (pxCurrentTCB k')) = In_Ready (uxPriority (tcbs k (pxCurrentTCB k'))) \<and>
    (\<forall>t p. xStatePlace (tcbs k t) = In_Ready p \<longrightarrow> uxPriority (tcbs k t) \<le> uxPriority (tcbs k (pxCurrentTCB k'))) \<and>
    (\<exists>p. pxCurrentTCB k' = ring_next (pxReadyTasksLists k p))"
  using switch_ok [OF assms] by blast

lemma switch_highest_priority_witness:
  "\<exists>k'. vTaskSwitchContext (two_tasks 0) = Some k' \<and> uxPriority (tcbs (two_tasks 0) 1) \<le> uxPriority (tcbs (two_tasks 0) (pxCurrentTCB k'))"
proof -
  have 1: "places_ok (two_tasks 0)" "uxSchedulerSuspended (two_tasks 0) = 0" using two_tasks_ok [of 0] by (simp_all add: kernel_ok_def)
  have 2: "xStatePlace (tcbs (two_tasks 0) 1) = In_Ready 3" by (simp add: two_tasks_def ready_task_def)
  show ?thesis using switch_highest_priority [OF 1 2] 2 by blast
qed

section \<open>A suspended task stays suspended\<close>

lemma suspended_ticks:
  assumes "places_ok k" and "times_ok k" and "uxSchedulerSuspended k = 0" and "xStatePlace (tcbs k t) = In_Suspended"
  shows "\<exists>k'. run_ticks m k = Some k' \<and> places_ok k' \<and> times_ok k' \<and> uxSchedulerSuspended k' = 0 \<and>
    tcbs k' t = tcbs k t \<and> pxCurrentTCB k' = pxCurrentTCB k"
  using assms
proof (induction m arbitrary: k)
  case 0
  then show ?case by simp
next
  case (Suc m)
  obtain sw k1 where T: "xTaskIncrementTick k = Some (sw, k1)" "places_ok k1" "times_ok k1" "uxSchedulerSuspended k1 = 0"
    "tcbs k1 = woken (\<lambda>t. ticks_left k t = Some 1) (tcbs k)" "pxCurrentTCB k1 = pxCurrentTCB k"
    using tick_ok [OF Suc.prems(1-3)] by blast
  have t: "tcbs k1 t = tcbs k t" using Suc.prems(4) by (simp add: T(5) woken_def ticks_left_def)
  with Suc.IH [OF T(2-4)] Suc.prems(4) obtain k' where "run_ticks m k1 = Some k'" "places_ok k'" "times_ok k'"
    "uxSchedulerSuspended k' = 0" "tcbs k' t = tcbs k1 t" "pxCurrentTCB k' = pxCurrentTCB k1" by auto
  then show ?case using T t by simp
qed

text \<open>The next unblock time is the wake time of the first task of a sorted list.\<close>

lemma reset_unblock_ok:
  assumes "\<And>b. sorted (map (\<lambda>t. xStateItemValue (tcbs k t)) (xDelayedTaskLists k b))"
    and "\<forall>t \<in> set (current_delayed k). xTickCount k < xStateItemValue (tcbs k t)"
    and "\<forall>t \<in> set (overflow_delayed k). xStateItemValue (tcbs k t) < xTickCount k"
  shows "times_ok (prvResetNextTaskUnblockTime k)"
proof -
  have f: "current_delayed (prvResetNextTaskUnblockTime k) = current_delayed k" "overflow_delayed (prvResetNextTaskUnblockTime k) = overflow_delayed k"
    "tcbs (prvResetNextTaskUnblockTime k) = tcbs k" "xTickCount (prvResetNextTaskUnblockTime k) = xTickCount k"
    "xDelayedTaskLists (prvResetNextTaskUnblockTime k) = xDelayedTaskLists k"
    "xNextTaskUnblockTime (prvResetNextTaskUnblockTime k) = (case current_delayed k of [] \<Rightarrow> portMAX_DELAY | t # _ \<Rightarrow> xStateItemValue (tcbs k t))"
    by (simp_all add: prvResetNextTaskUnblockTime_def current_delayed_def overflow_delayed_def)
  have "xNextTaskUnblockTime (prvResetNextTaskUnblockTime k) \<le> xStateItemValue (tcbs k t)" if "t \<in> set (current_delayed k)" for t
    using assms(1) [of "pxDelayedTaskList k"] that unfolding f(6)
    by (cases "current_delayed k") (auto simp: current_delayed_def)
  then show ?thesis using assms by (simp add: times_ok_def f)
qed

lemma suspend_ok:
  assumes "places_ok k" and "times_ok k" and "uxSchedulerSuspended k = 0" and "t = prvGetTCBFromHandle h k"
  shows "\<exists>k'. vTaskSuspend h k = Some (t = pxCurrentTCB k, k') \<and> places_ok k' \<and> times_ok k' \<and> uxSchedulerSuspended k' = 0 \<and>
    xStatePlace (tcbs k' t) = In_Suspended \<and> xEventPlace (tcbs k' t) = On_No_List \<and>
    ucNotifyState (tcbs k' t) \<noteq> taskWAITING_NOTIFICATION \<and> uxPriority (tcbs k' t) = uxPriority (tcbs k t) \<and>
    uxBasePriority (tcbs k' t) = uxBasePriority (tcbs k t) \<and> (\<forall>x. x \<noteq> t \<longrightarrow> tcbs k' x = tcbs k x) \<and>
    pxCurrentTCB k' = pxCurrentTCB k \<and> xPendedTicks k' = xPendedTicks k \<and>
    (xPendingReadyList k = [] \<longrightarrow> xPendingReadyList k' = [])"
proof -
  define k1 where "k1 = (if xEventPlace (tcbs k t) \<noteq> On_No_List then remove_event_item t (remove_state_item t k) else remove_state_item t k)"
  define k2 where "k2 = set_tcb t (\<lambda>x. x\<lparr>xStatePlace := In_Suspended\<rparr>) (k1\<lparr>xSuspendedTaskList := xSuspendedTaskList k1 @ [t]\<rparr>)"
  define k3 where "k3 = set_tcb t (\<lambda>x. if ucNotifyState x = taskWAITING_NOTIFICATION then x\<lparr>ucNotifyState := taskNOT_WAITING_NOTIFICATION\<rparr> else x) k2"
  define k' where "k' = prvResetNextTaskUnblockTime k3"
  have s1: "tcbs k1 t = (tcbs k t)\<lparr>xStatePlace := In_No_List, xEventPlace := On_No_List\<rparr>" "pxCurrentTCB k1 = pxCurrentTCB k"
    "xTickCount k1 = xTickCount k" "pxDelayedTaskList k1 = pxDelayedTaskList k" "uxSchedulerSuspended k1 = 0"
    "xDelayedTaskLists k1 b = (if xStatePlace (tcbs k t) = In_Delayed b then remove1 t (xDelayedTaskLists k b) else xDelayedTaskLists k b)" for b
    using assms(3) by (auto simp: k1_def)
  have p1: "places_ok k1" by (auto simp: k1_def intro: places_remove_state places_remove_event assms(1))
  have p2: "places_ok k2" unfolding k2_def by (rule places_suspend [OF p1]) (simp add: s1)
  have "places_ok k3" unfolding k3_def by (rule places_set_tcb [OF p2]) simp_all
  then have p': "places_ok k'" unfolding k'_def by (rule places_times) (simp_all add: prvResetNextTaskUnblockTime_def)
  have vals: "xStateItemValue (tcbs k3 x) = xStateItemValue (tcbs k x)" for x by (simp add: k3_def k2_def k1_def)
  have lists: "xDelayedTaskLists k3 = xDelayedTaskLists k1" "pxDelayedTaskList k3 = pxDelayedTaskList k" "xTickCount k3 = xTickCount k"
    by (simp_all add: k3_def k2_def s1)
  have sub: "set (xDelayedTaskLists k1 b) \<subseteq> set (xDelayedTaskLists k b)" for b by (simp add: s1(6) set_remove1_subset)
  have "times_ok k'" unfolding k'_def
  proof (rule reset_unblock_ok)
    fix b
    show "sorted (map (\<lambda>t. xStateItemValue (tcbs k3 t)) (xDelayedTaskLists k3 b))"
      using assms(2) by (simp add: vals lists s1(6) times_ok_def sorted_map_remove1)
  qed (use assms(2) subsetD [OF sub] in \<open>auto simp: vals lists times_ok_def current_delayed_def overflow_delayed_def\<close>)
  moreover have "vTaskSuspend h k = Some (t = pxCurrentTCB k, k')"
    unfolding vTaskSuspend_def Let_def assms(4) [symmetric]
      remove_state_sel(1) using assms(3) by (simp add: k'_def k3_def k2_def k1_def prvResetNextTaskUnblockTime_def)
  moreover have "tcbs k1 x = tcbs k x" if "x \<noteq> t" for x using that by (simp add: k1_def)
  moreover have "xPendedTicks k1 = xPendedTicks k" "xPendingReadyList k = [] \<Longrightarrow> xPendingReadyList k1 = []" by (simp_all add: k1_def)
  ultimately show ?thesis
    using p' by (simp add: k'_def prvResetNextTaskUnblockTime_def k3_def k2_def s1)
qed

text \<open>
  A task that \<^verbatim>\<open>vTaskSuspend\<close> suspends, delayed, ready or waiting before, is suspended after any number of ticks: its
  state is \<^verbatim>\<open>eSuspended\<close> until \<^verbatim>\<open>vTaskResume\<close>, which makes it ready and asks for a yield iff it has a higher priority than the running task.
\<close>

theorem suspended_until_resumed:
  assumes "places_ok k" and "times_ok k" and "uxSchedulerSuspended k = 0" and "t \<noteq> 0" and "t \<noteq> pxCurrentTCB k"
  shows "\<exists>k1 k2 k3. vTaskSuspend t k = Some (False, k1) \<and> run_ticks m k1 = Some k2 \<and> eTaskGetState t k2 = Some eSuspended \<and>
    vTaskResume t k2 = Some (uxPriority (tcbs k2 (pxCurrentTCB k)) < uxPriority (tcbs k t), k3) \<and>
    eTaskGetState t k3 = Some eReady \<and> places_ok k3"
proof -
  obtain k1 where s: "vTaskSuspend t k = Some (False, k1)" "places_ok k1" "times_ok k1" "uxSchedulerSuspended k1 = 0"
    "xStatePlace (tcbs k1 t) = In_Suspended" "xEventPlace (tcbs k1 t) = On_No_List" "ucNotifyState (tcbs k1 t) \<noteq> taskWAITING_NOTIFICATION"
    "uxPriority (tcbs k1 t) = uxPriority (tcbs k t)" "pxCurrentTCB k1 = pxCurrentTCB k"
    using suspend_ok [OF assms(1-3), of t t] assms(4,5) by (auto simp: prvGetTCBFromHandle_def)
  obtain k2 where r: "run_ticks m k1 = Some k2" "places_ok k2" "tcbs k2 t = tcbs k1 t" "pxCurrentTCB k2 = pxCurrentTCB k"
    using suspended_ticks [OF s(2-5)] s(9) by metis
  have "places_ok (prvAddTaskToReadyList t (remove_state_item t k2))"
    by (intro places_add_ready places_remove_state r(2)) simp
  moreover have "prvTaskIsTaskSuspended t k2" using s r(3) by (simp add: prvTaskIsTaskSuspended_def)
  ultimately show ?thesis
    using s r assms(4,5) by (auto simp: eTaskGetState_def vTaskResume_def Let_def)
qed

lemma suspended_until_resumed_witness:
  "\<exists>k1 k2 k3. vTaskSuspend 2 (two_tasks 0xFFFFFFFF) = Some (False, k1) \<and> run_ticks 9 k1 = Some k2 \<and> eTaskGetState 2 k2 = Some eSuspended \<and>
     (\<exists>y. vTaskResume 2 k2 = Some (y, k3)) \<and> eTaskGetState 2 k3 = Some eReady"
proof -
  have k: "places_ok (two_tasks 0xFFFFFFFF)" "times_ok (two_tasks 0xFFFFFFFF)" "uxSchedulerSuspended (two_tasks 0xFFFFFFFF) = 0"
    using two_tasks_ok [of "0xFFFFFFFF"] by (simp_all add: kernel_ok_def)
  have "(2 :: nat) \<noteq> 0" "2 \<noteq> pxCurrentTCB (two_tasks 0xFFFFFFFF)" by (simp_all add: two_tasks_def)
  from suspended_until_resumed [OF k this, of 9] show ?thesis by blast
qed

end
