(* ===== verification/RtosQueue.thy ===== *)
theory RtosQueue
  imports RtosEvents Heap4
begin

text \<open>
  The queues of the FreeRTOS kernel, \<^verbatim>\<open>queue.c\<close>, which are also its semaphores and mutexes: a ring of items in
  bytes, tasks that wait to send and to receive, and the locks that count what interrupts do to a queue while a task is
  being put on one of its event lists. Queue sets, co-routines and static allocation are off in this
  project. Positions in the storage are offsets from \<^verbatim>\<open>pcHead\<close>. A failed \<^verbatim>\<open>configASSERT\<close> is \<open>None\<close>.
\<close>

section \<open>State\<close>

text \<open>
  \<open>is_mutex\<close> says that \<^verbatim>\<open>pcHead\<close> is null, which marks a mutex. The union of the source holds
  \<^verbatim>\<open>pcTail\<close> and \<^verbatim>\<open>pcReadFrom\<close> for a queue, the holder and the call count for a mutex. An event list is named by its address.
\<close>

record queue =
  pcHead :: "u8 list"
  is_mutex :: bool
  pcWriteTo :: nat
  pcTail :: nat
  pcReadFrom :: int
  xMutexHolder :: nat
  uxRecursiveCallCount :: nat
  xTasksWaitingToSend :: nat
  xTasksWaitingToReceive :: nat
  uxMessagesWaiting :: nat
  uxLength :: nat
  uxItemSize :: nat
  cRxLock :: int
  cTxLock :: int
  uxQueueNumber :: nat
  ucQueueType :: u8

definition queueUNLOCKED :: int where "queueUNLOCKED = -1"

definition queueLOCKED_UNMODIFIED :: int where "queueLOCKED_UNMODIFIED = 0"

definition queueINT8_MAX :: int where "queueINT8_MAX = 127"

datatype copy_position = queueSEND_TO_BACK | queueSEND_TO_FRONT | queueOVERWRITE

section \<open>Copying items\<close>

text \<open>\<^verbatim>\<open>memcpy\<close> of one item into the storage at an offset, and out of it.\<close>

definition write_item :: "nat \<Rightarrow> u8 list \<Rightarrow> queue \<Rightarrow> queue" where
  "write_item p item q = q\<lparr>pcHead := take p (pcHead q) @ take (uxItemSize q) item @ drop (p + uxItemSize q) (pcHead q)\<rparr>"

definition read_item :: "nat \<Rightarrow> queue \<Rightarrow> u8 list" where
  "read_item p q = take (uxItemSize q) (drop p (pcHead q))"

text \<open>The result says whether giving a mutex changed the priority of the task, so that a yield is due.\<close>

definition prvCopyDataToQueue :: "u8 list \<Rightarrow> copy_position \<Rightarrow> queue \<Rightarrow> kernel \<Rightarrow> (bool \<times> queue \<times> kernel) option" where
  "prvCopyDataToQueue pvItemToQueue xPosition q k = do {
     let n = uxMessagesWaiting q;
     (xReturn, q, k, n) \<leftarrow>
       (if uxItemSize q = 0 then
          if is_mutex q then do {
            (y, k) \<leftarrow> xTaskPriorityDisinherit (xMutexHolder q) k;
            Some (y, q\<lparr>xMutexHolder := 0\<rparr>, k, n) }
          else Some (False, q, k, n)
        else if xPosition = queueSEND_TO_BACK then
          let q = write_item (pcWriteTo q) pvItemToQueue q;
              q = q\<lparr>pcWriteTo := pcWriteTo q + uxItemSize q\<rparr>;
              q = (if pcWriteTo q \<ge> pcTail q then q\<lparr>pcWriteTo := 0\<rparr> else q)
          in Some (False, q, k, n)
        else
          let q = write_item (nat (pcReadFrom q)) pvItemToQueue q;
              q = q\<lparr>pcReadFrom := pcReadFrom q - int (uxItemSize q)\<rparr>;
              q = (if pcReadFrom q < 0 then q\<lparr>pcReadFrom := int (pcTail q) - int (uxItemSize q)\<rparr> else q)
          in Some (False, q, k, if xPosition = queueOVERWRITE \<and> n > 0 then n - 1 else n));
     Some (xReturn, q\<lparr>uxMessagesWaiting := (n + 1) mod 2 ^ 32\<rparr>, k) }"

text \<open>The item goes to the buffer of the caller, here a result; a queue of items of size 0 leaves the buffer alone.\<close>

definition prvCopyDataFromQueue :: "queue \<Rightarrow> u8 list \<times> queue" where
  "prvCopyDataFromQueue q =
     (if uxItemSize q \<noteq> 0 then
        let q = q\<lparr>pcReadFrom := pcReadFrom q + int (uxItemSize q)\<rparr>;
            q = (if pcReadFrom q \<ge> int (pcTail q) then q\<lparr>pcReadFrom := 0\<rparr> else q)
        in (read_item (nat (pcReadFrom q)) q, q)
      else ([], q))"

section \<open>Waiting tasks and locks\<close>

text \<open>Waking the first task of an event list, if there is one. The result asks for a yield.\<close>

definition wake_waiting :: "nat \<Rightarrow> kernel \<Rightarrow> (bool \<times> kernel) option" where
  "wake_waiting e k = (if xEventLists k e \<noteq> [] then xTaskRemoveFromEventList e k else Some (False, k))"

definition prvLockQueue :: "queue \<Rightarrow> queue" where
  "prvLockQueue q =
     (let q = (if cRxLock q = queueUNLOCKED then q\<lparr>cRxLock := queueLOCKED_UNMODIFIED\<rparr> else q)
      in if cTxLock q = queueUNLOCKED then q\<lparr>cTxLock := queueLOCKED_UNMODIFIED\<rparr> else q)"

text \<open>One of the two loops of \<^verbatim>\<open>prvUnlockQueue\<close>: a waiting task is woken for each count of the lock, as long as there are any.\<close>

fun unlock_loop :: "nat \<Rightarrow> nat \<Rightarrow> kernel \<Rightarrow> kernel option" where
  "unlock_loop 0 e k = Some k"
| "unlock_loop (Suc n) e k =
     (if xEventLists k e \<noteq> [] then do {
        (yield, k) \<leftarrow> xTaskRemoveFromEventList e k;
        unlock_loop n e (if yield then vTaskMissedYield k else k) }
      else Some k)"

text \<open>A step of the rest of the system: what interrupts and other tasks do to the queue and to the kernel at one point.\<close>

type_synonym step = "queue \<times> kernel \<Rightarrow> queue \<times> kernel"

text \<open>The two locks are undone in two critical sections; \<open>isr\<close> is what interrupts do between them.\<close>

definition prvUnlockQueue :: "step \<Rightarrow> queue \<Rightarrow> kernel \<Rightarrow> (queue \<times> kernel) option" where
  "prvUnlockQueue isr q k = do {
     k \<leftarrow> unlock_loop (nat (cTxLock q)) (xTasksWaitingToReceive q) k;
     let q = q\<lparr>cTxLock := queueUNLOCKED\<rparr>;
     let (q, k) = isr (q, k);
     k \<leftarrow> unlock_loop (nat (cRxLock q)) (xTasksWaitingToSend q) k;
     Some (q\<lparr>cRxLock := queueUNLOCKED\<rparr>, k) }"

definition prvIncrementQueueTxLock :: "queue \<Rightarrow> kernel \<Rightarrow> queue option" where
  "prvIncrementQueueTxLock q k =
     (if cTxLock q < int (uxCurrentNumberOfTasks k) then
        if cTxLock q \<noteq> queueINT8_MAX then Some (q\<lparr>cTxLock := cTxLock q + 1\<rparr>) else None
      else Some q)"

definition prvIncrementQueueRxLock :: "queue \<Rightarrow> kernel \<Rightarrow> queue option" where
  "prvIncrementQueueRxLock q k =
     (if cRxLock q < int (uxCurrentNumberOfTasks k) then
        if cRxLock q \<noteq> queueINT8_MAX then Some (q\<lparr>cRxLock := cRxLock q + 1\<rparr>) else None
      else Some q)"

definition prvIsQueueEmpty :: "queue \<Rightarrow> bool" where "prvIsQueueEmpty q = (uxMessagesWaiting q = 0)"

definition prvIsQueueFull :: "queue \<Rightarrow> bool" where "prvIsQueueFull q = (uxMessagesWaiting q = uxLength q)"

definition uxQueueMessagesWaiting :: "queue \<Rightarrow> nat" where "uxQueueMessagesWaiting q = uxMessagesWaiting q"

definition uxQueueSpacesAvailable :: "queue \<Rightarrow> nat" where
  "uxQueueSpacesAvailable q = (uxLength q + 2 ^ 32 - uxMessagesWaiting q) mod 2 ^ 32"

section \<open>Creating and resetting\<close>

text \<open>Resetting a mutex, whose holder shares its place with the positions of a queue, is not an operation of the kernel's interface.\<close>

definition xQueueGenericReset :: "bool \<Rightarrow> queue \<Rightarrow> kernel \<Rightarrow> (bool \<times> queue \<times> kernel) option" where
  "xQueueGenericReset xNewQueue q k =
     (if uxLength q \<ge> 1 \<and> (2 ^ 32 - 1) div uxLength q \<ge> uxItemSize q \<and> \<not> is_mutex q then
        let q = q\<lparr>pcTail := uxLength q * uxItemSize q, uxMessagesWaiting := 0, pcWriteTo := 0,
                  pcReadFrom := int ((uxLength q - 1) * uxItemSize q), cRxLock := queueUNLOCKED, cTxLock := queueUNLOCKED\<rparr>
        in if \<not> xNewQueue then do { (yield, k) \<leftarrow> wake_waiting (xTasksWaitingToSend q) k; Some (yield, q, k) }
           else Some (False, q, k\<lparr>xEventLists := (xEventLists k)(xTasksWaitingToSend q := [], xTasksWaitingToReceive q := [])\<rparr>)
      else None)"

text \<open>The queue structure in the memory of the target, and the offsets of its two event lists.\<close>

definition sizeof_Queue_t :: nat where "sizeof_Queue_t = 80"

definition prvInitialiseNewQueue :: "nat \<Rightarrow> nat \<Rightarrow> nat \<Rightarrow> u8 list \<Rightarrow> u8 \<Rightarrow> kernel \<Rightarrow> (queue \<times> kernel) option" where
  "prvInitialiseNewQueue uxQueueLength uxSize pxNewQueue memory queueType k = do {
     (_, q, k) \<leftarrow> xQueueGenericReset True
       \<lparr>pcHead = memory, is_mutex = False, pcWriteTo = 0, pcTail = 0, pcReadFrom = 0, xMutexHolder = 0, uxRecursiveCallCount = 0,
        xTasksWaitingToSend = pxNewQueue + 16, xTasksWaitingToReceive = pxNewQueue + 36, uxMessagesWaiting = 0,
        uxLength = uxQueueLength, uxItemSize = uxSize, cRxLock = 0, cTxLock = 0,
        uxQueueNumber = 0, ucQueueType = 0\<rparr> k;
     Some (q\<lparr>ucQueueType := queueType\<rparr>, k) }"

definition queueQUEUE_TYPE_COUNTING_SEMAPHORE :: u8 where "queueQUEUE_TYPE_COUNTING_SEMAPHORE = 2"

text \<open>
  Creating allocates the structure and the storage in one block. The bytes that the storage has before anything is
  written are \<open>memory\<close>. The result is the handle, null when there is no memory, and the queue.
\<close>

definition xQueueGenericCreate ::
    "nat \<Rightarrow> nat \<Rightarrow> (nat \<Rightarrow> u8 list) \<Rightarrow> nat \<Rightarrow> nat \<Rightarrow> u8 \<Rightarrow> heap4 \<Rightarrow> kernel \<Rightarrow> (nat \<times> queue option \<times> heap4 \<times> kernel) option" where
  "xQueueGenericCreate ucHeap heap_size memory uxQueueLength uxSize queueType heap k =
     (if uxQueueLength > 0 \<and> (2 ^ 32 - 1) div uxQueueLength \<ge> uxSize \<and> 2 ^ 32 - 1 - sizeof_Queue_t \<ge> uxQueueLength * uxSize then do {
        let xQueueSizeInBytes = uxQueueLength * uxSize;
        (pxNewQueue, heap) \<leftarrow> pvPortMalloc ucHeap heap_size (of_nat (sizeof_Queue_t + xQueueSizeInBytes)) heap;
        if pxNewQueue \<noteq> 0 then do {
          (q, k) \<leftarrow> prvInitialiseNewQueue uxQueueLength uxSize pxNewQueue (memory xQueueSizeInBytes) queueType k;
          Some (pxNewQueue, Some q, heap, k) }
        else Some (0, None, heap, k) }
      else None)"

definition xQueueCreateCountingSemaphore ::
    "nat \<Rightarrow> nat \<Rightarrow> (nat \<Rightarrow> u8 list) \<Rightarrow> nat \<Rightarrow> nat \<Rightarrow> heap4 \<Rightarrow> kernel \<Rightarrow> (nat \<times> queue option \<times> heap4 \<times> kernel) option" where
  "xQueueCreateCountingSemaphore ucHeap heap_size memory uxMaxCount uxInitialCount heap k =
     (if uxMaxCount \<noteq> 0 \<and> uxInitialCount \<le> uxMaxCount then do {
        (h, q, heap, k) \<leftarrow> xQueueGenericCreate ucHeap heap_size memory uxMaxCount 0 queueQUEUE_TYPE_COUNTING_SEMAPHORE heap k;
        Some (h, map_option (\<lambda>q. q\<lparr>uxMessagesWaiting := uxInitialCount\<rparr>) q, heap, k) }
      else None)"

section \<open>Critical sections of the operations\<close>

text \<open>
  What an operation does at once, inside its critical section: \<open>None\<close> stands for a failed assertion, \<open>Some None\<close> for a queue
  that is full or empty. The boolean asks for a yield.
\<close>

definition send_now :: "u8 list \<Rightarrow> copy_position \<Rightarrow> queue \<Rightarrow> kernel \<Rightarrow> (unit \<times> bool \<times> queue \<times> kernel) option option" where
  "send_now pvItemToQueue xCopyPosition q k =
     (if uxMessagesWaiting q < uxLength q \<or> xCopyPosition = queueOVERWRITE then do {
        (xYieldRequired, q, k) \<leftarrow> prvCopyDataToQueue pvItemToQueue xCopyPosition q k;
        if xEventLists k (xTasksWaitingToReceive q) \<noteq> [] then do {
          (yield, k) \<leftarrow> xTaskRemoveFromEventList (xTasksWaitingToReceive q) k;
          Some (Some ((), yield, q, k)) }
        else Some (Some ((), xYieldRequired, q, k)) }
      else Some None)"

definition receive_now :: "queue \<Rightarrow> kernel \<Rightarrow> (u8 list \<times> bool \<times> queue \<times> kernel) option option" where
  "receive_now q k =
     (if uxMessagesWaiting q > 0 then do {
        let n = uxMessagesWaiting q;
        let (pvBuffer, q) = prvCopyDataFromQueue q;
        let q = q\<lparr>uxMessagesWaiting := n - 1\<rparr>;
        (yield, k) \<leftarrow> wake_waiting (xTasksWaitingToSend q) k;
        Some (Some (pvBuffer, yield, q, k)) }
      else Some None)"

definition peek_now :: "queue \<Rightarrow> kernel \<Rightarrow> (u8 list \<times> bool \<times> queue \<times> kernel) option option" where
  "peek_now q k =
     (if uxMessagesWaiting q > 0 then do {
        let pcOriginalReadPosition = pcReadFrom q;
        let (pvBuffer, q) = prvCopyDataFromQueue q;
        let q = q\<lparr>pcReadFrom := pcOriginalReadPosition\<rparr>;
        (yield, k) \<leftarrow> wake_waiting (xTasksWaitingToReceive q) k;
        Some (Some (pvBuffer, yield, q, k)) }
      else Some None)"

definition take_now :: "queue \<Rightarrow> kernel \<Rightarrow> (unit \<times> bool \<times> queue \<times> kernel) option option" where
  "take_now q k =
     (if uxMessagesWaiting q > 0 then do {
        let q = q\<lparr>uxMessagesWaiting := uxMessagesWaiting q - 1\<rparr>;
        let (q, k) = (if is_mutex q then let (t, k) = pvTaskIncrementMutexHeldCount k in (q\<lparr>xMutexHolder := t\<rparr>, k) else (q, k));
        (yield, k) \<leftarrow> wake_waiting (xTasksWaitingToSend q) k;
        Some (Some ((), yield, q, k)) }
      else Some None)"

section \<open>Blocking\<close>

text \<open>
  The rest of the system in one pass of the loop of an operation that may block, with a step for every point where it can act:
  tasks and interrupts before the scheduler is suspended (\<open>preempted\<close>); interrupts before the queue is locked, before the test for
  the time-out, before the test whether to block, after that test, after the inheritance of a priority, when the task is on
  the event list, between the two critical sections of \<^verbatim>\<open>prvUnlockQueue\<close>, before \<^verbatim>\<open>xTaskResumeAll\<close>, and between it and the yield; tasks and
  interrupts while the task is blocked or preempted (\<open>others\<close>), and, after a time-out, when the task has looked at the queue once
  more (\<open>after_timeout\<close>).
\<close>

record pass_env =
  preempted :: step
  isr_suspended :: step
  isr_locked :: step
  isr_timed :: step
  isr_tested :: step
  isr_inherited :: step
  isr_listed :: step
  isr_unlocking :: step
  isr_unlocked :: step
  isr_resumed :: step
  others :: step
  after_timeout :: step

datatype pass_result = Retry | Timed_Out

text \<open>
  The end of a pass: unlocking the queue and resuming the scheduler, which may switch the context at once; a task that has to
  block yields if it did not. Then the rest of the system runs until the task goes on.
\<close>

definition end_pass :: "bool \<Rightarrow> pass_env \<Rightarrow> queue \<Rightarrow> kernel \<Rightarrow> (queue \<times> kernel) option" where
  "end_pass xShouldBlock env q k = do {
     (q, k) \<leftarrow> prvUnlockQueue (isr_unlocking env) q k;
     let (q, k) = isr_unlocked env (q, k);
     (xAlreadyYielded, k) \<leftarrow> resume_and_yield False k;
     let (q, k) = isr_resumed env (q, k);
     k \<leftarrow> (if xShouldBlock \<and> \<not> xAlreadyYielded then vTaskSwitchContext k else Some k);
     Some (others env (q, k)) }"

text \<open>
  The part of the loop with the scheduler suspended and the queue locked. \<open>must_block\<close> is the test of the operation,
  \<open>before_block\<close> what a mutex does before its task is put on the event list. The result: whether the time is over,
  the time-out structure, the ticks left, and whether \<open>before_block\<close> raised the priority of a holder.
\<close>

definition block_pass ::
    "(queue \<Rightarrow> bool) \<Rightarrow> (queue \<Rightarrow> kernel \<Rightarrow> bool \<times> kernel) \<Rightarrow> (queue \<Rightarrow> nat) \<Rightarrow> pass_env \<Rightarrow> TimeOut_t \<Rightarrow> u32 \<Rightarrow> bool \<Rightarrow> queue \<Rightarrow> kernel
     \<Rightarrow> (pass_result \<times> TimeOut_t \<times> u32 \<times> bool \<times> queue \<times> kernel) option" where
  "block_pass must_block before_block event_list env xTimeOut xTicksToWait inherited q k = do {
     let (q, k) = preempted env (q, k);
     let k = vTaskSuspendAll k;
     let (q, k) = isr_suspended env (q, k);
     let q = prvLockQueue q;
     let (q, k) = isr_locked env (q, k);
     let (expired, xTimeOut, xTicksToWait) = xTaskCheckForTimeOut k xTimeOut xTicksToWait;
     let (q, k) = isr_timed env (q, k);
     let xShouldBlock = (\<not> expired \<and> must_block q);
     let (q, k) = isr_tested env (q, k);
     if xShouldBlock then do {
       let (inherited, k) = before_block q k;
       let (q, k) = isr_inherited env (q, k);
       let k = vTaskPlaceOnEventList (event_list q) xTicksToWait k;
       let (q, k) = isr_listed env (q, k);
       (q, k) \<leftarrow> end_pass True env q k;
       Some (Retry, xTimeOut, xTicksToWait, inherited, q, k) }
     else do {
       (q, k) \<leftarrow> end_pass False env q k;
       Some (if expired then Timed_Out else Retry, xTimeOut, xTicksToWait, inherited, q, k) } }"

text \<open>
  The loop, over the passes that the rest of the system gives. \<open>now\<close> is the critical section of the operation,
  \<open>gives_up\<close> says whether a time-out ends the operation in the state then reached, \<open>at_end\<close> what is undone before it fails.
  \<open>Waiting\<close> is an operation that has not returned after these passes.
\<close>

datatype 'a outcome = Returned 'a | Failed | Waiting

fun wait_loop ::
    "(queue \<Rightarrow> kernel \<Rightarrow> ('a \<times> bool \<times> queue \<times> kernel) option option) \<Rightarrow> (queue \<Rightarrow> bool) \<Rightarrow> (queue \<Rightarrow> kernel \<Rightarrow> bool \<times> kernel) \<Rightarrow> (queue \<Rightarrow> nat) \<Rightarrow>
     (queue \<Rightarrow> bool) \<Rightarrow> (bool \<Rightarrow> queue \<Rightarrow> kernel \<Rightarrow> kernel option) \<Rightarrow> pass_env list \<Rightarrow> TimeOut_t option \<Rightarrow> u32 \<Rightarrow> bool \<Rightarrow> queue \<Rightarrow> kernel
     \<Rightarrow> ('a outcome \<times> bool \<times> queue \<times> kernel) option" where
  "wait_loop now must_block before_block event_list gives_up at_end envs xTimeOut xTicksToWait inherited q k = do {
     r \<leftarrow> now q k;
     case r of
       Some (x, yield, q, k) \<Rightarrow> Some (Returned x, yield, q, k)
     | None \<Rightarrow>
         if xTicksToWait = 0 then Some (Failed, False, q, k)
         else (case envs of
           [] \<Rightarrow> Some (Waiting, False, q, k)
         | env # envs \<Rightarrow> do {
             let xTimeOut = (case xTimeOut of None \<Rightarrow> vTaskInternalSetTimeOutState k | Some t \<Rightarrow> t);
             (result, xTimeOut, xTicksToWait, inherited, q, k) \<leftarrow>
               block_pass must_block before_block event_list env xTimeOut xTicksToWait inherited q k;
             let ended = (result = Timed_Out \<and> gives_up q);
             let (q, k) = (if result = Timed_Out then after_timeout env (q, k) else (q, k));
             if ended then do {
               k \<leftarrow> at_end inherited q k;
               Some (Failed, False, q, k) }
             else wait_loop now must_block before_block event_list gives_up at_end envs (Some xTimeOut) xTicksToWait inherited q k }) }"

declare wait_loop.simps [simp del]

definition no_inheritance :: "queue \<Rightarrow> kernel \<Rightarrow> bool \<times> kernel" where "no_inheritance q k = (False, k)"

definition nothing_to_undo :: "bool \<Rightarrow> queue \<Rightarrow> kernel \<Rightarrow> kernel option" where "nothing_to_undo inherited q k = Some k"

text \<open>Waiting with the scheduler suspended is forbidden.\<close>

definition may_wait :: "u32 \<Rightarrow> kernel \<Rightarrow> bool" where
  "may_wait xTicksToWait k \<longleftrightarrow> \<not> (uxSchedulerSuspended k \<noteq> 0 \<and> xTicksToWait \<noteq> 0)"

section \<open>The operations of tasks\<close>

text \<open>A null pointer is \<open>None\<close>. The result of an operation: how it ended, whether it asks for a yield, the queue, the kernel.\<close>

definition xQueueGenericSend ::
    "u8 list option \<Rightarrow> u32 \<Rightarrow> copy_position \<Rightarrow> pass_env list \<Rightarrow> queue \<Rightarrow> kernel \<Rightarrow> (unit outcome \<times> bool \<times> queue \<times> kernel) option" where
  "xQueueGenericSend pvItemToQueue xTicksToWait xCopyPosition envs q k =
     (if \<not> (pvItemToQueue = None \<and> uxItemSize q \<noteq> 0) \<and> \<not> (xCopyPosition = queueOVERWRITE \<and> uxLength q \<noteq> 1) \<and> may_wait xTicksToWait k
      then wait_loop (send_now (case pvItemToQueue of None \<Rightarrow> [] | Some x \<Rightarrow> x) xCopyPosition) prvIsQueueFull no_inheritance xTasksWaitingToSend
             (\<lambda>_. True) nothing_to_undo envs None xTicksToWait False q k
      else None)"

definition xQueueReceive :: "u32 \<Rightarrow> pass_env list \<Rightarrow> queue \<Rightarrow> kernel \<Rightarrow> (u8 list outcome \<times> bool \<times> queue \<times> kernel) option" where
  "xQueueReceive xTicksToWait envs q k =
     (if may_wait xTicksToWait k
      then wait_loop receive_now prvIsQueueEmpty no_inheritance xTasksWaitingToReceive prvIsQueueEmpty nothing_to_undo envs None xTicksToWait False q k
      else None)"

definition xQueuePeek :: "u32 \<Rightarrow> pass_env list \<Rightarrow> queue \<Rightarrow> kernel \<Rightarrow> (u8 list outcome \<times> bool \<times> queue \<times> kernel) option" where
  "xQueuePeek xTicksToWait envs q k =
     (if may_wait xTicksToWait k
      then wait_loop peek_now prvIsQueueEmpty no_inheritance xTasksWaitingToReceive prvIsQueueEmpty nothing_to_undo envs None xTicksToWait False q k
      else None)"

definition prvGetHighestPriorityOfWaitToReceiveList :: "queue \<Rightarrow> kernel \<Rightarrow> nat" where
  "prvGetHighestPriorityOfWaitToReceiveList q k =
     (case xEventLists k (xTasksWaitingToReceive q) of
        [] \<Rightarrow> 0 | t # _ \<Rightarrow> unat (of_nat configMAX_PRIORITIES - xEventItemValue (tcbs k t)))"

definition take_inherit :: "queue \<Rightarrow> kernel \<Rightarrow> bool \<times> kernel" where
  "take_inherit q k = (if is_mutex q then xTaskPriorityInherit (xMutexHolder q) k else (False, k))"

definition take_timed_out :: "bool \<Rightarrow> queue \<Rightarrow> kernel \<Rightarrow> kernel option" where
  "take_timed_out inherited q k =
     (if inherited then vTaskPriorityDisinheritAfterTimeout (xMutexHolder q) (prvGetHighestPriorityOfWaitToReceiveList q k) k else Some k)"

definition xQueueSemaphoreTake :: "u32 \<Rightarrow> pass_env list \<Rightarrow> queue \<Rightarrow> kernel \<Rightarrow> (unit outcome \<times> bool \<times> queue \<times> kernel) option" where
  "xQueueSemaphoreTake xTicksToWait envs q k =
     (if uxItemSize q = 0 \<and> may_wait xTicksToWait k
      then wait_loop take_now prvIsQueueEmpty take_inherit xTasksWaitingToReceive prvIsQueueEmpty take_timed_out envs None xTicksToWait False q k
      else None)"

section \<open>Mutexes\<close>

definition prvInitialiseMutex :: "queue \<Rightarrow> kernel \<Rightarrow> (queue \<times> kernel) option" where
  "prvInitialiseMutex q k = do {
     let q = q\<lparr>xMutexHolder := 0, is_mutex := True, uxRecursiveCallCount := 0\<rparr>;
     (_, _, q, k) \<leftarrow> xQueueGenericSend None 0 queueSEND_TO_BACK [] q k;
     Some (q, k) }"

definition xQueueCreateMutex :: "nat \<Rightarrow> nat \<Rightarrow> (nat \<Rightarrow> u8 list) \<Rightarrow> u8 \<Rightarrow> heap4 \<Rightarrow> kernel \<Rightarrow> (nat \<times> queue option \<times> heap4 \<times> kernel) option" where
  "xQueueCreateMutex ucHeap heap_size memory queueType heap k = do {
     (h, q, heap, k) \<leftarrow> xQueueGenericCreate ucHeap heap_size memory 1 0 queueType heap k;
     case q of None \<Rightarrow> Some (h, None, heap, k)
     | Some q \<Rightarrow> do { (q, k) \<leftarrow> prvInitialiseMutex q k; Some (h, Some q, heap, k) } }"

definition xQueueGetMutexHolder :: "queue \<Rightarrow> nat" where
  "xQueueGetMutexHolder q = (if is_mutex q then xMutexHolder q else 0)"

text \<open>The result of giving: \<^verbatim>\<open>pdPASS\<close> or not, whether a yield is due, the queue and the kernel.\<close>

definition xQueueGiveMutexRecursive :: "queue \<Rightarrow> kernel \<Rightarrow> (bool \<times> bool \<times> queue \<times> kernel) option" where
  "xQueueGiveMutexRecursive q k =
     (if xMutexHolder q = pxCurrentTCB k then
        let q = q\<lparr>uxRecursiveCallCount := (uxRecursiveCallCount q + (2 ^ 32 - 1)) mod 2 ^ 32\<rparr>
        in if uxRecursiveCallCount q = 0 then do {
             (_, yield, q, k) \<leftarrow> xQueueGenericSend None 0 queueSEND_TO_BACK [] q k;
             Some (True, yield, q, k) }
           else Some (True, False, q, k)
      else Some (False, False, q, k))"

definition xQueueTakeMutexRecursive :: "u32 \<Rightarrow> pass_env list \<Rightarrow> queue \<Rightarrow> kernel \<Rightarrow> (unit outcome \<times> bool \<times> queue \<times> kernel) option" where
  "xQueueTakeMutexRecursive xTicksToWait envs q k =
     (if xMutexHolder q = pxCurrentTCB k then
        Some (Returned (), False, q\<lparr>uxRecursiveCallCount := (uxRecursiveCallCount q + 1) mod 2 ^ 32\<rparr>, k)
      else do {
        (r, yield, q, k) \<leftarrow> xQueueSemaphoreTake xTicksToWait envs q k;
        Some (r, yield, if r = Returned () then q\<lparr>uxRecursiveCallCount := (uxRecursiveCallCount q + 1) mod 2 ^ 32\<rparr> else q, k) })"

section \<open>The operations of interrupts\<close>

text \<open>The result: \<^verbatim>\<open>pdPASS\<close> or not, whether a task of higher priority was woken, the queue and the kernel.\<close>

definition xQueueGenericSendFromISR ::
    "u8 list option \<Rightarrow> copy_position \<Rightarrow> queue \<Rightarrow> kernel \<Rightarrow> (bool \<times> bool \<times> queue \<times> kernel) option" where
  "xQueueGenericSendFromISR pvItemToQueue xCopyPosition q k =
     (if \<not> (pvItemToQueue = None \<and> uxItemSize q \<noteq> 0) \<and> \<not> (xCopyPosition = queueOVERWRITE \<and> uxLength q \<noteq> 1) then
        if uxMessagesWaiting q < uxLength q \<or> xCopyPosition = queueOVERWRITE then do {
          (_, q, k) \<leftarrow> prvCopyDataToQueue (case pvItemToQueue of None \<Rightarrow> [] | Some x \<Rightarrow> x) xCopyPosition q k;
          if cTxLock q = queueUNLOCKED then do {
            (woken, k) \<leftarrow> wake_waiting (xTasksWaitingToReceive q) k;
            Some (True, woken, q, k) }
          else do { q \<leftarrow> prvIncrementQueueTxLock q k; Some (True, False, q, k) } }
        else Some (False, False, q, k)
      else None)"

definition xQueueGiveFromISR :: "queue \<Rightarrow> kernel \<Rightarrow> (bool \<times> bool \<times> queue \<times> kernel) option" where
  "xQueueGiveFromISR q k =
     (if uxItemSize q = 0 \<and> \<not> (is_mutex q \<and> xMutexHolder q \<noteq> 0) then
        if uxMessagesWaiting q < uxLength q then
          let q = q\<lparr>uxMessagesWaiting := uxMessagesWaiting q + 1\<rparr>
          in if cTxLock q = queueUNLOCKED then do {
               (woken, k) \<leftarrow> wake_waiting (xTasksWaitingToReceive q) k;
               Some (True, woken, q, k) }
             else do { q \<leftarrow> prvIncrementQueueTxLock q k; Some (True, False, q, k) }
        else Some (False, False, q, k)
      else None)"

text \<open>Receiving also gives the item.\<close>

definition xQueueReceiveFromISR :: "queue \<Rightarrow> kernel \<Rightarrow> (u8 list option \<times> bool \<times> queue \<times> kernel) option" where
  "xQueueReceiveFromISR q k =
     (if uxMessagesWaiting q > 0 then do {
        let n = uxMessagesWaiting q;
        let (pvBuffer, q) = prvCopyDataFromQueue q;
        let q = q\<lparr>uxMessagesWaiting := n - 1\<rparr>;
        if cRxLock q = queueUNLOCKED then do {
          (woken, k) \<leftarrow> wake_waiting (xTasksWaitingToSend q) k;
          Some (Some pvBuffer, woken, q, k) }
        else do { q \<leftarrow> prvIncrementQueueRxLock q k; Some (Some pvBuffer, False, q, k) } }
      else Some (None, False, q, k))"

definition xQueuePeekFromISR :: "queue \<Rightarrow> (u8 list option \<times> queue) option" where
  "xQueuePeekFromISR q =
     (if uxItemSize q \<noteq> 0 then
        if uxMessagesWaiting q > 0 then
          let pcOriginalReadPosition = pcReadFrom q;
              (pvBuffer, q) = prvCopyDataFromQueue q
          in Some (Some pvBuffer, q\<lparr>pcReadFrom := pcOriginalReadPosition\<rparr>)
        else Some (None, q)
      else None)"

section \<open>The timer task, the registry and deletion\<close>

definition uxQueueGetQueueNumber :: "queue \<Rightarrow> nat" where "uxQueueGetQueueNumber q = uxQueueNumber q"

definition vQueueSetQueueNumber :: "nat \<Rightarrow> queue \<Rightarrow> queue" where "vQueueSetQueueNumber n q = q\<lparr>uxQueueNumber := n\<rparr>"

definition ucQueueGetQueueType :: "queue \<Rightarrow> u8" where "ucQueueGetQueueType q = ucQueueType q"

definition uxQueueGetQueueItemSize :: "queue \<Rightarrow> nat" where "uxQueueGetQueueItemSize q = uxItemSize q"

definition uxQueueGetQueueLength :: "queue \<Rightarrow> nat" where "uxQueueGetQueueLength q = uxLength q"

text \<open>The timer task calls this with the scheduler suspended; the interrupts are those of a pass.\<close>

definition vQueueWaitForMessageRestricted :: "u32 \<Rightarrow> bool \<Rightarrow> pass_env \<Rightarrow> queue \<Rightarrow> kernel \<Rightarrow> (queue \<times> kernel) option" where
  "vQueueWaitForMessageRestricted xTicksToWait xWaitIndefinitely env q k =
     (let q = prvLockQueue q;
          (q, k) = isr_locked env (q, k);
          empty = (uxMessagesWaiting q = 0);
          (q, k) = isr_tested env (q, k);
          k = (if empty then vTaskPlaceOnEventListRestricted (xTasksWaitingToReceive q) xTicksToWait xWaitIndefinitely k else k);
          (q, k) = isr_listed env (q, k)
      in prvUnlockQueue (isr_unlocking env) q k)"

text \<open>An entry of the registry is a name and a handle; \<open>None\<close> is the null name, \<open>0\<close> the null handle.\<close>

type_synonym registry = "(string option \<times> nat) list"

definition configQUEUE_REGISTRY_SIZE :: nat where "configQUEUE_REGISTRY_SIZE = 8"

text \<open>The entry to write: the one of the queue if there is one, else the first that is free.\<close>

fun registry_entry :: "nat \<Rightarrow> nat \<Rightarrow> nat option \<Rightarrow> registry \<Rightarrow> nat option" where
  "registry_entry xQueue ux entry [] = entry"
| "registry_entry xQueue ux entry ((name, h) # r) =
     (if xQueue = h then Some ux
      else registry_entry xQueue (Suc ux) (if entry = None \<and> name = None then Some ux else entry) r)"

definition vQueueAddToRegistry :: "nat \<Rightarrow> string option \<Rightarrow> registry \<Rightarrow> registry option" where
  "vQueueAddToRegistry xQueue pcQueueName r =
     (if xQueue = 0 then None
      else Some (case pcQueueName of None \<Rightarrow> r
        | Some s \<Rightarrow> (case registry_entry xQueue 0 None r of None \<Rightarrow> r | Some ux \<Rightarrow> r[ux := (Some s, xQueue)])))"

fun registry_name :: "nat \<Rightarrow> registry \<Rightarrow> string option" where
  "registry_name xQueue [] = None"
| "registry_name xQueue ((name, h) # r) = (if h = xQueue then name else registry_name xQueue r)"

definition pcQueueGetName :: "nat \<Rightarrow> registry \<Rightarrow> string option option" where
  "pcQueueGetName xQueue r = (if xQueue = 0 then None else Some (registry_name xQueue r))"

fun registry_remove :: "nat \<Rightarrow> registry \<Rightarrow> registry" where
  "registry_remove xQueue [] = []"
| "registry_remove xQueue ((name, h) # r) = (if h = xQueue then (None, 0) # r else (name, h) # registry_remove xQueue r)"

definition vQueueUnregisterQueue :: "nat \<Rightarrow> registry \<Rightarrow> registry option" where
  "vQueueUnregisterQueue xQueue r = (if xQueue = 0 then None else Some (registry_remove xQueue r))"

definition vQueueDelete :: "nat \<Rightarrow> nat \<Rightarrow> nat \<Rightarrow> registry \<Rightarrow> heap4 \<Rightarrow> (registry \<times> heap4) option" where
  "vQueueDelete ucHeap heap_size xQueue r heap = do {
     r \<leftarrow> vQueueUnregisterQueue xQueue r;
     heap \<leftarrow> vPortFree ucHeap heap_size xQueue heap;
     Some (r, heap) }"

end
