(* ===== verification/QueueFifo.thy ===== *)
theory QueueFifo
  imports RtosQueue
begin

text \<open>
  A queue as a sequence. The storage of a queue is a ring of slots; the items from the read position on are the
  sequence that the queue stands for. Sending to the back, to the front, overwriting, receiving and peeking are the
  operations on sequences, and the counts stay in their bounds.
\<close>

section \<open>Slots\<close>

definition slot :: "nat \<Rightarrow> 'a list \<Rightarrow> nat \<Rightarrow> 'a list" where
  "slot s xs i = take s (drop (i * s) xs)"

lemma slot_bound: "i < n \<Longrightarrow> i * s + s \<le> n * (s :: nat)"
  using mult_le_mono1 [of "Suc i" n s] by simp

lemma slot_update:
  assumes "length xs = n * s" and "i < n" and "j < n" and "length x = s"
  shows "slot s (take (j * s) xs @ x @ drop (j * s + s) xs) i = (if i = j then x else slot s xs i)"
proof (rule linorder_cases [of i j])
  assume lt: "i < j"
  obtain d where d: "j * s = i * s + s + d" using slot_bound [OF lt, of s] le_Suc_ex by blast
  have "take s (drop a (take (a + s + d) xs @ y)) = take s (drop a xs)" if "a + s + d \<le> length xs" for a y
    using that by (simp add: drop_take)
  moreover have "i * s + s + d \<le> length xs" using slot_bound [OF assms(3), of s] d assms(1) by linarith
  ultimately have "take s (drop (i * s) (take (j * s) xs @ x @ drop (j * s + s) xs)) = take s (drop (i * s) xs)" unfolding d by blast
  then show ?thesis using lt by (simp add: slot_def)
next
  assume e: "i = j"
  have "take s (drop a (take a xs @ x @ y)) = x" if "a \<le> length xs" for a y using that assms(4) by simp
  moreover have "j * s \<le> length xs" using slot_bound [OF assms(3), of s] assms(1) by linarith
  ultimately show ?thesis using e by (simp add: slot_def)
next
  assume gt: "j < i"
  obtain d where d: "i * s = j * s + s + d" using slot_bound [OF gt, of s] le_Suc_ex by blast
  have "drop (a + s + d) (take a xs @ x @ drop (a + s) xs) = drop (a + s + d) xs" if "a \<le> length xs" for a
    using that assms(4) by (simp add: add.commute)
  moreover have "j * s \<le> length xs" using slot_bound [OF assms(3), of s] assms(1) by linarith
  ultimately have "drop (i * s) (take (j * s) xs @ x @ drop (j * s + s) xs) = drop (i * s) xs" unfolding d by blast
  then show ?thesis using gt by (simp add: slot_def)
qed

lemma length_slot: "length xs = n * s \<Longrightarrow> i < n \<Longrightarrow> length (slot s xs i) = s"
  using slot_bound [of i n s] by (simp add: slot_def)

lemma ring_distinct:
  fixes a :: nat
  assumes "(a + i) mod n = (a + j) mod n" and "i < n" and "j < n"
  shows "i = j"
proof -
  have le: "u = v" if "u \<le> v" "(a + u) mod n = (a + v) mod n" "v < n" for u v
  proof -
    have "n dvd (a + v) - (a + u)" using that(1,2) by (metis add_le_cancel_left mod_eq_dvd_iff_nat)
    then have "n dvd v - u" by simp
    then show ?thesis using that(1,3) by (auto dest: dvd_imp_le)
  qed
  show ?thesis using le [of i j] le [of j i] assms by (cases "i \<le> j") auto
qed

section \<open>The invariant of a queue and the sequence in it\<close>

text \<open>\<open>ring_at w r q\<close>: the next slot to write is \<open>w\<close>, the slot read last is \<open>r\<close>.\<close>

definition ring_at :: "nat \<Rightarrow> nat \<Rightarrow> queue \<Rightarrow> bool" where
  "ring_at w r q \<longleftrightarrow> 0 < uxItemSize q \<and> uxLength q < 2 ^ 32 \<and> uxLength q * uxItemSize q < 2 ^ 32 \<and> \<not> is_mutex q \<and>
     length (pcHead q) = uxLength q * uxItemSize q \<and> pcTail q = uxLength q * uxItemSize q \<and>
     pcWriteTo q = w * uxItemSize q \<and> pcReadFrom q = int (r * uxItemSize q) \<and> r < uxLength q \<and>
     w = (r + 1 + uxMessagesWaiting q) mod uxLength q \<and> uxMessagesWaiting q \<le> uxLength q"

definition queue_ok :: "queue \<Rightarrow> bool" where "queue_ok q \<longleftrightarrow> (\<exists>w r. ring_at w r q)"

definition contents :: "queue \<Rightarrow> u8 list list" where
  "contents q = map (\<lambda>i. slot (uxItemSize q) (pcHead q) ((nat (pcReadFrom q) div uxItemSize q + 1 + i) mod uxLength q)) [0..<uxMessagesWaiting q]"

lemma contents_at:
  "ring_at w r q \<Longrightarrow> contents q = map (\<lambda>i. slot (uxItemSize q) (pcHead q) ((r + 1 + i) mod uxLength q)) [0..<uxMessagesWaiting q]"
  by (simp add: contents_def ring_at_def nat_mult_distrib)

lemma length_contents: "length (contents q) = uxMessagesWaiting q"
  by (simp add: contents_def)

lemma send_back:
  assumes "ring_at w r q" and "uxMessagesWaiting q < uxLength q" and "length x = uxItemSize q"
  shows "\<exists>q'. prvCopyDataToQueue x queueSEND_TO_BACK q k = Some (False, q', k) \<and>
    ring_at ((w + 1) mod uxLength q) r q' \<and> contents q' = contents q @ [x] \<and>
    q' = q\<lparr>pcHead := pcHead q', pcWriteTo := pcWriteTo q', uxMessagesWaiting := uxMessagesWaiting q + 1\<rparr>"
proof -
  let ?s = "uxItemSize q" and ?n = "uxLength q" and ?m = "uxMessagesWaiting q"
  have q: "0 < ?s" "?n < 2 ^ 32" "\<not> is_mutex q" "length (pcHead q) = ?n * ?s" "pcTail q = ?n * ?s" "pcWriteTo q = w * ?s"
    "pcReadFrom q = int (r * ?s)" "r < ?n" "w = (r + 1 + ?m) mod ?n" "?n * ?s < 2 ^ 32"
    using assms(1) by (simp_all add: ring_at_def)
  have w: "w < ?n" using q(8,9) by simp
  let ?xs = "take (w * ?s) (pcHead q) @ x @ drop (w * ?s + ?s) (pcHead q)"
  define w' where "w' = (if w + 1 \<ge> ?n then 0 else w + 1)"
  define q' where "q' = q\<lparr>pcHead := ?xs, pcWriteTo := w' * ?s, uxMessagesWaiting := ?m + 1\<rparr>"
  have wrap: "w * ?s + ?s \<ge> ?n * ?s \<longleftrightarrow> w + 1 \<ge> ?n"
    using mult_le_cancel2 [of ?n ?s "Suc w"] q(1) by (simp add: algebra_simps)
  have w': "w' = (w + 1) mod ?n" using w by (cases "w + 1 = ?n") (auto simp: w'_def)
  have len: "length ?xs = ?n * ?s"
    using mult_le_mono1 [of "Suc w" ?n ?s] w q(4) assms(3) by simp
  have bound: "(?m + 1) mod 2 ^ 32 = ?m + 1" using assms(2) q(2) by simp
  have "prvCopyDataToQueue x queueSEND_TO_BACK q k = Some (False, q', k)"
    using q(1,5,6) assms(3) wrap bound by (simp add: prvCopyDataToQueue_def write_item_def Let_def q'_def w'_def)
  moreover have at': "ring_at w' r q'"
    using q len w' assms(2) by (simp add: ring_at_def q'_def mod_Suc_eq)
  moreover have "contents q' = contents q @ [x]"
  proof -
    have sl: "slot ?s ?xs i = (if i = w then x else slot ?s (pcHead q) i)" if "i < ?n" for i
      by (rule slot_update [OF q(4) that w assms(3)])
    have "slot ?s ?xs ((r + 1 + i) mod ?n) = slot ?s (pcHead q) ((r + 1 + i) mod ?n)" if "i < ?m" for i
    proof -
      have "(r + 1 + i) mod ?n \<noteq> w" using ring_distinct [of "r + 1" i ?n ?m] that assms(2) q(9) by auto
      then show ?thesis using sl q(8) by simp
    qed
    moreover have "slot ?s ?xs ((r + 1 + ?m) mod ?n) = x" using sl [of w] w q(9) by simp
    ultimately show ?thesis
      unfolding contents_at [OF at'] contents_at [OF assms(1)] by (simp add: q'_def)
  qed
  moreover have "q' = q\<lparr>pcHead := pcHead q', pcWriteTo := pcWriteTo q', uxMessagesWaiting := ?m + 1\<rparr>" by (simp add: q'_def)
  ultimately show ?thesis using w' by blast
qed

lemma send_front:
  assumes "ring_at w r q" and "uxMessagesWaiting q < uxLength q" and "length x = uxItemSize q"
  shows "\<exists>q' r'. prvCopyDataToQueue x queueSEND_TO_FRONT q k = Some (False, q', k) \<and>
    ring_at w r' q' \<and> contents q' = x # contents q \<and>
    q' = q\<lparr>pcHead := pcHead q', pcReadFrom := pcReadFrom q', uxMessagesWaiting := uxMessagesWaiting q + 1\<rparr>"
proof -
  let ?s = "uxItemSize q" and ?n = "uxLength q" and ?m = "uxMessagesWaiting q"
  have q: "0 < ?s" "?n < 2 ^ 32" "\<not> is_mutex q" "length (pcHead q) = ?n * ?s" "pcTail q = ?n * ?s" "pcWriteTo q = w * ?s"
    "pcReadFrom q = int (r * ?s)" "r < ?n" "w = (r + 1 + ?m) mod ?n" "?n * ?s < 2 ^ 32"
    using assms(1) by (simp_all add: ring_at_def)
  let ?xs = "take (r * ?s) (pcHead q) @ x @ drop (r * ?s + ?s) (pcHead q)"
  define r' where "r' = (if r = 0 then ?n - 1 else r - 1)"
  define q' where "q' = q\<lparr>pcHead := ?xs, pcReadFrom := int (r' * ?s), uxMessagesWaiting := ?m + 1\<rparr>"
  have step: "(if int (r * ?s) - int ?s < 0 then int (?n * ?s) - int ?s else int (r * ?s) - int ?s) = int (r' * ?s)"
  proof (cases r)
    case 0
    then obtain d where "?n = Suc d" using q(8) by (cases ?n) auto
    then show ?thesis using 0 q(1) by (simp add: r'_def algebra_simps)
  next
    case (Suc d)
    then have "int (r * ?s) - int ?s = int (r' * ?s)" by (simp add: r'_def algebra_simps)
    then show ?thesis by (simp only: of_nat_less_0_iff if_False)
  qed
  have r': "r' < ?n" "(r' + 1 + i) mod ?n = (r + i) mod ?n" for i
    using q(8) by (auto simp: r'_def)
  have len: "length ?xs = ?n * ?s" using slot_bound [OF q(8), of ?s] q(4) assms(3) by simp
  have bound: "(?m + 1) mod 2 ^ 32 = ?m + 1" using assms(2) q(2) by simp
  have "prvCopyDataToQueue x queueSEND_TO_FRONT q k = Some (False, q', k)"
    using q(1,5,7) assms(3) step bound by (simp add: prvCopyDataToQueue_def write_item_def Let_def q'_def nat_mult_distrib split: if_splits)
  moreover have at': "ring_at w r' q'"
    using q len r'(1) r'(2) [of "?m + 1"] assms(2) by (simp add: ring_at_def q'_def)
  moreover have "contents q' = x # contents q"
  proof -
    have sl: "slot ?s ?xs i = (if i = r then x else slot ?s (pcHead q) i)" if "i < ?n" for i
      by (rule slot_update [OF q(4) that q(8) assms(3)])
    have "slot ?s ?xs ((r' + 1 + (i + 1)) mod ?n) = slot ?s (pcHead q) ((r + 1 + i) mod ?n)" if "i < ?m" for i
    proof -
      have "(r + (i + 1)) mod ?n \<noteq> (r + 0) mod ?n" using ring_distinct [of r "i + 1" ?n 0] that assms(2) by auto
      then have "(r + 1 + i) mod ?n \<noteq> r" using q(8) by simp
      then show ?thesis using sl [of "(r + 1 + i) mod ?n"] q(8) r'(2) [of "i + 1"] by simp
    qed
    moreover have "slot ?s ?xs ((r' + 1 + 0) mod ?n) = x" using sl [of r] q(8) r'(2) [of 0] by simp
    moreover have "contents q' = map (\<lambda>i. slot ?s ?xs ((r' + 1 + i) mod ?n)) (0 # map Suc [0..<?m])"
      unfolding contents_at [OF at'] by (simp add: q'_def map_Suc_upt upt_conv_Cons del: upt_Suc)
    ultimately show ?thesis unfolding contents_at [OF assms(1)] by simp
  qed
  moreover have "q' = q\<lparr>pcHead := pcHead q', pcReadFrom := pcReadFrom q', uxMessagesWaiting := ?m + 1\<rparr>" by (simp add: q'_def)
  ultimately show ?thesis by blast
qed

text \<open>Overwriting is for queues of one item.\<close>

lemma overwrite:
  assumes "ring_at w r q" and "uxLength q = 1" and "length x = uxItemSize q"
  shows "\<exists>q'. prvCopyDataToQueue x queueOVERWRITE q k = Some (False, q', k) \<and> ring_at w r q' \<and> contents q' = [x] \<and>
    q' = q\<lparr>pcHead := x, uxMessagesWaiting := 1\<rparr>"
proof -
  have q: "0 < uxItemSize q" "\<not> is_mutex q" "length (pcHead q) = uxItemSize q" "pcTail q = uxItemSize q" "pcWriteTo q = 0"
    "pcReadFrom q = 0" "r = 0" "w = 0" "uxMessagesWaiting q \<le> 1" "uxItemSize q < 2 ^ 32"
    using assms(1,2) by (simp_all add: ring_at_def)
  let ?q = "q\<lparr>pcHead := x, uxMessagesWaiting := 1\<rparr>"
  have "prvCopyDataToQueue x queueOVERWRITE q k = Some (False, ?q, k)"
    using q assms(3) by (cases "uxMessagesWaiting q") (simp_all add: prvCopyDataToQueue_def write_item_def Let_def)
  moreover have at': "ring_at w r ?q" using q assms by (simp add: ring_at_def)
  moreover have "contents ?q = [x]" unfolding contents_at [OF at'] using q assms(2,3) by (simp add: slot_def)
  ultimately show ?thesis by auto
qed

text \<open>Receiving moves the read position to the oldest item and copies it.\<close>

lemma copy_from:
  assumes "ring_at w r q" and "0 < uxMessagesWaiting q"
  shows "\<exists>q' x. prvCopyDataFromQueue q = (x, q') \<and> contents q = x # tl (contents q) \<and>
    ring_at w ((r + 1) mod uxLength q) (q'\<lparr>uxMessagesWaiting := uxMessagesWaiting q - 1\<rparr>) \<and>
    contents (q'\<lparr>uxMessagesWaiting := uxMessagesWaiting q - 1\<rparr>) = tl (contents q) \<and>
    q' = q\<lparr>pcReadFrom := pcReadFrom q'\<rparr>"
proof -
  let ?s = "uxItemSize q" and ?n = "uxLength q"
  obtain m where m: "uxMessagesWaiting q = Suc m" using assms(2) by (cases "uxMessagesWaiting q") auto
  have q: "0 < ?s" "length (pcHead q) = ?n * ?s" "pcTail q = ?n * ?s" "pcReadFrom q = int (r * ?s)" "r < ?n" "w = (r + 1 + Suc m) mod ?n"
    "Suc m \<le> ?n" "?n < 2 ^ 32" "\<not> is_mutex q" "pcWriteTo q = w * ?s" "?n * ?s < 2 ^ 32"
    using assms(1) m by (simp_all add: ring_at_def)
  let ?r = "(r + 1) mod ?n"
  define q' where "q' = q\<lparr>pcReadFrom := int (?r * ?s)\<rparr>"
  have step: "(if int (r * ?s) + int ?s \<ge> int (?n * ?s) then 0 else int (r * ?s) + int ?s) = int (?r * ?s)"
  proof (cases "r + 1 = ?n")
    case True
    then have "int (r * ?s) + int ?s = int (?n * ?s)" by (metis add_mult_distrib mult_1 of_nat_add)
    then show ?thesis using True by simp
  next
    case False
    then have lt: "r + 1 < ?n" using q(5) by simp
    have "r * ?s + ?s < ?n * ?s" using mult_less_mono1 [OF lt q(1)] by simp
    then have "\<not> int (?n * ?s) \<le> int (r * ?s) + int ?s" by (metis not_less of_nat_add of_nat_less_iff)
    moreover have "int (r * ?s) + int ?s = int (?r * ?s)" using lt by (simp add: algebra_simps)
    ultimately show ?thesis by (simp only: if_False)
  qed
  have c: "prvCopyDataFromQueue q = (slot ?s (pcHead q) ?r, q')"
    using q(1,3,4) step by (simp add: prvCopyDataFromQueue_def Let_def q'_def read_item_def slot_def nat_mult_distrib split: if_splits)
  let ?q = "q'\<lparr>uxMessagesWaiting := uxMessagesWaiting q - 1\<rparr>"
  have next': "(?r + 1 + i) mod ?n = (r + 1 + (i + 1)) mod ?n" for i
    using mod_add_left_eq [of "r + 1" ?n "1 + i"] by (simp only: add.assoc add.commute add.left_commute)
  have at': "ring_at w ?r ?q"
    using q m next' [of m] by (simp add: ring_at_def q'_def)
  have "contents q = map (\<lambda>i. slot ?s (pcHead q) ((r + 1 + i) mod ?n)) (0 # map Suc [0..<m])"
    unfolding contents_at [OF assms(1)] m by (simp add: map_Suc_upt upt_conv_Cons del: upt_Suc)
  moreover have "contents ?q = map (\<lambda>i. slot ?s (pcHead q) ((r + 1 + (i + 1)) mod ?n)) [0..<m]"
    unfolding contents_at [OF at'] using next' by (simp add: q'_def m)
  ultimately have "contents q = slot ?s (pcHead q) ?r # contents ?q" by simp
  then show ?thesis using c at' by (intro exI [of _ q'] exI [of _ "slot ?s (pcHead q) ?r"]) (simp add: q'_def)
qed

section \<open>Operations without waiting\<close>

text \<open>Waking a waiting task always succeeds, and leaves the number of tasks alone.\<close>

lemma remove_from_event_list:
  "xEventLists k e \<noteq> [] \<Longrightarrow> \<exists>y k'. xTaskRemoveFromEventList e k = Some (y, k') \<and> uxCurrentNumberOfTasks k' = uxCurrentNumberOfTasks k"
proof -
  have sel: "uxCurrentNumberOfTasks (set_tcb t f k) = uxCurrentNumberOfTasks k" for t f k by (simp add: set_tcb_def)
  have "uxCurrentNumberOfTasks (remove_event_item t k) = uxCurrentNumberOfTasks k"
    "uxCurrentNumberOfTasks (remove_state_item t k) = uxCurrentNumberOfTasks k"
    "uxCurrentNumberOfTasks (prvAddTaskToReadyList t k) = uxCurrentNumberOfTasks k" for t k
    by (simp_all add: remove_event_item_def remove_state_item_def prvAddTaskToReadyList_def taskRECORD_READY_PRIORITY_def Let_def sel
          split: event_place.split state_place.split)
  then show "xEventLists k e \<noteq> [] \<Longrightarrow> ?thesis"
    by (cases "xEventLists k e") (auto simp: xTaskRemoveFromEventList_def Let_def sel)
qed

lemma wake_waiting_ok: "\<exists>y k'. wake_waiting e k = Some (y, k') \<and> uxCurrentNumberOfTasks k' = uxCurrentNumberOfTasks k"
  using remove_from_event_list [of k e] by (auto simp: wake_waiting_def)

datatype queue_op = Send "u8 list" copy_position | Send_From_ISR "u8 list" copy_position | Receive | Receive_From_ISR | Peek | Peek_From_ISR | Reset

datatype op_result = Done | Refused | Item "u8 list"

definition sent :: "unit outcome \<Rightarrow> op_result" where "sent r = (if r = Returned () then Done else Refused)"

definition received :: "u8 list outcome \<Rightarrow> op_result" where "received r = (case r of Returned x \<Rightarrow> Item x | _ \<Rightarrow> Refused)"

text \<open>An operation of a task that is not willing to wait, or of an interrupt.\<close>

definition queue_step :: "queue_op \<Rightarrow> queue \<times> kernel \<Rightarrow> (op_result \<times> queue \<times> kernel) option" where
  "queue_step op = (\<lambda>(q, k). case op of
     Send x p \<Rightarrow> map_option (\<lambda>(r, _, s). (sent r, s)) (xQueueGenericSend (Some x) 0 p [] q k)
   | Send_From_ISR x p \<Rightarrow> map_option (\<lambda>(r, _, s). (if r then Done else Refused, s)) (xQueueGenericSendFromISR (Some x) p q k)
   | Receive \<Rightarrow> map_option (\<lambda>(r, _, s). (received r, s)) (xQueueReceive 0 [] q k)
   | Receive_From_ISR \<Rightarrow> map_option (\<lambda>(r, _, s). (case r of None \<Rightarrow> Refused | Some x \<Rightarrow> Item x, s)) (xQueueReceiveFromISR q k)
   | Peek \<Rightarrow> map_option (\<lambda>(r, _, s). (received r, s)) (xQueuePeek 0 [] q k)
   | Peek_From_ISR \<Rightarrow> map_option (\<lambda>(r, q). (case r of None \<Rightarrow> Refused | Some x \<Rightarrow> Item x, q, k)) (xQueuePeekFromISR q)
   | Reset \<Rightarrow> map_option (\<lambda>(_, s). (Done, s)) (xQueueGenericReset False q k))"

text \<open>The operations on a sequence of at most \<open>n\<close> items.\<close>

definition list_send :: "nat \<Rightarrow> 'a \<Rightarrow> copy_position \<Rightarrow> 'a list \<Rightarrow> bool \<times> 'a list" where
  "list_send n x p xs =
     (case p of
        queueOVERWRITE \<Rightarrow> (True, [x])
      | queueSEND_TO_BACK \<Rightarrow> if List.length xs < n then (True, xs @ [x]) else (False, xs)
      | queueSEND_TO_FRONT \<Rightarrow> if List.length xs < n then (True, x # xs) else (False, xs))"

definition list_step :: "nat \<Rightarrow> queue_op \<Rightarrow> u8 list list \<Rightarrow> op_result \<times> u8 list list" where
  "list_step n op xs =
     (let send = (\<lambda>x p. let (b, ys) = list_send n x p xs in (if b then Done else Refused, ys));
          receive = (case xs of [] \<Rightarrow> (Refused, []) | x # ys \<Rightarrow> (Item x, ys));
          peek = (case xs of [] \<Rightarrow> (Refused, []) | x # ys \<Rightarrow> (Item x, xs))
      in case op of
           Send x p \<Rightarrow> send x p | Send_From_ISR x p \<Rightarrow> send x p | Receive \<Rightarrow> receive | Receive_From_ISR \<Rightarrow> receive
         | Peek \<Rightarrow> peek | Peek_From_ISR \<Rightarrow> peek | Reset \<Rightarrow> (Done, []))"

text \<open>An item has the size of the queue's items, and overwriting is for queues of one item.\<close>

definition op_ok :: "nat \<Rightarrow> nat \<Rightarrow> queue_op \<Rightarrow> bool" where
  "op_ok n s op = (case op of Send x p \<Rightarrow> List.length x = s \<and> (p = queueOVERWRITE \<longrightarrow> n = 1)
     | Send_From_ISR x p \<Rightarrow> List.length x = s \<and> (p = queueOVERWRITE \<longrightarrow> n = 1) | _ \<Rightarrow> True)"

lemma copy_to:
  assumes "queue_ok q" and "length x = uxItemSize q" and "p = queueOVERWRITE \<longrightarrow> uxLength q = 1"
    and "uxMessagesWaiting q < uxLength q \<or> p = queueOVERWRITE"
  shows "\<exists>q'. prvCopyDataToQueue x p q k = Some (False, q', k) \<and> queue_ok q' \<and> list_send (uxLength q) x p (contents q) = (True, contents q') \<and>
    uxLength q' = uxLength q \<and> uxItemSize q' = uxItemSize q \<and> cTxLock q' = cTxLock q \<and> cRxLock q' = cRxLock q"
proof -
  obtain w r where at': "ring_at w r q" using assms(1) by (auto simp: queue_ok_def)
  show ?thesis
  proof (cases p)
    case queueSEND_TO_BACK
    then have lt: "uxMessagesWaiting q < uxLength q" using assms(4) by simp
    from send_back [OF at' lt assms(2), of k] obtain q' where "prvCopyDataToQueue x p q k = Some (False, q', k)" "queue_ok q'" "contents q' = contents q @ [x]"
      "q' = q\<lparr>pcHead := pcHead q', pcWriteTo := pcWriteTo q', uxMessagesWaiting := uxMessagesWaiting q + 1\<rparr>"
      unfolding queueSEND_TO_BACK queue_ok_def by blast
    note u = this
    have "uxLength q' = uxLength q" "uxItemSize q' = uxItemSize q" "cTxLock q' = cTxLock q" "cRxLock q' = cRxLock q" by (subst u(4), simp)+
    then show ?thesis using u(1-3) lt queueSEND_TO_BACK by (simp add: list_send_def length_contents)
  next
    case queueSEND_TO_FRONT
    then have lt: "uxMessagesWaiting q < uxLength q" using assms(4) by simp
    from send_front [OF at' lt assms(2), of k] obtain q' where "prvCopyDataToQueue x p q k = Some (False, q', k)" "queue_ok q'" "contents q' = x # contents q"
      "q' = q\<lparr>pcHead := pcHead q', pcReadFrom := pcReadFrom q', uxMessagesWaiting := uxMessagesWaiting q + 1\<rparr>"
      unfolding queueSEND_TO_FRONT queue_ok_def by blast
    note u = this
    have "uxLength q' = uxLength q" "uxItemSize q' = uxItemSize q" "cTxLock q' = cTxLock q" "cRxLock q' = cRxLock q" by (subst u(4), simp)+
    then show ?thesis using u(1-3) lt queueSEND_TO_FRONT by (simp add: list_send_def length_contents)
  next
    case queueOVERWRITE
    then obtain q' where u: "prvCopyDataToQueue x p q k = Some (False, q', k)" "ring_at w r q'" "contents q' = [x]"
      "q' = q\<lparr>pcHead := x, uxMessagesWaiting := 1\<rparr>"
      using overwrite [OF at' _ assms(2), of k] assms(3) by blast
    have "uxLength q' = uxLength q" "uxItemSize q' = uxItemSize q" "cTxLock q' = cTxLock q" "cRxLock q' = cRxLock q" by (subst u(4), simp)+
    then show ?thesis using u(1-3) queueOVERWRITE by (auto simp: list_send_def queue_ok_def)
  qed
qed

lemma lock_update [simp]:
  "contents (q\<lparr>cTxLock := v\<rparr>) = contents q" "contents (q\<lparr>cRxLock := v\<rparr>) = contents q"
  "queue_ok (q\<lparr>cTxLock := v\<rparr>) = queue_ok q" "queue_ok (q\<lparr>cRxLock := v\<rparr>) = queue_ok q"
  by (simp_all add: contents_def queue_ok_def ring_at_def)

lemma increment_locks:
  assumes "uxCurrentNumberOfTasks k \<le> 127"
  shows "\<exists>v. prvIncrementQueueTxLock q k = Some (q\<lparr>cTxLock := v\<rparr>)" "\<exists>v. prvIncrementQueueRxLock q k = Some (q\<lparr>cRxLock := v\<rparr>)"
proof -
  have a: "cTxLock q < int (uxCurrentNumberOfTasks k) \<Longrightarrow> cTxLock q \<noteq> queueINT8_MAX"
    "cRxLock q < int (uxCurrentNumberOfTasks k) \<Longrightarrow> cRxLock q \<noteq> queueINT8_MAX"
    using assms by (simp_all add: queueINT8_MAX_def)
  show "\<exists>v. prvIncrementQueueTxLock q k = Some (q\<lparr>cTxLock := v\<rparr>)"
    using a(1) by (intro exI [of _ "if cTxLock q < int (uxCurrentNumberOfTasks k) then cTxLock q + 1 else cTxLock q"]) (simp add: prvIncrementQueueTxLock_def)
  show "\<exists>v. prvIncrementQueueRxLock q k = Some (q\<lparr>cRxLock := v\<rparr>)"
    using a(2) by (intro exI [of _ "if cRxLock q < int (uxCurrentNumberOfTasks k) then cRxLock q + 1 else cRxLock q"]) (simp add: prvIncrementQueueRxLock_def)
qed

text \<open>Taking the oldest item out, and looking at it.\<close>

lemma take_out:
  assumes "queue_ok q" and "0 < uxMessagesWaiting q"
  shows "\<exists>q' x. prvCopyDataFromQueue q = (x, q') \<and> contents q = x # contents (q'\<lparr>uxMessagesWaiting := uxMessagesWaiting q - 1\<rparr>) \<and>
    queue_ok (q'\<lparr>uxMessagesWaiting := uxMessagesWaiting q - 1\<rparr>) \<and> q' = q\<lparr>pcReadFrom := pcReadFrom q'\<rparr>"
proof -
  obtain w r where "ring_at w r q" using assms(1) by (auto simp: queue_ok_def)
  from copy_from [OF this assms(2)] show ?thesis unfolding queue_ok_def by metis
qed

lemma send_step:
  assumes "queue_ok q" and "length x = uxItemSize q" and "p = queueOVERWRITE \<longrightarrow> uxLength q = 1"
  shows "\<exists>b y q' k'. xQueueGenericSend (Some x) 0 p [] q k = Some (if b then Returned () else Failed, y, q', k') \<and>
    list_send (uxLength q) x p (contents q) = (b, contents q') \<and> queue_ok q' \<and> uxLength q' = uxLength q \<and> uxItemSize q' = uxItemSize q \<and>
    uxCurrentNumberOfTasks k' = uxCurrentNumberOfTasks k"
proof -
  have c: "\<not> (Some x = None \<and> uxItemSize q \<noteq> 0)" "\<not> (p = queueOVERWRITE \<and> uxLength q \<noteq> 1)" "may_wait 0 k"
    using assms(3) by (auto simp: may_wait_def)
  show ?thesis
  proof (cases "uxMessagesWaiting q < uxLength q \<or> p = queueOVERWRITE")
    case True
    obtain q' where u: "prvCopyDataToQueue x p q k = Some (False, q', k)" "queue_ok q'" "list_send (uxLength q) x p (contents q) = (True, contents q')"
      "uxLength q' = uxLength q" "uxItemSize q' = uxItemSize q"
      using copy_to [OF assms True] by blast
    obtain y k' where "send_now x p q k = Some (Some ((), y, q', k'))" "uxCurrentNumberOfTasks k' = uxCurrentNumberOfTasks k"
      using remove_from_event_list [of k "xTasksWaitingToReceive q'"] True u(1)
      by (cases "xEventLists k (xTasksWaitingToReceive q') = []") (auto simp: send_now_def)
    then show ?thesis using c u by (auto simp: xQueueGenericSend_def wait_loop.simps)
  next
    case False
    then have "list_send (uxLength q) x p (contents q) = (False, contents q)"
      by (cases p) (simp_all add: list_send_def length_contents)
    moreover have "send_now x p q k = Some None" using False by (simp add: send_now_def)
    ultimately show ?thesis using c assms(1) by (intro exI [of _ False]) (simp add: xQueueGenericSend_def wait_loop.simps)
  qed
qed

lemma send_isr_step:
  assumes "queue_ok q" and "length x = uxItemSize q" and "p = queueOVERWRITE \<longrightarrow> uxLength q = 1" and "uxCurrentNumberOfTasks k \<le> 127"
  shows "\<exists>b y q' k'. xQueueGenericSendFromISR (Some x) p q k = Some (b, y, q', k') \<and>
    list_send (uxLength q) x p (contents q) = (b, contents q') \<and> queue_ok q' \<and> uxLength q' = uxLength q \<and> uxItemSize q' = uxItemSize q \<and>
    uxCurrentNumberOfTasks k' = uxCurrentNumberOfTasks k"
proof -
  have c: "\<not> (Some x = None \<and> uxItemSize q \<noteq> 0)" "\<not> (p = queueOVERWRITE \<and> uxLength q \<noteq> 1)"
    using assms(3) by auto
  show ?thesis
  proof (cases "uxMessagesWaiting q < uxLength q \<or> p = queueOVERWRITE")
    case True
    obtain q' where u: "prvCopyDataToQueue x p q k = Some (False, q', k)" "queue_ok q'" "list_send (uxLength q) x p (contents q) = (True, contents q')"
      "uxLength q' = uxLength q" "uxItemSize q' = uxItemSize q"
      using copy_to [OF assms(1-3) True] by blast
    obtain v where v: "prvIncrementQueueTxLock q' k = Some (q'\<lparr>cTxLock := v\<rparr>)" using increment_locks(1) [OF assms(4)] by blast
    obtain y k' where w: "wake_waiting (xTasksWaitingToReceive q') k = Some (y, k')" "uxCurrentNumberOfTasks k' = uxCurrentNumberOfTasks k"
      using wake_waiting_ok by blast
    show ?thesis
    proof (cases "cTxLock q' = queueUNLOCKED")
      case True
      then show ?thesis using c u w \<open>_ \<or> _\<close> by (auto simp: xQueueGenericSendFromISR_def)
    next
      case False
      then show ?thesis using c u v \<open>_ \<or> _\<close>
        by (intro exI [of _ True] exI [of _ False] exI [of _ "q'\<lparr>cTxLock := v\<rparr>"] exI [of _ k]) (simp add: xQueueGenericSendFromISR_def)
    qed
  next
    case False
    then have "list_send (uxLength q) x p (contents q) = (False, contents q)"
      by (cases p) (simp_all add: list_send_def length_contents)
    then show ?thesis using False c assms(1) by (auto simp: xQueueGenericSendFromISR_def)
  qed
qed

lemma receive_step:
  assumes "queue_ok q"
  shows "\<exists>r y q' k'. xQueueReceive 0 [] q k = Some (r, y, q', k') \<and> list_step (uxLength q) Receive (contents q) = (received r, contents q') \<and>
    queue_ok q' \<and> uxLength q' = uxLength q \<and> uxItemSize q' = uxItemSize q \<and> uxCurrentNumberOfTasks k' = uxCurrentNumberOfTasks k"
proof (cases "0 < uxMessagesWaiting q")
  case True
  obtain q' x where u: "prvCopyDataFromQueue q = (x, q')" "contents q = x # contents (q'\<lparr>uxMessagesWaiting := uxMessagesWaiting q - 1\<rparr>)"
    "queue_ok (q'\<lparr>uxMessagesWaiting := uxMessagesWaiting q - 1\<rparr>)" "q' = q\<lparr>pcReadFrom := pcReadFrom q'\<rparr>"
    using take_out [OF assms True] by blast
  obtain y k' where w: "wake_waiting (xTasksWaitingToSend q') k = Some (y, k')" "uxCurrentNumberOfTasks k' = uxCurrentNumberOfTasks k"
    using wake_waiting_ok by blast
  have f: "uxLength q' = uxLength q" "uxItemSize q' = uxItemSize q" by (subst u(4), simp)+
  have "receive_now q k = Some (Some (x, y, q'\<lparr>uxMessagesWaiting := uxMessagesWaiting q - 1\<rparr>, k'))"
    using True u(1) w(1) by (simp add: receive_now_def)
  then show ?thesis using u(2,3) w(2) f
    by (auto simp: xQueueReceive_def may_wait_def wait_loop.simps list_step_def received_def)
next
  case False
  then have "receive_now q k = Some None" "contents q = []" using length_contents [of q] by (simp_all add: receive_now_def)
  then show ?thesis using assms
    by (auto simp: xQueueReceive_def may_wait_def wait_loop.simps list_step_def received_def)
qed

lemma receive_isr_step:
  assumes "queue_ok q" and "uxCurrentNumberOfTasks k \<le> 127"
  shows "\<exists>r y q' k'. xQueueReceiveFromISR q k = Some (r, y, q', k') \<and>
    list_step (uxLength q) Receive (contents q) = (case r of None \<Rightarrow> Refused | Some x \<Rightarrow> Item x, contents q') \<and>
    queue_ok q' \<and> uxLength q' = uxLength q \<and> uxItemSize q' = uxItemSize q \<and> uxCurrentNumberOfTasks k' = uxCurrentNumberOfTasks k"
proof (cases "0 < uxMessagesWaiting q")
  case True
  obtain q' x where u: "prvCopyDataFromQueue q = (x, q')" "contents q = x # contents (q'\<lparr>uxMessagesWaiting := uxMessagesWaiting q - 1\<rparr>)"
    "queue_ok (q'\<lparr>uxMessagesWaiting := uxMessagesWaiting q - 1\<rparr>)" "q' = q\<lparr>pcReadFrom := pcReadFrom q'\<rparr>"
    using take_out [OF assms(1) True] by blast
  let ?q = "q'\<lparr>uxMessagesWaiting := uxMessagesWaiting q - 1\<rparr>"
  obtain y k' where w: "wake_waiting (xTasksWaitingToSend q') k = Some (y, k')" "uxCurrentNumberOfTasks k' = uxCurrentNumberOfTasks k"
    using wake_waiting_ok by blast
  obtain v where v: "prvIncrementQueueRxLock ?q k = Some (?q\<lparr>cRxLock := v\<rparr>)" using increment_locks(2) [OF assms(2)] by blast
  have f: "uxLength q' = uxLength q" "uxItemSize q' = uxItemSize q" by (subst u(4), simp)+
  have c: "contents (?q\<lparr>cRxLock := v\<rparr>) = contents ?q" "queue_ok (?q\<lparr>cRxLock := v\<rparr>)" using u(3) by (simp_all only: lock_update)
  show ?thesis
  proof (cases "cRxLock q' = queueUNLOCKED")
    case True
    then have "xQueueReceiveFromISR q k = Some (Some x, y, ?q, k')"
      using \<open>0 < _\<close> u(1) w(1) by (simp add: xQueueReceiveFromISR_def)
    then show ?thesis using u(2,3) w(2) f by (auto simp: list_step_def)
  next
    case False
    then have "xQueueReceiveFromISR q k = Some (Some x, False, ?q\<lparr>cRxLock := v\<rparr>, k)"
      using \<open>0 < _\<close> u(1) v by (simp add: xQueueReceiveFromISR_def)
    moreover have "list_step (uxLength q) Receive (contents q) = (Item x, contents (?q\<lparr>cRxLock := v\<rparr>))"
      unfolding c(1) by (subst u(2)) (simp add: list_step_def)
    ultimately show ?thesis using c(2) f by auto
  qed
next
  case False
  then have "contents q = []" using length_contents [of q] by simp
  then show ?thesis using False assms(1) by (auto simp: xQueueReceiveFromISR_def list_step_def)
qed

lemma peek_step:
  assumes "queue_ok q"
  shows "\<exists>r y q' k'. xQueuePeek 0 [] q k = Some (r, y, q', k') \<and> list_step (uxLength q) Peek (contents q) = (received r, contents q') \<and>
    queue_ok q' \<and> uxLength q' = uxLength q \<and> uxItemSize q' = uxItemSize q \<and> uxCurrentNumberOfTasks k' = uxCurrentNumberOfTasks k"
    "\<exists>r q'. uxItemSize q \<noteq> 0 \<longrightarrow> xQueuePeekFromISR q = Some (r, q') \<and>
    list_step (uxLength q) Peek (contents q) = (case r of None \<Rightarrow> Refused | Some x \<Rightarrow> Item x, contents q') \<and>
    queue_ok q' \<and> uxLength q' = uxLength q \<and> uxItemSize q' = uxItemSize q"
proof -
  have "(\<exists>r y q' k'. xQueuePeek 0 [] q k = Some (r, y, q', k') \<and> list_step (uxLength q) Peek (contents q) = (received r, contents q') \<and>
    queue_ok q' \<and> uxLength q' = uxLength q \<and> uxItemSize q' = uxItemSize q \<and> uxCurrentNumberOfTasks k' = uxCurrentNumberOfTasks k) \<and>
    (\<exists>r q'. uxItemSize q \<noteq> 0 \<longrightarrow> xQueuePeekFromISR q = Some (r, q') \<and>
    list_step (uxLength q) Peek (contents q) = (case r of None \<Rightarrow> Refused | Some x \<Rightarrow> Item x, contents q') \<and>
    queue_ok q' \<and> uxLength q' = uxLength q \<and> uxItemSize q' = uxItemSize q)"
  proof (cases "0 < uxMessagesWaiting q")
    case True
    obtain q' x xs where u: "prvCopyDataFromQueue q = (x, q')" "contents q = x # xs" "q' = q\<lparr>pcReadFrom := pcReadFrom q'\<rparr>"
      using take_out [OF assms True] by blast
    have same: "q'\<lparr>pcReadFrom := pcReadFrom q\<rparr> = q" by (subst u(3)) simp
    obtain y k' where w: "wake_waiting (xTasksWaitingToReceive q) k = Some (y, k')" "uxCurrentNumberOfTasks k' = uxCurrentNumberOfTasks k"
      using wake_waiting_ok by blast
    have "xTasksWaitingToReceive q' = xTasksWaitingToReceive q" by (subst u(3)) simp
    then have "peek_now q k = Some (Some (x, y, q, k'))" using True u(1) w(1) same by (simp add: peek_now_def)
    moreover have "uxItemSize q \<noteq> 0 \<Longrightarrow> xQueuePeekFromISR q = Some (Some x, q)" using True u(1) same by (simp add: xQueuePeekFromISR_def)
    ultimately show ?thesis using u(2) w(2) assms
      by (auto simp: xQueuePeek_def may_wait_def wait_loop.simps list_step_def received_def)
  next
    case False
    then have "peek_now q k = Some None" "contents q = []" "uxItemSize q \<noteq> 0 \<Longrightarrow> xQueuePeekFromISR q = Some (None, q)"
      using length_contents [of q] by (simp_all add: peek_now_def xQueuePeekFromISR_def)
    then show ?thesis using assms
      by (auto simp: xQueuePeek_def may_wait_def wait_loop.simps list_step_def received_def)
  qed
  then show "\<exists>r y q' k'. xQueuePeek 0 [] q k = Some (r, y, q', k') \<and> list_step (uxLength q) Peek (contents q) = (received r, contents q') \<and>
    queue_ok q' \<and> uxLength q' = uxLength q \<and> uxItemSize q' = uxItemSize q \<and> uxCurrentNumberOfTasks k' = uxCurrentNumberOfTasks k"
    "\<exists>r q'. uxItemSize q \<noteq> 0 \<longrightarrow> xQueuePeekFromISR q = Some (r, q') \<and>
    list_step (uxLength q) Peek (contents q) = (case r of None \<Rightarrow> Refused | Some x \<Rightarrow> Item x, contents q') \<and>
    queue_ok q' \<and> uxLength q' = uxLength q \<and> uxItemSize q' = uxItemSize q" by blast+
qed

lemma reset_step:
  assumes "queue_ok q"
  shows "\<exists>y q' k'. xQueueGenericReset False q k = Some (y, q', k') \<and> contents q' = [] \<and> queue_ok q' \<and>
    uxLength q' = uxLength q \<and> uxItemSize q' = uxItemSize q \<and> uxCurrentNumberOfTasks k' = uxCurrentNumberOfTasks k"
proof -
  obtain w r where "ring_at w r q" using assms by (auto simp: queue_ok_def)
  then have q: "0 < uxItemSize q" "uxLength q < 2 ^ 32" "uxLength q * uxItemSize q < 2 ^ 32" "\<not> is_mutex q"
    "length (pcHead q) = uxLength q * uxItemSize q" "0 < uxLength q"
    by (simp_all add: ring_at_def)
  let ?q = "q\<lparr>pcTail := uxLength q * uxItemSize q, uxMessagesWaiting := 0, pcWriteTo := 0,
                  pcReadFrom := int ((uxLength q - 1) * uxItemSize q), cRxLock := queueUNLOCKED, cTxLock := queueUNLOCKED\<rparr>"
  have fits: "(2 ^ 32 - 1) div uxLength q \<ge> uxItemSize q"
    using q(3,6) by (simp add: less_eq_div_iff_mult_less_eq mult.commute)
  obtain y k' where w: "wake_waiting (xTasksWaitingToSend q) k = Some (y, k')" "uxCurrentNumberOfTasks k' = uxCurrentNumberOfTasks k"
    using wake_waiting_ok by blast
  have "xQueueGenericReset False q k = Some (y, ?q, k')"
    using q(4,6) fits w(1) by (simp add: xQueueGenericReset_def Suc_le_eq)
  moreover have "ring_at 0 (uxLength q - 1) ?q" using q by (simp add: ring_at_def)
  moreover have "contents ?q = []" by (simp add: contents_def)
  ultimately show ?thesis using w(2) by (auto simp: queue_ok_def)
qed

section \<open>Queues are sequences\<close>

lemma queue_step_refines:
  assumes "queue_ok q" and "op_ok (uxLength q) (uxItemSize q) op" and "uxCurrentNumberOfTasks k \<le> 127"
  shows "\<exists>r q' k'. queue_step op (q, k) = Some (r, q', k') \<and> list_step (uxLength q) op (contents q) = (r, contents q') \<and>
    queue_ok q' \<and> uxLength q' = uxLength q \<and> uxItemSize q' = uxItemSize q \<and> uxCurrentNumberOfTasks k' = uxCurrentNumberOfTasks k"
proof (cases op)
  case (Send x p)
  with assms(2) have "length x = uxItemSize q" "p = queueOVERWRITE \<longrightarrow> uxLength q = 1" by (simp_all add: op_ok_def)
  from send_step [OF assms(1) this, of k] obtain b y q' k' where "xQueueGenericSend (Some x) 0 p [] q k = Some (if b then Returned () else Failed, y, q', k')"
    "list_send (uxLength q) x p (contents q) = (b, contents q')" "queue_ok q'" "uxLength q' = uxLength q" "uxItemSize q' = uxItemSize q"
    "uxCurrentNumberOfTasks k' = uxCurrentNumberOfTasks k" by blast
  then show ?thesis using Send
    by (intro exI [of _ "if b then Done else Refused"] exI [of _ q'] exI [of _ k']) (simp add: queue_step_def list_step_def sent_def)
next
  case (Send_From_ISR x p)
  with assms(2) have "length x = uxItemSize q" "p = queueOVERWRITE \<longrightarrow> uxLength q = 1" by (simp_all add: op_ok_def)
  from send_isr_step [OF assms(1) this assms(3)] obtain b y q' k' where "xQueueGenericSendFromISR (Some x) p q k = Some (b, y, q', k')"
    "list_send (uxLength q) x p (contents q) = (b, contents q')" "queue_ok q'" "uxLength q' = uxLength q" "uxItemSize q' = uxItemSize q"
    "uxCurrentNumberOfTasks k' = uxCurrentNumberOfTasks k" by blast
  then show ?thesis using Send_From_ISR
    by (intro exI [of _ "if b then Done else Refused"] exI [of _ q'] exI [of _ k']) (simp add: queue_step_def list_step_def)
next
  case Receive
  from receive_step [OF assms(1), of k] Receive show ?thesis by (auto simp: queue_step_def)
next
  case Receive_From_ISR
  from receive_isr_step [OF assms(1,3)] Receive_From_ISR show ?thesis by (auto simp: queue_step_def list_step_def)
next
  case Peek
  from peek_step(1) [OF assms(1), of k] Peek show ?thesis by (auto simp: queue_step_def)
next
  case Peek_From_ISR
  have "uxItemSize q \<noteq> 0" using assms(1) by (auto simp: queue_ok_def ring_at_def)
  with peek_step(2) [OF assms(1)] Peek_From_ISR show ?thesis by (auto simp: queue_step_def list_step_def)
next
  case Reset
  from reset_step [OF assms(1), of k] Reset show ?thesis by (auto simp: queue_step_def list_step_def)
qed

text \<open>Runs of operations, with the results of all of them.\<close>

fun queue_run :: "queue_op list \<Rightarrow> queue \<times> kernel \<Rightarrow> (op_result list \<times> queue \<times> kernel) option" where
  "queue_run [] s = Some ([], s)"
| "queue_run (op # ops) s = do { (r, s) \<leftarrow> queue_step op s; (rs, s) \<leftarrow> queue_run ops s; Some (r # rs, s) }"

fun list_run :: "nat \<Rightarrow> queue_op list \<Rightarrow> u8 list list \<Rightarrow> op_result list \<times> u8 list list" where
  "list_run n [] xs = ([], xs)"
| "list_run n (op # ops) xs = (let (r, xs) = list_step n op xs; (rs, xs) = list_run n ops xs in (r # rs, xs))"

lemma queue_run_refines:
  "queue_ok q \<Longrightarrow> \<forall>op \<in> set ops. op_ok (uxLength q) (uxItemSize q) op \<Longrightarrow> uxCurrentNumberOfTasks k \<le> 127 \<Longrightarrow>
   \<exists>rs q' k'. queue_run ops (q, k) = Some (rs, q', k') \<and> list_run (uxLength q) ops (contents q) = (rs, contents q') \<and> queue_ok q'"
proof (induction ops arbitrary: q k)
  case Nil
  then show ?case by simp
next
  case (Cons op ops)
  then have "op_ok (uxLength q) (uxItemSize q) op" by simp
  from queue_step_refines [OF Cons.prems(1) this Cons.prems(3)] obtain r q1 k1 where s: "queue_step op (q, k) = Some (r, q1, k1)"
    "list_step (uxLength q) op (contents q) = (r, contents q1)" "queue_ok q1" "uxLength q1 = uxLength q" "uxItemSize q1 = uxItemSize q"
    "uxCurrentNumberOfTasks k1 = uxCurrentNumberOfTasks k" by blast
  have "\<forall>op \<in> set ops. op_ok (uxLength q1) (uxItemSize q1) op" "uxCurrentNumberOfTasks k1 \<le> 127" using Cons.prems s by simp_all
  from Cons.IH [OF s(3) this] s show ?case by auto
qed

lemma list_run_bound:
  "length xs \<le> n \<Longrightarrow> 0 < n \<Longrightarrow> length (snd (list_run n ops xs)) \<le> n"
proof (induction ops arbitrary: xs)
  case (Cons op ops)
  have "length (snd (list_step n op xs)) \<le> n"
    using Cons.prems by (auto simp: list_step_def list_send_def Let_def split: queue_op.split copy_position.split list.split)
  with Cons show ?case by (auto simp: split_def Let_def)
qed simp

text \<open>A queue of two items of two bytes, just created.\<close>

definition small_queue :: queue where
  "small_queue = \<lparr>pcHead = [0, 0, 0, 0], is_mutex = False, pcWriteTo = 0, pcTail = 4, pcReadFrom = 2, xMutexHolder = 0, uxRecursiveCallCount = 0,
     xTasksWaitingToSend = 16, xTasksWaitingToReceive = 36, uxMessagesWaiting = 0, uxLength = 2, uxItemSize = 2,
     cRxLock = queueUNLOCKED, cTxLock = queueUNLOCKED, uxQueueNumber = 0, ucQueueType = 0\<rparr>"

lemma small_queue_ok: "queue_ok small_queue" "contents small_queue = []"
proof -
  have "ring_at 0 1 small_queue" by (simp add: ring_at_def small_queue_def)
  then show "queue_ok small_queue" unfolding queue_ok_def by blast
qed (simp add: contents_def small_queue_def)

text \<open>
  C3: A queue is a bounded sequence: whatever operations tasks (that do not wait) and interrupts do to it, in any order,
  all return, with the results that sending to the back or to the front, overwriting, receiving the first item, peeking and
  resetting have on the sequence of the queued items; refusals come exactly when the sequence is full or empty, and the ring never
  mixes up items however often its positions wrap.
\<close>

theorem queue_refines_sequence:
  assumes "queue_ok q" and "\<forall>op \<in> set ops. op_ok (uxLength q) (uxItemSize q) op" and "uxCurrentNumberOfTasks k \<le> 127"
  shows "\<exists>rs q' k'. queue_run ops (q, k) = Some (rs, q', k') \<and> list_run (uxLength q) ops (contents q) = (rs, contents q') \<and> queue_ok q'"
  by (rule queue_run_refines [OF assms])

lemma queue_refines_sequence_witness:
  "\<exists>q' k'. queue_run [Send [1, 2] queueSEND_TO_BACK, Send_From_ISR [3, 4] queueSEND_TO_FRONT, Send [5, 6] queueSEND_TO_BACK, Peek, Receive, Send [7, 8] queueSEND_TO_BACK, Receive, Receive_From_ISR, Receive]
     (small_queue, two_tasks 0) = Some ([Done, Done, Refused, Item [3, 4], Item [3, 4], Done, Item [1, 2], Item [7, 8], Refused], q', k') \<and> contents q' = []"
proof -
  let ?ops = "[Send [1, 2] queueSEND_TO_BACK, Send_From_ISR [3, 4] queueSEND_TO_FRONT, Send [5, 6] queueSEND_TO_BACK, Peek, Receive, Send [7, 8] queueSEND_TO_BACK, Receive, Receive_From_ISR, Receive]"
  have n: "uxLength small_queue = 2" "uxItemSize small_queue = 2" "uxCurrentNumberOfTasks (two_tasks 0) \<le> 127"
    by (simp_all add: small_queue_def two_tasks_def)
  have "\<forall>op \<in> set ?ops. op_ok (uxLength small_queue) (uxItemSize small_queue) op" by (simp add: op_ok_def n)
  moreover have "list_run 2 ?ops [] = ([Done, Done, Refused, Item [3, 4], Item [3, 4], Done, Item [1, 2], Item [7, 8], Refused], [])"
    by (simp add: list_step_def list_send_def)
  ultimately show ?thesis
    using queue_refines_sequence [OF small_queue_ok(1) _ n(3), of ?ops] unfolding n(1,2) small_queue_ok(2) by auto
qed

text \<open>
  The number of messages never exceeds the length of the queue, and the messages waiting and the spaces available
  always add up to it, after any operations of tasks that do not wait and of interrupts.
\<close>

theorem queue_counts_bounded:
  assumes "queue_ok q" and "\<forall>op \<in> set ops. op_ok (uxLength q) (uxItemSize q) op" and "uxCurrentNumberOfTasks k \<le> 127"
    and "queue_run ops (q, k) = Some (rs, q', k')"
  shows "uxQueueMessagesWaiting q' \<le> uxLength q' \<and> uxQueueMessagesWaiting q' + uxQueueSpacesAvailable q' = uxLength q'"
proof -
  have "queue_ok q'" using queue_run_refines [OF assms(1-3)] assms(4) by auto
  then obtain w r where "ring_at w r q'" by (auto simp: queue_ok_def)
  then have b: "uxMessagesWaiting q' \<le> uxLength q'" "uxLength q' < 2 ^ 32" by (simp_all add: ring_at_def)
  then obtain d where d: "uxLength q' = uxMessagesWaiting q' + d" using le_Suc_ex by blast
  then have "d < 2 ^ 32" using b(2) by simp
  then show ?thesis by (simp add: uxQueueMessagesWaiting_def uxQueueSpacesAvailable_def d)
qed

lemma queue_counts_bounded_witness:
  "\<exists>rs q' k'. queue_run [Send [1, 2] queueSEND_TO_BACK, Send [3, 4] queueSEND_TO_BACK, Send [5, 6] queueSEND_TO_BACK] (small_queue, two_tasks 0) = Some (rs, q', k') \<and>
     uxQueueMessagesWaiting q' + uxQueueSpacesAvailable q' = uxLength q'"
proof -
  let ?ops = "[Send [1, 2] queueSEND_TO_BACK, Send [3, 4] queueSEND_TO_BACK, Send [5, 6] queueSEND_TO_BACK]"
  have n: "uxCurrentNumberOfTasks (two_tasks 0) \<le> 127" "\<forall>op \<in> set ?ops. op_ok (uxLength small_queue) (uxItemSize small_queue) op"
    by (simp_all add: small_queue_def two_tasks_def op_ok_def)
  obtain rs q' k' where "queue_run ?ops (small_queue, two_tasks 0) = Some (rs, q', k')"
    using queue_run_refines [OF small_queue_ok(1) n(2,1)] by blast
  with queue_counts_bounded [OF small_queue_ok(1) n(2,1) this] show ?thesis by blast
qed

end
