(* ===== verification/Scheduler.thy ===== *)
theory Scheduler
  imports RtosEvents
begin

text \<open>
  The scheduler as a whole. Whatever sequence of ticks, delays, notifications, suspensions and priority changes
  the kernel sees, its lists stay well formed, every call returns, and the running task is a ready task of the highest priority.
\<close>

section \<open>The calls\<close>

datatype kernel_op = Tick | Yield | Delay u32 | Delay_Until u32 u32 | Suspend nat | Resume nat | Notify nat u32 eNotifyAction
  | Notify_From_ISR nat u32 eNotifyAction | Notify_Wait u32 u32 | Set_Priority nat nat

text \<open>A request to yield is followed by the context switch.\<close>

definition yield_if :: "bool \<times> kernel \<Rightarrow> kernel option" where
  "yield_if = (\<lambda>(yield, k). if yield then vTaskSwitchContext k else Some k)"

definition kernel_step :: "kernel_op \<Rightarrow> kernel \<Rightarrow> kernel option" where
  "kernel_step op k = (case op of
     Tick \<Rightarrow> Option.bind (xTaskIncrementTick k) yield_if
   | Yield \<Rightarrow> vTaskSwitchContext k
   | Delay n \<Rightarrow> vTaskDelay n k
   | Delay_Until p n \<Rightarrow> map_option (\<lambda>(_, _, k). k) (xTaskDelayUntil p n k)
   | Suspend h \<Rightarrow> Option.bind (vTaskSuspend h k) yield_if
   | Resume t \<Rightarrow> Option.bind (vTaskResume t k) yield_if
   | Notify t v a \<Rightarrow> Option.bind (xTaskGenericNotify t v a k) (\<lambda>(_, _, s). yield_if s)
   | Notify_From_ISR t v a \<Rightarrow> Option.bind (xTaskGenericNotifyFromISR t v a k) (\<lambda>(_, _, s). yield_if s)
   | Notify_Wait b n \<Rightarrow> map_option snd (notify_wait_enter b n id id k)
   | Set_Priority h p \<Rightarrow> Option.bind (vTaskPrioritySet h p k) yield_if)"

text \<open>
  The calls that the interface allows: the idle task neither blocks nor is suspended, handles of other tasks are not
  null, a period is not zero, a priority is below the maximum.
\<close>

definition allowed :: "nat \<Rightarrow> kernel_op \<Rightarrow> kernel \<Rightarrow> bool" where
  "allowed idle op k = (case op of
     Tick \<Rightarrow> True | Yield \<Rightarrow> True
   | Delay n \<Rightarrow> pxCurrentTCB k \<noteq> idle
   | Delay_Until p n \<Rightarrow> pxCurrentTCB k \<noteq> idle \<and> 0 < n
   | Suspend h \<Rightarrow> prvGetTCBFromHandle h k \<noteq> idle
   | Resume t \<Rightarrow> t \<noteq> 0
   | Notify t v a \<Rightarrow> t \<noteq> 0
   | Notify_From_ISR t v a \<Rightarrow> t \<noteq> 0
   | Notify_Wait b n \<Rightarrow> pxCurrentTCB k \<noteq> idle
   | Set_Priority h p \<Rightarrow> p < configMAX_PRIORITIES)"

section \<open>The invariant\<close>

text \<open>No task waits for a kernel object here, so the event items are in no list; the idle task is always ready.\<close>

definition sched_base :: "nat \<Rightarrow> kernel \<Rightarrow> bool" where
  "sched_base idle k \<longleftrightarrow> places_ok k \<and> times_ok k \<and> uxSchedulerSuspended k = 0 \<and> xPendedTicks k = 0 \<and> xPendingReadyList k = [] \<and>
     (\<forall>t. xEventPlace (tcbs k t) = On_No_List \<and> uxBasePriority (tcbs k t) \<le> uxPriority (tcbs k t)) \<and>
     (\<exists>p. xStatePlace (tcbs k idle) = In_Ready p)"

definition top_running :: "kernel \<Rightarrow> bool" where
  "top_running k \<longleftrightarrow> (\<exists>p. xStatePlace (tcbs k (pxCurrentTCB k)) = In_Ready p) \<and>
     (\<forall>t p. xStatePlace (tcbs k t) = In_Ready p \<longrightarrow> uxPriority (tcbs k t) \<le> uxPriority (tcbs k (pxCurrentTCB k)))"

definition sched_ok :: "nat \<Rightarrow> kernel \<Rightarrow> bool" where "sched_ok idle k \<longleftrightarrow> sched_base idle k \<and> top_running k"

lemma sched_okI: "sched_base idle k \<Longrightarrow> top_running k \<Longrightarrow> sched_ok idle k"
  by (simp add: sched_ok_def)

lemma sched_baseD:
  assumes "sched_base idle k"
  shows "places_ok k" "times_ok k" "uxSchedulerSuspended k = 0" "xPendedTicks k = 0" "xPendingReadyList k = []"
    "xEventPlace (tcbs k t) = On_No_List" "uxBasePriority (tcbs k t) \<le> uxPriority (tcbs k t)" "\<exists>p. xStatePlace (tcbs k idle) = In_Ready p"
  using assms by (simp_all add: sched_base_def)

lemma switch_sched: "sched_base idle k \<Longrightarrow> \<exists>k'. vTaskSwitchContext k = Some k' \<and> sched_ok idle k'"
proof -
  assume b: "sched_base idle k"
  note d = sched_baseD [OF b]
  obtain p where p: "xStatePlace (tcbs k idle) = In_Ready p" using d(8) by blast
  from switch_ok [OF d(1,3) p] obtain k' where s: "vTaskSwitchContext k = Some k'" "places_ok k'"
    "xStatePlace (tcbs k (pxCurrentTCB k')) = In_Ready (uxPriority (tcbs k (pxCurrentTCB k')))"
    "\<forall>t p. xStatePlace (tcbs k t) = In_Ready p \<longrightarrow> uxPriority (tcbs k t) \<le> uxPriority (tcbs k (pxCurrentTCB k'))"
    "tcbs k' = tcbs k" "xDelayedTaskLists k' = xDelayedTaskLists k" "pxDelayedTaskList k' = pxDelayedTaskList k" "xTickCount k' = xTickCount k"
    "xNextTaskUnblockTime k' = xNextTaskUnblockTime k" "uxSchedulerSuspended k' = 0" "xPendedTicks k' = xPendedTicks k" "xPendingReadyList k' = xPendingReadyList k"
    by blast
  have "times_ok k'" by (rule times_cong [OF d(2) s(5-9)])
  then have "sched_ok idle k'" using b s(2-5,10-12) by (simp add: sched_ok_def sched_base_def top_running_def)
  with s(1) show ?thesis by blast
qed

lemma yield_sched:
  "sched_base idle k \<Longrightarrow> (\<not> y \<Longrightarrow> top_running k) \<Longrightarrow> \<exists>k'. yield_if (y, k) = Some k' \<and> sched_ok idle k'"
  using switch_sched [of idle k] by (cases y) (simp_all add: yield_if_def sched_ok_def)

section \<open>Each call keeps the invariant\<close>

text \<open>Taking tasks out of the delayed lists and changing other fields of the tasks does not hurt the times.\<close>

lemma times_subset:
  assumes "times_ok k" and "\<And>t. xStateItemValue (tcbs k' t) = xStateItemValue (tcbs k t)"
    and "\<And>b. xDelayedTaskLists k' b = xDelayedTaskLists k b \<or> xDelayedTaskLists k' b = remove1 t (xDelayedTaskLists k b)"
    and "pxDelayedTaskList k' = pxDelayedTaskList k" and "xTickCount k' = xTickCount k" and "xNextTaskUnblockTime k' = xNextTaskUnblockTime k"
  shows "times_ok k'"
proof -
  have sub: "x \<in> set (xDelayedTaskLists k' b) \<Longrightarrow> x \<in> set (xDelayedTaskLists k b)" for x b
    using assms(3) [of b] by (auto dest: subsetD [OF set_remove1_subset])
  have "sorted (map (\<lambda>t. xStateItemValue (tcbs k t)) (xDelayedTaskLists k' b))" for b
    using assms(1) assms(3) [of b] by (auto simp: times_ok_def sorted_map_remove1)
  then show ?thesis
    using assms(1) sub by (auto simp: times_ok_def assms(2,4-6) current_delayed_def overflow_delayed_def)
qed

text \<open>Making a task ready.\<close>

lemma ready_sched:
  assumes "sched_base idle k"
  shows "sched_base idle (prvAddTaskToReadyList t (remove_state_item t k))"
proof -
  let ?k = "prvAddTaskToReadyList t (remove_state_item t k)"
  note d = sched_baseD [OF assms]
  have "places_ok ?k" by (intro places_add_ready places_remove_state d(1)) simp
  moreover have "times_ok ?k" by (rule times_subset [OF d(2), where t = t]) auto
  ultimately show ?thesis using assms by (auto simp: sched_base_def)
qed

lemma ready_top:
  assumes "top_running k" and "uxPriority (tcbs k t) \<le> uxPriority (tcbs k (pxCurrentTCB k))"
  shows "top_running (prvAddTaskToReadyList t (remove_state_item t k))"
  using assms by (auto simp: top_running_def)

text \<open>Changing fields of a task that the scheduler does not look at.\<close>

lemma set_sched:
  assumes "sched_base idle k" and "\<And>x. xStatePlace (f x) = xStatePlace x" and "\<And>x. uxPriority (f x) = uxPriority x"
    and "\<And>x. uxBasePriority (f x) = uxBasePriority x" and "\<And>x. xStateItemValue (f x) = xStateItemValue x" and "\<And>x. xEventPlace (f x) = xEventPlace x"
  shows "sched_base idle (set_tcb t f k)" "top_running (set_tcb t f k) = top_running k"
proof -
  note d = sched_baseD [OF assms(1)]
  have "places_ok (set_tcb t f k)" by (rule places_set_tcb [OF d(1) assms(2,3)])
  moreover have "times_ok (set_tcb t f k)" by (rule times_subset [OF d(2), where t = t]) (simp_all add: assms)
  ultimately show "sched_base idle (set_tcb t f k)" using assms by (auto simp: sched_base_def)
  have "xStatePlace (tcbs (set_tcb t f k) x) = xStatePlace (tcbs k x)" "uxPriority (tcbs (set_tcb t f k) x) = uxPriority (tcbs k x)" for x
    by (simp_all add: assms)
  then show "top_running (set_tcb t f k) = top_running k" by (simp only: top_running_def set_tcb_sel(2))
qed

lemma notify_sched:
  assumes "sched_ok idle k" and "t \<noteq> 0"
  shows "\<exists>k'. kernel_step (Notify t v a) k = Some k' \<and> sched_ok idle k'"
    "\<exists>k'. kernel_step (Notify_From_ISR t v a) k = Some k' \<and> sched_ok idle k'"
proof -
  have b: "sched_base idle k" "top_running k" using assms(1) by (simp_all add: sched_ok_def)
  let ?k = "set_tcb t (notified a v) k"
  have n: "sched_base idle ?k" "top_running ?k"
    using set_sched [OF b(1), of "notified a v" t] b(2) by (simp_all add: notified_def)
  let ?r = "prvAddTaskToReadyList t (remove_state_item t ?k)"
  let ?up = "uxPriority (tcbs k t) > uxPriority (tcbs k (pxCurrentTCB k))"
  have r: "sched_base idle ?r" "\<not> ?up \<Longrightarrow> top_running ?r"
    using ready_sched [OF n(1), of t] ready_top [OF n(2), of t] by (simp_all add: notified_def)
  have f: "xEventPlace (tcbs k x) = On_No_List" "uxSchedulerSuspended k = 0" for x using sched_baseD [OF b(1)] by simp_all
  show "\<exists>k'. kernel_step (Notify t v a) k = Some k' \<and> sched_ok idle k'"
    using yield_sched [OF r(1), of ?up] r(2) yield_sched [OF n(1), of False] n(2) assms(2) f
    by (auto simp: kernel_step_def xTaskGenericNotify_def Let_def notified_def)
  have y: "sched_base idle (?r\<lparr>xYieldPending := True\<rparr>)"
    using r(1) by (auto simp: sched_base_def intro: places_times times_cong)
  show "\<exists>k'. kernel_step (Notify_From_ISR t v a) k = Some k' \<and> sched_ok idle k'"
    using yield_sched [OF r(1), of False] r(2) yield_sched [OF y, of True] yield_sched [OF n(1), of False] n(2) assms(2) f
    by (auto simp: kernel_step_def xTaskGenericNotifyFromISR_def wake_from_isr_def Let_def notified_def)
qed

text \<open>The tick moves no task to the pending list, and a tick of the running system leaves the running task where it is.\<close>

lemma unblock_pending:
  "unblock_expired now switch k = Some r \<Longrightarrow> xPendingReadyList k = [] \<longrightarrow> xPendingReadyList (snd r) = []"
proof (rule unblock_expired.raw_induct [where P = "\<lambda>_ _ k r. xPendingReadyList k = [] \<longrightarrow> xPendingReadyList (snd r) = []"], goal_cases)
  case (1 f now switch k r)
  have "xPendingReadyList (wake_task t k) = []" if "xPendingReadyList k = []" for t
    using that by (simp add: wake_task_def Let_def)
  with 1 show ?case by (auto simp: Let_def split: list.splits if_splits)
qed assumption

lemma tick_pending:
  assumes "xTaskIncrementTick k = Some (sw, k')" and "uxSchedulerSuspended k = 0" and "xPendingReadyList k = []"
  shows "xPendingReadyList k' = []"
  using assms by (auto simp: xTaskIncrementTick_def Let_def taskSWITCH_DELAYED_LISTS_def prvResetNextTaskUnblockTime_def
      split: if_splits bind_splits dest!: unblock_pending)

lemma tick_sched:
  assumes "sched_ok idle k"
  shows "\<exists>k'. kernel_step Tick k = Some k' \<and> sched_ok idle k'"
proof -
  have b: "sched_base idle k" "top_running k" using assms by (simp_all add: sched_ok_def)
  note d = sched_baseD [OF b(1)]
  obtain sw k1 where t: "xTaskIncrementTick k = Some (sw, k1)" "places_ok k1" "times_ok k1" "tcbs k1 = woken (\<lambda>t. ticks_left k t = Some 1) (tcbs k)"
    "sw \<longleftrightarrow> xYieldPending k \<or> (\<exists>t. ticks_left k t = Some 1 \<and> uxPriority (tcbs k t) > uxPriority (tcbs k (pxCurrentTCB k)))"
    "pxCurrentTCB k1 = pxCurrentTCB k" "uxSchedulerSuspended k1 = 0" "xPendedTicks k1 = xPendedTicks k"
    using tick_ok [OF d(1-3)] by blast
  have e: "xEventPlace (woken W m t) = (if W t then On_No_List else xEventPlace (m t))" "uxBasePriority (woken W m t) = uxBasePriority (m t)" for W m t
    by (simp_all add: woken_def)
  have base: "sched_base idle k1"
    using t(2,3,7,8) d tick_pending [OF t(1) d(3,5)] by (auto simp: sched_base_def t(4) e)
  have "top_running k1" if "\<not> sw"
    using that b(2) t(5) by (auto simp: top_running_def t(4,6) not_less ticks_left_def)
  from yield_sched [OF base this] show ?thesis by (simp add: kernel_step_def t(1))
qed

text \<open>Blocking the running task, for a time or without a limit, then resuming the scheduler.\<close>

lemma block_sched:
  assumes "sched_ok idle k" and "pxCurrentTCB k \<noteq> idle" and "0 < n"
  shows "\<exists>y k'. xTaskResumeAll (prvAddCurrentTaskToDelayedList n c (vTaskSuspendAll k)) = Some (y, k') \<and> sched_base idle k'"
proof -
  have b: "sched_base idle k" "top_running k" using assms(1) by (simp_all add: sched_ok_def)
  note d = sched_baseD [OF b(1)]
  let ?s = "vTaskSuspendAll k" and ?t = "pxCurrentTCB k"
  let ?k = "prvAddCurrentTaskToDelayedList n c ?s"
  obtain p where p: "xStatePlace (tcbs k ?t) = In_Ready p" using b(2) by (auto simp: top_running_def)
  have s: "tcbs ?s = tcbs k" "pxCurrentTCB ?s = ?t" "uxSchedulerSuspended ?s = 1" "xPendedTicks ?s = 0" "xPendingReadyList ?s = []"
    using d by (simp_all add: vTaskSuspendAll_def)
  have ps: "places_ok ?s" by (rule places_times [OF d(1)]) (simp_all add: vTaskSuspendAll_def)
  have ts: "times_ok ?s" by (rule times_cong [OF d(2)]) (simp_all add: vTaskSuspendAll_def)
  have pk: "places_ok ?k" by (rule places_delay [OF ps])
  have tk: "times_ok ?k"
  proof (cases "n = portMAX_DELAY \<and> c")
    case True
    then show ?thesis
      by (intro times_subset [OF ts, where t = ?t]) (simp_all add: prvAddCurrentTaskToDelayedList_def Let_def s)
  next
    case False
    then have "?k = prvAddCurrentTaskToDelayedList n False ?s" by (auto simp: prvAddCurrentTaskToDelayedList_def)
    with delay_current [OF ps ts refl _ assms(3) refl, unfolded s, OF p] show ?thesis by simp
  qed
  let ?r = "?k\<lparr>uxSchedulerSuspended := 0\<rparr>"
  have r: "xTaskResumeAll ?k = Some (xYieldPending ?k, ?r)" by (rule resume_quiet) (simp_all add: s)
  have "places_ok ?r" by (rule places_times [OF pk]) simp_all
  moreover have "times_ok ?r" by (rule times_cong [OF tk]) simp_all
  moreover have "xEventPlace (tcbs ?r x) = On_No_List \<and> uxBasePriority (tcbs ?r x) \<le> uxPriority (tcbs ?r x)" for x
  proof -
    have "uxBasePriority (tcbs ?k x) = uxBasePriority (tcbs k x)" by (simp add: prvAddCurrentTaskToDelayedList_def Let_def s)
    then show ?thesis using d(6,7) by (simp add: s)
  qed
  moreover have "tcbs ?r idle = tcbs k idle" using assms(2) by (simp add: s)
  ultimately have "sched_base idle ?r" using d(8) by (simp add: sched_base_def s)
  with r show ?thesis by blast
qed

lemma delay_sched:
  assumes "sched_ok idle k" and "pxCurrentTCB k \<noteq> idle"
  shows "\<exists>k'. kernel_step (Delay n) k = Some k' \<and> sched_ok idle k'"
proof (cases "n > 0")
  case True
  from block_sched [OF assms True, of False] obtain y k1 where
    "xTaskResumeAll (prvAddCurrentTaskToDelayedList n False (vTaskSuspendAll k)) = Some (y, k1)" "sched_base idle k1" by blast
  moreover have "uxSchedulerSuspended (vTaskSuspendAll k) = 1" using assms(1) by (simp add: vTaskSuspendAll_def sched_ok_def sched_base_def)
  ultimately show ?thesis using switch_sched [of idle k1] True by (simp add: kernel_step_def vTaskDelay_def)
next
  case False
  then show ?thesis using switch_sched [of idle k] assms(1) by (simp add: kernel_step_def vTaskDelay_def sched_ok_def)
qed

lemma suspend_resume_sched:
  "sched_base idle k \<Longrightarrow> \<exists>y k'. xTaskResumeAll (vTaskSuspendAll k) = Some (y, k') \<and> sched_base idle k'"
proof -
  assume b: "sched_base idle k"
  note d = sched_baseD [OF b]
  have "xTaskResumeAll (vTaskSuspendAll k) = Some (xYieldPending (vTaskSuspendAll k), (vTaskSuspendAll k)\<lparr>uxSchedulerSuspended := 0\<rparr>)"
    by (rule resume_quiet) (simp_all add: vTaskSuspendAll_def d)
  moreover have "(vTaskSuspendAll k)\<lparr>uxSchedulerSuspended := 0\<rparr> = k" using d(3) by (simp add: vTaskSuspendAll_def)
  ultimately show ?thesis using b by simp
qed

lemma wait_positive: "delay_until_wait p n now \<Longrightarrow> 0 < p + n - now"
  by (auto simp: delay_until_wait_def Let_def word_neq_0_conv [symmetric] split: if_splits)

lemma delay_until_sched:
  assumes "sched_ok idle k" and "pxCurrentTCB k \<noteq> idle" and "0 < n"
  shows "\<exists>k'. kernel_step (Delay_Until p n) k = Some k' \<and> sched_ok idle k'"
proof -
  have b: "sched_base idle k" using assms(1) by (simp add: sched_ok_def)
  have s: "uxSchedulerSuspended (vTaskSuspendAll k) = 1" "xTickCount (vTaskSuspendAll k) = xTickCount k"
    using sched_baseD(3) [OF b] by (simp_all add: vTaskSuspendAll_def)
  let ?w = "delay_until_wait p n (xTickCount k)"
  let ?k = "if ?w then prvAddCurrentTaskToDelayedList (p + n - xTickCount k) False (vTaskSuspendAll k) else vTaskSuspendAll k"
  have "\<exists>y k1. xTaskResumeAll ?k = Some (y, k1) \<and> sched_base idle k1"
    using block_sched [OF assms(1,2) wait_positive] suspend_resume_sched [OF b] by simp
  then obtain y k1 where r: "xTaskResumeAll ?k = Some (y, k1)" "sched_base idle k1" by blast
  from switch_sched [OF r(2)] show ?thesis
    using assms(3) r(1) by (auto simp: kernel_step_def xTaskDelayUntil_def Let_def s)
qed

lemma notify_wait_sched:
  assumes "sched_ok idle k" and "pxCurrentTCB k \<noteq> idle"
  shows "\<exists>k'. kernel_step (Notify_Wait c n) k = Some k' \<and> sched_ok idle k'"
proof (cases "ucNotifyState (tcbs k (pxCurrentTCB k)) \<noteq> taskNOTIFICATION_RECEIVED \<and> n > 0")
  case True
  let ?f = "\<lambda>x. x\<lparr>ulNotifiedValue := ulNotifiedValue x AND NOT c, ucNotifyState := taskWAITING_NOTIFICATION\<rparr>"
  let ?k = "set_tcb (pxCurrentTCB k) ?f k"
  have "sched_ok idle ?k"
    using set_sched [of idle k ?f "pxCurrentTCB k"] assms(1) by (simp add: sched_ok_def)
  moreover have "pxCurrentTCB ?k \<noteq> idle" "0 < n" using assms(2) True by simp_all
  ultimately obtain y k1 where r: "xTaskResumeAll (prvAddCurrentTaskToDelayedList n True (vTaskSuspendAll ?k)) = Some (y, k1)" "sched_base idle k1"
    using block_sched by blast
  have c: "set_tcb (pxCurrentTCB k) ?f (vTaskSuspendAll k) = vTaskSuspendAll ?k" by (simp add: set_tcb_def vTaskSuspendAll_def)
  have "tcbs (vTaskSuspendAll k) = tcbs k" by (simp add: vTaskSuspendAll_def)
  with True r(1) have "kernel_step (Notify_Wait c n) k = vTaskSwitchContext k1"
    by (cases "vTaskSwitchContext k1") (simp_all add: kernel_step_def notify_wait_enter_def Let_def resume_and_yield_def c)
  with switch_sched [OF r(2)] show ?thesis by simp
next
  case False
  then have "kernel_step (Notify_Wait c n) k = Some k" by (auto simp: kernel_step_def notify_wait_enter_def Let_def)
  with assms(1) show ?thesis by blast
qed

text \<open>Suspending, resuming and changing priorities.\<close>

lemma suspend_sched:
  assumes "sched_ok idle k" and "prvGetTCBFromHandle h k \<noteq> idle"
  shows "\<exists>k'. kernel_step (Suspend h) k = Some k' \<and> sched_ok idle k'"
proof -
  have b: "sched_base idle k" "top_running k" using assms(1) by (simp_all add: sched_ok_def)
  note d = sched_baseD [OF b(1)]
  let ?t = "prvGetTCBFromHandle h k"
  obtain k1 where s: "vTaskSuspend h k = Some (?t = pxCurrentTCB k, k1)" "places_ok k1" "times_ok k1" "uxSchedulerSuspended k1 = 0"
    "xStatePlace (tcbs k1 ?t) = In_Suspended" "xEventPlace (tcbs k1 ?t) = On_No_List"
    "uxPriority (tcbs k1 ?t) = uxPriority (tcbs k ?t)" "uxBasePriority (tcbs k1 ?t) = uxBasePriority (tcbs k ?t)"
    "\<forall>x. x \<noteq> ?t \<longrightarrow> tcbs k1 x = tcbs k x" "pxCurrentTCB k1 = pxCurrentTCB k" "xPendedTicks k1 = xPendedTicks k"
    "xPendingReadyList k = [] \<longrightarrow> xPendingReadyList k1 = []"
    using suspend_ok [OF d(1-3) refl, of h] by blast
  have tcb: "xEventPlace (tcbs k1 x) = On_No_List \<and> uxBasePriority (tcbs k1 x) \<le> uxPriority (tcbs k1 x)" for x
    using s(6-9) d(6,7) by (cases "x = ?t") simp_all
  have "tcbs k1 idle = tcbs k idle" using s(9) assms(2) by metis
  then have base: "sched_base idle k1" using s d tcb by (simp add: sched_base_def)
  have "top_running k1" if "?t \<noteq> pxCurrentTCB k"
    unfolding top_running_def s(10)
  proof (intro conjI allI impI)
    have c: "tcbs k1 (pxCurrentTCB k) = tcbs k (pxCurrentTCB k)" using s(9) that by metis
    show "\<exists>p. xStatePlace (tcbs k1 (pxCurrentTCB k)) = In_Ready p" using b(2) by (simp add: c top_running_def)
    fix x p assume x: "xStatePlace (tcbs k1 x) = In_Ready p"
    then have "x \<noteq> ?t" using s(5) by auto
    then have "tcbs k1 x = tcbs k x" using s(9) by metis
    then show "uxPriority (tcbs k1 x) \<le> uxPriority (tcbs k1 (pxCurrentTCB k))" using x b(2) by (simp add: c top_running_def)
  qed
  from yield_sched [OF base this] show ?thesis by (simp add: kernel_step_def s(1))
qed

lemma resume_sched:
  assumes "sched_ok idle k" and "t \<noteq> 0"
  shows "\<exists>k'. kernel_step (Resume t) k = Some k' \<and> sched_ok idle k'"
proof -
  have b: "sched_base idle k" "top_running k" using assms(1) by (simp_all add: sched_ok_def)
  let ?r = "prvAddTaskToReadyList t (remove_state_item t k)"
  let ?up = "uxPriority (tcbs k (pxCurrentTCB k)) < uxPriority (tcbs k t)"
  have u: "(uxPriority (tcbs ?r (pxCurrentTCB ?r)) < uxPriority (tcbs ?r t)) = ?up" by simp
  have n: "\<not> ?up \<Longrightarrow> top_running ?r" by (rule ready_top [OF b(2)]) simp
  show ?thesis
  proof (cases "t \<noteq> pxCurrentTCB k \<and> prvTaskIsTaskSuspended t k")
    case True
    then have "vTaskResume t k = Some (?up, ?r)" using assms(2) by (simp only: vTaskResume_def Let_def u if_True if_False simp_thms)
    with yield_sched [OF ready_sched [OF b(1)] n] show ?thesis by (simp add: kernel_step_def)
  next
    case False
    then show ?thesis using assms by (auto simp: kernel_step_def vTaskResume_def yield_if_def)
  qed
qed

lemma priority_sched:
  assumes "sched_ok idle k" and "p < configMAX_PRIORITIES"
  shows "\<exists>k'. kernel_step (Set_Priority h p) k = Some k' \<and> sched_ok idle k'"
proof -
  have b: "sched_base idle k" "top_running k" using assms(1) by (simp_all add: sched_ok_def)
  note d = sched_baseD [OF b(1)]
  define t where "t = prvGetTCBFromHandle h k"
  let ?x = "tcbs k t"
  let ?p = "if uxBasePriority ?x = uxPriority ?x \<or> p > uxPriority ?x then p else uxPriority ?x"
  let ?y = "if p > uxBasePriority ?x then t \<noteq> pxCurrentTCB k \<and> p > uxPriority (tcbs k (pxCurrentTCB k)) else t = pxCurrentTCB k"
  let ?k1 = "reset_event_value t p (set_tcb t (\<lambda>x. x\<lparr>uxPriority := ?p, uxBasePriority := p\<rparr>) k)"
  let ?ready = "xStatePlace ?x = In_Ready (uxPriority ?x)"
  let ?k2 = "if ?ready then prvAddTaskToReadyList t (remove_state_item t ?k1) else ?k1"
  show ?thesis
  proof (cases "uxBasePriority ?x = p")
    case True
    then show ?thesis using assms by (simp add: kernel_step_def vTaskPrioritySet_def Let_def yield_if_def flip: t_def)
  next
    case False
    let ?f = "\<lambda>x. if xEventItemValue x AND taskEVENT_LIST_ITEM_VALUE_IN_USE = 0
      then x\<lparr>uxPriority := ?p, uxBasePriority := p, xEventItemValue := of_nat configMAX_PRIORITIES - of_nat p\<rparr>
      else x\<lparr>uxPriority := ?p, uxBasePriority := p\<rparr>"
    have k1: "?k1 = set_tcb t ?f k" by (simp add: reset_event_set set_tcb_def)
    have comm: "remove_state_item t (set_tcb t ?f k) = set_tcb t ?f (remove_state_item t k)"
      by (rule remove_set_commute) simp_all
    have *: "vTaskPrioritySet h p k = Some (?y, ?k2)"
      using False assms(2) by (simp add: vTaskPrioritySet_def Let_def flip: t_def)
    have "places_ok ?k2"
    proof (cases ?ready)
      case True
      have "places_ok (prvAddTaskToReadyList t (set_tcb t ?f (remove_state_item t k)))"
        by (rule places_reprioritise [OF d(1)]) simp
      then show ?thesis using True unfolding k1 comm by simp
    next
      case False
      have "places_ok (set_tcb t ?f k)" by (rule places_set_unready [OF d(1)]) (use False ready_own [OF d(1)] in simp_all)
      then show ?thesis using False unfolding k1 by simp
    qed
    moreover have "times_ok ?k2" unfolding k1 by (rule times_subset [OF d(2), where t = t]) auto
    moreover have same: "pxCurrentTCB ?k2 = pxCurrentTCB k" "uxSchedulerSuspended ?k2 = 0" "xPendedTicks ?k2 = 0" "xPendingReadyList ?k2 = []"
      unfolding k1 using d by simp_all
    moreover have tcb: "uxPriority (tcbs ?k2 x) = (if x = t then ?p else uxPriority (tcbs k x))"
      "uxBasePriority (tcbs ?k2 x) = (if x = t then p else uxBasePriority (tcbs k x))" "xEventPlace (tcbs ?k2 x) = On_No_List"
      "(\<exists>q. xStatePlace (tcbs ?k2 x) = In_Ready q) \<longleftrightarrow> (\<exists>q. xStatePlace (tcbs k x) = In_Ready q)" for x
      unfolding k1 using d(6) by auto
    ultimately have base: "sched_base idle ?k2" using d(7) [of t] d(7,8) by (simp only: sched_base_def tcb) auto
    have "top_running ?k2" if "\<not> ?y"
      using b(2) d(7) [of t] that False unfolding top_running_def same tcb(1)
      by (simp only: tcb(4)) (auto split: if_splits)
    with yield_sched [OF base] * show ?thesis by (simp add: kernel_step_def)
  qed
qed

section \<open>Any sequence of calls\<close>

lemma kernel_step_ok: "sched_ok idle k \<Longrightarrow> allowed idle op k \<Longrightarrow> \<exists>k'. kernel_step op k = Some k' \<and> sched_ok idle k'"
proof (cases op)
  case Yield
  assume "sched_ok idle k"
  then show ?thesis using switch_sched [of idle k] Yield by (simp add: kernel_step_def sched_ok_def)
qed (simp_all add: allowed_def tick_sched delay_sched delay_until_sched suspend_sched resume_sched notify_sched notify_wait_sched priority_sched)

fun run_calls :: "nat \<Rightarrow> kernel_op list \<Rightarrow> kernel \<Rightarrow> kernel option" where
  "run_calls idle [] k = Some k"
| "run_calls idle (op # ops) k = (if allowed idle op k then Option.bind (kernel_step op k) (run_calls idle ops) else run_calls idle ops k)"

lemma run_calls_ok: "sched_ok idle k \<Longrightarrow> \<exists>k'. run_calls idle ops k = Some k' \<and> sched_ok idle k'"
proof (induction ops arbitrary: k)
  case (Cons op ops)
  then show ?case using kernel_step_ok [OF Cons.prems, of op] by auto
qed simp

text \<open>
  C5: The scheduler never breaks: whatever ticks, yields, delays, periodic delays, suspensions, resumptions, notifications from
  tasks and interrupts, waits for notifications and priority changes happen in whatever order, every call returns without a
  failed assertion or an endless loop; then each task is in exactly the list that its control block names, once, in the
  ready list of its priority if it is ready, the delayed lists are sorted with wake times ahead of the tick count, and
  the running task is a ready task that no ready task exceeds in priority.
\<close>

theorem scheduler_well_formed:
  assumes "sched_ok idle k"
  shows "\<exists>k'. run_calls idle ops k = Some k' \<and> places_ok k' \<and> times_ok k' \<and>
    xStatePlace (tcbs k' (pxCurrentTCB k')) = In_Ready (uxPriority (tcbs k' (pxCurrentTCB k'))) \<and>
    (\<forall>t p. xStatePlace (tcbs k' t) = In_Ready p \<longrightarrow> uxPriority (tcbs k' t) \<le> uxPriority (tcbs k' (pxCurrentTCB k')))"
proof -
  obtain k' where r: "run_calls idle ops k = Some k'" "sched_base idle k'" "top_running k'"
    using run_calls_ok [OF assms] by (auto simp: sched_ok_def)
  then show ?thesis
    using sched_baseD(1,2) [OF r(2)] places_okD(4) [OF sched_baseD(1) [OF r(2)]] by (auto simp: top_running_def)
qed

lemma two_tasks_sched: "sched_ok 2 (two_tasks now)"
proof -
  have "places_ok (two_tasks now)" "times_ok (two_tasks now)" using two_tasks_ok [of now] by (simp_all add: kernel_ok_def)
  then show ?thesis by (auto simp: sched_ok_def sched_base_def top_running_def two_tasks_def ready_task_def)
qed

lemma scheduler_well_formed_witness:
  "\<exists>k'. run_calls 2 [Delay 2, Tick, Notify_From_ISR 1 5 eSetBits, Set_Priority 1 0, Tick, Notify_Wait 0 portMAX_DELAY, Tick, Suspend 1, Resume 1]
       (two_tasks 0xFFFFFFFE) = Some k' \<and> places_ok k' \<and> times_ok k'"
  using scheduler_well_formed [OF two_tasks_sched] by blast

end
