(* ===== verification/QueueSync.thy ===== *)
theory QueueSync
  imports QueueFifo Scheduler
begin

text \<open>
  Queues as synchronisation: a mutex has one holder at a time and only the holder gives it back, a recursive mutex is
  given back by the last of its nested gives, and a task that blocks on an empty queue does not miss the item that an interrupt sends
  while it is on its way to the event list.
\<close>

section \<open>Mutexes\<close>

text \<open>The mutex is held by \<open>owner\<close>, or free if that is \<open>0\<close>.\<close>

definition mutex_held :: "nat \<Rightarrow> queue \<Rightarrow> kernel \<Rightarrow> bool" where
  "mutex_held owner q k \<longleftrightarrow> is_mutex q \<and> uxItemSize q = 0 \<and> uxLength q = 1 \<and> xMutexHolder q = owner \<and>
     uxMessagesWaiting q = (if owner = 0 then 1 else 0) \<and> (owner \<noteq> 0 \<longrightarrow> 0 < uxMutexesHeld (tcbs k owner))"

lemma remove_from_event_list_held:
  "xTaskRemoveFromEventList e k = Some (y, k') \<Longrightarrow> uxMutexesHeld (tcbs k' x) = uxMutexesHeld (tcbs k x)"
  by (auto simp: xTaskRemoveFromEventList_def Let_def split: list.splits if_splits)

lemma wake_waiting_held: "wake_waiting e k = Some (y, k') \<Longrightarrow> uxMutexesHeld (tcbs k' x) = uxMutexesHeld (tcbs k x)"
  by (auto simp: wake_waiting_def remove_from_event_list_held split: if_splits)

text \<open>Taking without waiting succeeds iff the mutex is free, and makes the running task the holder.\<close>

lemma take_mutex:
  assumes "mutex_held owner q k" and "t = pxCurrentTCB k" and "t \<noteq> 0"
  shows "\<exists>y q' k'. xQueueSemaphoreTake 0 [] q k = Some (if owner = 0 then Returned () else Failed, y, q', k') \<and>
    mutex_held (if owner = 0 then t else owner) q' k' \<and> uxRecursiveCallCount q' = uxRecursiveCallCount q"
proof (cases "owner = 0")
  case True
  let ?k = "set_tcb t (\<lambda>x. x\<lparr>uxMutexesHeld := uxMutexesHeld x + 1\<rparr>) k"
  let ?q = "q\<lparr>uxMessagesWaiting := 0, xMutexHolder := t\<rparr>"
  obtain y k' where w: "wake_waiting (xTasksWaitingToSend q) ?k = Some (y, k')" using wake_waiting_ok by blast
  have "take_now q k = Some (Some ((), y, ?q, k'))"
    using assms True w by (simp add: take_now_def mutex_held_def pvTaskIncrementMutexHeldCount_def Let_def)
  moreover have "mutex_held t ?q k'"
    using assms True wake_waiting_held [OF w, of t] by (simp add: mutex_held_def)
  ultimately show ?thesis
    using assms(1) True by (auto simp: xQueueSemaphoreTake_def may_wait_def wait_loop.simps mutex_held_def)
next
  case False
  then have "take_now q k = Some None" using assms(1) by (simp add: take_now_def mutex_held_def)
  then show ?thesis
    using assms(1) False by (auto simp: xQueueSemaphoreTake_def may_wait_def wait_loop.simps mutex_held_def)
qed

lemma disinherit_some:
  "h \<noteq> 0 \<Longrightarrow> h = pxCurrentTCB k \<Longrightarrow> 0 < uxMutexesHeld (tcbs k h) \<Longrightarrow> \<exists>y k'. xTaskPriorityDisinherit h k = Some (y, k')"
  by (auto simp: xTaskPriorityDisinherit_def Let_def)

text \<open>Giving succeeds iff the running task holds the mutex; giving the mutex of another task stops at an assertion.\<close>

lemma give_mutex:
  assumes "mutex_held owner q k" and "t = pxCurrentTCB k" and "t \<noteq> 0"
  shows "if owner = t then \<exists>y q' k'. xQueueGenericSend None 0 queueSEND_TO_BACK [] q k = Some (Returned (), y, q', k') \<and> mutex_held 0 q' k' \<and>
           uxRecursiveCallCount q' = uxRecursiveCallCount q
         else if owner = 0 then xQueueGenericSend None 0 queueSEND_TO_BACK [] q k = Some (Failed, False, q, k)
         else xQueueGenericSend None 0 queueSEND_TO_BACK [] q k = None"
proof -
  have c: "\<not> (None = (None :: u8 list option) \<and> uxItemSize q \<noteq> 0)" "may_wait 0 k"
    using assms(1) by (simp_all add: mutex_held_def may_wait_def)
  consider "owner = t" | "owner = 0" | "owner \<noteq> t" "owner \<noteq> 0" by blast
  then show ?thesis
  proof cases
    case 1
    obtain y k1 where d: "xTaskPriorityDisinherit t k = Some (y, k1)"
      using disinherit_some [OF assms(3,2)] assms(1,3) 1 by (auto simp: mutex_held_def)
    let ?q = "q\<lparr>xMutexHolder := 0, uxMessagesWaiting := 1\<rparr>"
    have p: "prvCopyDataToQueue [] queueSEND_TO_BACK q k = Some (y, ?q, k1)"
      using assms 1 d by (simp add: prvCopyDataToQueue_def mutex_held_def)
    have "\<exists>z k2. send_now [] queueSEND_TO_BACK q k = Some (Some ((), z, ?q, k2))"
      using assms(1,3) 1 p remove_from_event_list [of k1 "xTasksWaitingToReceive q"]
      by (cases "xEventLists k1 (xTasksWaitingToReceive q) = []") (auto simp: send_now_def mutex_held_def)
    moreover have "mutex_held 0 ?q k2" for k2 using assms(1) by (simp add: mutex_held_def)
    ultimately show ?thesis using c 1 by (auto simp: xQueueGenericSend_def wait_loop.simps)
  next
    case 2
    then have "send_now [] queueSEND_TO_BACK q k = Some None" using assms(1) by (simp add: send_now_def mutex_held_def)
    then show ?thesis using c 2 assms(3) by (simp add: xQueueGenericSend_def wait_loop.simps)
  next
    case 3
    then have "xTaskPriorityDisinherit owner k = None" using assms(2) by (simp add: xTaskPriorityDisinherit_def)
    then have "send_now [] queueSEND_TO_BACK q k = None"
      using assms(1) 3 by (simp add: send_now_def prvCopyDataToQueue_def mutex_held_def)
    then show ?thesis using c 3 by (simp add: xQueueGenericSend_def wait_loop.simps)
  qed
qed

section \<open>The kernel around a mutex\<close>

text \<open>The kernel between two interrupts while the scheduler runs; the idle task is always ready.\<close>

definition is_ready :: "nat \<Rightarrow> kernel \<Rightarrow> bool" where "is_ready t k \<longleftrightarrow> (\<exists>p. xStatePlace (tcbs k t) = In_Ready p)"

definition kernel_runs :: "nat \<Rightarrow> kernel \<Rightarrow> bool" where
  "kernel_runs idle k \<longleftrightarrow> places_ok k \<and> times_ok k \<and> uxSchedulerSuspended k = 0 \<and> xPendedTicks k = 0 \<and> xPendingReadyList k = [] \<and> is_ready idle k"

text \<open>The kernel while task \<open>t\<close> has suspended the scheduler: interrupts may have made tasks pending and ticks pend.\<close>

definition kernel_held :: "nat \<Rightarrow> nat \<Rightarrow> kernel \<Rightarrow> bool" where
  "kernel_held idle t k \<longleftrightarrow> places_ok k \<and> times_ok k \<and> uxSchedulerSuspended k = 1 \<and> pxCurrentTCB k = t \<and> is_ready idle k \<and>
     distinct (xPendingReadyList k) \<and> (\<forall>x \<in> set (xPendingReadyList k). x \<noteq> t \<and> xEventPlace (tcbs k x) = On_Pending)"

definition holds_same :: "kernel \<Rightarrow> kernel \<Rightarrow> bool" where
  "holds_same k k' \<longleftrightarrow> (\<forall>x. uxMutexesHeld (tcbs k' x) = uxMutexesHeld (tcbs k x))"

lemma holds_trans: "holds_same k1 k2 \<Longrightarrow> holds_same k2 k3 \<Longrightarrow> holds_same k1 k3"
  by (simp add: holds_same_def)

lemma runs_ready:
  assumes "kernel_runs idle k"
  shows "kernel_runs idle (prvAddTaskToReadyList t (remove_state_item t k))"
    and "is_ready x k \<Longrightarrow> is_ready x (prvAddTaskToReadyList t (remove_state_item t k))"
    and "is_ready t (prvAddTaskToReadyList t (remove_state_item t k))"
proof -
  let ?k = "prvAddTaskToReadyList t (remove_state_item t k)"
  have "places_ok ?k" by (intro places_add_ready places_remove_state) (use assms in \<open>simp_all add: kernel_runs_def\<close>)
  moreover have "times_ok ?k" by (rule times_subset [where k = k and t = t]) (use assms in \<open>auto simp: kernel_runs_def\<close>)
  ultimately show "kernel_runs idle ?k" using assms by (auto simp: kernel_runs_def is_ready_def)
qed (auto simp: is_ready_def)

lemma runs_event: "kernel_runs idle k \<Longrightarrow> kernel_runs idle (remove_event_item t k)"
  unfolding kernel_runs_def
  by (auto intro: places_remove_event times_subset [where k = k and t = t] simp: is_ready_def)

lemma runs_flag: "kernel_runs idle k \<Longrightarrow> kernel_runs idle (k\<lparr>xYieldPending := b\<rparr>)" "kernel_runs idle k \<Longrightarrow> kernel_runs idle (k\<lparr>pxCurrentTCB := t\<rparr>)"
  by (auto simp: kernel_runs_def is_ready_def intro: places_times [of k] times_cong [of k])

lemma runs_set:
  assumes "kernel_runs idle k" and "\<And>x. xStatePlace (f x) = xStatePlace x" and "\<And>x. uxPriority (f x) = uxPriority x"
    and "\<And>x. xStateItemValue (f x) = xStateItemValue x"
  shows "kernel_runs idle (set_tcb t f k)"
proof -
  have "places_ok (set_tcb t f k)" by (rule places_set_tcb) (use assms in \<open>simp_all add: kernel_runs_def\<close>)
  moreover have "times_ok (set_tcb t f k)" by (rule times_subset [where k = k and t = t]) (use assms in \<open>simp_all add: kernel_runs_def\<close>)
  ultimately show ?thesis using assms(1) by (auto simp: kernel_runs_def is_ready_def assms(2-4))
qed

lemma remove_from_event_runs:
  assumes "xTaskRemoveFromEventList e k = Some (y, k')" and "kernel_runs idle k"
  shows "kernel_runs idle k'"
proof -
  obtain t ts where "xEventLists k e = t # ts" using assms(1) by (auto simp: xTaskRemoveFromEventList_def split: list.splits)
  moreover have "kernel_runs idle (prvAddTaskToReadyList t (remove_state_item t (remove_event_item t k)))"
    by (intro runs_ready(1) runs_event assms(2))
  ultimately show ?thesis
    using assms runs_flag(1) by (auto simp: xTaskRemoveFromEventList_def Let_def kernel_runs_def split: if_splits)
qed

lemma wake_runs: "wake_waiting e k = Some (y, k') \<Longrightarrow> kernel_runs idle k \<Longrightarrow> kernel_runs idle k'"
  by (auto simp: wake_waiting_def remove_from_event_runs split: if_splits)

lemma disinherit_runs:
  assumes "xTaskPriorityDisinherit h k = Some (y, k')" and "kernel_runs idle k" and "h = 0 \<or> is_ready h k"
  shows "kernel_runs idle k'"
proof (cases "h = 0")
  case True
  then show ?thesis using assms(1,2) by (simp add: xTaskPriorityDisinherit_def)
next
  case False
  let ?k = "set_tcb h (\<lambda>x. x\<lparr>uxMutexesHeld := uxMutexesHeld x - 1\<rparr>) k"
  let ?n = "set_tcb h (\<lambda>x. x\<lparr>xEventItemValue := of_nat configMAX_PRIORITIES - of_nat (uxPriority x)\<rparr>)
    (set_tcb h (\<lambda>x. x\<lparr>uxPriority := uxBasePriority x\<rparr>) (remove_state_item h ?k))"
  obtain p where p: "xStatePlace (tcbs k h) = In_Ready p" using assms(3) False by (auto simp: is_ready_def)
  have c: "h = pxCurrentTCB k" "uxMutexesHeld (tcbs k h) \<noteq> 0" using assms(1) False by (auto simp: xTaskPriorityDisinherit_def split: if_splits)
  obtain y2 k2 where "xTaskPriorityDisinherit h k = Some (y2, k2)" "places_ok k2" "xStatePlace (tcbs k2 h) = In_Ready (uxPriority (tcbs k2 h))"
    "\<forall>x. x \<noteq> h \<longrightarrow> tcbs k2 x = tcbs k x"
    using disinherit_ok [OF _ c(1) False c(2) p] assms(2) by (auto simp: kernel_runs_def)
  then have k': "places_ok k'" "is_ready idle k'" using assms(1,2) by (auto simp: kernel_runs_def is_ready_def)
  have "times_ok k'"
    by (rule times_subset [where k = k and t = h]) (use assms(1,2) False in \<open>auto simp: xTaskPriorityDisinherit_def Let_def kernel_runs_def split: if_splits\<close>)
  moreover have "uxSchedulerSuspended k' = 0" "xPendedTicks k' = 0" "xPendingReadyList k' = []"
    using assms(1,2) False by (auto simp: xTaskPriorityDisinherit_def Let_def kernel_runs_def split: if_splits)
  ultimately show ?thesis using k' by (simp add: kernel_runs_def)
qed

lemma switch_runs:
  assumes "kernel_runs idle k"
  shows "\<exists>k'. vTaskSwitchContext k = Some k' \<and> kernel_runs idle k' \<and> holds_same k k'"
proof -
  obtain p where p: "xStatePlace (tcbs k idle) = In_Ready p" using assms by (auto simp: kernel_runs_def is_ready_def)
  have pl: "places_ok k" "uxSchedulerSuspended k = 0" using assms by (simp_all add: kernel_runs_def)
  obtain k' where k': "vTaskSwitchContext k = Some k'" "places_ok k'" "tcbs k' = tcbs k" "xDelayedTaskLists k' = xDelayedTaskLists k"
    "pxDelayedTaskList k' = pxDelayedTaskList k" "xTickCount k' = xTickCount k" "xNextTaskUnblockTime k' = xNextTaskUnblockTime k"
    "uxSchedulerSuspended k' = 0" "xPendedTicks k' = xPendedTicks k" "xPendingReadyList k' = xPendingReadyList k"
    using switch_ok [OF pl p] by blast
  have "times_ok k'" by (rule times_cong [OF _ k'(3-7)]) (use assms in \<open>simp add: kernel_runs_def\<close>)
  then show ?thesis using k' assms by (simp add: kernel_runs_def holds_same_def is_ready_def)
qed

text \<open>Suspending, blocking and inheriting a priority while the scheduler is suspended.\<close>

lemma suspend_held:
  assumes "kernel_runs idle k" and "pxCurrentTCB k = t"
  shows "kernel_held idle t (vTaskSuspendAll k)"
  using assms by (auto simp: kernel_runs_def kernel_held_def vTaskSuspendAll_def is_ready_def intro: places_times [of k] times_cong [of k])

lemma inherit_held:
  assumes "xTaskPriorityInherit h k = (b, k')" and "kernel_held idle t k"
  shows "kernel_held idle t k' \<and> holds_same k k' \<and> (is_ready t k \<longrightarrow> is_ready t k')"
proof -
  note i = inherit_ok [OF _ assms(1)]
  have p: "places_ok k" using assms(2) by (simp add: kernel_held_def)
  have "times_ok k'"
    by (rule times_subset [where k = k and t = h]) (use assms in \<open>auto simp: xTaskPriorityInherit_def Let_def kernel_held_def reset_event_set split: if_splits\<close>)
  moreover have "uxSchedulerSuspended k' = uxSchedulerSuspended k" "xPendingReadyList k' = xPendingReadyList k" "xEventPlace (tcbs k' x) = xEventPlace (tcbs k x)" for x
    using assms(1) by (auto simp: xTaskPriorityInherit_def Let_def reset_event_set split: if_splits)
  ultimately show ?thesis
    using assms(2) i(1,4,5,7) [OF p] by (simp add: kernel_held_def holds_same_def is_ready_def)
qed

lemma times_delay:
  assumes "places_ok k" and "times_ok k" and "is_ready (pxCurrentTCB k) k" and "0 < n"
  shows "times_ok (prvAddCurrentTaskToDelayedList n c k)"
proof (cases "n = portMAX_DELAY \<and> c")
  case True
  then show ?thesis
    by (intro times_subset [OF assms(2), where t = "pxCurrentTCB k"]) (simp_all add: prvAddCurrentTaskToDelayedList_def Let_def)
next
  case False
  obtain p where "xStatePlace (tcbs k (pxCurrentTCB k)) = In_Ready p" using assms(3) by (auto simp: is_ready_def)
  from delay_current [OF assms(1,2) refl this assms(4) refl] False show ?thesis
    by (auto simp: prvAddCurrentTaskToDelayedList_def)
qed

lemma place_held:
  assumes "kernel_held idle t k" and "is_ready t k" and "t \<noteq> idle" and "0 < n"
  shows "kernel_held idle t (vTaskPlaceOnEventList e n k) \<and> holds_same k (vTaskPlaceOnEventList e n k)"
proof -
  note a = assms(1) [unfolded kernel_held_def]
  let ?ki = "insert_event e t k"
  have "places_ok (k\<lparr>xEventLists := (xEventLists k)(e := insert_stable (\<lambda>x. xEventItemValue (tcbs k x)) t (xEventLists k e))\<rparr>)"
    by (rule places_times [of k]) (use a in simp_all)
  then have p: "places_ok ?ki" unfolding insert_event_def by (rule places_set_tcb) simp_all
  have t: "times_ok ?ki" by (rule times_subset [where k = k and t = t]) (use a in \<open>simp_all add: insert_event_def\<close>)
  have i: "pxCurrentTCB ?ki = t" "is_ready t ?ki" "xPendingReadyList ?ki = xPendingReadyList k" "uxSchedulerSuspended ?ki = 1"
    "x \<noteq> t \<Longrightarrow> tcbs ?ki x = tcbs k x" "uxMutexesHeld (tcbs ?ki x) = uxMutexesHeld (tcbs k x)" for x
    using a assms(2) by (simp_all add: insert_event_def is_ready_def)
  let ?kd = "prvAddCurrentTaskToDelayedList n True ?ki"
  have "places_ok ?kd" by (rule places_delay [OF p])
  moreover have "times_ok ?kd" by (rule times_delay [OF p t]) (simp_all add: i assms(4))
  moreover have "tcbs ?kd x = tcbs k x" if "x \<noteq> t" for x using that i(1,5) by simp
  moreover have "uxMutexesHeld (tcbs ?kd x) = uxMutexesHeld (tcbs k x)" for x
    using i(6) by (simp add: prvAddCurrentTaskToDelayedList_def Let_def)
  ultimately show ?thesis
    using a i assms(3) by (auto simp: vTaskPlaceOnEventList_def kernel_held_def holds_same_def is_ready_def)
qed

text \<open>Resuming: the pending tasks become ready, the pended ticks are counted.\<close>

lemma drain_ok:
  assumes "places_ok k" and "times_ok k" and "distinct (xPendingReadyList k)" and "\<forall>x \<in> set (xPendingReadyList k). xEventPlace (tcbs k x) = On_Pending"
    and "is_ready idle k"
  shows "\<exists>b' k'. drain_pending b k = Some (b', k') \<and> places_ok k' \<and> times_ok k' \<and> xPendingReadyList k' = [] \<and> is_ready idle k' \<and> holds_same k k' \<and>
    uxSchedulerSuspended k' = uxSchedulerSuspended k \<and> xPendedTicks k' = xPendedTicks k"
  using assms
proof (induction "xPendingReadyList k" arbitrary: k b)
  case Nil
  then show ?case by (subst drain_pending.simps) (simp add: holds_same_def)
next
  case (Cons t ts)
  let ?k1 = "prvAddTaskToReadyList t (remove_state_item t (remove_event_item t k))"
  let ?k2 = "if uxPriority (tcbs ?k1 t) > uxPriority (tcbs ?k1 (pxCurrentTCB ?k1)) then ?k1\<lparr>xYieldPending := True\<rparr> else ?k1"
  have step: "drain_pending b k = drain_pending True ?k2"
    by (subst drain_pending.simps) (simp only: Cons.hyps(2) [symmetric] list.case Let_def)
  have t: "xEventPlace (tcbs k t) = On_Pending" using Cons.prems(4) Cons.hyps(2) [symmetric] by simp
  have d: "t \<notin> set ts" "distinct ts" using Cons.prems(3) Cons.hyps(2) [symmetric] by simp_all
  have p1: "places_ok ?k1" by (intro places_add_ready places_remove_state places_remove_event Cons.prems(1)) simp
  have t1: "times_ok ?k1" by (rule times_subset [OF Cons.prems(2), where t = t]) auto
  have 2: "places_ok ?k2" "times_ok ?k2" using p1 t1 by (auto intro: places_times [OF p1] times_cong [OF t1])
  have l: "xPendingReadyList ?k2 = ts" using t Cons.hyps(2) [symmetric] by simp
  have e: "\<forall>x \<in> set (xPendingReadyList ?k2). xEventPlace (tcbs ?k2 x) = On_Pending"
    unfolding l using Cons.prems(4) Cons.hyps(2) [symmetric] d(1) by auto
  have r: "is_ready idle ?k2" using Cons.prems(5) by (auto simp: is_ready_def)
  have h: "holds_same k ?k2" "uxSchedulerSuspended ?k2 = uxSchedulerSuspended k" "xPendedTicks ?k2 = xPendedTicks k"
    by (simp_all add: holds_same_def)
  have d2: "distinct (xPendingReadyList ?k2)" unfolding l by (rule d(2))
  from Cons.hyps(1) [OF l [symmetric] 2 d2 e r, of True] show ?case
    unfolding step h(2,3) using h(1) holds_trans by blast
qed

lemma replay_ok:
  assumes "kernel_runs idle (k\<lparr>xPendedTicks := 0\<rparr>)"
  shows "\<exists>k'. replay_ticks n k = Some k' \<and> kernel_runs idle (k'\<lparr>xPendedTicks := 0\<rparr>) \<and> xPendedTicks k' = xPendedTicks k \<and> holds_same k k'"
  using assms
proof (induction n arbitrary: k)
  case 0
  then show ?case by (simp add: holds_same_def)
next
  case (Suc n)
  have k: "places_ok k" "times_ok k" "uxSchedulerSuspended k = 0" "xPendingReadyList k = []" "is_ready idle k"
    using Suc.prems by (auto simp: kernel_runs_def is_ready_def intro: places_times [of "k\<lparr>xPendedTicks := 0\<rparr>" k] times_cong [of "k\<lparr>xPendedTicks := 0\<rparr>" k])
  obtain sw k1 where t: "xTaskIncrementTick k = Some (sw, k1)" "places_ok k1" "times_ok k1" "tcbs k1 = woken (\<lambda>t. ticks_left k t = Some 1) (tcbs k)"
    "uxSchedulerSuspended k1 = 0" "xPendedTicks k1 = xPendedTicks k"
    using tick_ok [OF k(1-3)] by blast
  let ?k2 = "if sw then k1\<lparr>xYieldPending := True\<rparr> else k1"
  have h: "uxMutexesHeld (tcbs k1 x) = uxMutexesHeld (tcbs k x)" "is_ready x k \<Longrightarrow> is_ready x k1" for x
    by (auto simp: t(4) woken_def is_ready_def)
  have r1: "kernel_runs idle (k1\<lparr>xPendedTicks := 0\<rparr>)"
    using t(2,3,5) tick_pending [OF t(1) k(3,4)] h(2) [OF k(5)]
    by (auto simp: kernel_runs_def is_ready_def intro: places_times [of k1] times_cong [of k1])
  have c: "k1\<lparr>xYieldPending := True, xPendedTicks := 0\<rparr> = k1\<lparr>xPendedTicks := 0, xYieldPending := True\<rparr>" by simp
  have "kernel_runs idle (k1\<lparr>xYieldPending := True, xPendedTicks := 0\<rparr>)" unfolding c by (rule runs_flag(1) [OF r1])
  with r1 have "kernel_runs idle (?k2\<lparr>xPendedTicks := 0\<rparr>)" by (cases sw) simp_all
  from Suc.IH [OF this] obtain k' where "replay_ticks n ?k2 = Some k'" "kernel_runs idle (k'\<lparr>xPendedTicks := 0\<rparr>)" "xPendedTicks k' = xPendedTicks ?k2" "holds_same ?k2 k'"
    by blast
  then show ?case using t(1,6) h(1) by (auto simp: holds_same_def)
qed

lemma resume_held:
  assumes "kernel_held idle t k"
  shows "\<exists>y k'. resume_and_yield False k = Some (y, k') \<and> kernel_runs idle k' \<and> holds_same k k'"
proof -
  note a = assms [unfolded kernel_held_def]
  let ?k0 = "k\<lparr>uxSchedulerSuspended := 0\<rparr>"
  have k0: "places_ok ?k0" "times_ok ?k0" "distinct (xPendingReadyList ?k0)" "\<forall>x \<in> set (xPendingReadyList ?k0). xEventPlace (tcbs ?k0 x) = On_Pending"
    "is_ready idle ?k0"
    using a by (auto simp: is_ready_def intro: places_times [of k] times_cong [of k])
  obtain b k1 where d: "drain_pending False ?k0 = Some (b, k1)" "places_ok k1" "times_ok k1" "xPendingReadyList k1 = []" "is_ready idle k1" "holds_same ?k0 k1"
    "uxSchedulerSuspended k1 = 0"
    using drain_ok [OF k0, of False] by auto
  let ?k2 = "if b then prvResetNextTaskUnblockTime k1 else k1"
  have s: "tcbs (prvResetNextTaskUnblockTime k1) = tcbs k1" "xPendingReadyList (prvResetNextTaskUnblockTime k1) = []"
    "uxSchedulerSuspended (prvResetNextTaskUnblockTime k1) = 0"
    using d by (simp_all add: prvResetNextTaskUnblockTime_def)
  have "places_ok (prvResetNextTaskUnblockTime k1)" by (rule places_times [OF d(2)]) (simp_all add: prvResetNextTaskUnblockTime_def)
  moreover have "times_ok (prvResetNextTaskUnblockTime k1)" by (rule reset_unblock_ok) (use d(3) in \<open>auto simp: times_ok_def\<close>)
  ultimately have "kernel_runs idle (?k2\<lparr>xPendedTicks := 0\<rparr>)"
    using d s by (auto simp: kernel_runs_def is_ready_def intro: places_times [of k1] times_cong [of k1]
        places_times [of "prvResetNextTaskUnblockTime k1"] times_cong [of "prvResetNextTaskUnblockTime k1"])
  from replay_ok [OF this, of "unat (xPendedTicks ?k2)"] obtain k3 where r: "replay_ticks (unat (xPendedTicks ?k2)) ?k2 = Some k3"
    "kernel_runs idle (k3\<lparr>xPendedTicks := 0\<rparr>)" "xPendedTicks k3 = xPendedTicks ?k2" "holds_same ?k2 k3" by blast
  let ?k4 = "if 0 < unat (xPendedTicks ?k2) then k3\<lparr>xPendedTicks := 0\<rparr> else k3"
  have k4: "kernel_runs idle ?k4"
  proof (cases "xPendedTicks ?k2 = 0")
    case True
    then have "?k4 = k3\<lparr>xPendedTicks := 0\<rparr>" using r(3) by simp
    then show ?thesis using r(2) by simp
  next
    case False
    then show ?thesis using r(2) by (simp add: unat_gt_0)
  qed
  have sus: "uxSchedulerSuspended k = 1" using a by simp
  have x: "xTaskResumeAll k = Some (xYieldPending ?k4, ?k4)"
    unfolding xTaskResumeAll_def Let_def using sus d(1) r(1) by simp
  have h: "holds_same k ?k4" using d(6) r(4) s(1) by (auto simp: holds_same_def split: if_splits)
  obtain k5 where "vTaskSwitchContext ?k4 = Some k5" "kernel_runs idle k5" "holds_same ?k4 k5" using switch_runs [OF k4] by blast
  then show ?thesis
    using x k4 h holds_trans [OF h] by (cases "xYieldPending ?k4") (auto simp: resume_and_yield_def simp del: unat_gt_0)
qed

text \<open>What a time-out undoes.\<close>

lemma after_timeout_runs:
  assumes "kernel_runs idle k" and "h = 0 \<or> 0 < uxMutexesHeld (tcbs k h)" and "h \<noteq> pxCurrentTCB k"
  shows "\<exists>k'. vTaskPriorityDisinheritAfterTimeout h p k = Some k' \<and> kernel_runs idle k' \<and> holds_same k k'"
proof -
  let ?p = "if uxBasePriority (tcbs k h) < p then p else uxBasePriority (tcbs k h)"
  let ?f = "\<lambda>x. if xEventItemValue x AND taskEVENT_LIST_ITEM_VALUE_IN_USE = 0
     then x\<lparr>uxPriority := ?p, xEventItemValue := of_nat configMAX_PRIORITIES - of_nat ?p\<rparr> else x\<lparr>uxPriority := ?p\<rparr>"
  let ?k = "reset_event_value h ?p (set_tcb h (\<lambda>x. x\<lparr>uxPriority := ?p\<rparr>) k)"
  have k: "?k = set_tcb h ?f k" unfolding reset_event_set by (auto simp: set_tcb_def fun_eq_iff)
  have pl: "places_ok k" "times_ok k" using assms(1) by (simp_all add: kernel_runs_def)
  have c: "remove_state_item h (set_tcb h ?f k) = set_tcb h ?f (remove_state_item h k)" by (rule remove_set_commute) auto
  have 1: "kernel_runs idle (prvAddTaskToReadyList h (remove_state_item h ?k)) \<and> holds_same k (prvAddTaskToReadyList h (remove_state_item h ?k))"
  proof -
    have "places_ok (prvAddTaskToReadyList h (remove_state_item h ?k))" unfolding k c by (rule places_reprioritise [OF pl(1)]) simp
    moreover have "times_ok (prvAddTaskToReadyList h (remove_state_item h ?k))" unfolding k c
      by (rule times_subset [OF pl(2), where t = h]) auto
    ultimately show ?thesis unfolding k c using assms(1) by (auto simp: kernel_runs_def is_ready_def holds_same_def)
  qed
  have 2: "kernel_runs idle ?k \<and> holds_same k ?k" if "xStatePlace (tcbs k h) \<noteq> In_Ready (uxPriority (tcbs k h))"
  proof -
    have "places_ok ?k" unfolding k by (rule places_set_unready [OF pl(1)]) (use ready_own [OF pl(1) that] in auto)
    moreover have "times_ok ?k" unfolding k by (rule times_subset [OF pl(2), where t = h]) auto
    ultimately show ?thesis unfolding k using assms(1) by (auto simp: kernel_runs_def is_ready_def holds_same_def)
  qed
  have "holds_same k k" by (simp add: holds_same_def)
  then show ?thesis using 1 2 assms by (auto simp: vTaskPriorityDisinheritAfterTimeout_def Let_def)
qed

section \<open>Tasks on a mutex\<close>

definition running :: "nat \<Rightarrow> kernel \<Rightarrow> kernel" where "running t k = k\<lparr>pxCurrentTCB := t\<rparr>"

text \<open>The mutex between two calls: held by \<open>owner\<close>, or free if that is \<open>0\<close>, and not locked by a call on its way.\<close>

definition mutex_at :: "nat \<Rightarrow> nat \<Rightarrow> queue \<times> kernel \<Rightarrow> bool" where
  "mutex_at idle owner = (\<lambda>(q, k). mutex_held owner q k \<and> cTxLock q = queueUNLOCKED \<and> cRxLock q = queueUNLOCKED \<and> kernel_runs idle k)"

text \<open>
  What the rest of the system does during a call of task \<open>t\<close>. Other tasks may take and give the mutex, so that its owner
  changes by some \<open>f\<close>, but they do not make \<open>t\<close> the owner, and in the end \<open>t\<close> runs; \<open>P\<close> holds when they start. Interrupts leave the mutex alone, as
  the interface demands, but may wake other tasks and count ticks; \<open>P\<close> is what they keep.
\<close>

definition continues :: "nat \<Rightarrow> kernel \<Rightarrow> bool" where "continues t k \<longleftrightarrow> pxCurrentTCB k = t \<and> is_ready t k"

definition tasks_act :: "(kernel \<Rightarrow> bool) \<Rightarrow> nat \<Rightarrow> nat \<Rightarrow> (nat \<Rightarrow> nat) \<Rightarrow> step \<Rightarrow> bool" where
  "tasks_act P idle t f s \<longleftrightarrow> (\<forall>owner q k. owner \<noteq> t \<longrightarrow> mutex_at idle owner (q, k) \<longrightarrow> P k \<longrightarrow>
     f owner \<noteq> t \<and> mutex_at idle (f owner) (s (q, k)) \<and> continues t (snd (s (q, k))))"

definition interrupts_act :: "(kernel \<Rightarrow> bool) \<Rightarrow> step \<Rightarrow> bool" where
  "interrupts_act P s \<longleftrightarrow> (\<forall>q k. P k \<longrightarrow> (\<exists>k'. s (q, k) = (q, k') \<and> P k' \<and> holds_same k k'))"

text \<open>A pass, with what it does to the owner before the scheduler is suspended, while the task is blocked or preempted, and after a time-out.\<close>

type_synonym lock_pass = "pass_env \<times> (nat \<Rightarrow> nat) \<times> (nat \<Rightarrow> nat) \<times> (nat \<Rightarrow> nat)"

definition pass_acts :: "nat \<Rightarrow> nat \<Rightarrow> lock_pass \<Rightarrow> bool" where
  "pass_acts idle t = (\<lambda>(env, before, during, after).
     tasks_act (continues t) idle t before (preempted env) \<and> tasks_act (\<lambda>_. True) idle t during (others env) \<and>
     tasks_act (continues t) idle t after (after_timeout env) \<and>
     (\<forall>s \<in> {isr_suspended env, isr_locked env, isr_timed env, isr_tested env, isr_inherited env}. interrupts_act (\<lambda>k. kernel_held idle t k \<and> is_ready t k) s) \<and>
     (\<forall>s \<in> {isr_listed env, isr_unlocking env, isr_unlocked env}. interrupts_act (kernel_held idle t) s) \<and>
     interrupts_act (kernel_runs idle) (isr_resumed env))"

lemma held_same: "mutex_held owner q k \<Longrightarrow> holds_same k k' \<Longrightarrow> mutex_held owner q k'"
  by (simp add: mutex_held_def holds_same_def)

lemma held_lock [simp]:
  "mutex_held owner (prvLockQueue q) k = mutex_held owner q k" "mutex_held owner (q\<lparr>cTxLock := l\<rparr>) k = mutex_held owner q k"
  "mutex_held owner (q\<lparr>cRxLock := l\<rparr>) k = mutex_held owner q k" "mutex_held owner q (running t k) = mutex_held owner q k"
  by (simp_all add: mutex_held_def prvLockQueue_def running_def)

text \<open>The end of a pass.\<close>

lemma end_mutex:
  assumes "pass_acts idle t (env, before, during, after)" and "kernel_held idle t k" and "mutex_held owner q k" and "cTxLock q = 0" and "cRxLock q = 0"
    and "owner \<noteq> t"
  shows "\<exists>q' k'. end_pass b env q k = Some (q', k') \<and> mutex_at idle (during owner) (q', k') \<and> during owner \<noteq> t \<and> continues t k'"
proof -
  have i: "interrupts_act (kernel_held idle t) (isr_unlocking env)" "interrupts_act (kernel_held idle t) (isr_unlocked env)"
    "interrupts_act (kernel_runs idle) (isr_resumed env)" "tasks_act (\<lambda>_. True) idle t during (others env)"
    using assms(1) by (simp_all add: pass_acts_def)
  let ?q = "q\<lparr>cTxLock := queueUNLOCKED\<rparr>" and ?q2 = "q\<lparr>cTxLock := queueUNLOCKED, cRxLock := queueUNLOCKED\<rparr>"
  obtain k1 where 1: "isr_unlocking env (?q, k) = (?q, k1)" "kernel_held idle t k1" "holds_same k k1"
    using i(1) assms(2) unfolding interrupts_act_def by blast
  have u: "prvUnlockQueue (isr_unlocking env) q k = Some (?q2, k1)" using assms(4,5) 1(1) by (simp add: prvUnlockQueue_def)
  obtain k2 where 2: "isr_unlocked env (?q2, k1) = (?q2, k2)" "kernel_held idle t k2" "holds_same k1 k2"
    using i(2) 1(2) unfolding interrupts_act_def by blast
  obtain y k3 where 3: "resume_and_yield False k2 = Some (y, k3)" "kernel_runs idle k3" "holds_same k2 k3" using resume_held [OF 2(2)] by blast
  obtain k4 where 4: "isr_resumed env (?q2, k3) = (?q2, k4)" "kernel_runs idle k4" "holds_same k3 k4"
    using i(3) 3(2) unfolding interrupts_act_def by blast
  obtain k5 where 5: "(if b \<and> \<not> y then vTaskSwitchContext k4 else Some k4) = Some k5" "kernel_runs idle k5" "holds_same k4 k5"
    using switch_runs [OF 4(2)] 4(2) by (cases "b \<and> \<not> y") (auto simp: holds_same_def)
  have "holds_same k k5" using 1(3) 2(3) 3(3) 4(3) 5(3) by (simp add: holds_same_def)
  from held_same [OF assms(3) this] have "mutex_at idle owner (?q2, k5)" using 5(2) by (simp add: mutex_at_def)
  with i(4) assms(6) have "mutex_at idle (during owner) (others env (?q2, k5)) \<and> during owner \<noteq> t \<and>
      continues t (snd (others env (?q2, k5)))" unfolding tasks_act_def by blast
  moreover have "end_pass b env q k = Some (others env (?q2, k5))" unfolding end_pass_def using u 2(1) 3(1) 4(1) 5(1) by simp
  ultimately show ?thesis by (cases "others env (?q2, k5)") simp
qed

lemma timeout_left:
  assumes "xTaskCheckForTimeOut k out n = (expired, out', n')" and "n \<noteq> 0"
  shows "(\<not> expired \<longrightarrow> n' \<noteq> 0 \<and> (n' = portMAX_DELAY \<longleftrightarrow> n = portMAX_DELAY)) \<and> (expired \<longrightarrow> n' = 0 \<and> n \<noteq> portMAX_DELAY)"
proof (cases "n = portMAX_DELAY")
  case True
  then show ?thesis using assms by (auto simp: xTaskCheckForTimeOut_def Let_def)
next
  case False
  have "n - e \<noteq> 0 \<and> n - e \<noteq> portMAX_DELAY" if "e < n" for e :: u32
  proof -
    have "n - e \<noteq> 0" using that by auto
    moreover have "n - e \<le> n" using that by (simp add: word_le_nat_alt word_less_nat_alt unat_sub_if')
    moreover have "portMAX_DELAY = - 1" by (simp add: portMAX_DELAY_def)
    then have "n < portMAX_DELAY" using False word_order.not_eq_extremum [of n] by simp
    ultimately show ?thesis by auto
  qed
  then show ?thesis using assms False by (auto simp: xTaskCheckForTimeOut_def Let_def split: if_splits)
qed

text \<open>One pass of a take that finds the mutex held by another task.\<close>

lemma pass_mutex:
  assumes "pass_acts idle t (env, before, during, after)" and "mutex_at idle owner (q, k)" and "owner \<noteq> t" and "continues t k" and "t \<noteq> idle" and "n \<noteq> 0"
  shows "\<exists>r out' n' inherited' q' k'. block_pass prvIsQueueEmpty take_inherit xTasksWaitingToReceive env out n inherited q k = Some (r, out', n', inherited', q', k') \<and>
    mutex_at idle (during (before owner)) (q', k') \<and> during (before owner) \<noteq> t \<and> continues t k' \<and>
    (if r = Timed_Out then n' = 0 \<and> n \<noteq> portMAX_DELAY else n' \<noteq> 0 \<and> (n' = portMAX_DELAY \<longleftrightarrow> n = portMAX_DELAY))"
proof -
  let ?P = "\<lambda>k. kernel_held idle t k \<and> is_ready t k"
  have i: "tasks_act (continues t) idle t before (preempted env)" "interrupts_act ?P (isr_suspended env)" "interrupts_act ?P (isr_locked env)"
    "interrupts_act ?P (isr_timed env)" "interrupts_act ?P (isr_tested env)" "interrupts_act ?P (isr_inherited env)"
    "interrupts_act (kernel_held idle t) (isr_listed env)"
    using assms(1) by (simp_all add: pass_acts_def)
  let ?o = "before owner"
  obtain q0 k0 where 0: "preempted env (q, k) = (q0, k0)" "mutex_at idle ?o (q0, k0)" "?o \<noteq> t" "pxCurrentTCB k0 = t" "is_ready t k0"
    using i(1) assms(2,3,4) unfolding tasks_act_def continues_def [of t "snd _"] by (metis prod.collapse snd_conv)
  have h0: "mutex_held ?o q0 k0" "cTxLock q0 = queueUNLOCKED" "cRxLock q0 = queueUNLOCKED" "kernel_runs idle k0" using 0(2) by (simp_all add: mutex_at_def)
  let ?ks = "vTaskSuspendAll k0"
  have s: "?P ?ks" "holds_same k0 ?ks" using suspend_held [OF h0(4) 0(4)] 0(5) by (simp_all add: holds_same_def is_ready_def vTaskSuspendAll_def)
  obtain k1 where 1: "isr_suspended env (q0, ?ks) = (q0, k1)" "?P k1" "holds_same ?ks k1" using i(2) s(1) unfolding interrupts_act_def by blast
  let ?q = "prvLockQueue q0"
  have l: "cTxLock ?q = 0" "cRxLock ?q = 0" using h0(2,3) by (simp_all add: prvLockQueue_def queueLOCKED_UNMODIFIED_def)
  obtain k2 where 2: "isr_locked env (?q, k1) = (?q, k2)" "?P k2" "holds_same k1 k2" using i(3) 1(2) unfolding interrupts_act_def by blast
  obtain expired out' n' where t: "xTaskCheckForTimeOut k2 out n = (expired, out', n')" by (cases "xTaskCheckForTimeOut k2 out n")
  note left = timeout_left [OF t assms(6)]
  obtain k3 where 3: "isr_timed env (?q, k2) = (?q, k3)" "?P k3" "holds_same k2 k3" using i(4) 2(2) unfolding interrupts_act_def by blast
  obtain k4 where 4: "isr_tested env (?q, k3) = (?q, k4)" "?P k4" "holds_same k3 k4" using i(5) 3(2) unfolding interrupts_act_def by blast
  have "holds_same k0 k4" using s(2) 1(3) 2(3) 3(3) 4(3) by (simp add: holds_same_def)
  then have m4: "mutex_held ?o ?q k4" using held_same [OF h0(1)] by simp
  let ?block = "\<not> expired \<and> prvIsQueueEmpty ?q"
  show ?thesis
  proof (cases ?block)
    case True
    obtain b k5 where 5: "take_inherit ?q k4 = (b, k5)" by (cases "take_inherit ?q k4")
    have h5: "kernel_held idle t k5" "holds_same k4 k5" "is_ready t k5"
      using 5 4(2) inherit_held [of "xMutexHolder ?q" k4 b k5 idle t] m4 by (auto simp: take_inherit_def mutex_held_def)
    obtain k6 where 6: "isr_inherited env (?q, k5) = (?q, k6)" "?P k6" "holds_same k5 k6" using i(6) h5 unfolding interrupts_act_def by blast
    let ?kp = "vTaskPlaceOnEventList (xTasksWaitingToReceive ?q) n' k6"
    have n': "0 < n'" using left True by (simp add: word_gt_0)
    have p: "kernel_held idle t ?kp" "holds_same k6 ?kp" using place_held [OF _ _ assms(5) n'] 6(2) by blast+
    obtain k7 where 7: "isr_listed env (?q, ?kp) = (?q, k7)" "kernel_held idle t k7" "holds_same ?kp k7" using i(7) p(1) unfolding interrupts_act_def by blast
    have "holds_same k4 k7" using h5(2) 6(3) p(2) 7(3) by (simp add: holds_same_def)
    from end_mutex [OF assms(1) 7(2) held_same [OF m4 this] l 0(3), of True]
    obtain q8 k8 where 8: "end_pass True env ?q k7 = Some (q8, k8)" "mutex_at idle (during ?o) (q8, k8)" "during ?o \<noteq> t" "continues t k8" by blast
    have "block_pass prvIsQueueEmpty take_inherit xTasksWaitingToReceive env out n inherited q k = Some (Retry, out', n', b, q8, k8)"
      unfolding block_pass_def Let_def 0(1) 1(1) 2(1) prod.case t 3(1) 4(1) using True 5 6(1) 7(1) 8(1) by simp
    then show ?thesis using 8 left True by auto
  next
    case False
    have kh: "kernel_held idle t k4" using 4(2) by simp
    from end_mutex [OF assms(1) kh m4 l 0(3), of False]
    obtain q8 k8 where 8: "end_pass False env ?q k4 = Some (q8, k8)" "mutex_at idle (during ?o) (q8, k8)" "during ?o \<noteq> t" "continues t k8" by blast
    have "block_pass prvIsQueueEmpty take_inherit xTasksWaitingToReceive env out n inherited q k =
        Some (if expired then Timed_Out else Retry, out', n', inherited, q8, k8)"
      unfolding block_pass_def Let_def 0(1) 1(1) 2(1) prod.case t 3(1) 4(1) using False 8(1) by auto
    then show ?thesis using 8 left by auto
  qed
qed

section \<open>A mutex is a lock\<close>

text \<open>The calls: a take that waits up to a number of ticks, with the passes of its loop, and a give.\<close>

datatype mutex_op = Take u32 "lock_pass list" | Give

definition mutex_step :: "nat \<Rightarrow> mutex_op \<Rightarrow> queue \<times> kernel \<Rightarrow> (unit outcome \<times> queue \<times> kernel) option" where
  "mutex_step t op = (\<lambda>(q, k). map_option (\<lambda>(r, _, s). (r, s)) (case op of
     Take n ps \<Rightarrow> xQueueSemaphoreTake n (map fst ps) q (running t k)
   | Give \<Rightarrow> xQueueGenericSend None 0 queueSEND_TO_BACK [] q (running t k)))"

text \<open>The task that calls is ready, is not the idle task if it may block, and the passes are those of a well-behaved system.\<close>

definition caller_ok :: "nat \<Rightarrow> nat \<Rightarrow> mutex_op \<Rightarrow> kernel \<Rightarrow> bool" where
  "caller_ok idle t op k \<longleftrightarrow> t \<noteq> 0 \<and> is_ready t k \<and>
     (case op of Take n ps \<Rightarrow> (n \<noteq> 0 \<longrightarrow> t \<noteq> idle) \<and> (\<forall>p \<in> set ps. pass_acts idle t p) | Give \<Rightarrow> True)"

text \<open>A task does not wait for a mutex that it holds, which a mutex that is not recursive forbids.\<close>

definition takes_own :: "nat \<Rightarrow> mutex_op \<Rightarrow> nat \<Rightarrow> bool" where
  "takes_own t op owner \<longleftrightarrow> (case op of Take n ps \<Rightarrow> n \<noteq> 0 \<and> owner = t | Give \<Rightarrow> False)"

text \<open>
  The lock: how a call may end and who is the owner then, \<open>0\<close> for nobody. A take looks at the lock when it starts and after each pass; it
  gets the lock iff the lock is free at the last look, it never fails when it waits without a limit, and it fails only when the lock
  is not free. If the time is over just when the lock is free, it looks once more after the others have acted.
\<close>

fun lock_take :: "nat \<Rightarrow> u32 \<Rightarrow> lock_pass list \<Rightarrow> nat \<Rightarrow> (unit outcome \<times> nat) set" where
  "lock_take t n [] owner = {if owner = 0 then (Returned (), t) else if n = 0 then (Failed, owner) else (Waiting, owner)}"
| "lock_take t n ((_, before, during, after) # ps) owner =
     (if owner = 0 then {(Returned (), t)} else if n = 0 then {(Failed, owner)}
      else let owner = during (before owner)
           in (if n = portMAX_DELAY then {} else {if owner = 0 \<and> after 0 = 0 then (Returned (), t) else (Failed, after owner)}) \<union> lock_take t n ps owner)"

definition lock_step :: "nat \<Rightarrow> mutex_op \<Rightarrow> nat \<Rightarrow> (unit outcome \<times> nat) set" where
  "lock_step t op owner = (case op of
     Take n ps \<Rightarrow> lock_take t n ps owner
   | Give \<Rightarrow> if owner = t then {(Returned (), 0)} else if owner = 0 then {(Failed, 0)} else {})"

text \<open>The states that calls of tasks, and whatever else the kernel does in between, reach from a free mutex.\<close>

inductive mutex_reach :: "nat \<Rightarrow> queue \<times> kernel \<Rightarrow> bool" for idle where
  free: "mutex_at idle 0 s \<Longrightarrow> mutex_reach idle s"
| call: "mutex_reach idle (q, k) \<Longrightarrow> caller_ok idle t op k \<Longrightarrow> \<not> takes_own t op (xQueueGetMutexHolder q) \<Longrightarrow>
    mutex_step t op (q, k) = Some (r, s) \<Longrightarrow> mutex_reach idle s"
| kernel: "mutex_reach idle (q, k) \<Longrightarrow> kernel_runs idle k' \<Longrightarrow> holds_same k k' \<Longrightarrow> mutex_reach idle (q, k')"

text \<open>Taking a mutex that is free.\<close>

lemma take_free:
  assumes "mutex_at idle 0 (q, k)" and "pxCurrentTCB k = t" and "t \<noteq> 0"
  shows "\<exists>y q' k'. take_now q k = Some (Some ((), y, q', k')) \<and> mutex_at idle t (q', k')"
proof -
  have h: "mutex_held 0 q k" "cTxLock q = queueUNLOCKED" "cRxLock q = queueUNLOCKED" "kernel_runs idle k" using assms(1) by (simp_all add: mutex_at_def)
  let ?k = "set_tcb t (\<lambda>x. x\<lparr>uxMutexesHeld := uxMutexesHeld x + 1\<rparr>) k"
  let ?q = "q\<lparr>uxMessagesWaiting := 0, xMutexHolder := t\<rparr>"
  have r: "kernel_runs idle ?k" by (rule runs_set [OF h(4)]) simp_all
  obtain y k' where w: "wake_waiting (xTasksWaitingToSend q) ?k = Some (y, k')" using wake_waiting_ok by blast
  have "take_now q k = Some (Some ((), y, ?q, k'))"
    using h(1) assms(2,3) w by (simp add: take_now_def mutex_held_def pvTaskIncrementMutexHeldCount_def Let_def)
  moreover have "mutex_at idle t (?q, k')"
    using h assms(3) wake_waiting_held [OF w, of t] wake_runs [OF w r] by (simp add: mutex_at_def mutex_held_def)
  ultimately show ?thesis by blast
qed

lemma take_busy: "mutex_at idle owner (q, k) \<Longrightarrow> owner \<noteq> 0 \<Longrightarrow> take_now q k = Some None"
  by (simp add: take_now_def mutex_at_def mutex_held_def)

lemma lock_take_cong: "(n = 0 \<longleftrightarrow> n' = 0) \<Longrightarrow> (n = portMAX_DELAY \<longleftrightarrow> n' = portMAX_DELAY) \<Longrightarrow> lock_take t n ps owner = lock_take t n' ps owner"
  by (induction t n ps owner rule: lock_take.induct) (simp_all add: Let_def)

lemma undo_ok:
  assumes "mutex_at idle owner (q, k)" and "owner \<noteq> t" and "pxCurrentTCB k = t"
  shows "\<exists>k'. take_timed_out b q k = Some k' \<and> mutex_at idle owner (q, k')"
proof (cases b)
  case True
  have h: "kernel_runs idle k" "mutex_held owner q k" "xMutexHolder q = owner" "owner = 0 \<or> 0 < uxMutexesHeld (tcbs k owner)"
    using assms(1) by (auto simp: mutex_at_def mutex_held_def)
  from after_timeout_runs [OF h(1,4), of "prvGetHighestPriorityOfWaitToReceiveList q k"] obtain k' where
    "vTaskPriorityDisinheritAfterTimeout owner (prvGetHighestPriorityOfWaitToReceiveList q k) k = Some k'" "kernel_runs idle k'" "holds_same k k'"
    using assms(2,3) by auto
  then show ?thesis using True h(3) assms(1) held_same [OF h(2)] by (simp add: take_timed_out_def mutex_at_def)
next
  case False
  then show ?thesis using assms(1) by (simp add: take_timed_out_def)
qed

lemma take_loop:
  "\<forall>p \<in> set ps. pass_acts idle t p \<Longrightarrow> mutex_at idle owner (q, k) \<Longrightarrow> continues t k \<Longrightarrow> t \<noteq> 0 \<Longrightarrow> n \<noteq> 0 \<longrightarrow> t \<noteq> idle \<and> owner \<noteq> t \<Longrightarrow>
   \<exists>r y q' k' owner'. wait_loop take_now prvIsQueueEmpty take_inherit xTasksWaitingToReceive prvIsQueueEmpty take_timed_out
       (map fst ps) out n inherited q k = Some (r, y, q', k') \<and> (r, owner') \<in> lock_take t n ps owner \<and> mutex_at idle owner' (q', k')"
proof (induction ps arbitrary: owner out n inherited q k)
  case Nil
  then show ?case
    using take_free [of idle q k t] take_busy [of idle owner q k] by (cases "owner = 0") (auto simp: wait_loop.simps continues_def)
next
  case (Cons p ps)
  obtain env before during after where p: "p = (env, before, during, after)" by (cases p)
  have acts: "pass_acts idle t (env, before, during, after)" "\<forall>p \<in> set ps. pass_acts idle t p" using Cons.prems(1) p by simp_all
  show ?case
  proof (cases "owner = 0 \<or> n = 0")
    case True
    then show ?thesis
      using Cons.prems take_free [of idle q k t] take_busy [of idle owner q k] p by (cases "owner = 0") (auto simp: wait_loop.simps continues_def)
  next
    case False
    then have n: "owner \<noteq> 0" "n \<noteq> 0" "t \<noteq> idle" "owner \<noteq> t" using Cons.prems(5) by simp_all
    let ?out = "case out of None \<Rightarrow> vTaskInternalSetTimeOutState k | Some t \<Rightarrow> t" and ?o = "during (before owner)"
    obtain r out' n' inherited' q1 k1 where b: "block_pass prvIsQueueEmpty take_inherit xTasksWaitingToReceive env ?out n inherited q k =
        Some (r, out', n', inherited', q1, k1)" "mutex_at idle ?o (q1, k1)" "?o \<noteq> t" "continues t k1"
      "if r = Timed_Out then n' = 0 \<and> n \<noteq> portMAX_DELAY else n' \<noteq> 0 \<and> (n' = portMAX_DELAY \<longleftrightarrow> n = portMAX_DELAY)"
      using pass_mutex [OF acts(1) Cons.prems(2) n(4) Cons.prems(3) n(3,2)] by blast
    have e: "prvIsQueueEmpty q1 \<longleftrightarrow> ?o \<noteq> 0" using b(2) by (auto simp: mutex_at_def mutex_held_def prvIsQueueEmpty_def)
    let ?loop = "wait_loop take_now prvIsQueueEmpty take_inherit xTasksWaitingToReceive prvIsQueueEmpty take_timed_out"
    show ?thesis
    proof (cases r)
      case Retry
      have "?loop (map fst (p # ps)) out n inherited q k = ?loop (map fst ps) (Some out') n' inherited' q1 k1"
        using take_busy [OF Cons.prems(2) n(1)] n(2) b(1) Retry p by (subst wait_loop.simps) simp
      moreover have "lock_take t n' ps ?o \<subseteq> lock_take t n (p # ps) owner"
        using b(5) Retry n(1,2) lock_take_cong [of n' n t ps ?o] by (simp add: p Let_def)
      moreover obtain r y q' k' owner' where "?loop (map fst ps) (Some out') n' inherited' q1 k1 = Some (r, y, q', k')"
        "(r, owner') \<in> lock_take t n' ps ?o" "mutex_at idle owner' (q', k')"
        using Cons.IH [OF acts(2) b(2,4) Cons.prems(4), of n' "Some out'" inherited'] n(3) b(3) by blast
      ultimately show ?thesis by (metis subsetD)
    next
      case Timed_Out
      obtain q2 k2 where a1: "after_timeout env (q1, k1) = (q2, k2)" by (cases "after_timeout env (q1, k1)")
      have "tasks_act (continues t) idle t after (after_timeout env)" using acts(1) by (simp add: pass_acts_def)
      then have "after ?o \<noteq> t \<and> mutex_at idle (after ?o) (q2, k2) \<and> continues t k2"
        using b(2,3,4) a1 unfolding tasks_act_def by (metis snd_conv)
      then have a: "after_timeout env (q1, k1) = (q2, k2)" "mutex_at idle (after ?o) (q2, k2)" "after ?o \<noteq> t" "pxCurrentTCB k2 = t"
        using a1 by (simp_all add: continues_def)
      have l: "n' = 0" "n \<noteq> portMAX_DELAY" using b(5) Timed_Out by simp_all
      then have m: "(if ?o = 0 \<and> after 0 = 0 then (Returned (), t) else (Failed, after ?o)) \<in> lock_take t n (p # ps) owner"
        using n(1,2) by (simp add: p Let_def)
      show ?thesis
      proof (cases "?o = 0")
        case False
        obtain k3 where "take_timed_out inherited' q2 k2 = Some k3" "mutex_at idle (after ?o) (q2, k3)" using undo_ok [OF a(2,3,4)] by blast
        moreover from this have "?loop (map fst (p # ps)) out n inherited q k = Some (Failed, False, q2, k3)"
          using take_busy [OF Cons.prems(2) n(1)] n(2) b(1) Timed_Out p a(1) e False by (subst wait_loop.simps) (simp add: Let_def)
        ultimately show ?thesis using m False by (auto simp del: lock_take.simps)
      next
        case True
        have w: "?loop (map fst (p # ps)) out n inherited q k = ?loop (map fst ps) (Some out') 0 inherited' q2 k2"
          using take_busy [OF Cons.prems(2) n(1)] n(2) b(1) Timed_Out p a(1) e True l(1) by (subst wait_loop.simps) (simp add: Let_def)
        show ?thesis
        proof (cases "after ?o = 0")
          case free: True
          obtain y q3 k3 where "take_now q2 k2 = Some (Some ((), y, q3, k3))" "mutex_at idle t (q3, k3)"
            using take_free [of idle q2 k2 t] a(2,4) Cons.prems(4) free by auto
          then show ?thesis unfolding w using m True free by (auto simp: wait_loop.simps [of _ _ _ _ _ _ "map fst ps"] simp del: lock_take.simps)
        next
          case False
          from take_busy [OF a(2) False] show ?thesis
            unfolding w using m True False a(2) by (auto simp: wait_loop.simps [of _ _ _ _ _ _ "map fst ps"] simp del: lock_take.simps)
        qed
      qed
    qed
  qed
qed

text \<open>Giving by the owner.\<close>

lemma give_free:
  assumes "mutex_at idle owner (q, k)" and "t = pxCurrentTCB k" and "t \<noteq> 0" and "is_ready t k" and "owner = t"
  shows "\<exists>y q' k'. xQueueGenericSend None 0 queueSEND_TO_BACK [] q k = Some (Returned (), y, q', k') \<and> mutex_at idle 0 (q', k') \<and>
    (\<forall>x. is_ready x k \<longrightarrow> is_ready x k')"
proof -
  have h: "mutex_held t q k" "cTxLock q = queueUNLOCKED" "cRxLock q = queueUNLOCKED" "kernel_runs idle k" using assms(1,5) by (simp_all add: mutex_at_def)
  obtain y k1 where d: "xTaskPriorityDisinherit t k = Some (y, k1)"
    using disinherit_some [OF assms(3,2)] h(1) assms(3) by (auto simp: mutex_held_def)
  have r1: "kernel_runs idle k1" by (rule disinherit_runs [OF d h(4)]) (simp add: assms(4))
  have d1: "is_ready x k \<Longrightarrow> is_ready x k1" for x
    using d assms(3) by (auto simp: xTaskPriorityDisinherit_def Let_def is_ready_def split: if_splits)
  let ?q = "q\<lparr>xMutexHolder := 0, uxMessagesWaiting := 1\<rparr>"
  have p: "prvCopyDataToQueue [] queueSEND_TO_BACK q k = Some (y, ?q, k1)"
    using h(1) assms(3) d by (simp add: prvCopyDataToQueue_def mutex_held_def)
  have m: "mutex_at idle 0 (?q, k2)" if "kernel_runs idle k2" for k2 using h that by (simp add: mutex_at_def mutex_held_def)
  have "\<exists>z k2. send_now [] queueSEND_TO_BACK q k = Some (Some ((), z, ?q, k2)) \<and> kernel_runs idle k2 \<and> (\<forall>x. is_ready x k1 \<longrightarrow> is_ready x k2)"
  proof (cases "xEventLists k1 (xTasksWaitingToReceive q) = []")
    case True
    then show ?thesis using h(1) assms(3) p r1 by (simp add: send_now_def mutex_held_def)
  next
    case False
    obtain z k2 where e: "xTaskRemoveFromEventList (xTasksWaitingToReceive q) k1 = Some (z, k2)"
      using remove_from_event_list [OF False] by blast
    have "is_ready x k1 \<Longrightarrow> is_ready x k2" for x
      using e r1 by (auto simp: xTaskRemoveFromEventList_def Let_def kernel_runs_def is_ready_def split: list.splits if_splits)
    then show ?thesis using h(1) assms(3) p e False remove_from_event_runs [OF e r1] by (simp add: send_now_def mutex_held_def)
  qed
  then show ?thesis using h(1) m d1 by (auto simp: xQueueGenericSend_def wait_loop.simps mutex_held_def may_wait_def)
qed

lemma running_runs [simp]: "pxCurrentTCB (running t k) = t" "is_ready x (running t k) = is_ready x k"
  by (simp_all add: running_def is_ready_def)

lemma mutex_at_running: "mutex_at idle owner (q, k) \<Longrightarrow> mutex_at idle owner (q, running t k)"
  using runs_flag(2) [of idle k t] by (simp add: mutex_at_def) (simp add: running_def)

lemma mutex_step_ok:
  assumes "mutex_at idle owner (q, k)" and "caller_ok idle t op k"
  shows "if op = Give \<and> owner \<notin> {0, t} then mutex_step t op (q, k) = None
    else \<not> takes_own t op owner \<longrightarrow> (\<exists>r s owner'. mutex_step t op (q, k) = Some (r, s) \<and> (r, owner') \<in> lock_step t op owner \<and> mutex_at idle owner' s)"
proof -
  have m: "mutex_at idle owner (q, running t k)" and h: "mutex_held owner q (running t k)"
    using mutex_at_running [OF assms(1)] by (simp_all add: mutex_at_def)
  have t: "t \<noteq> 0" "is_ready t (running t k)" using assms(2) by (simp_all add: caller_ok_def)
  show ?thesis
  proof (cases op)
    case (Take n ps)
    show ?thesis
    proof (cases "takes_own t op owner")
      case True
      then show ?thesis using Take by simp
    next
      case False
      have c: "n \<noteq> 0 \<longrightarrow> t \<noteq> idle \<and> owner \<noteq> t" "\<forall>p \<in> set ps. pass_acts idle t p" using False assms(2) Take by (auto simp: caller_ok_def takes_own_def)
      have cont: "continues t (running t k)" using t(2) by (simp add: continues_def)
      have e: "uxItemSize q = 0" "may_wait n (running t k)" using h m by (simp_all add: mutex_held_def mutex_at_def kernel_runs_def may_wait_def)
      obtain r y q' k' owner' where "wait_loop take_now prvIsQueueEmpty take_inherit xTasksWaitingToReceive prvIsQueueEmpty take_timed_out
          (map fst ps) None n False q (running t k) = Some (r, y, q', k')" "(r, owner') \<in> lock_take t n ps owner" "mutex_at idle owner' (q', k')"
        using take_loop [OF c(2) m cont t(1) c(1)] by blast
      then show ?thesis using Take e by (auto simp: mutex_step_def xQueueSemaphoreTake_def lock_step_def simp del: lock_take.simps)
    qed
  next
    case Give
    consider "owner = t" | "owner = 0" | "owner \<noteq> t" "owner \<noteq> 0" by blast
    then show ?thesis
    proof cases
      case 1
      then show ?thesis using give_free [OF m _ t] Give t(1) by (auto simp: mutex_step_def lock_step_def takes_own_def)
    next
      case 2
      then have "xQueueGenericSend None 0 queueSEND_TO_BACK [] q (running t k) = Some (Failed, False, q, running t k)"
        using give_mutex [OF h running_runs(1) [symmetric] t(1)] t(1) by simp
      then show ?thesis using 2 Give m t(1) by (simp add: mutex_step_def lock_step_def takes_own_def)
    next
      case 3
      then have "xQueueGenericSend None 0 queueSEND_TO_BACK [] q (running t k) = None"
        using give_mutex [OF h running_runs(1) [symmetric] t(1)] by simp
      then show ?thesis using 3 Give by (simp add: mutex_step_def)
    qed
  qed
qed

lemma mutex_holder: "mutex_at idle owner (q, k) \<Longrightarrow> xQueueGetMutexHolder q = owner \<and> uxQueueMessagesWaiting q = (if owner = 0 then 1 else 0)"
  by (simp add: mutex_at_def mutex_held_def xQueueGetMutexHolder_def uxQueueMessagesWaiting_def)

lemma mutex_reach_at: "mutex_reach idle s \<Longrightarrow> \<exists>owner. mutex_at idle owner s"
proof (induction rule: mutex_reach.induct)
  case (free s)
  then show ?case by blast
next
  case (call q k t op r s)
  then obtain owner where o: "mutex_at idle owner (q, k)" by blast
  from mutex_step_ok [OF o call.hyps(2)] call.hyps(3,4) mutex_holder [OF o] show ?case by (auto split: if_splits)
next
  case (kernel q k k')
  then show ?case by (fastforce simp: mutex_at_def intro: held_same)
qed

text \<open>
  C7: A mutex is a lock, for takes that wait and takes that do not, in every state that calls of any tasks reach from a free mutex. Each call returns, or still
  waits, with a result and an owner that the lock allows: a take gets the mutex iff it finds it free when it looks, at the start or after a pass of its loop in
  which others took and gave it and interrupts came, and then its task is the one owner; it fails only when its last look found the mutex taken, and never if it waits
  without a limit; a give by the owner frees the mutex, a give of a free mutex is refused, and a give by another task stops at the assertion of the kernel. Other tasks
  and interrupts keep to the interface: interrupts do not use the mutex, nobody takes it in the name of the task, and a task does not wait for a mutex
  that it holds. When the time of a take is over is the subject of the time-outs.
\<close>

theorem mutex_is_lock:
  assumes "mutex_reach idle (q, k)" and "caller_ok idle t op k" and "owner = xQueueGetMutexHolder q"
  shows "if op = Give \<and> owner \<notin> {0, t} then mutex_step t op (q, k) = None
    else \<not> takes_own t op owner \<longrightarrow> (\<exists>r q' k'. mutex_step t op (q, k) = Some (r, q', k') \<and>
      (r, xQueueGetMutexHolder q') \<in> lock_step t op owner \<and> uxQueueMessagesWaiting q' = (if xQueueGetMutexHolder q' = 0 then 1 else 0))"
proof -
  obtain p where p: "mutex_at idle p (q, k)" using mutex_reach_at [OF assms(1)] by blast
  then have "owner = p" using mutex_holder [OF p] assms(3) by simp
  then show ?thesis using mutex_step_ok [OF p assms(2)] mutex_holder by fastforce
qed

text \<open>
  An example: task 2 takes the mutex without waiting; then task 1 waits for it without a limit, a tick interrupts it before it is on
  the event list, and while it is blocked task 2 gives the mutex back. Task 1 gets it.
\<close>

definition tick_interrupt :: step where
  "tick_interrupt = (\<lambda>(q, k). (q, case xTaskIncrementTick k of None \<Rightarrow> k | Some (_, k) \<Rightarrow> k))"

definition quiet_pass :: pass_env where
  "quiet_pass = \<lparr>preempted = id, isr_suspended = id, isr_locked = id, isr_timed = id, isr_tested = id, isr_inherited = id, isr_listed = id,
     isr_unlocking = id, isr_unlocked = id, isr_resumed = id, others = id, after_timeout = id\<rparr>"

definition give_meanwhile :: "nat \<Rightarrow> nat \<Rightarrow> step" where
  "give_meanwhile u t = (\<lambda>s. let (q, k) = (case mutex_step u Give s of None \<Rightarrow> s | Some (_, s) \<Rightarrow> s)
     in (q, running t (prvAddTaskToReadyList t (remove_state_item t k))))"

definition given_by :: "nat \<Rightarrow> nat \<Rightarrow> nat" where "given_by u owner = (if owner = u then 0 else owner)"

definition helped :: lock_pass where
  "helped = (quiet_pass\<lparr>isr_tested := tick_interrupt, others := give_meanwhile 2 1\<rparr>, id, given_by 2, id)"

lemma tick_acts: "interrupts_act (\<lambda>k. kernel_held idle t k \<and> is_ready t k) tick_interrupt"
proof -
  have "kernel_held idle t (k\<lparr>xPendedTicks := v\<rparr>)" if "kernel_held idle t k" for k v
    using that by (auto simp: kernel_held_def is_ready_def intro: places_times [of k] times_cong [of k])
  moreover have "xTaskIncrementTick k = Some (False, k\<lparr>xPendedTicks := xPendedTicks k + 1\<rparr>)" if "kernel_held idle t k" for k
    using that by (simp add: kernel_held_def xTaskIncrementTick_def)
  ultimately show ?thesis by (auto simp: interrupts_act_def tick_interrupt_def holds_same_def is_ready_def)
qed

lemma give_meanwhile_acts:
  assumes "u \<noteq> 0" and "t \<noteq> 0"
  shows "tasks_act (\<lambda>_. True) u t (given_by u) (give_meanwhile u t)"
proof -
  have "given_by u owner \<noteq> t \<and> mutex_at u (given_by u owner) (give_meanwhile u t (q, k)) \<and> continues t (snd (give_meanwhile u t (q, k)))"
    if o: "owner \<noteq> t" and m: "mutex_at u owner (q, k)" for owner q k
  proof -
    have c: "caller_ok u u Give k" using assms(1) m by (simp add: caller_ok_def mutex_at_def kernel_runs_def)
    obtain q1 k1 where 1: "(case mutex_step u Give (q, k) of None \<Rightarrow> (q, k) | Some (_, s) \<Rightarrow> s) = (q1, k1)" "mutex_at u (given_by u owner) (q1, k1)"
      using mutex_step_ok [OF m c] m by (auto simp: given_by_def lock_step_def takes_own_def split: if_splits)
    let ?k = "prvAddTaskToReadyList t (remove_state_item t k1)"
    have "kernel_runs u k1" "mutex_held (given_by u owner) q1 k1" "holds_same k1 ?k" using 1(2) by (simp_all add: mutex_at_def holds_same_def)
    then have "mutex_at u (given_by u owner) (q1, ?k)" using 1(2) runs_ready(1) held_same by (simp add: mutex_at_def)
    from mutex_at_running [OF this] show ?thesis
      using o assms(2) 1(1) runs_ready(3) [of u k1 t] \<open>kernel_runs u k1\<close> by (auto simp: give_meanwhile_def given_by_def continues_def)
  qed
  then show ?thesis by (simp add: tasks_act_def)
qed

lemma helped_acts: "pass_acts 2 1 helped"
proof -
  have "interrupts_act P id" for P by (simp add: interrupts_act_def holds_same_def)
  moreover have "tasks_act (continues 1) 2 1 id id" by (simp add: tasks_act_def)
  ultimately show ?thesis
    using tick_acts [of 2 1] give_meanwhile_acts [of 2 1] by (simp add: pass_acts_def helped_def quiet_pass_def)
qed

text \<open>A mutex that is free.\<close>

definition free_mutex :: queue where
  "free_mutex = small_queue\<lparr>is_mutex := True, uxItemSize := 0, uxLength := 1, uxMessagesWaiting := 1\<rparr>"

lemma free_mutex_held: "mutex_held 0 free_mutex k"
  by (simp add: mutex_held_def free_mutex_def small_queue_def)

lemma mutex_is_lock_witness:
  "\<exists>q1 k1 q2 k2. mutex_step 2 (Take 0 []) (free_mutex, two_tasks 0) = Some (Returned (), q1, k1) \<and> xQueueGetMutexHolder q1 = 2 \<and>
     mutex_step 1 (Take portMAX_DELAY [helped]) (q1, prvAddTaskToReadyList 1 (remove_state_item 1 k1)) = Some (Returned (), q2, k2) \<and>
     xQueueGetMutexHolder q2 = 1 \<and> mutex_step 2 Give (q2, k2) = None"
proof -
  have k: "kernel_runs 2 (two_tasks 0)" "is_ready 2 (two_tasks 0)"
    using two_tasks_ok [of 0] by (auto simp: kernel_ok_def kernel_runs_def is_ready_def two_tasks_def ready_task_def)
  then have "mutex_at 2 0 (free_mutex, two_tasks 0)" using free_mutex_held by (simp add: mutex_at_def) (simp add: free_mutex_def small_queue_def)
  then have r0: "mutex_reach 2 (free_mutex, two_tasks 0)" by (rule mutex_reach.free)
  have o: "xQueueGetMutexHolder free_mutex = 0" by (simp add: free_mutex_def small_queue_def xQueueGetMutexHolder_def)
  have c1: "caller_ok 2 2 (Take 0 []) (two_tasks 0)" using k(2) by (simp add: caller_ok_def)
  have n1: "\<not> takes_own 2 (Take 0 []) 0" by (simp add: takes_own_def)
  obtain q1 k1 where 1: "mutex_step 2 (Take 0 []) (free_mutex, two_tasks 0) = Some (Returned (), q1, k1)" "xQueueGetMutexHolder q1 = 2"
    using mutex_is_lock [OF r0 c1 refl] n1 unfolding o by (auto simp: lock_step_def)
  have r1: "mutex_reach 2 (q1, k1)" by (rule mutex_reach.call [OF r0 c1 _ 1(1)]) (simp add: o n1)
  let ?k = "prvAddTaskToReadyList 1 (remove_state_item 1 k1)"
  have k1: "kernel_runs 2 k1" using mutex_reach_at [OF r1] by (auto simp: mutex_at_def)
  have r2: "mutex_reach 2 (q1, ?k)" by (rule mutex_reach.kernel [OF r1 runs_ready(1) [OF k1]]) (simp add: holds_same_def)
  have c2: "caller_ok 2 1 (Take portMAX_DELAY [helped]) ?k" using helped_acts runs_ready(3) [OF k1, of 1] by (simp add: caller_ok_def)
  have n2: "\<not> takes_own 1 (Take portMAX_DELAY [helped]) 2" by (simp add: takes_own_def)
  have s2: "lock_step 1 (Take portMAX_DELAY [helped]) 2 = {(Returned (), 1)}"
    by (simp add: lock_step_def helped_def given_by_def portMAX_DELAY_def)
  obtain q2 k2 where 2: "mutex_step 1 (Take portMAX_DELAY [helped]) (q1, ?k) = Some (Returned (), q2, k2)" "xQueueGetMutexHolder q2 = 1"
    using mutex_is_lock [OF r2 c2 refl] n2 s2 unfolding 1(2) by auto
  have r3: "mutex_reach 2 (q2, k2)" by (rule mutex_reach.call [OF r2 c2 _ 2(1)]) (use 1(2) n2 in simp)
  then have "caller_ok 2 2 Give k2" using mutex_reach_at [OF r3] by (auto simp: mutex_at_def kernel_runs_def caller_ok_def)
  from mutex_is_lock [OF r3 this refl] have "mutex_step 2 Give (q2, k2) = None" unfolding 2(2) by simp
  with 1 2 show ?thesis by blast
qed

section \<open>Recursive mutexes\<close>

datatype recursive_op = Enter | Leave

fun recursive_run :: "(nat \<times> recursive_op) list \<Rightarrow> queue \<times> kernel \<Rightarrow> (bool list \<times> queue \<times> kernel) option" where
  "recursive_run [] s = Some ([], s)"
| "recursive_run ((t, op) # ops) (q, k) = do {
     (r, s) \<leftarrow> (case op of Enter \<Rightarrow> map_option (\<lambda>(r, _, s). (r = Returned (), s)) (xQueueTakeMutexRecursive 0 [] q (running t k))
                          | Leave \<Rightarrow> map_option (\<lambda>(r, _, s). (r, s)) (xQueueGiveMutexRecursive q (running t k)));
     (rs, s) \<leftarrow> recursive_run ops s;
     Some (r # rs, s) }"

text \<open>The recursive lock: its owner and the number of its takes that are not given back yet.\<close>

fun recursive_lock :: "(nat \<times> recursive_op) list \<Rightarrow> nat \<times> nat \<Rightarrow> bool list \<times> nat \<times> nat" where
  "recursive_lock [] s = ([], s)"
| "recursive_lock ((t, op) # ops) (owner, n) =
     (let (r, s) = (case op of
          Enter \<Rightarrow> if owner = 0 then (True, t, 1) else if owner = t then (True, t, n + 1) else (False, owner, n)
        | Leave \<Rightarrow> if owner = t then (True, if n = 1 then (0, 0) else (t, n - 1)) else (False, owner, n));
          (rs, s) = recursive_lock ops s
      in (r # rs, s))"

definition recursively_held :: "nat \<times> nat \<Rightarrow> queue \<Rightarrow> kernel \<Rightarrow> bool" where
  "recursively_held s q k \<longleftrightarrow> mutex_held (fst s) q k \<and> uxRecursiveCallCount q = snd s \<and> (fst s = 0 \<longleftrightarrow> snd s = 0)"

lemma count_update: "mutex_held owner (q\<lparr>uxRecursiveCallCount := n\<rparr>) k = mutex_held owner q k"
  by (simp add: mutex_held_def)

lemma take_recursive:
  assumes "recursively_held (owner, n) q k" and "t = pxCurrentTCB k" and "t \<noteq> 0" and "n + 1 < 2 ^ 32"
  shows "\<exists>r y q' k'. xQueueTakeMutexRecursive 0 [] q k = Some (r, y, q', k') \<and> (r = Returned () \<longleftrightarrow> owner = 0 \<or> owner = t) \<and>
    recursively_held (if owner = 0 then (t, 1) else if owner = t then (t, n + 1) else (owner, n)) q' k'"
proof -
  have h: "mutex_held owner q k" "uxRecursiveCallCount q = n" "owner = 0 \<longleftrightarrow> n = 0" "xMutexHolder q = owner"
    using assms(1) by (auto simp: recursively_held_def mutex_held_def)
  show ?thesis
  proof (cases "owner = t")
    case True
    then show ?thesis
      using h assms by (auto simp: xQueueTakeMutexRecursive_def recursively_held_def count_update)
  next
    case False
    obtain y q' k' where s: "xQueueSemaphoreTake 0 [] q k = Some (if owner = 0 then Returned () else Failed, y, q', k')"
      "mutex_held (if owner = 0 then t else owner) q' k'" "uxRecursiveCallCount q' = uxRecursiveCallCount q"
      using take_mutex [OF h(1) assms(2,3)] by blast
    show ?thesis
    proof (cases "owner = 0")
      case True
      then show ?thesis
        using h assms(2,3) s by (simp add: xQueueTakeMutexRecursive_def recursively_held_def count_update)
    next
      case no: False
      then show ?thesis
        using h assms(2,3) s False by (simp add: xQueueTakeMutexRecursive_def recursively_held_def)
    qed
  qed
qed

lemma give_recursive:
  assumes "recursively_held (owner, n) q k" and "t = pxCurrentTCB k" and "t \<noteq> 0" and "n < 2 ^ 32"
  shows "\<exists>y q' k'. xQueueGiveMutexRecursive q k = Some (owner = t, y, q', k') \<and>
    recursively_held (if owner = t then if n = 1 then (0, 0) else (t, n - 1) else (owner, n)) q' k'"
proof -
  have h: "mutex_held owner q k" "uxRecursiveCallCount q = n" "owner = 0 \<longleftrightarrow> n = 0" "xMutexHolder q = owner"
    using assms(1) by (auto simp: recursively_held_def mutex_held_def)
  show ?thesis
  proof (cases "owner = t")
    case True
    then have n: "0 < n" using h(3) assms(3) by simp
    then obtain d where d: "n = Suc d" by (cases n) auto
    have dec: "(n + (2 ^ 32 - 1)) mod 2 ^ 32 = n - 1" using d assms(4) by simp
    let ?q = "q\<lparr>uxRecursiveCallCount := n - 1\<rparr>"
    have hq: "mutex_held owner ?q k" using h(1) by (simp only: count_update)
    show ?thesis
    proof (cases "n = 1")
      case one: True
      obtain y q' k' where "xQueueGenericSend None 0 queueSEND_TO_BACK [] ?q k = Some (Returned (), y, q', k')" "mutex_held 0 q' k'"
        "uxRecursiveCallCount q' = 0"
        using give_mutex [OF hq assms(2,3)] True one by auto
      then show ?thesis
        using True one h assms(2) dec by (simp add: xQueueGiveMutexRecursive_def recursively_held_def)
    next
      case False
      then show ?thesis
        using True h hq assms(2,3) dec n by (auto simp: xQueueGiveMutexRecursive_def Let_def recursively_held_def)
    qed
  next
    case False
    then show ?thesis using h assms(1,2) by (auto simp: xQueueGiveMutexRecursive_def)
  qed
qed

lemma recursive_run_refines:
  "recursively_held s q k \<Longrightarrow> \<forall>(t, op) \<in> set ops. t \<noteq> 0 \<Longrightarrow> snd s + length ops < 2 ^ 32 \<Longrightarrow>
   \<exists>q' k'. recursive_run ops (q, k) = Some (fst (recursive_lock ops s), q', k') \<and> recursively_held (snd (recursive_lock ops s)) q' k'"
proof (induction ops arbitrary: s q k)
  case Nil
  then show ?case by simp
next
  case (Cons a ops)
  obtain t op where a: "a = (t, op)" by (cases a)
  obtain owner n where s: "s = (owner, n)" by (cases s)
  have t: "t \<noteq> 0" "\<forall>(t, op) \<in> set ops. t \<noteq> 0" using Cons.prems(2) a by auto
  have h: "recursively_held (owner, n) q (running t k)" "t = pxCurrentTCB (running t k)"
    using Cons.prems(1) s by (simp_all add: recursively_held_def)
  have b: "n + 1 < 2 ^ 32" "n < 2 ^ 32" using Cons.prems(3) s by simp_all
  show ?case
  proof (cases op)
    case Enter
    let ?s = "if owner = 0 then (t, 1) else if owner = t then (t, n + 1) else (owner, n)"
    obtain r y q1 k1 where r: "xQueueTakeMutexRecursive 0 [] q (running t k) = Some (r, y, q1, k1)" "r = Returned () \<longleftrightarrow> owner = 0 \<or> owner = t"
      "recursively_held ?s q1 k1" using take_recursive [OF h t(1) b(1)] by blast
    have "snd ?s + length ops < 2 ^ 32" using Cons.prems(3) s by auto
    from Cons.IH [OF r(3) t(2) this] r(1,2) show ?thesis by (auto simp: a s Enter split_def Let_def)
  next
    case Leave
    let ?s = "if owner = t then if n = 1 then (0, 0) else (t, n - 1) else (owner, n)"
    obtain y q1 k1 where r: "xQueueGiveMutexRecursive q (running t k) = Some (owner = t, y, q1, k1)" "recursively_held ?s q1 k1"
      using give_recursive [OF h t(1) b(2)] by blast
    have "snd ?s + length ops < 2 ^ 32" using Cons.prems(3) s by auto
    from Cons.IH [OF r(2) t(2) this] r(1) show ?thesis by (auto simp: a s Leave split_def Let_def)
  qed
qed

text \<open>
  A recursive mutex counts: over any takes and gives of any tasks its holder is the task that took it first, takes of
  the holder nest, takes and gives of other tasks are refused, and it is free again after exactly as many gives as takes of the holder.
\<close>

theorem recursive_mutex_counts:
  assumes "recursively_held s q k" and "\<forall>(t, op) \<in> set ops. t \<noteq> 0" and "snd s + length ops < 2 ^ 32"
  shows "\<exists>q' k'. recursive_run ops (q, k) = Some (fst (recursive_lock ops s), q', k') \<and>
    xQueueGetMutexHolder q' = fst (snd (recursive_lock ops s)) \<and> uxRecursiveCallCount q' = snd (snd (recursive_lock ops s))"
proof -
  have "recursively_held p q' k' \<Longrightarrow> xQueueGetMutexHolder q' = fst p \<and> uxRecursiveCallCount q' = snd p" for p q' k'
    by (simp add: recursively_held_def mutex_held_def xQueueGetMutexHolder_def)
  then show ?thesis using recursive_run_refines [OF assms] by blast
qed

lemma recursive_mutex_counts_witness:
  "\<exists>q' k'. recursive_run [(1, Enter), (1, Enter), (2, Enter), (1, Leave), (2, Leave), (1, Leave), (2, Enter)] (free_mutex, two_tasks 0) =
     Some ([True, True, False, True, False, True, True], q', k') \<and> xQueueGetMutexHolder q' = 2 \<and> uxRecursiveCallCount q' = 1"
proof -
  let ?ops = "[(1, Enter), (1, Enter), (2, Enter), (1, Leave), (2, Leave), (1, Leave), (2, Enter)]"
  have "recursively_held (0, 0) free_mutex (two_tasks 0)"
    using free_mutex_held by (simp add: recursively_held_def) (simp add: free_mutex_def small_queue_def)
  moreover have "recursive_lock ?ops (0, 0) = ([True, True, False, True, False, True, True], 2, 1)" by simp
  ultimately show ?thesis using recursive_mutex_counts [of "(0, 0)" free_mutex "two_tasks 0" ?ops] by simp
qed

section \<open>No item is missed by a task on its way to the event list\<close>

lemma fresh_timeout:
  "0 < n \<Longrightarrow> xTickCount k' = xTickCount k \<Longrightarrow> xNumOfOverflows k' = xNumOfOverflows k \<Longrightarrow>
   xTaskCheckForTimeOut k' (vTaskInternalSetTimeOutState k) n = (False, vTaskInternalSetTimeOutState k, n)"
  by (simp add: xTaskCheckForTimeOut_def vTaskInternalSetTimeOutState_def Let_def)

text \<open>An interrupt that sends an item to the back.\<close>

definition send_interrupt :: "u8 list \<Rightarrow> step" where
  "send_interrupt x = (\<lambda>(q, k). case xQueueGenericSendFromISR (Some x) queueSEND_TO_BACK q k of None \<Rightarrow> (q, k) | Some (_, _, s) \<Rightarrow> s)"

text \<open>An empty queue that is not locked and that nobody waits for, and the running task that is about to receive from it.\<close>

definition receiver_ready :: "queue \<Rightarrow> kernel \<Rightarrow> bool" where
  "receiver_ready q k \<longleftrightarrow> kernel_ok k \<and> queue_ok q \<and> contents q = [] \<and> cTxLock q = queueUNLOCKED \<and> cRxLock q = queueUNLOCKED \<and>
     xEventLists k (xTasksWaitingToReceive q) = [] \<and> xEventLists k (xTasksWaitingToSend q) = [] \<and>
     xTasksWaitingToSend q \<noteq> xTasksWaitingToReceive q \<and>
     xEventPlace (tcbs k (pxCurrentTCB k)) = On_No_List \<and> 0 < uxCurrentNumberOfTasks k \<and> uxCurrentNumberOfTasks k \<le> 127"

text \<open>What the interrupt does to an empty queue: if the queue is not locked it wakes a waiting task.\<close>

lemma send_interrupt_empty:
  assumes "queue_ok q" and "contents q = []" and "length x = uxItemSize q" and "0 < uxCurrentNumberOfTasks k" and "uxCurrentNumberOfTasks k \<le> 127"
    and "cTxLock q = queueUNLOCKED \<or> cTxLock q = 0" and "wake_waiting (xTasksWaitingToReceive q) k = Some (y, k')"
  shows "\<exists>q'. send_interrupt x (q, k) = (q', if cTxLock q = queueUNLOCKED then k' else k) \<and> queue_ok q' \<and> contents q' = [x] \<and>
    cTxLock q' = (if cTxLock q = queueUNLOCKED then queueUNLOCKED else 1) \<and> cRxLock q' = cRxLock q \<and>
    xTasksWaitingToReceive q' = xTasksWaitingToReceive q \<and> xTasksWaitingToSend q' = xTasksWaitingToSend q \<and> uxItemSize q' = uxItemSize q"
proof -
  obtain w r where at': "ring_at w r q" using assms(1) by (auto simp: queue_ok_def)
  have lt: "uxMessagesWaiting q < uxLength q" using at' length_contents [of q] assms(2) by (simp add: ring_at_def)
  obtain q1 where u: "prvCopyDataToQueue x queueSEND_TO_BACK q k = Some (False, q1, k)" "queue_ok q1" "contents q1 = [x]"
    "q1 = q\<lparr>pcHead := pcHead q1, pcWriteTo := pcWriteTo q1, uxMessagesWaiting := uxMessagesWaiting q + 1\<rparr>"
    using send_back [OF at' lt assms(3), of k] assms(2) unfolding queue_ok_def by auto
  have f: "cTxLock q1 = cTxLock q" "cRxLock q1 = cRxLock q" "xTasksWaitingToReceive q1 = xTasksWaitingToReceive q"
    "xTasksWaitingToSend q1 = xTasksWaitingToSend q" "uxItemSize q1 = uxItemSize q" by (subst u(4), simp)+
  show ?thesis
  proof (cases "cTxLock q = queueUNLOCKED")
    case True
    then have "xQueueGenericSendFromISR (Some x) queueSEND_TO_BACK q k = Some (True, y, q1, k')"
      using lt u(1) f assms(7) by (simp add: xQueueGenericSendFromISR_def)
    then show ?thesis using u(2,3) f True by (simp add: send_interrupt_def)
  next
    case False
    then have "prvIncrementQueueTxLock q1 k = Some (q1\<lparr>cTxLock := 1\<rparr>)"
      using assms(4,6) f(1) by (auto simp: prvIncrementQueueTxLock_def queueINT8_MAX_def)
    then have "xQueueGenericSendFromISR (Some x) queueSEND_TO_BACK q k = Some (True, False, q1\<lparr>cTxLock := 1\<rparr>, k)"
      using lt u(1) f False by (simp add: xQueueGenericSendFromISR_def)
    then show ?thesis using u(2,3) f False by (simp add: send_interrupt_def)
  qed
qed

text \<open>An empty queue that an interrupt sends to, unlocked or locked and unmodified, and the queue with its one item.\<close>

definition empty_queue :: "nat \<Rightarrow> nat \<Rightarrow> nat \<Rightarrow> int \<Rightarrow> queue \<Rightarrow> bool" where
  "empty_queue e s n lock q \<longleftrightarrow> queue_ok q \<and> contents q = [] \<and> uxItemSize q = n \<and> cTxLock q = lock \<and> cRxLock q = lock \<and>
     (lock = queueUNLOCKED \<or> lock = 0) \<and> xTasksWaitingToReceive q = e \<and> xTasksWaitingToSend q = s"

definition one_item :: "nat \<Rightarrow> nat \<Rightarrow> u8 list \<Rightarrow> int \<Rightarrow> int \<Rightarrow> queue \<Rightarrow> bool" where
  "one_item e s x tx rx q \<longleftrightarrow> queue_ok q \<and> contents q = [x] \<and> cTxLock q = tx \<and> cRxLock q = rx \<and>
     xTasksWaitingToReceive q = e \<and> xTasksWaitingToSend q = s"

lemma send_wakes:
  assumes "empty_queue e s (length x) lock q" and "0 < uxCurrentNumberOfTasks k" and "uxCurrentNumberOfTasks k \<le> 127"
    and "wake_waiting e k = Some (y, k')"
  shows "\<exists>q'. send_interrupt x (q, k) = (q', if lock = queueUNLOCKED then k' else k) \<and>
    one_item e s x (if lock = queueUNLOCKED then queueUNLOCKED else 1) lock q'"
  using send_interrupt_empty [of q x k y k'] assms by (auto simp: empty_queue_def one_item_def)

lemma lock_queue:
  "empty_queue e s n queueUNLOCKED q \<Longrightarrow> empty_queue e s n 0 (prvLockQueue q)"
  "one_item e s x queueUNLOCKED queueUNLOCKED q \<Longrightarrow> one_item e s x 0 0 (prvLockQueue q)"
  by (simp_all add: empty_queue_def one_item_def prvLockQueue_def queueLOCKED_UNMODIFIED_def)

lemma emptiness: "empty_queue e s n lock q \<Longrightarrow> prvIsQueueEmpty q" "one_item e s x tx rx q \<Longrightarrow> \<not> prvIsQueueEmpty q"
  using length_contents [of q] by (auto simp: empty_queue_def one_item_def prvIsQueueEmpty_def)

lemma unlock_none [simp]: "unlock_loop 0 e k = Some k" "xEventLists k e = [] \<Longrightarrow> unlock_loop n e k = Some k"
  by (cases n; simp)+

text \<open>Unlocking: what was sent meanwhile wakes a task, and an interrupt can send between the two critical sections.\<close>

lemma unlock_sent:
  assumes "one_item e s x tx rx q" and "tx = 0 \<or> tx = 1" and "rx = 0" and "wake_waiting e k = Some (False, k')"
  shows "\<exists>q'. prvUnlockQueue id q k = Some (q', if tx = 1 then k' else k) \<and> one_item e s x queueUNLOCKED queueUNLOCKED q'"
  using assms by (auto simp: prvUnlockQueue_def one_item_def wake_waiting_def split: if_splits)

lemma unlock_empty:
  assumes "empty_queue e s n 0 q"
  shows "\<exists>q'. prvUnlockQueue id q k = Some (q', k) \<and> empty_queue e s n queueUNLOCKED q'"
  using assms by (auto simp: prvUnlockQueue_def empty_queue_def)

lemma unlock_amid:
  assumes "empty_queue e s (length x) 0 q" and "0 < uxCurrentNumberOfTasks k" and "uxCurrentNumberOfTasks k \<le> 127"
    and "wake_waiting e k = Some (y, k')"
  shows "\<exists>q'. prvUnlockQueue (send_interrupt x) q k = Some (q', k') \<and> one_item e s x queueUNLOCKED queueUNLOCKED q'"
proof -
  have q: "queue_ok (q\<lparr>cTxLock := queueUNLOCKED\<rparr>)" "contents (q\<lparr>cTxLock := queueUNLOCKED\<rparr>) = []" "cTxLock q = 0" "cRxLock q = 0"
    using assms(1) by (simp_all add: empty_queue_def)
  obtain q1 where "send_interrupt x (q\<lparr>cTxLock := queueUNLOCKED\<rparr>, k) = (q1, k')" "queue_ok q1" "contents q1 = [x]" "cTxLock q1 = queueUNLOCKED" "cRxLock q1 = 0"
    "xTasksWaitingToReceive q1 = e" "xTasksWaitingToSend q1 = s"
    using send_interrupt_empty [OF q(1,2), of x k y k'] assms by (auto simp: empty_queue_def)
  then show ?thesis using q(3) by (simp add: prvUnlockQueue_def one_item_def)
qed

text \<open>A receive of the one item.\<close>

lemma receive_one:
  assumes "queue_ok q" and "contents q = [x]"
  shows "\<exists>y q' k'. receive_now q k = Some (Some (x, y, q', k')) \<and> contents q' = [] \<and> queue_ok q' \<and>
    wake_waiting (xTasksWaitingToSend q) k = Some (y, k')"
proof -
  have n: "0 < uxMessagesWaiting q" using length_contents [of q] assms(2) by simp
  obtain q' z where u: "prvCopyDataFromQueue q = (z, q')" "contents q = z # contents (q'\<lparr>uxMessagesWaiting := uxMessagesWaiting q - 1\<rparr>)"
    "queue_ok (q'\<lparr>uxMessagesWaiting := uxMessagesWaiting q - 1\<rparr>)" "q' = q\<lparr>pcReadFrom := pcReadFrom q'\<rparr>"
    using take_out [OF assms(1) n] by blast
  have f: "xTasksWaitingToSend q' = xTasksWaitingToSend q" by (subst u(4)) simp
  obtain y k' where "wake_waiting (xTasksWaitingToSend q) k = Some (y, k')" using wake_waiting_ok by blast
  then show ?thesis using n u assms(2) f by (auto simp: receive_now_def)
qed

section \<open>A task on an event list and its wake-up\<close>

text \<open>Task \<open>t\<close>, of priority \<open>p\<close>, is alone on event list \<open>e\<close>, list \<open>s\<close> is empty, and task \<open>i\<close> is ready.\<close>

definition waits_on :: "nat \<Rightarrow> nat \<Rightarrow> nat \<Rightarrow> nat \<Rightarrow> nat \<Rightarrow> nat \<Rightarrow> kernel \<Rightarrow> bool" where
  "waits_on e s t p i sus k \<longleftrightarrow> places_ok k \<and> xPendingReadyList k = [] \<and> xPendedTicks k = 0 \<and> xEventLists k e = [t] \<and> xEventLists k s = [] \<and>
     xEventPlace (tcbs k t) = On_Event e \<and> uxPriority (tcbs k t) = p \<and> i \<noteq> t \<and> (\<exists>r. xStatePlace (tcbs k i) = In_Ready r) \<and>
     uxSchedulerSuspended k = sus \<and> 0 < uxCurrentNumberOfTasks k \<and> uxCurrentNumberOfTasks k \<le> 127"

text \<open>The task is ready again and off the event list.\<close>

definition back_again :: "nat \<Rightarrow> nat \<Rightarrow> kernel \<Rightarrow> bool" where
  "back_again t p k \<longleftrightarrow> places_ok k \<and> uxSchedulerSuspended k = 0 \<and> xStatePlace (tcbs k t) = In_Ready p \<and> xEventPlace (tcbs k t) = On_No_List"

lemma placed:
  assumes "places_ok k" and "uxSchedulerSuspended k = 1" and "xPendingReadyList k = []" and "xPendedTicks k = 0"
    and "xEventLists k e = []" and "xEventLists k s = []" and "s \<noteq> e" and "t = pxCurrentTCB k" and "uxPriority (tcbs k t) = p"
    and "i \<noteq> t" and "xStatePlace (tcbs k i) = In_Ready r" and "0 < uxCurrentNumberOfTasks k" and "uxCurrentNumberOfTasks k \<le> 127"
  shows "waits_on e s t p i 1 (vTaskPlaceOnEventList e n k) \<and> pxCurrentTCB (vTaskPlaceOnEventList e n k) = t"
proof -
  let ?ki = "insert_event e t k"
  have i: "xEventLists ?ki f = (if f = e then [t] else xEventLists k f)" "pxCurrentTCB ?ki = t" "uxSchedulerSuspended ?ki = 1"
    "xPendingReadyList ?ki = []" "xPendedTicks ?ki = 0" "uxCurrentNumberOfTasks ?ki = uxCurrentNumberOfTasks k"
    "tcbs ?ki t = (tcbs k t)\<lparr>xEventPlace := On_Event e\<rparr>" "tcbs ?ki i = tcbs k i" for f
    using assms by (simp_all add: insert_event_def set_tcb_def insert_stable_def)
  have "places_ok (k\<lparr>xEventLists := (xEventLists k)(e := insert_stable (\<lambda>x. xEventItemValue (tcbs k x)) t (xEventLists k e))\<rparr>)"
    by (rule places_times [OF assms(1)]) simp_all
  then have "places_ok ?ki" unfolding insert_event_def by (rule places_set_tcb) simp_all
  then have "places_ok (prvAddCurrentTaskToDelayedList n True ?ki)" by (rule places_delay)
  then show ?thesis using i assms by (simp add: vTaskPlaceOnEventList_def waits_on_def)
qed

lemma wake_suspended:
  assumes "waits_on e s t p i 1 k" and "pxCurrentTCB k = t" and "s \<noteq> e"
  shows "\<exists>k2 y k3. wake_waiting e k = Some (False, k2) \<and> xEventLists k2 s = [] \<and> resume_and_yield False k2 = Some (y, k3) \<and>
    back_again t p k3"
proof -
  note a = assms(1) [unfolded waits_on_def]
  let ?kr = "(remove_event_item t k)\<lparr>xPendingReadyList := [t]\<rparr>"
  define k2 where "k2 = set_tcb t (\<lambda>x. x\<lparr>xEventPlace := On_Pending\<rparr>) ?kr"
  have r: "wake_waiting e k = Some (False, k2)"
    using a assms(2) by (simp add: wake_waiting_def xTaskRemoveFromEventList_def k2_def)
  have "places_ok ?kr" by (rule places_times [OF places_remove_event]) (use a in simp_all)
  then have p2: "places_ok k2" unfolding k2_def by (rule places_set_tcb) simp_all
  have f2: "uxSchedulerSuspended k2 = 1" "xPendingReadyList k2 = [t]" "xPendedTicks k2 = 0" "xEventPlace (tcbs k2 t) = On_Pending"
    "uxPriority (tcbs k2 t) = p" "xEventLists k2 s = []"
    using a assms(3) by (simp_all add: k2_def)
  obtain y k3 where s: "xTaskResumeAll k2 = Some (y, k3)" "places_ok k3" "uxSchedulerSuspended k3 = 0"
    "tcbs k3 t = (tcbs k2 t)\<lparr>xEventPlace := On_No_List, xStatePlace := In_Ready (uxPriority (tcbs k2 t))\<rparr>"
    using resume_one [OF p2 f2(1,2,3,4)] by auto
  have b: "back_again t p k3" using s f2(5) by (simp add: back_again_def)
  then obtain k4 where k4: "vTaskSwitchContext k3 = Some k4" "back_again t p k4"
    using switch_ok [of k3 t p] by (auto simp: back_again_def)
  show ?thesis
  proof (cases y)
    case True
    then show ?thesis using r f2(6) s(1) k4 by (auto simp: resume_and_yield_def)
  next
    case False
    then show ?thesis using r f2(6) s(1) b by (auto simp: resume_and_yield_def)
  qed
qed

lemma wake_running:
  assumes "waits_on e s t p i 0 k"
  shows "\<exists>y k2. wake_waiting e k = Some (y, k2) \<and> back_again t p k2"
proof -
  note a = assms [unfolded waits_on_def]
  let ?k = "prvAddTaskToReadyList t (remove_state_item t (remove_event_item t k))"
  have p: "places_ok ?k" by (intro places_add_ready places_remove_state places_remove_event) (use a in simp_all)
  then have "places_ok (?k\<lparr>xYieldPending := True\<rparr>)" by (rule places_times) simp_all
  then show ?thesis using a p by (cases "uxPriority (tcbs k (pxCurrentTCB k)) < p") (auto simp: wake_waiting_def xTaskRemoveFromEventList_def Let_def back_again_def)
qed

lemma switch_keeps_events: "vTaskSwitchContext k = Some k' \<Longrightarrow> xEventLists k' = xEventLists k \<and> uxCurrentNumberOfTasks k' = uxCurrentNumberOfTasks k"
  by (auto simp: vTaskSwitchContext_def taskSELECT_HIGHEST_PRIORITY_TASK_def Let_def split: if_splits bind_splits)

lemma switch_waits:
  assumes "waits_on e s t p i 0 k"
  shows "\<exists>k'. vTaskSwitchContext k = Some k' \<and> waits_on e s t p i 0 k'"
proof -
  note a = assms [unfolded waits_on_def]
  then obtain r where "xStatePlace (tcbs k i) = In_Ready r" by blast
  with switch_ok [of k i r] a obtain k' where "vTaskSwitchContext k = Some k'" "places_ok k'" "tcbs k' = tcbs k"
    "uxSchedulerSuspended k' = 0" "xPendedTicks k' = 0" "xPendingReadyList k' = []" by auto
  then show ?thesis using a switch_keeps_events [of k k'] by (auto simp: waits_on_def)
qed

lemma switch_back: "back_again t p k \<Longrightarrow> \<exists>k'. vTaskSwitchContext k = Some k' \<and> back_again t p k'"
  using switch_ok [of k t p] by (auto simp: back_again_def)

lemma resume_waits:
  assumes "waits_on e s t p i 1 k"
  shows "\<exists>y k'. resume_and_yield False k = Some (y, k') \<and> waits_on e s t p i 0 k'"
proof -
  note a = assms [unfolded waits_on_def]
  have r: "xTaskResumeAll k = Some (xYieldPending k, k\<lparr>uxSchedulerSuspended := 0\<rparr>)" using resume_quiet a by blast
  have "places_ok (k\<lparr>uxSchedulerSuspended := 0\<rparr>)" by (rule places_times [of k]) (use a in simp_all)
  then have w: "waits_on e s t p i 0 (k\<lparr>uxSchedulerSuspended := 0\<rparr>)" using a by (simp add: waits_on_def)
  then show ?thesis using r switch_waits [OF w] by (cases "xYieldPending k") (auto simp: resume_and_yield_def)
qed

section \<open>One pass with an interrupt in it\<close>

text \<open>
  The points of a pass at which an interrupt can send: one for each field of the environment that is reached when a task
  receives from a queue.
\<close>

datatype window = Before_Suspend | Before_Lock | Before_Timeout_Test | Before_Test | After_Test | Before_Event_List |
  On_Event_List | Amid_Unlock | After_Unlock | After_Resume | While_Blocked

definition in_window :: "window \<Rightarrow> window \<Rightarrow> u8 list \<Rightarrow> step" where
  "in_window w v x = (if v = w then send_interrupt x else id)"

definition pass_with :: "window \<Rightarrow> u8 list \<Rightarrow> pass_env" where
  "pass_with w x = \<lparr>preempted = in_window w Before_Suspend x, isr_suspended = in_window w Before_Lock x,
     isr_locked = in_window w Before_Timeout_Test x, isr_timed = in_window w Before_Test x, isr_tested = in_window w After_Test x,
     isr_inherited = in_window w Before_Event_List x, isr_listed = in_window w On_Event_List x, isr_unlocking = in_window w Amid_Unlock x,
     isr_unlocked = in_window w After_Unlock x, isr_resumed = in_window w After_Resume x, others = in_window w While_Blocked x,
     after_timeout = id\<rparr>"

lemma pass_with_sel [simp]:
  "preempted (pass_with w x) = in_window w Before_Suspend x" "isr_suspended (pass_with w x) = in_window w Before_Lock x"
  "isr_locked (pass_with w x) = in_window w Before_Timeout_Test x" "isr_timed (pass_with w x) = in_window w Before_Test x"
  "isr_tested (pass_with w x) = in_window w After_Test x" "isr_inherited (pass_with w x) = in_window w Before_Event_List x"
  "isr_listed (pass_with w x) = in_window w On_Event_List x" "isr_unlocking (pass_with w x) = in_window w Amid_Unlock x"
  "isr_unlocked (pass_with w x) = in_window w After_Unlock x" "isr_resumed (pass_with w x) = in_window w After_Resume x"
  "others (pass_with w x) = in_window w While_Blocked x"
  by (simp_all add: pass_with_def)

definition early :: "window \<Rightarrow> bool" where
  "early w \<longleftrightarrow> w \<in> {Before_Suspend, Before_Lock, Before_Timeout_Test, Before_Test}"

text \<open>Before the test: the queue is locked and, if the interrupt came early, holds the item; the kernel is only suspended.\<close>

lemma until_test:
  assumes "receiver_ready q k" and "length x = uxItemSize q" and "e = xTasksWaitingToReceive q" and "s = xTasksWaitingToSend q"
  shows "\<exists>q1 q2 q3 q4. in_window w Before_Suspend x (q, k) = (q1, k) \<and> in_window w Before_Lock x (q1, vTaskSuspendAll k) = (q2, vTaskSuspendAll k) \<and>
    in_window w Before_Timeout_Test x (prvLockQueue q2, vTaskSuspendAll k) = (q3, vTaskSuspendAll k) \<and>
    in_window w Before_Test x (q3, vTaskSuspendAll k) = (q4, vTaskSuspendAll k) \<and>
    (if early w then \<exists>tx. (tx = 0 \<or> tx = 1) \<and> one_item e s x tx 0 q4 else empty_queue e s (length x) 0 q4)"
proof -
  let ?k = "vTaskSuspendAll k"
  have q: "empty_queue e s (length x) queueUNLOCKED q" using assms by (simp add: receiver_ready_def empty_queue_def)
  have n: "0 < uxCurrentNumberOfTasks k" "uxCurrentNumberOfTasks k \<le> 127" "0 < uxCurrentNumberOfTasks ?k" "uxCurrentNumberOfTasks ?k \<le> 127"
    using assms(1) by (simp_all add: receiver_ready_def vTaskSuspendAll_def)
  have v: "wake_waiting e k = Some (False, k)" "wake_waiting e ?k = Some (False, ?k)"
    using assms(1,3) by (simp_all add: receiver_ready_def wake_waiting_def vTaskSuspendAll_def)
  note s1 = send_wakes [OF q n(1,2) v(1)] and s2 = send_wakes [OF q n(3,4) v(2)]
    and s3 = send_wakes [OF lock_queue(1) [OF q] n(3,4) v(2)]
  have "(0 :: int) \<noteq> queueUNLOCKED" by (simp add: queueUNLOCKED_def)
  then show ?thesis using s1 s2 s3 lock_queue(1) [OF q] lock_queue(2) [of e s x]
    by (cases w) (auto simp: in_window_def early_def)
qed

lemma end_early:
  assumes "early w" and "one_item e s x tx 0 q" and "tx = 0 \<or> tx = 1" and "xEventLists k e = []"
    and "resume_and_yield False k = Some (y, k')"
  shows "\<exists>q'. end_pass False (pass_with w x) q k = Some (q', k') \<and> one_item e s x queueUNLOCKED queueUNLOCKED q'"
proof -
  have i: "in_window w v x = id" if "\<not> early v" for v using assms(1) that by (auto simp: in_window_def)
  have l: "wake_waiting e k = Some (False, k)" using assms(4) by (simp add: wake_waiting_def)
  obtain q' where "prvUnlockQueue id q k = Some (q', k)" "one_item e s x queueUNLOCKED queueUNLOCKED q'"
    using unlock_sent [OF assms(2,3) refl l] by auto
  then show ?thesis using i assms(5) by (simp add: end_pass_def early_def)
qed

text \<open>The end of a pass that blocks: wherever the item is sent, before the task is on its list or after, the task is ready at the end.\<close>

lemma end_blocked:
  assumes k: "waits_on e s t p i 1 k" "pxCurrentTCB k = t" "s \<noteq> e" and "\<not> early w"
    and q: "if w \<in> {After_Test, Before_Event_List} then one_item e s x 1 0 q else empty_queue e s (length x) 0 q"
  shows "\<exists>q1 q2 k2. in_window w On_Event_List x (q, k) = (q1, k) \<and> end_pass True (pass_with w x) q1 k = Some (q2, k2) \<and>
    back_again t p k2 \<and> one_item e s x queueUNLOCKED queueUNLOCKED q2"
proof -
  have z: "(0 :: int) \<noteq> queueUNLOCKED" by (simp add: queueUNLOCKED_def)
  have n: "0 < uxCurrentNumberOfTasks k" "uxCurrentNumberOfTasks k \<le> 127" using k(1) by (simp_all add: waits_on_def)
  obtain kw y kr where w: "wake_waiting e k = Some (False, kw)" "xEventLists kw s = []" "resume_and_yield False kw = Some (y, kr)" "back_again t p kr"
    using wake_suspended [OF k] by blast
  obtain ks where ks: "vTaskSwitchContext kr = Some ks" "back_again t p ks" using switch_back [OF w(4)] by blast
  let ?fin = "\<lambda>q k. \<exists>q2 k2. end_pass True (pass_with w x) q k = Some (q2, k2) \<and> back_again t p k2 \<and> one_item e s x queueUNLOCKED queueUNLOCKED q2"
  consider (sent) "w \<in> {After_Test, Before_Event_List, On_Event_List}" | (amid) "w = Amid_Unlock" | (unlocked) "w = After_Unlock"
    | (resumed) "w = After_Resume" | (blocked) "w = While_Blocked"
    using assms(4) by (cases w) (auto simp: early_def)
  then show ?thesis
  proof cases
    case sent
    have "\<exists>q1. in_window w On_Event_List x (q, k) = (q1, k) \<and> one_item e s x 1 0 q1"
      using sent q send_wakes [of e s x 0 q k False kw] n w(1) z by (auto simp: in_window_def)
    then obtain q1 where q1: "in_window w On_Event_List x (q, k) = (q1, k)" "one_item e s x 1 0 q1" by blast
    obtain q2 where "prvUnlockQueue id q1 k = Some (q2, kw)" "one_item e s x queueUNLOCKED queueUNLOCKED q2"
      using unlock_sent [OF q1(2) _ refl w(1)] by auto
    then have "?fin q1 k" using sent w(3,4) ks by (cases y) (auto simp: end_pass_def in_window_def)
    then show ?thesis using q1(1) by blast
  next
    case amid
    then have e0: "empty_queue e s (length x) 0 q" using q by simp
    obtain q2 where "prvUnlockQueue (send_interrupt x) q k = Some (q2, kw)" "one_item e s x queueUNLOCKED queueUNLOCKED q2"
      using unlock_amid [OF e0 n w(1)] by blast
    then have "?fin q k" using amid w(3,4) ks by (cases y) (auto simp: end_pass_def in_window_def)
    then show ?thesis using amid by (simp add: in_window_def)
  next
    case unlocked
    then have e0: "empty_queue e s (length x) 0 q" using q by simp
    obtain qu where u: "prvUnlockQueue id q k = Some (qu, k)" "empty_queue e s (length x) queueUNLOCKED qu" using unlock_empty [OF e0] by blast
    obtain q2 where "send_interrupt x (qu, k) = (q2, kw)" "one_item e s x queueUNLOCKED queueUNLOCKED q2"
      using send_wakes [OF u(2) n w(1)] by auto
    then have "?fin q k" using unlocked u(1) w(3,4) ks by (cases y) (auto simp: end_pass_def in_window_def)
    then show ?thesis using unlocked by (simp add: in_window_def)
  next
    case resumed
    then have e0: "empty_queue e s (length x) 0 q" using q by simp
    obtain qu where u: "prvUnlockQueue id q k = Some (qu, k)" "empty_queue e s (length x) queueUNLOCKED qu" using unlock_empty [OF e0] by blast
    obtain z k1 where r: "resume_and_yield False k = Some (z, k1)" "waits_on e s t p i 0 k1" using resume_waits [OF k(1)] by blast
    then have n1: "0 < uxCurrentNumberOfTasks k1" "uxCurrentNumberOfTasks k1 \<le> 127" by (simp_all add: waits_on_def)
    obtain b k2 where k2: "wake_waiting e k1 = Some (b, k2)" "back_again t p k2" using wake_running [OF r(2)] by blast
    obtain q2 where q2: "send_interrupt x (qu, k1) = (q2, k2)" "one_item e s x queueUNLOCKED queueUNLOCKED q2"
      using send_wakes [OF u(2) n1 k2(1)] by auto
    obtain k3 where "vTaskSwitchContext k2 = Some k3" "back_again t p k3" using switch_back [OF k2(2)] by blast
    then have "?fin q k" using resumed u(1) r(1) q2 k2(2) by (cases z) (auto simp: end_pass_def in_window_def)
    then show ?thesis using resumed by (simp add: in_window_def)
  next
    case blocked
    then have e0: "empty_queue e s (length x) 0 q" using q by simp
    obtain qu where u: "prvUnlockQueue id q k = Some (qu, k)" "empty_queue e s (length x) queueUNLOCKED qu" using unlock_empty [OF e0] by blast
    obtain z k1 where r: "resume_and_yield False k = Some (z, k1)" "waits_on e s t p i 0 k1" using resume_waits [OF k(1)] by blast
    obtain k2 where k2: "(if \<not> z then vTaskSwitchContext k1 else Some k1) = Some k2" "waits_on e s t p i 0 k2"
      using switch_waits [OF r(2)] r(2) by (cases z) auto
    then have n2: "0 < uxCurrentNumberOfTasks k2" "uxCurrentNumberOfTasks k2 \<le> 127" by (simp_all add: waits_on_def)
    obtain b k3 where k3: "wake_waiting e k2 = Some (b, k3)" "back_again t p k3" using wake_running [OF k2(2)] by blast
    obtain q2 where "send_interrupt x (qu, k2) = (q2, k3)" "one_item e s x queueUNLOCKED queueUNLOCKED q2"
      using send_wakes [OF u(2) n2 k3(1)] by auto
    then have "?fin q k" using blocked u(1) r(1) k2(1) k3(2) by (cases z) (auto simp: end_pass_def in_window_def)
    then show ?thesis using blocked by (simp add: in_window_def)
  qed
qed

text \<open>The whole pass.\<close>

lemma pass_ok:
  assumes "receiver_ready q k" and "length x = uxItemSize q" and "0 < n"
  shows "\<exists>q' k'. block_pass prvIsQueueEmpty no_inheritance xTasksWaitingToReceive (pass_with w x) (vTaskInternalSetTimeOutState k) n False q k =
      Some (Retry, vTaskInternalSetTimeOutState k, n, False, q', k') \<and>
    xStatePlace (tcbs k' (pxCurrentTCB k)) = In_Ready (uxPriority (tcbs k (pxCurrentTCB k))) \<and> xEventPlace (tcbs k' (pxCurrentTCB k)) = On_No_List \<and>
    queue_ok q' \<and> contents q' = [x]"
proof -
  note a = assms(1) [unfolded receiver_ready_def kernel_ok_def]
  let ?k = "vTaskSuspendAll k" and ?t = "pxCurrentTCB k" and ?e = "xTasksWaitingToReceive q" and ?s = "xTasksWaitingToSend q"
    and ?p = "uxPriority (tcbs k (pxCurrentTCB k))" and ?out = "vTaskInternalSetTimeOutState k"
  obtain p i r where pr: "xStatePlace (tcbs k ?t) = In_Ready p" "i \<noteq> ?t" "xStatePlace (tcbs k i) = In_Ready r" using a by blast
  have p: "p = ?p" using places_okD(4) [OF _ pr(1)] a by simp
  have sus: "places_ok ?k" "uxSchedulerSuspended ?k = 1" "xPendedTicks ?k = 0" "xPendingReadyList ?k = []" "tcbs ?k = tcbs k" "pxCurrentTCB ?k = ?t"
    using suspended_ok [of k] assms(1) by (simp_all add: receiver_ready_def)
  have ev: "xEventLists ?k ?e = []" "xEventLists ?k ?s = []" "0 < uxCurrentNumberOfTasks ?k" "uxCurrentNumberOfTasks ?k \<le> 127" "?s \<noteq> ?e"
    "xTickCount ?k = xTickCount k" "xNumOfOverflows ?k = xNumOfOverflows k" using a by (simp_all add: vTaskSuspendAll_def)
  have out: "xTaskCheckForTimeOut ?k ?out n = (False, ?out, n)" by (rule fresh_timeout [OF assms(3) ev(6,7)])
  obtain q1 q2 q3 q4 where q: "in_window w Before_Suspend x (q, k) = (q1, k)" "in_window w Before_Lock x (q1, ?k) = (q2, ?k)"
    "in_window w Before_Timeout_Test x (prvLockQueue q2, ?k) = (q3, ?k)" "in_window w Before_Test x (q3, ?k) = (q4, ?k)"
    "if early w then \<exists>tx. (tx = 0 \<or> tx = 1) \<and> one_item ?e ?s x tx 0 q4 else empty_queue ?e ?s (length x) 0 q4"
    using until_test [OF assms(1,2) refl refl] by blast
  show ?thesis
  proof (cases "early w")
    case True
    then obtain tx where tx: "tx = 0 \<or> tx = 1" "one_item ?e ?s x tx 0 q4" using q(5) by auto
    have "places_ok (?k\<lparr>uxSchedulerSuspended := 0\<rparr>)" by (rule places_times [OF sus(1)]) simp_all
    then obtain y k' where r: "resume_and_yield False ?k = Some (y, k')" "tcbs k' = tcbs k"
      using yield_ok [where b = False, OF resume_quiet [OF sus(2,4,3)], of ?t p] pr(1) sus(5) by auto
    obtain q' where q': "end_pass False (pass_with w x) q4 ?k = Some (q', k')" "one_item ?e ?s x queueUNLOCKED queueUNLOCKED q'"
      using end_early [OF True tx(2,1) ev(1) r(1)] by blast
    have "in_window w After_Test x = id" using True by (auto simp: in_window_def early_def)
    then have "block_pass prvIsQueueEmpty no_inheritance xTasksWaitingToReceive (pass_with w x) ?out n False q k = Some (Retry, ?out, n, False, q', k')"
      unfolding block_pass_def Let_def pass_with_sel q(1-4) prod.case out using emptiness(2) [OF tx(2)] q'(1) by simp
    then show ?thesis using r(2) pr(1) p a q'(2) by (auto simp: one_item_def)
  next
    case False
    then have q4: "empty_queue ?e ?s (length x) 0 q4" using q(5) by simp
    have lk: "wake_waiting ?e ?k = Some (False, ?k)" using ev(1) by (simp add: wake_waiting_def)
    have "\<exists>q5 q6. in_window w After_Test x (q4, ?k) = (q5, ?k) \<and> in_window w Before_Event_List x (q5, ?k) = (q6, ?k) \<and>
        (if w \<in> {After_Test, Before_Event_List} then one_item ?e ?s x 1 0 q6 else empty_queue ?e ?s (length x) 0 q6)"
      using send_wakes [OF q4 ev(3,4) lk] q4 by (cases w) (auto simp: in_window_def queueUNLOCKED_def)
    then obtain q5 q6 where q6: "in_window w After_Test x (q4, ?k) = (q5, ?k)" "in_window w Before_Event_List x (q5, ?k) = (q6, ?k)"
      "if w \<in> {After_Test, Before_Event_List} then one_item ?e ?s x 1 0 q6 else empty_queue ?e ?s (length x) 0 q6" by blast
    have e6: "xTasksWaitingToReceive q6 = ?e" using q6(3) by (auto simp: one_item_def empty_queue_def split: if_splits)
    have e5: "in_window w Before_Event_List x (q5, ?k) = (q6, ?k)" by (rule q6(2))
    let ?kp = "vTaskPlaceOnEventList ?e n ?k"
    have pl: "waits_on ?e ?s ?t ?p i 1 ?kp" "pxCurrentTCB ?kp = ?t"
      using placed [OF sus(1,2,4,3) ev(1,2,5), of ?t ?p i r n] sus(5,6) pr(2,3) ev(3,4) by auto
    obtain q7 q8 k8 where e: "in_window w On_Event_List x (q6, ?kp) = (q7, ?kp)" "end_pass True (pass_with w x) q7 ?kp = Some (q8, k8)"
      "back_again ?t ?p k8" "one_item ?e ?s x queueUNLOCKED queueUNLOCKED q8"
      using end_blocked [OF pl ev(5) False q6(3)] by blast
    have "block_pass prvIsQueueEmpty no_inheritance xTasksWaitingToReceive (pass_with w x) ?out n False q k = Some (Retry, ?out, n, False, q8, k8)"
      unfolding block_pass_def Let_def pass_with_sel q(1-4) prod.case out q6(1) no_inheritance_def e5 e6
      using emptiness(1) [OF q4] e(1,2) by simp
    then show ?thesis using e(3,4) by (auto simp: back_again_def one_item_def)
  qed
qed

lemma receive_ok:
  assumes "receiver_ready q k" and "length x = uxItemSize q" and "0 < n"
  shows "\<exists>q1 k1 y q2 k2. block_pass prvIsQueueEmpty no_inheritance xTasksWaitingToReceive (pass_with w x) (vTaskInternalSetTimeOutState k) n False q k =
      Some (Retry, vTaskInternalSetTimeOutState k, n, False, q1, k1) \<and>
    xStatePlace (tcbs k1 (pxCurrentTCB k)) = In_Ready (uxPriority (tcbs k (pxCurrentTCB k))) \<and> xEventPlace (tcbs k1 (pxCurrentTCB k)) = On_No_List \<and>
    xQueueReceive n [pass_with w x] q k = Some (Returned x, y, q2, k2) \<and> contents q2 = []"
proof -
  obtain q1 k1 where b: "block_pass prvIsQueueEmpty no_inheritance xTasksWaitingToReceive (pass_with w x) (vTaskInternalSetTimeOutState k) n False q k =
      Some (Retry, vTaskInternalSetTimeOutState k, n, False, q1, k1)" 
    "xStatePlace (tcbs k1 (pxCurrentTCB k)) = In_Ready (uxPriority (tcbs k (pxCurrentTCB k)))" "xEventPlace (tcbs k1 (pxCurrentTCB k)) = On_No_List"
    "queue_ok q1" "contents q1 = [x]"
    using pass_ok [OF assms] by blast
  obtain y q2 k2 where r: "receive_now q1 k1 = Some (Some (x, y, q2, k2))" "contents q2 = []"
    using receive_one [OF b(4,5)] by blast
  have k: "uxSchedulerSuspended k = 0" "contents q = []" using assms(1) by (simp_all add: receiver_ready_def kernel_ok_def)
  have none: "receive_now q k = Some None" using k(2) length_contents [of q] by (simp add: receive_now_def)
  have n: "n \<noteq> 0" "may_wait n k" using assms(3) k(1) by (auto simp: may_wait_def)
  have second: "wait_loop receive_now prvIsQueueEmpty no_inheritance xTasksWaitingToReceive prvIsQueueEmpty nothing_to_undo []
      (Some (vTaskInternalSetTimeOutState k)) n False q1 k1 = Some (Returned x, y, q2, k2)"
    by (subst wait_loop.simps) (simp add: r(1))
  have "xQueueReceive n [pass_with w x] q k = Some (Returned x, y, q2, k2)"
    unfolding xQueueReceive_def if_P [OF n(2)]
    by (subst wait_loop.simps) (simp add: none n(1) b(1) second)
  then show ?thesis using b(1-3) r(2) by blast
qed

text \<open>
  C10: No item is missed: a task receives from an empty queue and an interrupt sends an item, at any of the points of the call that
  the pass distinguishes, from the first look at the queue until the task is blocked: before the scheduler is suspended, before and after each test, when the
  task is on the event list, between and after the two critical sections that unlock the queue, before the yield and while the task is blocked.
  In each case the pass ends with the task ready and off the event list, and \<^verbatim>\<open>xQueueReceive\<close> returns this item.
\<close>

theorem receive_misses_no_item:
  assumes "receiver_ready q k" and "length x = uxItemSize q" and "0 < n"
  shows "\<exists>q1 k1 y q2 k2. block_pass prvIsQueueEmpty no_inheritance xTasksWaitingToReceive (pass_with w x) (vTaskInternalSetTimeOutState k) n False q k =
      Some (Retry, vTaskInternalSetTimeOutState k, n, False, q1, k1) \<and>
    xStatePlace (tcbs k1 (pxCurrentTCB k)) = In_Ready (uxPriority (tcbs k (pxCurrentTCB k))) \<and> xEventPlace (tcbs k1 (pxCurrentTCB k)) = On_No_List \<and>
    xQueueReceive n [pass_with w x] q k = Some (Returned x, y, q2, k2) \<and> contents q2 = []"
  by (rule receive_ok [OF assms])

lemma receiver_is_ready: "receiver_ready small_queue (two_tasks 0)"
  unfolding receiver_ready_def using two_tasks_ok [of 0] small_queue_ok
  by simp (simp add: small_queue_def two_tasks_def ready_task_def)

lemma receive_misses_no_item_witness:
  "(\<exists>y q2 k2. xQueueReceive portMAX_DELAY [pass_with After_Unlock [7, 8]] small_queue (two_tasks 0) = Some (Returned [7, 8], y, q2, k2) \<and> contents q2 = []) \<and>
   (\<exists>y q2 k2. xQueueReceive 10 [pass_with While_Blocked [1, 2]] small_queue (two_tasks 0) = Some (Returned [1, 2], y, q2, k2) \<and> contents q2 = [])"
proof -
  have "length [a, b :: u8] = uxItemSize small_queue" for a b by (simp add: small_queue_def)
  moreover have "0 < portMAX_DELAY" by (simp add: portMAX_DELAY_def)
  moreover have "0 < (10 :: u32)" by simp
  ultimately show ?thesis
    using receive_misses_no_item [OF receiver_is_ready, of "[7, 8]" portMAX_DELAY After_Unlock]
      receive_misses_no_item [OF receiver_is_ready, of "[1, 2]" 10 While_Blocked] by blast
qed

end
