(* ===== verification/EventGroups.thy ===== *)
theory EventGroups
  imports RtosQueue
begin

text \<open>
  The event groups of the FreeRTOS kernel, \<^verbatim>\<open>event_groups.c\<close>: a set of 24 bits that tasks set, clear and wait for. A waiting
  task keeps the bits it waits for and how it waits, all bits or any, clearing them or not, in the value of its event item; the upper byte
  of the value is for these marks. What runs while a task is blocked or preempted is the parameter \<open>rest\<close>.
\<close>

section \<open>The group and its marks\<close>

record event_group =
  uxEventBits :: u32
  xTasksWaitingForBits :: nat
  uxEventGroupNumber :: nat

definition eventCLEAR_EVENTS_ON_EXIT_BIT :: u32 where "eventCLEAR_EVENTS_ON_EXIT_BIT = 0x01000000"

definition eventUNBLOCKED_DUE_TO_BIT_SET :: u32 where "eventUNBLOCKED_DUE_TO_BIT_SET = 0x02000000"

definition eventWAIT_FOR_ALL_BITS :: u32 where "eventWAIT_FOR_ALL_BITS = 0x04000000"

definition eventEVENT_BITS_CONTROL_BYTES :: u32 where "eventEVENT_BITS_CONTROL_BYTES = 0xFF000000"

definition prvTestWaitCondition :: "u32 \<Rightarrow> u32 \<Rightarrow> bool \<Rightarrow> bool" where
  "prvTestWaitCondition uxCurrentEventBits uxBitsToWaitFor xWaitForAllBits =
     (if \<not> xWaitForAllBits then uxCurrentEventBits AND uxBitsToWaitFor \<noteq> 0
      else uxCurrentEventBits AND uxBitsToWaitFor = uxBitsToWaitFor)"

text \<open>The structure is in the heap; its list of waiting tasks has its place in it. Its number stays what the memory held.\<close>

definition sizeof_EventGroup_t :: nat where "sizeof_EventGroup_t = 28"

definition xEventGroupCreate :: "nat \<Rightarrow> nat \<Rightarrow> nat \<Rightarrow> heap4 \<Rightarrow> kernel \<Rightarrow> (nat \<times> event_group option \<times> heap4 \<times> kernel) option" where
  "xEventGroupCreate ucHeap heap_size memory heap k = do {
     (pxEventBits, heap) \<leftarrow> pvPortMalloc ucHeap heap_size (of_nat sizeof_EventGroup_t) heap;
     if pxEventBits \<noteq> 0
     then let e = pxEventBits + 4
          in Some (pxEventBits, Some \<lparr>uxEventBits = 0, xTasksWaitingForBits = e, uxEventGroupNumber = memory\<rparr>, heap,
                   k\<lparr>xEventLists := (xEventLists k)(e := [])\<rparr>)
     else Some (0, None, heap, k) }"

section \<open>Setting and clearing bits\<close>

definition xEventGroupClearBits :: "u32 \<Rightarrow> event_group \<Rightarrow> (u32 \<times> event_group) option" where
  "xEventGroupClearBits uxBitsToClear g =
     (if uxBitsToClear AND eventEVENT_BITS_CONTROL_BYTES = 0
      then Some (uxEventBits g, g\<lparr>uxEventBits := uxEventBits g AND NOT uxBitsToClear\<rparr>) else None)"

definition xEventGroupGetBitsFromISR :: "event_group \<Rightarrow> u32" where "xEventGroupGetBitsFromISR g = uxEventBits g"

text \<open>Whether the bits satisfy a waiting task with this event item value.\<close>

definition bits_match :: "u32 \<Rightarrow> u32 \<Rightarrow> bool" where
  "bits_match bits v =
     (let uxControlBits = v AND eventEVENT_BITS_CONTROL_BYTES;
          uxBitsWaitedFor = v AND NOT eventEVENT_BITS_CONTROL_BYTES
      in if uxControlBits AND eventWAIT_FOR_ALL_BITS = 0 then uxBitsWaitedFor AND bits \<noteq> 0
         else uxBitsWaitedFor AND bits = uxBitsWaitedFor)"

definition bits_to_clear :: "u32 \<Rightarrow> u32" where
  "bits_to_clear v =
     (let uxControlBits = v AND eventEVENT_BITS_CONTROL_BYTES;
          uxBitsWaitedFor = v AND NOT eventEVENT_BITS_CONTROL_BYTES
      in if uxControlBits AND eventCLEAR_EVENTS_ON_EXIT_BIT \<noteq> 0 then uxBitsWaitedFor else 0)"

text \<open>
  The walk along the waiting tasks. The next item is read before the task is taken off the list, so the walk goes along the
  list as it was.
\<close>

fun wake_matching :: "u32 \<Rightarrow> nat list \<Rightarrow> u32 \<Rightarrow> kernel \<Rightarrow> (u32 \<times> kernel) option" where
  "wake_matching bits [] uxBitsToClear k = Some (uxBitsToClear, k)"
| "wake_matching bits (t # ts) uxBitsToClear k =
     (let v = xEventItemValue (tcbs k t)
      in if bits_match bits v then do {
           k \<leftarrow> vTaskRemoveFromUnorderedEventList t (bits OR eventUNBLOCKED_DUE_TO_BIT_SET) k;
           wake_matching bits ts (uxBitsToClear OR bits_to_clear v) k }
         else wake_matching bits ts uxBitsToClear k)"

text \<open>The result: the bits left, whether resuming the scheduler asks for a yield, the group, the kernel.\<close>

definition xEventGroupSetBits :: "u32 \<Rightarrow> event_group \<Rightarrow> kernel \<Rightarrow> (u32 \<times> bool \<times> event_group \<times> kernel) option" where
  "xEventGroupSetBits uxBitsToSet g k =
     (if uxBitsToSet AND eventEVENT_BITS_CONTROL_BYTES \<noteq> 0 then None
      else do {
        let k = vTaskSuspendAll k;
        let g = g\<lparr>uxEventBits := uxEventBits g OR uxBitsToSet\<rparr>;
        (uxBitsToClear, k) \<leftarrow> wake_matching (uxEventBits g) (xEventLists k (xTasksWaitingForBits g)) 0 k;
        let g = g\<lparr>uxEventBits := uxEventBits g AND NOT uxBitsToClear\<rparr>;
        (yield, k) \<leftarrow> xTaskResumeAll k;
        Some (uxEventBits g, yield, g, k) })"

definition vEventGroupSetBitsCallback :: "u32 \<Rightarrow> event_group \<Rightarrow> kernel \<Rightarrow> (bool \<times> event_group \<times> kernel) option" where
  "vEventGroupSetBitsCallback ulBitsToSet g k = map_option snd (xEventGroupSetBits ulBitsToSet g k)"

definition vEventGroupClearBitsCallback :: "u32 \<Rightarrow> event_group \<Rightarrow> event_group option" where
  "vEventGroupClearBitsCallback ulBitsToClear g = map_option snd (xEventGroupClearBits ulBitsToClear g)"

section \<open>Waiting\<close>

definition clear_if :: "bool \<Rightarrow> u32 \<Rightarrow> event_group \<Rightarrow> event_group" where
  "clear_if c bits g = (if c then g\<lparr>uxEventBits := uxEventBits g AND NOT bits\<rparr> else g)"

text \<open>
  What a task does when it runs again after it blocked: if its event item does not say that bits unblocked it, it timed out
  and looks at the bits again.
\<close>

definition after_block :: "u32 \<Rightarrow> bool \<Rightarrow> bool \<Rightarrow> event_group \<Rightarrow> kernel \<Rightarrow> u32 \<times> event_group \<times> kernel" where
  "after_block uxBitsToWaitFor xClearOnExit xWaitForAllBits g k =
     (let (uxReturn, k) = uxTaskResetEventItemValue k
      in if uxReturn AND eventUNBLOCKED_DUE_TO_BIT_SET = 0 then
           let uxReturn = uxEventBits g;
               g = (if prvTestWaitCondition uxReturn uxBitsToWaitFor xWaitForAllBits then clear_if xClearOnExit uxBitsToWaitFor g else g)
           in (uxReturn AND NOT eventEVENT_BITS_CONTROL_BYTES, g, k)
         else (uxReturn AND NOT eventEVENT_BITS_CONTROL_BYTES, g, k))"

definition run_others :: "bool \<Rightarrow> (event_group \<times> kernel \<Rightarrow> event_group \<times> kernel) \<Rightarrow> event_group \<Rightarrow> kernel \<Rightarrow> event_group \<times> kernel" where
  "run_others yielded rest g k = (if yielded then rest (g, k) else (g, k))"

definition xEventGroupWaitBits ::
    "u32 \<Rightarrow> bool \<Rightarrow> bool \<Rightarrow> u32 \<Rightarrow> (event_group \<times> kernel \<Rightarrow> event_group \<times> kernel) \<Rightarrow> event_group \<Rightarrow> kernel \<Rightarrow> (u32 \<times> event_group \<times> kernel) option" where
  "xEventGroupWaitBits uxBitsToWaitFor xClearOnExit xWaitForAllBits xTicksToWait rest g k =
     (if uxBitsToWaitFor AND eventEVENT_BITS_CONTROL_BYTES \<noteq> 0 \<or> uxBitsToWaitFor = 0 \<or> \<not> may_wait xTicksToWait k then None
      else
        let k = vTaskSuspendAll k;
            uxCurrentEventBits = uxEventBits g
        in if prvTestWaitCondition uxCurrentEventBits uxBitsToWaitFor xWaitForAllBits then do {
             let g = clear_if xClearOnExit uxBitsToWaitFor g;
             (yielded, k) \<leftarrow> resume_and_yield False k;
             let (g, k) = run_others yielded rest g k;
             Some (uxCurrentEventBits, g, k) }
           else if xTicksToWait = 0 then do {
             (yielded, k) \<leftarrow> resume_and_yield False k;
             let (g, k) = run_others yielded rest g k;
             Some (uxCurrentEventBits, g, k) }
           else do {
             let uxControlBits = (if xClearOnExit then eventCLEAR_EVENTS_ON_EXIT_BIT else 0) OR
                                 (if xWaitForAllBits then eventWAIT_FOR_ALL_BITS else 0);
             k \<leftarrow> vTaskPlaceOnUnorderedEventList (xTasksWaitingForBits g) (uxBitsToWaitFor OR uxControlBits) xTicksToWait k;
             (yielded, k) \<leftarrow> resume_and_yield True k;
             let (g, k) = run_others yielded rest g k;
             Some (after_block uxBitsToWaitFor xClearOnExit xWaitForAllBits g k) })"

text \<open>A rendezvous: set bits of one's own and wait for all the bits.\<close>

definition xEventGroupSync ::
    "u32 \<Rightarrow> u32 \<Rightarrow> u32 \<Rightarrow> (event_group \<times> kernel \<Rightarrow> event_group \<times> kernel) \<Rightarrow> event_group \<Rightarrow> kernel \<Rightarrow> (u32 \<times> event_group \<times> kernel) option" where
  "xEventGroupSync uxBitsToSet uxBitsToWaitFor xTicksToWait rest g k =
     (if uxBitsToWaitFor AND eventEVENT_BITS_CONTROL_BYTES \<noteq> 0 \<or> uxBitsToWaitFor = 0 \<or> \<not> may_wait xTicksToWait k then None
      else do {
        let k = vTaskSuspendAll k;
        let uxOriginalBitValue = uxEventBits g;
        (_, _, g, k) \<leftarrow> xEventGroupSetBits uxBitsToSet g k;
        if (uxOriginalBitValue OR uxBitsToSet) AND uxBitsToWaitFor = uxBitsToWaitFor then do {
          let g = g\<lparr>uxEventBits := uxEventBits g AND NOT uxBitsToWaitFor\<rparr>;
          (yielded, k) \<leftarrow> resume_and_yield False k;
          let (g, k) = run_others yielded rest g k;
          Some (uxOriginalBitValue OR uxBitsToSet, g, k) }
        else if xTicksToWait = 0 then do {
          let uxReturn = uxEventBits g;
          (yielded, k) \<leftarrow> resume_and_yield False k;
          let (g, k) = run_others yielded rest g k;
          Some (uxReturn, g, k) }
        else do {
          k \<leftarrow> vTaskPlaceOnUnorderedEventList (xTasksWaitingForBits g)
                 (uxBitsToWaitFor OR eventCLEAR_EVENTS_ON_EXIT_BIT OR eventWAIT_FOR_ALL_BITS) xTicksToWait k;
          (yielded, k) \<leftarrow> resume_and_yield True k;
          let (g, k) = run_others yielded rest g k;
          Some (after_block uxBitsToWaitFor True True g k) } })"

section \<open>Deleting\<close>

text \<open>Every waiting task is woken with no bits.\<close>

partial_function (option) wake_all :: "nat \<Rightarrow> kernel \<Rightarrow> kernel option" where
  "wake_all e k =
     (case xEventLists k e of
        [] \<Rightarrow> Some k
      | t # _ \<Rightarrow> Option.bind (vTaskRemoveFromUnorderedEventList t eventUNBLOCKED_DUE_TO_BIT_SET k) (wake_all e))"

definition vEventGroupDelete :: "nat \<Rightarrow> nat \<Rightarrow> nat \<Rightarrow> event_group \<Rightarrow> heap4 \<Rightarrow> kernel \<Rightarrow> (bool \<times> heap4 \<times> kernel) option" where
  "vEventGroupDelete ucHeap heap_size pxEventBits g heap k =
     (if pxEventBits = 0 then None
      else do {
        k \<leftarrow> wake_all (xTasksWaitingForBits g) (vTaskSuspendAll k);
        (yield, k) \<leftarrow> xTaskResumeAll k;
        heap \<leftarrow> vPortFree ucHeap heap_size pxEventBits heap;
        Some (yield, heap, k) })"

definition uxEventGroupGetNumber :: "event_group option \<Rightarrow> nat" where
  "uxEventGroupGetNumber xEventGroup = (case xEventGroup of None \<Rightarrow> 0 | Some g \<Rightarrow> uxEventGroupNumber g)"

definition vEventGroupSetNumber :: "event_group \<Rightarrow> nat \<Rightarrow> event_group" where
  "vEventGroupSetNumber g n = g\<lparr>uxEventGroupNumber := n\<rparr>"

section \<open>The value of the event item\<close>

text \<open>Bits of the user and marks of the kernel do not overlap.\<close>

lemma user_bits: "x AND eventEVENT_BITS_CONTROL_BYTES = 0 \<Longrightarrow> x AND NOT eventEVENT_BITS_CONTROL_BYTES = x"
proof -
  assume z: "x AND eventEVENT_BITS_CONTROL_BYTES = 0"
  have "x = x AND (eventEVENT_BITS_CONTROL_BYTES OR NOT eventEVENT_BITS_CONTROL_BYTES)" by simp
  also have "\<dots> = (x AND eventEVENT_BITS_CONTROL_BYTES) OR (x AND NOT eventEVENT_BITS_CONTROL_BYTES)" by (rule bit.conj_disj_distrib)
  finally show ?thesis using z by simp
qed

lemma waited_value:
  assumes "B AND eventEVENT_BITS_CONTROL_BYTES = 0"
    and "v = (B OR ((if clear then eventCLEAR_EVENTS_ON_EXIT_BIT else 0) OR (if all_bits then eventWAIT_FOR_ALL_BITS else 0))) OR
             taskEVENT_LIST_ITEM_VALUE_IN_USE"
  shows "bits_match bits v \<longleftrightarrow> prvTestWaitCondition bits B all_bits" "bits_to_clear v = (if clear then B else 0)"
proof -
  note marks = eventEVENT_BITS_CONTROL_BYTES_def eventCLEAR_EVENTS_ON_EXIT_BIT_def eventWAIT_FOR_ALL_BITS_def taskEVENT_LIST_ITEM_VALUE_IN_USE_def
  have w: "v AND NOT eventEVENT_BITS_CONTROL_BYTES = B"
    using user_bits [OF assms(1)] unfolding assms(2) by (cases clear; cases all_bits) (simp_all add: bit.conj_disj_distrib2 marks)
  have c: "v AND eventEVENT_BITS_CONTROL_BYTES =
      ((if clear then eventCLEAR_EVENTS_ON_EXIT_BIT else 0) OR (if all_bits then eventWAIT_FOR_ALL_BITS else 0)) OR taskEVENT_LIST_ITEM_VALUE_IN_USE"
    using assms(1) unfolding assms(2) by (cases clear; cases all_bits) (simp_all add: bit.conj_disj_distrib2 marks)
  show "bits_match bits v \<longleftrightarrow> prvTestWaitCondition bits B all_bits" "bits_to_clear v = (if clear then B else 0)"
    unfolding bits_match_def bits_to_clear_def Let_def w c prvTestWaitCondition_def
    by (cases clear; cases all_bits; simp add: marks and.commute)+
qed

section \<open>Setting bits wakes the right tasks\<close>

definition waiting_ok :: "nat \<Rightarrow> kernel \<Rightarrow> bool" where
  "waiting_ok e k \<longleftrightarrow> distinct (xEventLists k e) \<and> (\<forall>t \<in> set (xEventLists k e). xEventPlace (tcbs k t) = On_Event e)"

text \<open>A task taken off the list with a value for it.\<close>

definition unblocked :: "u32 \<Rightarrow> tcb \<Rightarrow> tcb" where
  "unblocked v x = x\<lparr>xEventItemValue := v OR taskEVENT_LIST_ITEM_VALUE_IN_USE, xEventPlace := On_No_List, xStatePlace := In_Ready (uxPriority x)\<rparr>"

lemma remove_unordered:
  assumes "places_ok k" and "uxSchedulerSuspended k \<noteq> 0" and "xEventPlace (tcbs k t) = On_Event e"
  shows "\<exists>k'. vTaskRemoveFromUnorderedEventList t v k = Some k' \<and> places_ok k' \<and>
    xEventLists k' = (xEventLists k)(e := remove1 t (xEventLists k e)) \<and> tcbs k' = (tcbs k)(t := unblocked v (tcbs k t)) \<and>
    uxSchedulerSuspended k' = uxSchedulerSuspended k \<and> xPendingReadyList k' = xPendingReadyList k \<and>
    xPendedTicks k' = xPendedTicks k \<and> pxCurrentTCB k' = pxCurrentTCB k"
proof -
  let ?f = "\<lambda>x. x\<lparr>xEventItemValue := v OR taskEVENT_LIST_ITEM_VALUE_IN_USE\<rparr>"
  let ?k = "prvAddTaskToReadyList t (remove_state_item t (remove_event_item t (set_tcb t ?f k)))"
  have "places_ok (set_tcb t ?f k)" by (rule places_set_tcb [OF assms(1)]) simp_all
  then have "places_ok ?k" by (intro places_add_ready places_remove_state places_remove_event) simp_all
  moreover from this have "places_ok (?k\<lparr>xYieldPending := True\<rparr>)" by (rule places_times) simp_all
  moreover have "xEventLists ?k = (xEventLists k)(e := remove1 t (xEventLists k e))" using assms(3) by auto
  moreover have "tcbs ?k = (tcbs k)(t := unblocked v (tcbs k t))" by (auto simp: unblocked_def)
  ultimately show ?thesis
    using assms(2,3) by (simp add: vTaskRemoveFromUnorderedEventList_def Let_def)
qed

lemma wake_matching_ok:
  assumes "places_ok k" and "uxSchedulerSuspended k \<noteq> 0" and "distinct ts" and "\<forall>t \<in> set ts. xEventPlace (tcbs k t) = On_Event e"
    and "distinct (xEventLists k e)"
  defines "W \<equiv> \<lambda>bits t. t \<in> set ts \<and> bits_match bits (xEventItemValue (tcbs k t))"
  shows "\<exists>k'. wake_matching bits ts c k =
      Some (foldl (\<lambda>c t. c OR bits_to_clear (xEventItemValue (tcbs k t))) c (filter (\<lambda>t. bits_match bits (xEventItemValue (tcbs k t))) ts), k') \<and>
    places_ok k' \<and> xEventLists k' = (xEventLists k)(e := filter (\<lambda>t. \<not> W bits t) (xEventLists k e)) \<and>
    tcbs k' = (\<lambda>t. if W bits t then unblocked (bits OR eventUNBLOCKED_DUE_TO_BIT_SET) (tcbs k t) else tcbs k t) \<and>
    uxSchedulerSuspended k' = uxSchedulerSuspended k \<and> xPendingReadyList k' = xPendingReadyList k \<and>
    xPendedTicks k' = xPendedTicks k \<and> pxCurrentTCB k' = pxCurrentTCB k"
  using assms(1-5) unfolding W_def
proof (induction ts arbitrary: k c)
  case Nil
  then show ?case by simp
next
  case (Cons t ts)
  let ?v = "\<lambda>t. xEventItemValue (tcbs k t)"
  show ?case
  proof (cases "bits_match bits (?v t)")
    case False
    have "\<exists>k'. wake_matching bits ts c k = Some (foldl (\<lambda>c t. c OR bits_to_clear (?v t)) c (filter (\<lambda>t. bits_match bits (?v t)) ts), k') \<and>
      places_ok k' \<and> xEventLists k' = (xEventLists k)(e := filter (\<lambda>t. \<not> (t \<in> set ts \<and> bits_match bits (?v t))) (xEventLists k e)) \<and>
      tcbs k' = (\<lambda>x. if x \<in> set ts \<and> bits_match bits (?v x) then unblocked (bits OR eventUNBLOCKED_DUE_TO_BIT_SET) (tcbs k x) else tcbs k x) \<and>
      uxSchedulerSuspended k' = uxSchedulerSuspended k \<and> xPendingReadyList k' = xPendingReadyList k \<and>
      xPendedTicks k' = xPendedTicks k \<and> pxCurrentTCB k' = pxCurrentTCB k"
      using Cons.prems by (intro Cons.IH) simp_all
    moreover have "x \<in> set (t # ts) \<and> bits_match bits (?v x) \<longleftrightarrow> x \<in> set ts \<and> bits_match bits (?v x)" for x using False by auto
    ultimately show ?thesis using False by (simp only: wake_matching.simps Let_def if_False filter.simps)
  next
    case True
    have e: "xEventPlace (tcbs k t) = On_Event e" using Cons.prems(4) by simp
    from remove_unordered [OF Cons.prems(1,2) e, of "bits OR eventUNBLOCKED_DUE_TO_BIT_SET"] obtain k1 where
      k1: "vTaskRemoveFromUnorderedEventList t (bits OR eventUNBLOCKED_DUE_TO_BIT_SET) k = Some k1" "places_ok k1"
      "xEventLists k1 = (xEventLists k)(e := remove1 t (xEventLists k e))"
      "tcbs k1 = (tcbs k)(t := unblocked (bits OR eventUNBLOCKED_DUE_TO_BIT_SET) (tcbs k t))"
      "uxSchedulerSuspended k1 = uxSchedulerSuspended k" "xPendingReadyList k1 = xPendingReadyList k"
      "xPendedTicks k1 = xPendedTicks k" "pxCurrentTCB k1 = pxCurrentTCB k" by blast
    have nt: "t \<notin> set ts" using Cons.prems(3) by simp
    then have same: "x \<in> set ts \<Longrightarrow> tcbs k1 x = tcbs k x" for x by (auto simp: k1(4))
    have fs: "filter (\<lambda>t. bits_match bits (xEventItemValue (tcbs k1 t))) ts = filter (\<lambda>t. bits_match bits (?v t)) ts"
      by (rule filter_cong) (simp_all add: same)
    have fl: "foldl (\<lambda>c t. c OR bits_to_clear (xEventItemValue (tcbs k1 t))) c' (filter P ts) = foldl (\<lambda>c t. c OR bits_to_clear (?v t)) c' (filter P ts)" for c' P
      by (rule foldl_cong) (auto simp: same)
    have "\<forall>x \<in> set ts. xEventPlace (tcbs k1 x) = On_Event e" using Cons.prems(4) by (simp add: same)
    moreover have "uxSchedulerSuspended k1 \<noteq> 0" "distinct ts" "distinct (xEventLists k1 e)"
      using Cons.prems(2,3,5) by (simp_all add: k1(3,5))
    ultimately obtain k' where
      r0: "wake_matching bits ts (c OR bits_to_clear (?v t)) k1 =
          Some (foldl (\<lambda>c t. c OR bits_to_clear (xEventItemValue (tcbs k1 t))) (c OR bits_to_clear (?v t))
            (filter (\<lambda>t. bits_match bits (xEventItemValue (tcbs k1 t))) ts), k')"
      "places_ok k'" "xEventLists k' = (xEventLists k1)(e := filter (\<lambda>t. \<not> (t \<in> set ts \<and> bits_match bits (xEventItemValue (tcbs k1 t)))) (xEventLists k1 e))"
      "tcbs k' = (\<lambda>x. if x \<in> set ts \<and> bits_match bits (xEventItemValue (tcbs k1 x)) then unblocked (bits OR eventUNBLOCKED_DUE_TO_BIT_SET) (tcbs k1 x) else tcbs k1 x)"
      "uxSchedulerSuspended k' = uxSchedulerSuspended k1" "xPendingReadyList k' = xPendingReadyList k1"
      "xPendedTicks k' = xPendedTicks k1" "pxCurrentTCB k' = pxCurrentTCB k1"
      using Cons.IH [OF k1(2), of "c OR bits_to_clear (?v t)"] by blast
    note r = r0 [unfolded fs fl k1(5-8)]
    have lists: "xEventLists k' = (xEventLists k)(e := filter (\<lambda>x. \<not> (x \<in> set (t # ts) \<and> bits_match bits (?v x))) (xEventLists k e))"
      unfolding r(3) k1(3)
      using Cons.prems(5) True by (auto simp: distinct_remove1_removeAll removeAll_filter_not_eq same intro!: filter_cong)
    have tcb: "tcbs k' = (\<lambda>x. if x \<in> set (t # ts) \<and> bits_match bits (?v x) then unblocked (bits OR eventUNBLOCKED_DUE_TO_BIT_SET) (tcbs k x) else tcbs k x)"
      unfolding r(4) using True nt same by (auto simp: k1(4))
    show ?thesis using True k1(1) r(1,2,5-8) lists tcb by (simp add: Let_def fun_upd_def)
  qed
qed

text \<open>The kernel between two interrupts, as far as a group needs it.\<close>

definition quiet :: "kernel \<Rightarrow> bool" where
  "quiet k \<longleftrightarrow> places_ok k \<and> uxSchedulerSuspended k = 0 \<and> xPendingReadyList k = [] \<and> xPendedTicks k = 0"

lemma places_suspend_all: "places_ok k \<Longrightarrow> places_ok (vTaskSuspendAll k)"
  by (rule places_times) (simp_all add: vTaskSuspendAll_def)

lemma suspend_all_sel [simp]:
  "tcbs (vTaskSuspendAll k) = tcbs k" "xEventLists (vTaskSuspendAll k) = xEventLists k" "pxCurrentTCB (vTaskSuspendAll k) = pxCurrentTCB k"
  "xPendingReadyList (vTaskSuspendAll k) = xPendingReadyList k" "xPendedTicks (vTaskSuspendAll k) = xPendedTicks k"
  "uxSchedulerSuspended (vTaskSuspendAll k) = uxSchedulerSuspended k + 1"
  by (simp_all add: vTaskSuspendAll_def)

lemma set_bits_ok:
  assumes "quiet k" and "waiting_ok (xTasksWaitingForBits g) k" and "B AND eventEVENT_BITS_CONTROL_BYTES = 0"
  defines "bits \<equiv> uxEventBits g OR B" and "waiting \<equiv> xEventLists k (xTasksWaitingForBits g)"
  defines "met \<equiv> \<lambda>t. bits_match (uxEventBits g OR B) (xEventItemValue (tcbs k t))"
  shows "\<exists>y k'. xEventGroupSetBits B g k =
      Some (bits AND NOT (foldl (\<lambda>c t. c OR bits_to_clear (xEventItemValue (tcbs k t))) 0 (filter met waiting)), y,
        g\<lparr>uxEventBits := bits AND NOT (foldl (\<lambda>c t. c OR bits_to_clear (xEventItemValue (tcbs k t))) 0 (filter met waiting))\<rparr>, k') \<and>
    quiet k' \<and> pxCurrentTCB k' = pxCurrentTCB k \<and> xEventLists k' = (xEventLists k)(xTasksWaitingForBits g := filter (\<lambda>t. \<not> met t) waiting) \<and>
    (\<forall>t. tcbs k' t = (if t \<in> set waiting \<and> met t then unblocked (bits OR eventUNBLOCKED_DUE_TO_BIT_SET) (tcbs k t) else tcbs k t))"
proof -
  let ?e = "xTasksWaitingForBits g" and ?s = "vTaskSuspendAll k"
  note q = assms(1) [unfolded quiet_def]
  have s: "places_ok ?s" "uxSchedulerSuspended ?s \<noteq> 0" "distinct waiting" "\<forall>t \<in> set waiting. xEventPlace (tcbs ?s t) = On_Event ?e" "distinct (xEventLists ?s ?e)"
    using q assms(2) places_suspend_all by (simp_all add: waiting_ok_def waiting_def)
  from wake_matching_ok [OF s, of bits 0, unfolded suspend_all_sel] obtain k1 where
    w0: "wake_matching bits waiting 0 ?s = Some (foldl (\<lambda>c t. c OR bits_to_clear (xEventItemValue (tcbs k t))) 0
        (filter (\<lambda>t. bits_match bits (xEventItemValue (tcbs k t))) waiting), k1)"
    "places_ok k1" "xEventLists k1 = (xEventLists k)(?e := filter (\<lambda>t. \<not> (t \<in> set waiting \<and> bits_match bits (xEventItemValue (tcbs k t)))) (xEventLists k ?e))"
    "tcbs k1 = (\<lambda>t. if t \<in> set waiting \<and> bits_match bits (xEventItemValue (tcbs k t))
       then unblocked (bits OR eventUNBLOCKED_DUE_TO_BIT_SET) (tcbs k t) else tcbs k t)"
    "uxSchedulerSuspended k1 = uxSchedulerSuspended k + 1" "xPendingReadyList k1 = xPendingReadyList k" "xPendedTicks k1 = xPendedTicks k"
    "pxCurrentTCB k1 = pxCurrentTCB k" by blast
  have m: "met = (\<lambda>t. bits_match bits (xEventItemValue (tcbs k t)))" by (simp add: met_def bits_def)
  have 1: "uxSchedulerSuspended k1 = 1" "xPendingReadyList k1 = []" "xPendedTicks k1 = 0" using q w0(5-7) by simp_all
  note w = w0(1) [folded m] w0(2) w0(3) [folded waiting_def fun_cong [OF m]] w0(4) [folded fun_cong [OF m]] 1 w0(8)
  let ?k = "k1\<lparr>uxSchedulerSuspended := 0\<rparr>"
  have r: "xTaskResumeAll k1 = Some (xYieldPending k1, ?k)" by (rule resume_quiet [OF w(5-7)])
  have "places_ok ?k" by (rule places_times [OF w(2)]) simp_all
  then have "quiet ?k" using w(6,7) by (simp add: quiet_def)
  moreover have "filter (\<lambda>t. \<not> (t \<in> set waiting \<and> met t)) waiting = filter (\<lambda>t. \<not> met t) waiting" by (rule filter_cong) simp_all
  moreover have "xEventGroupSetBits B g k =
      Some (bits AND NOT (foldl (\<lambda>c t. c OR bits_to_clear (xEventItemValue (tcbs k t))) 0 (filter met waiting)), xYieldPending k1,
        g\<lparr>uxEventBits := bits AND NOT (foldl (\<lambda>c t. c OR bits_to_clear (xEventItemValue (tcbs k t))) 0 (filter met waiting))\<rparr>, ?k)"
    using assms(3) w(1) r by (simp add: xEventGroupSetBits_def Let_def bits_def waiting_def)
  ultimately show ?thesis using w(3,4,8) by (intro exI [of _ "xYieldPending k1"] exI [of _ ?k]) simp
qed

text \<open>The waiting tasks as they asked: task \<open>t\<close> for the bits \<open>W t\<close>, all of them or any, to be cleared or not.\<close>

definition waits_for :: "(nat \<Rightarrow> u32) \<Rightarrow> (nat \<Rightarrow> bool) \<Rightarrow> (nat \<Rightarrow> bool) \<Rightarrow> kernel \<Rightarrow> nat \<Rightarrow> bool" where
  "waits_for W clear all_bits k t \<longleftrightarrow> W t AND eventEVENT_BITS_CONTROL_BYTES = 0 \<and>
     xEventItemValue (tcbs k t) = (W t OR ((if clear t then eventCLEAR_EVENTS_ON_EXIT_BIT else 0) OR (if all_bits t then eventWAIT_FOR_ALL_BITS else 0))) OR
       taskEVENT_LIST_ITEM_VALUE_IN_USE"

lemma set_bits_freed:
  assumes "quiet k" and "waiting_ok (xTasksWaitingForBits g) k" and "B AND eventEVENT_BITS_CONTROL_BYTES = 0"
    and "\<forall>t \<in> set (xEventLists k (xTasksWaitingForBits g)). waits_for W clear all_bits k t"
    and "freed = filter (\<lambda>t. prvTestWaitCondition (uxEventBits g OR B) (W t) (all_bits t)) (xEventLists k (xTasksWaitingForBits g))"
  defines "rest \<equiv> (uxEventBits g OR B) AND NOT (foldr (OR) (map W (filter clear freed)) 0)"
  shows "\<exists>y k'. xEventGroupSetBits B g k = Some (rest, y, g\<lparr>uxEventBits := rest\<rparr>, k') \<and>
    xEventLists k' = (xEventLists k)(xTasksWaitingForBits g := filter (\<lambda>t. t \<notin> set freed) (xEventLists k (xTasksWaitingForBits g))) \<and>
    (\<forall>t. tcbs k' t = (if t \<in> set freed then unblocked ((uxEventBits g OR B) OR eventUNBLOCKED_DUE_TO_BIT_SET) (tcbs k t) else tcbs k t))"
proof -
  let ?list = "xEventLists k (xTasksWaitingForBits g)" and ?bits = "uxEventBits g OR B" and ?v = "\<lambda>t. xEventItemValue (tcbs k t)"
  have v: "bits_match ?bits (?v t) \<longleftrightarrow> prvTestWaitCondition ?bits (W t) (all_bits t)" "bits_to_clear (?v t) = (if clear t then W t else 0)"
    if "t \<in> set ?list" for t
    using waited_value [of "W t" "?v t" "clear t" "all_bits t"] assms(4) that by (simp_all add: waits_for_def)
  have wk: "filter (\<lambda>t. bits_match ?bits (?v t)) ?list = freed" unfolding assms(5) by (rule filter_cong) (simp_all add: v)
  have sub: "t \<in> set freed \<Longrightarrow> t \<in> set ?list" for t by (simp add: assms(5))
  have or_foldl: "foldl (\<lambda>c t. c OR f t) c ts = c OR foldr (OR) (map f ts) 0" for f :: "nat \<Rightarrow> u32" and c ts
    by (induction ts arbitrary: c) (simp_all add: or.assoc)
  have or_filter: "foldr (OR) (map (\<lambda>t. if P t then f t else 0) ts) 0 = foldr (OR) (map f (filter P ts)) 0" for f :: "nat \<Rightarrow> u32" and P ts
    by (induction ts) simp_all
  have "map (\<lambda>t. bits_to_clear (?v t)) freed = map (\<lambda>t. if clear t then W t else 0) freed" using v(2) sub by auto
  then have cl: "foldl (\<lambda>c t. c OR bits_to_clear (?v t)) 0 freed = foldr (OR) (map W (filter clear freed)) 0"
    unfolding or_foldl by (simp only: or_filter or.left_neutral)
  have mem: "t \<in> set ?list \<and> bits_match ?bits (?v t) \<longleftrightarrow> t \<in> set freed" for t unfolding wk [symmetric] by simp
  have rest: "filter (\<lambda>t. \<not> bits_match ?bits (?v t)) ?list = filter (\<lambda>t. t \<notin> set freed) ?list"
    using mem by (intro filter_cong) auto
  from set_bits_ok [OF assms(1-3)] obtain y k' where
    r: "xEventGroupSetBits B g k = Some (?bits AND NOT (foldr (OR) (map W (filter clear freed)) 0), y,
        g\<lparr>uxEventBits := ?bits AND NOT (foldr (OR) (map W (filter clear freed)) 0)\<rparr>, k')"
    "xEventLists k' = (xEventLists k)(xTasksWaitingForBits g := filter (\<lambda>t. t \<notin> set freed) ?list)"
    "\<forall>t. tcbs k' t = (if t \<in> set freed then unblocked (?bits OR eventUNBLOCKED_DUE_TO_BIT_SET) (tcbs k t) else tcbs k t)"
    unfolding wk cl mem rest by blast
  then show ?thesis unfolding rest_def by blast
qed

text \<open>
  C20: \<^verbatim>\<open>xEventGroupSetBits\<close> wakes exactly the waiting tasks whose condition the new bits meet, each judged against the
  same bits, whatever the order in the list: all bits or any, as each asked. A woken task is ready, off the list and finds the bits in its
  event item; the others wait on in their order; afterwards the bits are the old and the new ones less those that a woken task wanted cleared.
\<close>

theorem set_bits_wakes_exactly:
  assumes "quiet k" and "waiting_ok (xTasksWaitingForBits g) k" and "B AND eventEVENT_BITS_CONTROL_BYTES = 0"
    and "\<forall>t \<in> set (xEventLists k (xTasksWaitingForBits g)). W t AND eventEVENT_BITS_CONTROL_BYTES = 0 \<and>
      xEventItemValue (tcbs k t) = (W t OR ((if clear t then eventCLEAR_EVENTS_ON_EXIT_BIT else 0) OR (if all_bits t then eventWAIT_FOR_ALL_BITS else 0))) OR
        taskEVENT_LIST_ITEM_VALUE_IN_USE"
    and "freed = filter (\<lambda>t. prvTestWaitCondition (uxEventBits g OR B) (W t) (all_bits t)) (xEventLists k (xTasksWaitingForBits g))"
  shows "\<exists>y g' k'. xEventGroupSetBits B g k = Some (uxEventBits g', y, g', k') \<and>
    uxEventBits g' = (uxEventBits g OR B) AND NOT (foldr (OR) (map W (filter clear freed)) 0) \<and>
    xEventLists k' (xTasksWaitingForBits g) = filter (\<lambda>t. t \<notin> set freed) (xEventLists k (xTasksWaitingForBits g)) \<and>
    (\<forall>t. if t \<in> set freed then xStatePlace (tcbs k' t) = In_Ready (uxPriority (tcbs k t)) \<and> xEventPlace (tcbs k' t) = On_No_List \<and>
            xEventItemValue (tcbs k' t) = ((uxEventBits g OR B) OR eventUNBLOCKED_DUE_TO_BIT_SET) OR taskEVENT_LIST_ITEM_VALUE_IN_USE
          else tcbs k' t = tcbs k t)"
proof -
  from set_bits_freed [OF assms(1-3) _ assms(5), of clear] assms(4) obtain y k' where
    r: "xEventGroupSetBits B g k = Some ((uxEventBits g OR B) AND NOT (foldr (OR) (map W (filter clear freed)) 0), y,
        g\<lparr>uxEventBits := (uxEventBits g OR B) AND NOT (foldr (OR) (map W (filter clear freed)) 0)\<rparr>, k')"
    "xEventLists k' = (xEventLists k)(xTasksWaitingForBits g := filter (\<lambda>t. t \<notin> set freed) (xEventLists k (xTasksWaitingForBits g)))"
    "\<forall>t. tcbs k' t = (if t \<in> set freed then unblocked ((uxEventBits g OR B) OR eventUNBLOCKED_DUE_TO_BIT_SET) (tcbs k t) else tcbs k t)"
    unfolding waits_for_def by blast
  then show ?thesis
    by (intro exI [of _ y] exI [of _ "g\<lparr>uxEventBits := (uxEventBits g OR B) AND NOT (foldr (OR) (map W (filter clear freed)) 0)\<rparr>"] exI [of _ k'])
      (simp add: unblocked_def)
qed

section \<open>Waiting and setting together\<close>

lemma switch_events: "vTaskSwitchContext k = Some k' \<Longrightarrow> xEventLists k' = xEventLists k"
  unfolding vTaskSwitchContext_def taskSELECT_HIGHEST_PRIORITY_TASK_def
  by (auto simp: Let_def split: if_splits bind_splits)

text \<open>The running task blocks on a group: the others run with this task the last of those that wait.\<close>

lemma blocked_on_group:
  assumes "kernel_ok k" and "t = pxCurrentTCB k"
  shows "\<exists>k1 k2. vTaskPlaceOnUnorderedEventList e v n (vTaskSuspendAll k) = Some k1 \<and> resume_and_yield True k1 = Some (True, k2) \<and>
    quiet k2 \<and> xEventLists k2 e = xEventLists k e @ [t] \<and> (\<forall>x. x \<noteq> t \<longrightarrow> tcbs k2 x = tcbs k x) \<and> xEventPlace (tcbs k2 t) = On_Event e \<and> xEventItemValue (tcbs k2 t) = v OR taskEVENT_LIST_ITEM_VALUE_IN_USE \<and>
    uxPriority (tcbs k2 t) = uxPriority (tcbs k t)"
proof -
  note sus = suspended_ok [OF assms(1)]
  let ?f = "\<lambda>x. x\<lparr>xEventItemValue := v OR taskEVENT_LIST_ITEM_VALUE_IN_USE, xEventPlace := On_Event e\<rparr>"
  let ?ki = "set_tcb t ?f ((vTaskSuspendAll k)\<lparr>xEventLists := (xEventLists k)(e := xEventLists k e @ [t])\<rparr>)"
  define k1 where "k1 = prvAddCurrentTaskToDelayedList n True ?ki"
  have "places_ok ((vTaskSuspendAll k)\<lparr>xEventLists := (xEventLists k)(e := xEventLists k e @ [t])\<rparr>)" by (rule places_times [OF sus(1)]) simp_all
  then have "places_ok ?ki" by (rule places_set_tcb) simp_all
  then have p1: "places_ok k1" unfolding k1_def by (rule places_delay)
  have place: "vTaskPlaceOnUnorderedEventList e v n (vTaskSuspendAll k) = Some k1"
    using sus(3,7) assms(2) by (simp add: vTaskPlaceOnUnorderedEventList_def Let_def k1_def)
  have f: "uxSchedulerSuspended k1 = 1" "xPendingReadyList k1 = []" "xPendedTicks k1 = 0" "xEventLists k1 e = xEventLists k e @ [t]" "\<forall>x. x \<noteq> t \<longrightarrow> tcbs k1 x = tcbs k x"
    "xEventPlace (tcbs k1 t) = On_Event e" "xEventItemValue (tcbs k1 t) = v OR taskEVENT_LIST_ITEM_VALUE_IN_USE"
    "uxPriority (tcbs k1 t) = uxPriority (tcbs k t)"
    using sus(3-7) assms(2) by (simp_all add: k1_def)
  let ?k = "k1\<lparr>uxSchedulerSuspended := 0\<rparr>"
  have pk: "places_ok ?k" by (rule places_times [OF p1]) simp_all
  obtain i q where i: "i \<noteq> pxCurrentTCB k" "xStatePlace (tcbs k i) = In_Ready q" using assms(1) by (auto simp: kernel_ok_def)
  then have "tcbs k1 i = tcbs k i" using sus(6,7) assms(2) by (simp add: k1_def)
  then have ri: "xStatePlace (tcbs ?k i) = In_Ready q" using i(2) by simp
  obtain k2 where s: "vTaskSwitchContext ?k = Some k2" "places_ok k2" "tcbs k2 = tcbs ?k" "uxSchedulerSuspended k2 = 0"
    "xPendedTicks k2 = xPendedTicks ?k" "xPendingReadyList k2 = xPendingReadyList ?k"
    using switch_ok [OF pk _ ri] by auto
  have "resume_and_yield True k1 = Some (True, k2)" using resume_quiet [OF f(1-3)] s(1) by (simp add: resume_and_yield_def)
  moreover have "xEventLists k2 e = xEventLists k e @ [t]" using switch_events [OF s(1)] f(4) by simp
  moreover have "quiet k2" using s(2,4-6) f(2,3) by (simp add: quiet_def)
  ultimately show ?thesis using place s(3) f(5-8) by (intro exI [of _ k1] exI [of _ k2]) simp
qed

text \<open>Another task sets bits; then the waiting task runs again, woken by the bits or after its time-out.\<close>

definition set_by_another :: "u32 \<Rightarrow> nat \<Rightarrow> event_group \<times> kernel \<Rightarrow> event_group \<times> kernel" where
  "set_by_another S t gk =
     (case xEventGroupSetBits S (fst gk) (snd gk) of
        None \<Rightarrow> gk
      | Some (_, _, g, k) \<Rightarrow> (g, k\<lparr>pxCurrentTCB := t\<rparr>))"

lemma event_value: "v AND NOT eventEVENT_BITS_CONTROL_BYTES = v \<Longrightarrow>
    (v OR eventUNBLOCKED_DUE_TO_BIT_SET) OR taskEVENT_LIST_ITEM_VALUE_IN_USE = r \<Longrightarrow>
    r AND eventUNBLOCKED_DUE_TO_BIT_SET \<noteq> 0 \<and> r AND NOT eventEVENT_BITS_CONTROL_BYTES = v"
proof (rule conjI)
  assume v: "v AND NOT eventEVENT_BITS_CONTROL_BYTES = v"
    and r: "(v OR eventUNBLOCKED_DUE_TO_BIT_SET) OR taskEVENT_LIST_ITEM_VALUE_IN_USE = r"
  have "r AND eventUNBLOCKED_DUE_TO_BIT_SET = eventUNBLOCKED_DUE_TO_BIT_SET"
    unfolding r [symmetric] by (rule bit_eqI) (auto simp: bit_and_iff bit_or_iff)
  then show "r AND eventUNBLOCKED_DUE_TO_BIT_SET \<noteq> 0" by (simp add: eventUNBLOCKED_DUE_TO_BIT_SET_def)
  show "r AND NOT eventEVENT_BITS_CONTROL_BYTES = v"
    unfolding r [symmetric] using v
    by (simp add: bit.conj_disj_distrib2 eventEVENT_BITS_CONTROL_BYTES_def eventUNBLOCKED_DUE_TO_BIT_SET_def taskEVENT_LIST_ITEM_VALUE_IN_USE_def)
qed

lemma not_unblocked:
  "B AND eventEVENT_BITS_CONTROL_BYTES = 0 \<Longrightarrow>
   ((B OR ((if clear then eventCLEAR_EVENTS_ON_EXIT_BIT else 0) OR (if all_bits then eventWAIT_FOR_ALL_BITS else 0))) OR
     taskEVENT_LIST_ITEM_VALUE_IN_USE) AND eventUNBLOCKED_DUE_TO_BIT_SET = 0"
proof -
  assume "B AND eventEVENT_BITS_CONTROL_BYTES = 0"
  then have "B AND (eventEVENT_BITS_CONTROL_BYTES AND eventUNBLOCKED_DUE_TO_BIT_SET) = 0" by (simp add: and.assoc [symmetric])
  then have "B AND eventUNBLOCKED_DUE_TO_BIT_SET = 0" by (simp add: eventEVENT_BITS_CONTROL_BYTES_def eventUNBLOCKED_DUE_TO_BIT_SET_def)
  then show ?thesis
    by (simp add: bit.conj_disj_distrib2 eventCLEAR_EVENTS_ON_EXIT_BIT_def eventWAIT_FOR_ALL_BITS_def eventUNBLOCKED_DUE_TO_BIT_SET_def
        taskEVENT_LIST_ITEM_VALUE_IN_USE_def)
qed

lemma foldr_or_append: "foldr (OR) (xs @ ys) (0 :: u32) = foldr (OR) xs 0 OR foldr (OR) ys 0"
  by (induction xs) (simp_all add: or.assoc)

lemma unmet_stays_unmet: "\<not> prvTestWaitCondition b B all_bits \<Longrightarrow> \<not> prvTestWaitCondition (b AND NOT c) B all_bits"
proof (cases all_bits)
  case True
  assume "\<not> prvTestWaitCondition b B all_bits"
  moreover have "b AND B = B" if h: "(b AND NOT c) AND B = B"
  proof (rule bit_eqI)
    fix n assume "possible_bit TYPE(u32) n"
    have "bit ((b AND NOT c) AND B) n = bit B n" by (simp add: h)
    then show "bit (b AND B) n = bit B n" by (auto simp: bit_and_iff)
  qed
  ultimately show ?thesis using True by (auto simp: prvTestWaitCondition_def)
next
  case False
  assume "\<not> prvTestWaitCondition b B all_bits"
  then have "b AND B = 0" using False by (simp add: prvTestWaitCondition_def)
  then have "(b AND B) AND NOT c = 0" by simp
  then have "(b AND NOT c) AND B = 0" by (simp add: ac_simps)
  then show ?thesis using False by (simp add: prvTestWaitCondition_def)
qed

text \<open>
  C21: Waiting and setting together, whatever other tasks wait on the group. The running task waits for bits \<open>B\<close>, which the
  group does not satisfy, and blocks behind the tasks that wait already, task \<open>t\<close> of them for \<open>W t\<close>; while it is blocked another task sets
  \<open>S\<close>, and \<open>taken\<close> are the bits that the other waiting tasks which \<open>S\<close> frees wanted cleared. If the group with \<open>S\<close> meets the
  condition the call returns all these bits, also those that another task takes, and otherwise, when it times out
  after them, the bits that \<open>taken\<close> leaves; the bits waited for are cleared on exit iff that was asked for and the condition is met.
\<close>

theorem wait_returns_bits_set:
  assumes "kernel_ok k" and "waiting_ok (xTasksWaitingForBits g) k" and "pxCurrentTCB k \<notin> set (xEventLists k (xTasksWaitingForBits g))"
    and "\<forall>t \<in> set (xEventLists k (xTasksWaitingForBits g)). waits_for W clears alls k t"
    and "0 < n" and "uxEventBits g AND eventEVENT_BITS_CONTROL_BYTES = 0" and "S AND eventEVENT_BITS_CONTROL_BYTES = 0"
    and "B AND eventEVENT_BITS_CONTROL_BYTES = 0" and "B \<noteq> 0" and "\<not> prvTestWaitCondition (uxEventBits g) B all_bits"
    and "freed = filter (\<lambda>t. prvTestWaitCondition (uxEventBits g OR S) (W t) (alls t)) (xEventLists k (xTasksWaitingForBits g))"
    and "taken = foldr (OR) (map W (filter clears freed)) 0"
    and "met \<longleftrightarrow> prvTestWaitCondition (uxEventBits g OR S) B all_bits"
  shows "\<exists>g' k'. xEventGroupWaitBits B clear all_bits n (set_by_another S (pxCurrentTCB k)) g k =
      Some (if met then uxEventBits g OR S else (uxEventBits g OR S) AND NOT taken, g', k') \<and>
    uxEventBits g' = (uxEventBits g OR S) AND NOT (taken OR (if met \<and> clear then B else 0))"
proof -
  let ?t = "pxCurrentTCB k" and ?e = "xTasksWaitingForBits g" and ?bits = "uxEventBits g OR S"
  let ?c = "(if clear then eventCLEAR_EVENTS_ON_EXIT_BIT else 0) OR (if all_bits then eventWAIT_FOR_ALL_BITS else 0)"
  let ?left = "?bits AND NOT (taken OR (if met \<and> clear then B else 0))"
  obtain k1 k2 where b: "vTaskPlaceOnUnorderedEventList ?e (B OR ?c) n (vTaskSuspendAll k) = Some k1" "resume_and_yield True k1 = Some (True, k2)"
    "quiet k2" "xEventLists k2 ?e = xEventLists k ?e @ [?t]" "\<forall>x. x \<noteq> ?t \<longrightarrow> tcbs k2 x = tcbs k x"
    "xEventPlace (tcbs k2 ?t) = On_Event ?e" "xEventItemValue (tcbs k2 ?t) = (B OR ?c) OR taskEVENT_LIST_ITEM_VALUE_IN_USE"
    using blocked_on_group [OF assms(1) refl] by blast
  have ne: "x \<noteq> ?t" if "x \<in> set (xEventLists k ?e)" for x using that assms(3) by auto
  have w: "waiting_ok ?e k2" using b(4-6) assms(2,3) ne by (auto simp: waiting_ok_def)
  have "waits_for (W(?t := B)) (clears(?t := clear)) (alls(?t := all_bits)) k2 x" if "x \<in> set (xEventLists k2 ?e)" for x
    using that b(4,5,7) assms(4,8) ne by (cases "x = ?t") (auto simp: waits_for_def)
  then have all: "\<forall>x \<in> set (xEventLists k2 ?e). waits_for (W(?t := B)) (clears(?t := clear)) (alls(?t := all_bits)) k2 x" by blast
  have fr: "filter (\<lambda>x. prvTestWaitCondition ?bits ((W(?t := B)) x) ((alls(?t := all_bits)) x)) (xEventLists k2 ?e) =
      freed @ (if met then [?t] else [])"
  proof -
    have "filter (\<lambda>x. prvTestWaitCondition ?bits ((W(?t := B)) x) ((alls(?t := all_bits)) x)) (xEventLists k ?e) = freed"
      unfolding assms(11) by (rule filter_cong) (use ne in simp_all)
    then show ?thesis unfolding b(4) by (simp add: assms(13))
  qed
  have nf: "?t \<notin> set freed" using assms(3) by (simp add: assms(11))
  have "map (W(?t := B)) (filter (clears(?t := clear)) freed) = map W (filter clears freed)"
    using nf by (induction freed) auto
  then have tk: "foldr (OR) (map (W(?t := B)) (filter (clears(?t := clear)) (freed @ (if met then [?t] else [])))) 0 =
      taken OR (if met \<and> clear then B else 0)"
    by (simp add: foldr_or_append assms(12) del: foldr_append)
  obtain y k3 where s: "xEventGroupSetBits S g k2 = Some (?left, y, g\<lparr>uxEventBits := ?left\<rparr>, k3)"
    "tcbs k3 ?t = (if met then unblocked (?bits OR eventUNBLOCKED_DUE_TO_BIT_SET) (tcbs k2 ?t) else tcbs k2 ?t)"
    using set_bits_freed [OF b(3) w assms(7) all fr [symmetric]] nf unfolding tk by auto
  let ?r = "after_block B clear all_bits (g\<lparr>uxEventBits := ?left\<rparr>) (k3\<lparr>pxCurrentTCB := ?t\<rparr>)"
  have n0: "n \<noteq> 0" using assms(5) by auto
  have may: "may_wait n k" using assms(1) by (simp add: may_wait_def kernel_ok_def)
  have call: "xEventGroupWaitBits B clear all_bits n (set_by_another S ?t) g k = Some ?r"
    using n0 assms(8-10) may b(1,2) s(1) by (simp add: xEventGroupWaitBits_def Let_def run_others_def set_by_another_def)
  have user: "?bits AND NOT eventEVENT_BITS_CONTROL_BYTES = ?bits"
    using user_bits [OF assms(6)] user_bits [OF assms(7)] by (simp add: bit.conj_disj_distrib2)
  obtain r1 r2 r3 where r: "?r = (r1, r2, r3)" by (rule prod_cases3)
  have "fst ?r = (if met then ?bits else ?bits AND NOT taken) \<and> uxEventBits (fst (snd ?r)) = ?left"
  proof (cases met)
    case True
    have "xEventItemValue (tcbs k3 ?t) = (?bits OR eventUNBLOCKED_DUE_TO_BIT_SET) OR taskEVENT_LIST_ITEM_VALUE_IN_USE"
      using True by (simp add: s(2) unblocked_def)
    from event_value [OF user this [symmetric]] True show ?thesis
      by (simp add: after_block_def uxTaskResetEventItemValue_def Let_def)
  next
    case False
    have "xEventItemValue (tcbs k3 ?t) AND eventUNBLOCKED_DUE_TO_BIT_SET = 0"
      using user_bits [OF assms(8)] False b(7) s(2) not_unblocked [OF assms(8)] by simp
    moreover have "(?bits AND NOT taken) AND NOT eventEVENT_BITS_CONTROL_BYTES = ?bits AND NOT taken"
      using user by (metis and.assoc and.commute)
    moreover have "\<not> prvTestWaitCondition (?bits AND NOT taken) B all_bits"
      using False assms(13) by (intro unmet_stays_unmet) simp
    ultimately show ?thesis using False by (simp add: after_block_def uxTaskResetEventItemValue_def Let_def clear_if_def)
  qed
  then show ?thesis unfolding call unfolding r by simp
qed

text \<open>
  Task 1 runs, tasks 2 and 3 wait: 2 for any of the bits 0 and 1, to be cleared, 3 for the bits 0 and 2 together. The idle
  task is 4. Setting bit 0 wakes task 2 only.
\<close>

definition waiting_item :: "u32 \<Rightarrow> tcb \<Rightarrow> tcb" where
  "waiting_item v x = x\<lparr>xStatePlace := In_Suspended, xEventPlace := On_Event 8, xEventItemValue := v OR taskEVENT_LIST_ITEM_VALUE_IN_USE\<rparr>"

definition four_tasks :: kernel where
  "four_tasks = (two_tasks 0)\<lparr>
     tcbs := (\<lambda>t. if t = 1 then ready_task 3 else if t = 2 then waiting_item (3 OR eventCLEAR_EVENTS_ON_EXIT_BIT) (ready_task 2)
                  else if t = 3 then waiting_item (5 OR eventWAIT_FOR_ALL_BITS) (ready_task 2)
                  else if t = 4 then ready_task 0 else (ready_task 0)\<lparr>xStatePlace := In_No_List\<rparr>),
     pxReadyTasksLists := (\<lambda>p. if p = 3 then ([1], Some 1) else if p = 0 then ([4], None) else ([], None)),
     xSuspendedTaskList := [2, 3], xEventLists := (\<lambda>e. if e = 8 then [2, 3] else []), uxCurrentNumberOfTasks := 4\<rparr>"

definition empty_group :: event_group where
  "empty_group = \<lparr>uxEventBits = 0, xTasksWaitingForBits = 8, uxEventGroupNumber = 0\<rparr>"

lemma four_tasks_quiet: "quiet four_tasks"
proof -
  have "places_ok four_tasks" by (rule places_okI) (auto simp: four_tasks_def two_tasks_def ready_task_def waiting_item_def)
  then show ?thesis by (simp add: quiet_def four_tasks_def two_tasks_def)
qed

lemma set_bits_wakes_exactly_witness:
  "\<exists>y g' k'. xEventGroupSetBits 1 empty_group four_tasks = Some (uxEventBits g', y, g', k') \<and> uxEventBits g' = 0 \<and>
     xEventLists k' 8 = [3] \<and> xStatePlace (tcbs k' 2) = In_Ready 2 \<and> tcbs k' 3 = tcbs four_tasks 3"
proof -
  let ?W = "\<lambda>t :: nat. if t = 2 then 3 else 5 :: u32"
  have 1: "waiting_ok (xTasksWaitingForBits empty_group) four_tasks"
    by (simp add: waiting_ok_def four_tasks_def empty_group_def waiting_item_def)
  have 2: "(1 :: u32) AND eventEVENT_BITS_CONTROL_BYTES = 0" by (simp add: eventEVENT_BITS_CONTROL_BYTES_def)
  have 3: "\<forall>t \<in> set (xEventLists four_tasks (xTasksWaitingForBits empty_group)). ?W t AND eventEVENT_BITS_CONTROL_BYTES = 0 \<and>
      xEventItemValue (tcbs four_tasks t) = (?W t OR ((if t = 2 then eventCLEAR_EVENTS_ON_EXIT_BIT else 0) OR (if t = 3 then eventWAIT_FOR_ALL_BITS else 0))) OR
        taskEVENT_LIST_ITEM_VALUE_IN_USE"
    by (simp add: four_tasks_def empty_group_def waiting_item_def eventEVENT_BITS_CONTROL_BYTES_def)
  have l: "xEventLists four_tasks 8 = [2, 3]" "xTasksWaitingForBits empty_group = 8" "uxEventBits empty_group = 0"
    "uxPriority (tcbs four_tasks 2) = 2"
    by (simp_all add: four_tasks_def empty_group_def waiting_item_def ready_task_def)
  have 4: "[2] = filter (\<lambda>t. prvTestWaitCondition (uxEventBits empty_group OR 1) (?W t) (t = 3)) (xEventLists four_tasks (xTasksWaitingForBits empty_group))"
    unfolding l(2) l(1,3) by (simp add: prvTestWaitCondition_def)
  obtain y g' k' where r: "xEventGroupSetBits 1 empty_group four_tasks = Some (uxEventBits g', y, g', k')" "uxEventBits g' = 0" "xEventLists k' 8 = [3]"
    and t: "\<forall>t. (t = 2 \<longrightarrow> xStatePlace (tcbs k' 2) = In_Ready 2) \<and> (t = 2 \<or> tcbs k' t = tcbs four_tasks t)"
    using set_bits_wakes_exactly [where W = ?W and clear = "\<lambda>t. t = 2" and all_bits = "\<lambda>t. t = 3", OF four_tasks_quiet 1 2 3 4] l
    by (auto split: if_splits)
  have "xStatePlace (tcbs k' 2) = In_Ready 2" "tcbs k' 3 = tcbs four_tasks 3" using spec [OF t, of 2] spec [OF t, of 3] by simp_all
  then show ?thesis using r by blast
qed

text \<open>Task 1 waits for bit 2 while task 2 waits for the bits 0 and 1; setting bit 0 frees task 2, which takes it away.\<close>

lemma four_tasks_ok: "kernel_ok four_tasks"
proof -
  have "times_ok four_tasks" by (simp add: times_ok_def four_tasks_def two_tasks_def current_delayed_def overflow_delayed_def)
  moreover have "xStatePlace (tcbs four_tasks (pxCurrentTCB four_tasks)) = In_Ready 3" "xStatePlace (tcbs four_tasks 4) = In_Ready 0"
    "4 \<noteq> pxCurrentTCB four_tasks"
    by (simp_all add: four_tasks_def two_tasks_def ready_task_def)
  ultimately show ?thesis using four_tasks_quiet unfolding quiet_def kernel_ok_def by blast
qed

lemma wait_returns_bits_set_witness:
  "\<exists>g' k'. xEventGroupWaitBits 4 True True 100 (set_by_another 1 1) empty_group four_tasks = Some (0, g', k') \<and> uxEventBits g' = 0"
proof -
  let ?W = "\<lambda>t :: nat. if t = 2 then 3 else 5 :: u32" and ?c = "\<lambda>t :: nat. t = 2" and ?a = "\<lambda>t :: nat. t = 3"
  let ?l = "xEventLists four_tasks (xTasksWaitingForBits empty_group)"
  have 1: "pxCurrentTCB four_tasks = 1" "uxEventBits empty_group = 0" "?l = [2, 3]"
    by (simp_all add: two_tasks_def four_tasks_def empty_group_def)
  have 2: "waiting_ok (xTasksWaitingForBits empty_group) four_tasks"
    by (simp add: waiting_ok_def four_tasks_def empty_group_def waiting_item_def)
  have 3: "pxCurrentTCB four_tasks \<notin> set ?l" unfolding 1(1,3) by simp
  have 4: "\<forall>t \<in> set ?l. waits_for ?W ?c ?a four_tasks t"
    unfolding 1(3) by (simp add: waits_for_def four_tasks_def waiting_item_def eventEVENT_BITS_CONTROL_BYTES_def)
  have f: "[2] = filter (\<lambda>t. prvTestWaitCondition (uxEventBits empty_group OR 1) (?W t) (?a t)) ?l"
    unfolding 1(2,3) by (simp add: prvTestWaitCondition_def)
  show ?thesis
    using wait_returns_bits_set [OF four_tasks_ok 2 3 4 _ _ _ _ _ _ f refl refl, of 100 4 True True]
    unfolding 1(1,2) by (simp add: prvTestWaitCondition_def eventEVENT_BITS_CONTROL_BYTES_def)
qed

end
