(* ===== verification/InetChecksum.thy ===== *)
theory InetChecksum
  imports Prelude
begin

text \<open>
  The Internet checksum of the network stack, \<^verbatim>\<open>lwip/src/core/inet_chksum.c\<close>, on a little-endian machine, with the byte-order
  functions of \<^verbatim>\<open>lwip/src/core/def.c\<close>: the optimised summing of a buffer at any address, of a chain of buffers that may
  split at odd offsets, and of the pseudo header. A buffer is its address and its bytes.
\<close>

section \<open>Byte order\<close>

definition lwip_htons :: "u16 \<Rightarrow> u16" where
  "lwip_htons n = push_bit 8 (n AND 0x00FF) OR drop_bit 8 (n AND 0xFF00)"

definition lwip_htonl :: "u32 \<Rightarrow> u32" where
  "lwip_htonl n = push_bit 24 (n AND 0x000000FF) OR push_bit 8 (n AND 0x0000FF00) OR
     drop_bit 8 (n AND 0x00FF0000) OR drop_bit 24 (n AND 0xFF000000)"

section \<open>Summing one buffer\<close>

definition FOLD_U32T :: "u32 \<Rightarrow> u32" where
  "FOLD_U32T u = drop_bit 16 u + (u AND 0x0000FFFF)"

definition SWAP_BYTES_IN_WORD :: "u32 \<Rightarrow> u32" where
  "SWAP_BYTES_IN_WORD w = push_bit 8 (w AND 0xFF) OR drop_bit 8 (w AND 0xFF00)"

text \<open>The half-word that a little-endian machine loads from two bytes.\<close>

definition load_u16 :: "u8 \<Rightarrow> u8 \<Rightarrow> u16" where
  "load_u16 a b = push_bit 8 (ucast b) OR ucast a"

text \<open>The loop over the aligned half-words leaves at most one byte.\<close>

fun add_half_words :: "u32 \<Rightarrow> u8 list \<Rightarrow> u32 \<times> u8 list" where
  "add_half_words acc (a # b # d) = add_half_words (acc + ucast (load_u16 a b)) d"
| "add_half_words acc d = (acc, d)"

definition lwip_standard_chksum :: "u32 \<Rightarrow> u8 list \<Rightarrow> u16" where
  "lwip_standard_chksum dataptr d =
     (let odd_address = (dataptr AND 1 \<noteq> 0);
          (t1, d) = (if odd_address \<and> d \<noteq> [] then (hd d, tl d) else (0, d));
          (acc, d) = add_half_words 0 d;
          t0 = (case d of [] \<Rightarrow> 0 | b # _ \<Rightarrow> b);
          acc = acc + ucast (load_u16 t0 t1);
          acc = FOLD_U32T acc;
          acc = FOLD_U32T acc;
          acc = (if odd_address then SWAP_BYTES_IN_WORD acc else acc)
      in ucast acc)"

text \<open>The routine sums the \<open>len\<close> bytes at \<open>dataptr\<close>; \<open>memory\<close> are the bytes from there on.\<close>

definition inet_chksum :: "u32 \<Rightarrow> u8 list \<Rightarrow> u16 \<Rightarrow> u16" where
  "inet_chksum dataptr memory len = NOT (lwip_standard_chksum dataptr (take (unat len) memory))"

section \<open>Summing a chain of buffers\<close>

type_synonym pbuf_chain = "(u32 \<times> u8 list) list"

text \<open>The loop over the buffers, with the accumulated sum and whether its bytes are swapped.\<close>

fun add_pbufs :: "pbuf_chain \<Rightarrow> u32 \<Rightarrow> bool \<Rightarrow> u32 \<times> bool" where
  "add_pbufs [] acc swapped = (acc, swapped)"
| "add_pbufs ((payload, d) # q) acc swapped =
     (let acc = FOLD_U32T (acc + ucast (lwip_standard_chksum payload d))
      in if length d mod 2 \<noteq> 0 then add_pbufs q (SWAP_BYTES_IN_WORD acc) (\<not> swapped) else add_pbufs q acc swapped)"

definition unswapped :: "u32 \<times> bool \<Rightarrow> u32" where
  "unswapped = (\<lambda>(acc, swapped). if swapped then SWAP_BYTES_IN_WORD acc else acc)"

definition inet_chksum_pbuf :: "pbuf_chain \<Rightarrow> u16" where
  "inet_chksum_pbuf p = NOT (ucast (unswapped (add_pbufs p 0 False) AND 0xFFFF))"

text \<open>Protocol and length join the sum in network order.\<close>

definition add_proto_len :: "u32 \<Rightarrow> u8 \<Rightarrow> u16 \<Rightarrow> u16" where
  "add_proto_len acc proto proto_len =
     (let acc = acc + ucast (lwip_htons (ucast proto));
          acc = acc + ucast (lwip_htons proto_len)
      in NOT (ucast (FOLD_U32T (FOLD_U32T acc) AND 0xFFFF)))"

definition inet_cksum_pseudo_base :: "pbuf_chain \<Rightarrow> u8 \<Rightarrow> u16 \<Rightarrow> u32 \<Rightarrow> u16" where
  "inet_cksum_pseudo_base p proto proto_len acc = add_proto_len (unswapped (add_pbufs p acc False)) proto proto_len"

text \<open>The addresses, in network order, added by half-words.\<close>

definition add_addresses :: "u32 \<Rightarrow> u32 \<Rightarrow> u32" where
  "add_addresses src dest =
     (let acc = src AND 0xFFFF;
          acc = acc + (drop_bit 16 src AND 0xFFFF);
          acc = acc + (dest AND 0xFFFF);
          acc = acc + (drop_bit 16 dest AND 0xFFFF)
      in FOLD_U32T (FOLD_U32T acc))"

definition inet_chksum_pseudo :: "pbuf_chain \<Rightarrow> u8 \<Rightarrow> u16 \<Rightarrow> u32 \<Rightarrow> u32 \<Rightarrow> u16" where
  "inet_chksum_pseudo p proto proto_len src dest = inet_cksum_pseudo_base p proto proto_len (add_addresses src dest)"

text \<open>
  Only the first \<open>chksum_len\<close> bytes of the chain; the length is a half-word, and a failed assertion is \<open>None\<close>.
\<close>

fun add_pbufs_partial :: "pbuf_chain \<Rightarrow> u16 \<Rightarrow> u32 \<Rightarrow> bool \<Rightarrow> (u32 \<times> bool) option" where
  "add_pbufs_partial [] chksum_len acc swapped = Some (acc, swapped)"
| "add_pbufs_partial ((payload, d) # q) chksum_len acc swapped =
     (if chksum_len > 0 then
        let chklen = (if length d > unat chksum_len then unat chksum_len else length d);
            acc = acc + ucast (lwip_standard_chksum payload (take chklen d));
            chksum_len = chksum_len - of_nat chklen
        in if chksum_len < 0x7FFF then
             let acc = FOLD_U32T acc
             in if length d mod 2 \<noteq> 0 then add_pbufs_partial q chksum_len (SWAP_BYTES_IN_WORD acc) (\<not> swapped)
                else add_pbufs_partial q chksum_len acc swapped
           else None
      else Some (acc, swapped))"

definition inet_cksum_pseudo_partial_base :: "pbuf_chain \<Rightarrow> u8 \<Rightarrow> u16 \<Rightarrow> u16 \<Rightarrow> u32 \<Rightarrow> u16 option" where
  "inet_cksum_pseudo_partial_base p proto proto_len chksum_len acc =
     map_option (\<lambda>r. add_proto_len (unswapped r) proto proto_len) (add_pbufs_partial p chksum_len acc False)"

definition inet_chksum_pseudo_partial :: "pbuf_chain \<Rightarrow> u8 \<Rightarrow> u16 \<Rightarrow> u16 \<Rightarrow> u32 \<Rightarrow> u32 \<Rightarrow> u16 option" where
  "inet_chksum_pseudo_partial p proto proto_len chksum_len src dest =
     inet_cksum_pseudo_partial_base p proto proto_len chksum_len (add_addresses src dest)"

section \<open>The sum of RFC 1071\<close>

text \<open>
  The sum of the little-endian half-words, an odd last byte padded with zero, without any limit on its size, and its
  one's-complement value: the representative modulo \<open>2 ^ 16 - 1\<close> that is \<open>0\<close> for the sum \<open>0\<close> only.
\<close>

fun half_word_sum :: "u8 list \<Rightarrow> nat" where
  "half_word_sum [] = 0"
| "half_word_sum [a] = unat a"
| "half_word_sum (a # b # d) = unat a + 256 * unat b + half_word_sum d"

definition ones_complement :: "nat \<Rightarrow> nat" where
  "ones_complement n = (if n = 0 then 0 else if n mod 65535 = 0 then 65535 else n mod 65535)"

text \<open>A half-word is the one's-complement value of \<open>n\<close> iff it is congruent to it and both are zero or neither.\<close>

definition represents :: "nat \<Rightarrow> nat \<Rightarrow> bool" where
  "represents x n \<longleftrightarrow> x \<le> 65535 \<and> x mod 65535 = n mod 65535 \<and> (x = 0 \<longleftrightarrow> n = 0)"

lemma represents_unique: "represents x n \<Longrightarrow> x = ones_complement n"
proof -
  assume r: "represents x n"
  then consider "x < 65535" | "x = 65535" by (auto simp: represents_def le_less)
  then show ?thesis using r by cases (auto simp: represents_def ones_complement_def)
qed

lemma represents_ones_complement: "represents (ones_complement n) n"
  by (auto simp: represents_def ones_complement_def less_imp_le)

subsection \<open>Arithmetic of the parts\<close>

lemma unat_and_low: "unat (u AND 0xFFFF :: u32) = unat u mod 65536"
proof -
  have "(0xFFFF :: u32) = mask 16" by (simp add: mask_eq_exp_minus_1)
  then have "u AND 0xFFFF = take_bit 16 u" by (simp add: take_bit_eq_mask)
  then show ?thesis by (simp add: unsigned_take_bit_eq take_bit_nat_def)
qed

lemma unat_FOLD: "unat (FOLD_U32T u) = unat u div 65536 + unat u mod 65536"
proof -
  have "unat u div 65536 < 65536" using unat_u32_less [of u] by (simp add: less_mult_imp_div_less)
  moreover have "unat u mod 65536 < 65536" by simp
  ultimately have "unat u div 65536 + unat u mod 65536 < 4294967296" by linarith
  then show ?thesis unfolding FOLD_U32T_def by (subst unat_add_small) (simp_all add: unat_drop_bit unat_and_low)
qed

lemma mod_65536: "(65536 * k + r) mod 65535 = (k + r) mod (65535 :: nat)"
proof -
  have "65536 * k + r = (k + r) + 65535 * k" by simp
  then show ?thesis by (simp only: mod_mult_self2)
qed

lemma FOLD_mod: "unat (FOLD_U32T u) mod 65535 = unat u mod 65535"
  using mod_65536 [of "unat u div 65536" "unat u mod 65536"] by (simp add: unat_FOLD)

lemma FOLD_zero: "unat (FOLD_U32T u) = 0 \<longleftrightarrow> unat u = 0"
proof -
  define q r where "q = unat u div 65536" and "r = unat u mod 65536"
  have "unat u = 65536 * q + r" by (simp add: q_def r_def)
  moreover have "unat (FOLD_U32T u) = q + r" by (simp add: unat_FOLD q_def r_def)
  ultimately show ?thesis by simp
qed

text \<open>One fold brings a sum of two half-words to a half-word, two folds bring any sum there.\<close>

lemma FOLD_once: "unat u \<le> 2 * 65535 \<Longrightarrow> unat (FOLD_U32T u) \<le> 65535"
proof -
  assume u: "unat u \<le> 2 * 65535"
  show ?thesis
  proof (cases "unat u < 65536")
    case True
    then show ?thesis by (simp add: unat_FOLD)
  next
    case False
    then have "unat u div 65536 = 1" using u by (simp add: div_nat_eqI)
    moreover from this have "unat u mod 65536 = unat u - 65536" using False by (simp add: le_mod_geq u)
    ultimately show ?thesis using u by (simp add: unat_FOLD)
  qed
qed

lemma FOLD_twice: "unat (FOLD_U32T (FOLD_U32T u)) \<le> 65535"
proof (rule FOLD_once)
  have "unat u div 65536 < 65536" using unat_u32_less [of u] by (simp add: less_mult_imp_div_less)
  moreover have "unat u mod 65536 < 65536" by simp
  ultimately show "unat (FOLD_U32T u) \<le> 2 * 65535" unfolding unat_FOLD by linarith
qed

lemma FOLD_represents:
  "unat u \<le> 2 * 65535 \<Longrightarrow> unat u mod 65535 = n mod 65535 \<Longrightarrow> (unat u = 0 \<longleftrightarrow> n = 0) \<Longrightarrow> represents (unat (FOLD_U32T u)) n"
  by (simp add: represents_def FOLD_mod FOLD_zero FOLD_once)

lemma FOLD_twice_represents:
  "unat u mod 65535 = n mod 65535 \<Longrightarrow> (unat u = 0 \<longleftrightarrow> n = 0) \<Longrightarrow> represents (unat (FOLD_U32T (FOLD_U32T u))) n"
  by (simp add: represents_def FOLD_mod FOLD_zero FOLD_twice)

text \<open>Swapping the bytes of a half-word multiplies it by 256.\<close>

lemma unat_SWAP: "unat w \<le> 65535 \<Longrightarrow> unat (SWAP_BYTES_IN_WORD w) = unat w mod 256 * 256 + unat w div 256"
proof -
  assume w: "unat w \<le> 65535"
  have and8: "x AND 0xFF = take_bit 8 x" for x :: u32 by (simp only: take_bit_eq_mask) (simp add: mask_eq_exp_minus_1)
  have lo: "unat (w AND 0xFF) = unat w mod 256" by (simp only: and8 unsigned_take_bit_eq take_bit_nat_def) simp
  have e: "drop_bit 8 (w AND 0xFF00) = drop_bit 8 w AND 0xFF" by simp
  have "unat w div 256 < 256" using w by (simp add: less_mult_imp_div_less)
  then have "unat (take_bit 8 (drop_bit 8 w)) = unat (drop_bit 8 w)"
    by (simp only: unsigned_take_bit_eq take_bit_nat_def unat_drop_bit) simp
  then have hi: "drop_bit 8 (w AND 0xFF00) = drop_bit 8 w" unfolding e and8 by (simp add: word_unat_eq_iff)
  have "unat (push_bit 8 (w AND 0xFF) OR drop_bit 8 w) = unat (w AND 0xFF) * 2 ^ 8 + unat (drop_bit 8 w)"
  proof (rule unat_or_push)
    show "unat (drop_bit 8 w) < 2 ^ 8" using \<open>unat w div 256 < 256\<close> by (simp add: unat_drop_bit)
    have "unat w mod 256 < 256" by simp
    then show "unat (w AND 0xFF) * 2 ^ 8 < 2 ^ LENGTH(32)" unfolding lo by simp
  qed
  then show ?thesis unfolding SWAP_BYTES_IN_WORD_def hi using lo by (simp add: unat_drop_bit)
qed

lemma swap_arith: "(256 * (256 * q + r)) mod 65535 = (256 * r + q) mod (65535 :: nat)"
  using mod_65536 [of q "256 * r"] by (simp add: algebra_simps)

lemma SWAP_represents: "represents (unat w) n \<Longrightarrow> represents (unat (SWAP_BYTES_IN_WORD w)) (256 * n)"
proof -
  assume r: "represents (unat w) n"
  define q l where "q = unat w div 256" and "l = unat w mod 256"
  have w: "unat w = 256 * q + l" by (simp add: q_def l_def)
  have q: "q < 256" using r by (simp add: q_def represents_def less_mult_imp_div_less)
  have l: "l < 256" by (simp add: l_def)
  have s: "unat (SWAP_BYTES_IN_WORD w) = l * 256 + q" using r by (simp add: unat_SWAP represents_def q_def l_def)
  have "(l * 256 + q) mod 65535 = (256 * unat w) mod 65535" unfolding w swap_arith by (simp add: mult.commute)
  also have "\<dots> = (256 * n) mod 65535" using r by (intro mod_mult_cong) (simp_all add: represents_def)
  finally show ?thesis using r s w q l by (auto simp: represents_def)
qed

lemma SWAP_twice: "unat w \<le> 65535 \<Longrightarrow> SWAP_BYTES_IN_WORD (SWAP_BYTES_IN_WORD w) = w"
proof -
  assume w: "unat w \<le> 65535"
  then have "unat w div 256 < 256" by (simp add: less_mult_imp_div_less)
  moreover have "unat w mod 256 < 256" by simp
  ultimately have "unat w mod 256 * 256 + unat w div 256 \<le> 65535" by linarith
  then have "unat (SWAP_BYTES_IN_WORD (SWAP_BYTES_IN_WORD w)) = unat w"
    using w \<open>unat w div 256 < 256\<close> by (simp add: unat_SWAP)
  then show ?thesis by (simp add: word_unat_eq_iff)
qed

text \<open>Half-words as the machine loads them.\<close>

lemma unat_load_u16: "unat (load_u16 a b) = unat a + 256 * unat b"
proof -
  have "unat (push_bit 8 (ucast b) OR ucast a :: u16) = unat (ucast b :: u16) * 2 ^ 8 + unat (ucast a :: u16)"
    by (rule unat_or_push) (simp_all add: unat_ucast_up less_le_trans [OF mult_strict_right_mono [OF unat_u8_less]])
  then show ?thesis by (simp add: load_u16_def unat_ucast_up)
qed

lemma load_u16_le: "unat a + 256 * unat b \<le> 65535" for a b :: u8
  using unat_u8_less [of a] unat_u8_less [of b] by linarith

subsection \<open>The sum of a list of bytes\<close>

lemma half_word_sum_Cons: "half_word_sum (a # d) mod 65535 = (unat a + 256 * half_word_sum d) mod 65535"
proof (induction d arbitrary: a)
  case (Cons b d)
  have "(256 * half_word_sum (b # d)) mod 65535 = (256 * (unat b + 256 * half_word_sum d)) mod 65535"
    by (intro mod_mult_cong refl Cons.IH)
  also have "\<dots> = (256 * unat b + half_word_sum d) mod 65535"
    using swap_arith [of "half_word_sum d" "unat b"] by (simp add: add.commute)
  finally have "(unat a + 256 * half_word_sum (b # d)) mod 65535 = (unat a + (256 * unat b + half_word_sum d)) mod 65535"
    by (intro mod_add_cong refl)
  then show ?case by (simp add: add.assoc)
qed simp

lemma half_word_sum_zero: "half_word_sum d = 0 \<longleftrightarrow> (\<forall>b \<in> set d. b = 0)"
  by (induction d rule: half_word_sum.induct) (auto simp: unat_eq_0)

lemma half_word_sum_append_even: "even (length xs) \<Longrightarrow> half_word_sum (xs @ ys) = half_word_sum xs + half_word_sum ys"
  by (induction xs rule: half_word_sum.induct) simp_all

lemma half_word_sum_append_odd:
  assumes "odd (length xs)"
  shows "half_word_sum (xs @ ys) mod 65535 = (half_word_sum xs + 256 * half_word_sum ys) mod 65535"
proof -
  obtain zs z where xs: "xs = zs @ [z]" using assms by (cases xs rule: rev_exhaust) auto
  then have e: "even (length zs)" using assms by simp
  have "half_word_sum (xs @ ys) mod 65535 = (half_word_sum zs + half_word_sum (z # ys)) mod 65535"
    using half_word_sum_append_even [OF e, of "z # ys"] xs by simp
  also have "\<dots> = (half_word_sum zs + (unat z + 256 * half_word_sum ys)) mod 65535"
    by (intro mod_add_cong refl half_word_sum_Cons)
  also have "\<dots> = (half_word_sum xs + 256 * half_word_sum ys) mod 65535"
    using half_word_sum_append_even [OF e, of "[z]"] xs by (simp add: add.assoc)
  finally show ?thesis .
qed

lemma half_word_sum_append_zero: "half_word_sum (xs @ ys) = 0 \<longleftrightarrow> half_word_sum xs = 0 \<and> half_word_sum ys = 0"
  by (auto simp: half_word_sum_zero)

section \<open>The routines compute the sum of RFC 1071\<close>

lemma represents_cong: "represents x n \<Longrightarrow> n mod 65535 = m mod 65535 \<Longrightarrow> (n = 0 \<longleftrightarrow> m = 0) \<Longrightarrow> represents x m"
  by (simp add: represents_def)

lemma add_half_words_ok:
  "unat acc + 65535 * (length d div 2) < 4294967296 \<Longrightarrow>
   \<exists>acc' r. add_half_words acc d = (acc', r) \<and> length r = length d mod 2 \<and>
     unat acc' + half_word_sum r = unat acc + half_word_sum d \<and> unat acc' \<le> unat acc + 65535 * (length d div 2)"
proof (induction acc d rule: add_half_words.induct)
  case (1 acc a b d)
  let ?w = "ucast (load_u16 a b) :: u32"
  have w: "unat ?w = unat a + 256 * unat b" by (simp add: unat_ucast_up unat_load_u16)
  have add: "unat (acc + ?w) = unat acc + (unat a + 256 * unat b)"
    using "1.prems" load_u16_le [of a b] by (subst unat_add_small) (simp_all add: w)
  have "unat (acc + ?w) + 65535 * (length d div 2) < 4294967296"
    using "1.prems" load_u16_le [of a b] by (simp add: add)
  from "1.IH" [OF this] obtain acc' r where "add_half_words (acc + ?w) d = (acc', r)" "length r = length d mod 2"
    "unat acc' + half_word_sum r = unat (acc + ?w) + half_word_sum d" "unat acc' \<le> unat (acc + ?w) + 65535 * (length d div 2)"
    by blast
  then show ?case using load_u16_le [of a b] by (simp add: add)
qed auto

lemma half_word_sum_tail: "length r \<le> 1 \<Longrightarrow> half_word_sum r = unat (case r of [] \<Rightarrow> 0 | b # _ \<Rightarrow> b)"
  by (cases r) auto

text \<open>The sum before the folds, of the bytes after a first byte \<open>t1\<close> that the routine has taken off.\<close>

lemma end_bytes_ok:
  assumes "65535 * (length d div 2) + 65535 < 4294967296" and "add_half_words 0 d = (acc, r)"
  shows "unat (acc + ucast (load_u16 (case r of [] \<Rightarrow> 0 | b # _ \<Rightarrow> b) t1)) = half_word_sum d + 256 * unat t1"
proof -
  let ?t0 = "case r of [] \<Rightarrow> 0 | b # _ \<Rightarrow> b"
  have "unat (0 :: u32) + 65535 * (length d div 2) < 4294967296" using assms(1) by simp
  from add_half_words_ok [OF this] have a: "length r = length d mod 2" "unat acc + half_word_sum r = half_word_sum d"
    "unat acc \<le> 65535 * (length d div 2)" by (simp_all add: assms(2))
  have "length r \<le> 1" using a(1) by simp
  then have "unat acc + unat ?t0 = half_word_sum d" using half_word_sum_tail a(2) by metis
  moreover have "unat (ucast (load_u16 ?t0 t1) :: u32) = unat ?t0 + 256 * unat t1"
    by (simp add: unat_ucast_up unat_load_u16)
  moreover have "unat ?t0 + 256 * unat t1 \<le> 65535" by (rule load_u16_le)
  ultimately show ?thesis using a(3) assms(1) by (subst unat_add_small) simp_all
qed

lemma unat_ucast_half: "unat w \<le> 65535 \<Longrightarrow> unat (ucast w :: u16) = unat w" for w :: u32
  by (rule unat_ucast_small) simp

lemma chksum_even:
  assumes "length d \<le> 0x20000" and "dataptr AND 1 = 0"
  shows "represents (unat (lwip_standard_chksum dataptr d)) (half_word_sum d)"
proof -
  obtain acc r where h: "add_half_words 0 d = (acc, r)" by (cases "add_half_words 0 d")
  have "length d div 2 \<le> 0x10000" using assms(1) by simp
  then have "65535 * (length d div 2) + 65535 < 4294967296" by simp
  from end_bytes_ok [OF this h, of 0] have s: "unat (acc + ucast (load_u16 (case r of [] \<Rightarrow> 0 | b # _ \<Rightarrow> b) 0)) = half_word_sum d" by simp
  let ?f = "FOLD_U32T (FOLD_U32T (acc + ucast (load_u16 (case r of [] \<Rightarrow> 0 | b # _ \<Rightarrow> b) 0)))"
  have f: "represents (unat ?f) (half_word_sum d)" by (rule FOLD_twice_represents) (simp_all add: s)
  then have "unat ?f \<le> 65535" by (simp add: represents_def)
  moreover have "lwip_standard_chksum dataptr d = ucast ?f" using assms(2) h by (simp add: lwip_standard_chksum_def)
  ultimately show ?thesis using f by (simp add: unat_ucast_half)
qed

lemma chksum_odd:
  assumes "length d \<le> 0x20000" and "dataptr AND 1 \<noteq> 0"
  shows "represents (unat (lwip_standard_chksum dataptr d)) (half_word_sum d)"
proof (cases d)
  case Nil
  then show ?thesis using assms(2)
    by (simp add: lwip_standard_chksum_def load_u16_def FOLD_U32T_def SWAP_BYTES_IN_WORD_def represents_def)
next
  case (Cons t1 ds)
  obtain acc r where h: "add_half_words 0 ds = (acc, r)" by (cases "add_half_words 0 ds")
  have "length ds div 2 \<le> 0xFFFF" using assms(1) Cons by simp
  then have "65535 * (length ds div 2) + 65535 < 4294967296" by simp
  from end_bytes_ok [OF this h, of t1]
  have s: "unat (acc + ucast (load_u16 (case r of [] \<Rightarrow> 0 | b # _ \<Rightarrow> b) t1)) = half_word_sum ds + 256 * unat t1" .
  let ?f = "FOLD_U32T (FOLD_U32T (acc + ucast (load_u16 (case r of [] \<Rightarrow> 0 | b # _ \<Rightarrow> b) t1)))"
  have "represents (unat ?f) (half_word_sum ds + 256 * unat t1)" by (rule FOLD_twice_represents) (simp_all add: s)
  from SWAP_represents [OF this] have "represents (unat (SWAP_BYTES_IN_WORD ?f)) (256 * (half_word_sum ds + 256 * unat t1))" .
  moreover have "(256 * (half_word_sum ds + 256 * unat t1)) mod 65535 = half_word_sum d mod 65535"
    using swap_arith [of "unat t1" "half_word_sum ds"] half_word_sum_Cons [of t1 ds] by (simp add: Cons add.commute)
  moreover have "256 * (half_word_sum ds + 256 * unat t1) = 0 \<longleftrightarrow> half_word_sum d = 0"
    by (auto simp: Cons half_word_sum_zero unat_eq_0)
  ultimately have f: "represents (unat (SWAP_BYTES_IN_WORD ?f)) (half_word_sum d)" by (rule represents_cong)
  then have "unat (SWAP_BYTES_IN_WORD ?f) \<le> 65535" by (simp add: represents_def)
  moreover have "lwip_standard_chksum dataptr d = ucast (SWAP_BYTES_IN_WORD ?f)"
    using assms(2) h by (simp add: lwip_standard_chksum_def Cons)
  ultimately show ?thesis using f by (simp add: unat_ucast_half)
qed

lemma chksum_represents: "length d \<le> 0x20000 \<Longrightarrow> represents (unat (lwip_standard_chksum dataptr d)) (half_word_sum d)"
  using chksum_even chksum_odd by blast

text \<open>
  C17: \<^verbatim>\<open>lwip_standard_chksum\<close>, which sums aligned half-words in one 32-bit accumulator and swaps the result for an odd address,
  is the one's-complement sum of RFC 1071 of the bytes, whatever their address, for every length up to 0x20000,
  the limit its comment gives: no carry is lost.
\<close>

theorem chksum_is_rfc1071_sum:
  assumes "length d \<le> 0x20000"
  shows "unat (lwip_standard_chksum dataptr d) = ones_complement (half_word_sum d)"
  by (rule represents_unique [OF chksum_represents [OF assms]])

lemma chksum_is_rfc1071_sum_witness:
  "unat (lwip_standard_chksum 0x20000001 [0xFF, 0xFF, 0x12, 0x34, 0x01]) = 0x3413"
  using chksum_is_rfc1071_sum [of "[0xFF, 0xFF, 0x12, 0x34, 0x01]" "0x20000001"] by (simp add: ones_complement_def)

section \<open>Chains of buffers and the pseudo header\<close>

text \<open>What a chain adds to the sum, starting with swapped bytes or not.\<close>

fun chain_value :: "bool \<Rightarrow> pbuf_chain \<Rightarrow> nat" where
  "chain_value swapped [] = 0"
| "chain_value swapped ((payload, d) # q) =
     (if swapped then 256 else 1) * half_word_sum d + chain_value (swapped \<noteq> odd (length d)) q"

definition chain_data :: "pbuf_chain \<Rightarrow> u8 list" where "chain_data q = concat (map snd q)"

lemma chain_data_simps [simp]: "chain_data [] = []" "chain_data ((payload, d) # q) = d @ chain_data q"
  by (simp_all add: chain_data_def)

lemma times_256_twice: "(256 * (256 * n)) mod 65535 = n mod (65535 :: nat)"
  using swap_arith [of n 0] by simp

lemma represents_256: "represents x (256 * (256 * n)) \<Longrightarrow> represents x n"
  by (erule represents_cong [OF _ times_256_twice]) simp

lemma chain_value_mod:
  "chain_value swapped q mod 65535 = ((if swapped then 256 else 1) * half_word_sum (chain_data q)) mod 65535"
proof (induction swapped q rule: chain_value.induct)
  case (2 swapped payload d q)
  let ?w = "if swapped then 256 else 1 :: nat" and ?h = "half_word_sum (chain_data q)"
  have IH: "(?w * half_word_sum d + chain_value (swapped \<noteq> odd (length d)) q) mod 65535 =
      (?w * half_word_sum d + (if swapped \<noteq> odd (length d) then 256 else 1) * ?h) mod 65535"
    by (intro mod_add_cong refl "2.IH")
  show ?case
  proof (cases "odd (length d)")
    case True
    have "(?w * half_word_sum (d @ chain_data q)) mod 65535 = (?w * (half_word_sum d + 256 * ?h)) mod 65535"
      by (intro mod_mult_cong refl half_word_sum_append_odd True)
    also have "\<dots> = (?w * half_word_sum d + ?w * (256 * ?h)) mod 65535" by (simp only: distrib_left)
    also have "\<dots> = (?w * half_word_sum d + (if swapped \<noteq> odd (length d) then 256 else 1) * ?h) mod 65535"
      using times_256_twice [of ?h] True by (intro mod_add_cong) simp_all
    finally show ?thesis using IH by simp
  next
    case False
    then show ?thesis using IH half_word_sum_append_even [of d "chain_data q"] by (simp add: distrib_left)
  qed
qed simp

lemma chain_value_zero: "chain_value swapped q = 0 \<longleftrightarrow> half_word_sum (chain_data q) = 0"
  by (induction swapped q rule: chain_value.induct) (auto simp: half_word_sum_append_zero)

text \<open>A half-word and a sum of bytes added up and folded.\<close>

lemma FOLD_sum_represents:
  assumes "represents (unat acc) n" and "represents (unat c) m"
  shows "represents (unat (FOLD_U32T (acc + ucast (c :: u16)))) (n + m)"
proof -
  have le: "unat acc \<le> 65535" "unat c \<le> 65535" using assms by (simp_all add: represents_def)
  have u: "unat (acc + ucast c) = unat acc + unat c"
    using le by (subst unat_add_small) (simp_all add: unat_ucast_up)
  show ?thesis
  proof (rule FOLD_represents)
    show "unat (acc + ucast c) \<le> 2 * 65535" using le by (simp add: u)
    show "unat (acc + ucast c) mod 65535 = (n + m) mod 65535"
      unfolding u using assms by (intro mod_add_cong) (simp_all add: represents_def)
    show "unat (acc + ucast c) = 0 \<longleftrightarrow> n + m = 0" unfolding u using assms by (auto simp: represents_def)
  qed
qed

lemma add_pbufs_ok:
  "\<forall>(payload, d) \<in> set q. length d \<le> 0x20000 \<Longrightarrow> represents (unat acc) ((if swapped then 256 else 1) * n) \<Longrightarrow>
   represents (unat (unswapped (add_pbufs q acc swapped))) (n + chain_value swapped q)"
proof (induction q acc swapped arbitrary: n rule: add_pbufs.induct)
  case (1 acc swapped)
  show ?case
  proof (cases swapped)
    case True
    have "represents (unat acc) (256 * n)" using "1.prems"(2) True by simp
    from represents_256 [OF SWAP_represents [OF this]] have "represents (unat (SWAP_BYTES_IN_WORD acc)) n" .
    then show ?thesis using True by (simp add: unswapped_def)
  next
    case False
    then show ?thesis using "1.prems"(2) by (simp add: unswapped_def)
  qed
next
  case (2 payload d q acc swapped)
  let ?w = "if swapped then 256 else 1 :: nat"
  let ?acc = "FOLD_U32T (acc + ucast (lwip_standard_chksum payload d))"
  have "length d \<le> 0x20000" "\<forall>(payload, d) \<in> set q. length d \<le> 0x20000" using "2.prems"(1) by auto
  note IH = "2.IH" [OF refl _ this(2)] and l = this(1)
  have f: "represents (unat ?acc) (?w * n + half_word_sum d)"
    by (rule FOLD_sum_represents [OF "2.prems"(2) chksum_represents [OF l]])
  let ?m = "n + ?w * half_word_sum d"
  have "(?w * n + half_word_sum d) mod 65535 = (?w * n + ?w * (?w * half_word_sum d)) mod 65535"
    using times_256_twice [of "half_word_sum d"] by (intro mod_add_cong) (simp_all add: mult.commute)
  then have m: "represents (unat ?acc) (?w * ?m)"
    by (intro represents_cong [OF f]) (simp_all add: distrib_left)
  show ?case
  proof (cases "length d mod 2 = 0")
    case True
    then have "even (length d)" by auto
    with IH(2) [OF _ m] True show ?thesis by (simp add: add.assoc)
  next
    case False
    then have o: "odd (length d)" by presburger
    have "represents (unat (SWAP_BYTES_IN_WORD ?acc)) (256 * (?w * ?m))" by (rule SWAP_represents [OF m])
    then have "represents (unat (SWAP_BYTES_IN_WORD ?acc)) ((if \<not> swapped then 256 else 1) * ?m)"
      using represents_256 [of "unat (SWAP_BYTES_IN_WORD ?acc)" ?m] by (cases swapped) (simp_all only: if_True if_False simp_thms mult_1)
    from IH(1) [OF False this] False o show ?thesis by (simp add: add.assoc)
  qed
qed

lemma add_pbufs_data:
  assumes "\<forall>(payload, d) \<in> set q. length d \<le> 0x20000" and "represents (unat acc) n"
  shows "represents (unat (unswapped (add_pbufs q acc False))) (n + half_word_sum (chain_data q))"
proof (rule represents_cong)
  show "represents (unat (unswapped (add_pbufs q acc False))) (n + chain_value False q)"
    using add_pbufs_ok [OF assms(1), of acc False n] assms(2) by simp
  show "(n + chain_value False q) mod 65535 = (n + half_word_sum (chain_data q)) mod 65535"
    using chain_value_mod [of False q] by (intro mod_add_cong) simp_all
qed (simp add: chain_value_zero)

text \<open>The pseudo header in the order of its bytes on the wire; an address in memory is in that order already.\<close>

definition address_bytes :: "u32 \<Rightarrow> u8 list" where
  "address_bytes a = map (\<lambda>i. ucast (drop_bit (8 * i) a)) [0..<4]"

definition pseudo_header :: "u32 \<Rightarrow> u32 \<Rightarrow> u8 \<Rightarrow> u16 \<Rightarrow> u8 list" where
  "pseudo_header src dest proto proto_len =
     address_bytes src @ address_bytes dest @ [0, proto, ucast (drop_bit 8 proto_len), ucast proto_len]"

lemma unat_low_byte: "unat (ucast (drop_bit k w) :: u8) = unat w div 2 ^ k mod 256" for w :: "'a::len word"
  by (simp add: unsigned_ucast_eq take_bit_nat_def unat_drop_bit)

lemma half_word_sum_address: "half_word_sum (address_bytes a) = unat a mod 65536 + unat a div 65536"
proof -
  define x where "x = unat a"
  have x: "x < 4294967296" by (simp add: x_def)
  have l: "address_bytes a = [ucast (drop_bit 0 a), ucast (drop_bit 8 a), ucast (drop_bit 16 a), ucast (drop_bit 24 a)]"
    by (simp add: address_bytes_def upt_rec)
  have "half_word_sum (address_bytes a) = x mod 256 + 256 * (x div 256 mod 256) + (x div 65536 mod 256 + 256 * (x div 16777216 mod 256))"
    unfolding l by (simp add: unat_low_byte x_def flip: drop_bit_0)
  moreover have "x mod 256 + 256 * (x div 256 mod 256) = x mod 65536"
    using mod_mult2_eq [of x 256 256] by simp
  moreover have "x div 65536 mod 256 + 256 * (x div 16777216 mod 256) = x div 65536"
  proof -
    have "x div 16777216 < 256" using x by (simp add: less_mult_imp_div_less)
    moreover have "x div 16777216 = x div 65536 div 256" using div_mult2_eq [of x 65536 256] by simp
    ultimately show ?thesis by simp
  qed
  ultimately show ?thesis by (simp add: x_def)
qed

lemma add_addresses_ok:
  "represents (unat (add_addresses src dest)) (half_word_sum (address_bytes src) + half_word_sum (address_bytes dest))"
proof -
  have part: "unat (a AND 0xFFFF) = unat a mod 65536" "unat (drop_bit 16 a AND 0xFFFF) = unat a div 65536" for a :: u32
  proof -
    have "unat a div 65536 < 65536" by (simp add: less_mult_imp_div_less)
    then show "unat (drop_bit 16 a AND 0xFFFF) = unat a div 65536" by (simp only: unat_and_low unat_drop_bit) simp
  qed (rule unat_and_low)
  have le: "unat (a AND 0xFFFF) \<le> 65535" for a :: u32 using unat_and_low [of a] by (simp add: less_Suc_eq_le [symmetric])
  have add: "unat (x + y) = unat x + unat y" if "unat x \<le> 200000" "unat y \<le> 65535" for x y :: u32
    using that by (subst unat_add_small) simp_all
  have s: "unat ((src AND 0xFFFF) + (drop_bit 16 src AND 0xFFFF) + (dest AND 0xFFFF) + (drop_bit 16 dest AND 0xFFFF)) =
     half_word_sum (address_bytes src) + half_word_sum (address_bytes dest)"
    using le [of src] le [of "drop_bit 16 src"] le [of dest] le [of "drop_bit 16 dest"]
    by (simp add: add half_word_sum_address part [symmetric])
  show ?thesis unfolding add_addresses_def Let_def by (rule FOLD_twice_represents) (simp_all only: s)
qed

lemma unat_htons: "unat (lwip_htons n) = unat n mod 256 * 256 + unat n div 256"
proof -
  have and8: "x AND 0xFF = take_bit 8 x" for x :: u16 by (simp only: take_bit_eq_mask) (simp add: mask_eq_exp_minus_1)
  have lo: "unat (n AND 0x00FF) = unat n mod 256" by (simp only: and8 unsigned_take_bit_eq take_bit_nat_def) simp
  have q: "unat n div 256 < 256" by (simp add: less_mult_imp_div_less)
  have e: "drop_bit 8 (n AND 0xFF00) = drop_bit 8 n AND 0xFF" by simp
  have "unat (take_bit 8 (drop_bit 8 n)) = unat (drop_bit 8 n)"
    using q by (simp only: unsigned_take_bit_eq take_bit_nat_def unat_drop_bit) simp
  then have hi: "drop_bit 8 (n AND 0xFF00) = drop_bit 8 n" unfolding e and8 by (simp add: word_unat_eq_iff)
  have "unat (push_bit 8 (n AND 0x00FF) OR drop_bit 8 n) = unat (n AND 0x00FF) * 2 ^ 8 + unat (drop_bit 8 n)"
  proof (rule unat_or_push)
    show "unat (drop_bit 8 n) < 2 ^ 8" using q by (simp add: unat_drop_bit)
    have "unat n mod 256 < 256" by simp
    then show "unat (n AND 0x00FF) * 2 ^ 8 < 2 ^ LENGTH(16)" unfolding lo by simp
  qed
  then show ?thesis unfolding lwip_htons_def hi using lo by (simp add: unat_drop_bit)
qed

lemma half_word_sum_proto_len:
  "half_word_sum [0, proto, ucast (drop_bit 8 proto_len), ucast proto_len] = unat (lwip_htons (ucast proto)) + unat (lwip_htons proto_len)"
  for proto_len :: u16
proof -
  have "unat (ucast proto :: u16) = unat proto" by (rule unat_ucast_up) simp
  moreover have "unat proto_len div 256 < 256" by (simp add: less_mult_imp_div_less)
  moreover have "unat (ucast proto_len :: u8) = unat proto_len mod 256" by (simp add: unsigned_ucast_eq take_bit_nat_def)
  ultimately show ?thesis by (simp add: unat_htons unat_low_byte)
qed

lemma half_word_sum_pseudo_header:
  "half_word_sum (pseudo_header src dest proto proto_len) =
     half_word_sum (address_bytes src) + half_word_sum (address_bytes dest) +
     (unat (lwip_htons (ucast proto)) + unat (lwip_htons proto_len))"
proof -
  have e: "even (length (address_bytes a))" for a by (simp add: address_bytes_def)
  show ?thesis
    unfolding pseudo_header_def half_word_sum_append_even [OF e] half_word_sum_proto_len by (simp add: add.assoc)
qed

lemma add_proto_len_ok:
  assumes "represents (unat acc) n"
  shows "represents (unat (NOT (add_proto_len acc proto proto_len))) (n + (unat (lwip_htons (ucast proto)) + unat (lwip_htons proto_len)))"
proof -
  let ?p = "lwip_htons (ucast proto)" and ?l = "lwip_htons proto_len"
  let ?acc = "acc + ucast ?p + ucast ?l"
  have acc: "unat acc \<le> 65535" using assms by (simp add: represents_def)
  have half: "unat x \<le> 65535" for x :: u16 using unat_u16_less [of x] by linarith
  have "unat (acc + ucast ?p) = unat acc + unat ?p"
    using acc half [of ?p] by (subst unat_add_small) (simp_all add: unat_ucast_up)
  then have s: "unat ?acc = unat acc + (unat ?p + unat ?l)"
    using acc half [of ?p] half [of ?l] by (subst unat_add_small) (simp_all add: unat_ucast_up)
  let ?f = "FOLD_U32T (FOLD_U32T ?acc)"
  have f: "represents (unat ?f) (n + (unat ?p + unat ?l))"
  proof (rule FOLD_twice_represents)
    show "unat ?acc mod 65535 = (n + (unat ?p + unat ?l)) mod 65535"
      unfolding s using assms by (intro mod_add_cong refl) (simp add: represents_def)
    show "unat ?acc = 0 \<longleftrightarrow> n + (unat ?p + unat ?l) = 0" unfolding s using assms by (simp add: represents_def)
  qed
  then have le: "unat ?f \<le> 65535" by (simp add: represents_def)
  then have "unat (?f AND 0xFFFF) = unat ?f" by (simp add: unat_and_low)
  then have "unat (ucast (?f AND 0xFFFF) :: u16) = unat ?f" using le by (simp add: unat_ucast_half)
  then show ?thesis using f by (simp add: add_proto_len_def Let_def)
qed

lemma half_words_equal: "represents (unat x) n \<Longrightarrow> represents (unat y) n \<Longrightarrow> x = y" for x y :: u16
  using represents_unique [of "unat x" n] represents_unique [of "unat y" n] by (simp add: word_unat_eq_iff)

lemma chain_checksums:
  assumes "length (pseudo_header src dest proto proto_len @ chain_data p) \<le> 0x20000"
  shows "inet_chksum_pbuf p = NOT (lwip_standard_chksum a (chain_data p))"
    and "inet_chksum_pseudo p proto proto_len src dest =
      NOT (lwip_standard_chksum a (pseudo_header src dest proto proto_len @ chain_data p))"
proof -
  have each: "\<forall>(payload, d) \<in> set p. length d \<le> 0x20000"
  proof clarify
    fix payload d assume "(payload, d) \<in> set p"
    then have "length d \<le> length (chain_data p)" by (induction p) (auto simp: chain_data_def)
    with assms show "length d \<le> 0x20000" by simp
  qed
  let ?d = "chain_data p" and ?h = "pseudo_header src dest proto proto_len"
  let ?u = "unswapped (add_pbufs p 0 False)"
  have u: "represents (unat ?u) (half_word_sum ?d)"
    using add_pbufs_data [OF each, of 0 0] by (simp add: represents_def)
  then have "unat ?u \<le> 65535" by (simp add: represents_def)
  then have "unat (ucast (?u AND 0xFFFF) :: u16) = unat ?u"
    using unat_ucast_half [of "?u AND 0xFFFF"] by (simp add: unat_and_low)
  with u have "represents (unat (NOT (inet_chksum_pbuf p))) (half_word_sum ?d)" by (simp add: inet_chksum_pbuf_def)
  moreover have "represents (unat (lwip_standard_chksum a ?d)) (half_word_sum ?d)" using assms by (intro chksum_represents) simp
  ultimately have "NOT (inet_chksum_pbuf p) = lwip_standard_chksum a ?d" by (rule half_words_equal)
  then show "inet_chksum_pbuf p = NOT (lwip_standard_chksum a ?d)" by (metis bit.double_compl)
  have "represents (unat (NOT (inet_chksum_pseudo p proto proto_len src dest)))
      (half_word_sum (address_bytes src) + half_word_sum (address_bytes dest) + half_word_sum ?d +
       (unat (lwip_htons (ucast proto)) + unat (lwip_htons proto_len)))"
    unfolding inet_chksum_pseudo_def inet_cksum_pseudo_base_def
    by (intro add_proto_len_ok add_pbufs_data [OF each] add_addresses_ok)
  moreover have "even (length ?h)" by (simp add: pseudo_header_def address_bytes_def)
  ultimately have "represents (unat (NOT (inet_chksum_pseudo p proto proto_len src dest))) (half_word_sum (?h @ ?d))"
    by (simp add: half_word_sum_append_even half_word_sum_pseudo_header ac_simps)
  moreover have "represents (unat (lwip_standard_chksum a (?h @ ?d))) (half_word_sum (?h @ ?d))"
    using assms by (intro chksum_represents)
  ultimately have "NOT (inet_chksum_pseudo p proto proto_len src dest) = lwip_standard_chksum a (?h @ ?d)" by (rule half_words_equal)
  then show "inet_chksum_pseudo p proto proto_len src dest = NOT (lwip_standard_chksum a (?h @ ?d))" by (metis bit.double_compl)
qed

lemma inet_chksum_flat: "length d < 65536 \<Longrightarrow> inet_chksum a d (of_nat (length d)) = NOT (lwip_standard_chksum a d)"
  by (simp add: inet_chksum_def unat_of_nat)

text \<open>
  C18: The checksum of a chain of buffers does not depend on how the data are split, at odd offsets or at odd addresses or
  not: \<^verbatim>\<open>inet_chksum_pbuf\<close> is the complement of the sum of the data in one piece, thus what \<^verbatim>\<open>inet_chksum\<close> gives for
  them as far as its 16-bit length goes, and \<^verbatim>\<open>inet_chksum_pseudo\<close> that of the pseudo header
  of UDP and TCP, as it stands in the protocol, followed by the data.
\<close>

theorem chain_checksum_of_data:
  assumes "length (pseudo_header src dest proto proto_len @ chain_data p) \<le> 0x20000"
  shows "inet_chksum_pbuf p = NOT (lwip_standard_chksum a (chain_data p)) \<and>
    (length (chain_data p) < 65536 \<longrightarrow> inet_chksum_pbuf p = inet_chksum a (chain_data p) (of_nat (length (chain_data p)))) \<and>
    inet_chksum_pseudo p proto proto_len src dest =
      NOT (lwip_standard_chksum a (pseudo_header src dest proto proto_len @ chain_data p))"
  using chain_checksums [OF assms, of a] inet_chksum_flat [of "chain_data p" a] by simp

lemma chain_checksum_of_data_witness:
  "inet_chksum_pseudo [(0x20000000, [1, 2, 3]), (0x20000103, [4])] 17 4 0x0100A8C0 0x0200A8C0 =
     NOT (lwip_standard_chksum 0 (pseudo_header 0x0100A8C0 0x0200A8C0 17 4 @ [1, 2, 3, 4])) \<and>
   inet_chksum_pbuf [(0x20000000, [1, 2, 3]), (0x20000103, [4])] = inet_chksum 0 [1, 2, 3, 4] 4"
proof -
  have d: "chain_data [(0x20000000, [1, 2, 3]), (0x20000103, [4])] = [1, 2, 3, 4]" by simp
  have l: "length (pseudo_header 0x0100A8C0 0x0200A8C0 17 4 @ chain_data [(0x20000000, [1, 2, 3]), (0x20000103, [4])]) \<le> 0x20000"
    by (simp add: pseudo_header_def address_bytes_def)
  show ?thesis using chain_checksum_of_data [OF l, of 0] unfolding d by auto
qed

section \<open>What the checksum protects\<close>

lemma chksum_valid: "represents (unat x) n \<Longrightarrow> NOT x = 0 \<longleftrightarrow> n \<noteq> 0 \<and> n mod 65535 = 0" for x :: u16
proof -
  assume r: "represents (unat x) n"
  have "(0xFFFF :: u16) = NOT 0" by simp
  then have "NOT x = 0 \<longleftrightarrow> x = 0xFFFF" by (metis bit.double_compl)
  also have "\<dots> \<longleftrightarrow> unat x = 65535" by (simp add: word_unat_eq_iff)
  also have "\<dots> \<longleftrightarrow> n \<noteq> 0 \<and> n mod 65535 = 0" using represents_unique [OF r] by (auto simp: ones_complement_def)
  finally show ?thesis .
qed

text \<open>One byte more or less counts 1 or 256.\<close>

lemma half_word_sum_update:
  "i < length d \<Longrightarrow> half_word_sum (d[i := v]) + (if even i then 1 else 256) * unat (d ! i) = half_word_sum d + (if even i then 1 else 256) * unat v"
proof (induction d arbitrary: i rule: half_word_sum.induct)
  case (3 a b d)
  show ?case
  proof (cases "i < 2")
    case True
    then consider "i = 0" | "i = 1" by linarith
    then show ?thesis by cases simp_all
  next
    case False
    then obtain j where j: "i = Suc (Suc j)" by (metis One_nat_def less_2_cases_iff nat.exhaust)
    then show ?thesis using "3.IH" [of j] "3.prems" by simp
  qed
qed simp_all

lemma mod_add_cancel:
  assumes "(x + a) mod n = (x + b) mod (n :: nat)"
  shows "a mod n = b mod n"
proof -
  from assms obtain q1 q2 where "x + a + n * q1 = x + b + n * q2" unfolding nat_mod_eq_iff by blast
  then have "a + n * q1 = b + n * q2" by linarith
  then show ?thesis unfolding nat_mod_eq_iff by blast
qed

lemma same_byte:
  assumes "(h + w * unat v) mod 65535 = (h + w * unat u) mod 65535" and "w = 1 \<or> w = 256"
  shows "v = (u :: u8)"
proof -
  have "unat x \<le> 255" for x :: u8 using unat_u8_less [of x] by linarith
  then have l: "w * unat x < 65535" for x :: u8 using assms(2) by (auto intro: le_less_trans [of _ 255] le_less_trans [of _ "256 * 255"])
  have "(w * unat v) mod 65535 = (w * unat u) mod 65535" using assms(1) by (rule mod_add_cancel)
  then have "w * unat v = w * unat u" using l by simp
  then show ?thesis using assms(2) by (auto simp: word_unat_eq_iff)
qed

lemma pseudo_valid:
  assumes "length (pseudo_header src dest proto proto_len @ chain_data q) \<le> 0x20000"
  shows "inet_chksum_pseudo q proto proto_len src dest = 0 \<longleftrightarrow>
    half_word_sum (pseudo_header src dest proto proto_len @ chain_data q) \<noteq> 0 \<and>
    half_word_sum (pseudo_header src dest proto proto_len @ chain_data q) mod 65535 = 0"
  unfolding chain_checksums(2) [OF assms, of 0] by (rule chksum_valid [OF chksum_represents [OF assms]])

lemma unat_NOT: "unat (NOT x) = 65535 - unat x" for x :: u16
proof -
  have "NOT x = 0xFFFF - x" by (simp add: not_eq_complement)
  moreover have "unat x \<le> 65535" using unat_u16_less [of x] by linarith
  then have "x \<le> 0xFFFF" by (simp add: word_le_nat_alt)
  ultimately show ?thesis by (simp add: unat_sub)
qed

text \<open>With the complement of the sum in the place of two zero bytes the sum is a multiple of 65535, not 0.\<close>

lemma filled_in_sum:
  fixes c :: u16
  assumes "even (length xs)" and "represents (unat (NOT c)) (half_word_sum (xs @ [0, 0] @ ys))"
  shows "half_word_sum (xs @ [ucast c, ucast (drop_bit 8 c)] @ ys) \<noteq> 0"
    and "half_word_sum (xs @ [ucast c, ucast (drop_bit 8 c)] @ ys) mod 65535 = 0"
proof -
  let ?h = "half_word_sum (xs @ [0, 0] @ ys)" and ?s = "half_word_sum (xs @ [ucast c, ucast (drop_bit 8 c)] @ ys)"
  have low: "unat (ucast x :: u8) = unat x mod 256" for x :: u16 by (simp add: unsigned_ucast_eq take_bit_nat_def)
  have le: "unat c \<le> 65535" using unat_u16_less [of c] by linarith
  have "unat c div 256 < 256" using unat_u16_less [of c] by (simp add: less_mult_imp_div_less)
  then have "?s = ?h + unat c"
    using half_word_sum_append_even [OF assms(1)] by (simp add: low unat_drop_bit)
  then have s: "?s + unat (NOT c) = ?h + 65535" using le by (simp add: unat_NOT)
  have "(unat (NOT c) + ?s) mod 65535 = (unat (NOT c) + 0) mod 65535"
    using s assms(2) by (simp add: represents_def add.commute)
  then have "?s mod 65535 = 0 mod 65535" by (rule mod_add_cancel)
  then show "?s mod 65535 = 0" by simp
  show "?s \<noteq> 0" using s assms(2) by (auto simp: represents_def)
qed

lemma byte_change_detected:
  assumes "half_word_sum d mod 65535 = 0" and "i < length d" and "v \<noteq> d ! i"
  shows "half_word_sum (d[i := v]) mod 65535 \<noteq> 0"
proof
  let ?w = "if even i then 1 else 256 :: nat"
  assume "half_word_sum (d[i := v]) mod 65535 = 0"
  then have "(half_word_sum (d[i := v]) + ?w * unat (d ! i)) mod 65535 = (0 + ?w * unat (d ! i)) mod 65535"
    by (intro mod_add_cong) simp_all
  moreover have "(half_word_sum d + ?w * unat v) mod 65535 = (0 + ?w * unat v) mod 65535"
    using assms(1) by (intro mod_add_cong) simp_all
  ultimately have "(0 + ?w * unat v) mod 65535 = (0 + ?w * unat (d ! i)) mod 65535"
    using half_word_sum_update [OF assms(2), of v] by simp
  then have "v = d ! i" by (rule same_byte) simp
  with assms(3) show False ..
qed

text \<open>A change of an aligned half-word is detected unless it turns \<open>0x0000\<close> into \<open>0xFFFF\<close> or back, the two zeros of the
  ones complement.\<close>

lemma half_word_change_detected:
  assumes "half_word_sum d mod 65535 = 0" and "even i" and "Suc i < length d"
    and "load_u16 v w \<noteq> load_u16 (d ! i) (d ! Suc i)" and "{load_u16 v w, load_u16 (d ! i) (d ! Suc i)} \<noteq> {0, 0xFFFF}"
  shows "half_word_sum (d[i := v, Suc i := w]) mod 65535 \<noteq> 0"
proof
  let ?new = "unat (load_u16 v w)" and ?was = "unat (load_u16 (d ! i) (d ! Suc i))"
  assume z: "half_word_sum (d[i := v, Suc i := w]) mod 65535 = 0"
  have "half_word_sum (d[i := v, Suc i := w]) + ?was = half_word_sum d + ?new"
    using half_word_sum_update [of i d v] half_word_sum_update [of "Suc i" "d[i := v]" w] assms(2,3)
    by (simp add: unat_load_u16)
  moreover have "(half_word_sum (d[i := v, Suc i := w]) + ?was) mod 65535 = (0 + ?was) mod 65535"
    using z by (intro mod_add_cong) simp_all
  moreover have "(half_word_sum d + ?new) mod 65535 = (0 + ?new) mod 65535"
    using assms(1) by (intro mod_add_cong) simp_all
  ultimately have m: "?was mod 65535 = ?new mod 65535" by simp
  have le: "?was \<le> 65535" "?new \<le> 65535" unfolding unat_load_u16 by (rule load_u16_le)+
  have "?was \<noteq> ?new" using assms(4) by (simp add: word_unat_eq_iff)
  then have "?was = 0 \<and> ?new = 65535 \<or> ?was = 65535 \<and> ?new = 0"
    using m le by (cases "?was = 65535"; cases "?new = 65535") simp_all
  then have "{load_u16 v w, load_u16 (d ! i) (d ! Suc i)} = {0, 0xFFFF}" by (auto simp: word_unat_eq_iff)
  with assms(5) show False ..
qed

text \<open>
  C19: A UDP or TCP segment with the checksum of \<^verbatim>\<open>inet_chksum_pseudo\<close> over its pseudo header and its data with a zero
  checksum field, stored in that field in memory order, makes the check of the receiver come out as 0, however the
  receiver's buffers cut it; and it does not after a change of any one byte, nor after a change of any one aligned
  half-word other than between \<open>0x0000\<close> and \<open>0xFFFF\<close>, of the data or of the checksum.
\<close>

theorem checksum_verifies_and_detects:
  assumes "even (length xs)" and "length (pseudo_header src dest proto proto_len @ xs @ [0, 0] @ ys) \<le> 0x20000"
    and "chain_data p = xs @ [0, 0] @ ys" and "c = inet_chksum_pseudo p proto proto_len src dest"
    and "stored = xs @ [ucast c, ucast (drop_bit 8 c)] @ ys"
  shows "(chain_data q = stored \<longrightarrow> inet_chksum_pseudo q proto proto_len src dest = 0) \<and>
    (i < length stored \<and> v \<noteq> stored ! i \<and> chain_data q = stored[i := v] \<longrightarrow>
      inet_chksum_pseudo q proto proto_len src dest \<noteq> 0) \<and>
    (even i \<and> Suc i < length stored \<and> load_u16 v w \<noteq> load_u16 (stored ! i) (stored ! Suc i) \<and>
       {load_u16 v w, load_u16 (stored ! i) (stored ! Suc i)} \<noteq> {0, 0xFFFF} \<and> chain_data q = stored[i := v, Suc i := w] \<longrightarrow>
      inet_chksum_pseudo q proto proto_len src dest \<noteq> 0)"
proof -
  let ?h = "pseudo_header src dest proto proto_len"
  have ev: "even (length ?h)" by (simp add: pseudo_header_def address_bytes_def)
  have "NOT c = lwip_standard_chksum 0 (?h @ xs @ [0, 0] @ ys)"
    using chain_checksums(2) [of src dest proto proto_len p 0] assms(2-4) by simp
  then have "represents (unat (NOT c)) (half_word_sum ((?h @ xs) @ [0, 0] @ ys))"
    using chksum_represents [OF assms(2), of 0] by simp
  then have s: "half_word_sum (?h @ stored) \<noteq> 0" "half_word_sum (?h @ stored) mod 65535 = 0"
    using filled_in_sum [of "?h @ xs" c ys] ev assms(1,5) by simp_all
  have len: "length (?h @ stored) \<le> 0x20000" using assms(2,5) by simp
  have at: "?h @ stored[i := v] = (?h @ stored)[length ?h + i := v]" for i v stored by (simp add: list_update_append)
  have nth: "(?h @ stored) ! (length ?h + i) = stored ! i" for i by simp
  have 1: "inet_chksum_pseudo q proto proto_len src dest = 0" if "chain_data q = stored"
    using pseudo_valid [of src dest proto proto_len q] s len that by simp
  have 2: "inet_chksum_pseudo q proto proto_len src dest \<noteq> 0"
    if "i < length stored" "v \<noteq> stored ! i" "chain_data q = stored[i := v]"
    using pseudo_valid [of src dest proto proto_len q] byte_change_detected [OF s(2), of "length ?h + i" v] len that nth
    by (simp add: at)
  have 3: "inet_chksum_pseudo q proto proto_len src dest \<noteq> 0"
    if "even i" "Suc i < length stored" "load_u16 v w \<noteq> load_u16 (stored ! i) (stored ! Suc i)"
      "{load_u16 v w, load_u16 (stored ! i) (stored ! Suc i)} \<noteq> {0, 0xFFFF}" "chain_data q = stored[i := v, Suc i := w]"
    using pseudo_valid [of src dest proto proto_len q]
      half_word_change_detected [OF s(2), of "length ?h + i" v w] len that nth [of i] nth [of "Suc i"] ev
    by (simp add: at)
  from 1 2 3 show ?thesis by blast
qed

lemma checksum_verifies_and_detects_witness:
  "let c = inet_chksum_pseudo [(0x20000000, [0x45, 0, 0]), (0x20000103, [0, 7])] 17 5 0x0100A8C0 0x0200A8C0 in
     inet_chksum_pseudo [(0x20000200, [0x45, 0, ucast c, ucast (drop_bit 8 c), 7])] 17 5 0x0100A8C0 0x0200A8C0 = 0"
proof -
  define c where "c = inet_chksum_pseudo [(0x20000000, [0x45, 0, 0]), (0x20000103, [0, 7])] 17 5 0x0100A8C0 0x0200A8C0"
  have "even (length [0x45, 0 :: u8])" "length (pseudo_header 0x0100A8C0 0x0200A8C0 17 5 @ [0x45, 0] @ [0, 0] @ [7 :: u8]) \<le> 0x20000"
    "chain_data [(0x20000000, [0x45, 0, 0]), (0x20000103, [0, 7])] = [0x45, 0] @ [0, 0] @ [7]"
    by (simp_all add: pseudo_header_def address_bytes_def)
  from checksum_verifies_and_detects [OF this c_def refl, of "[(0x20000200, [0x45, 0, ucast c, ucast (drop_bit 8 c), 7])]" 0 0 0]
  show ?thesis by (simp add: c_def)
qed

section \<open>The first bytes of a chain\<close>

text \<open>The chain cut off after \<open>n\<close> bytes.\<close>

fun cut_chain :: "nat \<Rightarrow> pbuf_chain \<Rightarrow> pbuf_chain" where
  "cut_chain n [] = []"
| "cut_chain n ((payload, d) # q) = (if n > 0 then (payload, take n d) # cut_chain (n - length d) q else [])"

lemma chain_data_cut: "chain_data (cut_chain n q) = take n (chain_data q)"
  by (induction n q rule: cut_chain.induct) auto

lemma cut_chain_0 [simp]: "cut_chain 0 q = []"
  by (cases q) auto

lemma unswapped_swap: "unat acc \<le> 65535 \<Longrightarrow> unswapped (SWAP_BYTES_IN_WORD acc, \<not> swapped) = unswapped (acc, swapped)"
  by (cases swapped) (simp_all add: unswapped_def SWAP_twice)

lemma add_pbufs_partial_0: "add_pbufs_partial q 0 acc swapped = Some (acc, swapped)"
  by (cases q) auto

lemma fold_sum_le: "unat acc \<le> 65535 \<Longrightarrow> unat (FOLD_U32T (acc + ucast (c :: u16))) \<le> 65535"
proof -
  assume "unat acc \<le> 65535"
  moreover have "unat c \<le> 65535" using unat_u16_less [of c] by linarith
  ultimately have "unat (acc + ucast c) \<le> 2 * 65535" by (subst unat_add_small) (simp_all add: unat_ucast_up)
  then show ?thesis by (rule FOLD_once)
qed

lemma SWAP_le: "unat w \<le> 65535 \<Longrightarrow> unat (SWAP_BYTES_IN_WORD w) \<le> 65535"
  using SWAP_represents [of w "unat w"] by (simp add: represents_def)

lemma add_pbufs_partial_cut:
  "add_pbufs_partial q n acc swapped = Some r \<Longrightarrow> unat acc \<le> 65535 \<Longrightarrow>
   unswapped r = unswapped (add_pbufs (cut_chain (unat n) q) acc swapped)"
proof (induction q n acc swapped arbitrary: r rule: add_pbufs_partial.induct)
  case (2 payload d q n acc swapped)
  show ?case
  proof (cases "n > 0")
    case pos: True
    then have n: "0 < unat n" by (simp add: word_less_nat_alt)
    let ?acc = "FOLD_U32T (acc + ucast (lwip_standard_chksum payload (take (unat n) d)))"
    have le: "unat ?acc \<le> 65535" by (rule fold_sum_le [OF "2.prems"(2)])
    note sl = SWAP_le [OF le]
    show ?thesis
    proof (cases "length d > unat n")
      case True
      have z: "n - of_nat (unat n) = 0" by simp
      have "unswapped r = unswapped (?acc, swapped)"
        using "2.prems"(1) pos True unswapped_swap [OF le, of swapped]
        by (simp add: Let_def z add_pbufs_partial_0 split: if_splits)
      then show ?thesis
        using True n unswapped_swap [OF le, of swapped] by (auto simp: Let_def min_def)
    next
      case False
      then have t: "take (unat n) d = d" by simp
      have m: "unat (n - of_nat (length d)) = unat n - length d"
      proof -
        have "length d < 2 ^ LENGTH(16)" by (rule le_less_trans [of _ "unat n"]) (use False in simp_all)
        then have "unat (of_nat (length d) :: u16) = length d" by (rule unat_of_nat_small)
        then show ?thesis using False by (simp add: unat_sub word_le_nat_alt)
      qed
      show ?thesis
        using "2.prems"(1) pos False t n le sl "2.IH"(1) [OF pos refl refl refl] "2.IH"(2) [OF pos refl refl refl]
        by (auto simp: Let_def m split: if_splits)
    qed
  next
    case False
    then have "n = 0" by (simp add: word_greater_zero_iff)
    then show ?thesis using "2.prems" by simp
  qed
qed simp

lemma add_pbufs_partial_returns: "n < 0x7FFF \<Longrightarrow> add_pbufs_partial q n acc swapped \<noteq> None"
proof (induction q n acc swapped rule: add_pbufs_partial.induct)
  case (2 payload d q n acc swapped)
  let ?c = "if length d > unat n then unat n else length d"
  have le: "?c \<le> unat n" by simp
  moreover have "unat (of_nat ?c :: u16) = ?c" by (intro unat_of_nat_small le_less_trans [OF le]) (rule unsigned_less)
  ultimately have "of_nat ?c \<le> n" unfolding word_le_nat_alt by (rule ord_eq_le_trans [rotated])
  then have "n - of_nat ?c \<le> n" by (rule word_sub_le)
  then have lt: "n - of_nat ?c < 0x7FFF" using "2.prems" by (rule le_less_trans)
  show ?case
  proof (cases "0 < n")
    case True
    note step = add_pbufs_partial.simps(2) Let_def if_P [OF True] if_P [OF lt]
    show ?thesis
    proof (cases "length d mod 2 \<noteq> 0")
      case o: True
      show ?thesis unfolding step if_P [OF o] by (rule "2.IH"(1) [OF True refl refl refl lt refl o lt])
    next
      case e: False
      show ?thesis unfolding step if_not_P [OF e] by (rule "2.IH"(2) [OF True refl refl refl lt refl e lt])
    qed
  next
    case False
    then show ?thesis by simp
  qed
qed simp

text \<open>
  The checksum of the first \<open>chksum_len\<close> bytes of a chain is that of the pseudo header and these bytes; the assertion in the loop
  cannot fail for less than 0x7FFF bytes.
\<close>

lemma partial_checksum_of_data:
  assumes "length (pseudo_header src dest proto proto_len @ take (unat n) (chain_data p)) \<le> 0x20000" and "n < 0x7FFF"
  shows "inet_chksum_pseudo_partial p proto proto_len n src dest =
     Some (NOT (lwip_standard_chksum a (pseudo_header src dest proto proto_len @ take (unat n) (chain_data p))))"
proof -
  obtain r where r: "add_pbufs_partial p n (add_addresses src dest) False = Some r"
    using add_pbufs_partial_returns [OF assms(2)] by blast
  have "unat (add_addresses src dest) \<le> 65535" using add_addresses_ok [of src dest] by (simp add: represents_def)
  from add_pbufs_partial_cut [OF r this]
  have "inet_chksum_pseudo_partial p proto proto_len n src dest = Some (inet_chksum_pseudo (cut_chain (unat n) p) proto proto_len src dest)"
    by (simp add: inet_chksum_pseudo_partial_def inet_cksum_pseudo_partial_base_def inet_chksum_pseudo_def inet_cksum_pseudo_base_def r)
  also have "inet_chksum_pseudo (cut_chain (unat n) p) proto proto_len src dest =
      NOT (lwip_standard_chksum a (pseudo_header src dest proto proto_len @ take (unat n) (chain_data p)))"
    using chain_checksums(2) [of src dest proto proto_len "cut_chain (unat n) p" a] assms(1) by (simp add: chain_data_cut)
  finally show ?thesis .
qed

end
