(* ===== verification/Ip4Addr.thy ===== *)
theory Ip4Addr
  imports InetChecksum C_String
begin

text \<open>
  IPv4 addresses of the network stack, \<^verbatim>\<open>lwip/src/core/ipv4/ip4_addr.c\<close>: reading and writing dotted decimal, broadcast
  addresses and net masks. An address is the word in network order that the stack keeps. A string argument is the list of its characters before
  the NUL that ends it.
\<close>

section \<open>Reading an address\<close>

definition lwip_isdigit :: "char \<Rightarrow> bool" where
  "lwip_isdigit c \<longleftrightarrow> 48 \<le> (of_char c :: nat) \<and> (of_char c :: nat) \<le> 57"

definition lwip_islower :: "char \<Rightarrow> bool" where
  "lwip_islower c \<longleftrightarrow> 97 \<le> (of_char c :: nat) \<and> (of_char c :: nat) \<le> 122"

definition lwip_isxdigit :: "char \<Rightarrow> bool" where
  "lwip_isxdigit c \<longleftrightarrow> lwip_isdigit c \<or> (97 \<le> (of_char c :: nat) \<and> (of_char c :: nat) \<le> 102) \<or>
     (65 \<le> (of_char c :: nat) \<and> (of_char c :: nat) \<le> 70)"

definition lwip_isspace :: "char \<Rightarrow> bool" where
  "lwip_isspace c \<longleftrightarrow> (of_char c :: nat) \<in> {32, 12, 10, 13, 9, 11}"

text \<open>The digits of one number, in base 8, 10 or 16: the value, with the wrap-around of the word, and the rest.\<close>

fun scan_digits :: "u32 \<Rightarrow> u32 \<Rightarrow> string \<Rightarrow> u32 \<times> string" where
  "scan_digits base val [] = (val, [])"
| "scan_digits base val (c # s) =
     (if lwip_isdigit c then
        if base = 8 \<and> of_char c - 48 \<ge> (8 :: nat) then (val, c # s)
        else scan_digits base (val * base + of_nat (of_char c - 48)) s
      else if base = 16 \<and> lwip_isxdigit c then
        scan_digits base (push_bit 4 val OR of_nat (of_char c + 10 - (if lwip_islower c then 97 else 65))) s
      else (val, c # s))"

definition scan_number :: "string \<Rightarrow> (u32 \<times> string) option" where
  "scan_number s = (case s of
     [] \<Rightarrow> None
   | c # r \<Rightarrow>
       if \<not> lwip_isdigit c then None
       else if c = CHR ''0'' then
         (case r of
            [] \<Rightarrow> Some (scan_digits 8 0 r)
          | x # r' \<Rightarrow> if x = CHR ''x'' \<or> x = CHR ''X'' then Some (scan_digits 16 0 r') else Some (scan_digits 8 0 r))
       else Some (scan_digits 10 0 s))"

text \<open>Up to three parts followed by a dot, then the last number.\<close>

fun scan_parts :: "nat \<Rightarrow> u32 list \<Rightarrow> string \<Rightarrow> (u32 list \<times> u32 \<times> string) option" where
  "scan_parts dots parts s = (case scan_number s of
     None \<Rightarrow> None
   | Some (val, r) \<Rightarrow>
       (case r of
          [] \<Rightarrow> Some (parts, val, r)
        | c # r' \<Rightarrow>
            if c = CHR ''.'' then (case dots of 0 \<Rightarrow> None | Suc n \<Rightarrow> scan_parts n (parts @ [val]) r')
            else Some (parts, val, r)))"

declare scan_parts.simps [simp del]

definition combine_parts :: "u32 list \<Rightarrow> u32 \<Rightarrow> u32 option" where
  "combine_parts parts val =
     (if length parts + 1 = 1 then Some val
      else if length parts + 1 = 2 then
        if val > 0xFFFFFF then None else if parts ! 0 > 0xFF then None
        else Some (val OR push_bit 24 (parts ! 0))
      else if length parts + 1 = 3 then
        if val > 0xFFFF then None else if parts ! 0 > 0xFF \<or> parts ! 1 > 0xFF then None
        else Some (val OR (push_bit 24 (parts ! 0) OR push_bit 16 (parts ! 1)))
      else
        if val > 0xFF then None else if parts ! 0 > 0xFF \<or> parts ! 1 > 0xFF \<or> parts ! 2 > 0xFF then None
        else Some (val OR (push_bit 24 (parts ! 0) OR push_bit 16 (parts ! 1) OR push_bit 8 (parts ! 2))))"

definition ip4addr_aton :: "string \<Rightarrow> u32 option" where
  "ip4addr_aton cp = (case scan_parts 3 [] cp of
     None \<Rightarrow> None
   | Some (parts, val, r) \<Rightarrow>
       if r \<noteq> [] \<and> \<not> lwip_isspace (hd r) then None else map_option lwip_htonl (combine_parts parts val))"

definition IPADDR_NONE :: u32 where "IPADDR_NONE = 0xFFFFFFFF"

definition ipaddr_addr :: "string \<Rightarrow> u32" where
  "ipaddr_addr cp = (case ip4addr_aton cp of Some val \<Rightarrow> val | None \<Rightarrow> IPADDR_NONE)"

section \<open>Writing an address\<close>

text \<open>The digits of a byte, the last one first.\<close>

function inv_digits :: "u8 \<Rightarrow> string" where
  "inv_digits b = char_of (48 + unat (b mod 10)) # (if b div 10 \<noteq> 0 then inv_digits (b div 10) else [])"
  by pat_completeness auto
termination
proof (relation "measure unat", goal_cases)
  case (2 b)
  then have "unat b div 10 \<noteq> 0" by (simp add: word_unat_eq_iff unat_div)
  then show ?case by (simp add: unat_div)
qed simp

declare inv_digits.simps [simp del]

text \<open>Writing into a buffer of \<open>buflen\<close> characters fails at the first that does not fit.\<close>

fun put_chars :: "int \<Rightarrow> string \<Rightarrow> string \<Rightarrow> string option" where
  "put_chars buflen out [] = Some out"
| "put_chars buflen out (c # s) = (if int (length out) \<ge> buflen then None else put_chars buflen (out @ [c]) s)"

fun put_bytes :: "int \<Rightarrow> string \<Rightarrow> u8 list \<Rightarrow> string option" where
  "put_bytes buflen out [] = Some out"
| "put_bytes buflen out (b # bs) =
     (case put_chars buflen out (rev (inv_digits b) @ [CHR ''.'']) of None \<Rightarrow> None | Some out \<Rightarrow> put_bytes buflen out bs)"

text \<open>The NUL replaces the last dot.\<close>

definition ip4addr_ntoa_r :: "u32 \<Rightarrow> int \<Rightarrow> string option" where
  "ip4addr_ntoa_r addr buflen = map_option butlast (put_bytes buflen [] (address_bytes addr))"

definition IP4ADDR_STRLEN_MAX :: int where "IP4ADDR_STRLEN_MAX = 16"

definition ip4addr_ntoa :: "u32 \<Rightarrow> string option" where
  "ip4addr_ntoa addr = ip4addr_ntoa_r addr IP4ADDR_STRLEN_MAX"

section \<open>Broadcast addresses and net masks\<close>

record netif_addrs =
  nf_flags :: u8
  nf_addr :: u32
  nf_netmask :: u32

definition NETIF_FLAG_BROADCAST :: u8 where "NETIF_FLAG_BROADCAST = 0x02"

definition IPADDR_ANY :: u32 where "IPADDR_ANY = 0"

definition IPADDR_BROADCAST :: u32 where "IPADDR_BROADCAST = 0xFFFFFFFF"

definition ip4_addr_isbroadcast_u32 :: "u32 \<Rightarrow> netif_addrs \<Rightarrow> bool" where
  "ip4_addr_isbroadcast_u32 addr n =
     (if NOT addr = IPADDR_ANY \<or> addr = IPADDR_ANY then True
      else if nf_flags n AND NETIF_FLAG_BROADCAST = 0 then False
      else if addr = nf_addr n then False
      else if (addr AND nf_netmask n) = (nf_addr n AND nf_netmask n) \<and>
              (addr AND NOT (nf_netmask n)) = (IPADDR_BROADCAST AND NOT (nf_netmask n)) then True
      else False)"

text \<open>The two loops go down the bits of the mask from the top.\<close>

function first_zero :: "u32 \<Rightarrow> u32 \<Rightarrow> u32" where
  "first_zero nm bit_mask =
     (if bit_mask \<noteq> 0 then if nm AND bit_mask = 0 then bit_mask else first_zero nm (drop_bit 1 bit_mask) else bit_mask)"
  by pat_completeness auto
termination
  by (relation "measure (\<lambda>(nm, m). unat m)") (auto simp: unat_drop_bit word_neq_0_conv word_less_nat_alt)

function no_one_below :: "u32 \<Rightarrow> u32 \<Rightarrow> bool" where
  "no_one_below nm bit_mask =
     (if bit_mask \<noteq> 0 then if nm AND bit_mask \<noteq> 0 then False else no_one_below nm (drop_bit 1 bit_mask) else True)"
  by pat_completeness auto
termination
  by (relation "measure (\<lambda>(nm, m). unat m)") (auto simp: unat_drop_bit word_neq_0_conv word_less_nat_alt)

declare first_zero.simps [simp del] no_one_below.simps [simp del]

definition ip4_addr_netmask_valid :: "u32 \<Rightarrow> bool" where
  "ip4_addr_netmask_valid netmask =
     (let nm_hostorder = lwip_htonl netmask in no_one_below nm_hostorder (first_zero nm_hostorder (push_bit 31 1)))"

section \<open>Net masks\<close>

lemma single_bit: "nm AND push_bit i 1 = 0 \<longleftrightarrow> \<not> bit nm i" for nm :: u32
  by (metis and_exp_eq_0_iff_not_bit push_bit_of_1)

lemma single_bit_nonzero: "i < 32 \<Longrightarrow> push_bit i (1 :: u32) \<noteq> 0"
  using single_bit [of "push_bit i 1" i] by (auto simp: bit_simps)

lemma drop_single_bit: "drop_bit 1 (push_bit (Suc i) (1 :: u32)) = (if Suc i < 32 then push_bit i 1 else 0)"
  by (rule bit_word_eqI) (auto simp: bit_simps)

lemma drop_last_bit: "drop_bit 1 (push_bit 0 (1 :: u32)) = 0"
  by (rule bit_word_eqI) (auto simp: bit_simps)

lemma no_one_below_iff: "i < 32 \<Longrightarrow> no_one_below nm (push_bit i 1) \<longleftrightarrow> (\<forall>l \<le> i. \<not> bit nm l)"
proof (induction i)
  case 0
  then show ?case
    by (subst no_one_below.simps, subst drop_last_bit, subst no_one_below.simps)
      (use single_bit [of nm 0] single_bit_nonzero [of 0] in auto)
next
  case (Suc i)
  then show ?case
    by (subst no_one_below.simps, subst drop_single_bit) (use single_bit [of nm "Suc i"] single_bit_nonzero [of "Suc i"] in \<open>auto simp: le_Suc_eq\<close>)
qed

lemma first_zero_then_none:
  "i < 32 \<Longrightarrow> no_one_below nm (first_zero nm (push_bit i 1)) \<longleftrightarrow> (\<exists>n \<le> Suc i. \<forall>l \<le> i. bit nm l \<longleftrightarrow> n \<le> l)"
proof (induction i)
  case 0
  have "first_zero nm (push_bit 0 1) = (if bit nm 0 then 0 else push_bit 0 1)"
    by (subst first_zero.simps, subst drop_last_bit, subst first_zero.simps)
      (use single_bit [of nm 0] single_bit_nonzero [of 0] in auto)
  moreover have "no_one_below nm 0" by (subst no_one_below.simps) simp
  ultimately show ?case using no_one_below_iff [of 0 nm] by (auto intro: exI [of _ 0] exI [of _ 1])
next
  case (Suc i)
  have s: "first_zero nm (push_bit (Suc i) 1) = (if bit nm (Suc i) then first_zero nm (push_bit i 1) else push_bit (Suc i) 1)"
    by (subst first_zero.simps, subst drop_single_bit)
      (use single_bit [of nm "Suc i"] single_bit_nonzero [of "Suc i"] Suc.prems in auto)
  show ?case
  proof (cases "bit nm (Suc i)")
    case True
    then show ?thesis using Suc s by (auto simp: le_Suc_eq)
  next
    case False
    have "(\<exists>n \<le> Suc (Suc i). \<forall>l \<le> Suc i. bit nm l \<longleftrightarrow> n \<le> l) \<longleftrightarrow> (\<forall>l \<le> Suc i. \<not> bit nm l)"
      using False by (auto intro: exI [of _ "Suc (Suc i)"] dest: order_trans)
    then show ?thesis using False s no_one_below_iff [OF Suc.prems, of nm] by simp
  qed
qed

text \<open>
  \<^verbatim>\<open>ip4_addr_netmask_valid\<close> accepts exactly the 33 net masks: in host order a mask is valid iff it is \<open>n\<close> ones
  followed by zeros, for some \<open>n\<close> up to 32, the masks of no bit and of all bits included.
\<close>

theorem netmask_valid_iff:
  "ip4_addr_netmask_valid netmask \<longleftrightarrow> (\<exists>n \<le> 32. lwip_htonl netmask = push_bit (32 - n) (mask n))"
proof -
  let ?m = "lwip_htonl netmask"
  have eq: "?m = push_bit (32 - n) (mask n) \<longleftrightarrow> (\<forall>l \<le> 31. bit ?m l \<longleftrightarrow> 32 - n \<le> l)" if "n \<le> 32" for n
  proof -
    have "bit (push_bit (32 - n) (mask n) :: u32) l \<longleftrightarrow> 32 - n \<le> l" if "l \<le> 31" for l
      using that \<open>n \<le> 32\<close> by (auto simp: bit_simps)
    then have "(\<forall>l \<le> 31. bit ?m l \<longleftrightarrow> 32 - n \<le> l) \<longleftrightarrow> (\<forall>l < 32. bit ?m l \<longleftrightarrow> bit (push_bit (32 - n) (mask n) :: u32) l)" by auto
    also have "\<dots> \<longleftrightarrow> ?m = push_bit (32 - n) (mask n)" by (auto intro: bit_word_eqI)
    finally show ?thesis by simp
  qed
  have "ip4_addr_netmask_valid netmask \<longleftrightarrow> (\<exists>k \<le> 32. \<forall>l \<le> 31. bit ?m l \<longleftrightarrow> k \<le> l)"
    using first_zero_then_none [of 31 ?m] by (simp add: ip4_addr_netmask_valid_def)
  also have "\<dots> \<longleftrightarrow> (\<exists>n \<le> 32. \<forall>l \<le> 31. bit ?m l \<longleftrightarrow> 32 - n \<le> l)"
    by (metis diff_diff_cancel diff_le_self)
  also have "\<dots> \<longleftrightarrow> (\<exists>n \<le> 32. ?m = push_bit (32 - n) (mask n))" using eq by blast
  finally show ?thesis .
qed

section \<open>Reading and writing are inverse\<close>

text \<open>The dotted decimal text of an address.\<close>

definition dotted :: "u32 \<Rightarrow> string" where
  "dotted addr = butlast (concat (map (\<lambda>b. rev (inv_digits b) @ [CHR ''.'']) (address_bytes addr)))"

subsection \<open>Digits\<close>

lemma char_code: "n < 256 \<Longrightarrow> (of_char (char_of n) :: nat) = n"
  by (simp add: take_bit_nat_eq_self flip: take_bit_eq_mod)

lemma digit_char:
  "r < 10 \<Longrightarrow> lwip_isdigit (char_of (48 + r))" "r < 10 \<Longrightarrow> of_char (char_of (48 + r)) - 48 = (r :: nat)"
  by (simp_all add: lwip_isdigit_def char_code del: of_char_of)

lemma inv_digits_digits: "c \<in> set (inv_digits b) \<Longrightarrow> lwip_isdigit c"
proof (induction b rule: inv_digits.induct)
  case (1 b)
  have "unat (b mod 10) < 10" by (simp add: unat_mod)
  then show ?case using 1 by (subst (asm) inv_digits.simps) (auto simp: digit_char split: if_splits)
qed

lemma scan_digits_append:
  "(\<And>c. c \<in> set ds \<Longrightarrow> lwip_isdigit c) \<Longrightarrow>
   scan_digits 10 v (ds @ s) = scan_digits 10 (foldl (\<lambda>v c. v * 10 + of_nat (of_char c - 48)) v ds) s"
  by (induction ds arbitrary: v) auto

lemma inv_digits_value: "foldl (\<lambda>v c. v * 10 + of_nat (of_char c - 48)) 0 (rev (inv_digits b)) = (ucast b :: u32)"
proof (induction b rule: inv_digits.induct)
  case (1 b)
  have r: "unat (b mod 10) < 10" by (simp add: unat_mod)
  have v: "(ucast b :: u32) = ucast (b div 10) * 10 + of_nat (unat (b mod 10))"
  proof -
    have "unat b = unat (b div 10) * 10 + unat (b mod 10)" by (simp add: unat_div unat_mod)
    then have "(of_nat (unat b) :: u32) = of_nat (unat (b div 10)) * 10 + of_nat (unat (b mod 10))"
      by (metis of_nat_add of_nat_mult of_nat_numeral)
    then show ?thesis by simp
  qed
  show ?case
  proof (cases "b div 10 = 0")
    case True
    then show ?thesis using v r by (subst inv_digits.simps) (simp add: digit_char del: of_char_of)
  next
    case False
    then show ?thesis using 1 v r by (subst inv_digits.simps) (simp add: digit_char del: of_char_of)
  qed
qed

lemma inv_digits_first: "b \<noteq> 0 \<Longrightarrow> last (inv_digits b) \<noteq> CHR ''0''"
proof (induction b rule: inv_digits.induct)
  case (1 b)
  have r: "unat (b mod 10) < 10" by (simp add: unat_mod)
  have ne: "inv_digits c \<noteq> []" for c by (subst inv_digits.simps) simp
  show ?case
  proof (cases "b div 10 = 0")
    case True
    then have "unat (b mod 10) \<noteq> 0" using 1 by (auto simp: word_unat_eq_iff unat_div unat_mod)
    then have "of_char (char_of (48 + unat (b mod 10))) \<noteq> (of_char (CHR ''0'') :: nat)" using r by (simp add: char_code del: of_char_of)
    then have "char_of (48 + unat (b mod 10)) \<noteq> CHR ''0''" by metis
    then show ?thesis using True by (subst inv_digits.simps) auto
  next
    case False
    then show ?thesis using 1 ne by (subst inv_digits.simps) simp
  qed
qed

lemma length_inv_digits: "length (inv_digits b) \<le> 3"
proof -
  have z: "(b div 10) div 10 div 10 = 0"
  proof -
    have "unat b < 1000" by (rule less_trans [OF unat_u8_less]) simp
    then have "unat b div 10 div 10 div 10 = 0" by (simp add: div_mult2_eq [symmetric])
    then show ?thesis by (simp add: word_unat_eq_iff unat_div)
  qed
  have l: "length (inv_digits c) = 1 + (if c div 10 \<noteq> 0 then length (inv_digits (c div 10)) else 0)" for c
    by (subst inv_digits.simps) simp
  show ?thesis using l [of b] l [of "b div 10"] l [of "b div 10 div 10"] z by (auto split: if_splits)
qed

subsection \<open>One number and four parts\<close>

definition ends_number :: "string \<Rightarrow> bool" where
  "ends_number r \<longleftrightarrow> (case r of [] \<Rightarrow> True | c # _ \<Rightarrow> \<not> lwip_isdigit c \<and> c \<noteq> CHR ''x'' \<and> c \<noteq> CHR ''X'')"

lemma scan_digits_end: "ends_number r \<Longrightarrow> base \<noteq> 16 \<Longrightarrow> scan_digits base v r = (v, r)"
  by (cases r) (auto simp: ends_number_def)

lemma inv_digits_ne [simp]: "inv_digits b \<noteq> []"
  by (subst inv_digits.simps) simp

lemma scan_number_byte:
  assumes "ends_number r"
  shows "scan_number (rev (inv_digits b) @ r) = Some (ucast b, r)"
proof -
  obtain c ds where c: "rev (inv_digits b) = c # ds" by (cases "rev (inv_digits b)") auto
  then have digit: "lwip_isdigit c" using inv_digits_digits [of c b] by (metis list.set_intros(1) set_rev)
  show ?thesis
  proof (cases "b = 0")
    case True
    have "rev (inv_digits b) = [CHR ''0'']" unfolding True by (subst inv_digits.simps) (simp add: char_of_def bit_0)
    then show ?thesis
      using assms True scan_digits_end [OF assms, of 8 0] digit c
      by (cases r) (auto simp: scan_number_def ends_number_def)
  next
    case False
    have "c = last (inv_digits b)" using c by (metis hd_rev list.sel(1))
    then have "c \<noteq> CHR ''0''" using inv_digits_first [OF False] by simp
    moreover have "scan_digits 10 0 (rev (inv_digits b) @ r) = (ucast b, r)"
      using scan_digits_append [of "rev (inv_digits b)" 0 r] inv_digits_digits inv_digits_value [of b] scan_digits_end [OF assms, of 10]
      by simp
    ultimately show ?thesis using digit c by (simp add: scan_number_def)
  qed
qed

lemma ends_number_dot [simp]: "ends_number (CHR ''.'' # r)"
  by (simp add: ends_number_def lwip_isdigit_def bit_Suc_0_iff)

lemma scan_parts_dot:
  "scan_parts (Suc n) parts (rev (inv_digits b) @ CHR ''.'' # r) = scan_parts n (parts @ [ucast b]) r"
  by (subst scan_parts.simps) (simp add: scan_number_byte)

lemma scan_parts_last:
  "ends_number r \<Longrightarrow> (\<forall>r'. r \<noteq> CHR ''.'' # r') \<Longrightarrow> scan_parts n parts (rev (inv_digits b) @ r) = Some (parts, ucast b, r)"
  by (subst scan_parts.simps) (auto simp: scan_number_byte split: list.split)

lemma address_bytes_list: "address_bytes a = [ucast a, ucast (drop_bit 8 a), ucast (drop_bit 16 a), ucast (drop_bit 24 a)]"
  by (simp add: address_bytes_def upt_rec)

lemma dotted_eq:
  "address_bytes a = [b0, b1, b2, b3] \<Longrightarrow>
   dotted a = rev (inv_digits b0) @ CHR ''.'' # rev (inv_digits b1) @ CHR ''.'' # rev (inv_digits b2) @ CHR ''.'' # rev (inv_digits b3)"
  by (simp add: dotted_def butlast_append)

lemma bit_htonl:
  "i < 32 \<Longrightarrow> bit (lwip_htonl n) i \<longleftrightarrow> bit n (if i < 8 then 24 + i else if i < 16 then 8 + i else if i < 24 then i - 8 else i - 24)"
proof -
  assume i: "i < 32"
  have m: "(0x000000FF :: u32) = mask 8" "(0x0000FF00 :: u32) = push_bit 8 (mask 8)" "(0x00FF0000 :: u32) = push_bit 16 (mask 8)"
    "(0xFF000000 :: u32) = push_bit 24 (mask 8)" by (simp_all add: mask_eq_exp_minus_1)
  show ?thesis unfolding lwip_htonl_def m using i by (auto simp: bit_simps)
qed

lemma combine_bytes:
  "map_option lwip_htonl (combine_parts [ucast (ucast a :: u8), ucast (ucast (drop_bit 8 a) :: u8), ucast (ucast (drop_bit 16 a) :: u8)]
     (ucast (ucast (drop_bit 24 a) :: u8))) = Some a"
proof -
  have le: "(ucast (x :: u8) :: u32) \<le> 0xFF" for x
  proof -
    have "unat x \<le> 255" using unat_u8_less [of x] by linarith
    then show ?thesis by (simp add: word_le_nat_alt unat_ucast_up)
  qed
  let ?v = "ucast (ucast (drop_bit 24 a) :: u8) OR (push_bit 24 (ucast (ucast a :: u8)) OR
     push_bit 16 (ucast (ucast (drop_bit 8 a) :: u8)) OR push_bit 8 (ucast (ucast (drop_bit 16 a) :: u8))) :: u32"
  have "lwip_htonl ?v = a"
  proof (rule bit_word_eqI)
    fix i assume "i < LENGTH(32)"
    then consider "i < 8" | "8 \<le> i" "i < 16" | "16 \<le> i" "i < 24" | "24 \<le> i" "i < 32" by (simp add: not_less) linarith
    then show "bit (lwip_htonl ?v) i \<longleftrightarrow> bit a i"
      by cases (auto simp: bit_htonl bit_simps)
  qed
  then show ?thesis using le by (simp add: combine_parts_def not_less [symmetric])
qed

subsection \<open>Round trip\<close>

lemma aton_dotted:
  assumes "ends_number r" and "\<forall>r'. r \<noteq> CHR ''.'' # r'"
  shows "ip4addr_aton (dotted a @ r) = (if r = [] \<or> lwip_isspace (hd r) then Some a else None)"
proof -
  have three: "(3 :: nat) = Suc (Suc (Suc 0))" by simp
  have "scan_parts 3 [] (dotted a @ r) = Some ([ucast (ucast a :: u8), ucast (ucast (drop_bit 8 a) :: u8), ucast (ucast (drop_bit 16 a) :: u8)],
      ucast (ucast (drop_bit 24 a) :: u8), r)"
    unfolding three dotted_eq [OF address_bytes_list] append_assoc append_Cons
    by (simp only: scan_parts_dot scan_parts_last [OF assms] append_Nil append_Cons)
  then show ?thesis using combine_bytes [of a] by (auto simp: ip4addr_aton_def)
qed

lemma put_chars_fits: "int (length out + length s) \<le> buflen \<Longrightarrow> put_chars buflen out s = Some (out @ s)"
  by (induction buflen out s rule: put_chars.induct) auto

lemma put_chars_full: "int (length out) \<le> buflen \<Longrightarrow> int (length out + length s) > buflen \<Longrightarrow> put_chars buflen out s = None"
  by (induction buflen out s rule: put_chars.induct) auto

lemma put_bytes_eq:
  "int (length out) \<le> buflen \<Longrightarrow>
   put_bytes buflen out bs =
     (let s = concat (map (\<lambda>b. rev (inv_digits b) @ [CHR ''.'']) bs) in if int (length out + length s) \<le> buflen then Some (out @ s) else None)"
proof (induction buflen out bs rule: put_bytes.induct)
  case (2 buflen out b bs)
  let ?d = "rev (inv_digits b) @ [CHR ''.'']"
  show ?case
  proof (cases "int (length out + length ?d) \<le> buflen")
    case True
    then have p: "put_chars buflen out ?d = Some (out @ ?d)" by (rule put_chars_fits)
    show ?thesis using "2.IH" [OF p] True by (simp add: p Let_def)
  next
    case False
    then have "put_chars buflen out ?d = None" using "2.prems" by (intro put_chars_full) simp_all
    then show ?thesis using False by (simp add: Let_def)
  qed
qed (simp add: Let_def)

lemma ntoa_r_eq: "0 \<le> buflen \<Longrightarrow> ip4addr_ntoa_r a buflen = (if int (length (dotted a)) < buflen then Some (dotted a) else None)"
proof -
  assume b: "0 \<le> buflen"
  define s where "s = concat (map (\<lambda>b. rev (inv_digits b) @ [CHR ''.'']) (address_bytes a))"
  have "s \<noteq> []" by (simp add: s_def address_bytes_list)
  then have l: "length s = length (butlast s) + 1" by (cases s rule: rev_exhaust) auto
  have p: "put_bytes buflen [] (address_bytes a) = (if int (length s) \<le> buflen then Some s else None)"
    using put_bytes_eq [of "[]" buflen "address_bytes a"] b by (simp add: Let_def s_def)
  have d: "dotted a = butlast s" by (simp add: dotted_def s_def)
  have "int (length (butlast s)) < buflen \<longleftrightarrow> int (length s) \<le> buflen" using l by linarith
  then show ?thesis unfolding ip4addr_ntoa_r_def p d by (simp del: length_butlast)
qed

lemma length_dotted: "length (dotted a) \<le> 15"
  using length_inv_digits [of "ucast a"] length_inv_digits [of "ucast (drop_bit 8 a)"]
    length_inv_digits [of "ucast (drop_bit 16 a)"] length_inv_digits [of "ucast (drop_bit 24 a)"]
  by (simp add: dotted_eq [OF address_bytes_list])

text \<open>
  C22: Addresses survive text: \<^verbatim>\<open>ip4addr_ntoa_r\<close> writes the address iff the text and its NUL fit the buffer and fails otherwise, the
  16 characters of \<^verbatim>\<open>ip4addr_ntoa\<close> are enough for every address, and \<^verbatim>\<open>ip4addr_aton\<close> reads the same address back, alone or
  before white space, and rejects it with a letter other than x glued on.
\<close>

theorem address_text_roundtrip:
  "(0 \<le> buflen \<longrightarrow> ip4addr_ntoa_r a buflen = (if int (length (dotted a)) < buflen then Some (dotted a) else None)) \<and>
   ip4addr_ntoa a = Some (dotted a) \<and> ip4addr_aton (dotted a) = Some a \<and>
   (lwip_isspace c \<longrightarrow> ip4addr_aton (dotted a @ c # r) = Some a) \<and>
   (\<not> lwip_isspace c \<longrightarrow> \<not> lwip_isdigit c \<longrightarrow> c \<notin> {CHR ''.'', CHR ''x'', CHR ''X''} \<longrightarrow> ip4addr_aton (dotted a @ c # r) = None)"
proof -
  have "lwip_isspace c \<Longrightarrow> \<not> lwip_isdigit c \<and> c \<notin> {CHR ''.'', CHR ''x'', CHR ''X''}"
    by (auto simp: lwip_isspace_def lwip_isdigit_def)
  then show ?thesis
    using ntoa_r_eq [of buflen a] ntoa_r_eq [of 16 a] length_dotted [of a] aton_dotted [of "[]" a] aton_dotted [of "c # r" a]
    by (auto simp: ip4addr_ntoa_def IP4ADDR_STRLEN_MAX_def ends_number_def)
qed

lemma address_text_roundtrip_witness:
  "ip4addr_ntoa_r 0x0100A8C0 16 = Some (dotted 0x0100A8C0) \<and> ip4addr_aton (dotted 0x0100A8C0 @ '' via'') = Some 0x0100A8C0 \<and>
   ip4addr_aton (dotted 0x0100A8C0 @ ''/24'') = None"
proof -
  have "lwip_isspace (CHR '' '')" "\<not> lwip_isspace (CHR ''/'')" "\<not> lwip_isdigit (CHR ''/'')"
    by (simp_all add: lwip_isspace_def lwip_isdigit_def)
  then show ?thesis
    using address_text_roundtrip [of 16 "0x0100A8C0" "CHR '' ''" "''via''"] address_text_roundtrip [of 16 "0x0100A8C0" "CHR ''/''" "''24''"]
      length_dotted [of "0x0100A8C0"] by simp
qed

end
