(* ===== verification/LwipDef.thy ===== *)
theory LwipDef
  imports Prelude "HOL-Library.Signed_Division"
begin

text \<open>
  Common definitions of the network stack: the error codes of \<^verbatim>\<open>lwip/src/include/lwip/err.h\<close>, and the functions on strings and
  memory of \<^verbatim>\<open>lwip/src/core/def.c\<close>. A pointer into memory is the list of the bytes from there to the end of the object; a read past the
  end is \<open>None\<close>. A \<open>char\<close> is a byte (it is unsigned on this machine), \<open>size_t\<close> and \<open>int\<close> have 32 bits.
\<close>

datatype err_t =
    ERR_OK | ERR_MEM | ERR_BUF | ERR_TIMEOUT | ERR_RTE | ERR_INPROGRESS | ERR_VAL | ERR_WOULDBLOCK | ERR_USE
  | ERR_ALREADY | ERR_ISCONN | ERR_CONN | ERR_IF | ERR_ABRT | ERR_RST | ERR_CLSD | ERR_ARG

section \<open>Comparing strings\<close>

fun strlen :: "u8 list \<Rightarrow> nat option" where
  "strlen [] = None"
| "strlen (c # s) = (if c = 0 then Some 0 else map_option Suc (strlen s))"

text \<open>Whether \<open>strncmp\<close> is 0.\<close>

fun strncmp_equal :: "u8 list \<Rightarrow> u8 list \<Rightarrow> nat \<Rightarrow> bool option" where
  "strncmp_equal s t 0 = Some True"
| "strncmp_equal (a # s) (b # t) (Suc n) =
     (if a \<noteq> b then Some False else if a = 0 then Some True else strncmp_equal s t n)"
| "strncmp_equal s t (Suc n) = None"

text \<open>The test of two characters, without the case of letters.\<close>

definition same_letter :: "u8 \<Rightarrow> u8 \<Rightarrow> bool" where
  "same_letter c1 c2 =
     (if c1 \<noteq> c2 then
        let c1_upc = c1 OR 0x20
        in if 0x61 \<le> c1_upc \<and> c1_upc \<le> 0x7A then let c2_upc = c2 OR 0x20 in c1_upc = c2_upc else False
      else True)"

fun lwip_stricmp :: "u8 list \<Rightarrow> u8 list \<Rightarrow> int option" where
  "lwip_stricmp (c1 # str1) (c2 # str2) =
     (if \<not> same_letter c1 c2 then Some 1 else if c1 \<noteq> 0 then lwip_stricmp str1 str2 else Some 0)"
| "lwip_stricmp _ _ = None"

fun lwip_strnicmp :: "u8 list \<Rightarrow> u8 list \<Rightarrow> u32 \<Rightarrow> int option" where
  "lwip_strnicmp (c1 # str1) (c2 # str2) n =
     (if \<not> same_letter c1 c2 then Some 1
      else let n = n - 1 in if n \<noteq> 0 \<and> c1 \<noteq> 0 then lwip_strnicmp str1 str2 n else Some 0)"
| "lwip_strnicmp _ _ _ = None"

section \<open>Searching in a buffer\<close>

text \<open>A pointer into the buffer is its index; the result \<open>Some None\<close> is the null pointer. The tests are in the order of the code,
  the character before the bound.\<close>

fun strnstr_from :: "u8 list \<Rightarrow> u8 list \<Rightarrow> nat \<Rightarrow> nat \<Rightarrow> nat \<Rightarrow> nat option option" where
  "strnstr_from [] token tokenlen n i = None"
| "strnstr_from (c # p) token tokenlen n i =
     (if c \<noteq> 0 \<and> i + tokenlen \<le> n then
        case (if c = hd token then strncmp_equal (c # p) token tokenlen else Some False) of
          None \<Rightarrow> None
        | Some True \<Rightarrow> Some (Some i)
        | Some False \<Rightarrow> strnstr_from p token tokenlen n (Suc i)
      else Some None)"

definition lwip_strnstr :: "u8 list \<Rightarrow> u8 list \<Rightarrow> nat \<Rightarrow> nat option option" where
  "lwip_strnstr buffer token n =
     (case strlen token of
        None \<Rightarrow> None
      | Some tokenlen \<Rightarrow> if tokenlen = 0 then Some (Some 0) else strnstr_from buffer token tokenlen n 0)"

fun strnistr_from :: "u8 list \<Rightarrow> u8 list \<Rightarrow> nat \<Rightarrow> nat \<Rightarrow> nat \<Rightarrow> nat option option" where
  "strnistr_from [] token tokenlen n i = None"
| "strnistr_from (c # p) token tokenlen n i =
     (if c \<noteq> 0 \<and> i + tokenlen \<le> n then
        case lwip_strnicmp (c # p) token (of_nat tokenlen) of
          None \<Rightarrow> None
        | Some r \<Rightarrow> if r = 0 then Some (Some i) else strnistr_from p token tokenlen n (Suc i)
      else Some None)"

definition lwip_strnistr :: "u8 list \<Rightarrow> u8 list \<Rightarrow> nat \<Rightarrow> nat option option" where
  "lwip_strnistr buffer token n =
     (case strlen token of
        None \<Rightarrow> None
      | Some tokenlen \<Rightarrow> if tokenlen = 0 then Some (Some 0) else strnistr_from buffer token tokenlen n 0)"

section \<open>Comparing memory in constant time\<close>

text \<open>The loop runs over all bytes, whatever they are.\<close>

fun or_differences :: "u8 list \<Rightarrow> u8 list \<Rightarrow> nat \<Rightarrow> u8 \<Rightarrow> u8 option" where
  "or_differences a1 a2 0 ret = Some ret"
| "or_differences (x # a1) (y # a2) (Suc n) ret = or_differences a1 a2 n (ret OR (x XOR y))"
| "or_differences a1 a2 (Suc n) ret = None"

definition lwip_memcmp_consttime :: "u8 list \<Rightarrow> u8 list \<Rightarrow> nat \<Rightarrow> int option" where
  "lwip_memcmp_consttime s1 s2 n = map_option uint (or_differences s1 s2 n 0)"

section \<open>Writing a number\<close>

text \<open>The digits are written from the end of the buffer down, as long as there is room after the sign: the index of the last one written and
  the part of the number that is left.\<close>

function itoa_digits :: "nat \<Rightarrow> nat \<Rightarrow> int \<Rightarrow> u8 list \<Rightarrow> nat \<times> int \<times> u8 list" where
  "itoa_digits res tmp n result =
     (if n \<noteq> 0 \<and> tmp > res
      then itoa_digits res (tmp - 1) (n sdiv 10) (result[tmp - 1 := word_of_int (0x30 + n smod 10)])
      else (tmp, n, result))"
  by pat_completeness auto
termination by (relation "measure (\<lambda>(res, tmp, n, result). tmp)") auto

declare itoa_digits.simps [simp del]

text \<open>The result is the buffer; \<open>None\<close> is the overflow of the negation, which C leaves undefined.\<close>

definition lwip_itoa :: "u8 list \<Rightarrow> nat \<Rightarrow> u32 \<Rightarrow> u8 list option" where
  "lwip_itoa result bufsize number =
     (if sint number = - (2 ^ 31) then None
      else
        let n = (if sint number \<ge> 0 then sint number else - sint number)
        in if bufsize < 2 then Some (if bufsize = 1 then result[0 := 0] else result)
           else
             let (res, result) = (if sint number < 0 then (1, result[0 := 0x2D]) else (0, result));
                 result = result[bufsize - 1 := 0];
                 (tmp, n, result) = itoa_digits res (bufsize - 1) n result
             in if n \<noteq> 0 then Some (result[0 := 0])
                else if result ! tmp = 0 then Some (result[res := 0x30, res + 1 := 0])
                else Some (take res result @ take (bufsize - tmp) (drop tmp result) @ drop (res + (bufsize - tmp)) result))"

section \<open>What the functions compute\<close>

fun digits10 :: "nat \<Rightarrow> u8 list" where
  "digits10 m = (if m = 0 then [] else digits10 (m div 10) @ [of_nat (48 + m mod 10)])"

declare digits10.simps [simp del]

definition decimal :: "int \<Rightarrow> u8 list" where
  "decimal z = (if z = 0 then [48] else (if z < 0 then [45] else []) @ digits10 (nat \<bar>z\<bar>))"

text \<open>The string that a buffer of \<open>n\<close> bytes holds.\<close>

definition string_in :: "nat \<Rightarrow> u8 list \<Rightarrow> u8 list" where
  "string_in n buf = takeWhile (\<lambda>c. c \<noteq> 0) (take n buf)"

lemma digit_nonzero: "m < 10 \<Longrightarrow> (of_nat (48 + m) :: u8) \<noteq> 0"
proof -
  assume "m < 10"
  then have "unat (of_nat (48 + m) :: u8) = 48 + m" by (intro unat_of_nat_small) simp
  then show ?thesis by (metis add_is_0 unsigned_0 zero_neq_numeral)
qed

lemma digits10_nonzero: "c \<in> set (digits10 m) \<Longrightarrow> c \<noteq> 0"
proof (induction m rule: digits10.induct)
  case (1 m)
  then show ?case using digit_nonzero [of "m mod 10"] by (subst (asm) digits10.simps) (auto split: if_splits)
qed

lemma digits10_empty [simp]: "digits10 m = [] \<longleftrightarrow> m = 0"
  by (subst digits10.simps) simp

lemma itoa_digits_fit:
  "res + length (digits10 m) \<le> tmp \<Longrightarrow> tmp \<le> length buf \<Longrightarrow>
   itoa_digits res tmp (int m) buf = (tmp - length (digits10 m), 0, take (tmp - length (digits10 m)) buf @ digits10 m @ drop tmp buf)"
proof (induction m arbitrary: tmp buf rule: digits10.induct)
  case (1 m)
  show ?case
  proof (cases "m = 0")
    case True
    then show ?thesis by (subst itoa_digits.simps) (simp add: digits10.simps)
  next
    case False
    let ?d = "of_nat (48 + m mod 10) :: u8" and ?l = "length (digits10 (m div 10))"
    have D: "digits10 m = digits10 (m div 10) @ [?d]" using False by (subst digits10.simps) simp
    have le: "res + ?l \<le> tmp - 1" "tmp - 1 \<le> length (buf[tmp - 1 := ?d])" "0 < tmp" "res < tmp" using 1(2,3) by (simp_all add: D)
    have "int m smod 10 = int (m mod 10)" using False by (simp add: smod_int_alt_def zmod_int)
    then have W: "(48 :: u8) + word_of_int (int m smod 10) = 48 + of_nat (m mod 10)" by simp
    have Q: "int m sdiv 10 = int (m div 10)" by (simp add: signed_divide_int_def sgn_if zdiv_int)
    have "itoa_digits res tmp (int m) buf = itoa_digits res (tmp - 1) (int (m div 10)) (buf[tmp - 1 := ?d])"
      using False le by (subst itoa_digits.simps) (simp add: W Q)
    also have "\<dots> = (tmp - 1 - ?l, 0, take (tmp - 1 - ?l) (buf[tmp - 1 := ?d]) @ digits10 (m div 10) @ drop (tmp - 1) (buf[tmp - 1 := ?d]))"
      by (rule 1(1) [OF False le(1,2)])
    also have "drop (tmp - 1) (buf[tmp - 1 := ?d]) = ?d # drop tmp buf"
      using le 1(3) by (simp add: drop_update_swap Cons_nth_drop_Suc [symmetric] del: Cons_nth_drop_Suc)
    finally show ?thesis by (simp add: D)
  qed
qed

lemma itoa_digits_overflow:
  "tmp < res + length (digits10 m) \<Longrightarrow> res \<le> tmp \<Longrightarrow>
   \<exists>t n buf'. itoa_digits res tmp (int m) buf = (t, n, buf') \<and> n \<noteq> 0 \<and> length buf' = length buf \<and> drop tmp buf' = drop tmp buf"
proof (induction m arbitrary: tmp buf rule: digits10.induct)
  case (1 m)
  have m: "m \<noteq> 0" using 1(2,3) by (cases "m = 0") (simp_all add: digits10.simps)
  show ?case
  proof (cases "tmp = res")
    case True
    then show ?thesis using m by (subst itoa_digits.simps) simp
  next
    case False
    have l: "length (digits10 m) = Suc (length (digits10 (m div 10)))" using m by (subst digits10.simps) simp
    have Q: "int m sdiv 10 = int (m div 10)" by (simp add: signed_divide_int_def sgn_if zdiv_int)
    let ?b = "buf[tmp - 1 := word_of_int (0x30 + int m smod 10)]"
    have "tmp - 1 < res + length (digits10 (m div 10))" "res \<le> tmp - 1" using 1(2,3) False l by simp_all
    from 1(1) [OF m this, of ?b] obtain t n buf' where
      R: "itoa_digits res (tmp - 1) (int (m div 10)) ?b = (t, n, buf')" "n \<noteq> 0" "length buf' = length buf" "drop (tmp - 1) buf' = drop (tmp - 1) ?b"
      by auto
    have eq: "drop tmp b = drop 1 (drop (tmp - 1) b)" for b :: "u8 list" using False 1(3) by simp
    have "drop tmp buf' = drop tmp ?b" unfolding eq R(4) ..
    also have "\<dots> = drop tmp buf" using False 1(3) by simp
    finally have "drop tmp buf' = drop tmp buf" .
    moreover have "itoa_digits res tmp (int m) buf = (t, n, buf')"
      using m False 1(3) R(1) by (subst itoa_digits.simps) (simp add: Q)
    ultimately show ?thesis using R by blast
  qed
qed

lemma string_in_prefix: "0 \<notin> set s \<Longrightarrow> length s < n \<Longrightarrow> string_in n (s @ 0 # rest) = s"
  unfolding string_in_def by (subst take_append, subst takeWhile_append2) (auto simp: take_Cons' takeWhile_append2)

lemma splice_keeps:
  "res + k \<le> n \<Longrightarrow> n \<le> length b \<Longrightarrow> t + k \<le> length b \<Longrightarrow>
   length (take res b @ take k (drop t b) @ drop (res + k) b) = length b \<and> drop n (take res b @ take k (drop t b) @ drop (res + k) b) = drop n b"
  by auto

lemma decimal_nonzero: "0 \<notin> set (decimal z)"
  using digits10_nonzero [of 0] by (auto simp: decimal_def)

text \<open>
  A number is written in full or not at all, inside the buffer. For every number but the least one, whose negation is undefined,
  and every buffer, \<^verbatim>\<open>lwip_itoa\<close> returns with the decimal text of the number in the buffer when it fits
  with its terminator, and otherwise with the empty string; the bytes behind the buffer keep their values.
\<close>

theorem itoa_writes_decimal:
  assumes "sint number \<noteq> - (2 ^ 31)" and "0 < bufsize" and "bufsize \<le> length result"
  shows "\<exists>r. lwip_itoa result bufsize number = Some r \<and> length r = length result \<and> drop bufsize r = drop bufsize result \<and>
    string_in bufsize r = (if length (decimal (sint number)) < bufsize then decimal (sint number) else [])"
proof -
  define z where "z = sint number"
  define m where "m = nat \<bar>z\<bar>"
  define sign :: "u8 list" where "sign = (if z < 0 then [45] else [])"
  define res where "res = length sign"
  define start where "start = (sign @ drop res result)[bufsize - 1 := 0]"
  have n: "(if z \<ge> 0 then z else - z) = int m" by (simp add: m_def)
  have len: "length start = length result" "drop bufsize start = drop bufsize result" if "2 \<le> bufsize"
    using that assms(3) by (auto simp: start_def res_def sign_def)
  have C: "lwip_itoa result bufsize number =
      (let (tmp, n, buf) = itoa_digits res (bufsize - 1) (int m) start
       in if n \<noteq> 0 then Some (buf[0 := 0])
          else if buf ! tmp = 0 then Some (buf[res := 0x30, res + 1 := 0])
          else Some (take res buf @ take (bufsize - tmp) (drop tmp buf) @ drop (res + (bufsize - tmp)) buf))" if "2 \<le> bufsize"
  proof -
    have "(if z < 0 then (1 :: nat, result[0 := 0x2D]) else (0, result)) = (res, sign @ drop res result)"
      using that assms(3) by (cases result) (auto simp: res_def sign_def)
    then show ?thesis
      using assms(1) that unfolding lwip_itoa_def z_def [symmetric] n [unfolded z_def] by (simp add: n start_def Let_def)
  qed
  have dec: "decimal z = (if m = 0 then [48] else sign @ digits10 m)" by (auto simp: decimal_def sign_def m_def)
  consider (one) "bufsize = 1" | (zero) "2 \<le> bufsize" "m = 0" | (fit) "2 \<le> bufsize" "m \<noteq> 0" "res + length (digits10 m) \<le> bufsize - 1"
    | (long) "2 \<le> bufsize" "bufsize - 1 < res + length (digits10 m)" using assms(2) by linarith
  then have "\<exists>r. lwip_itoa result bufsize number = Some r \<and> length r = length result \<and> drop bufsize r = drop bufsize result \<and>
    string_in bufsize r = (if length (decimal z) < bufsize then decimal z else [])" (is ?goal)
  proof cases
    case one
    then have "lwip_itoa result bufsize number = Some (result[0 := 0])" using assms(1) by (simp add: lwip_itoa_def)
    moreover have "string_in 1 (result[0 := 0]) = []" using assms(2,3) by (cases result) (simp_all add: string_in_def)
    moreover have "\<not> length (decimal z) < 1" by (simp add: dec)
    ultimately show ?goal using one by simp
  next
    case zero
    then have r: "z = 0" "res = 0" "start = result[bufsize - 1 := 0]" by (auto simp: m_def res_def sign_def start_def)
    have "itoa_digits 0 (bufsize - 1) (int m) start = (bufsize - 1, 0, start)" using zero by (subst itoa_digits.simps) simp
    moreover have "start ! (bufsize - 1) = 0" using r assms by simp
    ultimately have "lwip_itoa result bufsize number = Some (start[0 := 0x30, 1 := 0])" using C zero r by simp
    moreover have "start[0 := 0x30, 1 := 0] = [0x30] @ 0 # drop 2 start"
      using zero len assms(3) by (cases start; cases "tl start") auto
    moreover have "string_in bufsize ([0x30] @ 0 # drop 2 start) = [0x30]" by (rule string_in_prefix) (use zero in auto)
    moreover have "drop bufsize (start[0 := 0x30, 1 := 0]) = drop bufsize result" using len zero by simp
    ultimately show ?goal using zero len r assms(3) by (simp add: decimal_def)
  next
    case fit
    let ?D = "digits10 m" and ?t = "bufsize - 1 - length (digits10 m)"
    let ?b = "take ?t start @ ?D @ drop (bufsize - 1) start"
    have "itoa_digits res (bufsize - 1) (int m) start = (?t, 0, ?b)"
      by (rule itoa_digits_fit) (use fit len assms(3) in auto)
    moreover have "?b ! ?t \<noteq> 0"
    proof -
      have "?b ! ?t = ?D ! 0" using fit len assms(3) by (simp add: nth_append)
      then show ?thesis using digits10_nonzero [of "?D ! 0" m] fit(2) by simp
    qed
    moreover define F where "F = take res ?b @ take (bufsize - ?t) (drop ?t ?b) @ drop (res + (bufsize - ?t)) ?b"
    ultimately have A: "lwip_itoa result bufsize number = Some F" using C fit by simp
    have "F = (sign @ ?D) @ 0 # drop (res + (bufsize - ?t)) ?b"
    proof -
      have a: "take res ?b = sign" using fit len assms(3) by (simp add: start_def res_def take_update_cancel)
      have "drop (bufsize - 1) start = 0 # drop bufsize start"
        using fit len assms(3) by (subst Cons_nth_drop_Suc [symmetric]) (simp_all add: start_def res_def)
      then have b: "drop ?t ?b = ?D @ 0 # drop bufsize start" using fit len assms(3) by simp
      have c: "bufsize - ?t = Suc (length ?D)" using fit by simp
      show ?thesis unfolding F_def a b c by simp
    qed
    moreover have "string_in bufsize ((sign @ ?D) @ 0 # drop (res + (bufsize - ?t)) ?b) = sign @ ?D"
      by (rule string_in_prefix) (use fit digits10_nonzero [of 0 m] in \<open>auto simp: sign_def res_def\<close>)
    ultimately have S: "string_in bufsize F = sign @ ?D" by metis
    have K: "length F = length result \<and> drop bufsize F = drop bufsize result"
    proof -
      have "length F = length ?b \<and> drop bufsize F = drop bufsize ?b" unfolding F_def
        by (rule splice_keeps) (use fit len assms(3) in auto)
      then show ?thesis using fit len assms(3) by simp
    qed
    have l: "length (sign @ ?D) < bufsize" using fit by (simp add: res_def)
    show ?goal by (intro exI [of _ F]) (use A S K l fit(2) in \<open>simp add: dec\<close>)
  next
    case long
    have "res \<le> 1" by (simp add: res_def sign_def)
    then have "res \<le> bufsize - 1" using long(1) by linarith
    from itoa_digits_overflow [OF long(2) this] obtain t n buf where
      R: "itoa_digits res (bufsize - 1) (int m) start = (t, n, buf)" "n \<noteq> 0" "length buf = length start" "drop (bufsize - 1) buf = drop (bufsize - 1) start"
      by blast
    have eq: "drop bufsize b = drop 1 (drop (bufsize - 1) b)" for b :: "u8 list" using long by simp
    have "drop bufsize buf = drop bufsize start" unfolding eq R(4) ..
    moreover have "string_in bufsize (buf[0 := 0]) = []" using long(1) R(3) len(1) assms(3) by (cases buf) (auto simp: string_in_def take_Cons')
    moreover have "digits10 m \<noteq> []" using long \<open>res \<le> bufsize - 1\<close> by (cases "digits10 m") simp_all
    then have "m \<noteq> 0" by simp
    then have "\<not> length (decimal z) < bufsize" using long by (simp add: dec res_def)
    ultimately show ?goal using C [OF long(1)] R len long by simp
  qed
  then show ?thesis unfolding z_def .
qed

theorem itoa_writes_decimal_witness:
  "\<exists>r. lwip_itoa (replicate 8 0xFF) 5 (- 1234) = Some r \<and> length r = 8 \<and> string_in 5 r = []"
proof -
  have d: "sint (- 1234 :: u32) = - 1234" by code_simp
  have "digits10 1234 = [0x31, 0x32, 0x33, 0x34]" by (simp add: digits10.simps)
  then have "length (decimal (sint (- 1234 :: u32))) = 5" by (simp add: d decimal_def)
  with itoa_writes_decimal [of "- 1234" 5 "replicate 8 0xFF"] show ?thesis by (simp add: d) blast
qed

section \<open>Letters and searches\<close>

definition lower :: "u8 \<Rightarrow> u8" where
  "lower c = (if 0x41 \<le> c \<and> c \<le> 0x5A then c + 0x20 else c)"

lemma unat_lower: "unat (lower c) = (if 65 \<le> unat c \<and> unat c \<le> 90 then unat c + 32 else unat c)"
  by (auto simp: lower_def word_le_nat_alt unat_add_small)

lemma unat_or_20: "unat (c OR 0x20 :: u8) = (if odd (unat c div 32) then unat c else unat c + 32)"
proof -
  have "bit (unat c) 5 \<longleftrightarrow> bit c 5" by (simp add: bit_unsigned_iff)
  then have B: "bit c 5 \<longleftrightarrow> odd (unat c div 32)" by (simp add: bit_iff_odd)
  show ?thesis
  proof (cases "bit c 5")
    case True
    then have "c OR 0x20 = c" by (auto intro!: bit_eqI simp: bit_simps bit_numeral_rec eval_nat_numeral split: nat.splits)
    then show ?thesis using True B by simp
  next
    case False
    then have "c AND 0x20 = 0" by (auto intro!: bit_eqI simp: bit_simps bit_numeral_rec eval_nat_numeral split: nat.splits)
    then have e: "c OR 0x20 = c + 0x20" by (simp add: disjunctive_add_eq_or)
    have "unat c + 32 < 256"
    proof (rule ccontr)
      assume "\<not> unat c + 32 < 256"
      then have "unat c div 32 = 7" using unat_u8_less [of c] by (intro div_nat_eqI) simp_all
      then show False using False B by simp
    qed
    then show ?thesis using False B by (simp add: e unat_add_small)
  qed
qed

lemma div_32:
  "65 \<le> n \<and> n \<le> 90 \<Longrightarrow> n div 32 = (2 :: nat)" "97 \<le> n \<and> n \<le> 122 \<Longrightarrow> n div 32 = (3 :: nat)"
  by (auto intro!: div_nat_eqI)

lemma or_20:
  "(0x61 \<le> c OR 0x20 \<and> c OR 0x20 \<le> (0x7A :: u8)) \<longleftrightarrow> (0x61 \<le> lower c \<and> lower c \<le> 0x7A)"
  "0x61 \<le> lower c \<and> lower c \<le> 0x7A \<Longrightarrow> c OR 0x20 = lower c"
proof -
  have "65 \<le> unat c \<and> unat c \<le> 90 \<or> (97 \<le> unat c \<and> unat c \<le> 122) \<or>
    (\<not> (65 \<le> unat c \<and> unat c \<le> 90) \<and> \<not> (97 \<le> unat c \<and> unat c \<le> 122))" by blast
  then have "((97 \<le> unat (c OR 0x20) \<and> unat (c OR 0x20) \<le> 122) \<longleftrightarrow> (97 \<le> unat (lower c) \<and> unat (lower c) \<le> 122)) \<and>
    (97 \<le> unat (lower c) \<and> unat (lower c) \<le> 122 \<longrightarrow> unat (c OR 0x20) = unat (lower c))"
  proof (elim disjE)
    assume "65 \<le> unat c \<and> unat c \<le> 90"
    then show ?thesis using div_32(1) [of "unat c"] by (simp add: unat_lower unat_or_20)
  next
    assume "97 \<le> unat c \<and> unat c \<le> 122"
    then show ?thesis using div_32(2) [of "unat c"] by (simp add: unat_lower unat_or_20)
  next
    assume a: "\<not> (65 \<le> unat c \<and> unat c \<le> 90) \<and> \<not> (97 \<le> unat c \<and> unat c \<le> 122)"
    then have "\<not> (97 \<le> unat c + 32 \<and> unat c + 32 \<le> 122)" by linarith
    with a show ?thesis by (simp only: unat_lower unat_or_20 if_False split: if_split) simp
  qed
  then show "(0x61 \<le> c OR 0x20 \<and> c OR 0x20 \<le> (0x7A :: u8)) \<longleftrightarrow> (0x61 \<le> lower c \<and> lower c \<le> 0x7A)"
    "0x61 \<le> lower c \<and> lower c \<le> 0x7A \<Longrightarrow> c OR 0x20 = lower c"
    by (simp_all add: word_le_nat_alt word_unat_eq_iff)
qed

lemma lower_inj:
  assumes "lower c1 = lower c2" and "\<not> (0x61 \<le> lower c1 \<and> lower c1 \<le> 0x7A)"
  shows "c1 = c2"
proof -
  have "\<not> (97 \<le> unat (lower c1) \<and> unat (lower c1) \<le> 122)" using assms(2) by (simp add: word_le_nat_alt)
  moreover have "unat (lower c1) = unat (lower c2)" using assms(1) by simp
  ultimately have "unat c1 = unat c2" by (simp add: unat_lower split: if_split_asm)
  then show ?thesis by (simp add: word_unat_eq_iff)
qed
lemma same_letter_lower: "same_letter c1 c2 \<longleftrightarrow> lower c1 = lower c2"
proof (cases "0x61 \<le> lower c1 \<and> lower c1 \<le> 0x7A")
  case True
  then have c1: "c1 OR 0x20 = lower c1" by (rule or_20)
  have e: "c2 OR 0x20 = lower c1 \<longleftrightarrow> lower c2 = lower c1"
  proof
    assume e: "c2 OR 0x20 = lower c1"
    then have "0x61 \<le> c2 OR 0x20 \<and> c2 OR 0x20 \<le> 0x7A" using True by simp
    then have "c2 OR 0x20 = lower c2" using or_20 [of c2] by blast
    with e show "lower c2 = lower c1" by simp
  next
    assume e: "lower c2 = lower c1"
    then have "c2 OR 0x20 = lower c2" using or_20(2) [of c2] True by simp
    with e show "c2 OR 0x20 = lower c1" by (rule trans [rotated])
  qed
  show ?thesis
  proof (cases "c1 = c2")
    case True
    then show ?thesis by (simp add: same_letter_def)
  next
    case False
    have "same_letter c1 c2 \<longleftrightarrow> lower c1 = c2 OR 0x20"
      unfolding same_letter_def Let_def c1 if_P [OF True] if_P [OF False] ..
    then show ?thesis using e by (simp only: eq_commute [of "lower c1"])
  qed
next
  case False
  then have n: "\<not> (0x61 \<le> c1 OR 0x20 \<and> c1 OR 0x20 \<le> 0x7A)" using or_20(1) [of c1] by simp
  have "lower c1 = lower c2 \<longleftrightarrow> c1 = c2" using lower_inj [OF _ False] by auto
  then show ?thesis unfolding same_letter_def Let_def if_not_P [OF n] by simp
qed

text \<open>Comparing C strings, a list without 0 followed by a 0 and any rest.\<close>

lemma lower_0 [simp]: "lower c = 0 \<longleftrightarrow> c = 0" "lower 0 = 0"
  by (auto simp: lower_def word_le_nat_alt word_unat_eq_iff unat_add_small)

lemma strlen_append [simp]: "0 \<notin> set s \<Longrightarrow> strlen (s @ 0 # r) = Some (length s)"
  by (induction s) auto

lemma lwip_stricmp_equal:
  "0 \<notin> set s \<Longrightarrow> 0 \<notin> set t \<Longrightarrow> lwip_stricmp (s @ 0 # r) (t @ 0 # r') = Some (if map lower s = map lower t then 0 else 1)"
proof (induction s arbitrary: t)
  case Nil
  then show ?case by (cases t) (auto simp: same_letter_lower dest!: sym [of 0])
next
  case (Cons a s)
  then show ?case by (cases t) (auto simp: same_letter_lower)
qed

lemma strncmp_equal_prefix:
  "0 \<notin> set u \<Longrightarrow> 0 \<notin> set t \<Longrightarrow> strncmp_equal (u @ 0 # r) (t @ 0 # r') (length t) = Some (take (length t) u = t)"
proof (induction t arbitrary: u)
  case (Cons b t)
  then show ?case by (cases u) auto
qed simp

lemma strnicmp_prefix:
  "0 \<notin> set u \<Longrightarrow> 0 \<notin> set t \<Longrightarrow> t \<noteq> [] \<Longrightarrow> length t < 2 ^ 32 \<Longrightarrow>
   lwip_strnicmp (u @ 0 # r) (t @ 0 # r') (of_nat (length t)) = Some (if map lower (take (length t) u) = map lower t then 0 else 1)"
proof (induction t arbitrary: u)
  case (Cons b t)
  have n: "(of_nat (length (b # t)) :: u32) - 1 = of_nat (length t)" by simp
  have z: "(of_nat (length t) :: u32) = 0 \<longleftrightarrow> t = []"
    using unat_of_nat_small [of "length t", where 'a = 32] Cons.prems(4) by (auto simp: word_unat_eq_iff)
  show ?case
  proof (cases u)
    case Nil
    then show ?thesis using Cons.prems by (auto simp: same_letter_lower dest!: sym [of 0])
  next
    case u: (Cons a u')
    show ?thesis
    proof (cases "t = []")
      case True
      then show ?thesis using u by (simp add: same_letter_lower)
    next
      case False
      then have "lwip_strnicmp (u' @ 0 # r) (t @ 0 # r') (of_nat (length t)) = Some (if map lower (take (length t) u') = map lower t then 0 else 1)"
        using Cons.prems u by (intro Cons.IH) auto
      then show ?thesis using Cons.prems u False n z by (simp add: same_letter_lower del: of_nat_Suc)
    qed
  qed
qed simp

text \<open>The first index at which a match begins that ends within the first \<open>n\<close> bytes.\<close>

definition first_match :: "(u8 list \<Rightarrow> u8 list \<Rightarrow> bool) \<Rightarrow> u8 list \<Rightarrow> u8 list \<Rightarrow> nat \<Rightarrow> nat option" where
  "first_match eq s t n = List.find (\<lambda>i. i + length t \<le> n \<and> eq (take (length t) (drop i s)) t) [0..<Suc (length s)]"

lemma find_none_beyond: "n < i + l \<Longrightarrow> List.find (\<lambda>j. j + l \<le> n \<and> P j) [i..<k] = None"
  by (auto simp: find_None_iff)

lemma strnstr_from_first:
  assumes "0 \<notin> set s" and "0 \<notin> set t" and "t \<noteq> []"
  shows "i \<le> length s \<Longrightarrow> strnstr_from (drop i s @ 0 # r) (t @ 0 # r') (length t) n i =
    Some (List.find (\<lambda>j. j + length t \<le> n \<and> take (length t) (drop j s) = t) [i..<Suc (length s)])"
proof (induction "length s - i" arbitrary: i)
  case 0
  then show ?case using assms(3) by simp
next
  case (Suc k)
  have lt: "i < length s" using Suc.hyps(2) by simp
  then have d: "drop i s = s ! i # drop (Suc i) s" "[i..<Suc (length s)] = i # [Suc i..<Suc (length s)]"
    by (simp_all add: Cons_nth_drop_Suc upt_conv_Cons)
  have ne: "s ! i \<noteq> 0" using assms(1) lt by (metis nth_mem)
  have nz: "0 \<notin> set (drop j s)" for j using assms(1) in_set_dropD by metis
  have IH: "strnstr_from (drop (Suc i) s @ 0 # r) (t @ 0 # r') (length t) n (Suc i) =
    Some (List.find (\<lambda>j. j + length t \<le> n \<and> take (length t) (drop j s) = t) [Suc i..<Suc (length s)])"
    using Suc.hyps lt by (intro Suc.hyps(1)) auto
  have cmp: "(if s ! i = hd (t @ 0 # r') then strncmp_equal (s ! i # drop (Suc i) s @ 0 # r) (t @ 0 # r') (length t) else Some False) =
      Some (take (length t) (drop i s) = t)"
    using strncmp_equal_prefix [OF nz assms(2), of i r r'] assms(3) nz [of "Suc i"] strncmp_equal_prefix [OF nz, of "tl t" "Suc i" r r'] assms(2)
    by (cases t) (simp_all add: d(1))
  show ?case
  proof (cases "i + length t \<le> n")
    case True
    then show ?thesis using ne cmp IH by (cases "take (length t) (drop i s) = t") (simp_all add: d del: upt_Suc)
  next
    case False
    then show ?thesis by (simp add: d(1) find_none_beyond del: upt_Suc)
  qed
qed

lemma strnistr_from_first:
  assumes "0 \<notin> set s" and "0 \<notin> set t" and "t \<noteq> []" and "length t < 2 ^ 32"
  shows "i \<le> length s \<Longrightarrow> strnistr_from (drop i s @ 0 # r) (t @ 0 # r') (length t) n i =
    Some (List.find (\<lambda>j. j + length t \<le> n \<and> map lower (take (length t) (drop j s)) = map lower t) [i..<Suc (length s)])"
proof (induction "length s - i" arbitrary: i)
  case 0
  then show ?case using assms(3) by simp
next
  case (Suc k)
  have lt: "i < length s" using Suc.hyps(2) by simp
  then have d: "drop i s = s ! i # drop (Suc i) s" "[i..<Suc (length s)] = i # [Suc i..<Suc (length s)]"
    by (simp_all add: Cons_nth_drop_Suc upt_conv_Cons)
  have ne: "s ! i \<noteq> 0" using assms(1) lt by (metis nth_mem)
  have nz: "0 \<notin> set (drop j s)" for j using assms(1) in_set_dropD by metis
  have IH: "strnistr_from (drop (Suc i) s @ 0 # r) (t @ 0 # r') (length t) n (Suc i) =
    Some (List.find (\<lambda>j. j + length t \<le> n \<and> map lower (take (length t) (drop j s)) = map lower t) [Suc i..<Suc (length s)])"
    using Suc.hyps lt by (intro Suc.hyps(1)) auto
  have cmp: "lwip_strnicmp (s ! i # drop (Suc i) s @ 0 # r) (t @ 0 # r') (of_nat (length t)) =
      Some (if map lower (take (length t) (drop i s)) = map lower t then 0 else 1)"
    using strnicmp_prefix [OF nz assms(2-4), of i r r'] by (simp add: d(1))
  show ?case
  proof (cases "i + length t \<le> n")
    case True
    then show ?thesis using ne cmp IH
      by (cases "map lower (take (length t) (drop i s)) = map lower t") (simp_all add: d del: upt_Suc)
  next
    case False
    then show ?thesis by (simp add: d(1) find_none_beyond del: upt_Suc)
  qed
qed

lemma strnstr_finds_first:
  assumes "0 \<notin> set s" and "0 \<notin> set t"
  shows "lwip_strnstr (s @ 0 # r) (t @ 0 # r') n = Some (first_match (=) s t n)"
  using strnstr_from_first [OF assms, of 0 r r' n] assms
  by (cases "t = []") (simp_all add: lwip_strnstr_def first_match_def upt_conv_Cons del: upt_Suc)

text \<open>
  The search without the case of letters finds the first match. In a buffer with a terminated string \<^verbatim>\<open>lwip_strnistr\<close> returns the first index
  at which the token stands up to the case of its letters and that leaves it within the first \<open>n\<close> bytes, and the null pointer if
  there is none; it reads nothing behind the terminators.
\<close>

theorem strnistr_finds_first:
  assumes "0 \<notin> set s" and "0 \<notin> set t" and "length t < 2 ^ 32"
  shows "lwip_strnistr (s @ 0 # r) (t @ 0 # r') n = Some (first_match (\<lambda>x y. map lower x = map lower y) s t n)"
  using strnistr_from_first [OF assms(1,2) _ assms(3), of 0 r r' n] assms
  by (cases "t = []") (simp_all add: lwip_strnistr_def first_match_def upt_conv_Cons del: upt_Suc)

theorem strnistr_finds_first_witness:
  "lwip_strnistr ([0x61, 0x42, 0x63] @ 0 # []) ([0x62] @ 0 # []) 3 = Some (Some 1)"
  using strnistr_finds_first [of "[0x61, 0x42, 0x63]" "[0x62]" "[]" "[]" 3]
  by (simp add: first_match_def lower_def upt_conv_Cons)

text \<open>A bounded search looks at the character behind the bound when the token has one character: an unterminated buffer is overread.\<close>

lemma strnstr_reads_past_bound: "lwip_strnstr [0x61] [0x62, 0] 1 = None"
  by (simp add: lwip_strnstr_def)

lemma or_differences_zero:
  "length a = n \<Longrightarrow> length b = n \<Longrightarrow> \<exists>x. or_differences (a @ r) (b @ r') n ret = Some x \<and> (x = 0 \<longleftrightarrow> ret = 0 \<and> a = b)"
proof (induction n arbitrary: a b ret)
  case (Suc n)
  obtain x a' y b' where ab: "a = x # a'" "b = y # b'" "length a' = n" "length b' = n"
    using Suc.prems by (auto simp: length_Suc_conv)
  have "x XOR y = 0 \<longleftrightarrow> x = y"
  proof
    assume a: "x XOR y = 0"
    have "x = (x XOR y) XOR y" by (simp only: xor.assoc) simp
    also have "\<dots> = y" unfolding a by simp
    finally show "x = y" .
  qed simp
  then have z: "ret OR (x XOR y) = 0 \<longleftrightarrow> ret = 0 \<and> x = y" by (simp add: or_eq_0_iff)
  show ?case using Suc.IH [OF ab(3,4), of "ret OR (x XOR y)"] ab(1,2) by (auto simp: z)
qed simp

lemma memcmp_consttime_equal:
  assumes "length a = n" and "length b = n"
  shows "\<exists>x. lwip_memcmp_consttime (a @ r) (b @ r') n = Some x \<and> (x = 0 \<longleftrightarrow> a = b)"
  using or_differences_zero [OF assms, of r r' 0] by (auto simp: lwip_memcmp_consttime_def uint_0_iff)

end
