(* ===== verification/Memp.thy ===== *)
theory Memp
  imports Prelude
begin

text \<open>
  The memory pools of the network stack, \<^verbatim>\<open>lwip/src/core/memp.c\<close>: elements of one size in an array, the free ones threaded
  on a list through their first word. Addresses are naturals, with 0 for the null pointer; the first word of every element is the store
  \<open>mp_next\<close>, which the owner of a live element may overwrite. A failed \<^verbatim>\<open>LWIP_ASSERT\<close>, which the port turns into an endless loop, is
  \<open>None\<close>. Statistics, overflow and sanity checks are configured off.
\<close>

section \<open>Pools\<close>

record memp_pool =
  mp_size :: nat
  mp_num :: nat
  mp_base :: nat
  mp_tab :: nat
  mp_next :: "nat \<Rightarrow> nat"

definition MEM_ALIGNMENT :: nat where "MEM_ALIGNMENT = 4"

definition LWIP_MEM_ALIGN :: "nat \<Rightarrow> nat" where
  "LWIP_MEM_ALIGN a = (a + MEM_ALIGNMENT - 1) div MEM_ALIGNMENT * MEM_ALIGNMENT"

definition LWIP_MEM_ALIGN_SIZE :: "nat \<Rightarrow> nat" where
  "LWIP_MEM_ALIGN_SIZE n = (n + MEM_ALIGNMENT - 1) div MEM_ALIGNMENT * MEM_ALIGNMENT"

text \<open>The descriptor of a pool; its size is rounded up.\<close>

definition LWIP_MEMPOOL_DECLARE :: "nat \<Rightarrow> nat \<Rightarrow> nat \<Rightarrow> (nat \<Rightarrow> nat) \<Rightarrow> memp_pool" where
  "LWIP_MEMPOOL_DECLARE num elsize base memory =
     \<lparr>mp_size = LWIP_MEM_ALIGN_SIZE elsize, mp_num = num, mp_base = base, mp_tab = 0, mp_next = memory\<rparr>"

fun init_elements :: "nat \<Rightarrow> nat \<Rightarrow> memp_pool \<Rightarrow> memp_pool" where
  "init_elements 0 memp p = p"
| "init_elements (Suc n) memp p =
     init_elements n (memp + mp_size p) (p\<lparr>mp_next := (mp_next p)(memp := mp_tab p), mp_tab := memp\<rparr>)"

definition memp_init_pool :: "memp_pool \<Rightarrow> memp_pool" where
  "memp_init_pool p = init_elements (mp_num p) (LWIP_MEM_ALIGN (mp_base p)) (p\<lparr>mp_tab := 0\<rparr>)"

definition do_memp_malloc_pool :: "memp_pool \<Rightarrow> (nat \<times> memp_pool) option" where
  "do_memp_malloc_pool p =
     (let memp = mp_tab p
      in if memp \<noteq> 0 then
           let p = p\<lparr>mp_tab := mp_next p memp\<rparr>
           in if memp mod MEM_ALIGNMENT = 0 then Some (memp, p) else None
         else Some (0, p))"

definition do_memp_free_pool :: "nat \<Rightarrow> memp_pool \<Rightarrow> memp_pool option" where
  "do_memp_free_pool mem p =
     (if mem mod MEM_ALIGNMENT = 0 then Some (p\<lparr>mp_next := (mp_next p)(mem := mp_tab p), mp_tab := mem\<rparr>) else None)"

definition memp_free_pool :: "nat \<Rightarrow> memp_pool \<Rightarrow> memp_pool option" where
  "memp_free_pool mem p = (if mem = 0 then Some p else do_memp_free_pool mem p)"

section \<open>The built-in pools\<close>

definition memp_init :: "memp_pool list \<Rightarrow> memp_pool list" where
  "memp_init pools = map memp_init_pool pools"

definition memp_malloc :: "nat \<Rightarrow> memp_pool list \<Rightarrow> (nat \<times> memp_pool list) option" where
  "memp_malloc type pools =
     (if type < length pools
      then map_option (\<lambda>(memp, p). (memp, pools[type := p])) (do_memp_malloc_pool (pools ! type))
      else Some (0, pools))"

definition memp_free :: "nat \<Rightarrow> nat \<Rightarrow> memp_pool list \<Rightarrow> memp_pool list option" where
  "memp_free type mem pools =
     (if type < length pools
      then if mem = 0 then Some pools else map_option (\<lambda>p. pools[type := p]) (do_memp_free_pool mem (pools ! type))
      else Some pools)"

section \<open>The list of free elements\<close>

fun free_chain :: "(nat \<Rightarrow> nat) \<Rightarrow> nat \<Rightarrow> nat list \<Rightarrow> bool" where
  "free_chain n t [] \<longleftrightarrow> t = 0"
| "free_chain n t (x # xs) \<longleftrightarrow> t = x \<and> x \<noteq> 0 \<and> free_chain n (n x) xs"

lemma free_chain_upd: "x \<notin> set xs \<Longrightarrow> free_chain (n(x := v)) t xs = free_chain n t xs"
  by (induction xs arbitrary: t) auto

lemma free_chain_nonzero: "free_chain n t xs \<Longrightarrow> 0 \<notin> set xs"
  by (induction xs arbitrary: t) auto

definition elements :: "memp_pool \<Rightarrow> nat list" where
  "elements p = map (\<lambda>i. LWIP_MEM_ALIGN (mp_base p) + i * mp_size p) [0..<mp_num p]"

definition pool_declared :: "memp_pool \<Rightarrow> bool" where
  "pool_declared p \<longleftrightarrow> 0 < mp_base p \<and> 0 < mp_size p \<and> mp_size p mod MEM_ALIGNMENT = 0"

text \<open>The elements are the free ones on the list and the live ones, each once.\<close>

definition pool_ok :: "memp_pool \<Rightarrow> nat list \<Rightarrow> bool" where
  "pool_ok p live \<longleftrightarrow> pool_declared p \<and>
     (\<exists>fs. free_chain (mp_next p) (mp_tab p) fs \<and> distinct (fs @ live) \<and> set (fs @ live) = set (elements p))"

lemma declared_pool: "0 < elsize \<Longrightarrow> 0 < base \<Longrightarrow> pool_declared (LWIP_MEMPOOL_DECLARE num elsize base memory)"
  by (simp add: pool_declared_def LWIP_MEMPOOL_DECLARE_def LWIP_MEM_ALIGN_SIZE_def MEM_ALIGNMENT_def)

lemma align_aligned [simp]: "LWIP_MEM_ALIGN a mod MEM_ALIGNMENT = 0"
  by (simp add: LWIP_MEM_ALIGN_def)

lemma align_up: "a \<le> LWIP_MEM_ALIGN a"
  unfolding LWIP_MEM_ALIGN_def MEM_ALIGNMENT_def by simp

lemma elements_ok:
  assumes "pool_declared p"
  shows "distinct (elements p)" "a \<in> set (elements p) \<Longrightarrow> a \<noteq> 0 \<and> a mod MEM_ALIGNMENT = 0" "length (elements p) = mp_num p"
proof -
  show "distinct (elements p)" using assms by (auto simp: elements_def pool_declared_def distinct_map inj_on_def)
  show "length (elements p) = mp_num p" by (simp add: elements_def)
  assume "a \<in> set (elements p)"
  then obtain i where a: "a = LWIP_MEM_ALIGN (mp_base p) + i * mp_size p" by (auto simp: elements_def)
  have "MEM_ALIGNMENT dvd LWIP_MEM_ALIGN (mp_base p)" "MEM_ALIGNMENT dvd mp_size p"
    using assms by (simp_all add: pool_declared_def mod_eq_0_iff_dvd LWIP_MEM_ALIGN_def)
  then have "a mod MEM_ALIGNMENT = 0" by (simp add: a mod_eq_0_iff_dvd)
  moreover have "a \<noteq> 0" using assms align_up [of "mp_base p"] by (simp add: a pool_declared_def)
  ultimately show "a \<noteq> 0 \<and> a mod MEM_ALIGNMENT = 0" by simp
qed

text \<open>Two elements are at least one size apart.\<close>

lemma elements_disjoint:
  assumes "a \<in> set (elements p)" and "b \<in> set (elements p)" and "a < b"
  shows "a + mp_size p \<le> b"
proof -
  obtain i j where ij: "a = LWIP_MEM_ALIGN (mp_base p) + i * mp_size p" "b = LWIP_MEM_ALIGN (mp_base p) + j * mp_size p"
    using assms(1,2) by (auto simp: elements_def)
  then have "i < j" using assms(3) by (metis add_less_cancel_left mult_less_cancel2)
  then have "(i + 1) * mp_size p \<le> j * mp_size p" by (intro mult_le_mono1) simp
  then show ?thesis using ij by simp
qed

lemma init_elements_ok:
  assumes "free_chain (mp_next p) (mp_tab p) fs" and "0 < memp" and "0 < mp_size p" and "\<forall>x \<in> set fs. x < memp"
  shows "free_chain (mp_next (init_elements n memp p)) (mp_tab (init_elements n memp p)) (rev (map (\<lambda>i. memp + i * mp_size p) [0..<n]) @ fs) \<and>
    mp_size (init_elements n memp p) = mp_size p \<and> mp_num (init_elements n memp p) = mp_num p \<and> mp_base (init_elements n memp p) = mp_base p"
  using assms
proof (induction n arbitrary: memp p fs)
  case 0
  then show ?case by simp
next
  case (Suc n)
  let ?p = "p\<lparr>mp_next := (mp_next p)(memp := mp_tab p), mp_tab := memp\<rparr>"
  have "free_chain (mp_next ?p) (mp_tab ?p) (memp # fs)" using Suc.prems by (auto simp: free_chain_upd)
  moreover have "\<forall>x \<in> set (memp # fs). x < memp + mp_size p" using Suc.prems(3,4) by auto
  moreover have "0 < memp + mp_size p" using Suc.prems(2) by simp
  ultimately have IH: "free_chain (mp_next (init_elements n (memp + mp_size p) ?p)) (mp_tab (init_elements n (memp + mp_size p) ?p))
      (rev (map (\<lambda>i. memp + mp_size p + i * mp_size ?p) [0..<n]) @ memp # fs) \<and>
    mp_size (init_elements n (memp + mp_size p) ?p) = mp_size ?p \<and> mp_num (init_elements n (memp + mp_size p) ?p) = mp_num ?p \<and>
    mp_base (init_elements n (memp + mp_size p) ?p) = mp_base ?p"
    using Suc.prems(3) by (intro Suc.IH) (simp_all del: fun_upd_apply)
  have "map (\<lambda>i. memp + i * mp_size p) [0..<Suc n] = memp # map (\<lambda>i. memp + mp_size p + i * mp_size p) [0..<n]"
    by (simp add: upt_rec [of 0 "Suc n"] map_Suc_upt [symmetric] del: upt_Suc)
  then show ?case using IH by simp
qed

lemma init_pool_ok: "pool_declared p \<Longrightarrow> pool_ok (memp_init_pool p) []"
proof -
  assume d: "pool_declared p"
  let ?a = "LWIP_MEM_ALIGN (mp_base p)"
  have "free_chain (mp_next (p\<lparr>mp_tab := 0\<rparr>)) (mp_tab (p\<lparr>mp_tab := 0\<rparr>)) []" by simp
  moreover have "0 < ?a" using d align_up [of "mp_base p"] by (simp add: pool_declared_def)
  ultimately have i: "free_chain (mp_next (memp_init_pool p)) (mp_tab (memp_init_pool p)) (rev (elements p) @ [])"
    "mp_size (memp_init_pool p) = mp_size p" "mp_num (memp_init_pool p) = mp_num p" "mp_base (memp_init_pool p) = mp_base p"
    using init_elements_ok [of "p\<lparr>mp_tab := 0\<rparr>" "[]" ?a "mp_num p"] d
    by (simp_all add: memp_init_pool_def elements_def pool_declared_def)
  then have "elements (memp_init_pool p) = elements p" "pool_declared (memp_init_pool p)" using d by (simp_all add: elements_def pool_declared_def)
  then show ?thesis using i(1) elements_ok(1) [OF d] unfolding pool_ok_def by (intro conjI exI [of _ "rev (elements p)"]) simp_all
qed

section \<open>Using a pool\<close>

datatype pool_op = Alloc | Free nat | Store nat nat

text \<open>The owner frees live elements only and writes to live elements only.\<close>

fun pool_step :: "pool_op \<Rightarrow> memp_pool \<times> nat list \<Rightarrow> (memp_pool \<times> nat list) option" where
  "pool_step Alloc (p, live) = map_option (\<lambda>(a, p). (p, if a = 0 then live else a # live)) (do_memp_malloc_pool p)"
| "pool_step (Free a) (p, live) = (if a \<in> set live then map_option (\<lambda>p. (p, remove1 a live)) (memp_free_pool a p) else Some (p, live))"
| "pool_step (Store a v) (p, live) = Some (if a \<in> set live then (p\<lparr>mp_next := (mp_next p)(a := v)\<rparr>, live) else (p, live))"

fun pool_run :: "pool_op list \<Rightarrow> memp_pool \<times> nat list \<Rightarrow> (memp_pool \<times> nat list) option" where
  "pool_run [] s = Some s"
| "pool_run (op # ops) s = Option.bind (pool_step op s) (pool_run ops)"

lemma malloc_ok:
  assumes "pool_ok p live"
  shows "\<exists>a p'. do_memp_malloc_pool p = Some (a, p') \<and> elements p' = elements p \<and>
    (if a = 0 then p' = p \<and> set live = set (elements p) else a \<in> set (elements p) \<and> a \<notin> set live \<and> pool_ok p' (a # live))"
proof -
  obtain fs where fs: "free_chain (mp_next p) (mp_tab p) fs" "distinct (fs @ live)" "set (fs @ live) = set (elements p)" and d: "pool_declared p"
    using assms by (auto simp: pool_ok_def)
  show ?thesis
  proof (cases fs)
    case Nil
    then show ?thesis using fs by (intro exI [of _ 0] exI [of _ p]) (simp add: do_memp_malloc_pool_def Let_def)
  next
    case (Cons a rest)
    let ?p = "p\<lparr>mp_tab := mp_next p a\<rparr>"
    have a: "mp_tab p = a" "a \<noteq> 0" "free_chain (mp_next p) (mp_next p a) rest" "a \<in> set (elements p)" "a \<notin> set live"
      using fs Cons by auto
    have e: "elements ?p = elements p" by (simp add: elements_def)
    have "pool_ok ?p (a # live)" unfolding pool_ok_def e using d a(3) fs Cons by (intro conjI exI [of _ rest]) (auto simp: pool_declared_def)
    then show ?thesis using a e elements_ok(2) [OF d a(4)]
      by (intro exI [of _ a] exI [of _ ?p]) (simp add: do_memp_malloc_pool_def Let_def)
  qed
qed

lemma free_ok:
  assumes "pool_ok p live" and "a \<in> set live"
  shows "\<exists>p'. memp_free_pool a p = Some p' \<and> elements p' = elements p \<and> pool_ok p' (remove1 a live)"
proof -
  obtain fs where fs: "free_chain (mp_next p) (mp_tab p) fs" "distinct (fs @ live)" "set (fs @ live) = set (elements p)" and d: "pool_declared p"
    using assms by (auto simp: pool_ok_def)
  let ?p = "p\<lparr>mp_next := (mp_next p)(a := mp_tab p), mp_tab := a\<rparr>"
  have a: "a \<in> set (elements p)" "a \<notin> set fs" using assms(2) fs(2,3) by auto
  note n = elements_ok(2) [OF d a(1)]
  have e: "elements ?p = elements p" by (simp add: elements_def)
  have "free_chain (mp_next ?p) (mp_tab ?p) (a # fs)" using n a(2) fs(1) by (simp add: free_chain_upd del: fun_upd_apply) simp
  moreover have "distinct ((a # fs) @ remove1 a live)" "set ((a # fs) @ remove1 a live) = set (elements p)"
    using fs(2,3) a(2) assms(2) by (auto simp: set_remove1_eq)
  ultimately have "pool_ok ?p (remove1 a live)" 
    unfolding pool_ok_def e using d by (intro conjI exI [of _ "a # fs"]) (simp_all add: pool_declared_def del: free_chain.simps)
  then show ?thesis using n e by (intro exI [of _ ?p]) (simp add: memp_free_pool_def do_memp_free_pool_def)
qed

lemma store_ok:
  assumes "pool_ok p live" and "a \<in> set live"
  shows "pool_ok (p\<lparr>mp_next := (mp_next p)(a := v)\<rparr>) live"
proof -
  obtain fs where fs: "free_chain (mp_next p) (mp_tab p) fs" "distinct (fs @ live)" "set (fs @ live) = set (elements p)" and d: "pool_declared p"
    using assms by (auto simp: pool_ok_def)
  then have "free_chain ((mp_next p)(a := v)) (mp_tab p) fs" using assms(2) by (subst free_chain_upd) auto
  then show ?thesis using fs d unfolding pool_ok_def elements_def pool_declared_def by (intro conjI exI [of _ fs]) simp_all
qed

lemma pool_step_ok:
  assumes "pool_ok p live"
  shows "\<exists>p' live'. pool_step op (p, live) = Some (p', live') \<and> pool_ok p' live' \<and> elements p' = elements p"
proof (cases op)
  case Alloc
  obtain a p' where "do_memp_malloc_pool p = Some (a, p')" "elements p' = elements p"
    "if a = 0 then p' = p \<and> set live = set (elements p) else a \<in> set (elements p) \<and> a \<notin> set live \<and> pool_ok p' (a # live)"
    using malloc_ok [OF assms] by blast
  then show ?thesis using assms Alloc by (cases "a = 0") simp_all
next
  case (Free a)
  with free_ok [OF assms] assms show ?thesis by (cases "a \<in> set live") auto
next
  case (Store a v)
  with store_ok [OF assms, of a v] assms show ?thesis by (cases "a \<in> set live") (auto simp: elements_def simp del: fun_upd_apply)
qed

lemma pool_run_ok: "pool_ok p live \<Longrightarrow> \<exists>p' live'. pool_run ops (p, live) = Some (p', live') \<and> pool_ok p' live' \<and> elements p' = elements p"
proof (induction ops arbitrary: p live)
  case Nil
  then show ?case by simp
next
  case (Cons op ops)
  from pool_step_ok [OF Cons.prems, of op] obtain p1 live1 where 1: "pool_step op (p, live) = Some (p1, live1)" "pool_ok p1 live1" "elements p1 = elements p"
    by blast
  from Cons.IH [OF 1(2)] 1 show ?case by auto
qed

text \<open>
  C35: A pool hands out each of its elements to one owner at a time. After any run of allocations, releases of
  live elements and writes into live elements, also into the word that links free elements, the live elements are distinct, aligned, inside the array
  and at least the size of an element apart; the next allocation returns, with one that is not live, and
  fails exactly when all \<open>num\<close> are.
\<close>

theorem pool_exclusive:
  assumes "0 < elsize" and "0 < base" and "P = LWIP_MEMPOOL_DECLARE num elsize base memory"
  shows "\<exists>p live a p'. pool_run ops (memp_init_pool P, []) = Some (p, live) \<and> do_memp_malloc_pool p = Some (a, p') \<and>
    distinct live \<and> (a = 0 \<longleftrightarrow> length live = num) \<and> (a \<noteq> 0 \<longrightarrow> a \<notin> set live) \<and>
    (\<forall>x \<in> set (if a = 0 then live else a # live). x mod MEM_ALIGNMENT = 0 \<and> base \<le> x \<and> x + LWIP_MEM_ALIGN_SIZE elsize \<le> LWIP_MEM_ALIGN base + num * LWIP_MEM_ALIGN_SIZE elsize \<and>
      (\<forall>y \<in> set (if a = 0 then live else a # live). x < y \<longrightarrow> x + LWIP_MEM_ALIGN_SIZE elsize \<le> y))"
proof -
  have d: "pool_declared P" using declared_pool [OF assms(1,2)] assms(3) by simp
  from pool_run_ok [OF init_pool_ok [OF d], of ops] obtain p live where r: "pool_run ops (memp_init_pool P, []) = Some (p, live)"
    "pool_ok p live" "elements p = elements (memp_init_pool P)" by blast
  from malloc_ok [OF r(2)] obtain a p' where m: "do_memp_malloc_pool p = Some (a, p')"
    "if a = 0 then p' = p \<and> set live = set (elements p) else a \<in> set (elements p) \<and> a \<notin> set live \<and> pool_ok p' (a # live)" by blast
  have i: "mp_size (memp_init_pool P) = LWIP_MEM_ALIGN_SIZE elsize" "mp_num (memp_init_pool P) = num" "mp_base (memp_init_pool P) = base"
    using init_elements_ok [of "P\<lparr>mp_tab := 0\<rparr>" "[]" "LWIP_MEM_ALIGN (mp_base P)" "mp_num P"] d align_up [of base]
    by (simp_all add: memp_init_pool_def assms(3) LWIP_MEMPOOL_DECLARE_def pool_declared_def)
  have e: "elements p = elements P" using r(3) i by (simp add: elements_def assms(3) LWIP_MEMPOOL_DECLARE_def)
  have P: "mp_size P = LWIP_MEM_ALIGN_SIZE elsize" "mp_num P = num" "mp_base P = base" by (simp_all add: assms(3) LWIP_MEMPOOL_DECLARE_def)
  let ?S = "if a = 0 then live else a # live"
  have l: "distinct live" "set live \<subseteq> set (elements P)" using r(2) by (auto simp: pool_ok_def e [symmetric])
  have sub: "set ?S \<subseteq> set (elements P)" using m(2) l(2) e by (auto split: if_splits)
  have len: "length live = num \<longleftrightarrow> set live = set (elements P)"
    using l elements_ok(1,3) [OF d] P(2) by (metis card_subset_eq distinct_card List.finite_set)
  have bounds: "x mod MEM_ALIGNMENT = 0 \<and> base \<le> x \<and> x + LWIP_MEM_ALIGN_SIZE elsize \<le> LWIP_MEM_ALIGN base + num * LWIP_MEM_ALIGN_SIZE elsize"
    if "x \<in> set (elements P)" for x
  proof -
    note x = that
    obtain j where j: "x = LWIP_MEM_ALIGN base + j * LWIP_MEM_ALIGN_SIZE elsize" "j < num" using x unfolding elements_def P by (auto simp only: set_map set_upt image_iff atLeastLessThan_iff)
    then have "(j + 1) * LWIP_MEM_ALIGN_SIZE elsize \<le> num * LWIP_MEM_ALIGN_SIZE elsize" by (intro mult_le_mono1) simp
    then show ?thesis using elements_ok(2) [OF d x] j(1) align_up [of base] by simp
  qed
  have "a = 0 \<longleftrightarrow> length live = num" using m(2) len l e by (auto split: if_splits)
  moreover have "a \<noteq> 0 \<longrightarrow> a \<notin> set live" using m(2) by simp
  moreover have "\<forall>x \<in> set ?S. x mod MEM_ALIGNMENT = 0 \<and> base \<le> x \<and>
      x + LWIP_MEM_ALIGN_SIZE elsize \<le> LWIP_MEM_ALIGN base + num * LWIP_MEM_ALIGN_SIZE elsize \<and>
      (\<forall>y \<in> set ?S. x < y \<longrightarrow> x + LWIP_MEM_ALIGN_SIZE elsize \<le> y)" (is "\<forall>x \<in> set ?S. ?Q x")
  proof
    fix x assume x: "x \<in> set ?S"
    then have "\<forall>y \<in> set ?S. x < y \<longrightarrow> x + LWIP_MEM_ALIGN_SIZE elsize \<le> y" using elements_disjoint [of x P] sub P(1) by (metis subsetD)
    then show "?Q x" using bounds [of x] x sub by blast
  qed
  ultimately show ?thesis using r(1) m(1) l(1)
    by - (rule exI [of _ p], rule exI [of _ live], rule exI [of _ a], rule exI [of _ p'], intro conjI; assumption)
qed

theorem pool_exclusive_witness:
  "\<exists>p live a p'. pool_run [Alloc, Alloc, Store 104 7, Free 116, Alloc, Alloc] (memp_init_pool (LWIP_MEMPOOL_DECLARE 2 10 101 (\<lambda>_. 1)), []) = Some (p, live) \<and>
     do_memp_malloc_pool p = Some (a, p') \<and> (a = 0 \<longleftrightarrow> length live = 2)"
proof -
  have "(0 :: nat) < 10" "(0 :: nat) < 101" by simp_all
  from pool_exclusive [OF this refl, where num = 2 and memory = "\<lambda>_. 1" and ops = "[Alloc, Alloc, Store 104 7, Free 116, Alloc, Alloc]"]
  show ?thesis by blast
qed

end
