(* ===== verification/LwipHeap.thy ===== *)
theory LwipHeap
  imports Memp "HOL-Library.Monad_Syntax"
begin

text \<open>
  The heap of the network stack, \<^verbatim>\<open>lwip/src/core/mem.c\<close>: blocks that tile the array \<open>ram\<close>, each with a header that holds the indices of the
  next and the previous block. A pointer to a header is its index in \<open>ram\<close>, a pointer that the user sees is an address. While
  \<^verbatim>\<open>mem_malloc\<close> walks the blocks it opens windows in which interrupts and other tasks may free blocks; what they free is
  an argument of the model, one list of pointers for each window. A failed assertion, illegal frees included, is \<open>None\<close>. Statistics, overflow and
  sanity checks are configured off; the mutex that serialises allocations is not part of the state.
\<close>

section \<open>Blocks\<close>

record mem_block =
  mem_next :: nat
  mem_prev :: nat
  mem_used :: bool

record lwip_heap =
  ram :: nat
  mems :: "nat \<Rightarrow> mem_block"
  lfree :: nat
  mem_free_count :: bool

definition MEM_SIZE :: nat where "MEM_SIZE = 22 * 1024"

definition MIN_SIZE_ALIGNED :: nat where "MIN_SIZE_ALIGNED = LWIP_MEM_ALIGN_SIZE 12"

definition SIZEOF_STRUCT_MEM :: nat where "SIZEOF_STRUCT_MEM = LWIP_MEM_ALIGN_SIZE 6"

definition MEM_SIZE_ALIGNED :: nat where "MEM_SIZE_ALIGNED = LWIP_MEM_ALIGN_SIZE MEM_SIZE"

lemma heap_constants [simp]: "MIN_SIZE_ALIGNED = 12" "SIZEOF_STRUCT_MEM = 8" "MEM_SIZE_ALIGNED = 22528"
  by (simp_all add: MIN_SIZE_ALIGNED_def SIZEOF_STRUCT_MEM_def MEM_SIZE_ALIGNED_def MEM_SIZE_def LWIP_MEM_ALIGN_SIZE_def MEM_ALIGNMENT_def)

text \<open>Conversion to \<^verbatim>\<open>mem_size_t\<close>, and differences of unsigned 16 and 32 bits.\<close>

definition mem_size :: "nat \<Rightarrow> nat" where "mem_size n = n mod 65536"

definition diff16 :: "nat \<Rightarrow> nat \<Rightarrow> nat" where "diff16 a b = unat (of_nat a - of_nat b :: u16)"

definition diff32 :: "nat \<Rightarrow> nat \<Rightarrow> nat" where "diff32 a b = unat (of_nat a - of_nat b :: u32)"

definition set_mem :: "nat \<Rightarrow> (mem_block \<Rightarrow> mem_block) \<Rightarrow> lwip_heap \<Rightarrow> lwip_heap" where
  "set_mem p f h = h\<lparr>mems := (mems h)(p := f (mems h p))\<rparr>"

definition set_next :: "nat \<Rightarrow> nat \<Rightarrow> lwip_heap \<Rightarrow> lwip_heap" where
  "set_next p n = set_mem p (\<lambda>b. b\<lparr>mem_next := n\<rparr>)"

definition set_prev :: "nat \<Rightarrow> nat \<Rightarrow> lwip_heap \<Rightarrow> lwip_heap" where
  "set_prev p n = set_mem p (\<lambda>b. b\<lparr>mem_prev := n\<rparr>)"

definition set_used :: "nat \<Rightarrow> bool \<Rightarrow> lwip_heap \<Rightarrow> lwip_heap" where
  "set_used p u = set_mem p (\<lambda>b. b\<lparr>mem_used := u\<rparr>)"

definition mem_init :: "nat \<Rightarrow> lwip_heap \<Rightarrow> lwip_heap" where
  "mem_init ram_heap h =
     (let r = LWIP_MEM_ALIGN ram_heap;
          h = set_mem 0 (\<lambda>_. \<lparr>mem_next = MEM_SIZE_ALIGNED, mem_prev = 0, mem_used = False\<rparr>) (h\<lparr>ram := r\<rparr>);
          h = set_mem MEM_SIZE_ALIGNED (\<lambda>_. \<lparr>mem_next = MEM_SIZE_ALIGNED, mem_prev = MEM_SIZE_ALIGNED, mem_used = True\<rparr>) h
      in h\<lparr>lfree := 0\<rparr>)"

section \<open>Freeing\<close>

definition plug_forward :: "nat \<Rightarrow> lwip_heap \<Rightarrow> lwip_heap" where
  "plug_forward mem h =
     (let nmem = mem_next (mems h mem)
      in if mem \<noteq> nmem \<and> \<not> mem_used (mems h nmem) \<and> nmem \<noteq> MEM_SIZE_ALIGNED then
           let h = (if lfree h = nmem then h\<lparr>lfree := mem\<rparr> else h);
               h = set_next mem (mem_next (mems h nmem)) h
           in if mem_next (mems h nmem) \<noteq> MEM_SIZE_ALIGNED then set_prev (mem_next (mems h nmem)) mem h else h
         else h)"

definition plug_backward :: "nat \<Rightarrow> lwip_heap \<Rightarrow> lwip_heap" where
  "plug_backward mem h =
     (let pmem = mem_prev (mems h mem)
      in if pmem \<noteq> mem \<and> \<not> mem_used (mems h pmem) then
           let h = (if lfree h = mem then h\<lparr>lfree := pmem\<rparr> else h);
               h = set_next pmem (mem_next (mems h mem)) h
           in if mem_next (mems h mem) \<noteq> MEM_SIZE_ALIGNED then set_prev (mem_next (mems h mem)) pmem h else h
         else h)"

definition plug_holes :: "nat \<Rightarrow> lwip_heap \<Rightarrow> lwip_heap option" where
  "plug_holes mem h =
     (if mem < MEM_SIZE_ALIGNED \<and> \<not> mem_used (mems h mem) \<and> mem_next (mems h mem) \<le> MEM_SIZE_ALIGNED
      then Some (plug_backward mem (plug_forward mem h)) else None)"

definition mem_link_valid :: "nat \<Rightarrow> lwip_heap \<Rightarrow> bool" where
  "mem_link_valid mem h =
     (let rmem_idx = mem; nmem = mem_next (mems h mem); pmem = mem_prev (mems h mem)
      in \<not> (mem_next (mems h mem) > MEM_SIZE_ALIGNED \<or> mem_prev (mems h mem) > MEM_SIZE_ALIGNED \<or>
           (mem_prev (mems h mem) \<noteq> rmem_idx \<and> mem_next (mems h pmem) \<noteq> rmem_idx) \<or>
           (nmem \<noteq> MEM_SIZE_ALIGNED \<and> mem_prev (mems h nmem) \<noteq> rmem_idx)))"

definition mem_free :: "nat \<Rightarrow> lwip_heap \<Rightarrow> lwip_heap option" where
  "mem_free rmem h =
     (if rmem = 0 then Some h
      else if rmem mod MEM_ALIGNMENT \<noteq> 0 then None
      else if rmem < ram h + SIZEOF_STRUCT_MEM \<or> rmem + MIN_SIZE_ALIGNED > ram h + MEM_SIZE_ALIGNED then None
      else
        let mem = rmem - SIZEOF_STRUCT_MEM - ram h
        in if \<not> mem_used (mems h mem) then None
           else if \<not> mem_link_valid mem h then None
           else
             let h = set_used mem False h;
                 h = (if mem < lfree h then h\<lparr>lfree := mem\<rparr> else h)
             in map_option (\<lambda>h. h\<lparr>mem_free_count := True\<rparr>) (plug_holes mem h))"

section \<open>Shrinking\<close>

definition mem_trim :: "nat \<Rightarrow> nat \<Rightarrow> lwip_heap \<Rightarrow> (nat \<times> lwip_heap) option" where
  "mem_trim rmem new_size h =
     (let newsize = mem_size (LWIP_MEM_ALIGN_SIZE new_size);
          newsize = (if newsize < MIN_SIZE_ALIGNED then MIN_SIZE_ALIGNED else newsize)
      in if newsize > MEM_SIZE_ALIGNED \<or> newsize < new_size then Some (0, h)
         else if \<not> (ram h + SIZEOF_STRUCT_MEM \<le> rmem \<and> rmem < ram h + MEM_SIZE_ALIGNED) then None
         else
           let ptr = rmem - SIZEOF_STRUCT_MEM - ram h;
               sz = diff16 (diff16 (mem_next (mems h ptr)) ptr) SIZEOF_STRUCT_MEM
           in if \<not> newsize \<le> sz then None
              else if newsize = sz then Some (rmem, h)
              else
                let mem2 = mem_next (mems h ptr)
                in if \<not> mem_used (mems h mem2) then
                     if mem_next (mems h ptr) = MEM_SIZE_ALIGNED then None
                     else
                       let nx = mem_next (mems h mem2);
                           ptr2 = mem_size (ptr + SIZEOF_STRUCT_MEM + newsize);
                           h = (if lfree h = mem2 then h\<lparr>lfree := ptr2\<rparr> else h);
                           h = set_mem ptr2 (\<lambda>_. \<lparr>mem_next = nx, mem_prev = ptr, mem_used = False\<rparr>) h;
                           h = set_next ptr ptr2 h;
                           h = (if nx \<noteq> MEM_SIZE_ALIGNED then set_prev nx ptr2 h else h)
                       in Some (rmem, h\<lparr>mem_free_count := True\<rparr>)
                   else if newsize + SIZEOF_STRUCT_MEM + MIN_SIZE_ALIGNED \<le> sz then
                     let ptr2 = mem_size (ptr + SIZEOF_STRUCT_MEM + newsize)
                     in if mem_next (mems h ptr) = MEM_SIZE_ALIGNED then None
                        else
                          let h = (if ptr2 < lfree h then h\<lparr>lfree := ptr2\<rparr> else h);
                              h = set_mem ptr2 (\<lambda>_. \<lparr>mem_next = mem_next (mems h ptr), mem_prev = ptr, mem_used = False\<rparr>) h;
                              h = set_next ptr ptr2 h;
                              h = (if mem_next (mems h ptr2) \<noteq> MEM_SIZE_ALIGNED then set_prev (mem_next (mems h ptr2)) ptr2 h else h)
                          in Some (rmem, h\<lparr>mem_free_count := True\<rparr>)
                   else Some (rmem, h\<lparr>mem_free_count := True\<rparr>))"

section \<open>Allocating\<close>

fun free_all :: "nat list \<Rightarrow> lwip_heap \<Rightarrow> lwip_heap option" where
  "free_all [] h = Some h"
| "free_all (rmem # rs) h = do { h \<leftarrow> mem_free rmem h; free_all rs h }"

text \<open>The window between unprotecting and protecting: the flag is cleared, then the other contexts run.\<close>

fun open_window :: "nat list list \<Rightarrow> lwip_heap \<Rightarrow> (nat list list \<times> lwip_heap) option" where
  "open_window [] h = Some ([], h\<lparr>mem_free_count := False\<rparr>)"
| "open_window (rs # ws) h = map_option (\<lambda>h. (ws, h)) (free_all rs (h\<lparr>mem_free_count := False\<rparr>))"

datatype search_result = Restart | Found nat | Not_Found

partial_function (option) search_block :: "nat \<Rightarrow> nat \<Rightarrow> nat list list \<Rightarrow> lwip_heap \<Rightarrow> (search_result \<times> nat list list \<times> lwip_heap) option" where
  "search_block sz ptr ws h =
     (if ptr < MEM_SIZE_ALIGNED - sz then do {
        (ws, h) \<leftarrow> open_window ws h;
        if mem_free_count h then Some (Restart, ws, h)
        else if \<not> mem_used (mems h ptr) \<and> diff32 (mem_next (mems h ptr)) (ptr + SIZEOF_STRUCT_MEM) \<ge> sz then Some (Found ptr, ws, h)
        else search_block sz (mem_next (mems h ptr)) ws h }
      else Some (Not_Found, ws, h))"

text \<open>Taking the block, with the rest split off when it is large enough.\<close>

definition take_mem :: "nat \<Rightarrow> nat \<Rightarrow> lwip_heap \<Rightarrow> lwip_heap option" where
  "take_mem sz ptr h =
     (if diff32 (mem_next (mems h ptr)) (ptr + SIZEOF_STRUCT_MEM) \<ge> sz + SIZEOF_STRUCT_MEM + MIN_SIZE_ALIGNED then
        let ptr2 = mem_size (ptr + SIZEOF_STRUCT_MEM + sz)
        in if ptr2 = MEM_SIZE_ALIGNED then None
           else
             let h = set_mem ptr2 (\<lambda>_. \<lparr>mem_next = mem_next (mems h ptr), mem_prev = ptr, mem_used = False\<rparr>) h;
                 h = set_used ptr True (set_next ptr ptr2 h)
             in Some (if mem_next (mems h ptr2) \<noteq> MEM_SIZE_ALIGNED then set_prev (mem_next (mems h ptr2)) ptr2 h else h)
      else Some (set_used ptr True h))"

text \<open>The lowest free block is searched for again, from the start when a window has freed a block.\<close>

partial_function (option) next_unused :: "nat \<Rightarrow> nat list list \<Rightarrow> lwip_heap \<Rightarrow> (nat option \<times> nat list list \<times> lwip_heap) option" where
  "next_unused cur ws h =
     (if mem_used (mems h cur) \<and> cur \<noteq> MEM_SIZE_ALIGNED then do {
        (ws, h) \<leftarrow> open_window ws h;
        if mem_free_count h then Some (None, ws, h) else next_unused (mem_next (mems h cur)) ws h }
      else Some (Some cur, ws, h))"

partial_function (option) adjust_lfree :: "nat \<Rightarrow> nat list list \<Rightarrow> lwip_heap \<Rightarrow> (nat list list \<times> lwip_heap) option" where
  "adjust_lfree mem ws h =
     (if mem = lfree h then do {
        (cur, ws, h) \<leftarrow> next_unused (lfree h) ws h;
        case cur of
          None \<Rightarrow> adjust_lfree mem ws h
        | Some c \<Rightarrow>
            let h = h\<lparr>lfree := c\<rparr>
            in if lfree h = MEM_SIZE_ALIGNED \<or> \<not> mem_used (mems h (lfree h)) then Some (ws, h) else None }
      else Some (ws, h))"

partial_function (option) try_malloc :: "nat \<Rightarrow> nat list list \<Rightarrow> lwip_heap \<Rightarrow> (nat \<times> nat list list \<times> lwip_heap) option" where
  "try_malloc sz ws h = do {
     (r, ws, h) \<leftarrow> search_block sz (lfree h) ws h;
     case r of
       Restart \<Rightarrow> try_malloc sz ws h
     | Not_Found \<Rightarrow> Some (0, ws, h)
     | Found mem \<Rightarrow> do {
         h \<leftarrow> take_mem sz mem h;
         (ws, h) \<leftarrow> adjust_lfree mem ws h;
         if mem + SIZEOF_STRUCT_MEM + sz \<le> MEM_SIZE_ALIGNED \<and> (ram h + mem + SIZEOF_STRUCT_MEM) mod MEM_ALIGNMENT = 0 \<and>
            (ram h + mem) mod MEM_ALIGNMENT = 0
         then Some (ram h + mem + SIZEOF_STRUCT_MEM, ws, h) else None } }"

definition mem_malloc :: "nat \<Rightarrow> nat list list \<Rightarrow> lwip_heap \<Rightarrow> (nat \<times> nat list list \<times> lwip_heap) option" where
  "mem_malloc size_in ws h =
     (if size_in = 0 then Some (0, ws, h)
      else
        let sz = mem_size (LWIP_MEM_ALIGN_SIZE size_in);
            sz = (if sz < MIN_SIZE_ALIGNED then MIN_SIZE_ALIGNED else sz)
        in if sz > MEM_SIZE_ALIGNED \<or> sz < size_in then Some (0, ws, h) else try_malloc sz ws h)"

definition mem_calloc :: "nat \<Rightarrow> nat \<Rightarrow> nat list list \<Rightarrow> lwip_heap \<Rightarrow> u8 memory \<Rightarrow> (nat \<times> nat list list \<times> lwip_heap \<times> u8 memory) option" where
  "mem_calloc count n ws h bytes =
     (let alloc_size = count * n mod 2 ^ 32
      in if mem_size alloc_size \<noteq> alloc_size then Some (0, ws, h, bytes)
         else do {
           (p, ws, h) \<leftarrow> mem_malloc (mem_size alloc_size) ws h;
           Some (p, ws, h, if p \<noteq> 0 then mem_write p (replicate alloc_size 0) bytes else bytes) })"

section \<open>The layout of the heap\<close>

text \<open>The sizes of the blocks, headers included, in the order of their addresses, and whether they are used.\<close>

type_synonym layout = "(nat \<times> bool) list"

definition span :: "layout \<Rightarrow> nat" where "span L = sum_list (map fst L)"

lemma span_simps [simp]: "span [] = 0" "span ((n, u) # L) = n + span L" "span (A @ B) = span A + span B"
  by (simp_all add: span_def)

text \<open>The headers that a layout stands for.\<close>

fun headers :: "nat \<Rightarrow> nat \<Rightarrow> layout \<Rightarrow> (nat \<times> mem_block) list" where
  "headers pr p [] = []"
| "headers pr p ((n, u) # L) = (p, \<lparr>mem_next = p + n, mem_prev = pr, mem_used = u\<rparr>) # headers p (p + n) L"

definition last_at :: "nat \<Rightarrow> nat \<Rightarrow> layout \<Rightarrow> nat" where
  "last_at pr p A = (if A = [] then pr else p + span (butlast A))"

definition agrees :: "(nat \<Rightarrow> mem_block) \<Rightarrow> (nat \<times> mem_block) list \<Rightarrow> bool" where
  "agrees b hs \<longleftrightarrow> (\<forall>(q, v) \<in> set hs. b q = v)"

definition good :: "layout \<Rightarrow> bool" where
  "good L \<longleftrightarrow> (\<forall>(n, u) \<in> set L. 20 \<le> n \<and> n mod 4 = 0)"

lemma good_simps [simp]: "good []" "good ((n, u) # L) \<longleftrightarrow> 20 \<le> n \<and> n mod 4 = 0 \<and> good L" "good (A @ B) \<longleftrightarrow> good A \<and> good B"
  by (auto simp: good_def)

lemma agrees_simps [simp]:
  "agrees b []" "agrees b ((q, v) # hs) \<longleftrightarrow> b q = v \<and> agrees b hs" "agrees b (hs @ hs') \<longleftrightarrow> agrees b hs \<and> agrees b hs'"
  by (auto simp: agrees_def ball_Un)

lemma last_at_simps [simp]:
  "last_at pr p [] = pr" "last_at pr p (A @ [x]) = p + span A" "last_at pr p ((n, u) # A) = last_at p (p + n) A"
  by (simp_all add: last_at_def)

lemma layout_headers_append: "headers pr p (A @ B) = headers pr p A @ headers (last_at pr p A) (p + span A) B"
  by (induction A arbitrary: pr p) (auto simp: add.assoc)

lemma headers_range: "good L \<Longrightarrow> (q, v) \<in> set (headers pr p L) \<Longrightarrow> p \<le> q \<and> q + 20 \<le> p + span L"
  by (induction L arbitrary: pr p) fastforce+

lemma agrees_outside:
  assumes "agrees b (headers pr p L)" and "good L" and "\<And>q. p \<le> q \<Longrightarrow> q < p + span L \<Longrightarrow> b' q = b q"
  shows "agrees b' (headers pr p L)"
proof -
  have "b' q = v" if "(q, v) \<in> set (headers pr p L)" for q v
    using that headers_range [OF assms(2) that] assms(1,3) by (auto simp: agrees_def)
  then show ?thesis by (auto simp: agrees_def)
qed

text \<open>Replacing some adjacent blocks by others: the headers inside change, and the back link of the block behind.\<close>

lemma agrees_replace:
  assumes "agrees b (headers 0 0 (A @ M @ B))" and "good A" and "good B" and "span M' = span M" and "M \<noteq> []" and "M' \<noteq> []"
    and "agrees b' (headers (last_at 0 0 A) (span A) M')"
    and "\<And>q. q < span A \<Longrightarrow> b' q = b q" and "\<And>q. span A + span M < q \<Longrightarrow> b' q = b q"
    and "B \<noteq> [] \<Longrightarrow> b' (span A + span M) = b (span A + span M)\<lparr>mem_prev := span A + span (butlast M')\<rparr>"
  shows "agrees b' (headers 0 0 (A @ M' @ B))"
proof -
  have "agrees b' (headers 0 0 A)" using assms(1,2,8) by (auto intro: agrees_outside simp: layout_headers_append)
  moreover have "agrees b' (headers (last_at (last_at 0 0 A) (span A) M') (span A + span M') B)"
  proof (cases B)
    case (Cons x B')
    obtain n u where x: "x = (n, u)" by (cases x)
    let ?e = "span A + span M"
    have old: "b ?e = \<lparr>mem_next = ?e + n, mem_prev = last_at (last_at 0 0 A) (span A) M, mem_used = u\<rparr>" "agrees b (headers ?e (?e + n) B')"
      using assms(1) Cons x by (simp_all add: layout_headers_append add.assoc)
    have "agrees b' (headers ?e (?e + n) B')"
      by (rule agrees_outside [OF old(2)]) (use assms(3,9) Cons x in auto)
    moreover have "last_at (last_at 0 0 A) (span A) M' = span A + span (butlast M')" using assms(6) by (simp add: last_at_def)
    ultimately show ?thesis using old(1) assms(4,10) Cons x by simp
  qed simp
  ultimately show ?thesis using assms(7) by (simp add: layout_headers_append)
qed

text \<open>No two neighbours are free.\<close>

fun no_holes :: "layout \<Rightarrow> bool" where
  "no_holes ((n, u) # (m, v) # L) \<longleftrightarrow> (u \<or> v) \<and> no_holes ((m, v) # L)"
| "no_holes _ \<longleftrightarrow> True"

lemma no_holes_append:
  "no_holes (A @ B) \<longleftrightarrow> no_holes A \<and> no_holes B \<and> (A \<noteq> [] \<longrightarrow> B \<noteq> [] \<longrightarrow> snd (last A) \<or> snd (hd B))"
  by (induction A rule: no_holes.induct) (cases B; auto)+

lemma no_holes_Cons: "no_holes (x # B) \<longleftrightarrow> no_holes B \<and> (B \<noteq> [] \<longrightarrow> snd x \<or> snd (hd B))"
  by (cases x; cases B) auto

text \<open>The hint is a block before which no block is free.\<close>

definition hint_ok :: "layout \<Rightarrow> nat \<Rightarrow> bool" where
  "hint_ok L f \<longleftrightarrow> (\<exists>C D. L = C @ D \<and> f = span C \<and> (\<forall>x \<in> set C. snd x))"

definition heap_ok :: "lwip_heap \<Rightarrow> layout \<Rightarrow> bool" where
  "heap_ok h L \<longleftrightarrow> agrees (mems h) (headers 0 0 L) \<and> span L = MEM_SIZE_ALIGNED \<and> good L \<and> no_holes L \<and> hint_ok L (lfree h) \<and>
     mem_used (mems h MEM_SIZE_ALIGNED) \<and> 0 < ram h \<and> ram h mod MEM_ALIGNMENT = 0"

lemma mem_init_ok: "0 < ram_heap \<Longrightarrow> heap_ok (mem_init ram_heap h) [(MEM_SIZE_ALIGNED, False)]"
  using align_up [of ram_heap] by (auto simp: heap_ok_def mem_init_def Let_def set_mem_def hint_ok_def intro: exI [of _ "[]"])

text \<open>The layout after a block of size \<open>n\<close> between \<open>A\<close> and \<open>B\<close> is freed: it is merged with free neighbours.\<close>

definition free_before :: "layout \<Rightarrow> layout" where
  "free_before A = (if A \<noteq> [] \<and> \<not> snd (last A) then [last A] else [])"

definition free_after :: "layout \<Rightarrow> layout" where
  "free_after B = (if B \<noteq> [] \<and> \<not> snd (hd B) then [hd B] else [])"

definition freed :: "layout \<Rightarrow> nat \<Rightarrow> layout \<Rightarrow> layout" where
  "freed A n B = take (length A - length (free_before A)) A @
     [(span (free_before A) + n + span (free_after B), False)] @ drop (length (free_after B)) B"

lemma set_mem_simps [simp]:
  "mems (set_mem p f h) = (mems h)(p := f (mems h p))" "ram (set_mem p f h) = ram h" "lfree (set_mem p f h) = lfree h"
  "mem_free_count (set_mem p f h) = mem_free_count h"
  by (simp_all add: set_mem_def)

lemmas set_field_defs = set_next_def set_prev_def set_used_def

lemma block_header:
  assumes "agrees b (headers 0 0 (A @ (n, u) # B))"
  shows "b (span A) = \<lparr>mem_next = span A + n, mem_prev = last_at 0 0 A, mem_used = u\<rparr>"
  using assms by (simp add: layout_headers_append)

text \<open>Two neighbours become one block; only the header of the first and the back link behind the second are written.\<close>

lemma merge_agrees:
  assumes "agrees (mems h) (headers 0 0 (A @ (n, u) # (m, v) # B))" and "good A" and "good B" and "20 \<le> n" and "20 \<le> m"
    and "span A + n + m + span B = MEM_SIZE_ALIGNED" and "e = span A + n + m"
    and "h' = (if e \<noteq> MEM_SIZE_ALIGNED then set_prev e (span A) (set_next (span A) e h) else set_next (span A) e h)"
  shows "agrees (mems h') (headers 0 0 (A @ (n + m, u) # B)) \<and> mems h' MEM_SIZE_ALIGNED = mems h MEM_SIZE_ALIGNED"
proof -
  note p = block_header [OF assms(1)]
  have e: "e \<noteq> MEM_SIZE_ALIGNED \<longleftrightarrow> B \<noteq> []" "span A < e" "e \<le> MEM_SIZE_ALIGNED"
    using assms(3-7) by (cases B; auto)+
  have mems: "mems h' = (if B \<noteq> [] then (mems h)(span A := (mems h (span A))\<lparr>mem_next := e\<rparr>, e := (mems h e)\<lparr>mem_prev := span A\<rparr>)
      else (mems h)(span A := (mems h (span A))\<lparr>mem_next := e\<rparr>))"
    using e(1,2) unfolding assms(8) by (simp add: set_field_defs)
  have "agrees (mems h') (headers 0 0 (A @ [(n + m, u)] @ B))"
  proof (rule agrees_replace [where b = "mems h" and M = "[(n, u), (m, v)]"])
    show "agrees (mems h) (headers 0 0 (A @ [(n, u), (m, v)] @ B))" using assms(1) by simp
    show "agrees (mems h') (headers (last_at 0 0 A) (span A) [(n + m, u)])" using p e(2) assms(4,5) by (simp add: mems assms(7) add.assoc)
    show "mems h' (span A + span [(n, u), (m, v)]) = mems h (span A + span [(n, u), (m, v)])\<lparr>mem_prev := span A + span (butlast [(n + m, u)])\<rparr>"
      if "B \<noteq> []" using that by (simp add: mems assms(7) add.assoc)
  qed (use assms(2,3,7) e(2) in \<open>simp_all add: mems add.assoc\<close>)
  moreover have "mems h' MEM_SIZE_ALIGNED = mems h MEM_SIZE_ALIGNED" using e by (auto simp: mems)
  ultimately show ?thesis by simp
qed

lemma plug_forward_ok:
  assumes "agrees (mems h) (headers 0 0 (A @ (n, False) # B))" and "good A" and "good B" and "20 \<le> n"
    and "span A + n + span B = MEM_SIZE_ALIGNED" and "mem_used (mems h MEM_SIZE_ALIGNED)" and "lfree h \<noteq> span A + n"
  shows "agrees (mems (plug_forward (span A) h)) (headers 0 0 (A @ (n + span (free_after B), False) # drop (length (free_after B)) B)) \<and>
    mem_used (mems (plug_forward (span A) h) MEM_SIZE_ALIGNED) \<and> lfree (plug_forward (span A) h) = lfree h \<and> ram (plug_forward (span A) h) = ram h"
proof -
  note p = block_header [OF assms(1)]
  show ?thesis
  proof (cases "free_after B")
    case Nil
    then have "mem_used (mems h (span A + n))"
      using assms(1,5,6) by (cases B) (auto simp: layout_headers_append free_after_def split: if_splits)
    then have "plug_forward (span A) h = h" by (simp add: plug_forward_def p)
    then show ?thesis using assms(1,6) Nil by simp
  next
    case (Cons x ys)
    then obtain m B' where B: "B = (m, False) # B'" by (cases B; cases x) (auto simp: free_after_def split: if_splits)
    let ?e = "span A + n + m"
    have q: "mems h (span A + n) = \<lparr>mem_next = ?e, mem_prev = span A, mem_used = False\<rparr>"
      using assms(1) unfolding B by (simp add: layout_headers_append add.assoc)
    have lt: "20 \<le> m" "good B'" "span A + n \<noteq> MEM_SIZE_ALIGNED" "?e + span B' = MEM_SIZE_ALIGNED" using assms(3,5) unfolding B by auto
    define h' where "h' = (if ?e \<noteq> MEM_SIZE_ALIGNED then set_prev ?e (span A) (set_next (span A) ?e h) else set_next (span A) ?e h)"
    have "span A + n \<noteq> span A" using assms(4) by simp
    then have "plug_forward (span A) h = h'"
      using p q lt(3) assms(4,7) unfolding plug_forward_def Let_def h'_def by (simp add: set_field_defs)
    moreover have "agrees (mems h') (headers 0 0 (A @ (n + m, False) # B')) \<and> mems h' MEM_SIZE_ALIGNED = mems h MEM_SIZE_ALIGNED"
      by (rule merge_agrees [OF _ assms(2) lt(2) assms(4) lt(1) lt(4) refl h'_def]) (use assms(1) B in simp)
    moreover have "lfree h' = lfree h" "ram h' = ram h" by (simp_all add: h'_def set_field_defs)
    ultimately show ?thesis using assms(6) by (simp add: B free_after_def)
  qed
qed

lemma plug_backward_ok:
  assumes "agrees (mems h) (headers 0 0 (A @ (n, False) # B))" and "good A" and "good B" and "20 \<le> n"
    and "span A + n + span B = MEM_SIZE_ALIGNED" and "mem_used (mems h MEM_SIZE_ALIGNED)" and "lfree h = span A \<Longrightarrow> free_before A = []"
  shows "agrees (mems (plug_backward (span A) h)) (headers 0 0 (take (length A - length (free_before A)) A @ (span (free_before A) + n, False) # B)) \<and>
    mem_used (mems (plug_backward (span A) h) MEM_SIZE_ALIGNED) \<and> lfree (plug_backward (span A) h) = lfree h \<and> ram (plug_backward (span A) h) = ram h"
proof -
  note p = block_header [OF assms(1)]
  show ?thesis
  proof (cases "free_before A")
    case Nil
    then have "last_at 0 0 A = span A \<or> mem_used (mems h (last_at 0 0 A))"
      using assms(1) by (cases A rule: rev_cases) (auto simp: layout_headers_append free_before_def split: if_splits)
    then have "plug_backward (span A) h = h" by (auto simp: plug_backward_def p)
    then show ?thesis using assms(1,6) Nil by simp
  next
    case (Cons x ys)
    then obtain k A' where A: "A = A' @ [(k, False)]" by (cases A rule: rev_cases; cases x) (auto simp: free_before_def split: if_splits)
    let ?e = "span A' + k + n"
    have q: "mems h (span A') = \<lparr>mem_next = span A' + k, mem_prev = last_at 0 0 A', mem_used = False\<rparr>"
      using block_header [of "mems h" A' k False "(n, False) # B"] assms(1) unfolding A by simp
    have lt: "20 \<le> k" "good A'" "?e + span B = MEM_SIZE_ALIGNED" using assms(2,5) unfolding A by auto
    define h' where "h' = (if ?e \<noteq> MEM_SIZE_ALIGNED then set_prev ?e (span A') (set_next (span A') ?e h) else set_next (span A') ?e h)"
    have "lfree h \<noteq> span A" using assms(7) Cons by auto
    moreover have "span A' \<noteq> span A" "last_at 0 0 A = span A'" "span A = span A' + k" using lt(1) by (simp_all add: A)
    ultimately have "plug_backward (span A) h = h'"
      using p q unfolding plug_backward_def Let_def h'_def by (simp add: set_field_defs)
    moreover have "agrees (mems h') (headers 0 0 (A' @ (k + n, False) # B)) \<and> mems h' MEM_SIZE_ALIGNED = mems h MEM_SIZE_ALIGNED"
      by (rule merge_agrees [OF _ lt(2) assms(3) lt(1) assms(4) lt(3) refl h'_def]) (use assms(1) A in simp)
    moreover have "lfree h' = lfree h" "ram h' = ram h" by (simp_all add: h'_def set_field_defs)
    ultimately show ?thesis using assms(6) by (simp add: A free_before_def)
  qed
qed

text \<open>The live blocks: where their headers are and how large they are.\<close>

fun live_from :: "nat \<Rightarrow> layout \<Rightarrow> (nat \<times> nat) set" where
  "live_from p [] = {}"
| "live_from p ((n, u) # L) = (if u then insert (p, n) (live_from (p + n) L) else live_from (p + n) L)"

definition live :: "layout \<Rightarrow> (nat \<times> nat) set" where "live L = live_from 0 L"

lemma live_from_append: "live_from p (A @ B) = live_from p A \<union> live_from (p + span A) B"
  by (induction A arbitrary: p) (auto simp: add.assoc)

lemma live_split: "(q, n) \<in> live_from p L \<Longrightarrow> \<exists>A B. L = A @ (n, True) # B \<and> q = p + span A"
proof (induction L arbitrary: p)
  case (Cons x L)
  obtain m u where x: "x = (m, u)" by (cases x)
  show ?case
  proof (cases "u \<and> q = p \<and> n = m")
    case True
    then show ?thesis using x by (intro exI [of _ "[]"] exI [of _ L]) auto
  next
    case False
    then have "(q, n) \<in> live_from (p + m) L" using Cons.prems x by (auto split: if_splits)
    from Cons.IH [OF this] obtain A B where "L = A @ (n, True) # B" "q = p + m + span A" by blast
    then show ?thesis using x by (intro exI [of _ "x # A"] exI [of _ B]) auto
  qed
qed simp

lemma live_range: "good L \<Longrightarrow> (q, n) \<in> live_from p L \<Longrightarrow> p \<le> q \<and> q + n \<le> p + span L \<and> 20 \<le> n \<and> (p mod 4 = 0 \<longrightarrow> q mod 4 = 0)"
proof (induction L arbitrary: p)
  case (Cons x L)
  obtain m u where x: "x = (m, u)" by (cases x)
  show ?case
  proof (cases "u \<and> q = p \<and> n = m")
    case True
    then show ?thesis using Cons.prems(1) x by simp
  next
    case False
    then have "(q, n) \<in> live_from (p + m) L" using Cons.prems x by (auto split: if_splits)
    moreover have "(p + m) mod 4 = 0" if "p mod 4 = 0" using that Cons.prems(1) x by (simp add: mod_add_eq [symmetric])
    ultimately show ?thesis using Cons.IH [of "p + m"] Cons.prems(1) x by auto
  qed
qed simp

text \<open>Two live blocks do not overlap.\<close>

lemma live_disjoint:
  "good L \<Longrightarrow> (q, n) \<in> live_from p L \<Longrightarrow> (r, m) \<in> live_from p L \<Longrightarrow> (q, n) \<noteq> (r, m) \<Longrightarrow> q + n \<le> r \<or> r + m \<le> q"
proof (induction L arbitrary: p)
  case (Cons x L)
  obtain k u where x: "x = (k, u)" by (cases x)
  have in_L: "p + k \<le> a" if "(a, b) \<in> live_from (p + k) L" for a b using live_range [OF _ that] Cons.prems(1) x by simp
  from Cons.prems(2,3) x have "(q, n) = (p, k) \<or> (q, n) \<in> live_from (p + k) L" "(r, m) = (p, k) \<or> (r, m) \<in> live_from (p + k) L"
    by (auto split: if_splits)
  then show ?case using Cons.IH [of "p + k"] Cons.prems(1,4) x in_L by (elim disjE) auto
qed simp

lemma free_before_split: "A = take (length A - length (free_before A)) A @ free_before A"
  by (cases A rule: rev_cases) (auto simp: free_before_def)

lemma free_after_split: "B = free_after B @ drop (length (free_after B)) B"
  by (cases B) (auto simp: free_after_def)

lemma span_free_before: "span A = span (take (length A - length (free_before A)) A) + span (free_before A)"
  using arg_cong [OF free_before_split [of A], of span] by simp

lemma span_free_after: "span B = span (free_after B) + span (drop (length (free_after B)) B)"
  using arg_cong [OF free_after_split [of B], of span] by simp

lemma span_freed: "span (freed A n B) = span A + n + span B"
  using span_free_before [of A] span_free_after [of B] by (simp add: freed_def)

lemma live_free_before [simp]: "live_from p (free_before A) = {}" "live_from p (free_after B) = {}"
  by (cases A rule: rev_cases; auto simp: free_before_def; cases "last A"; auto) (cases B; auto simp: free_after_def; cases "hd B"; auto)

lemma live_freed:
  assumes "good (A @ (n, True) # B)"
  shows "live (freed A n B) = live (A @ (n, True) # B) - {(span A, n)}"
proof -
  let ?A = "take (length A - length (free_before A)) A" and ?B = "drop (length (free_after B)) B"
  have A: "live_from 0 A = live_from 0 ?A" "span A = span ?A + span (free_before A)"
    using arg_cong [OF free_before_split [of A], of "live_from 0"] span_free_before [of A] by (simp_all add: live_from_append)
  have B: "live_from q B = live_from (q + span (free_after B)) ?B" for q
    using arg_cong [OF free_after_split [of B], of "live_from q"] by (simp add: live_from_append)
  have "(span A, n) \<notin> live_from 0 A" using live_range [of A "span A" n 0] assms by fastforce
  moreover have "(span A, n) \<notin> live_from (span A + n) B" using live_range [of B "span A" n "span A + n"] assms by fastforce
  ultimately show ?thesis using A B [of "span A + n"] by (auto simp: live_def freed_def live_from_append add.assoc add.left_commute)
qed

lemma good_parts:
  "good A \<Longrightarrow> good (take k A)" "good A \<Longrightarrow> good (drop k A)" "good A \<Longrightarrow> span (free_before A) mod 4 = 0" "good B \<Longrightarrow> span (free_after B) mod 4 = 0"
proof -
  show "good A \<Longrightarrow> good (take k A)" "good A \<Longrightarrow> good (drop k A)" unfolding good_def using set_take_subset set_drop_subset by fast+
  show "good A \<Longrightarrow> span (free_before A) mod 4 = 0" by (cases A rule: rev_cases) (auto simp: free_before_def good_def span_def)
  show "good B \<Longrightarrow> span (free_after B) mod 4 = 0" by (cases B) (auto simp: free_after_def good_def span_def)
qed

lemma good_freed: "good (A @ (n, True) # B) \<Longrightarrow> good (freed A n B)"
  using good_parts [of A] good_parts [of B] by (simp add: freed_def mod_add_eq [symmetric])

lemma no_holes_freed:
  assumes "no_holes (A @ (n, True) # B)"
  shows "no_holes (freed A n B)"
proof -
  let ?A = "take (length A - length (free_before A)) A" and ?B = "drop (length (free_after B)) B"
  have A: "no_holes ?A \<and> (?A \<noteq> [] \<longrightarrow> snd (last ?A))"
    using assms by (cases A rule: rev_cases) (auto simp: free_before_def no_holes_append)
  have B: "no_holes ?B \<and> (?B \<noteq> [] \<longrightarrow> snd (hd ?B))"
    using assms by (cases B) (auto simp: free_after_def no_holes_append no_holes_Cons)
  show ?thesis using A B by (simp add: freed_def no_holes_append no_holes_Cons)
qed

text \<open>The hint stays right when the lower of it and the freed block is taken.\<close>

lemma hint_freed:
  assumes "hint_ok (A @ (n, True) # B) f" and "good (A @ (n, True) # B)"
  shows "hint_ok (freed A n B) (min f (span A)) \<and> (min f (span A) = span A \<longrightarrow> free_before A = [])"
proof -
  obtain C D where CD: "A @ (n, True) # B = C @ D" "f = span C" "\<forall>x \<in> set C. snd x" using assms(1) by (auto simp: hint_ok_def)
  have used: "free_before A = [] \<and> freed A n B = A @ drop (length A) (freed A n B)" if "\<forall>x \<in> set A. snd x"
    using that by (cases A rule: rev_cases) (auto simp: free_before_def freed_def)
  from CD(1) consider (inside) E where "A = C @ E" | (behind) E where "C = A @ E" by (auto simp: append_eq_append_conv2)
  then show ?thesis
  proof cases
    case inside
    show ?thesis
    proof (cases "E = []")
      case True
      then have "C = A" using inside by simp
      then show ?thesis using used CD(2,3) unfolding hint_ok_def by auto
    next
      case False
      then have "0 < span E" using assms(2) inside by (cases E) auto
      then have m: "min f (span A) = span C" "min f (span A) \<noteq> span A" using CD(2) inside by simp_all
      have "length (free_before A) \<le> length E" using False by (cases E) (auto simp: free_before_def)
      then have "freed A n B = C @ drop (length C) (freed A n B)" by (simp add: freed_def inside)
      then show ?thesis using m CD(3) unfolding hint_ok_def by metis
    qed
  next
    case behind
    then have "\<forall>x \<in> set A. snd x" "min f (span A) = span A" using CD by auto
    then show ?thesis using used unfolding hint_ok_def by metis
  qed
qed

section \<open>Freeing a live block\<close>

lemma lwip_heap_okD:
  assumes "heap_ok h L"
  shows "agrees (mems h) (headers 0 0 L)" "span L = MEM_SIZE_ALIGNED" "good L" "no_holes L" "hint_ok L (lfree h)"
    "mem_used (mems h MEM_SIZE_ALIGNED)" "0 < ram h" "ram h mod MEM_ALIGNMENT = 0"
  using assms by (simp_all add: heap_ok_def)

lemma span_mod: "good L \<Longrightarrow> span L mod 4 = 0"
  by (induction L) (auto simp: good_def span_def mod_add_eq [symmetric])

lemma user_pointer:
  assumes "heap_ok h (A @ (n, u) # B)"
  shows "(ram h + span A + 8) mod MEM_ALIGNMENT = 0" "span A + 20 \<le> MEM_SIZE_ALIGNED" "span A + n \<le> MEM_SIZE_ALIGNED" "20 \<le> n"
proof -
  note ok = lwip_heap_okD [OF assms]
  show "20 \<le> n" using ok(3) by simp
  then show "span A + 20 \<le> MEM_SIZE_ALIGNED" "span A + n \<le> MEM_SIZE_ALIGNED" using ok(2) by simp_all
  have "span A mod 4 = 0" using ok(3) by (intro span_mod) simp
  then show "(ram h + span A + 8) mod MEM_ALIGNMENT = 0" using ok(8) by (simp add: MEM_ALIGNMENT_def mod_add_eq [symmetric])
qed

lemma link_valid:
  assumes "heap_ok h (A @ (n, u) # B)"
  shows "mem_link_valid (span A) h"
proof -
  note ok = lwip_heap_okD [OF assms]
  note p = block_header [OF ok(1)]
  have "span A + n \<le> MEM_SIZE_ALIGNED" using ok(2) by simp
  moreover have "last_at 0 0 A \<le> span A" "last_at 0 0 A = span A \<or> mem_next (mems h (last_at 0 0 A)) = span A"
    using ok(1) by (cases A rule: rev_cases; auto simp: layout_headers_append)+
  moreover have "span A + n = MEM_SIZE_ALIGNED \<or> mem_prev (mems h (span A + n)) = span A"
    using ok(1,2) by (cases B) (auto simp: layout_headers_append)
  ultimately show ?thesis using p by (auto simp: mem_link_valid_def Let_def)
qed

lemma set_used_agrees:
  assumes "agrees (mems h) (headers 0 0 (A @ (n, u) # B))" and "good A" and "good B" and "20 \<le> n"
  shows "agrees (mems (set_used (span A) v h)) (headers 0 0 (A @ (n, v) # B))"
proof -
  have "agrees (mems h) (headers 0 0 A)" "agrees (mems h) (headers (span A) (span A + n) B)"
    using assms(1) by (simp_all add: layout_headers_append)
  then have "agrees (mems (set_used (span A) v h)) (headers 0 0 A)"
    "agrees (mems (set_used (span A) v h)) (headers (span A) (span A + n) B)"
    using assms(2-4) by (auto intro: agrees_outside simp: set_field_defs)
  then show ?thesis using block_header [OF assms(1)] by (simp add: layout_headers_append set_field_defs)
qed

lemma mem_free_ok:
  assumes "heap_ok h (A @ (n, True) # B)"
  shows "\<exists>h'. mem_free (ram h + span A + 8) h = Some h' \<and> heap_ok h' (freed A n B) \<and> ram h' = ram h \<and> mem_free_count h'"
proof -
  note ok = lwip_heap_okD [OF assms]
  note up = user_pointer [OF assms]
  let ?p = "span A"
  let ?g = "set_used ?p False h"
  let ?h = "if ?p < lfree ?g then ?g\<lparr>lfree := ?p\<rparr> else ?g"
  have g: "good A" "good B" "20 \<le> n" "?p + n + span B = MEM_SIZE_ALIGNED" using ok(2,3) by simp_all
  have "agrees (mems ?g) (headers 0 0 (A @ (n, False) # B))" by (rule set_used_agrees [OF ok(1) g(1-3)])
  then have ag: "agrees (mems ?h) (headers 0 0 (A @ (n, False) # B))" by simp
  have lf: "lfree ?h = min (lfree h) ?p" by (simp add: set_field_defs)
  note hint = hint_freed [OF ok(5,3)]
  have us: "mem_used (mems ?h MEM_SIZE_ALIGNED)" using ok(6) g by (simp add: set_field_defs)
  have "lfree ?h \<noteq> ?p + n" using lf g(3) by simp
  from plug_forward_ok [OF ag g us this] have F: "agrees (mems (plug_forward ?p ?h)) (headers 0 0 (A @ (n + span (free_after B), False) # drop (length (free_after B)) B))"
    "mem_used (mems (plug_forward ?p ?h) MEM_SIZE_ALIGNED)" "lfree (plug_forward ?p ?h) = min (lfree h) ?p" "ram (plug_forward ?p ?h) = ram h"
    unfolding lf by (simp_all add: set_field_defs)
  have "?p + (n + span (free_after B)) + span (drop (length (free_after B)) B) = MEM_SIZE_ALIGNED" using g(4) span_free_after [of B] by simp
  from plug_backward_ok [OF F(1) g(1) good_parts(2) [OF g(2)] _ this F(2)] hint F g(3) have
    "agrees (mems (plug_backward ?p (plug_forward ?p ?h))) (headers 0 0 (freed A n B)) \<and>
     mem_used (mems (plug_backward ?p (plug_forward ?p ?h)) MEM_SIZE_ALIGNED) \<and>
     lfree (plug_backward ?p (plug_forward ?p ?h)) = min (lfree h) ?p \<and> ram (plug_backward ?p (plug_forward ?p ?h)) = ram h"
    by (simp add: freed_def add.assoc)
  note G = this
  then have "heap_ok ((plug_backward ?p (plug_forward ?p ?h))\<lparr>mem_free_count := True\<rparr>) (freed A n B)"
    using ok hint span_freed [of A n B] g(4) good_freed [OF ok(3)] no_holes_freed [OF ok(4)] by (simp add: heap_ok_def)
  moreover have "mem_free (ram h + ?p + 8) h = Some ((plug_backward ?p (plug_forward ?p ?h))\<lparr>mem_free_count := True\<rparr>)"
  proof -
    have "plug_holes ?p ?h = Some (plug_backward ?p (plug_forward ?p ?h))"
      using up block_header [OF ag] g(3) by (simp add: plug_holes_def)
    moreover have "mem_used (mems h ?p)" using block_header [OF ok(1)] by simp
    ultimately show ?thesis using up ok(7) link_valid [OF assms] unfolding mem_free_def Let_def by (cases "?p < lfree ?g") (simp_all add: ac_simps)
  qed
  ultimately show ?thesis using G by simp
qed

section \<open>Windows\<close>

text \<open>The pointers of the live blocks, and the blocks that a list of pointers stands for.\<close>

definition pointers :: "nat \<Rightarrow> layout \<Rightarrow> nat set" where
  "pointers r L = (\<lambda>(q, n). r + q + 8) ` live L"

definition blocks_of :: "nat \<Rightarrow> nat list \<Rightarrow> (nat \<times> nat) set" where
  "blocks_of r fs = {(q, n). r + q + 8 \<in> set fs}"

text \<open>Whatever the other contexts free is live, and is freed once.\<close>

definition may_free :: "nat \<Rightarrow> nat list \<Rightarrow> layout \<Rightarrow> bool" where
  "may_free r fs L \<longleftrightarrow> distinct fs \<and> set fs \<subseteq> pointers r L"

lemma blocks_of_simps [simp]: "blocks_of r [] = {}" "blocks_of r (fs @ gs) = blocks_of r fs \<union> blocks_of r gs"
  by (auto simp: blocks_of_def)

lemma live_unique: "good L \<Longrightarrow> (q, n) \<in> live L \<Longrightarrow> (q, m) \<in> live L \<Longrightarrow> n = m"
  using live_disjoint [of L q n 0 q m] live_range [of L q n 0] live_range [of L q m 0] by (fastforce simp: live_def)

lemma pointers_minus: "live M = live L - blocks_of r fs \<Longrightarrow> pointers r M = pointers r L - set fs"
  unfolding pointers_def blocks_of_def by force

lemma free_all_ok:
  assumes "heap_ok h L" and "may_free (ram h) (fs @ gs) L"
  shows "\<exists>h' L'. free_all fs h = Some h' \<and> heap_ok h' L' \<and> ram h' = ram h \<and> live L' = live L - blocks_of (ram h) fs \<and>
    may_free (ram h) gs L' \<and> mem_free_count h' = (fs \<noteq> [] \<or> mem_free_count h) \<and> (fs = [] \<longrightarrow> h' = h \<and> L' = L)"
  using assms
proof (induction fs arbitrary: h L)
  case Nil
  then show ?case by auto
next
  case (Cons f fs)
  obtain q n where q: "(q, n) \<in> live L" "f = ram h + q + 8" using Cons.prems(2) by (auto simp: may_free_def pointers_def)
  then obtain A B where L: "L = A @ (n, True) # B" "q = span A" using live_split [of q n 0 L] by (auto simp: live_def)
  obtain h1 where h1: "mem_free f h = Some h1" "heap_ok h1 (freed A n B)" "ram h1 = ram h" "mem_free_count h1"
    using mem_free_ok [of h A n B] Cons.prems(1) L q(2) by auto
  have good: "good L" using Cons.prems(1) by (simp add: heap_ok_def)
  have lv: "live (freed A n B) = live L - blocks_of (ram h) [f]"
  proof -
    have "x = (q, n)" if "x \<in> live L" "x \<in> blocks_of (ram h) [f]" for x
      using that live_unique [OF good q(1)] q(2) by (auto simp: blocks_of_def)
    moreover have "(q, n) \<in> blocks_of (ram h) [f]" using q(2) by (simp add: blocks_of_def)
    ultimately show ?thesis using live_freed [of A n B] good L by auto
  qed
  have "may_free (ram h1) (fs @ gs) (freed A n B)"
    using Cons.prems(2) h1(3) pointers_minus [OF lv] by (auto simp: may_free_def)
  from Cons.IH [OF h1(2) this] obtain h2 L2 where "free_all fs h1 = Some h2" "heap_ok h2 L2" "ram h2 = ram h1"
    "live L2 = live (freed A n B) - blocks_of (ram h1) fs" "may_free (ram h1) gs L2" "mem_free_count h2" using h1(4) by auto
  then show ?case using h1 lv by (intro exI [of _ h2] exI [of _ L2]) (auto simp: blocks_of_def)
qed

lemma open_window_ok:
  assumes "heap_ok h L" and "may_free (ram h) (concat ws) L"
  obtains ws' h' L' fs where "open_window ws h = Some (ws', h')" "heap_ok h' L'" "ram h' = ram h" "live L' = live L - blocks_of (ram h) fs"
    "may_free (ram h) (concat ws') L'" "concat ws = fs @ concat ws'" "mem_free_count h' \<longleftrightarrow> fs \<noteq> []"
    "fs = [] \<Longrightarrow> h' = h\<lparr>mem_free_count := False\<rparr> \<and> L' = L"
proof (cases ws)
  case Nil
  have "heap_ok (h\<lparr>mem_free_count := False\<rparr>) L" using assms(1) by (simp add: heap_ok_def)
  then show ?thesis using that [of "[]" "h\<lparr>mem_free_count := False\<rparr>" L "[]"] Nil assms(2) by simp
next
  case (Cons fs ws')
  have "heap_ok (h\<lparr>mem_free_count := False\<rparr>) L" using assms(1) by (simp add: heap_ok_def)
  from free_all_ok [OF this, of fs "concat ws'"] assms(2) Cons obtain h' L' where
    "free_all fs (h\<lparr>mem_free_count := False\<rparr>) = Some h'" "heap_ok h' L'" "ram h' = ram h" "live L' = live L - blocks_of (ram h) fs"
    "may_free (ram h) (concat ws') L'" "mem_free_count h' \<longleftrightarrow> fs \<noteq> []" "fs = [] \<longrightarrow> h' = h\<lparr>mem_free_count := False\<rparr> \<and> L' = L" by auto
  then show ?thesis using that [of ws' h' L' fs] Cons by simp
qed

section \<open>The search\<close>

definition fits :: "nat \<Rightarrow> nat \<times> bool \<Rightarrow> bool" where "fits sz x \<longleftrightarrow> \<not> snd x \<and> sz + 8 \<le> fst x"

lemma diff32_nat: "b \<le> a \<Longrightarrow> a < 2 ^ 32 \<Longrightarrow> diff32 a b = a - b"
  unfolding diff32_def by (subst unat_sub_small) (simp_all add: word_le_nat_alt unat_of_nat_small)

lemma search_block_ok:
  assumes "heap_ok h (A @ B)" and "may_free (ram h) (concat ws) (A @ B)" and "0 < sz" and "sz \<le> MEM_SIZE_ALIGNED"
    and "\<forall>x \<in> set A. \<not> fits sz x"
  shows "\<exists>r ws' h' L' fs. search_block sz (span A) ws h = Some (r, ws', h') \<and> heap_ok h' L' \<and> ram h' = ram h \<and>
    live L' = live (A @ B) - blocks_of (ram h) fs \<and> may_free (ram h) (concat ws') L' \<and> concat ws = fs @ concat ws' \<and>
    (case r of
       Restart \<Rightarrow> fs \<noteq> []
     | Found q \<Rightarrow> fs = [] \<and> L' = A @ B \<and> (\<exists>C n D. L' = C @ (n, False) # D \<and> q = span C \<and> sz + 8 \<le> n \<and> (\<forall>x \<in> set C. \<not> fits sz x))
     | Not_Found \<Rightarrow> fs = [] \<and> L' = A @ B \<and> (\<forall>x \<in> set L'. \<not> fits sz x))"
  using assms
proof (induction B arbitrary: A ws h)
  case Nil
  have "span A = MEM_SIZE_ALIGNED" using Nil.prems(1) by (simp add: heap_ok_def)
  then have "\<not> span A < MEM_SIZE_ALIGNED - sz" by linarith
  then have "search_block sz (span A) ws h = Some (Not_Found, ws, h)" by (subst search_block.simps) (simp only: if_False)
  then show ?case using Nil.prems by (intro exI [of _ Not_Found] exI [of _ ws] exI [of _ h] exI [of _ A] exI [of _ "[]"]) simp
next
  case (Cons x B)
  obtain n u where x: "x = (n, u)" by (cases x)
  note ok = lwip_heap_okD [OF Cons.prems(1)]
  show ?case
  proof (cases "span A < MEM_SIZE_ALIGNED - sz")
    case False
    have "\<not> fits sz y" if "y \<in> set (x # B)" for y
    proof -
      have "fst y \<le> span (x # B)" unfolding span_def using that by (intro member_le_sum_list) auto
      then show ?thesis using False ok(2) Cons.prems(3) by (auto simp: fits_def)
    qed
    then have "\<forall>y \<in> set (A @ x # B). \<not> fits sz y" using Cons.prems(5) by auto
    moreover have "search_block sz (span A) ws h = Some (Not_Found, ws, h)" using False by (subst search_block.simps) simp
    ultimately show ?thesis using Cons.prems
      by (intro exI [of _ Not_Found] exI [of _ ws] exI [of _ h] exI [of _ "A @ x # B"] exI [of _ "[]"]) simp
  next
    case True
    obtain ws1 h1 L1 fs where w: "open_window ws h = Some (ws1, h1)" "heap_ok h1 L1" "ram h1 = ram h"
      "live L1 = live (A @ x # B) - blocks_of (ram h) fs" "may_free (ram h) (concat ws1) L1" "concat ws = fs @ concat ws1" "mem_free_count h1 \<longleftrightarrow> fs \<noteq> []"
      "fs = [] \<Longrightarrow> h1 = h\<lparr>mem_free_count := False\<rparr> \<and> L1 = A @ x # B"
      using open_window_ok [OF Cons.prems(1,2)] by metis
    show ?thesis
    proof (cases "fs = []")
      case False
      then have "search_block sz (span A) ws h = Some (Restart, ws1, h1)" using True w(1,7) by (subst search_block.simps) simp
      then show ?thesis using w False by (intro exI [of _ Restart] exI [of _ ws1] exI [of _ h1] exI [of _ L1] exI [of _ fs]) simp
    next
      case nofree: True
      then have h1: "h1 = h\<lparr>mem_free_count := False\<rparr>" "L1 = A @ x # B" using w(8) by simp_all
      have b: "mems h1 (span A) = \<lparr>mem_next = span A + n, mem_prev = last_at 0 0 A, mem_used = u\<rparr>"
        using block_header [of "mems h" A n u B] ok(1) x h1(1) by simp
      have n: "20 \<le> n" "span A + n \<le> MEM_SIZE_ALIGNED" using ok(2,3) x by simp_all
      then have d: "diff32 (span A + n) (span A + SIZEOF_STRUCT_MEM) = n - 8" by (simp add: diff32_nat)
      have test: "\<not> u \<and> n - 8 \<ge> sz \<longleftrightarrow> fits sz x" using n(1) by (auto simp: fits_def x)
      have step: "search_block sz (span A) ws h = (if fits sz x then Some (Found (span A), ws1, h1) else search_block sz (span A + n) ws1 h1)"
        using True w(1,7) nofree b d test by (subst search_block.simps) simp
      show ?thesis
      proof (cases "fits sz x")
        case True
        then have "sz + 8 \<le> n" "\<not> u" by (simp_all add: fits_def x)
        then show ?thesis using True step w h1(2) nofree x Cons.prems(5)
          by (intro exI [of _ "Found (span A)"] exI [of _ ws1] exI [of _ h1] exI [of _ L1] exI [of _ "[]"]) auto
      next
        case False
        have "search_block sz (span (A @ [x])) ws1 h1 = search_block sz (span A) ws h" using step False x by simp
        moreover have "heap_ok h1 ((A @ [x]) @ B)" "may_free (ram h1) (concat ws1) ((A @ [x]) @ B)" "\<forall>y \<in> set (A @ [x]). \<not> fits sz y"
          using w(2,3,5) h1(2) False Cons.prems(5) by auto
        moreover have e: "(A @ [x]) @ B = A @ x # B" by simp
        ultimately show ?thesis using Cons.IH [of h1 "A @ [x]" ws1, unfolded e] Cons.prems(3,4) w(3,6) nofree by simp
      qed
    qed
  qed
qed

section \<open>Taking a block and moving the hint\<close>

definition carved :: "nat \<Rightarrow> nat \<Rightarrow> layout" where
  "carved sz n = (if sz + 28 \<le> n then [(sz + 8, True), (n - sz - 8, False)] else [(n, True)])"

lemma take_mem_ok:
  assumes "heap_ok h (A @ (n, False) # B)" and "sz + 8 \<le> n" and "12 \<le> sz" and "sz mod 4 = 0"
  shows "\<exists>h'. take_mem sz (span A) h = Some h' \<and> heap_ok h' (A @ carved sz n @ B) \<and> ram h' = ram h"
proof -
  note ok = lwip_heap_okD [OF assms(1)]
  let ?p = "span A" and ?q = "span A + 8 + sz" and ?e = "span A + n"
  note b = block_header [OF ok(1)]
  have g: "good A" "good B" "20 \<le> n" "?e + span B = MEM_SIZE_ALIGNED" "n mod 4 = 0" using ok(2,3) by simp_all
  then have d: "diff32 ?e (?p + SIZEOF_STRUCT_MEM) = n - 8" by (simp add: diff32_nat)
  have hint: "hint_ok (A @ M @ B) (lfree h)" for M
  proof -
    obtain C D where CD: "A @ (n, False) # B = C @ D" "lfree h = span C" "\<forall>x \<in> set C. snd x" using ok(5) by (auto simp: hint_ok_def)
    then consider E where "A = C @ E" | x E where "C = A @ x # E" by (auto simp: append_eq_append_conv2 Cons_eq_append_conv)
    then show ?thesis using CD by cases (auto simp: hint_ok_def)
  qed
  have holes: "no_holes (A @ carved sz n @ B)" using ok(4) by (auto simp: carved_def no_holes_append no_holes_Cons)
  have goodc: "good (carved sz n)" "span (carved sz n) = n"
    using assms(2-4) g(3,5) by (auto simp: carved_def)
  show ?thesis
  proof (cases "sz + 28 \<le> n")
    case True
    have q: "mem_size (?p + SIZEOF_STRUCT_MEM + sz) = ?q" "?q < ?e" "?q \<noteq> MEM_SIZE_ALIGNED" using True g(4) by (simp_all add: mem_size_def)
    define h1 where "h1 = set_used ?p True (set_next ?p ?q (set_mem ?q (\<lambda>_. \<lparr>mem_next = ?e, mem_prev = ?p, mem_used = False\<rparr>) h))"
    define h2 where "h2 = (if ?e \<noteq> MEM_SIZE_ALIGNED then set_prev ?e ?q h1 else h1)"
    have m1: "mems h1 = (mems h)(?q := \<lparr>mem_next = ?e, mem_prev = ?p, mem_used = False\<rparr>,
        ?p := \<lparr>mem_next = ?q, mem_prev = last_at 0 0 A, mem_used = True\<rparr>)"
      by (simp add: h1_def set_field_defs b)
    have e: "?e \<noteq> MEM_SIZE_ALIGNED \<longleftrightarrow> B \<noteq> []" using g(2,4) by (cases B) auto
    have m2: "mems h2 = (if B \<noteq> [] then (mems h1)(?e := (mems h ?e)\<lparr>mem_prev := ?q\<rparr>) else mems h1)"
      using e q(2) by (auto simp: h2_def set_field_defs m1)
    have "mem_next (mems h1 ?q) = ?e" by (simp add: m1)
    then have "take_mem sz ?p h = Some h2"
      using True q b d assms(2) unfolding take_mem_def Let_def h2_def h1_def by simp
    moreover have "agrees (mems h2) (headers 0 0 (A @ carved sz n @ B))"
      by (rule agrees_replace [where b = "mems h" and M = "[(n, False)]"])
        (use ok(1) g q(2) True goodc(2) in \<open>auto simp: carved_def m2 m1 add.assoc add.commute [of 8]\<close>)
    moreover have "mem_used (mems h2 MEM_SIZE_ALIGNED)" using ok(6) q(2,3) g e by (cases "B = []") (simp_all add: m2 m1)
    moreover have "ram h2 = ram h" "lfree h2 = lfree h" by (simp_all add: h2_def h1_def set_field_defs)
    ultimately show ?thesis using ok hint holes goodc g by (simp add: heap_ok_def)
  next
    case False
    then have "\<not> n - 8 \<ge> sz + SIZEOF_STRUCT_MEM + MIN_SIZE_ALIGNED" using assms(2) by (simp; linarith)
    then have "take_mem sz ?p h = Some (set_used ?p True h)" unfolding take_mem_def b mem_block.select_convs d by (simp only: if_False)
    moreover have "agrees (mems (set_used ?p True h)) (headers 0 0 (A @ (n, True) # B))" by (rule set_used_agrees [OF ok(1) g(1-3)])
    moreover have "mem_used (mems (set_used ?p True h) MEM_SIZE_ALIGNED)" using ok(6) by (simp add: set_field_defs)
    moreover have "carved sz n = [(n, True)]" using False by (simp add: carved_def)
    ultimately show ?thesis using ok hint [of "carved sz n"] holes goodc g by (simp add: heap_ok_def set_field_defs)
  qed
qed

lemma next_unused_ok:
  assumes "heap_ok h (A @ B)" and "may_free (ram h) (concat ws) (A @ B)" and "\<forall>x \<in> set A. snd x"
  shows "\<exists>r ws' h' L' fs. next_unused (span A) ws h = Some (r, ws', h') \<and> heap_ok h' L' \<and> ram h' = ram h \<and>
    live L' = live (A @ B) - blocks_of (ram h) fs \<and> may_free (ram h) (concat ws') L' \<and> concat ws = fs @ concat ws' \<and>
    (case r of
       None \<Rightarrow> fs \<noteq> []
     | Some c \<Rightarrow> fs = [] \<and> L' = A @ B \<and> hint_ok L' c \<and> (c = MEM_SIZE_ALIGNED \<or> \<not> mem_used (mems h' c)))"
  using assms
proof (induction B arbitrary: A ws h)
  case Nil
  have s: "span A = MEM_SIZE_ALIGNED" using Nil.prems(1) by (simp add: heap_ok_def)
  then have "next_unused (span A) ws h = Some (Some (span A), ws, h)" by (subst next_unused.simps) simp
  moreover have "hint_ok (A @ []) (span A)" using Nil.prems(3) by (auto simp: hint_ok_def)
  ultimately show ?case using Nil.prems s
    by (intro exI [of _ "Some (span A)"] exI [of _ ws] exI [of _ h] exI [of _ A] exI [of _ "[]"]) simp
next
  case (Cons x B)
  obtain n u where x: "x = (n, u)" by (cases x)
  note ok = lwip_heap_okD [OF Cons.prems(1)]
  have b0: "mems h (span A) = \<lparr>mem_next = span A + n, mem_prev = last_at 0 0 A, mem_used = u\<rparr>"
    using block_header [of "mems h" A n u B] ok(1) x by simp
  have lt: "span A \<noteq> MEM_SIZE_ALIGNED" using ok(2,3) x by simp
  show ?case
  proof (cases u)
    case False
    then have "next_unused (span A) ws h = Some (Some (span A), ws, h)" using b0 by (subst next_unused.simps) simp
    moreover have "hint_ok (A @ x # B) (span A)" using Cons.prems(3) by (auto simp: hint_ok_def)
    ultimately show ?thesis using Cons.prems b0 False
      by (intro exI [of _ "Some (span A)"] exI [of _ ws] exI [of _ h] exI [of _ "A @ x # B"] exI [of _ "[]"]) simp
  next
    case True
    obtain ws1 h1 L1 fs where w: "open_window ws h = Some (ws1, h1)" "heap_ok h1 L1" "ram h1 = ram h"
      "live L1 = live (A @ x # B) - blocks_of (ram h) fs" "may_free (ram h) (concat ws1) L1" "concat ws = fs @ concat ws1" "mem_free_count h1 \<longleftrightarrow> fs \<noteq> []"
      "fs = [] \<Longrightarrow> h1 = h\<lparr>mem_free_count := False\<rparr> \<and> L1 = A @ x # B"
      using open_window_ok [OF Cons.prems(1,2)] by metis
    show ?thesis
    proof (cases "fs = []")
      case False
      then have "next_unused (span A) ws h = Some (None, ws1, h1)" using True w(1,7) b0 lt by (subst next_unused.simps) simp
      then show ?thesis using w False by (intro exI [of _ None] exI [of _ ws1] exI [of _ h1] exI [of _ L1] exI [of _ fs]) simp
    next
      case nofree: True
      then have h1: "h1 = h\<lparr>mem_free_count := False\<rparr>" "L1 = A @ x # B" using w(8) by simp_all
      have "next_unused (span A) ws h = next_unused (span (A @ [x])) ws1 h1"
        using True w(1,7) nofree b0 lt h1(1) x by (subst next_unused.simps) simp
      moreover have "heap_ok h1 ((A @ [x]) @ B)" "may_free (ram h1) (concat ws1) ((A @ [x]) @ B)" "\<forall>y \<in> set (A @ [x]). snd y"
        using w(2,3,5) h1(2) True Cons.prems(3) x by auto
      moreover have e: "(A @ [x]) @ B = A @ x # B" by simp
      ultimately show ?thesis using Cons.IH [of h1 "A @ [x]" ws1, unfolded e] w(3,6) nofree by simp
    qed
  qed
qed

lemma adjust_lfree_ok:
  assumes "heap_ok h L" and "may_free (ram h) (concat ws) L"
  shows "\<exists>ws' h' L' fs. adjust_lfree mem ws h = Some (ws', h') \<and> heap_ok h' L' \<and> ram h' = ram h \<and>
    live L' = live L - blocks_of (ram h) fs \<and> may_free (ram h) (concat ws') L' \<and> concat ws = fs @ concat ws'"
  using assms
proof (induction "length (concat ws)" arbitrary: ws h L rule: less_induct)
  case less
  show ?case
  proof (cases "mem = lfree h")
    case False
    then show ?thesis using less.prems
      by (subst adjust_lfree.simps) (intro exI [of _ ws] exI [of _ h] exI [of _ L] exI [of _ "[]"], simp)
  next
    case True
    obtain C D where CD: "L = C @ D" "lfree h = span C" "\<forall>x \<in> set C. snd x" using less.prems(1) by (auto simp: heap_ok_def hint_ok_def)
    from next_unused_ok [of h C D ws] less.prems CD obtain r ws1 h1 L1 fs where
      w: "next_unused (lfree h) ws h = Some (r, ws1, h1)" "heap_ok h1 L1" "ram h1 = ram h" "live L1 = live L - blocks_of (ram h) fs"
      "may_free (ram h) (concat ws1) L1" "concat ws = fs @ concat ws1"
      "case r of None \<Rightarrow> fs \<noteq> []
       | Some c \<Rightarrow> fs = [] \<and> L1 = L \<and> hint_ok L1 c \<and> (c = MEM_SIZE_ALIGNED \<or> \<not> mem_used (mems h1 c))"
      by fastforce
    show ?thesis
    proof (cases r)
      case None
      then have "length (concat ws1) < length (concat ws)" using w(6,7) by simp
      from less.hyps [OF this w(2)] w(3,5) obtain ws' h' L' gs where
        "adjust_lfree mem ws1 h1 = Some (ws', h')" "heap_ok h' L'" "ram h' = ram h1" "live L' = live L1 - blocks_of (ram h1) gs"
        "may_free (ram h1) (concat ws') L'" "concat ws1 = gs @ concat ws'" by auto
      moreover have "adjust_lfree mem ws h = adjust_lfree mem ws1 h1" using True w(1) None by (subst adjust_lfree.simps) simp
      ultimately show ?thesis using w by (intro exI [of _ ws'] exI [of _ h'] exI [of _ L'] exI [of _ "fs @ gs"]) auto
    next
      case (Some c)
      then have c: "fs = []" "L1 = L" "hint_ok L c" "c = MEM_SIZE_ALIGNED \<or> \<not> mem_used (mems h1 c)" using w(7) by auto
      have "adjust_lfree mem ws h = Some (ws1, h1\<lparr>lfree := c\<rparr>)" using True w(1) Some c(4) by (subst adjust_lfree.simps) simp
      moreover have "heap_ok (h1\<lparr>lfree := c\<rparr>) L" using w(2) c by (simp add: heap_ok_def)
      ultimately show ?thesis using w c by (intro exI [of _ ws1] exI [of _ "h1\<lparr>lfree := c\<rparr>"] exI [of _ L] exI [of _ "[]"]) simp
    qed
  qed
qed

text \<open>An allocation takes a free block that is large enough, and fails only when there is none left.\<close>

definition allocated :: "nat \<Rightarrow> nat \<Rightarrow> nat \<Rightarrow> (nat \<times> nat) set \<Rightarrow> layout \<Rightarrow> bool" where
  "allocated r sz p olds L \<longleftrightarrow> (\<exists>q n. p = r + q + 8 \<and> sz + 8 \<le> n \<and> (q, n) \<notin> olds \<and> live L = insert (q, n) olds)"

lemma live_carved:
  assumes "good (A @ (n, False) # B)" and "sz + 8 \<le> n"
  shows "\<exists>m. sz + 8 \<le> m \<and> live (A @ carved sz n @ B) = insert (span A, m) (live (A @ (n, False) # B)) \<and> (\<forall>k. (span A, k) \<notin> live (A @ (n, False) # B))"
proof -
  have "(span A, k) \<notin> live_from 0 A" for k using live_range [of A "span A" k 0] assms by fastforce
  moreover have "(span A, k) \<notin> live_from (span A + n) B" for k using live_range [of B "span A" k "span A + n"] assms by fastforce
  ultimately have new: "\<forall>k. (span A, k) \<notin> live (A @ (n, False) # B)" by (simp add: live_def live_from_append)
  show ?thesis
  proof (cases "sz + 28 \<le> n")
    case True
    then show ?thesis using new by (intro exI [of _ "sz + 8"]) (simp add: carved_def live_def live_from_append add.assoc)
  next
    case False
    then show ?thesis using new assms(2) by (intro exI [of _ n]) (simp add: carved_def live_def live_from_append)
  qed
qed

lemma mod_4_plus_8: "(x + 8) mod 4 = 0 \<longleftrightarrow> x mod 4 = (0 :: nat)"
  by presburger

lemma try_malloc_ok:
  assumes "heap_ok h L" and "may_free (ram h) (concat ws) L" and "12 \<le> sz" and "sz mod 4 = 0" and "sz \<le> MEM_SIZE_ALIGNED"
  shows "\<exists>p ws' h' L' fs. try_malloc sz ws h = Some (p, ws', h') \<and> heap_ok h' L' \<and> ram h' = ram h \<and> concat ws = fs @ concat ws' \<and>
    (if p = 0 then live L' = live L - blocks_of (ram h) fs \<and> (\<forall>x \<in> set L'. \<not> fits sz x)
     else allocated (ram h) sz p (live L - blocks_of (ram h) fs) L')"
  using assms(1,2)
proof (induction "length (concat ws)" arbitrary: ws h L rule: less_induct)
  case less
  obtain C D where CD: "L = C @ D" "lfree h = span C" "\<forall>x \<in> set C. snd x" using less.prems(1) by (auto simp: heap_ok_def hint_ok_def)
  then have "\<forall>x \<in> set C. \<not> fits sz x" by (simp add: fits_def)
  from search_block_ok [of h C D ws sz, OF _ _ _ assms(5) this] less.prems CD assms(3) obtain r ws1 h1 L1 fs where
    w: "search_block sz (lfree h) ws h = Some (r, ws1, h1)" "heap_ok h1 L1" "ram h1 = ram h" "live L1 = live L - blocks_of (ram h) fs"
    "may_free (ram h) (concat ws1) L1" "concat ws = fs @ concat ws1"
    "case r of
       Restart \<Rightarrow> fs \<noteq> []
     | Found q \<Rightarrow> fs = [] \<and> L1 = L \<and> (\<exists>C n D. L1 = C @ (n, False) # D \<and> q = span C \<and> sz + 8 \<le> n \<and> (\<forall>x \<in> set C. \<not> fits sz x))
     | Not_Found \<Rightarrow> fs = [] \<and> L1 = L \<and> (\<forall>x \<in> set L1. \<not> fits sz x)" by fastforce
  show ?case
  proof (cases r)
    case Restart
    then have "length (concat ws1) < length (concat ws)" using w(6,7) by simp
    from less.hyps [OF this w(2)] w(3,5) obtain p ws' h' L' gs where
      IH: "try_malloc sz ws1 h1 = Some (p, ws', h')" "heap_ok h' L'" "ram h' = ram h1" "concat ws1 = gs @ concat ws'"
      "if p = 0 then live L' = live L1 - blocks_of (ram h1) gs \<and> (\<forall>x \<in> set L'. \<not> fits sz x)
       else allocated (ram h1) sz p (live L1 - blocks_of (ram h1) gs) L'" by auto
    have "live L1 - blocks_of (ram h1) gs = live L - blocks_of (ram h) (fs @ gs)" using w(3,4) by auto
    note IH = IH [unfolded this, unfolded w(3)]
    have "try_malloc sz ws h = try_malloc sz ws1 h1" using w(1) Restart by (subst try_malloc.simps) simp
    then show ?thesis using IH w(6)
      by (intro exI [of _ p] exI [of _ ws'] exI [of _ h'] exI [of _ L'] exI [of _ "fs @ gs"]) simp
  next
    case Not_Found
    then have "try_malloc sz ws h = Some (0, ws1, h1)" using w(1) by (subst try_malloc.simps) simp
    then show ?thesis using w Not_Found by (intro exI [of _ 0] exI [of _ ws1] exI [of _ h1] exI [of _ L1] exI [of _ fs]) simp
  next
    case (Found q)
    then obtain A n B where f: "fs = []" "L = A @ (n, False) # B" "L1 = L" "q = span A" "sz + 8 \<le> n" using w(7) by auto
    obtain h2 where t: "take_mem sz q h1 = Some h2" "heap_ok h2 (A @ carved sz n @ B)" "ram h2 = ram h"
      using take_mem_ok [of h1 A n B sz] w(2,3) f assms(3,4) by auto
    obtain m where m: "sz + 8 \<le> m" "live (A @ carved sz n @ B) = insert (q, m) (live L)" "(q, m) \<notin> live L"
      using live_carved [of A n B sz] lwip_heap_okD(3) [OF w(2)] f by auto
    have "may_free (ram h2) (concat ws1) (A @ carved sz n @ B)" using w(5) m(2) t(3) f(3) by (auto simp: may_free_def pointers_def)
    from adjust_lfree_ok [OF t(2) this, of q] obtain ws' h' L' gs where
      a: "adjust_lfree q ws1 h2 = Some (ws', h')" "heap_ok h' L'" "ram h' = ram h2" "live L' = insert (q, m) (live L) - blocks_of (ram h2) gs"
      "concat ws1 = gs @ concat ws'" unfolding m(2) by blast
    let ?p = "ram h + q + 8"
    have "(q, k) \<notin> live L" for k using live_carved [of A n B sz] lwip_heap_okD(3) [OF w(2)] f by auto
    then have "?p \<notin> set gs" using w(5) a(5) f(3) by (auto simp: may_free_def pointers_def)
    then have "live L' = insert (q, m) (live L - blocks_of (ram h) gs)" using a(4) t(3) by (auto simp: blocks_of_def)
    then have al: "allocated (ram h) sz ?p (live L - blocks_of (ram h) gs) L'"
      unfolding allocated_def using m(1,3) by (intro exI [of _ q] exI [of _ m]) simp
    have up: "(ram h + q + 8) mod MEM_ALIGNMENT = 0" "q + n \<le> MEM_SIZE_ALIGNED" using user_pointer [of h1 A n False B] w(2,3) f by simp_all
    then have "(ram h + q) mod MEM_ALIGNMENT = 0" by (simp only: MEM_ALIGNMENT_def mod_4_plus_8)
    then have "try_malloc sz ws h = Some (?p, ws', h')"
      using w(1) Found t a(1,3) up f(5) by (subst try_malloc.simps) simp
    then show ?thesis using a(2,3,5) t(3) al f(1) w(6)
      by (intro exI [of _ ?p] exI [of _ ws'] exI [of _ h'] exI [of _ L'] exI [of _ gs]) simp
  qed
qed

text \<open>The size that a request is rounded to.\<close>

definition rounded :: "nat \<Rightarrow> nat" where "rounded n = max 12 (LWIP_MEM_ALIGN_SIZE n)"

lemma align_size: "LWIP_MEM_ALIGN_SIZE n mod 4 = 0" "n \<le> LWIP_MEM_ALIGN_SIZE n" "LWIP_MEM_ALIGN_SIZE n < n + 4"
  unfolding LWIP_MEM_ALIGN_SIZE_def MEM_ALIGNMENT_def by simp linarith+

lemma mem_malloc_ok:
  assumes "heap_ok h L" and "may_free (ram h) (concat ws) L" and "0 < n" and "n \<le> MEM_SIZE_ALIGNED"
  shows "\<exists>p ws' h' L' fs. mem_malloc n ws h = Some (p, ws', h') \<and> heap_ok h' L' \<and> ram h' = ram h \<and> concat ws = fs @ concat ws' \<and>
    (if p = 0 then live L' = live L - blocks_of (ram h) fs \<and> (\<forall>x \<in> set L'. \<not> fits (rounded n) x)
     else allocated (ram h) (rounded n) p (live L - blocks_of (ram h) fs) L')"
proof -
  note a = align_size [of n]
  have "LWIP_MEM_ALIGN_SIZE n \<le> 22528" using assms(4) by (auto simp: LWIP_MEM_ALIGN_SIZE_def MEM_ALIGNMENT_def)
  then have "mem_malloc n ws h = try_malloc (rounded n) ws h" "rounded n \<le> MEM_SIZE_ALIGNED" "rounded n mod 4 = 0" "12 \<le> rounded n"
    using assms(3) a by (auto simp: mem_malloc_def mem_size_def rounded_def max_def)
  with try_malloc_ok [OF assms(1,2), of "rounded n"] show ?thesis by simp
qed

section \<open>Shrinking a live block\<close>

lemma diff16_nat: "b \<le> a \<Longrightarrow> a < 2 ^ 16 \<Longrightarrow> diff16 a b = a - b"
  unfolding diff16_def by (subst unat_sub_small) (simp_all add: word_le_nat_alt unat_of_nat_small)

definition trimmed :: "nat \<Rightarrow> nat \<Rightarrow> layout \<Rightarrow> layout" where
  "trimmed sz n B =
     (if sz + 8 = n then (n, True) # B
      else if free_after B \<noteq> [] then (sz + 8, True) # (n + span (free_after B) - sz - 8, False) # drop 1 B
      else if sz + 28 \<le> n then (sz + 8, True) # (n - sz - 8, False) # B
      else (n, True) # B)"

text \<open>A block whose blocks behind it are split off anew: the header written at the new boundary, and the links on both sides.\<close>

lemma resplit_agrees:
  assumes "agrees (mems h) (headers 0 0 (A @ M @ B))" and "good A" and "good B" and "M \<noteq> []" and "k + m = span M" and "20 \<le> k" and "20 \<le> m"
    and "span A + span M + span B = MEM_SIZE_ALIGNED" and "mems h (span A) = \<lparr>mem_next = x, mem_prev = last_at 0 0 A, mem_used = True\<rparr>"
    and "h1 = set_next (span A) (span A + k) (set_mem (span A + k) (\<lambda>_. \<lparr>mem_next = span A + span M, mem_prev = span A, mem_used = False\<rparr>) h0)"
    and "h2 = (if span A + span M \<noteq> MEM_SIZE_ALIGNED then set_prev (span A + span M) (span A + k) h1 else h1)" and "mems h0 = mems h"
  shows "agrees (mems h2) (headers 0 0 (A @ [(k, True), (m, False)] @ B)) \<and> mems h2 MEM_SIZE_ALIGNED = mems h MEM_SIZE_ALIGNED \<and>
    lfree h2 = lfree h0 \<and> ram h2 = ram h0"
proof -
  let ?e = "span A + span M"
  have m1: "mems h1 = (mems h)(span A + k := \<lparr>mem_next = ?e, mem_prev = span A, mem_used = False\<rparr>,
      span A := \<lparr>mem_next = span A + k, mem_prev = last_at 0 0 A, mem_used = True\<rparr>)"
    using assms(6,9,12) by (simp add: assms(10) set_field_defs)
  have e: "?e \<noteq> MEM_SIZE_ALIGNED \<longleftrightarrow> B \<noteq> []" using assms(3,8) by (cases B) auto
  have lt: "span A + k < ?e" "?e \<le> MEM_SIZE_ALIGNED" using assms(5,7,8) by simp_all
  have m2: "mems h2 = (if B \<noteq> [] then (mems h1)(?e := (mems h ?e)\<lparr>mem_prev := span A + k\<rparr>) else mems h1)"
    using e lt assms(6) by (auto simp: assms(11) set_field_defs m1)
  have "agrees (mems h2) (headers 0 0 (A @ [(k, True), (m, False)] @ B))"
  proof (rule agrees_replace [where b = "mems h" and M = M])
    show "agrees (mems h2) (headers (last_at 0 0 A) (span A) [(k, True), (m, False)])"
      using lt(1) assms(5-7) by (cases "B = []") (simp_all add: m2 m1 add.assoc)
  qed (use assms(1-8) lt in \<open>simp_all add: m2 m1\<close>)
  moreover have "mems h2 MEM_SIZE_ALIGNED = mems h MEM_SIZE_ALIGNED" using e lt assms(6) by (cases "B = []") (simp_all add: m2 m1)
  ultimately show ?thesis by (simp add: assms(10,11) set_field_defs)
qed

lemma hint_trimmed:
  assumes "hint_ok (A @ (n, True) # B) f" and "20 \<le> n" and "free_after B \<noteq> [] \<or> sz + 28 \<le> n"
    and "f' = (if free_after B \<noteq> [] then if f = span A + n then span A + (sz + 8) else f else if span A + (sz + 8) < f then span A + (sz + 8) else f)"
    and "good (A @ (n, True) # B)"
  shows "hint_ok (A @ (sz + 8, True) # R) f'"
proof -
  obtain C D where CD: "A @ (n, True) # B = C @ D" "f = span C" "\<forall>x \<in> set C. snd x" using assms(1) by (auto simp: hint_ok_def)
  then consider (inside) E where "A = C @ E" | (behind) E where "C = A @ (n, True) # E" "B = E @ D"
    by (auto simp: append_eq_append_conv2 Cons_eq_append_conv)
  then show ?thesis
  proof cases
    case inside
    then have "f \<le> span A" using CD(2) by simp
    then have "f' = f" using assms(2,4) by auto
    then show ?thesis using inside CD by (auto simp: hint_ok_def)
  next
    case behind
    have ge: "span A + n \<le> f" using behind CD(2) by simp
    have "E = []" if "free_after B \<noteq> []" using that CD(3) behind by (cases E) (auto simp: free_after_def split: if_splits)
    then have "f' = span A + (sz + 8)" using assms(2,3,4) ge behind(1) CD(2) by auto
    then show ?thesis using behind(1) CD(3) unfolding hint_ok_def
      by (intro exI [of _ "A @ [(sz + 8, True)]"] exI [of _ R]) auto
  qed
qed

lemma mod_4_diff: "a mod 4 = 0 \<Longrightarrow> b mod 4 = 0 \<Longrightarrow> (a - (b + 8)) mod 4 = (0 :: nat)"
  by presburger

lemma mem_trim_ok:
  assumes "heap_ok h (A @ (n, True) # B)" and "B \<noteq> []" and "rounded sz + 8 \<le> n" and "sz \<le> MEM_SIZE_ALIGNED"
  shows "\<exists>h'. mem_trim (ram h + span A + 8) sz h = Some (ram h + span A + 8, h') \<and> heap_ok h' (A @ trimmed (rounded sz) n B) \<and> ram h' = ram h"
proof -
  note ok = lwip_heap_okD [OF assms(1)]
  note b = block_header [OF ok(1)]
  let ?ns = "rounded sz" and ?p = "span A"
  let ?k = "rounded sz + 8"
  have g: "good A" "good B" "20 \<le> n" "?p + n + span B = MEM_SIZE_ALIGNED" "n mod 4 = 0" using ok(2,3) by simp_all
  have sz: "(if mem_size (LWIP_MEM_ALIGN_SIZE sz) < MIN_SIZE_ALIGNED then MIN_SIZE_ALIGNED else mem_size (LWIP_MEM_ALIGN_SIZE sz)) = ?ns"
    "\<not> (?ns > MEM_SIZE_ALIGNED \<or> ?ns < sz)" "?ns mod 4 = 0" "12 \<le> ?ns"
  proof -
    have "LWIP_MEM_ALIGN_SIZE sz \<le> 22528" using assms(4) by (auto simp: LWIP_MEM_ALIGN_SIZE_def MEM_ALIGNMENT_def)
    then show "(if mem_size (LWIP_MEM_ALIGN_SIZE sz) < MIN_SIZE_ALIGNED then MIN_SIZE_ALIGNED else mem_size (LWIP_MEM_ALIGN_SIZE sz)) = ?ns"
      "\<not> (?ns > MEM_SIZE_ALIGNED \<or> ?ns < sz)" "?ns mod 4 = 0" "12 \<le> ?ns"
      using align_size [of sz] by (auto simp: rounded_def mem_size_def max_def)
  qed
  have d: "diff16 (diff16 (?p + n) ?p) SIZEOF_STRUCT_MEM = n - 8" "mem_size (?p + SIZEOF_STRUCT_MEM + ?ns) = ?p + ?k"
    using g(3,4) assms(3) by (simp_all add: diff16_nat mem_size_def)
  have pos: "ram h + SIZEOF_STRUCT_MEM \<le> ram h + ?p + 8 \<and> ram h + ?p + 8 < ram h + MEM_SIZE_ALIGNED" using g(3,4) by simp
  have next_ne: "?p + n \<noteq> MEM_SIZE_ALIGNED" using g(2,4) assms(2) by (cases B) auto
  obtain m v B' where B: "B = (m, v) # B'" using assms(2) by (cases B) auto
  have q: "mems h (?p + n) = \<lparr>mem_next = ?p + n + m, mem_prev = ?p, mem_used = v\<rparr>" using ok(1) B by (simp add: layout_headers_append add.assoc)
  note T = mem_trim_def [of "ram h + span A + 8" sz h, unfolded Let_def sz(1)]
  have p0: "ram h + ?p + 8 - SIZEOF_STRUCT_MEM - ram h = ?p" by simp
  consider (same) "?k = n" | (free) "?k < n" "\<not> v" | (split) "?k < n" "v" "?ns + 28 \<le> n" | (keep) "?k < n" "v" "n < ?ns + 28"
    using assms(3) by fastforce
  then show ?thesis
  proof cases
    case same
    then have e: "n - 8 = ?ns" by simp
    have "mem_trim (ram h + ?p + 8) sz h = Some (ram h + ?p + 8, h)"
      unfolding T p0 b mem_block.select_convs d(1) e using sz(2) pos by simp
    then show ?thesis using assms(1) same by (simp add: trimmed_def)
  next
    case keep
    then have e: "?ns \<le> n - 8" "?ns \<noteq> n - 8" "\<not> ?ns + SIZEOF_STRUCT_MEM + MIN_SIZE_ALIGNED \<le> n - 8" by simp_all
    then have "mem_trim (ram h + ?p + 8) sz h = Some (ram h + ?p + 8, h\<lparr>mem_free_count := True\<rparr>)"
      unfolding T p0 b mem_block.select_convs d(1) using sz(2) pos keep(2) by (simp add: q)
    moreover have "trimmed ?ns n B = (n, True) # B" using keep by (simp add: trimmed_def free_after_def B)
    ultimately show ?thesis using assms(1) by (simp add: heap_ok_def)
  next
    case free
    let ?h0 = "if lfree h = ?p + n then h\<lparr>lfree := ?p + ?k\<rparr> else h"
    let ?h1 = "set_next ?p (?p + ?k) (set_mem (?p + ?k) (\<lambda>_. \<lparr>mem_next = ?p + (n + m), mem_prev = ?p, mem_used = False\<rparr>) ?h0)"
    let ?h2 = "if ?p + (n + m) \<noteq> MEM_SIZE_ALIGNED then set_prev (?p + (n + m)) (?p + ?k) ?h1 else ?h1"
    have e: "?ns \<le> n - 8" "?ns \<noteq> n - 8" using free by simp_all
    have e2: "mem_next (mems h (?p + n)) = ?p + (n + m)" "\<not> mem_used (mems h (?p + n))" using free(2) by (simp_all add: q)
    have "mem_trim (ram h + ?p + 8) sz h = Some (ram h + ?p + 8, ?h2\<lparr>mem_free_count := True\<rparr>)"
      unfolding T p0 b mem_block.select_convs d e2(1) if_not_P [OF sz(2)] using e e2(2) pos next_ne
      by (cases "lfree h = ?p + n"; cases "?p + (n + m) = MEM_SIZE_ALIGNED"; simp)
    moreover have R: "agrees (mems ?h2) (headers 0 0 (A @ [(?k, True), (n + m - ?k, False)] @ B')) \<and> mems ?h2 MEM_SIZE_ALIGNED = mems h MEM_SIZE_ALIGNED \<and>
        lfree ?h2 = lfree ?h0 \<and> ram ?h2 = ram ?h0"
    proof (rule resplit_agrees [where M = "[(n, True), (m, False)]" and k = ?k and m = "n + m - ?k" and h = h and ?h0.0 = ?h0 and ?h1.0 = ?h1])
      show "?h1 = set_next ?p (?p + ?k) (set_mem (?p + ?k) (\<lambda>_. \<lparr>mem_next = ?p + span [(n, True), (m, False)], mem_prev = ?p, mem_used = False\<rparr>) ?h0)"
        by (simp only: span_simps add_0_right)
      show "?h2 = (if ?p + span [(n, True), (m, False)] \<noteq> MEM_SIZE_ALIGNED then set_prev (?p + span [(n, True), (m, False)]) (?p + ?k) ?h1 else ?h1)"
        by (simp only: span_simps add_0_right)
      have "20 \<le> m" using g(2) B by simp
      then show "20 \<le> n + m - ?k" using free(1) by linarith
    qed (use ok(1) g free B sz(4) b in \<open>simp_all\<close>)
    moreover have t: "trimmed ?ns n B = (?k, True) # (n + m - ?k, False) # B'" using free by (simp add: trimmed_def free_after_def B)
    moreover have "hint_ok (A @ (?k, True) # (n + m - ?k, False) # B') (lfree ?h0)"
      by (rule hint_trimmed [OF ok(5) g(3), where sz = ?ns]) (use free B ok(3) in \<open>simp_all add: free_after_def\<close>)
    moreover have "no_holes (A @ (?k, True) # (n + m - ?k, False) # B')" using ok(4) free unfolding B by (simp add: no_holes_append no_holes_Cons)
    moreover have "good (A @ (?k, True) # (n + m - ?k, False) # B')" using g free B sz(3,4) by (auto simp: mod_4_diff)
    ultimately show ?thesis using ok(6-8) g(4) B free by (simp add: heap_ok_def)
  next
    case split
    let ?h0 = "if ?p + ?k < lfree h then h\<lparr>lfree := ?p + ?k\<rparr> else h"
    let ?h1 = "set_next ?p (?p + ?k) (set_mem (?p + ?k) (\<lambda>_. \<lparr>mem_next = ?p + n, mem_prev = ?p, mem_used = False\<rparr>) ?h0)"
    let ?h2 = "if ?p + n \<noteq> MEM_SIZE_ALIGNED then set_prev (?p + n) (?p + ?k) ?h1 else ?h1"
    have e: "?ns \<le> n - 8" "?ns \<noteq> n - 8" "?ns + SIZEOF_STRUCT_MEM + MIN_SIZE_ALIGNED \<le> n - 8" using split by simp_all
    have e2: "mem_used (mems h (?p + n))" using split(2) by (simp add: q)
    have e3: "mem_next (mems ?h1 (?p + ?k)) = ?p + n" using sz(4) by (simp add: set_field_defs)
    have "mem_trim (ram h + ?p + 8) sz h = Some (ram h + ?p + 8, ?h2\<lparr>mem_free_count := True\<rparr>)"
      unfolding T p0 b mem_block.select_convs d if_not_P [OF sz(2)] using e e2 e3 pos next_ne
      by (cases "?p + ?k < lfree h"; cases "?p + n = MEM_SIZE_ALIGNED"; simp add: b)
    moreover have R: "agrees (mems ?h2) (headers 0 0 (A @ [(?k, True), (n - ?k, False)] @ B)) \<and> mems ?h2 MEM_SIZE_ALIGNED = mems h MEM_SIZE_ALIGNED \<and>
        lfree ?h2 = lfree ?h0 \<and> ram ?h2 = ram ?h0"
    proof (rule resplit_agrees [where M = "[(n, True)]" and k = ?k and m = "n - ?k" and h = h and ?h0.0 = ?h0 and ?h1.0 = ?h1])
      show "?h1 = set_next ?p (?p + ?k) (set_mem (?p + ?k) (\<lambda>_. \<lparr>mem_next = ?p + span [(n, True)], mem_prev = ?p, mem_used = False\<rparr>) ?h0)"
        by (simp only: span_simps add_0_right)
      show "?h2 = (if ?p + span [(n, True)] \<noteq> MEM_SIZE_ALIGNED then set_prev (?p + span [(n, True)]) (?p + ?k) ?h1 else ?h1)"
        by (simp only: span_simps add_0_right)
    qed (use ok(1) g split sz(4) b in \<open>simp_all\<close>)
    moreover have t: "trimmed ?ns n B = (?k, True) # (n - ?k, False) # B" using split by (simp add: trimmed_def free_after_def B)
    moreover have "hint_ok (A @ (?k, True) # (n - ?k, False) # B) (lfree ?h0)"
      by (rule hint_trimmed [OF ok(5) g(3), where sz = ?ns]) (use split B ok(3) in \<open>simp_all add: free_after_def\<close>)
    moreover have "no_holes (A @ (?k, True) # (n - ?k, False) # B)" using ok(4) split unfolding B by (simp add: no_holes_append no_holes_Cons)
    moreover have "good (A @ (?k, True) # (n - ?k, False) # B)" using g split B sz(3,4) by (auto simp: mod_4_diff)
    ultimately show ?thesis using ok(6-8) g(4) B split by (simp add: heap_ok_def)
  qed
qed

lemma live_trimmed:
  assumes "good (A @ (n, True) # B)" and "rounded sz + 8 \<le> n"
  shows "\<exists>k. rounded sz + 8 \<le> k \<and> k \<le> n \<and> live (A @ trimmed (rounded sz) n B) = insert (span A, k) (live (A @ (n, True) # B) - {(span A, n)})"
proof -
  have "(span A, n) \<notin> live_from 0 A" using live_range [of A "span A" n 0] assms by fastforce
  moreover have "(span A, n) \<notin> live_from (span A + n) B" using live_range [of B "span A" n "span A + n"] assms by fastforce
  ultimately have L: "live (A @ (n, True) # B) - {(span A, n)} = live_from 0 A \<union> live_from (span A + n) B"
    by (auto simp: live_def live_from_append)
  have B: "live_from (span A + n) B = live_from (span A + n + span (free_after B)) (drop 1 B)" if "free_after B \<noteq> []"
    using that by (cases B; cases "hd B") (auto simp: free_after_def split: if_splits)
  consider (same) "rounded sz + 8 = n" | (free) "rounded sz + 8 < n" "free_after B \<noteq> []" | (split) "rounded sz + 28 \<le> n" "free_after B = []"
    | (keep) "rounded sz + 8 < n" "n < rounded sz + 28" "free_after B = []" using assms(2) by fastforce
  then show ?thesis
  proof cases
    case same
    then show ?thesis unfolding L by (intro exI [of _ n]) (auto simp: trimmed_def live_def live_from_append)
  next
    case free
    then show ?thesis using B [OF free(2)]
      unfolding L by (intro exI [of _ "rounded sz + 8"]) (auto simp: trimmed_def live_def live_from_append add.assoc)
  next
    case split
    then show ?thesis unfolding L by (intro exI [of _ "rounded sz + 8"]) (auto simp: trimmed_def live_def live_from_append add.assoc)
  next
    case keep
    then show ?thesis unfolding L by (intro exI [of _ n]) (auto simp: trimmed_def live_def live_from_append)
  qed
qed

text \<open>A block at the end of the heap cannot be shrunk: the header behind it is in use, and an assertion demands that it is not the last.\<close>

lemma mem_trim_last_block_stops:
  assumes "heap_ok h (A @ [(n, True)])" and "rounded sz + 28 \<le> n" and "sz \<le> MEM_SIZE_ALIGNED"
  shows "mem_trim (ram h + span A + 8) sz h = None"
proof -
  note ok = lwip_heap_okD [OF assms(1)]
  note b = block_header [OF ok(1)]
  have e: "span A + n = MEM_SIZE_ALIGNED" using ok(2) by simp
  have "LWIP_MEM_ALIGN_SIZE sz \<le> 22528" using assms(3) by (auto simp: LWIP_MEM_ALIGN_SIZE_def MEM_ALIGNMENT_def)
  then have sz: "(if mem_size (LWIP_MEM_ALIGN_SIZE sz) < MIN_SIZE_ALIGNED then MIN_SIZE_ALIGNED else mem_size (LWIP_MEM_ALIGN_SIZE sz)) = rounded sz"
    "\<not> (rounded sz > MEM_SIZE_ALIGNED \<or> rounded sz < sz)" using align_size [of sz] by (auto simp: rounded_def mem_size_def max_def)
  have d: "diff16 (diff16 (span A + n) (span A)) SIZEOF_STRUCT_MEM = n - 8" using e assms(2) by (simp add: diff16_nat)
  have p0: "ram h + span A + 8 - SIZEOF_STRUCT_MEM - ram h = span A" by simp
  have c: "rounded sz \<le> n - 8" "rounded sz \<noteq> n - 8" "rounded sz + SIZEOF_STRUCT_MEM + MIN_SIZE_ALIGNED \<le> n - 8" using assms(2) by simp_all
  show ?thesis unfolding mem_trim_def Let_def sz(1) p0 b mem_block.select_convs e d [unfolded e] if_not_P [OF sz(2)]
    using c ok(6) by simp
qed

section \<open>Runs\<close>

datatype heap_op = Malloc nat | Release nat | Shrink nat nat

text \<open>The blocks that the user holds are the pointers with the sizes asked for; a request names a block by its place in this list.\<close>

fun heap_step :: "heap_op \<Rightarrow> lwip_heap \<times> (nat \<times> nat) list \<Rightarrow> (lwip_heap \<times> (nat \<times> nat) list) option" where
  "heap_step (Malloc n) (h, held) = do { (p, ws, h) \<leftarrow> mem_malloc n [] h; Some (h, if p = 0 then held else held @ [(p, n)]) }"
| "heap_step (Release i) (h, held) =
     (if i < length held then do { h \<leftarrow> mem_free (fst (held ! i)) h; Some (h, take i held @ drop (Suc i) held) } else None)"
| "heap_step (Shrink i n) (h, held) =
     (if i < length held then do { (p, h) \<leftarrow> mem_trim (fst (held ! i)) n h; Some (h, if p = 0 then held else held[i := (p, n)]) } else None)"

text \<open>The block of the heap that holds an area: its offset, and the offset behind it.\<close>

definition area_block :: "lwip_heap \<Rightarrow> nat \<times> nat \<Rightarrow> nat" where "area_block h x = fst x - SIZEOF_STRUCT_MEM - ram h"
definition area_end :: "lwip_heap \<Rightarrow> nat \<times> nat \<Rightarrow> nat" where "area_end h x = mem_next (mems h (area_block h x))"

text \<open>
  What the caller has to keep to: the size is a 16-bit number, the area is one it holds, a shrunk area does not grow, and it is not
  in the last block of the heap.
\<close>

fun heap_legal :: "heap_op \<Rightarrow> lwip_heap \<times> (nat \<times> nat) list \<Rightarrow> bool" where
  "heap_legal (Malloc n) (h, held) \<longleftrightarrow> n < 65536"
| "heap_legal (Release i) (h, held) \<longleftrightarrow> i < length held"
| "heap_legal (Shrink i n) (h, held) \<longleftrightarrow> i < length held \<and> n \<le> snd (held ! i) \<and> area_end h (held ! i) \<noteq> MEM_SIZE_ALIGNED"

text \<open>The states that legal calls reach from the fresh heap.\<close>

inductive heap_reach :: "nat \<Rightarrow> lwip_heap \<times> (nat \<times> nat) list \<Rightarrow> bool" for ram_heap where
  fresh: "heap_reach ram_heap (mem_init ram_heap h0, [])"
| call: "heap_reach ram_heap s \<Longrightarrow> heap_legal op s \<Longrightarrow> heap_step op s = Some s' \<Longrightarrow> heap_reach ram_heap s'"

definition backed :: "nat \<Rightarrow> (nat \<times> nat) set \<Rightarrow> nat \<times> nat \<Rightarrow> bool" where
  "backed r S x \<longleftrightarrow> (\<exists>q m. (q, m) \<in> S \<and> fst x = r + q + 8 \<and> rounded (snd x) + 8 \<le> m)"

definition held_ok :: "lwip_heap \<Rightarrow> layout \<Rightarrow> (nat \<times> nat) list \<Rightarrow> bool" where
  "held_ok h L held \<longleftrightarrow> distinct (map fst held) \<and> pointers (ram h) L = fst ` set held \<and> (\<forall>x \<in> set held. backed (ram h) (live L) x)"

lemma backed_mono: "backed r S x \<Longrightarrow> (\<And>q m. fst x = r + q + 8 \<Longrightarrow> (q, m) \<in> S \<Longrightarrow> (q, m) \<in> T) \<Longrightarrow> backed r T x"
  unfolding backed_def by blast

lemma held_block:
  assumes "heap_ok h L" and "held_ok h L held" and "i < length held"
  obtains A m B where "L = A @ (m, True) # B" "fst (held ! i) = ram h + span A + 8" "rounded (snd (held ! i)) + 8 \<le> m"
proof -
  have "backed (ram h) (live L) (held ! i)" using assms(2,3) by (simp add: held_ok_def)
  then obtain q m where q: "(q, m) \<in> live L" "fst (held ! i) = ram h + q + 8" "rounded (snd (held ! i)) + 8 \<le> m"
    unfolding backed_def by blast
  then obtain A B where "L = A @ (m, True) # B" "q = span A" using live_split [of q m 0 L] by (auto simp: live_def)
  then show ?thesis using that q by blast
qed

lemma mem_malloc_too_large: "n = 0 \<or> MEM_SIZE_ALIGNED < n \<and> n < 65536 \<Longrightarrow> mem_malloc n ws h = Some (0, ws, h)"
proof -
  assume a: "n = 0 \<or> MEM_SIZE_ALIGNED < n \<and> n < 65536"
  show ?thesis
  proof (cases "n = 0")
    case False
    with a have n: "22528 < n" "n < 65536" by simp_all
    show ?thesis
    proof (cases "LWIP_MEM_ALIGN_SIZE n < 65536")
      case True
      then have "mem_size (LWIP_MEM_ALIGN_SIZE n) = LWIP_MEM_ALIGN_SIZE n" by (simp add: mem_size_def)
      moreover have "22528 < LWIP_MEM_ALIGN_SIZE n" using align_size(2) [of n] n by linarith
      ultimately show ?thesis using False by (simp add: mem_malloc_def)
    next
      case False
      then have "LWIP_MEM_ALIGN_SIZE n < 65540" "65536 \<le> LWIP_MEM_ALIGN_SIZE n" using align_size(3) [of n] n by linarith+
      then have "mem_size (LWIP_MEM_ALIGN_SIZE n) < 12" by (simp add: mem_size_def le_mod_geq)
      then show ?thesis using n by (simp add: mem_malloc_def)
    qed
  qed (simp add: mem_malloc_def)
qed

lemma rounded_mono: "n \<le> m \<Longrightarrow> rounded n \<le> rounded m"
  unfolding rounded_def LWIP_MEM_ALIGN_SIZE_def MEM_ALIGNMENT_def by (intro max.mono order.refl mult_le_mono1 div_le_mono) simp

lemma rounded_ge: "n \<le> rounded n"
  using align_size(2) [of n] by (simp add: rounded_def max_def)

lemma malloc_step_ok:
  assumes "heap_ok h L" and "held_ok h L held" and "n < 65536"
  shows "\<exists>h' held' L'. heap_step (Malloc n) (h, held) = Some (h', held') \<and> heap_ok h' L' \<and> held_ok h' L' held'"
proof (cases "n = 0 \<or> MEM_SIZE_ALIGNED < n")
  case True
  then have "mem_malloc n [] h = Some (0, [], h)" using assms(3) by (intro mem_malloc_too_large) auto
  then show ?thesis using assms by auto
next
  case False
  obtain p ws' h' L' where r: "mem_malloc n [] h = Some (p, ws', h')" "heap_ok h' L'" "ram h' = ram h"
    "if p = 0 then live L' = live L else allocated (ram h) (rounded n) p (live L) L'"
    using mem_malloc_ok [OF assms(1), of "[]" n] False by (auto simp: may_free_def split: if_splits)
  show ?thesis
  proof (cases "p = 0")
    case True
    then have "held_ok h' L' held" using r(3,4) assms(2) by (simp add: held_ok_def pointers_def)
    then show ?thesis using r True by auto
  next
    case False
    then obtain q m where q: "p = ram h + q + 8" "rounded n + 8 \<le> m" "live L' = insert (q, m) (live L)" "(q, m) \<notin> live L"
      using r(4) by (auto simp: allocated_def)
    have "(q, k) \<notin> live L" for k using live_unique [of L' q k m] lwip_heap_okD(3) [OF r(2)] q(3,4) by auto
    then have "p \<notin> pointers (ram h) L" using q(1) by (auto simp: pointers_def)
    then have pn: "p \<notin> fst ` set held" using assms(2) by (simp add: held_ok_def)
    have "backed (ram h) (live L') x" if "x \<in> set held" for x
      using assms(2) that q(3) unfolding held_ok_def by (auto elim: backed_mono)
    moreover have "backed (ram h) (live L') (p, n)" using q unfolding backed_def by auto
    moreover have "pointers (ram h) L' = insert p (pointers (ram h) L)" using q(1,3) by (simp add: pointers_def)
    ultimately have "held_ok h' L' (held @ [(p, n)])"
      using assms(2) r(3) pn unfolding held_ok_def by auto
    then show ?thesis using r(1,2) False by auto
  qed
qed

lemma set_insert_others: "S = insert x T \<Longrightarrow> fst x \<notin> fst ` T \<Longrightarrow> T = {y \<in> S. fst y \<noteq> fst x}"
proof (rule set_eqI)
  fix y assume a: "S = insert x T" "fst x \<notin> fst ` T"
  have "fst y \<noteq> fst x" if "y \<in> T" using that a(2) imageI [OF that, of fst] by metis
  then show "y \<in> T \<longleftrightarrow> y \<in> {y \<in> S. fst y \<noteq> fst x}" using a(1) by auto
qed

lemma set_remove_nth:
  assumes "distinct (map fst xs)" and "i < length xs"
  shows "set (take i xs @ drop (Suc i) xs) = {x \<in> set xs. fst x \<noteq> fst (xs ! i)}" "distinct (map fst (take i xs @ drop (Suc i) xs))"
proof -
  have xs: "xs = take i xs @ xs ! i # drop (Suc i) xs" using assms(2) by (rule id_take_nth_drop)
  have d: "distinct (map fst (take i xs @ xs ! i # drop (Suc i) xs))" using assms(1) xs by simp
  then show "distinct (map fst (take i xs @ drop (Suc i) xs))" by simp
  have "set xs = insert (xs ! i) (set (take i xs @ drop (Suc i) xs))" by (subst xs) auto
  moreover have "fst (xs ! i) \<notin> fst ` set (take i xs @ drop (Suc i) xs)" using d by auto
  ultimately show "set (take i xs @ drop (Suc i) xs) = {x \<in> set xs. fst x \<noteq> fst (xs ! i)}" by (rule set_insert_others)
qed

lemma release_step_ok:
  assumes "heap_ok h L" and "held_ok h L held" and "i < length held"
  shows "\<exists>h' held' L'. heap_step (Release i) (h, held) = Some (h', held') \<and> heap_ok h' L' \<and> held_ok h' L' held'"
proof -
  note True = assms(3)
  obtain A m B where L: "L = A @ (m, True) # B" "fst (held ! i) = ram h + span A + 8"
    by (rule held_block [OF assms(1,2) True])
  obtain h' where h': "mem_free (ram h + span A + 8) h = Some h'" "heap_ok h' (freed A m B)" "ram h' = ram h"
    using mem_free_ok [of h A m B] assms(1) L(1) by auto
  have lv: "live (freed A m B) = live L - {(span A, m)}" using live_freed lwip_heap_okD(3) [OF assms(1)] L(1) by simp
  have un: "k = m" if "(span A, k) \<in> live L" for k
  proof -
    have "(span A, m) \<in> live L" by (simp add: L(1) live_def live_from_append)
    then show ?thesis using live_unique [OF lwip_heap_okD(3) [OF assms(1)] that] by blast
  qed
  have D: "distinct (map fst held)" using assms(2) by (simp add: held_ok_def)
  note R = set_remove_nth [OF D True]
  have "pointers (ram h) (freed A m B) = pointers (ram h) L - {ram h + span A + 8}" using un unfolding pointers_def lv by force
  moreover have "pointers (ram h) L = fst ` set held" using assms(2) by (simp add: held_ok_def)
  moreover have "fst ` set (take i held @ drop (Suc i) held) = fst ` set held - {ram h + span A + 8}" unfolding R(1) L(2) by auto
  ultimately have "pointers (ram h) (freed A m B) = fst ` set (take i held @ drop (Suc i) held)" by simp
  moreover have "\<forall>x \<in> set (take i held @ drop (Suc i) held). backed (ram h) (live (freed A m B)) x"
    unfolding R(1) lv L(2) using assms(2) unfolding held_ok_def by (auto elim!: backed_mono)
  ultimately have "held_ok h' (freed A m B) (take i held @ drop (Suc i) held)" using R(2) h'(3) by (simp add: held_ok_def)
  then show ?thesis using h' True L(2) by auto
qed

lemma shrink_step_ok:
  assumes "heap_ok h L" and "held_ok h L held" and "heap_legal (Shrink i n) (h, held)"
  shows "\<exists>h' held' L'. heap_step (Shrink i n) (h, held) = Some (h', held') \<and> heap_ok h' L' \<and> held_ok h' L' held'"
proof -
  note True = assms(3) [unfolded heap_legal.simps area_end_def area_block_def]
  then have i: "i < length held" by simp
  obtain A m B where L: "L = A @ (m, True) # B" "fst (held ! i) = ram h + span A + 8" "rounded (snd (held ! i)) + 8 \<le> m"
    by (rule held_block [OF assms(1,2) i])
  let ?p = "ram h + span A + 8"
  note ok = lwip_heap_okD [OF assms(1)]
  have b: "mem_next (mems h (span A)) = span A + m" using block_header [of "mems h" A m True B] ok(1) L(1) by simp
  have "B \<noteq> []" using True b L(2) ok(2) unfolding L(1) by auto
  moreover have n: "rounded n + 8 \<le> m" using rounded_mono [of n "snd (held ! i)"] True L(3) by simp
  moreover have "n \<le> MEM_SIZE_ALIGNED" using n rounded_ge [of n] user_pointer(3) [of h A m True B] assms(1) L(1) by simp
  ultimately obtain h' where h': "mem_trim ?p n h = Some (?p, h')" "heap_ok h' (A @ trimmed (rounded n) m B)" "ram h' = ram h"
    using mem_trim_ok [of h A m B n] assms(1) L(1) by auto
  obtain k where k: "rounded n + 8 \<le> k" "live (A @ trimmed (rounded n) m B) = insert (span A, k) (live L - {(span A, m)})"
    using live_trimmed [of A m B n] ok(3) L(1) n by auto
  have mem: "(span A, m) \<in> live L" by (simp add: L(1) live_def live_from_append)
  have un: "j = m" if "(span A, j) \<in> live L" for j using live_unique [OF ok(3) that mem] .
  have "pointers (ram h) L = (\<lambda>(q, n). ram h + q + 8) ` insert (span A, m) (live L - {(span A, m)})"
    unfolding pointers_def insert_Diff [OF mem] ..
  also have "\<dots> = insert ?p ((\<lambda>(q, n). ram h + q + 8) ` (live L - {(span A, m)}))" by (simp only: image_insert prod.case)
  also have "\<dots> = (\<lambda>(q, n). ram h + q + 8) ` insert (span A, k) (live L - {(span A, m)})" by (simp only: image_insert prod.case)
  also have "\<dots> = pointers (ram h) (A @ trimmed (rounded n) m B)" unfolding pointers_def k(2) ..
  finally have "pointers (ram h) (A @ trimmed (rounded n) m B) = pointers (ram h) L" ..
  moreover have upd: "map fst (held[i := (?p, n)]) = map fst held" using L(2) i list_update_id [of "map fst held" i] by (simp add: map_update)
  moreover have "fst ` set (held[i := (?p, n)]) = fst ` set held" using arg_cong [OF upd, of set] by simp
  moreover have "backed (ram h) (live (A @ trimmed (rounded n) m B)) x" if "x \<in> set (held[i := (?p, n)])" for x
  proof -
    from that obtain j where j: "j < length held" "x = held[i := (?p, n)] ! j" unfolding in_set_conv_nth by auto
    consider "x = (?p, n)" | j where "j < length held" "j \<noteq> i" "x = held ! j"
      by (cases "j = i") (use i j in auto)
    then show ?thesis
    proof cases
      case 1
      then show ?thesis using k unfolding backed_def by auto
    next
      case 2
      have D: "distinct (map fst held)" using assms(2) by (simp add: held_ok_def)
      have "fst x \<noteq> ?p" using 2 nth_eq_iff_index_eq [OF D, of j i] i L(2) by simp
      moreover have "backed (ram h) (live L) x" using 2 assms(2) by (simp add: held_ok_def)
      ultimately show ?thesis unfolding k(2) by (auto elim!: backed_mono)
    qed
  qed
  ultimately have "held_ok h' (A @ trimmed (rounded n) m B) (held[i := (?p, n)])"
    using assms(2) h'(3) by (simp add: held_ok_def)
  moreover have "?p \<noteq> 0" by simp
  ultimately show ?thesis using h' i L(2) by auto
qed

lemma legal_step_ok:
  assumes "heap_ok h L" and "held_ok h L held" and "heap_legal op (h, held)"
  shows "\<exists>h' held' L'. heap_step op (h, held) = Some (h', held') \<and> heap_ok h' L' \<and> held_ok h' L' held'"
proof (cases op)
  case (Malloc n)
  then show ?thesis using malloc_step_ok [OF assms(1,2)] assms(3) by simp
next
  case (Release i)
  then show ?thesis using release_step_ok [OF assms(1,2)] assms(3) by simp
next
  case (Shrink i n)
  then show ?thesis using shrink_step_ok [OF assms(1,2)] assms(3) by blast
qed

text \<open>Shrinking the last block so far that a block could be cut off stops in the assertion.\<close>

lemma shrink_last_stops:
  assumes "heap_ok h L" and "held_ok h L held" and "i < length held"
    and "area_end h (held ! i) = MEM_SIZE_ALIGNED" and "area_block h (held ! i) + rounded n + 28 \<le> MEM_SIZE_ALIGNED"
  shows "heap_step (Shrink i n) (h, held) = None"
proof -
  obtain A m B where L: "L = A @ (m, True) # B" "fst (held ! i) = ram h + span A + 8" "rounded (snd (held ! i)) + 8 \<le> m"
    by (rule held_block [OF assms(1-3)])
  note ok = lwip_heap_okD [OF assms(1)]
  have b: "mem_next (mems h (span A)) = span A + m" using block_header [of "mems h" A m True B] ok(1) L(1) by simp
  have p: "area_block h (held ! i) = span A" using L(2) by (simp add: area_block_def)
  have e: "span A + m = MEM_SIZE_ALIGNED" using assms(4) b p by (simp add: area_end_def)
  then have "B = []" using ok(2,3) L(1) by (cases B) auto
  then have "mem_trim (ram h + span A + 8) n h = None"
    using mem_trim_last_block_stops [of h A m n] assms(1,5) L(1) e p rounded_ge [of n] by simp
  then show ?thesis using assms(3) L(2) by simp
qed

lemma all_free: "good L \<Longrightarrow> no_holes L \<Longrightarrow> live_from p L = {} \<Longrightarrow> L \<noteq> [] \<Longrightarrow> L = [(span L, False)]"
  by (induction L arbitrary: p rule: no_holes.induct) (auto split: if_splits)

lemma held_disjoint:
  assumes "heap_ok h L" and "held_ok h L held" and "i < length held" and "j < length held" and "i \<noteq> j"
  shows "fst (held ! i) + snd (held ! i) \<le> fst (held ! j) \<or> fst (held ! j) + snd (held ! j) \<le> fst (held ! i)"
proof -
  have ne: "fst (held ! i) \<noteq> fst (held ! j)"
    using assms nth_eq_iff_index_eq [of "map fst held" i j] by (simp add: held_ok_def)
  have bk: "backed (ram h) (live L) (held ! i)" "backed (ram h) (live L) (held ! j)" using assms by (simp_all add: held_ok_def)
  from bk(1) obtain q m where q: "(q, m) \<in> live L" "fst (held ! i) = ram h + q + 8" "rounded (snd (held ! i)) + 8 \<le> m" unfolding backed_def by blast
  from bk(2) obtain r k where r: "(r, k) \<in> live L" "fst (held ! j) = ram h + r + 8" "rounded (snd (held ! j)) + 8 \<le> k" unfolding backed_def by blast
  have "q + m \<le> r \<or> r + k \<le> q"
    using live_disjoint [OF lwip_heap_okD(3) [OF assms(1)], of q m 0 r k] q(1,2) r(1,2) ne by (auto simp: live_def)
  then show ?thesis using q(2,3) r(2,3) rounded_ge [of "snd (held ! i)"] rounded_ge [of "snd (held ! j)"] by auto
qed

lemma held_inside:
  assumes "heap_ok h L" and "held_ok h L held" and "i < length held"
  shows "ram h \<le> fst (held ! i) \<and> fst (held ! i) + snd (held ! i) \<le> ram h + MEM_SIZE_ALIGNED \<and> fst (held ! i) mod MEM_ALIGNMENT = 0"
proof -
  obtain A m B where L: "L = A @ (m, True) # B" "fst (held ! i) = ram h + span A + 8" "rounded (snd (held ! i)) + 8 \<le> m"
    by (rule held_block [OF assms])
  show ?thesis using user_pointer [of h A m True B] assms(1) L rounded_ge [of "snd (held ! i)"] by simp
qed

text \<open>
  C28: Interrupts may free blocks while an allocation is under way. In every well-formed heap, and whatever live blocks the other
  contexts free in whatever windows of the call, \<^verbatim>\<open>mem_malloc\<close> returns; all that was freed in the windows it opened is free, and no other block
  is lost; the block that it returns was not live, is now, and is as large as requested; and it fails only when no free block of
  the heap it leaves is large enough.
\<close>

theorem mem_malloc_under_interference:
  assumes "heap_ok h L" and "may_free (ram h) (concat ws) L" and "0 < n" and "n \<le> MEM_SIZE_ALIGNED"
  shows "\<exists>p ws' h' L' fs. mem_malloc n ws h = Some (p, ws', h') \<and> heap_ok h' L' \<and> ram h' = ram h \<and> concat ws = fs @ concat ws' \<and>
    (if p = 0 then live L' = live L - blocks_of (ram h) fs \<and> (\<forall>x \<in> set L'. \<not> fits (rounded n) x)
     else allocated (ram h) (rounded n) p (live L - blocks_of (ram h) fs) L')"
  by (rule mem_malloc_ok [OF assms])

lemma fresh_held: "held_ok h [(MEM_SIZE_ALIGNED, False)] []"
  by (simp add: held_ok_def pointers_def live_def)

lemma heap_reach_ok:
  assumes "heap_reach ram_heap s" and "0 < ram_heap"
  shows "\<exists>L. heap_ok (fst s) L \<and> held_ok (fst s) L (snd s)"
  using assms
proof (induction rule: heap_reach.induct)
  case (fresh h0)
  then show ?case using mem_init_ok [of ram_heap h0] fresh_held by auto
next
  case (call s op s')
  obtain h held where s: "s = (h, held)" by (cases s)
  obtain L where L: "heap_ok h L" "held_ok h L held" using call.IH call.prems s by auto
  from legal_step_ok [OF L, of op] call.hyps(2,3) s show ?case by fastforce
qed

text \<open>An empty heap grants a request for all of it.\<close>

lemma whole_heap_again:
  assumes "heap_ok h L" and "held_ok h L []"
  shows "\<exists>p ws h'. mem_malloc (MEM_SIZE_ALIGNED - SIZEOF_STRUCT_MEM) [] h = Some (p, ws, h') \<and> p \<noteq> 0"
proof -
  note r = assms
  have "live_from 0 L = {}" using r(2) by (simp add: held_ok_def pointers_def live_def)
  moreover have "L \<noteq> []" using lwip_heap_okD(2) [OF r(1)] by auto
  ultimately have L: "L = [(22528, False)]" using all_free [of L 0] lwip_heap_okD [OF r(1)] by simp
  have "rounded 22520 = 22520" by (simp add: rounded_def LWIP_MEM_ALIGN_SIZE_def MEM_ALIGNMENT_def)
  then have f: "fits (rounded 22520) (22528, False)" by (simp add: fits_def)
  have "may_free (ram h) (concat []) L" by (simp add: may_free_def)
  from mem_malloc_ok [OF r(1) this, of 22520] obtain p ws' h' L' fs where m: "mem_malloc 22520 [] h = Some (p, ws', h')" "heap_ok h' L'" "concat [] = fs @ concat ws'"
    "if p = 0 then live L' = live L - blocks_of (ram h) fs \<and> (\<forall>x \<in> set L'. \<not> fits (rounded 22520) x)
     else allocated (ram h) (rounded 22520) p (live L - blocks_of (ram h) fs) L'" by (simp add: zero_less_numeral) blast
  have "p \<noteq> 0"
  proof
    assume "p = 0"
    with m(4) have e: "live L' = {}" "\<forall>x \<in> set L'. \<not> fits (rounded 22520) x" by (simp_all add: L live_def)
    have "L' \<noteq> []" using lwip_heap_okD(2) [OF m(2)] by auto
    then have "L' = [(22528, False)]" using all_free [of L' 0] lwip_heap_okD [OF m(2)] e(1) by (simp add: live_def)
    with e(2) f show False by simp
  qed
  then show ?thesis using m(1) by auto
qed

text \<open>A heap with a live block of 28 bytes, which an interrupt frees while an allocation that fits nowhere else is looking at the blocks.\<close>

definition busy_heap :: lwip_heap where
  "busy_heap = \<lparr>ram = 4, mems = (\<lambda>p. if p = 0 then \<lparr>mem_next = 28, mem_prev = 0, mem_used = True\<rparr>
       else if p = 28 then \<lparr>mem_next = 22528, mem_prev = 0, mem_used = True\<rparr>
       else \<lparr>mem_next = 22528, mem_prev = 22528, mem_used = True\<rparr>), lfree = 22528, mem_free_count = False\<rparr>"

lemma busy_heap_ok: "heap_ok busy_heap [(28, True), (22500, True)]" "live [(28, True), (22500, True)] = {(0, 28), (28, 22500)}"
proof -
  show "live [(28, True), (22500, True)] = {(0, 28), (28, 22500)}" by (simp add: live_def)
  have "hint_ok ([(28, True), (22500, True)] @ []) (span [(28, True), (22500, True)])" unfolding hint_ok_def
    by (rule exI [of _ "[(28, True), (22500, True)]"], rule exI [of _ "[]"]) simp
  then show "heap_ok busy_heap [(28, True), (22500, True)]" by (simp add: heap_ok_def busy_heap_def MEM_ALIGNMENT_def)
qed

theorem mem_malloc_under_interference_witness:
  "\<exists>p ws' h'. mem_malloc 20 [[12]] busy_heap = Some (p, ws', h')"
proof -
  have "may_free (ram busy_heap) (concat [[12]]) [(28, True), (22500, True)]"
    by (simp add: may_free_def pointers_def busy_heap_ok(2)) (simp add: busy_heap_def)
  from mem_malloc_under_interference [OF busy_heap_ok(1) this, of 20] show ?thesis by auto
qed

text \<open>
  C34: The heap keeps the blocks of its users apart and does not wear out. In every state that legal calls of \<^verbatim>\<open>mem_malloc\<close>,
  \<^verbatim>\<open>mem_free\<close> and \<^verbatim>\<open>mem_trim\<close> reach from the fresh heap, every further legal call returns; the areas that are held are
  aligned, inside the heap and pairwise disjoint; and when nothing
  is held any more, all free blocks have been merged: a request for the whole heap is granted. Legal are requests of any 16-bit size,
  releases of held areas, and shrinkings of held areas that do not lie in the last block of the heap; a shrinking of the last
  block by 20 bytes or more stops in an assertion of \<^verbatim>\<open>mem_trim\<close>.
\<close>

theorem heap_never_wears_out:
  assumes "0 < ram_heap" and "heap_reach ram_heap (h, held)"
  shows "(\<forall>op. heap_legal op (h, held) \<longrightarrow> heap_step op (h, held) \<noteq> None) \<and>
    (\<forall>i < length held. \<forall>n. area_end h (held ! i) = MEM_SIZE_ALIGNED \<longrightarrow> area_block h (held ! i) + rounded n + 28 \<le> MEM_SIZE_ALIGNED \<longrightarrow>
       heap_step (Shrink i n) (h, held) = None) \<and>
    (\<forall>i < length held. ram h \<le> fst (held ! i) \<and> fst (held ! i) + snd (held ! i) \<le> ram h + MEM_SIZE_ALIGNED \<and> fst (held ! i) mod MEM_ALIGNMENT = 0) \<and>
    (\<forall>i < length held. \<forall>j < length held. i \<noteq> j \<longrightarrow>
       fst (held ! i) + snd (held ! i) \<le> fst (held ! j) \<or> fst (held ! j) + snd (held ! j) \<le> fst (held ! i)) \<and>
    (held = [] \<longrightarrow> (\<exists>p ws h'. mem_malloc (MEM_SIZE_ALIGNED - SIZEOF_STRUCT_MEM) [] h = Some (p, ws, h') \<and> p \<noteq> 0))"
proof -
  obtain L where r: "heap_ok h L" "held_ok h L held" using heap_reach_ok [OF assms(2,1)] by auto
  have 1: "heap_step op (h, held) \<noteq> None" if "heap_legal op (h, held)" for op using legal_step_ok [OF r that] by auto
  have 2: "\<exists>p ws h'. mem_malloc (MEM_SIZE_ALIGNED - SIZEOF_STRUCT_MEM) [] h = Some (p, ws, h') \<and> p \<noteq> 0" if "held = []"
    using whole_heap_again r that by blast
  show ?thesis using 1 2 shrink_last_stops [OF r] held_inside [OF r] held_disjoint [OF r] by (intro conjI allI impI) simp_all
qed

text \<open>Three areas, the first of which is shrunk and released.\<close>

lemma reach_call: "heap_reach r s \<Longrightarrow> heap_legal op s \<Longrightarrow> heap_step op s \<noteq> None \<Longrightarrow> \<exists>s'. heap_step op s = Some s' \<and> heap_reach r s'"
  by (auto intro: heap_reach.call)

theorem heap_never_wears_out_witness:
  "\<exists>h held. heap_step (Malloc 100) (mem_init 3 busy_heap, []) = Some (h, held) \<and> heap_step (Malloc 30) (h, held) \<noteq> None"
proof -
  have l: "heap_legal (Malloc n) s" if "n < 65536" for n s using that by (cases s) simp
  have "heap_step (Malloc 100) (mem_init 3 busy_heap, []) \<noteq> None"
    using heap_never_wears_out [OF _ heap_reach.fresh [of 3 busy_heap]] l by (simp del: heap_step.simps heap_legal.simps)
  from reach_call [OF heap_reach.fresh l this] obtain s' where
    s': "heap_step (Malloc 100) (mem_init 3 busy_heap, []) = Some s'" "heap_reach 3 s'" by auto
  moreover obtain h held where "s' = (h, held)" by (cases s')
  ultimately have s: "heap_step (Malloc 100) (mem_init 3 busy_heap, []) = Some (h, held)" "heap_reach 3 (h, held)" by simp_all
  moreover have "heap_step (Malloc 30) (h, held) \<noteq> None"
    using heap_never_wears_out [OF _ s(2)] l by (simp del: heap_step.simps heap_legal.simps)
  ultimately show ?thesis by blast
qed

end
