(* ===== verification/Pbuf.thy ===== *)
theory Pbuf
  imports LwipDef LwipHeap "HOL-Library.Monad_Syntax"
begin

text \<open>
  The packet buffers of the network stack, \<^verbatim>\<open>lwip/src/core/pbuf.c\<close>: chains of structures with a pointer to their data, a length, the length
  of the rest of the packet and a count of references. Structures and data are stores over addresses, with 0 for the null pointer; the
  structures come from the heap and the two pools, whose models hold what is free. A failed \<^verbatim>\<open>LWIP_ASSERT\<close> is \<open>None\<close>, as is a
  loop that does not end; \<^verbatim>\<open>LWIP_ERROR\<close> runs its handler. Lengths have 16 bits and reference counts 8 bits, with the casts of the code. The function that frees a
  custom buffer is the argument \<open>custom\<close>; its \<open>None\<close> includes the null pointer, which an assertion catches.
\<close>

unbundle bit_operations_syntax

section \<open>Buffers\<close>

record pbuf =
  pb_next :: nat
  pb_payload :: nat
  pb_tot_len :: nat
  pb_len :: nat
  pb_type :: u8
  pb_flags :: u8
  pb_ref :: nat
  pb_if_idx :: u8

record pbuf_store =
  ps_pbufs :: "nat \<Rightarrow> pbuf"
  ps_bytes :: "u8 memory"
  ps_heap :: lwip_heap
  ps_structs :: memp_pool
  ps_pool :: memp_pool

type_synonym free_custom = "nat \<Rightarrow> pbuf_store \<Rightarrow> pbuf_store option"

text \<open>Conversions to 8 and 16 bits.\<close>

definition cast8 :: "nat \<Rightarrow> nat" where "cast8 n = n mod 256"

definition cast16 :: "nat \<Rightarrow> nat" where "cast16 n = n mod 65536"

definition PBUF_TRANSPORT_HLEN :: nat where "PBUF_TRANSPORT_HLEN = 20"

definition PBUF_IP_HLEN :: nat where "PBUF_IP_HLEN = 20"

definition PBUF_LINK_HLEN :: nat where "PBUF_LINK_HLEN = 14"

definition PBUF_LINK_ENCAPSULATION_HLEN :: nat where "PBUF_LINK_ENCAPSULATION_HLEN = 0"

definition TCP_MSS :: nat where "TCP_MSS = 1500 - 40"

definition PBUF_POOL_BUFSIZE :: nat where
  "PBUF_POOL_BUFSIZE = LWIP_MEM_ALIGN_SIZE (TCP_MSS + PBUF_IP_HLEN + PBUF_TRANSPORT_HLEN + PBUF_LINK_ENCAPSULATION_HLEN + PBUF_LINK_HLEN)"

definition PBUF_POOL_BUFSIZE_ALIGNED :: nat where "PBUF_POOL_BUFSIZE_ALIGNED = LWIP_MEM_ALIGN_SIZE PBUF_POOL_BUFSIZE"

definition SIZEOF_STRUCT_PBUF :: nat where "SIZEOF_STRUCT_PBUF = LWIP_MEM_ALIGN_SIZE 16"

lemma pbuf_sizes [simp]: "PBUF_POOL_BUFSIZE_ALIGNED = 1516" "SIZEOF_STRUCT_PBUF = 16"
  by (simp_all add: PBUF_POOL_BUFSIZE_ALIGNED_def PBUF_POOL_BUFSIZE_def TCP_MSS_def PBUF_IP_HLEN_def PBUF_TRANSPORT_HLEN_def
      PBUF_LINK_ENCAPSULATION_HLEN_def PBUF_LINK_HLEN_def SIZEOF_STRUCT_PBUF_def LWIP_MEM_ALIGN_SIZE_def MEM_ALIGNMENT_def)

text \<open>The types of buffers: the source of their memory, and whether the data follows the structure and may change.\<close>

definition PBUF_TYPE_FLAG_STRUCT_DATA_CONTIGUOUS :: u8 where "PBUF_TYPE_FLAG_STRUCT_DATA_CONTIGUOUS = 0x80"

definition PBUF_TYPE_FLAG_DATA_VOLATILE :: u8 where "PBUF_TYPE_FLAG_DATA_VOLATILE = 0x40"

definition PBUF_TYPE_ALLOC_SRC_MASK :: u8 where "PBUF_TYPE_ALLOC_SRC_MASK = 0x0F"

definition PBUF_ALLOC_FLAG_RX :: u16 where "PBUF_ALLOC_FLAG_RX = 0x0100"

definition PBUF_ALLOC_FLAG_DATA_CONTIGUOUS :: u16 where "PBUF_ALLOC_FLAG_DATA_CONTIGUOUS = 0x0200"

definition PBUF_TYPE_ALLOC_SRC_MASK_STD_HEAP :: u8 where "PBUF_TYPE_ALLOC_SRC_MASK_STD_HEAP = 0x00"

definition PBUF_TYPE_ALLOC_SRC_MASK_STD_MEMP_PBUF :: u8 where "PBUF_TYPE_ALLOC_SRC_MASK_STD_MEMP_PBUF = 0x01"

definition PBUF_TYPE_ALLOC_SRC_MASK_STD_MEMP_PBUF_POOL :: u8 where "PBUF_TYPE_ALLOC_SRC_MASK_STD_MEMP_PBUF_POOL = 0x02"

definition PBUF_RAM :: u16 where
  "PBUF_RAM = PBUF_ALLOC_FLAG_DATA_CONTIGUOUS OR ucast PBUF_TYPE_FLAG_STRUCT_DATA_CONTIGUOUS OR ucast PBUF_TYPE_ALLOC_SRC_MASK_STD_HEAP"

definition PBUF_ROM :: u16 where "PBUF_ROM = ucast PBUF_TYPE_ALLOC_SRC_MASK_STD_MEMP_PBUF"

definition PBUF_REF :: u16 where
  "PBUF_REF = ucast PBUF_TYPE_FLAG_DATA_VOLATILE OR ucast PBUF_TYPE_ALLOC_SRC_MASK_STD_MEMP_PBUF"

definition PBUF_POOL :: u16 where
  "PBUF_POOL = PBUF_ALLOC_FLAG_RX OR ucast PBUF_TYPE_FLAG_STRUCT_DATA_CONTIGUOUS OR ucast PBUF_TYPE_ALLOC_SRC_MASK_STD_MEMP_PBUF_POOL"

definition PBUF_FLAG_IS_CUSTOM :: u8 where "PBUF_FLAG_IS_CUSTOM = 0x02"

definition pbuf_get_allocsrc :: "pbuf \<Rightarrow> u8" where "pbuf_get_allocsrc b = pb_type b AND PBUF_TYPE_ALLOC_SRC_MASK"

definition set_pbuf :: "nat \<Rightarrow> (pbuf \<Rightarrow> pbuf) \<Rightarrow> pbuf_store \<Rightarrow> pbuf_store" where
  "set_pbuf p f s = s\<lparr>ps_pbufs := (ps_pbufs s)(p := f (ps_pbufs s p))\<rparr>"

lemma set_pbuf_simps [simp]:
  "ps_pbufs (set_pbuf p f s) = (ps_pbufs s)(p := f (ps_pbufs s p))" "ps_bytes (set_pbuf p f s) = ps_bytes s"
  "ps_heap (set_pbuf p f s) = ps_heap s" "ps_structs (set_pbuf p f s) = ps_structs s" "ps_pool (set_pbuf p f s) = ps_pool s"
  by (simp_all add: set_pbuf_def)

section \<open>References\<close>

definition release_pbuf :: "free_custom \<Rightarrow> nat \<Rightarrow> pbuf_store \<Rightarrow> pbuf_store option" where
  "release_pbuf custom p s =
     (let alloc_src = pbuf_get_allocsrc (ps_pbufs s p)
      in if pb_flags (ps_pbufs s p) AND PBUF_FLAG_IS_CUSTOM \<noteq> 0 then custom p s
         else if alloc_src = PBUF_TYPE_ALLOC_SRC_MASK_STD_MEMP_PBUF_POOL
         then map_option (\<lambda>m. s\<lparr>ps_pool := m\<rparr>) (memp_free_pool p (ps_pool s))
         else if alloc_src = PBUF_TYPE_ALLOC_SRC_MASK_STD_MEMP_PBUF
         then map_option (\<lambda>m. s\<lparr>ps_structs := m\<rparr>) (memp_free_pool p (ps_structs s))
         else if alloc_src = PBUF_TYPE_ALLOC_SRC_MASK_STD_HEAP then map_option (\<lambda>h. s\<lparr>ps_heap := h\<rparr>) (mem_free p (ps_heap s))
         else None)"

partial_function (option) free_from :: "free_custom \<Rightarrow> nat \<Rightarrow> nat \<Rightarrow> pbuf_store \<Rightarrow> (nat \<times> pbuf_store) option" where
  "free_from custom p count s =
     (if p = 0 then Some (count, s)
      else if pb_ref (ps_pbufs s p) = 0 then None
      else if pb_ref (ps_pbufs s p) - 1 = 0 then do {
        s' \<leftarrow> release_pbuf custom p (set_pbuf p (\<lambda>b. b\<lparr>pb_ref := pb_ref b - 1\<rparr>) s);
        free_from custom (pb_next (ps_pbufs s p)) (cast8 (count + 1)) s' }
      else Some (count, set_pbuf p (\<lambda>b. b\<lparr>pb_ref := pb_ref b - 1\<rparr>) s))"

definition pbuf_free :: "free_custom \<Rightarrow> nat \<Rightarrow> pbuf_store \<Rightarrow> (nat \<times> pbuf_store) option" where
  "pbuf_free custom p s = (if p = 0 then None else free_from custom p 0 s)"

definition pbuf_ref :: "nat \<Rightarrow> pbuf_store \<Rightarrow> pbuf_store option" where
  "pbuf_ref p s =
     (if p \<noteq> 0 then
        let s = set_pbuf p (\<lambda>b. b\<lparr>pb_ref := cast8 (pb_ref b + 1)\<rparr>) s
        in if pb_ref (ps_pbufs s p) > 0 then Some s else None
      else Some s)"

partial_function (option) clen_from :: "nat \<Rightarrow> nat \<Rightarrow> pbuf_store \<Rightarrow> nat option" where
  "clen_from p len s = (if p \<noteq> 0 then clen_from (pb_next (ps_pbufs s p)) (cast16 (len + 1)) s else Some len)"

definition pbuf_clen :: "nat \<Rightarrow> pbuf_store \<Rightarrow> nat option" where
  "pbuf_clen p s = clen_from p 0 s"

section \<open>Allocation\<close>

definition pbuf_init_alloced_pbuf :: "nat \<Rightarrow> nat \<Rightarrow> nat \<Rightarrow> nat \<Rightarrow> u16 \<Rightarrow> u8 \<Rightarrow> pbuf_store \<Rightarrow> pbuf_store" where
  "pbuf_init_alloced_pbuf p payload tot_len len type flags =
     set_pbuf p (\<lambda>_. \<lparr>pb_next = 0, pb_payload = payload, pb_tot_len = tot_len, pb_len = len, pb_type = ucast type, pb_flags = flags,
       pb_ref = 1, pb_if_idx = 0\<rparr>)"

definition pbuf_alloc_reference :: "nat \<Rightarrow> nat \<Rightarrow> u16 \<Rightarrow> pbuf_store \<Rightarrow> (nat \<times> pbuf_store) option" where
  "pbuf_alloc_reference payload len type s =
     (if type = PBUF_REF \<or> type = PBUF_ROM then do {
        (p, m) \<leftarrow> do_memp_malloc_pool (ps_structs s);
        if p = 0 then Some (0, s\<lparr>ps_structs := m\<rparr>)
        else Some (p, pbuf_init_alloced_pbuf p payload len len type 0 (s\<lparr>ps_structs := m\<rparr>)) }
      else None)"

definition init_pool_pbuf :: "nat \<Rightarrow> nat \<Rightarrow> nat \<Rightarrow> nat \<Rightarrow> pbuf_store \<Rightarrow> pbuf_store option" where
  "init_pool_pbuf q rem_len qlen offset s =
     (let s = pbuf_init_alloced_pbuf q (LWIP_MEM_ALIGN (q + SIZEOF_STRUCT_PBUF + offset)) rem_len qlen PBUF_POOL 0 s
      in if pb_payload (ps_pbufs s q) mod MEM_ALIGNMENT = 0 \<and> diff32 PBUF_POOL_BUFSIZE_ALIGNED (LWIP_MEM_ALIGN_SIZE offset) > 0
         then Some s else None)"

partial_function (option) alloc_pool :: "free_custom \<Rightarrow> nat \<Rightarrow> nat \<Rightarrow> nat \<Rightarrow> nat \<Rightarrow> pbuf_store \<Rightarrow> (nat \<times> pbuf_store) option" where
  "alloc_pool custom p prev rem_len offset s = do {
     (q, m) \<leftarrow> do_memp_malloc_pool (ps_pool s);
     if q = 0 then
       (if p \<noteq> 0 then do { (count, s) \<leftarrow> pbuf_free custom p (s\<lparr>ps_pool := m\<rparr>); Some (0, s) } else Some (0, s\<lparr>ps_pool := m\<rparr>))
     else do {
       let qlen = min rem_len (cast16 (diff32 PBUF_POOL_BUFSIZE_ALIGNED (LWIP_MEM_ALIGN_SIZE offset)));
       s \<leftarrow> init_pool_pbuf q rem_len qlen offset (s\<lparr>ps_pool := m\<rparr>);
       let s = (if p = 0 then s else set_pbuf prev (\<lambda>b. b\<lparr>pb_next := q\<rparr>) s);
       let p = (if p = 0 then q else p);
       if diff16 rem_len qlen > 0 then alloc_pool custom p q (diff16 rem_len qlen) 0 s else Some (p, s) } }"

definition alloc_ram :: "nat list list \<Rightarrow> nat \<Rightarrow> nat \<Rightarrow> pbuf_store \<Rightarrow> (nat \<times> pbuf_store) option" where
  "alloc_ram frees offset len s =
     (let payload_len = mem_size (LWIP_MEM_ALIGN_SIZE offset + LWIP_MEM_ALIGN_SIZE len);
          alloc_len = mem_size (LWIP_MEM_ALIGN_SIZE SIZEOF_STRUCT_PBUF + payload_len)
      in if payload_len < LWIP_MEM_ALIGN_SIZE len \<or> alloc_len < LWIP_MEM_ALIGN_SIZE len then Some (0, s)
         else do {
           (p, ws, h) \<leftarrow> mem_malloc alloc_len frees (ps_heap s);
           if p = 0 then Some (0, s\<lparr>ps_heap := h\<rparr>)
           else
             let payload = LWIP_MEM_ALIGN (p + SIZEOF_STRUCT_PBUF + offset)
             in if payload mod MEM_ALIGNMENT = 0
                then Some (p, pbuf_init_alloced_pbuf p payload len len PBUF_RAM 0 (s\<lparr>ps_heap := h\<rparr>)) else None })"

text \<open>The argument \<open>frees\<close> holds the blocks that other contexts free in the windows of the heap.\<close>

definition pbuf_alloc :: "free_custom \<Rightarrow> nat list list \<Rightarrow> nat \<Rightarrow> nat \<Rightarrow> u16 \<Rightarrow> pbuf_store \<Rightarrow> (nat \<times> pbuf_store) option" where
  "pbuf_alloc custom frees layer len type s =
     (let offset = cast16 layer
      in if type = PBUF_REF \<or> type = PBUF_ROM then pbuf_alloc_reference 0 len type s
         else if type = PBUF_POOL then alloc_pool custom 0 0 len offset s
         else if type = PBUF_RAM then alloc_ram frees offset len s
         else None)"

definition pbuf_alloced_custom :: "nat \<Rightarrow> nat \<Rightarrow> u16 \<Rightarrow> nat \<Rightarrow> nat \<Rightarrow> nat \<Rightarrow> pbuf_store \<Rightarrow> nat \<times> pbuf_store" where
  "pbuf_alloced_custom l len type p payload_mem payload_mem_len s =
     (let offset = cast16 l
      in if LWIP_MEM_ALIGN_SIZE offset + len > payload_mem_len then (0, s)
         else
           let payload = (if payload_mem \<noteq> 0 then payload_mem + LWIP_MEM_ALIGN_SIZE offset else 0)
           in (p, pbuf_init_alloced_pbuf p payload len len type PBUF_FLAG_IS_CUSTOM s))"

section \<open>Shrinking a packet\<close>

partial_function (option) realloc_skip :: "nat \<Rightarrow> nat \<Rightarrow> nat \<Rightarrow> pbuf_store \<Rightarrow> (nat \<times> nat \<times> pbuf_store) option" where
  "realloc_skip q rem_len shrink s =
     (if rem_len > pb_len (ps_pbufs s q) then
        (if pb_next (ps_pbufs s q) \<noteq> 0
         then realloc_skip (pb_next (ps_pbufs s q)) (diff16 rem_len (pb_len (ps_pbufs s q))) shrink
                (set_pbuf q (\<lambda>b. b\<lparr>pb_tot_len := diff16 (pb_tot_len b) shrink\<rparr>) s)
         else None)
      else Some (q, rem_len, s))"

definition trim_pbuf :: "nat \<Rightarrow> nat \<Rightarrow> pbuf_store \<Rightarrow> pbuf_store option" where
  "trim_pbuf q rem_len s =
     (if pbuf_get_allocsrc (ps_pbufs s q) = PBUF_TYPE_ALLOC_SRC_MASK_STD_HEAP \<and> rem_len \<noteq> pb_len (ps_pbufs s q) \<and>
         pb_flags (ps_pbufs s q) AND PBUF_FLAG_IS_CUSTOM = 0 then do {
        (r, h) \<leftarrow> mem_trim q (mem_size (diff32 (pb_payload (ps_pbufs s q)) q + rem_len)) (ps_heap s);
        if r \<noteq> 0 \<and> r = q then Some (s\<lparr>ps_heap := h\<rparr>) else None }
      else Some s)"

definition pbuf_realloc :: "free_custom \<Rightarrow> nat \<Rightarrow> nat \<Rightarrow> pbuf_store \<Rightarrow> pbuf_store option" where
  "pbuf_realloc custom p new_len s =
     (if p = 0 then None
      else if new_len \<ge> pb_tot_len (ps_pbufs s p) then Some s
      else do {
        (q, rem_len, s) \<leftarrow> realloc_skip p new_len (diff16 (pb_tot_len (ps_pbufs s p)) new_len) s;
        s \<leftarrow> trim_pbuf q rem_len s;
        let s = set_pbuf q (\<lambda>b. b\<lparr>pb_len := rem_len, pb_tot_len := rem_len\<rparr>) s;
        s \<leftarrow> (if pb_next (ps_pbufs s q) \<noteq> 0 then map_option snd (pbuf_free custom (pb_next (ps_pbufs s q)) s) else Some s);
        Some (set_pbuf q (\<lambda>b. b\<lparr>pb_next := 0\<rparr>) s) })"

section \<open>Headers\<close>

definition pbuf_add_header_impl :: "nat \<Rightarrow> nat \<Rightarrow> bool \<Rightarrow> pbuf_store \<Rightarrow> (nat \<times> pbuf_store) option" where
  "pbuf_add_header_impl p header_size_increment force s =
     (if p = 0 then None
      else if header_size_increment > 0xFFFF then Some (1, s)
      else if header_size_increment = 0 then Some (0, s)
      else
        let increment_magnitude = cast16 header_size_increment;
            payload = diff32 (pb_payload (ps_pbufs s p)) header_size_increment;
            add = set_pbuf p (\<lambda>b. b\<lparr>pb_payload := payload, pb_len := cast16 (pb_len b + increment_magnitude),
              pb_tot_len := cast16 (pb_tot_len b + increment_magnitude)\<rparr>)
        in if cast16 (increment_magnitude + pb_tot_len (ps_pbufs s p)) < increment_magnitude then Some (1, s)
           else if pb_type (ps_pbufs s p) AND PBUF_TYPE_FLAG_STRUCT_DATA_CONTIGUOUS \<noteq> 0
           then if payload < p + SIZEOF_STRUCT_PBUF then Some (1, s) else Some (0, add s)
           else if force then Some (0, add s)
           else Some (1, s))"

definition pbuf_add_header :: "nat \<Rightarrow> nat \<Rightarrow> pbuf_store \<Rightarrow> (nat \<times> pbuf_store) option" where
  "pbuf_add_header p header_size_increment = pbuf_add_header_impl p header_size_increment False"

definition pbuf_add_header_force :: "nat \<Rightarrow> nat \<Rightarrow> pbuf_store \<Rightarrow> (nat \<times> pbuf_store) option" where
  "pbuf_add_header_force p header_size_increment = pbuf_add_header_impl p header_size_increment True"

definition pbuf_remove_header :: "nat \<Rightarrow> nat \<Rightarrow> pbuf_store \<Rightarrow> (nat \<times> pbuf_store) option" where
  "pbuf_remove_header p header_size_decrement s =
     (if p = 0 then None
      else if header_size_decrement > 0xFFFF then Some (1, s)
      else if header_size_decrement = 0 then Some (0, s)
      else
        let increment_magnitude = cast16 header_size_decrement
        in if \<not> increment_magnitude \<le> pb_len (ps_pbufs s p) then Some (1, s)
           else Some (0, set_pbuf p (\<lambda>b. b\<lparr>pb_payload := pb_payload b + header_size_decrement,
             pb_len := diff16 (pb_len b) increment_magnitude, pb_tot_len := diff16 (pb_tot_len b) increment_magnitude\<rparr>) s))"

definition pbuf_header_impl :: "nat \<Rightarrow> int \<Rightarrow> bool \<Rightarrow> pbuf_store \<Rightarrow> (nat \<times> pbuf_store) option" where
  "pbuf_header_impl p header_size_increment force =
     (if header_size_increment < 0 then pbuf_remove_header p (nat (- header_size_increment))
      else pbuf_add_header_impl p (nat header_size_increment) force)"

definition pbuf_header :: "nat \<Rightarrow> int \<Rightarrow> pbuf_store \<Rightarrow> (nat \<times> pbuf_store) option" where
  "pbuf_header p header_size_increment = pbuf_header_impl p header_size_increment False"

definition pbuf_header_force :: "nat \<Rightarrow> int \<Rightarrow> pbuf_store \<Rightarrow> (nat \<times> pbuf_store) option" where
  "pbuf_header_force p header_size_increment = pbuf_header_impl p header_size_increment True"

partial_function (option) free_header_from :: "free_custom \<Rightarrow> nat \<Rightarrow> nat \<Rightarrow> pbuf_store \<Rightarrow> (nat \<times> pbuf_store) option" where
  "free_header_from custom p free_left s =
     (if free_left \<noteq> 0 \<and> p \<noteq> 0 then
        if free_left \<ge> pb_len (ps_pbufs s p) then do {
          (count, s') \<leftarrow> pbuf_free custom p (set_pbuf p (\<lambda>b. b\<lparr>pb_next := 0\<rparr>) s);
          free_header_from custom (pb_next (ps_pbufs s p)) (diff16 free_left (pb_len (ps_pbufs s p))) s' }
        else do { (failed, s) \<leftarrow> pbuf_remove_header p free_left s; Some (p, s) }
      else Some (p, s))"

definition pbuf_free_header :: "free_custom \<Rightarrow> nat \<Rightarrow> nat \<Rightarrow> pbuf_store \<Rightarrow> (nat \<times> pbuf_store) option" where
  "pbuf_free_header custom q n = free_header_from custom q n"

section \<open>Chains\<close>

partial_function (option) cat_from :: "nat \<Rightarrow> nat \<Rightarrow> pbuf_store \<Rightarrow> (nat \<times> pbuf_store) option" where
  "cat_from p t s =
     (if pb_next (ps_pbufs s p) \<noteq> 0
      then cat_from (pb_next (ps_pbufs s p)) t (set_pbuf p (\<lambda>b. b\<lparr>pb_tot_len := cast16 (pb_tot_len b + pb_tot_len (ps_pbufs s t))\<rparr>) s)
      else Some (p, s))"

definition pbuf_cat :: "nat \<Rightarrow> nat \<Rightarrow> pbuf_store \<Rightarrow> pbuf_store option" where
  "pbuf_cat h t s =
     (if \<not> (h \<noteq> 0 \<and> t \<noteq> 0) then Some s
      else if h = t then None
      else do {
        (p, s) \<leftarrow> cat_from h t s;
        if pb_tot_len (ps_pbufs s p) = pb_len (ps_pbufs s p) \<and> pb_next (ps_pbufs s p) = 0
        then Some (set_pbuf p (\<lambda>b. b\<lparr>pb_tot_len := cast16 (pb_tot_len b + pb_tot_len (ps_pbufs s t)), pb_next := t\<rparr>) s)
        else None })"

definition pbuf_chain :: "nat \<Rightarrow> nat \<Rightarrow> pbuf_store \<Rightarrow> pbuf_store option" where
  "pbuf_chain h t s = do { s \<leftarrow> pbuf_cat h t s; pbuf_ref t s }"

definition pbuf_dechain :: "free_custom \<Rightarrow> nat \<Rightarrow> pbuf_store \<Rightarrow> (nat \<times> pbuf_store) option" where
  "pbuf_dechain custom p s =
     (let q = pb_next (ps_pbufs s p)
      in do {
        (tail_gone, s) \<leftarrow>
          (if q \<noteq> 0 then
             if int (pb_tot_len (ps_pbufs s q)) = int (pb_tot_len (ps_pbufs s p)) - int (pb_len (ps_pbufs s p)) then
               let s = set_pbuf q (\<lambda>b. b\<lparr>pb_tot_len := diff16 (pb_tot_len (ps_pbufs s p)) (pb_len (ps_pbufs s p))\<rparr>) s;
                   s = set_pbuf p (\<lambda>b. b\<lparr>pb_next := 0, pb_tot_len := pb_len b\<rparr>) s
               in pbuf_free custom q s
             else None
           else Some (1, s));
        if pb_tot_len (ps_pbufs s p) = pb_len (ps_pbufs s p) then Some (if tail_gone > 0 then 0 else q, s) else None })"

section \<open>Copying\<close>

text \<open>A block is copied from one address to another.\<close>

definition memcpy :: "nat \<Rightarrow> nat \<Rightarrow> nat \<Rightarrow> pbuf_store \<Rightarrow> pbuf_store" where
  "memcpy dst src n s = s\<lparr>ps_bytes := mem_write dst (mem_read src n (ps_bytes s)) (ps_bytes s)\<rparr>"

text \<open>One step of the loop copies to one buffer from one buffer; the argument \<open>copy_len\<close> is what is left.\<close>

partial_function (option) copy_chain :: "nat \<Rightarrow> nat \<Rightarrow> nat \<Rightarrow> nat \<Rightarrow> nat \<Rightarrow> pbuf_store \<Rightarrow> (err_t \<times> pbuf_store) option" where
  "copy_chain p_to offset_to p_from offset_from copy_len s = do {
     let to_left = diff32 (pb_len (ps_pbufs s p_to)) offset_to;
     let from_left = diff32 (pb_len (ps_pbufs s p_from)) offset_from;
     let len = (if to_left \<ge> from_left then from_left else to_left);
     let len = min copy_len len;
     let s = memcpy (pb_payload (ps_pbufs s p_to) + offset_to) (pb_payload (ps_pbufs s p_from) + offset_from) len s;
     let offset_to = offset_to + len;
     let offset_from = offset_from + len;
     let copy_len = diff16 copy_len len;
     if \<not> (offset_to \<le> pb_len (ps_pbufs s p_to) \<and> offset_from \<le> pb_len (ps_pbufs s p_from)) then None
     else
       let next_from = offset_from \<ge> pb_len (ps_pbufs s p_from);
           next_to = (offset_to = pb_len (ps_pbufs s p_to));
           p_from = (if next_from then pb_next (ps_pbufs s p_from) else p_from);
           p_to = (if next_to then pb_next (ps_pbufs s p_to) else p_to);
           offset_from = (if next_from then 0 else offset_from);
           offset_to = (if next_to then 0 else offset_to)
       in if next_from \<and> \<not> (p_from \<noteq> 0 \<or> copy_len = 0) then Some (ERR_ARG, s)
          else if next_to \<and> \<not> (p_to \<noteq> 0 \<or> copy_len = 0) then Some (ERR_ARG, s)
          else if p_from \<noteq> 0 \<and> pb_len (ps_pbufs s p_from) = pb_tot_len (ps_pbufs s p_from) \<and> pb_next (ps_pbufs s p_from) \<noteq> 0
          then Some (ERR_VAL, s)
          else if p_to \<noteq> 0 \<and> pb_len (ps_pbufs s p_to) = pb_tot_len (ps_pbufs s p_to) \<and> pb_next (ps_pbufs s p_to) \<noteq> 0
          then Some (ERR_VAL, s)
          else if copy_len \<noteq> 0 then copy_chain p_to offset_to p_from offset_from copy_len s
          else Some (ERR_OK, s) }"

definition pbuf_copy_partial_pbuf :: "nat \<Rightarrow> nat \<Rightarrow> nat \<Rightarrow> nat \<Rightarrow> pbuf_store \<Rightarrow> (err_t \<times> pbuf_store) option" where
  "pbuf_copy_partial_pbuf p_to p_from copy_len offset s =
     (if \<not> (p_from \<noteq> 0 \<and> pb_tot_len (ps_pbufs s p_from) \<ge> copy_len) then Some (ERR_ARG, s)
      else if \<not> (p_to \<noteq> 0 \<and> pb_tot_len (ps_pbufs s p_to) \<ge> offset + copy_len) then Some (ERR_ARG, s)
      else copy_chain p_to offset p_from 0 copy_len s)"

definition pbuf_copy :: "nat \<Rightarrow> nat \<Rightarrow> pbuf_store \<Rightarrow> (err_t \<times> pbuf_store) option" where
  "pbuf_copy p_to p_from s =
     (if p_from = 0 then Some (ERR_ARG, s) else pbuf_copy_partial_pbuf p_to p_from (pb_tot_len (ps_pbufs s p_from)) 0 s)"

partial_function (option) copy_out :: "nat \<Rightarrow> nat \<Rightarrow> nat \<Rightarrow> nat \<Rightarrow> nat \<Rightarrow> nat \<Rightarrow> pbuf_store \<Rightarrow> (nat \<times> pbuf_store) option" where
  "copy_out p dataptr left len offset copied_total s =
     (if len \<noteq> 0 \<and> p \<noteq> 0 then
        if offset \<noteq> 0 \<and> offset \<ge> pb_len (ps_pbufs s p)
        then copy_out (pb_next (ps_pbufs s p)) dataptr left len (diff16 offset (pb_len (ps_pbufs s p))) copied_total s
        else
          let n = diff16 (pb_len (ps_pbufs s p)) offset;
              n = (if n > len then len else n)
          in copy_out (pb_next (ps_pbufs s p)) dataptr (cast16 (left + n)) (diff16 len n) 0 (cast16 (copied_total + n))
               (memcpy (dataptr + left) (pb_payload (ps_pbufs s p) + offset) n s)
      else Some (copied_total, s))"

definition pbuf_copy_partial :: "nat \<Rightarrow> nat \<Rightarrow> nat \<Rightarrow> nat \<Rightarrow> pbuf_store \<Rightarrow> (nat \<times> pbuf_store) option" where
  "pbuf_copy_partial buf dataptr len offset s =
     (if buf = 0 \<or> dataptr = 0 then Some (0, s) else copy_out buf dataptr 0 len offset 0 s)"

partial_function (option) pbuf_skip :: "nat \<Rightarrow> nat \<Rightarrow> pbuf_store \<Rightarrow> (nat \<times> nat) option" where
  "pbuf_skip q offset_left s =
     (if q \<noteq> 0 \<and> pb_len (ps_pbufs s q) \<le> offset_left
      then pbuf_skip (pb_next (ps_pbufs s q)) (diff16 offset_left (pb_len (ps_pbufs s q))) s
      else Some (q, offset_left))"

definition pbuf_get_contiguous :: "nat \<Rightarrow> nat \<Rightarrow> nat \<Rightarrow> nat \<Rightarrow> nat \<Rightarrow> pbuf_store \<Rightarrow> (nat \<times> pbuf_store) option" where
  "pbuf_get_contiguous p buffer bufsize len offset s =
     (if p = 0 then Some (0, s)
      else if \<not> (buffer = 0 \<or> bufsize \<ge> len) then Some (0, s)
      else do {
        (q, out_offset) \<leftarrow> pbuf_skip p offset s;
        if q \<noteq> 0 then
          if pb_len (ps_pbufs s q) \<ge> out_offset + len then Some (pb_payload (ps_pbufs s q) + out_offset, s)
          else if buffer = 0 then Some (0, s)
          else do { (n, s) \<leftarrow> pbuf_copy_partial q buffer len out_offset s; Some (if n \<noteq> len then 0 else buffer, s) }
        else Some (0, s) })"

partial_function (option) take_from :: "nat \<Rightarrow> nat \<Rightarrow> nat \<Rightarrow> nat \<Rightarrow> pbuf_store \<Rightarrow> pbuf_store option" where
  "take_from p dataptr total_copy_len copied_total s =
     (if total_copy_len \<noteq> 0 then
        if p \<noteq> 0 then
          let n = (if total_copy_len > pb_len (ps_pbufs s p) then pb_len (ps_pbufs s p) else total_copy_len)
          in take_from (pb_next (ps_pbufs s p)) dataptr (total_copy_len - n) (copied_total + n)
               (memcpy (pb_payload (ps_pbufs s p)) (dataptr + copied_total) n s)
        else None
      else Some s)"

definition pbuf_take :: "nat \<Rightarrow> nat \<Rightarrow> nat \<Rightarrow> pbuf_store \<Rightarrow> (err_t \<times> pbuf_store) option" where
  "pbuf_take buf dataptr len s =
     (if buf = 0 then Some (ERR_ARG, s)
      else if dataptr = 0 then Some (ERR_ARG, s)
      else if \<not> pb_tot_len (ps_pbufs s buf) \<ge> len then Some (ERR_MEM, s)
      else map_option (\<lambda>s. (ERR_OK, s)) (take_from buf dataptr len 0 s))"

definition pbuf_take_at :: "nat \<Rightarrow> nat \<Rightarrow> nat \<Rightarrow> nat \<Rightarrow> pbuf_store \<Rightarrow> (err_t \<times> pbuf_store) option" where
  "pbuf_take_at buf dataptr len offset s = do {
     (q, target_offset) \<leftarrow> pbuf_skip buf offset s;
     if q \<noteq> 0 \<and> pb_tot_len (ps_pbufs s q) \<ge> target_offset + len then
       if target_offset < pb_len (ps_pbufs s q) then
         let first_copy_len = cast16 (min (pb_len (ps_pbufs s q) - target_offset) len);
             s' = memcpy (pb_payload (ps_pbufs s q) + target_offset) dataptr first_copy_len s;
             remaining_len = diff16 len first_copy_len
         in if remaining_len > 0 then pbuf_take (pb_next (ps_pbufs s q)) (dataptr + first_copy_len) remaining_len s' else Some (ERR_OK, s')
       else None
     else Some (ERR_MEM, s) }"

definition pbuf_clone :: "free_custom \<Rightarrow> nat list list \<Rightarrow> nat \<Rightarrow> u16 \<Rightarrow> nat \<Rightarrow> pbuf_store \<Rightarrow> (nat \<times> pbuf_store) option" where
  "pbuf_clone custom frees layer type p s = do {
     (q, s) \<leftarrow> pbuf_alloc custom frees layer (pb_tot_len (ps_pbufs s p)) type s;
     if q = 0 then Some (0, s)
     else do { (err, s) \<leftarrow> pbuf_copy q p s; if err = ERR_OK then Some (q, s) else None } }"

definition pbuf_coalesce :: "free_custom \<Rightarrow> nat list list \<Rightarrow> nat \<Rightarrow> nat \<Rightarrow> pbuf_store \<Rightarrow> (nat \<times> pbuf_store) option" where
  "pbuf_coalesce custom frees p layer s =
     (if pb_next (ps_pbufs s p) = 0 then Some (p, s)
      else do {
        (q, s) \<leftarrow> pbuf_clone custom frees layer PBUF_RAM p s;
        if q = 0 then Some (p, s) else do { (count, s) \<leftarrow> pbuf_free custom p s; Some (q, s) } })"

section \<open>Bytes\<close>

definition pbuf_try_get_at :: "nat \<Rightarrow> nat \<Rightarrow> pbuf_store \<Rightarrow> int option" where
  "pbuf_try_get_at p offset s = do {
     (q, q_idx) \<leftarrow> pbuf_skip p offset s;
     Some (if q \<noteq> 0 \<and> pb_len (ps_pbufs s q) > q_idx then uint (ps_bytes s (pb_payload (ps_pbufs s q) + q_idx)) else -1) }"

definition pbuf_get_at :: "nat \<Rightarrow> nat \<Rightarrow> pbuf_store \<Rightarrow> u8 option" where
  "pbuf_get_at p offset s = do { ret \<leftarrow> pbuf_try_get_at p offset s; Some (if ret \<ge> 0 then word_of_int ret else 0) }"

definition pbuf_put_at :: "nat \<Rightarrow> nat \<Rightarrow> u8 \<Rightarrow> pbuf_store \<Rightarrow> pbuf_store option" where
  "pbuf_put_at p offset data s = do {
     (q, q_idx) \<leftarrow> pbuf_skip p offset s;
     Some (if q \<noteq> 0 \<and> pb_len (ps_pbufs s q) > q_idx
           then s\<lparr>ps_bytes := (ps_bytes s)(pb_payload (ps_pbufs s q) + q_idx := data)\<rparr> else s) }"

text \<open>The comparison from byte \<open>i\<close>, with \<open>k\<close> bytes left.\<close>

fun compare_from :: "nat \<Rightarrow> nat \<Rightarrow> nat \<Rightarrow> nat \<Rightarrow> nat \<Rightarrow> pbuf_store \<Rightarrow> nat option" where
  "compare_from q start s2 i 0 s = Some 0"
| "compare_from q start s2 i (Suc k) s = do {
     a \<leftarrow> pbuf_get_at q (cast16 (start + i)) s;
     if a \<noteq> ps_bytes s (s2 + i) then Some (cast16 (min (i + 1) 0xFFFF)) else compare_from q start s2 (i + 1) k s }"

definition pbuf_memcmp :: "nat \<Rightarrow> nat \<Rightarrow> nat \<Rightarrow> nat \<Rightarrow> pbuf_store \<Rightarrow> nat option" where
  "pbuf_memcmp p offset s2 n s =
     (if pb_tot_len (ps_pbufs s p) < offset + n then Some 0xFFFF
      else do { (q, start) \<leftarrow> pbuf_skip p offset s; compare_from q start s2 0 n s })"

partial_function (option) find_from :: "nat \<Rightarrow> nat \<Rightarrow> nat \<Rightarrow> nat \<Rightarrow> nat \<Rightarrow> pbuf_store \<Rightarrow> nat option" where
  "find_from p mem mem_len max_cmp_start i s =
     (if i \<le> max_cmp_start then do {
        plus \<leftarrow> pbuf_memcmp p i mem mem_len s;
        if plus = 0 then Some i else find_from p mem mem_len max_cmp_start (cast16 (i + 1)) s }
      else Some 0xFFFF)"

definition pbuf_memfind :: "nat \<Rightarrow> nat \<Rightarrow> nat \<Rightarrow> nat \<Rightarrow> pbuf_store \<Rightarrow> nat option" where
  "pbuf_memfind p mem mem_len start_offset s =
     (let max_cmp_start = diff16 (pb_tot_len (ps_pbufs s p)) mem_len
      in if pb_tot_len (ps_pbufs s p) \<ge> mem_len + start_offset then find_from p mem mem_len max_cmp_start start_offset s
         else Some 0xFFFF)"

text \<open>The length of the string at an address.\<close>

partial_function (option) strlen_at :: "nat \<Rightarrow> nat \<Rightarrow> u8 memory \<Rightarrow> nat option" where
  "strlen_at a n m = (if m (a + n) = 0 then Some n else strlen_at a (n + 1) m)"

definition pbuf_strstr :: "nat \<Rightarrow> nat \<Rightarrow> pbuf_store \<Rightarrow> nat option" where
  "pbuf_strstr p substr s =
     (if substr = 0 \<or> ps_bytes s substr = 0 \<or> pb_tot_len (ps_pbufs s p) = 0xFFFF then Some 0xFFFF
      else do {
        substr_len \<leftarrow> strlen_at substr 0 (ps_bytes s);
        if substr_len \<ge> 0xFFFF then Some 0xFFFF else pbuf_memfind p substr (cast16 substr_len) 0 s })"

section \<open>Packets as strings of bytes\<close>

definition chain_len :: "(nat \<Rightarrow> pbuf) \<Rightarrow> nat list \<Rightarrow> nat" where
  "chain_len b qs = sum_list (map (\<lambda>q. pb_len (b q)) qs)"

definition chain_bytes :: "(nat \<Rightarrow> pbuf) \<Rightarrow> u8 memory \<Rightarrow> nat list \<Rightarrow> u8 list" where
  "chain_bytes b m qs = concat (map (\<lambda>q. mem_read (pb_payload (b q)) (pb_len (b q)) m) qs)"

text \<open>The buffers of a packet, linked, each with the length of the rest.\<close>

fun packet :: "(nat \<Rightarrow> pbuf) \<Rightarrow> nat \<Rightarrow> nat list \<Rightarrow> bool" where
  "packet b p [] \<longleftrightarrow> p = 0"
| "packet b p (q # qs) \<longleftrightarrow> p = q \<and> q \<noteq> 0 \<and> pb_tot_len (b q) = chain_len b (q # qs) \<and> packet b (pb_next (b q)) qs"

definition area :: "(nat \<Rightarrow> pbuf) \<Rightarrow> nat \<Rightarrow> nat set" where
  "area b q = {pb_payload (b q) ..< pb_payload (b q) + pb_len (b q)}"

definition areas :: "(nat \<Rightarrow> pbuf) \<Rightarrow> nat list \<Rightarrow> nat set" where
  "areas b qs = (\<Union>q \<in> set qs. area b q)"

fun apart :: "(nat \<Rightarrow> pbuf) \<Rightarrow> nat list \<Rightarrow> bool" where
  "apart b [] \<longleftrightarrow> True"
| "apart b (q # qs) \<longleftrightarrow> area b q \<inter> areas b qs = {} \<and> apart b qs"

lemma chain_simps [simp]:
  "chain_len b [] = 0" "chain_len b (q # qs) = pb_len (b q) + chain_len b qs" "chain_len b (A @ B) = chain_len b A + chain_len b B"
  "chain_bytes b m [] = []" "chain_bytes b m (q # qs) = mem_read (pb_payload (b q)) (pb_len (b q)) m @ chain_bytes b m qs"
  "chain_bytes b m (A @ B) = chain_bytes b m A @ chain_bytes b m B"
  "areas b [] = {}" "areas b (q # qs) = area b q \<union> areas b qs" "areas b (A @ B) = areas b A \<union> areas b B"
  by (auto simp: chain_len_def chain_bytes_def areas_def)

lemma length_chain_bytes [simp]: "length (chain_bytes b m qs) = chain_len b qs"
  by (induction qs) simp_all

lemma mem_read_0 [simp]: "mem_read a 0 m = []"
  by (simp add: mem_read_def)

lemma mem_read_1 [simp]: "mem_read a (Suc 0) m = [m a]"
  by (simp add: mem_read_def)

lemma mem_read_same: "(\<And>x. a \<le> x \<Longrightarrow> x < a + n \<Longrightarrow> m x = m' x) \<Longrightarrow> mem_read a n m = mem_read a n m'"
  by (simp add: mem_read_def)

lemma chain_bytes_cong: "(\<And>x. x \<in> areas b qs \<Longrightarrow> m x = m' x) \<Longrightarrow> chain_bytes b m qs = chain_bytes b m' qs"
  by (induction qs) (auto simp: area_def intro!: mem_read_same)

lemma mem_read_split: "mem_read a (n + k) m = mem_read a n m @ mem_read (a + n) k m"
  by (rule nth_equalityI) (auto simp: nth_append)

lemma mem_read_slice: "off + k \<le> n \<Longrightarrow> mem_read (a + off) k m = take k (drop off (mem_read a n m))"
  by (rule nth_equalityI) (simp_all add: add.assoc)

lemma mem_read_over: "length d \<le> n \<Longrightarrow> mem_read a n (mem_write a d m) = d @ drop (length d) (mem_read a n m)"
  by (rule nth_equalityI) (auto simp: nth_append mem_write_def)

lemma packet_append: "packet b p (A @ B) \<Longrightarrow> B \<noteq> [] \<Longrightarrow> packet b (hd B) B"
proof (induction A arbitrary: p)
  case Nil
  then show ?case by (cases B) auto
qed auto

lemma chain_at: "off < pb_len (b q) \<Longrightarrow> chain_bytes b m (A @ q # B) ! (chain_len b A + off) = m (pb_payload (b q) + off)"
  by (simp add: nth_append)

declare pbuf_skip.simps [simp del] copy_out.simps [simp del] take_from.simps [simp del] copy_chain.simps [simp del] find_from.simps [simp del]

text \<open>Byte \<open>n\<close> of a chain is byte \<open>off\<close> of buffer \<open>q\<close>, or lies \<open>off\<close> bytes behind the end.\<close>

definition located :: "(nat \<Rightarrow> pbuf) \<Rightarrow> nat list \<Rightarrow> nat \<Rightarrow> nat \<Rightarrow> nat \<Rightarrow> bool" where
  "located b qs n q off \<longleftrightarrow> (if n < chain_len b qs
     then \<exists>A B. qs = A @ q # B \<and> n = chain_len b A + off \<and> off < pb_len (b q) \<and> packet b q (q # B)
     else q = 0 \<and> off = n - chain_len b qs)"

lemma locatedE:
  assumes "located b qs n q off" and "n < chain_len b qs"
  obtains A B where "qs = A @ q # B" "n = chain_len b A + off" "off < pb_len (b q)" "packet b q (q # B)"
proof -
  have "\<exists>A B. qs = A @ q # B \<and> n = chain_len b A + off \<and> off < pb_len (b q) \<and> packet b q (q # B)"
    using assms by (simp add: located_def del: packet.simps)
  then show ?thesis by (elim exE conjE) (rule that)
qed

lemma locatedI: "n < chain_len b (A @ q # B) \<Longrightarrow> n = chain_len b A + off \<Longrightarrow> off < pb_len (b q) \<Longrightarrow> packet b q (q # B) \<Longrightarrow> located b (A @ q # B) n q off"
  unfolding located_def by (subst if_P, assumption) (intro exI conjI, rule refl, assumption+)

lemma located_beyond: "\<not> n < chain_len b qs \<Longrightarrow> located b qs n q off \<longleftrightarrow> q = 0 \<and> off = n - chain_len b qs"
  unfolding located_def by simp

lemma located_later:
  assumes "located b qs (n - pb_len (b r)) q off" and "pb_len (b r) \<le> n"
  shows "located b (r # qs) n q off"
proof (cases "n < chain_len b (r # qs)")
  case True
  then have "n - pb_len (b r) < chain_len b qs" using assms(2) by simp
  then obtain A B where "qs = A @ q # B" "n - pb_len (b r) = chain_len b A + off" "off < pb_len (b q)" "packet b q (q # B)"
    by (rule locatedE [OF assms(1)])
  note AB = this
  then have "n < chain_len b ((r # A) @ q # B)" "n = chain_len b (r # A) + off" using True assms(2) by simp_all
  from locatedI [OF this AB(3,4)] show ?thesis by (simp only: AB(1) append_Cons)
qed (use assms in \<open>simp add: located_beyond\<close>)

lemma pbuf_skip_ok:
  assumes "packet (ps_pbufs s) p qs" and "n < 65536"
  obtains q off where "pbuf_skip p n s = Some (q, off)" "located (ps_pbufs s) qs n q off"
proof -
  have "\<exists>q off. pbuf_skip p n s = Some (q, off) \<and> located (ps_pbufs s) qs n q off" using assms
  proof (induction qs arbitrary: p n)
    case Nil
    then show ?case by (simp add: pbuf_skip.simps [of 0] located_def)
  next
    case (Cons q qs)
    let ?b = "ps_pbufs s"
    show ?case
    proof (cases "pb_len (?b q) \<le> n")
      case True
      have "packet ?b (pb_next (?b q)) qs" "n - pb_len (?b q) < 65536" using Cons.prems by simp_all
      from Cons.IH [OF this] obtain r off where r: "pbuf_skip (pb_next (?b q)) (n - pb_len (?b q)) s = Some (r, off)"
        "located ?b qs (n - pb_len (?b q)) r off" by blast
      have "pbuf_skip p n s = Some (r, off)" using r(1) Cons.prems True by (simp add: pbuf_skip.simps [of q n] diff16_nat)
      then show ?thesis using located_later [OF r(2) True] by blast
    next
      case False
      then have "pbuf_skip p n s = Some (q, n)" using Cons.prems by (simp add: pbuf_skip.simps [of q n])
      then show ?thesis using locatedI [of n ?b "[]" q qs n] False Cons.prems(1) by auto
    qed
  qed
  then show ?thesis using that by blast
qed

section \<open>Writing\<close>

lemma take_from_ok:
  assumes "packet (ps_pbufs s) p qs" and "apart (ps_pbufs s) qs" and "n \<le> chain_len (ps_pbufs s) qs"
    and "areas (ps_pbufs s) qs \<inter> {a + c ..< a + c + n} = {}"
  shows "\<exists>m'. take_from p a n c s = Some (s\<lparr>ps_bytes := m'\<rparr>) \<and>
    chain_bytes (ps_pbufs s) m' qs = mem_read (a + c) n (ps_bytes s) @ drop n (chain_bytes (ps_pbufs s) (ps_bytes s) qs) \<and>
    (\<forall>x. x \<notin> areas (ps_pbufs s) qs \<longrightarrow> m' x = ps_bytes s x)"
  using assms
proof (induction qs arbitrary: p n c s)
  case Nil
  then have "n = 0" by simp
  then show ?case by (intro exI [of _ "ps_bytes s"]) (simp add: take_from.simps [of p])
next
  case (Cons q qs)
  let ?b = "ps_pbufs s"
  let ?m = "ps_bytes s"
  show ?case
  proof (cases "n = 0")
    case True
    then show ?thesis by (intro exI [of _ ?m]) (simp add: take_from.simps [of p])
  next
    case False
    define k where "k = min n (pb_len (?b q))"
    let ?s = "memcpy (pb_payload (?b q)) (a + c) k s"
    let ?d = "mem_read (a + c) k ?m"
    have out: "ps_bytes ?s x = ?m x" if "x \<notin> area ?b q" for x
      using that by (auto simp: memcpy_def mem_write_def area_def k_def)
    have sep: "area ?b q \<inter> areas ?b qs = {}" "areas ?b qs \<inter> {a + (c + k) ..< a + (c + k) + (n - k)} = {}"
      "area ?b q \<inter> {a + c ..< a + c + n} = {}" using Cons.prems by (auto simp: k_def)
    have b: "ps_pbufs ?s = ?b" by (simp add: memcpy_def)
    have "packet (ps_pbufs ?s) (pb_next (?b q)) qs" "apart (ps_pbufs ?s) qs" "n - k \<le> chain_len (ps_pbufs ?s) qs"
      using Cons.prems unfolding b by (auto simp: k_def)
    from Cons.IH [OF this, of "c + k"] sep(2) obtain m' where m': "take_from (pb_next (?b q)) a (n - k) (c + k) ?s = Some (?s\<lparr>ps_bytes := m'\<rparr>)"
      "chain_bytes ?b m' qs = mem_read (a + (c + k)) (n - k) (ps_bytes ?s) @ drop (n - k) (chain_bytes ?b (ps_bytes ?s) qs)"
      "\<forall>x. x \<notin> areas ?b qs \<longrightarrow> m' x = ps_bytes ?s x" unfolding b by blast
    have step: "take_from p a n c s = Some (s\<lparr>ps_bytes := m'\<rparr>)"
    proof -
      have "take_from p a n c s = take_from (pb_next (?b q)) a (n - k) (c + k) ?s"
        using Cons.prems(1) False by (subst take_from.simps) (auto simp: Let_def k_def min_def)
      then show ?thesis using m'(1) by (simp add: memcpy_def)
    qed
    have first: "mem_read (pb_payload (?b q)) (pb_len (?b q)) m' = ?d @ drop k (mem_read (pb_payload (?b q)) (pb_len (?b q)) ?m)"
    proof -
      have "mem_read (pb_payload (?b q)) (pb_len (?b q)) m' = mem_read (pb_payload (?b q)) (pb_len (?b q)) (ps_bytes ?s)"
        using m'(3) sep(1) by (intro mem_read_same) (auto simp: area_def)
      also have "\<dots> = ?d @ drop k (mem_read (pb_payload (?b q)) (pb_len (?b q)) ?m)"
        using mem_read_over [of ?d "pb_len (?b q)" "pb_payload (?b q)" ?m] by (simp add: memcpy_def k_def)
      finally show ?thesis .
    qed
    have rest: "chain_bytes ?b m' qs = mem_read (a + (c + k)) (n - k) ?m @ drop (n - k) (chain_bytes ?b ?m qs)"
    proof -
      have "mem_read (a + (c + k)) (n - k) (ps_bytes ?s) = mem_read (a + (c + k)) (n - k) ?m"
        using sep(3) by (intro mem_read_same out) (auto simp: k_def)
      moreover have "chain_bytes ?b (ps_bytes ?s) qs = chain_bytes ?b ?m qs"
        using sep(1) by (intro chain_bytes_cong out) auto
      ultimately show ?thesis using m'(2) by simp
    qed
    have "chain_bytes ?b m' (q # qs) = mem_read (a + c) n ?m @ drop n (chain_bytes ?b ?m (q # qs))"
    proof (cases "n \<le> pb_len (?b q)")
      case True
      then show ?thesis by (simp add: first rest k_def)
    next
      case False
      then have "k = pb_len (?b q)" "n = k + (n - k)" by (auto simp: k_def)
      then have "mem_read (a + c) n ?m = ?d @ mem_read (a + (c + k)) (n - k) ?m" using mem_read_split [of "a + c" k "n - k" ?m] by (simp add: add.assoc)
      then show ?thesis using False by (simp add: first rest k_def)
    qed
    moreover have "\<forall>x. x \<notin> areas ?b (q # qs) \<longrightarrow> m' x = ?m x" using m'(3) out by simp
    ultimately show ?thesis using step by blast
  qed
qed

text \<open>Writing at an offset replaces a slice of the string.\<close>

lemma pbuf_take_ok:
  assumes "packet (ps_pbufs s) p qs" and "apart (ps_pbufs s) qs" and "n \<le> chain_len (ps_pbufs s) qs" and "p \<noteq> 0" and "a \<noteq> 0"
    and "areas (ps_pbufs s) qs \<inter> {a ..< a + n} = {}"
  shows "\<exists>m'. pbuf_take p a n s = Some (ERR_OK, s\<lparr>ps_bytes := m'\<rparr>) \<and>
    chain_bytes (ps_pbufs s) m' qs = mem_read a n (ps_bytes s) @ drop n (chain_bytes (ps_pbufs s) (ps_bytes s) qs) \<and>
    (\<forall>x. x \<notin> areas (ps_pbufs s) qs \<longrightarrow> m' x = ps_bytes s x)"
proof -
  obtain qs' where qs: "qs = p # qs'" using assms(1,4) by (cases qs) auto
  then have "n \<le> pb_tot_len (ps_pbufs s p)" using assms(1,3) by simp
  moreover have "\<exists>m'. take_from p a n 0 s = Some (s\<lparr>ps_bytes := m'\<rparr>) \<and>
    chain_bytes (ps_pbufs s) m' qs = mem_read a n (ps_bytes s) @ drop n (chain_bytes (ps_pbufs s) (ps_bytes s) qs) \<and>
    (\<forall>x. x \<notin> areas (ps_pbufs s) qs \<longrightarrow> m' x = ps_bytes s x)"
    using take_from_ok [OF assms(1,2,3), of a 0] assms(6) by simp
  ultimately show ?thesis using assms(4,5) by (auto simp: pbuf_take_def)
qed

lemma apart_append: "apart b (A @ B) \<longleftrightarrow> apart b A \<and> apart b B \<and> areas b A \<inter> areas b B = {}"
  by (induction A) auto

lemma pbuf_take_at_ok:
  assumes "packet (ps_pbufs s) p qs" and "apart (ps_pbufs s) qs" and "off + n \<le> chain_len (ps_pbufs s) qs" and "0 < n"
    and "chain_len (ps_pbufs s) qs < 65536" and "a \<noteq> 0" and "areas (ps_pbufs s) qs \<inter> {a ..< a + n} = {}"
  shows "\<exists>m'. pbuf_take_at p a n off s = Some (ERR_OK, s\<lparr>ps_bytes := m'\<rparr>) \<and>
    chain_bytes (ps_pbufs s) m' qs =
      take off (chain_bytes (ps_pbufs s) (ps_bytes s) qs) @ mem_read a n (ps_bytes s) @ drop (off + n) (chain_bytes (ps_pbufs s) (ps_bytes s) qs) \<and>
    (\<forall>x. x \<notin> areas (ps_pbufs s) qs \<longrightarrow> m' x = ps_bytes s x)"
proof -
  let ?b = "ps_pbufs s"
  let ?m = "ps_bytes s"
  have "off < 65536" "off < chain_len ?b qs" using assms(3,4,5) by simp_all
  with pbuf_skip_ok [OF assms(1), of off] obtain q t where q: "pbuf_skip p off s = Some (q, t)" "located ?b qs off q t" by blast
  from locatedE [OF q(2) \<open>off < chain_len ?b qs\<close>] q(1) obtain A B where sk: "pbuf_skip p off s = Some (q, t)" "qs = A @ q # B"
    "off = chain_len ?b A + t" "t < pb_len (?b q)" "packet ?b q (q # B)" by blast
  define k where "k = min (pb_len (?b q) - t) n"
  have k: "0 < k" "k \<le> n" "t + k \<le> pb_len (?b q)" "k < 65536" "n < 65536" "n - k \<le> chain_len ?b B"
    "t + n \<le> pb_len (?b q) + chain_len ?b B" using assms(3,4,5) sk(2,3,4) by (auto simp: k_def)
  let ?s = "memcpy (pb_payload (?b q) + t) a k s"
  have b: "ps_pbufs ?s = ?b" by (simp add: memcpy_def)
  have ap: "area ?b q \<inter> areas ?b B = {}" "areas ?b A \<inter> (area ?b q \<union> areas ?b B) = {}" "apart ?b B"
    using assms(2) by (auto simp: sk(2) apart_append)
  have src: "area ?b q \<inter> {a ..< a + n} = {}" "areas ?b B \<inter> {a + k ..< a + n} = {}" using assms(7) by (auto simp: sk(2))
  have out: "ps_bytes ?s x = ?m x" if "x \<notin> area ?b q" for x using that k(3) by (auto simp: memcpy_def mem_write_def area_def)
  have first: "mem_read (pb_payload (?b q)) (pb_len (?b q)) (ps_bytes ?s) =
    take t (mem_read (pb_payload (?b q)) (pb_len (?b q)) ?m) @ mem_read a k ?m @ drop (t + k) (mem_read (pb_payload (?b q)) (pb_len (?b q)) ?m)"
    using k(3) by (intro nth_equalityI) (auto simp: memcpy_def mem_write_def nth_append)
  have "\<exists>m'. pbuf_take_at p a n off s = Some (ERR_OK, s\<lparr>ps_bytes := m'\<rparr>) \<and>
    chain_bytes ?b m' B = mem_read (a + k) (n - k) ?m @ drop (n - k) (chain_bytes ?b ?m B) \<and> (\<forall>x. x \<notin> areas ?b B \<longrightarrow> m' x = ps_bytes ?s x)"
  proof (cases "n = k")
    case True
    then have "pbuf_take_at p a n off s = Some (ERR_OK, ?s)"
      using sk k by (simp add: pbuf_take_at_def k_def [symmetric] cast16_def diff16_nat)
    then show ?thesis using True chain_bytes_cong [of ?b B "ps_bytes ?s" ?m] out ap(1)
      by (intro exI [of _ "ps_bytes ?s"]) (auto simp: memcpy_def)
  next
    case False
    then have p: "packet (ps_pbufs ?s) (pb_next (?b q)) B" "pb_next (?b q) \<noteq> 0" using sk(5) k b by (cases B; auto)+
    have "\<exists>m'. pbuf_take (pb_next (?b q)) (a + k) (n - k) ?s = Some (ERR_OK, ?s\<lparr>ps_bytes := m'\<rparr>) \<and>
      chain_bytes ?b m' B = mem_read (a + k) (n - k) (ps_bytes ?s) @ drop (n - k) (chain_bytes ?b (ps_bytes ?s) B) \<and>
      (\<forall>x. x \<notin> areas ?b B \<longrightarrow> m' x = ps_bytes ?s x)"
      using pbuf_take_ok [OF p(1) _ _ p(2), of "n - k" "a + k"] ap(3) k assms(6) src(2) unfolding b by auto
    moreover have "pbuf_take_at p a n off s = pbuf_take (pb_next (?b q)) (a + k) (n - k) ?s"
      using sk k False by (simp add: pbuf_take_at_def k_def [symmetric] cast16_def diff16_nat)
    moreover have "mem_read (a + k) (n - k) (ps_bytes ?s) = mem_read (a + k) (n - k) ?m" using src(1) by (intro mem_read_same out) auto
    moreover have "chain_bytes ?b (ps_bytes ?s) B = chain_bytes ?b ?m B" using ap(1) by (intro chain_bytes_cong out) auto
    ultimately show ?thesis by (simp add: memcpy_def)
  qed
  then obtain m' where m': "pbuf_take_at p a n off s = Some (ERR_OK, s\<lparr>ps_bytes := m'\<rparr>)"
    "chain_bytes ?b m' B = mem_read (a + k) (n - k) ?m @ drop (n - k) (chain_bytes ?b ?m B)" "\<forall>x. x \<notin> areas ?b B \<longrightarrow> m' x = ps_bytes ?s x" by blast
  have A: "chain_bytes ?b m' A = chain_bytes ?b ?m A" 
  proof (rule chain_bytes_cong)
    fix x assume "x \<in> areas ?b A"
    then have "x \<notin> area ?b q" "x \<notin> areas ?b B" using ap(2) by auto
    then show "m' x = ?m x" using m'(3) out by simp
  qed
  have q: "mem_read (pb_payload (?b q)) (pb_len (?b q)) m' = mem_read (pb_payload (?b q)) (pb_len (?b q)) (ps_bytes ?s)"
    using m'(3) ap(1) by (intro mem_read_same) (auto simp: area_def)
  have "mem_read a n ?m = mem_read a k ?m @ mem_read (a + k) (n - k) ?m" using mem_read_split [of a k "n - k" ?m] k(2) by simp
  moreover have "n = k \<or> pb_len (?b q) = t + k" using sk(4) by (auto simp: k_def)
  ultimately have "chain_bytes ?b m' qs = take off (chain_bytes ?b ?m qs) @ mem_read a n ?m @ drop (off + n) (chain_bytes ?b ?m qs)"
    using k(2,3) by (auto simp: sk(2,3) A q first m'(2))
  moreover have "\<forall>x. x \<notin> areas ?b qs \<longrightarrow> m' x = ?m x" using m'(3) out by (simp add: sk(2))
  ultimately show ?thesis using m'(1) by blast
qed

section \<open>Reading\<close>

lemma copy_out_ok:
  assumes "packet (ps_pbufs s) p qs" and "chain_len (ps_pbufs s) qs < 65536" and "off < 65536" and "left + n < 65536"
    and "areas (ps_pbufs s) qs \<inter> {a + left ..< a + left + n} = {}"
  shows "copy_out p a left n off left s = Some (left + min n (chain_len (ps_pbufs s) qs - off),
    s\<lparr>ps_bytes := mem_write (a + left) (take n (drop off (chain_bytes (ps_pbufs s) (ps_bytes s) qs))) (ps_bytes s)\<rparr>)"
  using assms
proof (induction qs arbitrary: p off left n s)
  case Nil
  then show ?case by (subst copy_out.simps) simp
next
  case (Cons q qs)
  let ?b = "ps_pbufs s"
  let ?m = "ps_bytes s"
  have p: "p = q" "q \<noteq> 0" "packet ?b (pb_next (?b q)) qs" "pb_len (?b q) < 65536" "chain_len ?b qs < 65536" using Cons.prems by simp_all
  show ?case
  proof (cases "n = 0")
    case True
    then show ?thesis by (simp add: copy_out.simps [of p])
  next
    case n: False
    show ?thesis
    proof (cases "off \<noteq> 0 \<and> off \<ge> pb_len (?b q)")
      case True
      have "areas ?b qs \<inter> {a + left ..< a + left + n} = {}" using Cons.prems(5) by auto
      from Cons.IH [OF p(3,5) _ Cons.prems(4) this, of "off - pb_len (?b q)"] show ?thesis
        using True n p Cons.prems(3) by (simp add: copy_out.simps [of q a left n off] diff16_nat)
    next
      case False
      define k where "k = min (pb_len (?b q) - off) n"
      let ?s = "memcpy (a + left) (pb_payload (?b q) + off) k s"
      let ?d = "mem_read (pb_payload (?b q) + off) k ?m"
      have k: "k \<le> n" "off + k \<le> pb_len (?b q)" using False by (auto simp: k_def)
      have b: "ps_pbufs ?s = ?b" by (simp add: memcpy_def)
      have "areas ?b qs \<inter> {a + (left + k) ..< a + (left + k) + (n - k)} = {}" using Cons.prems(5) k by auto
      from Cons.IH [of ?s "pb_next (?b q)" 0 "left + k" "n - k"] this p Cons.prems(4) k
      have IH: "copy_out (pb_next (?b q)) a (left + k) (n - k) 0 (left + k) ?s = Some (left + k + min (n - k) (chain_len ?b qs),
        ?s\<lparr>ps_bytes := mem_write (a + (left + k)) (take (n - k) (chain_bytes ?b (ps_bytes ?s) qs)) (ps_bytes ?s)\<rparr>)" by (simp add: b)
      have same: "chain_bytes ?b (ps_bytes ?s) qs = chain_bytes ?b ?m qs"
        using Cons.prems(5) k(1) by (intro chain_bytes_cong) (auto simp: memcpy_def mem_write_def)
      have d : "?d = take k (drop off (mem_read (pb_payload (?b q)) (pb_len (?b q)) ?m))" by (rule mem_read_slice [OF k(2)])
      have "take n (drop off (chain_bytes ?b ?m (q # qs))) = ?d @ take (n - k) (chain_bytes ?b ?m qs)"
      proof -
        have "off - pb_len (?b q) = 0" "n - (pb_len (?b q) - off) = n - k" using False by (auto simp: k_def)
        moreover have "take n (drop off (mem_read (pb_payload (?b q)) (pb_len (?b q)) ?m)) = ?d"
          unfolding d by (simp add: k_def min_def)
        ultimately show ?thesis by simp
      qed
      then have w: "mem_write (a + (left + k)) (take (n - k) (chain_bytes ?b (ps_bytes ?s) qs)) (ps_bytes ?s) =
        mem_write (a + left) (take n (drop off (chain_bytes ?b ?m (q # qs)))) ?m"
        by (simp only: same) (simp add: memcpy_def mem_write_append add.assoc)
      have "copy_out p a left n off left s = copy_out (pb_next (?b q)) a (left + k) (n - k) 0 (left + k) ?s"
        using n False p Cons.prems(3,4) k
        by (subst copy_out.simps) (auto simp: diff16_nat k_def [symmetric] min_def [symmetric] min.commute cast16_def Let_def not_less k_def intro!: arg_cong2 [of _ _ _ _ copy_out])
      moreover have "left + k + min (n - k) (chain_len ?b qs) = left + min n (chain_len ?b (q # qs) - off)"
        using False by (auto simp: k_def min_def)
      ultimately show ?thesis using IH w by (simp add: memcpy_def)
    qed
  qed
qed

lemma pbuf_copy_partial_ok:
  assumes "packet (ps_pbufs s) p qs" and "chain_len (ps_pbufs s) qs < 65536" and "off < 65536" and "n < 65536" and "p \<noteq> 0" and "a \<noteq> 0"
    and "areas (ps_pbufs s) qs \<inter> {a ..< a + n} = {}"
  shows "pbuf_copy_partial p a n off s = Some (min n (chain_len (ps_pbufs s) qs - off),
    s\<lparr>ps_bytes := mem_write a (take n (drop off (chain_bytes (ps_pbufs s) (ps_bytes s) qs))) (ps_bytes s)\<rparr>)"
  using copy_out_ok [OF assms(1,2,3), of 0 n a] assms(4,5,6,7) by (simp add: pbuf_copy_partial_def)

lemma pbuf_get_at_ok:
  assumes "packet (ps_pbufs s) p qs" and "n < 65536"
  shows "pbuf_get_at p n s = Some (if n < chain_len (ps_pbufs s) qs then chain_bytes (ps_pbufs s) (ps_bytes s) qs ! n else 0)"
proof -
  obtain q t where q: "pbuf_skip p n s = Some (q, t)" "located (ps_pbufs s) qs n q t" by (rule pbuf_skip_ok [OF assms])
  show ?thesis
  proof (cases "n < chain_len (ps_pbufs s) qs")
    case True
    obtain A B where L: "qs = A @ q # B" "n = chain_len (ps_pbufs s) A + t" "t < pb_len (ps_pbufs s q)" "packet (ps_pbufs s) q (q # B)"
      by (rule locatedE [OF q(2) True])
    then have "chain_bytes (ps_pbufs s) (ps_bytes s) qs ! n = ps_bytes s (pb_payload (ps_pbufs s q) + t)"
      using chain_at [of t "ps_pbufs s" q "ps_bytes s" A B] by simp
    then show ?thesis using q(1) L True by (simp add: pbuf_get_at_def pbuf_try_get_at_def)
  next
    case False
    then show ?thesis using q by (simp add: pbuf_get_at_def pbuf_try_get_at_def located_beyond)
  qed
qed

lemma compare_from_ok:
  assumes "packet (ps_pbufs s) q qs" and "chain_len (ps_pbufs s) qs < 65536" and "start + i + k \<le> chain_len (ps_pbufs s) qs"
  shows "\<exists>r. compare_from q start a i k s = Some r \<and>
    (r = 0 \<longleftrightarrow> take k (drop (start + i) (chain_bytes (ps_pbufs s) (ps_bytes s) qs)) = mem_read (a + i) k (ps_bytes s))"
  using assms(3)
proof (induction k arbitrary: i)
  case 0
  then show ?case by simp
next
  case (Suc k)
  let ?d = "chain_bytes (ps_pbufs s) (ps_bytes s) qs"
  have "start + i < 65536" using Suc.prems assms(2) by simp
  then have g: "pbuf_get_at q (cast16 (start + i)) s = Some (?d ! (start + i))"
    using pbuf_get_at_ok [OF assms(1), of "start + i"] Suc.prems by (simp add: cast16_def)
  have t: "take (Suc k) (drop (start + i) ?d) = ?d ! (start + i) # take k (drop (start + (i + 1)) ?d)"
    using Suc.prems by (simp add: Cons_nth_drop_Suc [symmetric])
  have m: "mem_read (a + i) (Suc k) (ps_bytes s) = ps_bytes s (a + i) # mem_read (a + (i + 1)) k (ps_bytes s)"
    using mem_read_split [of "a + i" 1 k "ps_bytes s"] by simp
  show ?case
  proof (cases "?d ! (start + i) = ps_bytes s (a + i)")
    case True
    from Suc.IH [of "i + 1"] Suc.prems obtain r where "compare_from q start a (i + 1) k s = Some r"
      "r = 0 \<longleftrightarrow> take k (drop (start + (i + 1)) ?d) = mem_read (a + (i + 1)) k (ps_bytes s)" by auto
    then show ?thesis using g True by (simp add: t m)
  next
    case False
    then show ?thesis using g by (simp add: t m cast16_def min_def)
  qed
qed

lemma pbuf_memcmp_ok:
  assumes "packet (ps_pbufs s) p qs" and "chain_len (ps_pbufs s) qs < 65536" and "off + n \<le> chain_len (ps_pbufs s) qs" and "p \<noteq> 0"
  shows "\<exists>r. pbuf_memcmp p off a n s = Some r \<and>
    (r = 0 \<longleftrightarrow> take n (drop off (chain_bytes (ps_pbufs s) (ps_bytes s) qs)) = mem_read a n (ps_bytes s))"
proof -
  let ?b = "ps_pbufs s"
  have "off < 65536" using assms(2,3) by simp
  then obtain q t where q: "pbuf_skip p off s = Some (q, t)" "located ?b qs off q t" by (rule pbuf_skip_ok [OF assms(1)])
  have "pb_tot_len (?b p) = chain_len ?b qs" using assms(1,4) by (cases qs) auto
  then have m: "pbuf_memcmp p off a n s = compare_from q t a 0 n s" using q(1) assms(3) by (simp add: pbuf_memcmp_def)
  show ?thesis
  proof (cases "off < chain_len ?b qs")
    case True
    obtain A B where L: "qs = A @ q # B" "off = chain_len ?b A + t" "t < pb_len (?b q)" "packet ?b q (q # B)"
      by (rule locatedE [OF q(2) True])
    have "drop off (chain_bytes ?b (ps_bytes s) qs) = drop t (chain_bytes ?b (ps_bytes s) (q # B))" by (simp add: L(1,2))
    moreover have "t + 0 + n \<le> chain_len ?b (q # B)" "chain_len ?b (q # B) < 65536" using assms(2,3) by (simp_all add: L(1,2))
    ultimately show ?thesis using compare_from_ok [OF L(4), of t 0 n a] m by simp
  next
    case False
    then have "n = 0" using assms(3) by simp
    then show ?thesis using m by simp
  qed
qed

text \<open>The places at which a block of memory occurs in a string.\<close>

definition occurs :: "u8 list \<Rightarrow> u8 list \<Rightarrow> nat \<Rightarrow> bool" where
  "occurs d x i \<longleftrightarrow> i + length x \<le> length d \<and> take (length x) (drop i d) = x"

text \<open>The least number from \<open>i\<close> on with a property, or 65535 when there is none.\<close>

definition first_from :: "(nat \<Rightarrow> bool) \<Rightarrow> nat \<Rightarrow> nat \<Rightarrow> bool" where
  "first_from P i r \<longleftrightarrow> (if r = 0xFFFF then \<forall>j \<ge> i. \<not> P j else i \<le> r \<and> P r \<and> (\<forall>j. i \<le> j \<and> j < r \<longrightarrow> \<not> P j))"

lemma first_from_here: "P i \<Longrightarrow> i \<noteq> 0xFFFF \<Longrightarrow> first_from P i i"
  by (auto simp: first_from_def)

lemma first_from_later:
  assumes "first_from P (i + 1) r" and "\<not> P i"
  shows "first_from P i r"
proof -
  have "i = j \<or> i + 1 \<le> j" if "i \<le> j" for j using that by auto
  then show ?thesis using assms unfolding first_from_def by (cases "r = 0xFFFF") (simp, metis, simp, metis)
qed

lemma find_from_ok:
  assumes "packet (ps_pbufs s) p qs" and "chain_len (ps_pbufs s) qs < 65535" and "p \<noteq> 0" and "n \<le> chain_len (ps_pbufs s) qs"
  shows "\<exists>r. find_from p a n (chain_len (ps_pbufs s) qs - n) i s = Some r \<and>
    first_from (occurs (chain_bytes (ps_pbufs s) (ps_bytes s) qs) (mem_read a n (ps_bytes s))) i r"
proof (induction "chain_len (ps_pbufs s) qs + 1 - n - i" arbitrary: i)
  case 0
  then have "\<not> i \<le> chain_len (ps_pbufs s) qs - n" using assms(4) by simp
  then show ?case by (subst find_from.simps) (auto simp: occurs_def first_from_def)
next
  case (Suc k)
  let ?L = "chain_len (ps_pbufs s) qs"
  have i: "i \<le> ?L - n" "i + n \<le> ?L" "cast16 (i + 1) = i + 1" using Suc.hyps(2) assms(2) by (auto simp: cast16_def)
  obtain r where r: "pbuf_memcmp p i a n s = Some r"
    "r = 0 \<longleftrightarrow> occurs (chain_bytes (ps_pbufs s) (ps_bytes s) qs) (mem_read a n (ps_bytes s)) i"
    using pbuf_memcmp_ok [OF assms(1) _ i(2) assms(3), of a] assms(2) i(2) by (auto simp: occurs_def)
  show ?case
  proof (cases "r = 0")
    case True
    then show ?thesis using r i assms(2) by (subst find_from.simps) (auto intro!: first_from_here)
  next
    case False
    have "k = ?L + 1 - n - (i + 1)" using Suc.hyps(2) by simp
    from Suc.hyps(1) [OF this] obtain v where v: "find_from p a n (?L - n) (i + 1) s = Some v"
      "first_from (occurs (chain_bytes (ps_pbufs s) (ps_bytes s) qs) (mem_read a n (ps_bytes s))) (i + 1) v" by blast
    have "find_from p a n (?L - n) i s = Some v" using v(1) r(1) False i by (subst find_from.simps) simp
    then show ?thesis using first_from_later [OF v(2)] r(2) False by blast
  qed
qed

lemma pbuf_memfind_ok:
  assumes "packet (ps_pbufs s) p qs" and "chain_len (ps_pbufs s) qs < 65535" and "p \<noteq> 0" and "n < 65536"
  shows "\<exists>r. pbuf_memfind p a n i s = Some r \<and>
    first_from (occurs (chain_bytes (ps_pbufs s) (ps_bytes s) qs) (mem_read a n (ps_bytes s))) i r"
proof -
  have t: "pb_tot_len (ps_pbufs s p) = chain_len (ps_pbufs s) qs" using assms(1,3) by (cases qs) auto
  show ?thesis
  proof (cases "n + i \<le> chain_len (ps_pbufs s) qs")
    case True
    then have "n \<le> chain_len (ps_pbufs s) qs" by simp
    from find_from_ok [OF assms(1,2,3) this, of a i] show ?thesis
      using t True assms(2) by (simp add: pbuf_memfind_def diff16_nat)
  next
    case False
    then show ?thesis using t by (auto simp: pbuf_memfind_def occurs_def first_from_def)
  qed
qed

section \<open>Copying between packets\<close>

lemma pos_hd: "packet b p qs \<Longrightarrow> qs \<noteq> [] \<Longrightarrow> p = hd qs \<and> p \<noteq> 0"
  by (cases qs) auto

text \<open>The tests for queues pass on a packet without empty buffers: only its last buffer holds all that is left.\<close>

lemma no_queue:
  assumes "packet b p qs" and "\<forall>q \<in> set qs. 0 < pb_len (b q)"
  shows "\<not> (p \<noteq> 0 \<and> pb_len (b p) = pb_tot_len (b p) \<and> pb_next (b p) \<noteq> 0)"
proof (cases qs)
  case (Cons q rest)
  then show ?thesis using assms by (cases rest) auto
qed (use assms in auto)

text \<open>What is left of a chain from byte \<open>off\<close> of its first buffer, after moving on when that is used up.\<close>

definition advance :: "(nat \<Rightarrow> pbuf) \<Rightarrow> nat list \<Rightarrow> nat \<Rightarrow> nat list \<times> nat" where
  "advance b qs off = (if off \<ge> pb_len (b (hd qs)) then (tl qs, 0) else (qs, off))"

lemma advance_ok:
  assumes "packet b p qs" and "qs \<noteq> []" and "off \<le> pb_len (b p)" and "advance b qs off = (qs', off')"
  shows "packet b (if off \<ge> pb_len (b p) then pb_next (b p) else p) qs'" "drop off' (chain_bytes b m qs') = drop off (chain_bytes b m qs)"
    "chain_len b qs' - off' = chain_len b qs - off" "off' \<le> chain_len b qs'" "apart b qs \<Longrightarrow> apart b qs'" "areas b qs' \<subseteq> areas b qs" "set qs' \<subseteq> set qs"
    "\<forall>q \<in> set qs. 0 < pb_len (b q) \<Longrightarrow> qs' \<noteq> [] \<Longrightarrow> off' < pb_len (b (hd qs'))"
  using assms by (cases qs; auto simp: advance_def split: if_splits)+

lemma copy_chain_ok:
  assumes "packet (ps_pbufs s) pt ts" and "packet (ps_pbufs s) pf fs" and "\<forall>q \<in> set ts. 0 < pb_len (ps_pbufs s q)" and "\<forall>q \<in> set fs. 0 < pb_len (ps_pbufs s q)"
    and "apart (ps_pbufs s) ts" and "areas (ps_pbufs s) ts \<inter> areas (ps_pbufs s) fs = {}" and "ts \<noteq> []" and "fs \<noteq> []"
    and "ot < pb_len (ps_pbufs s pt)" and "fo < pb_len (ps_pbufs s pf)"
    and "n \<le> chain_len (ps_pbufs s) ts - ot" and "n \<le> chain_len (ps_pbufs s) fs - fo"
    and "chain_len (ps_pbufs s) ts < 65536" and "chain_len (ps_pbufs s) fs < 65536"
  shows "\<exists>m'. copy_chain pt ot pf fo n s = Some (ERR_OK, s\<lparr>ps_bytes := m'\<rparr>) \<and>
    drop ot (chain_bytes (ps_pbufs s) m' ts) =
      take n (drop fo (chain_bytes (ps_pbufs s) (ps_bytes s) fs)) @ drop (ot + n) (chain_bytes (ps_pbufs s) (ps_bytes s) ts) \<and>
    (\<forall>x. x \<notin> areas (ps_pbufs s) ts \<or> pb_payload (ps_pbufs s pt) \<le> x \<and> x < pb_payload (ps_pbufs s pt) + ot \<longrightarrow> m' x = ps_bytes s x)"
  using assms
proof (induction n arbitrary: ot fo pt pf ts fs s rule: less_induct)
  case (less n)
  let ?b = "ps_pbufs s"
  let ?m = "ps_bytes s"
  obtain ts' fs' where tf: "ts = pt # ts'" "fs = pf # fs'" using less.prems(1,2,7,8) by (cases ts; cases fs; auto)
  define k where "k = min n (min (pb_len (?b pt) - ot) (pb_len (?b pf) - fo))"
  define s1 where "s1 = memcpy (pb_payload (?b pt) + ot) (pb_payload (?b pf) + fo) k s"
  have k: "k \<le> n" "ot + k \<le> pb_len (?b pt)" "fo + k \<le> pb_len (?b pf)" using less.prems(9,10) by (auto simp: k_def)
  have lens: "pb_len (?b pt) < 65536" "pb_len (?b pf) < 65536" "n < 65536" using less.prems(11,13,14) by (auto simp: tf)
  obtain ts1 o1 fs1 o2 where adv: "advance ?b ts (ot + k) = (ts1, o1)" "advance ?b fs (fo + k) = (fs1, o2)" by fastforce
  define p1 where "p1 = (if ot + k \<ge> pb_len (?b pt) then pb_next (?b pt) else pt)"
  define p2 where "p2 = (if fo + k \<ge> pb_len (?b pf) then pb_next (?b pf) else pf)"
  note A1 = advance_ok [OF less.prems(1,7) k(2) adv(1), folded p1_def]
  note A2 = advance_ok [OF less.prems(2,8) k(3) adv(2), folded p2_def]
  have b: "ps_pbufs s1 = ?b" by (simp add: s1_def memcpy_def)
  have pos: "\<forall>q \<in> set ts1. 0 < pb_len (?b q)" "\<forall>q \<in> set fs1. 0 < pb_len (?b q)" using A1(7) A2(7) less.prems(3,4) by blast+
  have more: "n - k \<le> chain_len ?b ts1 - o1" "n - k \<le> chain_len ?b fs1 - o2" using A1(3) A2(3) less.prems(11,12) by simp_all
  have goes_on: "ts1 \<noteq> [] \<and> p1 \<noteq> 0 \<and> fs1 \<noteq> [] \<and> p2 \<noteq> 0" if "n \<noteq> k"
    using that k(1) more pos_hd [OF A1(1)] pos_hd [OF A2(1)] by (cases "ts1 = []"; cases "fs1 = []"; simp)
  have o: "o1 = (if ot + k = pb_len (?b pt) then 0 else ot + k)" "o2 = (if fo + k \<ge> pb_len (?b pf) then 0 else fo + k)"
    using adv k(2,3) by (auto simp: advance_def tf split: if_splits)
  have p1: "p1 = (if ot + k = pb_len (?b pt) then pb_next (?b pt) else pt)" using k(2) by (auto simp: p1_def)
  have out: "ps_bytes s1 x = ?m x" if "x < pb_payload (?b pt) + ot \<or> pb_payload (?b pt) + ot + k \<le> x" for x
    using that by (auto simp: s1_def memcpy_def mem_write_def)
  have out_area: "ps_bytes s1 x = ?m x" if "x \<notin> area ?b pt" for x using that k(2) by (intro out) (auto simp: area_def)
  have step: "copy_chain pt ot pf fo n s = (if n - k \<noteq> 0 then copy_chain p1 o1 p2 o2 (n - k) s1 else Some (ERR_OK, s1))"
  proof -
    have d: "diff32 (pb_len (?b pt)) ot = pb_len (?b pt) - ot" "diff32 (pb_len (?b pf)) fo = pb_len (?b pf) - fo"
      using less.prems(9,10) lens by (simp_all add: diff32_nat)
    have m: "min n (if pb_len (?b pt) - ot \<ge> pb_len (?b pf) - fo then pb_len (?b pf) - fo else pb_len (?b pt) - ot) = k"
      by (auto simp: k_def min_def)
    have d16: "diff16 n k = n - k" using k(1) lens by (simp add: diff16_nat)
    show ?thesis
      using goes_on k no_queue [OF A1(1) pos(1)] no_queue [OF A2(1) pos(2)]
      by (subst copy_chain.simps) (simp only: d m Let_def s1_def [symmetric] b d16 p1 [symmetric] p2_def [symmetric] o [symmetric], auto)
  qed
  have sl: "mem_read (pb_payload (?b pt) + ot) k (ps_bytes s1) = take k (drop fo (chain_bytes ?b ?m fs))"
  proof -
    have "mem_read (pb_payload (?b pt) + ot) k (ps_bytes s1) = mem_read (pb_payload (?b pf) + fo) k ?m"
      using mem_read_write_same [of "pb_payload (?b pt) + ot" "mem_read (pb_payload (?b pf) + fo) k ?m" ?m] by (simp add: s1_def memcpy_def)
    also have "\<dots> = take k (drop fo (mem_read (pb_payload (?b pf)) (pb_len (?b pf)) ?m))" using k(3) by (intro mem_read_slice) simp
    finally show ?thesis using k(3) by (simp add: tf)
  qed
  have F: "chain_bytes ?b (ps_bytes s1) fs = chain_bytes ?b ?m fs"
  proof (rule chain_bytes_cong)
    fix x assume "x \<in> areas ?b fs"
    then have "x \<notin> area ?b pt" using less.prems(6) by (auto simp: tf(1))
    then show "ps_bytes s1 x = ?m x" by (rule out_area)
  qed
  have T: "drop (ot + k) (chain_bytes ?b (ps_bytes s1) ts) = drop (ot + k) (chain_bytes ?b ?m ts)"
  proof -
    have "chain_bytes ?b (ps_bytes s1) ts' = chain_bytes ?b ?m ts'"
    proof (rule chain_bytes_cong)
      fix x assume "x \<in> areas ?b ts'"
      then have "x \<notin> area ?b pt" using less.prems(5) by (auto simp: tf(1))
      then show "ps_bytes s1 x = ?m x" by (rule out_area)
    qed
    moreover have "drop (ot + k) (mem_read (pb_payload (?b pt)) (pb_len (?b pt)) (ps_bytes s1)) = drop (ot + k) (mem_read (pb_payload (?b pt)) (pb_len (?b pt)) ?m)"
      by (rule nth_equalityI) (auto intro!: out)
    ultimately show ?thesis by (simp add: tf)
  qed
  have "\<exists>m'. copy_chain pt ot pf fo n s = Some (ERR_OK, s\<lparr>ps_bytes := m'\<rparr>) \<and>
    drop o1 (chain_bytes ?b m' ts1) = take (n - k) (drop (fo + k) (chain_bytes ?b ?m fs)) @ drop (ot + n) (chain_bytes ?b ?m ts) \<and>
    (\<forall>x. x \<notin> areas ?b ts1 \<or> ts1 \<noteq> [] \<and> pb_payload (?b p1) \<le> x \<and> x < pb_payload (?b p1) + o1 \<longrightarrow> m' x = ps_bytes s1 x)"
  proof (cases "n = k")
    case True
    then show ?thesis using step A1(2) T by (intro exI [of _ "ps_bytes s1"]) (simp add: s1_def memcpy_def)
  next
    case False
    note g = goes_on [OF False]
    have "k \<noteq> 0" using less.prems(9,10) False by (auto simp: k_def min_def split: if_splits)
    then have lt: "n - k < n" using k(1) by simp
    have h: "hd ts1 = p1" "hd fs1 = p2" using pos_hd [OF A1(1)] pos_hd [OF A2(1)] g by auto
    have "areas ?b ts1 \<inter> areas ?b fs1 = {}" using A1(6) A2(6) less.prems(6) by blast
    moreover have "chain_len ?b ts1 < 65536" "chain_len ?b fs1 < 65536" using A1(3,4) A2(3,4) less.prems(13,14) adv by (auto simp: tf advance_def split: if_splits)
    moreover have "o1 < pb_len (?b p1)" "o2 < pb_len (?b p2)" using A1(8) [OF less.prems(3)] A2(8) [OF less.prems(4)] g h by auto
    ultimately obtain m' where m': "copy_chain p1 o1 p2 o2 (n - k) s1 = Some (ERR_OK, s1\<lparr>ps_bytes := m'\<rparr>)"
      "drop o1 (chain_bytes ?b m' ts1) = take (n - k) (drop o2 (chain_bytes ?b (ps_bytes s1) fs1)) @ drop (o1 + (n - k)) (chain_bytes ?b (ps_bytes s1) ts1)"
      "\<forall>x. x \<notin> areas ?b ts1 \<or> pb_payload (?b p1) \<le> x \<and> x < pb_payload (?b p1) + o1 \<longrightarrow> m' x = ps_bytes s1 x"
      using less.IH [OF lt, of s1 p1 ts1 p2 fs1 o1 o2] A1(1,5) A2(1) pos more g less.prems(5) unfolding b by blast
    have "drop (o1 + (n - k)) (chain_bytes ?b (ps_bytes s1) ts1) = drop (n - k) (drop o1 (chain_bytes ?b (ps_bytes s1) ts1))" by (simp add: add.commute)
    also have "\<dots> = drop (n - k) (drop (ot + k) (chain_bytes ?b ?m ts))" by (simp only: A1(2) T)
    also have "\<dots> = drop (ot + n) (chain_bytes ?b ?m ts)" using k(1) by (simp add: add.commute)
    finally have "drop o1 (chain_bytes ?b m' ts1) = take (n - k) (drop (fo + k) (chain_bytes ?b ?m fs)) @ drop (ot + n) (chain_bytes ?b ?m ts)"
      using m'(2) A2(2) F by simp
    then show ?thesis using step m'(1,3) lt k(1) False by (intro exI [of _ m']) (auto simp: s1_def memcpy_def)
  qed
  then obtain m' where m': "copy_chain pt ot pf fo n s = Some (ERR_OK, s\<lparr>ps_bytes := m'\<rparr>)"
    "drop o1 (chain_bytes ?b m' ts1) = take (n - k) (drop (fo + k) (chain_bytes ?b ?m fs)) @ drop (ot + n) (chain_bytes ?b ?m ts)"
    "\<And>x. x \<notin> areas ?b ts1 \<or> ts1 \<noteq> [] \<and> pb_payload (?b p1) \<le> x \<and> x < pb_payload (?b p1) + o1 \<Longrightarrow> m' x = ps_bytes s1 x" by blast
  have fixed: "m' x = ps_bytes s1 x" if "pb_payload (?b pt) \<le> x" "x < pb_payload (?b pt) + ot + k" for x
  proof (cases "ot + k \<ge> pb_len (?b pt)")
    case True
    then have ts1: "ts1 = ts'" using adv(1) by (simp add: advance_def tf)
    have "x \<in> area ?b pt" using that k(2) by (simp add: area_def)
    then have "x \<notin> areas ?b ts1" using less.prems(5) by (auto simp: tf(1) ts1)
    then show ?thesis using m'(3) by blast
  next
    case False
    then have "ts1 = ts" "o1 = ot + k" "p1 = pt" using adv(1) by (simp_all add: advance_def tf p1_def)
    then show ?thesis using m'(3) that less.prems(7) by simp
  qed
  have "drop ot (chain_bytes ?b m' ts) = mem_read (pb_payload (?b pt) + ot) k m' @ drop (ot + k) (chain_bytes ?b m' ts)"
    using k(2) by (intro nth_equalityI) (auto simp: tf nth_append add.assoc)
  also have "drop (ot + k) (chain_bytes ?b m' ts) = drop o1 (chain_bytes ?b m' ts1)" using A1(2) by simp
  also have "mem_read (pb_payload (?b pt) + ot) k m' = take k (drop fo (chain_bytes ?b ?m fs))"
    unfolding sl [symmetric] by (intro mem_read_same fixed) auto
  finally have "drop ot (chain_bytes ?b m' ts) = take n (drop fo (chain_bytes ?b ?m fs)) @ drop (ot + n) (chain_bytes ?b ?m ts)"
    using k(1) m'(2) take_add [of k "n - k" "drop fo (chain_bytes ?b ?m fs)"] by (simp add: add.commute)
  moreover have "m' x = ?m x" if "x \<notin> areas ?b ts \<or> pb_payload (?b pt) \<le> x \<and> x < pb_payload (?b pt) + ot" for x
  proof -
    have "m' x = ps_bytes s1 x" using that m'(3) A1(6) fixed [of x] by auto
    moreover have "ps_bytes s1 x = ?m x" using that k(2) by (intro out) (auto simp: tf area_def)
    ultimately show ?thesis by simp
  qed
  ultimately show ?case using m'(1) by blast
qed

text \<open>The first offset is taken in the first buffer; when it lies in a later one, the copy runs beyond the first and the program stops.\<close>

lemma copy_beyond_first_stops:
  assumes "packet (ps_pbufs s) pt ts" and "pt \<noteq> 0" and "pb_len (ps_pbufs s pt) < off" and "off + n \<le> chain_len (ps_pbufs s) ts"
    and "pf \<noteq> 0" and "n \<le> pb_tot_len (ps_pbufs s pf)"
  shows "pbuf_copy_partial_pbuf pt pf n off s = None"
proof -
  have "pb_tot_len (ps_pbufs s pt) = chain_len (ps_pbufs s) ts" using assms(1,2) by (cases ts) auto
  moreover have "copy_chain pt off pf 0 n s = None" using assms(3) by (subst copy_chain.simps) (simp add: memcpy_def Let_def)
  ultimately show ?thesis using assms(2,4-6) by (simp add: pbuf_copy_partial_pbuf_def)
qed

lemma pbuf_copy_ok:
  assumes "packet (ps_pbufs s) pt ts" and "packet (ps_pbufs s) pf fs" and "\<forall>q \<in> set ts. 0 < pb_len (ps_pbufs s q)" and "\<forall>q \<in> set fs. 0 < pb_len (ps_pbufs s q)"
    and "apart (ps_pbufs s) ts" and "areas (ps_pbufs s) ts \<inter> areas (ps_pbufs s) fs = {}" and "pt \<noteq> 0" and "pf \<noteq> 0"
    and "chain_len (ps_pbufs s) fs \<le> chain_len (ps_pbufs s) ts" and "chain_len (ps_pbufs s) ts < 65536"
  shows "\<exists>m'. pbuf_copy pt pf s = Some (ERR_OK, s\<lparr>ps_bytes := m'\<rparr>) \<and>
    chain_bytes (ps_pbufs s) m' ts = chain_bytes (ps_pbufs s) (ps_bytes s) fs @
      drop (chain_len (ps_pbufs s) fs) (chain_bytes (ps_pbufs s) (ps_bytes s) ts) \<and>
    (\<forall>x. x \<notin> areas (ps_pbufs s) ts \<longrightarrow> m' x = ps_bytes s x)"
proof -
  let ?b = "ps_pbufs s"
  obtain ts' fs' where tf: "ts = pt # ts'" "fs = pf # fs'" using assms(1,2,7,8) by (cases ts; cases fs; auto)
  have t: "pb_tot_len (?b pt) = chain_len ?b ts" "pb_tot_len (?b pf) = chain_len ?b fs" using assms(1,2) by (simp_all add: tf)
  have "pbuf_copy pt pf s = copy_chain pt 0 pf 0 (chain_len ?b fs) s"
    using assms(7,8,9) t by (simp add: pbuf_copy_def pbuf_copy_partial_pbuf_def)
  moreover have "\<exists>m'. copy_chain pt 0 pf 0 (chain_len ?b fs) s = Some (ERR_OK, s\<lparr>ps_bytes := m'\<rparr>) \<and>
    drop 0 (chain_bytes ?b m' ts) = take (chain_len ?b fs) (drop 0 (chain_bytes ?b (ps_bytes s) fs)) @ drop (0 + chain_len ?b fs) (chain_bytes ?b (ps_bytes s) ts) \<and>
    (\<forall>x. x \<notin> areas ?b ts \<or> pb_payload (?b pt) \<le> x \<and> x < pb_payload (?b pt) + 0 \<longrightarrow> m' x = ps_bytes s x)"
    using assms(3,4,9,10) by (intro copy_chain_ok assms(1,2,3,4,5,6)) (auto simp: tf)
  ultimately show ?thesis by auto
qed

section \<open>Packets are strings\<close>

text \<open>
  C31: A packet is a string of bytes, however it is cut into buffers. What \<^verbatim>\<open>pbuf_take_at\<close> writes at an offset replaces exactly that
  slice of the string, across the borders of the buffers, and \<^verbatim>\<open>pbuf_copy_partial\<close> then reads any slice of the new string and
  \<^verbatim>\<open>pbuf_get_at\<close> any byte of it; beyond the end they read nothing and zero.
\<close>

theorem pbuf_write_read:
  assumes "packet (ps_pbufs s) p qs" and "apart (ps_pbufs s) qs" and "chain_len (ps_pbufs s) qs < 65536"
    and "0 < n" and "off + n \<le> chain_len (ps_pbufs s) qs" and "a \<noteq> 0" and "areas (ps_pbufs s) qs \<inter> {a ..< a + n} = {}"
    and "i < 65536" and "k < 65536" and "c \<noteq> 0" and "areas (ps_pbufs s) qs \<inter> {c ..< c + k} = {}"
    and "D = take off (chain_bytes (ps_pbufs s) (ps_bytes s) qs) @ mem_read a n (ps_bytes s) @ drop (off + n) (chain_bytes (ps_pbufs s) (ps_bytes s) qs)"
  shows "\<exists>s1 s2. pbuf_take_at p a n off s = Some (ERR_OK, s1) \<and> pbuf_copy_partial p c k i s1 = Some (min k (length D - i), s2) \<and>
    mem_read c (min k (length D - i)) (ps_bytes s2) = take k (drop i D) \<and>
    (\<forall>j < 65536. pbuf_get_at p j s1 = Some (if j < length D then D ! j else 0))"
proof -
  let ?b = "ps_pbufs s"
  obtain m' where m': "pbuf_take_at p a n off s = Some (ERR_OK, s\<lparr>ps_bytes := m'\<rparr>)" "chain_bytes ?b m' qs = D"
    using pbuf_take_at_ok [OF assms(1,2,5,4,3,6,7)] assms(12) by auto
  have L: "chain_len ?b qs = length D" using m'(2) length_chain_bytes [of ?b m' qs] by simp
  let ?s = "s\<lparr>ps_bytes := m'\<rparr>"
  have p: "packet (ps_pbufs ?s) p qs" "chain_len (ps_pbufs ?s) qs < 65536" "p \<noteq> 0" using assms(1,3,4,5) by (cases qs; simp)+
  have c: "pbuf_copy_partial p c k i ?s = Some (min k (length D - i), ?s\<lparr>ps_bytes := mem_write c (take k (drop i D)) m'\<rparr>)"
    using pbuf_copy_partial_ok [OF p(1,2) assms(8,9) p(3) assms(10)] assms(11) m'(2) L by simp
  have "mem_read c (min k (length D - i)) (mem_write c (take k (drop i D)) m') = take k (drop i D)"
    using mem_read_write_same [of c "take k (drop i D)" m'] by (simp add: min.commute)
  moreover have "\<forall>j < 65536. pbuf_get_at p j ?s = Some (if j < length D then D ! j else 0)"
    using pbuf_get_at_ok [OF p(1)] m'(2) L by simp
  ultimately show ?thesis using m'(1) c by auto
qed

text \<open>
  C33: Searching a packet. \<^verbatim>\<open>pbuf_memfind\<close> returns the first place from the start offset on at which the block occurs in the bytes of
  the packet, also across the borders of buffers, and 65535 exactly when there is none.
\<close>

theorem pbuf_memfind_first:
  assumes "packet (ps_pbufs s) p qs" and "chain_len (ps_pbufs s) qs < 65535" and "p \<noteq> 0" and "n < 65536"
    and "d = chain_bytes (ps_pbufs s) (ps_bytes s) qs" and "x = mem_read a n (ps_bytes s)"
  shows "\<exists>r. pbuf_memfind p a n i s = Some r \<and>
    (if r = 0xFFFF then \<forall>j \<ge> i. \<not> occurs d x j else i \<le> r \<and> occurs d x r \<and> (\<forall>j. i \<le> j \<and> j < r \<longrightarrow> \<not> occurs d x j))"
  using pbuf_memfind_ok [OF assms(1-4), of a i] unfolding assms(5,6) first_from_def .

text \<open>
  C32: Copying a packet. For packets without empty buffers in disjoint memory, \<^verbatim>\<open>pbuf_copy\<close> to one that is long enough succeeds,
  however the two are cut: the target starts with the bytes of the source and keeps the rest of its own, and nothing outside
  its buffers changes.
\<close>

theorem pbuf_copy_exact:
  assumes "packet (ps_pbufs s) pt ts" and "packet (ps_pbufs s) pf fs" and "\<forall>q \<in> set ts. 0 < pb_len (ps_pbufs s q)" and "\<forall>q \<in> set fs. 0 < pb_len (ps_pbufs s q)"
    and "apart (ps_pbufs s) ts" and "areas (ps_pbufs s) ts \<inter> areas (ps_pbufs s) fs = {}" and "pt \<noteq> 0" and "pf \<noteq> 0"
    and "chain_len (ps_pbufs s) fs \<le> chain_len (ps_pbufs s) ts" and "chain_len (ps_pbufs s) ts < 65536"
  shows "\<exists>m'. pbuf_copy pt pf s = Some (ERR_OK, s\<lparr>ps_bytes := m'\<rparr>) \<and>
    chain_bytes (ps_pbufs s) m' ts = chain_bytes (ps_pbufs s) (ps_bytes s) fs @
      drop (chain_len (ps_pbufs s) fs) (chain_bytes (ps_pbufs s) (ps_bytes s) ts) \<and>
    (\<forall>x. x \<notin> areas (ps_pbufs s) ts \<longrightarrow> m' x = ps_bytes s x)"
  by (rule pbuf_copy_ok [OF assms])

text \<open>A packet of two buffers and one of one.\<close>

definition sample_buffer :: "nat \<Rightarrow> nat \<Rightarrow> nat \<Rightarrow> nat \<Rightarrow> pbuf" where
  "sample_buffer nx payload tot len = \<lparr>pb_next = nx, pb_payload = payload, pb_tot_len = tot, pb_len = len, pb_type = 1, pb_flags = 0, pb_ref = 1, pb_if_idx = 0\<rparr>"

definition sample_store :: pbuf_store where
  "sample_store = \<lparr>ps_pbufs = (\<lambda>p. if p = 100 then sample_buffer 116 1000 5 3 else if p = 116 then sample_buffer 0 2000 2 2 else sample_buffer 0 3000 6 6),
     ps_bytes = (\<lambda>a. of_nat a), ps_heap = busy_heap, ps_structs = LWIP_MEMPOOL_DECLARE 15 16 80 (\<lambda>_. 0), ps_pool = LWIP_MEMPOOL_DECLARE 5 1532 10000 (\<lambda>_. 0)\<rparr>"

lemma sample_packets:
  "packet (ps_pbufs sample_store) 100 [100, 116]" "packet (ps_pbufs sample_store) 132 [132]" "apart (ps_pbufs sample_store) [100, 116]"
  "chain_len (ps_pbufs sample_store) [100, 116] = 5" "chain_len (ps_pbufs sample_store) [132] = 6"
  "areas (ps_pbufs sample_store) [100, 116] = {1000 ..< 1003} \<union> {2000 ..< 2002}" "areas (ps_pbufs sample_store) [132] = {3000 ..< 3006}"
  "\<forall>q \<in> set [100, 116, 132]. 0 < pb_len (ps_pbufs sample_store q)"
  by (auto simp: sample_store_def sample_buffer_def area_def)

theorem pbuf_write_read_witness:
  "\<exists>s1 s2 k. pbuf_take_at 100 5000 3 1 sample_store = Some (ERR_OK, s1) \<and> pbuf_copy_partial 100 6000 4 2 s1 = Some (k, s2)"
proof -
  have d: "areas (ps_pbufs sample_store) [100, 116] \<inter> {5000 ..< 5000 + 3} = {}" "areas (ps_pbufs sample_store) [100, 116] \<inter> {6000 ..< 6000 + 4} = {}"
    unfolding sample_packets by auto
  have "chain_len (ps_pbufs sample_store) [100, 116] < 65536" "(0 :: nat) < 3" "1 + 3 \<le> chain_len (ps_pbufs sample_store) [100, 116]"
    "(5000 :: nat) \<noteq> 0" "(2 :: nat) < 65536" "(4 :: nat) < 65536" "(6000 :: nat) \<noteq> 0" unfolding sample_packets(4) by simp_all
  note f = this
  show ?thesis using pbuf_write_read [OF sample_packets(1,3) f(1,2,3,4) d(1) f(5,6,7) d(2) refl] by blast
qed

theorem pbuf_memfind_first_witness:
  "\<exists>r. pbuf_memfind 100 5000 2 1 sample_store = Some r"
proof -
  have "chain_len (ps_pbufs sample_store) [100, 116] < 65535" "(100 :: nat) \<noteq> 0" "(2 :: nat) < 65536" unfolding sample_packets(4) by simp_all
  from pbuf_memfind_first [OF sample_packets(1) this refl refl, of 5000 1] show ?thesis by blast
qed

theorem pbuf_copy_exact_witness:
  "\<exists>m'. pbuf_copy 132 100 sample_store = Some (ERR_OK, sample_store\<lparr>ps_bytes := m'\<rparr>)"
proof -
  have "areas (ps_pbufs sample_store) [132] \<inter> areas (ps_pbufs sample_store) [100, 116] = {}" unfolding sample_packets by auto
  moreover have "apart (ps_pbufs sample_store) [132]" by (simp add: areas_def)
  moreover have "chain_len (ps_pbufs sample_store) [100, 116] \<le> chain_len (ps_pbufs sample_store) [132]" "chain_len (ps_pbufs sample_store) [132] < 65536"
    unfolding sample_packets by simp_all
  moreover have "\<forall>q \<in> set [132]. 0 < pb_len (ps_pbufs sample_store q)" "\<forall>q \<in> set [100, 116]. 0 < pb_len (ps_pbufs sample_store q)"
    using sample_packets(8) by simp_all
  moreover have "(132 :: nat) \<noteq> 0" "(100 :: nat) \<noteq> 0" by simp_all
  ultimately show ?thesis using pbuf_copy_exact [OF sample_packets(2,1)] by blast
qed

end
