(* ===== verification/PbufRefs.thy ===== *)
theory PbufRefs
  imports Pbuf
begin

text \<open>
  The references to packet buffers: over runs of allocations, releases, chainings and separations the count of every live buffer is the number
  of pointers to it, so that no buffer is used after it was freed and none is lost. The live buffers are those that the heap and
  the two pools have handed out.
\<close>

unbundle bit_operations_syntax

section \<open>The memory of the buffers\<close>

definition alloc_src :: "(nat \<Rightarrow> pbuf) \<Rightarrow> u8 \<Rightarrow> nat set \<Rightarrow> bool" where
  "alloc_src b src X \<longleftrightarrow> (\<forall>x \<in> X. pbuf_get_allocsrc (b x) = src \<and> pb_flags (b x) AND PBUF_FLAG_IS_CUSTOM = 0)"

text \<open>The two pools and the heap do not overlap, and an element of the pool of buffers has room for a structure and its data.\<close>

definition memory_ok :: "pbuf_store \<Rightarrow> bool" where
  "memory_ok s \<longleftrightarrow> set (elements (ps_structs s)) \<inter> set (elements (ps_pool s)) = {} \<and>
     (set (elements (ps_structs s)) \<union> set (elements (ps_pool s))) \<inter> {ram (ps_heap s) .. ram (ps_heap s) + MEM_SIZE_ALIGNED} = {}"

text \<open>What the allocators have handed out: structures, buffers of the pool, and blocks of the heap.\<close>

definition pool_holds :: "memp_pool \<Rightarrow> nat set \<Rightarrow> bool" where
  "pool_holds m X \<longleftrightarrow> (\<exists>xs. X = set xs \<and> pool_ok m xs)"

definition heap_holds :: "lwip_heap \<Rightarrow> nat set \<Rightarrow> bool" where
  "heap_holds h X \<longleftrightarrow> (\<exists>held L. X = fst ` set held \<and> heap_ok h L \<and> held_ok h L held)"

definition pieces :: "pbuf_store \<Rightarrow> nat set \<Rightarrow> nat set \<Rightarrow> nat set \<Rightarrow> bool" where
  "pieces s A B C \<longleftrightarrow> memory_ok s \<and>
     pool_holds (ps_structs s) A \<and> alloc_src (ps_pbufs s) PBUF_TYPE_ALLOC_SRC_MASK_STD_MEMP_PBUF A \<and>
     pool_holds (ps_pool s) B \<and> alloc_src (ps_pbufs s) PBUF_TYPE_ALLOC_SRC_MASK_STD_MEMP_PBUF_POOL B \<and>
     heap_holds (ps_heap s) C \<and> alloc_src (ps_pbufs s) PBUF_TYPE_ALLOC_SRC_MASK_STD_HEAP C"

definition allocated_bufs :: "pbuf_store \<Rightarrow> nat set \<Rightarrow> bool" where
  "allocated_bufs s V \<longleftrightarrow> (\<exists>A B C. V = A \<union> B \<union> C \<and> pieces s A B C)"

lemma allocatedI: "pieces s A B C \<Longrightarrow> V = A \<union> B \<union> C \<Longrightarrow> allocated_bufs s V"
  unfolding allocated_bufs_def by (intro exI conjI)

lemma alloc_src_cong:
  "(\<And>x. x \<in> X \<Longrightarrow> pb_type (b x) = pb_type (b' x) \<and> pb_flags (b x) = pb_flags (b' x)) \<Longrightarrow> alloc_src b src X \<longleftrightarrow> alloc_src b' src X"
  by (simp add: alloc_src_def pbuf_get_allocsrc_def)

lemma alloc_src_insertI: "alloc_src b src X \<Longrightarrow> pbuf_get_allocsrc (b x) = src \<Longrightarrow> pb_flags (b x) = 0 \<Longrightarrow> alloc_src b src (insert x X)"
  by (auto simp: alloc_src_def)

lemma alloc_src_subset: "alloc_src b src X \<Longrightarrow> Y \<subseteq> X \<Longrightarrow> alloc_src b src Y"
  by (auto simp: alloc_src_def)

lemma pool_live: "pool_ok p xs \<Longrightarrow> x \<in> set xs \<Longrightarrow> x \<in> set (elements p) \<and> x \<noteq> 0 \<and> x mod MEM_ALIGNMENT = 0"
  using elements_ok(2) [of p x] by (auto simp: pool_ok_def)

lemma held_range: "held_ok h L held \<Longrightarrow> heap_ok h L \<Longrightarrow> x \<in> fst ` set held \<Longrightarrow> x \<in> {ram h .. ram h + MEM_SIZE_ALIGNED} \<and> x \<noteq> 0"
  using held_inside [of h L held] lwip_heap_okD [of h L] by (fastforce simp: in_set_conv_nth held_ok_def backed_def)

lemma piecesD:
  assumes "pieces s A B C"
  shows "A \<subseteq> set (elements (ps_structs s))" "B \<subseteq> set (elements (ps_pool s))" "C \<subseteq> {ram (ps_heap s) .. ram (ps_heap s) + MEM_SIZE_ALIGNED}"
    "A \<inter> B = {}" "A \<inter> C = {}" "B \<inter> C = {}" "0 \<notin> A \<union> B \<union> C" "finite (A \<union> B \<union> C)"
proof -
  show sub: "A \<subseteq> set (elements (ps_structs s))" "B \<subseteq> set (elements (ps_pool s))" "C \<subseteq> {ram (ps_heap s) .. ram (ps_heap s) + MEM_SIZE_ALIGNED}"
    using assms pool_live held_range unfolding pieces_def pool_holds_def heap_holds_def by blast+
  show "0 \<notin> A \<union> B \<union> C" using assms pool_live held_range unfolding pieces_def pool_holds_def heap_holds_def by blast
  show "finite (A \<union> B \<union> C)" using assms by (auto simp: pieces_def pool_holds_def heap_holds_def)
  have "memory_ok s" using assms by (simp add: pieces_def)
  then show "A \<inter> B = {}" "A \<inter> C = {}" "B \<inter> C = {}" using sub unfolding memory_ok_def by blast+
qed

lemma allocated_nonzero: "allocated_bufs s V \<Longrightarrow> 0 \<notin> V" "allocated_bufs s V \<Longrightarrow> finite V"
  using piecesD(7,8) unfolding allocated_bufs_def by blast+

text \<open>Only the types of the buffers matter for where they came from.\<close>

lemma types_cong:
  assumes "\<And>x. x \<in> A \<union> B \<union> C \<Longrightarrow> pb_type (b' x) = pb_type (b x) \<and> pb_flags (b' x) = pb_flags (b x)"
  shows "alloc_src b' src A \<longleftrightarrow> alloc_src b src A" "alloc_src b' src B \<longleftrightarrow> alloc_src b src B" "alloc_src b' src C \<longleftrightarrow> alloc_src b src C"
  using assms by (intro alloc_src_cong; simp)+

definition same_types :: "nat set \<Rightarrow> pbuf_store \<Rightarrow> pbuf_store \<Rightarrow> bool" where
  "same_types V s' s \<longleftrightarrow> (\<forall>x \<in> V. pb_type (ps_pbufs s' x) = pb_type (ps_pbufs s x) \<and> pb_flags (ps_pbufs s' x) = pb_flags (ps_pbufs s x))"

lemma same_types_cong:
  "same_types (A \<union> B \<union> C) s' s \<Longrightarrow> alloc_src (ps_pbufs s') src A \<longleftrightarrow> alloc_src (ps_pbufs s) src A"
  "same_types (A \<union> B \<union> C) s' s \<Longrightarrow> alloc_src (ps_pbufs s') src B \<longleftrightarrow> alloc_src (ps_pbufs s) src B"
  "same_types (A \<union> B \<union> C) s' s \<Longrightarrow> alloc_src (ps_pbufs s') src C \<longleftrightarrow> alloc_src (ps_pbufs s) src C"
  by (intro alloc_src_cong; simp add: same_types_def)+

lemma allocated_cong:
  assumes "allocated_bufs s V" and "same_types V s' s" and "ps_heap s' = ps_heap s" and "ps_structs s' = ps_structs s" and "ps_pool s' = ps_pool s"
  shows "allocated_bufs s' V"
proof -
  obtain A B C where V: "V = A \<union> B \<union> C" "pieces s A B C" using assms(1) unfolding allocated_bufs_def by blast
  have "pieces s' A B C" using V(2) assms(3-5) same_types_cong [OF assms(2) [unfolded V(1)]] by (simp add: pieces_def memory_ok_def)
  then show ?thesis using V(1) by (rule allocatedI)
qed

text \<open>A new structure, from each of the three sources.\<close>

lemma new_struct:
  assumes "allocated_bufs s V"
  obtains p m where "do_memp_malloc_pool (ps_structs s) = Some (p, m)" "p = 0 \<Longrightarrow> m = ps_structs s" "p \<noteq> 0 \<Longrightarrow> p \<notin> V"
    "\<And>s'. p \<noteq> 0 \<Longrightarrow> ps_heap s' = ps_heap s \<Longrightarrow> ps_structs s' = m \<Longrightarrow> ps_pool s' = ps_pool s \<Longrightarrow> same_types V s' s \<Longrightarrow>
      pbuf_get_allocsrc (ps_pbufs s' p) = PBUF_TYPE_ALLOC_SRC_MASK_STD_MEMP_PBUF \<Longrightarrow> pb_flags (ps_pbufs s' p) = 0 \<Longrightarrow> allocated_bufs s' (insert p V)"
proof -
  obtain A B C where V: "V = A \<union> B \<union> C" "pieces s A B C" using assms unfolding allocated_bufs_def by blast
  then obtain xs where xs: "A = set xs" "pool_ok (ps_structs s) xs" by (auto simp: pieces_def pool_holds_def heap_holds_def)
  obtain p m where p: "do_memp_malloc_pool (ps_structs s) = Some (p, m)" "elements m = elements (ps_structs s)"
    "if p = 0 then m = ps_structs s \<and> set xs = set (elements (ps_structs s))
     else p \<in> set (elements (ps_structs s)) \<and> p \<notin> set xs \<and> pool_ok m (p # xs)"
    using malloc_ok [OF xs(2)] by blast
  have mem: "memory_ok s" using V(2) by (simp add: pieces_def)
  have new: "p \<notin> V" if "p \<noteq> 0"
    using that p(3) mem piecesD(2,3) [OF V(2)] unfolding V(1) xs(1) memory_ok_def by (simp only: if_False) blast
  show ?thesis
  proof (rule that [OF p(1)])
    fix s' assume s': "p \<noteq> 0" "ps_heap s' = ps_heap s" "ps_structs s' = m" "ps_pool s' = ps_pool s" "same_types V s' s"
      "pbuf_get_allocsrc (ps_pbufs s' p) = PBUF_TYPE_ALLOC_SRC_MASK_STD_MEMP_PBUF" "pb_flags (ps_pbufs s' p) = 0"
    have "pool_ok m (p # xs)" using s'(1) p(3) by simp
    then have "pool_holds (ps_structs s') (insert p A)" unfolding pool_holds_def using s'(3) xs(1) by (intro exI [of _ "p # xs"]) simp
    moreover have "memory_ok s'" using mem s' p(2) by (simp add: memory_ok_def)
    moreover have fits: "alloc_src (ps_pbufs s') PBUF_TYPE_ALLOC_SRC_MASK_STD_MEMP_PBUF (insert p A)"
      using s'(6,7) same_types_cong(1) [OF s'(5) [unfolded V(1)]] V(2) by (intro alloc_src_insertI) (simp_all add: pieces_def)
    ultimately have "pieces s' (insert p A) B C"
      using V(2) unfolding pieces_def s'(2-4) same_types_cong [OF s'(5) [unfolded V(1)]] by (elim conjE) (intro conjI; assumption)
    then show "allocated_bufs s' (insert p V)" by (rule allocatedI) (simp add: V(1))
  qed (use p new in \<open>simp_all split: if_splits\<close>)
qed

lemma new_buf:
  assumes "allocated_bufs s V"
  obtains p m where "do_memp_malloc_pool (ps_pool s) = Some (p, m)" "p = 0 \<Longrightarrow> m = ps_pool s" "p \<noteq> 0 \<Longrightarrow> p \<notin> V" "p \<noteq> 0 \<Longrightarrow> p mod MEM_ALIGNMENT = 0"
    "\<And>s'. p \<noteq> 0 \<Longrightarrow> ps_heap s' = ps_heap s \<Longrightarrow> ps_structs s' = ps_structs s \<Longrightarrow> ps_pool s' = m \<Longrightarrow> same_types V s' s \<Longrightarrow>
      pbuf_get_allocsrc (ps_pbufs s' p) = PBUF_TYPE_ALLOC_SRC_MASK_STD_MEMP_PBUF_POOL \<Longrightarrow> pb_flags (ps_pbufs s' p) = 0 \<Longrightarrow> allocated_bufs s' (insert p V)"
proof -
  obtain A B C where V: "V = A \<union> B \<union> C" "pieces s A B C" using assms unfolding allocated_bufs_def by blast
  then obtain xs where xs: "B = set xs" "pool_ok (ps_pool s) xs" by (auto simp: pieces_def pool_holds_def heap_holds_def)
  obtain p m where p: "do_memp_malloc_pool (ps_pool s) = Some (p, m)" "elements m = elements (ps_pool s)"
    "if p = 0 then m = ps_pool s \<and> set xs = set (elements (ps_pool s))
     else p \<in> set (elements (ps_pool s)) \<and> p \<notin> set xs \<and> pool_ok m (p # xs)"
    using malloc_ok [OF xs(2)] by blast
  have mem: "memory_ok s" using V(2) by (simp add: pieces_def)
  have new: "p \<notin> V" if "p \<noteq> 0"
    using that p(3) mem piecesD(1,3) [OF V(2)] unfolding V(1) xs(1) memory_ok_def by (simp only: if_False) blast
  have al: "p mod MEM_ALIGNMENT = 0" if "p \<noteq> 0" 
  proof -
    have "pool_ok m (p # xs)" using that p(3) by simp
    then show ?thesis using pool_live [of m "p # xs" p] by simp
  qed
  show ?thesis
  proof (rule that [OF p(1)])
    fix s' assume s': "p \<noteq> 0" "ps_heap s' = ps_heap s" "ps_structs s' = ps_structs s" "ps_pool s' = m" "same_types V s' s"
      "pbuf_get_allocsrc (ps_pbufs s' p) = PBUF_TYPE_ALLOC_SRC_MASK_STD_MEMP_PBUF_POOL" "pb_flags (ps_pbufs s' p) = 0"
    have "pool_ok m (p # xs)" using s'(1) p(3) by simp
    then have "pool_holds (ps_pool s') (insert p B)" unfolding pool_holds_def using s'(4) xs(1) by (intro exI [of _ "p # xs"]) simp
    moreover have "memory_ok s'" using mem s' p(2) by (simp add: memory_ok_def)
    moreover have fits: "alloc_src (ps_pbufs s') PBUF_TYPE_ALLOC_SRC_MASK_STD_MEMP_PBUF_POOL (insert p B)"
      using s'(6,7) same_types_cong(2) [OF s'(5) [unfolded V(1)]] V(2) by (intro alloc_src_insertI) (simp_all add: pieces_def)
    ultimately have "pieces s' A (insert p B) C"
      using V(2) unfolding pieces_def s'(2-4) same_types_cong [OF s'(5) [unfolded V(1)]] by (elim conjE) (intro conjI; assumption)
    then show "allocated_bufs s' (insert p V)" by (rule allocatedI) (simp add: V(1))
  qed (use p new al in \<open>simp_all split: if_splits\<close>)
qed

lemma new_block:
  assumes "allocated_bufs s V" and "n < 65536"
  obtains p ws h where "mem_malloc n [] (ps_heap s) = Some (p, ws, h)" "p = 0 \<Longrightarrow> allocated_bufs (s\<lparr>ps_heap := h\<rparr>) V"
    "p \<noteq> 0 \<Longrightarrow> p \<notin> V" "p \<noteq> 0 \<Longrightarrow> p mod MEM_ALIGNMENT = 0"
    "\<And>s'. p \<noteq> 0 \<Longrightarrow> ps_heap s' = h \<Longrightarrow> ps_structs s' = ps_structs s \<Longrightarrow> ps_pool s' = ps_pool s \<Longrightarrow> same_types V s' s \<Longrightarrow>
      pbuf_get_allocsrc (ps_pbufs s' p) = PBUF_TYPE_ALLOC_SRC_MASK_STD_HEAP \<Longrightarrow> pb_flags (ps_pbufs s' p) = 0 \<Longrightarrow> allocated_bufs s' (insert p V)"
proof -
  obtain A B C where V: "V = A \<union> B \<union> C" "pieces s A B C" using assms unfolding allocated_bufs_def by blast
  then obtain held L where hl: "C = fst ` set held" "heap_ok (ps_heap s) L" "held_ok (ps_heap s) L held" by (auto simp: pieces_def pool_holds_def heap_holds_def)
  have mem: "memory_ok s" using V(2) by (simp add: pieces_def)
  obtain p ws h where m: "mem_malloc n [] (ps_heap s) = Some (p, ws, h)" "ram h = ram (ps_heap s)"
  proof (cases "n = 0 \<or> MEM_SIZE_ALIGNED < n")
    case True
    then show ?thesis using that mem_malloc_too_large [of n "[]" "ps_heap s"] assms(2) by auto
  next
    case False
    have "may_free (ram (ps_heap s)) (concat []) L" by (simp add: may_free_def)
    from mem_malloc_ok [OF hl(2) this, of n] False show ?thesis using that by (auto split: if_splits)
  qed
  obtain h' held' L' where r: "heap_step (Malloc n) (ps_heap s, held) = Some (h', held')" "heap_ok h' L'" "held_ok h' L' held'"
    using malloc_step_ok [OF hl(2,3) assms(2)] by blast
  have h': "h' = h" "held' = (if p = 0 then held else held @ [(p, n)])" using r(1) m(1) by auto
  have p: "p \<notin> C \<and> p \<in> {ram h .. ram h + MEM_SIZE_ALIGNED} \<and> p mod MEM_ALIGNMENT = 0" if "p \<noteq> 0"
  proof -
    have "held' = held @ [(p, n)]" using h' that by simp
    then have "p \<in> fst ` set held'" "distinct (map fst (held @ [(p, n)]))" "held' ! length held = (p, n)" "length held < length held'"
      using r(3) by (auto simp: held_ok_def)
    then show ?thesis using held_range [OF r(3,2)] held_inside [OF r(2,3), of "length held"] h'(1) by (auto simp: hl(1))
  qed
  have new: "p \<notin> V" if "p \<noteq> 0"
  proof -
    have "p \<notin> A" "p \<notin> B" using p [OF that] mem piecesD(1,2) [OF V(2)] m(2) unfolding memory_ok_def by (metis IntI UnI1 UnI2 empty_iff subsetD)+
    then show ?thesis using p [OF that] V(1) by simp
  qed
  show ?thesis
  proof (rule that [OF m(1)])
    assume "p = 0"
    then have "held_ok h L' held" "heap_ok h L'" using r(2,3) h' by simp_all
    moreover have "memory_ok (s\<lparr>ps_heap := h\<rparr>)" using mem m(2) by (simp add: memory_ok_def)
    moreover have "heap_holds h C" using calculation hl(1) unfolding heap_holds_def by blast
    ultimately have "pieces (s\<lparr>ps_heap := h\<rparr>) A B C" using V(2) unfolding pieces_def by simp
    then show "allocated_bufs (s\<lparr>ps_heap := h\<rparr>) V" using V(1) by (rule allocatedI)
  next
    fix s' assume s': "p \<noteq> 0" "ps_heap s' = h" "ps_structs s' = ps_structs s" "ps_pool s' = ps_pool s" "same_types V s' s"
      "pbuf_get_allocsrc (ps_pbufs s' p) = PBUF_TYPE_ALLOC_SRC_MASK_STD_HEAP" "pb_flags (ps_pbufs s' p) = 0"
    have "heap_ok h L'" "held_ok h L' (held @ [(p, n)])" using r(2,3) h' s'(1) by simp_all
    then have "heap_holds (ps_heap s') (insert p C)" unfolding heap_holds_def
      using s'(2) hl(1) by (intro exI [of _ "held @ [(p, n)]"] exI [of _ L']) simp
    moreover have "memory_ok s'" using mem s' m(2) by (simp add: memory_ok_def)
    moreover have fits: "alloc_src (ps_pbufs s') PBUF_TYPE_ALLOC_SRC_MASK_STD_HEAP (insert p C)"
      using s'(6,7) same_types_cong(3) [OF s'(5) [unfolded V(1)]] V(2) by (intro alloc_src_insertI) (simp_all add: pieces_def)
    ultimately have "pieces s' A B (insert p C)"
      using V(2) unfolding pieces_def s'(2-4) same_types_cong [OF s'(5) [unfolded V(1)]] by (elim conjE) (intro conjI; assumption)
    then show "allocated_bufs s' (insert p V)" by (rule allocatedI) (simp add: V(1))
  qed (use p new in auto)
qed

text \<open>Giving a structure back to where it came from.\<close>

lemma free_element:
  assumes "pool_holds m X" and "x \<in> X"
  obtains m' where "memp_free_pool x m = Some m'" "elements m' = elements m" "pool_holds m' (X - {x})"
proof -
  obtain xs where xs: "X = set xs" "pool_ok m xs" using assms(1) unfolding pool_holds_def by blast
  obtain m' where m': "memp_free_pool x m = Some m'" "elements m' = elements m" "pool_ok m' (remove1 x xs)"
    using free_ok [OF xs(2), of x] assms(2) xs(1) by blast
  have "distinct xs" using xs(2) by (auto simp: pool_ok_def)
  then have "pool_holds m' (X - {x})" using m'(3) xs(1) unfolding pool_holds_def by (intro exI [of _ "remove1 x xs"]) simp
  then show ?thesis using that m' by blast
qed

lemma free_block:
  assumes "heap_holds h X" and "x \<in> X"
  obtains h' where "mem_free x h = Some h'" "ram h' = ram h" "heap_holds h' (X - {x})"
proof -
  obtain held L where hl: "X = fst ` set held" "heap_ok h L" "held_ok h L held" using assms(1) unfolding heap_holds_def by blast
  obtain i where i: "i < length held" "fst (held ! i) = x" using assms(2) unfolding hl(1) by (auto simp: in_set_conv_nth)
  obtain A m B where L: "L = A @ (m, True) # B" "x = ram h + span A + 8" using held_block [OF hl(2,3) i(1)] i(2) by metis
  then obtain h' where h': "mem_free x h = Some h'" "ram h' = ram h" using mem_free_ok [of h A m B] hl(2) by auto
  obtain h2 held2 L2 where r: "heap_step (Release i) (h, held) = Some (h2, held2)" "heap_ok h2 L2" "held_ok h2 L2 held2"
    using release_step_ok [OF hl(2,3) i(1)] by blast
  have e: "h2 = h'" "held2 = take i held @ drop (Suc i) held" using r(1) h'(1) i by auto
  have "distinct (map fst held)" using hl(3) by (simp add: held_ok_def)
  from set_remove_nth(1) [OF this i(1)] have "fst ` set held2 = X - {x}" unfolding e(2) hl(1) i(2) by force
  then have "heap_holds h' (X - {x})" using r(2,3) e(1) unfolding heap_holds_def by blast
  then show ?thesis using that h' by blast
qed

lemma alloc_srcs_differ:
  "PBUF_TYPE_ALLOC_SRC_MASK_STD_MEMP_PBUF \<noteq> PBUF_TYPE_ALLOC_SRC_MASK_STD_MEMP_PBUF_POOL"
  "PBUF_TYPE_ALLOC_SRC_MASK_STD_HEAP \<noteq> PBUF_TYPE_ALLOC_SRC_MASK_STD_MEMP_PBUF_POOL"
  "PBUF_TYPE_ALLOC_SRC_MASK_STD_HEAP \<noteq> PBUF_TYPE_ALLOC_SRC_MASK_STD_MEMP_PBUF"
  by (simp_all add: PBUF_TYPE_ALLOC_SRC_MASK_STD_MEMP_PBUF_def PBUF_TYPE_ALLOC_SRC_MASK_STD_MEMP_PBUF_POOL_def PBUF_TYPE_ALLOC_SRC_MASK_STD_HEAP_def)

lemma release_pbuf_ok:
  assumes "allocated_bufs s V" and "x \<in> V"
  obtains s' where "release_pbuf custom x s = Some s'" "ps_pbufs s' = ps_pbufs s" "ps_bytes s' = ps_bytes s" "allocated_bufs s' (V - {x})"
proof -
  obtain A B C where V: "V = A \<union> B \<union> C" "pieces s A B C" using assms(1) unfolding allocated_bufs_def by blast
  note d = piecesD [OF V(2)]
  note v = V(2) [unfolded pieces_def]
  from assms(2) V(1) consider "x \<in> A" | "x \<in> B" | "x \<in> C" by blast
  then show ?thesis
  proof cases
    case 1
    then obtain m where m: "memp_free_pool x (ps_structs s) = Some m" "elements m = elements (ps_structs s)" "pool_holds m (A - {x})"
      using free_element v by blast
    have t: "pbuf_get_allocsrc (ps_pbufs s x) = PBUF_TYPE_ALLOC_SRC_MASK_STD_MEMP_PBUF" "pb_flags (ps_pbufs s x) AND PBUF_FLAG_IS_CUSTOM = 0"
      using v 1 by (auto simp: alloc_src_def)
    have "pieces (s\<lparr>ps_structs := m\<rparr>) (A - {x}) B C"
      using v m(2,3) alloc_src_subset [of "ps_pbufs s" _ A "A - {x}"] by (simp add: pieces_def memory_ok_def)
    then have "allocated_bufs (s\<lparr>ps_structs := m\<rparr>) (V - {x})" using 1 d(4,5) by (rule_tac allocatedI) (auto simp: V(1))
    moreover have "release_pbuf custom x s = Some (s\<lparr>ps_structs := m\<rparr>)" using t alloc_srcs_differ m(1) by (simp add: release_pbuf_def)
    ultimately show ?thesis using that by simp
  next
    case 2
    then obtain m where m: "memp_free_pool x (ps_pool s) = Some m" "elements m = elements (ps_pool s)" "pool_holds m (B - {x})"
      using free_element v by blast
    have t: "pbuf_get_allocsrc (ps_pbufs s x) = PBUF_TYPE_ALLOC_SRC_MASK_STD_MEMP_PBUF_POOL" "pb_flags (ps_pbufs s x) AND PBUF_FLAG_IS_CUSTOM = 0"
      using v 2 by (auto simp: alloc_src_def)
    have "pieces (s\<lparr>ps_pool := m\<rparr>) A (B - {x}) C"
      using v m(2,3) alloc_src_subset [of "ps_pbufs s" _ B "B - {x}"] by (simp add: pieces_def memory_ok_def)
    then have "allocated_bufs (s\<lparr>ps_pool := m\<rparr>) (V - {x})" using 2 d(4,6) by (rule_tac allocatedI) (auto simp: V(1))
    moreover have "release_pbuf custom x s = Some (s\<lparr>ps_pool := m\<rparr>)" using t m(1) by (simp add: release_pbuf_def)
    ultimately show ?thesis using that by simp
  next
    case 3
    then obtain h where h: "mem_free x (ps_heap s) = Some h" "ram h = ram (ps_heap s)" "heap_holds h (C - {x})"
      using free_block v by blast
    have t: "pbuf_get_allocsrc (ps_pbufs s x) = PBUF_TYPE_ALLOC_SRC_MASK_STD_HEAP" "pb_flags (ps_pbufs s x) AND PBUF_FLAG_IS_CUSTOM = 0"
      using v 3 by (auto simp: alloc_src_def)
    have "pieces (s\<lparr>ps_heap := h\<rparr>) A B (C - {x})"
      using v h(2,3) alloc_src_subset [of "ps_pbufs s" _ C "C - {x}"] by (simp add: pieces_def memory_ok_def)
    then have "allocated_bufs (s\<lparr>ps_heap := h\<rparr>) (V - {x})" using 3 d(5,6) by (rule_tac allocatedI) (auto simp: V(1))
    moreover have "release_pbuf custom x s = Some (s\<lparr>ps_heap := h\<rparr>)" using t alloc_srcs_differ h(1) by (simp add: release_pbuf_def)
    ultimately show ?thesis using that by simp
  qed
qed

section \<open>Counts and pointers\<close>

fun links :: "(nat \<Rightarrow> pbuf) \<Rightarrow> nat \<Rightarrow> nat list \<Rightarrow> bool" where
  "links b p [] \<longleftrightarrow> p = 0"
| "links b p (q # qs) \<longleftrightarrow> p = q \<and> q \<noteq> 0 \<and> links b (pb_next (b q)) qs"

definition inlinks :: "(nat \<Rightarrow> pbuf) \<Rightarrow> nat set \<Rightarrow> nat \<Rightarrow> nat" where
  "inlinks b V x = card {y \<in> V. pb_next (b y) = x}"

text \<open>Every live buffer is the start of a finite chain of live buffers, and its count is the number of the references that users hold and of
  the live buffers that point to it.\<close>

definition counted :: "(nat \<Rightarrow> pbuf) \<Rightarrow> nat set \<Rightarrow> nat list \<Rightarrow> bool" where
  "counted b V hs \<longleftrightarrow> set hs \<subseteq> V \<and> (\<forall>x \<in> V. pb_ref (b x) = count_list hs x + inlinks b V x \<and> 0 < pb_ref (b x) \<and> pb_ref (b x) < 256 \<and>
     (\<exists>qs. links b x qs \<and> set qs \<subseteq> V))"

text \<open>The total length of a buffer is its own length and the total length of the next one, a 16-bit number.\<close>

definition rest_len :: "(nat \<Rightarrow> pbuf) \<Rightarrow> nat \<Rightarrow> nat" where
  "rest_len b x = (if pb_next (b x) = 0 then 0 else pb_tot_len (b (pb_next (b x))))"

definition lengths_ok :: "(nat \<Rightarrow> pbuf) \<Rightarrow> nat set \<Rightarrow> bool" where
  "lengths_ok b V \<longleftrightarrow> (\<forall>x \<in> V. pb_tot_len (b x) = pb_len (b x) + rest_len b x \<and> pb_tot_len (b x) < 65536)"

lemma lengths_okD:
  assumes "lengths_ok b V" and "x \<in> V"
  shows "pb_tot_len (b x) = pb_len (b x) + rest_len b x" "pb_tot_len (b x) < 65536"
  using assms unfolding lengths_ok_def by blast+

lemma lengths_okI: "(\<And>x. x \<in> V \<Longrightarrow> pb_tot_len (b x) = pb_len (b x) + rest_len b x \<and> pb_tot_len (b x) < 65536) \<Longrightarrow> lengths_ok b V"
  unfolding lengths_ok_def by blast

lemma lengths_cong:
  assumes "lengths_ok b V" and "W \<subseteq> V"
    and "\<And>x. pb_len (b' x) = pb_len (b x) \<and> pb_tot_len (b' x) = pb_tot_len (b x) \<and> pb_next (b' x) = pb_next (b x)"
  shows "lengths_ok b' W"
proof (rule lengths_okI)
  fix x assume "x \<in> W"
  then have x: "x \<in> V" using assms(2) by blast
  have "rest_len b' x = rest_len b x" unfolding rest_len_def by (simp only: assms(3))
  then show "pb_tot_len (b' x) = pb_len (b' x) + rest_len b' x \<and> pb_tot_len (b' x) < 65536"
    using lengths_okD [OF assms(1) x] assms(3) [of x] by metis
qed

lemma lengths_same:
  assumes "lengths_ok b V" and "\<And>x. x \<in> V \<Longrightarrow> b' x = b x" and "\<And>x. x \<in> V \<Longrightarrow> pb_next (b x) \<noteq> 0 \<Longrightarrow> pb_next (b x) \<in> V"
  shows "lengths_ok b' V"
proof (rule lengths_okI)
  fix x assume x: "x \<in> V"
  have "rest_len b' x = rest_len b x" unfolding rest_len_def assms(2) [OF x] using assms(2,3) x by metis
  then show "pb_tot_len (b' x) = pb_len (b' x) + rest_len b' x \<and> pb_tot_len (b' x) < 65536"
    unfolding assms(2) [OF x] using lengths_okD [OF assms(1) x] by metis
qed

lemma in_nonzero: "x \<in> V \<Longrightarrow> 0 \<notin> V \<Longrightarrow> x \<noteq> (0 :: nat)"
  by metis

lemma counted_live: "counted b V hs \<Longrightarrow> x \<in> set hs \<Longrightarrow> x \<in> V"
  unfolding counted_def by blast

lemma countedD:
  assumes "counted b V hs" and "x \<in> V"
  shows "pb_ref (b x) = count_list hs x + inlinks b V x" "0 < pb_ref (b x)" "pb_ref (b x) < 256" "\<exists>qs. links b x qs \<and> set qs \<subseteq> V"
  using assms unfolding counted_def by blast+

lemma countedI:
  "set hs \<subseteq> V \<Longrightarrow> (\<And>x. x \<in> V \<Longrightarrow> pb_ref (b x) = count_list hs x + inlinks b V x) \<Longrightarrow> (\<And>x. x \<in> V \<Longrightarrow> 0 < pb_ref (b x)) \<Longrightarrow>
   (\<And>x. x \<in> V \<Longrightarrow> pb_ref (b x) < 256) \<Longrightarrow> (\<And>x. x \<in> V \<Longrightarrow> \<exists>qs. links b x qs \<and> set qs \<subseteq> V) \<Longrightarrow> counted b V hs"
  unfolding counted_def by blast

lemma links_cong: "(\<And>y. y \<in> set qs \<Longrightarrow> pb_next (b y) = pb_next (b' y)) \<Longrightarrow> links b p qs = links b' p qs"
  by (induction qs arbitrary: p) auto

lemma links_pred: "links b x qs \<Longrightarrow> p \<in> set qs \<Longrightarrow> p \<noteq> x \<Longrightarrow> \<exists>y \<in> set qs. pb_next (b y) = p"
proof (induction qs arbitrary: x)
  case (Cons q qs)
  then show ?case by (cases "p = pb_next (b q)") auto
qed simp

lemma next_live: "counted b V hs \<Longrightarrow> 0 \<notin> V \<Longrightarrow> x \<in> V \<Longrightarrow> pb_next (b x) \<noteq> 0 \<Longrightarrow> pb_next (b x) \<in> V"
proof -
  assume a: "counted b V hs" "0 \<notin> V" "x \<in> V" "pb_next (b x) \<noteq> 0"
  then have "x \<noteq> 0" by metis
  from a obtain qs where "links b x qs" "set qs \<subseteq> V" using countedD(4) by blast
  moreover then obtain r where "qs = x # r" using \<open>x \<noteq> 0\<close> by (cases qs) auto
  ultimately show ?thesis using a(4) by (cases r) auto
qed

lemma inlinks_cong: "(\<And>y. y \<in> V \<Longrightarrow> pb_next (b y) = pb_next (b' y)) \<Longrightarrow> inlinks b V x = inlinks b' V x"
  unfolding inlinks_def by (rule arg_cong [of _ _ card]) auto

lemma inlinks_insert:
  assumes "finite V" and "p \<notin> V"
  shows "inlinks b (insert p V) x = inlinks b V x + (if pb_next (b p) = x then 1 else 0)"
proof -
  have "{y \<in> insert p V. pb_next (b y) = x} = (if pb_next (b p) = x then insert p {y \<in> V. pb_next (b y) = x} else {y \<in> V. pb_next (b y) = x})" by auto
  then show ?thesis using assms by (simp add: inlinks_def)
qed

lemma inlinks_remove: "finite V \<Longrightarrow> p \<in> V \<Longrightarrow> inlinks b V x = inlinks b (V - {p}) x + (if pb_next (b p) = x then 1 else 0)"
  using inlinks_insert [of "V - {p}" p b x] by (simp add: insert_absorb)

lemma inlinks_zero: "finite V \<Longrightarrow> inlinks b V x = 0 \<longleftrightarrow> (\<forall>y \<in> V. pb_next (b y) \<noteq> x)"
  by (auto simp: inlinks_def)

lemma count_pos: "p \<in> set hs \<Longrightarrow> 0 < count_list hs p"
  using count_list_0_iff [of hs p] by simp

text \<open>A buffer with one reference is taken away: its link becomes a reference of the caller.\<close>

definition tail_ref :: "(nat \<Rightarrow> pbuf) \<Rightarrow> nat \<Rightarrow> nat list" where
  "tail_ref b p = (if pb_next (b p) = 0 then [] else [pb_next (b p)])"

lemma counted_pop:
  assumes "counted b V hs" and "finite V" and "0 \<notin> V" and "p \<in> set hs" and "pb_ref (b p) = 1" and "\<And>x. x \<in> V - {p} \<Longrightarrow> b' x = b x"
  shows "counted b' (V - {p}) (tail_ref b p @ remove1 p hs)"
proof -
  have p: "p \<in> V" using assms(1,4) by (auto simp: counted_def)
  have "count_list hs p \<noteq> 0" using assms(4) by (simp add: count_list_0_iff)
  then have one: "count_list hs p = 1" "inlinks b V p = 0" using countedD(1) [OF assms(1) p] assms(5) by simp_all
  then have none: "\<forall>y \<in> V. pb_next (b y) \<noteq> p" using assms(2) by (simp add: inlinks_zero)
  have "p \<notin> set (remove1 p hs)" using count_pos [OF assms(4)] one(1) count_list_0_iff [of "remove1 p hs" p] by simp
  then have sub: "set (tail_ref b p @ remove1 p hs) \<subseteq> V - {p}"
    using assms(1) next_live [OF assms(1,3) p] none p set_remove1_subset [of p hs] by (auto simp: tail_ref_def counted_def)
  show ?thesis
  proof (rule countedI [OF sub])
    fix x assume x: "x \<in> V - {p}"
    then have "x \<in> V" "x \<noteq> p" by simp_all
    then have xV: "x \<in> V" "x \<noteq> p" "x \<noteq> 0" using in_nonzero [OF \<open>x \<in> V\<close> assms(3)] by simp_all
    have "inlinks b' (V - {p}) x = inlinks b (V - {p}) x" using assms(6) by (intro inlinks_cong) simp
    then show "pb_ref (b' x) = count_list (tail_ref b p @ remove1 p hs) x + inlinks b' (V - {p}) x"
      using countedD(1) [OF assms(1) xV(1)] inlinks_remove [OF assms(2) p, of b x] count_pos [OF assms(4)] xV assms(6) [OF x]
      by (auto simp: tail_ref_def)
    show "0 < pb_ref (b' x)" "pb_ref (b' x) < 256" using countedD [OF assms(1) xV(1)] assms(6) [OF x] by simp_all
    obtain qs where qs: "links b x qs" "set qs \<subseteq> V" using countedD(4) [OF assms(1) xV(1)] by blast
    then have "p \<notin> set qs" using links_pred [of b x qs p] none xV(2) by blast
    then have sub: "set qs \<subseteq> V - {p}" using qs(2) by blast
    then have "pb_next (b y) = pb_next (b' y)" if "y \<in> set qs" for y using that assms(6) [of y] by (metis subsetD)
    then have "links b' x qs" "set qs \<subseteq> V - {p}" using qs(1) sub links_cong [of qs b b' x] by simp_all
    then show "\<exists>qs. links b' x qs \<and> set qs \<subseteq> V - {p}" by blast
  qed
qed

text \<open>A new buffer with one reference takes over the caller's reference to the one it points to.\<close>

lemma counted_push:
  assumes "counted b V (tail_ref b p @ hs)" and "finite V" and "0 \<notin> V" and "p \<notin> V" and "p \<noteq> 0" and "pb_ref (b p) = 1"
  shows "counted b (insert p V) (p # hs)"
proof (rule countedI)
  have none: "pb_next (b y) \<noteq> p" if "y \<in> V" for y using next_live [OF assms(1,3) that] assms(4,5) by auto
  show "set (p # hs) \<subseteq> insert p V" using assms(1) by (auto simp: counted_def)
  fix x assume x: "x \<in> insert p V"
  have hs: "p \<notin> set hs" using assms(1,4) by (auto simp: counted_def)
  have self: "pb_next (b p) \<noteq> p" using assms(1,4,5) by (auto simp: counted_def tail_ref_def split: if_splits)
  show "pb_ref (b x) = count_list (p # hs) x + inlinks b (insert p V) x"
  proof (cases "x = p")
    case True
    have "inlinks b V p = 0" using none assms(2) by (simp add: inlinks_zero)
    then show ?thesis using True assms(6) hs self inlinks_insert [OF assms(2,4), of b p] by (simp add: count_list_0_iff)
  next
    case False
    then have "x \<in> V" using x by simp
    moreover have "x \<noteq> 0" using calculation assms(3) by metis
    ultimately have "x \<in> V" "x \<noteq> 0" by simp_all
    then show ?thesis using countedD(1) [OF assms(1), of x] False inlinks_insert [OF assms(2,4), of b x]
      by (auto simp: tail_ref_def split: if_splits)
  qed
  show "0 < pb_ref (b x)" "pb_ref (b x) < 256" using x assms(6) countedD [OF assms(1), of x] by auto
  show "\<exists>qs. links b x qs \<and> set qs \<subseteq> insert p V"
  proof (cases "x = p")
    case True
    have "\<exists>qs. links b (pb_next (b p)) qs \<and> set qs \<subseteq> V"
    proof (cases "pb_next (b p) = 0")
      case True
      then show ?thesis by (intro exI [of _ "[]"]) simp
    next
      case False
      then have "pb_next (b p) \<in> V" using assms(1) by (auto simp: counted_def tail_ref_def)
      then show ?thesis using countedD(4) [OF assms(1)] by blast
    qed
    then obtain qs where "links b (pb_next (b p)) qs" "set qs \<subseteq> V" by blast
    then have "links b p (p # qs) \<and> set (p # qs) \<subseteq> insert p V" using assms(5) by auto
    then show ?thesis using True by blast
  next
    case False
    then obtain qs where "links b x qs" "set qs \<subseteq> V" using x countedD(4) [OF assms(1), of x] by blast
    then show ?thesis by blast
  qed
qed

text \<open>A reference more and one less, without any other change.\<close>

lemma counted_share:
  assumes "counted b V hs" and "p \<in> V" and "pb_ref (b p) < 255" and "pb_ref (b' p) = pb_ref (b p) + 1" and "pb_next (b' p) = pb_next (b p)"
    and "\<And>x. x \<noteq> p \<Longrightarrow> b' x = b x"
  shows "counted b' V (p # hs)"
proof (rule countedI)
  have n: "pb_next (b' x) = pb_next (b x)" for x using assms(5,6) by (cases "x = p") auto
  show "set (p # hs) \<subseteq> V" using assms(1,2) by (simp add: counted_def)
  fix x assume x: "x \<in> V"
  have "inlinks b' V x = inlinks b V x" by (rule inlinks_cong) (simp add: n)
  then show "pb_ref (b' x) = count_list (p # hs) x + inlinks b' V x" using countedD(1) [OF assms(1) x] assms(4,6) by (cases "x = p") auto
  show "0 < pb_ref (b' x)" "pb_ref (b' x) < 256" using countedD(2,3) [OF assms(1) x] assms(3,4,6) by (cases "x = p"; simp)+
  show "\<exists>qs. links b' x qs \<and> set qs \<subseteq> V" using countedD(4) [OF assms(1) x] links_cong [of _ b b' x] n by metis
qed

lemma counted_drop:
  assumes "counted b V hs" and "p \<in> set hs" and "pb_ref (b p) > 1" and "pb_ref (b' p) = pb_ref (b p) - 1" and "pb_next (b' p) = pb_next (b p)"
    and "\<And>x. x \<noteq> p \<Longrightarrow> b' x = b x"
  shows "counted b' V (remove1 p hs)"
proof (rule countedI)
  have n: "pb_next (b' x) = pb_next (b x)" for x using assms(5,6) by (cases "x = p") auto
  show "set (remove1 p hs) \<subseteq> V" using assms(1) set_remove1_subset [of p hs] by (auto simp: counted_def)
  fix x assume x: "x \<in> V"
  have "inlinks b' V x = inlinks b V x" by (rule inlinks_cong) (simp add: n)
  then show "pb_ref (b' x) = count_list (remove1 p hs) x + inlinks b' V x"
    using countedD(1) [OF assms(1) x] assms(4,6) count_pos [OF assms(2)] by (cases "x = p") auto
  show "0 < pb_ref (b' x)" "pb_ref (b' x) < 256" using countedD(2,3) [OF assms(1) x] assms(3,4,6) by (cases "x = p"; simp)+
  show "\<exists>qs. links b' x qs \<and> set qs \<subseteq> V" using countedD(4) [OF assms(1) x] links_cong [of _ b b' x] n by metis
qed

text \<open>A link in place of a reference, and a reference in place of a link. The lengths of the buffers do not matter.\<close>

lemma links_append:
  "links b p (A @ e # B) \<Longrightarrow> (\<And>x. x \<in> set A \<Longrightarrow> pb_next (b' x) = pb_next (b x)) \<Longrightarrow> pb_next (b' e) = 0 \<Longrightarrow> links b' p (A @ [e])"
proof (induction A arbitrary: p)
  case (Cons x A)
  have "links b' (pb_next (b x)) (A @ [e])" by (rule Cons.IH) (use Cons.prems in simp_all)
  then show ?case using Cons.prems(1) Cons.prems(2) [of x] by simp
qed simp

lemma links_join: "links b p (A @ [e]) \<Longrightarrow> links b' t qs \<Longrightarrow> pb_next (b' e) = t \<Longrightarrow> (\<And>x. x \<in> set A \<Longrightarrow> pb_next (b' x) = pb_next (b x)) \<Longrightarrow> links b' p (A @ e # qs)"
  by (induction A arbitrary: p) auto

lemma links_unique: "links b r xs \<Longrightarrow> links b r ys \<Longrightarrow> xs = ys"
proof (induction xs arbitrary: r ys)
  case Nil
  then show ?case by (cases ys) auto
next
  case (Cons x xs)
  then show ?case by (cases ys) auto
qed

lemma links_distinct: "links b p qs \<Longrightarrow> distinct qs"
proof (induction qs arbitrary: p)
  case (Cons q qs)
  have "q \<notin> set qs"
  proof
    assume "q \<in> set qs"
    then obtain A B where qs: "qs = A @ q # B" by (auto simp: in_set_conv_decomp)
    have path: "links b q (q # A @ q # B)" using Cons.prems qs by simp
    have "links b r (C @ q # B) \<Longrightarrow> links b q (q # B)" for r C by (induction C arbitrary: r) auto
    from this [of q "q # A"] path have "links b q (q # B)" by simp
    from links_unique [OF path this] show False by (auto dest: arg_cong [of _ _ length])
  qed
  then show ?case using Cons by auto
qed simp

lemma counted_link:
  assumes "counted b V hs" and "finite V" and "0 \<notin> V" and "e \<in> V" and "pb_next (b e) = 0" and "t \<in> set hs"
    and "links b t qs" and "e \<notin> set qs" and "pb_next (b' e) = t" and "\<And>x. pb_ref (b' x) = pb_ref (b x)" and "\<And>x. x \<noteq> e \<Longrightarrow> pb_next (b' x) = pb_next (b x)"
  shows "counted b' V (remove1 t hs)"
proof (rule countedI)
  have "t \<in> V" using assms(1,6) by (rule counted_live)
  moreover have "t \<noteq> 0" using calculation assms(3) by (rule in_nonzero)
  ultimately have t: "t \<in> V" "t \<noteq> 0" by simp_all
  show "set (remove1 t hs) \<subseteq> V" using assms(1) set_remove1_subset [of t hs] by (auto simp: counted_def)
  fix x assume x: "x \<in> V"
  have x0: "x \<noteq> 0" using x assms(3) by metis
  have "inlinks b' (V - {e}) x = inlinks b (V - {e}) x" using assms(11) by (intro inlinks_cong) simp
  then show "pb_ref (b' x) = count_list (remove1 t hs) x + inlinks b' V x"
    using countedD(1) [OF assms(1) x] inlinks_remove [OF assms(2,4), of b x] inlinks_remove [OF assms(2,4), of b' x]
      count_pos [OF assms(6)] x0 assms(5,9,10) by auto
  show "0 < pb_ref (b' x)" "pb_ref (b' x) < 256" using countedD(2,3) [OF assms(1) x] assms(10) by simp_all
  have tq: "links b' t qs" using assms(7,8,11) links_cong [of qs b b' t] by metis
  obtain ts where "links b t ts" "set ts \<subseteq> V" using countedD(4) [OF assms(1) t(1)] by blast
  moreover have "ts = qs" using calculation(1) assms(7) by (rule links_unique)
  ultimately have qV: "set qs \<subseteq> V" by simp
  obtain xs where xs: "links b x xs" "set xs \<subseteq> V" using countedD(4) [OF assms(1) x] by blast
  show "\<exists>qs. links b' x qs \<and> set qs \<subseteq> V"
  proof (cases "e \<in> set xs")
    case False
    then show ?thesis using xs links_cong [of xs b b' x] assms(11) by metis
  next
    case True
    then obtain A B where AB: "xs = A @ e # B" by (auto simp: in_set_conv_decomp)
    have "links b x (A @ [e])" using xs(1) assms(5) unfolding AB by (intro links_append) simp_all
    moreover have "e \<notin> set A" using links_distinct [OF xs(1)] AB by auto
    ultimately have "links b x (A @ [e])" "e \<notin> set A" by simp_all
    then have "links b' x (A @ e # qs)" using links_join [of b x A e b' t qs] tq assms(9,11) by metis
    moreover have "set (A @ e # qs) \<subseteq> V" using xs(2) AB qV by simp
    ultimately show ?thesis by blast
  qed
qed

lemma counted_unlink:
  assumes "counted b V hs" and "finite V" and "0 \<notin> V" and "p \<in> V" and "pb_next (b p) \<noteq> 0" and "pb_next (b' p) = 0"
    and "\<And>x. pb_ref (b' x) = pb_ref (b x)" and "\<And>x. x \<noteq> p \<Longrightarrow> pb_next (b' x) = pb_next (b x)"
  shows "counted b' V (pb_next (b p) # hs)"
proof (rule countedI)
  show "set (pb_next (b p) # hs) \<subseteq> V" using assms(1) next_live [OF assms(1,3,4,5)] by (simp add: counted_def)
  fix x assume x: "x \<in> V"
  have x0: "x \<noteq> 0" using x assms(3) by metis
  have "inlinks b' (V - {p}) x = inlinks b (V - {p}) x" using assms(8) by (intro inlinks_cong) simp
  then show "pb_ref (b' x) = count_list (pb_next (b p) # hs) x + inlinks b' V x"
    using countedD(1) [OF assms(1) x] inlinks_remove [OF assms(2,4), of b x] inlinks_remove [OF assms(2,4), of b' x] x0 assms(6,7) by auto
  show "0 < pb_ref (b' x)" "pb_ref (b' x) < 256" using countedD(2,3) [OF assms(1) x] assms(7) by simp_all
  obtain xs where xs: "links b x xs" "set xs \<subseteq> V" using countedD(4) [OF assms(1) x] by blast
  show "\<exists>qs. links b' x qs \<and> set qs \<subseteq> V"
  proof (cases "p \<in> set xs")
    case False
    then show ?thesis using xs links_cong [of xs b b' x] assms(8) by metis
  next
    case True
    then obtain A B where AB: "xs = A @ p # B" by (auto simp: in_set_conv_decomp)
    then have "p \<notin> set A" using links_distinct [OF xs(1)] by auto
    then have "pb_next (b' y) = pb_next (b y)" if "y \<in> set A" for y using that assms(8) by metis
    from links_append [OF xs(1) [unfolded AB] this assms(6)] have "links b' x (A @ [p])" .
    then show ?thesis using xs(2) AB by (intro exI [of _ "A @ [p]"]) simp
  qed
qed

section \<open>Releasing\<close>

definition refs_ok :: "pbuf_store \<Rightarrow> nat set \<Rightarrow> nat list \<Rightarrow> bool" where
  "refs_ok s V hs \<longleftrightarrow> allocated_bufs s V \<and> counted (ps_pbufs s) V hs \<and> lengths_ok (ps_pbufs s) V"

declare free_from.simps [simp del] alloc_pool.simps [simp del] cat_from.simps [simp del]

lemma free_from_ok:
  assumes "refs_ok s V hs" and "p \<in> set hs"
  shows "\<exists>k s' V'. free_from custom p c s = Some (k, s') \<and> refs_ok s' V' (remove1 p hs) \<and>
    (\<forall>x. pb_len (ps_pbufs s' x) = pb_len (ps_pbufs s x) \<and> pb_tot_len (ps_pbufs s' x) = pb_tot_len (ps_pbufs s x))"
  using assms
proof (induction "card V" arbitrary: V hs p c s rule: less_induct)
  case less
  let ?b = "ps_pbufs s"
  have ok: "allocated_bufs s V" "counted ?b V hs" "lengths_ok ?b V" using less.prems(1) by (simp_all add: refs_ok_def)
  note fin = allocated_nonzero [OF ok(1)]
  have p: "p \<in> V" using ok(2) less.prems(2) by (rule counted_live)
  then have "p \<noteq> 0" using fin(1) by (rule in_nonzero)
  with p have p: "p \<in> V" "p \<noteq> 0" by simp_all
  let ?s = "set_pbuf p (\<lambda>b. b\<lparr>pb_ref := pb_ref b - 1\<rparr>) s"
  have b: "ps_pbufs ?s = ?b(p := (?b p)\<lparr>pb_ref := pb_ref (?b p) - 1\<rparr>)" by (simp add: set_pbuf_def)
  have al: "allocated_bufs ?s V" by (rule allocated_cong [OF ok(1)]) (simp_all add: same_types_def)
  show ?case
  proof (cases "pb_ref (?b p) = 1")
    case True
    obtain s2 where s2: "release_pbuf custom p ?s = Some s2" "ps_pbufs s2 = ps_pbufs ?s" "ps_bytes s2 = ps_bytes ?s" "allocated_bufs s2 (V - {p})"
      by (rule release_pbuf_ok [OF al p(1)])
    have same: "ps_pbufs s2 x = ?b x" if "x \<in> V - {p}" for x using that unfolding s2(2) b by simp
    have c2: "counted (ps_pbufs s2) (V - {p}) (tail_ref ?b p @ remove1 p hs)"
      using counted_pop [OF ok(2) fin(2,1) less.prems(2) True] same by blast
    have e2: "lengths_ok (ps_pbufs s2) (V - {p})" by (rule lengths_cong [OF ok(3)]) (auto simp: s2(2) b)
    have step: "free_from custom p c s = free_from custom (pb_next (?b p)) (cast8 (c + 1)) s2"
      using p(2) True s2(1) by (subst free_from.simps) simp
    have keep: "pb_len (ps_pbufs s2 x) = pb_len (?b x) \<and> pb_tot_len (ps_pbufs s2 x) = pb_tot_len (?b x)" for x unfolding s2(2) b by simp
    show ?thesis
    proof (cases "pb_next (?b p) = 0")
      case True
      then have "free_from custom p c s = Some (cast8 (c + 1), s2)" using step by (simp add: free_from.simps [of _ 0])
      moreover have "refs_ok s2 (V - {p}) (remove1 p hs)" using s2(4) c2 e2 True by (simp add: refs_ok_def tail_ref_def)
      ultimately show ?thesis using keep by blast
    next
      case False
      have "refs_ok s2 (V - {p}) (pb_next (?b p) # remove1 p hs)" using s2(4) c2 e2 False by (simp add: refs_ok_def tail_ref_def)
      moreover have "card (V - {p}) < card V" using fin(2) p(1) by (rule card_Diff1_less)
      ultimately obtain k s' V' where r: "free_from custom (pb_next (?b p)) (cast8 (c + 1)) s2 = Some (k, s')" "refs_ok s' V' (remove1 p hs)"
        "\<forall>x. pb_len (ps_pbufs s' x) = pb_len (ps_pbufs s2 x) \<and> pb_tot_len (ps_pbufs s' x) = pb_tot_len (ps_pbufs s2 x)"
        using less.hyps [of "V - {p}" s2 "pb_next (?b p) # remove1 p hs" "pb_next (?b p)" "cast8 (c + 1)"] by auto
      then show ?thesis using step keep by auto
    qed
  next
    case False
    have gt: "pb_ref (?b p) > 1" using False countedD(2) [OF ok(2) p(1)] by simp
    have "counted (ps_pbufs ?s) V (remove1 p hs)" by (rule counted_drop [OF ok(2) less.prems(2) gt]) simp_all
    moreover have "lengths_ok (ps_pbufs ?s) V" by (rule lengths_cong [OF ok(3)]) (auto simp: b)
    moreover have "free_from custom p c s = Some (c, ?s)" using p(2) gt by (subst free_from.simps) simp
    ultimately show ?thesis using al by (intro exI [of _ c] exI [of _ ?s] exI [of _ V]) (simp add: refs_ok_def b)
  qed
qed

text \<open>A chain of which nobody else knows is given back whole.\<close>

lemma free_path:
  assumes "links (ps_pbufs s) p qs" and "allocated_bufs s (V \<union> set qs)" and "V \<inter> set qs = {}" and "distinct qs" and "\<forall>q \<in> set qs. pb_ref (ps_pbufs s q) = 1"
  shows "\<exists>k s'. free_from custom p c s = Some (k, s') \<and> allocated_bufs s' V \<and> (\<forall>x. x \<notin> set qs \<longrightarrow> ps_pbufs s' x = ps_pbufs s x) \<and> ps_bytes s' = ps_bytes s"
  using assms
proof (induction qs arbitrary: p c s)
  case Nil
  then show ?case by (simp add: free_from.simps [of _ 0])
next
  case (Cons q qs)
  let ?s = "set_pbuf q (\<lambda>b. b\<lparr>pb_ref := pb_ref b - 1\<rparr>) s"
  have b: "ps_pbufs ?s = (ps_pbufs s)(q := (ps_pbufs s q)\<lparr>pb_ref := pb_ref (ps_pbufs s q) - 1\<rparr>)" by (simp add: set_pbuf_def)
  have al: "allocated_bufs ?s (V \<union> set (q # qs))" by (rule allocated_cong [OF Cons.prems(2)]) (simp_all add: same_types_def)
  have "q \<in> V \<union> set (q # qs)" by simp
  then obtain s2 where s2: "release_pbuf custom q ?s = Some s2" "ps_pbufs s2 = ps_pbufs ?s" "ps_bytes s2 = ps_bytes ?s" "allocated_bufs s2 (V \<union> set (q # qs) - {q})"
    by (rule release_pbuf_ok [OF al])
  have "V \<union> set (q # qs) - {q} = V \<union> set qs" using Cons.prems(3,4) by auto
  then have a: "allocated_bufs s2 (V \<union> set qs)" using s2(4) by simp
  have same: "ps_pbufs s2 x = ps_pbufs s x" if "x \<noteq> q" for x using that unfolding s2(2) b by simp
  have q: "q \<notin> set qs" "p = q" "q \<noteq> 0" using Cons.prems(1,4) by simp_all
  have "links (ps_pbufs s2) (pb_next (ps_pbufs s q)) qs" using Cons.prems(1) links_cong [of qs "ps_pbufs s2" "ps_pbufs s"] same q(1) by (metis links.simps(2))
  moreover have "V \<inter> set qs = {}" "distinct qs" using Cons.prems(3-4) by auto
  moreover have "\<forall>x \<in> set qs. pb_ref (ps_pbufs s2 x) = 1"
  proof
    fix x assume x: "x \<in> set qs"
    then have "ps_pbufs s2 x = ps_pbufs s x" using q(1) by (intro same) auto
    then show "pb_ref (ps_pbufs s2 x) = 1" using Cons.prems(5) x by simp
  qed
  ultimately obtain k s' where r: "free_from custom (pb_next (ps_pbufs s q)) (cast8 (c + 1)) s2 = Some (k, s')" "allocated_bufs s' V"
    "\<forall>x. x \<notin> set qs \<longrightarrow> ps_pbufs s' x = ps_pbufs s2 x" "ps_bytes s' = ps_bytes s2" using Cons.IH a by blast
  have "free_from custom p c s = free_from custom (pb_next (ps_pbufs s q)) (cast8 (c + 1)) s2"
    using q Cons.prems(5) s2(1) by (subst free_from.simps) simp
  then show ?case using r same s2(3) by (simp add: set_pbuf_def)
qed

section \<open>Allocation\<close>

text \<open>The chain under construction: \<open>r\<close> bytes are still to come behind it.\<close>

fun partial_packet :: "(nat \<Rightarrow> pbuf) \<Rightarrow> nat \<Rightarrow> nat \<Rightarrow> nat list \<Rightarrow> bool" where
  "partial_packet b r p [] \<longleftrightarrow> p = 0"
| "partial_packet b r p (q # qs) \<longleftrightarrow> p = q \<and> q \<noteq> 0 \<and> pb_tot_len (b q) = chain_len b (q # qs) + r \<and> partial_packet b r (pb_next (b q)) qs"

lemma partial_packet_0: "partial_packet b 0 p qs = packet b p qs"
  by (induction qs arbitrary: p) auto

lemma packet_links: "partial_packet b r p qs \<Longrightarrow> links b p qs"
  by (induction qs arbitrary: p) auto

text \<open>A buffer is added at the end.\<close>

lemma partial_packet_snoc:
  assumes "partial_packet b r p (A @ [e])" and "q \<notin> set (A @ [e])" and "distinct (A @ [e])" and "pb_len (b' q) \<le> r" and "pb_tot_len (b' q) = r"
    and "pb_next (b' q) = 0" and "q \<noteq> 0" and "pb_next (b' e) = q" and "pb_tot_len (b' e) = pb_tot_len (b e)" and "pb_len (b' e) = pb_len (b e)"
    and "\<And>x. x \<noteq> q \<Longrightarrow> x \<noteq> e \<Longrightarrow> b' x = b x"
  shows "partial_packet b' (r - pb_len (b' q)) p (A @ [e, q])"
  using assms(1-3)
proof (induction A arbitrary: p)
  case Nil
  then show ?case using assms(4-10) by auto
next
  case (Cons x A)
  have x: "b' x = b x" using Cons.prems(2,3) by (intro assms(11)) auto
  have same: "pb_len (b' y) = pb_len (b y)" if "y \<in> set (A @ [e])" for y

  proof (cases "y = e")
    case False
    moreover have "y \<noteq> q" using that Cons.prems(2) by auto
    ultimately show ?thesis using assms(11) by simp
  qed (use assms(10) in simp)
  have "partial_packet b r (pb_next (b x)) (A @ [e])" using Cons.prems(1) by simp
  then have IH: "partial_packet b' (r - pb_len (b' q)) (pb_next (b x)) (A @ [e, q])" using Cons.IH Cons.prems(2,3) by simp
  have "chain_len b' (A @ [e]) = chain_len b (A @ [e])" unfolding chain_len_def using same by (intro arg_cong [of _ _ sum_list] map_cong) auto
  then have "chain_len b' (x # A @ [e, q]) = chain_len b (x # A @ [e]) + pb_len (b' q)" using x by simp
  then show ?case using Cons.prems(1) IH x assms(4) by simp
qed

lemma pool_payload:
  assumes "q mod MEM_ALIGNMENT = 0"
  shows "LWIP_MEM_ALIGN (q + SIZEOF_STRUCT_PBUF + off) = q + SIZEOF_STRUCT_PBUF + LWIP_MEM_ALIGN_SIZE off"
proof -
  obtain k where "q = 4 * k" using assms by (auto simp: MEM_ALIGNMENT_def elim: dvdE)
  moreover have "(off + 3 + 4 * (k + 4)) div 4 * 4 = 4 * k + 16 + (off + 3) div 4 * 4" by (subst div_mult_self2) simp_all
  ultimately show ?thesis by (simp add: LWIP_MEM_ALIGN_def LWIP_MEM_ALIGN_SIZE_def MEM_ALIGNMENT_def add.commute add.left_commute)
qed

lemma alloc_src_types:
  "pbuf_get_allocsrc (b\<lparr>pb_type := ucast PBUF_POOL\<rparr>) = PBUF_TYPE_ALLOC_SRC_MASK_STD_MEMP_PBUF_POOL"
  "pbuf_get_allocsrc (b\<lparr>pb_type := ucast PBUF_RAM\<rparr>) = PBUF_TYPE_ALLOC_SRC_MASK_STD_HEAP"
  "pbuf_get_allocsrc (b\<lparr>pb_type := ucast PBUF_REF\<rparr>) = PBUF_TYPE_ALLOC_SRC_MASK_STD_MEMP_PBUF"
  "pbuf_get_allocsrc (b\<lparr>pb_type := ucast PBUF_ROM\<rparr>) = PBUF_TYPE_ALLOC_SRC_MASK_STD_MEMP_PBUF"
  by (simp_all add: pbuf_get_allocsrc_def PBUF_POOL_def PBUF_RAM_def PBUF_REF_def PBUF_ROM_def PBUF_ALLOC_FLAG_RX_def PBUF_ALLOC_FLAG_DATA_CONTIGUOUS_def
      PBUF_TYPE_FLAG_STRUCT_DATA_CONTIGUOUS_def PBUF_TYPE_FLAG_DATA_VOLATILE_def PBUF_TYPE_ALLOC_SRC_MASK_def PBUF_TYPE_ALLOC_SRC_MASK_STD_HEAP_def
      PBUF_TYPE_ALLOC_SRC_MASK_STD_MEMP_PBUF_def PBUF_TYPE_ALLOC_SRC_MASK_STD_MEMP_PBUF_POOL_def)

lemma init_pool_pbuf_ok:
  assumes "q mod MEM_ALIGNMENT = 0" and "LWIP_MEM_ALIGN_SIZE off < PBUF_POOL_BUFSIZE_ALIGNED"
  shows "init_pool_pbuf q r n off s = Some (set_pbuf q (\<lambda>_. \<lparr>pb_next = 0, pb_payload = q + SIZEOF_STRUCT_PBUF + LWIP_MEM_ALIGN_SIZE off,
    pb_tot_len = r, pb_len = n, pb_type = ucast PBUF_POOL, pb_flags = 0, pb_ref = 1, pb_if_idx = 0\<rparr>) s)"
proof -
  have "diff32 PBUF_POOL_BUFSIZE_ALIGNED (LWIP_MEM_ALIGN_SIZE off) = PBUF_POOL_BUFSIZE_ALIGNED - LWIP_MEM_ALIGN_SIZE off"
    using assms(2) by (intro diff32_nat) simp_all
  then show ?thesis using assms align_aligned [of "q + SIZEOF_STRUCT_PBUF + off"]
    by (simp add: init_pool_pbuf_def pbuf_init_alloced_pbuf_def pool_payload [OF assms(1), unfolded pbuf_sizes] Let_def)
qed

text \<open>What a call of the allocator gives: a new packet of the requested length that only the caller knows, or nothing, with everything given back.\<close>

definition alloc_result :: "nat \<Rightarrow> (nat \<Rightarrow> pbuf \<Rightarrow> bool) \<Rightarrow> nat set \<Rightarrow> pbuf_store \<Rightarrow> nat \<times> pbuf_store \<Rightarrow> bool" where
  "alloc_result len place V s r \<longleftrightarrow> (\<forall>x \<in> V. ps_pbufs (snd r) x = ps_pbufs s x) \<and> ps_bytes (snd r) = ps_bytes s \<and>
     (if fst r = 0 then allocated_bufs (snd r) V
      else \<exists>qs. packet (ps_pbufs (snd r)) (fst r) qs \<and> chain_len (ps_pbufs (snd r)) qs = len \<and> distinct qs \<and> V \<inter> set qs = {} \<and>
        allocated_bufs (snd r) (V \<union> set qs) \<and> (\<forall>q \<in> set qs. pb_ref (ps_pbufs (snd r) q) = 1 \<and> place q (ps_pbufs (snd r) q)))"

lemma alloc_result_from: "alloc_result n place V s2 x \<Longrightarrow> (\<And>y. y \<in> V \<Longrightarrow> ps_pbufs s2 y = ps_pbufs s y) \<Longrightarrow> ps_bytes s2 = ps_bytes s \<Longrightarrow> alloc_result n place V s x"
  unfolding alloc_result_def by (elim conjE, intro conjI) (simp, simp, assumption)

text \<open>The data of a buffer from the pool lies in its own element.\<close>

definition pool_place :: "nat \<Rightarrow> pbuf \<Rightarrow> bool" where
  "pool_place q b \<longleftrightarrow> q + SIZEOF_STRUCT_PBUF \<le> pb_payload b \<and> pb_payload b + pb_len b \<le> q + SIZEOF_STRUCT_PBUF + PBUF_POOL_BUFSIZE_ALIGNED \<and>
     pb_payload b mod MEM_ALIGNMENT = 0"

lemma alloc_pool_ok:
  assumes "allocated_bufs s (V \<union> set qs)" and "V \<inter> set qs = {}" and "distinct qs" and "partial_packet (ps_pbufs s) r p qs"
    and "\<forall>q \<in> set qs. pb_ref (ps_pbufs s q) = 1 \<and> pool_place q (ps_pbufs s q)" and "qs \<noteq> [] \<Longrightarrow> prev = last qs \<and> 0 < r" and "r < 65536"
    and "LWIP_MEM_ALIGN_SIZE off < PBUF_POOL_BUFSIZE_ALIGNED"
  shows "\<exists>x. alloc_pool custom p prev r off s = Some x \<and> alloc_result (chain_len (ps_pbufs s) qs + r) pool_place V s x"
  using assms
proof (induction r arbitrary: s qs p prev off rule: less_induct)
  case (less r)
  let ?b = "ps_pbufs s"
  show ?case
  proof (rule new_buf [OF less.prems(1)])
  fix q m assume q: "do_memp_malloc_pool (ps_pool s) = Some (q, m)" "q = 0 \<Longrightarrow> m = ps_pool s" "q \<noteq> 0 \<Longrightarrow> q \<notin> V \<union> set qs" "q \<noteq> 0 \<Longrightarrow> q mod MEM_ALIGNMENT = 0"
    "\<And>s'. q \<noteq> 0 \<Longrightarrow> ps_heap s' = ps_heap s \<Longrightarrow> ps_structs s' = ps_structs s \<Longrightarrow> ps_pool s' = m \<Longrightarrow> same_types (V \<union> set qs) s' s \<Longrightarrow>
      pbuf_get_allocsrc (ps_pbufs s' q) = PBUF_TYPE_ALLOC_SRC_MASK_STD_MEMP_PBUF_POOL \<Longrightarrow> pb_flags (ps_pbufs s' q) = 0 \<Longrightarrow> allocated_bufs s' (insert q (V \<union> set qs))"
  show ?case
  proof (cases "q = 0")
    case q0: True
    then have sm: "s\<lparr>ps_pool := m\<rparr> = s" using q(2) by simp
    show ?thesis
    proof (cases qs)
      case Nil
      then have "p = 0" using less.prems(4) by simp
      then have "alloc_pool custom p prev r off s = Some (0, s)" using q(1) q0 sm by (subst alloc_pool.simps) simp
      then show ?thesis using less.prems(1) Nil by (simp add: alloc_result_def)
    next
      case (Cons a rest)
      then have p: "p \<noteq> 0" using less.prems(4) by simp
      obtain k s' where f: "free_from custom p 0 s = Some (k, s')" "allocated_bufs s' V" "\<forall>x. x \<notin> set qs \<longrightarrow> ps_pbufs s' x = ?b x" "ps_bytes s' = ps_bytes s"
        using free_path [OF packet_links [OF less.prems(4)] less.prems(1-3)] less.prems(5) by blast
      then have "alloc_pool custom p prev r off s = Some (0, s')" using q(1) q0 sm p by (subst alloc_pool.simps) (simp add: pbuf_free_def)
      then show ?thesis using f less.prems(2) by (auto simp: alloc_result_def)
    qed
  next
    case False
    define n where "n = min r (PBUF_POOL_BUFSIZE_ALIGNED - LWIP_MEM_ALIGN_SIZE off)"
    have n: "n \<le> r" "0 < r \<Longrightarrow> 0 < n" "n \<le> PBUF_POOL_BUFSIZE_ALIGNED - LWIP_MEM_ALIGN_SIZE off" using less.prems(8) by (auto simp: n_def)
    define new where "new = \<lparr>pb_next = 0, pb_payload = q + SIZEOF_STRUCT_PBUF + LWIP_MEM_ALIGN_SIZE off,
      pb_tot_len = r, pb_len = n, pb_type = ucast PBUF_POOL, pb_flags = 0, pb_ref = 1, pb_if_idx = 0\<rparr>"
    define s1 where "s1 = set_pbuf q (\<lambda>_. new) (s\<lparr>ps_pool := m\<rparr>)"
    define s2 where "s2 = (if p = 0 then s1 else set_pbuf prev (\<lambda>b. b\<lparr>pb_next := q\<rparr>) s1)"
    define p2 where "p2 = (if p = 0 then q else p)"
    have room: "min r (cast16 (diff32 PBUF_POOL_BUFSIZE_ALIGNED (LWIP_MEM_ALIGN_SIZE off))) = n"
      using less.prems(8) by (subst diff32_nat) (simp_all add: cast16_def n_def)
    have d16: "diff16 r n = r - n" using n(1) less.prems(7) by (simp add: diff16_nat)
    have step: "alloc_pool custom p prev r off s = (if r - n > 0 then alloc_pool custom p2 q (r - n) 0 s2 else Some (p2, s2))"
    proof -
      have "init_pool_pbuf q r n off (s\<lparr>ps_pool := m\<rparr>) = Some s1"
        using init_pool_pbuf_ok [OF q(4) [OF False] less.prems(8)] by (simp add: s1_def new_def)
      then show ?thesis using q(1) False by (subst alloc_pool.simps) (simp add: room [simplified] d16 s2_def p2_def Let_def)
    qed
    have qn: "q \<notin> V" "q \<notin> set qs" using q(3) [OF False] by simp_all
    have prev: "prev \<in> set qs" "prev \<noteq> q" "ps_pbufs s2 prev = (?b prev)\<lparr>pb_next := q\<rparr>" if "p \<noteq> 0"
      using that less.prems(4,6) qn by (cases qs; auto simp: s2_def s1_def)+
    have bq: "ps_pbufs s2 q = new" using prev(2) by (auto simp: s2_def s1_def)
    have bx: "ps_pbufs s2 x = ?b x" if "x \<noteq> q" "p = 0 \<or> x \<noteq> prev" for x using that by (auto simp: s2_def s1_def)
    have pt: "pb_type (ps_pbufs s2 x) = pb_type (?b x) \<and> pb_flags (ps_pbufs s2 x) = pb_flags (?b x) \<and> pb_ref (ps_pbufs s2 x) = pb_ref (?b x) \<and>
        pb_payload (ps_pbufs s2 x) = pb_payload (?b x) \<and> pb_len (ps_pbufs s2 x) = pb_len (?b x) \<and> pb_tot_len (ps_pbufs s2 x) = pb_tot_len (?b x)" if "x \<in> V \<union> set qs" for x
    proof -
      have "x \<noteq> q" using that qn by auto
      then show ?thesis using bx [of x] prev(3) by (cases "p = 0 \<or> x \<noteq> prev") auto
    qed
    have V2: "ps_pbufs s2 x = ?b x" if "x \<in> V" for x
      using that qn less.prems(2) prev(1) by (intro bx) auto
    have alloc: "allocated_bufs s2 (V \<union> set (qs @ [q]))"
    proof -
      have "same_types (V \<union> set qs) s2 s" using pt by (simp add: same_types_def)
      moreover have "pbuf_get_allocsrc (ps_pbufs s2 q) = PBUF_TYPE_ALLOC_SRC_MASK_STD_MEMP_PBUF_POOL" "pb_flags (ps_pbufs s2 q) = 0"
        using alloc_src_types(1) [of new] by (simp_all add: bq new_def)
      ultimately have "allocated_bufs s2 (insert q (V \<union> set qs))" by (intro q(5) [OF False]) (simp_all add: s2_def s1_def)
      then show ?thesis by simp
    qed
    have packet2: "partial_packet (ps_pbufs s2) (r - n) p2 (qs @ [q])"
    proof (cases qs rule: rev_cases)
      case Nil
      then show ?thesis using less.prems(4) False n(1) bq by (simp add: p2_def new_def)
    next
      case (snoc A e)
      then have p: "p \<noteq> 0" "prev = e" using less.prems(4,6) by (cases A; auto)+
      have "partial_packet (ps_pbufs s2) (r - pb_len (ps_pbufs s2 q)) p (A @ [e, q])"
        by (rule partial_packet_snoc [of ?b r p A e])
          (use less.prems(3,4) snoc qn p prev(2,3) bq bx n(1) False pt [of e] in \<open>auto simp: new_def\<close>)
      then show ?thesis using p snoc bq by (simp add: p2_def new_def)
    qed
    have len2: "chain_len (ps_pbufs s2) (qs @ [q]) = chain_len ?b qs + n"
    proof -
      have "chain_len (ps_pbufs s2) qs = chain_len ?b qs" unfolding chain_len_def using pt by (intro arg_cong [of _ _ sum_list] map_cong) simp_all
      then show ?thesis by (simp add: bq new_def)
    qed
    have bytes2: "ps_bytes s2 = ps_bytes s" by (simp add: s2_def s1_def)
    have each: "\<forall>x \<in> set (qs @ [q]). pb_ref (ps_pbufs s2 x) = 1 \<and> pool_place x (ps_pbufs s2 x)"
    proof -
      have "pool_place q new" using n(3) less.prems(8) q(4) [OF False]
        by (simp add: pool_place_def new_def LWIP_MEM_ALIGN_SIZE_def MEM_ALIGNMENT_def mod_add_eq [symmetric])
      moreover have "pool_place x (ps_pbufs s2 x) = pool_place x (?b x) \<and> pb_ref (ps_pbufs s2 x) = pb_ref (?b x)" if "x \<in> set qs" for x
        using pt [of x] that by (simp add: pool_place_def)
      ultimately show ?thesis using less.prems(5) bq by (simp add: new_def)
    qed
    have disj: "V \<inter> set (qs @ [q]) = {}" "distinct (qs @ [q])" using less.prems(2,3) qn by auto
    show ?thesis
    proof (cases "r - n > 0")
      case False
      then have "alloc_pool custom p prev r off s = Some (p2, s2)" "r = n" using step n(1) by simp_all
      moreover have "p2 \<noteq> 0" using packet2 by (cases qs) auto
      moreover have "packet (ps_pbufs s2) p2 (qs @ [q])" using packet2 False partial_packet_0 [of "ps_pbufs s2" p2 "qs @ [q]"] by simp
      moreover have "\<exists>xs. packet (ps_pbufs s2) p2 xs \<and> chain_len (ps_pbufs s2) xs = chain_len ?b qs + r \<and> distinct xs \<and> V \<inter> set xs = {} \<and>
        allocated_bufs s2 (V \<union> set xs) \<and> (\<forall>x \<in> set xs. pb_ref (ps_pbufs s2 x) = 1 \<and> pool_place x (ps_pbufs s2 x))"
        using calculation len2 alloc disj each by (intro exI [of _ "qs @ [q]"] conjI) (simp_all only:)
      ultimately show ?thesis using V2 bytes2 by (simp add: alloc_result_def)
    next
      case True
      have "r - n < r" using True n by simp
      moreover have "LWIP_MEM_ALIGN_SIZE 0 < PBUF_POOL_BUFSIZE_ALIGNED" by (simp add: LWIP_MEM_ALIGN_SIZE_def MEM_ALIGNMENT_def)
      ultimately obtain x where x: "alloc_pool custom p2 q (r - n) 0 s2 = Some x" "alloc_result (chain_len (ps_pbufs s2) (qs @ [q]) + (r - n)) pool_place V s2 x"
        using less.IH [of "r - n" s2 "qs @ [q]" p2 q 0] alloc disj packet2 each True less.prems(7) by auto
      have "chain_len (ps_pbufs s2) (qs @ [q]) + (r - n) = chain_len ?b qs + r" using len2 n(1) by simp
      then have "alloc_result (chain_len ?b qs + r) pool_place V s2 x" using x(2) by simp
      then have "alloc_result (chain_len ?b qs + r) pool_place V s x" using V2 bytes2 by (rule alloc_result_from)
      then show ?thesis using x(1) step True by simp
    qed
  qed
  qed
qed

lemma alloc_one:
  assumes "p \<noteq> 0" and "p \<notin> V" and "allocated_bufs s' (insert p V)" and "ps_pbufs s' = (ps_pbufs s)(p := b)" and "ps_bytes s' = ps_bytes s"
    and "pb_next b = 0" and "pb_tot_len b = n" and "pb_len b = n" and "pb_ref b = 1"
  shows "alloc_result n (\<lambda>_ _. True) V s (p, s')"
proof -
  have "\<exists>xs. packet (ps_pbufs s') p xs \<and> chain_len (ps_pbufs s') xs = n \<and> distinct xs \<and> V \<inter> set xs = {} \<and>
    allocated_bufs s' (V \<union> set xs) \<and> (\<forall>x \<in> set xs. pb_ref (ps_pbufs s' x) = 1 \<and> True)"
    using assms by (intro exI [of _ "[p]"] conjI) simp_all
  moreover have "\<forall>x \<in> V. ps_pbufs s' x = ps_pbufs s x" using assms(2,4) by auto
  ultimately show ?thesis using assms(1,5) by (simp add: alloc_result_def)
qed

lemma alloc_reference_ok:
  assumes "allocated_bufs s V" and "type = PBUF_REF \<or> type = PBUF_ROM"
  shows "\<exists>x. pbuf_alloc_reference payload n type s = Some x \<and> alloc_result n (\<lambda>_ _. True) V s x"
proof (rule new_struct [OF assms(1)])
  fix p m assume p: "do_memp_malloc_pool (ps_structs s) = Some (p, m)" "p = 0 \<Longrightarrow> m = ps_structs s" "p \<noteq> 0 \<Longrightarrow> p \<notin> V"
    "\<And>s'. p \<noteq> 0 \<Longrightarrow> ps_heap s' = ps_heap s \<Longrightarrow> ps_structs s' = m \<Longrightarrow> ps_pool s' = ps_pool s \<Longrightarrow> same_types V s' s \<Longrightarrow>
      pbuf_get_allocsrc (ps_pbufs s' p) = PBUF_TYPE_ALLOC_SRC_MASK_STD_MEMP_PBUF \<Longrightarrow> pb_flags (ps_pbufs s' p) = 0 \<Longrightarrow> allocated_bufs s' (insert p V)"
  show ?thesis
  proof (cases "p = 0")
    case True
    then have "pbuf_alloc_reference payload n type s = Some (0, s)" using p(1,2) assms(2) by (simp add: pbuf_alloc_reference_def)
    then show ?thesis using assms(1) by (simp add: alloc_result_def)
  next
    case False
    define b where "b = \<lparr>pb_next = 0, pb_payload = payload, pb_tot_len = n, pb_len = n, pb_type = ucast type, pb_flags = 0, pb_ref = 1, pb_if_idx = 0\<rparr>"
    define s' where "s' = set_pbuf p (\<lambda>_. b) (s\<lparr>ps_structs := m\<rparr>)"
    have r: "pbuf_alloc_reference payload n type s = Some (p, s')"
      using p(1) assms(2) False by (simp add: pbuf_alloc_reference_def pbuf_init_alloced_pbuf_def s'_def b_def)
    have "pbuf_get_allocsrc b = PBUF_TYPE_ALLOC_SRC_MASK_STD_MEMP_PBUF" using assms(2) alloc_src_types(3,4) [of b] by (auto simp: b_def)
    moreover have "same_types V s' s" using p(3) [OF False] by (auto simp: same_types_def s'_def)
    ultimately have "allocated_bufs s' (insert p V)" by (intro p(4) [OF False]) (simp_all add: s'_def b_def)
    then have "alloc_result n (\<lambda>_ _. True) V s (p, s')" using False p(3) by (intro alloc_one [of _ _ _ _ b]) (simp_all add: s'_def b_def)
    then show ?thesis using r by blast
  qed
qed

lemma alloc_ram_ok:
  assumes "allocated_bufs s V"
  shows "\<exists>x. alloc_ram [] off n s = Some x \<and> alloc_result n (\<lambda>_ _. True) V s x"
proof -
  define pl where "pl = mem_size (LWIP_MEM_ALIGN_SIZE off + LWIP_MEM_ALIGN_SIZE n)"
  define al where "al = mem_size (LWIP_MEM_ALIGN_SIZE SIZEOF_STRUCT_PBUF + pl)"
  show ?thesis
  proof (cases "pl < LWIP_MEM_ALIGN_SIZE n \<or> al < LWIP_MEM_ALIGN_SIZE n")
    case True
    then have "alloc_ram [] off n s = Some (0, s)" by (simp add: alloc_ram_def pl_def al_def Let_def)
    then show ?thesis using assms by (simp add: alloc_result_def)
  next
    case False
    have "al < 65536" by (simp add: al_def mem_size_def)
    then show ?thesis
    proof (rule new_block [OF assms])
      fix p ws h assume p: "mem_malloc al [] (ps_heap s) = Some (p, ws, h)" "p = 0 \<Longrightarrow> allocated_bufs (s\<lparr>ps_heap := h\<rparr>) V" "p \<noteq> 0 \<Longrightarrow> p \<notin> V"
        "p \<noteq> 0 \<Longrightarrow> p mod MEM_ALIGNMENT = 0"
        "\<And>s'. p \<noteq> 0 \<Longrightarrow> ps_heap s' = h \<Longrightarrow> ps_structs s' = ps_structs s \<Longrightarrow> ps_pool s' = ps_pool s \<Longrightarrow> same_types V s' s \<Longrightarrow>
          pbuf_get_allocsrc (ps_pbufs s' p) = PBUF_TYPE_ALLOC_SRC_MASK_STD_HEAP \<Longrightarrow> pb_flags (ps_pbufs s' p) = 0 \<Longrightarrow> allocated_bufs s' (insert p V)"
      show ?thesis
      proof (cases "p = 0")
        case True
        then have "alloc_ram [] off n s = Some (0, s\<lparr>ps_heap := h\<rparr>)" using p(1) False by (simp add: alloc_ram_def pl_def [symmetric] al_def [symmetric] del: pbuf_sizes)
        then show ?thesis using p(2) [OF True] by (simp add: alloc_result_def)
      next
        case nz: False
        define b where "b = \<lparr>pb_next = 0, pb_payload = LWIP_MEM_ALIGN (p + SIZEOF_STRUCT_PBUF + off), pb_tot_len = n, pb_len = n, pb_type = ucast PBUF_RAM,
          pb_flags = 0, pb_ref = 1, pb_if_idx = 0\<rparr>"
        define s' where "s' = set_pbuf p (\<lambda>_. b) (s\<lparr>ps_heap := h\<rparr>)"
        have r: "alloc_ram [] off n s = Some (p, s')" using p(1) False nz
          by (simp add: alloc_ram_def pl_def [symmetric] al_def [symmetric] pbuf_init_alloced_pbuf_def s'_def b_def Let_def del: pbuf_sizes)
        have "pbuf_get_allocsrc b = PBUF_TYPE_ALLOC_SRC_MASK_STD_HEAP" using alloc_src_types(2) [of b] by (simp add: b_def)
        moreover have "same_types V s' s" using p(3) [OF nz] by (auto simp: same_types_def s'_def)
        ultimately have "allocated_bufs s' (insert p V)" by (intro p(5) [OF nz]) (simp_all add: s'_def b_def)
        then have "alloc_result n (\<lambda>_ _. True) V s (p, s')" using nz p(3) by (intro alloc_one [of _ _ _ _ b]) (simp_all add: s'_def b_def)
        then show ?thesis using r by blast
      qed
    qed
  qed
qed

lemma alloc_result_mono: "alloc_result n place V s x \<Longrightarrow> (\<And>q b. place q b \<Longrightarrow> place' q b) \<Longrightarrow> alloc_result n place' V s x"
  unfolding alloc_result_def by (auto split: if_splits)

lemma types_differ: "PBUF_POOL \<noteq> PBUF_REF" "PBUF_POOL \<noteq> PBUF_ROM" "PBUF_RAM \<noteq> PBUF_REF" "PBUF_RAM \<noteq> PBUF_ROM" "PBUF_RAM \<noteq> PBUF_POOL"
  by (simp_all add: PBUF_POOL_def PBUF_RAM_def PBUF_REF_def PBUF_ROM_def PBUF_ALLOC_FLAG_RX_def PBUF_ALLOC_FLAG_DATA_CONTIGUOUS_def
      PBUF_TYPE_FLAG_STRUCT_DATA_CONTIGUOUS_def PBUF_TYPE_FLAG_DATA_VOLATILE_def PBUF_TYPE_ALLOC_SRC_MASK_def PBUF_TYPE_ALLOC_SRC_MASK_STD_HEAP_def
      PBUF_TYPE_ALLOC_SRC_MASK_STD_MEMP_PBUF_def PBUF_TYPE_ALLOC_SRC_MASK_STD_MEMP_PBUF_POOL_def)

lemma pbuf_alloc_ok:
  assumes "allocated_bufs s V" and "type \<in> {PBUF_RAM, PBUF_ROM, PBUF_REF, PBUF_POOL}" and "n < 65536" and "LWIP_MEM_ALIGN_SIZE (cast16 layer) < PBUF_POOL_BUFSIZE_ALIGNED"
  shows "\<exists>x. pbuf_alloc custom [] layer n type s = Some x \<and> alloc_result n (if type = PBUF_POOL then pool_place else (\<lambda>_ _. True)) V s x"
proof -
  consider "type = PBUF_REF \<or> type = PBUF_ROM" | "type = PBUF_POOL" | "type = PBUF_RAM" using assms(2) by blast
  then show ?thesis
  proof cases
    case 1
    then have "pbuf_alloc custom [] layer n type s = pbuf_alloc_reference 0 n type s" "type \<noteq> PBUF_POOL" using types_differ by (auto simp: pbuf_alloc_def)
    then show ?thesis using alloc_reference_ok [OF assms(1) 1] by simp
  next
    case 2
    then have "pbuf_alloc custom [] layer n type s = alloc_pool custom 0 0 n (cast16 layer) s" using types_differ by (simp add: pbuf_alloc_def)
    moreover have "\<exists>x. alloc_pool custom 0 0 n (cast16 layer) s = Some x \<and> alloc_result (chain_len (ps_pbufs s) [] + n) pool_place V s x"
      using assms by (intro alloc_pool_ok) simp_all
    ultimately show ?thesis using 2 by simp
  next
    case 3
    then have "pbuf_alloc custom [] layer n type s = alloc_ram [] (cast16 layer) n s" "type \<noteq> PBUF_POOL" using types_differ by (simp_all add: pbuf_alloc_def)
    then show ?thesis using alloc_ram_ok [OF assms(1)] by simp
  qed
qed

section \<open>A new packet\<close>

text \<open>A new packet that nobody shares joins the counted ones, with one reference to its head.\<close>

lemma refs_packet:
  assumes "refs_ok s V hs" and "packet (ps_pbufs s') p qs" and "p \<noteq> 0" and "distinct qs" and "V \<inter> set qs = {}" and "allocated_bufs s' (V \<union> set qs)"
    and "\<forall>q \<in> set qs. pb_ref (ps_pbufs s' q) = 1" and "\<forall>x \<in> V. ps_pbufs s' x = ps_pbufs s x" and "chain_len (ps_pbufs s') qs < 65536"
  shows "refs_ok s' (V \<union> set qs) (p # hs)"
proof -
  let ?b = "ps_pbufs s'"
  note fin = allocated_nonzero [OF assms(6)]
  have old: "counted ?b V hs"
  proof (rule countedI)
    have c: "counted (ps_pbufs s) V hs" using assms(1) by (simp add: refs_ok_def)
    show "set hs \<subseteq> V" using c by (simp add: counted_def)
    fix x assume x: "x \<in> V"
    have "inlinks ?b V x = inlinks (ps_pbufs s) V x" using assms(8) by (intro inlinks_cong) simp
    then show "pb_ref (?b x) = count_list hs x + inlinks ?b V x" using countedD(1) [OF c x] assms(8) x by simp
    show "0 < pb_ref (?b x)" "pb_ref (?b x) < 256" using countedD(2,3) [OF c x] assms(8) x by simp_all
    obtain qs where qs: "links (ps_pbufs s) x qs" "set qs \<subseteq> V" using countedD(4) [OF c x] by blast
    have "links ?b x qs = links (ps_pbufs s) x qs" using qs(2) assms(8) by (intro links_cong) auto
    then show "\<exists>qs. links ?b x qs \<and> set qs \<subseteq> V" using qs by blast
  qed
  have "counted ?b (V \<union> set xs) ((if r = 0 then [] else [r]) @ hs)"
    if "packet ?b r xs" "distinct xs" "V \<inter> set xs = {}" "set xs \<subseteq> set qs" for r xs
    using that
  proof (induction xs arbitrary: r)
    case Nil
    then show ?case using old by simp
  next
    case (Cons x xs)
    have x: "r = x" "x \<noteq> 0" "x \<notin> V" "x \<notin> set xs" using Cons.prems by auto
    have IH: "counted ?b (V \<union> set xs) (tail_ref ?b x @ hs)" using Cons.IH [of "pb_next (?b x)"] Cons.prems by (simp add: tail_ref_def)
    have "0 \<notin> V \<union> set xs" using fin(1) Cons.prems(4) by auto
    moreover have "finite (V \<union> set xs)" using fin(2) by simp
    moreover have "pb_ref (?b x) = 1" using assms(7) Cons.prems(4) by simp
    ultimately have "counted ?b (insert x (V \<union> set xs)) (x # hs)" using x by (intro counted_push [OF IH]) simp_all
    then show ?case using x by simp
  qed
  from this [OF assms(2,4,5)] have "counted ?b (V \<union> set qs) (p # hs)" using assms(3) by simp
  moreover have "lengths_ok ?b (V \<union> set qs)"
  proof -
    have "lengths_ok ?b (set xs)" if "packet ?b r xs" "chain_len ?b xs < 65536" for r xs
      using that
    proof (induction xs arbitrary: r)
      case (Cons y ys)
      have y: "packet ?b (pb_next (?b y)) ys" "chain_len ?b ys < 65536" using Cons.prems by simp_all
      have "lengths_ok ?b (set ys)" by (rule Cons.IH [OF y])
      moreover have "rest_len ?b y = chain_len ?b ys" using Cons.prems(1) by (cases ys) (auto simp: rest_len_def)
      ultimately show ?case using Cons.prems by (auto simp: lengths_ok_def)
    qed (simp add: lengths_ok_def)
    then have "lengths_ok ?b (set qs)" using assms(2,9) by blast
    moreover have "lengths_ok ?b V"
    proof (rule lengths_same)
      have r: "lengths_ok (ps_pbufs s) V" "counted (ps_pbufs s) V hs" using assms(1) by (simp_all add: refs_ok_def)
      show "lengths_ok (ps_pbufs s) V" by (rule r(1))
      have z: "0 \<notin> V" using fin(1) by simp
      show "pb_next (ps_pbufs s x) \<in> V" if "x \<in> V" "pb_next (ps_pbufs s x) \<noteq> 0" for x using next_live [OF r(2) z that] .
      show "?b x = ps_pbufs s x" if "x \<in> V" for x using assms(8) that by blast
    qed
    ultimately show ?thesis by (auto simp: lengths_ok_def)
  qed
  ultimately show ?thesis using assms(6) by (simp add: refs_ok_def)
qed

end
