(* ===== verification/PbufRuns.thy ===== *)
theory PbufRuns
  imports PbufRefs
begin

text \<open>
  The states of the packet buffers of \<^verbatim>\<open>pbuf.c\<close> that legal calls of its users reach, which calls are legal, and what allocation does when
  memory runs out in the middle of a packet.
\<close>

section \<open>Runs\<close>

text \<open>What users do with the references they hold; a call names a reference by its place in the list of these.\<close>

datatype ref_op = New_Buf nat nat u16 | Share nat | Drop_Ref nat | Append nat nat | Chain_Bufs nat nat | Separate nat

fun ref_step :: "free_custom \<Rightarrow> ref_op \<Rightarrow> pbuf_store \<times> nat list \<Rightarrow> (pbuf_store \<times> nat list) option" where
  "ref_step custom (New_Buf layer n type) (s, hs) = do { (p, s) \<leftarrow> pbuf_alloc custom [] layer n type s; Some (s, if p = 0 then hs else p # hs) }"
| "ref_step custom (Share i) (s, hs) =
     (if i < length hs then do { s \<leftarrow> pbuf_ref (hs ! i) s; Some (s, hs ! i # hs) } else None)"
| "ref_step custom (Drop_Ref i) (s, hs) =
     (if i < length hs then do { (count, s) \<leftarrow> pbuf_free custom (hs ! i) s; Some (s, remove1 (hs ! i) hs) } else None)"
| "ref_step custom (Append i j) (s, hs) =
     (if i < length hs \<and> j < length hs then do { s \<leftarrow> pbuf_cat (hs ! i) (hs ! j) s; Some (s, remove1 (hs ! j) hs) } else None)"
| "ref_step custom (Chain_Bufs i j) (s, hs) =
     (if i < length hs \<and> j < length hs then do { s \<leftarrow> pbuf_chain (hs ! i) (hs ! j) s; Some (s, hs) } else None)"
| "ref_step custom (Separate i) (s, hs) =
     (if i < length hs then do { (r, s) \<leftarrow> pbuf_dechain custom (hs ! i) s; Some (s, hs) } else None)"

text \<open>
  What the calls ask of their callers. The buffers that callers know are those on the chains of their references. A chain is a packet of its own
  when no other buffer points into it. Chains are joined when they share no buffer, the first is a packet of its own and the lengths add up to a
  16-bit number; a buffer is separated from the rest when it is the first of its packet; and a count is an 8-bit number.
\<close>

definition known_bufs :: "(nat \<Rightarrow> pbuf) \<Rightarrow> nat list \<Rightarrow> nat set" where
  "known_bufs b hs = {x. \<exists>h \<in> set hs. \<exists>qs. links b h qs \<and> x \<in> set qs}"

definition disjoint_chains :: "(nat \<Rightarrow> pbuf) \<Rightarrow> nat \<Rightarrow> nat \<Rightarrow> bool" where
  "disjoint_chains b h t \<longleftrightarrow> (\<exists>ps qs. links b h ps \<and> links b t qs \<and> set ps \<inter> set qs = {})"

definition own_packet :: "(nat \<Rightarrow> pbuf) \<Rightarrow> nat list \<Rightarrow> nat \<Rightarrow> bool" where
  "own_packet b hs h \<longleftrightarrow> (\<forall>ps. links b h ps \<longrightarrow> (\<forall>x \<in> known_bufs b hs. pb_next (b x) \<in> set ps \<longrightarrow> x \<in> set ps))"

definition may_join :: "(nat \<Rightarrow> pbuf) \<Rightarrow> nat list \<Rightarrow> nat \<Rightarrow> nat \<Rightarrow> bool" where
  "may_join b hs h t \<longleftrightarrow> disjoint_chains b h t \<and> own_packet b hs h \<and> pb_tot_len (b h) + pb_tot_len (b t) < 65536"

fun ref_legal :: "ref_op \<Rightarrow> pbuf_store \<times> nat list \<Rightarrow> bool" where
  "ref_legal (New_Buf layer n type) (s, hs) \<longleftrightarrow>
     type \<in> {PBUF_RAM, PBUF_ROM, PBUF_REF, PBUF_POOL} \<and> n < 65536 \<and> LWIP_MEM_ALIGN_SIZE (cast16 layer) < PBUF_POOL_BUFSIZE_ALIGNED"
| "ref_legal (Share i) (s, hs) \<longleftrightarrow> i < length hs \<and> pb_ref (ps_pbufs s (hs ! i)) < 255"
| "ref_legal (Drop_Ref i) (s, hs) \<longleftrightarrow> i < length hs"
| "ref_legal (Append i j) (s, hs) \<longleftrightarrow> i < length hs \<and> j < length hs \<and> may_join (ps_pbufs s) hs (hs ! i) (hs ! j)"
| "ref_legal (Chain_Bufs i j) (s, hs) \<longleftrightarrow>
     i < length hs \<and> j < length hs \<and> may_join (ps_pbufs s) hs (hs ! i) (hs ! j) \<and> pb_ref (ps_pbufs s (hs ! j)) < 255"
| "ref_legal (Separate i) (s, hs) \<longleftrightarrow> i < length hs \<and> (\<forall>x \<in> known_bufs (ps_pbufs s) hs. pb_next (ps_pbufs s x) \<noteq> hs ! i)"

text \<open>The states that legal calls reach.\<close>

inductive ref_reach :: "free_custom \<Rightarrow> pbuf_store \<Rightarrow> pbuf_store \<times> nat list \<Rightarrow> bool" for custom s0 where
  fresh: "ref_reach custom s0 (s0, [])"
| call: "ref_reach custom s0 x \<Longrightarrow> ref_legal op x \<Longrightarrow> ref_step custom op x = Some x' \<Longrightarrow> ref_reach custom s0 x'"

section \<open>The calls keep the counts\<close>

lemma live_path: "counted b V hs \<Longrightarrow> x \<in> V \<Longrightarrow> links b x qs \<Longrightarrow> set qs \<subseteq> V"
  using countedD(4) links_unique by metis

text \<open>Every live buffer is on the chain of a reference that somebody holds: follow the pointers to it back, which is possible only finitely often.\<close>

lemma links_follow: "links b h qs \<Longrightarrow> y \<in> set qs \<Longrightarrow> pb_next (b y) \<noteq> 0 \<Longrightarrow> pb_next (b y) \<in> set qs"
proof (induction qs arbitrary: h)
  case (Cons q qs)
  then show ?case by (cases "y = q"; cases qs) auto
qed simp

lemma all_reachable:
  assumes "counted b V hs" and "finite V" and "0 \<notin> V" and "x \<in> V"
  shows "\<exists>h \<in> set hs. \<exists>qs. links b h qs \<and> x \<in> set qs"
proof -
  obtain xs where xs: "links b x xs" using countedD(4) [OF assms(1,4)] by blast
  from xs assms(4) show ?thesis
  proof (induction "card V - length xs" arbitrary: x xs rule: less_induct)
    case less
    have x0: "x \<noteq> 0" using less.prems(2) assms(3) by (rule in_nonzero)
    show ?case
    proof (cases "x \<in> set hs")
      case True
      moreover have "x \<in> set xs" using less.prems(1) x0 by (cases xs) auto
      ultimately show ?thesis using less.prems(1) by blast
    next
      case False
      then have "0 < inlinks b V x" using countedD(1,2) [OF assms(1) less.prems(2)] by (simp add: count_list_0_iff)
      then obtain y where y: "y \<in> V" "pb_next (b y) = x" using inlinks_zero [OF assms(2), of b x] by auto
      have "y \<noteq> 0" using y(1) assms(3) by (rule in_nonzero)
      then have ys: "links b y (y # xs)" using less.prems(1) y(2) by simp
      have "length (y # xs) \<le> card V"
        using live_path [OF assms(1) y(1) ys] links_distinct [OF ys] assms(2) by (metis card_mono distinct_card)
      then have "card V - length (y # xs) < card V - length xs" by simp
      then obtain h qs where h: "h \<in> set hs" "links b h qs" "y \<in> set qs" using less.hyps [OF _ ys y(1)] by blast
      then show ?thesis using links_follow [OF h(2,3)] y(2) x0 by blast
    qed
  qed
qed

lemma known_bufs_all: "counted b V hs \<Longrightarrow> finite V \<Longrightarrow> 0 \<notin> V \<Longrightarrow> known_bufs b hs = V"
proof (rule set_eqI)
  fix x assume a: "counted b V hs" "finite V" "0 \<notin> V"
  have "x \<in> V" if "h \<in> set hs" "links b h qs" "x \<in> set qs" for h qs
    using live_path [OF a(1) counted_live [OF a(1) that(1)] that(2)] that(3) by blast
  then show "x \<in> known_bufs b hs \<longleftrightarrow> x \<in> V" using all_reachable [OF a] unfolding known_bufs_def by blast
qed

lemma handle_live: "refs_ok s V hs \<Longrightarrow> i < length hs \<Longrightarrow> hs ! i \<in> set hs \<and> hs ! i \<in> V \<and> hs ! i \<noteq> 0"
proof -
  assume a: "refs_ok s V hs" "i < length hs"
  then have ok: "allocated_bufs s V" "counted (ps_pbufs s) V hs" by (simp_all add: refs_ok_def)
  have v: "hs ! i \<in> V" by (rule counted_live [OF ok(2)]) (simp add: a(2))
  moreover have "hs ! i \<noteq> 0" using v allocated_nonzero(1) [OF ok(1)] by (rule in_nonzero)
  ultimately show ?thesis using a(2) by simp
qed

lemma new_step_ok:
  assumes "refs_ok s V hs" and "ref_legal (New_Buf layer n type) (s, hs)"
  shows "\<exists>s' V' hs'. ref_step custom (New_Buf layer n type) (s, hs) = Some (s', hs') \<and> refs_ok s' V' hs'"
proof -
  have a: "allocated_bufs s V" using assms(1) by (simp add: refs_ok_def)
  obtain x where x: "pbuf_alloc custom [] layer n type s = Some x" "alloc_result n (\<lambda>_ _. True) V s x"
    using pbuf_alloc_ok [OF a, of type n layer custom] assms(2) alloc_result_mono by fastforce
  obtain p s' where ps: "x = (p, s')" by (cases x)
  show ?thesis
  proof (cases "p = 0")
    case True
    then have "allocated_bufs s' V" "\<forall>y \<in> V. ps_pbufs s' y = ps_pbufs s y" using x(2) by (simp_all add: alloc_result_def ps)
    moreover then have "counted (ps_pbufs s') V hs" "lengths_ok (ps_pbufs s') V"
    proof -
      have c: "counted (ps_pbufs s) V hs" "lengths_ok (ps_pbufs s) V" using assms(1) by (simp_all add: refs_ok_def)
      have n: "\<And>y. y \<in> V \<Longrightarrow> ps_pbufs s' y = ps_pbufs s y" using calculation by simp
      show "lengths_ok (ps_pbufs s') V" by (rule lengths_same [OF c(2) n next_live [OF c(1) allocated_nonzero(1) [OF a]]])
      show "counted (ps_pbufs s') V hs"
      proof (rule countedI)
        show "set hs \<subseteq> V" using c by (simp add: counted_def)
        fix y assume y: "y \<in> V"
        have "inlinks (ps_pbufs s') V y = inlinks (ps_pbufs s) V y" using n by (intro inlinks_cong) simp
        then show "pb_ref (ps_pbufs s' y) = count_list hs y + inlinks (ps_pbufs s') V y" using countedD(1) [OF c(1) y] n [OF y] by simp
        show "0 < pb_ref (ps_pbufs s' y)" "pb_ref (ps_pbufs s' y) < 256" using countedD(2,3) [OF c(1) y] n [OF y] by simp_all
        obtain qs where qs: "links (ps_pbufs s) y qs" "set qs \<subseteq> V" using countedD(4) [OF c(1) y] by blast
        have "links (ps_pbufs s') y qs = links (ps_pbufs s) y qs" using qs(2) n by (intro links_cong) auto
        then show "\<exists>qs. links (ps_pbufs s') y qs \<and> set qs \<subseteq> V" using qs by blast
      qed
    qed
    ultimately have "refs_ok s' V hs" by (simp add: refs_ok_def)
    then show ?thesis using x(1) ps True by auto
  next
    case False
    then obtain qs where "packet (ps_pbufs s') p qs" "distinct qs" "V \<inter> set qs = {}" "allocated_bufs s' (V \<union> set qs)" "\<forall>q \<in> set qs. pb_ref (ps_pbufs s' q) = 1"
      "\<forall>y \<in> V. ps_pbufs s' y = ps_pbufs s y" "chain_len (ps_pbufs s') qs < 65536" using x(2) assms(2) by (auto simp: alloc_result_def ps)
    then have "refs_ok s' (V \<union> set qs) (p # hs)" using refs_packet [OF assms(1)] False by blast
    then show ?thesis using x(1) ps False by auto
  qed
qed

lemma share_ok:
  assumes "refs_ok s V hs" and "p \<in> V" and "pb_ref (ps_pbufs s p) < 255"
  shows "\<exists>s'. pbuf_ref p s = Some s' \<and> refs_ok s' V (p # hs)"
proof -
  let ?s = "set_pbuf p (\<lambda>b. b\<lparr>pb_ref := cast8 (pb_ref b + 1)\<rparr>) s"
  have a: "allocated_bufs s V" "counted (ps_pbufs s) V hs" "lengths_ok (ps_pbufs s) V" using assms(1) by (simp_all add: refs_ok_def)
  have "p \<noteq> 0" using assms(2) allocated_nonzero(1) [OF a(1)] by (rule in_nonzero)
  moreover have c: "cast8 (pb_ref (ps_pbufs s p) + 1) = pb_ref (ps_pbufs s p) + 1" using assms(3) by (simp add: cast8_def)
  ultimately have "pbuf_ref p s = Some ?s" by (simp add: pbuf_ref_def)
  moreover have "allocated_bufs ?s V" by (rule allocated_cong [OF a(1)]) (simp_all add: same_types_def)
  moreover have "counted (ps_pbufs ?s) V (p # hs)" using c by (intro counted_share [OF a(2) assms(2,3)]) simp_all
  moreover have "lengths_ok (ps_pbufs ?s) V" by (rule lengths_cong [OF a(3)]) auto
  ultimately show ?thesis by (simp add: refs_ok_def)
qed


text \<open>The order of the references does not matter.\<close>

lemma refs_ok_again: "refs_ok s V (t # remove1 t hs) \<Longrightarrow> t \<in> set hs \<Longrightarrow> refs_ok s V hs"
proof -
  assume a: "refs_ok s V (t # remove1 t hs)" "t \<in> set hs"
  then have c: "counted (ps_pbufs s) V (t # remove1 t hs)" by (simp add: refs_ok_def)
  have "counted (ps_pbufs s) V hs"
  proof (rule countedI)
    have "set hs \<subseteq> insert t (set (remove1 t hs))" by (metis in_set_remove1 insert_iff subsetI)
    then show "set hs \<subseteq> V" using c by (auto simp: counted_def)
    fix x assume x: "x \<in> V"
    show "pb_ref (ps_pbufs s x) = count_list hs x + inlinks (ps_pbufs s) V x" using countedD(1) [OF c x] count_pos [OF a(2)] by (auto split: if_splits)
    show "0 < pb_ref (ps_pbufs s x)" "pb_ref (ps_pbufs s x) < 256" "\<exists>qs. links (ps_pbufs s) x qs \<and> set qs \<subseteq> V" using countedD(2-4) [OF c x] by simp_all
  qed
  then show ?thesis using a(1) by (simp add: refs_ok_def)
qed

text \<open>The walk of \<^verbatim>\<open>pbuf_cat\<close> to the last buffer changes the lengths of the rest only.\<close>

definition lengths_changed :: "nat set \<Rightarrow> pbuf_store \<Rightarrow> pbuf_store \<Rightarrow> bool" where
  "lengths_changed X s' s \<longleftrightarrow> ps_heap s' = ps_heap s \<and> ps_structs s' = ps_structs s \<and> ps_pool s' = ps_pool s \<and>
     (\<forall>x. \<exists>n. ps_pbufs s' x = (ps_pbufs s x)\<lparr>pb_tot_len := n\<rparr>) \<and> (\<forall>x. x \<notin> X \<longrightarrow> ps_pbufs s' x = ps_pbufs s x)"

lemma lengths_changedD:
  assumes "lengths_changed X s' s"
  shows "ps_heap s' = ps_heap s" "ps_structs s' = ps_structs s" "ps_pool s' = ps_pool s" "\<And>x. x \<notin> X \<Longrightarrow> ps_pbufs s' x = ps_pbufs s x"
    "\<And>x. pb_next (ps_pbufs s' x) = pb_next (ps_pbufs s x)" "\<And>x. pb_ref (ps_pbufs s' x) = pb_ref (ps_pbufs s x)"
    "\<And>x. pb_type (ps_pbufs s' x) = pb_type (ps_pbufs s x)" "\<And>x. pb_flags (ps_pbufs s' x) = pb_flags (ps_pbufs s x)"
proof -
  show "ps_heap s' = ps_heap s" "ps_structs s' = ps_structs s" "ps_pool s' = ps_pool s" "\<And>x. x \<notin> X \<Longrightarrow> ps_pbufs s' x = ps_pbufs s x"
    using assms by (simp_all add: lengths_changed_def)
  fix x
  obtain n where "ps_pbufs s' x = (ps_pbufs s x)\<lparr>pb_tot_len := n\<rparr>" using assms unfolding lengths_changed_def by blast
  then show "pb_next (ps_pbufs s' x) = pb_next (ps_pbufs s x)" "pb_ref (ps_pbufs s' x) = pb_ref (ps_pbufs s x)"
    "pb_type (ps_pbufs s' x) = pb_type (ps_pbufs s x)" "pb_flags (ps_pbufs s' x) = pb_flags (ps_pbufs s x)" by simp_all
qed

lemma lengths_changed_set:
  assumes "lengths_changed X s2 (set_pbuf p (\<lambda>b. b\<lparr>pb_tot_len := n\<rparr>) s)"
  shows "lengths_changed (insert p X) s2 s"
proof -
  let ?s = "set_pbuf p (\<lambda>b. b\<lparr>pb_tot_len := n\<rparr>) s"
  have "\<exists>m. ps_pbufs s2 x = (ps_pbufs s x)\<lparr>pb_tot_len := m\<rparr>" for x
  proof -
    obtain m where "ps_pbufs s2 x = (ps_pbufs ?s x)\<lparr>pb_tot_len := m\<rparr>" using assms unfolding lengths_changed_def by blast
    then show ?thesis by (intro exI [of _ m]) (simp split: if_splits)
  qed
  then show ?thesis using assms by (simp add: lengths_changed_def)
qed

lemma links_head: "links b p (A @ [e]) \<Longrightarrow> p \<noteq> 0"
  by (cases A) auto

lemma cat_from_ok:
  "links (ps_pbufs s) p (A @ [e]) \<Longrightarrow> t \<notin> set A \<Longrightarrow> distinct A \<Longrightarrow> \<exists>s'. cat_from p t s = Some (e, s') \<and> lengths_changed (set A) s' s \<and>
   (\<forall>x \<in> set A. pb_tot_len (ps_pbufs s' x) = cast16 (pb_tot_len (ps_pbufs s x) + pb_tot_len (ps_pbufs s t)))"
proof (induction A arbitrary: p s)
  case Nil
  have "\<exists>n. ps_pbufs s x = (ps_pbufs s x)\<lparr>pb_tot_len := n\<rparr>" for x by (rule exI [of _ "pb_tot_len (ps_pbufs s x)"]) simp
  then have "lengths_changed {} s s" by (simp add: lengths_changed_def)
  then show ?case using Nil by (subst cat_from.simps) simp
next
  case (Cons a A)
  let ?n = "cast16 (pb_tot_len (ps_pbufs s p) + pb_tot_len (ps_pbufs s t))"
  let ?s = "set_pbuf p (\<lambda>b. b\<lparr>pb_tot_len := ?n\<rparr>) s"
  have a: "p = a" "links (ps_pbufs s) (pb_next (ps_pbufs s p)) (A @ [e])" "t \<notin> set A" "distinct A" using Cons.prems by simp_all
  have "links (ps_pbufs ?s) (pb_next (ps_pbufs s p)) (A @ [e]) = links (ps_pbufs s) (pb_next (ps_pbufs s p)) (A @ [e])"
    by (rule links_cong) simp
  then obtain s' where s': "cat_from (pb_next (ps_pbufs s p)) t ?s = Some (e, s')" "lengths_changed (set A) s' ?s"
    "\<forall>x \<in> set A. pb_tot_len (ps_pbufs s' x) = cast16 (pb_tot_len (ps_pbufs ?s x) + pb_tot_len (ps_pbufs ?s t))"
    using Cons.IH [of ?s] a(2-4) by blast
  have eq: "set_pbuf p (\<lambda>b. b\<lparr>pb_tot_len := cast16 (pb_tot_len b + pb_tot_len (ps_pbufs s t))\<rparr>) s = ?s" by (simp add: set_pbuf_def)
  have "cat_from p t s = Some (e, s')" using links_head [OF a(2)] s'(1) by (subst cat_from.simps) (simp add: eq)
  moreover have "pb_tot_len (ps_pbufs s' x) = cast16 (pb_tot_len (ps_pbufs s x) + pb_tot_len (ps_pbufs s t))" if "x \<in> set (a # A)" for x
  proof (cases "x = a")
    case True
    then have "x \<notin> set A" using Cons.prems(3) by simp
    then show ?thesis using lengths_changedD(4) [OF s'(2)] True a(1) by simp
  next
    case False
    then show ?thesis using that s'(3) a(1) Cons.prems(2) by auto
  qed
  ultimately show ?case using lengths_changed_set [OF s'(2)] a(1) by auto
qed

text \<open>The lengths along a chain do not grow.\<close>

lemma total_falls: "links b h qs \<Longrightarrow> set qs \<subseteq> V \<Longrightarrow> lengths_ok b V \<Longrightarrow> x \<in> set qs \<Longrightarrow> pb_tot_len (b x) \<le> pb_tot_len (b h)"
proof (induction qs arbitrary: h)
  case (Cons q qs)
  have q: "h = q" "links b (pb_next (b q)) qs" "q \<in> V" using Cons.prems(1,2) by simp_all
  show ?case
  proof (cases "x = q")
    case False
    then have x: "x \<in> set qs" using Cons.prems(4) by simp
    then have "pb_next (b q) \<noteq> 0" using q(2) by (cases qs) auto
    then have "pb_tot_len (b (pb_next (b q))) \<le> pb_tot_len (b q)" using lengths_okD(1) [OF Cons.prems(3) q(3)] by (simp add: rest_len_def)
    moreover have "pb_tot_len (b x) \<le> pb_tot_len (b (pb_next (b q)))" using Cons.IH [OF q(2) _ Cons.prems(3) x] Cons.prems(2) by simp
    ultimately show ?thesis using q(1) by simp
  qed (simp add: q(1))
qed simp

lemma links_inner: "links b p (A @ [e]) \<Longrightarrow> x \<in> set A \<Longrightarrow> pb_next (b x) \<noteq> 0"
proof (induction A arbitrary: p)
  case (Cons a A)
  then show ?case using links_head [of b "pb_next (b a)" A e] by auto
qed simp

lemma links_end: "links b p (A @ [e]) \<Longrightarrow> pb_next (b e) = 0"
  by (induction A arbitrary: p) auto


lemma links_nonempty: "links b x qs \<Longrightarrow> x \<noteq> 0 \<Longrightarrow> qs \<noteq> []"
  by (cases qs) auto

lemma cat_ok:
  assumes "refs_ok s V hs" and "h \<in> V" and "t \<in> set hs" and "may_join (ps_pbufs s) hs h t"
  shows "\<exists>s'. pbuf_cat h t s = Some s' \<and> refs_ok s' V (remove1 t hs) \<and> pb_ref (ps_pbufs s' t) = pb_ref (ps_pbufs s t)"
proof -
  let ?b = "ps_pbufs s"
  have ok: "allocated_bufs s V" "counted ?b V hs" "lengths_ok ?b V" using assms(1) by (simp_all add: refs_ok_def)
  note fin = allocated_nonzero [OF ok(1)]
  have t: "t \<in> V" using ok(2) assms(3) by (rule counted_live)
  have nz: "h \<noteq> 0" "t \<noteq> 0" using in_nonzero [OF assms(2) fin(1)] in_nonzero [OF t fin(1)] by simp_all
  obtain ps qs where pq: "links ?b h ps" "links ?b t qs" "set ps \<inter> set qs = {}" using assms(4) unfolding may_join_def disjoint_chains_def by blast
  have own: "x \<in> set ps" if "x \<in> V" "pb_next (?b x) \<in> set ps" for x
    using assms(4) pq(1) that known_bufs_all [OF ok(2) fin(2,1)] unfolding may_join_def own_packet_def by blast
  have sm: "pb_tot_len (?b h) + pb_tot_len (?b t) < 65536" using assms(4) by (simp add: may_join_def)
  obtain A e where A: "ps = A @ [e]" using links_nonempty [OF pq(1) nz(1)] by (metis rev_exhaust)
  have psV: "set ps \<subseteq> V" by (rule live_path [OF ok(2) assms(2) pq(1)])
  have e: "e \<in> V" "pb_next (?b e) = 0" "e \<notin> set A" "e \<notin> set qs" "distinct A"
    using psV links_end [OF pq(1) [unfolded A]] links_distinct [OF pq(1)] pq(3) by (auto simp: A)
  have mem: "h \<in> set ps" "t \<in> set qs" using pq(1,2) nz by (cases ps; cases qs; auto)+
  then have t': "h \<noteq> t" "t \<notin> set ps" using pq(3) by auto
  have tA: "t \<notin> set A" using t'(2) A by simp
  have small: "cast16 (pb_tot_len (?b x) + pb_tot_len (?b t)) = pb_tot_len (?b x) + pb_tot_len (?b t)" "pb_tot_len (?b x) + pb_tot_len (?b t) < 65536" if "x \<in> set ps" for x
    using total_falls [OF pq(1) psV ok(3) that] sm by (simp_all add: cast16_def)
  obtain s1 where s1: "cat_from h t s = Some (e, s1)" "lengths_changed (set A) s1 s"
    "\<forall>x \<in> set A. pb_tot_len (ps_pbufs s1 x) = cast16 (pb_tot_len (?b x) + pb_tot_len (?b t))"
    using cat_from_ok [of s h A e t] pq(1) A tA e(5) by blast
  note d = lengths_changedD [OF s1(2)]
  have be: "ps_pbufs s1 e = ?b e" "ps_pbufs s1 t = ?b t" using d(4) e(3) tA by blast+
  let ?s = "set_pbuf e (\<lambda>b. b\<lparr>pb_tot_len := cast16 (pb_tot_len b + pb_tot_len (ps_pbufs s1 t)), pb_next := t\<rparr>) s1"
  have le: "pb_tot_len (?b e) = pb_len (?b e)" using lengths_okD(1) [OF ok(3) e(1)] e(2) by (simp add: rest_len_def)
  then have "pbuf_cat h t s = Some ?s" using s1(1) nz t'(1) be e(2) by (simp add: pbuf_cat_def)
  moreover have "allocated_bufs ?s V" using d by (intro allocated_cong [OF ok(1)]) (simp_all add: same_types_def)
  moreover have "counted (ps_pbufs ?s) V (remove1 t hs)"
    by (rule counted_link [OF ok(2) fin(2,1) e(1,2) assms(3) pq(2) e(4)]) (simp_all add: d)
  moreover have "lengths_ok (ps_pbufs ?s) V"
  proof (rule lengths_okI)
    fix x assume x: "x \<in> V"
    have tot: "pb_tot_len (ps_pbufs ?s y) = (if y \<in> set ps then pb_tot_len (?b y) + pb_tot_len (?b t) else pb_tot_len (?b y))" for y
      using s1(3) be small d(4) by (cases "y = e"; cases "y \<in> set A") (auto simp: A)
    have nx: "pb_next (ps_pbufs ?s x) = (if x = e then t else pb_next (?b x))" using d(5) by simp
    have ln: "pb_len (ps_pbufs ?s x) = pb_len (?b x)"
    proof -
      obtain n where "ps_pbufs s1 x = (?b x)\<lparr>pb_tot_len := n\<rparr>" using s1(2) unfolding lengths_changed_def by blast
      then show ?thesis by (cases "x = e") simp_all
    qed
    note x' = lengths_okD [OF ok(3) x]
    have r: "rest_len (ps_pbufs ?s) x = rest_len ?b x + (if x \<in> set ps then pb_tot_len (?b t) else 0)"
    proof (cases "x = e")
      case True
      then have "rest_len (ps_pbufs ?s) x = pb_tot_len (?b t)" using nz(2) t'(2) unfolding rest_len_def nx tot by simp
      moreover have "rest_len ?b x = 0" "x \<in> set ps" using True e(2) by (simp_all add: rest_len_def A)
      ultimately show ?thesis by simp
    next
      case ne: False
      show ?thesis
      proof (cases "x \<in> set ps")
        case True
        then have "x \<in> set A" using ne A by simp
        then have n0: "pb_next (?b x) \<noteq> 0" using links_inner [of ?b h A e x] pq(1) A by simp
        have "pb_next (?b x) \<in> set ps" by (rule links_follow [OF pq(1) True n0])
        then show ?thesis using ne True n0 tot unfolding rest_len_def nx by simp
      next
        case False
        then have "pb_next (?b x) \<notin> set ps" using own [OF x] by blast
        then show ?thesis using ne False tot unfolding rest_len_def nx by simp
      qed
    qed
    show "pb_tot_len (ps_pbufs ?s x) = pb_len (ps_pbufs ?s x) + rest_len (ps_pbufs ?s) x \<and> pb_tot_len (ps_pbufs ?s x) < 65536"
      using x' small(2) [of x] unfolding r tot ln by (cases "x \<in> set ps") simp_all
  qed
  moreover have "pb_ref (ps_pbufs ?s t) = pb_ref (?b t)" using d(6) by simp
  ultimately show ?thesis unfolding refs_ok_def by blast
qed

lemma dechain_ok:
  assumes "refs_ok s V hs" and "p \<in> V" and "\<forall>x \<in> V. pb_next (ps_pbufs s x) \<noteq> p"
  shows "\<exists>r s' V'. pbuf_dechain custom p s = Some (r, s') \<and> refs_ok s' V' hs"
proof -
  let ?b = "ps_pbufs s" and ?q = "pb_next (ps_pbufs s p)"
  have ok: "allocated_bufs s V" "counted ?b V hs" "lengths_ok ?b V" using assms(1) by (simp_all add: refs_ok_def)
  note fin = allocated_nonzero [OF ok(1)] and tl = lengths_okD [OF ok(3) assms(2)]
  show ?thesis
  proof (cases "?q = 0")
    case True
    then have "pb_tot_len (?b p) = pb_len (?b p)" using tl(1) by (simp add: rest_len_def)
    then show ?thesis using True assms(1) by (auto simp: pbuf_dechain_def)
  next
    case False
    have len: "pb_len (?b p) + pb_tot_len (?b ?q) = pb_tot_len (?b p)" "pb_tot_len (?b p) < 65536" using tl False by (simp_all add: rest_len_def)
    have pn: "p \<noteq> 0" by (rule in_nonzero [OF assms(2) fin(1)])
    obtain qs where qs: "links ?b p qs" using countedD(4) [OF ok(2) assms(2)] by blast
    have "p \<noteq> ?q"
    proof
      assume "p = ?q"
      then have "\<not> distinct qs" using qs pn False by (cases qs; cases "tl qs") auto
      then show False using links_distinct [OF qs] by simp
    qed
    let ?s1 = "set_pbuf ?q (\<lambda>b. b\<lparr>pb_tot_len := diff16 (pb_tot_len (?b p)) (pb_len (?b p))\<rparr>) s"
    let ?s = "set_pbuf p (\<lambda>b. b\<lparr>pb_next := 0, pb_tot_len := pb_len b\<rparr>) ?s1"
    have d: "diff16 (pb_tot_len (?b p)) (pb_len (?b p)) = pb_tot_len (?b ?q)" using len diff16_nat [of "pb_len (?b p)" "pb_tot_len (?b p)"] by auto
    have "allocated_bufs ?s V" by (rule allocated_cong [OF ok(1)]) (simp_all add: same_types_def)
    moreover have "counted (ps_pbufs ?s) V (?q # hs)" by (rule counted_unlink [OF ok(2) fin(2,1) assms(2) False]) simp_all
    moreover have "lengths_ok (ps_pbufs ?s) V"
    proof (rule lengths_okI)
      fix x assume x: "x \<in> V"
      have tot: "pb_tot_len (ps_pbufs ?s y) = (if y = p then pb_len (?b p) else pb_tot_len (?b y))" for y using d \<open>p \<noteq> ?q\<close> by auto
      have ln: "pb_len (ps_pbufs ?s x) = pb_len (?b x)" by simp
      have nx: "pb_next (ps_pbufs ?s x) = (if x = p then 0 else pb_next (?b x))" by simp
      have "pb_next (?b x) \<noteq> p" using assms(3) x by blast
      then have r: "rest_len (ps_pbufs ?s) x = (if x = p then 0 else rest_len ?b x)" unfolding rest_len_def nx tot by simp
      show "pb_tot_len (ps_pbufs ?s x) = pb_len (ps_pbufs ?s x) + rest_len (ps_pbufs ?s) x \<and> pb_tot_len (ps_pbufs ?s x) < 65536"
        using lengths_okD [OF ok(3) x] len unfolding r tot ln by (cases "x = p") simp_all
    qed
    ultimately have "refs_ok ?s V (?q # hs)" by (simp add: refs_ok_def)
    then obtain k s' V' where r: "free_from custom ?q 0 ?s = Some (k, s')" "refs_ok s' V' hs"
      "\<forall>x. pb_len (ps_pbufs s' x) = pb_len (ps_pbufs ?s x) \<and> pb_tot_len (ps_pbufs s' x) = pb_tot_len (ps_pbufs ?s x)"
      using free_from_ok [of ?s V "?q # hs" ?q custom 0] by auto
    have "pb_tot_len (ps_pbufs s' p) = pb_len (ps_pbufs s' p)" using r(3) by simp
    moreover have "int (pb_tot_len (?b ?q)) = int (pb_tot_len (?b p)) - int (pb_len (?b p))" using len by simp
    ultimately have "pbuf_dechain custom p s = Some (if k > 0 then 0 else ?q, s')" using False r(1) \<open>p \<noteq> ?q\<close> by (simp add: pbuf_dechain_def pbuf_free_def Let_def)
    then show ?thesis using r(2) by blast
  qed
qed

lemma ref_step_ok:
  assumes "refs_ok s V hs" and "ref_legal op (s, hs)"
  shows "\<exists>s' V' hs'. ref_step custom op (s, hs) = Some (s', hs') \<and> refs_ok s' V' hs'"
proof (cases op)
  case (New_Buf layer n type)
  then show ?thesis using new_step_ok assms by blast
next
  case (Share i)
  then have i: "i < length hs" "pb_ref (ps_pbufs s (hs ! i)) < 255" using assms(2) by simp_all
  obtain s' where "pbuf_ref (hs ! i) s = Some s'" "refs_ok s' V (hs ! i # hs)"
    using share_ok [OF assms(1), of "hs ! i"] handle_live [OF assms(1) i(1)] i(2) by blast
  then show ?thesis using i Share by auto
next
  case (Drop_Ref i)
  then have i: "i < length hs" using assms(2) by simp
  have h: "hs ! i \<in> set hs" "hs ! i \<noteq> 0" using handle_live [OF assms(1) i] by simp_all
  obtain k s' V' where "free_from custom (hs ! i) 0 s = Some (k, s')" "refs_ok s' V' (remove1 (hs ! i) hs)"
    using free_from_ok [OF assms(1) h(1)] by blast
  then show ?thesis using i h(2) Drop_Ref by (auto simp: pbuf_free_def)
next
  case (Append i j)
  then have i: "i < length hs" "j < length hs" "may_join (ps_pbufs s) hs (hs ! i) (hs ! j)" using assms(2) by simp_all
  obtain s' where "pbuf_cat (hs ! i) (hs ! j) s = Some s'" "refs_ok s' V (remove1 (hs ! j) hs)"
    using cat_ok [OF assms(1) _ _ i(3)] handle_live [OF assms(1) i(1)] handle_live [OF assms(1) i(2)] by blast
  then show ?thesis using i Append by auto
next
  case (Chain_Bufs i j)
  then have i: "i < length hs" "j < length hs" "may_join (ps_pbufs s) hs (hs ! i) (hs ! j)" "pb_ref (ps_pbufs s (hs ! j)) < 255"
    using assms(2) by simp_all
  have t: "hs ! j \<in> set hs" "hs ! j \<in> V" using handle_live [OF assms(1) i(2)] by simp_all
  obtain s' where s': "pbuf_cat (hs ! i) (hs ! j) s = Some s'" "refs_ok s' V (remove1 (hs ! j) hs)" "pb_ref (ps_pbufs s' (hs ! j)) = pb_ref (ps_pbufs s (hs ! j))"
    using cat_ok [OF assms(1) _ t(1) i(3)] handle_live [OF assms(1) i(1)] by blast
  then obtain s2 where "pbuf_ref (hs ! j) s' = Some s2" "refs_ok s2 V (hs ! j # remove1 (hs ! j) hs)" using share_ok [OF s'(2) t(2)] i(4) by auto
  then show ?thesis using refs_ok_again [OF _ t(1)] s'(1) i(1,2) Chain_Bufs by (auto simp: pbuf_chain_def)
next
  case (Separate i)
  have ok: "allocated_bufs s V" "counted (ps_pbufs s) V hs" using assms(1) by (simp_all add: refs_ok_def)
  from Separate have i: "i < length hs" "\<forall>x \<in> V. pb_next (ps_pbufs s x) \<noteq> hs ! i"
    using assms(2) known_bufs_all [OF ok(2) allocated_nonzero(2,1) [OF ok(1)]] by simp_all
  obtain r s' V' where "pbuf_dechain custom (hs ! i) s = Some (r, s')" "refs_ok s' V' hs"
    using dechain_ok [OF assms(1) _ i(2)] handle_live [OF assms(1) i(1)] by blast
  then show ?thesis using i(1) Separate by auto
qed

lemma ref_reach_ok:
  assumes "ref_reach custom s0 x" and "refs_ok s0 V0 []"
  shows "\<exists>V. refs_ok (fst x) V (snd x)"
  using assms
proof (induction rule: ref_reach.induct)
  case fresh
  then show ?case by auto
next
  case (call x op x')
  obtain s hs where x: "x = (s, hs)" by (cases x)
  obtain V where V: "refs_ok s V hs" using call.IH call.prems x by auto
  from ref_step_ok [OF V, of op custom] call.hyps(2,3) x show ?case by fastforce
qed

text \<open>At the start nothing is handed out.\<close>

lemma fresh_memory:
  assumes "ps_structs s0 = memp_init_pool (LWIP_MEMPOOL_DECLARE n1 e1 b1 m1)" and "ps_pool s0 = memp_init_pool (LWIP_MEMPOOL_DECLARE n2 e2 b2 m2)"
    and "0 < e1" and "0 < b1" and "0 < e2" and "0 < b2" and "ps_heap s0 = mem_init ram_heap h0" and "0 < ram_heap" and "memory_ok s0"
  shows "allocated_bufs s0 {}"
proof -
  have "pool_holds (ps_structs s0) {}" "pool_holds (ps_pool s0) {}" "heap_holds (ps_heap s0) {}"
    using init_pool_ok [OF declared_pool [OF assms(3,4)]] init_pool_ok [OF declared_pool [OF assms(5,6)]]
      mem_init_ok [OF assms(8), of h0] fresh_held unfolding pool_holds_def heap_holds_def assms(1,2,7) by fastforce+
  then have "pieces s0 {} {} {}" using assms(9) by (simp add: pieces_def alloc_src_def)
  then show ?thesis by (rule allocatedI) simp
qed

section \<open>The counts are exact\<close>

text \<open>
  C29: No packet buffer is used after it was freed, and none is lost. In every state that legal calls of \<^verbatim>\<open>pbuf_alloc\<close>, \<^verbatim>\<open>pbuf_ref\<close>,
  \<^verbatim>\<open>pbuf_free\<close>, \<^verbatim>\<open>pbuf_cat\<close>, \<^verbatim>\<open>pbuf_chain\<close> and \<^verbatim>\<open>pbuf_dechain\<close> reach from fresh memory, every further legal call returns without a failing
  assertion. Legal is a call on references that are held as long as the 8-bit count of a buffer that is shared stays below its limit; chains are
  joined when they have no buffer in common, no other buffer points into the first, and their lengths together stay below \<open>65536\<close>; a buffer is
  separated from its rest when no other points to it.
  With \<open>V\<close> the buffers that the pools and the heap have handed out and not got back, and \<open>hs\<close> the references that callers hold, the count of every buffer
  of \<open>V\<close> is the number of its references in \<open>hs\<close> and of the buffers of \<open>V\<close> that point to it, and it is positive; its total length is its
  length and that of the rest behind it; the references that callers hold
  are live, and so is every buffer behind them; every live buffer lies on the chain of such a reference. When callers hold none, all memory is back.
\<close>

theorem pbuf_references_exact:
  assumes "ps_structs s0 = memp_init_pool (LWIP_MEMPOOL_DECLARE n1 e1 b1 m1)" and "ps_pool s0 = memp_init_pool (LWIP_MEMPOOL_DECLARE n2 e2 b2 m2)"
    and "0 < e1" and "0 < b1" and "0 < e2" and "0 < b2" and "ps_heap s0 = mem_init ram_heap h0" and "0 < ram_heap"
    and "memory_ok s0" and "ref_reach custom s0 (s, hs)"
  shows "(\<forall>op. ref_legal op (s, hs) \<longrightarrow> ref_step custom op (s, hs) \<noteq> None) \<and>
    (\<exists>V. allocated_bufs s V \<and> set hs \<subseteq> V \<and>
      (\<forall>x \<in> V. pb_ref (ps_pbufs s x) = count_list hs x + card {y \<in> V. pb_next (ps_pbufs s y) = x} \<and> 0 < pb_ref (ps_pbufs s x) \<and>
        pb_tot_len (ps_pbufs s x) = pb_len (ps_pbufs s x) + (if pb_next (ps_pbufs s x) = 0 then 0 else pb_tot_len (ps_pbufs s (pb_next (ps_pbufs s x)))) \<and>
        (\<exists>qs. links (ps_pbufs s) x qs \<and> set qs \<subseteq> V) \<and> (\<exists>h \<in> set hs. \<exists>qs. links (ps_pbufs s) h qs \<and> x \<in> set qs)) \<and>
      (hs = [] \<longrightarrow> V = {}))"
proof -
  have "allocated_bufs s0 {}" using assms(1-9) by (rule fresh_memory)
  then have "refs_ok s0 {} []" by (simp add: refs_ok_def counted_def lengths_ok_def)
  then obtain V where ok: "refs_ok s V hs" using ref_reach_ok [OF assms(10)] by auto
  then have r: "allocated_bufs s V" "counted (ps_pbufs s) V hs" "lengths_ok (ps_pbufs s) V" by (simp_all add: refs_ok_def)
  note fin = allocated_nonzero [OF r(1)]
  have legal: "ref_step custom op (s, hs) \<noteq> None" if "ref_legal op (s, hs)" for op using ref_step_ok [OF ok that, of custom] by auto
  have "set hs \<subseteq> V" using r(2) by (simp add: counted_def)
  moreover have own: "\<exists>h \<in> set hs. \<exists>qs. links (ps_pbufs s) h qs \<and> x \<in> set qs" if "x \<in> V" for x using all_reachable [OF r(2) fin(2,1) that] .
  moreover have "hs = [] \<longrightarrow> V = {}" using own by auto
  ultimately show ?thesis
    using r(1) legal countedD [OF r(2), unfolded inlinks_def] lengths_okD(1) [OF r(3), unfolded rest_len_def]
    by (intro conjI allI impI ballI exI [of _ V]) (assumption | rule legal | simp only: own)+
qed


text \<open>
  C30: Allocation is all or nothing. \<^verbatim>\<open>pbuf_alloc\<close> always returns: either with the null pointer and everything it had taken given back, or with a packet of
  exactly the requested length, cut into distinct new buffers with one reference each, whose data, in those of the pool, starts aligned behind
  the headers' space and stays within the element. Nothing that was live changes, nor does any byte of data.
\<close>

theorem pbuf_alloc_all_or_nothing:
  assumes "allocated_bufs s V" and "type \<in> {PBUF_RAM, PBUF_ROM, PBUF_REF, PBUF_POOL}" and "n < 65536" and "LWIP_MEM_ALIGN_SIZE (cast16 layer) < PBUF_POOL_BUFSIZE_ALIGNED"
  shows "\<exists>p s'. pbuf_alloc custom [] layer n type s = Some (p, s') \<and> (\<forall>x \<in> V. ps_pbufs s' x = ps_pbufs s x) \<and> ps_bytes s' = ps_bytes s \<and>
    (if p = 0 then allocated_bufs s' V
     else \<exists>qs. packet (ps_pbufs s') p qs \<and> chain_len (ps_pbufs s') qs = n \<and> distinct qs \<and> V \<inter> set qs = {} \<and> allocated_bufs s' (V \<union> set qs) \<and>
       (\<forall>q \<in> set qs. pb_ref (ps_pbufs s' q) = 1 \<and> (type = PBUF_POOL \<longrightarrow> pool_place q (ps_pbufs s' q))))"
proof -
  obtain p s' where "pbuf_alloc custom [] layer n type s = Some (p, s')" "alloc_result n (if type = PBUF_POOL then pool_place else (\<lambda>_ _. True)) V s (p, s')"
    using pbuf_alloc_ok [OF assms] by (metis surj_pair)
  then show ?thesis by (intro exI [of _ p] exI [of _ s']) (auto simp: alloc_result_def split: if_splits)
qed

text \<open>Two pools and a heap in memory of their own.\<close>

definition fresh_store :: pbuf_store where
  "fresh_store = \<lparr>ps_pbufs = (\<lambda>_. sample_buffer 0 0 0 0), ps_bytes = (\<lambda>_. 0), ps_heap = mem_init 4 busy_heap,
     ps_structs = memp_init_pool (LWIP_MEMPOOL_DECLARE 3 16 50000 (\<lambda>_. 0)), ps_pool = memp_init_pool (LWIP_MEMPOOL_DECLARE 2 1532 60000 (\<lambda>_. 0))\<rparr>"

lemma fresh_store_memory: "memory_ok fresh_store"
proof -
  have "elements (ps_structs fresh_store) = [50000, 50016, 50032]" "elements (ps_pool fresh_store) = [60000, 61532]" "ram (ps_heap fresh_store) = 4"
    by (simp_all add: fresh_store_def elements_def memp_init_pool_def LWIP_MEMPOOL_DECLARE_def LWIP_MEM_ALIGN_def LWIP_MEM_ALIGN_SIZE_def MEM_ALIGNMENT_def
        mem_init_def Let_def numeral_2_eq_2 numeral_3_eq_3)
  then show ?thesis by (simp add: memory_ok_def)
qed

text \<open>A packet is allocated, shared, and one of its two references dropped again.\<close>

theorem pbuf_references_exact_witness:
  "\<exists>s hs. ref_step (\<lambda>_ _. None) (New_Buf 54 2000 PBUF_POOL) (fresh_store, []) = Some (s, hs) \<and>
     (hs \<noteq> [] \<longrightarrow> ref_step (\<lambda>_ _. None) (Drop_Ref 0) (s, hs) \<noteq> None)"
proof -
  let ?c = "\<lambda>_ _. None"
  have p: "(0 :: nat) < 16" "(0 :: nat) < 50000" "(0 :: nat) < 1532" "(0 :: nat) < 60000" "(0 :: nat) < 4" by simp_all
  have e: "ps_structs fresh_store = memp_init_pool (LWIP_MEMPOOL_DECLARE 3 16 50000 (\<lambda>_. 0))"
    "ps_pool fresh_store = memp_init_pool (LWIP_MEMPOOL_DECLARE 2 1532 60000 (\<lambda>_. 0))" "ps_heap fresh_store = mem_init 4 busy_heap" by (simp_all add: fresh_store_def)
  note exact = pbuf_references_exact [where custom = ?c, OF e(1,2) p(1-4) e(3) p(5) fresh_store_memory]
  have l: "ref_legal (New_Buf 54 2000 PBUF_POOL) (fresh_store, [])" by (simp add: cast16_def LWIP_MEM_ALIGN_SIZE_def MEM_ALIGNMENT_def)
  have "ref_step ?c (New_Buf 54 2000 PBUF_POOL) (fresh_store, []) \<noteq> None" using exact [OF ref_reach.fresh] l by blast
  then obtain x where x: "ref_step ?c (New_Buf 54 2000 PBUF_POOL) (fresh_store, []) = Some x" unfolding not_None_eq by blast
  obtain s hs where "x = (s, hs)" by (cases x)
  with x have s: "ref_step ?c (New_Buf 54 2000 PBUF_POOL) (fresh_store, []) = Some (s, hs)" by (simp only:)
  have "ref_reach ?c fresh_store (s, hs)" by (rule ref_reach.call [OF ref_reach.fresh l s])
  from exact [OF this] have "ref_step ?c (Drop_Ref 0) (s, hs) \<noteq> None" if "hs \<noteq> []"
    using that by (metis ref_legal.simps(3) length_greater_0_conv)
  with s show ?thesis by blast
qed

theorem pbuf_alloc_all_or_nothing_witness:
  "\<exists>p s'. pbuf_alloc (\<lambda>_ _. None) [] 54 2000 PBUF_POOL fresh_store = Some (p, s') \<and> ps_bytes s' = ps_bytes fresh_store"
proof -
  have p: "(0 :: nat) < 16" "(0 :: nat) < 50000" "(0 :: nat) < 1532" "(0 :: nat) < 60000" "(0 :: nat) < 4" by simp_all
  have e: "ps_structs fresh_store = memp_init_pool (LWIP_MEMPOOL_DECLARE 3 16 50000 (\<lambda>_. 0))"
    "ps_pool fresh_store = memp_init_pool (LWIP_MEMPOOL_DECLARE 2 1532 60000 (\<lambda>_. 0))" "ps_heap fresh_store = mem_init 4 busy_heap" by (simp_all add: fresh_store_def)
  have a: "allocated_bufs fresh_store {}" by (rule fresh_memory [OF e(1,2) p(1-4) e(3) p(5) fresh_store_memory])
  have l: "PBUF_POOL \<in> {PBUF_RAM, PBUF_ROM, PBUF_REF, PBUF_POOL}" "(2000 :: nat) < 65536" "LWIP_MEM_ALIGN_SIZE (cast16 54) < PBUF_POOL_BUFSIZE_ALIGNED"
    by (simp_all add: cast16_def LWIP_MEM_ALIGN_SIZE_def MEM_ALIGNMENT_def)
  show ?thesis using pbuf_alloc_all_or_nothing [OF a l, of "\<lambda>_ _. None"] by blast
qed

end
