(* ===== verification/SysTimeouts.thy ===== *)
theory SysTimeouts
  imports Memp "HOL-Library.Multiset"
begin

text \<open>
  The timers of the network stack, \<^verbatim>\<open>lwip/src/core/timeouts.c\<close>: a list of time-outs in the order in which they are due, compared
  across the wrap of the 32-bit clock, and cyclic timers that arm themselves again. The linked list is the sequence of its
  elements, each with the address that the pool gave it. The rest of the system, with its clock, is a state of type \<open>'w\<close>; what the
  model needs of it are the fields of \<open>stack_env\<close>.
\<close>

section \<open>State\<close>

definition LWIP_MAX_TIMEOUT :: u32 where "LWIP_MAX_TIMEOUT = 0x7FFFFFFF"

definition LWIP_UINT32_MAX :: u32 where "LWIP_UINT32_MAX = 0xFFFFFFFF"

definition TIME_LESS_THAN :: "u32 \<Rightarrow> u32 \<Rightarrow> bool" where
  "TIME_LESS_THAN t compare_to \<longleftrightarrow> t - compare_to > LWIP_MAX_TIMEOUT"

datatype timeout_handler = No_Handler | Tcpip_Tcp_Timer | Lwip_Cyclic_Timer | Handler nat

record sys_timeo =
  to_addr :: nat
  to_time :: u32
  to_h :: timeout_handler
  to_arg :: nat

record timeouts =
  next_timeout :: "sys_timeo list"
  current_timeout_due_time :: u32
  tcpip_tcp_timer_active :: bool
  timeo_pool :: memp_pool
  core_locked :: bool

text \<open>
  The clock, the cyclic handlers by their index in the table, whether TCP has active or waiting control blocks, and what other
  handlers do.
\<close>

record 'w stack_env =
  e_now :: "'w \<Rightarrow> u32"
  e_tmr :: "nat \<Rightarrow> 'w \<Rightarrow> 'w"
  e_tcp_pcbs :: "'w \<Rightarrow> bool"
  e_call :: "nat \<Rightarrow> nat \<Rightarrow> timeouts \<times> 'w \<Rightarrow> (timeouts \<times> 'w) option"

definition TCP_TMR_INTERVAL :: u32 where "TCP_TMR_INTERVAL = 250"

definition IP_TMR_INTERVAL :: u32 where "IP_TMR_INTERVAL = 1000"

definition ARP_TMR_INTERVAL :: u32 where "ARP_TMR_INTERVAL = 1000"

definition DHCP_COARSE_TIMER_MSECS :: u32 where "DHCP_COARSE_TIMER_MSECS = 60 * 1000"

definition DHCP_FINE_TIMER_MSECS :: u32 where "DHCP_FINE_TIMER_MSECS = 500"

definition IGMP_TMR_INTERVAL :: u32 where "IGMP_TMR_INTERVAL = 100"

definition DNS_TMR_INTERVAL :: u32 where "DNS_TMR_INTERVAL = 1000"

text \<open>The intervals of the table, for TCP, IP reassembly, ARP, the two of DHCP, IGMP and DNS.\<close>

definition lwip_cyclic_timers :: "u32 list" where
  "lwip_cyclic_timers = [TCP_TMR_INTERVAL, IP_TMR_INTERVAL, ARP_TMR_INTERVAL, DHCP_COARSE_TIMER_MSECS, DHCP_FINE_TIMER_MSECS,
     IGMP_TMR_INTERVAL, DNS_TMR_INTERVAL]"

section \<open>Arming and cancelling\<close>

fun insert_timeout :: "sys_timeo \<Rightarrow> sys_timeo list \<Rightarrow> sys_timeo list" where
  "insert_timeout timeout [] = [timeout]"
| "insert_timeout timeout (t # ts) =
     (if TIME_LESS_THAN (to_time timeout) (to_time t) then timeout # t # ts else t # insert_timeout timeout ts)"

definition sys_timeout_abs :: "u32 \<Rightarrow> timeout_handler \<Rightarrow> nat \<Rightarrow> timeouts \<Rightarrow> timeouts option" where
  "sys_timeout_abs abs_time handler arg s =
     Option.bind (do_memp_malloc_pool (timeo_pool s)) (\<lambda>(timeout, pool).
       if timeout = 0 then None
       else Some (s\<lparr>timeo_pool := pool,
                    next_timeout := insert_timeout \<lparr>to_addr = timeout, to_time = abs_time, to_h = handler, to_arg = arg\<rparr> (next_timeout s)\<rparr>))"

definition sys_timeout :: "('w, 'm) stack_env_scheme \<Rightarrow> u32 \<Rightarrow> timeout_handler \<Rightarrow> nat \<Rightarrow> timeouts \<times> 'w \<Rightarrow> (timeouts \<times> 'w) option" where
  "sys_timeout env msecs handler arg sw =
     (case sw of (s, w) \<Rightarrow>
        if \<not> core_locked s then None
        else if \<not> msecs \<le> LWIP_UINT32_MAX div 4 then None
        else map_option (\<lambda>s. (s, w)) (sys_timeout_abs (e_now env w + msecs) handler arg s))"

fun unlink_timeout :: "timeout_handler \<Rightarrow> nat \<Rightarrow> sys_timeo list \<Rightarrow> (nat \<times> sys_timeo list) option" where
  "unlink_timeout handler arg [] = None"
| "unlink_timeout handler arg (t # ts) =
     (if to_h t = handler \<and> to_arg t = arg then Some (to_addr t, ts)
      else map_option (\<lambda>(a, ts). (a, t # ts)) (unlink_timeout handler arg ts))"

definition sys_untimeout :: "timeout_handler \<Rightarrow> nat \<Rightarrow> timeouts \<Rightarrow> timeouts option" where
  "sys_untimeout handler arg s =
     (if \<not> core_locked s then None
      else case unlink_timeout handler arg (next_timeout s) of
             None \<Rightarrow> Some s
           | Some (a, ts) \<Rightarrow> map_option (\<lambda>pool. s\<lparr>next_timeout := ts, timeo_pool := pool\<rparr>) (memp_free_pool a (timeo_pool s)))"

section \<open>The handlers of the module\<close>

definition tcpip_tcp_timer :: "('w, 'm) stack_env_scheme \<Rightarrow> timeouts \<times> 'w \<Rightarrow> (timeouts \<times> 'w) option" where
  "tcpip_tcp_timer env sw =
     (let (s, w) = sw;
          w = e_tmr env 0 w
      in if e_tcp_pcbs env w then sys_timeout env TCP_TMR_INTERVAL Tcpip_Tcp_Timer 0 (s, w)
         else Some (s\<lparr>tcpip_tcp_timer_active := False\<rparr>, w))"

definition tcp_timer_needed :: "('w, 'm) stack_env_scheme \<Rightarrow> timeouts \<times> 'w \<Rightarrow> (timeouts \<times> 'w) option" where
  "tcp_timer_needed env sw =
     (let (s, w) = sw
      in if \<not> core_locked s then None
         else if \<not> tcpip_tcp_timer_active s \<and> e_tcp_pcbs env w
         then sys_timeout env TCP_TMR_INTERVAL Tcpip_Tcp_Timer 0 (s\<lparr>tcpip_tcp_timer_active := True\<rparr>, w)
         else Some (s, w))"

definition lwip_cyclic_timer :: "('w, 'm) stack_env_scheme \<Rightarrow> nat \<Rightarrow> timeouts \<times> 'w \<Rightarrow> (timeouts \<times> 'w) option" where
  "lwip_cyclic_timer env arg sw =
     (let (s, w) = sw;
          interval_ms = lwip_cyclic_timers ! arg;
          w = e_tmr env arg w;
          now = e_now env w;
          next_timeout_time = current_timeout_due_time s + interval_ms
      in map_option (\<lambda>s. (s, w))
           (sys_timeout_abs (if TIME_LESS_THAN next_timeout_time now then now + interval_ms else next_timeout_time) Lwip_Cyclic_Timer arg s))"

definition call_handler :: "('w, 'm) stack_env_scheme \<Rightarrow> timeout_handler \<Rightarrow> nat \<Rightarrow> timeouts \<times> 'w \<Rightarrow> (timeouts \<times> 'w) option" where
  "call_handler env handler arg sw =
     (case handler of
        No_Handler \<Rightarrow> Some sw
      | Tcpip_Tcp_Timer \<Rightarrow> tcpip_tcp_timer env sw
      | Lwip_Cyclic_Timer \<Rightarrow> lwip_cyclic_timer env arg sw
      | Handler n \<Rightarrow> e_call env n arg sw)"

section \<open>Running what is due\<close>

partial_function (option) check_loop :: "('w, 'm) stack_env_scheme \<Rightarrow> u32 \<Rightarrow> timeouts \<times> 'w \<Rightarrow> (timeouts \<times> 'w) option" where
  "check_loop env now sw =
     (case next_timeout (fst sw) of
        [] \<Rightarrow> Some sw
      | t # ts \<Rightarrow>
          if TIME_LESS_THAN now (to_time t) then Some sw
          else Option.bind (memp_free_pool (to_addr t) (timeo_pool (fst sw))) (\<lambda>pool.
               Option.bind (call_handler env (to_h t) (to_arg t)
                 ((fst sw)\<lparr>next_timeout := ts, current_timeout_due_time := to_time t, timeo_pool := pool\<rparr>, snd sw))
               (check_loop env now)))"

definition sys_check_timeouts :: "('w, 'm) stack_env_scheme \<Rightarrow> timeouts \<times> 'w \<Rightarrow> (timeouts \<times> 'w) option" where
  "sys_check_timeouts env sw = (if \<not> core_locked (fst sw) then None else check_loop env (e_now env (snd sw)) sw)"

definition sys_restart_timeouts :: "u32 \<Rightarrow> timeouts \<Rightarrow> timeouts" where
  "sys_restart_timeouts now s =
     (case next_timeout s of
        [] \<Rightarrow> s
      | h # _ \<Rightarrow> s\<lparr>next_timeout := map (\<lambda>t. t\<lparr>to_time := (to_time t - to_time h) + now\<rparr>) (next_timeout s)\<rparr>)"

definition SYS_TIMEOUTS_SLEEPTIME_INFINITE :: u32 where "SYS_TIMEOUTS_SLEEPTIME_INFINITE = 0xFFFFFFFF"

definition sys_timeouts_sleeptime :: "u32 \<Rightarrow> timeouts \<Rightarrow> u32 option" where
  "sys_timeouts_sleeptime now s =
     (if \<not> core_locked s then None
      else case next_timeout s of
             [] \<Rightarrow> Some SYS_TIMEOUTS_SLEEPTIME_INFINITE
           | t # _ \<Rightarrow>
               if TIME_LESS_THAN (to_time t) now then Some 0
               else let ret = to_time t - now in if ret \<le> LWIP_MAX_TIMEOUT then Some ret else None)"

fun start_cyclic :: "('w, 'm) stack_env_scheme \<Rightarrow> nat list \<Rightarrow> timeouts \<times> 'w \<Rightarrow> (timeouts \<times> 'w) option" where
  "start_cyclic env [] sw = Some sw"
| "start_cyclic env (i # is) sw = Option.bind (sys_timeout env (lwip_cyclic_timers ! i) Lwip_Cyclic_Timer i sw) (start_cyclic env is)"

definition sys_timeouts_init :: "('w, 'm) stack_env_scheme \<Rightarrow> timeouts \<times> 'w \<Rightarrow> (timeouts \<times> 'w) option" where
  "sys_timeouts_init env sw = start_cyclic env [1..<length lwip_cyclic_timers] sw"

fun stop_cyclic :: "nat list \<Rightarrow> timeouts \<Rightarrow> timeouts option" where
  "stop_cyclic [] s = Some s"
| "stop_cyclic (i # is) s = Option.bind (sys_untimeout Lwip_Cyclic_Timer i s) (stop_cyclic is)"

definition sys_timeouts_deinit :: "timeouts \<Rightarrow> timeouts option" where
  "sys_timeouts_deinit s = stop_cyclic [1..<length lwip_cyclic_timers] s"

section \<open>Comparing times across the wrap\<close>

lemma time_less:
  assumes "a \<le> b + 0x7FFFFFFF" and "b \<le> a + 0x80000000"
  shows "TIME_LESS_THAN (of_nat a) (of_nat b) \<longleftrightarrow> a < b"
proof (cases "a < b")
  case True
  define d where "d = b - a"
  have d: "b = a + d" "0 < d" "d \<le> 0x80000000" using True assms(2) by (simp_all add: d_def)
  have "(of_nat a :: u32) - of_nat b = - of_nat d" by (simp add: d(1))
  moreover have "unat (- of_nat d :: u32) = 2 ^ 32 - d"
  proof -
    have "(of_nat (2 ^ 32 - d) :: u32) = - of_nat d" using d(3) by (subst of_nat_diff) simp_all
    moreover have "unat (of_nat (2 ^ 32 - d) :: u32) = 2 ^ 32 - d" using d(2) by (subst unat_of_nat) (simp add: take_bit_nat_eq_self)
    ultimately show ?thesis by (simp only:)
  qed
  ultimately show ?thesis using True d(3) by (simp add: TIME_LESS_THAN_def LWIP_MAX_TIMEOUT_def word_less_nat_alt)
next
  case False
  define d where "d = a - b"
  have d: "a = b + d" "d \<le> 0x7FFFFFFF" using False assms(1) by (simp_all add: d_def)
  have "(of_nat a :: u32) - of_nat b = of_nat d" by (simp add: d(1))
  moreover have "unat (of_nat d :: u32) = d" using d(2) by (simp add: unat_of_nat take_bit_nat_eq_self)
  ultimately show ?thesis using False d(2) by (simp add: TIME_LESS_THAN_def LWIP_MAX_TIMEOUT_def word_less_nat_alt)
qed

section \<open>The list as a queue over true time\<close>

text \<open>An entry is the time at which it is due, counted without a wrap, the handler and its argument.\<close>

type_synonym entry = "nat \<times> timeout_handler \<times> nat"

definition timer_is :: "entry \<Rightarrow> sys_timeo \<Rightarrow> bool" where
  "timer_is e t \<longleftrightarrow> to_time t = of_nat (fst e) \<and> to_h t = fst (snd e) \<and> to_arg t = snd (snd e)"

definition near :: "nat \<Rightarrow> nat \<Rightarrow> bool" where "near T D \<longleftrightarrow> T \<le> D + 0x40000000 \<and> D \<le> T + 0x3FFFFFFF"

definition queue_rep :: "nat \<Rightarrow> nat \<Rightarrow> entry list \<Rightarrow> timeouts \<Rightarrow> bool" where
  "queue_rep N T q s \<longleftrightarrow> list_all2 timer_is q (next_timeout s) \<and> sorted (map fst q) \<and> (\<forall>e \<in> set q. near T (fst e)) \<and> core_locked s \<and>
     pool_ok (timeo_pool s) (map to_addr (next_timeout s)) \<and> mp_num (timeo_pool s) = N"

lemma near_less: "near T a \<Longrightarrow> near T b \<Longrightarrow> TIME_LESS_THAN (of_nat a) (of_nat b) \<longleftrightarrow> a < b"
  by (rule time_less) (auto simp: near_def)

lemma near_now: "near T D \<Longrightarrow> TIME_LESS_THAN (of_nat T) (of_nat D) \<longleftrightarrow> T < D"
  by (rule time_less) (auto simp: near_def)

fun due_insert :: "entry \<Rightarrow> entry list \<Rightarrow> entry list" where
  "due_insert e [] = [e]"
| "due_insert e (x # xs) = (if fst e < fst x then e # x # xs else x # due_insert e xs)"

lemma set_due_insert [simp]: "set (due_insert e q) = insert e (set q)" by (induction q) auto

lemma length_due_insert [simp]: "length (due_insert e q) = Suc (length q)" by (induction q) auto

lemma sorted_due_insert: "sorted (map fst q) \<Longrightarrow> sorted (map fst (due_insert e q))" by (induction q) auto

lemma insert_timer:
  "list_all2 timer_is q ts \<Longrightarrow> timer_is e t \<Longrightarrow> near T (fst e) \<Longrightarrow> \<forall>x \<in> set q. near T (fst x) \<Longrightarrow>
   list_all2 timer_is (due_insert e q) (insert_timeout t ts)"
proof (induction q ts rule: list_all2_induct)
  case Nil
  then show ?case by simp
next
  case (Cons x xs t' ts)
  have "TIME_LESS_THAN (to_time t) (to_time t') \<longleftrightarrow> fst e < fst x"
    using Cons.hyps(1) Cons.prems near_less [of T "fst e" "fst x"] by (simp add: timer_is_def)
  then show ?case using Cons by auto
qed

lemma mset_insert_timeout: "mset (insert_timeout t ts) = add_mset t (mset ts)" by (induction ts) auto

lemma pool_ok_mset: "pool_ok p xs \<Longrightarrow> mset xs = mset ys \<Longrightarrow> pool_ok p ys"
  unfolding pool_ok_def by (metis distinct_append mset_eq_imp_distinct_iff set_append mset_eq_setD)

lemma malloc_some:
  assumes "pool_ok p live" and "length live < mp_num p"
  shows "\<exists>a p'. do_memp_malloc_pool p = Some (a, p') \<and> a \<noteq> 0 \<and> mp_num p' = mp_num p \<and> pool_ok p' (a # live)"
proof -
  obtain a p' where m: "do_memp_malloc_pool p = Some (a, p')" "elements p' = elements p"
    "if a = 0 then p' = p \<and> set live = set (elements p) else a \<in> set (elements p) \<and> a \<notin> set live \<and> pool_ok p' (a # live)"
    using malloc_ok [OF assms(1)] by blast
  have len: "length (elements x) = mp_num x" for x by (simp add: elements_def)
  have "set live \<noteq> set (elements p)"
  proof
    assume e: "set live = set (elements p)"
    have "distinct live" "distinct (elements p)" using assms(1) elements_ok(1) by (auto simp: pool_ok_def)
    then have "length live = length (elements p)" using e by (metis distinct_card)
    then show False using assms(2) len by simp
  qed
  then have "a \<noteq> 0" using m(3) by auto
  moreover have "mp_num p' = mp_num p" using len [of p] len [of p'] m(2) by simp
  ultimately show ?thesis using m(1,3) by auto
qed

lemma timeout_abs_ok:
  assumes "queue_rep N T q s" and "length q < N" and "near T D"
  shows "\<exists>s'. sys_timeout_abs (of_nat D) h a s = Some s' \<and> queue_rep N T (due_insert (D, h, a) q) s' \<and>
    current_timeout_due_time s' = current_timeout_due_time s \<and> tcpip_tcp_timer_active s' = tcpip_tcp_timer_active s"
proof -
  note r = assms(1) [unfolded queue_rep_def]
  have "length (map to_addr (next_timeout s)) < mp_num (timeo_pool s)" using r assms(2) list_all2_lengthD [of timer_is q "next_timeout s"] by simp
  then obtain x p where m: "do_memp_malloc_pool (timeo_pool s) = Some (x, p)" "x \<noteq> 0" "mp_num p = N" "pool_ok p (x # map to_addr (next_timeout s))"
    using malloc_some r by metis
  let ?t = "\<lparr>to_addr = x, to_time = of_nat D, to_h = h, to_arg = a\<rparr>"
  let ?s = "s\<lparr>timeo_pool := p, next_timeout := insert_timeout ?t (next_timeout s)\<rparr>"
  have "list_all2 timer_is (due_insert (D, h, a) q) (insert_timeout ?t (next_timeout s))"
    using r assms(3) by (intro insert_timer) (auto simp: timer_is_def)
  moreover have "pool_ok p (map to_addr (insert_timeout ?t (next_timeout s)))"
    using m(4) by (rule pool_ok_mset) (simp add: mset_insert_timeout)
  ultimately have "queue_rep N T (due_insert (D, h, a) q) ?s"
    using r assms(3) m(3) by (auto simp: queue_rep_def sorted_due_insert)
  then show ?thesis using m(1,2) by (intro exI [of _ ?s]) (simp add: sys_timeout_abs_def)
qed

lemma timeout_ok:
  assumes "queue_rep N T q s" and "length q < N" and "ms \<le> 0x3FFFFFFF" and "e_now env w = of_nat T"
  shows "\<exists>s'. sys_timeout env (of_nat ms) h a (s, w) = Some (s', w) \<and> queue_rep N T (due_insert (T + ms, h, a) q) s' \<and>
    current_timeout_due_time s' = current_timeout_due_time s"
proof -
  have "near T (T + ms)" using assms(3) by (simp add: near_def)
  from timeout_abs_ok [OF assms(1,2) this, of h a] obtain s' where
    "sys_timeout_abs (of_nat (T + ms)) h a s = Some s'" "queue_rep N T (due_insert (T + ms, h, a) q) s'"
    "current_timeout_due_time s' = current_timeout_due_time s" by blast
  moreover have "(of_nat ms :: u32) \<le> LWIP_UINT32_MAX div 4"
    using assms(3) by (simp add: LWIP_UINT32_MAX_def word_le_nat_alt unat_of_nat take_bit_nat_eq_self)
  moreover have "core_locked s" using assms(1) by (simp add: queue_rep_def)
  ultimately show ?thesis using assms(4) by (simp add: sys_timeout_def)
qed

text \<open>One round of the loop takes the first entry off the queue.\<close>

lemma check_step:
  assumes "queue_rep N T ((D, h, a) # q) s" and "D \<le> T"
  shows "\<exists>s1. check_loop env (of_nat T) (s, w) = Option.bind (call_handler env h a (s1, w)) (check_loop env (of_nat T)) \<and>
    queue_rep N T q s1 \<and> current_timeout_due_time s1 = of_nat D"
proof -
  note r = assms(1) [unfolded queue_rep_def]
  then obtain t ts where n: "next_timeout s = t # ts" "timer_is (D, h, a) t" "list_all2 timer_is q ts"
    by (auto simp: list_all2_Cons1)
  have "pool_ok (timeo_pool s) (to_addr t # map to_addr ts)" using r n(1) by simp
  from free_ok [OF this, of "to_addr t"] obtain p where p: "memp_free_pool (to_addr t) (timeo_pool s) = Some p"
    "elements p = elements (timeo_pool s)" "pool_ok p (map to_addr ts)" by auto
  have num: "mp_num p = N" using r p(2) by (metis elements_def diff_zero length_map length_upt)
  let ?s = "s\<lparr>next_timeout := ts, current_timeout_due_time := to_time t, timeo_pool := p\<rparr>"
  have "\<not> TIME_LESS_THAN (of_nat T) (to_time t)" using near_now [of T D] r n(2) assms(2) by (simp add: timer_is_def)
  then have "check_loop env (of_nat T) (s, w) = Option.bind (call_handler env h a (?s, w)) (check_loop env (of_nat T))"
    using n(1,2) p(1) by (subst check_loop.simps) (simp add: timer_is_def)
  moreover have "queue_rep N T q ?s" using r n(3) p(3) num by (simp add: queue_rep_def)
  ultimately show ?thesis using n(2) by (intro exI [of _ ?s]) (simp add: timer_is_def)
qed

lemma check_stop:
  assumes "queue_rep N T q s" and "\<forall>e \<in> set q. T < fst e"
  shows "check_loop env (of_nat T) (s, w) = Some (s, w)"
proof (cases q)
  case Nil
  then show ?thesis using assms by (subst check_loop.simps) (simp add: queue_rep_def)
next
  case (Cons e q')
  then obtain t ts where n: "next_timeout s = t # ts" "timer_is e t" using assms(1) by (auto simp: queue_rep_def list_all2_Cons1)
  have "TIME_LESS_THAN (of_nat T) (to_time t)" using near_now [of T "fst e"] assms Cons n(2) by (simp add: queue_rep_def timer_is_def)
  then show ?thesis using n(1) by (subst check_loop.simps) simp
qed

section \<open>One-shot timers\<close>

fun remove_first :: "timeout_handler \<Rightarrow> nat \<Rightarrow> entry list \<Rightarrow> entry list" where
  "remove_first h a [] = []"
| "remove_first h a (e # q) = (if fst (snd e) = h \<and> snd (snd e) = a then q else e # remove_first h a q)"

lemma set_remove_first: "set (remove_first h a q) \<subseteq> set q" by (induction q) auto

lemma sorted_remove_first: "sorted (map fst q) \<Longrightarrow> sorted (map fst (remove_first h a q))"
  using set_remove_first by (induction q) fastforce+

lemma unlink_ok:
  "list_all2 timer_is q ts \<Longrightarrow>
   case unlink_timeout h a ts of
     None \<Rightarrow> remove_first h a q = q
   | Some (x, ts') \<Rightarrow> list_all2 timer_is (remove_first h a q) ts' \<and> mset (map to_addr ts) = add_mset x (mset (map to_addr ts'))"
proof (induction q ts rule: list_all2_induct)
  case Nil
  then show ?case by simp
next
  case (Cons e q t ts)
  have "to_h t = fst (snd e)" "to_arg t = snd (snd e)" using Cons.hyps(1) by (simp_all add: timer_is_def)
  then show ?case using Cons by (auto split: option.splits)
qed

lemma untimeout_ok:
  assumes "queue_rep N T q s"
  shows "\<exists>s'. sys_untimeout h a s = Some s' \<and> queue_rep N T (remove_first h a q) s'"
proof (cases "unlink_timeout h a (next_timeout s)")
  case None
  then have "remove_first h a q = q" using unlink_ok [of q "next_timeout s" h a] assms by (simp add: queue_rep_def)
  then show ?thesis using None assms by (simp add: sys_untimeout_def queue_rep_def)
next
  case (Some xs)
  then obtain x ts where u: "unlink_timeout h a (next_timeout s) = Some (x, ts)" by (cases xs) simp
  note r = assms [unfolded queue_rep_def]
  have l: "list_all2 timer_is (remove_first h a q) ts" "mset (map to_addr (next_timeout s)) = add_mset x (mset (map to_addr ts))"
    using unlink_ok [of q "next_timeout s" h a] u r by simp_all
  have "pool_ok (timeo_pool s) (x # map to_addr ts)" by (rule pool_ok_mset [of _ "map to_addr (next_timeout s)"]) (use r l(2) in simp_all)
  from free_ok [OF this, of x] obtain p where p: "memp_free_pool x (timeo_pool s) = Some p" "elements p = elements (timeo_pool s)" "pool_ok p (map to_addr ts)"
    by auto
  have "mp_num p = N" using r p(2) by (metis elements_def diff_zero length_map length_upt)
  then have "queue_rep N T (remove_first h a q) (s\<lparr>next_timeout := ts, timeo_pool := p\<rparr>)"
    using r l(1) p(3) set_remove_first [of h a q] sorted_remove_first [of q h a] by (auto simp: queue_rep_def)
  then show ?thesis using u p(1) r by (simp add: sys_untimeout_def)
qed

text \<open>A system that only logs the handlers that are called.\<close>

type_synonym call_log = "nat \<times> (nat \<times> nat) list"

definition log_env :: "call_log stack_env" where
  "log_env = \<lparr>e_now = (\<lambda>w. of_nat (fst w)), e_tmr = (\<lambda>i w. w), e_tcp_pcbs = (\<lambda>w. False),
     e_call = (\<lambda>n a sw. Some (fst sw, (fst (snd sw), snd (snd sw) @ [(n, a)])))\<rparr>"

datatype timer_op = Arm nat nat nat | Disarm nat nat | Pass nat | Check

fun timer_step :: "timer_op \<Rightarrow> timeouts \<times> call_log \<Rightarrow> (timeouts \<times> call_log) option" where
  "timer_step (Arm ms n a) sw = sys_timeout log_env (of_nat ms) (Handler n) a sw"
| "timer_step (Disarm n a) sw = map_option (\<lambda>s. (s, snd sw)) (sys_untimeout (Handler n) a (fst sw))"
| "timer_step (Pass d) sw = Some (fst sw, (fst (snd sw) + d, snd (snd sw)))"
| "timer_step Check sw = sys_check_timeouts log_env sw"

fun timer_run :: "timer_op list \<Rightarrow> timeouts \<times> call_log \<Rightarrow> (timeouts \<times> call_log) option" where
  "timer_run [] sw = Some sw"
| "timer_run (op # ops) sw = Option.bind (timer_step op sw) (timer_run ops)"

text \<open>
  The specification: a sorted queue of at most \<open>N\<close> entries over a clock that does not wrap. A timer is armed for less than a quarter of the range
  of the clock, and a due timer does not wait as long as that for a check.
\<close>

type_synonym timer_spec = "nat \<times> entry list \<times> (nat \<times> nat) list"

definition called :: "entry \<Rightarrow> nat \<times> nat" where
  "called e = (case fst (snd e) of Handler n \<Rightarrow> n | _ \<Rightarrow> 0, snd (snd e))"

fun spec_step :: "nat \<Rightarrow> timer_op \<Rightarrow> timer_spec \<Rightarrow> timer_spec option" where
  "spec_step N (Arm ms n a) (T, q, l) =
     (if ms \<le> 0x3FFFFFFF \<and> length q < N then Some (T, due_insert (T + ms, Handler n, a) q, l) else None)"
| "spec_step N (Disarm n a) (T, q, l) = Some (T, remove_first (Handler n) a q, l)"
| "spec_step N (Pass d) (T, q, l) = (if \<forall>e \<in> set q. T + d \<le> fst e + 0x40000000 then Some (T + d, q, l) else None)"
| "spec_step N Check (T, q, l) = Some (T, filter (\<lambda>e. T < fst e) q, l @ map called (filter (\<lambda>e. fst e \<le> T) q))"

fun spec_run :: "nat \<Rightarrow> timer_op list \<Rightarrow> timer_spec \<Rightarrow> timer_spec option" where
  "spec_run N [] x = Some x"
| "spec_run N (op # ops) x = Option.bind (spec_step N op x) (spec_run N ops)"

lemma check_logs:
  assumes "queue_rep N T q s" and "\<forall>e \<in> set q. \<exists>n. fst (snd e) = Handler n"
  shows "\<exists>s'. check_loop log_env (of_nat T) (s, (T, l)) = Some (s', (T, l @ map called (filter (\<lambda>e. fst e \<le> T) q))) \<and>
    queue_rep N T (filter (\<lambda>e. T < fst e) q) s'"
  using assms
proof (induction q arbitrary: s l)
  case Nil
  then show ?case using check_stop [of N T "[]" s log_env "(T, l)"] by simp
next
  case (Cons e q)
  obtain D n a where e: "e = (D, Handler n, a)" using Cons.prems(2) by (cases e) auto
  have sorted: "sorted (map fst (e # q))" using Cons.prems(1) by (simp add: queue_rep_def)
  show ?case
  proof (cases "D \<le> T")
    case True
    obtain s1 where 1: "check_loop log_env (of_nat T) (s, (T, l)) = Option.bind (call_handler log_env (Handler n) a (s1, (T, l))) (check_loop log_env (of_nat T))"
      "queue_rep N T q s1" using check_step [OF Cons.prems(1) [unfolded e] True, of log_env "(T, l)"] by blast
    have "check_loop log_env (of_nat T) (s, (T, l)) = check_loop log_env (of_nat T) (s1, (T, l @ [(n, a)]))"
      using 1(1) by (simp add: call_handler_def log_env_def)
    moreover obtain s' where "check_loop log_env (of_nat T) (s1, (T, l @ [(n, a)])) = Some (s', (T, (l @ [(n, a)]) @ map called (filter (\<lambda>e. fst e \<le> T) q)))"
      "queue_rep N T (filter (\<lambda>e. T < fst e) q) s'" using Cons.IH [OF 1(2), of "l @ [(n, a)]"] Cons.prems(2) by auto
    ultimately show ?thesis using True by (simp add: e called_def)
  next
    case False
    then have later: "\<forall>x \<in> set (e # q). T < fst x" using sorted by (auto simp: e)
    then have "filter (\<lambda>e. fst e \<le> T) (e # q) = []" "filter (\<lambda>e. T < fst e) (e # q) = e # q" by (auto simp: filter_empty_conv)
    then show ?thesis using check_stop [OF Cons.prems(1) later, of log_env "(T, l)"] Cons.prems(1)
      by (intro exI [of _ s]) (simp only: append_Nil2 list.map)
  qed
qed

lemma timer_step_ok:
  assumes "spec_step N op (T, q, l) = Some (T', q', l')" and "queue_rep N T q s" and "\<forall>e \<in> set q. \<exists>n. fst (snd e) = Handler n"
  shows "\<exists>s'. timer_step op (s, (T, l)) = Some (s', (T', l')) \<and> queue_rep N T' q' s' \<and> (\<forall>e \<in> set q'. \<exists>n. fst (snd e) = Handler n)"
proof (cases op)
  case (Arm ms n a)
  then have c: "ms \<le> 0x3FFFFFFF" "length q < N" "T' = T" "q' = due_insert (T + ms, Handler n, a) q" "l' = l"
    using assms(1) by (auto split: if_splits)
  have "e_now log_env (T, l) = of_nat T" by (simp add: log_env_def)
  from timeout_ok [OF assms(2) c(2,1) this, of "Handler n" a] show ?thesis using Arm c assms(3) by auto
next
  case (Disarm n a)
  then show ?thesis using assms untimeout_ok [OF assms(2), of "Handler n" a] set_remove_first [of "Handler n" a q] by auto
next
  case (Pass d)
  then have c: "\<forall>e \<in> set q. T + d \<le> fst e + 0x40000000" "T' = T + d" "q' = q" "l' = l" using assms(1) by (auto split: if_splits)
  have "queue_rep N T' q s" using assms(2) c(1,2) by (auto simp: queue_rep_def near_def)
  then show ?thesis using Pass c assms(3) by simp
next
  case Check
  have "core_locked s" "e_now log_env (T, l) = of_nat T" using assms(2) by (simp_all add: queue_rep_def log_env_def)
  then show ?thesis using Check assms(1,3) check_logs [OF assms(2,3), of l] by (auto simp: sys_check_timeouts_def)
qed

definition timeouts_boot :: "nat \<Rightarrow> nat \<Rightarrow> nat \<Rightarrow> (nat \<Rightarrow> nat) \<Rightarrow> timeouts" where
  "timeouts_boot N elsize base memory = \<lparr>next_timeout = [], current_timeout_due_time = 0, tcpip_tcp_timer_active = False,
     timeo_pool = memp_init_pool (LWIP_MEMPOOL_DECLARE N elsize base memory), core_locked = True\<rparr>"

lemma boot_rep: "0 < elsize \<Longrightarrow> 0 < base \<Longrightarrow> queue_rep N T [] (timeouts_boot N elsize base memory)"
proof -
  assume "0 < elsize" and "0 < base"
  note d = declared_pool [OF this, of N memory]
  have "mp_num (memp_init_pool (LWIP_MEMPOOL_DECLARE N elsize base memory)) = N"
    using init_elements_ok [of "(LWIP_MEMPOOL_DECLARE N elsize base memory)\<lparr>mp_tab := 0\<rparr>" "[]" "LWIP_MEM_ALIGN base" N] d align_up [of base]
    by (simp add: memp_init_pool_def LWIP_MEMPOOL_DECLARE_def pool_declared_def)
  then show ?thesis using init_pool_ok [OF d] by (simp add: queue_rep_def timeouts_boot_def)
qed

lemma timer_run_ok:
  "spec_run N ops (T, q, l) = Some (T', q', l') \<Longrightarrow> queue_rep N T q s \<Longrightarrow> \<forall>e \<in> set q. \<exists>n. fst (snd e) = Handler n \<Longrightarrow>
   \<exists>s'. timer_run ops (s, (T, l)) = Some (s', (T', l')) \<and> queue_rep N T' q' s'"
proof (induction ops arbitrary: T q l s)
  case Nil
  then show ?case by simp
next
  case (Cons op ops)
  then obtain T1 q1 l1 where 1: "spec_step N op (T, q, l) = Some (T1, q1, l1)" "spec_run N ops (T1, q1, l1) = Some (T', q', l')"
    by (auto split: bind_splits)
  from timer_step_ok [OF 1(1) Cons.prems(2,3)] obtain s1 where "timer_step op (s, (T, l)) = Some (s1, (T1, l1))" "queue_rep N T1 q1 s1"
    "\<forall>e \<in> set q1. \<exists>n. fst (snd e) = Handler n" by blast
  then show ?case using Cons.IH [OF 1(2)] by simp
qed

text \<open>
  C23: The timers refine a queue over a clock that never wraps. Any run of arming, cancelling, passing time and checking, started
  at any reading of the 32-bit clock, within the limits of the specification, returns with the calls of the specification: each check runs
  exactly the handlers whose time has come, none early, in the order in which they are due and those due together in the order in which they were
  armed; a cancelled timer is never run; and no allocation from the pool fails before all its elements are armed.
\<close>

theorem timers_refine_queue:
  assumes "0 < elsize" and "0 < base" and "spec_run N ops (T0, [], []) = Some (T, q, l)"
  shows "\<exists>s. timer_run ops (timeouts_boot N elsize base memory, (T0, [])) = Some (s, (T, l)) \<and> map to_arg (next_timeout s) = map (\<lambda>e. snd (snd e)) q"
proof -
  obtain s where s: "timer_run ops (timeouts_boot N elsize base memory, (T0, [])) = Some (s, (T, l))" "queue_rep N T q s"
    using timer_run_ok [OF assms(3) boot_rep [OF assms(1,2)], of memory] by auto
  have "map to_arg ts = map (\<lambda>e. snd (snd e)) q" if "list_all2 timer_is q ts" for ts
    using that by (induction q ts rule: list_all2_induct) (simp_all add: timer_is_def)
  then show ?thesis using s by (auto simp: queue_rep_def)
qed

theorem timers_refine_queue_witness:
  "\<exists>s. timer_run [Arm 30 1 7, Arm 10 2 8, Arm 20 3 9, Pass 20, Check, Disarm 1 7, Arm 5 4 6, Pass 40, Check]
     (timeouts_boot 10 16 0x20001000 (\<lambda>_. 0), (0xFFFFFFF0, [])) = Some (s, (0x10000002C, [(2, 8), (3, 9), (4, 6)])) \<and> map to_arg (next_timeout s) = []"
proof -
  have "spec_run 10 [Arm 30 1 7, Arm 10 2 8, Arm 20 3 9, Pass 20, Check, Disarm 1 7, Arm 5 4 6, Pass 40, Check] (0xFFFFFFF0, [], []) =
      Some (0x10000002C, [], [(2, 8), (3, 9), (4, 6)])"
    by (simp add: called_def)
  from timers_refine_queue [where elsize = 16 and base = "0x20001000" and memory = "\<lambda>_. 0", OF _ _ this] show ?thesis by simp
qed

section \<open>Cyclic timers\<close>

text \<open>A system that logs the cyclic handlers by their index.\<close>

definition cyclic_env :: "(nat \<times> nat list) stack_env" where
  "cyclic_env = \<lparr>e_now = (\<lambda>w. of_nat (fst w)), e_tmr = (\<lambda>i w. (fst w, snd w @ [i])), e_tcp_pcbs = (\<lambda>w. False), e_call = (\<lambda>n a sw. Some sw)\<rparr>"

text \<open>Time passes and the timers are checked, again and again.\<close>

fun check_run :: "nat list \<Rightarrow> timeouts \<times> nat \<times> nat list \<Rightarrow> (timeouts \<times> nat \<times> nat list) option" where
  "check_run [] sw = Some sw"
| "check_run (d # ds) (s, (T, l)) = Option.bind (sys_check_timeouts cyclic_env (s, (T + d, l))) (check_run ds)"

definition interval :: "nat \<Rightarrow> nat" where "interval i = unat (lwip_cyclic_timers ! i)"

definition cyclic_index :: "nat \<Rightarrow> bool" where "cyclic_index i \<longleftrightarrow> i \<in> {1..<length lwip_cyclic_timers}"

lemmas cyclic_table = lwip_cyclic_timers_def TCP_TMR_INTERVAL_def IP_TMR_INTERVAL_def ARP_TMR_INTERVAL_def DHCP_COARSE_TIMER_MSECS_def
  DHCP_FINE_TIMER_MSECS_def IGMP_TMR_INTERVAL_def DNS_TMR_INTERVAL_def

lemma interval_bounds: "cyclic_index i \<Longrightarrow> 100 \<le> interval i \<and> interval i \<le> 60000"
proof -
  assume "cyclic_index i"
  then have "i \<in> {1, 2, 3, 4, 5, 6}" by (auto simp: cyclic_index_def cyclic_table)
  then show ?thesis by (auto simp: interval_def cyclic_table)
qed

lemma interval_word: "cyclic_index i \<Longrightarrow> lwip_cyclic_timers ! i = of_nat (interval i)"
  by (simp add: interval_def)

text \<open>A queue of cyclic timers, one for each index.\<close>

definition cyclic_queue :: "nat \<Rightarrow> entry list \<Rightarrow> bool" where
  "cyclic_queue T q \<longleftrightarrow> (\<forall>e \<in> set q. fst (snd e) = Lwip_Cyclic_Timer \<and> cyclic_index (snd (snd e)) \<and> T < fst e \<and> fst e \<le> T + 60100) \<and>
     distinct (map (\<lambda>e. snd (snd e)) q)"

definition next_due :: "nat \<Rightarrow> entry \<Rightarrow> nat" where
  "next_due T e = (if fst e \<le> T then fst e + interval (snd (snd e)) else fst e)"

lemma distinct_due_insert: "distinct (map f (due_insert e q)) \<longleftrightarrow> f e \<notin> f ` set q \<and> distinct (map f q)"
  by (induction q) auto

lemma check_cyclic:
  assumes "queue_rep N T' q s" and "cyclic_queue T q" and "T \<le> T'" and "T' < T + 100" and "length q \<le> N"
  shows "\<exists>s' q' cs. check_loop cyclic_env (of_nat T') (s, (T', l)) = Some (s', (T', l @ cs)) \<and> queue_rep N T' q' s' \<and>
    (\<forall>e \<in> set q'. T' < fst e) \<and> distinct (map (\<lambda>e. snd (snd e)) q') \<and> length q' = length q \<and>
    set q' = (\<lambda>e. (next_due T' e, snd e)) ` set q \<and>
    (\<forall>i. count_list cs i = (if \<exists>e \<in> set q. snd (snd e) = i \<and> fst e \<le> T' then 1 else 0))"
  using assms(1,2,5)
proof (induction "length (filter (\<lambda>e. fst e \<le> T') q)" arbitrary: q s l rule: less_induct)
  case (less q s l)
  show ?case
  proof (cases "\<exists>e q1. q = e # q1 \<and> fst e \<le> T'")
    case False
    have srt: "sorted (map fst q)" using less.prems(1) by (simp add: queue_rep_def)
    have later: "\<forall>e \<in> set q. T' < fst e" using False srt by (cases q) auto
    have "(\<lambda>e. (next_due T' e, snd e)) ` set q = id ` set q" by (rule image_cong) (use later in \<open>auto simp: next_due_def\<close>)
    then show ?thesis
      using check_stop [OF less.prems(1) later, of cyclic_env "(T', l)"] later less.prems(1,2)
      by (intro exI [of _ s] exI [of _ q] exI [of _ "[]"]) (auto simp: cyclic_queue_def not_le)
  next
    case True
    then obtain D i q1 where q: "q = (D, Lwip_Cyclic_Timer, i) # q1" "D \<le> T'" using less.prems(2) by (auto simp: cyclic_queue_def)
    have c: "cyclic_index i" "T < D" "i \<notin> (\<lambda>e. snd (snd e)) ` set q1" "cyclic_queue T q1"
      using less.prems(2) by (auto simp: cyclic_queue_def q(1))
    note b = interval_bounds [OF c(1)]
    obtain s1 where 1: "check_loop cyclic_env (of_nat T') (s, (T', l)) =
        Option.bind (call_handler cyclic_env Lwip_Cyclic_Timer i (s1, (T', l))) (check_loop cyclic_env (of_nat T'))"
      "queue_rep N T' q1 s1" "current_timeout_due_time s1 = of_nat D"
      using check_step [OF less.prems(1) [unfolded q(1)] q(2), of cyclic_env "(T', l)"] by blast
    have n: "near T' (D + interval i)" using b c(2) assms(3,4) q(2) by (simp add: near_def)
    have late: "\<not> TIME_LESS_THAN (of_nat (D + interval i)) (of_nat T')" using time_less [of "D + interval i" T'] b c(2) q(2) assms(3,4) by simp
    let ?e = "(D + interval i, Lwip_Cyclic_Timer, i)"
    obtain s2 where 2: "sys_timeout_abs (of_nat (D + interval i)) Lwip_Cyclic_Timer i s1 = Some s2" "queue_rep N T' (due_insert ?e q1) s2"
      using timeout_abs_ok [OF 1(2) _ n, of Lwip_Cyclic_Timer i] less.prems(3) q(1) by auto
    have "call_handler cyclic_env Lwip_Cyclic_Timer i (s1, (T', l)) = Some (s2, (T', l @ [i]))"
      using late 2(1) by (simp add: call_handler_def lwip_cyclic_timer_def Let_def cyclic_env_def 1(3) interval_word [OF c(1)])
    then have step: "check_loop cyclic_env (of_nat T') (s, (T', l)) = check_loop cyclic_env (of_nat T') (s2, (T', l @ [i]))" using 1(1) by simp
    have "cyclic_queue T (due_insert ?e q1)"
      using c b assms(3,4) q(2) by (auto simp: cyclic_queue_def distinct_due_insert image_iff)
    moreover have "filter (\<lambda>e. fst e \<le> T') (due_insert ?e q1) = filter (\<lambda>e. fst e \<le> T') q1"
      using b c(2) assms(3,4) by (induction q1) auto
    moreover have "length (due_insert ?e q1) \<le> N" using less.prems(3) q(1) by simp
    ultimately obtain s' q' cs where r: "check_loop cyclic_env (of_nat T') (s2, (T', l @ [i])) = Some (s', (T', (l @ [i]) @ cs))" "queue_rep N T' q' s'"
      "\<forall>e \<in> set q'. T' < fst e" "distinct (map (\<lambda>e. snd (snd e)) q')" "length q' = length (due_insert ?e q1)"
      "set q' = (\<lambda>e. (next_due T' e, snd e)) ` set (due_insert ?e q1)"
      "\<forall>j. count_list cs j = (if \<exists>e \<in> set (due_insert ?e q1). snd (snd e) = j \<and> fst e \<le> T' then 1 else 0)"
      using less.hyps [of "due_insert ?e q1" s2 "l @ [i]"] 2(2) q by auto
    have "next_due T' ?e = next_due T' (D, Lwip_Cyclic_Timer, i)" using q(2) b c(2) assms(3,4) by (simp add: next_due_def)
    then have set: "set q' = (\<lambda>e. (next_due T' e, snd e)) ` set q" using r(6) by (simp add: q(1))
    have cnt: "count_list (i # cs) j = (if \<exists>e \<in> set q. snd (snd e) = j \<and> fst e \<le> T' then 1 else 0)" for j
      using r(7) [rule_format, of j] c(3) q(2) b c(2) assms(3,4) by (cases "j = i") (auto simp: q(1) image_iff)
    show ?thesis using step r(1-5) set cnt by (intro exI [of _ s'] exI [of _ q'] exI [of _ "i # cs"]) (simp add: q(1))
  qed
qed

text \<open>Each timer is due at the first multiple of its interval that is still to come.\<close>

definition on_schedule :: "nat \<Rightarrow> nat \<Rightarrow> entry list \<Rightarrow> bool" where
  "on_schedule T0 T q \<longleftrightarrow> T0 \<le> T \<and> distinct (map (\<lambda>e. snd (snd e)) q) \<and> (\<lambda>e. snd (snd e)) ` set q = Collect cyclic_index \<and>
     (\<forall>e \<in> set q. fst (snd e) = Lwip_Cyclic_Timer \<and> fst e = T0 + interval (snd (snd e)) * ((T - T0) div interval (snd (snd e)) + 1))"

lemma next_multiple:
  fixes a b n :: nat
  assumes "0 < n" and "a \<le> b" and "b < a + n"
  shows "b div n = (if n * (a div n + 1) \<le> b then a div n + 1 else a div n)"
proof -
  have d: "a < n * (a div n + 1)" using assms(1) by (auto simp: dividend_less_times_div)
  have e: "n * (a div n) \<le> b" using times_div_less_eq_dividend [of n a] assms(2) by linarith
  have f: "b < n * (a div n) + n + n" using d assms(3) by simp
  show ?thesis
  proof (cases "n * (a div n + 1) \<le> b")
    case True
    then have "b div n = a div n + 1" using e f by (intro div_nat_eqI) (simp_all add: algebra_simps)
    then show ?thesis using True by simp
  next
    case False
    then have "b div n = a div n" using e by (intro div_nat_eqI) (simp_all add: algebra_simps)
    then show ?thesis using False by simp
  qed
qed

lemma on_schedule_bounds:
  assumes "on_schedule T0 T q" and "e \<in> set q"
  shows "cyclic_index (snd (snd e))" "T < fst e" "fst e \<le> T + interval (snd (snd e))"
proof -
  let ?i = "snd (snd e)"
  show c: "cyclic_index ?i" using assms by (auto simp: on_schedule_def)
  note b = interval_bounds [OF c]
  have e: "fst e = T0 + interval ?i * ((T - T0) div interval ?i + 1)" "T0 \<le> T" using assms by (auto simp: on_schedule_def)
  have "T - T0 < interval ?i * ((T - T0) div interval ?i + 1)" using b by (simp add: dividend_less_times_div)
  moreover have "T0 + interval ?i * ((T - T0) div interval ?i) \<le> T"
    using times_div_less_eq_dividend [of "interval ?i" "T - T0"] e(2) by linarith
  ultimately show "T < fst e" "fst e \<le> T + interval ?i" using e by simp_all
qed

lemma check_on_schedule:
  assumes "on_schedule T0 T q" and "queue_rep N T q s" and "d < 100" and "length q \<le> N"
    and "\<forall>i. cyclic_index i \<longrightarrow> count_list l i = (T - T0) div interval i"
  shows "\<exists>s' q' l'. sys_check_timeouts cyclic_env (s, (T + d, l)) = Some (s', (T + d, l')) \<and> queue_rep N (T + d) q' s' \<and>
    on_schedule T0 (T + d) q' \<and> length q' \<le> N \<and> (\<forall>i. cyclic_index i \<longrightarrow> count_list l' i = (T + d - T0) div interval i)"
proof -
  note o = on_schedule_bounds [OF assms(1)]
  have near: "near (T + d) (fst e)" if "e \<in> set q" for e
    using o [OF that] interval_bounds [OF o(1) [OF that]] assms(3) by (simp add: near_def)
  have rep: "queue_rep N (T + d) q s" using assms(2) near by (simp add: queue_rep_def)
  have "cyclic_queue T q"
    unfolding cyclic_queue_def
  proof (intro conjI ballI)
    fix e assume e: "e \<in> set q"
    show "fst (snd e) = Lwip_Cyclic_Timer" using assms(1) e by (simp add: on_schedule_def)
    show "cyclic_index (snd (snd e))" "T < fst e" by (fact o(1,2) [OF e])+
    show "fst e \<le> T + 60100" using o(3) [OF e] interval_bounds [OF o(1) [OF e]] by simp
  qed (use assms(1) in \<open>simp add: on_schedule_def\<close>)
  from check_cyclic [OF rep this _ _ assms(4), of l] assms(3) obtain s' q' cs where
    r: "check_loop cyclic_env (of_nat (T + d)) (s, (T + d, l)) = Some (s', (T + d, l @ cs))" "queue_rep N (T + d) q' s'"
    "distinct (map (\<lambda>e. snd (snd e)) q')" "length q' = length q" "set q' = (\<lambda>e. (next_due (T + d) e, snd e)) ` set q"
    "\<forall>i. count_list cs i = (if \<exists>e \<in> set q. snd (snd e) = i \<and> fst e \<le> T + d then 1 else 0)" by auto
  have T0: "T0 \<le> T" using assms(1) by (simp add: on_schedule_def)
  have step: "(T + d - T0) div interval (snd (snd e)) =
      (if fst e \<le> T + d then (T - T0) div interval (snd (snd e)) + 1 else (T - T0) div interval (snd (snd e)))" if "e \<in> set q" for e
  proof -
    have b: "100 \<le> interval (snd (snd e))" using interval_bounds [OF o(1) [OF that]] by simp
    have D: "fst e = T0 + interval (snd (snd e)) * ((T - T0) div interval (snd (snd e)) + 1)" using assms(1) that by (simp add: on_schedule_def)
    have "interval (snd (snd e)) * ((T - T0) div interval (snd (snd e)) + 1) \<le> T + d - T0 \<longleftrightarrow> fst e \<le> T + d" using T0 D by arith
    then show ?thesis using next_multiple [of "interval (snd (snd e))" "T - T0" "T + d - T0"] b assms(3) T0 by simp
  qed
  have "on_schedule T0 (T + d) q'"
    unfolding on_schedule_def
  proof (intro conjI ballI)
    show "(\<lambda>e. snd (snd e)) ` set q' = Collect cyclic_index" using assms(1) r(5) by (auto simp: on_schedule_def image_image)
    fix e' assume "e' \<in> set q'"
    then obtain e where e: "e \<in> set q" "e' = (next_due (T + d) e, snd e)" using r(5) by auto
    show "fst (snd e') = Lwip_Cyclic_Timer" using assms(1) e by (simp add: on_schedule_def)
    have "fst e = T0 + interval (snd (snd e)) * ((T - T0) div interval (snd (snd e)) + 1)" using assms(1) e(1) by (simp add: on_schedule_def)
    then show "fst e' = T0 + interval (snd (snd e')) * ((T + d - T0) div interval (snd (snd e')) + 1)"
      using step [OF e(1)] by (auto simp: e(2) next_due_def algebra_simps)
  qed (use r(3) T0 in simp_all)
  moreover have "count_list (l @ cs) i = (T + d - T0) div interval i" if i: "cyclic_index i" for i
  proof -
    have "i \<in> (\<lambda>e. snd (snd e)) ` set q" using i assms(1) by (simp add: on_schedule_def)
    then obtain e where e: "e \<in> set q" "snd (snd e) = i" by auto
    have "inj_on (\<lambda>e. snd (snd e)) (set q)" using assms(1) by (simp add: on_schedule_def distinct_map)
    then have "x = e" if "x \<in> set q" "snd (snd x) = i" for x using that e by (auto dest: inj_onD)
    then have "(\<exists>x \<in> set q. snd (snd x) = i \<and> fst x \<le> T + d) \<longleftrightarrow> fst e \<le> T + d" using e by blast
    then show ?thesis using r(6) step [OF e(1)] assms(5) i e(2) by (simp add: count_list_append)
  qed
  moreover have "core_locked s" "e_now cyclic_env (T + d, l) = of_nat (T + d)" using assms(2) by (simp_all add: queue_rep_def cyclic_env_def)
  ultimately show ?thesis using r(1,2,4) assms(4) by (intro exI [of _ s'] exI [of _ q'] exI [of _ "l @ cs"]) (simp add: sys_check_timeouts_def)
qed

lemma check_run_on_schedule:
  assumes "on_schedule T0 T q" and "queue_rep N T q s" and "\<forall>d \<in> set ds. d < 100" and "length q \<le> N"
    and "\<forall>i. cyclic_index i \<longrightarrow> count_list l i = (T - T0) div interval i"
  shows "\<exists>s' l'. check_run ds (s, (T, l)) = Some (s', (T + sum_list ds, l')) \<and>
    (\<forall>i. cyclic_index i \<longrightarrow> count_list l' i = (T + sum_list ds - T0) div interval i)"
  using assms
proof (induction ds arbitrary: T q s l)
  case Nil
  then show ?case by simp
next
  case (Cons d ds)
  have "d < 100" using Cons.prems(3) by simp
  from check_on_schedule [OF Cons.prems(1,2) this Cons.prems(4,5)] obtain s1 q1 l1 where
    1: "sys_check_timeouts cyclic_env (s, (T + d, l)) = Some (s1, (T + d, l1))" "queue_rep N (T + d) q1 s1" "on_schedule T0 (T + d) q1" "length q1 \<le> N"
    "\<forall>i. cyclic_index i \<longrightarrow> count_list l1 i = (T + d - T0) div interval i" by blast
  have "\<forall>d \<in> set ds. d < 100" using Cons.prems(3) by simp
  from Cons.IH [OF 1(3,2) this 1(4,5)] 1(1) show ?case by (auto simp: add.assoc)
qed

lemma start_cyclic_ok:
  assumes "queue_rep N T q s" and "length q + length js \<le> N" and "\<forall>i \<in> set js. cyclic_index i"
  shows "\<exists>s' q'. start_cyclic cyclic_env js (s, (T, l)) = Some (s', (T, l)) \<and> queue_rep N T q' s' \<and>
    mset q' = mset q + mset (map (\<lambda>i. (T + interval i, Lwip_Cyclic_Timer, i)) js)"
  using assms
proof (induction "js" arbitrary: q s)
  case Nil
  then show ?case by auto
next
  case (Cons i js)
  have c: "cyclic_index i" using Cons.prems(3) by simp
  have "interval i \<le> 0x3FFFFFFF" "e_now cyclic_env (T, l) = of_nat T" using interval_bounds [OF c] by (simp_all add: cyclic_env_def)
  from timeout_ok [OF Cons.prems(1) _ this, of Lwip_Cyclic_Timer i] Cons.prems(2) obtain s1 where
    1: "sys_timeout cyclic_env (of_nat (interval i)) Lwip_Cyclic_Timer i (s, (T, l)) = Some (s1, (T, l))"
    "queue_rep N T (due_insert (T + interval i, Lwip_Cyclic_Timer, i) q) s1" by auto
  have "mset (due_insert e q) = add_mset e (mset q)" for e by (induction q) auto
  moreover obtain s' q' where "start_cyclic cyclic_env js (s1, (T, l)) = Some (s', (T, l))" "queue_rep N T q' s'"
    "mset q' = mset (due_insert (T + interval i, Lwip_Cyclic_Timer, i) q) + mset (map (\<lambda>i. (T + interval i, Lwip_Cyclic_Timer, i)) js)"
    using Cons.IH [OF 1(2)] Cons.prems(2,3) by auto
  ultimately show ?case using 1(1) interval_word [OF c] by auto
qed

text \<open>
  C24: The cyclic timers keep pace with the clock. When the stack starts its timers at any time \<open>T0\<close> and checks them with less than 100 ms from one check to the next, at
  whatever intervals, then after any number of checks each handler has run exactly as often as its interval has passed since \<open>T0\<close>: the delays of
  the checks do not add up, and the wrap of the clock loses no call.
\<close>

theorem cyclic_timers_keep_pace:
  assumes "0 < elsize" and "0 < base" and "length lwip_cyclic_timers \<le> N" and "\<forall>d \<in> set ds. d < 100"
  shows "\<exists>s0 s l. sys_timeouts_init cyclic_env (timeouts_boot N elsize base memory, (T0, [])) = Some (s0, (T0, [])) \<and>
    check_run ds (s0, (T0, [])) = Some (s, (T0 + sum_list ds, l)) \<and>
    (\<forall>i \<in> {1..<length lwip_cyclic_timers}. count_list l i = sum_list ds div unat (lwip_cyclic_timers ! i))"
proof -
  let ?js = "[1..<length lwip_cyclic_timers]"
  have js: "length ([] :: entry list) + length ?js \<le> N" "\<forall>i \<in> set ?js. cyclic_index i" using assms(3) by (simp_all add: cyclic_index_def)
  obtain s0 q where i: "start_cyclic cyclic_env ?js (timeouts_boot N elsize base memory, (T0, [])) = Some (s0, (T0, []))" "queue_rep N T0 q s0"
    "mset q = mset (map (\<lambda>i. (T0 + interval i, Lwip_Cyclic_Timer, i)) ?js)"
    using start_cyclic_ok [OF boot_rep [OF assms(1,2), of N T0 memory] js, of "[]"] by auto
  have mset_idx: "mset (map (\<lambda>e. snd (snd e)) q) = mset ?js"
    using arg_cong [OF i(3), of "image_mset (\<lambda>e. snd (snd e))"] by (simp add: multiset.map_comp comp_def)
  have "distinct (map (\<lambda>e. snd (snd e)) q)" using mset_eq_imp_distinct_iff [OF mset_idx] by simp
  moreover have "(\<lambda>e. snd (snd e)) ` set q = Collect cyclic_index"
    using mset_eq_setD [OF mset_idx] by (auto simp: cyclic_index_def)
  moreover have "set q = set (map (\<lambda>i. (T0 + interval i, Lwip_Cyclic_Timer, i)) ?js)" using mset_eq_setD [OF i(3)] .
  ultimately have o: "on_schedule T0 T0 q" by (auto simp: on_schedule_def)
  have "length q \<le> N" using arg_cong [OF i(3), of size] js(1) by simp
  from check_run_on_schedule [OF o i(2) assms(4) this, of "[]"] obtain s l where
    r: "check_run ds (s0, (T0, [])) = Some (s, (T0 + sum_list ds, l))" "\<forall>i. cyclic_index i \<longrightarrow> count_list l i = sum_list ds div interval i" by auto
  then show ?thesis using i(1) by (intro exI [of _ s0] exI [of _ s] exI [of _ l]) (simp add: sys_timeouts_init_def cyclic_index_def interval_def)
qed

theorem cyclic_timers_keep_pace_witness:
  "\<exists>s0 s l. sys_timeouts_init cyclic_env (timeouts_boot 10 16 0x20001000 (\<lambda>_. 0), (0xFFFFFF00, [])) = Some (s0, (0xFFFFFF00, [])) \<and>
     check_run (replicate 20 99) (s0, (0xFFFFFF00, [])) = Some (s, (0x1000006BC, l)) \<and> count_list l 5 = 19 \<and> count_list l 4 = 3"
proof -
  have "length lwip_cyclic_timers \<le> 10" "\<forall>d \<in> set (replicate 20 (99 :: nat)). d < 100" by (simp_all add: cyclic_table)
  from cyclic_timers_keep_pace [of 16 "0x20001000", OF _ _ this, of "\<lambda>_. 0" "0xFFFFFF00"]
  obtain s0 s l where r: "sys_timeouts_init cyclic_env (timeouts_boot 10 16 0x20001000 (\<lambda>_. 0), (0xFFFFFF00, [])) = Some (s0, (0xFFFFFF00, []))"
    "check_run (replicate 20 99) (s0, (0xFFFFFF00, [])) = Some (s, (0xFFFFFF00 + sum_list (replicate 20 99), l))"
    "\<forall>i \<in> {1..<length lwip_cyclic_timers}. count_list l i = sum_list (replicate 20 99) div unat (lwip_cyclic_timers ! i)" by auto
  have "count_list l 5 = 19" "count_list l 4 = 3"
    using bspec [OF r(3), of 5] bspec [OF r(3), of 4] by (simp_all add: cyclic_table sum_list_replicate)
  then show ?thesis using r(1,2) by (intro exI [of _ s0] exI [of _ s] exI [of _ l]) (simp add: sum_list_replicate)
qed

end
