(* ===== verification/SysArch.thy ===== *)
theory SysArch
  imports QueueSync LwipDef
begin

text \<open>
  The system layer of the network stack over the kernel, \<^verbatim>\<open>lwip/port/sys_arch/dynamic/sys_arch.c\<close>: mailboxes of pointers, semaphores, mutexes,
  the clock, and the lock of the stack's core with its owner check. What other tasks and interrupts do while a call waits are the lists of passes
  of the queue operations, one list for each call that a loop of this layer makes.
\<close>

section \<open>Pointers in a queue\<close>


definition ptr_bytes :: "u32 \<Rightarrow> u8 list" where
  "ptr_bytes p = [ucast p, ucast (drop_bit 8 p), ucast (drop_bit 16 p), ucast (drop_bit 24 p)]"

definition bytes_ptr :: "u8 list \<Rightarrow> u32" where
  "bytes_ptr d = ucast (d ! 0) OR push_bit 8 (ucast (d ! 1)) OR push_bit 16 (ucast (d ! 2)) OR push_bit 24 (ucast (d ! 3))"

lemma bytes_ptr_bytes [simp]: "bytes_ptr (ptr_bytes p) = p"
proof (rule bit_word_eqI)
  fix n assume "n < LENGTH(32)"
  then have "n < 8 \<or> (8 \<le> n \<and> n < 16) \<or> (16 \<le> n \<and> n < 24) \<or> (24 \<le> n \<and> n < 32)" by auto
  then show "bit (bytes_ptr (ptr_bytes p)) n = bit p n"
    by (elim disjE) (auto simp: bytes_ptr_def ptr_bytes_def bit_simps)
qed

lemma length_ptr_bytes [simp]: "length (ptr_bytes p) = 4" by (simp add: ptr_bytes_def)

definition sizeof_ptr :: nat where "sizeof_ptr = 4"

section \<open>Time and numbers\<close>

definition configTICK_RATE_HZ :: u32 where "configTICK_RATE_HZ = 1000"

definition portTICK_PERIOD_MS :: u32 where "portTICK_PERIOD_MS = 1000 div configTICK_RATE_HZ"

definition pdMS_TO_TICKS :: "u32 \<Rightarrow> u32" where
  "pdMS_TO_TICKS xTimeInMs = ucast ((ucast xTimeInMs * ucast configTICK_RATE_HZ :: u64) div 1000)"

definition xTaskGetTickCount :: "kernel \<Rightarrow> u32" where "xTaskGetTickCount k = xTickCount k"

definition sys_now :: "kernel \<Rightarrow> u32" where "sys_now k = xTaskGetTickCount k * portTICK_PERIOD_MS"

definition sys_arch_msleep :: "u32 \<Rightarrow> kernel \<Rightarrow> kernel option" where
  "sys_arch_msleep delay_ms k = vTaskDelay (pdMS_TO_TICKS delay_ms) k"

definition lwip_rand :: "u32 \<Rightarrow> u32 \<times> u32" where
  "lwip_rand rand_value =
     (let rand_value = rand_value * 1103515245 + 12345
      in (drop_bit 16 rand_value mod (32767 + 1), rand_value))"

section \<open>Mailboxes\<close>

definition SYS_ARCH_TIMEOUT :: u32 where "SYS_ARCH_TIMEOUT = 0xFFFFFFFF"

definition SYS_MBOX_EMPTY :: u32 where "SYS_MBOX_EMPTY = SYS_ARCH_TIMEOUT"

definition queueQUEUE_TYPE_BASE :: u8 where "queueQUEUE_TYPE_BASE = 0"

definition sys_mbox_new ::
    "nat \<Rightarrow> nat \<Rightarrow> (nat \<Rightarrow> u8 list) \<Rightarrow> nat \<Rightarrow> heap4 \<Rightarrow> kernel \<Rightarrow> (err_t \<times> nat \<times> queue option \<times> heap4 \<times> kernel) option" where
  "sys_mbox_new ucHeap heap_size memory iSize heap k = do {
     (pxMailBox, q, heap, k) \<leftarrow> xQueueGenericCreate ucHeap heap_size memory iSize sizeof_ptr queueQUEUE_TYPE_BASE heap k;
     Some (if pxMailBox \<noteq> 0 then ERR_OK else ERR_MEM, pxMailBox, q, heap, k) }"

definition sys_mbox_free :: "nat \<Rightarrow> nat \<Rightarrow> nat \<Rightarrow> queue \<Rightarrow> registry \<Rightarrow> heap4 \<Rightarrow> (registry \<times> heap4) option" where
  "sys_mbox_free ucHeap heap_size pxMailBox q r heap =
     (let ulMessagesWaiting = uxQueueMessagesWaiting q
      in if ulMessagesWaiting = 0 then vQueueDelete ucHeap heap_size pxMailBox r heap else None)"

text \<open>Posting repeats the call until the message is in the mailbox.\<close>

fun sys_mbox_post :: "pass_env list list \<Rightarrow> u32 \<Rightarrow> queue \<Rightarrow> kernel \<Rightarrow> (unit outcome \<times> bool \<times> queue \<times> kernel) option" where
  "sys_mbox_post [] msg q k = Some (Waiting, False, q, k)"
| "sys_mbox_post (envs # rest) msg q k = do {
     (r, y, q, k) \<leftarrow> xQueueGenericSend (Some (ptr_bytes msg)) portMAX_DELAY queueSEND_TO_BACK envs q k;
     if r = Failed then sys_mbox_post rest msg q k else Some (r, y, q, k) }"

text \<open>In an interrupt the variant for interrupts is called; the boolean of the result is the request to yield.\<close>

definition sys_mbox_trypost :: "bool \<Rightarrow> u32 \<Rightarrow> queue \<Rightarrow> kernel \<Rightarrow> (err_t \<times> bool \<times> queue \<times> kernel) option" where
  "sys_mbox_trypost in_interrupt msg q k =
     (if in_interrupt then do {
        (r, taskToWake, q, k) \<leftarrow> xQueueGenericSendFromISR (Some (ptr_bytes msg)) queueSEND_TO_BACK q k;
        Some (if r then (ERR_OK, taskToWake, q, k) else (ERR_MEM, False, q, k)) }
      else do {
        (r, y, q, k) \<leftarrow> xQueueGenericSend (Some (ptr_bytes msg)) 0 queueSEND_TO_BACK [] q k;
        Some (if r = Returned () then ERR_OK else ERR_MEM, y, q, k) })"

definition sys_mbox_trypost_fromisr :: "u32 \<Rightarrow> queue \<Rightarrow> kernel \<Rightarrow> (err_t \<times> bool \<times> queue \<times> kernel) option" where
  "sys_mbox_trypost_fromisr msg q k = sys_mbox_trypost True msg q k"

fun receive_forever :: "pass_env list list \<Rightarrow> queue \<Rightarrow> kernel \<Rightarrow> (u8 list outcome \<times> bool \<times> queue \<times> kernel) option" where
  "receive_forever [] q k = Some (Waiting, False, q, k)"
| "receive_forever (envs # rest) q k = do {
     (r, y, q, k) \<leftarrow> xQueueReceive portMAX_DELAY envs q k;
     if r = Failed then receive_forever rest q k else Some (r, y, q, k) }"

text \<open>The milliseconds since a start; a wait without a limit reports at least one.\<close>

definition elapsed :: "u32 \<Rightarrow> kernel \<Rightarrow> u32" where
  "elapsed xStartTime k = (xTaskGetTickCount k - xStartTime) * portTICK_PERIOD_MS"

definition at_least_one :: "u32 \<Rightarrow> u32" where "at_least_one t = (if t = 0 then 1 else t)"

definition first_call :: "pass_env list list \<Rightarrow> pass_env list" where
  "first_call calls = (case calls of [] \<Rightarrow> [] | envs # _ \<Rightarrow> envs)"

text \<open>The result is the time and the message, which is null after a time-out.\<close>

definition sys_arch_mbox_fetch ::
    "pass_env list list \<Rightarrow> u32 \<Rightarrow> queue \<Rightarrow> kernel \<Rightarrow> ((u32 \<times> u32) outcome \<times> bool \<times> queue \<times> kernel) option" where
  "sys_arch_mbox_fetch calls ulTimeOut q k =
     (let xStartTime = xTaskGetTickCount k
      in if ulTimeOut \<noteq> 0 then do {
           (r, y, q, k) \<leftarrow> xQueueReceive (ulTimeOut div portTICK_PERIOD_MS) (first_call calls) q k;
           Some (case r of
                   Returned d \<Rightarrow> Returned (elapsed xStartTime k, bytes_ptr d)
                 | Failed \<Rightarrow> Returned (SYS_ARCH_TIMEOUT, 0)
                 | Waiting \<Rightarrow> Waiting, y, q, k) }
         else do {
           (r, y, q, k) \<leftarrow> receive_forever calls q k;
           Some (case r of
                   Returned d \<Rightarrow> Returned (at_least_one (elapsed xStartTime k), bytes_ptr d)
                 | _ \<Rightarrow> Waiting, y, q, k) })"

definition sys_arch_mbox_tryfetch :: "queue \<Rightarrow> kernel \<Rightarrow> (u32 \<times> u32 option \<times> bool \<times> queue \<times> kernel) option" where
  "sys_arch_mbox_tryfetch q k = do {
     (r, y, q, k) \<leftarrow> xQueueReceive 0 [] q k;
     Some (case r of Returned d \<Rightarrow> (0, Some (bytes_ptr d), y, q, k) | _ \<Rightarrow> (SYS_MBOX_EMPTY, None, y, q, k)) }"

section \<open>Semaphores and mutexes\<close>

definition queueQUEUE_TYPE_BINARY_SEMAPHORE :: u8 where "queueQUEUE_TYPE_BINARY_SEMAPHORE = 3"

definition queueQUEUE_TYPE_MUTEX :: u8 where "queueQUEUE_TYPE_MUTEX = 1"

definition xSemaphoreGive :: "queue \<Rightarrow> kernel \<Rightarrow> (unit outcome \<times> bool \<times> queue \<times> kernel) option" where
  "xSemaphoreGive q k = xQueueGenericSend None 0 queueSEND_TO_BACK [] q k"

definition sys_sem_new ::
    "nat \<Rightarrow> nat \<Rightarrow> (nat \<Rightarrow> u8 list) \<Rightarrow> u8 \<Rightarrow> heap4 \<Rightarrow> kernel \<Rightarrow> (err_t \<times> nat \<times> queue option \<times> heap4 \<times> kernel) option" where
  "sys_sem_new ucHeap heap_size memory count heap k =
     (if count = 0 \<or> count = 1 then do {
        (sem, q, heap, k) \<leftarrow> xQueueGenericCreate ucHeap heap_size memory 1 0 queueQUEUE_TYPE_BINARY_SEMAPHORE heap k;
        (case q of
           None \<Rightarrow> Some (ERR_MEM, sem, None, heap, k)
         | Some q \<Rightarrow>
             if count = 1 then do {
               (r, _, q, k) \<leftarrow> xSemaphoreGive q k;
               if r = Returned () then Some (ERR_OK, sem, Some q, heap, k) else None }
             else Some (ERR_OK, sem, Some q, heap, k)) }
      else None)"

fun take_forever :: "pass_env list list \<Rightarrow> queue \<Rightarrow> kernel \<Rightarrow> (unit outcome \<times> bool \<times> queue \<times> kernel) option" where
  "take_forever [] q k = Some (Waiting, False, q, k)"
| "take_forever (envs # rest) q k = do {
     (r, y, q, k) \<leftarrow> xQueueSemaphoreTake portMAX_DELAY envs q k;
     if r = Failed then take_forever rest q k else Some (r, y, q, k) }"

definition sys_arch_sem_wait ::
    "pass_env list list \<Rightarrow> u32 \<Rightarrow> queue \<Rightarrow> kernel \<Rightarrow> (u32 outcome \<times> bool \<times> queue \<times> kernel) option" where
  "sys_arch_sem_wait calls ulTimeout q k =
     (let xStartTime = xTaskGetTickCount k
      in if ulTimeout \<noteq> 0 then do {
           (r, y, q, k) \<leftarrow> xQueueSemaphoreTake (ulTimeout div portTICK_PERIOD_MS) (first_call calls) q k;
           Some (case r of
                   Returned _ \<Rightarrow> Returned (elapsed xStartTime k)
                 | Failed \<Rightarrow> Returned SYS_ARCH_TIMEOUT
                 | Waiting \<Rightarrow> Waiting, y, q, k) }
         else do {
           (r, y, q, k) \<leftarrow> take_forever calls q k;
           Some (case r of Returned _ \<Rightarrow> Returned (at_least_one (elapsed xStartTime k)) | _ \<Rightarrow> Waiting, y, q, k) })"

definition sys_sem_signal :: "queue \<Rightarrow> kernel \<Rightarrow> (bool \<times> queue \<times> kernel) option" where
  "sys_sem_signal q k = map_option snd (xSemaphoreGive q k)"

definition sys_sem_free :: "nat \<Rightarrow> nat \<Rightarrow> nat \<Rightarrow> registry \<Rightarrow> heap4 \<Rightarrow> (registry \<times> heap4) option" where
  "sys_sem_free ucHeap heap_size pxSemaphore r heap = vQueueDelete ucHeap heap_size pxSemaphore r heap"

definition sys_mutex_new ::
    "nat \<Rightarrow> nat \<Rightarrow> (nat \<Rightarrow> u8 list) \<Rightarrow> heap4 \<Rightarrow> kernel \<Rightarrow> (err_t \<times> nat \<times> queue option \<times> heap4 \<times> kernel) option" where
  "sys_mutex_new ucHeap heap_size memory heap k = do {
     (pxMutex, q, heap, k) \<leftarrow> xQueueCreateMutex ucHeap heap_size memory queueQUEUE_TYPE_MUTEX heap k;
     Some (if pxMutex \<noteq> 0 then ERR_OK else ERR_MEM, pxMutex, q, heap, k) }"

definition sys_mutex_lock :: "pass_env list list \<Rightarrow> queue \<Rightarrow> kernel \<Rightarrow> (unit outcome \<times> bool \<times> queue \<times> kernel) option" where
  "sys_mutex_lock calls q k = take_forever calls q k"

definition sys_mutex_unlock :: "queue \<Rightarrow> kernel \<Rightarrow> (bool \<times> queue \<times> kernel) option" where
  "sys_mutex_unlock q k = map_option snd (xSemaphoreGive q k)"

definition sys_mutex_free :: "nat \<Rightarrow> nat \<Rightarrow> nat \<Rightarrow> registry \<Rightarrow> heap4 \<Rightarrow> (registry \<times> heap4) option" where
  "sys_mutex_free ucHeap heap_size pxMutex r heap = vQueueDelete ucHeap heap_size pxMutex r heap"

section \<open>The lock of the core\<close>

record core_lock =
  lock_tcpip_core :: queue
  lwip_core_lock_count :: u8
  lwip_core_lock_holder_thread :: nat
  lwip_tcpip_thread :: nat

definition sys_lock_tcpip_core :: "pass_env list list \<Rightarrow> core_lock \<Rightarrow> kernel \<Rightarrow> (unit outcome \<times> bool \<times> core_lock \<times> kernel) option" where
  "sys_lock_tcpip_core calls c k = do {
     (r, y, q, k) \<leftarrow> sys_mutex_lock calls (lock_tcpip_core c) k;
     let c = c\<lparr>lock_tcpip_core := q\<rparr>;
     Some (r, y,
       if r = Returned () then
         let c = (if lwip_core_lock_count c = 0 then c\<lparr>lwip_core_lock_holder_thread := pxCurrentTCB k\<rparr> else c)
         in c\<lparr>lwip_core_lock_count := lwip_core_lock_count c + 1\<rparr>
       else c, k) }"

definition sys_unlock_tcpip_core :: "core_lock \<Rightarrow> kernel \<Rightarrow> (bool \<times> core_lock \<times> kernel) option" where
  "sys_unlock_tcpip_core c k =
     (let c = c\<lparr>lwip_core_lock_count := lwip_core_lock_count c - 1\<rparr>;
          c = (if lwip_core_lock_count c = 0 then c\<lparr>lwip_core_lock_holder_thread := 0\<rparr> else c)
      in do {
        (y, q, k) \<leftarrow> sys_mutex_unlock (lock_tcpip_core c) k;
        Some (y, c\<lparr>lock_tcpip_core := q\<rparr>, k) })"

definition sys_mark_tcpip_thread :: "core_lock \<Rightarrow> kernel \<Rightarrow> core_lock" where
  "sys_mark_tcpip_thread c k = c\<lparr>lwip_tcpip_thread := pxCurrentTCB k\<rparr>"

definition sys_check_core_locking :: "bool \<Rightarrow> core_lock \<Rightarrow> kernel \<Rightarrow> unit option" where
  "sys_check_core_locking in_interrupt c k =
     (if in_interrupt then None
      else if lwip_tcpip_thread c \<noteq> 0 then
        let current_thread = pxCurrentTCB k
        in if current_thread = lwip_core_lock_holder_thread c \<and> lwip_core_lock_count c > 0 then Some () else None
      else Some ())"

section \<open>A mailbox is a bounded sequence of pointers\<close>

datatype mbox_op = Post bool u32 | Fetch

text \<open>Posting from a task or an interrupt, without waiting, and fetching. The result is the error, or the message fetched.\<close>

definition mbox_step :: "mbox_op \<Rightarrow> queue \<times> kernel \<Rightarrow> ((err_t + u32 option) \<times> queue \<times> kernel) option" where
  "mbox_step op = (\<lambda>(q, k). case op of
     Post in_interrupt msg \<Rightarrow> map_option (\<lambda>(e, _, s). (Inl e, s)) (sys_mbox_trypost in_interrupt msg q k)
   | Fetch \<Rightarrow> map_option (\<lambda>(_, m, _, s). (Inr m, s)) (sys_arch_mbox_tryfetch q k))"

fun mbox_run :: "mbox_op list \<Rightarrow> queue \<times> kernel \<Rightarrow> ((err_t + u32 option) list \<times> queue \<times> kernel) option" where
  "mbox_run [] s = Some ([], s)"
| "mbox_run (op # ops) s = do { (r, s) \<leftarrow> mbox_step op s; (rs, s) \<leftarrow> mbox_run ops s; Some (r # rs, s) }"

fun msgs_run :: "nat \<Rightarrow> mbox_op list \<Rightarrow> u32 list \<Rightarrow> (err_t + u32 option) list \<times> u32 list" where
  "msgs_run n [] ms = ([], ms)"
| "msgs_run n (Post i m # ops) ms =
     (if length ms < n then let (rs, ms) = msgs_run n ops (ms @ [m]) in (Inl ERR_OK # rs, ms)
      else let (rs, ms) = msgs_run n ops ms in (Inl ERR_MEM # rs, ms))"
| "msgs_run n (Fetch # ops) ms =
     (case ms of
        [] \<Rightarrow> let (rs, ms) = msgs_run n ops [] in (Inr None # rs, ms)
      | m # ms \<Rightarrow> let (rs, ms) = msgs_run n ops ms in (Inr (Some m) # rs, ms))"

definition mailbox :: "nat \<Rightarrow> u32 list \<Rightarrow> queue \<Rightarrow> bool" where
  "mailbox n ms q \<longleftrightarrow> queue_ok q \<and> contents q = map ptr_bytes ms \<and> uxLength q = n \<and> uxItemSize q = sizeof_ptr"

lemma mbox_step_ok:
  assumes "mailbox n ms q" and "uxCurrentNumberOfTasks k \<le> 127"
  shows "\<exists>r ms' q' k'. mbox_step op (q, k) = Some (r, q', k') \<and> msgs_run n [op] ms = ([r], ms') \<and> mailbox n ms' q' \<and>
    uxCurrentNumberOfTasks k' = uxCurrentNumberOfTasks k"
proof (cases op)
  case (Post i m)
  note a = assms(1) [unfolded mailbox_def]
  have len: "length (ptr_bytes m) = uxItemSize q" "queueSEND_TO_BACK = queueOVERWRITE \<longrightarrow> uxLength q = 1" using a by (simp_all add: sizeof_ptr_def)
  have p: "\<exists>b y q' k'. sys_mbox_trypost i m q k = Some (if b then ERR_OK else ERR_MEM, y, q', k') \<and>
      list_send (uxLength q) (ptr_bytes m) queueSEND_TO_BACK (contents q) = (b, contents q') \<and>
      queue_ok q' \<and> uxLength q' = uxLength q \<and> uxItemSize q' = uxItemSize q \<and> uxCurrentNumberOfTasks k' = uxCurrentNumberOfTasks k"
  proof (cases i)
    case True
    obtain b y q' k' where "xQueueGenericSendFromISR (Some (ptr_bytes m)) queueSEND_TO_BACK q k = Some (b, y, q', k')"
      "list_send (uxLength q) (ptr_bytes m) queueSEND_TO_BACK (contents q) = (b, contents q')" "queue_ok q'" "uxLength q' = uxLength q"
      "uxItemSize q' = uxItemSize q" "uxCurrentNumberOfTasks k' = uxCurrentNumberOfTasks k"
      using send_isr_step [OF conjunct1 [OF a] len assms(2)] by blast
    then show ?thesis using True
      by (intro exI [of _ b] exI [of _ "if b then y else False"] exI [of _ q'] exI [of _ k']) (simp add: sys_mbox_trypost_def)
  next
    case False
    obtain b y q' k' where "xQueueGenericSend (Some (ptr_bytes m)) 0 queueSEND_TO_BACK [] q k = Some (if b then Returned () else Failed, y, q', k')"
      "list_send (uxLength q) (ptr_bytes m) queueSEND_TO_BACK (contents q) = (b, contents q')" "queue_ok q'" "uxLength q' = uxLength q"
      "uxItemSize q' = uxItemSize q" "uxCurrentNumberOfTasks k' = uxCurrentNumberOfTasks k"
      using send_step [OF conjunct1 [OF a] len, of k] by blast
    then show ?thesis using False by (intro exI [of _ b] exI [of _ y] exI [of _ q'] exI [of _ k']) (simp add: sys_mbox_trypost_def)
  qed
  then obtain b y q' k' where r: "sys_mbox_trypost i m q k = Some (if b then ERR_OK else ERR_MEM, y, q', k')"
    "list_send (uxLength q) (ptr_bytes m) queueSEND_TO_BACK (contents q) = (b, contents q')"
    "queue_ok q'" "uxLength q' = uxLength q" "uxItemSize q' = uxItemSize q" "uxCurrentNumberOfTasks k' = uxCurrentNumberOfTasks k" by blast
  let ?ms = "if length ms < n then ms @ [m] else ms"
  have "mailbox n ?ms q'" "b \<longleftrightarrow> length ms < n" using r(2-5) a by (auto simp: list_send_def mailbox_def split: if_splits)
  then show ?thesis using Post r(1,6)
    by (intro exI [of _ "Inl (if length ms < n then ERR_OK else ERR_MEM)"] exI [of _ ?ms] exI [of _ q'] exI [of _ k']) (simp add: mbox_step_def)
next
  case Fetch
  note a = assms(1) [unfolded mailbox_def]
  obtain r y q' k' where r: "xQueueReceive 0 [] q k = Some (r, y, q', k')" "list_step (uxLength q) Receive (contents q) = (received r, contents q')"
    "queue_ok q'" "uxLength q' = uxLength q" "uxItemSize q' = uxItemSize q" "uxCurrentNumberOfTasks k' = uxCurrentNumberOfTasks k"
    using receive_step [OF conjunct1 [OF a], of k] by blast
  show ?thesis
  proof (cases ms)
    case Nil
    then have "\<forall>d. r \<noteq> Returned d" "contents q' = []" using r(2) a by (auto simp: list_step_def received_def split: outcome.splits)
    then have "mbox_step Fetch (q, k) = Some (Inr None, q', k')" "mailbox n [] q'"
      using r a by (auto simp: mbox_step_def sys_arch_mbox_tryfetch_def mailbox_def split: outcome.split)
    then show ?thesis using Fetch Nil r(6) by auto
  next
    case (Cons m ms1)
    then have "r = Returned (ptr_bytes m)" "contents q' = map ptr_bytes ms1" using r(2) a by (auto simp: list_step_def received_def split: outcome.splits)
    then have "mbox_step Fetch (q, k) = Some (Inr (Some m), q', k')" "mailbox n ms1 q'"
      using r a by (auto simp: mbox_step_def sys_arch_mbox_tryfetch_def mailbox_def)
    then show ?thesis using Fetch Cons r(6) by auto
  qed
qed

lemma mbox_run_ok:
  "mailbox n ms q \<Longrightarrow> uxCurrentNumberOfTasks k \<le> 127 \<Longrightarrow>
   \<exists>rs ms' q' k'. mbox_run ops (q, k) = Some (rs, q', k') \<and> msgs_run n ops ms = (rs, ms') \<and> mailbox n ms' q'"
proof (induction ops arbitrary: ms q k)
  case Nil
  then show ?case by auto
next
  case (Cons op ops)
  obtain r ms1 q1 k1 where 1: "mbox_step op (q, k) = Some (r, q1, k1)" "msgs_run n [op] ms = ([r], ms1)" "mailbox n ms1 q1"
    "uxCurrentNumberOfTasks k1 = uxCurrentNumberOfTasks k" using mbox_step_ok [OF Cons.prems] by blast
  obtain rs ms' q' k' where 2: "mbox_run ops (q1, k1) = Some (rs, q', k')" "msgs_run n ops ms1 = (rs, ms')" "mailbox n ms' q'"
    using Cons.IH [OF 1(3), of k1] 1(4) Cons.prems(2) by auto
  have "msgs_run n (op # ops) ms = (r # rs, ms')"
    using 1(2) 2(2) by (cases op) (auto split: if_splits list.splits)
  then show ?case using 1(1) 2 by auto
qed

lemma new_mailbox:
  assumes "0 < n" and "n < 2 ^ 29" and "\<And>m. length (memory m) = m"
    and "pvPortMalloc ucHeap heap_size (of_nat (sizeof_Queue_t + n * sizeof_ptr)) heap = Some (p, heap')"
  shows "\<exists>qo k'. sys_mbox_new ucHeap heap_size memory n heap k = Some (if p \<noteq> 0 then ERR_OK else ERR_MEM, p, qo, heap', k') \<and>
    (if p = 0 then qo = None \<and> k' = k else \<exists>q. qo = Some q \<and> mailbox n [] q) \<and> uxCurrentNumberOfTasks k' = uxCurrentNumberOfTasks k"
proof -
  have n: "n * 4 < 2 ^ 31" using assms(2) by simp
  have fit: "sizeof_ptr \<le> (2 ^ 32 - 1) div n" "n * sizeof_ptr \<le> 2 ^ 32 - 1 - sizeof_Queue_t"
    using assms(1) n by (simp_all add: sizeof_ptr_def sizeof_Queue_t_def less_eq_div_iff_mult_less_eq mult.commute)
  let ?q = "\<lparr>pcHead = memory (n * sizeof_ptr), is_mutex = False, pcWriteTo = 0, pcTail = n * sizeof_ptr, pcReadFrom = int ((n - 1) * sizeof_ptr),
      xMutexHolder = 0, uxRecursiveCallCount = 0, xTasksWaitingToSend = p + 16, xTasksWaitingToReceive = p + 36, uxMessagesWaiting = 0,
      uxLength = n, uxItemSize = sizeof_ptr, cRxLock = queueUNLOCKED, cTxLock = queueUNLOCKED, uxQueueNumber = 0, ucQueueType = queueQUEUE_TYPE_BASE\<rparr>"
  let ?k = "k\<lparr>xEventLists := (xEventLists k)(p + 16 := [], p + 36 := [])\<rparr>"
  have i: "prvInitialiseNewQueue n sizeof_ptr p (memory (n * sizeof_ptr)) queueQUEUE_TYPE_BASE k = Some (?q, ?k)"
    using assms(1) fit(1) by (simp add: prvInitialiseNewQueue_def xQueueGenericReset_def Suc_le_eq)
  have "ring_at 0 (n - 1) ?q" using assms(1,3) n by (simp add: ring_at_def sizeof_ptr_def)
  then have "mailbox n [] ?q" by (auto simp: mailbox_def queue_ok_def contents_def)
  then show ?thesis using assms(1,4) fit i by (simp add: sys_mbox_new_def xQueueGenericCreate_def)
qed

text \<open>
  C25: A mailbox is a bounded sequence of pointers. When the allocation of its memory succeeds, \<^verbatim>\<open>sys_mbox_new\<close> gives an empty mailbox,
  and then any run of posts, from tasks or interrupts, and fetches that do not wait returns, with the results of the sequence: \<^verbatim>\<open>ERR_MEM\<close>
  exactly when \<open>n\<close> messages wait, every pointer fetched once, unchanged, and in the order of the posts.
\<close>

theorem mailbox_is_sequence:
  assumes "0 < n" and "n < 2 ^ 29" and "\<And>m. length (memory m) = m" and "uxCurrentNumberOfTasks k \<le> 127"
    and "pvPortMalloc ucHeap heap_size (of_nat (sizeof_Queue_t + n * sizeof_ptr)) heap = Some (p, heap')" and "p \<noteq> 0"
  shows "\<exists>q k1 q' k'. sys_mbox_new ucHeap heap_size memory n heap k = Some (ERR_OK, p, Some q, heap', k1) \<and>
    mbox_run ops (q, k1) = Some (fst (msgs_run n ops []), q', k') \<and> uxQueueMessagesWaiting q' = length (snd (msgs_run n ops []))"
proof -
  obtain q k1 where 1: "sys_mbox_new ucHeap heap_size memory n heap k = Some (ERR_OK, p, Some q, heap', k1)" "mailbox n [] q"
    "uxCurrentNumberOfTasks k1 = uxCurrentNumberOfTasks k"
    using new_mailbox [OF assms(1,2,3,5), of k] assms(6) by auto
  have "uxCurrentNumberOfTasks k1 \<le> 127" using 1(3) assms(4) by simp
  from mbox_run_ok [OF 1(2) this, of ops] obtain rs ms q' k' where
    2: "mbox_run ops (q, k1) = Some (rs, q', k')" "msgs_run n ops [] = (rs, ms)" "mailbox n ms q'" by blast
  have "uxMessagesWaiting q' = length ms" using 2(3) length_contents [of q'] by (simp add: mailbox_def)
  then show ?thesis using 1(1) 2(1,2) by (auto simp: uxQueueMessagesWaiting_def)
qed

section \<open>Fetching misses no message\<close>

text \<open>
  C26: No message is missed: when a task fetches from an empty mailbox, with or without a limit of time, and an interrupt posts a message in any window
  of the call that the pass of the queue distinguishes, from the first look at the queue until the task is blocked, the call returns with
  this message.
\<close>

theorem fetch_misses_no_message:
  assumes "receiver_ready q k" and "uxItemSize q = sizeof_ptr"
  shows "\<exists>t y q' k'. sys_arch_mbox_fetch [[pass_with w (ptr_bytes msg)]] ulTimeOut q k = Some (Returned (t, msg), y, q', k') \<and> contents q' = []"
proof -
  have len: "length (ptr_bytes msg) = uxItemSize q" using assms(2) by (simp add: sizeof_ptr_def)
  have r: "\<exists>y q' k'. xQueueReceive n [pass_with w (ptr_bytes msg)] q k = Some (Returned (ptr_bytes msg), y, q', k') \<and> contents q' = []" if "0 < n" for n
    using receive_ok [OF assms(1) len that, of w] by blast
  show ?thesis
  proof (cases "ulTimeOut = 0")
    case True
    obtain y q' k' where "xQueueReceive portMAX_DELAY [pass_with w (ptr_bytes msg)] q k = Some (Returned (ptr_bytes msg), y, q', k')" "contents q' = []"
      using r [of portMAX_DELAY] by (auto simp: portMAX_DELAY_def)
    then show ?thesis using True by (simp add: sys_arch_mbox_fetch_def Let_def)
  next
    case False
    then have "0 < ulTimeOut div portTICK_PERIOD_MS" by (simp add: portTICK_PERIOD_MS_def configTICK_RATE_HZ_def word_gt_0)
    from r [OF this] show ?thesis using False by (auto simp: sys_arch_mbox_fetch_def Let_def first_call_def)
  qed
qed

definition pointer_queue :: queue where
  "pointer_queue = small_queue\<lparr>pcHead := [0, 0, 0, 0], pcTail := 4, pcReadFrom := 0, uxLength := 1, uxItemSize := 4\<rparr>"

lemma fetch_misses_no_message_witness:
  "\<exists>t y q' k'. sys_arch_mbox_fetch [[pass_with After_Resume (ptr_bytes 0x20001234)]] 50 pointer_queue (two_tasks 0) = Some (Returned (t, 0x20001234), y, q', k') \<and>
     contents q' = []"
proof -
  have "ring_at 0 0 pointer_queue" by (simp add: ring_at_def pointer_queue_def small_queue_def)
  then have "queue_ok pointer_queue" unfolding queue_ok_def by blast
  then have "receiver_ready pointer_queue (two_tasks 0)"
    unfolding receiver_ready_def using two_tasks_ok [of 0]
    by simp (simp add: pointer_queue_def small_queue_def two_tasks_def ready_task_def contents_def)
  moreover have "uxItemSize pointer_queue = sizeof_ptr" by (simp add: pointer_queue_def sizeof_ptr_def)
  ultimately show ?thesis by (rule fetch_misses_no_message)
qed

section \<open>Only the holder of the core lock passes its check\<close>

lemma remove_from_event_list_suspended:
  "xTaskRemoveFromEventList e k = Some (y, k') \<Longrightarrow> uxSchedulerSuspended k' = uxSchedulerSuspended k"
  by (auto simp: xTaskRemoveFromEventList_def Let_def prvResetNextTaskUnblockTime_def split: list.splits if_splits)

lemma wake_waiting_suspended: "wake_waiting e k = Some (y, k') \<Longrightarrow> uxSchedulerSuspended k' = uxSchedulerSuspended k"
  by (auto simp: wake_waiting_def remove_from_event_list_suspended split: if_splits)

datatype core_op = Lock | Unlock | Call

text \<open>
  Tasks lock and unlock the core and call functions of the stack, each while it is the running task. The result of a lock is whether the task has it
  or still waits, that of a call whether the check of the function passes.
\<close>

definition core_step :: "nat \<Rightarrow> core_op \<Rightarrow> core_lock \<times> kernel \<Rightarrow> (bool \<times> core_lock \<times> kernel) option" where
  "core_step t op = (\<lambda>(c, k). case op of
     Lock \<Rightarrow> map_option (\<lambda>(r, _, s). (r = Returned (), s)) (sys_lock_tcpip_core [[]] c (running t k))
   | Unlock \<Rightarrow> map_option (\<lambda>(_, s). (True, s)) (sys_unlock_tcpip_core c (running t k))
   | Call \<Rightarrow> Some (sys_check_core_locking False c (running t k) \<noteq> None, c, running t k))"

fun core_run :: "(nat \<times> core_op) list \<Rightarrow> core_lock \<times> kernel \<Rightarrow> (bool list \<times> core_lock \<times> kernel) option" where
  "core_run [] s = Some ([], s)"
| "core_run ((t, op) # ops) s = do { (r, s) \<leftarrow> core_step t op s; (rs, s) \<leftarrow> core_run ops s; Some (r # rs, s) }"

text \<open>The lock as its owner, \<open>0\<close> for none. Only the owner unlocks.\<close>

fun owner_run :: "(nat \<times> core_op) list \<Rightarrow> nat \<Rightarrow> (bool list \<times> nat) option" where
  "owner_run [] owner = Some ([], owner)"
| "owner_run ((t, Lock) # ops) owner = (if owner = 0 then map_option (\<lambda>(rs, p). (True # rs, p)) (owner_run ops t)
     else map_option (\<lambda>(rs, p). (False # rs, p)) (owner_run ops owner))"
| "owner_run ((t, Unlock) # ops) owner = (if owner = t then map_option (\<lambda>(rs, p). (True # rs, p)) (owner_run ops 0) else None)"
| "owner_run ((t, Call) # ops) owner = map_option (\<lambda>(rs, p). ((owner = t) # rs, p)) (owner_run ops owner)"

definition core_owned :: "nat \<Rightarrow> core_lock \<times> kernel \<Rightarrow> bool" where
  "core_owned owner = (\<lambda>(c, k). mutex_held owner (lock_tcpip_core c) k \<and> lwip_core_lock_count c = (if owner = 0 then 0 else 1) \<and>
     lwip_core_lock_holder_thread c = owner \<and> lwip_tcpip_thread c \<noteq> 0 \<and> uxSchedulerSuspended k = 0)"

lemma take_core:
  assumes "mutex_held owner q k" and "t = pxCurrentTCB k" and "t \<noteq> 0" and "uxSchedulerSuspended k = 0"
  shows "\<exists>y q' k'. take_forever [[]] q k = Some (if owner = 0 then Returned () else Waiting, y, q', k') \<and>
    mutex_held (if owner = 0 then t else owner) q' k' \<and> uxSchedulerSuspended k' = 0 \<and> pxCurrentTCB k' = pxCurrentTCB k"
proof (cases "owner = 0")
  case True
  let ?k = "set_tcb t (\<lambda>x. x\<lparr>uxMutexesHeld := uxMutexesHeld x + 1\<rparr>) k"
  let ?q = "q\<lparr>uxMessagesWaiting := 0, xMutexHolder := t\<rparr>"
  obtain y k' where w: "wake_waiting (xTasksWaitingToSend q) ?k = Some (y, k')" using wake_waiting_ok by blast
  have "take_now q k = Some (Some ((), y, ?q, k'))"
    using assms True w by (simp add: take_now_def mutex_held_def pvTaskIncrementMutexHeldCount_def Let_def)
  moreover have "mutex_held t ?q k'" using assms True wake_waiting_held [OF w, of t] by (simp add: mutex_held_def)
  moreover have "pxCurrentTCB k' = pxCurrentTCB k"
    using w by (auto simp: wake_waiting_def xTaskRemoveFromEventList_def Let_def prvResetNextTaskUnblockTime_def split: list.splits if_splits)
  ultimately show ?thesis
    using assms True wake_waiting_suspended [OF w] by (auto simp: xQueueSemaphoreTake_def may_wait_def wait_loop.simps mutex_held_def)
next
  case False
  then have "take_now q k = Some None" using assms(1) by (simp add: take_now_def mutex_held_def)
  then show ?thesis
    using assms False by (auto simp: xQueueSemaphoreTake_def may_wait_def wait_loop.simps mutex_held_def portMAX_DELAY_def)
qed

lemma give_suspended:
  assumes "xQueueGenericSend None 0 queueSEND_TO_BACK [] q k = Some (r, y, q', k')" and "uxItemSize q = 0"
  shows "uxSchedulerSuspended k' = uxSchedulerSuspended k"
proof -
  have d: "xTaskPriorityDisinherit h k = Some (b, k1) \<Longrightarrow> uxSchedulerSuspended k1 = uxSchedulerSuspended k" for h b k1
    by (auto simp: xTaskPriorityDisinherit_def Let_def split: if_splits)
  have s: "send_now [] queueSEND_TO_BACK q k = Some (Some ((), y, q', k')) \<Longrightarrow> uxSchedulerSuspended k' = uxSchedulerSuspended k"
    using assms(2) by (auto simp: send_now_def prvCopyDataToQueue_def Let_def d remove_from_event_list_suspended split: if_splits bind_splits)
  show ?thesis using assms(1) s
    by (auto simp: xQueueGenericSend_def wait_loop.simps split: if_splits bind_splits option.splits)
qed

lemma core_step_ok:
  assumes "core_owned owner (c, k)" and "t \<noteq> 0" and "owner_run [(t, op)] owner = Some ([r], owner')"
  shows "\<exists>c' k'. core_step t op (c, k) = Some (r, c', k') \<and> core_owned owner' (c', k')"
proof -
  let ?k = "running t k"
  have o: "mutex_held owner (lock_tcpip_core c) ?k" "lwip_core_lock_count c = (if owner = 0 then 0 else 1)" "lwip_core_lock_holder_thread c = owner"
    "lwip_tcpip_thread c \<noteq> 0" "uxSchedulerSuspended ?k = 0" "pxCurrentTCB ?k = t"
    using assms(1) by (simp_all add: core_owned_def running_def mutex_held_def)
  show ?thesis
  proof (cases op)
    case Lock
    obtain y q' k' where "take_forever [[]] (lock_tcpip_core c) ?k = Some (if owner = 0 then Returned () else Waiting, y, q', k')"
      "mutex_held (if owner = 0 then t else owner) q' k'" "uxSchedulerSuspended k' = 0" "pxCurrentTCB k' = t"
      using take_core [OF o(1) o(6) [symmetric] assms(2) o(5)] o(6) by auto
    then show ?thesis using Lock o assms(2,3)
      by (cases "owner = 0") (auto simp: core_step_def sys_lock_tcpip_core_def sys_mutex_lock_def core_owned_def Let_def simp del: take_forever.simps)
  next
    case Unlock
    then have own: "owner = t" "r" "owner' = 0" using assms(3) by (auto split: if_splits)
    have item: "uxItemSize (lock_tcpip_core c) = 0" using o(1) by (simp add: mutex_held_def)
    obtain y q' k' where s: "xQueueGenericSend None 0 queueSEND_TO_BACK [] (lock_tcpip_core c) ?k = Some (Returned (), y, q', k')" "mutex_held 0 q' k'"
      using give_mutex [OF o(1) o(6) [symmetric] assms(2)] own(1) by auto
    then show ?thesis using Unlock own o assms(2) give_suspended [OF s(1) item]
      by (auto simp: core_step_def sys_unlock_tcpip_core_def sys_mutex_unlock_def xSemaphoreGive_def core_owned_def Let_def)
  next
    case Call
    then show ?thesis using o assms(2,3) by (auto simp: core_step_def sys_check_core_locking_def core_owned_def running_def mutex_held_def Let_def)
  qed
qed

lemma core_run_ok:
  "core_owned owner s \<Longrightarrow> \<forall>(t, op) \<in> set ops. t \<noteq> 0 \<Longrightarrow> owner_run ops owner = Some (rs, owner') \<Longrightarrow>
   \<exists>s'. core_run ops s = Some (rs, s') \<and> core_owned owner' s'"
proof (induction ops arbitrary: owner s rs)
  case Nil
  then show ?case by simp
next
  case (Cons a ops)
  obtain t op where a: "a = (t, op)" by (cases a)
  obtain c k where s: "s = (c, k)" by (cases s)
  obtain r rs1 owner1 where 1: "owner_run [(t, op)] owner = Some ([r], owner1)" "owner_run ops owner1 = Some (rs1, owner')" "rs = r # rs1"
    using Cons.prems(3) unfolding a by (cases op) (auto split: if_splits)
  have t: "t \<noteq> 0" "\<forall>(t, op) \<in> set ops. t \<noteq> 0" using Cons.prems(2) a by auto
  obtain c1 k1 where 2: "core_step t op (c, k) = Some (r, c1, k1)" "core_owned owner1 (c1, k1)"
    using core_step_ok [OF Cons.prems(1) [unfolded s] t(1) 1(1)] by blast
  from Cons.IH [OF 2(2) t(2) 1(2)] show ?case using 1(3) 2(1) by (auto simp: a s)
qed

text \<open>
  C27: The lock of the core excludes. Once the thread of the stack is marked, whatever tasks lock it, unlock it when they hold it, and call functions of the stack, in any order, a lock is
  granted iff nobody holds the core, and otherwise the task waits; the check at the start of each function of the stack passes exactly for the
  task that holds the lock, and fails in an interrupt.
\<close>

theorem core_lock_excludes:
  assumes "mutex_held 0 (lock_tcpip_core c) k" and "lwip_core_lock_count c = 0" and "lwip_core_lock_holder_thread c = 0"
    and "lwip_tcpip_thread c \<noteq> 0" and "uxSchedulerSuspended k = 0" and "\<forall>(t, op) \<in> set ops. t \<noteq> 0" and "owner_run ops 0 = Some (rs, owner)"
  shows "\<exists>c' k'. core_run ops (c, k) = Some (rs, c', k') \<and> lwip_core_lock_holder_thread c' = owner \<and>
    (\<forall>t. sys_check_core_locking False c' (running t k') = Some () \<longleftrightarrow> t = owner \<and> owner \<noteq> 0) \<and> sys_check_core_locking True c' k' = None"
proof -
  have "core_owned 0 (c, k)" using assms(1-5) by (simp add: core_owned_def)
  from core_run_ok [OF this assms(6,7)] obtain c' k' where "core_run ops (c, k) = Some (rs, c', k')" "core_owned owner (c', k')" by auto
  then show ?thesis by (auto simp: core_owned_def sys_check_core_locking_def Let_def intro!: exI [of _ c'] exI [of _ k'])
qed

definition free_core :: core_lock where
  "free_core = \<lparr>lock_tcpip_core = free_mutex, lwip_core_lock_count = 0, lwip_core_lock_holder_thread = 0, lwip_tcpip_thread = 2\<rparr>"

lemma core_lock_excludes_witness:
  "\<exists>c' k'. core_run [(1, Call), (1, Lock), (2, Lock), (2, Call), (1, Call), (1, Unlock), (2, Lock), (2, Call)] (free_core, two_tasks 0) =
     Some ([False, True, False, False, True, True, True, True], c', k') \<and> lwip_core_lock_holder_thread c' = 2"
proof -
  have s: "mutex_held 0 (lock_tcpip_core free_core) (two_tasks 0)" "lwip_core_lock_count free_core = 0" "lwip_core_lock_holder_thread free_core = 0"
    "lwip_tcpip_thread free_core \<noteq> 0" "uxSchedulerSuspended (two_tasks 0) = 0"
    using free_mutex_held by (simp_all add: free_core_def two_tasks_def)
  let ?ops = "[(1 :: nat, Call), (1, Lock), (2, Lock), (2, Call), (1, Call), (1, Unlock), (2, Lock), (2, Call)]"
  have "\<forall>(t, op) \<in> set ?ops. t \<noteq> 0" "owner_run ?ops 0 = Some ([False, True, False, False, True, True, True, True], 2)" by simp_all
  from core_lock_excludes [OF s this] show ?thesis by blast
qed

section \<open>A mailbox from an empty heap\<close>

lemma mailbox_is_sequence_witness:
  "\<exists>h q k1 q' k'. sys_mbox_new 1000 256 (\<lambda>n. replicate n 0) 2 (prvHeapInit 1000 256 heap4_boot) (two_tasks 0) = Some (ERR_OK, 1008, Some q, h, k1) \<and>
     mbox_run [Post False 5, Post True 6, Post False 7, Fetch, Post True 8, Fetch, Fetch, Fetch] (q, k1) =
       Some ([Inl ERR_OK, Inl ERR_OK, Inl ERR_MEM, Inr (Some 5), Inl ERR_OK, Inr (Some 6), Inr (Some 8), Inr None], q', k')"
proof -
  let ?heap = "prvHeapInit 1000 256 heap4_boot"
  have h: "heap_ok 1000 ?heap [(1000, 248, False)]"
    using heap_init_ok [of 256 1000 heap4_boot]
    by (simp add: heap_start_def heap_end_def align_down_def portBYTE_ALIGNMENT_def xHeapStructSize_def xStart_def)
  have i: "inside 1000 256 1000 ?heap"
    by (simp add: inside_def init_end heap_start_def heap_end_def align_down_def portBYTE_ALIGNMENT_def xHeapStructSize_def)
  obtain h' where m: "pvPortMalloc 1000 256 (of_nat (sizeof_Queue_t + 2 * sizeof_ptr)) ?heap = Some (1008, h')"
    using malloc_refines [OF h i, where want = "of_nat (sizeof_Queue_t + 2 * sizeof_ptr)"]
    by (auto simp: block_for_def carved_def heapMINIMUM_BLOCK_SIZE_def sizeof_Queue_t_def sizeof_ptr_def)
  let ?ops = "[Post False 5, Post True 6, Post False 7, Fetch, Post True 8, Fetch, Fetch, Fetch]"
  have "uxCurrentNumberOfTasks (two_tasks 0) \<le> 127" by (simp add: two_tasks_def)
  from mailbox_is_sequence [OF _ _ _ this m, of "\<lambda>n. replicate n 0" ?ops] show ?thesis by auto
qed

end
