(* ===== verification/Spec2Isabelle.thy ===== *)
theory Spec2Isabelle
  imports Prelude I2C_Bus Eeprom C_String Watchdog HealthMonitor Indicators DataLogger Ds3231 Float32
    Bmp280 WebService EthService Application RtosList Heap4 RtosTasks RtosNotify RtosEvents RtosQueue
    QueueFifo QueueSync Scheduler EventGroups InetChecksum Ip4Addr LwipDef Memp LwipHeap Pbuf PbufRefs PbufRuns SysTimeouts SysArch
begin

text \<open>
  A model of the firmware of the MCXN947 web-based data logger: the application under
  \<^verbatim>\<open>MCXN947_Web_Based_Data_Logger/\<close> (its drivers, services and tasks) and the FreeRTOS kernel it runs on, as the
  repository configures it. Paths below are relative to that directory.

  \<^bold>\<open>The program.\<close> \<^verbatim>\<open>source/\<close>'s \<^verbatim>\<open>main\<close> brings up the I2C bus and the devices on it (the AT24C32 memory, the DS3231 clock, the
  BMP280 sensor), then creates six tasks, each of which registers with the health monitor. The sensor task reads the
  clock and the sensor into shared variables; the application task publishes them to the web service and drives
  LED 1 from the control flag that the web service keeps; the data logger writes records to two rings in the memory;
  the indicator task blinks the LEDs; the TCP echo server and the HTTP server answer the network; the health monitor
  refreshes the windowed watchdog as long as no task is overdue. The tasks interact through shared variables,
  notifications, delays and the kernel's queues, so the kernel is modelled as well, and so are the parts of the network stack below
  the services that manage memory, packets and time.

  \<^bold>\<open>The theories and the code.\<close>
  \<^item> \<open>Prelude\<close>: C integers as words, byte memories, lemmas on words and lists. \<open>C_String\<close>: the functions of the C library
    on character arrays that the program uses. \<open>Float32\<close>: single-precision numbers and rounding.
  \<^item> \<open>I2C_Bus\<close>, \<open>Eeprom\<close>, \<open>Ds3231\<close>, \<open>Bmp280\<close>: \<^verbatim>\<open>drivers/My_I2C_driver.c\<close>, \<^verbatim>\<open>My_I2C_eeprom.c\<close>, \<^verbatim>\<open>My_I2C_DS3231.c\<close>, \<^verbatim>\<open>My_I2C_bmp280.c\<close>. The
    transfer function of the SDK is the parameter \<open>xfer\<close>; what a device promises is a locale (\<open>at24c32\<close>, \<open>ds3231\<close>,
    \<open>bmp280_chip\<close>), interpreted on a simulated device.
  \<^item> \<open>Watchdog\<close>, \<open>HealthMonitor\<close>: \<^verbatim>\<open>drivers/fsl_wwdt.c\<close> as far as it is used, \<^verbatim>\<open>services/HealthMonitor_service\<close>.
  \<^item> \<open>Indicators\<close>, \<open>DataLogger\<close>, \<open>WebService\<close>, \<open>EthService\<close>: the LED driver and the services of these names. The memory that the
    logger writes to is the locale \<open>log_store\<close>, which the driver of the memory chip provides by a sublocale.
  \<^item> \<open>Application\<close>: \<^verbatim>\<open>services/Analog_service\<close>, \<^verbatim>\<open>app/MainApp\<close> and \<^verbatim>\<open>main\<close>.
  \<^item> \<open>RtosList\<close>: \<^verbatim>\<open>freertos/freertos-kernel-upstream/list.c\<close> on a store of linked items; \<open>kernel_list\<close> is its contract as sequences.
  \<^item> \<open>Heap4\<close>: \<^verbatim>\<open>freertos/freertos-kernel/portable/MemMang/heap_4.c\<close> on addresses, with the free list threaded through the blocks.
  \<^item> \<open>RtosTasks\<close>, \<open>RtosNotify\<close>, \<open>RtosEvents\<close>, \<open>Scheduler\<close>: \<^verbatim>\<open>tasks.c\<close>. One record \<open>kernel\<close> holds the static variables of the file;
    its lists are the sequences that \<open>RtosList\<close> shows the linked lists to be, and each control block names the list that
    holds its items, as the container pointers of the code do.
  \<^item> \<open>RtosQueue\<close>, \<open>QueueFifo\<close>, \<open>QueueSync\<close>: \<^verbatim>\<open>queue.c\<close>, queues, semaphores and mutexes over the model of the tasks.
  \<^item> \<open>EventGroups\<close>: \<^verbatim>\<open>event_groups.c\<close>, also over the model of the tasks.
  \<^item> \<open>InetChecksum\<close>, \<open>Ip4Addr\<close>, \<open>LwipDef\<close>: \<^verbatim>\<open>inet_chksum.c\<close>, \<^verbatim>\<open>ipv4/ip4_addr.c\<close> and \<^verbatim>\<open>def.c\<close> of the network stack in \<^verbatim>\<open>lwip/src/core\<close>.
  \<^item> \<open>Memp\<close>, \<open>LwipHeap\<close>: \<^verbatim>\<open>memp.c\<close> and \<^verbatim>\<open>mem.c\<close>, pools and the heap on addresses, with the windows in which other contexts may free.
  \<^item> \<open>Pbuf\<close>, \<open>PbufRefs\<close>, \<open>PbufRuns\<close>: \<^verbatim>\<open>pbuf.c\<close>; \<open>Pbuf\<close> has the operations and the bytes of packets, the other two the counting of references
    and the runs of calls, down to the pools and the heap.
  \<^item> \<open>SysTimeouts\<close>: \<^verbatim>\<open>timeouts.c\<close>. \<open>SysArch\<close>: \<^verbatim>\<open>lwip/port/sys_arch/dynamic/sys_arch.c\<close>, mailboxes, semaphores and locks over the queues of the kernel.

  \<^bold>\<open>What is shown.\<close> For the application: the watchdog is fed under the shipped table of services and what withholds
  the refresh; the log keeps exactly the latest records and stays in its partitions; writes and reads of the memory and of
  the clock are inverse to each other and bursts stay inside a page; the compensation formulas keep their bounds and a failed read
  changes nothing; the blinking is a square wave; a request is dispatched, answered and acted on as its text
  says, from the text of the request to the LED and from the sensor to the JSON. For the kernel: list insertion is
  stable and removal exact; the heap is first fit, its live blocks stay disjoint, freeing merges with both neighbours
  and every call returns; delays, periodic delays and time-outs are exact over the wrap-around of the tick count; no sequence of
  calls breaks the lists or leaves a task running that a ready task exceeds in priority; no notification and no item
  is lost between the test and the block; queues are sequences, mutexes are locks, and priorities are inherited and given back; setting
  bits of an event group wakes exactly the tasks whose condition they meet. For the network stack: the checksum routines are the sum of RFC 1071 however the
  data is aligned or cut into buffers, a segment verifies and its corruption is detected, and addresses survive writing and reading; pools and the heap
  hand out disjoint memory and get it back; the counts of packet buffers are the references to them, and packets are read, written, copied and searched
  as strings of bytes; timers run in the order and as often as they should; mailboxes are sequences that miss no message, and the core lock excludes.

  \<^bold>\<open>Errors, bounds, loops.\<close> A failed \<^verbatim>\<open>configASSERT\<close>, a null dereference or an endless loop is \<open>None\<close>; a property that says
  \<open>\<exists>k'. f k = Some k'\<close> says that the call returns. Loops over linked structures are partial functions, whose results
  are proved to exist from the invariants. Counters, addresses and times have the width of the code. A task that
  blocks gives way to the rest of the system, which is a parameter: the steps \<open>isr1\<close>, \<open>isr2\<close> and \<open>others\<close> of a wait for
  a notification, and a list of passes of the loop of a queue operation, each a record \<open>pass_env\<close> with a step for every point at which interrupts or
  other tasks can act. The list needs one entry for each time that
  the operation blocks; with fewer the result is \<open>Waiting\<close>, which is a value of its own. What a property assumes of these steps is part of its statement:
  for a mutex, that interrupts leave it alone and that other tasks change its owner only. Runs of calls are reachability predicates
  (\<open>mutex_reach\<close>, \<open>heap_reach\<close>, \<open>ref_reach\<close>) or functions on lists of calls; which calls are legal is a definition of its own that does not run the code, and
  where an illegal call stops in an assertion, that is stated. A request to yield is a result that the caller hands to
  \<open>vTaskSwitchContext\<close>: the code pends an interrupt that does the same.

  \<^bold>\<open>Not modelled.\<close> The SDK drivers, the start-up code, the board set-up and the device headers access registers and carry no
  logic of this program; their results are parameters. To the services the network stack appears as what its calls return, and the content of the files it
  serves as a table; its protocols, its sockets and its interfaces are not modelled. In the kernel: creating and deleting tasks, software timers, stream buffers and the
  port layer; trace and debug functions.
\<close>

section \<open>Properties that span components\<close>

text \<open>
  Start-up registers all six tasks. From the zero-initialised monitor, whatever the devices on
  the bus answer, \<^verbatim>\<open>main\<close> reaches the scheduler when the compilation date has the compiler's
  format, with the identifiers 0 to 5 in the order of the calls and with the limits 300, 600,
  1000, 200, 300 and 1000 ms, every task checked in and every handle distinct.
\<close>

theorem boot_registers_all:
  assumes "sys_hms s = hms_boot" and "compile_time DATE TIME = Some t"
  shows "\<exists>ids s'. main_init fl xfer delay_us clk DATE TIME s = Some (ids, s') \<and> map unat ids = [0, 1, 2, 3, 4, 5] \<and>
    services (sys_hms s') = [(300, True, Some 0), (600, True, Some 1), (1000, True, Some 2),
      (200, True, Some 3), (300, True, Some 4), (1000, True, Some 5)]"
proof -
  obtain ids s' where r: "main_init fl xfer delay_us clk DATE TIME s = Some (ids, s')"
    using main_init_succeeds [OF assms(2,1)] by blast
  from main_init_services [OF r assms(1)] r show ?thesis by (simp add: main_services_def)
qed

definition sys_boot :: "sim_chip system" where
  "sys_boot = \<lparr>sys_analog = \<lparr>a_sensor = handle0, a_temp = 0, a_pressure = 0, a_time = noon\<rparr>, sys_i2c = i2c_driver_boot,
     sys_world = \<lparr>sim_array = (\<lambda>_. 0xFF), sim_busy = False\<rparr>, sys_hms = hms_boot, sys_leds = leds_off, sys_web = web_boot\<rparr>"

lemma sys_boot_hms: "sys_hms sys_boot = hms_boot"
  by (simp add: sys_boot_def)

lemma sample_date:
  "compile_time (date_text 5 9 2026) (time_text 7 8 9) =
     Some \<lparr>sec = 9, min = 8, hour = 7, day = 1, date = 5, month = 9, year = 26\<rparr>"
proof -
  have "(9 :: nat) \<in> set [1..<13]" by simp
  from compile_time_text [OF this, of 5 2026 7 8 9] show ?thesis by simp
qed

theorem boot_registers_all_witness:
  "\<exists>ids s'. main_init fl32 sim_xfer sim_delay 12000000 (date_text 5 9 2026) (time_text 7 8 9) sys_boot = Some (ids, s') \<and>
     map unat ids = [0, 1, 2, 3, 4, 5]"
proof -
  obtain ids s' where "main_init fl32 sim_xfer sim_delay 12000000 (date_text 5 9 2026) (time_text 7 8 9) sys_boot = Some (ids, s')"
    and "map unat ids = [0, 1, 2, 3, 4, 5]"
    using boot_registers_all [OF sys_boot_hms sample_date, of fl32 sim_xfer sim_delay 12000000] by force
  then show ?thesis by (intro exI conjI)
qed

text \<open>
  C1: The watchdog of the shipped configuration can never fire while the monitor runs. With the
  table that \<^verbatim>\<open>main\<close> sets up, whatever tasks check in or freeze, every 7 consecutive passes of the
  monitor, 70 ms, contain a refresh, and the watchdog is configured for 100 ms: the only limit
  the monitor's byte can reach is 200 ms, and the byte leaves the range 200 to 255 after six passes.
\<close>

theorem watchdog_never_expires:
  assumes "sys_hms s = hms_boot" and "main_init fl xfer delay_us clk DATE TIME s = Some (ids, s')"
    and "hms_run before (hms_task_start (sys_hms s')) = (m, bs)" and "length cs = 7"
  shows "True \<in> set (snd (hms_run cs m)) \<and>
    unat (timeoutValue (hms_wwdt_config freq)) = unat freq div 4 div 1000 * 100"
proof -
  note I = main_init_services [OF assms(2,1)]
  have "at_most_one_short_limit (hms_task_start (sys_hms s')) 3" "hms_wf (hms_task_start (sys_hms s'))"
    using main_services_limits [of "sys_hms s'"] I by (simp_all add: at_most_one_short_limit_def hms_task_start_def hms_wf_def)
  moreover from this hms_run_keeps [OF _ assms(3)] have "hms_wf m" "at_most_one_short_limit m 3"
    by (simp_all add: at_most_one_short_limit_def)
  moreover have "unat (timeoutValue (hms_wwdt_config freq)) = unat freq div 4 div 1000 * 100"
  proof -
    have "unat (freq div 4 div 1000) = unat freq div 4 div 1000" by (simp add: unat_div)
    moreover have "unat freq div 4 div 1000 * 100 < 2 ^ 32"
      using unat_u32_less [of freq] by (simp del: unat_u32_less add: div_mult2_eq [symmetric])
    ultimately show ?thesis
      by (simp add: hms_wwdt_config_def Let_def unat_mult_lem [THEN iffD1])
  qed
  ultimately show ?thesis using seven_passes_refresh [OF _ _ assms(4)] by blast
qed

theorem watchdog_never_expires_witness:
  "\<exists>ids s'. main_init fl32 sim_xfer sim_delay 12000000 (date_text 5 9 2026) (time_text 7 8 9) sys_boot = Some (ids, s') \<and>
     (\<forall>n. True \<in> set (snd (hms_run (replicate 7 []) (fst (hms_run (replicate n []) (hms_task_start (sys_hms s')))))))"
proof -
  obtain ids s' where r: "main_init fl32 sim_xfer sim_delay 12000000 (date_text 5 9 2026) (time_text 7 8 9) sys_boot = Some (ids, s')"
    using main_init_succeeds [OF sample_date sys_boot_hms, of fl32 sim_xfer sim_delay 12000000] by force
  have "True \<in> set (snd (hms_run (replicate 7 []) (fst (hms_run (replicate n []) (hms_task_start (sys_hms s'))))))" for n
    using watchdog_never_expires [OF sys_boot_hms r, where before = "replicate n []" and cs = "replicate 7 []"]
    by (cases "hms_run (replicate n []) (hms_task_start (sys_hms s'))") simp
  with r show ?thesis by blast
qed

text \<open>
  C9: A command from the browser reaches the LED. After the HTTP task has served a POST to
  \<^verbatim>\<open>/api/control\<close> that contains \<^verbatim>\<open>"on"\<close> (or only \<^verbatim>\<open>"off"\<close>), the next pass of the application task
  drives LED 1 and its pin to that value, and any number of ticks of the indicator task keeps it.
\<close>

theorem web_command_drives_led:
  assumes "http_handler_pass fl fs body_buf tx_buf wid wn taken (Accepted (Some rx)) (v, m) = (resp, conn_closed, v1, m1)"
    and "parse_request (c_str (rx @ [NUL])) = Some (''POST'', ''/api/control'')"
    and "strstr (c_str (rx @ [NUL])) (quoted (if on then ''on'' else ''off''))"
    and "on \<or> \<not> strstr (c_str (rx @ [NUL])) (quoted ''on'')"
    and "MainApp_TASK_pass aid an ataken a (v1, l, m2) = (v2, l2, m3)" and "led_wf l"
  shows "level (led ((led_service_task_10ms ^^ n) l2) ! 1) = on \<and>
    gpio ((led_service_task_10ms ^^ n) l2) (0, 27) = (if on then 1 else 0)"
proof -
  have "v1 = snd (handle_control_post (c_str (rx @ [NUL])) v)"
    using assms(1,2) strncmp_literals
    by (auto simp: http_handler_pass_def http_route_def Let_def is_prefix_iff split: prod.splits)
  then have "g_web_control_active v1 = (if on then 1 else 0)"
    using assms(3,4) by (simp add: control_flag split: if_splits)
  then have l2: "l2 = led_service_set_solid LED_1 on l"
    using assms(5) by (auto simp: MainApp_TASK_pass_def Let_def WebService_UpdateSensorData_def split: if_splits)
  note S = set_solid_led1 [OF assms(6), of on]
  have "pin_shows_level 1 l2"
    using S by (simp add: l2 pin_shows_level_def led_pins_def)
  from solid_ticks [OF _ _ _ this, of n] S show ?thesis
    by (auto simp: l2 pin_shows_level_def led_pins_def)
qed

theorem web_command_drives_led_witness:
  "gpio ((led_service_task_10ms ^^ 100) (fst (snd (MainApp_TASK_pass 4 True True (sys_analog sys_boot)
     (fst (snd (snd (http_handler_pass fl32 [] [] [] 5 True True (Accepted (Some post_on)) (web_boot, hms_boot)))),
      leds_off, hms_boot))))) (0, 27) = 1"
proof -
  obtain resp c v1 m1 where r: "http_handler_pass fl32 [] [] [] 5 True True (Accepted (Some post_on)) (web_boot, hms_boot) = (resp, c, v1, m1)"
    by (cases "http_handler_pass fl32 [] [] [] 5 True True (Accepted (Some post_on)) (web_boot, hms_boot)")
  obtain v2 l2 m3 where p: "MainApp_TASK_pass 4 True True (sys_analog sys_boot) (v1, leds_off, hms_boot) = (v2, l2, m3)"
    by (cases "MainApp_TASK_pass 4 True True (sys_analog sys_boot) (v1, leds_off, hms_boot)")
  from web_command_drives_led [OF r _ _ _ p led_wf_leds_off, of True 100] post_on_facts r p show ?thesis by simp
qed

definition get_sensor :: string where "get_sensor = ''GET /api/sensor HTTP/1.1''"

lemma get_sensor_parses: "parse_request (c_str (get_sensor @ [NUL])) = Some (''GET'', ''/api/sensor'')"
proof -
  have "token ''GET''" "token ''/api/sensor''" by (simp_all add: token_def is_space_def NUL_def)
  from parse_tokens [OF this(1) _ this(2), of "''HTTP/1.1''"]
  have "parse_request get_sensor = Some (''GET'', ''/api/sensor'')" by (simp add: get_sensor_def)
  moreover have "c_str (get_sensor @ [NUL]) = get_sensor"
    by (rule c_str_append_NUL) (simp add: get_sensor_def NUL_def)
  ultimately show ?thesis by simp
qed

definition sample_reading :: analog where
  "sample_reading = \<lparr>a_sensor = handle0, a_temp = 21, a_pressure = 1013, a_time = noon\<rparr>"

text \<open>
  C12: What the sensor task measured is what the browser gets. When the application task obtains
  the mutex within its time-out, a request for the sensor document served next, with the HTTP task obtaining it too, is
  answered with the readings and the time of the sensor task at that pass: the document of these three, with its length in the header,
  for every rounding of the float arithmetic. With exact arithmetic the two numbers in it are the readings cut to tenths;
  but the code writes the sign with the whole part only, so a reading strictly between -1 and 0 appears as its
  absolute value.
\<close>

theorem published_reading_is_served:
  assumes "rounding fl" and "MainApp_TASK_pass aid an True a (v, l, m) = (v1, l1, m1)"
    and "sensor_ok (g_sensor_data v)" and "\<bar>float_whole (a_temp a)\<bar> < 2 ^ 31" and "\<bar>float_whole (a_pressure a)\<bar> < 2 ^ 31"
    and "valid_time (a_time a)"
    and "parse_request (c_str (rx @ [NUL])) = Some (''GET'', ''/api/sensor'')"
    and "length body_buf = 128" and "length tx_buf = HTTP_TX_BUF_SIZE"
    and "http_handler_pass fl fs body_buf tx_buf wid wn True (Accepted (Some rx)) (v1, m2) = (resp, conn_closed, v2, m3)"
    and "c_str ts = timestamp_text (a_time a)"
  shows "let json = json_text fl \<lparr>temp = a_temp a, pressure = a_pressure a, ts_buf = ts\<rparr>
    in resp = Some (json_header (int (length json)) @ json) \<and>
       ((\<forall>r. fl r = r) \<longrightarrow> json =
          ''{'' @ quoted ''temp'' @ '':'' @ decimal_text (tenths (if sign_kept (a_temp a) then a_temp a else - a_temp a)) @
          '','' @ quoted ''pressure'' @ '':'' @ decimal_text (tenths (if sign_kept (a_pressure a) then a_pressure a else - a_pressure a)) @
          '','' @ quoted ''timestamp'' @ '':'' @ quoted (timestamp_text (a_time a)) @ ''}'')"
proof -
  have v1: "g_sensor_data v1 = g_sensor_data (WebService_UpdateSensorData True (a_time a) (a_temp a) (a_pressure a) v)"
    using assms(2) by (auto simp: MainApp_TASK_pass_def Let_def)
  have len: "length (ts_buf (g_sensor_data v)) = 24" using assms(3) by (simp add: sensor_ok_def)
  have ok: "sensor_ok (g_sensor_data v1)"
    unfolding v1 by (rule sensor_ok_update [OF assms(3,4,5)])
  have stamp: "c_str (ts_buf (g_sensor_data v1)) = c_str ts"
    using update_timestamp(1) [OF len] timestamp_valid_length [OF assms(6)] by (simp add: v1 assms(11))
  have vals: "temp (g_sensor_data v1) = a_temp a" "pressure (g_sensor_data v1) = a_pressure a"
    by (simp_all add: v1 WebService_UpdateSensorData_def)
  have json: "json_text fl (g_sensor_data v1) = json_text fl \<lparr>temp = a_temp a, pressure = a_pressure a, ts_buf = ts\<rparr>"
    by (simp add: json_text_def stamp vals)
  obtain buf n where send: "send_sensor_json fl body_buf tx_buf True v1 = (buf, n)"
    by (cases "send_sensor_json fl body_buf tx_buf True v1")
  have "resp = Some (take n buf)"
    using assms(7,10) send
    by (simp add: http_handler_pass_def http_route_def strncmp_eq_def)
  with rounding.sensor_response [OF assms(1) ok assms(8,9) send]
  have r: "resp = Some (json_header (int (length (json_text fl \<lparr>temp = a_temp a, pressure = a_pressure a, ts_buf = ts\<rparr>))) @
      json_text fl \<lparr>temp = a_temp a, pressure = a_pressure a, ts_buf = ts\<rparr>)"
    by (simp add: json Let_def)
  have "json_text fl \<lparr>temp = a_temp a, pressure = a_pressure a, ts_buf = ts\<rparr> =
      ''{'' @ quoted ''temp'' @ '':'' @ decimal_text (tenths (if sign_kept (a_temp a) then a_temp a else - a_temp a)) @
      '','' @ quoted ''pressure'' @ '':'' @ decimal_text (tenths (if sign_kept (a_pressure a) then a_pressure a else - a_pressure a)) @
      '','' @ quoted ''timestamp'' @ '':'' @ quoted (timestamp_text (a_time a)) @ ''}''" if "\<forall>r. fl r = r"
  proof -
    have fl: "fl = (\<lambda>r. r)" using that by blast
    show ?thesis unfolding fl json_text_def number_text [symmetric] by (simp add: assms(11))
  qed
  with r show ?thesis by (simp add: Let_def)
qed

theorem published_reading_is_served_witness:
  "\<exists>n. fst (http_handler_pass fl32 [] (replicate 128 NUL) (replicate 384 NUL) 5 False True (Accepted (Some get_sensor))
      (fst (MainApp_TASK_pass 4 False True sample_reading (web_boot, leds_off, hms_boot)), hms_boot)) =
    Some (json_header n @ json_text fl32 \<lparr>temp = 21, pressure = 1013, ts_buf = timestamp_text noon @ [NUL]\<rparr>)"
proof -
  obtain v1 l1 m1 where p: "MainApp_TASK_pass 4 False True sample_reading (web_boot, leds_off, hms_boot) = (v1, l1, m1)"
    by (cases "MainApp_TASK_pass 4 False True sample_reading (web_boot, leds_off, hms_boot)")
  obtain resp c v2 m3 where r: "http_handler_pass fl32 [] (replicate 128 NUL) (replicate 384 NUL) 5 False True
      (Accepted (Some get_sensor)) (v1, hms_boot) = (resp, c, v2, m3)"
    by (cases "http_handler_pass fl32 [] (replicate 128 NUL) (replicate 384 NUL) 5 False True (Accepted (Some get_sensor)) (v1, hms_boot)")
  have ok: "sensor_ok (g_sensor_data web_boot)" by (simp add: web_boot_def sensor_ok_zero)
  have a: "\<bar>float_whole (a_temp sample_reading)\<bar> < 2 ^ 31" "\<bar>float_whole (a_pressure sample_reading)\<bar> < 2 ^ 31"
    "valid_time (a_time sample_reading)"
    by (simp_all add: sample_reading_def float_whole_def trunc_rat_def valid_time_def noon_def)
  have ts: "c_str (timestamp_text noon @ [NUL]) = timestamp_text (a_time sample_reading)"
    using c_str_append_NUL [OF timestamp_no_NUL, of noon "[]"] by (simp add: sample_reading_def)
  from published_reading_is_served [OF fl32.rounding_axioms p ok a _ _ _ r ts] get_sensor_parses
  have "\<exists>n. resp = Some (json_header n @ json_text fl32 \<lparr>temp = 21, pressure = 1013, ts_buf = timestamp_text noon @ [NUL]\<rparr>)"
    by (auto simp: sample_reading_def HTTP_TX_BUF_SIZE_def Let_def)
  then show ?thesis unfolding p r fst_conv .
qed

end
